(* ===== verification/Prelude.thy ===== *)
theory Prelude
  imports Main "HOL-Library.AList" "HOL-Library.Multiset" "HOL-Library.Sublist"
begin

text \<open>
  Shared vocabulary of the development: the result type that carries the Python exceptions of
  the source, Python dictionaries as association lists (insertion order, update in place), the
  prefix comparison loops the caches run on token lists, page rounding, and the generic lemmas
  the component theories use through the collections \<open>res_simps\<close>, \<open>dict_simps\<close> and
  \<open>page_simps\<close>.
\<close>

named_theorems res_simps "rewriting of computations in the result type"
named_theorems dict_simps "rewriting of dictionary operations"
named_theorems page_simps "rewriting of page rounding"

section \<open>Exceptions as values\<close>

text \<open>
  The exceptions the modelled code raises. \<open>OutOfFuel\<close> is not an exception of the source: it
  is the value of a loop that did not stop within the bound its model is given, and the
  theorems about such loops show that it is not reached.
\<close>

datatype py_error =
    ValueError | IndexError | KeyError | TypeError | AttributeError | AssertionError
  | RuntimeError | NotImplementedError | ZeroDivisionError | UnboundLocalError | OutOfFuel

type_synonym 'a res = "py_error + 'a"

definition rbind :: "'a res \<Rightarrow> ('a \<Rightarrow> 'b res) \<Rightarrow> 'b res" where
  "rbind m f = (case m of Inl e \<Rightarrow> Inl e | Inr x \<Rightarrow> f x)"

definition guard_res :: "bool \<Rightarrow> py_error \<Rightarrow> unit res" where
  "guard_res b e = (if b then Inr () else Inl e)"

definition of_opt :: "py_error \<Rightarrow> 'a option \<Rightarrow> 'a res" where
  "of_opt e m = (case m of None \<Rightarrow> Inl e | Some x \<Rightarrow> Inr x)"

lemma rbind_simps [simp, res_simps]:
  "rbind (Inl e) f = Inl e"
  "rbind (Inr x) f = f x"
  by (simp_all add: rbind_def)

lemma of_opt_simps [simp, res_simps]:
  "of_opt e None = Inl e"
  "of_opt e (Some x) = Inr x"
  by (simp_all add: of_opt_def)

lemma guard_res_simps [simp, res_simps]:
  "guard_res True e = Inr ()"
  "guard_res False e = Inl e"
  by (simp_all add: guard_res_def)

lemma rbind_eq_Inr_iff [res_simps]:
  "rbind m f = Inr y \<longleftrightarrow> (\<exists>x. m = Inr x \<and> f x = Inr y)"
  by (cases m) auto

lemma of_opt_eq_Inr_iff [res_simps]: "of_opt e m = Inr x \<longleftrightarrow> m = Some x"
  by (cases m) auto

lemma guard_res_eq_Inr_iff [res_simps]: "guard_res b e = Inr u \<longleftrightarrow> b"
  by (simp add: guard_res_def)

lemma rbind_cong [fundef_cong]:
  "m = m' \<Longrightarrow> (\<And>x. m' = Inr x \<Longrightarrow> f x = f' x) \<Longrightarrow> rbind m f = rbind m' f'"
  by (cases m') auto

text \<open>A comprehension whose element expression may raise.\<close>

fun rmap :: "('a \<Rightarrow> 'b res) \<Rightarrow> 'a list \<Rightarrow> 'b list res" where
  "rmap f [] = Inr []"
| "rmap f (x # xs) = rbind (f x) (\<lambda>y. rbind (rmap f xs) (\<lambda>ys. Inr (y # ys)))"

section \<open>Dictionaries\<close>

text \<open>
  A Python \<open>dict\<close> keeps insertion order and overwrites in place; \<open>AList.update\<close> does the
  same on an association list, \<open>map_of\<close> is the lookup and \<open>dict_pop\<close> is \<open>d.pop(k, None)\<close>.
  An \<open>OrderedDict\<close> adds \<open>move_to_end\<close> and \<open>popitem(last=False)\<close>, which is \<open>tl\<close>.
\<close>

type_synonym ('k, 'v) dict = "('k \<times> 'v) list"

definition dict_pop :: "'k \<Rightarrow> ('k, 'v) dict \<Rightarrow> ('k, 'v) dict" where
  "dict_pop k d = AList.delete k d"

definition move_to_end :: "'k \<Rightarrow> ('k, 'v) dict \<Rightarrow> ('k, 'v) dict" where
  "move_to_end k d = (case map_of d k of None \<Rightarrow> d | Some v \<Rightarrow> dict_pop k d @ [(k, v)])"

abbreviation dict_keys :: "('k, 'v) dict \<Rightarrow> 'k list" where
  "dict_keys d \<equiv> map fst d"

lemma map_of_dict_pop [dict_simps]: "map_of (dict_pop k d) = (map_of d)(k := None)"
  by (simp add: dict_pop_def delete_conv')

lemma set_dict_pop [dict_simps]: "set (dict_pop k d) = {(k', v) \<in> set d. k' \<noteq> k}"
  by (auto simp: dict_pop_def AList.delete_eq)

lemma dict_keys_pop [dict_simps]: "dict_keys (dict_pop k d) = filter (\<lambda>x. x \<noteq> k) (dict_keys d)"
  by (induction d) (auto simp: dict_pop_def AList.delete_eq)

lemma distinct_dict_pop [intro]: "distinct (dict_keys d) \<Longrightarrow> distinct (dict_keys (dict_pop k d))"
  by (simp add: dict_keys_pop)

lemma update_new [dict_simps]:
  "k \<notin> set (dict_keys d) \<Longrightarrow> AList.update k v d = d @ [(k, v)]"
  by (induction d) auto

lemma map_of_in_set: "map_of d k = Some v \<Longrightarrow> (k, v) \<in> set d"
  by (rule map_of_SomeD)

lemma map_of_eq_iff_in:
  "distinct (dict_keys d) \<Longrightarrow> map_of d k = Some v \<longleftrightarrow> (k, v) \<in> set d"
  by (simp add: map_of_eq_Some_iff)

lemma set_update_distinct [dict_simps]:
  "distinct (dict_keys d) \<Longrightarrow>
     set (AList.update k v d) = {(k', v') \<in> set d. k' \<noteq> k} \<union> {(k, v)}"
  by (induction d) (force simp: image_iff)+

section \<open>Common prefixes\<close>

text \<open>
  \<open>for a, b in zip(t0, t1): if a != b: break; i += 1\<close>: the number of leading positions on
  which two lists agree.
\<close>

fun lcp_len :: "'a list \<Rightarrow> 'a list \<Rightarrow> nat" where
  "lcp_len (a # as) (b # bs) = (if a \<noteq> b then 0 else Suc (lcp_len as bs))"
| "lcp_len _ _ = 0"

lemma lcp_len_le: "lcp_len xs ys \<le> length xs" "lcp_len xs ys \<le> length ys"
  by (induction xs ys rule: lcp_len.induct) auto

lemma lcp_len_take: "take (lcp_len xs ys) xs = take (lcp_len xs ys) ys"
  by (induction xs ys rule: lcp_len.induct) auto

lemma lcp_len_ge_iff:
  "n \<le> lcp_len xs ys \<longleftrightarrow> n \<le> length xs \<and> n \<le> length ys \<and> take n xs = take n ys"
proof (induction xs ys arbitrary: n rule: lcp_len.induct)
  case (1 a as b bs)
  then show ?case by (cases n) auto
qed (auto simp: le_Suc_eq)

lemma lcp_len_eqI:
  assumes "n \<le> length xs" "n \<le> length ys" "take n xs = take n ys"
    and "n < length xs \<Longrightarrow> n < length ys \<Longrightarrow> xs ! n \<noteq> ys ! n"
  shows "lcp_len xs ys = n"
proof (rule antisym)
  show "n \<le> lcp_len xs ys" using assms(1-3) by (simp add: lcp_len_ge_iff)
  show "lcp_len xs ys \<le> n"
  proof (rule ccontr)
    assume "\<not> lcp_len xs ys \<le> n"
    then have "Suc n \<le> lcp_len xs ys" by simp
    then have *: "Suc n \<le> length xs" "Suc n \<le> length ys" "take (Suc n) xs = take (Suc n) ys"
      by (simp_all add: lcp_len_ge_iff)
    then have "xs ! n = ys ! n"
      by (metis lessI nth_take)
    with * assms(4) show False by simp
  qed
qed

section \<open>Slices\<close>

text \<open>
  The clamping that Python applies to a bound of a step-1 slice: a negative bound counts from
  the end.
\<close>

definition slice_bound :: "nat \<Rightarrow> int \<Rightarrow> nat" where
  "slice_bound n i = (if i < 0 then nat (max 0 (i + int n)) else min (nat i) n)"

lemma slice_bound_nat [simp]: "slice_bound n (int i) = min i n"
  by (simp add: slice_bound_def)

section \<open>Pages\<close>

definition page_floor :: "nat \<Rightarrow> nat \<Rightarrow> nat" where
  "page_floor n p = n div p * p"

lemma page_floor_le [page_simps]: "page_floor n p \<le> n"
  by (simp add: page_floor_def)

lemma page_floor_dvd [page_simps]: "p dvd page_floor n p"
  by (simp add: page_floor_def)

lemma page_floor_one [simp, page_simps]: "page_floor n 1 = n" "page_floor n (Suc 0) = n"
  by (simp_all add: page_floor_def)

lemma page_floor_id [page_simps]: "p dvd n \<Longrightarrow> page_floor n p = n"
  by (simp add: page_floor_def)

lemma dvd_le_page_floor: "p dvd m \<Longrightarrow> m \<le> n \<Longrightarrow> m \<le> page_floor n p"
proof -
  assume "p dvd m" "m \<le> n"
  then have "m div p * p \<le> n div p * p" by (intro mult_le_mono1 div_le_mono)
  with \<open>p dvd m\<close> show ?thesis by (simp add: page_floor_def)
qed

lemma page_floor_ge_iff: "p dvd m \<Longrightarrow> m \<le> page_floor n p \<longleftrightarrow> m \<le> n"
  by (meson dvd_le_page_floor page_floor_le le_trans)

lemma dvd_less_add_page:
  fixes a b p :: nat
  assumes "p dvd a" "p dvd b" "a < b"
  shows "a + p \<le> b"
proof -
  from assms(1,2) obtain i j where ij: "a = p * i" "b = p * j" by (auto elim!: dvdE)
  with assms(3) have "i < j" by (simp add: mult_less_cancel1)
  then have "p * Suc i \<le> p * j" by (intro mult_le_mono2) simp
  with ij show ?thesis by simp
qed

lemma page_floor_between: "p dvd i \<Longrightarrow> i \<le> l \<Longrightarrow> l < i + p \<Longrightarrow> page_floor l p = i"
proof -
  assume "p dvd i" "i \<le> l" "l < i + p"
  then obtain j where j: "i = p * j" by (elim dvdE)
  have "l div p = j"
    using \<open>i \<le> l\<close> \<open>l < i + p\<close> by (intro div_nat_eqI) (simp_all add: j)
  with j show ?thesis by (simp add: page_floor_def)
qed

end
