(* ===== verification/Radix_Key.thy ===== *)
theory Radix_Key
  imports Prelude
begin

text \<open>
  \<open>RadixKey\<close> of \<open>mem_cache/radix_cache.py\<close>: a token sequence with a namespace tag
  (\<open>extra_key\<close>) that is read either token by token or, in EAGLE mode, as the sequence of
  overlapping bigrams of its tokens. The logical units of a key are the lists \<open>[t]\<close> or
  \<open>[t, t']\<close>; every operation of the class is related to list operations on these units.
\<close>

section \<open>The class\<close>

record radix_key =
  token_ids :: "int list"
  extra_key :: "string option"
  is_bigram :: bool

definition mk_key :: "int list \<Rightarrow> string option \<Rightarrow> bool \<Rightarrow> radix_key" where
  "mk_key ts ek b = \<lparr>token_ids = ts, extra_key = ek, is_bigram = b\<rparr>"

definition key_len :: "radix_key \<Rightarrow> nat" where
  "key_len k =
     (if is_bigram k
      then (let n = length (token_ids k) in if 0 < n then n - 1 else 0)
      else length (token_ids k))"

definition key_iter :: "radix_key \<Rightarrow> int list list" where
  "key_iter k =
     (let t = token_ids k in
      if is_bigram k then map (\<lambda>i. [t ! i, t ! (i + 1)]) [0..<length t - 1]
      else map (\<lambda>a. [a]) t)"

text \<open>
  Subscripts: an integer (negative ones count from the end) or a slice.
\<close>

datatype py_index = PyIdx int | PySlice "int option" "int option" "int option"

definition key_range :: "radix_key \<Rightarrow> nat \<Rightarrow> nat \<Rightarrow> radix_key" where
  "key_range k start stop =
     (if is_bigram k
      then (let raw = (if start < stop then take (stop + 1 - start) (drop start (token_ids k)) else [])
            in mk_key raw (extra_key k) True)
      else mk_key (take (stop - start) (drop start (token_ids k))) (extra_key k) False)"

fun key_getitem :: "radix_key \<Rightarrow> py_index \<Rightarrow> radix_key res" where
  "key_getitem k (PyIdx i) =
     (let j = (if i < 0 then i + int (key_len k) else i)
      in if j < 0 \<or> int (key_len k) \<le> j then Inl IndexError
         else Inr (key_range k (nat j) (nat j + 1)))"
| "key_getitem k (PySlice start stop step) =
     (if step \<noteq> None \<and> step \<noteq> Some 1 then Inl ValueError
      else Inr (key_range k
             (case start of None \<Rightarrow> 0 | Some i \<Rightarrow> slice_bound (key_len k) i)
             (case stop of None \<Rightarrow> key_len k | Some i \<Rightarrow> slice_bound (key_len k) i)))"

text \<open>The two slices the caches take: \<open>self[:n]\<close> and \<open>self[n:]\<close>.\<close>

definition key_take :: "nat \<Rightarrow> radix_key \<Rightarrow> radix_key res" where
  "key_take n k = key_getitem k (PySlice None (Some (int n)) None)"

definition key_drop :: "nat \<Rightarrow> radix_key \<Rightarrow> radix_key res" where
  "key_drop n k = key_getitem k (PySlice (Some (int n)) None None)"

definition page_aligned :: "radix_key \<Rightarrow> nat \<Rightarrow> radix_key res" where
  "page_aligned k p =
     (if p = 1 then Inr k
      else if p = 0 then Inl ZeroDivisionError
      else key_take (key_len k div p * p) k)"

definition maybe_to_bigram_view ::
  "bool \<Rightarrow> radix_key \<Rightarrow> int list option \<Rightarrow> radix_key \<times> int list option" where
  "maybe_to_bigram_view is_eagle k v =
     (if is_eagle \<and> \<not> is_bigram k
      then (let k' = k\<lparr>is_bigram := True\<rparr>
            in (k', case v of None \<Rightarrow> None | Some vs \<Rightarrow> Some (take (key_len k') vs)))
      else (k, v))"

definition check_compatible :: "radix_key \<Rightarrow> radix_key \<Rightarrow> unit res" where
  "check_compatible k other =
     (if extra_key k \<noteq> extra_key other then Inl ValueError else Inr ())"

text \<open>
  \<open>match\<close>: the length of the shared prefix, in logical units. The page loop is bounded by the
  number of units, which is enough for every page size of at least one.
\<close>

fun match_pages :: "nat \<Rightarrow> int list \<Rightarrow> int list \<Rightarrow> nat \<Rightarrow> nat \<Rightarrow> nat \<Rightarrow> nat res" where
  "match_pages 0 t0 t1 min_len p i = Inl OutOfFuel"
| "match_pages (Suc fuel) t0 t1 min_len p i =
     (if i < min_len
      then if take p (drop i t0) \<noteq> take p (drop i t1) then Inr i
           else match_pages fuel t0 t1 min_len p (i + p)
      else Inr i)"

definition key_match :: "radix_key \<Rightarrow> radix_key \<Rightarrow> nat \<Rightarrow> nat res" where
  "key_match k other p =
     rbind (check_compatible k other) (\<lambda>_.
     let t0 = token_ids k; t1 = token_ids other in
     if is_bigram k
     then (let i = lcp_len t0 t1; matched = min (i - 1) (min (key_len k) (key_len other))
           in Inr (if 1 < p then (matched div p) * p else matched))
     else if p = 1 then Inr (lcp_len t0 t1)
     else (let min_len = min (key_len k) (key_len other)
           in match_pages (Suc min_len) t0 t1 min_len p 0))"

text \<open>
  \<open>child_key\<close>: the dictionary key of the first page. The source returns a plain token, a tuple
  of tokens or a tuple of bigrams, paired with the namespace tag if there is one; the model
  keeps the tag and the list of logical units, which are equal exactly when the Python values
  are.
\<close>

type_synonym ckey = "string option \<times> int list list"

definition child_key :: "radix_key \<Rightarrow> nat \<Rightarrow> ckey res" where
  "child_key k p =
     (let t = token_ids k in
      if is_bigram k
      then (if p < length t then Inr (extra_key k, map (\<lambda>j. [t ! j, t ! (j + 1)]) [0..<p])
            else Inl IndexError)
      else if p = 1
      then (if t = [] then Inl IndexError else Inr (extra_key k, [[t ! 0]]))
      else Inr (extra_key k, map (\<lambda>a. [a]) (take p t)))"

section \<open>Logical units\<close>

lemma length_key_iter [simp]: "length (key_iter k) = key_len k"
  by (simp add: key_iter_def key_len_def Let_def)

lemma key_iter_nth:
  "i < key_len k \<Longrightarrow> key_iter k ! i =
     (if is_bigram k then [token_ids k ! i, token_ids k ! Suc i] else [token_ids k ! i])"
  by (auto simp: key_iter_def key_len_def Let_def split: if_splits)

lemma key_iter_eq_Nil [simp]: "key_iter k = [] \<longleftrightarrow> key_len k = 0"
  by (metis length_0_conv length_key_iter)

lemma key_range_fields [simp]:
  "extra_key (key_range k a b) = extra_key k" "is_bigram (key_range k a b) = is_bigram k"
  by (simp_all add: key_range_def mk_key_def Let_def)

lemma key_len_range: "a \<le> b \<Longrightarrow> b \<le> key_len k \<Longrightarrow> key_len (key_range k a b) = b - a"
  by (auto simp: key_range_def key_len_def mk_key_def Let_def split: if_splits)

lemma key_iter_range:
  assumes "a \<le> b" "b \<le> key_len k"
  shows "key_iter (key_range k a b) = take (b - a) (drop a (key_iter k))"
proof (rule nth_equalityI)
  show "length (key_iter (key_range k a b)) = length (take (b - a) (drop a (key_iter k)))"
    using assms by (simp add: key_len_range)
  fix i assume "i < length (key_iter (key_range k a b))"
  then have i: "i < b - a" using assms by (simp add: key_len_range)
  have l: "b \<le> length (token_ids k)" "is_bigram k \<Longrightarrow> b < length (token_ids k)"
    using assms i by (auto simp: key_len_def Let_def split: if_splits)
  show "key_iter (key_range k a b) ! i = take (b - a) (drop a (key_iter k)) ! i"
    using i assms l
    by (auto simp: key_iter_nth key_len_range) (auto simp: key_range_def mk_key_def Let_def)
qed

lemma key_take_eq: "n \<le> key_len k \<Longrightarrow> key_take n k = Inr (key_range k 0 n)"
  by (simp add: key_take_def slice_bound_def)

lemma key_drop_eq: "n \<le> key_len k \<Longrightarrow> key_drop n k = Inr (key_range k n (key_len k))"
  by (simp add: key_drop_def slice_bound_def)

lemma key_iter_take: "n \<le> key_len k \<Longrightarrow> key_iter (key_range k 0 n) = take n (key_iter k)"
  by (simp add: key_iter_range)

lemma key_iter_drop:
  "n \<le> key_len k \<Longrightarrow> key_iter (key_range k n (key_len k)) = drop n (key_iter k)"
  by (simp add: key_iter_range)

lemma key_len_take [simp]: "n \<le> key_len k \<Longrightarrow> key_len (key_range k 0 n) = n"
  by (simp add: key_len_range)

lemma key_len_drop [simp]: "n \<le> key_len k \<Longrightarrow> key_len (key_range k n (key_len k)) = key_len k - n"
  by (simp add: key_len_range)

lemma page_aligned_eq:
  assumes "0 < p"
  shows "\<exists>k'. page_aligned k p = Inr k' \<and> extra_key k' = extra_key k \<and> is_bigram k' = is_bigram k
     \<and> key_iter k' = take (page_floor (key_len k) p) (key_iter k)
     \<and> key_len k' = page_floor (key_len k) p"
proof (cases "p = 1")
  case False
  have "key_len k div p * p \<le> key_len k" by simp
  with False assms show ?thesis
    by (simp add: page_aligned_def key_take_eq key_iter_take page_floor_def)
qed (simp add: page_aligned_def)

section \<open>Matching\<close>

lemma lcp_len_map_single: "lcp_len (map (\<lambda>a. [a]) xs) (map (\<lambda>a. [a]) ys) = lcp_len xs ys"
  by (induction xs ys rule: lcp_len.induct) auto

lemma lcp_len_nth: "i < lcp_len xs ys \<Longrightarrow> xs ! i = ys ! i"
  by (metis lcp_len_take nth_take)

lemma lcp_len_differ:
  "lcp_len xs ys < length xs \<Longrightarrow> lcp_len xs ys < length ys \<Longrightarrow>
     xs ! lcp_len xs ys \<noteq> ys ! lcp_len xs ys"
  by (induction xs ys rule: lcp_len.induct) auto

lemma lcp_len_bigram:
  assumes "is_bigram k" "is_bigram k'"
  shows "lcp_len (key_iter k) (key_iter k') = lcp_len (token_ids k) (token_ids k') - 1"
proof -
  let ?t = "token_ids k" and ?t' = "token_ids k'"
  let ?i = "lcp_len ?t ?t'"
  have len: "key_len k = length ?t - 1" "key_len k' = length ?t' - 1"
    using assms by (auto simp: key_len_def Let_def)
  have le: "?i \<le> length ?t" "?i \<le> length ?t'" by (rule lcp_len_le)+
  show ?thesis
  proof (rule lcp_len_eqI)
    show "?i - 1 \<le> length (key_iter k)" "?i - 1 \<le> length (key_iter k')" using le len by simp_all
    show "take (?i - 1) (key_iter k) = take (?i - 1) (key_iter k')"
      using le len assms by (intro nth_equalityI) (auto simp: key_iter_nth lcp_len_nth)
    assume "?i - 1 < length (key_iter k)" "?i - 1 < length (key_iter k')"
    then have *: "?i < length ?t" "?i < length ?t'" "?i - 1 < key_len k" "?i - 1 < key_len k'"
      using len by auto
    then have d: "?t ! ?i \<noteq> ?t' ! ?i" by (simp add: lcp_len_differ)
    show "key_iter k ! (?i - 1) \<noteq> key_iter k' ! (?i - 1)"
      using d * assms by (cases ?i) (auto simp: key_iter_nth)
  qed
qed

lemma match_pages_correct:
  assumes "p dvd m" "0 < p" "m \<le> length t0" "m \<le> length t1" "p dvd i" "m - i < fuel"
    "i \<le> m" "take i t0 = take i t1"
  shows "match_pages fuel t0 t1 m p i = Inr (page_floor (lcp_len (take m t0) (take m t1)) p)"
  using assms(5-8)
proof (induction fuel arbitrary: i)
  case (Suc fuel)
  let ?l = "lcp_len (take m t0) (take m t1)"
  have cmp: "take n t0 = take n t1 \<longleftrightarrow> n \<le> ?l" if "n \<le> m" for n
    using that assms(3,4) by (simp add: lcp_len_ge_iff min_def)
  have lm: "?l \<le> m" using lcp_len_le(1) [of "take m t0" "take m t1"] assms(3) by simp
  show ?case
  proof (cases "i < m")
    case True
    with Suc.prems assms(1) have ip: "i + p \<le> m" by (simp add: dvd_less_add_page)
    have split: "take (i + p) t0 = take (i + p) t1 \<longleftrightarrow> take p (drop i t0) = take p (drop i t1)"
      using Suc.prems(4) ip assms(3,4) by (simp add: take_add)
    show ?thesis
    proof (cases "take p (drop i t0) = take p (drop i t1)")
      case eq: True
      with split ip Suc True assms(2) show ?thesis
        by (simp add: Suc.IH [of "i + p"])
    next
      case False
      with split cmp [OF ip] cmp [of i] Suc.prems have "i \<le> ?l" "?l < i + p" by auto
      with Suc.prems(1) have "page_floor ?l p = i" by (rule page_floor_between)
      with False True show ?thesis by simp
    qed
  next
    case False
    with Suc.prems have "i = m" by simp
    with cmp [of m] Suc.prems lm have "?l = m" by auto
    with \<open>i = m\<close> assms(1) show ?thesis by (simp add: page_floor_id)
  qed
qed simp

lemma key_match_correct:
  assumes "0 < p" "p dvd key_len k" "p dvd key_len k'"
    and "extra_key k = extra_key k'" "is_bigram k = is_bigram k'"
  shows "key_match k k' p = Inr (page_floor (lcp_len (key_iter k) (key_iter k')) p)"
proof (cases "is_bigram k")
  case True
  with assms(5) have b: "is_bigram k'" by simp
  let ?i = "lcp_len (token_ids k) (token_ids k')"
  have "?i - 1 \<le> key_len k" "?i - 1 \<le> key_len k'"
    using lcp_len_le [of "key_iter k" "key_iter k'"] lcp_len_bigram [OF True b] by simp_all
  with True assms show ?thesis
    by (cases "p = 1") (auto simp: key_match_def check_compatible_def lcp_len_bigram [OF True b]
        page_floor_def)
next
  case False
  with assms(5) have b: "\<not> is_bigram k'" by simp
  have it: "key_iter k = map (\<lambda>a. [a]) (token_ids k)" "key_iter k' = map (\<lambda>a. [a]) (token_ids k')"
    "key_len k = length (token_ids k)" "key_len k' = length (token_ids k')"
    using False b by (simp_all add: key_iter_def key_len_def)
  show ?thesis
  proof (cases "p = 1")
    case True
    with False assms it show ?thesis
      by (simp add: key_match_def check_compatible_def lcp_len_map_single)
  next
    case p: False
    let ?m = "min (key_len k) (key_len k')"
    have "p dvd ?m" using assms(2,3) by (simp add: min_def)
    then have "match_pages (Suc ?m) (token_ids k) (token_ids k') ?m p 0
        = Inr (page_floor (lcp_len (take ?m (token_ids k)) (take ?m (token_ids k'))) p)"
      using assms(1) it by (intro match_pages_correct) auto
    moreover have "lcp_len (take ?m (token_ids k)) (take ?m (token_ids k'))
        = lcp_len (token_ids k) (token_ids k')"
    proof (rule lcp_len_eqI)
      let ?l = "lcp_len (token_ids k) (token_ids k')"
      have le: "?l \<le> ?m" using lcp_len_le [of "token_ids k" "token_ids k'"] it by simp
      show "?l \<le> length (take ?m (token_ids k))" "?l \<le> length (take ?m (token_ids k'))"
        using le it by auto
      show "take ?l (take ?m (token_ids k)) = take ?l (take ?m (token_ids k'))"
        using le lcp_len_take [of "token_ids k" "token_ids k'"] by (simp add: min_def)
      assume "?l < length (take ?m (token_ids k))" "?l < length (take ?m (token_ids k'))"
      then show "take ?m (token_ids k) ! ?l \<noteq> take ?m (token_ids k') ! ?l"
        using it by (simp add: lcp_len_differ)
    qed
    ultimately show ?thesis
      using False p assms(4) it
      by (simp add: key_match_def check_compatible_def lcp_len_map_single Let_def)
  qed
qed

section \<open>Dictionary keys\<close>

lemma child_key_eq:
  assumes "0 < p" "p \<le> key_len k"
  shows "child_key k p = Inr (extra_key k, take p (key_iter k))"
proof (cases "is_bigram k")
  case True
  have "map (\<lambda>j. [token_ids k ! j, token_ids k ! (j + 1)]) [0..<p] = take p (key_iter k)"
    using True assms by (intro nth_equalityI) (auto simp: key_iter_nth)
  moreover have "p < length (token_ids k)" using True assms by (simp add: key_len_def Let_def split: if_splits)
  ultimately show ?thesis using True by (simp add: child_key_def Let_def)
next
  case False
  then have it: "key_iter k = map (\<lambda>a. [a]) (token_ids k)" "key_len k = length (token_ids k)"
    by (simp_all add: key_iter_def key_len_def)
  show ?thesis
  proof (cases "token_ids k")
    case Nil
    with assms it show ?thesis by simp
  next
    case (Cons t ts)
    with False it assms show ?thesis
      by (cases "p = 1"; cases p) (simp_all add: child_key_def take_map)
  qed
qed

end
