(* ===== verification/Tree_Node.thy ===== *)
theory Tree_Node
  imports Radix_Key
begin

text \<open>
  The tree nodes of \<open>mem_cache/radix_cache.py\<close> (\<open>TreeNode\<close>) and the block hashes of
  \<open>mem_cache/utils.py\<close> that nodes carry: \<open>hash_page\<close>, \<open>get_hash_str\<close>, \<open>hash_str_to_int64\<close> and
  the splitting of a hash list. The SHA-256 function itself is the parameter \<open>sha\<close> (bytes to
  digest bytes). Python objects live in a heap indexed by their creation number, and references
  are such numbers.
\<close>

section \<open>Bytes and hexadecimal strings\<close>

definition hex_digits :: string where
  "hex_digits = ''0123456789abcdef''"

definition hex_digit :: "nat \<Rightarrow> char" where
  "hex_digit n = hex_digits ! (n mod 16)"

definition hexdigest :: "nat list \<Rightarrow> string" where
  "hexdigest bs = concat (map (\<lambda>b. [hex_digit (b div 16), hex_digit b]) bs)"

definition hex_val :: "char \<Rightarrow> nat res" where
  "hex_val c =
     (case find (\<lambda>n. hex_digits ! n = c) [0..<16] of
        Some n \<Rightarrow> Inr n
      | None \<Rightarrow> (case find (\<lambda>n. ''ABCDEF'' ! n = c) [0..<6] of Some n \<Rightarrow> Inr (10 + n) | None \<Rightarrow> Inl ValueError))"

text \<open>\<open>bytes.fromhex\<close> and \<open>int(s, 16)\<close> on strings of hexadecimal digits; other characters raise.\<close>

fun bytes_fromhex :: "string \<Rightarrow> nat list res" where
  "bytes_fromhex [] = Inr []"
| "bytes_fromhex [c] = Inl ValueError"
| "bytes_fromhex (a # b # cs) =
     rbind (hex_val a) (\<lambda>x. rbind (hex_val b) (\<lambda>y. rbind (bytes_fromhex cs) (\<lambda>bs. Inr ((16 * x + y) # bs))))"

fun int_base16 :: "nat \<Rightarrow> string \<Rightarrow> nat res" where
  "int_base16 acc [] = Inr acc"
| "int_base16 acc (c # cs) = rbind (hex_val c) (\<lambda>d. int_base16 (16 * acc + d) cs)"

definition hash_str_to_int64 :: "string \<Rightarrow> int res" where
  "hash_str_to_int64 s =
     (if s = [] then Inl ValueError
      else rbind (int_base16 0 (take 16 s)) (\<lambda>v.
        Inr (if 2 ^ 63 \<le> v then int v - 2 ^ 64 else int v)))"

text \<open>\<open>t.to_bytes(4, byteorder="little", signed=False)\<close>, which raises \<open>OverflowError\<close> out of range.\<close>

definition to_bytes4 :: "int \<Rightarrow> nat list res" where
  "to_bytes4 t =
     (if 0 \<le> t \<and> t < 2 ^ 32 then Inr (map (\<lambda>i. nat t div 256 ^ i mod 256) [0..<4]) else Inl ValueError)"

fun to_bytes4_all :: "int list \<Rightarrow> nat list res" where
  "to_bytes4_all [] = Inr []"
| "to_bytes4_all (t # ts) = rbind (to_bytes4 t) (\<lambda>b. rbind (to_bytes4_all ts) (\<lambda>bs. Inr (b @ bs)))"

section \<open>Block hashes\<close>

definition prior_bytes :: "string option \<Rightarrow> nat list res" where
  "prior_bytes prior = (case prior of None \<Rightarrow> Inr [] | Some h \<Rightarrow> if h = [] then Inr [] else bytes_fromhex h)"

text \<open>\<open>get_hash_str\<close>: the units are single tokens or, in EAGLE mode, bigrams.\<close>

definition get_hash_str :: "(nat list \<Rightarrow> nat list) \<Rightarrow> int list list \<Rightarrow> string option \<Rightarrow> string res" where
  "get_hash_str sha units prior =
     rbind (prior_bytes prior) (\<lambda>pb.
     rbind (to_bytes4_all (concat units)) (\<lambda>tb.
     Inr (hexdigest (sha (pb @ tb)))))"

definition hash_page :: "(nat list \<Rightarrow> nat list) \<Rightarrow> radix_key \<Rightarrow> nat \<Rightarrow> nat \<Rightarrow> string option \<Rightarrow> string res" where
  "hash_page sha k start stop prior =
     rbind (prior_bytes prior) (\<lambda>pb.
     let t = token_ids k in
     rbind (if stop \<le> (if is_bigram k then length t - 1 else length t) \<or> stop \<le> start then Inr () else Inl IndexError) (\<lambda>_.
     rbind (to_bytes4_all (if is_bigram k then concat (map (\<lambda>j. [t ! j, t ! (j + 1)]) [start..<stop])
                           else map (\<lambda>j. t ! j) [start..<stop])) (\<lambda>tb.
     Inr (hexdigest (sha (pb @ tb))))))"

definition split_node_hash_value ::
  "string list option \<Rightarrow> nat \<Rightarrow> nat \<Rightarrow> string list option \<times> string list option" where
  "split_node_hash_value child_hash_value split_len p =
     (case child_hash_value of
        None \<Rightarrow> (None, None)
      | Some hs \<Rightarrow> let split_pages = (if p = 1 then split_len else split_len div p)
                   in (Some (take split_pages hs), Some (drop split_pages hs)))"

definition convert_to_bigram_key :: "int list \<Rightarrow> (int \<times> int) list" where
  "convert_to_bigram_key tokens =
     (if length tokens < 2 then []
      else map (\<lambda>i. (tokens ! i, tokens ! (i + 1))) [0..<length tokens - 1])"

section \<open>Nodes\<close>

record tree_node =
  nd_children :: "(ckey, nat) dict"
  nd_parent :: "nat option"
  nd_key :: radix_key
  nd_value :: "int list option"
  nd_lock_ref :: int
  nd_last_access_time :: int
  nd_creation_time :: int
  nd_hit_count :: int
  nd_host_ref_counter :: int
  nd_host_value :: "int list option"
  nd_hash_value :: "string list option"
  nd_priority :: int

definition tree_node_init :: "int \<Rightarrow> int \<Rightarrow> tree_node" where
  "tree_node_init now prio =
     \<lparr>nd_children = [], nd_parent = None, nd_key = mk_key [] None False, nd_value = None,
      nd_lock_ref = 0, nd_last_access_time = now, nd_creation_time = now, nd_hit_count = 0,
      nd_host_ref_counter = 0, nd_host_value = None, nd_hash_value = None, nd_priority = prio\<rparr>"

definition evicted :: "tree_node \<Rightarrow> bool" where
  "evicted n \<longleftrightarrow> nd_value n = None"

definition backuped :: "tree_node \<Rightarrow> bool" where
  "backuped n \<longleftrightarrow> nd_host_value n \<noteq> None"

definition protect_host :: "tree_node \<Rightarrow> tree_node" where
  "protect_host n = n\<lparr>nd_host_ref_counter := nd_host_ref_counter n + 1\<rparr>"

definition release_host :: "tree_node \<Rightarrow> tree_node res" where
  "release_host n =
     (if 0 < nd_host_ref_counter n then Inr (n\<lparr>nd_host_ref_counter := nd_host_ref_counter n - 1\<rparr>)
      else Inl RuntimeError)"

definition get_last_hash_value :: "tree_node \<Rightarrow> string option" where
  "get_last_hash_value n =
     (case nd_hash_value n of None \<Rightarrow> None | Some hs \<Rightarrow> if hs = [] then None else Some (last hs))"

definition node_lt :: "tree_node \<Rightarrow> tree_node \<Rightarrow> bool" where
  "node_lt n m \<longleftrightarrow> nd_last_access_time n < nd_last_access_time m"

text \<open>\<open>compute_node_hash_values\<close>: the chained hashes of the pages of a node.\<close>

fun hash_pages :: "nat \<Rightarrow> (nat list \<Rightarrow> nat list) \<Rightarrow> radix_key \<Rightarrow> nat \<Rightarrow> nat \<Rightarrow> string option \<Rightarrow> string list res" where
  "hash_pages 0 sha k p start prior = Inl OutOfFuel"
| "hash_pages (Suc fuel) sha k p start prior =
     (if start < key_len k
      then rbind (hash_page sha k start (min (start + p) (key_len k)) prior) (\<lambda>h.
           rbind (hash_pages fuel sha k p (start + p) (Some h)) (\<lambda>hs. Inr (h # hs)))
      else Inr [])"

definition compute_node_hash_values ::
  "(nat list \<Rightarrow> nat list) \<Rightarrow> tree_node \<Rightarrow> tree_node option \<Rightarrow> nat \<Rightarrow> string list res" where
  "compute_node_hash_values sha n parent p =
     (let parent_hash = (case parent of None \<Rightarrow> None
          | Some m \<Rightarrow> (case nd_hash_value m of None \<Rightarrow> None
              | Some hs \<Rightarrow> if 0 < key_len (nd_key m) \<and> hs \<noteq> [] then Some (last hs) else None))
      in hash_pages (Suc (key_len (nd_key n))) sha (nd_key n) p 0 parent_hash)"

section \<open>Round trips and totality\<close>

lemma hex_val_digit [simp]: "hex_val (hex_digit n) = Inr (n mod 16)"
proof -
  have "\<forall>m<16. hex_val (hex_digits ! m) = Inr m" by code_simp
  then show ?thesis by (simp add: hex_digit_def)
qed

lemma bytes_fromhex_hexdigest:
  "(\<forall>b\<in>set bs. b < 256) \<Longrightarrow> bytes_fromhex (hexdigest bs) = Inr bs"
proof (induction bs)
  case (Cons b bs)
  have "b div 16 < 16" using Cons.prems by (auto simp: div_less_iff_less_mult)
  then have "16 * (b div 16 mod 16) + b mod 16 = b" by simp
  with Cons show ?case by (simp add: hexdigest_def)
qed (simp add: hexdigest_def)

lemma length_hexdigest [simp]: "length (hexdigest bs) = 2 * length bs"
  by (induction bs) (auto simp: hexdigest_def)

lemma int_base16_digits:
  "\<exists>v. int_base16 acc (map hex_digit ns) = Inr v \<and> v < (acc + 1) * 16 ^ length ns"
proof (induction ns arbitrary: acc)
  case (Cons n ns)
  from Cons [of "16 * acc + n mod 16"] obtain v
    where v: "int_base16 (16 * acc + n mod 16) (map hex_digit ns) = Inr v"
      "v < (16 * acc + n mod 16 + 1) * 16 ^ length ns" by blast
  have "16 * acc + n mod 16 + 1 \<le> (acc + 1) * 16" by simp
  then have "(16 * acc + n mod 16 + 1) * 16 ^ length ns \<le> (acc + 1) * 16 * 16 ^ length ns"
    by (rule mult_le_mono1)
  with v(2) have "v < (acc + 1) * 16 * 16 ^ length ns" by (rule less_le_trans)
  with v(1) show ?case by (simp add: algebra_simps)
qed simp

lemma hexdigest_map: "hexdigest bs = map hex_digit (concat (map (\<lambda>b. [b div 16, b]) bs))"
  by (induction bs) (auto simp: hexdigest_def)

lemma hash_str_to_int64_range:
  assumes "bs \<noteq> []"
  shows "\<exists>v. hash_str_to_int64 (hexdigest bs) = Inr v \<and> - (2 ^ 63) \<le> v \<and> v < 2 ^ 63"
proof -
  let ?ds = "take 16 (concat (map (\<lambda>b. [b div 16, b]) bs))"
  have ne: "hexdigest bs \<noteq> []" using assms by (cases bs) (auto simp: hexdigest_def)
  obtain v where v: "int_base16 0 (map hex_digit ?ds) = Inr v" "v < 16 ^ length ?ds"
    using int_base16_digits [of 0 ?ds] by auto
  have "(16::nat) ^ length ?ds \<le> 16 ^ 16" by (intro power_increasing) auto
  with v(2) have "v < 2 ^ 64" by simp
  moreover have "int_base16 0 (take 16 (hexdigest bs)) = Inr v"
    using v(1) by (simp add: hexdigest_map take_map)
  ultimately show ?thesis using ne by (auto simp: hash_str_to_int64_def)
qed

text \<open>
  What the code relies on: digests of SHA-256 are 32 bytes, tokens fit in 32 bits, and stored
  hash strings are hexadecimal digests.
\<close>

definition sha_ok :: "(nat list \<Rightarrow> nat list) \<Rightarrow> bool" where
  "sha_ok sha \<longleftrightarrow> (\<forall>bs. length (sha bs) = 32 \<and> (\<forall>b\<in>set (sha bs). b < 256))"

definition toks_ok :: "radix_key \<Rightarrow> bool" where
  "toks_ok k \<longleftrightarrow> (\<forall>t\<in>set (token_ids k). 0 \<le> t \<and> t < 2 ^ 32)"

definition is_digest :: "string \<Rightarrow> bool" where
  "is_digest h \<longleftrightarrow> (\<exists>bs. h = hexdigest bs \<and> bs \<noteq> [] \<and> (\<forall>b\<in>set bs. b < 256))"

lemma toks_ok_range [simp]: "toks_ok k \<Longrightarrow> toks_ok (key_range k a b)"
  by (auto simp: toks_ok_def key_range_def mk_key_def Let_def dest!: in_set_takeD in_set_dropD)

lemma is_digest_sha: "sha_ok sha \<Longrightarrow> is_digest (hexdigest (sha bs))"
proof -
  assume a: "sha_ok sha"
  then have "length (sha bs) = 32" by (simp add: sha_ok_def)
  then have "sha bs \<noteq> []" by auto
  with a show ?thesis by (auto simp: is_digest_def sha_ok_def)
qed

lemma prior_bytes_digest: "is_digest h \<Longrightarrow> \<exists>bs. prior_bytes (Some h) = Inr bs"
  by (auto simp: is_digest_def prior_bytes_def bytes_fromhex_hexdigest)

lemma hash_str_to_int64_digest: "is_digest h \<Longrightarrow> \<exists>v. hash_str_to_int64 h = Inr v"
  using hash_str_to_int64_range by (fastforce simp: is_digest_def)

lemma to_bytes4_all_ok:
  "(\<forall>t\<in>set ts. 0 \<le> t \<and> t < 2 ^ 32) \<Longrightarrow> \<exists>bs. to_bytes4_all ts = Inr bs"
  by (induction ts) (auto simp: to_bytes4_def)

lemma hash_page_units:
  assumes "start \<le> stop" "stop \<le> key_len k"
  shows "hash_page sha k start stop prior = get_hash_str sha (take (stop - start) (drop start (key_iter k))) prior"
proof -
  let ?t = "token_ids k"
  have len: "stop \<le> (if is_bigram k then length ?t - 1 else length ?t)"
    using assms by (auto simp: key_len_def Let_def split: if_splits)
  have "take (stop - start) (drop start (key_iter k))
      = map (\<lambda>j. if is_bigram k then [?t ! j, ?t ! (j + 1)] else [?t ! j]) [start..<stop]"
    using assms by (intro nth_equalityI) (auto simp: key_iter_nth)
  then have "concat (take (stop - start) (drop start (key_iter k)))
      = (if is_bigram k then concat (map (\<lambda>j. [?t ! j, ?t ! (j + 1)]) [start..<stop]) else map (\<lambda>j. ?t ! j) [start..<stop])"
    by (simp add: concat_map_singleton)
  then show ?thesis using len by (simp add: hash_page_def get_hash_str_def Let_def)
qed

lemma units_in_tokens: "u \<in> set (key_iter k) \<Longrightarrow> set u \<subseteq> set (token_ids k)"
  by (auto simp: key_iter_def Let_def split: if_splits)

lemma hash_page_ok:
  assumes "sha_ok sha" "toks_ok k" "start \<le> stop" "stop \<le> key_len k"
    and "prior = None \<or> (\<exists>h. prior = Some h \<and> is_digest h)"
  shows "\<exists>h. hash_page sha k start stop prior = Inr h \<and> is_digest h"
proof -
  let ?us = "take (stop - start) (drop start (key_iter k))"
  have "set (concat ?us) \<subseteq> set (token_ids k)"
    using units_in_tokens [of _ k] by (fastforce dest!: in_set_takeD in_set_dropD)
  then obtain tb where "to_bytes4_all (concat ?us) = Inr tb"
    using assms(2) to_bytes4_all_ok [of "concat ?us"] by (force simp: toks_ok_def)
  moreover obtain pb where "prior_bytes prior = Inr pb"
    using assms(5) prior_bytes_digest by (auto simp: prior_bytes_def [of None])
  ultimately show ?thesis
    using assms by (simp add: hash_page_units get_hash_str_def is_digest_sha)
qed

lemma hash_pages_ok:
  assumes "sha_ok sha" "toks_ok k" "0 < p" "p dvd key_len k"
    and "p dvd start" "start \<le> key_len k" "key_len k - start < fuel"
    and "prior = None \<or> (\<exists>h. prior = Some h \<and> is_digest h)"
  shows "\<exists>hs. hash_pages fuel sha k p start prior = Inr hs \<and> (\<forall>h\<in>set hs. is_digest h)
     \<and> length hs * p = key_len k - start"
  using assms(5-8)
proof (induction fuel arbitrary: start prior)
  case (Suc fuel)
  show ?case
  proof (cases "start < key_len k")
    case True
    then have sp: "start + p \<le> key_len k" using Suc.prems assms(4) by (simp add: dvd_less_add_page)
    obtain h where h: "hash_page sha k start (start + p) prior = Inr h" "is_digest h"
      using hash_page_ok [OF assms(1,2) le_add1 sp Suc.prems(4)] by auto
    have "key_len k - (start + p) < fuel" using Suc.prems(3) sp assms(3) by linarith
    then obtain hs where "hash_pages fuel sha k p (start + p) (Some h) = Inr hs" "\<forall>h\<in>set hs. is_digest h"
        "length hs * p = key_len k - (start + p)"
      using Suc.IH [of "start + p" "Some h"] Suc.prems(1) sp h(2) by auto
    with h sp True show ?thesis by simp
  qed (use Suc.prems in simp)
qed simp

end
