(* ===== verification/Heapq.thy ===== *)
theory Heapq
  imports Prelude
begin

text \<open>
  The standard library's \<open>heapq\<close>, as CPython implements it, on lists of items that carry a
  linearly ordered key: \<open>heapify\<close>, \<open>heappush\<close> and \<open>heappop\<close> with their two sift loops.
  The theory ends with the interface the caches rely on (locale \<open>priority_queue\<close>: what each
  operation does to the multiset of items, and that \<open>heappop\<close> returns an item whose key is
  minimal) and its interpretation on these definitions.
\<close>

section \<open>The sift loops\<close>

abbreviation parentpos :: "nat \<Rightarrow> nat" where
  "parentpos i \<equiv> (i - Suc 0) div 2"

function siftdown_loop ::
  "nat \<Rightarrow> ('k::linorder \<times> 'v) \<Rightarrow> ('k \<times> 'v) list \<Rightarrow> nat \<Rightarrow> ('k \<times> 'v) list" where
  "siftdown_loop startpos newitem heap pos =
     (if startpos < pos \<and> fst newitem < fst (heap ! parentpos pos)
      then siftdown_loop startpos newitem (heap[pos := heap ! parentpos pos]) (parentpos pos)
      else heap[pos := newitem])"
  by pat_completeness auto
termination
  by (relation "measure (\<lambda>(s, x, h, pos). pos)") auto

declare siftdown_loop.simps [simp del]

definition siftdown :: "('k::linorder \<times> 'v) list \<Rightarrow> nat \<Rightarrow> nat \<Rightarrow> ('k \<times> 'v) list" where
  "siftdown heap startpos pos = siftdown_loop startpos (heap ! pos) heap pos"

function siftup_loop ::
  "('k::linorder \<times> 'v) list \<Rightarrow> nat \<Rightarrow> ('k \<times> 'v) list \<times> nat" where
  "siftup_loop heap pos =
     (if 2 * pos + 1 < length heap
      then let childpos = (if 2 * pos + 2 < length heap
                              \<and> \<not> fst (heap ! (2 * pos + 1)) < fst (heap ! (2 * pos + 2))
                           then 2 * pos + 2 else 2 * pos + 1)
           in siftup_loop (heap[pos := heap ! childpos]) childpos
      else (heap, pos))"
  by pat_completeness auto
termination
  by (relation "measure (\<lambda>(h, pos). length h - pos)") (auto simp: Let_def)

declare siftup_loop.simps [simp del]

definition siftup :: "('k::linorder \<times> 'v) list \<Rightarrow> nat \<Rightarrow> ('k \<times> 'v) list" where
  "siftup heap pos =
     (case siftup_loop heap pos of (h, p) \<Rightarrow> siftdown (h[p := heap ! pos]) pos p)"

definition heappush :: "('k::linorder \<times> 'v) list \<Rightarrow> 'k \<times> 'v \<Rightarrow> ('k \<times> 'v) list" where
  "heappush heap item = siftdown (heap @ [item]) 0 (length heap)"

definition heappop :: "('k::linorder \<times> 'v) list \<Rightarrow> (('k \<times> 'v) \<times> ('k \<times> 'v) list) option" where
  "heappop heap =
     (if heap = [] then None
      else let lastelt = last heap; rest = butlast heap
           in if rest = [] then Some (lastelt, [])
              else Some (rest ! 0, siftup (rest[0 := lastelt]) 0))"

definition heapify :: "('k::linorder \<times> 'v) list \<Rightarrow> ('k \<times> 'v) list" where
  "heapify xs = fold (\<lambda>i h. siftup h i) (rev [0..<length xs div 2]) xs"

section \<open>Multisets are kept\<close>

lemma length_siftdown_loop [simp]: "length (siftdown_loop s x h pos) = length h"
  by (induction s x h pos rule: siftdown_loop.induct) (subst siftdown_loop.simps, simp)

lemma mset_swap_hole:
  assumes "i < length h" "j < length h" "i \<noteq> j"
  shows "mset (h[i := h ! j, j := x]) = mset (h[i := x])"
proof -
  let ?h = "h[i := x]"
  have "h[i := h ! j, j := x] = ?h[i := ?h ! j, j := ?h ! i]"
    using assms by (simp add: list_update_swap)
  moreover have "mset (?h[i := ?h ! j, j := ?h ! i]) = mset ?h"
    using assms by (intro mset_swap) simp_all
  ultimately show ?thesis by simp
qed

lemma mset_siftdown_loop:
  "pos < length h \<Longrightarrow> mset (siftdown_loop s x h pos) = mset (h[pos := x])"
proof (induction s x h pos rule: siftdown_loop.induct)
  case (1 s x h pos)
  show ?case
  proof (cases "s < pos \<and> fst x < fst (h ! parentpos pos)")
    case True
    then have "parentpos pos < length h" "parentpos pos \<noteq> pos" using "1.prems" by auto
    with True 1 show ?thesis
      by (subst siftdown_loop.simps) (simp add: mset_swap_hole)
  qed (auto simp: siftdown_loop.simps [of s x h pos])
qed

lemma siftup_loop_props:
  "siftup_loop h pos = (h', p) \<Longrightarrow> pos < length h \<Longrightarrow>
     length h' = length h \<and> p < length h \<and> \<not> 2 * p + 1 < length h
     \<and> mset (h'[p := x]) = mset (h[pos := x])"
proof (induction h pos rule: siftup_loop.induct)
  case (1 h pos)
  show ?case
  proof (cases "2 * pos + 1 < length h")
    case True
    define c where "c = (if 2 * pos + 2 < length h
        \<and> \<not> fst (h ! (2 * pos + 1)) < fst (h ! (2 * pos + 2)) then 2 * pos + 2 else 2 * pos + 1)"
    have c: "c < length h" "c \<noteq> pos" using True by (auto simp: c_def)
    have eq: "siftup_loop (h[pos := h ! c]) c = (h', p)"
      using "1.prems"(1) True by (subst (asm) siftup_loop.simps) (simp add: c_def Let_def)
    have "length h' = length h \<and> p < length h \<and> \<not> 2 * p + 1 < length h
        \<and> mset (h'[p := x]) = mset (h[pos := h ! c, c := x])"
      using "1.IH" [OF True c_def eq] c by simp
    with c "1.prems"(2) show ?thesis by (simp add: mset_swap_hole)
  qed (use 1 in \<open>simp add: siftup_loop.simps [of h pos]\<close>)
qed

lemma mset_siftup: "pos < length h \<Longrightarrow> mset (siftup h pos) = mset h"
  using siftup_loop_props [of h pos _ _ "h ! pos"]
  by (auto simp: siftup_def siftdown_def mset_siftdown_loop split: prod.split)

lemma length_siftup: "pos < length h \<Longrightarrow> length (siftup h pos) = length h"
  using mset_siftup [of pos h] by (metis size_mset)

lemma mset_heappush: "mset (heappush h x) = add_mset x (mset h)"
  by (simp add: heappush_def siftdown_def mset_siftdown_loop)

lemma mset_fold_siftup:
  "\<forall>i \<in> set is. i < length h \<Longrightarrow> mset (fold (\<lambda>i h. siftup h i) is h) = mset h"
  by (induction "is" arbitrary: h) (auto simp: mset_siftup length_siftup)

lemma mset_heapify: "mset (heapify xs) = mset xs"
  by (auto simp: heapify_def intro!: mset_fold_siftup)

lemma butlast_snoc_last: "h \<noteq> [] \<Longrightarrow> mset h = add_mset (last h) (mset (butlast h))"
  by (metis append_butlast_last_id union_mset_add_mset_right mset.simps mset_append add.right_neutral)

lemma mset_heappop:
  assumes "heappop h = Some (x, h')"
  shows "mset h = add_mset x (mset h')"
proof -
  from assms have ne: "h \<noteq> []" by (auto simp: heappop_def)
  let ?r = "butlast h"
  show ?thesis
  proof (cases "?r = []")
    case True
    with assms ne butlast_snoc_last [OF ne] show ?thesis by (simp add: heappop_def)
  next
    case False
    with assms ne have x: "x = ?r ! 0" and h': "h' = siftup (?r[0 := last h]) 0"
      by (auto simp: heappop_def Let_def)
    from False obtain y ys where r: "?r = y # ys" by (cases ?r) auto
    have "mset h' = mset (last h # ys)" using h' r mset_siftup [of 0 "last h # ys"] by simp
    then show ?thesis using x r butlast_snoc_last [OF ne] by simp
  qed
qed

lemma heappop_None_iff: "heappop h = None \<longleftrightarrow> h = []"
  by (simp add: heappop_def Let_def)

section \<open>The heap order\<close>

text \<open>
  \<open>heap_from s h\<close>: every item whose parent position is at least \<open>s\<close> is not smaller than
  its parent. \<open>heap_hole s h pos x\<close> is the same for the list in which \<open>x\<close> is about to be
  stored at \<open>pos\<close>, except for the comparison of \<open>x\<close> with the parent of \<open>pos\<close>.
\<close>

definition heap_from :: "nat \<Rightarrow> ('k::linorder \<times> 'v) list \<Rightarrow> bool" where
  "heap_from s h \<longleftrightarrow>
     (\<forall>i < length h. 0 < i \<and> s \<le> parentpos i \<longrightarrow> fst (h ! parentpos i) \<le> fst (h ! i))"

definition heap_hole :: "nat \<Rightarrow> ('k::linorder \<times> 'v) list \<Rightarrow> nat \<Rightarrow> ('k \<times> 'v) \<Rightarrow> bool" where
  "heap_hole s h pos x \<longleftrightarrow>
     (\<forall>i < length h. 0 < i \<and> s \<le> parentpos i \<and> i \<noteq> pos \<and> parentpos i \<noteq> pos
        \<longrightarrow> fst (h ! parentpos i) \<le> fst (h ! i))
   \<and> (\<forall>i < length h. 0 < i \<and> parentpos i = pos \<longrightarrow> fst x \<le> fst (h ! i)
        \<and> (s < pos \<longrightarrow> fst (h ! parentpos pos) \<le> fst (h ! i)))"

text \<open>The positions from which the upward walk reaches \<open>s\<close>.\<close>

inductive below :: "nat \<Rightarrow> nat \<Rightarrow> bool" for s :: nat where
  below_refl: "below s s"
| below_child: "below s (parentpos i) \<Longrightarrow> s < i \<Longrightarrow> below s i"

lemma below_parent: "below s i \<Longrightarrow> s < i \<Longrightarrow> below s (parentpos i)"
  by (auto elim: below.cases)

lemma below_le: "below s i \<Longrightarrow> s \<le> i"
  by (induction rule: below.induct) auto

lemma below_0: "below 0 i"
proof (induction i rule: less_induct)
  case (less i)
  show ?case
  proof (cases "i = 0")
    case False
    then have "parentpos i < i" by arith
    with less False show ?thesis by (auto intro: below.intros)
  qed (simp add: below_refl)
qed

lemma siftdown_loop_heap:
  "heap_hole s h pos x \<Longrightarrow> below s pos \<Longrightarrow> pos < length h \<Longrightarrow>
     heap_from s (siftdown_loop s x h pos)"
proof (induction s x h pos rule: siftdown_loop.induct)
  case (1 s x h pos)
  let ?p = "parentpos pos"
  let ?h = "h[pos := h ! ?p]"
  show ?case
  proof (cases "s < pos \<and> fst x < fst (h ! ?p)")
    case True
    have p: "?p < length h" "?p \<noteq> pos" "?p < pos" using True "1.prems"(3) by auto
    have b: "below s ?p" using True "1.prems"(2) by (simp add: below_parent)
    have ord: "fst (h ! parentpos i) \<le> fst (h ! i)"
      if "i < length h" "0 < i" "s \<le> parentpos i" "i \<noteq> pos" "parentpos i \<noteq> pos" for i
      using that "1.prems"(1) by (auto simp: heap_hole_def)
    have kid: "fst (h ! ?p) \<le> fst (h ! i)"
      if "i < length h" "0 < i" "parentpos i = pos" for i
      using that True "1.prems"(1) by (auto simp: heap_hole_def)
    have sp: "s \<le> ?p" using b by (rule below_le)
    have "heap_hole s ?h ?p x"
      unfolding heap_hole_def
    proof (intro conjI allI impI)
      fix i assume i: "i < length ?h"
        and c: "0 < i \<and> s \<le> parentpos i \<and> i \<noteq> ?p \<and> parentpos i \<noteq> ?p"
      then show "fst (?h ! parentpos i) \<le> fst (?h ! i)"
        using ord [of i] kid [of i] "1.prems"(3) by (cases "parentpos i = pos") (auto simp: nth_list_update)
    next
      fix i assume i: "i < length ?h" and c: "0 < i \<and> parentpos i = ?p"
      have le: "fst (h ! ?p) \<le> fst (?h ! i)"
        using i c ord [of i] sp p by (cases "i = pos") auto
      then show "fst x \<le> fst (?h ! i)" using True by (meson le_less_trans less_imp_le order_trans)
      assume s: "s < ?p"
      then have "s \<le> parentpos ?p" using b by (auto intro: below_le below_parent)
      moreover have pp: "parentpos ?p \<noteq> pos" using p by linarith
      ultimately have "fst (h ! parentpos ?p) \<le> fst (h ! ?p)"
        using ord [of ?p] p s by simp
      then have "fst (h ! parentpos ?p) \<le> fst (?h ! i)" using le by (rule order_trans)
      with pp show "fst (?h ! parentpos ?p) \<le> fst (?h ! i)" by simp
    qed
    with 1 True p b show ?thesis
      by (subst siftdown_loop.simps) simp
  next
    case False
    have "heap_from s (h[pos := x])"
      unfolding heap_from_def
    proof (intro allI impI)
      fix i assume i: "i < length (h[pos := x])" "0 < i \<and> s \<le> parentpos i"
      then have "parentpos i \<noteq> i" by auto
      then show "fst (h[pos := x] ! parentpos i) \<le> fst (h[pos := x] ! i)"
        using i False "1.prems" below_le [OF "1.prems"(2)]
        by (auto simp: heap_hole_def nth_list_update)
    qed
    with False show ?thesis by (auto simp: siftdown_loop.simps [of s x h pos])
  qed
qed

lemma siftup_loop_heap:
  "siftup_loop h pos = (h', p) \<Longrightarrow> pos < length h \<Longrightarrow> below s pos \<Longrightarrow>
   (\<forall>i < length h. 0 < i \<and> s \<le> parentpos i \<and> (pos = s \<longrightarrow> parentpos i \<noteq> s)
      \<longrightarrow> fst (h ! parentpos i) \<le> fst (h ! i)) \<Longrightarrow>
   below s p \<and> (\<forall>i < length h'. 0 < i \<and> s \<le> parentpos i \<and> (p = s \<longrightarrow> parentpos i \<noteq> s)
      \<longrightarrow> fst (h' ! parentpos i) \<le> fst (h' ! i))"
proof (induction h pos rule: siftup_loop.induct)
  case (1 h pos)
  show ?case
  proof (cases "2 * pos + 1 < length h")
    case True
    define c where "c = (if 2 * pos + 2 < length h
        \<and> \<not> fst (h ! (2 * pos + 1)) < fst (h ! (2 * pos + 2)) then 2 * pos + 2 else 2 * pos + 1)"
    have c: "c < length h" "c \<noteq> pos" "parentpos c = pos" "0 < c" "pos < c" using True by (auto simp: c_def)
    have cmin: "fst (h ! c) \<le> fst (h ! i)" if "i < length h" "0 < i" "parentpos i = pos" for i
    proof -
      from that have "i = 2 * pos + 1 \<or> i = 2 * pos + 2" by auto
      then show ?thesis using that by (auto simp: c_def)
    qed
    let ?h = "h[pos := h ! c]"
    have sle: "s \<le> pos" using "1.prems"(3) by (rule below_le)
    have bc: "below s c" using c sle "1.prems"(3) by (auto intro: below_child)
    have "fst (?h ! parentpos i) \<le> fst (?h ! i)"
      if i: "i < length ?h" "0 < i" "s \<le> parentpos i" for i
    proof (cases "parentpos i = pos")
      case True
      moreover have "i \<noteq> pos" using True i(2) by auto
      ultimately show ?thesis using i cmin [of i] "1.prems"(2) by simp
    next
      case False
      have up: "fst (h ! parentpos i) \<le> fst (h ! i)"
        using "1.prems"(4) i False by auto
      show ?thesis
      proof (cases "i = pos")
        case True
        with i have "s \<noteq> pos" by auto
        then have "fst (h ! pos) \<le> fst (h ! c)" using "1.prems"(4) c sle by auto
        with up True False i show ?thesis by simp
      qed (use up False i in simp)
    qed
    moreover have "siftup_loop ?h c = (h', p)"
      using "1.prems"(1) True by (subst (asm) siftup_loop.simps) (simp add: c_def Let_def)
    ultimately show ?thesis
      using "1.IH" [OF True c_def] c bc by simp
  qed (use 1 in \<open>simp add: siftup_loop.simps [of h pos]\<close>)
qed

lemma siftup_heap:
  assumes "heap_from (Suc s) h" "s < length h"
  shows "heap_from s (siftup h s)"
proof -
  obtain h' p where l: "siftup_loop h s = (h', p)" by fastforce
  have "\<forall>i < length h. 0 < i \<and> s \<le> parentpos i \<and> (s = s \<longrightarrow> parentpos i \<noteq> s)
      \<longrightarrow> fst (h ! parentpos i) \<le> fst (h ! i)"
    using assms(1) by (auto simp: heap_from_def Suc_le_eq)
  from siftup_loop_heap [OF l assms(2) below_refl this]
  have b: "below s p" and o: "\<And>i. i < length h' \<Longrightarrow> 0 < i \<Longrightarrow> s \<le> parentpos i \<Longrightarrow>
      (p = s \<longrightarrow> parentpos i \<noteq> s) \<Longrightarrow> fst (h' ! parentpos i) \<le> fst (h' ! i)"
    by auto
  have q: "p < length h'" "\<not> 2 * p + 1 < length h'"
    using siftup_loop_props [OF l assms(2)] by auto
  have leaf: "parentpos i \<noteq> p" if "i < length h'" "0 < i" for i
    using that q(2) by auto
  have "heap_hole s (h'[p := h ! s]) p (h ! s)"
    using o leaf q(1) by (auto simp: heap_hole_def nth_list_update)
  then show ?thesis
    using b q(1) by (simp add: siftup_def l siftdown_def siftdown_loop_heap)
qed

lemma heappush_heap:
  assumes "heap_from 0 h"
  shows "heap_from 0 (heappush h x)"
proof -
  have "heap_hole 0 (h @ [x]) (length h) x"
    using assms by (auto simp: heap_hole_def heap_from_def nth_append)
  then show ?thesis by (simp add: heappush_def siftdown_def siftdown_loop_heap below_0)
qed

lemma heap_from_mono: "heap_from s h \<Longrightarrow> s \<le> t \<Longrightarrow> heap_from t h"
  by (auto simp: heap_from_def)

lemma heapify_fold:
  "heap_from n h \<Longrightarrow> n \<le> length h \<Longrightarrow> heap_from 0 (fold (\<lambda>i h. siftup h i) (rev [0..<n]) h)"
proof (induction n arbitrary: h)
  case (Suc n)
  then have "heap_from n (siftup h n)" "n \<le> length (siftup h n)"
    by (auto simp: siftup_heap length_siftup)
  with Suc.IH show ?case by simp
qed simp

lemma heapify_heap: "heap_from 0 (heapify xs)"
  unfolding heapify_def by (rule heapify_fold) (auto simp: heap_from_def)

lemma heap_root_min:
  "heap_from 0 h \<Longrightarrow> i < length h \<Longrightarrow> fst (h ! 0) \<le> fst (h ! i)"
proof (induction i rule: less_induct)
  case (less i)
  show ?case
  proof (cases "i = 0")
    case False
    then have "parentpos i < i" by arith
    with less False have "fst (h ! 0) \<le> fst (h ! parentpos i)" "fst (h ! parentpos i) \<le> fst (h ! i)"
      by (auto simp: heap_from_def)
    then show ?thesis by (rule order_trans)
  qed simp
qed

lemma heappop_heap:
  assumes "heap_from 0 h" "heappop h = Some (x, h')"
  shows "heap_from 0 h'" and "\<forall>y \<in> set h. fst x \<le> fst y"
proof -
  let ?r = "butlast h"
  from assms(2) have ne: "h \<noteq> []" by (auto simp: heappop_def)
  have nth: "?r ! i = h ! i" if "i < length ?r" for i using that by (simp add: nth_butlast)
  have x: "x = h ! 0"
    using assms(2) ne nth [of 0] by (cases h rule: rev_cases) (auto simp: heappop_def Let_def nth_append split: if_splits)
  show "\<forall>y \<in> set h. fst x \<le> fst y"
    using heap_root_min [OF assms(1)] by (metis x in_set_conv_nth)
  show "heap_from 0 h'"
  proof (cases "?r = []")
    case True
    with assms(2) ne show ?thesis by (simp add: heappop_def heap_from_def)
  next
    case False
    have "heap_from (Suc 0) (?r[0 := last h])"
      using assms(1) nth by (auto simp: heap_from_def nth_list_update nth_butlast)
    moreover have "0 < length (?r[0 := last h])" using False by (simp add: length_greater_0_conv [symmetric] del: length_greater_0_conv)
    ultimately have "heap_from 0 (siftup (?r[0 := last h]) 0)" by (rule siftup_heap)
    with False assms(2) ne show ?thesis by (auto simp: heappop_def Let_def)
  qed
qed

section \<open>The interface\<close>

locale priority_queue =
  fixes push :: "'q \<Rightarrow> 'k::linorder \<times> 'v \<Rightarrow> 'q"
    and pop :: "'q \<Rightarrow> (('k \<times> 'v) \<times> 'q) option"
    and build :: "('k \<times> 'v) list \<Rightarrow> 'q"
    and items :: "'q \<Rightarrow> ('k \<times> 'v) multiset"
    and ordered :: "'q \<Rightarrow> bool"
  assumes items_build: "items (build xs) = mset xs"
    and ordered_build: "ordered (build xs)"
    and items_push: "items (push q x) = add_mset x (items q)"
    and ordered_push: "ordered q \<Longrightarrow> ordered (push q x)"
    and items_pop: "pop q = Some (x, q') \<Longrightarrow> items q = add_mset x (items q')"
    and ordered_pop: "ordered q \<Longrightarrow> pop q = Some (x, q') \<Longrightarrow> ordered q'"
    and pop_min: "ordered q \<Longrightarrow> pop q = Some (x, q') \<Longrightarrow> y \<in># items q \<Longrightarrow> fst x \<le> fst y"
    and pop_None: "pop q = None \<longleftrightarrow> items q = {#}"
begin

lemma pop_mem: "pop q = Some (x, q') \<Longrightarrow> x \<in># items q"
  by (simp add: items_pop)

lemma size_pop: "pop q = Some (x, q') \<Longrightarrow> size (items q) = Suc (size (items q'))"
  by (simp add: items_pop)

lemma pop_progress: "items q \<noteq> {#} \<Longrightarrow> \<exists>x q'. pop q = Some (x, q')"
  by (metis pop_None not_None_eq surj_pair)

lemma values_pop:
  "pop q = Some ((k, v), q') \<Longrightarrow> image_mset snd (items q) = add_mset v (image_mset snd (items q'))"
  by (simp add: items_pop)

end

interpretation hq: priority_queue heappush heappop heapify mset "heap_from 0"
proof (unfold_locales, goal_cases)
  case (7 q x q' y)
  then show ?case using heappop_heap(2) by fastforce
qed (auto simp: mset_heapify heapify_heap mset_heappush heappush_heap mset_heappop heappop_None_iff
      dest: heappop_heap(1))

end
