(* ===== verification/Evict_Policy.thy ===== *)
theory Evict_Policy
  imports Tree_Node Heapq "HOL-Library.List_Lexorder" "HOL-Library.Product_Lexorder"
begin

text \<open>
  The eviction strategies of \<open>mem_cache/evict_policy.py\<close>. A priority is a tuple of numbers,
  compared lexicographically; the eviction heap holds pairs of a priority and a node, whose ties
  are broken by \<open>TreeNode.__lt__\<close>, that is by the access time.
\<close>

datatype eviction_strategy =
    LRUStrategy | LFUStrategy | FIFOStrategy | MRUStrategy | FILOStrategy | PriorityStrategy
  | SLRUStrategy (protected_threshold: int)

fun get_priority :: "eviction_strategy \<Rightarrow> tree_node \<Rightarrow> int list" where
  "get_priority LRUStrategy n = [nd_last_access_time n]"
| "get_priority LFUStrategy n = [nd_hit_count n, nd_last_access_time n]"
| "get_priority FIFOStrategy n = [nd_creation_time n]"
| "get_priority MRUStrategy n = [- nd_last_access_time n]"
| "get_priority FILOStrategy n = [- nd_creation_time n]"
| "get_priority PriorityStrategy n = [nd_priority n, nd_last_access_time n]"
| "get_priority (SLRUStrategy threshold) n =
     [if threshold \<le> nd_hit_count n then 1 else 0, nd_last_access_time n]"

text \<open>The selection in the constructor of the cache, on the lower-cased option string.\<close>

definition mk_eviction_strategy :: "string \<Rightarrow> eviction_strategy res" where
  "mk_eviction_strategy policy =
     (if policy = ''lru'' then Inr LRUStrategy
      else if policy = ''lfu'' then Inr LFUStrategy
      else if policy = ''fifo'' then Inr FIFOStrategy
      else if policy = ''mru'' then Inr MRUStrategy
      else if policy = ''filo'' then Inr FILOStrategy
      else if policy = ''priority'' then Inr PriorityStrategy
      else if policy = ''slru'' then Inr (SLRUStrategy 2)
      else Inl ValueError)"

type_synonym heap_item = "(int list \<times> int) \<times> nat"

definition heap_item :: "eviction_strategy \<Rightarrow> (nat \<Rightarrow> tree_node) \<Rightarrow> nat \<Rightarrow> heap_item" where
  "heap_item strat h n = ((get_priority strat (h n), nd_last_access_time (h n)), n)"

lemma snd_heap_item [simp]: "snd (heap_item strat h n) = n"
  by (simp add: heap_item_def)

lemma heap_item_key_less:
  "fst (heap_item strat h n) < fst (heap_item strat h m) \<longleftrightarrow>
     get_priority strat (h n) < get_priority strat (h m)
   \<or> get_priority strat (h n) = get_priority strat (h m) \<and> node_lt (h n) (h m)"
  by (auto simp: heap_item_def less_prod_def' node_lt_def)

text \<open>
  The segmented strategy puts every probationary node before every protected one, and within
  a segment the node accessed longer ago first.
\<close>

theorem slru_order:
  "get_priority (SLRUStrategy t) n < get_priority (SLRUStrategy t) m \<longleftrightarrow>
     nd_hit_count n < t \<and> t \<le> nd_hit_count m
   \<or> (nd_hit_count n < t \<longleftrightarrow> nd_hit_count m < t) \<and> node_lt n m"
  by (auto simp: node_lt_def)

end
