(* ===== verification/Kv_Allocator.thy ===== *)
theory Kv_Allocator
  imports Prelude
begin

text \<open>
  The KV-cache slot allocators of \<open>mem_cache/allocator.py\<close>: the common state of
  \<open>BaseTokenToKVPoolAllocator\<close>, the token allocator and the page-aligned allocator, with the
  interface both promise to their clients (locale \<open>kv_allocator\<close>). Slots and pages are the
  integers the tensors hold; slot 0 and page 0 are the padding that is never handed out.
\<close>

section \<open>State and shared operations\<close>

record kv_alloc =
  al_size :: nat
  al_page_size :: nat
  al_need_sort :: bool
  al_debug_mode :: bool
  al_free_pages :: "int list"
  al_release_pages :: "int list"
  al_is_not_in_free_group :: bool
  al_free_group :: "int list list"

definition alloc_base_init :: "nat \<Rightarrow> nat \<Rightarrow> bool \<Rightarrow> bool \<Rightarrow> kv_alloc" where
  "alloc_base_init sz p need_sort debug =
     \<lparr>al_size = sz, al_page_size = p, al_need_sort = need_sort, al_debug_mode = debug,
      al_free_pages = [], al_release_pages = [], al_is_not_in_free_group = True,
      al_free_group = []\<rparr>"

definition base_available_size :: "kv_alloc \<Rightarrow> nat" where
  "base_available_size a = (length (al_free_pages a) + length (al_release_pages a)) * al_page_size a"

definition backup_state :: "kv_alloc \<Rightarrow> int list \<times> int list" where
  "backup_state a = (al_free_pages a, al_release_pages a)"

definition restore_state :: "int list \<times> int list \<Rightarrow> kv_alloc \<Rightarrow> kv_alloc" where
  "restore_state st a = a\<lparr>al_free_pages := fst st, al_release_pages := snd st\<rparr>"

definition free_group_begin :: "kv_alloc \<Rightarrow> kv_alloc" where
  "free_group_begin a = a\<lparr>al_is_not_in_free_group := False, al_free_group := []\<rparr>"

definition free_group_end :: "(int list \<Rightarrow> kv_alloc \<Rightarrow> kv_alloc) \<Rightarrow> kv_alloc \<Rightarrow> kv_alloc" where
  "free_group_end free a =
     (let a' = a\<lparr>al_is_not_in_free_group := True\<rparr>
      in if al_free_group a' \<noteq> [] then free (concat (al_free_group a')) a' else a')"

definition merge_and_sort_free :: "kv_alloc \<Rightarrow> kv_alloc" where
  "merge_and_sort_free a =
     (if al_release_pages a \<noteq> []
      then a\<lparr>al_free_pages := sort (al_free_pages a @ al_release_pages a), al_release_pages := []\<rparr>
      else a)"

section \<open>The token allocator\<close>

definition token_clear :: "kv_alloc \<Rightarrow> kv_alloc" where
  "token_clear a =
     a\<lparr>al_free_pages := map int [1..<al_size a + 1], al_is_not_in_free_group := True,
       al_free_group := [], al_release_pages := []\<rparr>"

definition token_init :: "nat \<Rightarrow> bool \<Rightarrow> kv_alloc" where
  "token_init sz need_sort = token_clear (alloc_base_init sz 1 need_sort False)"

definition token_available_size :: "kv_alloc \<Rightarrow> nat" where
  "token_available_size a = length (al_free_pages a) + length (al_release_pages a)"

definition token_alloc :: "nat \<Rightarrow> kv_alloc \<Rightarrow> int list option \<times> kv_alloc" where
  "token_alloc need_size a =
     (let a' = (if al_need_sort a \<and> length (al_free_pages a) < need_size
                then merge_and_sort_free a else a)
      in if length (al_free_pages a') < need_size then (None, a')
         else (Some (take need_size (al_free_pages a')),
               a'\<lparr>al_free_pages := drop need_size (al_free_pages a')\<rparr>))"

definition token_free :: "int list \<Rightarrow> kv_alloc \<Rightarrow> kv_alloc" where
  "token_free free_index a =
     (if free_index = [] then a
      else if al_is_not_in_free_group a
      then (if al_need_sort a
            then a\<lparr>al_release_pages := al_release_pages a @ free_index\<rparr>
            else a\<lparr>al_free_pages := al_free_pages a @ free_index\<rparr>)
      else a\<lparr>al_free_group := al_free_group a @ [free_index]\<rparr>)"

section \<open>The paged allocator\<close>

definition num_pages :: "kv_alloc \<Rightarrow> nat" where
  "num_pages a = al_size a div al_page_size a"

definition paged_clear :: "kv_alloc \<Rightarrow> kv_alloc" where
  "paged_clear a =
     a\<lparr>al_free_pages := map int [1..<num_pages a + 1], al_is_not_in_free_group := True,
       al_free_group := [], al_release_pages := []\<rparr>"

definition paged_init :: "nat \<Rightarrow> nat \<Rightarrow> bool \<Rightarrow> bool \<Rightarrow> kv_alloc res" where
  "paged_init sz p need_sort debug =
     (if p = 0 then Inl ZeroDivisionError
      else Inr (paged_clear (alloc_base_init sz p need_sort debug)))"

text \<open>The token slots of a list of pages: \<open>(pages[:, None] * page_size + arange).reshape(-1)\<close>.\<close>

definition page_slots :: "nat \<Rightarrow> int list \<Rightarrow> int list" where
  "page_slots p pages = concat (map (\<lambda>g. map (\<lambda>j. g * int p + int j) [0..<p]) pages)"

definition torch_unique :: "int list \<Rightarrow> int list" where
  "torch_unique xs = sort (remdups xs)"

definition paged_alloc :: "nat \<Rightarrow> kv_alloc \<Rightarrow> (int list option \<times> kv_alloc) res" where
  "paged_alloc need_size a =
     rbind (guard_res (al_debug_mode a \<longrightarrow> need_size mod al_page_size a = 0) AssertionError) (\<lambda>_.
     let np = need_size div al_page_size a;
         a' = (if al_need_sort a \<and> length (al_free_pages a) < np then merge_and_sort_free a else a)
     in Inr (if length (al_free_pages a') < np then (None, a')
             else (Some (page_slots (al_page_size a) (take np (al_free_pages a'))),
                   a'\<lparr>al_free_pages := drop np (al_free_pages a')\<rparr>)))"

definition paged_free :: "int list \<Rightarrow> kv_alloc \<Rightarrow> kv_alloc res" where
  "paged_free free_index a =
     (if free_index = [] then Inr a
      else let a' = (if al_is_not_in_free_group a
                     then (let pages = torch_unique (map (\<lambda>i. i div int (al_page_size a)) free_index)
                           in if al_need_sort a
                              then a\<lparr>al_release_pages := pages @ al_release_pages a\<rparr>
                              else a\<lparr>al_free_pages := pages @ al_free_pages a\<rparr>)
                     else a\<lparr>al_free_group := al_free_group a @ [free_index]\<rparr>)
           in rbind (guard_res (al_debug_mode a' \<longrightarrow>
                       length (torch_unique (al_free_pages a')) = length (al_free_pages a'))
                     AssertionError) (\<lambda>_. Inr a'))"

section \<open>The interface\<close>

text \<open>
  \<open>inv a U\<close>: allocator state \<open>a\<close> has handed out exactly the token slots \<open>U\<close>. \<open>whole a xs\<close>:
  \<open>xs\<close> is a union of allocation units, so that releasing it releases nothing else;
  \<open>fits a n\<close>: \<open>n\<close> is a legal request size.
\<close>

locale kv_allocator =
  fixes alloc :: "nat \<Rightarrow> 'a \<Rightarrow> (int list option \<times> 'a) res"
    and free :: "int list \<Rightarrow> 'a \<Rightarrow> 'a res"
    and avail :: "'a \<Rightarrow> nat"
    and slots :: "'a \<Rightarrow> int set"
    and inv :: "'a \<Rightarrow> int set \<Rightarrow> bool"
    and fits :: "'a \<Rightarrow> nat \<Rightarrow> bool"
    and whole :: "'a \<Rightarrow> int set \<Rightarrow> bool"
  assumes alloc_ok: "inv a U \<Longrightarrow> fits a n \<Longrightarrow> \<exists>r a'. alloc n a = Inr (r, a')"
    and alloc_Some: "inv a U \<Longrightarrow> fits a n \<Longrightarrow> alloc n a = Inr (Some xs, a') \<Longrightarrow>
        length xs = n \<and> distinct xs \<and> set xs \<inter> U = {} \<and> whole a' (set xs)
        \<and> inv a' (U \<union> set xs) \<and> slots a' = slots a"
    and alloc_None: "inv a U \<Longrightarrow> fits a n \<Longrightarrow> alloc n a = Inr (None, a') \<Longrightarrow>
        avail a < n \<and> inv a' U \<and> slots a' = slots a"
    and free_inv: "inv a U \<Longrightarrow> set xs \<subseteq> U \<Longrightarrow> distinct xs \<Longrightarrow> whole a (set xs) \<Longrightarrow>
        \<exists>a'. free xs a = Inr a' \<and> inv a' (U - set xs) \<and> slots a' = slots a"
    and inv_slots: "inv a U \<Longrightarrow> finite (slots a) \<and> U \<subseteq> slots a \<and> 0 \<notin> slots a"
    and inv_avail: "inv a U \<Longrightarrow> avail a + card U = card (slots a)"
begin

lemma alloc_fresh:
  assumes "inv a U" "fits a n" "alloc n a = Inr (Some xs, a')"
  shows "0 \<notin> set xs" "set xs \<subseteq> slots a - U"
  using alloc_Some [OF assms] inv_slots [of a' "U \<union> set xs"] by auto

lemma alloc_avail:
  assumes "inv a U" "fits a n" "alloc n a = Inr (Some xs, a')"
  shows "avail a' + n = avail a"
proof -
  note s = alloc_Some [OF assms]
  have fin: "finite U" using inv_slots [OF assms(1)] by (auto intro: finite_subset)
  have "card (U \<union> set xs) = card U + n"
    using s fin by (subst card_Un_disjoint) (auto simp: distinct_card)
  moreover have "avail a' + card (U \<union> set xs) = card (slots a)" using s inv_avail by metis
  moreover have "avail a + card U = card (slots a)" by (rule inv_avail [OF assms(1)])
  ultimately show ?thesis by linarith
qed

lemma alloc_succeeds:
  assumes "inv a U" "fits a n" "n \<le> avail a"
  shows "\<exists>xs a'. alloc n a = Inr (Some xs, a')"
proof -
  obtain r a' where "alloc n a = Inr (r, a')" using alloc_ok [OF assms(1,2)] by blast
  with alloc_None [OF assms(1,2)] assms(3) show ?thesis by (cases r) auto
qed

lemma free_avail:
  assumes "inv a U" "set xs \<subseteq> U" "distinct xs" "whole a (set xs)"
  shows "\<exists>a'. free xs a = Inr a' \<and> inv a' (U - set xs) \<and> avail a' = avail a + length xs"
proof -
  obtain a' where f: "free xs a = Inr a'" "inv a' (U - set xs)" "slots a' = slots a"
    using free_inv [OF assms] by blast
  have fin: "finite U" using inv_slots [OF assms(1)] by (auto intro: finite_subset)
  have "card (U - set xs) + length xs = card U"
    using assms(2,3) fin by (metis List.finite_set card_Diff_subset card_mono distinct_card le_add_diff_inverse2)
  moreover have "avail a' + card (U - set xs) = card (slots a)" using f inv_avail by metis
  moreover have "avail a + card U = card (slots a)" by (rule inv_avail [OF assms(1)])
  ultimately show ?thesis using f by auto
qed

lemma alloc_free_restores:
  assumes "inv a U" "fits a n" "alloc n a = Inr (Some xs, a')"
  shows "\<exists>b. free xs a' = Inr b \<and> inv b U \<and> avail b = avail a"
proof -
  note s = alloc_Some [OF assms]
  have "(U \<union> set xs) - set xs = U" using s by auto
  with s free_avail [of a' "U \<union> set xs" xs] alloc_avail [OF assms] show ?thesis by auto
qed

end

section \<open>The token allocator keeps the interface\<close>

text \<open>
  Outside a free group every slot from 1 to the pool size is either free, released or handed
  out, exactly once; without lazy sorting nothing is ever in the release list.
\<close>

definition token_inv :: "kv_alloc \<Rightarrow> int set \<Rightarrow> bool" where
  "token_inv a U \<longleftrightarrow>
     al_is_not_in_free_group a \<and> distinct (al_free_pages a @ al_release_pages a)
   \<and> set (al_free_pages a @ al_release_pages a) \<inter> U = {}
   \<and> set (al_free_pages a @ al_release_pages a) \<union> U = {1..int (al_size a)}
   \<and> (\<not> al_need_sort a \<longrightarrow> al_release_pages a = [])"

lemma merge_and_sort_free_sets:
  "set (al_free_pages (merge_and_sort_free a)) \<union> set (al_release_pages (merge_and_sort_free a))
     = set (al_free_pages a) \<union> set (al_release_pages a)"
  by (simp add: merge_and_sort_free_def)

lemma merge_and_sort_free_simps [simp]:
  "al_size (merge_and_sort_free a) = al_size a"
  "al_page_size (merge_and_sort_free a) = al_page_size a"
  "al_need_sort (merge_and_sort_free a) = al_need_sort a"
  "al_debug_mode (merge_and_sort_free a) = al_debug_mode a"
  "al_is_not_in_free_group (merge_and_sort_free a) = al_is_not_in_free_group a"
  "al_release_pages (merge_and_sort_free a) = []"
  "length (al_free_pages (merge_and_sort_free a)) = length (al_free_pages a) + length (al_release_pages a)"
  by (simp_all add: merge_and_sort_free_def)

lemma distinct_merge_and_sort_free:
  "distinct (al_free_pages a @ al_release_pages a) \<Longrightarrow> distinct (al_free_pages (merge_and_sort_free a))"
  by (simp add: merge_and_sort_free_def)

lemma set_merge_and_sort_free:
  "set (al_free_pages (merge_and_sort_free a)) = set (al_free_pages a) \<union> set (al_release_pages a)"
  using merge_and_sort_free_sets [of a] by simp

lemma token_inv_merge: "token_inv a U \<Longrightarrow> token_inv (merge_and_sort_free a) U"
  by (auto simp: token_inv_def set_merge_and_sort_free distinct_merge_and_sort_free)

lemma set_map_int_upt: "set (map int [1..<n + 1]) = {1..int n}"
proof -
  have "set [1..<n + 1] = {1..n}" by auto
  then have "set (map int [1..<n + 1]) = int ` {1..n}" by (simp only: set_map)
  then show ?thesis using image_int_atLeastAtMost [of 1 n] by simp
qed

lemma token_inv_clear: "token_inv (token_clear a) {}"
  using set_map_int_upt [of "al_size a"] by (simp add: token_inv_def token_clear_def distinct_map)

lemma set_take_drop_distinct:
  "distinct xs \<Longrightarrow> set (take n xs) \<inter> set (drop n xs) = {} \<and> set (take n xs) \<union> set (drop n xs) = set xs"
  by (metis append_take_drop_id distinct_append set_append)

lemma token_alloc_cases:
  assumes "token_inv a U" "token_alloc n a = (r, a')"
  shows "case r of
      Some xs \<Rightarrow> length xs = n \<and> distinct xs \<and> set xs \<inter> U = {} \<and> token_inv a' (U \<union> set xs)
    | None \<Rightarrow> token_available_size a < n \<and> token_inv a' U"
    and "al_size a' = al_size a"
proof -
  define b where "b = (if al_need_sort a \<and> length (al_free_pages a) < n then merge_and_sort_free a else a)"
  have b: "token_inv b U" using assms(1) by (simp add: b_def token_inv_merge)
  have eq: "(r, a') = (if length (al_free_pages b) < n then (None, b)
       else (Some (take n (al_free_pages b)), b\<lparr>al_free_pages := drop n (al_free_pages b)\<rparr>))"
    using assms(2) by (simp add: token_alloc_def b_def [symmetric] Let_def)
  show "al_size a' = al_size a" using eq by (auto simp: b_def split: if_splits)
  show "case r of
      Some xs \<Rightarrow> length xs = n \<and> distinct xs \<and> set xs \<inter> U = {} \<and> token_inv a' (U \<union> set xs)
    | None \<Rightarrow> token_available_size a < n \<and> token_inv a' U"
  proof (cases "length (al_free_pages b) < n")
    case True
    have "token_available_size a < n"
      using True assms(1) by (auto simp: b_def token_available_size_def token_inv_def split: if_splits)
    with True eq b show ?thesis by simp
  next
    case False
    then have "set (take n (al_free_pages b)) \<inter> set (drop n (al_free_pages b)) = {}"
      "set (take n (al_free_pages b)) \<union> set (drop n (al_free_pages b)) = set (al_free_pages b)"
      using b set_take_drop_distinct [of "al_free_pages b" n] by (auto simp: token_inv_def)
    with False eq b show ?thesis by (auto simp: token_inv_def)
  qed
qed

lemma token_free_inv:
  "token_inv a U \<Longrightarrow> set xs \<subseteq> U \<Longrightarrow> distinct xs \<Longrightarrow> token_inv (token_free xs a) (U - set xs)"
  by (auto simp: token_inv_def token_free_def)

lemma token_free_size [simp]: "al_size (token_free xs a) = al_size a"
  by (simp add: token_free_def)

interpretation tok: kv_allocator "\<lambda>n a. Inr (token_alloc n a)" "\<lambda>xs a. Inr (token_free xs a)"
  token_available_size "\<lambda>a. {1..int (al_size a)}" token_inv "\<lambda>a n. True" "\<lambda>a S. True"
proof (unfold_locales, goal_cases)
  case (1 a U n)
  show ?case by (cases "token_alloc n a") auto
next
  case (2 a U n xs a')
  then show ?case using token_alloc_cases [of a U n "Some xs" a'] by simp
next
  case (3 a U n a')
  then show ?case using token_alloc_cases [of a U n None a'] by simp
next
  case (4 a U xs)
  then show ?case by (simp add: token_free_inv)
next
  case (5 a U)
  then show ?case by (auto simp: token_inv_def)
next
  case (6 a U)
  let ?F = "al_free_pages a @ al_release_pages a"
  have "card (set ?F \<union> U) = card (set ?F) + card U"
    using 6 by (intro card_Un_disjoint) (auto simp: token_inv_def intro: finite_subset)
  moreover have "card (set ?F) = length ?F" using 6 by (intro distinct_card) (simp add: token_inv_def)
  moreover have "set ?F \<union> U = {1..int (al_size a)}" using 6 by (simp add: token_inv_def)
  ultimately show ?case by (simp add: token_available_size_def)
qed

section \<open>The paged allocator keeps the interface\<close>

definition slots_of :: "nat \<Rightarrow> int set \<Rightarrow> int set" where
  "slots_of p P = {i. i div int p \<in> P}"

definition page_set :: "kv_alloc \<Rightarrow> int set" where
  "page_set a = {1..int (num_pages a)}"

definition paged_inv :: "kv_alloc \<Rightarrow> int set \<Rightarrow> bool" where
  "paged_inv a U \<longleftrightarrow>
     0 < al_page_size a \<and> al_is_not_in_free_group a
   \<and> distinct (al_free_pages a @ al_release_pages a)
   \<and> (\<not> al_need_sort a \<longrightarrow> al_release_pages a = [])
   \<and> set (al_free_pages a @ al_release_pages a) \<subseteq> page_set a
   \<and> U = slots_of (al_page_size a) (page_set a - set (al_free_pages a @ al_release_pages a))"

lemma slots_of_page: "0 < p \<Longrightarrow> slots_of p {g} = (\<lambda>j. g * int p + int j) ` {0..<p}"
proof (intro set_eqI iffI)
  fix i assume "0 < p" "i \<in> slots_of p {g}"
  then have "i = g * int p + int (nat (i mod int p))" "nat (i mod int p) < p"
    by (auto simp: slots_of_def nat_less_iff)
  then show "i \<in> (\<lambda>j. g * int p + int j) ` {0..<p}" by (metis atLeastLessThan_iff imageI zero_le)
qed (auto simp: slots_of_def)

lemma slots_of_UN: "slots_of p P = (\<Union>g\<in>P. slots_of p {g})"
  by (auto simp: slots_of_def)

lemma slots_of_inj: "0 < p \<Longrightarrow> slots_of p P \<subseteq> slots_of p Q \<longleftrightarrow> P \<subseteq> Q"
proof
  assume p: "0 < p" and sub: "slots_of p P \<subseteq> slots_of p Q"
  show "P \<subseteq> Q"
  proof
    fix g assume "g \<in> P"
    then have "g * int p \<in> slots_of p P" using p by (simp add: slots_of_def)
    with sub have "g * int p \<in> slots_of p Q" by (rule subsetD)
    with p show "g \<in> Q" by (simp add: slots_of_def)
  qed
qed (auto simp: slots_of_def)

lemma set_page_slots: "0 < p \<Longrightarrow> set (page_slots p gs) = slots_of p (set gs)"
  by (subst slots_of_UN) (simp add: page_slots_def slots_of_page)

lemma length_page_slots [simp]: "length (page_slots p gs) = p * length gs"
  by (induction gs) (auto simp: page_slots_def)

lemma distinct_page_slots: "0 < p \<Longrightarrow> distinct gs \<Longrightarrow> distinct (page_slots p gs)"
proof (induction gs)
  case (Cons g gs)
  have "set (map (\<lambda>j. g * int p + int j) [0..<p]) \<inter> set (page_slots p gs) = {}"
    using Cons.prems by (auto simp: set_page_slots slots_of_def)
  moreover have "page_slots p (g # gs) = map (\<lambda>j. g * int p + int j) [0..<p] @ page_slots p gs"
    by (simp add: page_slots_def)
  ultimately show ?case using Cons by (simp add: distinct_map inj_on_def)
qed (simp add: page_slots_def)

lemma card_slots_of: "0 < p \<Longrightarrow> finite P \<Longrightarrow> card (slots_of p P) = p * card P"
proof -
  assume p: "0 < p" and "finite P"
  then obtain gs where gs: "set gs = P" "distinct gs" using finite_distinct_list by blast
  then have "card (set (page_slots p gs)) = p * length gs"
    using p by (simp add: distinct_card distinct_page_slots del: set_page_slots)
  with gs p show ?thesis by (simp add: set_page_slots distinct_card [symmetric])
qed

lemma finite_slots_of: "0 < p \<Longrightarrow> finite P \<Longrightarrow> finite (slots_of p P)"
  using set_page_slots [of p] finite_distinct_list [of P] by (metis List.finite_set)

lemma torch_unique_props [simp]:
  "set (torch_unique xs) = set xs" "distinct (torch_unique xs)"
  by (simp_all add: torch_unique_def)

lemma torch_unique_distinct [simp]: "distinct xs \<Longrightarrow> length (torch_unique xs) = length xs"
  by (simp add: torch_unique_def distinct_remdups_id)

lemma paged_inv_merge: "paged_inv a U \<Longrightarrow> paged_inv (merge_and_sort_free a) U"
  by (auto simp: paged_inv_def set_merge_and_sort_free distinct_merge_and_sort_free page_set_def
      num_pages_def)

lemma paged_inv_clear: "0 < al_page_size a \<Longrightarrow> paged_inv (paged_clear a) {}"
  using set_map_int_upt [of "num_pages a"]
  by (simp add: paged_inv_def paged_clear_def distinct_map page_set_def num_pages_def slots_of_def)

lemma slots_of_Un: "slots_of p (P \<union> Q) = slots_of p P \<union> slots_of p Q"
  and slots_of_Diff: "slots_of p (P - Q) = slots_of p P - slots_of p Q"
  and slots_of_Int: "slots_of p (P \<inter> Q) = slots_of p P \<inter> slots_of p Q"
  by (auto simp: slots_of_def)

lemma paged_alloc_cases:
  assumes inv: "paged_inv a U" and fit: "al_page_size a dvd n" and eq: "paged_alloc n a = Inr (r, a')"
  shows "case r of
      Some xs \<Rightarrow> length xs = n \<and> distinct xs \<and> set xs \<inter> U = {} \<and> paged_inv a' (U \<union> set xs)
        \<and> (\<exists>Q. set xs = slots_of (al_page_size a') Q)
    | None \<Rightarrow> base_available_size a < n \<and> paged_inv a' U"
    and "al_size a' = al_size a" "al_page_size a' = al_page_size a"
proof -
  let ?p = "al_page_size a"
  define np where "np = n div ?p"
  define b where "b = (if al_need_sort a \<and> length (al_free_pages a) < np then merge_and_sort_free a else a)"
  have p: "0 < ?p" using inv by (simp add: paged_inv_def)
  have n: "n = np * ?p" using fit by (simp add: np_def)
  have b: "paged_inv b U" "al_page_size b = ?p" "al_size b = al_size a"
    using inv by (simp_all add: b_def paged_inv_merge)
  have eq': "(r, a') = (if length (al_free_pages b) < np then (None, b)
       else (Some (page_slots ?p (take np (al_free_pages b))), b\<lparr>al_free_pages := drop np (al_free_pages b)\<rparr>))"
    using eq by (auto simp: paged_alloc_def b_def [symmetric] np_def [symmetric] Let_def res_simps)
  show "al_size a' = al_size a" "al_page_size a' = al_page_size a"
    using eq' b by (auto split: if_splits)
  show "case r of
      Some xs \<Rightarrow> length xs = n \<and> distinct xs \<and> set xs \<inter> U = {} \<and> paged_inv a' (U \<union> set xs)
        \<and> (\<exists>Q. set xs = slots_of (al_page_size a') Q)
    | None \<Rightarrow> base_available_size a < n \<and> paged_inv a' U"
  proof (cases "length (al_free_pages b) < np")
    case True
    have "length (al_free_pages a) + length (al_release_pages a) < np"
      using True inv by (auto simp: b_def paged_inv_def split: if_splits)
    then have "base_available_size a < n" using n p by (simp add: base_available_size_def)
    with True eq' b show ?thesis by simp
  next
    case False
    let ?F = "al_free_pages b" and ?R = "al_release_pages b"
    let ?P = "page_set b"
    have d: "distinct (?F @ ?R)" "set (?F @ ?R) \<subseteq> ?P" "U = slots_of ?p (?P - set (?F @ ?R))"
      using b by (simp_all add: paged_inv_def)
    have td: "set (take np ?F) \<inter> set (drop np ?F) = {}" "set (take np ?F) \<union> set (drop np ?F) = set ?F"
      using d set_take_drop_distinct [of ?F np] by auto
    let ?xs = "page_slots ?p (take np ?F)"
    have xs: "set ?xs = slots_of ?p (set (take np ?F))" using p by (rule set_page_slots)
    have "set (take np ?F) \<inter> (?P - set (?F @ ?R)) = {}" using td by auto
    then have dis: "set ?xs \<inter> U = {}"
      using d(3) xs by (simp add: slots_of_Int [symmetric] slots_of_def [of _ "{}"])
    have "?P - set (drop np ?F @ ?R) = (?P - set (?F @ ?R)) \<union> set (take np ?F)"
      using td d by auto
    then have "U \<union> set ?xs = slots_of ?p (?P - set (drop np ?F @ ?R))"
      using d(3) xs by (simp only: slots_of_Un)
    then have "paged_inv (b\<lparr>al_free_pages := drop np ?F\<rparr>) (U \<union> set ?xs)"
      using b d td by (auto simp: paged_inv_def page_set_def num_pages_def)
    then show ?thesis
      using False eq' n p dis xs d by (auto simp: distinct_page_slots b(2))
  qed
qed

lemma paged_free_ok:
  assumes inv: "paged_inv a U" and sub: "set xs \<subseteq> U" and whole: "set xs = slots_of (al_page_size a) Q"
  shows "\<exists>a'. paged_free xs a = Inr a' \<and> paged_inv a' (U - set xs)
     \<and> al_size a' = al_size a \<and> al_page_size a' = al_page_size a"
proof (cases "xs = []")
  case False
  let ?p = "al_page_size a" and ?F = "al_free_pages a" and ?R = "al_release_pages a"
  have p: "0 < ?p" and d: "distinct (?F @ ?R)" "set (?F @ ?R) \<subseteq> page_set a"
    and U: "U = slots_of ?p (page_set a - set (?F @ ?R))" and g: "al_is_not_in_free_group a"
    and r: "\<not> al_need_sort a \<Longrightarrow> ?R = []"
    using inv by (auto simp: paged_inv_def)
  let ?gs = "torch_unique (map (\<lambda>i. i div int ?p) xs)"
  have gs: "set ?gs = Q"
  proof -
    have "(\<lambda>i. i div int ?p) ` slots_of ?p Q = Q"
    proof (intro set_eqI iffI)
      fix q assume "q \<in> Q"
      then have "q * int ?p \<in> slots_of ?p Q" using p by (simp add: slots_of_def)
      then have "(q * int ?p) div int ?p \<in> (\<lambda>i. i div int ?p) ` slots_of ?p Q" by (rule imageI)
      with p show "q \<in> (\<lambda>i. i div int ?p) ` slots_of ?p Q" by simp
    qed (auto simp: slots_of_def)
    with whole show ?thesis by simp
  qed
  have Q: "Q \<subseteq> page_set a - set (?F @ ?R)"
    using sub whole U slots_of_inj [OF p] by metis
  then have dis: "distinct (?gs @ ?F @ ?R)" using d gs by auto
  have Ud: "U - set xs = slots_of ?p (page_set a - set (?F @ ?R) - Q)"
    using U whole by (simp only: slots_of_Diff)
  have "page_set a - set (?F @ ?R) - Q = page_set a - set (?gs @ ?F @ ?R)" using gs by auto
  with Ud have Ud': "U - set xs = slots_of ?p (page_set a - set (?gs @ ?F @ ?R))" by simp
  define a' where "a' = (if al_need_sort a then a\<lparr>al_release_pages := ?gs @ ?R\<rparr>
      else a\<lparr>al_free_pages := ?gs @ ?F\<rparr>)"
  have "paged_inv a' (U - set xs)"
    using dis d p g r gs Q Ud'
    by (auto simp: paged_inv_def a'_def page_set_def num_pages_def Un_ac)
  moreover have "distinct (al_free_pages a')" using dis by (auto simp: a'_def)
  ultimately show ?thesis using False g
    by (auto simp: paged_free_def Let_def a'_def [symmetric] res_simps) (auto simp: a'_def)
qed (use inv in \<open>simp add: paged_free_def\<close>)

interpretation pag: kv_allocator paged_alloc paged_free base_available_size
  "\<lambda>a. slots_of (al_page_size a) (page_set a)" paged_inv "\<lambda>a n. al_page_size a dvd n"
  "\<lambda>a S. \<exists>Q. S = slots_of (al_page_size a) Q"
proof (unfold_locales, goal_cases)
  case (1 a U n)
  then show ?case by (auto simp: paged_alloc_def Let_def)
next
  case (2 a U n xs a')
  then show ?case
    using paged_alloc_cases [of a U n "Some xs" a'] by (auto simp: page_set_def num_pages_def)
next
  case (3 a U n a')
  then show ?case
    using paged_alloc_cases [of a U n None a'] by (simp add: page_set_def num_pages_def)
next
  case (4 a U xs)
  then obtain Q where "set xs = slots_of (al_page_size a) Q" by blast
  with 4 paged_free_ok [of a U xs Q] show ?case by (auto simp: page_set_def num_pages_def)
next
  case (5 a U)
  then show ?case
    by (auto simp: paged_inv_def page_set_def finite_slots_of) (auto simp: slots_of_def)
next
  case (6 a U)
  let ?F = "al_free_pages a @ al_release_pages a"
  have d: "distinct ?F" "set ?F \<subseteq> page_set a" using 6 by (simp_all add: paged_inv_def)
  then have "card (page_set a - set ?F) = card (page_set a) - length ?F"
    by (metis List.finite_set card_Diff_subset distinct_card)
  moreover have "length ?F \<le> card (page_set a)"
    using d by (metis card_mono distinct_card finite_atLeastAtMost_int page_set_def)
  ultimately have "card (page_set a - set ?F) + length ?F = card (page_set a)" by simp
  moreover have "card U = al_page_size a * card (page_set a - set ?F)"
    using 6 by (simp add: paged_inv_def card_slots_of page_set_def)
  moreover have "card (slots_of (al_page_size a) (page_set a)) = al_page_size a * card (page_set a)"
    using 6 by (simp add: paged_inv_def card_slots_of page_set_def)
  ultimately show ?case
    by (metis add.commute base_available_size_def distrib_left length_append mult.commute)
qed

section \<open>Either allocator\<close>

text \<open>
  The pool is built with the token allocator for page size one and with the paged allocator
  otherwise; a call on the allocator object is dispatched accordingly.
\<close>

definition kv_alloc_op :: "nat \<Rightarrow> kv_alloc \<Rightarrow> (int list option \<times> kv_alloc) res" where
  "kv_alloc_op n a = (if al_page_size a = 1 then Inr (token_alloc n a) else paged_alloc n a)"

definition kv_free :: "int list \<Rightarrow> kv_alloc \<Rightarrow> kv_alloc res" where
  "kv_free xs a = (if al_page_size a = 1 then Inr (token_free xs a) else paged_free xs a)"

definition kv_available_size :: "kv_alloc \<Rightarrow> nat" where
  "kv_available_size a = (if al_page_size a = 1 then token_available_size a else base_available_size a)"

definition kv_slots :: "kv_alloc \<Rightarrow> int set" where
  "kv_slots a = (if al_page_size a = 1 then {1..int (al_size a)} else slots_of (al_page_size a) (page_set a))"

definition kv_inv :: "kv_alloc \<Rightarrow> int set \<Rightarrow> bool" where
  "kv_inv a U \<longleftrightarrow> (if al_page_size a = 1 then token_inv a U else paged_inv a U)"

definition whole_pages :: "nat \<Rightarrow> int set \<Rightarrow> bool" where
  "whole_pages p S \<longleftrightarrow> (\<exists>Q. S = slots_of p Q)"

lemma slots_of_one [simp]: "slots_of 1 P = P" "slots_of (Suc 0) P = P"
  by (simp_all add: slots_of_def)

lemma whole_pages_one [simp]: "whole_pages (Suc 0) S"
  by (auto simp: whole_pages_def)

lemma whole_pages_slots [simp]: "0 < p \<Longrightarrow> whole_pages p (set (page_slots p gs))"
  by (auto simp: whole_pages_def set_page_slots)

lemma whole_pages_Un: "whole_pages p S \<Longrightarrow> whole_pages p T \<Longrightarrow> whole_pages p (S \<union> T)"
  unfolding whole_pages_def by (metis slots_of_Un)

lemma whole_pages_empty [simp]: "whole_pages p {}"
  unfolding whole_pages_def by (rule exI [of _ "{}"]) (simp add: slots_of_def)

lemma token_alloc_page_size [simp]: "al_page_size (snd (token_alloc n a)) = al_page_size a"
  by (simp add: token_alloc_def Let_def)

lemma token_free_page_size [simp]: "al_page_size (token_free xs a) = al_page_size a"
  by (simp add: token_free_def)

lemma paged_alloc_page_size: "paged_alloc n a = Inr (r, a') \<Longrightarrow> al_page_size a' = al_page_size a \<and> al_size a' = al_size a"
  by (auto simp: paged_alloc_def Let_def res_simps split: if_splits)

lemma paged_free_page_size: "paged_free xs a = Inr a' \<Longrightarrow> al_page_size a' = al_page_size a \<and> al_size a' = al_size a"
  by (auto simp: paged_free_def Let_def res_simps split: if_splits)

lemma kv_free_page_size: "kv_free xs a = Inr a' \<Longrightarrow> al_page_size a' = al_page_size a"
  by (auto simp: kv_free_def paged_free_page_size split: if_splits)

lemma kv_free_Nil [simp]: "kv_free [] a = Inr a"
  by (simp add: kv_free_def token_free_def paged_free_def)

interpretation kv: kv_allocator kv_alloc_op kv_free kv_available_size kv_slots kv_inv
  "\<lambda>a n. al_page_size a dvd n" "\<lambda>a. whole_pages (al_page_size a)"
proof (unfold_locales, goal_cases)
  case (1 a U n)
  then show ?case
    using tok.alloc_ok [of a U n] pag.alloc_ok [of a U n] by (simp add: kv_alloc_op_def kv_inv_def split: if_splits)
next
  case (2 a U n xs a')
  show ?case
  proof (cases "al_page_size a = 1")
    case True
    with 2 have "al_page_size a' = 1" using token_alloc_page_size [of n a] by (simp add: kv_alloc_op_def)
    with True 2 tok.alloc_Some [of a U n xs a'] show ?thesis
      by (simp add: kv_alloc_op_def kv_inv_def kv_slots_def)
  next
    case False
    with 2 have "al_page_size a' = al_page_size a" using paged_alloc_page_size by (simp add: kv_alloc_op_def)
    with False 2 pag.alloc_Some [of a U n xs a'] show ?thesis
      by (simp add: kv_alloc_op_def kv_inv_def kv_slots_def whole_pages_def)
  qed
next
  case (3 a U n a')
  show ?case
  proof (cases "al_page_size a = 1")
    case True
    with 3 have "al_page_size a' = 1" using token_alloc_page_size [of n a] by (simp add: kv_alloc_op_def)
    with True 3 tok.alloc_None [of a U n a'] show ?thesis
      by (simp add: kv_alloc_op_def kv_inv_def kv_slots_def kv_available_size_def)
  next
    case False
    with 3 have "al_page_size a' = al_page_size a" using paged_alloc_page_size by (simp add: kv_alloc_op_def)
    with False 3 pag.alloc_None [of a U n a'] show ?thesis
      by (simp add: kv_alloc_op_def kv_inv_def kv_slots_def kv_available_size_def)
  qed
next
  case (4 a U xs)
  show ?case
  proof (cases "al_page_size a = 1")
    case True
    with 4 show ?thesis using tok.free_inv [of a U xs] by (simp add: kv_free_def kv_inv_def kv_slots_def)
  next
    case False
    with 4 obtain a' where "paged_free xs a = Inr a'" "paged_inv a' (U - set xs)"
      "slots_of (al_page_size a') (page_set a') = slots_of (al_page_size a) (page_set a)"
      using pag.free_inv [of a U xs] by (auto simp: kv_inv_def whole_pages_def)
    with False paged_free_page_size [of xs a a'] show ?thesis
      by (simp add: kv_free_def kv_inv_def kv_slots_def)
  qed
next
  case (5 a U)
  then show ?case
    using tok.inv_slots [of a U] pag.inv_slots [of a U] by (simp add: kv_inv_def kv_slots_def split: if_splits)
next
  case (6 a U)
  then show ?case
    using tok.inv_avail [of a U] pag.inv_avail [of a U]
    by (simp add: kv_inv_def kv_slots_def kv_available_size_def split: if_splits)
qed

section \<open>Properties of the allocators\<close>

text \<open>
  The token allocator hands out a request exactly when that many slots are free: it then
  returns that many different slots, none of them in use and none the padding slot 0, and
  freeing them again restores the state; otherwise it returns \<open>None\<close> and nothing changes hands.
\<close>

theorem token_alloc_lifecycle:
  assumes "token_inv a U"
  shows "if n \<le> token_available_size a
     then \<exists>xs a'. token_alloc n a = (Some xs, a') \<and> length xs = n \<and> distinct xs
        \<and> set xs \<subseteq> {1..int (al_size a)} - U \<and> token_inv a' (U \<union> set xs)
        \<and> token_available_size a' + n = token_available_size a
        \<and> token_inv (token_free xs a') U
        \<and> token_available_size (token_free xs a') = token_available_size a
     else \<exists>a'. token_alloc n a = (None, a') \<and> token_inv a' U"
proof (cases "n \<le> token_available_size a")
  case True
  then obtain xs a' where e: "token_alloc n a = (Some xs, a')"
    using tok.alloc_succeeds [OF assms, of n] by auto
  then show ?thesis
    using True tok.alloc_Some [OF assms, of n xs a'] tok.alloc_fresh [OF assms, of n xs a']
      tok.alloc_avail [OF assms, of n xs a'] tok.alloc_free_restores [OF assms, of n xs a'] by auto
next
  case False
  obtain r a' where e: "token_alloc n a = (r, a')" by fastforce
  have "r = None"
    using tok.alloc_avail [OF assms, of n _ a'] e False by (cases r) auto
  with e False tok.alloc_None [OF assms, of n a'] show ?thesis by auto
qed

theorem token_alloc_lifecycle_witness:
  "\<exists>xs a'. token_alloc 3 (token_init 5 True) = (Some xs, a') \<and> length xs = 3 \<and> distinct xs
     \<and> set xs \<subseteq> {1..5} \<and> token_inv (token_free xs a') {}"
  using token_alloc_lifecycle [of "token_init 5 True" "{}" 3] token_inv_clear [of "alloc_base_init 5 1 True False"]
  by (auto simp: token_init_def token_clear_def alloc_base_init_def token_available_size_def)

text \<open>
  C31: The paged allocator serves a page-aligned request exactly when enough whole pages are
  free: the slots it returns are different, fill whole pages none of whose slots is in use, and
  freeing them restores the accounting; it raises no assertion in debug mode.
\<close>

theorem paged_alloc_lifecycle:
  assumes "paged_inv a U" "al_page_size a dvd n"
  shows "if n \<le> base_available_size a
     then \<exists>xs a' b. paged_alloc n a = Inr (Some xs, a') \<and> length xs = n \<and> distinct xs
        \<and> set xs \<subseteq> slots_of (al_page_size a) (page_set a) - U \<and> 0 \<notin> set xs
        \<and> paged_inv a' (U \<union> set xs) \<and> base_available_size a' + n = base_available_size a
        \<and> paged_free xs a' = Inr b \<and> paged_inv b U \<and> base_available_size b = base_available_size a
     else \<exists>a'. paged_alloc n a = Inr (None, a') \<and> paged_inv a' U"
proof (cases "n \<le> base_available_size a")
  case True
  then obtain xs a' where e: "paged_alloc n a = Inr (Some xs, a')"
    using pag.alloc_succeeds [OF assms] by auto
  note f = pag.alloc_Some [OF assms e] pag.alloc_fresh [OF assms e] pag.alloc_avail [OF assms e]
    pag.alloc_free_restores [OF assms e]
  from f(5) obtain b where "paged_free xs a' = Inr b" "paged_inv b U" "base_available_size b = base_available_size a"
    by blast
  with f(1-4) e True show ?thesis by auto
next
  case False
  obtain r a' where e: "paged_alloc n a = Inr (r, a')" using pag.alloc_ok [OF assms] by auto
  have "r = None"
    using pag.alloc_avail [OF assms, of _ a'] e False by (cases r) auto
  with e False pag.alloc_None [OF assms, of a'] show ?thesis by auto
qed

theorem paged_alloc_lifecycle_witness:
  "\<exists>xs a' b. paged_alloc 8 (paged_clear (alloc_base_init 12 4 True True)) = Inr (Some xs, a')
     \<and> length xs = 8 \<and> distinct xs \<and> 0 \<notin> set xs \<and> paged_free xs a' = Inr b \<and> paged_inv b {}"
  using paged_alloc_lifecycle [of "paged_clear (alloc_base_init 12 4 True True)" "{}" 8]
    paged_inv_clear [of "alloc_base_init 12 4 True True"]
  by (fastforce simp: paged_clear_def alloc_base_init_def base_available_size_def num_pages_def)

lemma token_free_in_group:
  "\<not> al_is_not_in_free_group a \<Longrightarrow>
     fold token_free xss a = a\<lparr>al_free_group := al_free_group a @ filter (\<lambda>xs. xs \<noteq> []) xss\<rparr>"
  by (induction xss arbitrary: a) (auto simp: token_free_def)

lemma concat_filter_nonempty: "concat (filter (\<lambda>xs. xs \<noteq> []) xss) = concat xss"
  by (induction xss) auto

text \<open>
  Frees issued between \<open>free_group_begin\<close> and \<open>free_group_end\<close> are deferred: no slot becomes
  available inside the group, and the end releases the slots of all of them at once.
\<close>

theorem token_free_group_defers:
  assumes "token_inv a U" "distinct (concat xss)" "set (concat xss) \<subseteq> U"
  shows "token_inv (free_group_end token_free (fold token_free xss (free_group_begin a))) (U - set (concat xss))
   \<and> token_available_size (fold token_free xss (free_group_begin a)) = token_available_size a
   \<and> token_available_size (free_group_end token_free (fold token_free xss (free_group_begin a)))
       = token_available_size a + length (concat xss)"
proof (intro conjI)
  let ?g = "filter (\<lambda>xs. xs \<noteq> []) xss"
  have f: "fold token_free xss (free_group_begin a) = (free_group_begin a)\<lparr>al_free_group := ?g\<rparr>"
    using token_free_in_group [of "free_group_begin a" xss] by (simp add: free_group_begin_def)
  let ?b = "(free_group_begin a)\<lparr>al_free_group := ?g, al_is_not_in_free_group := True\<rparr>"
  have inv: "token_inv ?b U" and av: "token_available_size ?b = token_available_size a"
    using assms(1) by (simp_all add: token_inv_def free_group_begin_def token_available_size_def)
  have e: "free_group_end token_free (fold token_free xss (free_group_begin a)) = token_free (concat xss) ?b"
    unfolding f free_group_end_def Let_def
    by (auto simp: concat_filter_nonempty token_free_def filter_empty_conv)
  show "token_inv (free_group_end token_free (fold token_free xss (free_group_begin a))) (U - set (concat xss))"
    unfolding e by (rule token_free_inv [OF inv assms(3,2)])
  show "token_available_size (fold token_free xss (free_group_begin a)) = token_available_size a"
    unfolding f by (simp add: token_available_size_def free_group_begin_def)
  show "token_available_size (free_group_end token_free (fold token_free xss (free_group_begin a)))
       = token_available_size a + length (concat xss)"
    unfolding e using tok.free_avail [OF inv assms(3,2)] av by simp
qed

theorem token_free_group_defers_witness:
  "token_available_size (free_group_end token_free (fold token_free [[2, 1], [], [4]]
      (free_group_begin ((token_init 5 True)\<lparr>al_free_pages := [3, 5]\<rparr>)))) = 5"
proof -
  have "{3, 5} \<union> {1, 2, 4} = {1..5::int}" by auto
  then have "token_inv ((token_init 5 True)\<lparr>al_free_pages := [3, 5]\<rparr>) {1, 2, 4}"
    by (simp add: token_inv_def token_init_def token_clear_def alloc_base_init_def)
  from token_free_group_defers [OF this, of "[[2, 1], [], [4]]"] show ?thesis
    by (simp add: token_available_size_def token_init_def token_clear_def alloc_base_init_def)
qed

end
