(* ===== verification/Radix_Cache.thy ===== *)
theory Radix_Cache
  imports Evict_Policy Kv_Allocator
begin

text \<open>
  \<open>RadixCache\<close> of \<open>mem_cache/radix_cache.py\<close> with the events of \<open>mem_cache/events.py\<close>: the
  state of the cache and its operations, as the code has them. The tree is a heap of nodes
  indexed by creation number; the allocator the cache frees into is part of the state. The clock
  is read once per operation (\<open>now\<close>). Loops over the tree carry a bound; the theorems of the
  later theories show that the bounds given here are never reached.
\<close>

section \<open>State\<close>

datatype medium = GPU | CPU | DISK | EXTERNAL

datatype kv_event =
    BlockStored (block_hash: int) (parent_block_hash: "int option") (block_units: "int list list")
      (block_size: nat) (ev_medium: medium)
  | BlockRemoved (block_hash: int) (ev_medium: medium)
  | AllBlocksCleared

record rcache =
  rc_disable :: bool
  rc_page_size :: nat
  rc_is_eagle :: bool
  rc_disable_finished_insert :: bool
  rc_enable_kv_cache_events :: bool
  rc_strategy :: eviction_strategy
  rc_heap :: "nat \<Rightarrow> tree_node"
  rc_counter :: nat
  rc_root :: nat
  rc_evictable_size :: int
  rc_protected_size :: int
  rc_evictable_leaves :: "nat set"
  rc_kv_event_queue :: "kv_event list"
  rc_allocator :: kv_alloc

abbreviation nd :: "rcache \<Rightarrow> nat \<Rightarrow> tree_node" where
  "nd c n \<equiv> rc_heap c n"

definition upd_node :: "nat \<Rightarrow> (tree_node \<Rightarrow> tree_node) \<Rightarrow> rcache \<Rightarrow> rcache" where
  "upd_node n f c = c\<lparr>rc_heap := (rc_heap c)(n := f (rc_heap c n))\<rparr>"

definition new_tree_node :: "int \<Rightarrow> int \<Rightarrow> rcache \<Rightarrow> nat \<times> rcache" where
  "new_tree_node now prio c =
     (rc_counter c,
      c\<lparr>rc_heap := (rc_heap c)(rc_counter c := tree_node_init now prio), rc_counter := rc_counter c + 1\<rparr>)"

section \<open>Events\<close>

text \<open>
  \<open>_record_store_event\<close>: hashes are computed on first use; each page is announced with the hash
  of its predecessor. Page ranges are consecutive, so the pages are walked with their index.
\<close>

fun store_events ::
  "nat \<Rightarrow> radix_key \<Rightarrow> nat \<Rightarrow> string list \<Rightarrow> medium \<Rightarrow> nat \<Rightarrow> nat \<Rightarrow> int option \<Rightarrow> kv_event list res" where
  "store_events 0 k p hs med start page_index parent = Inl OutOfFuel"
| "store_events (Suc fuel) k p hs med start page_index parent =
     (if start < key_len k
      then let stop = min (start + p) (key_len k);
               page_tokens = take (stop - start) (drop start (key_iter k))
           in rbind (if page_index < length hs then hash_str_to_int64 (hs ! page_index) else Inl IndexError) (\<lambda>block_hash.
              rbind (store_events fuel k p hs med (start + p) (page_index + 1) (Some block_hash)) (\<lambda>evs.
              Inr (BlockStored block_hash parent page_tokens (length page_tokens) med # evs)))
      else Inr [])"

definition ensure_hash_value :: "(nat list \<Rightarrow> nat list) \<Rightarrow> nat \<Rightarrow> rcache \<Rightarrow> rcache res" where
  "ensure_hash_value sha n c =
     (case nd_hash_value (nd c n) of
        Some hs \<Rightarrow> Inr c
      | None \<Rightarrow> rbind (compute_node_hash_values sha (nd c n) (map_option (nd c) (nd_parent (nd c n))) (rc_page_size c)) (\<lambda>hs.
                Inr (upd_node n (\<lambda>x. x\<lparr>nd_hash_value := Some hs\<rparr>) c)))"

definition parent_event_hash :: "nat \<Rightarrow> rcache \<Rightarrow> int option res" where
  "parent_event_hash n c =
     (case nd_parent (nd c n) of
        None \<Rightarrow> Inr None
      | Some m \<Rightarrow> if m = rc_root c then Inr None
                  else (case nd_hash_value (nd c m) of
                          None \<Rightarrow> Inr None
                        | Some hs \<Rightarrow> if hs = [] then Inr None
                                     else rbind (hash_str_to_int64 (last hs)) (\<lambda>v. Inr (Some v))))"

definition record_store_event :: "(nat list \<Rightarrow> nat list) \<Rightarrow> nat \<Rightarrow> medium option \<Rightarrow> rcache \<Rightarrow> rcache res" where
  "record_store_event sha n med c =
     (if rc_enable_kv_cache_events c
      then let md = (case med of None \<Rightarrow> GPU | Some m \<Rightarrow> m)
           in rbind (ensure_hash_value sha n c) (\<lambda>c1.
              rbind (parent_event_hash n c1) (\<lambda>parent.
              rbind (of_opt TypeError (nd_hash_value (nd c1 n))) (\<lambda>hs.
              rbind (store_events (Suc (key_len (nd_key (nd c1 n)))) (nd_key (nd c1 n)) (rc_page_size c1) hs md 0 0 parent) (\<lambda>evs.
              Inr (c1\<lparr>rc_kv_event_queue := rc_kv_event_queue c1 @ evs\<rparr>)))))
      else Inr c)"

fun remove_events :: "nat \<Rightarrow> nat \<Rightarrow> nat \<Rightarrow> string list \<Rightarrow> medium \<Rightarrow> nat \<Rightarrow> nat \<Rightarrow> kv_event list res" where
  "remove_events 0 len p hs med start page_index = Inl OutOfFuel"
| "remove_events (Suc fuel) len p hs med start page_index =
     (if start < len
      then rbind (if page_index < length hs then hash_str_to_int64 (hs ! page_index) else Inl IndexError) (\<lambda>block_hash.
           rbind (remove_events fuel len p hs med (start + p) (page_index + 1)) (\<lambda>evs.
           Inr (BlockRemoved block_hash med # evs)))
      else Inr [])"

definition record_remove_event :: "(nat list \<Rightarrow> nat list) \<Rightarrow> nat \<Rightarrow> medium option \<Rightarrow> rcache \<Rightarrow> rcache res" where
  "record_remove_event sha n med c =
     (if rc_enable_kv_cache_events c
      then let md = (case med of None \<Rightarrow> GPU | Some m \<Rightarrow> m)
           in rbind (ensure_hash_value sha n c) (\<lambda>c1.
              rbind (of_opt TypeError (nd_hash_value (nd c1 n))) (\<lambda>hs.
              rbind (remove_events (Suc (key_len (nd_key (nd c1 n)))) (key_len (nd_key (nd c1 n))) (rc_page_size c1) hs md 0 0) (\<lambda>evs.
              Inr (c1\<lparr>rc_kv_event_queue := rc_kv_event_queue c1 @ evs\<rparr>))))
      else Inr c)"

definition record_all_cleared_event :: "rcache \<Rightarrow> rcache" where
  "record_all_cleared_event c =
     (if rc_enable_kv_cache_events c
      then c\<lparr>rc_kv_event_queue := rc_kv_event_queue c @ [AllBlocksCleared]\<rparr> else c)"

definition take_events :: "rcache \<Rightarrow> kv_event list \<times> rcache" where
  "take_events c =
     (if \<not> rc_enable_kv_cache_events c then ([], c)
      else (rc_kv_event_queue c, c\<lparr>rc_kv_event_queue := []\<rparr>))"

section \<open>Construction\<close>

definition sys_maxsize :: int where
  "sys_maxsize = 2 ^ 63 - 1"

definition reset :: "int \<Rightarrow> rcache \<Rightarrow> rcache" where
  "reset now c =
     (let (r, c1) = new_tree_node now (- sys_maxsize) c;
          c2 = upd_node r (\<lambda>n. n\<lparr>nd_key := mk_key [] None False, nd_value := Some [],
                 nd_host_value := Some [], nd_lock_ref := 1, nd_hash_value := Some []\<rparr>) c1
      in record_all_cleared_event
           (c2\<lparr>rc_root := r, rc_evictable_size := 0, rc_protected_size := 0, rc_evictable_leaves := {}\<rparr>))"

definition radix_init ::
  "bool \<Rightarrow> nat \<Rightarrow> bool \<Rightarrow> bool \<Rightarrow> bool \<Rightarrow> string \<Rightarrow> kv_alloc \<Rightarrow> nat \<Rightarrow> int \<Rightarrow> rcache res" where
  "radix_init disable p is_eagle disable_finished events policy a counter now =
     rbind (mk_eviction_strategy policy) (\<lambda>strat.
     Inr (reset now
       \<lparr>rc_disable = disable, rc_page_size = p, rc_is_eagle = is_eagle,
        rc_disable_finished_insert = disable_finished, rc_enable_kv_cache_events = events,
        rc_strategy = strat, rc_heap = (\<lambda>_. tree_node_init now 0), rc_counter = counter, rc_root = 0,
        rc_evictable_size = 0, rc_protected_size = 0, rc_evictable_leaves = {},
        rc_kv_event_queue = [], rc_allocator = a\<rparr>))"

section \<open>Leaf bookkeeping\<close>

definition update_leaf_status :: "nat \<Rightarrow> rcache \<Rightarrow> rcache" where
  "update_leaf_status n c =
     (if evicted (nd c n) \<or> 0 < nd_lock_ref (nd c n)
      then c\<lparr>rc_evictable_leaves := rc_evictable_leaves c - {n}\<rparr>
      else if list_ex (\<lambda>(_, child). \<not> evicted (nd c child)) (nd_children (nd c n))
      then c\<lparr>rc_evictable_leaves := rc_evictable_leaves c - {n}\<rparr>
      else c\<lparr>rc_evictable_leaves := insert n (rc_evictable_leaves c)\<rparr>)"

definition delete_leaf :: "nat \<Rightarrow> rcache \<Rightarrow> rcache res" where
  "delete_leaf n c =
     rbind (child_key (nd_key (nd c n)) (rc_page_size c)) (\<lambda>ck.
     rbind (of_opt AttributeError (nd_parent (nd c n))) (\<lambda>m.
     let v = map_of (nd_children (nd c m)) ck;
         c1 = upd_node m (\<lambda>x. x\<lparr>nd_children := dict_pop ck (nd_children x)\<rparr>) c
     in rbind (guard_res (v = Some n) AssertionError) (\<lambda>_.
        let c2 = c1\<lparr>rc_evictable_size := rc_evictable_size c1 - int (key_len (nd_key (nd c1 n))),
                    rc_evictable_leaves := rc_evictable_leaves c1 - {n}\<rparr>
        in Inr (update_leaf_status m c2))))"

section \<open>Splitting a node\<close>

definition split_node :: "int \<Rightarrow> radix_key \<Rightarrow> nat \<Rightarrow> nat \<Rightarrow> rcache \<Rightarrow> (nat \<times> rcache) res" where
  "split_node now key child split_len c =
     (let p = rc_page_size c;
          (new, c1) = new_tree_node now (nd_priority (nd c child)) c
      in rbind (key_drop split_len key) (\<lambda>rest.
         rbind (child_key rest p) (\<lambda>ck_rest.
         rbind (key_take split_len (nd_key (nd c child))) (\<lambda>k1.
         rbind (of_opt TypeError (nd_value (nd c child))) (\<lambda>v.
         rbind (key_drop split_len (nd_key (nd c child))) (\<lambda>k2.
         rbind (of_opt AttributeError (nd_parent (nd c child))) (\<lambda>m.
         rbind (child_key key p) (\<lambda>ck.
         let (h1, h2) = split_node_hash_value (nd_hash_value (nd c child)) split_len p;
             c2 = upd_node new (\<lambda>x. x\<lparr>nd_hit_count := nd_hit_count (nd c child),
                    nd_children := [(ck_rest, child)], nd_parent := Some m,
                    nd_lock_ref := nd_lock_ref (nd c child), nd_key := k1,
                    nd_value := Some (take split_len v), nd_hash_value := h1\<rparr>) c1;
             c3 = upd_node child (\<lambda>x. x\<lparr>nd_parent := Some new, nd_key := k2,
                    nd_value := Some (drop split_len v), nd_hash_value := h2\<rparr>) c2;
             c4 = upd_node m (\<lambda>x. x\<lparr>nd_children := AList.update ck new (nd_children x)\<rparr>) c3
         in Inr (new, c4)))))))))"

section \<open>Matching\<close>

fun match_loop ::
  "nat \<Rightarrow> int \<Rightarrow> nat \<Rightarrow> radix_key \<Rightarrow> ckey \<Rightarrow> int list option list \<Rightarrow> rcache
     \<Rightarrow> (int list option list \<times> nat \<times> rcache) res" where
  "match_loop 0 now node key ck vs c = Inl OutOfFuel"
| "match_loop (Suc fuel) now node key ck vs c =
     (if key_len key = 0 then Inr (vs, node, c)
      else case map_of (nd_children (nd c node)) ck of
        None \<Rightarrow> Inr (vs, node, c)
      | Some child \<Rightarrow>
          let c1 = upd_node child (\<lambda>x. x\<lparr>nd_last_access_time := now\<rparr>) c
          in rbind (key_match (nd_key (nd c1 child)) key (rc_page_size c1)) (\<lambda>prefix_len.
             if prefix_len < key_len (nd_key (nd c1 child))
             then rbind (split_node now (nd_key (nd c1 child)) child prefix_len c1) (\<lambda>(new, c2).
                  Inr (vs @ [nd_value (nd c2 new)], new, c2))
             else rbind (key_drop prefix_len key) (\<lambda>key'.
                  rbind (if 0 < key_len key' then child_key key' (rc_page_size c1) else Inr ck) (\<lambda>ck'.
                  match_loop fuel now child key' ck' (vs @ [nd_value (nd c1 child)]) c1))))"

definition match_prefix_helper ::
  "int \<Rightarrow> nat \<Rightarrow> radix_key \<Rightarrow> rcache \<Rightarrow> (int list option list \<times> nat \<times> rcache) res" where
  "match_prefix_helper now node key c =
     (let c0 = upd_node node (\<lambda>x. x\<lparr>nd_last_access_time := now\<rparr>) c
      in rbind (child_key key (rc_page_size c0)) (\<lambda>ck.
         match_loop (Suc (key_len key)) now node key ck [] c0))"

fun torch_cat :: "int list option list \<Rightarrow> int list res" where
  "torch_cat [] = Inr []"
| "torch_cat (None # vs) = Inl TypeError"
| "torch_cat (Some v # vs) = rbind (torch_cat vs) (\<lambda>w. Inr (v @ w))"

definition match_prefix :: "int \<Rightarrow> radix_key \<Rightarrow> rcache \<Rightarrow> (int list \<times> nat \<times> rcache) res" where
  "match_prefix now key c =
     (let (key1, _) = maybe_to_bigram_view (rc_is_eagle c) key None
      in if rc_disable c \<or> key_len key1 = 0 then Inr ([], rc_root c, c)
         else rbind (page_aligned key1 (rc_page_size c)) (\<lambda>key2.
              if key_len key2 = 0 then Inr ([], rc_root c, c)
              else rbind (match_prefix_helper now (rc_root c) key2 c) (\<lambda>(vs, last_node, c').
                   rbind (if vs \<noteq> [] then torch_cat vs else Inr []) (\<lambda>idx.
                   Inr (idx, last_node, c')))))"

section \<open>Insertion\<close>

definition inc_hit_count :: "bool \<Rightarrow> tree_node \<Rightarrow> tree_node" where
  "inc_hit_count chunked n = (if chunked then n else n\<lparr>nd_hit_count := nd_hit_count n + 1\<rparr>)"

fun insert_loop ::
  "nat \<Rightarrow> int \<Rightarrow> int \<Rightarrow> bool \<Rightarrow> nat \<Rightarrow> radix_key \<Rightarrow> int list \<Rightarrow> ckey \<Rightarrow> nat \<Rightarrow> rcache
     \<Rightarrow> (nat \<times> radix_key \<times> int list \<times> ckey \<times> nat \<times> rcache) res" where
  "insert_loop 0 now prio chunked node key v ck tot c = Inl OutOfFuel"
| "insert_loop (Suc fuel) now prio chunked node key v ck tot c =
     (if key_len key = 0 then Inr (node, key, v, ck, tot, c)
      else case map_of (nd_children (nd c node)) ck of
        None \<Rightarrow> Inr (node, key, v, ck, tot, c)
      | Some child \<Rightarrow>
          let c1 = upd_node child (\<lambda>x. x\<lparr>nd_last_access_time := now\<rparr>) c
          in rbind (key_match (nd_key (nd c1 child)) key (rc_page_size c1)) (\<lambda>prefix_len.
             rbind (key_drop prefix_len key) (\<lambda>key'.
             rbind (if prefix_len < key_len (nd_key (nd c1 child))
                    then rbind (split_node now (nd_key (nd c1 child)) child prefix_len c1) (\<lambda>(new, c2).
                         Inr (new, upd_node new (\<lambda>x. inc_hit_count chunked
                                (x\<lparr>nd_priority := max (nd_priority x) prio\<rparr>)) c2))
                    else Inr (child, upd_node child (\<lambda>x. inc_hit_count chunked
                                (x\<lparr>nd_priority := max (nd_priority x) prio\<rparr>)) c1)) (\<lambda>(node', c3).
             rbind (if 0 < key_len key' then child_key key' (rc_page_size c3) else Inr ck) (\<lambda>ck'.
             insert_loop fuel now prio chunked node' key' (drop prefix_len v) ck'
               (tot + prefix_len) c3)))))"

definition insert_helper ::
  "(nat list \<Rightarrow> nat list) \<Rightarrow> int \<Rightarrow> nat \<Rightarrow> radix_key \<Rightarrow> int list \<Rightarrow> int option \<Rightarrow> bool \<Rightarrow> rcache
     \<Rightarrow> (nat \<times> rcache) res" where
  "insert_helper sha now node key v priority chunked c =
     (let prio = (case priority of None \<Rightarrow> 0 | Some q \<Rightarrow> q);
          c0 = upd_node node (\<lambda>x. x\<lparr>nd_last_access_time := now, nd_priority := max (nd_priority x) prio\<rparr>) c
      in if key_len key = 0 then Inr (0, c0)
         else rbind (child_key key (rc_page_size c0)) (\<lambda>ck.
              rbind (insert_loop (Suc (key_len key)) now prio chunked node key v ck 0 c0)
                (\<lambda>(node', key', v', ck', tot, c1).
              if 0 < key_len key'
              then let (new, c2) = new_tree_node now prio c1;
                       c3 = upd_node new (\<lambda>x. inc_hit_count chunked
                              (x\<lparr>nd_parent := Some node', nd_key := key', nd_value := Some v'\<rparr>)) c2;
                       c4 = upd_node node' (\<lambda>x. x\<lparr>nd_children := AList.update ck' new (nd_children x)\<rparr>) c3;
                       c5 = c4\<lparr>rc_evictable_size := rc_evictable_size c4 + int (key_len key')\<rparr>;
                       c6 = update_leaf_status new (update_leaf_status node' c5)
                   in rbind (record_store_event sha new None c6) (\<lambda>c7. Inr (tot, c7))
              else Inr (tot, c1))))"

definition insert_key ::
  "(nat list \<Rightarrow> nat list) \<Rightarrow> int \<Rightarrow> radix_key \<Rightarrow> int list option \<Rightarrow> int option \<Rightarrow> bool \<Rightarrow> rcache
     \<Rightarrow> (nat \<times> rcache) res" where
  "insert_key sha now key v priority chunked c =
     (if rc_disable c then Inr (0, c)
      else let (key1, v1) = maybe_to_bigram_view (rc_is_eagle c) key v
           in rbind (page_aligned key1 (rc_page_size c)) (\<lambda>key2.
              let v2 = (case v1 of Some w \<Rightarrow> take (key_len key2) w
                        | None \<Rightarrow> take (key_len key2) (token_ids key2))
              in insert_helper sha now (rc_root c) key2 v2 priority chunked c))"

section \<open>Reference counts\<close>

fun inc_lock_loop :: "nat \<Rightarrow> nat \<Rightarrow> int \<Rightarrow> rcache \<Rightarrow> (int \<times> rcache) res" where
  "inc_lock_loop 0 node delta c = Inl OutOfFuel"
| "inc_lock_loop (Suc fuel) node delta c =
     (if node = rc_root c then Inr (delta, c)
      else let len = int (key_len (nd_key (nd c node)));
               fresh = (nd_lock_ref (nd c node) = 0);
               c1 = (if fresh then c\<lparr>rc_evictable_size := rc_evictable_size c - len,
                                      rc_protected_size := rc_protected_size c + len\<rparr> else c);
               delta' = (if fresh then delta - len else delta);
               c2 = upd_node node (\<lambda>x. x\<lparr>nd_lock_ref := nd_lock_ref x + 1\<rparr>) c1;
               c3 = update_leaf_status node c2
           in rbind (of_opt AttributeError (nd_parent (nd c3 node))) (\<lambda>m.
              inc_lock_loop fuel m delta' c3))"

definition inc_lock_ref :: "nat \<Rightarrow> rcache \<Rightarrow> (int \<times> rcache) res" where
  "inc_lock_ref node c = (if rc_disable c then Inr (0, c) else inc_lock_loop (rc_counter c) node 0 c)"

fun dec_lock_loop :: "nat \<Rightarrow> nat \<Rightarrow> int \<Rightarrow> rcache \<Rightarrow> (int \<times> rcache) res" where
  "dec_lock_loop 0 node delta c = Inl OutOfFuel"
| "dec_lock_loop (Suc fuel) node delta c =
     (if node = rc_root c then Inr (delta, c)
      else let len = int (key_len (nd_key (nd c node)));
               freed = (nd_lock_ref (nd c node) = 1);
               c1 = (if freed then c\<lparr>rc_evictable_size := rc_evictable_size c + len,
                                      rc_protected_size := rc_protected_size c - len\<rparr> else c);
               delta' = (if freed then delta + len else delta);
               c2 = upd_node node (\<lambda>x. x\<lparr>nd_lock_ref := nd_lock_ref x - 1\<rparr>) c1;
               c3 = update_leaf_status node c2
           in rbind (of_opt AssertionError (nd_parent (nd c3 node))) (\<lambda>m.
              dec_lock_loop fuel m delta' c3))"

definition dec_lock_ref :: "nat \<Rightarrow> rcache \<Rightarrow> (int \<times> rcache) res" where
  "dec_lock_ref node c = (if rc_disable c then Inr (0, c) else dec_lock_loop (rc_counter c) node 0 c)"

section \<open>Eviction\<close>

text \<open>
  \<open>leaves\<close> is the order in which Python enumerates the set of evictable leaves, which the
  language does not fix.
\<close>

fun evict_loop ::
  "nat \<Rightarrow> (nat list \<Rightarrow> nat list) \<Rightarrow> nat \<Rightarrow> heap_item list \<Rightarrow> nat \<Rightarrow> rcache \<Rightarrow> (nat \<times> rcache) res" where
  "evict_loop 0 sha num_tokens hp num_evicted c = Inl OutOfFuel"
| "evict_loop (Suc fuel) sha num_tokens hp num_evicted c =
     (if num_evicted < num_tokens
      then case heappop hp of
          None \<Rightarrow> Inr (num_evicted, c)
        | Some ((_, x), hp1) \<Rightarrow>
            rbind (of_opt TypeError (nd_value (nd c x))) (\<lambda>v.
            rbind (kv_free v (rc_allocator c)) (\<lambda>a.
            rbind (delete_leaf x (c\<lparr>rc_allocator := a\<rparr>)) (\<lambda>c1.
            rbind (of_opt AttributeError (nd_parent (nd c1 x))) (\<lambda>m.
            let hp2 = (if nd_children (nd c1 m) = [] \<and> nd_lock_ref (nd c1 m) = 0
                       then heappush hp1 (heap_item (rc_strategy c1) (rc_heap c1) m) else hp1)
            in rbind (record_remove_event sha x None c1) (\<lambda>c2.
               evict_loop fuel sha num_tokens hp2 (num_evicted + length v) c2)))))
      else Inr (num_evicted, c))"

definition evict :: "(nat list \<Rightarrow> nat list) \<Rightarrow> nat \<Rightarrow> nat list \<Rightarrow> rcache \<Rightarrow> (nat \<times> rcache) res" where
  "evict sha num_tokens leaves c =
     (if rc_disable c then Inr (0, c)
      else evict_loop (Suc (rc_counter c)) sha num_tokens
             (heapify (map (heap_item (rc_strategy c) (rc_heap c)) leaves)) 0 c)"

section \<open>Walking the whole tree\<close>

fun total_size_loop :: "nat \<Rightarrow> nat list \<Rightarrow> nat \<Rightarrow> rcache \<Rightarrow> nat res" where
  "total_size_loop 0 stack tot c = Inl OutOfFuel"
| "total_size_loop (Suc fuel) stack tot c =
     (if stack = [] then Inr tot
      else let n = last stack
           in rbind (of_opt TypeError (nd_value (nd c n))) (\<lambda>v.
              total_size_loop fuel
                (butlast stack @ filter (\<lambda>m. \<not> evicted (nd c m)) (map snd (nd_children (nd c n))))
                (tot + length v) c))"

definition total_size :: "rcache \<Rightarrow> nat res" where
  "total_size c = total_size_loop (Suc (rc_counter c)) [rc_root c] 0 c"

end
