(* ===== verification/Radix_Tree.thy ===== *)
theory Radix_Tree
  imports Radix_Cache
begin

text \<open>
  The structural invariant of the radix tree and what it implies. The invariant names, beside
  the cache state, the set \<open>L\<close> of live nodes and for every live node the sequence of key units
  (\<open>pre\<close>) and of KV slots (\<open>vals\<close>) on the path from the root. The main consequence is that the
  tree is a function from namespaced prefixes to slots: two live nodes of one namespace that
  agree on their first \<open>k\<close> units, \<open>k\<close> a whole number of pages, agree on the first \<open>k\<close> slots.
\<close>

section \<open>The invariant\<close>

abbreviation units :: "rcache \<Rightarrow> nat \<Rightarrow> int list list" where
  "units c n \<equiv> key_iter (nd_key (nd c n))"

abbreviation nlen :: "rcache \<Rightarrow> nat \<Rightarrow> nat" where
  "nlen c n \<equiv> key_len (nd_key (nd c n))"

abbreviation extra :: "rcache \<Rightarrow> nat \<Rightarrow> string option" where
  "extra c n \<equiv> extra_key (nd_key (nd c n))"

definition edge_key :: "rcache \<Rightarrow> nat \<Rightarrow> ckey" where
  "edge_key c n = (extra c n, take (rc_page_size c) (units c n))"

definition root_ok :: "rcache \<Rightarrow> bool" where
  "root_ok c \<longleftrightarrow> nd_parent (nd c (rc_root c)) = None \<and> nd_value (nd c (rc_root c)) = Some []
     \<and> nlen c (rc_root c) = 0"

definition node_ok :: "rcache \<Rightarrow> nat set \<Rightarrow> (nat \<Rightarrow> int list list) \<Rightarrow> (nat \<Rightarrow> int list) \<Rightarrow> nat \<Rightarrow> bool" where
  "node_ok c L pre vals n \<longleftrightarrow>
     (\<exists>m v. nd_parent (nd c n) = Some m \<and> m \<in> L
        \<and> map_of (nd_children (nd c m)) (edge_key c n) = Some n
        \<and> nd_value (nd c n) = Some v \<and> length v = nlen c n
        \<and> pre n = pre m @ units c n \<and> vals n = vals m @ v
        \<and> (m \<noteq> rc_root c \<longrightarrow> extra c m = extra c n))
   \<and> 0 < nlen c n \<and> rc_page_size c dvd nlen c n
   \<and> is_bigram (nd_key (nd c n)) = rc_is_eagle c"

definition children_ok :: "rcache \<Rightarrow> nat set \<Rightarrow> nat \<Rightarrow> bool" where
  "children_ok c L n \<longleftrightarrow>
     distinct (dict_keys (nd_children (nd c n)))
   \<and> (\<forall>(ck, m) \<in> set (nd_children (nd c n)).
        m \<in> L - {rc_root c} \<and> nd_parent (nd c m) = Some n \<and> ck = edge_key c m)"

definition rc_tree :: "rcache \<Rightarrow> nat set \<Rightarrow> (nat \<Rightarrow> int list list) \<Rightarrow> (nat \<Rightarrow> int list) \<Rightarrow> bool" where
  "rc_tree c L pre vals \<longleftrightarrow>
     0 < rc_page_size c \<and> finite L \<and> rc_root c \<in> L \<and> (\<forall>n\<in>L. n < rc_counter c)
   \<and> root_ok c \<and> pre (rc_root c) = [] \<and> vals (rc_root c) = []
   \<and> (\<forall>n\<in>L - {rc_root c}. node_ok c L pre vals n) \<and> (\<forall>n\<in>L. children_ok c L n)"

text \<open>Updates of the fields the structure does not depend on.\<close>

definition same_tree :: "rcache \<Rightarrow> rcache \<Rightarrow> bool" where
  "same_tree c c' \<longleftrightarrow>
     rc_page_size c' = rc_page_size c \<and> rc_is_eagle c' = rc_is_eagle c \<and> rc_root c' = rc_root c
   \<and> rc_counter c \<le> rc_counter c'
   \<and> (\<forall>n. nd_children (nd c' n) = nd_children (nd c n) \<and> nd_parent (nd c' n) = nd_parent (nd c n)
        \<and> nd_key (nd c' n) = nd_key (nd c n) \<and> nd_value (nd c' n) = nd_value (nd c n))"

lemma rc_tree_cong: "rc_tree c L pre vals \<Longrightarrow> same_tree c c' \<Longrightarrow> rc_tree c' L pre vals"
  unfolding rc_tree_def same_tree_def root_ok_def node_ok_def children_ok_def edge_key_def
  by (auto dest: less_le_trans)

lemma same_tree_refl [simp]: "same_tree c c"
  by (simp add: same_tree_def)

lemma same_tree_trans: "same_tree c c' \<Longrightarrow> same_tree c' c'' \<Longrightarrow> same_tree c c''"
  by (auto simp: same_tree_def)

section \<open>Consequences\<close>

lemma rc_treeD:
  assumes "rc_tree c L pre vals"
  shows "0 < rc_page_size c" "finite L" "rc_root c \<in> L" "root_ok c" "pre (rc_root c) = []"
    "vals (rc_root c) = []" "n \<in> L \<Longrightarrow> n < rc_counter c" "n \<in> L \<Longrightarrow> children_ok c L n"
    "n \<in> L \<Longrightarrow> n \<noteq> rc_root c \<Longrightarrow> node_ok c L pre vals n"
  using assms by (auto simp: rc_tree_def)

lemma node_okE:
  assumes "rc_tree c L pre vals" "n \<in> L" "n \<noteq> rc_root c"
  obtains m v where "nd_parent (nd c n) = Some m" "m \<in> L"
    "map_of (nd_children (nd c m)) (edge_key c n) = Some n"
    "nd_value (nd c n) = Some v" "length v = nlen c n" "pre n = pre m @ units c n" "vals n = vals m @ v"
    "m \<noteq> rc_root c \<longrightarrow> extra c m = extra c n" "0 < nlen c n" "rc_page_size c dvd nlen c n"
    "is_bigram (nd_key (nd c n)) = rc_is_eagle c"
  using rc_treeD(9) [OF assms] by (auto simp: node_ok_def)

lemma child_lookup:
  assumes t: "rc_tree c L pre vals" and n: "n \<in> L" and m: "map_of (nd_children (nd c n)) ck = Some m"
  shows "m \<in> L" "m \<noteq> rc_root c" "nd_parent (nd c m) = Some n" "ck = edge_key c m"
  using rc_treeD(8) [OF t n] map_of_SomeD [OF m] by (auto simp: children_ok_def)

inductive anc :: "rcache \<Rightarrow> nat \<Rightarrow> nat \<Rightarrow> bool" for c where
  anc_refl [simp, intro]: "anc c n n"
| anc_parent: "nd_parent (nd c n) = Some m \<Longrightarrow> anc c a m \<Longrightarrow> anc c a n"

inductive_cases anc_cases: "anc c a n"

lemma anc_trans: "anc c b n \<Longrightarrow> anc c a b \<Longrightarrow> anc c a n"
  by (induction rule: anc.induct) (auto intro: anc_parent)

lemma length_vals:
  assumes t: "rc_tree c L pre vals"
  shows "n \<in> L \<Longrightarrow> length (vals n) = length (pre n)"
proof (induction "length (pre n)" arbitrary: n rule: less_induct)
  case less
  show ?case
  proof (cases "n = rc_root c")
    case True
    then show ?thesis using rc_treeD(5,6) [OF t] by simp
  next
    case False
    from node_okE [OF t less.prems False] obtain m v where "m \<in> L" "length v = nlen c n"
      "pre n = pre m @ units c n" "vals n = vals m @ v" "0 < nlen c n" by metis
    with less.hyps [of m] show ?thesis by simp
  qed
qed

lemma pre_parent:
  assumes t: "rc_tree c L pre vals" and "n \<in> L" "nd_parent (nd c n) = Some m"
  shows "n \<noteq> rc_root c" "m \<in> L" "length (pre n) = length (pre m) + nlen c n" "0 < nlen c n"
    "take (length (pre m)) (pre n) = pre m" "take (length (pre m)) (vals n) = vals m"
    "m \<noteq> rc_root c \<Longrightarrow> extra c m = extra c n" "drop (length (pre m)) (pre n) = units c n"
    "map_of (nd_children (nd c m)) (edge_key c n) = Some n" "rc_page_size c dvd nlen c n"
proof -
  show nr: "n \<noteq> rc_root c" using assms(3) rc_treeD(4) [OF t] by (auto simp: root_ok_def)
  from node_okE [OF t assms(2) nr] obtain v where
    o: "m \<in> L" "map_of (nd_children (nd c m)) (edge_key c n) = Some n" "pre n = pre m @ units c n"
      "vals n = vals m @ v" "m \<noteq> rc_root c \<longrightarrow> extra c m = extra c n" "0 < nlen c n" "rc_page_size c dvd nlen c n"
    using assms(3) by (metis option.inject)
  have "length (vals m) = length (pre m)" using t o(1) by (rule length_vals)
  with o show "m \<in> L" "length (pre n) = length (pre m) + nlen c n" "0 < nlen c n"
    "take (length (pre m)) (pre n) = pre m" "take (length (pre m)) (vals n) = vals m"
    "m \<noteq> rc_root c \<Longrightarrow> extra c m = extra c n" "drop (length (pre m)) (pre n) = units c n"
    "map_of (nd_children (nd c m)) (edge_key c n) = Some n" "rc_page_size c dvd nlen c n"
    by simp_all
qed

lemma has_parent:
  assumes "rc_tree c L pre vals" "n \<in> L" "n \<noteq> rc_root c"
  obtains m where "nd_parent (nd c n) = Some m"
  using node_okE [OF assms] by metis

lemma pre_Nil_iff:
  assumes t: "rc_tree c L pre vals" "n \<in> L"
  shows "pre n = [] \<longleftrightarrow> n = rc_root c"
proof
  assume e: "pre n = []"
  show "n = rc_root c"
  proof (rule ccontr)
    assume "n \<noteq> rc_root c"
    then obtain m where "nd_parent (nd c n) = Some m" using has_parent [OF t] by blast
    from pre_parent(3,4) [OF t this] e show False by simp
  qed
qed (use rc_treeD(5) [OF t(1)] in simp)

lemma page_dvd_pre:
  assumes t: "rc_tree c L pre vals"
  shows "n \<in> L \<Longrightarrow> rc_page_size c dvd length (pre n)"
proof (induction "length (pre n)" arbitrary: n rule: less_induct)
  case less
  show ?case
  proof (cases "n = rc_root c")
    case False
    then obtain m where m: "nd_parent (nd c n) = Some m" using has_parent [OF t less.prems] by blast
    with pre_parent [OF t less.prems m] less.hyps [of m] show ?thesis by simp
  qed (simp add: rc_treeD(5) [OF t])
qed

lemma anc_props:
  assumes t: "rc_tree c L pre vals"
  shows "anc c a n \<Longrightarrow> n \<in> L \<Longrightarrow> a \<in> L \<and> length (pre a) \<le> length (pre n)
     \<and> take (length (pre a)) (pre n) = pre a \<and> take (length (pre a)) (vals n) = vals a
     \<and> (a \<noteq> rc_root c \<longrightarrow> extra c a = extra c n) \<and> (a \<noteq> n \<longrightarrow> length (pre a) < length (pre n))"
proof (induction rule: anc.induct)
  case (anc_refl n)
  then show ?case using length_vals [OF t] by simp
next
  case (anc_parent n m a)
  note p = pre_parent [OF t anc_parent.prems anc_parent.hyps(1)]
  note IH = anc_parent.IH [OF p(2)]
  have "a \<noteq> rc_root c \<Longrightarrow> m \<noteq> rc_root c"
    using IH pre_Nil_iff [OF t, of a] pre_Nil_iff [OF t p(2)] by auto
  moreover have "take (length (pre a)) (pre n) = pre a" "take (length (pre a)) (vals n) = vals a"
    using IH p(5,6) by (metis min.absorb1 take_take)+
  ultimately show ?case using IH p by auto
qed

text \<open>The live node on the path to \<open>n\<close> that holds position \<open>i\<close>.\<close>

lemma owner:
  assumes t: "rc_tree c L pre vals"
  shows "n \<in> L \<Longrightarrow> i < length (pre n) \<Longrightarrow>
    \<exists>a m. anc c a n \<and> a \<in> L \<and> nd_parent (nd c a) = Some m \<and> length (pre m) \<le> i \<and> i < length (pre a)"
proof (induction "length (pre n)" arbitrary: n rule: less_induct)
  case less
  then have "n \<noteq> rc_root c" using rc_treeD(5) [OF t] by auto
  then obtain m where m: "nd_parent (nd c n) = Some m" using has_parent [OF t less.prems(1)] by blast
  note p = pre_parent [OF t less.prems(1) m]
  show ?case
  proof (cases "length (pre m) \<le> i")
    case True
    then show ?thesis using less.prems m by blast
  next
    case False
    with less.hyps [of m] p show ?thesis by (metis anc_parent m not_le less_add_same_cancel1)
  qed
qed

lemma child_unique:
  assumes t: "rc_tree c L pre vals" and "a \<in> L" "b \<in> L"
    "nd_parent (nd c a) = Some m" "nd_parent (nd c b) = Some m" "edge_key c a = edge_key c b"
  shows "a = b"
  using pre_parent(9) [OF t assms(2,4)] pre_parent(9) [OF t assms(3,5)] assms(6)
  by (metis option.inject)

lemma take_prefix_eq: "take k xs = take k ys \<Longrightarrow> j \<le> k \<Longrightarrow> take j xs = take j ys"
  by (metis min.absorb1 take_take)

lemma first_page:
  assumes t: "rc_tree c L pre vals" and n: "n \<in> L" "nd_parent (nd c n) = Some m"
  shows "take (rc_page_size c) (units c n) = take (rc_page_size c) (drop (length (pre m)) (pre n))"
    and "length (pre m) + rc_page_size c \<le> length (pre n)"
proof -
  note p = pre_parent [OF t n]
  show "take (rc_page_size c) (units c n) = take (rc_page_size c) (drop (length (pre m)) (pre n))"
    by (simp add: p(8))
  have "rc_page_size c \<le> nlen c n" using p(4,10) by (simp add: dvd_imp_le)
  then show "length (pre m) + rc_page_size c \<le> length (pre n)" using p(3) by simp
qed

text \<open>
  The first page of a node decides: a live node whose path agrees with that of \<open>n1\<close> up to and
  including the first page \<open>n1\<close> holds lies below \<open>n1\<close>.
\<close>

lemma first_page_anc:
  assumes t: "rc_tree c L pre vals"
  shows "n1 \<in> L \<Longrightarrow> nd_parent (nd c n1) = Some m1 \<Longrightarrow> n2 \<in> L \<Longrightarrow> extra c n1 = extra c n2 \<Longrightarrow>
     length (pre m1) + rc_page_size c \<le> length (pre n2) \<Longrightarrow>
     take (length (pre m1) + rc_page_size c) (pre n1) = take (length (pre m1) + rc_page_size c) (pre n2) \<Longrightarrow>
     anc c n1 n2"
proof (induction "length (pre m1)" arbitrary: n1 m1 n2 rule: less_induct)
  case less
  let ?p = "rc_page_size c" and ?s = "length (pre m1)"
  have p0: "0 < ?p" by (rule rc_treeD(1) [OF t])
  note n1 = pre_parent [OF t less.prems(1,2)]
  obtain a ma where a: "anc c a n2" "a \<in> L" "nd_parent (nd c a) = Some ma"
      "length (pre ma) \<le> ?s" "?s < length (pre a)"
    using owner [OF t less.prems(3), of ?s] less.prems(5) p0 by auto
  note pa = pre_parent [OF t a(2,3)] and aa = anc_props [OF t a(1) less.prems(3)]
  have agree: "take j (pre n1) = take j (pre a)" if "j \<le> ?s + ?p" "j \<le> length (pre a)" for j
    using take_prefix_eq [OF less.prems(6) that(1)] aa that(2) by (metis min.absorb1 take_take)
  have ex: "extra c n1 = extra c a" using aa pa(1) less.prems(4) by simp
  show ?case
  proof (cases "length (pre ma) = ?s")
    case True
    have pp: "pre m1 = pre ma"
      using agree [of ?s] n1(5) pa(5) True a(5) by (metis le_add1 less_imp_le)
    have "m1 = ma"
    proof (cases "m1 = rc_root c")
      case r: True
      then show ?thesis using pp pre_Nil_iff [OF t n1(2)] pre_Nil_iff [OF t pa(2)] by metis
    next
      case nr: False
      then have nra: "ma \<noteq> rc_root c" using pp pre_Nil_iff [OF t n1(2)] pre_Nil_iff [OF t pa(2)] by metis
      have sub: "anc c x y" if h: "x \<in> L" "x \<noteq> rc_root c" "y \<in> L" "extra c x = extra c y" "pre x = pre y" "length (pre x) = ?s" for x y
      proof -
        obtain mx where mx: "nd_parent (nd c x) = Some mx" using has_parent [OF t h(1,2)] by blast
        note px = pre_parent [OF t h(1) mx]
        show ?thesis
          using less.hyps [of mx x y] h mx px first_page(2) [OF t h(1) mx] by simp
      qed
      have e: "extra c m1 = extra c ma" using n1(7) [OF nr] pa(7) [OF nra] ex by simp
      have "anc c m1 ma" by (rule sub) (use n1 nr pa e pp in auto)
      from anc_props [OF t this pa(2)] show ?thesis using pp by auto
    qed
    moreover have "take ?p (units c n1) = take ?p (units c a)"
    proof -
      have "take (?s + ?p) (pre n1) = take (?s + ?p) (pre a)"
        using first_page(2) [OF t a(2,3)] True by (intro agree) simp_all
      then have "take ?p (drop ?s (pre n1)) = take ?p (drop ?s (pre a))"
        by (metis add.commute add_diff_cancel_left' drop_take)
      then show ?thesis
        using first_page(1) [OF t less.prems(1,2)] first_page(1) [OF t a(2,3)] True by simp
    qed
    ultimately have "n1 = a"
      using child_unique [OF t less.prems(1) a(2)] less.prems(2) a(3) ex by (simp add: edge_key_def)
    with a(1) show ?thesis by simp
  next
    case False
    with a(4) have lt: "length (pre ma) < ?s" by simp
    note fp = first_page(2) [OF t a(2,3)]
    have "length (pre ma) + ?p \<le> ?s"
      using lt page_dvd_pre [OF t pa(2)] page_dvd_pre [OF t n1(2)] by (simp add: dvd_less_add_page)
    then have "anc c a n1"
      using less.hyps [OF lt a(2,3) less.prems(1)] ex agree [of "length (pre ma) + ?p"] fp n1(3) by simp
    moreover have "a \<noteq> n1" using a(3) less.prems(2) lt by auto
    ultimately have "anc c a m1" using less.prems(2) by (auto elim: anc_cases)
    from anc_props [OF t this n1(2)] a(5) show ?thesis by simp
  qed
qed

lemma node_unique:
  assumes t: "rc_tree c L pre vals" and n: "n1 \<in> L" "n2 \<in> L" "pre n1 = pre n2"
    and e: "n1 \<noteq> rc_root c \<Longrightarrow> extra c n1 = extra c n2"
  shows "n1 = n2"
proof (cases "n1 = rc_root c")
  case True
  then show ?thesis using n(3) pre_Nil_iff [OF t n(1)] pre_Nil_iff [OF t n(2)] by metis
next
  case False
  obtain m1 where m: "nd_parent (nd c n1) = Some m1" using has_parent [OF t n(1) False] by blast
  have "anc c n1 n2"
    using first_page_anc [OF t n(1) m n(2) e [OF False]] first_page(2) [OF t n(1) m] n(3) by simp
  from anc_props [OF t this n(2)] n(3) show ?thesis by auto
qed

lemma same_prefix_same_slots:
  assumes t: "rc_tree c L pre vals" and n: "n1 \<in> L" "n2 \<in> L" "extra c n1 = extra c n2"
    and k: "rc_page_size c dvd k" "k \<le> length (pre n1)" "k \<le> length (pre n2)"
      "take k (pre n1) = take k (pre n2)"
  shows "take k (vals n1) = take k (vals n2)"
proof (cases "k = 0")
  case False
  let ?p = "rc_page_size c"
  obtain a m where a: "anc c a n1" "a \<in> L" "nd_parent (nd c a) = Some m"
      "length (pre m) \<le> k - 1" "k - 1 < length (pre a)"
  proof -
    have "k - 1 < length (pre n1)" using False k(2) by simp
    from owner [OF t n(1) this] that show thesis by blast
  qed
  note pa = pre_parent [OF t a(2,3)] and aa = anc_props [OF t a(1) n(1)]
  have "length (pre m) < k" using a(4) False by simp
  then have sp: "length (pre m) + ?p \<le> k" using page_dvd_pre [OF t pa(2)] k(1) by (simp add: dvd_less_add_page)
  have "take (length (pre m) + ?p) (pre a) = take (length (pre m) + ?p) (pre n2)"
    using take_prefix_eq [OF k(4) sp] aa first_page(2) [OF t a(2,3)] by (metis min.absorb1 take_take)
  then have "anc c a n2"
    using first_page_anc [OF t a(2,3) n(2)] aa pa(1) n(3) sp k(3) by simp
  from anc_props [OF t this n(2)] aa have "vals a = take (length (pre a)) (vals n2)"
    "vals a = take (length (pre a)) (vals n1)" by simp_all
  moreover have "k \<le> length (pre a)" using a(5) by simp
  ultimately show ?thesis by (metis min.absorb1 take_take)
qed simp

text \<open>
  A live node with no child for the next page of a key is where the key's path ends: no live
  node of the namespace holds a longer prefix of the key.
\<close>

lemma no_child_maximal:
  assumes t: "rc_tree c L pre vals" and n: "n \<in> L" "n \<noteq> rc_root c \<Longrightarrow> extra c n = ek"
    and full: "full = pre n @ rest" "rc_page_size c dvd length rest"
    and stop: "rest = [] \<or> map_of (nd_children (nd c n)) (ek, take (rc_page_size c) rest) = None"
    and b: "b \<in> L" "extra c b = ek" "k \<le> length (pre b)" "rc_page_size c dvd k" "k \<le> length full"
      "take k (pre b) = take k full"
  shows "k \<le> length (pre n)"
proof (rule ccontr)
  let ?p = "rc_page_size c" and ?s = "length (pre n)"
  assume "\<not> k \<le> ?s"
  then have sk: "?s < k" by simp
  have sp: "?s + ?p \<le> k" using sk page_dvd_pre [OF t n(1)] b(4) by (simp add: dvd_less_add_page)
  obtain a m where a: "anc c a b" "a \<in> L" "nd_parent (nd c a) = Some m" "length (pre m) \<le> ?s" "?s < length (pre a)"
    using owner [OF t b(1), of ?s] sk b(3) by auto
  note pa = pre_parent [OF t a(2,3)] and aa = anc_props [OF t a(1) b(1)]
  have ea: "extra c a = ek" using aa pa(1) b(2) by simp
  have agree: "take j (pre a) = take j full" if "j \<le> k" "j \<le> length (pre a)" for j
    using take_prefix_eq [OF b(6) that(1)] aa that(2) by (metis min.absorb1 take_take)
  have pn: "take j full = take j (pre n)" if "j \<le> ?s" for j using that full(1) by simp
  note fp = first_page [OF t a(2,3)]
  show False
  proof (cases "length (pre m) = ?s")
    case True
    have pm: "pre m = pre n" using agree [of ?s] pa(5) True a(5) sk pn [of ?s] by simp
    have "m = n"
    proof (rule node_unique [OF t pa(2) n(1) pm])
      assume "m \<noteq> rc_root c"
      moreover from this have "n \<noteq> rc_root c" using pm pre_Nil_iff [OF t n(1)] pre_Nil_iff [OF t pa(2)] by metis
      ultimately show "extra c m = extra c n" using pa(7) ea n(2) by simp
    qed
    moreover have "take ?p (units c a) = take ?p rest"
    proof -
      have "take (?s + ?p) (pre a) = take (?s + ?p) full" using sp fp(2) True by (intro agree) simp_all
      then have "take ?p (drop ?s (pre a)) = take ?p (drop ?s full)"
        by (metis add.commute add_diff_cancel_left' drop_take)
      with fp(1) True full(1) show ?thesis by simp
    qed
    ultimately have "map_of (nd_children (nd c n)) (ek, take ?p rest) = Some a"
      using pa(9) ea by (simp add: edge_key_def)
    moreover have "rest \<noteq> []" using sk b(5) full(1) by auto
    ultimately show False using stop by simp
  next
    case False
    with a(4) have lt: "length (pre m) < ?s" by simp
    then have mp: "length (pre m) + ?p \<le> ?s"
      using page_dvd_pre [OF t pa(2)] page_dvd_pre [OF t n(1)] by (simp add: dvd_less_add_page)
    have nr: "n \<noteq> rc_root c" using lt rc_treeD(5) [OF t] by auto
    have "anc c a n"
      using first_page_anc [OF t a(2,3) n(1)] ea n(2) [OF nr] mp agree [of "length (pre m) + ?p"] fp(2) sk
        pn [of "length (pre m) + ?p"] by simp
    from anc_props [OF t this n(1)] a(5) show False by simp
  qed
qed

end
