(* ===== verification/Radix_Split.thy ===== *)
theory Radix_Split
  imports Radix_Tree
begin

text \<open>
  The accounting invariant of the radix cache (reference counts, the evictable and protected
  sizes, the set of evictable leaves, the block hashes) and the effect of \<open>_split_node\<close>: it keeps
  both invariants, all paths, and every count.
\<close>

section \<open>Accounting\<close>

abbreviation lock :: "rcache \<Rightarrow> nat \<Rightarrow> int" where
  "lock c n \<equiv> nd_lock_ref (nd c n)"

definition kids :: "rcache \<Rightarrow> nat set \<Rightarrow> nat \<Rightarrow> nat set" where
  "kids c L n = {m \<in> L. nd_parent (nd c m) = Some n}"

definition held :: "rcache \<Rightarrow> nat set \<Rightarrow> nat \<Rightarrow> int" where
  "held c L n = lock c n - (\<Sum>m\<in>kids c L n. lock c m)"

definition size_if :: "rcache \<Rightarrow> nat set \<Rightarrow> (int \<Rightarrow> bool) \<Rightarrow> int" where
  "size_if c L P = (\<Sum>n\<in>L - {rc_root c}. if P (lock c n) then int (nlen c n) else 0)"

definition free_leaves :: "rcache \<Rightarrow> nat set \<Rightarrow> nat set" where
  "free_leaves c L = {n \<in> L - {rc_root c}. lock c n = 0 \<and> nd_children (nd c n) = []}"

definition rc_acct :: "rcache \<Rightarrow> nat set \<Rightarrow> bool" where
  "rc_acct c L \<longleftrightarrow>
     0 < lock c (rc_root c)
   \<and> (\<forall>n\<in>L - {rc_root c}. 0 \<le> lock c n \<and> 0 \<le> held c L n)
   \<and> rc_evictable_size c = size_if c L (\<lambda>l. l = 0)
   \<and> rc_protected_size c = size_if c L (\<lambda>l. 0 < l)
   \<and> rc_evictable_leaves c = free_leaves c L"

definition rc_hash :: "rcache \<Rightarrow> nat set \<Rightarrow> bool" where
  "rc_hash c L \<longleftrightarrow> (rc_enable_kv_cache_events c \<longrightarrow>
     (\<forall>n\<in>L - {rc_root c}. toks_ok (nd_key (nd c n))
        \<and> (\<exists>hs. nd_hash_value (nd c n) = Some hs \<and> length hs * rc_page_size c = nlen c n \<and> (\<forall>h\<in>set hs. is_digest h))))"

definition same_acct :: "rcache \<Rightarrow> rcache \<Rightarrow> bool" where
  "same_acct c c' \<longleftrightarrow> same_tree c c'
   \<and> (\<forall>n. nd_lock_ref (nd c' n) = nd_lock_ref (nd c n) \<and> nd_hash_value (nd c' n) = nd_hash_value (nd c n))
   \<and> rc_evictable_size c' = rc_evictable_size c \<and> rc_protected_size c' = rc_protected_size c
   \<and> rc_evictable_leaves c' = rc_evictable_leaves c
   \<and> rc_enable_kv_cache_events c' = rc_enable_kv_cache_events c"

lemma rc_acct_cong: "rc_acct c L \<Longrightarrow> same_acct c c' \<Longrightarrow> rc_acct c' L"
  by (simp add: rc_acct_def same_acct_def same_tree_def held_def kids_def size_if_def free_leaves_def
      cong: if_cong)

lemma rc_hash_cong: "rc_hash c L \<Longrightarrow> same_acct c c' \<Longrightarrow> rc_hash c' L"
  by (simp add: rc_hash_def same_acct_def same_tree_def)

lemma same_acct_refl [simp]: "same_acct c c"
  by (simp add: same_acct_def)

lemma same_acct_trans: "same_acct c c' \<Longrightarrow> same_acct c' c'' \<Longrightarrow> same_acct c c''"
  by (auto simp: same_acct_def intro: same_tree_trans)

lemma same_acct_same_tree: "same_acct c c' \<Longrightarrow> same_tree c c'"
  by (simp add: same_acct_def)

text \<open>Field updates that touch only statistics.\<close>

definition stat_upd :: "(tree_node \<Rightarrow> tree_node) \<Rightarrow> bool" where
  "stat_upd f \<longleftrightarrow> (\<forall>x. nd_children (f x) = nd_children x \<and> nd_parent (f x) = nd_parent x
     \<and> nd_key (f x) = nd_key x \<and> nd_value (f x) = nd_value x \<and> nd_lock_ref (f x) = nd_lock_ref x
     \<and> nd_hash_value (f x) = nd_hash_value x)"

lemma same_acct_upd: "stat_upd f \<Longrightarrow> same_acct c (upd_node n f c)"
  by (simp add: same_acct_def same_tree_def upd_node_def stat_upd_def)

section \<open>The state after a split\<close>

lemma upd_node_simps [simp]:
  "rc_page_size (upd_node n f c) = rc_page_size c" "rc_is_eagle (upd_node n f c) = rc_is_eagle c"
  "rc_root (upd_node n f c) = rc_root c" "rc_counter (upd_node n f c) = rc_counter c"
  "rc_disable (upd_node n f c) = rc_disable c"
  "rc_enable_kv_cache_events (upd_node n f c) = rc_enable_kv_cache_events c"
  "rc_evictable_size (upd_node n f c) = rc_evictable_size c"
  "rc_protected_size (upd_node n f c) = rc_protected_size c"
  "rc_evictable_leaves (upd_node n f c) = rc_evictable_leaves c"
  "rc_allocator (upd_node n f c) = rc_allocator c" "rc_strategy (upd_node n f c) = rc_strategy c"
  "rc_disable_finished_insert (upd_node n f c) = rc_disable_finished_insert c"
  "rc_kv_event_queue (upd_node n f c) = rc_kv_event_queue c"
  "nd (upd_node n f c) m = (if m = n then f (nd c n) else nd c m)"
  by (simp_all add: upd_node_def)

text \<open>
  What a split does, as far as the invariants see it: the new node takes the first \<open>s\<close> units and
  slots of \<open>n\<close> and its place below \<open>m\<close>; \<open>n\<close> keeps the rest and hangs below the new node.
\<close>

definition is_split :: "rcache \<Rightarrow> nat \<Rightarrow> nat \<Rightarrow> nat \<Rightarrow> int list \<Rightarrow> rcache \<Rightarrow> bool" where
  "is_split c n s m v c' \<longleftrightarrow>
     (let new = rc_counter c; k = nd_key (nd c n) in
       rc_page_size c' = rc_page_size c \<and> rc_is_eagle c' = rc_is_eagle c \<and> rc_root c' = rc_root c
     \<and> rc_counter c' = Suc new \<and> rc_disable c' = rc_disable c
     \<and> rc_enable_kv_cache_events c' = rc_enable_kv_cache_events c
     \<and> rc_evictable_size c' = rc_evictable_size c \<and> rc_protected_size c' = rc_protected_size c
     \<and> rc_evictable_leaves c' = rc_evictable_leaves c \<and> rc_allocator c' = rc_allocator c
     \<and> rc_strategy c' = rc_strategy c \<and> rc_disable_finished_insert c' = rc_disable_finished_insert c
     \<and> rc_kv_event_queue c' = rc_kv_event_queue c
     \<and> nd_children (nd c' new) = [((extra_key k, take (rc_page_size c) (drop s (key_iter k))), n)]
     \<and> nd_parent (nd c' new) = Some m \<and> nd_key (nd c' new) = key_range k 0 s
     \<and> nd_value (nd c' new) = Some (take s v) \<and> lock c' new = lock c n
     \<and> nd_children (nd c' n) = nd_children (nd c n) \<and> nd_parent (nd c' n) = Some new
     \<and> nd_key (nd c' n) = key_range k s (key_len k) \<and> nd_value (nd c' n) = Some (drop s v)
     \<and> lock c' n = lock c n
     \<and> (nd_hash_value (nd c' new), nd_hash_value (nd c' n))
         = split_node_hash_value (nd_hash_value (nd c n)) s (rc_page_size c)
     \<and> nd c' m = (nd c m)\<lparr>nd_children := AList.update (edge_key c n) new (nd_children (nd c m))\<rparr>
     \<and> (\<forall>x. x \<noteq> n \<longrightarrow> x \<noteq> new \<longrightarrow> x \<noteq> m \<longrightarrow> nd c' x = nd c x))"

lemma split_node_is_split:
  assumes t: "rc_tree c L pre vals" and n: "n \<in> L" "nd_parent (nd c n) = Some m" "nd_value (nd c n) = Some v"
    and s: "0 < s" "s < nlen c n" "rc_page_size c dvd s"
  shows "\<exists>c'. split_node now (nd_key (nd c n)) n s c = Inr (rc_counter c, c') \<and> is_split c n s m v c'"
proof -
  let ?p = "rc_page_size c" and ?k = "nd_key (nd c n)" and ?new = "rc_counter c"
  note pn = pre_parent [OF t n(1,2)]
  have p0: "0 < ?p" by (rule rc_treeD(1) [OF t])
  have ne: "n \<noteq> ?new" "m \<noteq> ?new" "m \<noteq> n"
    using rc_treeD(7) [OF t n(1)] rc_treeD(7) [OF t pn(2)] pn(3,4) by auto
  have ps: "?p \<le> s" using s by (simp add: dvd_imp_le)
  have "?p \<le> nlen c n - s" using s pn(10) by (simp add: dvd_imp_le)
  then have rest: "child_key (key_range ?k s (key_len ?k)) ?p = Inr (extra_key ?k, take ?p (drop s (key_iter ?k)))"
    using child_key_eq [OF p0, of "key_range ?k s (key_len ?k)"] s by (simp add: key_iter_drop)
  have ck: "child_key ?k ?p = Inr (edge_key c n)"
    using child_key_eq [OF p0, of ?k] ps s by (simp add: edge_key_def)
  show ?thesis
    using ne s rest ck n(2,3)
    by (simp add: split_node_def is_split_def new_tree_node_def Let_def key_drop_eq key_take_eq
        split: prod.split) 
qed

lemmas is_splitD = is_split_def [THEN iffD1, unfolded Let_def]

definition split_pre :: "rcache \<Rightarrow> nat \<Rightarrow> nat \<Rightarrow> nat \<Rightarrow> (nat \<Rightarrow> int list list) \<Rightarrow> nat \<Rightarrow> int list list" where
  "split_pre c n s m pre = pre(rc_counter c := pre m @ take s (units c n))"

definition split_vals :: "rcache \<Rightarrow> nat \<Rightarrow> nat \<Rightarrow> int list \<Rightarrow> (nat \<Rightarrow> int list) \<Rightarrow> nat \<Rightarrow> int list" where
  "split_vals c s m v vals = vals(rc_counter c := vals m @ take s v)"

lemma split_edge_keys:
  assumes t: "rc_tree c L pre vals" and n: "n \<in> L" "nd_parent (nd c n) = Some m" "nd_value (nd c n) = Some v"
    and s: "0 < s" "s < nlen c n" "rc_page_size c dvd s" and sp: "is_split c n s m v c'"
  shows "edge_key c' (rc_counter c) = edge_key c n"
    and "edge_key c' n = (extra c n, take (rc_page_size c) (drop s (units c n)))"
    and "x \<noteq> n \<Longrightarrow> x \<noteq> rc_counter c \<Longrightarrow> edge_key c' x = edge_key c x"
proof -
  note d = is_splitD [OF sp]
  have ps: "rc_page_size c \<le> s" using s by (simp add: dvd_imp_le)
  show "edge_key c' (rc_counter c) = edge_key c n" "edge_key c' n = (extra c n, take (rc_page_size c) (drop s (units c n)))"
    using d s ps by (simp_all add: edge_key_def key_iter_take key_iter_drop min_def)
  assume "x \<noteq> n" "x \<noteq> rc_counter c"
  then have "nd_key (nd c' x) = nd_key (nd c x)" using d by (cases "x = m") simp_all
  then show "edge_key c' x = edge_key c x" using d by (simp add: edge_key_def)
qed

text \<open>The facts about the nodes a split touches that the preservation proofs share.\<close>

lemma split_facts:
  assumes t: "rc_tree c L pre vals" and n: "n \<in> L" "nd_parent (nd c n) = Some m" "nd_value (nd c n) = Some v"
    and sp: "is_split c n s m v c'"
  shows "rc_counter c \<notin> L" "n \<noteq> rc_counter c" "m \<noteq> rc_counter c" "m \<noteq> n" "rc_root c \<noteq> rc_counter c" "n \<noteq> rc_root c"
    and "length v = nlen c n" "pre n = pre m @ units c n" "vals n = vals m @ v"
    and "is_bigram (nd_key (nd c n)) = rc_is_eagle c"
    and "x \<noteq> n \<Longrightarrow> x \<noteq> rc_counter c \<Longrightarrow> nd_parent (nd c' x) = nd_parent (nd c x) \<and> nd_value (nd c' x) = nd_value (nd c x)
          \<and> nd_key (nd c' x) = nd_key (nd c x) \<and> lock c' x = lock c x \<and> nd_hash_value (nd c' x) = nd_hash_value (nd c x)"
    and "x \<noteq> m \<Longrightarrow> x \<noteq> rc_counter c \<Longrightarrow> nd_children (nd c' x) = nd_children (nd c x)"
proof -
  note d = is_splitD [OF sp] and pn = pre_parent [OF t n(1,2)]
  show fresh: "rc_counter c \<notin> L" using rc_treeD(7) [OF t] by blast
  show "n \<noteq> rc_counter c" "m \<noteq> rc_counter c" "m \<noteq> n" "rc_root c \<noteq> rc_counter c" and nr: "n \<noteq> rc_root c"
    using fresh n(1) pn rc_treeD(3) [OF t] by auto
  show "length v = nlen c n" "pre n = pre m @ units c n" "vals n = vals m @ v" "is_bigram (nd_key (nd c n)) = rc_is_eagle c"
    using node_okE [OF t n(1) nr] n(2,3) by (metis option.inject)+
  show "nd_parent (nd c' x) = nd_parent (nd c x) \<and> nd_value (nd c' x) = nd_value (nd c x)
      \<and> nd_key (nd c' x) = nd_key (nd c x) \<and> lock c' x = lock c x \<and> nd_hash_value (nd c' x) = nd_hash_value (nd c x)"
    if "x \<noteq> n" "x \<noteq> rc_counter c"
    using d that by (cases "x = m") simp_all
  show "nd_children (nd c' x) = nd_children (nd c x)" if "x \<noteq> m" "x \<noteq> rc_counter c"
    using d that by (cases "x = n") simp_all
qed

lemma split_children_ok:
  assumes t: "rc_tree c L pre vals" and n: "n \<in> L" "nd_parent (nd c n) = Some m" "nd_value (nd c n) = Some v"
    and s: "0 < s" "s < nlen c n" "rc_page_size c dvd s" and sp: "is_split c n s m v c'"
    and x: "x \<in> insert (rc_counter c) L"
  shows "children_ok c' (insert (rc_counter c) L) x"
proof (cases "x = rc_counter c")
  case True
  note d = is_splitD [OF sp] and f = split_facts [OF t n sp] and ek = split_edge_keys [OF t n s sp]
  show ?thesis unfolding children_ok_def True using d f(1-6) n(1) ek(2) by simp
next
  case False
  note d = is_splitD [OF sp] and f = split_facts [OF t n sp] and ek = split_edge_keys [OF t n s sp]
  have xL: "x \<in> L" using x False by simp
  note cx = rc_treeD(8) [OF t xL, unfolded children_ok_def]
  let ?ok = "\<lambda>ck y. y \<in> insert (rc_counter c) L - {rc_root c} \<and> nd_parent (nd c' y) = Some x \<and> ck = edge_key c' y"
  have e: "?ok ck y" if "(ck, y) \<in> set (nd_children (nd c x))" "y \<noteq> n" for ck y
  proof -
    have h: "y \<in> L" "y \<noteq> rc_root c" "nd_parent (nd c y) = Some x" "ck = edge_key c y" using cx that(1) by auto
    then have "y \<noteq> rc_counter c" using f(1) by auto
    with h f(11) [of y] ek(3) [of y] that(2) show ?thesis by simp
  qed
  have nn: "ck = edge_key c n \<and> x = m" if "(ck, n) \<in> set (nd_children (nd c x))" for ck
    using cx that n(2) by auto
  have "\<forall>(ck, y)\<in>set (nd_children (nd c' x)). ?ok ck y"
  proof (intro ballI, clarify)
    fix ek1 ek2 y assume a: "((ek1, ek2), y) \<in> set (nd_children (nd c' x))"
    consider "((ek1, ek2), y) \<in> set (nd_children (nd c x))" "y \<noteq> n" | "(ek1, ek2) = edge_key c n" "y = rc_counter c" "x = m"
    proof (cases "x = m")
      case True
      with a d cx have "((ek1, ek2), y) \<in> {(k', v') \<in> set (nd_children (nd c x)). k' \<noteq> edge_key c n} \<union> {(edge_key c n, rc_counter c)}"
        by (simp add: set_update_distinct)
      with nn True that show thesis by blast
    next
      case F: False
      with a f(12) False have "((ek1, ek2), y) \<in> set (nd_children (nd c x))" by simp
      with nn F that(1) show thesis by blast
    qed
    then show "?ok (ek1, ek2) y"
    proof cases
      case 1
      then show ?thesis using e by blast
    next
      case 2
      then show ?thesis using d ek(1) f(5) by simp
    qed
  qed
  moreover have "distinct (dict_keys (nd_children (nd c' x)))"
  proof (cases "x = m")
    case True
    then show ?thesis using d cx by (simp add: distinct_update)
  next
    case F: False
    then show ?thesis using f(12) [of x] False cx by simp
  qed
  ultimately show ?thesis using d by (simp add: children_ok_def)
qed

lemma split_node_ok:
  assumes t: "rc_tree c L pre vals" and n: "n \<in> L" "nd_parent (nd c n) = Some m" "nd_value (nd c n) = Some v"
    and s: "0 < s" "s < nlen c n" "rc_page_size c dvd s" and sp: "is_split c n s m v c'"
    and x: "x \<in> insert (rc_counter c) L" "x \<noteq> rc_root c"
  shows "node_ok c' (insert (rc_counter c) L) (split_pre c n s m pre) (split_vals c s m v vals) x"
proof -
  let ?new = "rc_counter c" and ?L = "insert (rc_counter c) L"
  let ?pre = "split_pre c n s m pre" and ?vals = "split_vals c s m v vals"
  note d = is_splitD [OF sp] and f = split_facts [OF t n sp] and ek = split_edge_keys [OF t n s sp]
  note pn = pre_parent [OF t n(1,2)]
  have old: "?pre y = pre y" "?vals y = vals y" if "y \<in> L" for y
    using that f(1) by (auto simp: split_pre_def split_vals_def)
  have newp: "?pre ?new = pre m @ take s (units c n)" "?vals ?new = vals m @ take s v"
    by (simp_all add: split_pre_def split_vals_def)
  have ch: "map_of (nd_children (nd c' m)) (edge_key c' ?new) = Some ?new"
    "map_of (nd_children (nd c' ?new)) (edge_key c' n) = Some n"
    using d ek(1,2) by (simp_all add: AList.update_conv')
  consider "x = ?new" | "x = n" | "x \<in> L" "x \<noteq> n" using x by auto
  then show ?thesis
  proof cases
    case 1
    have em: "m \<noteq> rc_root c \<longrightarrow> extra c' m = extra c n" using d pn(7) by simp
    show ?thesis unfolding node_ok_def 1
      by (intro conjI exI [of _ m] exI [of _ "take s v"])
        (use d s f(7-10) pn(2) ch em newp old [OF pn(2)] in \<open>simp_all add: key_iter_take\<close>)
  next
    case 2
    show ?thesis unfolding node_ok_def 2
      by (intro conjI exI [of _ ?new] exI [of _ "drop s v"])
        (use d s f(7-10) n(1) ch newp old [OF n(1)] dvd_diff_nat [OF pn(10) s(3)] in \<open>simp_all add: key_iter_drop\<close>)
  next
    case 3
    obtain y u where y: "nd_parent (nd c x) = Some y" "y \<in> L"
      "map_of (nd_children (nd c y)) (edge_key c x) = Some x"
      "nd_value (nd c x) = Some u" "length u = nlen c x" "pre x = pre y @ units c x" "vals x = vals y @ u"
      "y \<noteq> rc_root c \<longrightarrow> extra c y = extra c x" "0 < nlen c x" "rc_page_size c dvd nlen c x"
      "is_bigram (nd_key (nd c x)) = rc_is_eagle c"
      by (rule node_okE [OF t 3(1) x(2)])
    have xn: "x \<noteq> ?new" "y \<noteq> ?new" using 3 y f(1) by auto
    note fx = f(11) [OF 3(2) xn(1)]
    have ey: "y \<noteq> rc_root c \<longrightarrow> extra c' y = extra c x"
      using d y(8) f(11) [of y] xn by (cases "y = n") simp_all
    have "edge_key c x \<noteq> edge_key c n" if "y = m"
      using child_unique [OF t 3(1) n(1)] y(1) n(2) 3(2) that by auto
    then have mo: "map_of (nd_children (nd c' y)) (edge_key c' x) = Some x"
      using d y(3) ek(3) [OF 3(2) xn(1)] f(12) [of y] xn by (cases "y = m") (simp_all add: AList.update_conv')
    show ?thesis unfolding node_ok_def
      by (intro conjI exI [of _ y] exI [of _ u])
        (use d fx ey mo y old [OF y(2)] old [OF 3(1)] in simp_all)
  qed
qed

lemma rc_tree_split:
  assumes t: "rc_tree c L pre vals" and n: "n \<in> L" "nd_parent (nd c n) = Some m" "nd_value (nd c n) = Some v"
    and s: "0 < s" "s < nlen c n" "rc_page_size c dvd s" and sp: "is_split c n s m v c'"
  shows "rc_tree c' (insert (rc_counter c) L) (split_pre c n s m pre) (split_vals c s m v vals)"
proof -
  note d = is_splitD [OF sp] and f = split_facts [OF t n sp]
  have "root_ok c'" using f(11) [of "rc_root c"] f(5,6) d rc_treeD(4) [OF t] by (simp add: root_ok_def)
  moreover have "\<forall>x\<in>insert (rc_counter c) L. x < rc_counter c'" using d rc_treeD(7) [OF t] by (simp add: less_SucI)
  ultimately show ?thesis
    using split_node_ok [OF t n s sp] split_children_ok [OF t n s sp] rc_treeD(1-6) [OF t] d f(5)
    by (simp add: rc_tree_def split_pre_def split_vals_def)
qed

section \<open>A split keeps the accounts\<close>

lemma finite_kids: "rc_tree c L pre vals \<Longrightarrow> finite (kids c L x)"
  using rc_treeD(2) by (fastforce simp: kids_def)

lemma kids_split:
  assumes t: "rc_tree c L pre vals" and n: "n \<in> L" "nd_parent (nd c n) = Some m" "nd_value (nd c n) = Some v"
    and sp: "is_split c n s m v c'"
  shows "kids c' (insert (rc_counter c) L) (rc_counter c) = {n}"
    and "kids c' (insert (rc_counter c) L) m = insert (rc_counter c) (kids c L m - {n})"
    and "x \<noteq> m \<Longrightarrow> x \<noteq> rc_counter c \<Longrightarrow> kids c' (insert (rc_counter c) L) x = kids c L x"
proof -
  note d = is_splitD [OF sp] and f = split_facts [OF t n sp]
  have par: "nd_parent (nd c' y) = (if y = rc_counter c then Some m else if y = n then Some (rc_counter c) else nd_parent (nd c y))" for y
    using f(11) [of y] f(2) d by auto
  have nonew: "nd_parent (nd c y) \<noteq> Some (rc_counter c)" if "y \<in> L" for y
    using pre_parent(2) [OF t that] f(1) by auto
  show "kids c' (insert (rc_counter c) L) (rc_counter c) = {n}"
    unfolding kids_def par using nonew f(2,3) n(1) by (auto split: if_splits)
  show "kids c' (insert (rc_counter c) L) m = insert (rc_counter c) (kids c L m - {n})"
    unfolding kids_def par using f(1-4) by (auto split: if_splits)
  assume "x \<noteq> m" "x \<noteq> rc_counter c"
  then show "kids c' (insert (rc_counter c) L) x = kids c L x"
    unfolding kids_def par using n(2) f(1) by (auto split: if_splits)
qed

lemma held_split:
  assumes t: "rc_tree c L pre vals" and n: "n \<in> L" "nd_parent (nd c n) = Some m" "nd_value (nd c n) = Some v"
    and sp: "is_split c n s m v c'" and x: "x \<in> L"
  shows "held c' (insert (rc_counter c) L) x = held c L x"
proof -
  note d = is_splitD [OF sp] and f = split_facts [OF t n sp] and k = kids_split [OF t n sp]
  have lk: "lock c' y = lock c y" if "y \<noteq> rc_counter c" for y
    using f(11) [of y] d that by (cases "y = n") simp_all
  have xn: "x \<noteq> rc_counter c" using x f(1) by auto
  have lkL: "lock c' y = lock c y" if "y \<in> L" for y using lk f(1) that by metis
  show ?thesis
  proof (cases "x = m")
    case True
    have fin: "finite (kids c L m)" by (rule finite_kids [OF t])
    have mem: "n \<in> kids c L m" using n by (simp add: kids_def)
    have "(\<Sum>y\<in>kids c' (insert (rc_counter c) L) m. lock c' y) = lock c' (rc_counter c) + (\<Sum>y\<in>kids c L m - {n}. lock c' y)"
      unfolding k(2) using fin f(1) by (subst sum.insert) (auto simp: kids_def)
    also have "(\<Sum>y\<in>kids c L m - {n}. lock c' y) = (\<Sum>y\<in>kids c L m - {n}. lock c y)"
      by (intro sum.cong) (auto simp: kids_def lkL)
    also have "lock c' (rc_counter c) = lock c n" using d by simp
    also have "lock c n + (\<Sum>y\<in>kids c L m - {n}. lock c y) = (\<Sum>y\<in>kids c L m. lock c y)"
      using fin mem by (simp add: sum.remove)
    finally show ?thesis using True lk [OF xn] by (simp add: held_def)
  next
    case False
    have "(\<Sum>y\<in>kids c L x. lock c' y) = (\<Sum>y\<in>kids c L x. lock c y)"
      by (intro sum.cong) (auto simp: kids_def lkL)
    then show ?thesis using k(3) [OF False xn] lk [OF xn] by (simp add: held_def)
  qed
qed

lemma size_if_split:
  assumes t: "rc_tree c L pre vals" and n: "n \<in> L" "nd_parent (nd c n) = Some m" "nd_value (nd c n) = Some v"
    and s: "s < nlen c n" and sp: "is_split c n s m v c'"
  shows "size_if c' (insert (rc_counter c) L) P = size_if c L P"
proof -
  let ?new = "rc_counter c" and ?R = "L - {rc_root c}"
  let ?g = "\<lambda>c x. if P (lock c x) then int (nlen c x) else 0"
  note d = is_splitD [OF sp] and f = split_facts [OF t n sp]
  have fin: "finite ?R" using rc_treeD(2) [OF t] by simp
  have nR: "n \<in> ?R" "?new \<notin> ?R" using n f by auto
  have "insert ?new L - {rc_root c'} = insert ?new ?R" using d f(5) by auto
  then have "size_if c' (insert ?new L) P = ?g c' ?new + (\<Sum>x\<in>?R. ?g c' x)"
    unfolding size_if_def using fin nR by simp
  also have "(\<Sum>x\<in>?R. ?g c' x) = ?g c' n + (\<Sum>x\<in>?R - {n}. ?g c' x)" using fin nR(1) by (rule sum.remove)
  also have "(\<Sum>x\<in>?R - {n}. ?g c' x) = (\<Sum>x\<in>?R - {n}. ?g c x)"
  proof (rule sum.cong [OF refl])
    fix x assume "x \<in> ?R - {n}"
    then have "x \<noteq> n" "x \<noteq> ?new" using f(1) by auto
    from f(11) [OF this] show "?g c' x = ?g c x" by simp
  qed
  also have "?g c' ?new + (?g c' n + (\<Sum>x\<in>?R - {n}. ?g c x)) = ?g c n + (\<Sum>x\<in>?R - {n}. ?g c x)"
    using d s by (simp add: of_nat_diff)
  also have "\<dots> = size_if c L P" unfolding size_if_def using fin nR(1) by (simp add: sum.remove)
  finally show ?thesis .
qed

lemma rc_acct_split:
  assumes t: "rc_tree c L pre vals" and n: "n \<in> L" "nd_parent (nd c n) = Some m" "nd_value (nd c n) = Some v"
    and s: "s < nlen c n" and sp: "is_split c n s m v c'" and a: "rc_acct c L"
  shows "rc_acct c' (insert (rc_counter c) L)"
proof -
  let ?new = "rc_counter c"
  note d = is_splitD [OF sp] and f = split_facts [OF t n sp] and k = kids_split [OF t n sp]
  have lk: "lock c' y = lock c y" if "y \<noteq> ?new" for y
    using f(11) [of y] d that by (cases "y = n") simp_all
  have "held c' (insert ?new L) ?new = 0" using k(1) d by (simp add: held_def)
  moreover have "held c' (insert ?new L) x = held c L x" if "x \<in> L" for x using held_split [OF t n sp that] .
  moreover have "lock c' x = lock c x" if "x \<in> L" for x using lk f(1) that by metis
  moreover have "0 \<le> lock c' ?new" using a d n(1) f(6) by (auto simp: rc_acct_def)
  ultimately have hd: "\<forall>x\<in>insert ?new L - {rc_root c}. 0 \<le> lock c' x \<and> 0 \<le> held c' (insert ?new L) x"
    using a by (auto simp: rc_acct_def)
  have "nd_children (nd c m) \<noteq> []" using pre_parent(9) [OF t n(1,2)] by auto
  moreover have "nd_children (nd c' m) \<noteq> []" using d by (simp add: update_nonempty)
  ultimately have cx: "nd_children (nd c' x) = [] \<longleftrightarrow> nd_children (nd c x) = []" if "x \<in> L" for x
    using f(1,12) that by metis
  have nl: "nd_children (nd c' ?new) \<noteq> []" "rc_root c' = rc_root c" using d by simp_all
  have "x \<in> free_leaves c' (insert ?new L) \<longleftrightarrow> x \<in> free_leaves c L" for x
  proof (cases "x = ?new")
    case True
    then show ?thesis using nl f(1) by (simp add: free_leaves_def)
  next
    case False
    then show ?thesis using cx [of x] lk [OF False] nl(2) by (auto simp: free_leaves_def)
  qed
  then have "free_leaves c' (insert ?new L) = free_leaves c L" by blast
  with hd show ?thesis
    using a d lk [OF f(5)] size_if_split [OF t n s sp] by (simp add: rc_acct_def)
qed

lemma rc_hash_split:
  assumes t: "rc_tree c L pre vals" and n: "n \<in> L" "nd_parent (nd c n) = Some m" "nd_value (nd c n) = Some v"
    and s: "0 < s" "s < nlen c n" "rc_page_size c dvd s" and sp: "is_split c n s m v c'" and h: "rc_hash c L"
  shows "rc_hash c' (insert (rc_counter c) L)"
proof (cases "rc_enable_kv_cache_events c")
  case True
  let ?p = "rc_page_size c"
  note d = is_splitD [OF sp] and f = split_facts [OF t n sp]
  have p0: "0 < ?p" by (rule rc_treeD(1) [OF t])
  obtain hs where hs: "nd_hash_value (nd c n) = Some hs" "length hs * ?p = nlen c n" "\<forall>h\<in>set hs. is_digest h" "toks_ok (nd_key (nd c n))"
    using h True n(1) f(6) by (auto simp: rc_hash_def)
  have pg: "(if ?p = 1 then s else s div ?p) = s div ?p" by simp
  have sl: "s div ?p * ?p = s" using s(3) by simp
  then have "s div ?p \<le> length hs" using s(2) hs(2) p0 by (metis less_imp_le mult_le_cancel2)
  then have l1: "length (take (s div ?p) hs) * ?p = s" "length (drop (s div ?p) hs) * ?p = nlen c n - s"
    using sl hs(2) by (simp_all add: diff_mult_distrib)
  have dig: "\<forall>h\<in>set (take (s div ?p) hs). is_digest h" "\<forall>h\<in>set (drop (s div ?p) hs). is_digest h"
    using hs(3) by (auto dest: in_set_takeD in_set_dropD)
  have hv: "nd_hash_value (nd c' (rc_counter c)) = Some (take (s div ?p) hs)" "nd_hash_value (nd c' n) = Some (drop (s div ?p) hs)"
    using d hs(1) pg by (simp_all add: split_node_hash_value_def Let_def)
  show ?thesis
    unfolding rc_hash_def
  proof (intro impI ballI)
    fix x assume "x \<in> insert (rc_counter c) L - {rc_root c'}"
    then consider "x = rc_counter c" | "x = n" | "x \<in> L" "x \<noteq> n" "x \<noteq> rc_root c" "x \<noteq> rc_counter c" using d f(1) by auto
    then show "toks_ok (nd_key (nd c' x)) \<and> (\<exists>hs. nd_hash_value (nd c' x) = Some hs
        \<and> length hs * rc_page_size c' = nlen c' x \<and> (\<forall>h\<in>set hs. is_digest h))"
    proof cases
      case 3
      with f(11) [OF 3(2,4)] d h True show ?thesis by (simp add: rc_hash_def)
    qed (use hv l1 dig hs(4) d s in simp_all)
  qed
qed (use is_splitD [OF sp] in \<open>simp add: rc_hash_def\<close>)

section \<open>The whole invariant, frames, and the abstract content\<close>

definition rc_wf :: "rcache \<Rightarrow> nat set \<Rightarrow> (nat \<Rightarrow> int list list) \<Rightarrow> (nat \<Rightarrow> int list) \<Rightarrow> bool" where
  "rc_wf c L pre vals \<longleftrightarrow> rc_tree c L pre vals \<and> rc_acct c L \<and> rc_hash c L"

text \<open>What no lookup or insertion changes about the nodes that were there before.\<close>

definition rc_frame ::
  "rcache \<Rightarrow> nat set \<Rightarrow> (nat \<Rightarrow> int list list) \<Rightarrow> (nat \<Rightarrow> int list)
     \<Rightarrow> rcache \<Rightarrow> nat set \<Rightarrow> (nat \<Rightarrow> int list list) \<Rightarrow> (nat \<Rightarrow> int list) \<Rightarrow> bool" where
  "rc_frame c L pre vals c' L' pre' vals' \<longleftrightarrow>
     L \<subseteq> L' \<and> rc_root c' = rc_root c \<and> rc_page_size c' = rc_page_size c \<and> rc_is_eagle c' = rc_is_eagle c
   \<and> rc_disable c' = rc_disable c \<and> rc_disable_finished_insert c' = rc_disable_finished_insert c
   \<and> rc_enable_kv_cache_events c' = rc_enable_kv_cache_events c \<and> rc_strategy c' = rc_strategy c
   \<and> rc_allocator c' = rc_allocator c \<and> rc_protected_size c' = rc_protected_size c
   \<and> (\<forall>n\<in>L. pre' n = pre n \<and> vals' n = vals n \<and> extra c' n = extra c n
        \<and> lock c' n = lock c n \<and> held c' L' n = held c L n)"

text \<open>The namespaced prefixes the tree holds, with their slots.\<close>

definition stored ::
  "rcache \<Rightarrow> nat set \<Rightarrow> (nat \<Rightarrow> int list list) \<Rightarrow> (nat \<Rightarrow> int list) \<Rightarrow> (string option \<times> int list list \<times> int list) set" where
  "stored c L pre vals = {(extra c n, take k (pre n), take k (vals n)) | n k.
     n \<in> L \<and> n \<noteq> rc_root c \<and> 0 < k \<and> k \<le> length (pre n) \<and> rc_page_size c dvd k}"

lemma storedI:
  "n \<in> L \<Longrightarrow> n \<noteq> rc_root c \<Longrightarrow> 0 < k \<Longrightarrow> k \<le> length (pre n) \<Longrightarrow> rc_page_size c dvd k \<Longrightarrow>
     (extra c n, take k (pre n), take k (vals n)) \<in> stored c L pre vals"
  unfolding stored_def by blast

lemma storedE:
  assumes "e \<in> stored c L pre vals"
  obtains n k where "n \<in> L" "n \<noteq> rc_root c" "0 < k" "k \<le> length (pre n)" "rc_page_size c dvd k"
    "e = (extra c n, take k (pre n), take k (vals n))"
  using assms unfolding stored_def by blast

lemma rc_frame_refl [simp]: "rc_frame c L pre vals c L pre vals"
  by (simp add: rc_frame_def)

lemma rc_frame_trans:
  "rc_frame c L pre vals c' L' pre' vals' \<Longrightarrow> rc_frame c' L' pre' vals' c'' L'' pre'' vals'' \<Longrightarrow>
     rc_frame c L pre vals c'' L'' pre'' vals''"
  unfolding rc_frame_def by (auto simp: subset_eq)

lemma stat_upd_wf:
  assumes "rc_wf c L pre vals" "stat_upd f"
  shows "rc_wf (upd_node n f c) L pre vals" "rc_frame c L pre vals (upd_node n f c) L pre vals"
    "stored (upd_node n f c) L pre vals = stored c L pre vals"
proof -
  have s: "same_acct c (upd_node n f c)" using assms(2) by (rule same_acct_upd)
  show "rc_wf (upd_node n f c) L pre vals"
    using assms(1) rc_tree_cong [OF _ same_acct_same_tree [OF s]] rc_acct_cong [OF _ s] rc_hash_cong [OF _ s]
    by (auto simp: rc_wf_def)
  have e: "nd_key (nd (upd_node n f c) x) = nd_key (nd c x)" "lock (upd_node n f c) x = lock c x"
    "nd_parent (nd (upd_node n f c) x) = nd_parent (nd c x)" for x
    using assms(2) by (simp_all add: stat_upd_def)
  then show "rc_frame c L pre vals (upd_node n f c) L pre vals"
    by (simp add: rc_frame_def held_def kids_def del: upd_node_simps(14))
  show "stored (upd_node n f c) L pre vals = stored c L pre vals"
    using e(1) by (simp add: stored_def del: upd_node_simps(14))
qed

lemma split_wf:
  assumes w: "rc_wf c L pre vals" and n: "n \<in> L" "nd_parent (nd c n) = Some m" "nd_value (nd c n) = Some v"
    and s: "0 < s" "s < nlen c n" "rc_page_size c dvd s" and sp: "is_split c n s m v c'"
  defines "L' \<equiv> insert (rc_counter c) L" and "pre' \<equiv> split_pre c n s m pre" and "vals' \<equiv> split_vals c s m v vals"
  shows "rc_wf c' L' pre' vals'" "rc_frame c L pre vals c' L' pre' vals'"
    "stored c' L' pre' vals' = stored c L pre vals"
proof -
  have t: "rc_tree c L pre vals" using w by (simp add: rc_wf_def)
  note d = is_splitD [OF sp] and f = split_facts [OF t n sp]
  show "rc_wf c' L' pre' vals'"
    using w rc_tree_split [OF t n s sp] rc_acct_split [OF t n s(2) sp] rc_hash_split [OF t n s sp]
    by (simp add: rc_wf_def L'_def pre'_def vals'_def)
  have lk: "lock c' x = lock c x \<and> extra c' x = extra c x" if "x \<in> L" for x
    using f(11) [of x] f(1) d that by (cases "x = n"; cases "x = rc_counter c") auto
  have old: "pre' x = pre x \<and> vals' x = vals x" if "x \<in> L" for x
    using that f(1) by (auto simp: pre'_def vals'_def split_pre_def split_vals_def)
  show "rc_frame c L pre vals c' L' pre' vals'"
    using d lk old held_split [OF t n sp] unfolding rc_frame_def L'_def by auto
  let ?new = "rc_counter c"
  have new: "extra c' ?new = extra c n" "length (pre' ?new) \<le> length (pre n)"
    "take k (pre' ?new) = take k (pre n)" "take k (vals' ?new) = take k (vals n)"
    if "k \<le> length (pre' ?new)" for k
  proof -
    have lm: "length (vals m) = length (pre m)" using t pre_parent(2) [OF t n(1,2)] by (rule length_vals)
    show "extra c' ?new = extra c n" using d by simp
    show "length (pre' ?new) \<le> length (pre n)" "take k (pre' ?new) = take k (pre n)" "take k (vals' ?new) = take k (vals n)"
      using that s f(7-9) lm by (simp_all add: pre'_def vals'_def split_pre_def split_vals_def min_def)
  qed
  have dr: "rc_root c' = rc_root c" "rc_page_size c' = rc_page_size c" using d by simp_all
  show "stored c' L' pre' vals' = stored c L pre vals"
  proof (intro set_eqI iffI)
    fix e assume "e \<in> stored c' L' pre' vals'"
    then obtain x k where x: "x \<in> L'" "x \<noteq> rc_root c'" "0 < k" "k \<le> length (pre' x)" "rc_page_size c' dvd k"
      "e = (extra c' x, take k (pre' x), take k (vals' x))" by (rule storedE)
    define y where "y = (if x = ?new then n else x)"
    have y: "y \<in> L" "y \<noteq> rc_root c" "k \<le> length (pre y)" "e = (extra c y, take k (pre y), take k (vals y))"
      using x new [of k] lk old n(1) f(6) dr by (auto simp: y_def L'_def)
    show "e \<in> stored c L pre vals"
      unfolding y(4) by (rule storedI) (use x y dr in simp_all)
  next
    fix e assume "e \<in> stored c L pre vals"
    then obtain x k where x: "x \<in> L" "x \<noteq> rc_root c" "0 < k" "k \<le> length (pre x)" "rc_page_size c dvd k"
      "e = (extra c x, take k (pre x), take k (vals x))" by (rule storedE)
    then have y: "x \<in> L'" "e = (extra c' x, take k (pre' x), take k (vals' x))" "k \<le> length (pre' x)"
      using lk [OF x(1)] old [OF x(1)] by (simp_all add: L'_def)
    show "e \<in> stored c' L' pre' vals'"
      unfolding y(2) by (rule storedI) (use x y dr in simp_all)
  qed
qed

end
