(* ===== verification/Radix_Lookup.thy ===== *)
theory Radix_Lookup
  imports Radix_Split
begin

text \<open>
  \<open>match_prefix\<close> and \<open>insert\<close>: from a well-formed cache neither raises nor runs out of its loop
  bound; both keep the invariants; a match leaves the content as it is and returns the longest
  stored prefix; an insertion adds exactly the missing prefixes of the key.
\<close>

section \<open>One step down the tree\<close>

definition key_fits :: "rcache \<Rightarrow> radix_key \<Rightarrow> bool" where
  "key_fits c k \<longleftrightarrow> is_bigram k = rc_is_eagle c \<and> rc_page_size c dvd key_len k"

text \<open>The state of both loops: at \<open>node\<close>, with \<open>key\<close> still to be matched.\<close>

definition at_node :: "rcache \<Rightarrow> nat set \<Rightarrow> nat \<Rightarrow> radix_key \<Rightarrow> ckey \<Rightarrow> bool" where
  "at_node c L node key ck \<longleftrightarrow> node \<in> L \<and> key_fits c key
     \<and> (node \<noteq> rc_root c \<longrightarrow> extra c node = extra_key key)
     \<and> (0 < key_len key \<longrightarrow> ck = (extra_key key, take (rc_page_size c) (key_iter key)))"

lemma child_key_fits:
  assumes "rc_tree c L pre vals" "key_fits c k" "0 < key_len k"
  shows "child_key k (rc_page_size c) = Inr (extra_key k, take (rc_page_size c) (key_iter k))"
  using assms rc_treeD(1) [OF assms(1)] by (auto simp: key_fits_def intro!: child_key_eq dvd_imp_le)

lemma key_fits_drop:
  "key_fits c k \<Longrightarrow> rc_page_size c dvd n \<Longrightarrow> n \<le> key_len k \<Longrightarrow> key_fits c (key_range k n (key_len k))"
  by (simp add: key_fits_def dvd_diff_nat)

lemma descend:
  assumes t: "rc_tree c L pre vals" and at: "at_node c L node key ck" and pos: "0 < key_len key"
    and child: "map_of (nd_children (nd c node)) ck = Some child"
  shows "\<exists>pl. key_match (nd_key (nd c child)) key (rc_page_size c) = Inr pl
     \<and> rc_page_size c \<le> pl \<and> rc_page_size c dvd pl \<and> pl \<le> nlen c child \<and> pl \<le> key_len key
     \<and> take pl (units c child) = take pl (key_iter key)
     \<and> (pl < nlen c child \<longrightarrow> pl < key_len key \<longrightarrow>
          take (rc_page_size c) (drop pl (units c child)) \<noteq> take (rc_page_size c) (drop pl (key_iter key)))"
proof -
  let ?p = "rc_page_size c" and ?u = "units c child" and ?k = "key_iter key"
  have p0: "0 < ?p" by (rule rc_treeD(1) [OF t])
  have nL: "node \<in> L" and kf: "key_fits c key" and ck: "ck = (extra_key key, take ?p ?k)"
    using at pos by (auto simp: at_node_def)
  note cl = child_lookup [OF t nL child]
  from cl(4) ck have ek: "extra c child = extra_key key" "take ?p ?u = take ?p ?k" by (simp_all add: edge_key_def)
  note pc = pre_parent [OF t cl(1,3)]
  have bg: "is_bigram (nd_key (nd c child)) = is_bigram key"
    using node_okE [OF t cl(1,2)] kf unfolding key_fits_def by metis
  define l where "l = lcp_len ?u ?k"
  define pl where "pl = page_floor l ?p"
  have m: "key_match (nd_key (nd c child)) key ?p = Inr pl"
    unfolding pl_def l_def using p0 pc(10) kf ek(1) bg by (intro key_match_correct) (auto simp: key_fits_def)
  have kp: "?p \<le> key_len key" "?p \<le> nlen c child"
    using kf pos pc(4,10) by (auto simp: key_fits_def intro: dvd_imp_le)
  have "?p \<le> l" unfolding l_def lcp_len_ge_iff using ek(2) kp by simp
  then have pp: "?p \<le> pl" unfolding pl_def by (simp add: dvd_le_page_floor)
  have ll: "l \<le> nlen c child" "l \<le> key_len key" using lcp_len_le [of ?u ?k] by (simp_all add: l_def)
  have plle: "pl \<le> l" unfolding pl_def by (rule page_floor_le)
  have dv: "?p dvd pl" unfolding pl_def by (rule page_floor_dvd)
  have tk: "take pl ?u = take pl ?k" using plle lcp_len_ge_iff [of pl ?u ?k] by (simp add: l_def)
  have mx: "take ?p (drop pl ?u) \<noteq> take ?p (drop pl ?k)" if "pl < nlen c child" "pl < key_len key"
  proof
    assume e: "take ?p (drop pl ?u) = take ?p (drop pl ?k)"
    have le: "pl + ?p \<le> nlen c child" "pl + ?p \<le> key_len key"
      using that dv pc(10) kf by (auto simp: key_fits_def intro: dvd_less_add_page)
    have "take (pl + ?p) ?u = take (pl + ?p) ?k" using tk e by (simp add: take_add)
    then have "pl + ?p \<le> l" using le by (simp add: l_def lcp_len_ge_iff)
    then have "pl + ?p \<le> pl" unfolding pl_def using dv [unfolded pl_def] by (intro dvd_le_page_floor) simp_all
    with p0 show False by simp
  qed
  show ?thesis using m pp dv ll plle tk mx by auto
qed

lemma split_step:
  assumes w: "rc_wf c L pre vals" and at: "at_node c L node key ck" and pos: "0 < key_len key"
    and child: "map_of (nd_children (nd c node)) ck = Some child"
    and pl: "rc_page_size c \<le> pl" "rc_page_size c dvd pl" "pl < nlen c child" "take pl (units c child) = take pl (key_iter key)"
  shows "\<exists>c' L' pre' vals' v. split_node now (nd_key (nd c child)) child pl c = Inr (rc_counter c, c')
     \<and> rc_wf c' L' pre' vals' \<and> rc_frame c L pre vals c' L' pre' vals' \<and> stored c' L' pre' vals' = stored c L pre vals
     \<and> rc_counter c \<in> L' \<and> rc_counter c \<noteq> rc_root c \<and> extra c' (rc_counter c) = extra_key key
     \<and> pre' (rc_counter c) = pre node @ take pl (key_iter key)
     \<and> nd_value (nd c' (rc_counter c)) = Some v \<and> vals' (rc_counter c) = vals node @ v
     \<and> nd_children (nd c' (rc_counter c)) = [((extra_key key, take (rc_page_size c) (drop pl (units c child))), child)]
     \<and> rc_evictable_size c' = rc_evictable_size c"
proof -
  have t: "rc_tree c L pre vals" using w by (simp add: rc_wf_def)
  have nL: "node \<in> L" and ck: "ck = (extra_key key, take (rc_page_size c) (key_iter key))"
    using at pos by (auto simp: at_node_def)
  note cl = child_lookup [OF t nL child]
  have ek: "extra c child = extra_key key" using cl(4) ck by (simp add: edge_key_def)
  obtain v where v: "nd_value (nd c child) = Some v" using node_okE [OF t cl(1,2)] by metis
  have s: "0 < pl" using pl(1) rc_treeD(1) [OF t] by simp
  obtain c' where c': "split_node now (nd_key (nd c child)) child pl c = Inr (rc_counter c, c')" "is_split c child pl node v c'"
    using split_node_is_split [OF t cl(1,3) v s pl(3,2)] by blast
  note d = is_splitD [OF c'(2)] and f = split_facts [OF t cl(1,3) v c'(2)]
  show ?thesis
    using c'(1) split_wf [OF w cl(1,3) v s pl(3,2) c'(2)] f(5) d ek pl(4)
    by (intro exI [of _ c'] exI [of _ "insert (rc_counter c) L"] exI [of _ "split_pre c child pl node pre"]
        exI [of _ "split_vals c pl node v vals"] exI [of _ "take pl v"])
      (simp add: split_pre_def split_vals_def)
qed

lemma stat_upd_time [simp]: "stat_upd (\<lambda>x. x\<lparr>nd_last_access_time := now\<rparr>)"
  by (simp add: stat_upd_def)

lemma stat_upd_time_prio [simp]:
  "stat_upd (\<lambda>x. x\<lparr>nd_last_access_time := now, nd_priority := max (nd_priority x) q\<rparr>)"
  by (simp add: stat_upd_def)

lemma stat_upd_hit [simp]: "stat_upd (\<lambda>x. inc_hit_count b (x\<lparr>nd_priority := max (nd_priority x) q\<rparr>))"
  by (simp add: stat_upd_def inc_hit_count_def)

lemma at_node_stat: "stat_upd f \<Longrightarrow> at_node (upd_node n f c) L node key ck \<longleftrightarrow> at_node c L node key ck"
  by (simp add: at_node_def key_fits_def stat_upd_def)

lemma nd_stat:
  assumes "stat_upd f"
  shows "nd_key (nd (upd_node n f c) x) = nd_key (nd c x)" "nd_value (nd (upd_node n f c) x) = nd_value (nd c x)"
    "nd_children (nd (upd_node n f c) x) = nd_children (nd c x)"
  using assms by (simp_all add: stat_upd_def)

definition path_end :: "rcache \<Rightarrow> nat set \<Rightarrow> (nat \<Rightarrow> int list list) \<Rightarrow> string option \<Rightarrow> int list list \<Rightarrow> nat \<Rightarrow> bool" where
  "path_end c L pre ek full node \<longleftrightarrow> node \<in> L \<and> (node \<noteq> rc_root c \<longrightarrow> extra c node = ek)
     \<and> (\<exists>rest. full = pre node @ rest \<and> rc_page_size c dvd length rest
          \<and> (rest = [] \<or> map_of (nd_children (nd c node)) (ek, take (rc_page_size c) rest) = None))"

section \<open>Matching\<close>

lemma torch_cat_snoc: "torch_cat vs = Inr w \<Longrightarrow> torch_cat (vs @ [Some v]) = Inr (w @ v)"
  by (induction vs arbitrary: w rule: torch_cat.induct) (auto simp: res_simps)

lemma match_loop_spec:
  assumes "rc_wf c L pre vals" "at_node c L node key ck" "key_len key < fuel"
    "pre node @ key_iter key = full" "torch_cat vs = Inr (vals node)"
  shows "\<exists>vs' node' c' L' pre' vals'. match_loop fuel now node key ck vs c = Inr (vs', node', c')
     \<and> rc_wf c' L' pre' vals' \<and> rc_frame c L pre vals c' L' pre' vals' \<and> stored c' L' pre' vals' = stored c L pre vals
     \<and> path_end c' L' pre' (extra_key key) full node' \<and> torch_cat vs' = Inr (vals' node')
     \<and> (vs' = [] \<longrightarrow> vals' node' = []) \<and> rc_evictable_size c' = rc_evictable_size c"
  using assms
proof (induction fuel arbitrary: c node key ck vs)
  case (Suc fuel)
  note w = Suc.prems(1) and at = Suc.prems(2)
  have t: "rc_tree c L pre vals" using w by (simp add: rc_wf_def)
  have nL: "node \<in> L" "node \<noteq> rc_root c \<longrightarrow> extra c node = extra_key key" using at by (auto simp: at_node_def)
  let ?p = "rc_page_size c"
  show ?case
  proof (cases "key_len key = 0 \<or> map_of (nd_children (nd c node)) ck = None")
    case True
    have "path_end c L pre (extra_key key) full node"
      using nL Suc.prems(2,4) True
      by (auto simp: path_end_def at_node_def key_fits_def intro!: exI [of _ "key_iter key"])
    moreover have "match_loop (Suc fuel) now node key ck vs c = Inr (vs, node, c)" using True by auto
    moreover have "vs = [] \<longrightarrow> vals node = []" using Suc.prems(5) by auto
    ultimately show ?thesis using w Suc.prems(5) rc_frame_refl by blast
  next
    case False
    then obtain child where pos: "0 < key_len key" and child: "map_of (nd_children (nd c node)) ck = Some child" by auto
    let ?f = "\<lambda>x. x\<lparr>nd_last_access_time := now\<rparr>" let ?c1 = "upd_node child ?f c"
    note st = stat_upd_wf [OF w stat_upd_time, of child now] and ns = nd_stat [OF stat_upd_time, of child now c]
    have at1: "at_node ?c1 L node key ck" using at by (simp add: at_node_stat)
    have child1: "map_of (nd_children (nd ?c1 node)) ck = Some child" using child ns(3) [of node] by simp
    obtain pl where pl: "key_match (nd_key (nd c child)) key ?p = Inr pl" "?p \<le> pl" "?p dvd pl" "pl \<le> nlen c child" "pl \<le> key_len key"
      "take pl (units c child) = take pl (key_iter key)"
      "pl < nlen c child \<longrightarrow> pl < key_len key \<longrightarrow> take ?p (drop pl (units c child)) \<noteq> take ?p (drop pl (key_iter key))"
      using descend [OF t at pos child] by blast
    show ?thesis
    proof (cases "pl < nlen c child")
      case True
      obtain c2 L2 pre2 vals2 v where s: "split_node now (nd_key (nd c child)) child pl ?c1 = Inr (rc_counter c, c2)"
        "rc_wf c2 L2 pre2 vals2" "rc_frame ?c1 L pre vals c2 L2 pre2 vals2" "stored c2 L2 pre2 vals2 = stored ?c1 L pre vals"
        "rc_counter c \<in> L2" "rc_counter c \<noteq> rc_root c" "extra c2 (rc_counter c) = extra_key key"
        "pre2 (rc_counter c) = pre node @ take pl (key_iter key)"
        "nd_value (nd c2 (rc_counter c)) = Some v" "vals2 (rc_counter c) = vals node @ v"
        "nd_children (nd c2 (rc_counter c)) = [((extra_key key, take ?p (drop pl (units c child))), child)]"
        "rc_evictable_size c2 = rc_evictable_size c"
        using split_step [OF st(1) at1 pos child1, of pl now] pl True ns by auto
      have r: "rc_root c2 = rc_root c" "rc_page_size c2 = ?p" using s(3) by (auto simp: rc_frame_def)
      have "path_end c2 L2 pre2 (extra_key key) full (rc_counter c)"
        unfolding path_end_def r
      proof (intro conjI exI [of _ "drop pl (key_iter key)"])
        show "?p dvd length (drop pl (key_iter key))"
          using pl(3) at by (simp add: at_node_def key_fits_def dvd_diff_nat)
        show "drop pl (key_iter key) = [] \<or> map_of (nd_children (nd c2 (rc_counter c))) (extra_key key, take ?p (drop pl (key_iter key))) = None"
          using pl(5,7) True s(11) by auto
      qed (use s Suc.prems(4) in auto)
      moreover have "match_loop (Suc fuel) now node key ck vs c = Inr (vs @ [Some v], rc_counter c, c2)"
        using pos child pl(1) True s(1,9) ns(1) [of child] by (simp add: Let_def)
      moreover have "torch_cat (vs @ [Some v]) = Inr (vals2 (rc_counter c))"
        using torch_cat_snoc [OF Suc.prems(5)] s(10) by simp
      ultimately show ?thesis
        using s(2,4,12) rc_frame_trans [OF st(2) s(3)] st(3)
        by (intro exI [of _ "vs @ [Some v]"] exI [of _ "rc_counter c"] exI [of _ c2] exI [of _ L2] exI [of _ pre2] exI [of _ vals2]) simp
    next
      case F: False
      then have e: "pl = nlen c child" using pl(4) by simp
      note cl = child_lookup [OF t nL(1) child]
      obtain v where v: "nd_value (nd c child) = Some v" "vals child = vals node @ v" "pre child = pre node @ units c child"
        using node_okE [OF t cl(1,2)] cl(3) by (metis option.inject)
      let ?key' = "key_range key pl (key_len key)"
      have kd: "key_drop pl key = Inr ?key'" "key_iter ?key' = drop pl (key_iter key)" "key_len ?key' = key_len key - pl"
        using pl(5) by (simp_all add: key_drop_eq key_iter_drop)
      define ck' where "ck' = (if 0 < key_len ?key' then (extra_key key, take ?p (key_iter ?key')) else ck)"
      have kf: "key_fits c ?key'" using at pl by (simp add: at_node_def key_fits_drop)
      have cke: "(if 0 < key_len ?key' then child_key ?key' (rc_page_size ?c1) else Inr ck) = Inr ck'"
        using child_key_fits [OF t kf] by (simp add: ck'_def)
      have ec: "extra c child = extra_key key" using cl(4) at pos by (simp add: at_node_def edge_key_def)
      have at': "at_node ?c1 L child ?key' ck'"
        using kf cl ec by (simp add: at_node_stat) (simp add: at_node_def ck'_def)
      have full': "pre child @ key_iter ?key' = full"
        using v(3) kd(2) pl(6) e Suc.prems(4) by (metis append.assoc append_take_drop_id length_key_iter take_all_iff order_refl)
      have lt: "key_len ?key' < fuel" using kd(3) Suc.prems(3) pl(2,5) rc_treeD(1) [OF t] by simp
      have cat: "torch_cat (vs @ [Some v]) = Inr (vals child)" using torch_cat_snoc [OF Suc.prems(5)] v(2) by simp
      have step: "match_loop (Suc fuel) now node key ck vs c = match_loop fuel now child ?key' ck' (vs @ [Some v]) ?c1"
        using pos child pl(1) F kd(1) cke v(1) ns(1,2) [of child] by (simp add: Let_def)
      from Suc.IH [OF st(1) at' lt full' cat] obtain vs' node' c' L' pre' vals' where
        "match_loop fuel now child ?key' ck' (vs @ [Some v]) ?c1 = Inr (vs', node', c')"
        "rc_wf c' L' pre' vals'" "rc_frame ?c1 L pre vals c' L' pre' vals'" "stored c' L' pre' vals' = stored ?c1 L pre vals"
        "path_end c' L' pre' (extra_key ?key') full node'" "torch_cat vs' = Inr (vals' node')" "vs' = [] \<longrightarrow> vals' node' = []"
        "rc_evictable_size c' = rc_evictable_size ?c1"
        by blast
      with step st(3) rc_frame_trans [OF st(2)] show ?thesis by (metis key_range_fields(1) upd_node_simps(7))
    qed
  qed
qed simp

section \<open>The insertion loop\<close>

lemma insert_step:
  fixes now prio chunked
  assumes w: "rc_wf c L pre vals" and at: "at_node c L node key ck" and pos: "0 < key_len key"
    and child: "map_of (nd_children (nd c node)) ck = Some child"
    and pl: "rc_page_size c \<le> pl" "rc_page_size c dvd pl" "pl \<le> nlen c child" "take pl (units c child) = take pl (key_iter key)"
  defines "c1 \<equiv> upd_node child (\<lambda>x. x\<lparr>nd_last_access_time := now\<rparr>) c"
    and "g \<equiv> \<lambda>x. inc_hit_count chunked (x\<lparr>nd_priority := max (nd_priority x) prio\<rparr>)"
  shows "\<exists>node3 c3 L3 pre3 vals3.
      (if pl < nlen c child
       then rbind (split_node now (nd_key (nd c child)) child pl c1) (\<lambda>(new, c2). Inr (new, upd_node new g c2))
       else Inr (child, upd_node child g c1)) = Inr (node3, c3)
     \<and> rc_wf c3 L3 pre3 vals3 \<and> rc_frame c L pre vals c3 L3 pre3 vals3
     \<and> stored c3 L3 pre3 vals3 = stored c L pre vals \<and> node3 \<in> L3 \<and> extra c3 node3 = extra_key key
     \<and> pre3 node3 = pre node @ take pl (key_iter key) \<and> rc_evictable_size c3 = rc_evictable_size c"
proof -
  have t: "rc_tree c L pre vals" using w by (simp add: rc_wf_def)
  have nL: "node \<in> L" using at by (auto simp: at_node_def)
  note st = stat_upd_wf [OF w stat_upd_time, of child now, folded c1_def]
    and ns = nd_stat [OF stat_upd_time, of child now c, folded c1_def]
  have su: "stat_upd g" by (simp add: g_def)
  have at1: "at_node c1 L node key ck" using at by (simp add: c1_def at_node_stat)
  have cc: "rc_counter c1 = rc_counter c" "rc_page_size c1 = rc_page_size c"
    "rc_evictable_size c1 = rc_evictable_size c" by (simp_all add: c1_def)
  have child1: "map_of (nd_children (nd c1 node)) ck = Some child" using child ns(3) [of node] by simp
  show ?thesis
  proof (cases "pl < nlen c child")
    case True
    obtain c2 L2 pre2 vals2 v where s: "split_node now (nd_key (nd c child)) child pl c1 = Inr (rc_counter c, c2)"
      "rc_wf c2 L2 pre2 vals2" "rc_frame c1 L pre vals c2 L2 pre2 vals2" "stored c2 L2 pre2 vals2 = stored c1 L pre vals"
      "rc_counter c \<in> L2" "extra c2 (rc_counter c) = extra_key key"
      "pre2 (rc_counter c) = pre node @ take pl (key_iter key)" "rc_evictable_size c2 = rc_evictable_size c"
      using split_step [OF st(1) at1 pos child1, of pl now] pl True ns cc by auto
    note st2 = stat_upd_wf [OF s(2) su, of "rc_counter c"]
    have "extra (upd_node (rc_counter c) g c2) (rc_counter c) = extra_key key"
      using s(6) nd_stat(1) [OF su, of "rc_counter c" c2 "rc_counter c"] by simp
    then show ?thesis
      using st2 s(1,4,5,7,8) st(3) rc_frame_trans [OF rc_frame_trans [OF st(2) s(3)] st2(2)] True
      by (intro exI [of _ "rc_counter c"] exI [of _ "upd_node (rc_counter c) g c2"] exI [of _ L2] exI [of _ pre2] exI [of _ vals2]) simp
  next
    case F: False
    then have e: "pl = nlen c child" using pl(3) by simp
    note cl = child_lookup [OF t nL child]
    have pc: "pre child = pre node @ units c child" using node_okE [OF t cl(1,2)] cl(3) by (metis option.inject)
    note st2 = stat_upd_wf [OF st(1) su, of child]
    have "extra (upd_node child g c1) child = extra_key key"
      using cl(4) at pos nd_stat(1) [OF su, of child c1 child] ns(1) [of child]
      by (simp add: at_node_def edge_key_def)
    moreover have "pre child = pre node @ take pl (key_iter key)"
      using pc pl(4) e by (metis length_key_iter take_all_iff order_refl)
    ultimately show ?thesis
      using st2 st(3) cl(1) rc_frame_trans [OF st(2) st2(2)] F cc(3)
      by (intro exI [of _ child] exI [of _ "upd_node child g c1"] exI [of _ L] exI [of _ pre] exI [of _ vals]) simp
  qed
qed

lemma insert_loop_spec:
  assumes "rc_wf c L pre vals" "at_node c L node key ck" "key_len key < fuel"
    "pre node @ key_iter key = full" "tot = length (pre node)" "v = drop tot v0"
  shows "\<exists>node' key' ck' c' L' pre' vals'.
       insert_loop fuel now prio chunked node key v ck tot c
         = Inr (node', key', drop (length (pre' node')) v0, ck', length (pre' node'), c')
     \<and> rc_wf c' L' pre' vals' \<and> rc_frame c L pre vals c' L' pre' vals' \<and> stored c' L' pre' vals' = stored c L pre vals
     \<and> at_node c' L' node' key' ck' \<and> pre' node' @ key_iter key' = full
     \<and> (key_len key' = 0 \<or> map_of (nd_children (nd c' node')) ck' = None)
     \<and> extra_key key' = extra_key key \<and> (toks_ok key \<longrightarrow> toks_ok key')
     \<and> rc_evictable_size c' = rc_evictable_size c"
  using assms
proof (induction fuel arbitrary: c L pre vals node key ck tot v)
  case (Suc fuel)
  note w = Suc.prems(1) and at = Suc.prems(2)
  have t: "rc_tree c L pre vals" using w by (simp add: rc_wf_def)
  have nL: "node \<in> L" using at by (auto simp: at_node_def)
  let ?p = "rc_page_size c"
  show ?case
  proof (cases "key_len key = 0 \<or> map_of (nd_children (nd c node)) ck = None")
    case True
    then have "insert_loop (Suc fuel) now prio chunked node key v ck tot c = Inr (node, key, v, ck, tot, c)" by auto
    with w at True Suc.prems(4-6) show ?thesis
      by (intro exI [of _ node] exI [of _ key] exI [of _ ck] exI [of _ c] exI [of _ L] exI [of _ pre] exI [of _ vals]) simp
  next
    case False
    then obtain child where pos: "0 < key_len key" and child: "map_of (nd_children (nd c node)) ck = Some child" by auto
    let ?f = "\<lambda>x. x\<lparr>nd_last_access_time := now\<rparr>" let ?c1 = "upd_node child ?f c"
    let ?g = "\<lambda>x. inc_hit_count chunked (x\<lparr>nd_priority := max (nd_priority x) prio\<rparr>)"
    note ns = nd_stat [OF stat_upd_time, of child now c]
    obtain pl where pl: "key_match (nd_key (nd c child)) key ?p = Inr pl" "?p \<le> pl" "?p dvd pl" "pl \<le> nlen c child" "pl \<le> key_len key"
      "take pl (units c child) = take pl (key_iter key)"
      using descend [OF t at pos child] by blast
    let ?key' = "key_range key pl (key_len key)"
    have kd: "key_drop pl key = Inr ?key'" "key_iter ?key' = drop pl (key_iter key)" "key_len ?key' = key_len key - pl"
      using pl(5) by (simp_all add: key_drop_eq key_iter_drop)
    have kf: "key_fits c ?key'" using at pl by (simp add: at_node_def key_fits_drop)
    define ck' where "ck' = (if 0 < key_len ?key' then (extra_key key, take ?p (key_iter ?key')) else ck)"
    define r3 where "r3 = (if pl < nlen c child
        then rbind (split_node now (nd_key (nd c child)) child pl ?c1) (\<lambda>(new, c2). Inr (new, upd_node new ?g c2))
        else Inr (child, upd_node child ?g ?c1))"
    have "\<exists>node3 c3 L3 pre3 vals3. r3 = Inr (node3, c3) \<and> rc_wf c3 L3 pre3 vals3 \<and> rc_frame c L pre vals c3 L3 pre3 vals3
        \<and> stored c3 L3 pre3 vals3 = stored c L pre vals \<and> node3 \<in> L3 \<and> extra c3 node3 = extra_key key
        \<and> pre3 node3 = pre node @ take pl (key_iter key) \<and> rc_evictable_size c3 = rc_evictable_size c"
      unfolding r3_def using insert_step [OF w at pos child pl(2,3,4,6)] .
    then obtain node3 c3 L3 pre3 vals3 where r: "r3 = Inr (node3, c3)" "rc_wf c3 L3 pre3 vals3"
      "rc_frame c L pre vals c3 L3 pre3 vals3" "stored c3 L3 pre3 vals3 = stored c L pre vals" "node3 \<in> L3"
      "extra c3 node3 = extra_key key" "pre3 node3 = pre node @ take pl (key_iter key)"
      "rc_evictable_size c3 = rc_evictable_size c" by blast
    have fr: "rc_page_size c3 = ?p" "rc_is_eagle c3 = rc_is_eagle c" using r(3) by (auto simp: rc_frame_def)
    have t3: "rc_tree c3 L3 pre3 vals3" using r(2) by (simp add: rc_wf_def)
    have kf3: "key_fits c3 ?key'" using kf fr by (simp add: key_fits_def)
    have cke: "(if 0 < key_len ?key' then child_key ?key' (rc_page_size c3) else Inr ck) = Inr ck'"
      using child_key_fits [OF t3 kf3] fr by (simp add: ck'_def)
    have at3: "at_node c3 L3 node3 ?key' ck'"
      using kf3 r(5,6) fr by (simp add: at_node_def ck'_def)
    have lt: "key_len ?key' < fuel" using kd(3) Suc.prems(3) pl(2,5) rc_treeD(1) [OF t] by simp
    have full3: "pre3 node3 @ key_iter ?key' = full" using r(7) kd(2) Suc.prems(4) by simp
    have tot3: "tot + pl = length (pre3 node3)" using r(7) Suc.prems(5) pl(5) by simp
    have v3: "drop pl v = drop (tot + pl) v0" using Suc.prems(6) by (simp add: add.commute)
    have "insert_loop (Suc fuel) now prio chunked node key v ck tot c
        = rbind r3 (\<lambda>(node', c3). rbind (if 0 < key_len ?key' then child_key ?key' (rc_page_size c3) else Inr ck)
            (\<lambda>ck'. insert_loop fuel now prio chunked node' ?key' (drop pl v) ck' (tot + pl) c3))"
      using pos child pl(1) kd(1) ns(1) [of child] unfolding r3_def insert_loop.simps Let_def
      by (simp del: insert_loop.simps)
    also have "\<dots> = insert_loop fuel now prio chunked node3 ?key' (drop pl v) ck' (tot + pl) c3"
      unfolding r(1) rbind_simps prod.case cke ..
    finally have step: "insert_loop (Suc fuel) now prio chunked node key v ck tot c
        = insert_loop fuel now prio chunked node3 ?key' (drop pl v) ck' (tot + pl) c3" .
    have tk: "toks_ok key \<longrightarrow> toks_ok ?key'" by simp
    from Suc.IH [OF r(2) at3 lt full3 tot3 v3] obtain node' key'' ck'' c' L' pre' vals' where
      i: "insert_loop fuel now prio chunked node3 ?key' (drop pl v) ck' (tot + pl) c3
         = Inr (node', key'', drop (length (pre' node')) v0, ck'', length (pre' node'), c')"
      "rc_wf c' L' pre' vals'" "rc_frame c3 L3 pre3 vals3 c' L' pre' vals'" "stored c' L' pre' vals' = stored c3 L3 pre3 vals3"
      "at_node c' L' node' key'' ck''" "pre' node' @ key_iter key'' = full"
      "key_len key'' = 0 \<or> map_of (nd_children (nd c' node')) ck'' = None"
      "extra_key key'' = extra_key ?key'" "toks_ok ?key' \<longrightarrow> toks_ok key''"
      "rc_evictable_size c' = rc_evictable_size c3" by blast
    show ?thesis
      unfolding step
      by (intro exI [of _ node'] exI [of _ key''] exI [of _ ck''] exI [of _ c'] exI [of _ L'] exI [of _ pre'] exI [of _ vals'])
        (use i r(4,8) rc_frame_trans [OF r(3) i(3)] tk in simp)
  qed
qed simp

end
