(* ===== verification/Radix_Insert.thy ===== *)
theory Radix_Insert
  imports Radix_Lookup
begin

text \<open>
  The last step of an insertion, the new leaf, with its store events; and the specifications of
  \<open>match_prefix\<close> and \<open>insert\<close> as a whole.
\<close>

section \<open>Store events\<close>

lemma store_events_ok:
  assumes "0 < p" "length hs * p = key_len k" "\<forall>h\<in>set hs. is_digest h"
    and "start = i * p" "key_len k - start < fuel"
  shows "\<exists>evs. store_events fuel k p hs med start i parent = Inr evs \<and> length evs = length hs - i"
  using assms(4,5)
proof (induction fuel arbitrary: start i parent)
  case (Suc fuel)
  show ?case
  proof (cases "start < key_len k")
    case True
    then have i: "i < length hs" using Suc.prems(1) assms(1,2) by (metis mult_less_cancel2)
    then obtain b where b: "hash_str_to_int64 (hs ! i) = Inr b"
      using hash_str_to_int64_digest assms(3) by force
    have "key_len k - (start + p) < fuel" using Suc.prems(2) True assms(1) by linarith
    then obtain evs where "store_events fuel k p hs med (start + p) (i + 1) (Some b) = Inr evs" "length evs = length hs - (i + 1)"
      using Suc.IH [of "start + p" "i + 1"] Suc.prems(1) by auto
    with True i b show ?thesis by (simp add: Let_def)
  next
    case False
    then have "length hs \<le> i" using Suc.prems(1) assms(1,2) by (metis mult_less_cancel2 not_le)
    with False show ?thesis by simp
  qed
qed simp

definition set_hash :: "nat \<Rightarrow> string list \<Rightarrow> kv_event list \<Rightarrow> rcache \<Rightarrow> rcache" where
  "set_hash n hs evs c =
     (upd_node n (\<lambda>x. x\<lparr>nd_hash_value := Some hs\<rparr>) c)\<lparr>rc_kv_event_queue := rc_kv_event_queue c @ evs\<rparr>"

lemma record_store_event_ok:
  assumes t: "rc_tree c L pre vals" and n: "n \<in> L" "nd_parent (nd c n) = Some m" "nd_hash_value (nd c n) = None"
    and en: "rc_enable_kv_cache_events c" and sha: "sha_ok sha" and tk: "toks_ok (nd_key (nd c n))"
    and hm: "m \<noteq> rc_root c \<Longrightarrow> \<exists>hs. nd_hash_value (nd c m) = Some hs \<and> (\<forall>h\<in>set hs. is_digest h)"
  shows "\<exists>hs evs. record_store_event sha n med c = Inr (set_hash n hs evs c)
     \<and> length hs * rc_page_size c = nlen c n \<and> (\<forall>h\<in>set hs. is_digest h) \<and> length evs = length hs"
proof -
  let ?p = "rc_page_size c" and ?k = "nd_key (nd c n)"
  have p0: "0 < ?p" by (rule rc_treeD(1) [OF t])
  note pn = pre_parent [OF t n(1,2)]
  have mn: "m \<noteq> n" using pn(3,4) by auto
  define ph where "ph = (case nd_hash_value (nd c m) of None \<Rightarrow> None
      | Some hs \<Rightarrow> if 0 < nlen c m \<and> hs \<noteq> [] then Some (last hs) else None)"
  have "ph = None \<or> (\<exists>h. ph = Some h \<and> is_digest h)"
  proof (cases "m = rc_root c")
    case True
    then have "nlen c m = 0" using rc_treeD(4) [OF t] by (simp add: root_ok_def)
    then show ?thesis by (simp add: ph_def split: option.split)
  next
    case False
    from hm [OF this] obtain gs where gs: "nd_hash_value (nd c m) = Some gs" "\<forall>h\<in>set gs. is_digest h" by blast
    then show ?thesis by (cases "0 < nlen c m \<and> gs \<noteq> []") (auto simp: ph_def)
  qed
  then obtain hs where hs: "hash_pages (Suc (key_len ?k)) sha ?k ?p 0 ph = Inr hs" "\<forall>h\<in>set hs. is_digest h"
      "length hs * ?p = key_len ?k"
    using hash_pages_ok [OF sha tk p0 pn(10), of 0 "Suc (key_len ?k)" ph] by auto
  define c1 where "c1 = upd_node n (\<lambda>x. x\<lparr>nd_hash_value := Some hs\<rparr>) c"
  have e1: "ensure_hash_value sha n c = Inr c1"
    using n(2,3) hs(1) by (simp add: ensure_hash_value_def compute_node_hash_values_def ph_def c1_def Let_def)
  obtain ph2 where e2: "parent_event_hash n c1 = Inr ph2"
  proof (cases "m = rc_root c")
    case True
    then show ?thesis using that n(2) by (simp add: parent_event_hash_def c1_def)
  next
    case False
    then obtain gs where gs: "nd_hash_value (nd c m) = Some gs" "\<forall>h\<in>set gs. is_digest h" using hm by blast
    show ?thesis
    proof (cases "gs = []")
      case True
      then show ?thesis using that False n(2) gs(1) mn by (simp add: parent_event_hash_def c1_def)
    next
      case F: False
      then obtain b where "hash_str_to_int64 (last gs) = Inr b" using hash_str_to_int64_digest gs(2) by force
      then show ?thesis using that F False n(2) gs(1) mn by (simp add: parent_event_hash_def c1_def)
    qed
  qed
  define md where "md = (case med of None \<Rightarrow> GPU | Some m \<Rightarrow> m)"
  obtain evs where ev: "store_events (Suc (key_len ?k)) ?k ?p hs md 0 0 ph2 = Inr evs" "length evs = length hs"
    using store_events_ok [OF p0 hs(3,2), of 0 0 "Suc (key_len ?k)" md ph2] by auto
  have "record_store_event sha n med c = Inr (set_hash n hs evs c)"
    using en e1 e2 ev(1)
    by (simp add: record_store_event_def Let_def md_def [symmetric] del: store_events.simps)
      (simp add: c1_def set_hash_def del: store_events.simps)
  with hs ev(2) show ?thesis by blast
qed

section \<open>The new leaf\<close>

definition is_leaf_add :: "rcache \<Rightarrow> nat \<Rightarrow> radix_key \<Rightarrow> int list \<Rightarrow> ckey \<Rightarrow> rcache \<Rightarrow> bool" where
  "is_leaf_add c m k v ck c' \<longleftrightarrow>
     (let new = rc_counter c in
       rc_page_size c' = rc_page_size c \<and> rc_is_eagle c' = rc_is_eagle c \<and> rc_root c' = rc_root c
     \<and> rc_counter c' = Suc new \<and> rc_disable c' = rc_disable c
     \<and> rc_disable_finished_insert c' = rc_disable_finished_insert c
     \<and> rc_enable_kv_cache_events c' = rc_enable_kv_cache_events c \<and> rc_strategy c' = rc_strategy c
     \<and> rc_allocator c' = rc_allocator c \<and> rc_protected_size c' = rc_protected_size c
     \<and> rc_evictable_size c' = rc_evictable_size c + int (key_len k)
     \<and> rc_evictable_leaves c' = insert new (rc_evictable_leaves c - {m})
     \<and> nd_children (nd c' new) = [] \<and> nd_parent (nd c' new) = Some m \<and> nd_key (nd c' new) = k
     \<and> nd_value (nd c' new) = Some v \<and> lock c' new = 0 \<and> nd_hash_value (nd c' new) = None
     \<and> nd c' m = (nd c m)\<lparr>nd_children := nd_children (nd c m) @ [(ck, new)]\<rparr>
     \<and> (\<forall>x. x \<noteq> new \<longrightarrow> x \<noteq> m \<longrightarrow> nd c' x = nd c x))"

lemmas is_leaf_addD = is_leaf_add_def [THEN iffD1, unfolded Let_def]

lemma leaf_add_is_leaf_add:
  fixes c m k v ck now prio chunked
  assumes t: "rc_tree c L pre vals" and m: "m \<in> L" and no: "map_of (nd_children (nd c m)) ck = None"
  defines "new \<equiv> fst (new_tree_node now prio c)" and "c2 \<equiv> snd (new_tree_node now prio c)"
  defines "c3 \<equiv> upd_node new (\<lambda>x. inc_hit_count chunked (x\<lparr>nd_parent := Some m, nd_key := k, nd_value := Some v\<rparr>)) c2"
  defines "c4 \<equiv> upd_node m (\<lambda>x. x\<lparr>nd_children := AList.update ck new (nd_children x)\<rparr>) c3"
  defines "c5 \<equiv> c4\<lparr>rc_evictable_size := rc_evictable_size c4 + int (key_len k)\<rparr>"
  shows "is_leaf_add c m k v ck (update_leaf_status new (update_leaf_status m c5))"
proof -
  have nm: "m \<noteq> rc_counter c" using rc_treeD(7) [OF t m] by simp
  have new: "new = rc_counter c" by (simp add: new_def new_tree_node_def)
  have fresh: "ck \<notin> set (dict_keys (nd_children (nd c m)))" using no by (simp add: map_of_eq_None_iff)
  have n4: "nd c4 new = inc_hit_count chunked ((tree_node_init now prio)\<lparr>nd_parent := Some m, nd_key := k, nd_value := Some v\<rparr>)"
    "nd c4 m = (nd c m)\<lparr>nd_children := nd_children (nd c m) @ [(ck, new)]\<rparr>"
    "\<forall>x. x \<noteq> new \<longrightarrow> x \<noteq> m \<longrightarrow> nd c4 x = nd c x"
    using nm update_new [OF fresh, of "rc_counter c"]
    by (simp_all add: c4_def c3_def c2_def new new_tree_node_def)
  have heap5: "nd c5 x = nd c4 x" for x by (simp add: c5_def)
  have ex: "list_ex (\<lambda>(_, child). \<not> evicted (nd c5 child)) (nd_children (nd c5 m))"
    using n4 by (simp add: heap5 evicted_def inc_hit_count_def)
  have l5: "update_leaf_status m c5 = c5\<lparr>rc_evictable_leaves := rc_evictable_leaves c5 - {m}\<rparr>"
    using ex by (simp add: update_leaf_status_def)
  have l6: "update_leaf_status new (update_leaf_status m c5)
      = c5\<lparr>rc_evictable_leaves := insert new (rc_evictable_leaves c5 - {m})\<rparr>"
    unfolding l5 using n4(1)
    by (simp add: update_leaf_status_def heap5 evicted_def inc_hit_count_def tree_node_init_def)
  have r5: "rc_page_size c5 = rc_page_size c" "rc_is_eagle c5 = rc_is_eagle c" "rc_root c5 = rc_root c"
    "rc_counter c5 = Suc (rc_counter c)" "rc_disable c5 = rc_disable c"
    "rc_disable_finished_insert c5 = rc_disable_finished_insert c"
    "rc_enable_kv_cache_events c5 = rc_enable_kv_cache_events c" "rc_strategy c5 = rc_strategy c"
    "rc_allocator c5 = rc_allocator c" "rc_protected_size c5 = rc_protected_size c"
    "rc_evictable_size c5 = rc_evictable_size c + int (key_len k)" "rc_evictable_leaves c5 = rc_evictable_leaves c"
    by (simp_all add: c5_def c4_def c3_def c2_def new_tree_node_def)
  show ?thesis
    unfolding is_leaf_add_def Let_def l6
    using n4 nm by (simp add: r5 heap5 new inc_hit_count_def tree_node_init_def)
qed

lemma leaf_add_facts:
  assumes t: "rc_tree c L pre vals" and m: "m \<in> L" and la: "is_leaf_add c m k v ck c'"
  shows "rc_counter c \<notin> L" "m \<noteq> rc_counter c" "rc_root c \<noteq> rc_counter c"
    and "x \<noteq> rc_counter c \<Longrightarrow> nd_parent (nd c' x) = nd_parent (nd c x) \<and> nd_value (nd c' x) = nd_value (nd c x)
          \<and> nd_key (nd c' x) = nd_key (nd c x) \<and> lock c' x = lock c x \<and> nd_hash_value (nd c' x) = nd_hash_value (nd c x)"
    and "x \<noteq> m \<Longrightarrow> x \<noteq> rc_counter c \<Longrightarrow> nd_children (nd c' x) = nd_children (nd c x)"
proof -
  note d = is_leaf_addD [OF la]
  show fr: "rc_counter c \<notin> L" using rc_treeD(7) [OF t] by blast
  show "m \<noteq> rc_counter c" "rc_root c \<noteq> rc_counter c" using fr m rc_treeD(3) [OF t] by auto
  show "nd_parent (nd c' x) = nd_parent (nd c x) \<and> nd_value (nd c' x) = nd_value (nd c x)
          \<and> nd_key (nd c' x) = nd_key (nd c x) \<and> lock c' x = lock c x \<and> nd_hash_value (nd c' x) = nd_hash_value (nd c x)"
    if "x \<noteq> rc_counter c" using d that by (cases "x = m") simp_all
  show "nd_children (nd c' x) = nd_children (nd c x)" if "x \<noteq> m" "x \<noteq> rc_counter c" using d that by simp
qed

lemma rc_tree_leaf_add:
  assumes t: "rc_tree c L pre vals" and at: "at_node c L m k ck" "0 < key_len k"
    and no: "map_of (nd_children (nd c m)) ck = None" and v: "length v = key_len k" and la: "is_leaf_add c m k v ck c'"
  defines "L' \<equiv> insert (rc_counter c) L" and "pre' \<equiv> pre(rc_counter c := pre m @ key_iter k)"
    and "vals' \<equiv> vals(rc_counter c := vals m @ v)"
  shows "rc_tree c' L' pre' vals'"
proof -
  let ?new = "rc_counter c"
  have m: "m \<in> L" using at by (simp add: at_node_def)
  note d = is_leaf_addD [OF la] and f = leaf_add_facts [OF t m la]
  have ck: "ck = (extra_key k, take (rc_page_size c) (key_iter k))" using at by (simp add: at_node_def)
  have ekn: "edge_key c' ?new = ck" using d ck by (simp add: edge_key_def)
  have ek: "edge_key c' x = edge_key c x" if "x \<noteq> ?new" for x using d f(4) [OF that] by (simp add: edge_key_def)
  have old: "pre' x = pre x" "vals' x = vals x" if "x \<in> L" for x using that f(1) by (auto simp: pre'_def vals'_def)
  have ne: "x \<noteq> ?new" if "x \<in> L" for x using that f(1) by auto
  have fresh: "ck \<notin> set (dict_keys (nd_children (nd c m)))" using no by (simp add: map_of_eq_None_iff)
  have dm: "distinct (dict_keys (nd_children (nd c m)))" using rc_treeD(8) [OF t m] by (simp add: children_ok_def)
  have cm: "nd_children (nd c' m) = nd_children (nd c m) @ [(ck, ?new)]" using d by simp
  have sub: "map_of (nd_children (nd c' y)) q = Some x" if "map_of (nd_children (nd c y)) q = Some x" "y \<in> L" for y q x
    using that cm f(5) [of y] ne [OF that(2)] by (cases "y = m") (simp_all add: map_add_Some_iff)
  have "node_ok c' L' pre' vals' ?new"
    unfolding node_ok_def
  proof (intro conjI exI [of _ m] exI [of _ v])
    show "map_of (nd_children (nd c' m)) (edge_key c' ?new) = Some ?new"
      using cm ekn no by (simp add: map_add_Some_iff map_of_eq_None_iff)
    show "m \<noteq> rc_root c' \<longrightarrow> extra c' m = extra c' ?new" using d f(4) [OF f(2)] at by (simp add: at_node_def)
  qed (use d at v m old [OF m] in \<open>simp_all add: L'_def pre'_def vals'_def at_node_def key_fits_def\<close>)
  moreover have "node_ok c' L' pre' vals' x" if x: "x \<in> L" "x \<noteq> rc_root c" for x
  proof -
    obtain y u where y: "nd_parent (nd c x) = Some y" "y \<in> L"
      "map_of (nd_children (nd c y)) (edge_key c x) = Some x"
      "nd_value (nd c x) = Some u" "length u = nlen c x" "pre x = pre y @ units c x" "vals x = vals y @ u"
      "y \<noteq> rc_root c \<longrightarrow> extra c y = extra c x" "0 < nlen c x" "rc_page_size c dvd nlen c x"
      "is_bigram (nd_key (nd c x)) = rc_is_eagle c"
      by (rule node_okE [OF t x])
    show ?thesis unfolding node_ok_def
      by (intro conjI exI [of _ y] exI [of _ u])
        (use d f(4) [OF ne [OF x(1)]] f(4) [OF ne [OF y(2)]] y old [OF y(2)] old [OF x(1)] sub [OF y(3,2)] ek [OF ne [OF x(1)]]
          in \<open>simp_all add: L'_def\<close>)
  qed
  ultimately have nodes: "\<forall>x\<in>L' - {rc_root c'}. node_ok c' L' pre' vals' x" using d by (auto simp: L'_def)
  have kid: "y \<in> L' - {rc_root c'} \<and> nd_parent (nd c' y) = Some x \<and> q = edge_key c' y"
    if "x \<in> L" "(q, y) \<in> set (nd_children (nd c x))" for x q y
  proof -
    have h: "y \<in> L" "y \<noteq> rc_root c" "nd_parent (nd c y) = Some x" "q = edge_key c y"
      using rc_treeD(8) [OF t that(1)] that(2) by (auto simp: children_ok_def)
    then show ?thesis using f(4) [OF ne [OF h(1)]] ek [OF ne [OF h(1)]] d by (simp add: L'_def)
  qed
  have "children_ok c' L' ?new" using d by (simp add: children_ok_def)
  moreover have "children_ok c' L' m"
    unfolding children_ok_def cm using kid [OF m] dm fresh d ekn f(3) by (auto simp: L'_def)
  moreover have "children_ok c' L' x" if "x \<in> L" "x \<noteq> m" for x
    using rc_treeD(8) [OF t that(1)] kid [OF that(1)] f(5) [OF that(2) ne [OF that(1)]] by (auto simp: children_ok_def)
  ultimately have "\<forall>x\<in>L'. children_ok c' L' x" by (auto simp: L'_def)
  moreover have "root_ok c'" using f(4) [OF f(3)] d rc_treeD(4) [OF t] by (simp add: root_ok_def)
  moreover have "\<forall>x\<in>L'. x < rc_counter c'" using d rc_treeD(7) [OF t] by (simp add: L'_def less_SucI)
  ultimately show ?thesis
    using nodes rc_treeD(1-6) [OF t] d f(3) by (simp add: rc_tree_def) (simp add: L'_def pre'_def vals'_def)
qed

lemma rc_acct_leaf_add:
  assumes t: "rc_tree c L pre vals" and m: "m \<in> L" and la: "is_leaf_add c m k v ck c'" and a: "rc_acct c L"
  shows "rc_acct c' (insert (rc_counter c) L)" and "x \<in> L \<Longrightarrow> held c' (insert (rc_counter c) L) x = held c L x"
proof -
  let ?new = "rc_counter c" and ?L = "insert (rc_counter c) L" and ?r = "rc_root c"
  note d = is_leaf_addD [OF la] and f = leaf_add_facts [OF t m la]
  have ne: "x \<noteq> ?new" if "x \<in> L" for x using that f(1) by auto
  have same: "nd_parent (nd c' x) = nd_parent (nd c x)" "lock c' x = lock c x" "nlen c' x = nlen c x" if "x \<in> L" for x
    using f(4) [OF ne [OF that]] by simp_all
  have nopar: "nd_parent (nd c x) \<noteq> Some ?new" if "x \<in> L" for x using pre_parent(2) [OF t that] f(1) by auto
  have pnew: "nd_parent (nd c' ?new) = Some m" using d by simp
  have kn: "kids c' ?L ?new = {}" using pnew f(2) same(1) nopar by (auto simp: kids_def)
  have ks: "(\<Sum>y\<in>kids c' ?L x. lock c' y) = (\<Sum>y\<in>kids c L x. lock c y)" if "x \<in> L" for x
  proof -
    have fin: "finite (kids c L x)" by (rule finite_kids [OF t])
    have "kids c' ?L x = (if x = m then insert ?new (kids c L x) else kids c L x)"
      using pnew same(1) f(1) by (auto simp: kids_def)
    moreover have nk: "?new \<notin> kids c L x" using f(1) by (simp add: kids_def)
    moreover have "(\<Sum>y\<in>kids c L x. lock c' y) = (\<Sum>y\<in>kids c L x. lock c y)"
      by (rule sum.cong) (auto simp: kids_def same)
    moreover have "(\<Sum>y\<in>insert ?new (kids c L x). lock c' y) = (\<Sum>y\<in>kids c L x. lock c' y)"
      using sum.insert [OF fin nk, of "lock c'"] d by simp
    ultimately show ?thesis by (cases "x = m") simp_all
  qed
  show hd: "held c' ?L x = held c L x" if "x \<in> L" for x using ks [OF that] same(2) [OF that] by (simp add: held_def)
  have hn: "held c' ?L ?new = 0" using kn d by (simp add: held_def)
  have fin: "finite (L - {?r})" using rc_treeD(2) [OF t] by simp
  have sz: "size_if c' ?L P = (if P 0 then int (key_len k) else 0) + size_if c L P" for P
  proof -
    have "?L - {rc_root c'} = insert ?new (L - {?r})" using d f(3) by auto
    then have "size_if c' ?L P = (if P 0 then int (key_len k) else 0)
        + (\<Sum>x\<in>L - {?r}. if P (lock c' x) then int (nlen c' x) else 0)"
      unfolding size_if_def using fin f(1) d by simp
    also have "(\<Sum>x\<in>L - {?r}. if P (lock c' x) then int (nlen c' x) else 0) = size_if c L P"
      unfolding size_if_def by (rule sum.cong) (auto simp: same)
    finally show ?thesis .
  qed
  have "x \<in> free_leaves c' ?L \<longleftrightarrow> x \<in> insert ?new (free_leaves c L - {m})" for x
  proof (cases "x \<in> L")
    case True
    then show ?thesis using d same [OF True] f(5) [OF _ ne [OF True]] ne [OF True] by (cases "x = m") (auto simp: free_leaves_def)
  next
    case False
    then show ?thesis using d f(3) by (auto simp: free_leaves_def)
  qed
  then have fl: "free_leaves c' ?L = insert ?new (free_leaves c L - {m})" by blast
  have "\<forall>x\<in>?L - {?r}. 0 \<le> lock c' x \<and> 0 \<le> held c' ?L x"
  proof
    fix x assume "x \<in> ?L - {?r}"
    then consider "x = ?new" | "x \<in> L" "x \<noteq> ?r" by auto
    then show "0 \<le> lock c' x \<and> 0 \<le> held c' ?L x"
      by cases (use a hd hn same(2) d in \<open>simp_all add: rc_acct_def\<close>)
  qed
  then show "rc_acct c' ?L"
    using a d sz fl f(4) [OF f(3)] by (simp add: rc_acct_def)
qed

definition prefixes_of :: "nat \<Rightarrow> string option \<Rightarrow> int list list \<Rightarrow> int list \<Rightarrow> (string option \<times> int list list \<times> int list) set" where
  "prefixes_of p ek us vs = {(ek, take j us, take j vs) | j. 0 < j \<and> j \<le> length us \<and> p dvd j}"

lemma stored_leaf_add:
  assumes t: "rc_tree c L pre vals" and m: "m \<in> L" and la: "is_leaf_add c m k v ck c'"
  defines "L' \<equiv> insert (rc_counter c) L" and "pre' \<equiv> pre(rc_counter c := pre m @ key_iter k)"
    and "vals' \<equiv> vals(rc_counter c := vals m @ v)"
  shows "stored c' L' pre' vals' = stored c L pre vals \<union> prefixes_of (rc_page_size c) (extra_key k) (pre m @ key_iter k) (vals m @ v)"
proof -
  let ?new = "rc_counter c"
  note d = is_leaf_addD [OF la] and f = leaf_add_facts [OF t m la]
  have dr: "rc_root c' = rc_root c" "rc_page_size c' = rc_page_size c" "extra c' ?new = extra_key k" using d by simp_all
  have old: "extra c' x = extra c x" "pre' x = pre x" "vals' x = vals x" if "x \<in> L" for x
  proof -
    have "x \<noteq> ?new" using that f(1) by auto
    with f(4) [OF this] show "extra c' x = extra c x" "pre' x = pre x" "vals' x = vals x" by (simp_all add: pre'_def vals'_def)
  qed
  have nw: "pre' ?new = pre m @ key_iter k" "vals' ?new = vals m @ v" by (simp_all add: pre'_def vals'_def)
  show ?thesis
  proof (intro set_eqI iffI)
    fix e assume "e \<in> stored c' L' pre' vals'"
    then obtain x j where x: "x \<in> L'" "x \<noteq> rc_root c'" "0 < j" "j \<le> length (pre' x)" "rc_page_size c' dvd j"
      "e = (extra c' x, take j (pre' x), take j (vals' x))" by (rule storedE)
    show "e \<in> stored c L pre vals \<union> prefixes_of (rc_page_size c) (extra_key k) (pre m @ key_iter k) (vals m @ v)"
    proof (cases "x = ?new")
      case True
      have "e \<in> prefixes_of (rc_page_size c) (extra_key k) (pre m @ key_iter k) (vals m @ v)"
        unfolding prefixes_of_def using x(3-6) unfolding True nw dr by blast
      then show ?thesis ..
    next
      case False
      then have xL: "x \<in> L" using x(1) by (simp add: L'_def)
      have "e \<in> stored c L pre vals" unfolding x(6) old [OF xL] by (rule storedI) (use x dr xL old [OF xL] in simp_all)
      then show ?thesis ..
    qed
  next
    fix e assume "e \<in> stored c L pre vals \<union> prefixes_of (rc_page_size c) (extra_key k) (pre m @ key_iter k) (vals m @ v)"
    then show "e \<in> stored c' L' pre' vals'"
    proof
      assume "e \<in> stored c L pre vals"
      then obtain x j where x: "x \<in> L" "x \<noteq> rc_root c" "0 < j" "j \<le> length (pre x)" "rc_page_size c dvd j"
        "e = (extra c x, take j (pre x), take j (vals x))" by (rule storedE)
      show ?thesis unfolding x(6) old [OF x(1), symmetric]
        by (rule storedI) (use x dr old [OF x(1)] in \<open>simp_all add: L'_def\<close>)
    next
      assume "e \<in> prefixes_of (rc_page_size c) (extra_key k) (pre m @ key_iter k) (vals m @ v)"
      then obtain j where j: "0 < j" "j \<le> length (pre m @ key_iter k)" "rc_page_size c dvd j"
        "e = (extra_key k, take j (pre m @ key_iter k), take j (vals m @ v))" by (auto simp: prefixes_of_def)
      show ?thesis unfolding j(4) nw [symmetric] dr(3) [symmetric]
        by (rule storedI) (use j dr f(3) nw in \<open>simp_all add: L'_def\<close>)
    qed
  qed
qed

section \<open>Content, without ghosts\<close>

inductive node_path :: "rcache \<Rightarrow> nat \<Rightarrow> int list list \<Rightarrow> int list \<Rightarrow> bool" for c where
  path_root: "node_path c (rc_root c) [] []"
| path_child: "node_path c n us vs \<Longrightarrow> (ck, m) \<in> set (nd_children (nd c n)) \<Longrightarrow> nd_value (nd c m) = Some v \<Longrightarrow>
     node_path c m (us @ units c m) (vs @ v)"

definition live :: "rcache \<Rightarrow> nat set" where
  "live c = {n. \<exists>us vs. node_path c n us vs}"

text \<open>The prefixes the cache holds: namespace, units and slots, at every page boundary of every path.\<close>

definition content :: "rcache \<Rightarrow> (string option \<times> int list list \<times> int list) set" where
  "content c = {(extra c n, take k us, take k vs) | n us vs k.
     node_path c n us vs \<and> n \<noteq> rc_root c \<and> 0 < k \<and> k \<le> length us \<and> rc_page_size c dvd k}"

definition rc_inv :: "rcache \<Rightarrow> bool" where
  "rc_inv c \<longleftrightarrow> (\<exists>L pre vals. rc_wf c L pre vals)"

lemma node_path_iff:
  assumes t: "rc_tree c L pre vals"
  shows "node_path c n us vs \<longleftrightarrow> n \<in> L \<and> us = pre n \<and> vs = vals n"
proof
  show "node_path c n us vs \<Longrightarrow> n \<in> L \<and> us = pre n \<and> vs = vals n"
  proof (induction rule: node_path.induct)
    case path_root
    then show ?case using rc_treeD(3,5,6) [OF t] by simp
  next
    case (path_child n us vs ck m v)
    then have h: "m \<in> L" "m \<noteq> rc_root c" "nd_parent (nd c m) = Some n"
      using rc_treeD(8) [OF t, of n] by (auto simp: children_ok_def)
    from node_okE [OF t h(1,2)] h path_child show ?case by (metis option.inject)
  qed
next
  have "n \<in> L \<Longrightarrow> node_path c n (pre n) (vals n)"
  proof (induction "length (pre n)" arbitrary: n rule: less_induct)
    case less
    show ?case
    proof (cases "n = rc_root c")
      case True
      then show ?thesis using rc_treeD(5,6) [OF t] path_root by simp
    next
      case False
      obtain m v where m: "nd_parent (nd c n) = Some m" "m \<in> L" "map_of (nd_children (nd c m)) (edge_key c n) = Some n"
          "nd_value (nd c n) = Some v" "pre n = pre m @ units c n" "vals n = vals m @ v" "0 < nlen c n"
        using node_okE [OF t less.prems False] by metis
      have "node_path c m (pre m) (vals m)" using less.hyps [of m] m by simp
      from path_child [OF this map_of_SomeD [OF m(3)] m(4)] m show ?thesis by simp
    qed
  qed
  then show "n \<in> L \<and> us = pre n \<and> vs = vals n \<Longrightarrow> node_path c n us vs" by simp
qed

lemma live_eq: "rc_tree c L pre vals \<Longrightarrow> live c = L"
  by (auto simp: live_def node_path_iff)

lemma content_eq: "rc_tree c L pre vals \<Longrightarrow> content c = stored c L pre vals"
  unfolding content_def stored_def by (simp add: node_path_iff)

lemma rc_invI: "rc_wf c L pre vals \<Longrightarrow> rc_inv c"
  by (auto simp: rc_inv_def)

definition longest_match :: "(string option \<times> int list list \<times> int list) set \<Rightarrow> string option \<Rightarrow> int list list \<Rightarrow> nat \<Rightarrow> bool" where
  "longest_match M ek us n \<longleftrightarrow> n \<le> length us \<and> (n = 0 \<or> (\<exists>vs. (ek, take n us, vs) \<in> M))
     \<and> (\<forall>j vs. j \<le> length us \<longrightarrow> (ek, take j us, vs) \<in> M \<longrightarrow> j \<le> n)"

lemma path_end_longest:
  assumes t: "rc_tree c L pre vals" and e: "path_end c L pre ek full node"
  shows "longest_match (stored c L pre vals) ek full (length (pre node))"
    and "pre node = take (length (pre node)) full"
    and "pre node \<noteq> [] \<Longrightarrow> (ek, take (length (pre node)) full, vals node) \<in> stored c L pre vals"
proof -
  obtain rest where n: "node \<in> L" "node \<noteq> rc_root c \<longrightarrow> extra c node = ek" "full = pre node @ rest" "rc_page_size c dvd length rest"
    "rest = [] \<or> map_of (nd_children (nd c node)) (ek, take (rc_page_size c) rest) = None"
    using e by (auto simp: path_end_def)
  show pn: "pre node = take (length (pre node)) full" using n(3) by simp
  show st: "(ek, take (length (pre node)) full, vals node) \<in> stored c L pre vals" if "pre node \<noteq> []"
  proof -
    have nr: "node \<noteq> rc_root c" using that pre_Nil_iff [OF t n(1)] by auto
    have "(extra c node, take (length (pre node)) (pre node), take (length (pre node)) (vals node)) \<in> stored c L pre vals"
      by (rule storedI) (use n(1) nr that page_dvd_pre [OF t n(1)] in auto)
    then show ?thesis using n(2) nr pn length_vals [OF t n(1)] by simp
  qed
  have mx: "j \<le> length (pre node)" if "j \<le> length full" "(ek, take j full, vs) \<in> stored c L pre vals" for j vs
  proof -
    from that(2) obtain b k where b: "b \<in> L" "0 < k" "k \<le> length (pre b)" "rc_page_size c dvd k"
      "(ek, take j full, vs) = (extra c b, take k (pre b), take k (vals b))" by (rule storedE)
    then have "j = k" using that(1) by (metis Pair_inject length_take min.absorb2)
    have eb: "extra c b = ek" "take k (pre b) = take k full" using b(5) \<open>j = k\<close> by simp_all
    have "k \<le> length (pre node)"
      by (rule no_child_maximal [OF t n(1) _ n(3-5) b(1) eb(1) b(3,4) _ eb(2)]) (use n(2) that(1) \<open>j = k\<close> in simp_all)
    with \<open>j = k\<close> show ?thesis by simp
  qed
  show "longest_match (stored c L pre vals) ek full (length (pre node))"
    unfolding longest_match_def
  proof (intro conjI allI impI)
    show "length (pre node) \<le> length full" unfolding n(3) by simp
    show "length (pre node) = 0 \<or> (\<exists>vs. (ek, take (length (pre node)) full, vs) \<in> stored c L pre vals)"
      using st by blast
  qed (rule mx)
qed

section \<open>Matching as a whole\<close>

definition key_view :: "rcache \<Rightarrow> radix_key \<Rightarrow> radix_key" where
  "key_view c key = fst (maybe_to_bigram_view (rc_is_eagle c) key None)"

definition aligned_units :: "rcache \<Rightarrow> radix_key \<Rightarrow> int list list" where
  "aligned_units c key = take (page_floor (key_len (key_view c key)) (rc_page_size c)) (key_iter (key_view c key))"

definition key_ok :: "rcache \<Rightarrow> radix_key \<Rightarrow> bool" where
  "key_ok c key \<longleftrightarrow> (is_bigram key \<longrightarrow> rc_is_eagle c)"

lemma key_view_fields:
  "extra_key (key_view c key) = extra_key key" "token_ids (key_view c key) = token_ids key"
  "key_ok c key \<Longrightarrow> is_bigram (key_view c key) = rc_is_eagle c"
  by (auto simp: key_view_def maybe_to_bigram_view_def key_ok_def)

lemma aligned_key:
  assumes "0 < rc_page_size c" "key_ok c key"
  shows "\<exists>k. page_aligned (key_view c key) (rc_page_size c) = Inr k \<and> extra_key k = extra_key key
     \<and> key_iter k = aligned_units c key \<and> key_len k = length (aligned_units c key) \<and> key_fits c k
     \<and> set (token_ids k) \<subseteq> set (token_ids key)"
proof -
  from page_aligned_eq [OF assms(1), of "key_view c key"] obtain k where
    k: "page_aligned (key_view c key) (rc_page_size c) = Inr k" "extra_key k = extra_key key"
      "is_bigram k = rc_is_eagle c" "key_iter k = aligned_units c key"
      "key_len k = page_floor (key_len (key_view c key)) (rc_page_size c)"
    by (auto simp: key_view_fields assms(2) aligned_units_def)
  have "key_len k = length (aligned_units c key)" using k(4) length_key_iter [of k] by simp
  moreover have "key_fits c k" using k(3,5) by (simp add: key_fits_def page_floor_dvd)
  moreover have "set (token_ids k) \<subseteq> set (token_ids key)"
  proof (cases "rc_page_size c = 1")
    case True
    then have "k = key_view c key" using k(1) by (simp add: page_aligned_def)
    then show ?thesis by (simp add: key_view_fields(2))
  next
    case False
    then have "k = key_range (key_view c key) 0 (key_len (key_view c key) div rc_page_size c * rc_page_size c)"
      using k(1) assms(1) by (simp add: page_aligned_def key_take_eq)
    then show ?thesis
      using key_view_fields(2) [of c key] by (auto simp: key_range_def mk_key_def Let_def dest: in_set_takeD split: if_splits)
  qed
  ultimately show ?thesis using k by blast
qed

lemma match_prefix_spec:
  assumes w: "rc_wf c L pre vals" and en: "\<not> rc_disable c" and k: "key_ok c key"
  shows "\<exists>idx node c' L' pre' vals'. match_prefix now key c = Inr (idx, node, c')
     \<and> rc_wf c' L' pre' vals' \<and> rc_frame c L pre vals c' L' pre' vals' \<and> stored c' L' pre' vals' = stored c L pre vals
     \<and> path_end c' L' pre' (extra_key key) (aligned_units c key) node \<and> idx = vals' node
     \<and> rc_evictable_size c' = rc_evictable_size c"
proof -
  have t: "rc_tree c L pre vals" using w by (simp add: rc_wf_def)
  let ?us = "aligned_units c key"
  obtain k2 where k2: "page_aligned (key_view c key) (rc_page_size c) = Inr k2" "extra_key k2 = extra_key key"
    "key_iter k2 = ?us" "key_len k2 = length ?us" "key_fits c k2"
    using aligned_key [OF rc_treeD(1) [OF t] k] by blast
  obtain u where kv: "maybe_to_bigram_view (rc_is_eagle c) key None = (key_view c key, u)"
    by (metis key_view_def prod.collapse)
  show ?thesis
  proof (cases "?us = []")
    case True
    have "match_prefix now key c = Inr ([], rc_root c, c)"
      using True en k2 by (simp add: match_prefix_def kv)
    moreover have "path_end c L pre (extra_key key) ?us (rc_root c)"
      using True rc_treeD(3,5) [OF t] by (simp add: path_end_def)
    ultimately show ?thesis
      by (intro exI [of _ "[]"] exI [of _ "rc_root c"] exI [of _ c] exI [of _ L] exI [of _ pre] exI [of _ vals])
        (use w rc_treeD(6) [OF t] in simp)
  next
    case False
    then have pos: "0 < key_len k2" using k2(4) by simp
    then have pos': "0 < key_len (key_view c key)" using False by (auto simp: aligned_units_def)
    let ?c0 = "upd_node (rc_root c) (\<lambda>x. x\<lparr>nd_last_access_time := now\<rparr>) c"
    note st = stat_upd_wf [OF w stat_upd_time, of "rc_root c" now]
    define ck where "ck = (extra_key key, take (rc_page_size c) ?us)"
    have ck: "child_key k2 (rc_page_size ?c0) = Inr ck"
      using child_key_fits [OF t k2(5) pos] k2 by (simp add: ck_def)
    have at: "at_node ?c0 L (rc_root c) k2 ck"
      using rc_treeD(3) [OF t] k2 by (simp add: at_node_stat) (simp add: at_node_def ck_def)
    have full: "pre (rc_root c) @ key_iter k2 = ?us" using rc_treeD(5) [OF t] k2(3) by simp
    have nil: "torch_cat [] = Inr (vals (rc_root c))" using rc_treeD(6) [OF t] by simp
    obtain vs' node' c' L' pre' vals' where m: "match_loop (Suc (key_len k2)) now (rc_root c) k2 ck [] ?c0 = Inr (vs', node', c')"
      "rc_wf c' L' pre' vals'" "rc_frame ?c0 L pre vals c' L' pre' vals'" "stored c' L' pre' vals' = stored ?c0 L pre vals"
      "path_end c' L' pre' (extra_key k2) ?us node'" "torch_cat vs' = Inr (vals' node')" "vs' = [] \<longrightarrow> vals' node' = []"
      "rc_evictable_size c' = rc_evictable_size ?c0"
      using match_loop_spec [OF st(1) at _ full nil, of "Suc (key_len k2)" now] by blast
    have "match_prefix now key c = Inr (vals' node', node', c')"
      using en k2(1) pos pos' ck m(1,6,7) by (auto simp: match_prefix_def kv match_prefix_helper_def Let_def simp del: match_loop.simps)
    then show ?thesis
      by (intro exI [of _ "vals' node'"] exI [of _ node'] exI [of _ c'] exI [of _ L'] exI [of _ pre'] exI [of _ vals'])
        (use m(2,4,5,8) k2(2) st(3) rc_frame_trans [OF st(2) m(3)] in simp)
  qed
qed

section \<open>Insertion as a whole\<close>

lemma set_hash_props:
  assumes "rc_tree c L pre vals" "rc_acct c L"
  shows "rc_tree (set_hash n hs evs c) L pre vals" "rc_acct (set_hash n hs evs c) L"
    "rc_frame c L pre vals (set_hash n hs evs c) L pre vals"
    "stored (set_hash n hs evs c) L pre vals = stored c L pre vals"
    "rc_evictable_size (set_hash n hs evs c) = rc_evictable_size c"
proof -
  let ?c = "set_hash n hs evs c"
  have e: "nd_children (nd ?c x) = nd_children (nd c x)" "nd_parent (nd ?c x) = nd_parent (nd c x)"
    "nd_key (nd ?c x) = nd_key (nd c x)" "nd_value (nd ?c x) = nd_value (nd c x)" "lock ?c x = lock c x" for x
    by (simp_all add: set_hash_def)
  have g: "rc_page_size ?c = rc_page_size c" "rc_is_eagle ?c = rc_is_eagle c" "rc_root ?c = rc_root c" "rc_counter ?c = rc_counter c"
    "rc_disable ?c = rc_disable c" "rc_disable_finished_insert ?c = rc_disable_finished_insert c"
    "rc_enable_kv_cache_events ?c = rc_enable_kv_cache_events c" "rc_strategy ?c = rc_strategy c"
    "rc_allocator ?c = rc_allocator c" "rc_protected_size ?c = rc_protected_size c"
    "rc_evictable_size ?c = rc_evictable_size c" "rc_evictable_leaves ?c = rc_evictable_leaves c"
    by (simp_all add: set_hash_def)
  show "rc_tree ?c L pre vals" by (rule rc_tree_cong [OF assms(1)]) (simp add: same_tree_def e g)
  show "rc_acct ?c L"
    using assms(2) by (simp add: rc_acct_def held_def kids_def size_if_def free_leaves_def e g cong: if_cong)
  show "rc_frame c L pre vals ?c L pre vals" by (simp add: rc_frame_def held_def kids_def e g)
  show "stored ?c L pre vals = stored c L pre vals" by (simp add: stored_def e g)
  show "rc_evictable_size ?c = rc_evictable_size c" by (rule g)
qed

lemma leaf_add_frame:
  assumes t: "rc_tree c L pre vals" and m: "m \<in> L" and la: "is_leaf_add c m k v ck c'" and a: "rc_acct c L"
  shows "rc_frame c L pre vals c' (insert (rc_counter c) L) (pre(rc_counter c := us)) (vals(rc_counter c := ws))"
proof -
  note d = is_leaf_addD [OF la] and f = leaf_add_facts [OF t m la]
  have "(pre(rc_counter c := us)) x = pre x \<and> (vals(rc_counter c := ws)) x = vals x \<and> extra c' x = extra c x
      \<and> lock c' x = lock c x \<and> held c' (insert (rc_counter c) L) x = held c L x" if "x \<in> L" for x
  proof -
    have "x \<noteq> rc_counter c" using that f(1) by auto
    with f(4) [OF this] rc_acct_leaf_add(2) [OF t m la a that] show ?thesis by simp
  qed
  with d show ?thesis unfolding rc_frame_def by (simp add: subset_insertI)
qed

lemma leaf_add_wf:
  assumes w: "rc_wf c L pre vals" and at: "at_node c L m k ck" "0 < key_len k"
    and no: "map_of (nd_children (nd c m)) ck = None" and v: "length v = key_len k" and la: "is_leaf_add c m k v ck c'"
    and ev: "rc_enable_kv_cache_events c \<Longrightarrow> sha_ok sha \<and> toks_ok k"
  defines "L' \<equiv> insert (rc_counter c) L" and "pre' \<equiv> pre(rc_counter c := pre m @ key_iter k)"
    and "vals' \<equiv> vals(rc_counter c := vals m @ v)"
  shows "\<exists>c''. record_store_event sha (rc_counter c) None c' = Inr c'' \<and> rc_wf c'' L' pre' vals'
     \<and> rc_frame c L pre vals c'' L' pre' vals'
     \<and> stored c'' L' pre' vals' = stored c L pre vals \<union> prefixes_of (rc_page_size c) (extra_key k) (pre m @ key_iter k) (vals m @ v)
     \<and> rc_evictable_size c'' = rc_evictable_size c + int (key_len k)"
proof -
  let ?new = "rc_counter c"
  have t: "rc_tree c L pre vals" and a: "rc_acct c L" and h: "rc_hash c L" using w by (auto simp: rc_wf_def)
  have m: "m \<in> L" using at by (simp add: at_node_def)
  note d = is_leaf_addD [OF la] and f = leaf_add_facts [OF t m la]
  have t': "rc_tree c' L' pre' vals'" unfolding L'_def pre'_def vals'_def by (rule rc_tree_leaf_add [OF t at no v la])
  have a': "rc_acct c' L'" unfolding L'_def by (rule rc_acct_leaf_add [OF t m la a])
  have fr: "rc_frame c L pre vals c' L' pre' vals'" unfolding L'_def pre'_def vals'_def by (rule leaf_add_frame [OF t m la a])
  have st: "stored c' L' pre' vals' = stored c L pre vals \<union> prefixes_of (rc_page_size c) (extra_key k) (pre m @ key_iter k) (vals m @ v)"
    unfolding L'_def pre'_def vals'_def by (rule stored_leaf_add [OF t m la])
  have ez: "rc_evictable_size c' = rc_evictable_size c + int (key_len k)" using d by simp
  show ?thesis
  proof (cases "rc_enable_kv_cache_events c")
    case False
    then have "record_store_event sha ?new None c' = Inr c'" using d by (simp add: record_store_event_def)
    moreover have "rc_hash c' L'" using False d by (simp add: rc_hash_def)
    ultimately show ?thesis using t' a' fr st ez by (simp add: rc_wf_def)
  next
    case True
    have old: "nd_key (nd c' x) = nd_key (nd c x)" "nd_hash_value (nd c' x) = nd_hash_value (nd c x)" if "x \<in> L" for x
    proof -
      have "x \<noteq> ?new" using that f(1) by auto
      with f(4) [OF this] show "nd_key (nd c' x) = nd_key (nd c x)" "nd_hash_value (nd c' x) = nd_hash_value (nd c x)" by simp_all
    qed
    have hm: "\<exists>hs. nd_hash_value (nd c' m) = Some hs \<and> (\<forall>h\<in>set hs. is_digest h)" if "m \<noteq> rc_root c'"
      using h True m that old [OF m] d by (auto simp: rc_hash_def)
    obtain hs evs where e: "record_store_event sha ?new None c' = Inr (set_hash ?new hs evs c')"
      "length hs * rc_page_size c' = nlen c' ?new" "\<forall>h\<in>set hs. is_digest h"
      using record_store_event_ok [OF t', of ?new m sha None] d True ev [OF True] hm by (auto simp: L'_def)
    note sp = set_hash_props [OF t' a', of ?new hs evs]
    have "rc_hash (set_hash ?new hs evs c') L'"
      unfolding rc_hash_def
    proof (intro impI ballI)
      fix x assume "x \<in> L' - {rc_root (set_hash ?new hs evs c')}"
      then consider "x = ?new" | "x \<in> L" "x \<noteq> rc_root c" "x \<noteq> ?new" using d f(1) by (auto simp: L'_def set_hash_def)
      then show "toks_ok (nd_key (nd (set_hash ?new hs evs c') x)) \<and> (\<exists>gs. nd_hash_value (nd (set_hash ?new hs evs c') x) = Some gs
          \<and> length gs * rc_page_size (set_hash ?new hs evs c') = nlen (set_hash ?new hs evs c') x \<and> (\<forall>h\<in>set gs. is_digest h))"
      proof cases
        case 1
        then show ?thesis using e(2,3) ev [OF True] d by (simp add: set_hash_def)
      next
        case 2
        then show ?thesis using h True old [OF 2(1)] d by (simp add: rc_hash_def set_hash_def)
      qed
    qed
    then show ?thesis
      using e(1) sp st ez rc_frame_trans [OF fr sp(3)] by (intro exI [of _ "set_hash ?new hs evs c'"]) (simp add: rc_wf_def)
  qed
qed

lemma longest_match_unique: "longest_match M ek us n \<Longrightarrow> longest_match M ek us m \<Longrightarrow> n = m"
  unfolding longest_match_def by (metis le_antisym le0)

lemma insert_helper_spec:
  assumes w: "rc_wf c L pre vals" and k: "key_fits c key" and v: "length v = key_len key"
    and ev: "rc_enable_kv_cache_events c \<Longrightarrow> sha_ok sha \<and> toks_ok key"
  shows "\<exists>n c' L' pre' vals' ws. insert_helper sha now (rc_root c) key v prio chunked c = Inr (n, c')
     \<and> rc_wf c' L' pre' vals' \<and> rc_frame c L pre vals c' L' pre' vals'
     \<and> length ws = n \<and> longest_match (stored c L pre vals) (extra_key key) (key_iter key) n
     \<and> (0 < n \<longrightarrow> (extra_key key, take n (key_iter key), ws) \<in> stored c L pre vals)
     \<and> stored c' L' pre' vals' = stored c L pre vals \<union> prefixes_of (rc_page_size c) (extra_key key) (key_iter key) (ws @ drop n v)
     \<and> rc_evictable_size c' = rc_evictable_size c + int (key_len key - n)"
proof -
  have t: "rc_tree c L pre vals" using w by (simp add: rc_wf_def)
  let ?q = "case prio of None \<Rightarrow> 0 | Some q \<Rightarrow> q"
  define c0 where "c0 = upd_node (rc_root c) (\<lambda>x. x\<lparr>nd_last_access_time := now, nd_priority := max (nd_priority x) ?q\<rparr>) c"
  note st = stat_upd_wf [OF w stat_upd_time_prio, of "rc_root c" ?q now, folded c0_def]
  have c0: "rc_evictable_size c0 = rc_evictable_size c" "rc_page_size c0 = rc_page_size c" by (simp_all add: c0_def)
  show ?thesis
  proof (cases "key_len key = 0")
    case True
    then have "insert_helper sha now (rc_root c) key v prio chunked c = Inr (0, c0)" by (simp add: insert_helper_def Let_def c0_def)
    moreover have "longest_match (stored c L pre vals) (extra_key key) (key_iter key) 0"
      using True by (auto simp: longest_match_def)
    moreover have "prefixes_of (rc_page_size c) (extra_key key) (key_iter key) ([] @ drop 0 v) = {}"
      using True by (auto simp: prefixes_of_def)
    ultimately show ?thesis
      by (intro exI [of _ 0] exI [of _ c0] exI [of _ L] exI [of _ pre] exI [of _ vals] exI [of _ "[]"])
        (use st c0 True in simp)
  next
    case False
    then have pos: "0 < key_len key" by simp
    define ck where "ck = (extra_key key, take (rc_page_size c) (key_iter key))"
    have ck: "child_key key (rc_page_size c0) = Inr ck" using child_key_fits [OF t k pos] by (simp add: ck_def c0)
    have at: "at_node c0 L (rc_root c) key ck"
      using rc_treeD(3) [OF t] k by (simp add: c0_def at_node_stat) (simp add: at_node_def ck_def)
    have full: "pre (rc_root c) @ key_iter key = key_iter key" using rc_treeD(5) [OF t] by simp
    obtain m k' ck' c1 L1 pre1 vals1 where l:
      "insert_loop (Suc (key_len key)) now ?q chunked (rc_root c) key v ck 0 c0
         = Inr (m, k', drop (length (pre1 m)) v, ck', length (pre1 m), c1)"
      "rc_wf c1 L1 pre1 vals1" "rc_frame c0 L pre vals c1 L1 pre1 vals1" "stored c1 L1 pre1 vals1 = stored c0 L pre vals"
      "at_node c1 L1 m k' ck'" "pre1 m @ key_iter k' = key_iter key"
      "key_len k' = 0 \<or> map_of (nd_children (nd c1 m)) ck' = None" "extra_key k' = extra_key key" "toks_ok key \<longrightarrow> toks_ok k'"
      "rc_evictable_size c1 = rc_evictable_size c0"
      using insert_loop_spec [OF st(1) at _ full, of "Suc (key_len key)" 0 v v now ?q chunked] rc_treeD(5) [OF t] by auto
    note fr = rc_frame_trans [OF st(2) l(3)]
    have fr1: "rc_page_size c1 = rc_page_size c" "rc_enable_kv_cache_events c1 = rc_enable_kv_cache_events c"
      using fr by (auto simp: rc_frame_def)
    have t1: "rc_tree c1 L1 pre1 vals1" using l(2) by (simp add: rc_wf_def)
    have m: "m \<in> L1" using l(5) by (simp add: at_node_def)
    let ?n = "length (pre1 m)" and ?ws = "vals1 m"
    have pe: "path_end c1 L1 pre1 (extra_key key) (key_iter key) m"
      using l(5-8) unfolding path_end_def at_node_def key_fits_def by (intro conjI exI [of _ "key_iter k'"]) auto
    note pl = path_end_longest [OF t1 pe, unfolded l(4) st(3)]
    have lw: "length ?ws = ?n" by (rule length_vals [OF t1 m])
    have len: "key_len key = ?n + key_len k'" using arg_cong [OF l(6), of length] by simp
    have sto: "0 < ?n \<longrightarrow> (extra_key key, take ?n (key_iter key), ?ws) \<in> stored c L pre vals" using pl(3) by blast
    have ex: "insert_helper sha now (rc_root c) key v prio chunked c = (if 0 < key_len k'
        then (let (new, c2) = new_tree_node now ?q c1;
                  c3 = upd_node new (\<lambda>x. inc_hit_count chunked (x\<lparr>nd_parent := Some m, nd_key := k', nd_value := Some (drop ?n v)\<rparr>)) c2;
                  c4 = upd_node m (\<lambda>x. x\<lparr>nd_children := AList.update ck' new (nd_children x)\<rparr>) c3;
                  c5 = c4\<lparr>rc_evictable_size := rc_evictable_size c4 + int (key_len k')\<rparr>;
                  c6 = update_leaf_status new (update_leaf_status m c5)
              in rbind (record_store_event sha new None c6) (\<lambda>c7. Inr (?n, c7)))
        else Inr (?n, c1))"
      unfolding insert_helper_def Let_def c0_def [symmetric] ck rbind_simps l(1) prod.case using False by simp
    show ?thesis
    proof (cases "0 < key_len k'")
      case True
      obtain c6 where c6: "is_leaf_add c1 m k' (drop ?n v) ck' c6"
        "insert_helper sha now (rc_root c) key v prio chunked c = rbind (record_store_event sha (rc_counter c1) None c6) (\<lambda>c7. Inr (?n, c7))"
        using leaf_add_is_leaf_add [OF t1 m, of ck' k' "drop ?n v" now ?q chunked] l(7) True
        unfolding ex by (simp add: Let_def new_tree_node_def)
      obtain c7 where c7: "record_store_event sha (rc_counter c1) None c6 = Inr c7"
        "rc_wf c7 (insert (rc_counter c1) L1) (pre1(rc_counter c1 := pre1 m @ key_iter k')) (vals1(rc_counter c1 := ?ws @ drop ?n v))"
        "rc_frame c1 L1 pre1 vals1 c7 (insert (rc_counter c1) L1) (pre1(rc_counter c1 := pre1 m @ key_iter k')) (vals1(rc_counter c1 := ?ws @ drop ?n v))"
        "stored c7 (insert (rc_counter c1) L1) (pre1(rc_counter c1 := pre1 m @ key_iter k')) (vals1(rc_counter c1 := ?ws @ drop ?n v))
          = stored c1 L1 pre1 vals1 \<union> prefixes_of (rc_page_size c1) (extra_key k') (pre1 m @ key_iter k') (?ws @ drop ?n v)"
        "rc_evictable_size c7 = rc_evictable_size c1 + int (key_len k')"
        using leaf_add_wf [OF l(2,5) True _ _ c6(1), of sha] l(7,9) True v len ev fr1 by auto
      show ?thesis
        by (intro exI [of _ ?n] exI [of _ c7] exI [of _ "insert (rc_counter c1) L1"]
            exI [of _ "pre1(rc_counter c1 := pre1 m @ key_iter k')"] exI [of _ "vals1(rc_counter c1 := ?ws @ drop ?n v)"] exI [of _ ?ws])
          (use c6(2) c7 rc_frame_trans [OF fr c7(3)] lw pl(1) sto l(4,6,8,10) st(3) fr1 c0 len in simp)
    next
      case F: False
      then have k0: "key_iter k' = []" "key_len k' = 0" by simp_all
      have full: "pre1 m = key_iter key" using l(6) unfolding k0(1) by simp
      have dv: "drop ?n v = []" using len v k0(2) by simp
      have "prefixes_of (rc_page_size c) (extra_key key) (key_iter key) ?ws \<subseteq> stored c L pre vals"
      proof
        fix e assume "e \<in> prefixes_of (rc_page_size c) (extra_key key) (key_iter key) ?ws"
        then obtain j where j: "0 < j" "j \<le> length (pre1 m)" "rc_page_size c dvd j" "e = (extra_key key, take j (pre1 m), take j ?ws)"
          using full by (auto simp: prefixes_of_def)
        have nr: "m \<noteq> rc_root c1" using full pos pre_Nil_iff [OF t1 m] by auto
        then have "extra c1 m = extra_key key" using l(5,8) by (simp add: at_node_def)
        then have "e \<in> stored c1 L1 pre1 vals1" unfolding j(4) using storedI [of m L1 c1 j pre1 vals1] m nr j fr1 by simp
        then show "e \<in> stored c L pre vals" using l(4) st(3) by simp
      qed
      then show ?thesis
        by (intro exI [of _ ?n] exI [of _ c1] exI [of _ L1] exI [of _ pre1] exI [of _ vals1] exI [of _ ?ws])
          (use ex F l(2,4,10) fr lw pl(1) sto st(3) c0 len dv k0(2) in \<open>simp add: Un_absorb2\<close>)
    qed
  qed
qed

lemma insert_key_spec:
  assumes w: "rc_wf c L pre vals" and en: "\<not> rc_disable c" and k: "key_ok c key"
    and v: "length (aligned_units c key) \<le> length v"
    and ev: "rc_enable_kv_cache_events c \<Longrightarrow> sha_ok sha \<and> toks_ok key"
  defines "us \<equiv> aligned_units c key"
  shows "\<exists>n c' L' pre' vals' ws. insert_key sha now key (Some v) prio chunked c = Inr (n, c')
     \<and> rc_wf c' L' pre' vals' \<and> rc_frame c L pre vals c' L' pre' vals'
     \<and> length ws = n \<and> longest_match (stored c L pre vals) (extra_key key) us n
     \<and> (0 < n \<longrightarrow> (extra_key key, take n us, ws) \<in> stored c L pre vals)
     \<and> stored c' L' pre' vals' = stored c L pre vals
          \<union> prefixes_of (rc_page_size c) (extra_key key) us (ws @ drop n (take (length us) v))
     \<and> rc_evictable_size c' = rc_evictable_size c + int (length us - n)"
proof -
  have t: "rc_tree c L pre vals" using w by (simp add: rc_wf_def)
  obtain k2 where k2: "page_aligned (key_view c key) (rc_page_size c) = Inr k2" "extra_key k2 = extra_key key"
    "key_iter k2 = us" "key_len k2 = length us" "key_fits c k2" "set (token_ids k2) \<subseteq> set (token_ids key)"
    using aligned_key [OF rc_treeD(1) [OF t] k] unfolding us_def by blast
  obtain v1 where kv: "maybe_to_bigram_view (rc_is_eagle c) key (Some v) = (key_view c key, Some v1)" "take (length us) v1 = take (length us) v"
  proof -
    have "length us \<le> key_len (key_view c key)" by (simp add: us_def aligned_units_def)
    then show thesis
      using that by (cases "rc_is_eagle c \<and> \<not> is_bigram key") (auto simp: maybe_to_bigram_view_def key_view_def Let_def min_def)
  qed
  have e: "insert_key sha now key (Some v) prio chunked c = insert_helper sha now (rc_root c) k2 (take (length us) v) prio chunked c"
    using en k2(1,4) kv by (simp add: insert_key_def)
  have "rc_enable_kv_cache_events c \<Longrightarrow> sha_ok sha \<and> toks_ok k2" using ev k2(6) by (auto simp: toks_ok_def)
  from insert_helper_spec [OF w k2(5) _ this, of "take (length us) v" now prio chunked] v
  show ?thesis unfolding e by (simp add: k2 us_def [symmetric])
qed

end
