(* ===== verification/Radix_Lock.thy ===== *)
theory Radix_Lock
  imports Radix_Insert
begin

text \<open>
  Construction and reference counting: \<open>reset\<close> establishes the invariant; \<open>inc_lock_ref\<close> and
  \<open>dec_lock_ref\<close> walk from a node to the root, keep the invariant, move exactly the newly locked
  or unlocked tokens between the evictable and the protected size, and undo each other.
\<close>

section \<open>Construction\<close>

lemma reset_wf:
  assumes "0 < rc_page_size c"
  shows "rc_wf (reset now c) {rc_counter c} (\<lambda>_. []) (\<lambda>_. [])" "rc_root (reset now c) = rc_counter c"
    "rc_page_size (reset now c) = rc_page_size c" "rc_allocator (reset now c) = rc_allocator c"
proof -
  let ?r = "rc_counter c" and ?c = "reset now c"
  have f: "rc_root ?c = ?r" "rc_counter ?c = Suc ?r" "rc_page_size ?c = rc_page_size c" "rc_evictable_size ?c = 0"
    "rc_protected_size ?c = 0" "rc_evictable_leaves ?c = {}" "rc_allocator ?c = rc_allocator c"
    by (simp_all add: reset_def new_tree_node_def record_all_cleared_event_def Let_def)
  have n: "nd_children (nd ?c ?r) = []" "nd_parent (nd ?c ?r) = None" "nd_value (nd ?c ?r) = Some []"
    "nlen ?c ?r = 0" "lock ?c ?r = 1"
    by (simp_all add: reset_def new_tree_node_def record_all_cleared_event_def Let_def tree_node_init_def mk_key_def key_len_def)
  show "rc_wf ?c {?r} (\<lambda>_. []) (\<lambda>_. [])"
    using assms f n
    by (simp add: rc_wf_def rc_tree_def root_ok_def children_ok_def rc_acct_def size_if_def free_leaves_def rc_hash_def)
  show "rc_root ?c = ?r" "rc_page_size ?c = rc_page_size c" "rc_allocator ?c = rc_allocator c" using f by simp_all
qed

section \<open>Changing one count\<close>

definition acct_core :: "rcache \<Rightarrow> nat set \<Rightarrow> bool" where
  "acct_core c L \<longleftrightarrow> 0 < lock c (rc_root c) \<and> (\<forall>n\<in>L - {rc_root c}. 0 \<le> lock c n)
   \<and> rc_evictable_size c = size_if c L (\<lambda>l. l = 0) \<and> rc_protected_size c = size_if c L (\<lambda>l. 0 < l)
   \<and> rc_evictable_leaves c = free_leaves c L"

lemma rc_acct_core: "rc_acct c L \<longleftrightarrow> acct_core c L \<and> (\<forall>n\<in>L - {rc_root c}. 0 \<le> held c L n)"
  by (auto simp: rc_acct_def acct_core_def)

text \<open>The body of both loops: the new count, the moved tokens, the leaf set.\<close>

definition set_lock :: "nat \<Rightarrow> int \<Rightarrow> rcache \<Rightarrow> rcache" where
  "set_lock x d c =
     (let len = int (nlen c x); l = lock c x; l' = l + d;
          c1 = c\<lparr>rc_evictable_size := rc_evictable_size c - (if l = 0 then len else 0) + (if l' = 0 then len else 0),
                 rc_protected_size := rc_protected_size c - (if 0 < l then len else 0) + (if 0 < l' then len else 0)\<rparr>
      in update_leaf_status x (upd_node x (\<lambda>n. n\<lparr>nd_lock_ref := nd_lock_ref n + d\<rparr>) c1))"

lemma update_leaf_status_fields [simp]:
  "nd (update_leaf_status x c) n = nd c n" "rc_root (update_leaf_status x c) = rc_root c"
  "rc_page_size (update_leaf_status x c) = rc_page_size c" "rc_is_eagle (update_leaf_status x c) = rc_is_eagle c"
  "rc_counter (update_leaf_status x c) = rc_counter c" "rc_disable (update_leaf_status x c) = rc_disable c"
  "rc_disable_finished_insert (update_leaf_status x c) = rc_disable_finished_insert c"
  "rc_enable_kv_cache_events (update_leaf_status x c) = rc_enable_kv_cache_events c"
  "rc_strategy (update_leaf_status x c) = rc_strategy c" "rc_allocator (update_leaf_status x c) = rc_allocator c"
  "rc_evictable_size (update_leaf_status x c) = rc_evictable_size c"
  "rc_protected_size (update_leaf_status x c) = rc_protected_size c"
  "rc_kv_event_queue (update_leaf_status x c) = rc_kv_event_queue c"
  by (simp_all add: update_leaf_status_def)

lemma update_leaf_status_leaves:
  assumes t: "rc_tree c L pre vals" and x: "x \<in> L" "x \<noteq> rc_root c"
  shows "rc_evictable_leaves (update_leaf_status x c) =
    (if lock c x \<le> 0 \<and> nd_children (nd c x) = [] then insert x (rc_evictable_leaves c) else rc_evictable_leaves c - {x})"
proof -
  have "\<not> evicted (nd c x)" using node_okE [OF t x] unfolding evicted_def by (metis option.distinct(1))
  moreover have "list_ex (\<lambda>(_, child). \<not> evicted (nd c child)) (nd_children (nd c x)) \<longleftrightarrow> nd_children (nd c x) \<noteq> []"
  proof
    assume "nd_children (nd c x) \<noteq> []"
    then obtain ck m where m: "(ck, m) \<in> set (nd_children (nd c x))" by (cases "nd_children (nd c x)") auto
    then have "m \<in> L" "m \<noteq> rc_root c" using rc_treeD(8) [OF t x(1)] by (auto simp: children_ok_def)
    then have "\<not> evicted (nd c m)" using node_okE [OF t] unfolding evicted_def by (metis option.distinct(1))
    with m show "list_ex (\<lambda>(_, child). \<not> evicted (nd c child)) (nd_children (nd c x))" by (auto simp: list_ex_iff)
  qed auto
  ultimately show ?thesis by (auto simp: update_leaf_status_def)
qed

lemma set_lock_fields:
  "nd_parent (nd (set_lock x d c) n) = nd_parent (nd c n)" "nd_children (nd (set_lock x d c) n) = nd_children (nd c n)"
  "nd_key (nd (set_lock x d c) n) = nd_key (nd c n)" "nd_value (nd (set_lock x d c) n) = nd_value (nd c n)"
  "nd_hash_value (nd (set_lock x d c) n) = nd_hash_value (nd c n)"
  "lock (set_lock x d c) n = lock c n + (if n = x then d else 0)"
  "rc_root (set_lock x d c) = rc_root c" "rc_page_size (set_lock x d c) = rc_page_size c"
  "rc_is_eagle (set_lock x d c) = rc_is_eagle c" "rc_counter (set_lock x d c) = rc_counter c"
  "rc_disable (set_lock x d c) = rc_disable c"
  "rc_disable_finished_insert (set_lock x d c) = rc_disable_finished_insert c"
  "rc_enable_kv_cache_events (set_lock x d c) = rc_enable_kv_cache_events c"
  "rc_strategy (set_lock x d c) = rc_strategy c" "rc_allocator (set_lock x d c) = rc_allocator c"
  "rc_kv_event_queue (set_lock x d c) = rc_kv_event_queue c"
  by (simp_all add: set_lock_def Let_def upd_node_def)

lemma set_lock_same_tree: "same_tree c (set_lock x d c)"
  by (simp add: same_tree_def set_lock_fields)

lemma held_set_lock:
  assumes t: "rc_tree c L pre vals" and x: "x \<in> L" "nd_parent (nd c x) = Some m"
  shows "held (set_lock x d c) L n = held c L n + (if n = x then d else 0) - (if n = m then d else 0)"
proof -
  have fin: "finite (kids c L n)" by (rule finite_kids [OF t])
  have k: "kids (set_lock x d c) L n = kids c L n" by (simp add: kids_def set_lock_fields)
  have "(\<Sum>y\<in>kids c L n. lock (set_lock x d c) y) = (\<Sum>y\<in>kids c L n. lock c y) + (\<Sum>y\<in>kids c L n. if y = x then d else 0)"
    by (simp add: set_lock_fields sum.distrib)
  also have "(\<Sum>y\<in>kids c L n. if y = x then d else 0) = (if x \<in> kids c L n then d else 0)"
    using fin by (simp add: sum.delta')
  also have "x \<in> kids c L n \<longleftrightarrow> n = m" using x by (auto simp: kids_def)
  finally show ?thesis by (simp add: held_def k set_lock_fields)
qed

lemma set_lock_core:
  assumes t: "rc_tree c L pre vals" and x: "x \<in> L" "x \<noteq> rc_root c" and a: "acct_core c L" and l: "0 \<le> lock c x + d"
  shows "acct_core (set_lock x d c) L"
proof -
  let ?c = "set_lock x d c"
  have fin: "finite (L - {rc_root c})" using rc_treeD(2) [OF t] by simp
  have xR: "x \<in> L - {rc_root c}" using x by simp
  have sz: "size_if ?c L P = size_if c L P - (if P (lock c x) then int (nlen c x) else 0)
      + (if P (lock c x + d) then int (nlen c x) else 0)" for P
    unfolding size_if_def using fin xR by (simp add: sum.remove set_lock_fields cong: if_cong)
  have t': "rc_tree ?c L pre vals" by (rule rc_tree_cong [OF t set_lock_same_tree])
  have lv: "rc_evictable_leaves ?c =
      (if lock c x + d \<le> 0 \<and> nd_children (nd c x) = [] then insert x (rc_evictable_leaves c) else rc_evictable_leaves c - {x})"
  proof -
    obtain e q where sl: "?c = update_leaf_status x (upd_node x (\<lambda>n. n\<lparr>nd_lock_ref := nd_lock_ref n + d\<rparr>)
        (c\<lparr>rc_evictable_size := e, rc_protected_size := q\<rparr>))" (is "_ = update_leaf_status x ?c1")
      by (simp add: set_lock_def Let_def)
    have "rc_tree ?c1 L pre vals" by (rule rc_tree_cong [OF t]) (simp add: same_tree_def)
    from update_leaf_status_leaves [OF this x(1)] x(2) show ?thesis unfolding sl by simp
  qed
  have "free_leaves ?c L = (if lock c x + d = 0 \<and> nd_children (nd c x) = [] then insert x (free_leaves c L) else free_leaves c L - {x})"
    using x by (auto simp: free_leaves_def set_lock_fields)
  with lv l a have "rc_evictable_leaves ?c = free_leaves ?c L" by (simp add: acct_core_def)
  moreover have "rc_evictable_size ?c = size_if ?c L (\<lambda>l. l = 0)" "rc_protected_size ?c = size_if ?c L (\<lambda>l. 0 < l)"
    unfolding sz using a by (simp_all add: acct_core_def set_lock_def Let_def)
  moreover have "\<forall>n\<in>L - {rc_root c}. 0 \<le> lock ?c n" using a l by (auto simp: acct_core_def set_lock_fields)
  ultimately show ?thesis using a x(2) by (simp add: acct_core_def set_lock_fields)
qed

section \<open>Walking to the root\<close>

definition above :: "nat set \<Rightarrow> (nat \<Rightarrow> int list list) \<Rightarrow> nat \<Rightarrow> nat" where
  "above L pre x = card {y \<in> L. length (pre y) < length (pre x)}"

lemma above_parent:
  assumes t: "rc_tree c L pre vals" and x: "x \<in> L" "nd_parent (nd c x) = Some m"
  shows "above L pre m < above L pre x"
  unfolding above_def
proof (rule psubset_card_mono)
  note p = pre_parent [OF t x]
  show "finite {y \<in> L. length (pre y) < length (pre x)}" using rc_treeD(2) [OF t] by simp
  have "m \<in> {y \<in> L. length (pre y) < length (pre x)}" "m \<notin> {y \<in> L. length (pre y) < length (pre m)}" using p by simp_all
  moreover have "{y \<in> L. length (pre y) < length (pre m)} \<subseteq> {y \<in> L. length (pre y) < length (pre x)}"
    using p(3) by (intro Collect_mono) simp
  ultimately show "{y \<in> L. length (pre y) < length (pre m)} \<subset> {y \<in> L. length (pre y) < length (pre x)}" by blast
qed

lemma above_counter:
  assumes t: "rc_tree c L pre vals" and x: "x \<in> L"
  shows "above L pre x < rc_counter c"
proof -
  have "above L pre x < card L"
    unfolding above_def by (rule psubset_card_mono) (use rc_treeD(2) [OF t] x in auto)
  also have "card L \<le> card {..<rc_counter c}" by (rule card_mono) (use rc_treeD(7) [OF t] in auto)
  finally show ?thesis by simp
qed

text \<open>Everything but the counts and sizes stays.\<close>

definition lock_frame :: "rcache \<Rightarrow> rcache \<Rightarrow> bool" where
  "lock_frame c c' \<longleftrightarrow> same_tree c c' \<and> rc_counter c' = rc_counter c \<and> rc_disable c' = rc_disable c
   \<and> rc_disable_finished_insert c' = rc_disable_finished_insert c
   \<and> rc_enable_kv_cache_events c' = rc_enable_kv_cache_events c \<and> rc_strategy c' = rc_strategy c
   \<and> rc_allocator c' = rc_allocator c \<and> rc_kv_event_queue c' = rc_kv_event_queue c
   \<and> (\<forall>n. nd_hash_value (nd c' n) = nd_hash_value (nd c n))"

lemma lock_frame_refl [simp]: "lock_frame c c"
  by (simp add: lock_frame_def)

lemma lock_frame_set: "lock_frame c (set_lock x d c)"
  by (simp add: lock_frame_def set_lock_same_tree set_lock_fields)

lemma lock_frame_trans: "lock_frame c c' \<Longrightarrow> lock_frame c' c'' \<Longrightarrow> lock_frame c c''"
  by (auto simp: lock_frame_def intro: same_tree_trans)

lemma lock_frame_hash: "lock_frame c c' \<Longrightarrow> rc_hash c L \<Longrightarrow> rc_hash c' L"
  by (simp add: lock_frame_def rc_hash_def same_tree_def)

lemma inc_lock_loop_step:
  assumes "node \<noteq> rc_root c" "nd_parent (nd c node) = Some m" "0 \<le> lock c node"
  shows "inc_lock_loop (Suc fuel) node delta c
    = inc_lock_loop fuel m (delta + (rc_evictable_size (set_lock node 1 c) - rc_evictable_size c)) (set_lock node 1 c)"
  using assms by (cases "lock c node = 0") (simp_all add: set_lock_def Let_def upd_node_def)

lemma dec_lock_loop_step:
  assumes "node \<noteq> rc_root c" "nd_parent (nd c node) = Some m" "1 \<le> lock c node"
  shows "dec_lock_loop (Suc fuel) node delta c
    = dec_lock_loop fuel m (delta + (rc_evictable_size (set_lock node (- 1) c) - rc_evictable_size c)) (set_lock node (- 1) c)"
  using assms by (cases "lock c node = 1") (simp_all add: set_lock_def Let_def upd_node_def)

lemma lock_ge_held:
  assumes "rc_tree c L pre vals" "acct_core c L" "x \<in> L"
  shows "held c L x \<le> lock c x"
proof -
  have "0 \<le> (\<Sum>m\<in>kids c L x. lock c m)"
    using assms pre_parent(1) [OF assms(1)] by (intro sum_nonneg) (auto simp: kids_def acct_core_def)
  then show ?thesis by (simp add: held_def)
qed

lemma inc_lock_loop_spec:
  assumes "rc_tree c L pre vals" "x \<in> L" "above L pre x < fuel" "acct_core c L"
    "\<forall>n\<in>L - {rc_root c}. 0 \<le> held c L n + (if n = x then 1 else 0)"
  shows "\<exists>c'. inc_lock_loop fuel x delta c = Inr (delta + (rc_evictable_size c' - rc_evictable_size c), c')
     \<and> lock_frame c c' \<and> rc_acct c' L
     \<and> (\<forall>n\<in>L - {rc_root c}. held c' L n = held c L n + (if n = x then 1 else 0))
     \<and> (\<forall>n. lock c' n = lock c n + (if anc c n x \<and> n \<noteq> rc_root c then 1 else 0))
     \<and> rc_evictable_size c' + rc_protected_size c' = rc_evictable_size c + rc_protected_size c"
  using assms
proof (induction fuel arbitrary: c x delta)
  case (Suc fuel)
  note t = Suc.prems(1)
  show ?case
  proof (cases "x = rc_root c")
    case True
    have "lock c n = lock c n + (if anc c n x \<and> n \<noteq> rc_root c then 1 else 0)" for n
      using rc_treeD(4) [OF t] True by (auto simp: root_ok_def elim: anc_cases)
    with True Suc.prems show ?thesis by (intro exI [of _ c]) (auto simp: rc_acct_core)
  next
    case False
    then obtain m where m: "nd_parent (nd c x) = Some m" using has_parent [OF t Suc.prems(2)] by blast
    note p = pre_parent [OF t Suc.prems(2) m]
    let ?c = "set_lock x 1 c"
    have l0: "0 \<le> lock c x" using Suc.prems(2,4) False by (auto simp: acct_core_def)
    have t': "rc_tree ?c L pre vals" by (rule rc_tree_cong [OF t set_lock_same_tree])
    have a': "acct_core ?c L" using set_lock_core [OF t Suc.prems(2) False Suc.prems(4), of 1] l0 by simp
    have mx: "m \<noteq> x" using p(3,4) by auto
    note h = held_set_lock [OF t Suc.prems(2) m, of 1]
    have "\<forall>n\<in>L - {rc_root ?c}. 0 \<le> held ?c L n + (if n = m then 1 else 0)"
      using Suc.prems(5) mx by (auto simp: h set_lock_fields)
    moreover have "above L pre m < fuel" using above_parent [OF t Suc.prems(2) m] Suc.prems(3) by simp
    ultimately obtain c' where c': "inc_lock_loop fuel m (delta + (rc_evictable_size ?c - rc_evictable_size c)) ?c
        = Inr (delta + (rc_evictable_size ?c - rc_evictable_size c) + (rc_evictable_size c' - rc_evictable_size ?c), c')"
      "lock_frame ?c c'" "rc_acct c' L" "\<forall>n\<in>L - {rc_root ?c}. held c' L n = held ?c L n + (if n = m then 1 else 0)"
      "\<forall>n. lock c' n = lock ?c n + (if anc ?c n m \<and> n \<noteq> rc_root ?c then 1 else 0)"
      "rc_evictable_size c' + rc_protected_size c' = rc_evictable_size ?c + rc_protected_size ?c"
      using Suc.IH [OF t' p(2) _ a', of "delta + (rc_evictable_size ?c - rc_evictable_size c)"] by blast
    note c' = c' [unfolded set_lock_fields(7)]
    have an: "anc ?c a b \<longleftrightarrow> anc c a b" for a b
    proof
      show "anc ?c a b \<Longrightarrow> anc c a b" by (induction rule: anc.induct) (auto intro: anc_parent simp: set_lock_fields)
      show "anc c a b \<Longrightarrow> anc ?c a b" by (induction rule: anc.induct) (auto intro: anc_parent simp: set_lock_fields)
    qed
    have "anc c n x \<longleftrightarrow> n = x \<or> anc c n m" for n using m by (auto intro: anc_parent elim: anc_cases)
    moreover have "\<not> anc c x m" using anc_props [OF t, of x m] p by auto
    ultimately have "\<forall>n. lock c' n = lock c n + (if anc c n x \<and> n \<noteq> rc_root c then 1 else 0)"
      using c'(5) False by (auto simp: an set_lock_fields)
    moreover have "\<forall>n\<in>L - {rc_root c}. held c' L n = held c L n + (if n = x then 1 else 0)"
      using c'(4) mx by (auto simp: h)
    moreover have "rc_evictable_size ?c + rc_protected_size ?c = rc_evictable_size c + rc_protected_size c"
      using l0 by (auto simp: set_lock_def Let_def)
    moreover have "inc_lock_loop (Suc fuel) x delta c = Inr (delta + (rc_evictable_size c' - rc_evictable_size c), c')"
      unfolding inc_lock_loop_step [OF False m l0] c'(1) by simp
    ultimately show ?thesis
      using c'(3,6) lock_frame_trans [OF lock_frame_set c'(2)] by (intro exI [of _ c']) (simp del: inc_lock_loop.simps)
  qed
qed simp

lemma dec_lock_loop_spec:
  assumes "rc_tree c L pre vals" "x \<in> L" "above L pre x < fuel" "acct_core c L"
    "\<forall>n\<in>L - {rc_root c}. 0 \<le> held c L n - (if n = x then 1 else 0)"
  shows "\<exists>c'. dec_lock_loop fuel x delta c = Inr (delta + (rc_evictable_size c' - rc_evictable_size c), c')
     \<and> lock_frame c c' \<and> rc_acct c' L
     \<and> (\<forall>n\<in>L - {rc_root c}. held c' L n = held c L n - (if n = x then 1 else 0))
     \<and> (\<forall>n. lock c' n = lock c n - (if anc c n x \<and> n \<noteq> rc_root c then 1 else 0))
     \<and> rc_evictable_size c' + rc_protected_size c' = rc_evictable_size c + rc_protected_size c"
  using assms
proof (induction fuel arbitrary: c x delta)
  case (Suc fuel)
  note t = Suc.prems(1)
  show ?case
  proof (cases "x = rc_root c")
    case True
    have "lock c n = lock c n - (if anc c n x \<and> n \<noteq> rc_root c then 1 else 0)" for n
      using rc_treeD(4) [OF t] True by (auto simp: root_ok_def elim: anc_cases)
    with True Suc.prems show ?thesis by (intro exI [of _ c]) (auto simp: rc_acct_core)
  next
    case False
    then obtain m where m: "nd_parent (nd c x) = Some m" using has_parent [OF t Suc.prems(2)] by blast
    note p = pre_parent [OF t Suc.prems(2) m]
    let ?c = "set_lock x (- 1) c"
    have "1 \<le> held c L x" using bspec [OF Suc.prems(5), of x] Suc.prems(2) False by simp
    then have l0: "1 \<le> lock c x" using lock_ge_held [OF t Suc.prems(4,2)] by simp
    have t': "rc_tree ?c L pre vals" by (rule rc_tree_cong [OF t set_lock_same_tree])
    have a': "acct_core ?c L" using set_lock_core [OF t Suc.prems(2) False Suc.prems(4), of "- 1"] l0 by simp
    have mx: "m \<noteq> x" using p(3,4) by auto
    note h = held_set_lock [OF t Suc.prems(2) m, of "- 1"]
    have "\<forall>n\<in>L - {rc_root ?c}. 0 \<le> held ?c L n - (if n = m then 1 else 0)"
    proof
      fix n assume "n \<in> L - {rc_root ?c}"
      then show "0 \<le> held ?c L n - (if n = m then 1 else 0)"
        using bspec [OF Suc.prems(5), of n] mx by (auto simp: h set_lock_fields split: if_splits)
    qed
    moreover have "above L pre m < fuel" using above_parent [OF t Suc.prems(2) m] Suc.prems(3) by simp
    ultimately obtain c' where c': "dec_lock_loop fuel m (delta + (rc_evictable_size ?c - rc_evictable_size c)) ?c
        = Inr (delta + (rc_evictable_size ?c - rc_evictable_size c) + (rc_evictable_size c' - rc_evictable_size ?c), c')"
      "lock_frame ?c c'" "rc_acct c' L" "\<forall>n\<in>L - {rc_root ?c}. held c' L n = held ?c L n - (if n = m then 1 else 0)"
      "\<forall>n. lock c' n = lock ?c n - (if anc ?c n m \<and> n \<noteq> rc_root ?c then 1 else 0)"
      "rc_evictable_size c' + rc_protected_size c' = rc_evictable_size ?c + rc_protected_size ?c"
      using Suc.IH [OF t' p(2) _ a', of "delta + (rc_evictable_size ?c - rc_evictable_size c)"] by blast
    note c' = c' [unfolded set_lock_fields(7)]
    have an: "anc ?c a b \<longleftrightarrow> anc c a b" for a b
    proof
      show "anc ?c a b \<Longrightarrow> anc c a b" by (induction rule: anc.induct) (auto intro: anc_parent simp: set_lock_fields)
      show "anc c a b \<Longrightarrow> anc ?c a b" by (induction rule: anc.induct) (auto intro: anc_parent simp: set_lock_fields)
    qed
    have "anc c n x \<longleftrightarrow> n = x \<or> anc c n m" for n using m by (auto intro: anc_parent elim: anc_cases)
    moreover have "\<not> anc c x m" using anc_props [OF t, of x m] p by auto
    ultimately have "\<forall>n. lock c' n = lock c n - (if anc c n x \<and> n \<noteq> rc_root c then 1 else 0)"
      using c'(5) False by (auto simp: an set_lock_fields)
    moreover have "\<forall>n\<in>L - {rc_root c}. held c' L n = held c L n - (if n = x then 1 else 0)"
      using c'(4) mx by (auto simp: h)
    moreover have "rc_evictable_size ?c + rc_protected_size ?c = rc_evictable_size c + rc_protected_size c"
      using l0 by (auto simp: set_lock_def Let_def)
    moreover have "dec_lock_loop (Suc fuel) x delta c = Inr (delta + (rc_evictable_size c' - rc_evictable_size c), c')"
      unfolding dec_lock_loop_step [OF False m l0] c'(1) by simp
    ultimately show ?thesis
      using c'(3,6) lock_frame_trans [OF lock_frame_set c'(2)] by (intro exI [of _ c']) (simp del: dec_lock_loop.simps)
  qed
qed simp

section \<open>The operations\<close>

lemma inc_lock_ref_spec:
  assumes w: "rc_wf c L pre vals" and x: "x \<in> L" and en: "\<not> rc_disable c"
  shows "\<exists>c'. inc_lock_ref x c = Inr (rc_evictable_size c' - rc_evictable_size c, c')
     \<and> rc_wf c' L pre vals \<and> lock_frame c c'
     \<and> (\<forall>n\<in>L - {rc_root c}. held c' L n = held c L n + (if n = x then 1 else 0))
     \<and> (\<forall>n. lock c' n = lock c n + (if anc c n x \<and> n \<noteq> rc_root c then 1 else 0))
     \<and> rc_evictable_size c' + rc_protected_size c' = rc_evictable_size c + rc_protected_size c"
proof -
  have t: "rc_tree c L pre vals" and a: "acct_core c L" "\<forall>n\<in>L - {rc_root c}. 0 \<le> held c L n" and h: "rc_hash c L"
    using w by (auto simp: rc_wf_def rc_acct_core)
  have a2: "\<forall>n\<in>L - {rc_root c}. 0 \<le> held c L n + (if n = x then 1 else 0)" using a(2) by auto
  obtain c' where c': "inc_lock_loop (rc_counter c) x 0 c = Inr (0 + (rc_evictable_size c' - rc_evictable_size c), c')"
    "lock_frame c c'" "rc_acct c' L" "\<forall>n\<in>L - {rc_root c}. held c' L n = held c L n + (if n = x then 1 else 0)"
    "\<forall>n. lock c' n = lock c n + (if anc c n x \<and> n \<noteq> rc_root c then 1 else 0)"
    "rc_evictable_size c' + rc_protected_size c' = rc_evictable_size c + rc_protected_size c"
    using inc_lock_loop_spec [OF t x above_counter [OF t x] a(1) a2, of 0] by blast
  moreover have "rc_tree c' L pre vals" using c'(2) by (intro rc_tree_cong [OF t]) (simp add: lock_frame_def)
  ultimately show ?thesis using en lock_frame_hash [OF c'(2) h]
    by (intro exI [of _ c']) (simp add: inc_lock_ref_def rc_wf_def)
qed

lemma dec_lock_ref_spec:
  assumes w: "rc_wf c L pre vals" and x: "x \<in> L" and en: "\<not> rc_disable c"
    and h1: "x \<noteq> rc_root c \<Longrightarrow> 1 \<le> held c L x"
  shows "\<exists>c'. dec_lock_ref x c = Inr (rc_evictable_size c' - rc_evictable_size c, c')
     \<and> rc_wf c' L pre vals \<and> lock_frame c c'
     \<and> (\<forall>n\<in>L - {rc_root c}. held c' L n = held c L n - (if n = x then 1 else 0))
     \<and> (\<forall>n. lock c' n = lock c n - (if anc c n x \<and> n \<noteq> rc_root c then 1 else 0))
     \<and> rc_evictable_size c' + rc_protected_size c' = rc_evictable_size c + rc_protected_size c"
proof -
  have t: "rc_tree c L pre vals" and a: "acct_core c L" "\<forall>n\<in>L - {rc_root c}. 0 \<le> held c L n" and h: "rc_hash c L"
    using w by (auto simp: rc_wf_def rc_acct_core)
  have a2: "\<forall>n\<in>L - {rc_root c}. 0 \<le> held c L n - (if n = x then 1 else 0)" using a(2) h1 by auto
  obtain c' where c': "dec_lock_loop (rc_counter c) x 0 c = Inr (0 + (rc_evictable_size c' - rc_evictable_size c), c')"
    "lock_frame c c'" "rc_acct c' L" "\<forall>n\<in>L - {rc_root c}. held c' L n = held c L n - (if n = x then 1 else 0)"
    "\<forall>n. lock c' n = lock c n - (if anc c n x \<and> n \<noteq> rc_root c then 1 else 0)"
    "rc_evictable_size c' + rc_protected_size c' = rc_evictable_size c + rc_protected_size c"
    using dec_lock_loop_spec [OF t x above_counter [OF t x] a(1) a2, of 0] by blast
  moreover have "rc_tree c' L pre vals" using c'(2) by (intro rc_tree_cong [OF t]) (simp add: lock_frame_def)
  ultimately show ?thesis using en lock_frame_hash [OF c'(2) h]
    by (intro exI [of _ c']) (simp add: dec_lock_ref_def rc_wf_def)
qed

end
