(* ===== verification/Radix_Slots.thy ===== *)
theory Radix_Slots
  imports Radix_Lock
begin

text \<open>
  Which slots of the KV pool the content of the cache refers to. The content is closed under
  page-aligned prefixes, so every cached page is the last page of exactly one entry; a cache
  whose entries end in pairwise different whole pages owns those pages and nothing else.
\<close>

section \<open>Last pages\<close>

type_synonym entry = "string option \<times> int list list \<times> int list"

definition last_page :: "nat \<Rightarrow> int list \<Rightarrow> int list" where
  "last_page p vs = drop (length vs - p) vs"

definition entry_page :: "nat \<Rightarrow> entry \<Rightarrow> int set" where
  "entry_page p e = set (last_page p (snd (snd e)))"

definition cache_slots :: "nat \<Rightarrow> entry set \<Rightarrow> int set" where
  "cache_slots p M = \<Union> (entry_page p ` M)"

definition pages_ok :: "nat \<Rightarrow> entry set \<Rightarrow> bool" where
  "pages_ok p M \<longleftrightarrow>
     (\<forall>e\<in>M. \<exists>g. last_page p (snd (snd e)) = page_slots p [g])
   \<and> (\<forall>e\<in>M. \<forall>e'\<in>M. entry_page p e \<inter> entry_page p e' \<noteq> {} \<longrightarrow> e = e')"

definition segment :: "nat \<Rightarrow> string option \<Rightarrow> int list list \<Rightarrow> int list \<Rightarrow> nat \<Rightarrow> nat \<Rightarrow> entry set" where
  "segment p ek us vs s t = {(ek, take k us, take k vs) | k. s < k \<and> k \<le> t \<and> p dvd k}"

lemma pages_ok_empty [simp]: "pages_ok p {}" "cache_slots p {} = {}"
  by (simp_all add: pages_ok_def cache_slots_def)

lemma cache_slots_Un: "cache_slots p (M \<union> N) = cache_slots p M \<union> cache_slots p N"
  by (simp add: cache_slots_def)

lemma pages_ok_mono: "pages_ok p M \<Longrightarrow> N \<subseteq> M \<Longrightarrow> pages_ok p N"
  unfolding pages_ok_def by blast

lemma cache_slots_Diff: "pages_ok p M \<Longrightarrow> S \<subseteq> M \<Longrightarrow> cache_slots p (M - S) = cache_slots p M - cache_slots p S"
  unfolding pages_ok_def cache_slots_def by blast

lemma page_slots_append: "page_slots p (xs @ ys) = page_slots p xs @ page_slots p ys"
  by (simp add: page_slots_def)

lemma last_page_take: "k + p \<le> length vs \<Longrightarrow> last_page p (take (k + p) vs) = drop k (take (k + p) vs)"
  by (simp add: last_page_def min_def)

lemma segment_empty [simp]: "segment p ek us vs s s = {}"
  by (auto simp: segment_def)

lemma segment_step:
  assumes "0 < p" "p dvd s" "p dvd t" "s \<le> t"
  shows "segment p ek us vs s (t + p) = insert (ek, take (t + p) us, take (t + p) vs) (segment p ek us vs s t)"
proof -
  have "k \<le> t \<or> k = t + p" if "k \<le> t + p" "p dvd k" for k
    using dvd_less_add_page [of p t k] assms that by (cases "k \<le> t") auto
  then have "s < k \<and> k \<le> t + p \<and> p dvd k \<longleftrightarrow> k = t + p \<or> s < k \<and> k \<le> t \<and> p dvd k" for k
    using assms by auto
  then show ?thesis unfolding segment_def by (simp del: add_is_0) blast
qed

text \<open>A stretch of cached pages is a list of different whole pages.\<close>

lemma segment_pages:
  assumes p: "0 < p" "p dvd s" and ok: "pages_ok p M"
  shows "s + q * p \<le> length us \<Longrightarrow> length us = length vs \<Longrightarrow> segment p ek us vs s (s + q * p) \<subseteq> M \<Longrightarrow>
    \<exists>gs. drop s (take (s + q * p) vs) = page_slots p gs \<and> distinct gs
       \<and> set (drop s (take (s + q * p) vs)) = cache_slots p (segment p ek us vs s (s + q * p))"
proof (induction q)
  case 0
  then show ?case by (intro exI [of _ "[]"]) (simp add: page_slots_def)
next
  case (Suc q)
  let ?t = "s + q * p" and ?e = "(ek, take (s + q * p + p) us, take (s + q * p + p) vs)"
  let ?S = "segment p ek us vs s"
  have tp: "s + Suc q * p = ?t + p" by simp
  have S: "?S (?t + p) = insert ?e (?S ?t)" by (rule segment_step) (use p in auto)
  have le: "?t + p \<le> length vs" using Suc.prems by simp
  have "?S ?t \<subseteq> M" "?e \<in> M" using Suc.prems(3) unfolding tp S by auto
  moreover obtain gs where gs: "drop s (take ?t vs) = page_slots p gs" "distinct gs"
      "set (drop s (take ?t vs)) = cache_slots p (?S ?t)"
    using Suc.IH Suc.prems(1,2) \<open>?S ?t \<subseteq> M\<close> by auto
  ultimately obtain g where g: "drop ?t (take (?t + p) vs) = page_slots p [g]"
    using ok le unfolding pages_ok_def by (metis last_page_take snd_conv)
  have ne: "?e \<noteq> e" if "e \<in> ?S ?t" for e
  proof
    assume "?e = e"
    then obtain k where k: "k \<le> ?t" "take (?t + p) vs = take k vs" using \<open>e \<in> ?S ?t\<close> unfolding segment_def by auto
    then have "length (take (?t + p) vs) = length (take k vs)" by simp
    with k(1) le p(1) show False by simp
  qed
  have "entry_page p ?e \<inter> entry_page p e = {}" if "e \<in> ?S ?t" for e
    using ok \<open>?S ?t \<subseteq> M\<close> \<open>?e \<in> M\<close> that ne [OF that] unfolding pages_ok_def by blast
  moreover have ep: "entry_page p ?e = set (page_slots p [g])"
    using g le by (simp add: entry_page_def last_page_take)
  ultimately have dis: "set (page_slots p [g]) \<inter> set (page_slots p gs) = {}"
    unfolding gs(1) [symmetric] gs(3) by (auto simp: cache_slots_def)
  have gn: "g \<notin> set gs"
  proof
    assume "g \<in> set gs"
    then have "g * int p \<in> set (page_slots p gs)" "g * int p \<in> set (page_slots p [g])"
      using p(1) by (force simp: page_slots_def)+
    with dis show False by blast
  qed
  have "drop s (take (?t + p) vs) = drop s (take ?t vs) @ drop ?t (take (?t + p) vs)"
  proof -
    have "take (?t + p) vs = take ?t vs @ drop ?t (take (?t + p) vs)"
      by (metis append_take_drop_id le_add1 min.absorb1 take_take)
    moreover have "drop s (take ?t vs @ w) = drop s (take ?t vs) @ w" for w using le by simp
    ultimately show ?thesis by metis
  qed
  then have v: "drop s (take (?t + p) vs) = page_slots p (gs @ [g])"
    using gs(1) g by (simp add: page_slots_append)
  moreover have "cache_slots p (?S (?t + p)) = set (page_slots p (gs @ [g]))"
    unfolding S using gs(3) gs(1) ep by (auto simp: cache_slots_def page_slots_append)
  ultimately show ?case unfolding tp using gs(2) gn by (intro exI [of _ "gs @ [g]"]) simp
qed

lemma pages_ok_insert:
  assumes "pages_ok p M" "last_page p (snd (snd e)) = page_slots p [g]" "set (page_slots p [g]) \<inter> cache_slots p M = {}"
  shows "pages_ok p (insert e M)" "cache_slots p (insert e M) = cache_slots p M \<union> set (page_slots p [g])"
proof -
  have e: "entry_page p e = set (page_slots p [g])" using assms(2) by (simp add: entry_page_def)
  then show "cache_slots p (insert e M) = cache_slots p M \<union> set (page_slots p [g])" by (auto simp: cache_slots_def)
  have "entry_page p e \<inter> entry_page p e' = {}" if "e' \<in> M" for e'
    using assms(3) that e by (auto simp: cache_slots_def)
  then show "pages_ok p (insert e M)" using assms(1,2) unfolding pages_ok_def by blast
qed

lemma segment_add:
  assumes p: "0 < p" "p dvd s" and ok: "pages_ok p M" and len: "length us = length vs" "length vs = s + length gs * p"
    and gs: "drop s vs = page_slots p gs" "distinct gs" "set (page_slots p gs) \<inter> cache_slots p M = {}"
  shows "q \<le> length gs \<Longrightarrow> pages_ok p (M \<union> segment p ek us vs s (s + q * p))
    \<and> cache_slots p (M \<union> segment p ek us vs s (s + q * p)) = cache_slots p M \<union> set (page_slots p (take q gs))"
proof (induction q)
  case 0
  then show ?case using ok by (simp add: page_slots_def)
next
  case (Suc q)
  let ?t = "s + q * p" and ?S = "segment p ek us vs s"
  let ?e = "(ek, take (s + q * p + p) us, take (s + q * p + p) vs)"
  have tp: "s + Suc q * p = ?t + p" by simp
  have S: "?S (?t + p) = insert ?e (?S ?t)" by (rule segment_step) (use p in auto)
  have "(q + 1) * p \<le> length gs * p" using Suc.prems by (intro mult_le_mono1) simp
  then have le: "?t + p \<le> length vs" using len by simp
  have tk: "take (Suc q) gs = take q gs @ [gs ! q]" using Suc.prems by (simp add: take_Suc_conv_app_nth)
  have "drop ?t (take (?t + p) vs) = take p (drop (q * p) (drop s vs))"
    by (simp add: drop_take add.commute add.left_commute)
  also have "\<dots> = page_slots p [gs ! q]"
  proof -
    have "gs = take q gs @ gs ! q # drop (Suc q) gs" using Suc.prems by (simp add: id_take_nth_drop)
    then have "page_slots p gs = page_slots p (take q gs) @ page_slots p [gs ! q] @ page_slots p (drop (Suc q) gs)"
      by (metis append_Cons append_Nil page_slots_append)
    moreover have "length (page_slots p (take q gs)) = q * p" "length (page_slots p [gs ! q]) = p"
      using Suc.prems by (simp_all add: min_def)
    ultimately show ?thesis unfolding gs(1) by (metis append_eq_conv_conj)
  qed
  finally have lp: "last_page p (snd (snd ?e)) = page_slots p [gs ! q]" using le by (simp add: last_page_take)
  have "gs ! q \<notin> set (take q gs)" using gs(2) Suc.prems tk
    by (metis distinct_append distinct_take disjoint_iff list.set_intros(1))
  then have "distinct (take q gs @ [gs ! q])" using gs(2) by simp
  from distinct_page_slots [OF p(1) this] have d1: "set (page_slots p [gs ! q]) \<inter> set (page_slots p (take q gs)) = {}"
    by (auto simp: page_slots_append)
  have "set (page_slots p [gs ! q]) \<subseteq> set (page_slots p gs)"
    using Suc.prems page_slots_append [of p "take q gs" "[gs ! q]"] page_slots_append [of p "take (Suc q) gs" "drop (Suc q) gs"] tk
    by (metis Un_upper1 Un_upper2 append_take_drop_id set_append subset_trans)
  with gs(3) d1 have dis: "set (page_slots p [gs ! q]) \<inter> (cache_slots p M \<union> set (page_slots p (take q gs))) = {}" by blast
  have IH: "pages_ok p (M \<union> ?S ?t)" "cache_slots p (M \<union> ?S ?t) = cache_slots p M \<union> set (page_slots p (take q gs))"
    using Suc by simp_all
  have dis2: "set (page_slots p [gs ! q]) \<inter> cache_slots p (M \<union> ?S ?t) = {}" unfolding IH(2) by (rule dis)
  from pages_ok_insert [OF IH(1) lp dis2] IH(2) show ?case
    unfolding tp S tk by (auto simp: page_slots_append)
qed

section \<open>Cache and allocator together\<close>

text \<open>
  \<open>U\<close> is the set of slots in use. The cache owns its pages among them; the rest belongs to
  running requests.
\<close>

definition rc_slots :: "rcache \<Rightarrow> entry set \<Rightarrow> int set \<Rightarrow> bool" where
  "rc_slots c M U \<longleftrightarrow> kv_inv (rc_allocator c) U \<and> al_page_size (rc_allocator c) = rc_page_size c
     \<and> pages_ok (rc_page_size c) M \<and> cache_slots (rc_page_size c) M \<subseteq> U"

end
