(* ===== verification/Radix_Evict.thy ===== *)
theory Radix_Evict
  imports Radix_Slots
begin

text \<open>
  \<open>evict\<close>: it removes unlocked leaves in the order of the strategy until enough tokens are freed
  or nothing evictable is left; the freed slots go back to the allocator, exactly the removed part
  of the content disappears, and no locked node is touched.
\<close>

section \<open>Removing a leaf\<close>

definition is_leaf_del :: "rcache \<Rightarrow> nat \<Rightarrow> nat \<Rightarrow> rcache \<Rightarrow> bool" where
  "is_leaf_del c x m c' \<longleftrightarrow>
     rc_page_size c' = rc_page_size c \<and> rc_is_eagle c' = rc_is_eagle c \<and> rc_root c' = rc_root c
   \<and> rc_counter c' = rc_counter c \<and> rc_disable c' = rc_disable c
   \<and> rc_disable_finished_insert c' = rc_disable_finished_insert c
   \<and> rc_enable_kv_cache_events c' = rc_enable_kv_cache_events c \<and> rc_strategy c' = rc_strategy c
   \<and> rc_allocator c' = rc_allocator c \<and> rc_protected_size c' = rc_protected_size c
   \<and> rc_evictable_size c' = rc_evictable_size c - int (nlen c x)
   \<and> rc_kv_event_queue c' = rc_kv_event_queue c
   \<and> rc_evictable_leaves c' =
       (if m \<noteq> rc_root c \<and> lock c m \<le> 0 \<and> dict_pop (edge_key c x) (nd_children (nd c m)) = []
        then insert m (rc_evictable_leaves c - {x}) else rc_evictable_leaves c - {x} - {m})
   \<and> nd c' m = (nd c m)\<lparr>nd_children := dict_pop (edge_key c x) (nd_children (nd c m))\<rparr>
   \<and> (\<forall>y. y \<noteq> m \<longrightarrow> nd c' y = nd c y)"

lemma leaf_del_tree:
  assumes t: "rc_tree c L pre vals" and x: "x \<in> L" "nd_parent (nd c x) = Some m" "nd_children (nd c x) = []"
    and pg: "rc_page_size c' = rc_page_size c" "rc_is_eagle c' = rc_is_eagle c" "rc_root c' = rc_root c" "rc_counter c' = rc_counter c"
    and hm: "nd_children (nd c' m) = dict_pop (edge_key c x) (nd_children (nd c m))"
      "\<forall>y. nd_parent (nd c' y) = nd_parent (nd c y) \<and> nd_key (nd c' y) = nd_key (nd c y) \<and> nd_value (nd c' y) = nd_value (nd c y)"
      "\<forall>y. y \<noteq> m \<longrightarrow> nd_children (nd c' y) = nd_children (nd c y)"
  shows "rc_tree c' (L - {x}) pre vals"
proof -
  note px = pre_parent [OF t x(1,2)]
  have ek: "edge_key c' y = edge_key c y" for y using hm(2) pg by (simp add: edge_key_def)
  have mx: "m \<noteq> x" using px(3,4) by auto
  have nopar: "nd_parent (nd c y) \<noteq> Some x" if "y \<in> L" for y
    using pre_parent(9) [OF t that, of x] x(3) by auto
  have "node_ok c' (L - {x}) pre vals y" if y: "y \<in> L - {x}" "y \<noteq> rc_root c" for y
  proof -
    have yL: "y \<in> L" using y by simp
    obtain z u where z: "nd_parent (nd c y) = Some z" "z \<in> L"
      "map_of (nd_children (nd c z)) (edge_key c y) = Some y"
      "nd_value (nd c y) = Some u" "length u = nlen c y" "pre y = pre z @ units c y" "vals y = vals z @ u"
      "z \<noteq> rc_root c \<longrightarrow> extra c z = extra c y" "0 < nlen c y" "rc_page_size c dvd nlen c y"
      "is_bigram (nd_key (nd c y)) = rc_is_eagle c"
      by (rule node_okE [OF t yL y(2)])
    have zx: "z \<noteq> x" using z(1) nopar [OF yL] by auto
    have "edge_key c y \<noteq> edge_key c x" if "z = m"
      using child_unique [OF t yL x(1)] z(1) x(2) y that by auto
    then have "map_of (nd_children (nd c' z)) (edge_key c' y) = Some y"
      using z(3) hm by (cases "z = m") (simp_all add: ek map_of_dict_pop)
    then show ?thesis unfolding node_ok_def
      by (intro conjI exI [of _ z] exI [of _ u]) (use z zx hm(2) pg in simp_all)
  qed
  moreover have "children_ok c' (L - {x}) y" if y: "y \<in> L - {x}" for y
  proof -
    have cy: "children_ok c L y" using rc_treeD(8) [OF t] y by simp
    have sub: "set (nd_children (nd c' y)) \<subseteq> set (nd_children (nd c y))"
      using hm by (cases "y = m") (auto simp: set_dict_pop)
    have nx: "(q, x) \<notin> set (nd_children (nd c' y))" for q
    proof
      assume a: "(q, x) \<in> set (nd_children (nd c' y))"
      with sub have "(q, x) \<in> set (nd_children (nd c y))" by blast
      with cy have "nd_parent (nd c x) = Some y" "q = edge_key c x" by (auto simp: children_ok_def)
      then have "q = edge_key c x \<and> y = m" using x(2) by simp
      with a hm(1) show False by (auto simp: set_dict_pop)
    qed
    have "distinct (dict_keys (nd_children (nd c' y)))"
      using cy hm by (cases "y = m") (auto simp: children_ok_def)
    then show ?thesis using cy sub nx hm(2) pg ek by (fastforce simp: children_ok_def)
  qed
  moreover have "root_ok c'" using rc_treeD(4) [OF t] hm(2) pg by (simp add: root_ok_def)
  ultimately show ?thesis using rc_treeD(1-7) [OF t] px(1) pg by (auto simp: rc_tree_def)
qed

lemma delete_leaf_is_leaf_del:
  assumes w: "rc_wf c L pre vals" and x: "x \<in> L" "nd_parent (nd c x) = Some m" "nd_children (nd c x) = []"
  shows "\<exists>c'. delete_leaf x c = Inr c' \<and> is_leaf_del c x m c'"
proof -
  have t: "rc_tree c L pre vals" and a: "rc_acct c L" using w by (auto simp: rc_wf_def)
  note px = pre_parent [OF t x(1,2)]
  have mx: "m \<noteq> x" using px(3,4) by auto
  have p: "0 < rc_page_size c" "rc_page_size c \<le> nlen c x" using rc_treeD(1) [OF t] px(4,10) by (auto intro: dvd_imp_le)
  have ck: "child_key (nd_key (nd c x)) (rc_page_size c) = Inr (edge_key c x)"
    using child_key_eq [OF p] by (simp add: edge_key_def)
  define c2 where "c2 = (upd_node m (\<lambda>n. n\<lparr>nd_children := dict_pop (edge_key c x) (nd_children n)\<rparr>) c)
     \<lparr>rc_evictable_size := rc_evictable_size c - int (nlen c x), rc_evictable_leaves := rc_evictable_leaves c - {x}\<rparr>"
  have f: "rc_page_size c2 = rc_page_size c" "rc_is_eagle c2 = rc_is_eagle c" "rc_root c2 = rc_root c" "rc_counter c2 = rc_counter c"
    "nd_children (nd c2 m) = dict_pop (edge_key c x) (nd_children (nd c m))"
    "\<forall>y. nd_parent (nd c2 y) = nd_parent (nd c y) \<and> nd_key (nd c2 y) = nd_key (nd c y) \<and> nd_value (nd c2 y) = nd_value (nd c y)"
    "\<forall>y. y \<noteq> m \<longrightarrow> nd_children (nd c2 y) = nd_children (nd c y)"
    "\<forall>y. lock c2 y = lock c y" "rc_evictable_leaves c2 = rc_evictable_leaves c - {x}"
    by (simp_all add: c2_def)
  have t2: "rc_tree c2 (L - {x}) pre vals" by (rule leaf_del_tree [OF t x f(1-7)])
  have "rc_evictable_leaves (update_leaf_status m c2) =
       (if m \<noteq> rc_root c \<and> lock c m \<le> 0 \<and> dict_pop (edge_key c x) (nd_children (nd c m)) = []
        then insert m (rc_evictable_leaves c - {x}) else rc_evictable_leaves c - {x} - {m})"
  proof (cases "m = rc_root c")
    case True
    have "0 < lock c m" using a True by (simp add: rc_acct_def)
    then show ?thesis using True f(8,9) by (simp add: update_leaf_status_def)
  next
    case False
    then show ?thesis using update_leaf_status_leaves [OF t2, of m] px(2) mx f by simp
  qed
  then have "is_leaf_del c x m (update_leaf_status m c2)"
    unfolding is_leaf_del_def by (simp add: c2_def)
  moreover have "delete_leaf x c = Inr (update_leaf_status m c2)"
    using ck x(2) px(9) mx by (simp add: delete_leaf_def c2_def Let_def)
  ultimately show ?thesis by blast
qed

lemma leaf_del_facts:
  assumes t: "rc_tree c L pre vals" and x: "x \<in> L" "nd_parent (nd c x) = Some m" "nd_children (nd c x) = []"
    and ld: "is_leaf_del c x m c'"
  shows "rc_tree c' (L - {x}) pre vals"
    and "nd_parent (nd c' y) = nd_parent (nd c y)" "nd_key (nd c' y) = nd_key (nd c y)" "nd_value (nd c' y) = nd_value (nd c y)"
      "lock c' y = lock c y" "nd_hash_value (nd c' y) = nd_hash_value (nd c y)"
      "nd_last_access_time (nd c' y) = nd_last_access_time (nd c y)" "get_priority st (nd c' y) = get_priority st (nd c y)"
    and "y \<noteq> m \<Longrightarrow> nd_children (nd c' y) = nd_children (nd c y)"
    and "nd_children (nd c' m) = dict_pop (edge_key c x) (nd_children (nd c m))"
proof -
  note d = ld [unfolded is_leaf_del_def]
  show f: "nd_parent (nd c' y) = nd_parent (nd c y)" "nd_key (nd c' y) = nd_key (nd c y)" "nd_value (nd c' y) = nd_value (nd c y)"
    "lock c' y = lock c y" "nd_hash_value (nd c' y) = nd_hash_value (nd c y)"
    "nd_last_access_time (nd c' y) = nd_last_access_time (nd c y)" for y
    using d by (cases "y = m"; simp)+
  have "nd_creation_time (nd c' y) = nd_creation_time (nd c y)" "nd_hit_count (nd c' y) = nd_hit_count (nd c y)"
    "nd_priority (nd c' y) = nd_priority (nd c y)"
    using d by (cases "y = m"; simp)+
  with f(6) [of y] show "get_priority st (nd c' y) = get_priority st (nd c y)" by (cases st) simp_all
  show ch: "nd_children (nd c' y) = nd_children (nd c y)" if "y \<noteq> m" for y using d that by simp
  show cm: "nd_children (nd c' m) = dict_pop (edge_key c x) (nd_children (nd c m))" using d by simp
  show "rc_tree c' (L - {x}) pre vals"
    by (rule leaf_del_tree [OF t x]) (use d f ch cm in auto)
qed

lemma leaf_del_acct:
  assumes w: "rc_wf c L pre vals" and x: "x \<in> L" "nd_parent (nd c x) = Some m" "nd_children (nd c x) = []" "lock c x = 0"
    and ld: "is_leaf_del c x m c'"
  shows "rc_wf c' (L - {x}) pre vals" and "y \<in> L - {x} \<Longrightarrow> held c' (L - {x}) y = held c L y"
    and "free_leaves c' (L - {x}) =
      (if nd_children (nd c' m) = [] \<and> lock c' m = 0 then insert m (free_leaves c L - {x}) else free_leaves c L - {x})"
proof -
  have t: "rc_tree c L pre vals" and a: "rc_acct c L" and h: "rc_hash c L" using w by (auto simp: rc_wf_def)
  note d = ld [unfolded is_leaf_del_def] and f = leaf_del_facts [OF t x(1-3) ld] and px = pre_parent [OF t x(1,2)]
  have mx: "m \<noteq> x" "x \<noteq> rc_root c" using px by auto
  have dr: "rc_root c' = rc_root c" using d by simp
  show hd: "held c' (L - {x}) y = held c L y" if "y \<in> L - {x}" for y
  proof -
    have fin: "finite (kids c L y)" by (rule finite_kids [OF t])
    have "kids c' (L - {x}) y = kids c L y - {x}" by (auto simp: kids_def f(2))
    moreover have "(\<Sum>z\<in>kids c L y - {x}. lock c z) = (\<Sum>z\<in>kids c L y. lock c z)"
      using fin x(4) by (simp add: sum_diff1)
    ultimately show ?thesis by (simp add: held_def f(5))
  qed
  have fin: "finite (L - {rc_root c})" using rc_treeD(2) [OF t] by simp
  have "L - {x} - {rc_root c} = L - {rc_root c} - {x}" by blast
  then have sz: "size_if c' (L - {x}) P = size_if c L P - (if P 0 then int (nlen c x) else 0)" for P
    unfolding size_if_def dr using fin x(1,4) mx(2) by (simp add: f sum_diff1 cong: if_cong)
  have cm: "nd_children (nd c m) \<noteq> []" using px(9) by auto
  have m0: "0 < lock c m" if "m = rc_root c" using a that by (simp add: rc_acct_def)
  have ml: "0 \<le> lock c m" using a px(2) m0 by (cases "m = rc_root c") (auto simp: rc_acct_def)
  have fl: "y \<in> free_leaves c' (L - {x}) \<longleftrightarrow> y \<in> (if nd_children (nd c' m) = [] \<and> lock c' m = 0
      then insert m (free_leaves c L - {x}) else free_leaves c L - {x})" for y
    using cm m0 px(2) mx f(9) [of y] unfolding free_leaves_def dr f(5)
    by (cases "y = m") auto
  then show fl': "free_leaves c' (L - {x}) =
      (if nd_children (nd c' m) = [] \<and> lock c' m = 0 then insert m (free_leaves c L - {x}) else free_leaves c L - {x})" by blast
  have "m \<notin> free_leaves c L" using cm by (simp add: free_leaves_def)
  then have lv: "rc_evictable_leaves c' = free_leaves c' (L - {x})"
    unfolding fl' f(5,10) using d a ml m0 by (auto simp: rc_acct_def)
  have "rc_acct c' (L - {x})"
    using a d lv sz hd dr by (auto simp: rc_acct_def f(5))
  moreover have "rc_hash c' (L - {x})" using h d by (simp add: rc_hash_def f)
  ultimately show "rc_wf c' (L - {x}) pre vals" using f(1) by (simp add: rc_wf_def)
qed

section \<open>What disappears with a leaf\<close>

definition owned :: "rcache \<Rightarrow> (nat \<Rightarrow> int list list) \<Rightarrow> (nat \<Rightarrow> int list) \<Rightarrow> nat \<Rightarrow> nat \<Rightarrow> (string option \<times> int list list \<times> int list) set" where
  "owned c pre vals x m = {(extra c x, take k (pre x), take k (vals x)) | k.
     length (pre m) < k \<and> k \<le> length (pre x) \<and> rc_page_size c dvd k}"

text \<open>The prefixes that end inside a leaf belong to no other node.\<close>

lemma leaf_anc:
  assumes t: "rc_tree c L pre vals"
  shows "anc c a n \<Longrightarrow> n \<in> L \<Longrightarrow> nd_children (nd c a) = [] \<Longrightarrow> n = a"
proof (induction rule: anc.induct)
  case (anc_parent n m a)
  note p = pre_parent [OF t anc_parent.prems(1) anc_parent.hyps(1)]
  have "m = a" using anc_parent p(2) by blast
  with p(9) anc_parent.prems(2) show ?case by simp
qed simp

lemma owned_only:
  assumes t: "rc_tree c L pre vals" and x: "x \<in> L" "nd_parent (nd c x) = Some m" "nd_children (nd c x) = []"
    and b: "b \<in> L" "extra c b = extra c x" "k \<le> length (pre b)" "take k (pre b) = take k (pre x)"
    and k: "length (pre m) < k" "k \<le> length (pre x)" "rc_page_size c dvd k"
  shows "b = x"
proof -
  note px = pre_parent [OF t x(1,2)]
  have sp: "length (pre m) + rc_page_size c \<le> k" using k page_dvd_pre [OF t px(2)] by (simp add: dvd_less_add_page)
  have "anc c x b"
    by (rule first_page_anc [OF t x(1,2) b(1)]) (use b sp take_prefix_eq [OF b(4) sp] in auto)
  from leaf_anc [OF t this b(1) x(3)] show ?thesis .
qed

lemma stored_leaf_del:
  assumes t: "rc_tree c L pre vals" and x: "x \<in> L" "nd_parent (nd c x) = Some m" "nd_children (nd c x) = []"
    and ld: "is_leaf_del c x m c'"
  shows "stored c' (L - {x}) pre vals = stored c L pre vals - owned c pre vals x m"
proof -
  note d = ld [unfolded is_leaf_del_def] and f = leaf_del_facts [OF t x ld] and px = pre_parent [OF t x(1,2)]
  have dr: "rc_root c' = rc_root c" "rc_page_size c' = rc_page_size c" using d by simp_all
  show ?thesis
  proof (intro set_eqI iffI)
    fix e assume "e \<in> stored c' (L - {x}) pre vals"
    then obtain b k where b: "b \<in> L - {x}" "b \<noteq> rc_root c'" "0 < k" "k \<le> length (pre b)" "rc_page_size c' dvd k"
      "e = (extra c' b, take k (pre b), take k (vals b))" by (rule storedE)
    have "e \<in> stored c L pre vals" unfolding b(6) f(3) by (rule storedI) (use b dr in simp_all)
    moreover have "e \<notin> owned c pre vals x m"
    proof
      assume "e \<in> owned c pre vals x m"
      then obtain j where j: "length (pre m) < j" "j \<le> length (pre x)" "rc_page_size c dvd j"
        "e = (extra c x, take j (pre x), take j (vals x))" by (auto simp: owned_def)
      from j(2,4) b(4,6) have "j = k" by (metis Pair_inject length_take min.absorb2)
      with owned_only [OF t x, of b k] b j show False by (simp add: f(3))
    qed
    ultimately show "e \<in> stored c L pre vals - owned c pre vals x m" by blast
  next
    fix e assume e: "e \<in> stored c L pre vals - owned c pre vals x m"
    then obtain b k where b: "b \<in> L" "b \<noteq> rc_root c" "0 < k" "k \<le> length (pre b)" "rc_page_size c dvd k"
      "e = (extra c b, take k (pre b), take k (vals b))" by (blast elim: storedE)
    define y where "y = (if b = x then m else b)"
    have y: "y \<in> L - {x}" "y \<noteq> rc_root c" "k \<le> length (pre y)" "e = (extra c y, take k (pre y), take k (vals y))"
    proof -
      have km: "k \<le> length (pre m)" if "b = x" using e b that by (auto simp: owned_def not_less [symmetric])
      then have mr: "m \<noteq> rc_root c" if "b = x" using b(3) rc_treeD(5) [OF t] that by auto
      have "extra c m = extra c x" if "b = x" using px(7) [OF mr [OF that]] .
      moreover have "take k (pre x) = take k (pre m)" "take k (vals x) = take k (vals m)" if "b = x"
        using px(5,6) km [OF that] by (metis min.absorb1 take_take)+
      ultimately show "y \<in> L - {x}" "y \<noteq> rc_root c" "k \<le> length (pre y)" "e = (extra c y, take k (pre y), take k (vals y))"
        using b px(2,3,4) km mr by (auto simp: y_def)
    qed
    show "e \<in> stored c' (L - {x}) pre vals"
      unfolding y(4) f(3) [symmetric] by (rule storedI) (use y b dr in simp_all)
  qed
qed

section \<open>Something evictable means an evictable leaf\<close>

lemma free_leaf_exists:
  assumes w: "rc_wf c L pre vals" and n: "n \<in> L" "n \<noteq> rc_root c" "lock c n = 0"
  shows "free_leaves c L \<noteq> {}"
proof -
  have t: "rc_tree c L pre vals" and a: "rc_acct c L" using w by (auto simp: rc_wf_def)
  let ?S = "{y \<in> L. y \<noteq> rc_root c \<and> lock c y = 0}"
  have fin: "finite ?S" using rc_treeD(2) [OF t] by simp
  have ne: "?S \<noteq> {}" using n by auto
  have "Max ((\<lambda>z. length (pre z)) ` ?S) \<in> (\<lambda>z. length (pre z)) ` ?S" using fin ne by (intro Max_in) auto
  then obtain y where y: "y \<in> ?S" and ym: "Max ((\<lambda>z. length (pre z)) ` ?S) = length (pre y)" by blast
  have ymax: "length (pre z) \<le> length (pre y)" if "z \<in> ?S" for z
    unfolding ym [symmetric] using fin that by (intro Max_ge) auto
  have "nd_children (nd c y) = []"
  proof (rule ccontr)
    assume "nd_children (nd c y) \<noteq> []"
    then obtain ck z where z: "(ck, z) \<in> set (nd_children (nd c y))" by (cases "nd_children (nd c y)") auto
    then have zl: "z \<in> L" "z \<noteq> rc_root c" "nd_parent (nd c z) = Some y"
      using rc_treeD(8) [OF t, of y] y by (auto simp: children_ok_def)
    have zk: "z \<in> kids c L y" using zl by (simp add: kids_def)
    have nn: "\<forall>u\<in>kids c L y. 0 \<le> lock c u" using a pre_parent(1) [OF t] by (auto simp: kids_def rc_acct_def)
    have "lock c z \<le> (\<Sum>u\<in>kids c L y. lock c u)"
      using finite_kids [OF t] zk nn by (intro member_le_sum) auto
    also have "\<dots> \<le> lock c y"
    proof -
      have "y \<in> L - {rc_root c}" using y by simp
      with a have "0 \<le> held c L y" unfolding rc_acct_def by blast
      then show ?thesis by (simp add: held_def)
    qed
    finally have "z \<in> ?S" using y zl nn zk by force
    with ymax [of z] pre_parent(3,4) [OF t zl(1,3)] show False by auto
  qed
  with y show ?thesis by (auto simp: free_leaves_def)
qed

lemma no_free_leaf_size:
  assumes w: "rc_wf c L pre vals" and e: "free_leaves c L = {}"
  shows "rc_evictable_size c = 0"
proof -
  have "lock c n \<noteq> 0" if "n \<in> L - {rc_root c}" for n using free_leaf_exists [OF w, of n] that e by auto
  then have "size_if c L (\<lambda>l. l = 0) = 0" unfolding size_if_def by (intro sum.neutral) auto
  then show ?thesis using w by (simp add: rc_wf_def rc_acct_def)
qed

section \<open>Remove events\<close>

lemma remove_events_ok:
  assumes "0 < p" "length hs * p = len" "\<forall>h\<in>set hs. is_digest h" "start = i * p" "len - start < fuel"
  shows "\<exists>evs. remove_events fuel len p hs med start i = Inr evs"
  using assms(4,5)
proof (induction fuel arbitrary: start i)
  case (Suc fuel)
  show ?case
  proof (cases "start < len")
    case True
    then have i: "i < length hs" using Suc.prems(1) assms(1,2) by (metis mult_less_cancel2)
    then obtain b where b: "hash_str_to_int64 (hs ! i) = Inr b" using hash_str_to_int64_digest assms(3) by force
    have "len - (start + p) < fuel" using Suc.prems(2) True assms(1) by linarith
    with Suc.IH [of "start + p" "i + 1"] Suc.prems(1) True i b show ?thesis by auto
  qed simp
qed simp

lemma record_remove_event_ok:
  assumes "0 < rc_page_size c" "rc_enable_kv_cache_events c \<Longrightarrow> \<exists>hs. nd_hash_value (nd c x) = Some hs
      \<and> length hs * rc_page_size c = nlen c x \<and> (\<forall>h\<in>set hs. is_digest h)"
  shows "\<exists>evs. record_remove_event sha x med c = Inr (c\<lparr>rc_kv_event_queue := rc_kv_event_queue c @ evs\<rparr>)"
proof (cases "rc_enable_kv_cache_events c")
  case False
  then show ?thesis by (intro exI [of _ "[]"]) (simp add: record_remove_event_def)
next
  case True
  then obtain hs where hs: "nd_hash_value (nd c x) = Some hs" "length hs * rc_page_size c = nlen c x" "\<forall>h\<in>set hs. is_digest h"
    using assms(2) by blast
  obtain evs where "remove_events (Suc (nlen c x)) (nlen c x) (rc_page_size c) hs (case med of None \<Rightarrow> GPU | Some m \<Rightarrow> m) 0 0 = Inr evs"
    using remove_events_ok [OF assms(1) hs(2,3), of 0 0 "Suc (nlen c x)" "case med of None \<Rightarrow> GPU | Some m \<Rightarrow> m"] by auto
  then show ?thesis using True hs(1)
    by (auto simp: record_remove_event_def ensure_hash_value_def simp del: remove_events.simps)
qed

section \<open>One round of eviction\<close>

lemma owned_segment:
  assumes t: "rc_tree c L pre vals" and x: "x \<in> L" "nd_parent (nd c x) = Some m"
  shows "owned c pre vals x m = segment (rc_page_size c) (extra c x) (pre x) (vals x) (length (pre m)) (length (pre x))"
    and "owned c pre vals x m \<subseteq> stored c L pre vals"
proof -
  show "owned c pre vals x m = segment (rc_page_size c) (extra c x) (pre x) (vals x) (length (pre m)) (length (pre x))"
    by (simp add: owned_def segment_def)
  have "x \<noteq> rc_root c" using pre_parent(1) [OF t x] .
  with x(1) show "owned c pre vals x m \<subseteq> stored c L pre vals" unfolding owned_def by (auto intro: storedI)
qed

text \<open>The value of a leaf is a list of different whole pages, those of the entries that end in it.\<close>

lemma leaf_value_pages:
  assumes t: "rc_tree c L pre vals" and x: "x \<in> L" "nd_parent (nd c x) = Some m" "nd_value (nd c x) = Some v"
    and ok: "pages_ok (rc_page_size c) (stored c L pre vals)"
  shows "\<exists>gs. v = page_slots (rc_page_size c) gs \<and> distinct gs" "set v = cache_slots (rc_page_size c) (owned c pre vals x m)"
    "length v = nlen c x"
proof -
  let ?p = "rc_page_size c"
  note px = pre_parent [OF t x(1,2)]
  obtain u where u: "nd_value (nd c x) = Some u" "length u = nlen c x" "pre x = pre m @ units c x" "vals x = vals m @ u"
    "?p dvd nlen c x"
    using node_okE [OF t x(1) px(1)] x(2) by (metis option.inject)
  then have v: "vals x = vals m @ v" "length v = nlen c x" using x(3) by auto
  have l: "length (vals m) = length (pre m)" "length (vals x) = length (pre x)"
    using length_vals [OF t] x(1) px(2) by auto
  obtain q where q: "nlen c x = q * ?p" using u(5) by (metis dvd_def mult.commute)
  have len: "length (pre m) + q * ?p = length (pre x)" using u(3) q by simp
  have eq: "drop (length (pre m)) (take (length (pre x)) (vals x)) = v" using v l by simp
  obtain gs where gs: "v = page_slots ?p gs" "distinct gs" "set v = cache_slots ?p (owned c pre vals x m)"
  proof -
    have "\<exists>gs. v = page_slots ?p gs \<and> distinct gs \<and> set v = cache_slots ?p (owned c pre vals x m)"
      using segment_pages [OF rc_treeD(1) [OF t] page_dvd_pre [OF t px(2)] ok, of q "pre x" "vals x" "extra c x"]
      unfolding len eq owned_segment(1) [OF t x(1,2), symmetric]
      by (metis l(2) le_refl owned_segment(2) [OF t x(1,2)])
    then show ?thesis using that by blast
  qed
  then show "\<exists>gs. v = page_slots ?p gs \<and> distinct gs" "set v = cache_slots ?p (owned c pre vals x m)" "length v = nlen c x"
    using v by auto
qed

definition evict_frame :: "rcache \<Rightarrow> rcache \<Rightarrow> bool" where
  "evict_frame c c' \<longleftrightarrow> rc_page_size c' = rc_page_size c \<and> rc_is_eagle c' = rc_is_eagle c \<and> rc_root c' = rc_root c
   \<and> rc_counter c' = rc_counter c \<and> rc_disable c' = rc_disable c
   \<and> rc_disable_finished_insert c' = rc_disable_finished_insert c
   \<and> rc_enable_kv_cache_events c' = rc_enable_kv_cache_events c \<and> rc_strategy c' = rc_strategy c
   \<and> rc_protected_size c' = rc_protected_size c \<and> kv_slots (rc_allocator c') = kv_slots (rc_allocator c)
   \<and> (\<forall>n. nd_key (nd c' n) = nd_key (nd c n) \<and> nd_value (nd c' n) = nd_value (nd c n) \<and> lock c' n = lock c n
        \<and> heap_item (rc_strategy c) (rc_heap c') n = heap_item (rc_strategy c) (rc_heap c) n)"

lemma evict_frame_refl [simp]: "evict_frame c c"
  by (simp add: evict_frame_def)

lemma evict_frame_trans: "evict_frame c c' \<Longrightarrow> evict_frame c' c'' \<Longrightarrow> evict_frame c c''"
  by (simp add: evict_frame_def)

lemma evict_step:
  assumes w: "rc_wf c L pre vals" and s: "rc_slots c (stored c L pre vals) U" and x: "x \<in> free_leaves c L"
  shows "\<exists>v m a c1 c2. nd_value (nd c x) = Some v \<and> length v = nlen c x \<and> kv_free v (rc_allocator c) = Inr a
    \<and> delete_leaf x (c\<lparr>rc_allocator := a\<rparr>) = Inr c1 \<and> nd_parent (nd c1 x) = Some m
    \<and> record_remove_event sha x None c1 = Inr c2 \<and> rc_wf c2 (L - {x}) pre vals \<and> evict_frame c c2
    \<and> (\<forall>n. nd_children (nd c2 n) = nd_children (nd c1 n) \<and> lock c2 n = lock c1 n)
    \<and> rc_strategy c1 = rc_strategy c2 \<and> rc_heap c1 = rc_heap c2
    \<and> free_leaves c2 (L - {x}) = (if nd_children (nd c1 m) = [] \<and> lock c1 m = 0
         then insert m (free_leaves c L - {x}) else free_leaves c L - {x})
    \<and> m \<notin> free_leaves c L
    \<and> stored c2 (L - {x}) pre vals \<subseteq> stored c L pre vals
    \<and> set v = cache_slots (rc_page_size c) (stored c L pre vals) - cache_slots (rc_page_size c) (stored c2 (L - {x}) pre vals)
    \<and> distinct v \<and> rc_slots c2 (stored c2 (L - {x}) pre vals) (U - set v)
    \<and> rc_evictable_size c2 = rc_evictable_size c - int (length v)
    \<and> (\<forall>y\<in>L - {x}. held c2 (L - {x}) y = held c L y)"
proof -
  let ?p = "rc_page_size c"
  have t: "rc_tree c L pre vals" and hs: "rc_hash c L" using w by (auto simp: rc_wf_def)
  have x': "x \<in> L" "x \<noteq> rc_root c" "nd_children (nd c x) = []" "lock c x = 0" using x by (auto simp: free_leaves_def)
  obtain m v where m: "nd_parent (nd c x) = Some m" "nd_value (nd c x) = Some v"
    using node_okE [OF t x'(1,2)] by metis
  have ok: "pages_ok ?p (stored c L pre vals)" "cache_slots ?p (stored c L pre vals) \<subseteq> U" "kv_inv (rc_allocator c) U"
    "al_page_size (rc_allocator c) = ?p" using s by (auto simp: rc_slots_def)
  note v = leaf_value_pages [OF t x'(1) m ok(1)] and os = owned_segment [OF t x'(1) m(1)]
  obtain gs where gs: "v = page_slots ?p gs" "distinct gs" using v(1) by blast
  have dv: "distinct v" using gs distinct_page_slots rc_treeD(1) [OF t] by simp
  have vU: "set v \<subseteq> U" using v(2) ok(2) os(2) by (auto simp: cache_slots_def)
  obtain a where a: "kv_free v (rc_allocator c) = Inr a" "kv_inv a (U - set v)" "kv_slots a = kv_slots (rc_allocator c)"
    using kv.free_inv [OF ok(3) vU dv] gs ok(4) rc_treeD(1) [OF t] by auto
  have pa: "al_page_size a = ?p" using kv_free_page_size [OF a(1)] ok(4) by simp
  define c0 where "c0 = c\<lparr>rc_allocator := a\<rparr>"
  have c0: "rc_heap c0 = rc_heap c" "rc_root c0 = rc_root c" by (simp_all add: c0_def)
  have sa: "same_acct c c0" by (simp add: c0_def same_acct_def same_tree_def)
  have w0: "rc_wf c0 L pre vals"
    using w rc_tree_cong [OF _ same_acct_same_tree [OF sa]] rc_acct_cong [OF _ sa] rc_hash_cong [OF _ sa]
    by (simp add: rc_wf_def)
  have t0: "rc_tree c0 L pre vals" using w0 by (simp add: rc_wf_def)
  have x0: "nd_parent (nd c0 x) = Some m" "nd_children (nd c0 x) = []" "lock c0 x = 0" using m x' c0 by simp_all
  obtain c1 where c1: "delete_leaf x c0 = Inr c1" "is_leaf_del c0 x m c1"
    using delete_leaf_is_leaf_del [OF w0 x'(1) x0(1,2)] by blast
  note f = leaf_del_facts [OF t0 x'(1) x0(1,2) c1(2)] and la = leaf_del_acct [OF w0 x'(1) x0 c1(2)]
    and d = c1(2) [unfolded is_leaf_del_def]
  have "rc_enable_kv_cache_events c1 \<Longrightarrow> \<exists>hs. nd_hash_value (nd c1 x) = Some hs
      \<and> length hs * rc_page_size c1 = nlen c1 x \<and> (\<forall>h\<in>set hs. is_digest h)"
    using hs x'(1,2) d f(3) [of x] f(6) [of x] by (auto simp: rc_hash_def c0_def)
  moreover have "0 < rc_page_size c1" using rc_treeD(1) [OF t0] d by simp
  ultimately obtain evs where evs: "record_remove_event sha x None c1 = Inr (c1\<lparr>rc_kv_event_queue := rc_kv_event_queue c1 @ evs\<rparr>)"
    using record_remove_event_ok by blast
  define c2 where "c2 = c1\<lparr>rc_kv_event_queue := rc_kv_event_queue c1 @ evs\<rparr>"
  have sa2: "same_acct c1 c2" by (simp add: c2_def same_acct_def same_tree_def)
  have w2: "rc_wf c2 (L - {x}) pre vals"
    using la(1) rc_tree_cong [OF _ same_acct_same_tree [OF sa2]] rc_acct_cong [OF _ sa2] rc_hash_cong [OF _ sa2]
    by (simp add: rc_wf_def)
  have c2f: "rc_heap c2 = rc_heap c1" "rc_root c2 = rc_root c1" "rc_page_size c2 = rc_page_size c1" "rc_strategy c2 = rc_strategy c1"
    "rc_allocator c2 = rc_allocator c1" by (simp_all add: c2_def)
  have st2: "stored c2 (L - {x}) pre vals = stored c1 (L - {x}) pre vals" by (simp add: stored_def c2f)
  have st0: "stored c0 L pre vals = stored c L pre vals" "owned c0 pre vals x m = owned c pre vals x m"
    by (simp_all add: stored_def owned_def c0_def)
  have st: "stored c2 (L - {x}) pre vals = stored c L pre vals - owned c pre vals x m"
    using stored_leaf_del [OF t0 x'(1) x0(1,2) c1(2)] st2 st0 by simp
  have cs: "cache_slots ?p (stored c2 (L - {x}) pre vals) = cache_slots ?p (stored c L pre vals) - set v"
    unfolding st v(2) by (rule cache_slots_Diff [OF ok(1) os(2)])
  have sub: "set v \<subseteq> cache_slots ?p (stored c L pre vals)" using v(2) os(2) by (auto simp: cache_slots_def)
  have "rc_slots c2 (stored c2 (L - {x}) pre vals) (U - set v)"
    using a(2) pa d ok cs unfolding rc_slots_def c2f
    by (auto simp: c0_def st intro: pages_ok_mono [OF ok(1)])
  moreover have "evict_frame c c2" using d f(3,4,5,7,8) a(3) by (simp add: evict_frame_def c2_def c0_def heap_item_def)
  moreover have "m \<notin> free_leaves c L" using pre_parent(9) [OF t x'(1) m(1)] by (auto simp: free_leaves_def)
  moreover have "held c2 (L - {x}) y = held c L y" if "y \<in> L - {x}" for y
    using la(2) [OF that] by (simp add: held_def kids_def c2f c0)
  moreover have "free_leaves c2 (L - {x}) = (if nd_children (nd c1 m) = [] \<and> lock c1 m = 0
         then insert m (free_leaves c L - {x}) else free_leaves c L - {x})"
    using la(3) by (simp add: free_leaves_def c2f c0)
  moreover have "rc_evictable_size c2 = rc_evictable_size c - int (length v)" using d v(3) by (simp add: c2_def c0_def)
  moreover have "set v = cache_slots ?p (stored c L pre vals) - cache_slots ?p (stored c2 (L - {x}) pre vals)"
    unfolding cs using sub by blast
  moreover have "nd_parent (nd c1 x) = Some m" using f(2) [of x] x0(1) by simp
  moreover have "stored c2 (L - {x}) pre vals \<subseteq> stored c L pre vals" unfolding st by blast
  moreover have "delete_leaf x (c\<lparr>rc_allocator := a\<rparr>) = Inr c1" using c1(1) by (simp add: c0_def)
  moreover have "record_remove_event sha x None c1 = Inr c2" using evs by (simp add: c2_def)
  ultimately show ?thesis
    using m(2) v(3) a(1) w2 dv c2f(1,4)
    by - (rule exI [of _ v], rule exI [of _ m], rule exI [of _ a], rule exI [of _ c1],
        rule exI [of _ c2], intro conjI allI ballI, (assumption | simp)+)
qed

section \<open>The loop\<close>

definition evict_result ::
  "rcache \<Rightarrow> nat set \<Rightarrow> (nat \<Rightarrow> int list list) \<Rightarrow> (nat \<Rightarrow> int list) \<Rightarrow> int set \<Rightarrow> nat \<Rightarrow> nat \<Rightarrow> rcache \<Rightarrow> nat set \<Rightarrow> bool" where
  "evict_result c L pre vals U want k c' L' \<longleftrightarrow>
     rc_wf c' L' pre vals \<and> evict_frame c c' \<and> L' \<subseteq> L \<and> (\<forall>n\<in>L - L'. lock c n = 0)
   \<and> stored c' L' pre vals \<subseteq> stored c L pre vals
   \<and> rc_slots c' (stored c' L' pre vals)
       (U - (cache_slots (rc_page_size c) (stored c L pre vals) - cache_slots (rc_page_size c) (stored c' L' pre vals)))
   \<and> card (cache_slots (rc_page_size c) (stored c L pre vals) - cache_slots (rc_page_size c) (stored c' L' pre vals)) = k
   \<and> rc_evictable_size c' = rc_evictable_size c - int k
   \<and> (want \<le> k \<or> rc_evictable_size c' = 0) \<and> (k = 0 \<or> 0 < want \<and> (\<exists>x\<in>L - L'. k < want + nlen c x))
   \<and> (\<forall>x\<in>L - L'. \<forall>y\<in>free_leaves c L \<inter> L'. fst (heap_item (rc_strategy c) (rc_heap c) x) \<le> fst (heap_item (rc_strategy c) (rc_heap c) y))
   \<and> (\<forall>y\<in>L'. held c' L' y = held c L y)"

lemma evict_result_refl:
  assumes "rc_wf c L pre vals" "rc_slots c (stored c L pre vals) U" "want = 0 \<or> rc_evictable_size c = 0"
  shows "evict_result c L pre vals U want 0 c L"
  using assms by (auto simp: evict_result_def)

lemma evict_result_step:
  assumes s: "rc_slots c (stored c L pre vals) U" and x: "x \<in> free_leaves c L" and l: "length v = nlen c x" "0 < want"
    and f: "evict_frame c c2" "stored c2 (L - {x}) pre vals \<subseteq> stored c L pre vals"
    and v: "set v = cache_slots (rc_page_size c) (stored c L pre vals) - cache_slots (rc_page_size c) (stored c2 (L - {x}) pre vals)" "distinct v"
    and e: "rc_evictable_size c2 = rc_evictable_size c - int (length v)"
    and h: "\<forall>y\<in>L - {x}. held c2 (L - {x}) y = held c L y"
    and fl: "free_leaves c L - {x} \<subseteq> free_leaves c2 (L - {x})"
    and mn: "\<forall>y\<in>free_leaves c L. fst (heap_item (rc_strategy c) (rc_heap c) x) \<le> fst (heap_item (rc_strategy c) (rc_heap c) y)"
    and r: "evict_result c2 (L - {x}) pre vals (U - set v) (want - length v) k c' L'"
  shows "evict_result c L pre vals U want (length v + k) c' L'"
proof -
  note R = r [unfolded evict_result_def] and F = f(1) [unfolded evict_frame_def]
  let ?p = "rc_page_size c"
  define A where "A = cache_slots ?p (stored c L pre vals)"
  define B where "B = cache_slots ?p (stored c2 (L - {x}) pre vals)"
  define C where "C = cache_slots ?p (stored c' L' pre vals)"
  have p2: "rc_page_size c2 = ?p" using F by simp
  have "B \<subseteq> A" using f(2) by (auto simp: A_def B_def cache_slots_def)
  have "C \<subseteq> B" using R by (auto simp: B_def C_def cache_slots_def)
  have vAB: "set v = A - B" using v(1) by (simp add: A_def B_def)
  have AC: "A - C = set v \<union> (B - C)" using \<open>B \<subseteq> A\<close> \<open>C \<subseteq> B\<close> vAB by blast
  have "A \<subseteq> U" "kv_inv (rc_allocator c) U" using s by (simp_all add: rc_slots_def A_def)
  then have "finite A" using kv.inv_slots [of "rc_allocator c" U] by (meson finite_subset)
  then have cAC: "card (A - C) = length v + card (B - C)"
    unfolding AC using \<open>B \<subseteq> A\<close> vAB distinct_card [OF v(2)] by (subst card_Un_disjoint) (auto intro: finite_subset)
  have R': "evict_frame c2 c'" "L' \<subseteq> L - {x}" "\<forall>n\<in>L - {x} - L'. lock c2 n = 0"
      "\<forall>y\<in>L'. held c' L' y = held c2 (L - {x}) y" "want - length v \<le> k \<or> rc_evictable_size c' = 0"
      "stored c' L' pre vals \<subseteq> stored c2 (L - {x}) pre vals" "rc_wf c' L' pre vals" "rc_evictable_size c' = rc_evictable_size c2 - int k"
      "rc_slots c' (stored c' L' pre vals) (U - set v - (B - C))" "card (B - C) = k"
      "k = 0 \<or> 0 < want - length v \<and> (\<exists>y\<in>L - {x} - L'. k < want - length v + nlen c2 y)"
    using R unfolding B_def C_def p2 by argo+
  have xL: "x \<in> L" "x \<notin> L'" "lock c x = 0" using x R'(2) by (auto simp: free_leaves_def)
  show ?thesis unfolding evict_result_def A_def [symmetric] C_def [symmetric]
  proof (intro conjI ballI)
    show "rc_wf c' L' pre vals" by (rule R'(7))
    show "evict_frame c c'" by (rule evict_frame_trans [OF f(1) R'(1)])
    show "L' \<subseteq> L" using R'(2) by blast
    show "lock c n = 0" if "n \<in> L - L'" for n
    proof (cases "n = x")
      case False
      then have "lock c2 n = 0" using R'(3) that by blast
      then show ?thesis using F by simp
    qed (simp add: xL(3))
    show "stored c' L' pre vals \<subseteq> stored c L pre vals" using R'(6) f(2) by blast
    have "U - (A - C) = U - set v - (B - C)" unfolding AC by blast
    then show "rc_slots c' (stored c' L' pre vals) (U - (A - C))" using R'(9) by simp
    show "card (A - C) = length v + k" using cAC R'(10) by simp
    show "rc_evictable_size c' = rc_evictable_size c - int (length v + k)" using R'(8) e by simp
    show "want \<le> length v + k \<or> rc_evictable_size c' = 0" using R'(5) by linarith
    have "\<exists>y\<in>L - L'. length v + k < want + nlen c y"
    proof (cases "k = 0")
      case True
      then show ?thesis using xL l by (intro bexI [of _ x]) auto
    next
      case False
      then obtain y where y: "y \<in> L - {x} - L'" "k < want - length v + nlen c2 y" "0 < want - length v" using R'(11) by blast
      then show ?thesis using F by (intro bexI [of _ y]) auto
    qed
    with l(2) show "length v + k = 0 \<or> 0 < want \<and> (\<exists>y\<in>L - L'. length v + k < want + nlen c y)" by blast
    show "fst (heap_item (rc_strategy c) (rc_heap c) z) \<le> fst (heap_item (rc_strategy c) (rc_heap c) y)"
      if "z \<in> L - L'" "y \<in> free_leaves c L \<inter> L'" for y z
    proof (cases "z = x")
      case True
      then show ?thesis using mn that by blast
    next
      case False
      then have "z \<in> L - {x} - L'" "y \<in> free_leaves c2 (L - {x}) \<inter> L'" using that fl xL(2) by auto
      with R have "fst (heap_item (rc_strategy c2) (rc_heap c2) z) \<le> fst (heap_item (rc_strategy c2) (rc_heap c2) y)" by blast
      then show ?thesis using F by simp
    qed
    show "held c' L' y = held c L y" if "y \<in> L'" for y using R'(2,4) h that by (metis subsetD)
  qed
qed

lemma evict_loop_spec:
  assumes "rc_wf c L pre vals" "rc_slots c (stored c L pre vals) U" "heap_from 0 hp"
    "mset hp = image_mset (heap_item (rc_strategy c) (rc_heap c)) (mset_set (free_leaves c L))" "card L < fuel"
  shows "\<exists>k c' L'. evict_loop fuel sha num hp got c = Inr (got + k, c') \<and> evict_result c L pre vals U (num - got) k c' L'"
  using assms
proof (induction fuel arbitrary: c L U hp got)
  case (Suc fuel)
  note w = Suc.prems(1) and s = Suc.prems(2)
  let ?hi = "heap_item (rc_strategy c) (rc_heap c)"
  have t: "rc_tree c L pre vals" using w by (simp add: rc_wf_def)
  have fin: "finite (free_leaves c L)" "finite L" using rc_treeD(2) [OF t] by (auto simp: free_leaves_def)
  show ?case
  proof (cases "got < num")
    case False
    with evict_result_refl [OF w s, of 0] show ?thesis by (intro exI [of _ 0] exI [of _ c] exI [of _ L]) simp
  next
    case True
    show ?thesis
    proof (cases "heappop hp")
      case None
      then have "mset hp = {#}" using hq.pop_None by blast
      then have "free_leaves c L = {}" using Suc.prems(4) fin by (simp add: mset_set_empty_iff)
      with evict_result_refl [OF w s] no_free_leaf_size [OF w] None True show ?thesis
        by (intro exI [of _ 0] exI [of _ c] exI [of _ L]) simp
    next
      case (Some r)
      then obtain key x hp1 where pop: "heappop hp = Some ((key, x), hp1)" by (metis surj_pair)
      have "(key, x) \<in># mset hp" using hq.pop_mem [OF pop] .
      then have xf: "x \<in> free_leaves c L" "(key, x) = ?hi x"
        using Suc.prems(4) fin by (auto simp: heap_item_def)
      have mn: "\<forall>y\<in>free_leaves c L. fst (?hi x) \<le> fst (?hi y)"
        using hq.pop_min [OF Suc.prems(3) pop] xf(2) Suc.prems(4) fin by auto
      have "mset hp = add_mset (?hi x) (mset hp1)" using hq.items_pop [OF pop] xf(2) by simp
      moreover have "mset_set (free_leaves c L) = add_mset x (mset_set (free_leaves c L - {x}))"
        using xf(1) fin(1) by (simp add: mset_set.remove)
      ultimately have hp1: "mset hp1 = image_mset ?hi (mset_set (free_leaves c L - {x}))"
        using Suc.prems(4) by simp
      obtain v m a c1 c2 where st: "nd_value (nd c x) = Some v" "length v = nlen c x" "kv_free v (rc_allocator c) = Inr a"
        "delete_leaf x (c\<lparr>rc_allocator := a\<rparr>) = Inr c1" "nd_parent (nd c1 x) = Some m"
        "record_remove_event sha x None c1 = Inr c2" "rc_wf c2 (L - {x}) pre vals" "evict_frame c c2"
        "rc_strategy c1 = rc_strategy c2" "rc_heap c1 = rc_heap c2"
        "free_leaves c2 (L - {x}) = (if nd_children (nd c1 m) = [] \<and> lock c1 m = 0
         then insert m (free_leaves c L - {x}) else free_leaves c L - {x})"
        "m \<notin> free_leaves c L" "stored c2 (L - {x}) pre vals \<subseteq> stored c L pre vals"
        "set v = cache_slots (rc_page_size c) (stored c L pre vals) - cache_slots (rc_page_size c) (stored c2 (L - {x}) pre vals)"
        "distinct v" "rc_slots c2 (stored c2 (L - {x}) pre vals) (U - set v)"
        "rc_evictable_size c2 = rc_evictable_size c - int (length v)"
        "\<forall>y\<in>L - {x}. held c2 (L - {x}) y = held c L y"
        using evict_step [OF w s xf(1), of sha] by blast
      define hp2 where "hp2 = (if nd_children (nd c1 m) = [] \<and> lock c1 m = 0
         then heappush hp1 (heap_item (rc_strategy c1) (rc_heap c1) m) else hp1)"
      have hi2: "heap_item (rc_strategy c2) (rc_heap c2) = ?hi" using st(8) by (simp add: evict_frame_def fun_eq_iff)
      have "heap_from 0 hp1" using hq.ordered_pop [OF Suc.prems(3) pop] .
      then have h2: "heap_from 0 hp2" by (simp add: hp2_def hq.ordered_push)
      have m2: "mset hp2 = image_mset (heap_item (rc_strategy c2) (rc_heap c2)) (mset_set (free_leaves c2 (L - {x})))"
        unfolding hp2_def st(9,10) hi2 st(11) using hp1 st(12) fin(1) by (simp add: hq.items_push st(10))
      have "x \<in> L" using xf(1) by (simp add: free_leaves_def)
      then have "card (L - {x}) < fuel" using Suc.prems(5) fin(2) card_Diff1_less [of L x] by linarith
      then obtain k c' L' where r: "evict_loop fuel sha num hp2 (got + length v) c2 = Inr (got + length v + k, c')"
        "evict_result c2 (L - {x}) pre vals (U - set v) (num - (got + length v)) k c' L'"
        using Suc.IH [OF st(7,16) h2 m2] by blast
      have r2: "evict_result c2 (L - {x}) pre vals (U - set v) (num - got - length v) k c' L'"
        unfolding diff_diff_left by (rule r(2))
      have "evict_result c L pre vals U (num - got) (length v + k) c' L'"
      proof (rule evict_result_step [OF s xf(1) st(2) _ st(8,13,14,15,17,18) _ mn r2])
        show "0 < num - got" using True by simp
        show "free_leaves c L - {x} \<subseteq> free_leaves c2 (L - {x})" unfolding st(11) by auto
      qed
      moreover have "evict_loop (Suc fuel) sha num hp got c = Inr (got + (length v + k), c')"
        using True pop st(1,3,4,5,6) r(1) by (simp add: hp2_def add.assoc)
      ultimately show ?thesis by blast
    qed
  qed
qed simp

lemma evict_spec:
  assumes w: "rc_wf c L pre vals" and s: "rc_slots c (stored c L pre vals) U" and en: "\<not> rc_disable c"
    and lv: "distinct leaves" "set leaves = rc_evictable_leaves c"
  shows "\<exists>k c' L'. evict sha num leaves c = Inr (k, c') \<and> evict_result c L pre vals U num k c' L'"
proof -
  have t: "rc_tree c L pre vals" using w by (simp add: rc_wf_def)
  have "rc_evictable_leaves c = free_leaves c L" using w by (simp add: rc_wf_def rc_acct_def)
  then have "mset leaves = mset_set (free_leaves c L)" using lv by (metis mset_set_set)
  then have m: "mset (heapify (map (heap_item (rc_strategy c) (rc_heap c)) leaves))
      = image_mset (heap_item (rc_strategy c) (rc_heap c)) (mset_set (free_leaves c L))"
    by (simp add: hq.items_build)
  have "L \<subseteq> {..<rc_counter c}" using rc_treeD(7) [OF t] by auto
  then have "card L < Suc (rc_counter c)" using card_mono [of "{..<rc_counter c}" L] by simp
  from evict_loop_spec [OF w s hq.ordered_build m this, of sha num 0] en show ?thesis
    by (simp add: evict_def)
qed

end
