(* ===== verification/Prefix_Cache.thy ===== *)
theory Prefix_Cache
  imports Radix_Evict
begin

text \<open>
  The contract of a prefix cache (\<open>BasePrefixCache\<close>), stated on the content of the cache as a
  partial map from namespaced prefixes to slots, and the proof that \<open>RadixCache\<close> keeps it.
  The interface is the locale \<open>prefix_cache\<close>; its interpretation on the radix cache carries the
  properties of this theory.
\<close>

section \<open>The interface\<close>

locale prefix_cache =
  fixes inv :: "'s \<Rightarrow> bool"
    and entries :: "'s \<Rightarrow> entry set"
    and page :: "'s \<Rightarrow> nat"
    and units_of :: "'s \<Rightarrow> 'k \<Rightarrow> int list list"
    and ns :: "'k \<Rightarrow> string option"
    and fits :: "'s \<Rightarrow> 'k \<Rightarrow> bool"
    and look :: "int \<Rightarrow> 'k \<Rightarrow> 's \<Rightarrow> (int list \<times> nat \<times> 's) res"
    and add :: "int \<Rightarrow> 'k \<Rightarrow> int list \<Rightarrow> 's \<Rightarrow> (nat \<times> 's) res"
  assumes functional: "inv s \<Longrightarrow> (e, us, vs) \<in> entries s \<Longrightarrow> (e, us, vs') \<in> entries s \<Longrightarrow> vs = vs'"
    and entry_length: "inv s \<Longrightarrow> (e, us, vs) \<in> entries s \<Longrightarrow> length vs = length us"
    and page_units: "inv s \<Longrightarrow> fits s k \<Longrightarrow> 0 < page s \<and> page s dvd length (units_of s k)"
    and look_spec: "inv s \<Longrightarrow> fits s k \<Longrightarrow>
       \<exists>idx n s'. look now k s = Inr (idx, n, s') \<and> inv s' \<and> entries s' = entries s \<and> page s' = page s
         \<and> units_of s' = units_of s \<and> fits s' = fits s
         \<and> longest_match (entries s) (ns k) (units_of s k) (length idx)
         \<and> (idx \<noteq> [] \<longrightarrow> (ns k, take (length idx) (units_of s k), idx) \<in> entries s)"
    and add_spec: "inv s \<Longrightarrow> fits s k \<Longrightarrow> length (units_of s k) \<le> length v \<Longrightarrow>
       \<exists>n s' ws. add now k v s = Inr (n, s') \<and> inv s' \<and> page s' = page s \<and> units_of s' = units_of s \<and> fits s' = fits s
         \<and> length ws = n \<and> longest_match (entries s) (ns k) (units_of s k) n
         \<and> (0 < n \<longrightarrow> (ns k, take n (units_of s k), ws) \<in> entries s)
         \<and> entries s' = entries s \<union> prefixes_of (page s) (ns k) (units_of s k) (ws @ drop n (take (length (units_of s k)) v))"
begin

lemma look_hit:
  assumes "inv s" "fits s k" "(ns k, units_of s k, vs) \<in> entries s" "units_of s k \<noteq> []"
  shows "\<exists>n s'. look now k s = Inr (vs, n, s') \<and> inv s' \<and> entries s' = entries s"
proof -
  obtain idx n s' where l: "look now k s = Inr (idx, n, s')" "inv s'" "entries s' = entries s"
    "longest_match (entries s) (ns k) (units_of s k) (length idx)"
    "idx \<noteq> [] \<longrightarrow> (ns k, take (length idx) (units_of s k), idx) \<in> entries s"
    using look_spec [OF assms(1,2), of now] by blast
  from assms(3) l(4) have "length (units_of s k) \<le> length idx" "length idx \<le> length (units_of s k)"
    by (auto simp: longest_match_def)
  then have len: "length idx = length (units_of s k)" by simp
  then have "(ns k, units_of s k, idx) \<in> entries s" using l(5) assms(4) by auto
  from functional [OF assms(1) this assms(3)] l show ?thesis by auto
qed

lemma prefixes_of_full:
  "us \<noteq> [] \<Longrightarrow> p dvd length us \<Longrightarrow> length ws = length us \<Longrightarrow> (e, us, ws) \<in> prefixes_of p e us ws"
  by (auto simp: prefixes_of_def intro!: exI [of _ "length us"])

text \<open>After an insertion a lookup of the same key returns a slot for every unit, and the slots are
  the cached ones where the key was cached and the inserted ones beyond.\<close>

lemma add_then_look:
  assumes "inv s" "fits s k" "length (units_of s k) \<le> length v" "units_of s k \<noteq> []"
  shows "\<exists>n s' ws m s''. add now k v s = Inr (n, s') \<and> longest_match (entries s) (ns k) (units_of s k) n
     \<and> length ws = n \<and> (0 < n \<longrightarrow> (ns k, take n (units_of s k), ws) \<in> entries s)
     \<and> look now' k s' = Inr (ws @ drop n (take (length (units_of s k)) v), m, s'') \<and> entries s'' = entries s'"
proof -
  let ?us = "units_of s k"
  obtain n s' ws where a: "add now k v s = Inr (n, s')" "inv s'" "units_of s' = units_of s" "fits s' = fits s"
    "length ws = n" "longest_match (entries s) (ns k) ?us n" "0 < n \<longrightarrow> (ns k, take n ?us, ws) \<in> entries s"
    "entries s' = entries s \<union> prefixes_of (page s) (ns k) ?us (ws @ drop n (take (length ?us) v))"
    using add_spec [OF assms(1-3), of now] by blast
  have "length (ws @ drop n (take (length ?us) v)) = length ?us" using a(5,6) assms(3) by (simp add: longest_match_def)
  with prefixes_of_full [OF assms(4)] page_units [OF assms(1,2)]
  have "(ns k, ?us, ws @ drop n (take (length ?us) v)) \<in> entries s'" unfolding a(8) by blast
  from look_hit [of s' k, OF a(2)] this a(3,4) assms(2,4) obtain m s'' where
    "look now' k s' = Inr (ws @ drop n (take (length ?us) v), m, s'')" "entries s'' = entries s'" by metis
  with a show ?thesis by blast
qed

text \<open>Inserting what is already cached changes nothing.\<close>

lemma add_cached:
  assumes "inv s" "fits s k" "length (units_of s k) \<le> length v" "(ns k, units_of s k, vs) \<in> entries s"
    and closed: "prefixes_of (page s) (ns k) (units_of s k) vs \<subseteq> entries s"
  shows "\<exists>s'. add now k v s = Inr (length (units_of s k), s') \<and> inv s' \<and> entries s' = entries s"
proof -
  let ?us = "units_of s k"
  obtain n s' ws where a: "add now k v s = Inr (n, s')" "inv s'"
    "length ws = n" "longest_match (entries s) (ns k) ?us n" "0 < n \<longrightarrow> (ns k, take n ?us, ws) \<in> entries s"
    "entries s' = entries s \<union> prefixes_of (page s) (ns k) ?us (ws @ drop n (take (length ?us) v))"
    using add_spec [OF assms(1-3), of now] by blast
  have n: "n = length ?us" using a(4) assms(4) by (auto simp: longest_match_def intro: le_antisym)
  have "prefixes_of (page s) (ns k) ?us (ws @ drop n (take (length ?us) v)) \<subseteq> entries s"
  proof (cases "?us = []")
    case False
    then have "ws = vs" using a(5) n functional [OF assms(1) _ assms(4)] by simp
    with closed n show ?thesis by simp
  qed (simp add: prefixes_of_def)
  then have "entries s' = entries s" unfolding a(6) by blast
  with a(1,2) n show ?thesis by blast
qed

end

section \<open>The radix cache keeps the contract\<close>

lemma rc_inv_wfE:
  assumes "rc_inv c"
  obtains L pre vals where "rc_wf c L pre vals" "rc_tree c L pre vals" "live c = L" "content c = stored c L pre vals"
  using assms live_eq content_eq unfolding rc_inv_def rc_wf_def by metis

lemma wf_contentD:
  assumes "rc_wf c L pre vals"
  shows "rc_inv c" "live c = L" "content c = stored c L pre vals"
  using assms live_eq content_eq unfolding rc_inv_def rc_wf_def by blast+

lemma stored_functional:
  assumes t: "rc_tree c L pre vals" and e: "(ek, us, vs) \<in> stored c L pre vals" "(ek, us, vs') \<in> stored c L pre vals"
  shows "vs = vs'"
proof -
  obtain b k where b: "b \<in> L" "k \<le> length (pre b)" "rc_page_size c dvd k" "(ek, us, vs) = (extra c b, take k (pre b), take k (vals b))"
    using e(1) by (blast elim: storedE)
  obtain b' k' where b': "b' \<in> L" "k' \<le> length (pre b')" "(ek, us, vs') = (extra c b', take k' (pre b'), take k' (vals b'))"
    using e(2) by (blast elim: storedE)
  have "k = k'" using b(2,4) b'(2,3) by (metis Pair_inject length_take min.absorb2)
  then show ?thesis using same_prefix_same_slots [OF t b(1) b'(1) _ b(3,2)] b b' by simp
qed

lemma stored_length: "rc_tree c L pre vals \<Longrightarrow> (ek, us, vs) \<in> stored c L pre vals \<Longrightarrow> length vs = length us"
  by (auto elim!: storedE simp: length_vals)

lemma stored_closed:
  assumes "(ek, us, vs) \<in> stored c L pre vals" "0 < j" "j \<le> length us" "rc_page_size c dvd j"
  shows "(ek, take j us, take j vs) \<in> stored c L pre vals"
proof -
  obtain b k where b: "b \<in> L" "b \<noteq> rc_root c" "k \<le> length (pre b)" "ek = extra c b" "us = take k (pre b)" "vs = take k (vals b)"
    using assms(1) by (auto elim: storedE)
  then have "j \<le> k" "j \<le> length (pre b)" using assms(3) by auto
  then have "take j us = take j (pre b)" "take j vs = take j (vals b)" unfolding b(5,6) by (simp_all add: min_absorb1)
  with storedI [OF b(1,2) assms(2) _ assms(4), of pre vals] b(4) \<open>j \<le> length (pre b)\<close> show ?thesis by simp
qed

definition rc_enabled :: "rcache \<Rightarrow> bool" where
  "rc_enabled c \<longleftrightarrow> rc_inv c \<and> \<not> rc_disable c"

text \<open>With events on, tokens must fit the four bytes the hash takes of each of them.\<close>

definition rc_key_fits :: "(nat list \<Rightarrow> nat list) \<Rightarrow> rcache \<Rightarrow> radix_key \<Rightarrow> bool" where
  "rc_key_fits sha c key \<longleftrightarrow> key_ok c key \<and> (rc_enable_kv_cache_events c \<longrightarrow> sha_ok sha \<and> toks_ok key)"

lemma aligned_units_dvd: "0 < rc_page_size c \<Longrightarrow> rc_page_size c dvd length (aligned_units c key)"
  using page_floor_dvd by (simp add: aligned_units_def page_floor_le min_absorb2 del: page_floor_def)

lemma frame_units:
  assumes "rc_frame c L pre vals c' L' pre' vals'"
  shows "aligned_units c' = aligned_units c" "rc_key_fits sha c' = rc_key_fits sha c" "rc_page_size c' = rc_page_size c" "rc_disable c' = rc_disable c"
  using assms by (simp_all add: rc_frame_def aligned_units_def key_view_def rc_key_fits_def key_ok_def fun_eq_iff)

interpretation rcx: prefix_cache rc_enabled content rc_page_size aligned_units extra_key "rc_key_fits sha" match_prefix
  "\<lambda>now key v. insert_key sha now key (Some v) prio chunked" for sha prio chunked
proof (unfold_locales, goal_cases)
  case (1 s e us vs vs')
  then show ?case using stored_functional by (metis rc_enabled_def rc_inv_wfE)
next
  case (2 s e us vs)
  then show ?case using stored_length by (metis rc_enabled_def rc_inv_wfE)
next
  case (3 s k)
  then show ?case using aligned_units_dvd rc_treeD(1) by (metis rc_enabled_def rc_inv_wfE)
next
  case (4 c key now)
  then obtain L pre vals where w: "rc_wf c L pre vals" "content c = stored c L pre vals" "\<not> rc_disable c" "key_ok c key"
    by (metis rc_enabled_def rc_inv_wfE rc_key_fits_def)
  obtain idx node c' L' pre' vals' where m: "match_prefix now key c = Inr (idx, node, c')"
    "rc_wf c' L' pre' vals'" "rc_frame c L pre vals c' L' pre' vals'" "stored c' L' pre' vals' = stored c L pre vals"
    "path_end c' L' pre' (extra_key key) (aligned_units c key) node" "idx = vals' node"
    using match_prefix_spec [OF w(1,3,4), of now] by blast
  have t': "rc_tree c' L' pre' vals'" using m(2) by (simp add: rc_wf_def)
  note pe = path_end_longest [OF t' m(5), unfolded m(4)] and f = frame_units [OF m(3)] and wc = wf_contentD [OF m(2)]
  have len: "length (pre' node) = length idx" using m(5,6) length_vals [OF t'] by (simp add: path_end_def)
  have "rc_enabled c'" using wc w(3) f by (simp add: rc_enabled_def)
  moreover have "(extra_key key, take (length idx) (aligned_units c key), idx) \<in> content c" if "idx \<noteq> []"
    using pe(3) len that m(6) w(2) by (metis length_0_conv)
  ultimately show ?case using m(1,4) pe(1) f wc w(2) len
    by (intro exI [of _ idx] exI [of _ node] exI [of _ c']) simp
next
  case (5 c key v now)
  then obtain L pre vals where w: "rc_wf c L pre vals" "content c = stored c L pre vals" "\<not> rc_disable c" "key_ok c key"
    by (metis rc_enabled_def rc_inv_wfE rc_key_fits_def)
  have ev: "rc_enable_kv_cache_events c \<Longrightarrow> sha_ok sha \<and> toks_ok key" using 5 by (simp add: rc_key_fits_def)
  obtain n c' L' pre' vals' ws where i: "insert_key sha now key (Some v) prio chunked c = Inr (n, c')"
    "rc_wf c' L' pre' vals'" "rc_frame c L pre vals c' L' pre' vals'"
    "length ws = n" "longest_match (stored c L pre vals) (extra_key key) (aligned_units c key) n"
    "0 < n \<longrightarrow> (extra_key key, take n (aligned_units c key), ws) \<in> stored c L pre vals"
    "stored c' L' pre' vals' = stored c L pre vals
          \<union> prefixes_of (rc_page_size c) (extra_key key) (aligned_units c key) (ws @ drop n (take (length (aligned_units c key)) v))"
    using insert_key_spec [OF w(1,3,4) 5(3) ev, of now prio chunked] by blast
  note f = frame_units [OF i(3)] and wc = wf_contentD [OF i(2)]
  have "rc_enabled c'" using wc w(3) f by (simp add: rc_enabled_def)
  then show ?case using i f wc w(2)
    by (intro exI [of _ n] exI [of _ c'] exI [of _ ws]) simp
qed

section \<open>Slots of the cache after an insertion\<close>

lemma rc_enabledD:
  assumes "rc_enabled c"
  shows "(ek, us, vs) \<in> content c \<Longrightarrow> (ek, us, vs') \<in> content c \<Longrightarrow> vs = vs'"
    and "(ek, us, vs) \<in> content c \<Longrightarrow> length vs = length us \<and> rc_page_size c dvd length us \<and> us \<noteq> []"
    and "(ek, us, vs) \<in> content c \<Longrightarrow> 0 < j \<Longrightarrow> j \<le> length us \<Longrightarrow> rc_page_size c dvd j \<Longrightarrow> (ek, take j us, take j vs) \<in> content c"
    and "0 < rc_page_size c"
proof -
  obtain L pre vals where w: "rc_wf c L pre vals" "rc_tree c L pre vals" "content c = stored c L pre vals"
    using assms by (metis rc_enabled_def rc_inv_wfE)
  show "(ek, us, vs) \<in> content c \<Longrightarrow> (ek, us, vs') \<in> content c \<Longrightarrow> vs = vs'"
    using stored_functional [OF w(2)] w(3) by simp
  show "(ek, us, vs) \<in> content c \<Longrightarrow> length vs = length us \<and> rc_page_size c dvd length us \<and> us \<noteq> []"
    using stored_length [OF w(2)] w(3) by (auto elim!: storedE)
  show "(ek, us, vs) \<in> content c \<Longrightarrow> 0 < j \<Longrightarrow> j \<le> length us \<Longrightarrow> rc_page_size c dvd j \<Longrightarrow> (ek, take j us, take j vs) \<in> content c"
    using stored_closed w(3) by simp
  show "0 < rc_page_size c" by (rule rc_treeD(1) [OF w(2)])
qed

lemma longest_page_dvd:
  assumes "rc_enabled c" "longest_match (content c) ek us n"
  shows "rc_page_size c dvd n" "n \<le> length us"
proof -
  show "n \<le> length us" using assms(2) by (simp add: longest_match_def)
  then show "rc_page_size c dvd n"
    using assms(2) rc_enabledD(2) [OF assms(1)] unfolding longest_match_def by (metis dvd_0_right length_take min.absorb2)
qed

lemma added_entries:
  assumes en: "rc_enabled c" and lm: "longest_match (content c) ek us n" "length ws = n"
    "0 < n \<longrightarrow> (ek, take n us, ws) \<in> content c"
  shows "content c \<union> prefixes_of (rc_page_size c) ek us (ws @ rest)
    = content c \<union> segment (rc_page_size c) ek us (ws @ rest) n (length us)"
proof -
  have "(ek, take j us, take j (ws @ rest)) \<in> content c" if j: "0 < j" "j \<le> n" "rc_page_size c dvd j" for j
  proof -
    have "(ek, take j (take n us), take j ws) \<in> content c"
      by (rule rc_enabledD(3) [OF en]) (use lm j longest_page_dvd [OF en lm(1)] in auto)
    then show ?thesis using j lm(2) by (simp add: min_absorb1)
  qed
  then show ?thesis unfolding prefixes_of_def segment_def by (auto simp: not_less) (metis not_less)
qed

lemma insert_slots:
  assumes en: "rc_enabled c" and s: "rc_slots c (content c) U"
    and lm: "longest_match (content c) ek us n" "length ws = n" "0 < n \<longrightarrow> (ek, take n us, ws) \<in> content c"
    and v: "length v = length us" "drop n v = page_slots (rc_page_size c) gs" "distinct gs"
    and fresh: "set (drop n v) \<inter> cache_slots (rc_page_size c) (content c) = {}"
  defines "M \<equiv> content c \<union> prefixes_of (rc_page_size c) ek us (ws @ drop n v)"
  shows "pages_ok (rc_page_size c) M" "cache_slots (rc_page_size c) M = cache_slots (rc_page_size c) (content c) \<union> set (drop n v)"
proof -
  let ?p = "rc_page_size c"
  have M: "M = content c \<union> segment ?p ek us (ws @ drop n v) n (length us)"
    unfolding M_def by (rule added_entries [OF en lm])
  note d = longest_page_dvd [OF en lm(1)]
  have "length (drop n v) = ?p * length gs" unfolding v(2) by simp
  then have len: "length us = n + length gs * ?p" using v(1) d(2) by (simp add: mult.commute)
  have "pages_ok ?p (content c \<union> segment ?p ek us (ws @ drop n v) n (n + length gs * ?p))
    \<and> cache_slots ?p (content c \<union> segment ?p ek us (ws @ drop n v) n (n + length gs * ?p))
      = cache_slots ?p (content c) \<union> set (page_slots ?p (take (length gs) gs))"
    by (rule segment_add [OF rc_enabledD(4) [OF en] d(1)])
      (use s fresh v lm(2) len d in \<open>auto simp: rc_slots_def\<close>)
  then show "pages_ok ?p M" "cache_slots ?p M = cache_slots ?p (content c) \<union> set (drop n v)"
    unfolding M len v(2) by simp_all
qed

section \<open>A new cache\<close>

lemma reset_enabled:
  assumes "0 < rc_page_size c" "\<not> rc_disable c"
  shows "rc_enabled (reset now c)" "content (reset now c) = {}" "live (reset now c) = {rc_root (reset now c)}"
proof -
  note w = reset_wf(1) [OF assms(1), of now] and r = reset_wf(2) [OF assms(1), of now]
  have "rc_disable (reset now c) = rc_disable c"
    by (simp add: reset_def new_tree_node_def record_all_cleared_event_def Let_def)
  with assms(2) wf_contentD [OF w] show "rc_enabled (reset now c)" by (simp add: rc_enabled_def)
  show "live (reset now c) = {rc_root (reset now c)}" using wf_contentD(2) [OF w] r by simp
  show "content (reset now c) = {}" using wf_contentD(3) [OF w] by (simp add: stored_def)
qed

lemma reset_fields:
  "rc_page_size (reset now c) = rc_page_size c" "rc_is_eagle (reset now c) = rc_is_eagle c"
  "rc_enable_kv_cache_events (reset now c) = rc_enable_kv_cache_events c" "rc_allocator (reset now c) = rc_allocator c"
  "rc_strategy (reset now c) = rc_strategy c" "rc_evictable_size (reset now c) = 0" "rc_protected_size (reset now c) = 0"
  "rc_evictable_leaves (reset now c) = {}" "rc_disable_finished_insert (reset now c) = rc_disable_finished_insert c"
  by (simp_all add: reset_def new_tree_node_def record_all_cleared_event_def Let_def)

text \<open>
  Construction fails exactly for an unknown policy name; a new cache (and a cache after
  \<open>reset\<close>) satisfies the invariant, holds nothing, and every byte of it is neither evictable nor
  protected.
\<close>

theorem radix_init_empty:
  assumes "0 < p"
  shows "(case mk_eviction_strategy policy of
       Inl e \<Rightarrow> radix_init disable p eagle fin ev policy a cnt now = Inl e \<and> e = ValueError
     | Inr st \<Rightarrow> \<exists>c. radix_init disable p eagle fin ev policy a cnt now = Inr c \<and> rc_inv c \<and> content c = {}
          \<and> live c = {rc_root c} \<and> rc_evictable_size c = 0 \<and> rc_protected_size c = 0 \<and> rc_strategy c = st
          \<and> rc_allocator c = a \<and> rc_page_size c = p)
     \<and> (0 < rc_page_size d \<longrightarrow> rc_inv (reset now d) \<and> content (reset now d) = {} \<and> live (reset now d) = {rc_root (reset now d)})"
proof (rule conjI)
  show "0 < rc_page_size d \<longrightarrow> rc_inv (reset now d) \<and> content (reset now d) = {} \<and> live (reset now d) = {rc_root (reset now d)}"
    using wf_contentD [OF reset_wf(1)] reset_wf(2) by (auto simp: stored_def)
next
  show "case mk_eviction_strategy policy of
       Inl e \<Rightarrow> radix_init disable p eagle fin ev policy a cnt now = Inl e \<and> e = ValueError
     | Inr st \<Rightarrow> \<exists>c. radix_init disable p eagle fin ev policy a cnt now = Inr c \<and> rc_inv c \<and> content c = {}
          \<and> live c = {rc_root c} \<and> rc_evictable_size c = 0 \<and> rc_protected_size c = 0 \<and> rc_strategy c = st
          \<and> rc_allocator c = a \<and> rc_page_size c = p"
  proof (cases "mk_eviction_strategy policy")
    case (Inl e)
    then show ?thesis by (auto simp: radix_init_def mk_eviction_strategy_def split: if_splits)
  next
    case (Inr st)
    then show ?thesis using assms
      by (auto simp: radix_init_def reset_fields wf_contentD [OF reset_wf(1)] reset_wf(2) stored_def)
  qed
qed

theorem radix_init_empty_witness:
  "(\<exists>c. radix_init False 16 False False True ''lru'' (token_init 8 False) 0 5 = Inr c \<and> rc_inv c \<and> content c = {})
   \<and> radix_init False 16 False False True ''abc'' (token_init 8 False) 0 5 = Inl ValueError"
  using radix_init_empty [where p = 16 and policy = "''lru''" and disable = False and eagle = False and fin = False and ev = True
      and a = "token_init 8 False" and cnt = 0 and now = 5]
    radix_init_empty [where p = 16 and policy = "''abc''" and disable = False and eagle = False and fin = False and ev = True
      and a = "token_init 8 False" and cnt = 0 and now = 5]
  by (auto simp: mk_eviction_strategy_def)

section \<open>A small cache, for the witnesses\<close>

definition sample_alloc :: kv_alloc where
  "sample_alloc = (paged_clear (alloc_base_init 8 2 False False))\<lparr>al_free_pages := [3, 4]\<rparr>"

definition sample_cache :: "rcache res" where
  "sample_cache = rbind (radix_init False 2 False False False ''lru'' sample_alloc 0 0) (\<lambda>c.
     rbind (insert_key (\<lambda>xs. xs) 1 (mk_key [7, 8, 9, 5, 6] None False) (Some [2, 3, 4, 5, 9]) None False c) (\<lambda>(_, c'). Inr c'))"

lemma sample_alloc_inv: "kv_inv sample_alloc {2, 3, 4, 5}" "al_page_size sample_alloc = 2"
proof -
  have "{1..4::int} = {1, 2, 3, 4}" by auto
  moreover have "{1, 2, 3, 4} - {3, 4} = {1, 2::int}" by auto
  moreover have "{2, 3, 4, 5} = slots_of 2 {1, 2}"
    by (auto simp: slots_of_def)
  ultimately show "kv_inv sample_alloc {2, 3, 4, 5}"
    unfolding kv_inv_def paged_inv_def
    by (simp add: sample_alloc_def paged_clear_def alloc_base_init_def num_pages_def page_set_def)
  show "al_page_size sample_alloc = 2" by (simp add: sample_alloc_def paged_clear_def alloc_base_init_def)
qed

lemma sample_cache_ok:
  "\<exists>c. sample_cache = Inr c \<and> rc_enabled c \<and> rc_page_size c = 2 \<and> \<not> rc_is_eagle c \<and> \<not> rc_enable_kv_cache_events c
     \<and> content c = prefixes_of 2 None [[7], [8], [9], [5]] [2, 3, 4, 5] \<and> rc_slots c (content c) {2, 3, 4, 5}
     \<and> rc_evictable_size c = 4 \<and> rc_protected_size c = 0 \<and> rc_allocator c = sample_alloc"
proof -
  obtain c0 where c0: "radix_init False 2 False False False ''lru'' sample_alloc 0 0 = Inr c0"
      "rc_page_size c0 = 2" "\<not> rc_is_eagle c0" "\<not> rc_enable_kv_cache_events c0" "rc_allocator c0 = sample_alloc" "\<not> rc_disable c0"
      "rc_evictable_size c0 = 0" "rc_protected_size c0 = 0" "rc_wf c0 {0} (\<lambda>_. []) (\<lambda>_. [])"
    using reset_wf(1) [of "\<lparr>rc_disable = False, rc_page_size = 2, rc_is_eagle = False,
        rc_disable_finished_insert = False, rc_enable_kv_cache_events = False,
        rc_strategy = LRUStrategy, rc_heap = (\<lambda>_. tree_node_init 0 0), rc_counter = 0, rc_root = 0,
        rc_evictable_size = 0, rc_protected_size = 0, rc_evictable_leaves = {},
        rc_kv_event_queue = [], rc_allocator = sample_alloc\<rparr>" 0]
    by (simp add: radix_init_def mk_eviction_strategy_def reset_def new_tree_node_def record_all_cleared_event_def)
  let ?k = "mk_key [7, 8, 9, 5, 6] None False" and ?us = "[[7], [8], [9], [5]] :: int list list"
  have cc: "content c0 = {}" using wf_contentD [OF c0(9)] by (simp add: stored_def)
  have us: "aligned_units c0 ?k = ?us"
    using c0(2,3) by (simp add: aligned_units_def key_view_def maybe_to_bigram_view_def mk_key_def key_len_def key_iter_def page_floor_def)
  have ek: "extra_key ?k = None" "key_ok c0 ?k" by (simp_all add: mk_key_def key_ok_def)
  obtain n c L' pre' vals' ws where i: "insert_key (\<lambda>xs. xs) 1 ?k (Some [2, 3, 4, 5, 9]) None False c0 = Inr (n, c)"
     "rc_wf c L' pre' vals'" "rc_frame c0 {0} (\<lambda>_. []) (\<lambda>_. []) c L' pre' vals'" "length ws = n"
     "longest_match (content c0) None ?us n"
     "stored c L' pre' vals' = {} \<union> prefixes_of (rc_page_size c0) None ?us (ws @ drop n (take (length ?us) [2, 3, 4, 5, 9]))"
     "rc_evictable_size c = rc_evictable_size c0 + int (length ?us - n)"
    using insert_key_spec [OF c0(9,6) ek(2), of "[2, 3, 4, 5, 9]" "\<lambda>xs. xs" 1 None False] c0(4) wf_contentD [OF c0(9)] cc
    unfolding us ek(1) by auto
  have n0: "n = 0" "ws = []" using i(4,5) cc by (auto simp: longest_match_def)
  have ct: "content c = prefixes_of 2 None ?us [2, 3, 4, 5]" using wf_contentD(3) [OF i(2)] i(6) n0 c0(2) by simp
  have f: "rc_page_size c = 2" "\<not> rc_is_eagle c" "\<not> rc_enable_kv_cache_events c" "\<not> rc_disable c" "rc_allocator c = sample_alloc"
      "rc_protected_size c = 0"
    using i(3) c0 by (simp_all add: rc_frame_def)
  have p2: "[2, 3, 4, 5] = page_slots 2 [1, 2]" by (simp add: page_slots_def upt_rec)
  then have ps: "set (page_slots 2 [1, 2]) \<subseteq> {2, 3, 4, 5}" by (metis empty_set list.simps(15) order_refl)
  have s0: "rc_slots c0 (content c0) {2, 3, 4, 5}" using sample_alloc_inv c0(2,5) cc by (simp add: rc_slots_def)
  have en0: "rc_enabled c0" using wf_contentD [OF c0(9)] c0(6) by (simp add: rc_enabled_def)
  note sl = insert_slots [OF en0 s0 i(5), of "[]" "[2, 3, 4, 5]" "[1, 2]"]
  have "rc_slots c (content c) {2, 3, 4, 5}"
    using sl n0 p2 ps cc c0(2) sample_alloc_inv f(1,5) unfolding rc_slots_def ct by simp
  moreover have "rc_enabled c" using wf_contentD [OF i(2)] f(4) by (simp add: rc_enabled_def)
  moreover have "sample_cache = Inr c" using c0(1) i(1) by (simp add: sample_cache_def)
  moreover have "rc_evictable_size c = 4" using i(7) c0(7) n0 by simp
  ultimately show ?thesis using f ct by blast
qed

section \<open>Lookup and insertion without ghosts\<close>

text \<open>What a lookup or an insertion leaves alone beside the tree.\<close>

definition rc_same :: "rcache \<Rightarrow> rcache \<Rightarrow> bool" where
  "rc_same c c' \<longleftrightarrow> rc_page_size c' = rc_page_size c \<and> rc_is_eagle c' = rc_is_eagle c \<and> rc_root c' = rc_root c
   \<and> rc_disable c' = rc_disable c \<and> rc_disable_finished_insert c' = rc_disable_finished_insert c
   \<and> rc_enable_kv_cache_events c' = rc_enable_kv_cache_events c \<and> rc_strategy c' = rc_strategy c"

lemma rc_same_refl [simp]: "rc_same c c"
  by (simp add: rc_same_def)

lemma rc_same_trans: "rc_same c c' \<Longrightarrow> rc_same c' c'' \<Longrightarrow> rc_same c c''"
  by (simp add: rc_same_def)

lemma rc_same_units:
  assumes "rc_same c c'"
  shows "aligned_units c' = aligned_units c" "rc_key_fits sha c' = rc_key_fits sha c" "key_ok c' = key_ok c" "key_view c' = key_view c"
  using assms by (simp_all add: rc_same_def aligned_units_def key_view_def rc_key_fits_def key_ok_def fun_eq_iff)

lemma frame_same:
  assumes w: "rc_wf c L pre vals" and w': "rc_wf c' L' pre' vals'" and f: "rc_frame c L pre vals c' L' pre' vals'"
  shows "rc_same c c'" "live c \<subseteq> live c'" "rc_allocator c' = rc_allocator c"
    "n \<in> live c \<Longrightarrow> held c' (live c') n = held c (live c) n" "n \<in> live c \<Longrightarrow> node_path c' n us vs = node_path c n us vs"
    "n \<in> live c \<Longrightarrow> extra c' n = extra c n"
proof -
  note l = wf_contentD(2) [OF w] wf_contentD(2) [OF w']
  show "rc_same c c'" "live c \<subseteq> live c'" "rc_allocator c' = rc_allocator c"
    using f l by (simp_all add: rc_frame_def rc_same_def)
  show "held c' (live c') n = held c (live c) n" if "n \<in> live c" using f that unfolding l by (simp add: rc_frame_def)
  show "extra c' n = extra c n" if "n \<in> live c" using f that unfolding l by (simp add: rc_frame_def)
  show "node_path c' n us vs = node_path c n us vs" if n: "n \<in> live c"
  proof -
    have t: "rc_tree c L pre vals" "rc_tree c' L' pre' vals'" using w w' by (simp_all add: rc_wf_def)
    have "n \<in> L" "n \<in> L'" "pre' n = pre n" "vals' n = vals n" using n f l by (auto simp: rc_frame_def)
    then show ?thesis by (simp add: node_path_iff [OF t(1)] node_path_iff [OF t(2)])
  qed
qed

lemma match_prefix_ok:
  assumes en: "rc_enabled c" and k: "key_ok c key"
  shows "\<exists>idx node c'. match_prefix now key c = Inr (idx, node, c') \<and> rc_enabled c' \<and> content c' = content c
     \<and> longest_match (content c) (extra_key key) (aligned_units c key) (length idx)
     \<and> (idx \<noteq> [] \<longrightarrow> (extra_key key, take (length idx) (aligned_units c key), idx) \<in> content c)
     \<and> node \<in> live c' \<and> node_path c' node (take (length idx) (aligned_units c key)) idx
     \<and> (idx \<noteq> [] \<longrightarrow> node \<noteq> rc_root c' \<and> extra c' node = extra_key key)
     \<and> rc_evictable_size c' = rc_evictable_size c \<and> rc_protected_size c' = rc_protected_size c
     \<and> rc_same c c' \<and> rc_allocator c' = rc_allocator c \<and> live c \<subseteq> live c'
     \<and> (\<forall>n\<in>live c. held c' (live c') n = held c (live c) n \<and> (\<forall>us vs. node_path c' n us vs = node_path c n us vs) \<and> extra c' n = extra c n)"
proof -
  obtain L pre vals where w: "rc_wf c L pre vals" "content c = stored c L pre vals" "\<not> rc_disable c"
    using en by (metis rc_enabled_def rc_inv_wfE)
  obtain idx node c' L' pre' vals' where m: "match_prefix now key c = Inr (idx, node, c')"
    "rc_wf c' L' pre' vals'" "rc_frame c L pre vals c' L' pre' vals'" "stored c' L' pre' vals' = stored c L pre vals"
    "path_end c' L' pre' (extra_key key) (aligned_units c key) node" "idx = vals' node"
    "rc_evictable_size c' = rc_evictable_size c"
    using match_prefix_spec [OF w(1,3) k, of now] by blast
  have t': "rc_tree c' L' pre' vals'" using m(2) by (simp add: rc_wf_def)
  note pe = path_end_longest [OF t' m(5), unfolded m(4)] and wc = wf_contentD [OF m(2)] and fs = frame_same [OF w(1) m(2,3)]
  have nl: "node \<in> L'" using m(5) by (simp add: path_end_def)
  have len: "length (pre' node) = length idx" using nl m(6) length_vals [OF t'] by simp
  have "node_path c' node (take (length idx) (aligned_units c key)) idx"
    unfolding node_path_iff [OF t'] using nl pe(2) len m(6) by metis
  moreover have "(extra_key key, take (length idx) (aligned_units c key), idx) \<in> content c" if "idx \<noteq> []"
    using pe(3) len that m(6) w(2) by (metis length_0_conv)
  moreover have "node \<noteq> rc_root c' \<and> extra c' node = extra_key key" if "idx \<noteq> []"
    using m(5) pre_Nil_iff [OF t' nl] len that by (auto simp: path_end_def)
  moreover have "rc_protected_size c' = rc_protected_size c" using m(3) by (simp add: rc_frame_def)
  moreover have "rc_enabled c'" using wc(1) w(3) fs(1) by (simp add: rc_enabled_def rc_same_def)
  moreover have "node \<in> live c'" "content c' = content c" "longest_match (content c) (extra_key key) (aligned_units c key) (length idx)"
    using wc nl m(4) w(2) pe(1) len by simp_all
  ultimately show ?thesis using m(1,7) fs
    by (intro exI [of _ idx] exI [of _ node] exI [of _ c'] conjI ballI allI impI) (assumption | simp)+
qed

lemma insert_key_ok:
  assumes en: "rc_enabled c" and k: "rc_key_fits sha c key" and v: "length (aligned_units c key) \<le> length v"
  shows "\<exists>n c' ws. insert_key sha now key (Some v) prio chunked c = Inr (n, c') \<and> rc_enabled c'
     \<and> longest_match (content c) (extra_key key) (aligned_units c key) n \<and> length ws = n
     \<and> (0 < n \<longrightarrow> (extra_key key, take n (aligned_units c key), ws) \<in> content c)
     \<and> content c' = content c \<union> prefixes_of (rc_page_size c) (extra_key key) (aligned_units c key)
           (ws @ drop n (take (length (aligned_units c key)) v))
     \<and> rc_evictable_size c' = rc_evictable_size c + int (length (aligned_units c key) - n)
     \<and> rc_protected_size c' = rc_protected_size c
     \<and> rc_same c c' \<and> rc_allocator c' = rc_allocator c \<and> live c \<subseteq> live c'
     \<and> (\<forall>n\<in>live c. held c' (live c') n = held c (live c) n \<and> (\<forall>us vs. node_path c' n us vs = node_path c n us vs) \<and> extra c' n = extra c n)"
proof -
  obtain L pre vals where w: "rc_wf c L pre vals" "content c = stored c L pre vals" "\<not> rc_disable c"
    using en by (metis rc_enabled_def rc_inv_wfE)
  have k': "key_ok c key" "rc_enable_kv_cache_events c \<Longrightarrow> sha_ok sha \<and> toks_ok key" using k by (auto simp: rc_key_fits_def)
  obtain n c' L' pre' vals' ws where i: "insert_key sha now key (Some v) prio chunked c = Inr (n, c')"
    "rc_wf c' L' pre' vals'" "rc_frame c L pre vals c' L' pre' vals'"
    "length ws = n" "longest_match (stored c L pre vals) (extra_key key) (aligned_units c key) n"
    "0 < n \<longrightarrow> (extra_key key, take n (aligned_units c key), ws) \<in> stored c L pre vals"
    "stored c' L' pre' vals' = stored c L pre vals
          \<union> prefixes_of (rc_page_size c) (extra_key key) (aligned_units c key) (ws @ drop n (take (length (aligned_units c key)) v))"
    "rc_evictable_size c' = rc_evictable_size c + int (length (aligned_units c key) - n)"
    using insert_key_spec [OF w(1,3) k'(1) v k'(2), of now prio chunked] by blast
  note wc = wf_contentD [OF i(2)] and fs = frame_same [OF w(1) i(2,3)]
  have "rc_protected_size c' = rc_protected_size c" using i(3) by (simp add: rc_frame_def)
  moreover have "rc_enabled c'" using wc(1) w(3) fs(1) by (simp add: rc_enabled_def rc_same_def)
  moreover have "content c' = stored c L pre vals
          \<union> prefixes_of (rc_page_size c) (extra_key key) (aligned_units c key) (ws @ drop n (take (length (aligned_units c key)) v))"
    using wc(3) i(7) by simp
  ultimately show ?thesis using i(1,4-6,8) fs unfolding w(2)
    by (intro exI [of _ n] exI [of _ c'] exI [of _ ws] conjI ballI allI) (assumption | simp)+
qed

section \<open>Properties\<close>

text \<open>
  C1: \<open>match_prefix\<close> never fails on a well-formed cache and returns exactly the longest cached
  page-aligned prefix of the key in its namespace, with the slots recorded for that prefix; the
  lookup may split a node, but it changes neither the content nor the accounting, and the node it
  returns is alive.
\<close>

theorem radix_match_prefix_longest:
  assumes "rc_inv c" "\<not> rc_disable c" "key_ok c key"
  shows "\<exists>idx node c'. match_prefix now key c = Inr (idx, node, c') \<and> rc_inv c' \<and> content c' = content c
     \<and> longest_match (content c) (extra_key key) (aligned_units c key) (length idx)
     \<and> (idx \<noteq> [] \<longrightarrow> (extra_key key, take (length idx) (aligned_units c key), idx) \<in> content c)
     \<and> node \<in> live c' \<and> node_path c' node (take (length idx) (aligned_units c key)) idx
     \<and> rc_evictable_size c' = rc_evictable_size c \<and> rc_protected_size c' = rc_protected_size c"
  using match_prefix_ok [of c key now] assms unfolding rc_enabled_def by blast

theorem radix_match_prefix_longest_witness:
  "\<exists>c idx node c'. sample_cache = Inr c \<and> match_prefix 2 (mk_key [7, 8, 1, 2, 3] None False) c = Inr (idx, node, c')
     \<and> content c' = content c \<and> longest_match (content c) None [[7], [8], [1], [2]] (length idx)"
proof -
  obtain c where c: "sample_cache = Inr c" "rc_enabled c" "rc_page_size c = 2" "\<not> rc_is_eagle c"
    using sample_cache_ok by blast
  have "aligned_units c (mk_key [7, 8, 1, 2, 3] None False) = [[7], [8], [1], [2]]" "extra_key (mk_key [7, 8, 1, 2, 3] None False) = None"
    "key_ok c (mk_key [7, 8, 1, 2, 3] None False)"
    using c(3,4) by (simp_all add: aligned_units_def key_view_def maybe_to_bigram_view_def mk_key_def key_len_def key_iter_def page_floor_def key_ok_def)
  with radix_match_prefix_longest [of c "mk_key [7, 8, 1, 2, 3] None False" 2] c show ?thesis
    by (auto simp: rc_enabled_def)
qed

text \<open>
  C2: \<open>insert\<close> reports the length of the longest prefix that was already cached, adds exactly the
  page-aligned prefixes of the key with the cached slots up to there and the given slots beyond,
  and grows the evictable size by the number of new units; nothing cached before is lost or
  remapped.
\<close>

theorem radix_insert_extends:
  assumes "rc_inv c" "\<not> rc_disable c" "key_ok c key" "length (aligned_units c key) \<le> length v"
    "rc_enable_kv_cache_events c \<Longrightarrow> sha_ok sha \<and> toks_ok key"
  shows "\<exists>n c' ws. insert_key sha now key (Some v) prio chunked c = Inr (n, c') \<and> rc_inv c'
     \<and> longest_match (content c) (extra_key key) (aligned_units c key) n \<and> length ws = n
     \<and> (0 < n \<longrightarrow> (extra_key key, take n (aligned_units c key), ws) \<in> content c)
     \<and> content c' = content c \<union> prefixes_of (rc_page_size c) (extra_key key) (aligned_units c key)
           (ws @ drop n (take (length (aligned_units c key)) v))
     \<and> rc_evictable_size c' = rc_evictable_size c + int (length (aligned_units c key) - n)
     \<and> rc_protected_size c' = rc_protected_size c \<and> live c \<subseteq> live c'"
  using insert_key_ok [of c sha key v now prio chunked] assms unfolding rc_enabled_def rc_key_fits_def by blast

theorem radix_insert_extends_witness:
  "\<exists>c n c'. sample_cache = Inr c \<and> insert_key (\<lambda>xs. xs) 3 (mk_key [7, 8, 1, 1] None False) (Some [6, 7, 8, 9]) None False c = Inr (n, c')
     \<and> rc_inv c' \<and> longest_match (content c) None [[7], [8], [1], [1]] n \<and> content c \<subseteq> content c'"
proof -
  obtain c where c: "sample_cache = Inr c" "rc_enabled c" "rc_page_size c = 2" "\<not> rc_is_eagle c" "\<not> rc_enable_kv_cache_events c"
    using sample_cache_ok by blast
  have "aligned_units c (mk_key [7, 8, 1, 1] None False) = [[7], [8], [1], [1]]" "extra_key (mk_key [7, 8, 1, 1] None False) = None"
    "key_ok c (mk_key [7, 8, 1, 1] None False)"
    using c(3,4) by (simp_all add: aligned_units_def key_view_def maybe_to_bigram_view_def mk_key_def key_len_def key_iter_def page_floor_def key_ok_def)
  with radix_insert_extends [of c "mk_key [7, 8, 1, 1] None False" "[6, 7, 8, 9]" "\<lambda>xs. xs" 3 None False] c show ?thesis
    by (auto simp: rc_enabled_def)
qed

text \<open>
  C3: A lookup right after an insertion of the same key finds all of it: the slots returned are the
  ones cached before for the prefix that was already there, and the inserted ones for the rest.
\<close>

theorem radix_insert_match_roundtrip:
  assumes "rc_enabled c" "rc_key_fits sha c key" "length (aligned_units c key) \<le> length v" "aligned_units c key \<noteq> []"
  shows "\<exists>n c1 ws node c2. insert_key sha now key (Some v) prio chunked c = Inr (n, c1)
     \<and> longest_match (content c) (extra_key key) (aligned_units c key) n
     \<and> length ws = n \<and> (0 < n \<longrightarrow> (extra_key key, take n (aligned_units c key), ws) \<in> content c)
     \<and> match_prefix now' key c1 = Inr (ws @ drop n (take (length (aligned_units c key)) v), node, c2) \<and> content c2 = content c1"
  using rcx.add_then_look [OF assms] .

theorem radix_insert_match_roundtrip_witness:
  "\<exists>c n c1 idx node c2. sample_cache = Inr c
     \<and> insert_key (\<lambda>xs. xs) 3 (mk_key [7, 8, 1, 1] None False) (Some [6, 7, 8, 9]) None False c = Inr (n, c1)
     \<and> match_prefix 4 (mk_key [7, 8, 1, 1] None False) c1 = Inr (idx, node, c2) \<and> length idx = 4"
proof -
  obtain c where c: "sample_cache = Inr c" "rc_enabled c" "rc_page_size c = 2" "\<not> rc_is_eagle c" "\<not> rc_enable_kv_cache_events c"
    using sample_cache_ok by blast
  have k: "aligned_units c (mk_key [7, 8, 1, 1] None False) = [[7], [8], [1], [1]]" "rc_key_fits (\<lambda>xs. xs) c (mk_key [7, 8, 1, 1] None False)"
    using c(3-5) by (simp_all add: aligned_units_def key_view_def maybe_to_bigram_view_def mk_key_def key_len_def key_iter_def page_floor_def
        key_ok_def rc_key_fits_def)
  obtain n c1 ws node c2 where "insert_key (\<lambda>xs. xs) 3 (mk_key [7, 8, 1, 1] None False) (Some [6, 7, 8, 9]) None False c = Inr (n, c1)"
    "length ws = n" "longest_match (content c) (extra_key (mk_key [7, 8, 1, 1] None False)) [[7], [8], [1], [1]] n"
    "match_prefix 4 (mk_key [7, 8, 1, 1] None False) c1 = Inr (ws @ drop n (take (length [[7], [8], [1], [1 :: int]]) [6, 7, 8, 9]), node, c2)"
    using radix_insert_match_roundtrip [OF c(2) k(2), of "[6, 7, 8, 9]" 3 None False 4] unfolding k(1) by force
  moreover from this have "n \<le> 4" by (simp add: longest_match_def)
  moreover from calculation have "length (ws @ drop n (take (length [[7], [8], [1], [1 :: int]]) [6, 7, 8, 9 :: int])) = 4" by simp
  ultimately show ?thesis using c(1) by blast
qed

end
