(* ===== verification/Radix_Props.thy ===== *)
theory Radix_Props
  imports Prefix_Cache
begin

text \<open>
  Reference counts, eviction and size accounting of the radix cache, stated without the ghost
  components of the proofs.
\<close>

section \<open>Reference counts\<close>

lemma lock_frame_content:
  assumes w: "rc_wf c L pre vals" and w': "rc_wf c' L pre vals" and f: "lock_frame c c'"
  shows "content c' = content c" "live c' = live c" "rc_slots c' M U = rc_slots c M U"
proof -
  have e: "rc_root c' = rc_root c" "rc_page_size c' = rc_page_size c" "nd_key (nd c' n) = nd_key (nd c n)" for n
    using f by (simp_all add: lock_frame_def same_tree_def)
  show "content c' = content c" "live c' = live c"
    using wf_contentD [OF w] wf_contentD [OF w'] e by (simp_all add: stored_def)
  show "rc_slots c' M U = rc_slots c M U" using f by (simp add: rc_slots_def e lock_frame_def)
qed

lemma acct_determined:
  assumes "rc_acct c L" "rc_acct c' L" "\<forall>n. lock c' n = lock c n" "same_tree c c'"
  shows "rc_evictable_size c' = rc_evictable_size c" "rc_protected_size c' = rc_protected_size c" "rc_evictable_leaves c' = rc_evictable_leaves c"
  using assms by (simp_all add: rc_acct_def size_if_def free_leaves_def same_tree_def cong: if_cong)

text \<open>
  Locking a node raises the count of the node and of every ancestor below the root by one and
  moves exactly the tokens that become locked from the evictable to the protected side, as the
  returned delta says; unlocking it again restores every count, both sizes and the set of
  evictable leaves. Neither changes what is cached.
\<close>

theorem radix_lock_roundtrip:
  assumes "rc_inv c" "\<not> rc_disable c" "x \<in> live c"
  shows "\<exists>c1 c2. inc_lock_ref x c = Inr (rc_evictable_size c1 - rc_evictable_size c, c1) \<and> rc_inv c1 \<and> content c1 = content c
     \<and> (\<forall>n. lock c1 n = lock c n + (if anc c n x \<and> n \<noteq> rc_root c then 1 else 0))
     \<and> rc_evictable_size c1 + rc_protected_size c1 = rc_evictable_size c + rc_protected_size c
     \<and> dec_lock_ref x c1 = Inr (rc_evictable_size c - rc_evictable_size c1, c2) \<and> rc_inv c2 \<and> content c2 = content c
     \<and> (\<forall>n. lock c2 n = lock c n) \<and> rc_evictable_size c2 = rc_evictable_size c
     \<and> rc_protected_size c2 = rc_protected_size c \<and> rc_evictable_leaves c2 = rc_evictable_leaves c"
proof -
  obtain L pre vals where w: "rc_wf c L pre vals" "live c = L" using assms(1) by (metis rc_inv_wfE)
  have x: "x \<in> L" using assms(3) w(2) by simp
  obtain c1 where c1: "inc_lock_ref x c = Inr (rc_evictable_size c1 - rc_evictable_size c, c1)"
     "rc_wf c1 L pre vals" "lock_frame c c1" "\<forall>n\<in>L - {rc_root c}. held c1 L n = held c L n + (if n = x then 1 else 0)"
     "\<forall>n. lock c1 n = lock c n + (if anc c n x \<and> n \<noteq> rc_root c then 1 else 0)"
     "rc_evictable_size c1 + rc_protected_size c1 = rc_evictable_size c + rc_protected_size c"
    using inc_lock_ref_spec [OF w(1) x assms(2)] by blast
  have st: "same_tree c c1" "rc_disable c1 = rc_disable c" using c1(3) by (simp_all add: lock_frame_def)
  have an: "anc c1 n x = anc c n x" for n
  proof -
    have p: "nd_parent (nd c1 m) = nd_parent (nd c m)" for m using st(1) by (simp add: same_tree_def)
    have "anc c a b \<Longrightarrow> anc c1 a b" for a b by (induction rule: anc.induct) (use p in \<open>auto intro: anc.intros\<close>)
    moreover have "anc c1 a b \<Longrightarrow> anc c a b" for a b by (induction rule: anc.induct) (use p in \<open>auto intro: anc.intros\<close>)
    ultimately show ?thesis by blast
  qed
  have r: "rc_root c1 = rc_root c" using st(1) by (simp add: same_tree_def)
  have "1 \<le> held c1 L x" if "x \<noteq> rc_root c1"
  proof -
    have "x \<in> L - {rc_root c}" using x that r by simp
    then have "0 \<le> held c L x" "held c1 L x = held c L x + 1" using w(1) c1(4) by (auto simp: rc_wf_def rc_acct_def)
    then show ?thesis by simp
  qed
  then obtain c2 where c2: "dec_lock_ref x c1 = Inr (rc_evictable_size c2 - rc_evictable_size c1, c2)"
     "rc_wf c2 L pre vals" "lock_frame c1 c2"
     "\<forall>n. lock c2 n = lock c1 n - (if anc c1 n x \<and> n \<noteq> rc_root c1 then 1 else 0)"
    using dec_lock_ref_spec [OF c1(2) x] assms(2) st(2) by metis
  have lk: "\<forall>n. lock c2 n = lock c n" using c2(4) c1(5) an r by simp
  have "same_tree c c2" using st(1) c2(3) same_tree_trans by (auto simp: lock_frame_def)
  then have ac: "rc_evictable_size c2 = rc_evictable_size c" "rc_protected_size c2 = rc_protected_size c" "rc_evictable_leaves c2 = rc_evictable_leaves c"
    using acct_determined [of c L c2] lk w(1) c2(2) by (simp_all add: rc_wf_def)
  show ?thesis
    using c1 c2(1) lk ac wf_contentD(1) [OF c1(2)] wf_contentD(1) [OF c2(2)] lock_frame_content(1) [OF w(1) c1(2,3)]
      lock_frame_content(1) [OF c1(2) c2(2,3)]
    by - (rule exI [of _ c1], rule exI [of _ c2], simp)
qed

lemma sample_match:
  "\<exists>c node c1. sample_cache = Inr c \<and> match_prefix 2 (mk_key [7, 8, 9] None False) c = Inr ([2, 3], node, c1)
     \<and> rc_enabled c1 \<and> content c1 = content c \<and> node \<in> live c1 \<and> node_path c1 node [[7], [8]] [2, 3]
     \<and> rc_slots c1 (content c1) {2, 3, 4, 5} \<and> rc_evictable_size c1 = 4"
proof -
  obtain c where c: "sample_cache = Inr c" "rc_enabled c" "rc_page_size c = 2" "\<not> rc_is_eagle c"
      "content c = prefixes_of 2 None [[7], [8], [9], [5]] [2, 3, 4, 5]" "rc_evictable_size c = 4" "rc_slots c (content c) {2, 3, 4, 5}"
    using sample_cache_ok by blast
  let ?k = "mk_key [7, 8, 9] None False"
  have k: "aligned_units c ?k = [[7], [8]]" "extra_key ?k = None" "key_ok c ?k"
    using c(3,4) by (simp_all add: aligned_units_def key_view_def maybe_to_bigram_view_def mk_key_def key_len_def key_iter_def page_floor_def
        key_ok_def rc_key_fits_def)
  obtain idx node c1 where m: "match_prefix 2 ?k c = Inr (idx, node, c1)" "rc_enabled c1" "content c1 = content c"
     "longest_match (content c) None [[7], [8]] (length idx)" "idx \<noteq> [] \<longrightarrow> (None, take (length idx) [[7], [8]], idx) \<in> content c"
     "node \<in> live c1" "node_path c1 node (take (length idx) [[7], [8]]) idx" "rc_evictable_size c1 = 4" "rc_same c c1" "rc_allocator c1 = rc_allocator c"
    using match_prefix_ok [OF c(2) k(3), of 2] unfolding k c(6) by blast
  have hit: "(None, [[7], [8]], [2, 3]) \<in> content c"
    unfolding c(5) prefixes_of_def by (auto intro!: exI [of _ 2])
  then have "length idx = 2" using m(4) by (force simp: longest_match_def)
  then have "(None, [[7], [8]], idx) \<in> content c" using m(5) by auto
  from rc_enabledD(1) [OF c(2) this hit] have "idx = [2, 3]" .
  moreover have "rc_slots c1 (content c1) {2, 3, 4, 5}" using c(7) m(3,9,10) by (simp add: rc_slots_def rc_same_def)
  ultimately show ?thesis using m c(1) by auto
qed

theorem radix_lock_roundtrip_witness:
  "\<exists>c node c1 c2 c3 d. sample_cache = Inr c \<and> match_prefix 2 (mk_key [7, 8, 9] None False) c = Inr ([2, 3], node, c1)
     \<and> inc_lock_ref node c1 = Inr (d, c2) \<and> dec_lock_ref node c2 = Inr (- d, c3)
     \<and> rc_evictable_size c3 = 4 \<and> content c3 = content c"
proof -
  obtain c node c1 where m: "sample_cache = Inr c" "match_prefix 2 (mk_key [7, 8, 9] None False) c = Inr ([2, 3], node, c1)"
     "rc_enabled c1" "content c1 = content c" "node \<in> live c1" "rc_evictable_size c1 = 4"
    using sample_match by blast
  then show ?thesis using radix_lock_roundtrip [of c1 node]
    unfolding rc_enabled_def by (metis minus_diff_eq)
qed

section \<open>Eviction\<close>

lemma evict_ok:
  assumes en: "rc_enabled c" and s: "rc_slots c (content c) U" and lv: "distinct leaves" "set leaves = rc_evictable_leaves c"
  defines "F c' \<equiv> cache_slots (rc_page_size c) (content c) - cache_slots (rc_page_size c) (content c')"
  shows "\<exists>k c'. evict sha num leaves c = Inr (k, c') \<and> rc_enabled c' \<and> rc_same c c' \<and> content c' \<subseteq> content c \<and> live c' \<subseteq> live c
     \<and> rc_slots c' (content c') (U - F c') \<and> card (F c') = k
     \<and> kv_available_size (rc_allocator c') = kv_available_size (rc_allocator c) + k
     \<and> rc_evictable_size c' = rc_evictable_size c - int k \<and> rc_protected_size c' = rc_protected_size c
     \<and> (num \<le> k \<or> rc_evictable_size c' = 0)
     \<and> (k = 0 \<or> 0 < num \<and> (\<exists>x\<in>live c - live c'. k < num + nlen c x))
     \<and> (\<forall>x\<in>live c. lock c x \<noteq> 0 \<longrightarrow> x \<in> live c')
     \<and> (\<forall>x\<in>live c'. held c' (live c') x = held c (live c) x \<and> lock c' x = lock c x
          \<and> (\<forall>us vs. node_path c' x us vs = node_path c x us vs))
     \<and> (\<forall>x\<in>live c - live c'. \<forall>y\<in>rc_evictable_leaves c \<inter> live c'.
          fst (heap_item (rc_strategy c) (rc_heap c) x) \<le> fst (heap_item (rc_strategy c) (rc_heap c) y))"
proof -
  obtain L pre vals where w: "rc_wf c L pre vals" "rc_tree c L pre vals" "live c = L" "content c = stored c L pre vals" "\<not> rc_disable c"
    using en by (metis rc_enabled_def rc_inv_wfE)
  have el: "rc_evictable_leaves c = free_leaves c L" using w(1) by (simp add: rc_wf_def rc_acct_def)
  obtain k c' L' where e: "evict sha num leaves c = Inr (k, c')" "evict_result c L pre vals U num k c' L'"
    using evict_spec [OF w(1) _ w(5) lv] s w(4) by metis
  note R = e(2) [unfolded evict_result_def]
  have w': "rc_wf c' L' pre vals" and ef: "evict_frame c c'" and sub: "L' \<subseteq> L" using R by argo+
  have t': "rc_tree c' L' pre vals" using w' by (simp add: rc_wf_def)
  note wc = wf_contentD [OF w'] and f = ef [unfolded evict_frame_def]
  have FF: "F c' = cache_slots (rc_page_size c) (stored c L pre vals) - cache_slots (rc_page_size c) (stored c' L' pre vals)"
    by (simp add: F_def w(4) wc(3))
  have sl: "rc_slots c' (content c') (U - F c')" "card (F c') = k" using R unfolding FF wc(3) by argo+
  have "F c' \<subseteq> U" using s by (auto simp: F_def rc_slots_def)
  have iu: "kv_inv (rc_allocator c) U" "kv_inv (rc_allocator c') (U - F c')" using s sl(1) by (simp_all add: rc_slots_def)
  have finU: "finite U" using kv.inv_slots [OF iu(1)] by (meson finite_subset)
  have "kv_available_size (rc_allocator c') + card (U - F c') = kv_available_size (rc_allocator c) + card U"
    using kv.inv_avail [OF iu(1)] kv.inv_avail [OF iu(2)] f by simp
  moreover have "card (U - F c') + k = card U"
    using \<open>F c' \<subseteq> U\<close> finU sl(2) card_mono [OF finU \<open>F c' \<subseteq> U\<close>] by (simp add: card_Diff_subset finite_subset)
  ultimately have av: "kv_available_size (rc_allocator c') = kv_available_size (rc_allocator c) + k" by linarith
  have "rc_enabled c'" "rc_same c c'" using wc(1) f w(5) by (simp_all add: rc_enabled_def rc_same_def)
  moreover have "x \<in> live c'" if "x \<in> live c" "lock c x \<noteq> 0" for x using R that w(3) wc(2) by blast
  moreover have "held c' (live c') x = held c (live c) x \<and> lock c' x = lock c x \<and> (\<forall>us vs. node_path c' x us vs = node_path c x us vs)"
    if "x \<in> live c'" for x
  proof -
    have x: "x \<in> L'" "x \<in> L" using that sub wc(2) by auto
    have "held c' L' x = held c L x" using R x(1) by blast
    then show ?thesis using x f by (simp add: wc(2) w(3) node_path_iff [OF t'] node_path_iff [OF w(2)])
  qed
  moreover have "content c' \<subseteq> content c" "rc_evictable_size c' = rc_evictable_size c - int k" "num \<le> k \<or> rc_evictable_size c' = 0"
     "k = 0 \<or> 0 < num \<and> (\<exists>x\<in>live c - live c'. k < num + nlen c x)"
     "\<forall>x\<in>live c - live c'. \<forall>y\<in>rc_evictable_leaves c \<inter> live c'.
          fst (heap_item (rc_strategy c) (rc_heap c) x) \<le> fst (heap_item (rc_strategy c) (rc_heap c) y)"
    using R unfolding el w(3,4) wc(2,3) by argo+
  moreover have "live c' \<subseteq> live c" "rc_protected_size c' = rc_protected_size c" using sub w(3) wc(2) f by auto
  ultimately show ?thesis using e(1) sl av
    by - (rule exI [of _ k], rule exI [of _ c'], intro conjI ballI impI, (assumption | blast)+)
qed

text \<open>
  C4: \<open>evict\<close> frees at least the tokens asked for unless everything evictable is gone, and it stops
  with the first victim that makes up the number. The count it returns is the number of slots
  that went back to the allocator, and those are exactly the slots of the entries that left the
  cache: cache and allocator stay consistent.
\<close>

theorem radix_evict_frees_slots:
  assumes "rc_enabled c" "rc_slots c (content c) U" "distinct leaves" "set leaves = rc_evictable_leaves c"
  shows "\<exists>k c' F. evict sha num leaves c = Inr (k, c') \<and> rc_enabled c' \<and> content c' \<subseteq> content c
     \<and> F = cache_slots (rc_page_size c) (content c) - cache_slots (rc_page_size c) (content c')
     \<and> rc_slots c' (content c') (U - F) \<and> card F = k
     \<and> kv_available_size (rc_allocator c') = kv_available_size (rc_allocator c) + k
     \<and> rc_evictable_size c' = rc_evictable_size c - int k
     \<and> (num \<le> k \<or> rc_evictable_size c' = 0)
     \<and> (k = 0 \<or> 0 < num \<and> (\<exists>x\<in>live c - live c'. k < num + nlen c x))"
  using evict_ok [OF assms, of sha num] by blast

lemma sample_leaves:
  assumes "rc_enabled c"
  shows "\<exists>leaves. distinct leaves \<and> set leaves = rc_evictable_leaves c"
proof -
  obtain L pre vals where w: "rc_wf c L pre vals" "rc_tree c L pre vals" using assms by (metis rc_enabled_def rc_inv_wfE)
  have "finite (rc_evictable_leaves c)" using w(1) rc_treeD(2) [OF w(2)] by (simp add: rc_wf_def rc_acct_def free_leaves_def)
  then show ?thesis using finite_distinct_list by blast
qed

theorem radix_evict_frees_slots_witness:
  "\<exists>c leaves k c'. sample_cache = Inr c \<and> evict (\<lambda>xs. xs) 3 leaves c = Inr (k, c') \<and> 3 \<le> k
     \<and> kv_available_size (rc_allocator c') = kv_available_size (rc_allocator c) + k"
proof -
  obtain c where c: "sample_cache = Inr c" "rc_enabled c" "rc_slots c (content c) {2, 3, 4, 5}" "rc_evictable_size c = 4" "rc_page_size c = 2"
    using sample_cache_ok by blast
  obtain lv where lv: "distinct lv" "set lv = rc_evictable_leaves c" using sample_leaves [OF c(2)] by blast
  obtain k c' F where e: "evict (\<lambda>xs. xs) 3 lv c = Inr (k, c')" "rc_enabled c'"
     "F = cache_slots 2 (content c) - cache_slots 2 (content c')" "rc_slots c' (content c') ({2, 3, 4, 5} - F)" "card F = k"
     "kv_available_size (rc_allocator c') = kv_available_size (rc_allocator c) + k"
     "rc_evictable_size c' = 4 - int k" "3 \<le> k \<or> rc_evictable_size c' = 0"
    using radix_evict_frees_slots [OF c(2,3) lv, of "\<lambda>xs. xs" 3] unfolding c(4,5) by blast
  then have "3 \<le> k" by linarith
  with c(1) e(1,6) show ?thesis by blast
qed

text \<open>
  C5: Eviction never touches what is in use: every live node with a positive count survives with
  its path and slots, its count and the number of holders of every survivor are unchanged, and
  the protected size stays the same.
\<close>

theorem radix_evict_spares_locked:
  assumes "rc_enabled c" "rc_slots c (content c) U" "distinct leaves" "set leaves = rc_evictable_leaves c"
  shows "\<exists>k c'. evict sha num leaves c = Inr (k, c') \<and> rc_protected_size c' = rc_protected_size c
     \<and> (\<forall>x us vs. node_path c x us vs \<and> lock c x \<noteq> 0 \<longrightarrow> node_path c' x us vs)
     \<and> (\<forall>x\<in>live c'. held c' (live c') x = held c (live c) x \<and> lock c' x = lock c x)"
proof -
  obtain k c' where e: "evict sha num leaves c = Inr (k, c')" "rc_protected_size c' = rc_protected_size c"
     "\<forall>x\<in>live c. lock c x \<noteq> 0 \<longrightarrow> x \<in> live c'"
     "\<forall>x\<in>live c'. held c' (live c') x = held c (live c) x \<and> lock c' x = lock c x
          \<and> (\<forall>us vs. node_path c' x us vs = node_path c x us vs)"
    using evict_ok [OF assms, of sha num] by blast
  have "node_path c' x us vs" if "node_path c x us vs" "lock c x \<noteq> 0" for x us vs
  proof -
    have "x \<in> live c" using that(1) by (auto simp: live_def)
    with e(3,4) that show ?thesis by blast
  qed
  with e show ?thesis by blast
qed

theorem radix_evict_spares_locked_witness:
  "\<exists>c node c1 c2 d leaves k c3. sample_cache = Inr c \<and> match_prefix 2 (mk_key [7, 8, 9] None False) c = Inr ([2, 3], node, c1)
     \<and> inc_lock_ref node c1 = Inr (d, c2) \<and> evict (\<lambda>xs. xs) 100 leaves c2 = Inr (k, c3) \<and> node_path c3 node [[7], [8]] [2, 3]"
proof -
  obtain c node c1 where m: "sample_cache = Inr c" "match_prefix 2 (mk_key [7, 8, 9] None False) c = Inr ([2, 3], node, c1)"
     "rc_enabled c1" "node \<in> live c1" "node_path c1 node [[7], [8]] [2, 3]" "rc_slots c1 (content c1) {2, 3, 4, 5}"
    using sample_match by blast
  obtain L pre vals where w: "rc_wf c1 L pre vals" "rc_tree c1 L pre vals" "live c1 = L" "\<not> rc_disable c1"
    using m(3) by (metis rc_enabled_def rc_inv_wfE)
  obtain d c2 where i: "inc_lock_ref node c1 = Inr (d, c2)" "rc_wf c2 L pre vals" "lock_frame c1 c2"
      "\<forall>n. lock c2 n = lock c1 n + (if anc c1 n node \<and> n \<noteq> rc_root c1 then 1 else 0)"
    using inc_lock_ref_spec [OF w(1) _ w(4), of node] m(4) w(3) by blast
  note lf = lock_frame_content [OF w(1) i(2,3)]
  have en: "rc_enabled c2" using wf_contentD(1) [OF i(2)] i(3) w(4) by (simp add: rc_enabled_def lock_frame_def)
  have sl: "rc_slots c2 (content c2) {2, 3, 4, 5}" using m(6) lf by simp
  have np: "node_path c2 node [[7], [8]] [2, 3]"
    using m(5) i(2) by (simp add: node_path_iff [OF w(2)] node_path_iff [of c2 L pre vals] rc_wf_def)
  have nr: "node \<noteq> rc_root c1" using m(5) rc_treeD(5) [OF w(2)] by (auto simp: node_path_iff [OF w(2)])
  have "0 \<le> lock c1 node" using w(1) m(4) nr w(3) by (simp add: rc_wf_def rc_acct_def)
  then have "lock c2 node \<noteq> 0" using i(4) nr anc.intros(1) by auto
  moreover obtain lv where lv: "distinct lv" "set lv = rc_evictable_leaves c2" using sample_leaves [OF en] by blast
  ultimately show ?thesis using radix_evict_spares_locked [OF en sl lv, of "\<lambda>xs. xs" 100] m(1,2) i(1) np by blast
qed

text \<open>
  C6: Victims are chosen in the order of the eviction strategy: no leaf that was evictable from the
  start and survives has a smaller priority (ties broken by access time) than any victim.
\<close>

theorem radix_evict_in_priority_order:
  assumes "rc_enabled c" "rc_slots c (content c) U" "distinct leaves" "set leaves = rc_evictable_leaves c"
  shows "\<exists>k c'. evict sha num leaves c = Inr (k, c')
     \<and> (\<forall>x y. x \<in> live c - live c' \<and> y \<in> rc_evictable_leaves c \<and> y \<in> live c' \<longrightarrow>
          \<not> get_priority (rc_strategy c) (nd c y) < get_priority (rc_strategy c) (nd c x)
        \<and> \<not> (get_priority (rc_strategy c) (nd c y) = get_priority (rc_strategy c) (nd c x) \<and> node_lt (nd c y) (nd c x)))"
proof -
  obtain k c' where e: "evict sha num leaves c = Inr (k, c')"
     "\<forall>x\<in>live c - live c'. \<forall>y\<in>rc_evictable_leaves c \<inter> live c'.
          fst (heap_item (rc_strategy c) (rc_heap c) x) \<le> fst (heap_item (rc_strategy c) (rc_heap c) y)"
    using evict_ok [OF assms, of sha num] by blast
  have "\<not> fst (heap_item (rc_strategy c) (rc_heap c) y) < fst (heap_item (rc_strategy c) (rc_heap c) x)"
    if "x \<in> live c - live c'" "y \<in> rc_evictable_leaves c" "y \<in> live c'" for x y
    using e(2) that by (simp add: not_less)
  with e(1) show ?thesis unfolding heap_item_key_less by blast
qed

theorem radix_evict_in_priority_order_witness:
  "\<exists>c leaves k c'. sample_cache = Inr c \<and> evict (\<lambda>xs. xs) 1 leaves c = Inr (k, c')"
proof -
  obtain c where c: "sample_cache = Inr c" "rc_enabled c" "rc_slots c (content c) {2, 3, 4, 5}" using sample_cache_ok by blast
  obtain lv where lv: "distinct lv" "set lv = rc_evictable_leaves c" using sample_leaves [OF c(2)] by blast
  from radix_evict_in_priority_order [OF c(2,3) lv, of "\<lambda>xs. xs" 1] c(1) show ?thesis by blast
qed

section \<open>Size accounting\<close>

lemma map_snd_children:
  assumes t: "rc_tree c L pre vals" and n: "n \<in> L"
  shows "set (map snd (nd_children (nd c n))) = kids c L n" "distinct (map snd (nd_children (nd c n)))"
proof -
  have ch: "children_ok c L n" by (rule rc_treeD(8) [OF t n])
  show "set (map snd (nd_children (nd c n))) = kids c L n"
  proof (intro set_eqI iffI)
    fix m assume "m \<in> kids c L n"
    then have m: "m \<in> L" "nd_parent (nd c m) = Some n" by (auto simp: kids_def)
    from map_of_SomeD [OF pre_parent(9) [OF t m]] show "m \<in> set (map snd (nd_children (nd c n)))" by force
  qed (use ch in \<open>auto simp: children_ok_def kids_def\<close>)
  have "fst e = edge_key c (snd e)" if "e \<in> set (nd_children (nd c n))" for e
    using ch that by (cases e) (auto simp: children_ok_def)
  then have "inj_on snd (set (nd_children (nd c n)))" by (metis (mono_tags, lifting) inj_onI prod.collapse)
  moreover have "distinct (nd_children (nd c n))"
    using ch by (auto simp: children_ok_def distinct_map)
  ultimately show "distinct (map snd (nd_children (nd c n)))" by (simp add: distinct_map)
qed

text \<open>The traversal: \<open>V\<close> are the nodes already counted; everything below them is counted or on the stack.\<close>

lemma total_size_loop_spec:
  assumes t: "rc_tree c L pre vals"
  shows "V \<subseteq> L \<Longrightarrow> set stack \<subseteq> L - V \<Longrightarrow> distinct stack \<Longrightarrow> rc_root c \<in> V \<union> set stack
     \<Longrightarrow> \<forall>n\<in>V. kids c L n \<subseteq> V \<union> set stack \<Longrightarrow> \<forall>n\<in>V \<union> set stack. n = rc_root c \<or> (\<exists>m\<in>V. nd_parent (nd c n) = Some m)
     \<Longrightarrow> card (L - V) < fuel \<Longrightarrow> tot = (\<Sum>n\<in>V. nlen c n)
     \<Longrightarrow> total_size_loop fuel stack tot c = Inr (\<Sum>n\<in>L. nlen c n)"
proof (induction fuel arbitrary: V stack tot)
  case (Suc fuel)
  have finL: "finite L" by (rule rc_treeD(2) [OF t])
  show ?case
  proof (cases "stack = []")
    case True
    have "n \<in> L \<Longrightarrow> n \<in> V" for n
    proof (induction "length (pre n)" arbitrary: n rule: less_induct)
      case less
      show ?case
      proof (cases "n = rc_root c")
        case True
        then show ?thesis using Suc.prems(4) \<open>stack = []\<close> by simp
      next
        case False
        obtain m where m: "nd_parent (nd c n) = Some m" using has_parent [OF t less.prems False] by blast
        note p = pre_parent [OF t less.prems m]
        have "m \<in> V" by (rule less.hyps) (use p in auto)
        with Suc.prems(5) \<open>stack = []\<close> less.prems m show ?thesis by (auto simp: kids_def)
      qed
    qed
    with Suc.prems(1) have "V = L" by blast
    with True Suc.prems(8) show ?thesis by simp
  next
    case False
    define n where "n = last stack"
    have st: "stack = butlast stack @ [n]" using False by (simp add: n_def)
    have n: "n \<in> L" "n \<notin> V" "n \<notin> set (butlast stack)" "distinct (butlast stack)" "set stack = insert n (set (butlast stack))"
      using Suc.prems(2,3) st by (metis DiffE in_set_conv_decomp subsetD, metis DiffE in_set_conv_decomp subsetD,
        metis distinct_append disjoint_iff list.set_intros(1), metis distinct_append, metis Un_insert_right append_Nil2 list.simps(15) set_append sup_bot.right_neutral list.set(1))
    note ks = map_snd_children [OF t n(1)]
    obtain v where v: "nd_value (nd c n) = Some v" "length v = nlen c n"
    proof (cases "n = rc_root c")
      case True
      then show thesis using rc_treeD(4) [OF t] that [of "[]"] by (auto simp: root_ok_def key_len_def)
    next
      case False
      from node_okE [OF t n(1) False] that show thesis by metis
    qed
    have ne: "filter (\<lambda>m. \<not> evicted (nd c m)) (map snd (nd_children (nd c n))) = map snd (nd_children (nd c n))"
    proof (rule filter_True, rule ballI)
      fix m assume "m \<in> set (map snd (nd_children (nd c n)))"
      then have m: "m \<in> L" "nd_parent (nd c m) = Some n" unfolding ks(1) by (auto simp: kids_def)
      from node_okE [OF t m(1) pre_parent(1) [OF t m]] show "\<not> evicted (nd c m)" by (metis evicted_def option.distinct(1))
    qed
    let ?K = "map snd (nd_children (nd c n))" and ?V = "insert n V"
    have fresh: "kids c L n \<inter> (V \<union> set stack) = {}"
    proof -
      have "m \<notin> V \<union> set stack" if "m \<in> kids c L n" for m
      proof
        assume "m \<in> V \<union> set stack"
        moreover have m: "m \<in> L" "nd_parent (nd c m) = Some n" using that by (auto simp: kids_def)
        moreover have "m \<noteq> rc_root c" by (rule pre_parent(1) [OF t m])
        ultimately obtain q where "q \<in> V" "nd_parent (nd c m) = Some q" using Suc.prems(6) by blast
        with m(2) n(2) show False by simp
      qed
      then show ?thesis by blast
    qed
    have "total_size_loop fuel (butlast stack @ ?K) (tot + length v) c = Inr (\<Sum>n\<in>L. nlen c n)"
    proof (rule Suc.IH [of ?V])
      show "?V \<subseteq> L" using Suc.prems(1) n(1) by blast
      have kn: "n \<notin> kids c L n" using fresh n(5) by blast
      show "set (butlast stack @ ?K) \<subseteq> L - ?V" using Suc.prems(2) n fresh kn unfolding set_append ks(1) by (auto simp: kids_def)
      show "distinct (butlast stack @ ?K)" using n(4,5) ks fresh by auto
      show "rc_root c \<in> ?V \<union> set (butlast stack @ ?K)" using Suc.prems(4) n(5) by auto
      show "\<forall>m\<in>?V. kids c L m \<subseteq> ?V \<union> set (butlast stack @ ?K)" using Suc.prems(5) n(5) unfolding set_append ks(1) by blast
      show "\<forall>m\<in>?V \<union> set (butlast stack @ ?K). m = rc_root c \<or> (\<exists>q\<in>?V. nd_parent (nd c m) = Some q)"
        using Suc.prems(6) n(5) unfolding set_append ks(1) by (auto simp: kids_def)
      have "L - ?V = (L - V) - {n}" by blast
      then show "card (L - ?V) < fuel" using Suc.prems(7) n(1,2) finL card_Diff1_less [of "L - V" n] by auto
      show "tot + length v = (\<Sum>m\<in>?V. nlen c m)" using Suc.prems(1,8) v(2) n(2) finL by (simp add: finite_subset)
    qed
    then show ?thesis using False v(1) ne by (simp add: n_def)
  qed
qed simp

text \<open>
  Walking the whole tree counts every cached token once: \<open>total_size\<close> terminates and returns the
  sum of the evictable and the protected size that the cache maintains incrementally.
\<close>

theorem radix_total_size:
  assumes "rc_inv c"
  shows "\<exists>n. total_size c = Inr n \<and> int n = rc_evictable_size c + rc_protected_size c"
proof -
  obtain L pre vals where w: "rc_wf c L pre vals" "rc_tree c L pre vals" using assms by (metis rc_inv_wfE)
  note t = w(2)
  have finL: "finite L" by (rule rc_treeD(2) [OF t])
  have "L \<subseteq> {..<rc_counter c}" using rc_treeD(7) [OF t] by auto
  then have "card L < Suc (rc_counter c)" using card_mono [of "{..<rc_counter c}" L] by simp
  then have "total_size c = Inr (\<Sum>n\<in>L. nlen c n)"
    unfolding total_size_def by (intro total_size_loop_spec [OF t, of "{}"]) (use rc_treeD(3) [OF t] in auto)
  moreover have "int (\<Sum>n\<in>L. nlen c n) = rc_evictable_size c + rc_protected_size c"
  proof -
    have "nlen c (rc_root c) = 0" using rc_treeD(4) [OF t] by (simp add: root_ok_def)
    then have "int (\<Sum>n\<in>L. nlen c n) = (\<Sum>n\<in>L - {rc_root c}. int (nlen c n))"
      using sum.remove [OF finL rc_treeD(3) [OF t], of "nlen c"] by simp
    also have "\<dots> = (\<Sum>n\<in>L - {rc_root c}. (if lock c n = 0 then int (nlen c n) else 0) + (if 0 < lock c n then int (nlen c n) else 0))"
      using w(1) by (intro sum.cong) (auto simp: rc_wf_def rc_acct_def le_less)
    also have "\<dots> = size_if c L (\<lambda>l. l = 0) + size_if c L (\<lambda>l. 0 < l)" by (simp add: size_if_def sum.distrib)
    finally show ?thesis using w(1) by (simp add: rc_wf_def rc_acct_def)
  qed
  ultimately show ?thesis by blast
qed

theorem radix_total_size_witness:
  "\<exists>c. sample_cache = Inr c \<and> total_size c = Inr 4"
proof -
  obtain c where c: "sample_cache = Inr c" "rc_enabled c" "rc_evictable_size c = 4" "rc_protected_size c = 0" using sample_cache_ok by blast
  with radix_total_size [of c] show ?thesis by (auto simp: rc_enabled_def)
qed

end
