(* ===== verification/Block_Hash.thy ===== *)
theory Block_Hash
  imports Tree_Node "HOL-Library.Word"
begin

text \<open>
  What the block hashes of a node are: a chain of digests over its pages, each of the previous
  digest followed by the tokens of the page as little-endian 32-bit numbers, and what number the
  cache events name a block with.
\<close>

section \<open>The chain of digests\<close>

definition token_bytes :: "int \<Rightarrow> nat list" where
  "token_bytes t = [nat (t mod 256), nat (t div 256 mod 256), nat (t div 65536 mod 256), nat (t div 16777216 mod 256)]"

definition page_bytes :: "radix_key \<Rightarrow> nat \<Rightarrow> nat \<Rightarrow> nat list" where
  "page_bytes k p i = concat (map token_bytes (concat (take p (drop (i * p) (key_iter k)))))"

fun chain :: "(nat list \<Rightarrow> nat list) \<Rightarrow> nat list \<Rightarrow> nat list list \<Rightarrow> nat list list" where
  "chain sha prior [] = []"
| "chain sha prior (b # bs) = sha (prior @ b) # chain sha (sha (prior @ b)) bs"

text \<open>The first eight bytes of a digest, the most significant one first, as a signed 64-bit number.\<close>

definition block_id :: "nat list \<Rightarrow> int" where
  "block_id bs = sint (of_nat (foldl (\<lambda>a b. 256 * a + b) 0 (take 8 bs)) :: 64 word)"

section \<open>Bytes of tokens\<close>

lemma to_bytes4_token: "0 \<le> t \<Longrightarrow> t < 2 ^ 32 \<Longrightarrow> to_bytes4 t = Inr (token_bytes t)"
  by (simp add: to_bytes4_def token_bytes_def upt_rec nat_div_distrib nat_mod_distrib)

lemma to_bytes4_all_tokens:
  "(\<forall>t\<in>set ts. 0 \<le> t \<and> t < 2 ^ 32) \<Longrightarrow> to_bytes4_all ts = Inr (concat (map token_bytes ts))"
  by (induction ts) (simp_all add: to_bytes4_token)

lemma get_hash_str_bytes:
  assumes "\<forall>u\<in>set units. \<forall>t\<in>set u. 0 \<le> t \<and> t < 2 ^ 32" "prior_bytes prior = Inr pb"
  shows "get_hash_str sha units prior = Inr (hexdigest (sha (pb @ concat (map token_bytes (concat units)))))"
  using assms to_bytes4_all_tokens [of "concat units"] by (simp add: get_hash_str_def)

section \<open>Chaining\<close>

lemma prior_bytes_sha: "sha_ok sha \<Longrightarrow> prior_bytes (Some (hexdigest (sha bs))) = Inr (sha bs)"
proof -
  assume a: "sha_ok sha"
  then have "length (hexdigest (sha bs)) \<noteq> 0" by (simp add: sha_ok_def)
  then have "hexdigest (sha bs) \<noteq> []" unfolding length_0_conv .
  then show ?thesis using a by (simp add: prior_bytes_def bytes_fromhex_hexdigest sha_ok_def)
qed

lemma hash_pages_chain:
  assumes "sha_ok sha" "toks_ok k" "0 < p" "p * m = key_len k" "i \<le> m" "p * (m - i) < fuel" "prior_bytes prior = Inr pb"
  shows "hash_pages fuel sha k p (p * i) prior = Inr (map hexdigest (chain sha pb (map (page_bytes k p) [i..<m])))"
  using assms(5-7)
proof (induction fuel arbitrary: i prior pb)
  case (Suc fuel)
  show ?case
  proof (cases "i = m")
    case True
    then show ?thesis using assms(4) by simp
  next
    case False
    then have im: "i < m" "Suc i \<le> m" using Suc.prems(1) by simp_all
    have "p * Suc i \<le> p * m" by (rule mult_le_mono2 [OF im(2)])
    then have sp: "p * i + p \<le> key_len k" using assms(4) by simp
    then have st: "p * i < key_len k" using assms(3) by linarith
    let ?us = "take p (drop (i * p) (key_iter k))" and ?d = "sha (pb @ page_bytes k p i)"
    have "\<forall>u\<in>set ?us. \<forall>t\<in>set u. 0 \<le> t \<and> t < 2 ^ 32"
      using assms(2) units_in_tokens [of _ k] unfolding toks_ok_def by (blast dest: in_set_takeD in_set_dropD)
    then have "get_hash_str sha ?us prior = Inr (hexdigest ?d)" unfolding page_bytes_def by (rule get_hash_str_bytes [OF _ Suc.prems(3)])
    then have h: "hash_page sha k (p * i) (p * i + p) prior = Inr (hexdigest ?d)"
      using hash_page_units [OF le_add1 sp, of sha prior] by (simp add: mult.commute)
    have "m - i = Suc (m - Suc i)" using im(1) by simp
    then have "p * (m - Suc i) < fuel" using Suc.prems(2) assms(3) by simp
    then have "hash_pages fuel sha k p (p * Suc i) (Some (hexdigest ?d)) = Inr (map hexdigest (chain sha ?d (map (page_bytes k p) [Suc i..<m])))"
      by (rule Suc.IH [OF im(2) _ prior_bytes_sha [OF assms(1)]])
    moreover have "p * Suc i = p * i + p" by simp
    ultimately show ?thesis using h sp st upt_conv_Cons [OF im(1)] by (simp add: min_def del: mult_Suc_right)
  qed
qed simp

section \<open>Block identifiers\<close>

lemma int_base16_bytes:
  "(\<forall>b\<in>set bs. b < 256) \<Longrightarrow> int_base16 acc (hexdigest bs) = Inr (foldl (\<lambda>a b. 256 * a + b) acc bs)"
proof (induction bs arbitrary: acc)
  case (Cons b bs)
  have "b div 16 < 16" using Cons.prems by (auto simp: div_less_iff_less_mult)
  then have e: "16 * (16 * acc + b div 16 mod 16) + b mod 16 = 256 * acc + b" by simp
  have "int_base16 acc (hexdigest (b # bs)) = int_base16 (16 * (16 * acc + b div 16 mod 16) + b mod 16) (hexdigest bs)"
    by (simp add: hexdigest_def)
  then show ?case using Cons.IH [of "256 * acc + b"] Cons.prems unfolding e by simp
qed (simp add: hexdigest_def)

lemma take_hexdigest: "take (2 * n) (hexdigest bs) = hexdigest (take n bs)"
proof (induction bs arbitrary: n)
  case (Cons b bs)
  then show ?case by (cases n) (simp_all add: hexdigest_def)
qed (simp add: hexdigest_def)

lemma foldl_bytes_less:
  fixes acc :: nat
  shows "(\<forall>b\<in>set bs. b < 256) \<Longrightarrow> foldl (\<lambda>a b. 256 * a + b) acc bs < (acc + 1) * 256 ^ length bs"
proof (induction bs arbitrary: acc)
  case (Cons b bs)
  have "256 * acc + b + 1 \<le> (acc + 1) * 256" using Cons.prems by auto
  then have "(256 * acc + b + 1) * 256 ^ length bs \<le> (acc + 1) * 256 * 256 ^ length bs" by (rule mult_le_mono1)
  moreover have "foldl (\<lambda>a b. 256 * a + b) (256 * acc + b) bs < (256 * acc + b + 1) * 256 ^ length bs" using Cons by simp
  ultimately have "foldl (\<lambda>a b. 256 * a + b) (256 * acc + b) bs < (acc + 1) * 256 * 256 ^ length bs" by (rule less_le_trans [rotated])
  moreover have "(acc + 1) * 256 * 256 ^ length bs = (acc + 1) * 256 ^ length (b # bs)" by (simp add: algebra_simps)
  ultimately show ?case by (simp only: foldl.simps)
qed simp

lemma sint_of_nat64:
  assumes "v < 2 ^ 64"
  shows "sint (of_nat v :: 64 word) = (if 2 ^ 63 \<le> v then int v - 2 ^ 64 else int v)"
proof -
  have "sint (of_nat v :: 64 word) = (int v + 2 ^ 63) mod 2 ^ 64 - 2 ^ 63"
    by (simp add: signed_of_nat signed_take_bit_eq_take_bit_shift take_bit_eq_mod)
  moreover have "(int v + 2 ^ 63) mod 2 ^ 64 = (if 2 ^ 63 \<le> v then int v - 2 ^ 63 else int v + 2 ^ 63)"
  proof (cases "2 ^ 63 \<le> v")
    case True
    have "(int v + 2 ^ 63) mod 2 ^ 64 = (int v + 2 ^ 63 - 2 ^ 64) mod 2 ^ 64" by (rule minus_mod_self2 [symmetric])
    also have "\<dots> = int v + 2 ^ 63 - 2 ^ 64" by (rule mod_pos_pos_trivial) (use True assms in simp_all)
    finally show ?thesis using True by simp
  next
    case False
    have "(int v + 2 ^ 63) mod 2 ^ 64 = int v + 2 ^ 63" by (rule mod_pos_pos_trivial) (use False in simp_all)
    then show ?thesis using False by simp
  qed
  ultimately show ?thesis by simp
qed

lemma hash_str_to_int64_block_id:
  assumes "\<forall>b\<in>set bs. b < 256" "bs \<noteq> []"
  shows "hash_str_to_int64 (hexdigest bs) = Inr (block_id bs)"
proof -
  let ?v = "foldl (\<lambda>a b. 256 * a + b) 0 (take 8 bs)"
  have b8: "\<forall>b\<in>set (take 8 bs). b < 256" using assms(1) by (auto dest: in_set_takeD)
  have "hexdigest bs \<noteq> []" using assms(2) by (cases bs) (simp_all add: hexdigest_def)
  moreover have "int_base16 0 (take 16 (hexdigest bs)) = Inr ?v"
    using take_hexdigest [of 8 bs] int_base16_bytes [OF b8, of 0] by simp
  moreover have "?v < 256 ^ length (take 8 bs)" using foldl_bytes_less [OF b8, of 0] by simp
  then have "?v < 2 ^ 64"
  proof (rule less_le_trans)
    have "(256::nat) ^ length (take 8 bs) \<le> 256 ^ 8" by (rule power_increasing) simp_all
    then show "(256::nat) ^ length (take 8 bs) \<le> 2 ^ 64" by simp
  qed
  then have "block_id bs = (if 2 ^ 63 \<le> ?v then int ?v - 2 ^ 64 else int ?v)" unfolding block_id_def by (rule sint_of_nat64)
  ultimately show ?thesis by (simp add: hash_str_to_int64_def)
qed

section \<open>The property\<close>

text \<open>The bytes a node's first page is chained to: the last digest of its parent, if that has one.\<close>

definition parent_digest :: "tree_node option \<Rightarrow> nat list \<Rightarrow> bool" where
  "parent_digest parent pb \<longleftrightarrow>
     (case parent of
        None \<Rightarrow> pb = []
      | Some m \<Rightarrow> (case nd_hash_value m of
          Some hs \<Rightarrow> if 0 < key_len (nd_key m) \<and> hs \<noteq> [] then last hs = hexdigest pb \<and> pb \<noteq> [] \<and> (\<forall>b\<in>set pb. b < 256) else pb = []
        | None \<Rightarrow> pb = []))"

text \<open>
  C35: The block hashes of a node are the hash chain the events need. For tokens of 32 bits, a SHA-256
  that returns 32 bytes and a key of whole pages, \<open>compute_node_hash_values\<close> succeeds with one hash per page:
  the hexadecimal form of the digest of the previous page's digest (for the first page the
  last one of the parent) followed by the four little-endian bytes of each token of the page. The
  identifier that the events carry for a page is the signed 64-bit number of the first eight bytes of its digest.
\<close>

theorem node_hash_chain:
  assumes "sha_ok sha" "toks_ok (nd_key n)" "0 < p" "p * m = key_len (nd_key n)" "parent_digest parent pb"
    and "ds = chain sha pb (map (page_bytes (nd_key n) p) [0..<m])"
  shows "compute_node_hash_values sha n parent p = Inr (map hexdigest ds) \<and> length ds = m
     \<and> (\<forall>i<m. hash_str_to_int64 (map hexdigest ds ! i) = Inr (block_id (ds ! i))
          \<and> ds ! i = sha ((if i = 0 then pb else ds ! (i - 1)) @ page_bytes (nd_key n) p i))"
proof -
  let ?ph = "case parent of None \<Rightarrow> None | Some m \<Rightarrow> (case nd_hash_value m of None \<Rightarrow> None
              | Some hs \<Rightarrow> if 0 < key_len (nd_key m) \<and> hs \<noteq> [] then Some (last hs) else None)"
  have len: "length (chain sha q bs) = length bs" for q bs by (induction bs arbitrary: q) simp_all
  have nth: "chain sha q bs ! i = sha ((if i = 0 then q else chain sha q bs ! (i - 1)) @ bs ! i)" if "i < length bs" for q bs i
    using that
  proof (induction bs arbitrary: q i)
    case (Cons b bs)
    then show ?case by (cases i) (use Cons.IH in \<open>auto simp: nth_Cons'\<close>)
  qed simp
  have lds: "length ds = m" by (simp add: assms(6) len)
  have nds: "ds ! i = sha ((if i = 0 then pb else ds ! (i - 1)) @ page_bytes (nd_key n) p i)" if "i < m" for i
    using nth [of i "map (page_bytes (nd_key n) p) [0..<m]" pb] that unfolding assms(6) by simp
  have "hexdigest pb \<noteq> []" if "pb \<noteq> []" using that by (cases pb) (simp_all add: hexdigest_def)
  then have "prior_bytes ?ph = Inr pb"
    using assms(5) by (auto simp: parent_digest_def prior_bytes_def bytes_fromhex_hexdigest split: option.splits if_splits)
  from hash_pages_chain [OF assms(1-4) le0 _ this, of "Suc (key_len (nd_key n))"]
  have "compute_node_hash_values sha n parent p = Inr (map hexdigest ds)"
    using assms(4,6) by (simp add: compute_node_hash_values_def)
  moreover have "hash_str_to_int64 (hexdigest (ds ! i)) = Inr (block_id (ds ! i))" if "i < m" for i
  proof (rule hash_str_to_int64_block_id)
    have "length (sha bs) = 32" for bs using assms(1) by (simp add: sha_ok_def)
    then show "ds ! i \<noteq> []" unfolding nds [OF that] by (metis list.size(3) zero_neq_numeral)
    show "\<forall>b\<in>set (ds ! i). b < 256" unfolding nds [OF that] using assms(1) by (simp add: sha_ok_def)
  qed
  ultimately show ?thesis using lds nds by simp
qed

text \<open>A toy digest of 32 bytes, and a node of two pages.\<close>

definition sample_sha :: "nat list \<Rightarrow> nat list" where
  "sample_sha bs = (200 + length bs mod 32) # replicate 31 (sum_list bs mod 256)"

definition sample_hash_node :: tree_node where
  "sample_hash_node = (tree_node_init 0 0)\<lparr>nd_key := mk_key [1, 258, 3, 4] None False\<rparr>"

theorem node_hash_chain_witness:
  "\<exists>h0 h1. compute_node_hash_values sample_sha sample_hash_node None 2 = Inr [h0, h1]
     \<and> h0 = hexdigest (sample_sha [1, 0, 0, 0, 2, 1, 0, 0]) \<and> h1 = hexdigest (sample_sha (sample_sha [1, 0, 0, 0, 2, 1, 0, 0] @ [3, 0, 0, 0, 4, 0, 0, 0]))
     \<and> hash_str_to_int64 h0 = Inr (block_id (sample_sha [1, 0, 0, 0, 2, 1, 0, 0]))"
proof -
  have k: "nd_key sample_hash_node = mk_key [1, 258, 3, 4] None False" "key_len (nd_key sample_hash_node) = 4"
    by (simp_all add: sample_hash_node_def mk_key_def key_len_def)
  have sha: "sha_ok sample_sha" by (auto simp: sha_ok_def sample_sha_def)
  have tk: "toks_ok (nd_key sample_hash_node)" by (simp add: k toks_ok_def mk_key_def)
  have pd: "parent_digest None []" by (simp add: parent_digest_def)
  have pb: "page_bytes (nd_key sample_hash_node) 2 0 = [1, 0, 0, 0, 2, 1, 0, 0]" "page_bytes (nd_key sample_hash_node) 2 1 = [3, 0, 0, 0, 4, 0, 0, 0]"
    unfolding k(1) by (simp_all add: page_bytes_def mk_key_def key_iter_def token_bytes_def numeral_2_eq_2)
  let ?d = "sample_sha [1, 0, 0, 0, 2, 1, 0, 0]"
  have ds: "chain sample_sha [] (map (page_bytes (nd_key sample_hash_node) 2) [0..<2]) = [?d, sample_sha (?d @ [3, 0, 0, 0, 4, 0, 0, 0])]"
    using pb by (simp add: upt_rec)
  note t = node_hash_chain [OF sha tk _ _ pd refl, of 2 2, unfolded ds]
  have t2: "compute_node_hash_values sample_sha sample_hash_node None 2 = Inr (map hexdigest [?d, sample_sha (?d @ [3, 0, 0, 0, 4, 0, 0, 0])])"
    "\<forall>i<2. hash_str_to_int64 (map hexdigest [?d, sample_sha (?d @ [3, 0, 0, 0, 4, 0, 0, 0])] ! i) = Inr (block_id ([?d, sample_sha (?d @ [3, 0, 0, 0, 4, 0, 0, 0])] ! i))"
    using t k(2) by auto
  have "hash_str_to_int64 (hexdigest ?d) = Inr (block_id ?d)" using spec [OF t2(2), of 0] by (simp only: list.map nth_Cons_0 zero_less_numeral simp_thms)
  then show ?thesis using t2(1) unfolding list.map by (intro exI conjI) (assumption | rule refl)+
qed

end
