(* ===== verification/Kv_Kernels.thy ===== *)
theory Kv_Kernels
  imports Kv_Allocator
begin

text \<open>
  The page-filling kernels of \<open>mem_cache/allocator.py\<close>: \<open>alloc_extend_kernel\<close> and
  \<open>alloc_decode_kernel\<close> (Triton, one program instance per request), the Torch version
  \<open>alloc_extend_naive\<close>, and the allocator operations \<open>alloc_extend\<close> and \<open>alloc_decode\<close> that
  run them. Both extend routines are shown to write the same specification: the token at
  position \<open>t\<close> of a sequence goes to the slot \<open>extend_slot\<close> gives it.
\<close>

section \<open>Tensors as lists\<close>

text \<open>
  A load beyond the end of a tensor reads whatever memory holds there (\<open>oob\<close>); a store beyond
  the end does not touch the tensor. \<open>fill\<close> is the value of a masked-off lane of a load.
\<close>

definition tl_load :: "(int \<Rightarrow> int) \<Rightarrow> int list \<Rightarrow> int \<Rightarrow> int" where
  "tl_load oob xs i = (if 0 \<le> i \<and> i < int (length xs) then xs ! nat i else oob i)"

definition tl_store :: "int \<Rightarrow> int \<Rightarrow> int list \<Rightarrow> int list" where
  "tl_store i v out = (if 0 \<le> i then out[nat i := v] else out)"

definition lane :: "int \<Rightarrow> nat list \<Rightarrow> nat \<Rightarrow> nat \<Rightarrow> int" where
  "lane fill xs pid j = (if j \<le> pid then int (xs ! j) else fill)"

definition store_block :: "nat \<Rightarrow> (nat \<Rightarrow> bool) \<Rightarrow> (nat \<Rightarrow> int) \<Rightarrow> (nat \<Rightarrow> int) \<Rightarrow> int list \<Rightarrow> int list" where
  "store_block n msk pos v out =
     fold (\<lambda>j out. if msk j then tl_store (pos j) (v j) out else out) [0..<n] out"

fun bit_length :: "nat \<Rightarrow> nat" where
  "bit_length n = (if n = 0 then 0 else Suc (bit_length (n div 2)))"

declare bit_length.simps [simp del]

definition next_power_of_2 :: "nat \<Rightarrow> nat" where
  "next_power_of_2 n = (if 0 < n then 2 ^ bit_length (n - 1) else 1)"

abbreviation pages_of :: "nat \<Rightarrow> int \<Rightarrow> int" where
  "pages_of p x \<equiv> (x + int p - 1) div int p"

section \<open>The extend kernel\<close>

definition BLOCK_EXTEND :: nat where
  "BLOCK_EXTEND = 4096"

definition alloc_extend_program ::
  "(int \<Rightarrow> int) \<Rightarrow> int \<Rightarrow> nat list \<Rightarrow> nat list \<Rightarrow> int list \<Rightarrow> int list \<Rightarrow> nat \<Rightarrow> nat \<Rightarrow> nat
     \<Rightarrow> int list \<Rightarrow> int list" where
  "alloc_extend_program oob fill pre_lens seq_lens last_locs free_pages bs_upper p pid out =
     (let seq_len = int (seq_lens ! pid);
          pre_len = int (pre_lens ! pid);
          sum_extend_lens = (\<Sum>j\<leftarrow>[0..<bs_upper]. lane fill seq_lens pid j - lane fill pre_lens pid j);
          output_start_loc = sum_extend_lens - (seq_len - pre_len);
          num_page_start_loc_self = pages_of p seq_len - pages_of p pre_len;
          sum_num_new_pages = (\<Sum>j\<leftarrow>[0..<bs_upper].
             pages_of p (lane fill seq_lens pid j) - pages_of p (lane fill pre_lens pid j));
          new_page_start_loc = sum_num_new_pages - num_page_start_loc_self;
          last_loc = last_locs ! pid;
          num_part1 = min seq_len (pages_of p pre_len * int p) - pre_len;
          out1 = store_block p (\<lambda>j. int j < num_part1) (\<lambda>j. output_start_loc + int j)
                   (\<lambda>j. last_loc + 1 + int j) out
      in if pre_len + num_part1 = seq_len then out1
      else let num_part2 = seq_len div int p * int p - pages_of p pre_len * int p;
               num_blocks = (num_part2 + int BLOCK_EXTEND - 1) div int BLOCK_EXTEND;
               out2 = fold (\<lambda>block_id. store_block BLOCK_EXTEND
                        (\<lambda>j. int (block_id * BLOCK_EXTEND + j) < num_part2)
                        (\<lambda>j. output_start_loc + num_part1 + int (block_id * BLOCK_EXTEND + j))
                        (\<lambda>j. tl_load oob free_pages
                               (new_page_start_loc + int ((block_id * BLOCK_EXTEND + j) div p)) * int p
                             + int ((block_id * BLOCK_EXTEND + j) mod p)))
                      [0..<nat num_blocks] out1
      in if pre_len + num_part1 + num_part2 = seq_len then out2
      else let num_part3 = seq_len - seq_len div int p * int p;
               start_loc = tl_load oob free_pages (new_page_start_loc + num_page_start_loc_self - 1)
      in store_block p (\<lambda>j. int j < num_part3)
           (\<lambda>j. output_start_loc + num_part1 + num_part2 + int j)
           (\<lambda>j. start_loc * int p + int j) out2)"

definition alloc_extend_kernel ::
  "(int \<Rightarrow> int) \<Rightarrow> int \<Rightarrow> nat list \<Rightarrow> nat list \<Rightarrow> int list \<Rightarrow> int list \<Rightarrow> nat \<Rightarrow> nat \<Rightarrow> nat
     \<Rightarrow> int list \<Rightarrow> int list" where
  "alloc_extend_kernel oob fill pre_lens seq_lens last_locs free_pages bs_upper p bs out =
     fold (alloc_extend_program oob fill pre_lens seq_lens last_locs free_pages bs_upper p) [0..<bs] out"

section \<open>The Torch version\<close>

text \<open>Slice assignment \<open>out[a:b] = vs\<close>, which raises when the shapes differ.\<close>

definition slice_assign :: "int \<Rightarrow> int \<Rightarrow> int list \<Rightarrow> int list \<Rightarrow> int list res" where
  "slice_assign a b vs out =
     (let i = min (nat a) (length out); j = min (nat b) (length out)
      in if length vs = j - i then Inr (take i out @ vs @ drop j out) else Inl RuntimeError)"

definition torch_slice :: "int \<Rightarrow> int \<Rightarrow> int list \<Rightarrow> int list" where
  "torch_slice a b xs = take (nat b - nat a) (drop (nat a) xs)"

definition cumsum_at :: "(nat \<Rightarrow> int) \<Rightarrow> nat \<Rightarrow> int" where
  "cumsum_at f i = (\<Sum>j\<leftarrow>[0..<Suc i]. f j)"

definition extend_naive_step ::
  "nat list \<Rightarrow> nat list \<Rightarrow> int list \<Rightarrow> int list \<Rightarrow> nat \<Rightarrow> nat \<Rightarrow> int list \<Rightarrow> int list res" where
  "extend_naive_step prefix_lens seq_lens last_locs free_pages p i out =
     (let seq = int (seq_lens ! i); pre = int (prefix_lens ! i);
          extend_len = (\<lambda>j. int (seq_lens ! j) - int (prefix_lens ! j));
          end_pos = cumsum_at extend_len i;
          start_pos = end_pos - extend_len i;
          num_new_pages = (\<lambda>j. pages_of p (int (seq_lens ! j)) - pages_of p (int (prefix_lens ! j)));
          num_full_new_pages = seq div int p - pages_of p pre;
          need_page = num_new_pages i - num_full_new_pages;
          end_new_pages = cumsum_at num_new_pages i;
          start_new_pages = end_new_pages - num_new_pages i;
          num1 = min seq (pages_of p pre * int p) - pre
      in rbind (if num1 \<noteq> 0
                then slice_assign start_pos (start_pos + num1)
                       (map (\<lambda>j. last_locs ! i + 1 + int j) (take (nat num1) [0..<p])) out
                else Inr out) (\<lambda>out1.
         if pre + num1 = seq then Inr out1
         else let num2 = (seq div int p - pages_of p pre) * int p
         in rbind (if num2 \<noteq> 0
                   then slice_assign (start_pos + num1) (start_pos + num1 + num2)
                          (page_slots p (torch_slice start_new_pages (end_new_pages - need_page) free_pages)) out1
                   else Inr out1) (\<lambda>out2.
            if pre + num1 + num2 = seq then Inr out2
            else let num3 = seq - seq div int p * int p
            in if num3 \<noteq> 0
               then if 0 \<le> end_new_pages - 1 \<and> end_new_pages - 1 < int (length free_pages)
                    then slice_assign (end_pos - num3) end_pos
                           (map (\<lambda>j. free_pages ! nat (end_new_pages - 1) * int p + int j)
                              (take (nat num3) [0..<p])) out2
                    else Inl IndexError
               else Inr out2)))"

definition alloc_extend_naive ::
  "nat list \<Rightarrow> nat list \<Rightarrow> int list \<Rightarrow> int list \<Rightarrow> nat \<Rightarrow> int list \<Rightarrow> int list res" where
  "alloc_extend_naive prefix_lens seq_lens last_locs free_pages p out =
     fold (\<lambda>i r. rbind r (extend_naive_step prefix_lens seq_lens last_locs free_pages p i))
       [0..<length prefix_lens] (Inr out)"

section \<open>The decode kernel\<close>

definition alloc_decode_program ::
  "(int \<Rightarrow> int) \<Rightarrow> int \<Rightarrow> nat list \<Rightarrow> int list \<Rightarrow> int list \<Rightarrow> nat \<Rightarrow> nat \<Rightarrow> nat \<Rightarrow> int list \<Rightarrow> int list" where
  "alloc_decode_program oob fill seq_lens last_locs free_pages bs_upper p pid out =
     (let seq_len = int (seq_lens ! pid);
          pre_len = seq_len - 1;
          pre_lane = (\<lambda>j. if j \<le> pid then lane fill seq_lens pid j - 1 else lane fill seq_lens pid j);
          num_page_start_loc_self = pages_of p seq_len - pages_of p pre_len;
          sum_num_new_pages = (\<Sum>j\<leftarrow>[0..<bs_upper].
             pages_of p (lane fill seq_lens pid j) - pages_of p (pre_lane j));
          new_page_start_loc = sum_num_new_pages - num_page_start_loc_self
      in if num_page_start_loc_self = 0
         then tl_store (int pid) (last_locs ! pid + 1) out
         else tl_store (int pid) (tl_load oob free_pages new_page_start_loc * int p) out)"

definition alloc_decode_kernel ::
  "(int \<Rightarrow> int) \<Rightarrow> int \<Rightarrow> nat list \<Rightarrow> int list \<Rightarrow> int list \<Rightarrow> nat \<Rightarrow> nat \<Rightarrow> nat \<Rightarrow> int list \<Rightarrow> int list" where
  "alloc_decode_kernel oob fill seq_lens last_locs free_pages bs_upper p bs out =
     fold (alloc_decode_program oob fill seq_lens last_locs free_pages bs_upper p) [0..<bs] out"

section \<open>The allocator operations\<close>

definition get_num_new_pages :: "nat list \<Rightarrow> nat \<Rightarrow> nat list option \<Rightarrow> bool \<Rightarrow> int res" where
  "get_num_new_pages seq_lens p prefix_lens decode =
     (case prefix_lens of
        None \<Rightarrow> if decode then Inr (\<Sum>s\<leftarrow>seq_lens. if s mod p = 1 then 1 else 0) else Inl AssertionError
      | Some pre \<Rightarrow>
          if decode then Inr (\<Sum>s\<leftarrow>seq_lens. if s mod p = 1 then 1 else 0)
          else Inr (\<Sum>(s, q)\<leftarrow>zip seq_lens pre. pages_of p (int s) - pages_of p (int q)))"

text \<open>\<open>uninit\<close> is the content of the uninitialised output tensor.\<close>

definition alloc_extend ::
  "(int \<Rightarrow> int) \<Rightarrow> int \<Rightarrow> int list \<Rightarrow> nat list \<Rightarrow> nat list \<Rightarrow> int list \<Rightarrow> nat \<Rightarrow> int option \<Rightarrow> kv_alloc
     \<Rightarrow> (int list option \<times> kv_alloc) res" where
  "alloc_extend oob fill uninit prefix_lens seq_lens last_locs extend_num_tokens num_new_pages a =
     rbind (guard_res (al_debug_mode a \<longrightarrow>
         list_all2 (\<lambda>l q. (l + 1) mod int (al_page_size a) = int q mod int (al_page_size a))
           last_locs prefix_lens) AssertionError) (\<lambda>_.
     let bs = length prefix_lens;
         a' = (if al_need_sort a \<and> length (al_free_pages a) < extend_num_tokens div al_page_size a + bs + 1
               then merge_and_sort_free a else a);
         out = alloc_extend_kernel oob fill prefix_lens seq_lens last_locs (al_free_pages a')
                 (next_power_of_2 bs) (al_page_size a) bs (take extend_num_tokens uninit)
     in rbind (guard_res (al_debug_mode a \<longrightarrow> length (torch_unique out) = length out) AssertionError) (\<lambda>_.
        rbind (case num_new_pages of Some n \<Rightarrow> Inr n
               | None \<Rightarrow> get_num_new_pages seq_lens (al_page_size a) (Some prefix_lens) False) (\<lambda>n.
        if int (length (al_free_pages a')) < n then Inr (None, a')
        else Inr (Some out, a'\<lparr>al_free_pages := drop (slice_bound (length (al_free_pages a')) n) (al_free_pages a')\<rparr>))))"

definition alloc_decode ::
  "(int \<Rightarrow> int) \<Rightarrow> int \<Rightarrow> int list \<Rightarrow> nat list \<Rightarrow> int list \<Rightarrow> kv_alloc
     \<Rightarrow> (int list option \<times> kv_alloc) res" where
  "alloc_decode oob fill uninit seq_lens last_locs a =
     rbind (guard_res (al_debug_mode a \<longrightarrow>
         list_all2 (\<lambda>l s. (l + 2) mod int (al_page_size a) = int s mod int (al_page_size a))
           last_locs seq_lens) AssertionError) (\<lambda>_.
     let bs = length seq_lens;
         a' = (if al_need_sort a \<and> length (al_free_pages a) < bs then merge_and_sort_free a else a);
         out = alloc_decode_kernel oob fill seq_lens last_locs (al_free_pages a')
                 (next_power_of_2 bs) (al_page_size a) bs (take bs uninit)
     in rbind (guard_res (al_debug_mode a \<longrightarrow> length (torch_unique out) = length out) AssertionError) (\<lambda>_.
        rbind (get_num_new_pages seq_lens (al_page_size a) None True) (\<lambda>n.
        if int (length (al_free_pages a')) < n then Inr (None, a')
        else Inr (Some out, a'\<lparr>al_free_pages := drop (slice_bound (length (al_free_pages a')) n) (al_free_pages a')\<rparr>))))"

section \<open>Writing a segment\<close>

definition write_at :: "nat \<Rightarrow> int list \<Rightarrow> int list \<Rightarrow> int list" where
  "write_at s vs out = take s out @ vs @ drop (s + length vs) out"

lemma length_write_at [simp]: "s + length vs \<le> length out \<Longrightarrow> length (write_at s vs out) = length out"
  by (simp add: write_at_def)

lemma length_write_map: "s + k \<le> length out \<Longrightarrow> length (write_at s (map f [0..<k]) out) = length out"
  by simp

lemma write_at_Nil [simp]: "write_at s [] out = out"
  by (simp add: write_at_def)

lemma write_at_append:
  "s + length vs + length ws \<le> length out \<Longrightarrow>
     write_at (s + length vs) ws (write_at s vs out) = write_at s (vs @ ws) out"
  by (simp add: write_at_def ac_simps)

lemma write_at_snoc:
  "s + length vs < length out \<Longrightarrow>
     (write_at s vs out)[s + length vs := x] = write_at s (vs @ [x]) out"
  by (simp add: write_at_def list_update_append upd_conv_take_nth_drop Cons_nth_drop_Suc [symmetric]
      add.commute)

lemma write_at_all: "length vs = length out \<Longrightarrow> write_at 0 vs out = vs"
  by (simp add: write_at_def)

lemma fold_store:
  "s + k \<le> length out \<Longrightarrow>
     fold (\<lambda>j out. tl_store (int s + int j) (v j) out) [0..<k] out = write_at s (map v [0..<k]) out"
proof (induction k)
  case (Suc k)
  then have "(write_at s (map v [0..<k]) out)[s + length (map v [0..<k]) := v k]
      = write_at s (map v [0..<k] @ [v k]) out"
    by (intro write_at_snoc) simp
  with Suc show ?case by (simp add: tl_store_def nat_add_distrib)
qed simp

lemma fold_masked_off: "(\<And>j. j \<in> set xs \<Longrightarrow> \<not> P j) \<Longrightarrow>
    fold (\<lambda>j out. if P j then f j out else out) xs out = out"
  by (induction xs) auto

lemma fold_masked_on: "(\<And>j. j \<in> set xs \<Longrightarrow> P j) \<Longrightarrow>
    fold (\<lambda>j out. if P j then f j out else out) xs out = fold f xs out"
  by (rule fold_cong) auto

lemma store_block_write:
  assumes "k \<le> m" "s + k \<le> length out"
  shows "store_block m (\<lambda>j. int j < int k) (\<lambda>j. int s + int j) v out = write_at s (map v [0..<k]) out"
proof -
  have "[0..<m] = [0..<k] @ [k..<m]"
    using upt_add_eq_append [of 0 k "m - k"] assms(1) by simp
  moreover have "fold (\<lambda>j out. if int j < int k then tl_store (int s + int j) (v j) out else out) [0..<k] out
      = fold (\<lambda>j out. tl_store (int s + int j) (v j) out) [0..<k] out"
    by (rule fold_masked_on) simp
  moreover have "fold (\<lambda>j out. if int j < int k then tl_store (int s + int j) (v j) out else out) [k..<m] out'
      = out'" for out'
    by (rule fold_masked_off) simp
  ultimately have "store_block m (\<lambda>j. int j < int k) (\<lambda>j. int s + int j) v out
      = fold (\<lambda>j out. tl_store (int s + int j) (v j) out) [0..<k] out"
    unfolding store_block_def by (simp only: fold_append comp_apply)
  with assms(2) show ?thesis by (simp add: fold_store)
qed

lemma upt_blocks: "[0..<Suc k * b] = [0..<k * b] @ map (\<lambda>j. k * b + j) [0..<b]"
proof -
  have "map (\<lambda>j. j + k * b) [0..<b] = [k * b..<b + k * b]" by (rule map_add_upt)
  then show ?thesis using upt_add_eq_append [of 0 "k * b" b] by (simp add: add.commute)
qed

lemma store_blocks:
  "fold (\<lambda>i. store_block b (\<lambda>j. P (i * b + j)) (\<lambda>j. pos (i * b + j)) (\<lambda>j. v (i * b + j))) [0..<k] out
     = store_block (k * b) P pos v out"
proof (induction k)
  case (Suc k)
  then show ?case
    unfolding store_block_def upt_blocks by (simp add: fold_map comp_def)
qed (simp add: store_block_def)

section \<open>The specification\<close>

definition ceil_div :: "nat \<Rightarrow> nat \<Rightarrow> nat" where
  "ceil_div p x = (x + p - 1) div p"

definition ext_start :: "nat list \<Rightarrow> nat list \<Rightarrow> nat \<Rightarrow> nat" where
  "ext_start pre seq i = (\<Sum>j<i. seq ! j - pre ! j)"

definition page_start :: "nat \<Rightarrow> nat list \<Rightarrow> nat list \<Rightarrow> nat \<Rightarrow> nat" where
  "page_start p pre seq i = (\<Sum>j<i. ceil_div p (seq ! j) - ceil_div p (pre ! j))"

text \<open>
  The slot of position \<open>t\<close> of request \<open>i\<close>: the rest of the partly filled last page first, then
  the new pages of the request, in order.
\<close>

definition extend_slot :: "nat \<Rightarrow> nat list \<Rightarrow> nat list \<Rightarrow> int list \<Rightarrow> int list \<Rightarrow> nat \<Rightarrow> nat \<Rightarrow> int" where
  "extend_slot p pre seq last_locs fp i t =
     (let c = ceil_div p (pre ! i) in
      if t < c * p then last_locs ! i + 1 + int (t - pre ! i)
      else fp ! (page_start p pre seq i + (t div p - c)) * int p + int (t mod p))"

definition extend_seg :: "nat \<Rightarrow> nat list \<Rightarrow> nat list \<Rightarrow> int list \<Rightarrow> int list \<Rightarrow> nat \<Rightarrow> int list" where
  "extend_seg p pre seq last_locs fp i =
     map (extend_slot p pre seq last_locs fp i) [pre ! i..<seq ! i]"

definition extend_spec :: "nat \<Rightarrow> nat list \<Rightarrow> nat list \<Rightarrow> int list \<Rightarrow> int list \<Rightarrow> int list" where
  "extend_spec p pre seq last_locs fp =
     concat (map (extend_seg p pre seq last_locs fp) [0..<length pre])"

text \<open>What the caller passes: the lengths of a batch, and enough free pages.\<close>

definition extend_args :: "nat \<Rightarrow> nat list \<Rightarrow> nat list \<Rightarrow> int list \<Rightarrow> int list \<Rightarrow> bool" where
  "extend_args p pre seq last_locs fp \<longleftrightarrow>
     0 < p \<and> length seq = length pre \<and> length last_locs = length pre
   \<and> (\<forall>i<length pre. pre ! i \<le> seq ! i) \<and> page_start p pre seq (length pre) \<le> length fp"

lemma pages_of_nat [simp]: "0 < p \<Longrightarrow> pages_of p (int x) = int (ceil_div p x)"
  by (simp add: ceil_div_def zdiv_int of_nat_diff)

lemma ceil_div_bounds:
  assumes "0 < p" shows "x \<le> ceil_div p x * p" "ceil_div p x * p < x + p"
proof -
  have "ceil_div p x * p + (x + p - 1) mod p = x + p - 1" by (simp add: ceil_div_def)
  moreover have "(x + p - 1) mod p \<le> p - 1" using assms by (metis Suc_pred' less_Suc_eq_le mod_less_divisor)
  ultimately show "x \<le> ceil_div p x * p" "ceil_div p x * p < x + p" using assms by linarith+
qed

lemma ceil_div_mono: "x \<le> y \<Longrightarrow> ceil_div p x \<le> ceil_div p y"
  by (simp add: ceil_div_def div_le_mono)

lemma ceil_div_eq: "0 < p \<Longrightarrow> ceil_div p x = (if p dvd x then x div p else Suc (x div p))"
proof (cases "p dvd x")
  case False
  assume p: "0 < p"
  from False have m: "0 < x mod p" by (simp add: mod_greater_zero_iff_not_dvd)
  have e: "x = p * (x div p) + x mod p" by simp
  have l: "x mod p < p" using p by simp
  have "(x + p - 1) div p = Suc (x div p)"
  proof (rule div_nat_eqI)
    have a: "p * Suc (x div p) = p * (x div p) + p" "p * Suc (Suc (x div p)) = p * (x div p) + p + p"
      by simp_all
    show "p * Suc (x div p) \<le> x + p - 1" "x + p - 1 < p * Suc (Suc (x div p))"
      using e m l unfolding a by linarith+
  qed
  with False show ?thesis by (simp add: ceil_div_def)
qed (auto simp: ceil_div_def elim!: dvdE intro!: div_nat_eqI)

lemma ext_start_Suc: "ext_start pre seq (Suc i) = ext_start pre seq i + (seq ! i - pre ! i)"
  by (simp add: ext_start_def)

lemma page_start_Suc:
  "page_start p pre seq (Suc i) = page_start p pre seq i + (ceil_div p (seq ! i) - ceil_div p (pre ! i))"
  by (simp add: page_start_def)

lemma page_start_mono: "i \<le> j \<Longrightarrow> page_start p pre seq i \<le> page_start p pre seq j"
  unfolding page_start_def by (rule sum_mono2) auto

lemma ext_start_mono: "i \<le> j \<Longrightarrow> ext_start pre seq i \<le> ext_start pre seq j"
  unfolding ext_start_def by (rule sum_mono2) auto

lemma map_upt_shift: "map f [a..<b] = map (\<lambda>j. f (a + j)) [0..<b - a]"
  by (rule nth_equalityI) auto

lemma extend_seg_short:
  assumes "seq ! i \<le> ceil_div p (pre ! i) * p"
  shows "extend_seg p pre seq ll fp i = map (\<lambda>j. ll ! i + 1 + int j) [0..<seq ! i - pre ! i]"
  unfolding extend_seg_def using assms
  by (subst map_upt_shift) (auto simp: extend_slot_def Let_def)

lemma extend_seg_long:
  fixes p pre seq i ll fp
  defines "c \<equiv> ceil_div p (pre ! i)" and "nps \<equiv> page_start p pre seq i"
  assumes p: "0 < p" and long: "c * p < seq ! i"
  shows "extend_seg p pre seq ll fp i =
       map (\<lambda>j. ll ! i + 1 + int j) [0..<c * p - pre ! i]
     @ map (\<lambda>j. fp ! (nps + j div p) * int p + int (j mod p)) [0..<(seq ! i div p - c) * p]
     @ map (\<lambda>j. fp ! (nps + (seq ! i div p - c)) * int p + int j) [0..<seq ! i - seq ! i div p * p]"
proof -
  let ?f = "extend_slot p pre seq ll fp i" and ?q = "seq ! i div p"
  have c: "pre ! i \<le> c * p" using ceil_div_bounds [OF p] by (simp add: c_def)
  have "c * p div p \<le> ?q" using long by (intro div_le_mono) simp
  then have cq: "c \<le> ?q" using p by simp
  then have cq': "c * p \<le> ?q * p" by simp
  have qs: "?q * p \<le> seq ! i" by simp
  have "[pre ! i..<seq ! i] = [pre ! i..<c * p] @ [c * p..<?q * p] @ [?q * p..<seq ! i]"
    using upt_add_eq_append [of "pre ! i" "c * p" "seq ! i - c * p"]
      upt_add_eq_append [of "c * p" "?q * p" "seq ! i - ?q * p"] c cq' qs by simp
  moreover have "map ?f [pre ! i..<c * p] = map (\<lambda>j. ll ! i + 1 + int j) [0..<c * p - pre ! i]"
    by (subst map_upt_shift) (auto simp: extend_slot_def c_def Let_def)
  moreover have "map ?f [c * p..<?q * p]
      = map (\<lambda>j. fp ! (nps + j div p) * int p + int (j mod p)) [0..<(?q - c) * p]"
    using p by (subst map_upt_shift) (auto simp: extend_slot_def c_def [symmetric] nps_def diff_mult_distrib Let_def)
  moreover have "map ?f [?q * p..<seq ! i]
      = map (\<lambda>j. fp ! (nps + (?q - c)) * int p + int j) [0..<seq ! i - ?q * p]"
  proof (subst map_upt_shift, rule map_cong [OF refl])
    fix j assume "j \<in> set [0..<seq ! i - ?q * p]"
    then have "j < seq ! i - ?q * p" by simp
    then have "j < p" using p by (metis minus_div_mult_eq_mod mod_less_divisor less_trans)
    moreover have "\<not> ?q * p + j < c * p" using cq' by linarith
    ultimately show "?f (?q * p + j) = fp ! (nps + (?q - c)) * int p + int j"
      using p by (auto simp: extend_slot_def c_def [symmetric] nps_def Let_def)
  qed
  ultimately show ?thesis by (simp add: extend_seg_def)
qed

lemma length_extend_seg [simp]: "length (extend_seg p pre seq ll fp i) = seq ! i - pre ! i"
  by (simp add: extend_seg_def)

section \<open>The kernel writes the specification\<close>

lemma sum_lanes:
  assumes "pid < u"
  shows "(\<Sum>j\<leftarrow>[0..<u]. g (lane fill xs pid j) - g (lane fill ys pid j))
     = (\<Sum>j<Suc pid. g (int (xs ! j)) - (g (int (ys ! j)) :: int))"
proof -
  have "(\<Sum>j\<leftarrow>[0..<u]. g (lane fill xs pid j) - g (lane fill ys pid j))
      = (\<Sum>j\<in>{0..<u}. g (lane fill xs pid j) - g (lane fill ys pid j))"
    by (simp only: interv_sum_list_conv_sum_set_nat set_upt)
  also have "\<dots> = (\<Sum>j\<in>{..<Suc pid}. g (int (xs ! j)) - g (int (ys ! j)))"
    using assms by (intro sum.mono_neutral_cong_right) (auto simp: lane_def)
  finally show ?thesis .
qed

lemma ext_start_int:
  assumes "\<forall>j<i. pre ! j \<le> seq ! j"
  shows "(\<Sum>j<i. int (seq ! j) - int (pre ! j)) = int (ext_start pre seq i)"
  using assms by (simp add: ext_start_def of_nat_diff)

lemma page_start_int:
  assumes "\<forall>j<i. pre ! j \<le> seq ! j" "0 < p"
  shows "(\<Sum>j<i. pages_of p (int (seq ! j)) - pages_of p (int (pre ! j))) = int (page_start p pre seq i)"
  using assms by (simp add: page_start_def of_nat_diff ceil_div_mono)

lemma le_next_power_of_2: "n \<le> next_power_of_2 n"
proof -
  have "m < 2 ^ bit_length m" for m
  proof (induction m rule: bit_length.induct)
    case (1 n)
    show ?case
    proof (cases "n = 0")
      case False
      then have "bit_length n = Suc (bit_length (n div 2))" by (subst bit_length.simps) simp
      with 1 [OF False] show ?thesis by simp
    qed (simp add: bit_length.simps)
  qed
  from this [of "n - 1"] show ?thesis by (auto simp: next_power_of_2_def)
qed

lemma tl_load_nat: "i < length xs \<Longrightarrow> tl_load oob xs (int i) = xs ! i"
  by (simp add: tl_load_def)

lemma kernel_offsets:
  assumes "extend_args p pre seq ll fp" "i < length pre" "i < u"
  shows "(\<Sum>j\<leftarrow>[0..<u]. lane fill seq i j - lane fill pre i j) - (int (seq ! i) - int (pre ! i))
       = int (ext_start pre seq i)"
    and "(\<Sum>j\<leftarrow>[0..<u]. pages_of p (lane fill seq i j) - pages_of p (lane fill pre i j))
       - (int (ceil_div p (seq ! i)) - int (ceil_div p (pre ! i))) = int (page_start p pre seq i)"
  using assms sum_lanes [OF assms(3), of id fill seq pre]
    sum_lanes [OF assms(3), of "pages_of p" fill seq pre]
    ext_start_int [of i pre seq] page_start_int [of i pre seq p]
  by (simp_all add: extend_args_def)

text \<open>The three part lengths of a request that spills over its last page, as integers and as numbers.\<close>

lemma extend_parts:
  fixes p pr sq :: nat
  defines "c \<equiv> ceil_div p pr" and "q \<equiv> sq div p"
  assumes p: "0 < p" and long: "c * p < sq"
  shows "c \<le> q" "q \<le> ceil_div p sq"
    and "min (int sq) (int c * int p) - int pr = int (c * p - pr)"
    and "int sq div int p * int p - int c * int p = int ((q - c) * p)"
    and "(int sq div int p - int c) * int p = int ((q - c) * p)"
    and "int sq - int sq div int p * int p = int (sq - q * p)"
    and "(c * p - pr) + (q - c) * p + (sq - q * p) = sq - pr"
    and "c * p - pr \<le> p" "sq - q * p \<le> p"
    and "int pr + int (c * p - pr) \<noteq> int sq"
    and "int pr + int (c * p - pr) + int ((q - c) * p) = int sq \<longleftrightarrow> sq - q * p = 0"
proof -
  have c: "pr \<le> c * p" "c * p < pr + p" using ceil_div_bounds [OF p] by (auto simp: c_def)
  have "c * p div p \<le> q" unfolding q_def using long by (intro div_le_mono) simp
  then show cq: "c \<le> q" using p by simp
  have qs: "q * p \<le> sq" by (simp add: q_def)
  show "q \<le> ceil_div p sq" using p by (simp add: ceil_div_eq q_def)
  show "min (int sq) (int c * int p) - int pr = int (c * p - pr)"
    using long c by (simp add: min_def of_nat_diff flip: of_nat_mult)
  show "int sq div int p * int p - int c * int p = int ((q - c) * p)"
    "(int sq div int p - int c) * int p = int ((q - c) * p)"
    using cq by (simp_all add: of_nat_diff zdiv_int q_def algebra_simps)
  show "int sq - int sq div int p * int p = int (sq - q * p)"
    by (simp add: of_nat_diff zdiv_int q_def)
  show sum: "(c * p - pr) + (q - c) * p + (sq - q * p) = sq - pr"
    using c(1) mult_le_mono1 [OF cq, of p] qs unfolding diff_mult_distrib by linarith
  show "c * p - pr \<le> p" using c by simp
  show "sq - q * p \<le> p" using p by (simp add: q_def minus_div_mult_eq_mod less_imp_le)
  show "int pr + int (c * p - pr) \<noteq> int sq" using long c by linarith
  show "int pr + int (c * p - pr) + int ((q - c) * p) = int sq \<longleftrightarrow> sq - q * p = 0"
    using sum long c by linarith
qed

lemma take_upt_nat: "k \<le> p \<Longrightarrow> take (nat (int k)) [0..<p] = [0..<k]"
  by simp

lemma alloc_extend_program_spec:
  assumes args: "extend_args p pre seq ll fp" and i: "i < length pre" "i < u"
    and out: "ext_start pre seq (Suc i) \<le> length out"
  shows "alloc_extend_program oob fill pre seq ll fp u p i out
     = write_at (ext_start pre seq i) (extend_seg p pre seq ll fp i) out"
proof -
  let ?s = "ext_start pre seq i" and ?nps = "page_start p pre seq i"
  let ?c = "ceil_div p (pre ! i)" and ?q = "seq ! i div p"
  have p: "0 < p" and le: "pre ! i \<le> seq ! i" using args i by (auto simp: extend_args_def)
  have c: "pre ! i \<le> ?c * p" "?c * p < pre ! i + p" using ceil_div_bounds [OF p] by auto
  have len: "?s + (seq ! i - pre ! i) \<le> length out" using out by (simp add: ext_start_Suc)
  note off = kernel_offsets [OF args i, of fill]
  show ?thesis
  proof (cases "seq ! i \<le> ?c * p")
    case True
    then have n1: "min (int (seq ! i)) (int ?c * int p) - int (pre ! i) = int (seq ! i - pre ! i)"
      using le by (simp add: min_def of_nat_diff flip: of_nat_mult)
    have k: "seq ! i - pre ! i \<le> p" using True c by simp
    have e: "int (pre ! i) + int (seq ! i - pre ! i) = int (seq ! i)" using le by simp
    show ?thesis
      unfolding alloc_extend_program_def Let_def off(1) pages_of_nat [OF p] n1
      by (simp only: simp_thms e store_block_write [OF k len] extend_seg_short [OF True] if_True)
  next
    case False
    let ?k1 = "?c * p - pre ! i" and ?k2 = "(?q - ?c) * p" and ?k3 = "seq ! i - ?q * p"
    let ?B = BLOCK_EXTEND
    have "?c * p < seq ! i" using False by simp
    note parts = extend_parts [OF p this]
    have l1: "?s + ?k1 \<le> length out" and l2: "?s + ?k1 + ?k2 \<le> length out"
      and l3: "?s + ?k1 + ?k2 + ?k3 \<le> length out"
      using len parts(7) by linarith+
    have fp: "?nps + (ceil_div p (seq ! i) - ?c) \<le> length fp"
      using args i page_start_mono [of "Suc i" "length pre" p pre seq]
      by (simp add: extend_args_def page_start_Suc)
    let ?nb = "nat ((int ?k2 + int ?B - 1) div int ?B)"
    have "?nb = ceil_div ?B ?k2" by (subst pages_of_nat) (simp_all add: BLOCK_EXTEND_def)
    then have nb: "?k2 \<le> ?nb * ?B" using ceil_div_bounds(1) [of ?B ?k2] by (simp add: BLOCK_EXTEND_def)
    let ?v1 = "\<lambda>j. ll ! i + 1 + int j"
    let ?v2 = "\<lambda>j. tl_load oob fp (int ?nps + int (j div p)) * int p + int (j mod p)"
    let ?v3 = "\<lambda>j. tl_load oob fp (int ?nps + (int (ceil_div p (seq ! i)) - int ?c) - 1) * int p + int j"
    let ?o1 = "write_at ?s (map ?v1 [0..<?k1]) out"
    let ?o2 = "write_at (?s + ?k1) (map ?v2 [0..<?k2]) ?o1"
    let ?o3 = "write_at (?s + ?k1 + ?k2) (map ?v3 [0..<?k3]) ?o2"
    have w1: "store_block p (\<lambda>j. int j < int ?k1) (\<lambda>j. int ?s + int j) ?v1 out = ?o1"
      using parts(8) l1 by (rule store_block_write)
    have w2: "store_block (?nb * ?B) (\<lambda>j. int j < int ?k2) (\<lambda>j. int (?s + ?k1) + int j) ?v2 ?o1 = ?o2"
      by (rule store_block_write [OF nb]) (simp only: length_write_map [OF l1] l2)
    have w3: "store_block p (\<lambda>j. int j < int ?k3) (\<lambda>j. int (?s + ?k1 + ?k2) + int j) ?v3 ?o2 = ?o3"
      by (rule store_block_write [OF parts(9)])
        (simp only: length_write_map [OF l1] length_write_map [of "?s + ?k1" ?k2 ?o1] l2 l3)
    have "alloc_extend_program oob fill pre seq ll fp u p i out = (if ?k3 = 0 then ?o2 else ?o3)"
      unfolding alloc_extend_program_def Let_def off pages_of_nat [OF p] parts(3,4,6)
      unfolding store_blocks [where b = ?B and P = "\<lambda>j. int j < int ?k2"
          and pos = "\<lambda>j. int ?s + int ?k1 + int j" and v = ?v2]
      using parts(10,11) w1 w2 w3 by simp
    also have "\<dots> = write_at ?s (map ?v1 [0..<?k1] @ map ?v2 [0..<?k2] @ map ?v3 [0..<?k3]) out"
      using write_at_append [of ?s "map ?v1 [0..<?k1]" "map ?v2 [0..<?k2]" out]
        write_at_append [of ?s "map ?v1 [0..<?k1] @ map ?v2 [0..<?k2]" "map ?v3 [0..<?k3]" out]
        l3 by (simp add: add.assoc)
    also have "map ?v2 [0..<?k2] = map (\<lambda>j. fp ! (?nps + j div p) * int p + int (j mod p)) [0..<?k2]"
    proof (rule map_cong [OF refl])
      fix j assume "j \<in> set [0..<?k2]"
      then have "j div p < ?q - ?c" using p by (simp add: div_less_iff_less_mult)
      with fp p have "?nps + j div p < length fp" by (auto simp: ceil_div_eq split: if_splits)
      then show "?v2 j = fp ! (?nps + j div p) * int p + int (j mod p)"
        by (simp add: tl_load_def nat_add_distrib)
    qed
    also have "map ?v3 [0..<?k3] = map (\<lambda>j. fp ! (?nps + (?q - ?c)) * int p + int j) [0..<?k3]"
    proof (rule map_cong [OF refl])
      fix j assume "j \<in> set [0..<?k3]"
      then have "\<not> p dvd seq ! i" by auto
      with p have q: "ceil_div p (seq ! i) = Suc ?q" by (simp add: ceil_div_eq)
      with parts(1) have e: "int ?nps + (int (ceil_div p (seq ! i)) - int ?c) - 1 = int (?nps + (?q - ?c))"
        by (simp add: of_nat_diff)
      have "?nps + (?q - ?c) < length fp" using fp q parts(1) by simp
      then show "?v3 j = fp ! (?nps + (?q - ?c)) * int p + int j"
        unfolding e by (simp only: tl_load_nat)
    qed
    finally show ?thesis using False by (simp add: extend_seg_long [OF p])
  qed
qed

lemma length_segs: "length (concat (map (extend_seg p pre seq ll fp) [0..<k])) = ext_start pre seq k"
  by (induction k) (auto simp: ext_start_Suc ext_start_def)

lemma alloc_extend_kernel_spec:
  assumes args: "extend_args p pre seq ll fp" and u: "length pre \<le> u"
    and out: "length out = ext_start pre seq (length pre)"
  shows "alloc_extend_kernel oob fill pre seq ll fp u p (length pre) out = extend_spec p pre seq ll fp"
proof -
  let ?prog = "alloc_extend_program oob fill pre seq ll fp u p"
  have "fold ?prog [0..<k] out = write_at 0 (concat (map (extend_seg p pre seq ll fp) [0..<k])) out"
    if "k \<le> length pre" for k
    using that
  proof (induction k)
    case (Suc k)
    let ?w = "concat (map (extend_seg p pre seq ll fp) [0..<k])"
    have o: "ext_start pre seq (Suc k) \<le> length out"
      using Suc.prems out ext_start_mono [of "Suc k" "length pre" pre seq] by simp
    then have "length (write_at 0 ?w out) = length out"
      by (intro length_write_at) (simp add: length_segs ext_start_Suc)
    then have "?prog k (write_at 0 ?w out) = write_at (ext_start pre seq k) (extend_seg p pre seq ll fp k) (write_at 0 ?w out)"
      using Suc.prems o u by (intro alloc_extend_program_spec [OF args]) auto
    also have "\<dots> = write_at 0 (?w @ extend_seg p pre seq ll fp k) out"
      using write_at_append [of 0 ?w "extend_seg p pre seq ll fp k" out] o
      by (simp add: length_segs ext_start_Suc)
    finally show ?case using Suc by simp
  qed simp
  from this [of "length pre"] show ?thesis
    using out by (simp add: alloc_extend_kernel_def extend_spec_def write_at_all length_segs)
qed

section \<open>The Torch version writes the specification\<close>

lemma slice_assign_write:
  "s + length vs \<le> length out \<Longrightarrow> slice_assign (int s) (int (s + length vs)) vs out = Inr (write_at s vs out)"
  by (simp add: slice_assign_def write_at_def Let_def nat_add_distrib)

lemma assign_part:
  "s + k \<le> length out \<Longrightarrow>
     (if int k \<noteq> 0 then slice_assign (int s) (int s + int k) (map f [0..<k]) out else Inr out)
       = Inr (write_at s (map f [0..<k]) out)"
  using slice_assign_write [of s "map f [0..<k]" out] by simp

lemma page_slots_nth:
  "page_slots p gs = map (\<lambda>j. gs ! (j div p) * int p + int (j mod p)) [0..<length gs * p]"
proof (induction gs rule: rev_induct)
  case (snoc g gs)
  have "map (\<lambda>j. (gs @ [g]) ! (j div p) * int p + int (j mod p)) [0..<length gs * p]
      = map (\<lambda>j. gs ! (j div p) * int p + int (j mod p)) [0..<length gs * p]"
  proof (rule map_cong [OF refl])
    fix j assume "j \<in> set [0..<length gs * p]"
    then have "j div p < length gs" by (auto intro: less_mult_imp_div_less)
    then show "(gs @ [g]) ! (j div p) * int p + int (j mod p) = gs ! (j div p) * int p + int (j mod p)"
      by (simp add: nth_append)
  qed
  moreover have "map (\<lambda>j. (gs @ [g]) ! ((length gs * p + j) div p) * int p + int ((length gs * p + j) mod p)) [0..<p]
      = map (\<lambda>j. g * int p + int j) [0..<p]"
    by (rule map_cong) auto
  ultimately show ?case using snoc upt_blocks [of "length gs" p]
    by (auto simp: page_slots_def comp_def)
qed (simp add: page_slots_def)

lemma naive_offsets:
  assumes "extend_args p pre seq ll fp" "i < length pre"
  shows "cumsum_at (\<lambda>j. int (seq ! j) - int (pre ! j)) i = int (ext_start pre seq (Suc i))"
    and "cumsum_at (\<lambda>j. int (ceil_div p (seq ! j)) - int (ceil_div p (pre ! j))) i
       = int (page_start p pre seq (Suc i))"
  using assms ext_start_int [of "Suc i" pre seq] page_start_int [of "Suc i" pre seq p]
  unfolding cumsum_at_def interv_sum_list_conv_sum_set_nat set_upt lessThan_atLeast0
  by (auto simp: extend_args_def)

lemma extend_naive_step_spec:
  assumes args: "extend_args p pre seq ll fp" and i: "i < length pre"
    and out: "ext_start pre seq (Suc i) \<le> length out"
  shows "extend_naive_step pre seq ll fp p i out
     = Inr (write_at (ext_start pre seq i) (extend_seg p pre seq ll fp i) out)"
proof -
  let ?s = "ext_start pre seq i" and ?nps = "page_start p pre seq i"
  let ?c = "ceil_div p (pre ! i)" and ?q = "seq ! i div p"
  have p: "0 < p" and le: "pre ! i \<le> seq ! i" using args i by (auto simp: extend_args_def)
  have c: "pre ! i \<le> ?c * p" "?c * p < pre ! i + p" using ceil_div_bounds [OF p] by auto
  have len: "?s + (seq ! i - pre ! i) \<le> length out" using out by (simp add: ext_start_Suc)
  have off: "int (ext_start pre seq (Suc i)) - (int (seq ! i) - int (pre ! i)) = int ?s"
    using le by (simp add: ext_start_Suc of_nat_diff)
  have off2: "int (page_start p pre seq (Suc i)) - (int (ceil_div p (seq ! i)) - int ?c) = int ?nps"
    using ceil_div_mono [OF le, of p] by (simp add: page_start_Suc of_nat_diff)
  note offs = naive_offsets [OF args i] off off2 pages_of_nat [OF p]
  show ?thesis
  proof (cases "seq ! i \<le> ?c * p")
    case True
    let ?k1 = "seq ! i - pre ! i" let ?v1 = "map (\<lambda>j. ll ! i + 1 + int j) [0..<?k1]"
    have n1: "min (int (seq ! i)) (int ?c * int p) - int (pre ! i) = int ?k1"
      using True le by (simp add: min_def of_nat_diff flip: of_nat_mult)
    have e: "int (pre ! i) + int ?k1 = int (seq ! i)" using le by simp
    have k: "take (nat (int ?k1)) [0..<p] = [0..<?k1]" using True c by simp
    have w: "slice_assign (int ?s) (int ?s + int ?k1) ?v1 out = Inr (write_at ?s ?v1 out)"
      using slice_assign_write [of ?s ?v1 out] len by simp
    show ?thesis
      unfolding extend_naive_step_def Let_def offs n1 e k w extend_seg_short [OF True] by simp
  next
    case False
    let ?k1 = "?c * p - pre ! i" and ?k2 = "(?q - ?c) * p" and ?k3 = "seq ! i - ?q * p"
    have "?c * p < seq ! i" using False by simp
    note parts = extend_parts [OF p this]
    have l1: "?s + ?k1 \<le> length out" and l2: "?s + ?k1 + ?k2 \<le> length out"
      and l3: "?s + ?k1 + ?k2 + ?k3 \<le> length out"
      using len parts(7) by linarith+
    have cs: "?c \<le> ceil_div p (seq ! i)" using parts(1,2) by simp
    have fp: "page_start p pre seq (Suc i) \<le> length fp"
      using args i page_start_mono [of "Suc i" "length pre" p pre seq] by (simp add: extend_args_def)
    then have fp': "?nps + (ceil_div p (seq ! i) - ?c) \<le> length fp" by (simp add: page_start_Suc)
    have need: "int (page_start p pre seq (Suc i))
          - (int (ceil_div p (seq ! i)) - int ?c - (int (seq ! i) div int p - int ?c)) = int (?nps + (?q - ?c))"
      using parts(1) cs by (simp add: page_start_Suc of_nat_diff zdiv_int)
    let ?v1 = "map (\<lambda>j. ll ! i + 1 + int j) [0..<?k1]"
    let ?v2 = "map (\<lambda>j. fp ! (?nps + j div p) * int p + int (j mod p)) [0..<?k2]"
    let ?v3 = "map (\<lambda>j. fp ! (?nps + (?q - ?c)) * int p + int j) [0..<?k3]"
    let ?o1 = "write_at ?s ?v1 out" let ?o2 = "write_at (?s + ?k1) ?v2 ?o1"
    have "length (torch_slice (int ?nps) (int (?nps + (?q - ?c))) fp) = ?q - ?c"
      using fp' parts(2) by (simp add: torch_slice_def nat_add_distrib)
    then have pg: "page_slots p (torch_slice (int ?nps) (int (?nps + (?q - ?c))) fp) = ?v2"
      using fp' parts(2) by (auto simp: page_slots_nth torch_slice_def less_mult_imp_div_less)
    have w1: "(if int ?k1 \<noteq> 0 then slice_assign (int ?s) (int ?s + int ?k1) ?v1 out else Inr out) = Inr ?o1"
      using l1 by (rule assign_part)
    have w2: "(if int ?k2 \<noteq> 0 then slice_assign (int ?s + int ?k1) (int ?s + int ?k1 + int ?k2) ?v2 ?o1 else Inr ?o1)
        = Inr ?o2"
      using assign_part [of "?s + ?k1" ?k2 ?o1] length_write_map [OF l1] l2 by (simp only: of_nat_add)
    show ?thesis
    proof (cases "?k3 = 0")
      case True
      show ?thesis
        unfolding extend_naive_step_def Let_def offs need parts(3,5) take_upt_nat [OF parts(8)] pg w1
        using True write_at_append [of ?s ?v1 ?v2 out] l2
        by (simp only: rbind_simps parts(10,11) simp_thms if_True if_False w2)
          (simp add: extend_seg_long [OF p \<open>?c * p < seq ! i\<close>])
    next
      case F: False
      have "\<not> p dvd seq ! i" using F by auto
      with p have q: "ceil_div p (seq ! i) = Suc ?q" by (simp add: ceil_div_eq)
      have ix: "int (page_start p pre seq (Suc i)) - 1 = int (?nps + (?q - ?c))"
        using q parts(1) by (simp add: page_start_Suc of_nat_diff)
      have ep: "int (ext_start pre seq (Suc i)) - int ?k3 = int (?s + ?k1 + ?k2)"
        "int (ext_start pre seq (Suc i)) = int (?s + ?k1 + ?k2) + int ?k3"
        using parts(7) by (simp_all only: ext_start_Suc)
      have rg: "(0 \<le> int (?nps + (?q - ?c)) \<and> int (?nps + (?q - ?c)) < int (length fp)) = True"
        using fp' q parts(1) by simp
      have w3: "slice_assign (int (?s + ?k1 + ?k2)) (int (?s + ?k1 + ?k2) + int ?k3) ?v3 ?o2
          = Inr (write_at (?s + ?k1 + ?k2) ?v3 ?o2)"
        using assign_part [of "?s + ?k1 + ?k2" ?k3 ?o2] F l3 length_write_map [OF l1]
          length_write_map [of "?s + ?k1" ?k2 ?o1] l2 by (simp only: of_nat_eq_0_iff if_True simp_thms)
      have "(int ?k3 \<noteq> 0) = True" by (simp only: of_nat_eq_0_iff F simp_thms)
      then have "extend_naive_step pre seq ll fp p i out = Inr (write_at (?s + ?k1 + ?k2) ?v3 ?o2)"
        unfolding extend_naive_step_def Let_def offs need parts(3,5,6) take_upt_nat [OF parts(8)]
          take_upt_nat [OF parts(9)] pg w1 ix ep(1)
        by (simp only: rbind_simps parts(10,11) simp_thms if_True if_False w2 F rg nat_int ep(2) w3)
      then show ?thesis
        using write_at_append [of ?s ?v1 ?v2 out] l3
          write_at_append [of ?s "?v1 @ ?v2" ?v3 out]
        by (simp add: extend_seg_long [OF p \<open>?c * p < seq ! i\<close>] add.assoc)
    qed
  qed
qed

lemma alloc_extend_naive_spec:
  assumes args: "extend_args p pre seq ll fp" and out: "length out = ext_start pre seq (length pre)"
  shows "alloc_extend_naive pre seq ll fp p out = Inr (extend_spec p pre seq ll fp)"
proof -
  let ?st = "\<lambda>i r. rbind r (extend_naive_step pre seq ll fp p i)"
  have "fold ?st [0..<k] (Inr out) = Inr (write_at 0 (concat (map (extend_seg p pre seq ll fp) [0..<k])) out)"
    if "k \<le> length pre" for k
    using that
  proof (induction k)
    case (Suc k)
    let ?w = "concat (map (extend_seg p pre seq ll fp) [0..<k])"
    have o: "ext_start pre seq (Suc k) \<le> length out"
      using Suc.prems out ext_start_mono [of "Suc k" "length pre" pre seq] by simp
    then have "length (write_at 0 ?w out) = length out"
      by (intro length_write_at) (simp add: length_segs ext_start_Suc)
    then have "extend_naive_step pre seq ll fp p k (write_at 0 ?w out)
        = Inr (write_at (ext_start pre seq k) (extend_seg p pre seq ll fp k) (write_at 0 ?w out))"
      using Suc.prems o by (intro extend_naive_step_spec [OF args]) auto
    also have "\<dots> = Inr (write_at 0 (?w @ extend_seg p pre seq ll fp k) out)"
      using write_at_append [of 0 ?w "extend_seg p pre seq ll fp k" out] o
      by (simp add: length_segs ext_start_Suc)
    finally show ?case using Suc by simp
  qed simp
  from this [of "length pre"] show ?thesis
    using out by (simp add: alloc_extend_naive_def extend_spec_def write_at_all length_segs)
qed

section \<open>No slot is handed out twice\<close>

lemma div_lt_ceil_div: "0 < p \<Longrightarrow> t < s \<Longrightarrow> t div p < ceil_div p s"
  using ceil_div_bounds(1) [of p s] by (simp add: div_less_iff_less_mult)

lemma new_page_index:
  assumes "0 < p" "t < seq ! i" "ceil_div p (pre ! i) * p \<le> t"
  shows "page_start p pre seq i + (t div p - ceil_div p (pre ! i)) < page_start p pre seq (Suc i)"
proof -
  have "ceil_div p (pre ! i) \<le> t div p" using assms(1,3) by (simp add: less_eq_div_iff_mult_less_eq)
  with div_lt_ceil_div [OF assms(1,2)] show ?thesis by (simp add: page_start_Suc)
qed

text \<open>
  The caller's promise about the last slots: each continues its sequence (the position of the
  next token within its page is that of the next slot), partly filled pages belong to one
  request each, and no such page is free.
\<close>

definition last_locs_ok :: "nat \<Rightarrow> nat list \<Rightarrow> int list \<Rightarrow> int set \<Rightarrow> bool" where
  "last_locs_ok p pre ll used \<longleftrightarrow>
     (\<forall>i<length pre. (ll ! i + 1) mod int p = int (pre ! i) mod int p)
   \<and> (\<forall>i<length pre. \<not> p dvd pre ! i \<longrightarrow> ll ! i \<in> used)
   \<and> (\<forall>i<length pre. \<forall>j<length pre. i \<noteq> j \<longrightarrow> \<not> p dvd pre ! i \<longrightarrow> \<not> p dvd pre ! j
        \<longrightarrow> ll ! i div int p \<noteq> ll ! j div int p)"

lemma partial_page:
  assumes p: "0 < p" and t: "pre ! i \<le> t" "t < ceil_div p (pre ! i) * p"
  shows "\<not> p dvd pre ! i" "t div p = pre ! i div p" "int (t mod p) = int (pre ! i mod p) + int (t - pre ! i)"
proof -
  let ?x = "pre ! i"
  show nd: "\<not> p dvd ?x" using assms by (auto simp: ceil_div_eq split: if_splits)
  then have "t < (?x div p + 1) * p" using t(2) p by (simp add: ceil_div_eq)
  moreover have "?x div p * p \<le> t" using t(1) by (meson div_times_less_eq_dividend le_trans)
  ultimately show d: "t div p = ?x div p" by (intro div_nat_eqI) (simp_all add: mult.commute)
  have "t = t div p * p + t mod p" "?x = ?x div p * p + ?x mod p" by simp_all
  then have "t = ?x div p * p + t mod p" "?x = ?x div p * p + ?x mod p" using d by simp_all
  then have "t mod p = ?x mod p + (t - ?x)" using t(1) by linarith
  then show "int (t mod p) = int (?x mod p) + int (t - ?x)" by (simp only: of_nat_add)
qed

lemma extend_slot_page:
  assumes p: "0 < p" and ll: "(ll ! i + 1) mod int p = int (pre ! i) mod int p" and t: "pre ! i \<le> t"
  shows "extend_slot p pre seq ll fp i t div int p =
      (if t < ceil_div p (pre ! i) * p then ll ! i div int p
       else fp ! (page_start p pre seq i + (t div p - ceil_div p (pre ! i))))"
    and "extend_slot p pre seq ll fp i t mod int p = int (t mod p)"
proof -
  let ?g = "if t < ceil_div p (pre ! i) * p then ll ! i div int p
       else fp ! (page_start p pre seq i + (t div p - ceil_div p (pre ! i)))"
  have "extend_slot p pre seq ll fp i t = ?g * int p + int (t mod p)"
  proof (cases "t < ceil_div p (pre ! i) * p")
    case True
    note pp = partial_page [where pre = pre and i = i, OF p t True]
    let ?r = "pre ! i mod p" and ?l = "ll ! i"
    have r: "0 < ?r" "?r < p" using pp(1) p by (auto simp: mod_greater_zero_iff_not_dvd)
    have lm: "(?l + 1) mod int p = int ?r" using ll by (simp add: zmod_int)
    have e: "?l + 1 = (?l + 1) div int p * int p + int ?r"
      using div_mult_mod_eq [of "?l + 1" "int p"] unfolding lm by simp
    then have "?l = (?l + 1) div int p * int p + (int ?r - 1)" by linarith
    then have "?l = int p * ((?l + 1) div int p) + (int ?r - 1)" by (simp only: mult.commute)
    then have "?l div int p = (?l + 1) div int p" by (rule int_div_pos_eq) (use r in simp_all)
    with e have "?l + 1 = ?l div int p * int p + int ?r" by simp
    with True pp(3) show ?thesis by (simp add: extend_slot_def Let_def)
  qed (simp add: extend_slot_def Let_def)
  then show "extend_slot p pre seq ll fp i t div int p = ?g"
    "extend_slot p pre seq ll fp i t mod int p = int (t mod p)"
    using p by (simp_all add: zmod_int)
qed

lemma extend_slot_inj:
  assumes args: "extend_args p pre seq ll fp" and d: "distinct fp"
    and ok: "last_locs_ok p pre ll used" and free: "slots_of p (set fp) \<inter> used = {}"
    and i: "i < length pre" "pre ! i \<le> t" "t < seq ! i"
    and j: "j < length pre" "pre ! j \<le> t'" "t' < seq ! j"
    and eq: "extend_slot p pre seq ll fp i t = extend_slot p pre seq ll fp j t'"
  shows "i = j \<and> t = t'"
proof -
  let ?c = "\<lambda>i. ceil_div p (pre ! i)"
  let ?ix = "\<lambda>i t. page_start p pre seq i + (t div p - ?c i)"
  have p: "0 < p" using args by (simp add: extend_args_def)
  have ll: "(ll ! i + 1) mod int p = int (pre ! i) mod int p" if "i < length pre" for i
    using ok that by (simp add: last_locs_ok_def)
  note pg = extend_slot_page [where seq = seq and fp = fp, OF p ll]
  have m: "t mod p = t' mod p" using pg(2) [OF i(1,2)] pg(2) [OF j(1,2)] eq by simp
  have ix: "?ix i t < page_start p pre seq (Suc i)" "?ix i t < length fp"
    if "i < length pre" "t < seq ! i" "?c i * p \<le> t" for i t
  proof -
    show "?ix i t < page_start p pre seq (Suc i)" using new_page_index [of p t seq i pre] p that by simp
    also have "\<dots> \<le> page_start p pre seq (length pre)" using that by (intro page_start_mono) simp
    finally show "?ix i t < length fp" using args by (simp add: extend_args_def)
  qed
  have part: "ll ! i div int p \<notin> set fp" if "i < length pre" "\<not> p dvd pre ! i" for i
    using ok that free by (auto simp: last_locs_ok_def slots_of_def)
  consider "t < ?c i * p" "t' < ?c j * p" | "t < ?c i * p" "?c j * p \<le> t'"
    | "?c i * p \<le> t" "t' < ?c j * p" | "?c i * p \<le> t" "?c j * p \<le> t'" by linarith
  then have "i = j \<and> t div p = t' div p"
  proof cases
    case 1
    note a = partial_page [where pre = pre, OF p i(2) 1(1)] and b = partial_page [where pre = pre, OF p j(2) 1(2)]
    have "ll ! i div int p = ll ! j div int p" using pg(1) [OF i(1,2)] pg(1) [OF j(1,2)] 1 eq by simp
    with ok i(1) j(1) a(1) b(1) have "i = j" by (auto simp: last_locs_ok_def)
    with a(2) b(2) show ?thesis by simp
  next
    case 2
    then show ?thesis
      using pg(1) [OF i(1,2)] pg(1) [OF j(1,2)] eq part [OF i(1) partial_page(1) [where pre = pre, OF p i(2) 2(1)]]
        nth_mem [OF ix(2) [OF j(1,3) 2(2)]] by simp
  next
    case 3
    then show ?thesis
      using pg(1) [OF i(1,2)] pg(1) [OF j(1,2)] eq part [OF j(1) partial_page(1) [where pre = pre, OF p j(2) 3(2)]]
        nth_mem [OF ix(2) [OF i(1,3) 3(1)]] by simp
  next
    case 4
    have "fp ! ?ix i t = fp ! ?ix j t'" using pg(1) [OF i(1,2)] pg(1) [OF j(1,2)] 4 eq by simp
    then have e: "?ix i t = ?ix j t'"
      using d ix(2) [OF i(1,3) 4(1)] ix(2) [OF j(1,3) 4(2)] by (simp add: nth_eq_iff_index_eq)
    have "i = j"
    proof (rule ccontr)
      assume "i \<noteq> j"
      then consider "Suc i \<le> j" | "Suc j \<le> i" by linarith
      then show False
        using e ix(1) [OF i(1,3) 4(1)] ix(1) [OF j(1,3) 4(2)]
          page_start_mono [of "Suc i" j p pre seq] page_start_mono [of "Suc j" i p pre seq]
        by cases linarith+
    qed
    moreover have "?c i \<le> t div p" "?c j \<le> t' div p"
      using 4 p by (simp_all add: less_eq_div_iff_mult_less_eq)
    ultimately show ?thesis using e by simp
  qed
  with m show ?thesis by (metis div_mult_mod_eq)
qed

lemma distinct_concat_upt:
  assumes "\<And>i. i < k \<Longrightarrow> distinct (f i)"
    and "\<And>i j. i < j \<Longrightarrow> j < k \<Longrightarrow> set (f i) \<inter> set (f j) = {}"
  shows "distinct (concat (map f [0..<k]))"
  using assms by (induction k) (auto, blast)

lemma extend_spec_distinct:
  assumes "extend_args p pre seq ll fp" "distinct fp" "last_locs_ok p pre ll used"
    "slots_of p (set fp) \<inter> used = {}"
  shows "distinct (extend_spec p pre seq ll fp)"
  unfolding extend_spec_def
proof (rule distinct_concat_upt)
  note inj = extend_slot_inj [OF assms]
  fix i assume i: "i < length pre"
  show "distinct (extend_seg p pre seq ll fp i)"
    using inj [OF i _ _ i] by (auto simp: extend_seg_def distinct_map inj_on_def)
next
  note inj = extend_slot_inj [OF assms]
  fix i j assume ij: "i < j" "j < length pre"
  then have "i < length pre" by simp
  from inj [OF this _ _ ij(2)] ij(1)
  show "set (extend_seg p pre seq ll fp i) \<inter> set (extend_seg p pre seq ll fp j) = {}"
    by (fastforce simp: extend_seg_def)
qed

lemma extend_spec_take:
  assumes "extend_args p pre seq ll fp"
  shows "extend_spec p pre seq ll fp = extend_spec p pre seq ll (take (page_start p pre seq (length pre)) fp)"
proof -
  let ?n = "page_start p pre seq (length pre)"
  have p: "0 < p" using assms by (simp add: extend_args_def)
  have "extend_slot p pre seq ll fp i t = extend_slot p pre seq ll (take ?n fp) i t"
    if "i < length pre" "t < seq ! i" for i t
    using new_page_index [where seq = seq and i = i and t = t and pre = pre, OF p that(2)]
      page_start_mono [of "Suc i" "length pre" p pre seq] that(1)
    by (auto simp: extend_slot_def Let_def not_less)
  then show ?thesis by (auto simp: extend_spec_def extend_seg_def intro!: arg_cong [where f = concat])
qed

text \<open>The test in \<open>alloc_extend\<close> that skips the merge: one more page per request is always enough.\<close>

lemma page_start_le: "0 < p \<Longrightarrow> \<forall>j<k. pre ! j \<le> seq ! j \<Longrightarrow> page_start p pre seq k \<le> ext_start pre seq k div p + k"
proof (induction k)
  case (Suc k)
  let ?d = "seq ! k - pre ! k"
  have e: "seq ! k + p - 1 = (pre ! k + p - 1 + ?d mod p) + ?d div p * p"
    using Suc.prems by simp
  have "ceil_div p (seq ! k) = (pre ! k + p - 1 + ?d mod p) div p + ?d div p"
    unfolding ceil_div_def e using Suc.prems(1) by (subst div_mult_self1) simp_all
  also have "(pre ! k + p - 1 + ?d mod p) div p \<le> (pre ! k + p - 1 + p) div p"
    using mod_less_divisor [OF Suc.prems(1), of ?d] by (intro div_le_mono) linarith
  also have "\<dots> = ceil_div p (pre ! k) + 1"
    unfolding ceil_div_def using Suc.prems(1) by (subst div_add_self2) simp_all
  finally have "ceil_div p (seq ! k) - ceil_div p (pre ! k) \<le> ?d div p + 1" by simp
  moreover have "ext_start pre seq k div p + ?d div p \<le> (ext_start pre seq k + ?d) div p"
    by (metis add_mult_distrib div_times_less_eq_dividend less_eq_div_iff_mult_less_eq Suc.prems(1) add_le_mono)
  ultimately show ?case using Suc by (simp add: page_start_Suc ext_start_Suc)
qed (simp add: page_start_def)

section \<open>The allocator operations\<close>

lemma paged_inv_take:
  assumes "paged_inv a U" "n \<le> length (al_free_pages a)"
  shows "paged_inv (a\<lparr>al_free_pages := drop n (al_free_pages a)\<rparr>)
           (U \<union> slots_of (al_page_size a) (set (take n (al_free_pages a))))"
    and "slots_of (al_page_size a) (set (al_free_pages a)) \<inter> U = {}"
proof -
  let ?F = "al_free_pages a" and ?R = "al_release_pages a" and ?P = "page_set a" and ?p = "al_page_size a"
  have d: "distinct (?F @ ?R)" "set (?F @ ?R) \<subseteq> ?P" "U = slots_of ?p (?P - set (?F @ ?R))"
    using assms(1) by (simp_all add: paged_inv_def)
  have td: "set (take n ?F) \<inter> set (drop n ?F) = {}" "set (take n ?F) \<union> set (drop n ?F) = set ?F"
    using d set_take_drop_distinct [of ?F n] by auto
  show "slots_of ?p (set ?F) \<inter> U = {}" unfolding d(3) by (auto simp: slots_of_def)
  have "?P - set (drop n ?F @ ?R) = (?P - set (?F @ ?R)) \<union> set (take n ?F)" using td d by auto
  then have "U \<union> slots_of ?p (set (take n ?F)) = slots_of ?p (?P - set (drop n ?F @ ?R))"
    using d(3) by (simp only: slots_of_Un)
  then show "paged_inv (a\<lparr>al_free_pages := drop n ?F\<rparr>) (U \<union> slots_of ?p (set (take n ?F)))"
    using assms(1) d td by (auto simp: paged_inv_def page_set_def num_pages_def)
qed

lemma get_num_new_pages_extend:
  assumes "0 < p" "length seq = length pre" "\<forall>j<length pre. pre ! j \<le> seq ! j"
  shows "get_num_new_pages seq p (Some pre) False = Inr (int (page_start p pre seq (length pre)))"
proof -
  have "(\<Sum>(s, q)\<leftarrow>zip seq pre. pages_of p (int s) - pages_of p (int q))
      = (\<Sum>j<length pre. pages_of p (int (seq ! j)) - pages_of p (int (pre ! j)))"
    using assms(2) by (simp add: sum_list_sum_nth lessThan_atLeast0 cong: sum.cong_simp)
  with page_start_int [OF assms(3,1)] show ?thesis by (simp add: get_num_new_pages_def)
qed

lemma alloc_extend_merge:
  assumes inv: "paged_inv a U" and "\<forall>j<length pre. pre ! j \<le> seq ! j"
  defines "b \<equiv> (if al_need_sort a \<and> length (al_free_pages a)
        < ext_start pre seq (length pre) div al_page_size a + length pre + 1 then merge_and_sort_free a else a)"
  shows "paged_inv b U" "al_page_size b = al_page_size a" "al_debug_mode b = al_debug_mode a"
    and "page_start (al_page_size a) pre seq (length pre) \<le> length (al_free_pages b)
       \<longleftrightarrow> page_start (al_page_size a) pre seq (length pre) * al_page_size a \<le> base_available_size a"
proof -
  let ?p = "al_page_size a"
  show "paged_inv b U" "al_page_size b = ?p" "al_debug_mode b = al_debug_mode a"
    using inv by (simp_all add: b_def paged_inv_merge)
  have p: "0 < ?p" and r: "\<not> al_need_sort a \<Longrightarrow> al_release_pages a = []"
    using inv by (simp_all add: paged_inv_def)
  then have "page_start ?p pre seq (length pre) * ?p \<le> base_available_size a
      \<longleftrightarrow> page_start ?p pre seq (length pre) \<le> length (al_free_pages a) + length (al_release_pages a)"
    by (simp add: base_available_size_def)
  then show "page_start ?p pre seq (length pre) \<le> length (al_free_pages b)
       \<longleftrightarrow> page_start ?p pre seq (length pre) * ?p \<le> base_available_size a"
    using page_start_le [OF p assms(2)] r by (auto simp: b_def)
qed

lemma extend_spec_length: "length (extend_spec p pre seq ll fp) = ext_start pre seq (length pre)"
  by (simp add: extend_spec_def length_segs)

lemma alloc_extend_ok:
  fixes a U pre seq ll uninit oob fill
  defines "p \<equiv> al_page_size a" and "n \<equiv> page_start (al_page_size a) pre seq (length pre)"
    and "ext \<equiv> ext_start pre seq (length pre)"
  assumes inv: "paged_inv a U"
    and args: "length seq = length pre" "length ll = length pre" "\<forall>i<length pre. pre ! i \<le> seq ! i"
    and ll: "last_locs_ok p pre ll U"
    and buf: "ext \<le> length uninit"
    and avail: "n * p \<le> base_available_size a"
  shows "\<exists>pages a'. alloc_extend oob fill uninit pre seq ll ext None a
             = Inr (Some (extend_spec p pre seq ll pages), a')
     \<and> length pages = n \<and> distinct pages \<and> slots_of p (set pages) \<inter> U = {}
     \<and> distinct (extend_spec p pre seq ll pages) \<and> length (extend_spec p pre seq ll pages) = ext
     \<and> paged_inv a' (U \<union> slots_of p (set pages))"
proof -
  define b where "b = (if al_need_sort a \<and> length (al_free_pages a) < ext div p + length pre + 1
        then merge_and_sort_free a else a)"
  note m = alloc_extend_merge [OF inv args(3), folded ext_def n_def p_def, folded b_def]
  let ?fp = "al_free_pages b" let ?pages = "take n ?fp" let ?out = "extend_spec p pre seq ll ?pages"
  have p: "0 < p" using inv by (simp add: paged_inv_def p_def)
  have n: "n \<le> length ?fp" using m(4) avail by simp
  have ea: "extend_args p pre seq ll ?fp" "extend_args p pre seq ll ?pages"
    using p args n by (simp_all add: extend_args_def n_def p_def)
  have d: "distinct ?pages" using m(1) by (simp add: paged_inv_def)
  have fr: "slots_of p (set ?pages) \<inter> U = {}"
    using paged_inv_take(2) [OF m(1) n] m(2) set_take_subset [of n ?fp] by (auto simp: slots_of_def)
  have k: "alloc_extend_kernel oob fill pre seq ll ?fp (next_power_of_2 (length pre)) p (length pre) (take ext uninit) = ?out"
    using alloc_extend_kernel_spec [OF ea(1) le_next_power_of_2, of "take ext uninit" oob fill] buf
      extend_spec_take [OF ea(1)] by (simp add: ext_def n_def p_def min_def)
  have dist: "distinct ?out" using ea(2) d ll fr by (rule extend_spec_distinct)
  have g: "get_num_new_pages seq p (Some pre) False = Inr (int n)"
    using get_num_new_pages_extend [OF p args(1,3)] by (simp add: n_def p_def)
  have db: "list_all2 (\<lambda>l q. (l + 1) mod int p = int q mod int p) ll pre"
    using ll args(2) by (simp add: list_all2_conv_all_nth last_locs_ok_def)
  have "alloc_extend oob fill uninit pre seq ll ext None a = Inr (Some ?out, b\<lparr>al_free_pages := drop n ?fp\<rparr>)"
    unfolding alloc_extend_def Let_def p_def [symmetric] b_def [symmetric] k
    using db dist n by (simp add: g min_def)
  moreover have "paged_inv (b\<lparr>al_free_pages := drop n ?fp\<rparr>) (U \<union> slots_of p (set ?pages))"
    using paged_inv_take(1) [OF m(1) n] m(2) by simp
  moreover have "length ?pages = n" "length ?out = ext" using n by (simp_all add: extend_spec_length ext_def)
  ultimately show ?thesis using d fr dist by blast
qed

text \<open>
  C32: \<open>alloc_extend\<close> on a batch whose new pages are available never fails, in debug mode or not:
  it returns, for every request, the slots that fill its partly filled page and then its new
  pages in order (\<open>extend_spec\<close>); the new pages were all free, no slot occurs twice in the
  result, and exactly those pages become used. The kernel's answer does not depend on the
  uninitialised output buffer, on memory beyond the page list or on masked lanes.
\<close>

theorem alloc_extend_hands_out_fresh_slots:
  fixes a U pre seq ll uninit oob fill
  defines "p \<equiv> al_page_size a" and "n \<equiv> page_start (al_page_size a) pre seq (length pre)"
    and "ext \<equiv> ext_start pre seq (length pre)"
  assumes inv: "paged_inv a U"
    and args: "length seq = length pre" "length ll = length pre" "\<forall>i<length pre. pre ! i \<le> seq ! i"
    and ll: "last_locs_ok p pre ll U"
    and buf: "ext \<le> length uninit"
    and avail: "n * p \<le> base_available_size a"
  shows "\<exists>pages a'. alloc_extend oob fill uninit pre seq ll ext None a
             = Inr (Some (extend_spec p pre seq ll pages), a')
     \<and> length pages = n \<and> distinct pages \<and> slots_of p (set pages) \<inter> U = {}
     \<and> distinct (extend_spec p pre seq ll pages) \<and> length (extend_spec p pre seq ll pages) = ext
     \<and> paged_inv a' (U \<union> slots_of p (set pages))"
  by (rule alloc_extend_ok [OF inv args ll [unfolded p_def] buf [unfolded ext_def] avail [unfolded n_def p_def], folded p_def n_def ext_def])

section \<open>Decoding is extending by one token\<close>

abbreviation pred_lens :: "nat list \<Rightarrow> nat list" where
  "pred_lens seq \<equiv> map (\<lambda>s. s - 1) seq"

lemma ceil_div_pred:
  assumes "0 < p" "0 < s"
  shows "ceil_div p s - ceil_div p (s - 1) = (if p dvd s - 1 then 1 else 0)"
    and "ceil_div p (s - 1) \<le> ceil_div p s"
    and "ceil_div p (s - 1) * p \<le> s - 1 \<longleftrightarrow> p dvd s - 1"
proof -
  show le: "ceil_div p (s - 1) \<le> ceil_div p s" by (rule ceil_div_mono) simp
  show "ceil_div p (s - 1) * p \<le> s - 1 \<longleftrightarrow> p dvd s - 1"
  proof
    assume "ceil_div p (s - 1) * p \<le> s - 1"
    then have "s - 1 = ceil_div p (s - 1) * p" using ceil_div_bounds(1) [OF assms(1), of "s - 1"] by simp
    then show "p dvd s - 1" by (metis dvd_triv_right)
  qed (use assms in \<open>simp add: ceil_div_eq\<close>)
  have c: "ceil_div p s = (s - 1) div p + 1"
  proof -
    have "s + p - 1 = (s - 1) + p" using assms by simp
    then show ?thesis unfolding ceil_div_def using assms by (simp only:) (subst div_add_self2, simp_all)
  qed
  show "ceil_div p s - ceil_div p (s - 1) = (if p dvd s - 1 then 1 else 0)"
    unfolding c using assms(1) by (simp add: ceil_div_eq)
qed

lemma alloc_decode_program_spec:
  assumes args: "extend_args p (pred_lens seq) seq ll fp" and pos: "\<forall>i<length seq. 0 < seq ! i"
    and i: "i < length seq" "i < u"
  shows "alloc_decode_program oob fill seq ll fp u p i out
     = out[i := extend_slot p (pred_lens seq) seq ll fp i (seq ! i - 1)]"
proof -
  let ?pre = "pred_lens seq" and ?s = "seq ! i"
  have p: "0 < p" using args by (simp add: extend_args_def)
  have si: "0 < ?s" using pos i by simp
  have lanes: "(if j \<le> i then lane fill seq i j - 1 else lane fill seq i j) = lane fill ?pre i j" for j
  proof (cases "j \<le> i")
    case True
    then have "j < length seq" "0 < seq ! j" using pos i by simp_all
    with True show ?thesis by (simp add: lane_def of_nat_diff)
  qed (simp add: lane_def)
  have i': "i < length ?pre" using i by simp
  have pred: "int ?s - 1 = int (?pre ! i)" using si i by (simp add: of_nat_diff)
  note off = kernel_offsets(2) [OF args i' i(2), of fill]
  have fp: "page_start p ?pre seq (Suc i) \<le> length fp"
    using args i page_start_mono [of "Suc i" "length seq" p ?pre seq] by (simp add: extend_args_def)
  have z: "int (ceil_div p ?s) - int (ceil_div p (?pre ! i)) = (if p dvd ?s - 1 then 1 else 0)"
    using ceil_div_pred [OF p si] i by (simp add: of_nat_diff [symmetric])
  show ?thesis
  proof (cases "p dvd ?s - 1")
    case True
    have "?s - 1 = ceil_div p (?s - 1) * p"
      using True p ceil_div_pred(3) [OF p si] ceil_div_bounds(1) [OF p, of "?s - 1"] by simp
    then have "extend_slot p ?pre seq ll fp i (?s - 1) = fp ! page_start p ?pre seq i * int p"
      using True p i by (simp add: extend_slot_def Let_def ceil_div_eq)
    moreover have "page_start p ?pre seq i < length fp"
      using fp True ceil_div_pred(1) [OF p si] i by (simp add: page_start_Suc)
    ultimately show ?thesis
      unfolding alloc_decode_program_def Let_def pred lanes pages_of_nat [OF p] z off [unfolded z]
      using True by (simp add: tl_store_def tl_load_nat)
  next
    case False
    then have "extend_slot p ?pre seq ll fp i (?s - 1) = ll ! i + 1"
      using ceil_div_pred(3) [OF p si] i by (simp add: extend_slot_def Let_def)
    then show ?thesis
      unfolding alloc_decode_program_def Let_def pred lanes pages_of_nat [OF p] off z
      using False by (simp add: tl_store_def)
  qed
qed

lemma fold_update_all:
  "k \<le> length out \<Longrightarrow> fold (\<lambda>i out. out[i := f i]) [0..<k] out = map f [0..<k] @ drop k out"
proof (induction k)
  case (Suc k)
  then show ?case
    by (simp add: list_update_append Cons_nth_drop_Suc [symmetric])
qed simp

lemma alloc_decode_kernel_spec:
  assumes args: "extend_args p (pred_lens seq) seq ll fp" and pos: "\<forall>i<length seq. 0 < seq ! i"
    and u: "length seq \<le> u" and out: "length out = length seq"
  shows "alloc_decode_kernel oob fill seq ll fp u p (length seq) out
     = extend_spec p (pred_lens seq) seq ll fp"
proof -
  let ?f = "\<lambda>i. extend_slot p (pred_lens seq) seq ll fp i (seq ! i - 1)"
  have "fold (alloc_decode_program oob fill seq ll fp u p) [0..<length seq] out
      = fold (\<lambda>i out. out[i := ?f i]) [0..<length seq] out"
    using alloc_decode_program_spec [OF args pos] u by (intro fold_cong) auto
  also have "\<dots> = map ?f [0..<length seq]" using out by (simp add: fold_update_all)
  also have "\<dots> = concat (map (\<lambda>i. [?f i]) [0..<length seq])" by (induction "length seq") auto
  also have "\<dots> = extend_spec p (pred_lens seq) seq ll fp"
  proof -
    have "[pred_lens seq ! i..<seq ! i] = [seq ! i - 1]" if "i < length seq" for i
      using pos that by (simp add: upt_conv_Cons)
    then show ?thesis unfolding extend_spec_def extend_seg_def
      by (intro arg_cong [where f = concat]) (simp only: length_map, simp)
  qed
  finally show ?thesis by (simp add: alloc_decode_kernel_def)
qed

lemma get_num_new_pages_decode:
  assumes "1 < p" "\<forall>i<length seq. 0 < seq ! i"
  shows "get_num_new_pages seq p None True = Inr (int (page_start p (pred_lens seq) seq (length seq)))"
proof -
  have "s mod p = 1 \<longleftrightarrow> p dvd s - 1" if "0 < s" for s
    using that assms(1) mod_eq_dvd_iff_nat [of 1 s p] by simp
  then have "(\<Sum>s\<leftarrow>seq. if s mod p = 1 then 1 else (0::int)) = (\<Sum>j<length seq. if p dvd seq ! j - 1 then 1 else 0)"
    using assms(2) by (simp add: sum_list_sum_nth lessThan_atLeast0 cong: sum.cong_simp)
  also have "\<dots> = int (page_start p (pred_lens seq) seq (length seq))"
    unfolding page_start_def of_nat_sum
    using assms ceil_div_pred(1) [of p] by (intro sum.cong) auto
  finally show ?thesis by (simp add: get_num_new_pages_def)
qed

lemma decode_debug_check:
  assumes ll: "last_locs_ok p (pred_lens seq) ll U" and args: "length ll = length seq" "\<forall>i<length seq. 0 < seq ! i"
  shows "list_all2 (\<lambda>l s. (l + 2) mod int p = int s mod int p) ll seq"
  unfolding list_all2_conv_all_nth
proof (intro conjI allI impI)
  fix i assume i: "i < length ll"
  then have "(ll ! i + 1) mod int p = int (seq ! i - 1) mod int p" "0 < seq ! i"
    using ll args by (simp_all add: last_locs_ok_def)
  then have "(ll ! i + 1 + 1) mod int p = (int (seq ! i - 1) + 1) mod int p" by (metis mod_add_left_eq)
  with \<open>0 < seq ! i\<close> show "(ll ! i + 2) mod int p = int (seq ! i) mod int p"
    by (simp add: of_nat_diff add.commute)
qed (use args in simp)

lemma alloc_decode_ok:
  fixes a U seq ll uninit oob fill
  defines "p \<equiv> al_page_size a" and "n \<equiv> page_start (al_page_size a) (pred_lens seq) seq (length seq)"
  assumes inv: "paged_inv a U" and p1: "1 < al_page_size a"
    and args: "length ll = length seq" "\<forall>i<length seq. 0 < seq ! i"
    and ll: "last_locs_ok p (pred_lens seq) ll U"
    and buf: "length seq \<le> length uninit"
    and avail: "n * p \<le> base_available_size a"
  shows "\<exists>pages a'. alloc_decode oob fill uninit seq ll a
             = Inr (Some (extend_spec p (pred_lens seq) seq ll pages), a')
     \<and> length pages = n \<and> distinct pages \<and> slots_of p (set pages) \<inter> U = {}
     \<and> distinct (extend_spec p (pred_lens seq) seq ll pages)
     \<and> length (extend_spec p (pred_lens seq) seq ll pages) = length seq
     \<and> paged_inv a' (U \<union> slots_of p (set pages))"
proof -
  let ?pre = "pred_lens seq"
  define b where "b = (if al_need_sort a \<and> length (al_free_pages a) < length seq then merge_and_sort_free a else a)"
  have b: "paged_inv b U" "al_page_size b = p" using inv by (simp_all add: b_def paged_inv_merge p_def)
  let ?fp = "al_free_pages b" let ?pages = "take n ?fp" let ?out = "extend_spec p ?pre seq ll ?pages"
  have p: "0 < p" "1 < p" using p1 by (simp_all add: p_def)
  have n_le: "n \<le> length seq"
  proof -
    have "n \<le> (\<Sum>j<length seq. 1)"
      unfolding n_def page_start_def using args(2) p ceil_div_pred(1) [of p] by (intro sum_mono) (auto simp: p_def)
    then show ?thesis by simp
  qed
  have "n \<le> length (al_free_pages a) + length (al_release_pages a)"
    using avail p by (simp add: base_available_size_def p_def)
  then have n: "n \<le> length ?fp" using n_le inv by (auto simp: b_def paged_inv_def)
  have ea: "extend_args p ?pre seq ll ?fp" "extend_args p ?pre seq ll ?pages"
    using p args n by (simp_all add: extend_args_def n_def p_def)
  have d: "distinct ?pages" using b(1) by (simp add: paged_inv_def)
  have fr: "slots_of p (set ?pages) \<inter> U = {}"
    using paged_inv_take(2) [OF b(1) n] b(2) set_take_subset [of n ?fp] by (auto simp: slots_of_def)
  have k: "alloc_decode_kernel oob fill seq ll ?fp (next_power_of_2 (length seq)) p (length seq) (take (length seq) uninit) = ?out"
    using alloc_decode_kernel_spec [OF ea(1) args(2) le_next_power_of_2, of "take (length seq) uninit" oob fill] buf
      extend_spec_take [OF ea(1)] by (simp add: n_def p_def min_def)
  have dist: "distinct ?out" using ea(2) d ll fr by (rule extend_spec_distinct)
  have db: "list_all2 (\<lambda>l s. (l + 2) mod int p = int s mod int p) ll seq"
    using ll args by (rule decode_debug_check)
  have g: "get_num_new_pages seq p None True = Inr (int n)"
    using get_num_new_pages_decode [OF p(2) args(2)] by (simp add: n_def p_def)
  have "alloc_decode oob fill uninit seq ll a = Inr (Some ?out, b\<lparr>al_free_pages := drop n ?fp\<rparr>)"
    unfolding alloc_decode_def Let_def p_def [symmetric] b_def [symmetric] k
    using db dist n by (simp add: g min_def)
  moreover have "paged_inv (b\<lparr>al_free_pages := drop n ?fp\<rparr>) (U \<union> slots_of p (set ?pages))"
    using paged_inv_take(1) [OF b(1) n] b(2) by simp
  moreover have "ext_start ?pre seq (length seq) = length seq"
  proof -
    have "ext_start ?pre seq (length seq) = (\<Sum>j<length seq. 1)"
      unfolding ext_start_def using args(2) by (intro sum.cong) (auto simp: Suc_leI)
    then show ?thesis by simp
  qed
  then have "length ?pages = n" "length ?out = length seq" using n by (simp_all add: extend_spec_length)
  ultimately show ?thesis using d fr dist by blast
qed

text \<open>
  C33: For page sizes above one, \<open>alloc_decode\<close> does for every running request what
  \<open>alloc_extend\<close> does for an extension by one token: it returns one slot per request, the next
  slot of the current page or the first slot of a fresh page, all different, takes exactly the
  pages its own counting (\<open>seq_lens % page_size == 1\<close>) predicts, and never fails while they are
  available.
\<close>

theorem alloc_decode_extends_by_one:
  fixes a U seq ll uninit oob fill
  defines "p \<equiv> al_page_size a" and "n \<equiv> page_start (al_page_size a) (pred_lens seq) seq (length seq)"
  assumes inv: "paged_inv a U" and p1: "1 < al_page_size a"
    and args: "length ll = length seq" "\<forall>i<length seq. 0 < seq ! i"
    and ll: "last_locs_ok p (pred_lens seq) ll U"
    and buf: "length seq \<le> length uninit"
    and avail: "n * p \<le> base_available_size a"
  shows "\<exists>pages a'. alloc_decode oob fill uninit seq ll a
             = Inr (Some (extend_spec p (pred_lens seq) seq ll pages), a')
     \<and> length pages = n \<and> distinct pages \<and> slots_of p (set pages) \<inter> U = {}
     \<and> distinct (extend_spec p (pred_lens seq) seq ll pages)
     \<and> length (extend_spec p (pred_lens seq) seq ll pages) = length seq
     \<and> paged_inv a' (U \<union> slots_of p (set pages))"
  by (rule alloc_decode_ok [OF inv p1 args ll [unfolded p_def] buf avail [unfolded n_def p_def], folded p_def n_def])

definition demo_paged :: kv_alloc where
  "demo_paged = (paged_clear (alloc_base_init 16 4 True True))\<lparr>al_free_pages := [2], al_release_pages := [4, 3]\<rparr>"

lemma demo_paged_inv: "paged_inv demo_paged (slots_of 4 {1})"
proof -
  have "{1..4::int} - {2, 4, 3} = {1}" by auto
  then show ?thesis
    by (simp add: paged_inv_def demo_paged_def paged_clear_def alloc_base_init_def page_set_def num_pages_def)
qed

lemma demo_paged_fields: "al_page_size demo_paged = 4" "base_available_size demo_paged = 12"
  by (simp_all add: demo_paged_def paged_clear_def alloc_base_init_def base_available_size_def)

theorem alloc_extend_hands_out_fresh_slots_witness:
  "\<exists>pages a'. alloc_extend (\<lambda>_. 0) 0 (replicate 9 0) [2, 0] [7, 4] [5, -1] 9 None demo_paged
      = Inr (Some (extend_spec 4 [2, 0] [7, 4] [5, -1] pages), a')
    \<and> distinct (extend_spec 4 [2, 0] [7, 4] [5, -1] pages)"
proof -
  have l: "last_locs_ok 4 [2, 0] [5, -1] (slots_of 4 {1})"
    by (auto simp: last_locs_ok_def less_Suc_eq slots_of_def nth_Cons')
  have e: "ext_start [2, 0] [7, 4] 2 = 9" "page_start 4 [2, 0] [7, 4] 2 = 2"
    by (simp_all add: ext_start_def page_start_def ceil_div_def numeral_2_eq_2)
  show ?thesis
    using alloc_extend_hands_out_fresh_slots [where pre = "[2, 0]" and seq = "[7, 4]" and ll = "[5, -1]"
        and uninit = "replicate 9 0" and oob = "\<lambda>_. 0" and fill = 0, OF demo_paged_inv] l e
    by (fastforce simp: demo_paged_fields less_Suc_eq nth_Cons' numeral_2_eq_2 [symmetric])
qed

theorem alloc_decode_extends_by_one_witness:
  "\<exists>pages a'. alloc_decode (\<lambda>_. 0) 0 [0, 0] [3, 5] [5, 11] demo_paged
      = Inr (Some (extend_spec 4 [2, 4] [3, 5] [5, 11] pages), a')
    \<and> distinct (extend_spec 4 [2, 4] [3, 5] [5, 11] pages)"
proof -
  have l: "last_locs_ok 4 [2, 4] [5, 11] (slots_of 4 {1})"
    by (auto simp: last_locs_ok_def less_Suc_eq slots_of_def nth_Cons')
  have e: "page_start 4 [2, 4] [3, 5] 2 = 1"
    by (simp add: page_start_def ceil_div_def numeral_2_eq_2)
  show ?thesis
    using alloc_decode_extends_by_one [where seq = "[3, 5]" and ll = "[5, 11]"
        and uninit = "[0, 0]" and oob = "\<lambda>_. 0" and fill = 0, OF demo_paged_inv] l e
    by (fastforce simp: demo_paged_fields less_Suc_eq nth_Cons' numeral_2_eq_2 [symmetric])
qed

text \<open>
  C34: The Triton kernel and the Torch fallback of the extend routine compute the same slots: on
  the arguments the allocator passes, \<open>alloc_extend_naive\<close> returns without raising exactly what
  the program instances of \<open>alloc_extend_kernel\<close> leave in the output buffer, whatever that buffer
  held before.
\<close>

theorem alloc_extend_naive_eq_kernel:
  assumes "extend_args p pre seq ll fp"
    and "length out = ext_start pre seq (length pre)" "length out' = ext_start pre seq (length pre)"
    and "length pre \<le> u"
  shows "alloc_extend_naive pre seq ll fp p out
     = Inr (alloc_extend_kernel oob fill pre seq ll fp u p (length pre) out')"
  using assms by (simp add: alloc_extend_naive_spec alloc_extend_kernel_spec)

theorem alloc_extend_naive_eq_kernel_witness:
  "alloc_extend_naive [3] [10] [6] [9, 5] 4 (replicate 7 0)
     = Inr (alloc_extend_kernel (\<lambda>_. 0) 0 [3] [10] [6] [9, 5] 1 4 1 (replicate 7 1))"
  using alloc_extend_naive_eq_kernel [of 4 "[3]" "[10]" "[6]" "[9, 5]" "replicate 7 0" "replicate 7 1" 1 "\<lambda>_. 0" 0]
  by (simp add: extend_args_def ext_start_def page_start_def ceil_div_def)

end
