(* ===== verification/Req_Pool.thy ===== *)
theory Req_Pool
  imports Prelude "HOL-Library.Multiset"
begin

text \<open>
  Requests as the memory layer sees them (the fields of \<open>Req\<close> in \<open>managers/schedule_batch.py\<close> it
  reads or writes), the pool of request rows \<open>ReqToTokenPool\<close> of \<open>mem_cache/memory_pool.py\<close>, and the
  three implementations of \<open>get_last_loc\<close> of \<open>mem_cache/common.py\<close>.
\<close>

section \<open>Requests\<close>

record req =
  rq_origin_input_ids :: "int list"
  rq_output_ids :: "int list"
  rq_fill_ids :: "int list"
  rq_extra_key :: "string option"
  rq_req_pool_idx :: "nat option"
  rq_kv_committed_len :: nat
  rq_kv_allocated_len :: nat
  rq_kv_committed_freed :: bool
  rq_kv_overallocated_freed :: bool
  rq_cache_protected_len :: nat
  rq_prefix_indices :: "int list"
  rq_last_node :: "nat option"
  rq_priority :: "int option"
  rq_is_chunked :: int
  rq_reasoning_tokens :: nat
  rq_skip_radix_cache_insert :: bool

definition cache_commit_len :: "bool \<Rightarrow> req \<Rightarrow> nat" where
  "cache_commit_len strip_thinking_cache r =
     (if strip_thinking_cache \<and> 0 < rq_reasoning_tokens r
      then min (rq_kv_committed_len r) (length (rq_origin_input_ids r))
      else rq_kv_committed_len r)"

definition pop_committed_kv_cache :: "bool \<Rightarrow> req \<Rightarrow> (nat \<times> req) res" where
  "pop_committed_kv_cache strip r =
     rbind (guard_res (\<not> rq_kv_committed_freed r) AssertionError) (\<lambda>_.
     Inr (cache_commit_len strip r, r\<lparr>rq_kv_committed_freed := True\<rparr>))"

definition pop_overallocated_kv_cache :: "bool \<Rightarrow> req \<Rightarrow> ((nat \<times> nat) \<times> req) res" where
  "pop_overallocated_kv_cache strip r =
     rbind (guard_res (\<not> rq_kv_overallocated_freed r) AssertionError) (\<lambda>_.
     Inr ((cache_commit_len strip r, rq_kv_allocated_len r), r\<lparr>rq_kv_overallocated_freed := True\<rparr>))"

section \<open>The pool of request rows\<close>

record req_pool =
  rp_size :: nat
  rp_max_context_len :: nat
  rp_req_to_token :: "int list list"
  rp_free_slots :: "nat list"

definition req_pool_init :: "nat \<Rightarrow> nat \<Rightarrow> req_pool" where
  "req_pool_init n max_context_len =
     \<lparr>rp_size = n, rp_max_context_len = max_context_len,
      rp_req_to_token = replicate (n + 1) (replicate max_context_len 0),
      rp_free_slots = [1..<n + 1]\<rparr>"

text \<open>\<open>write((row, slice(a, b)), values)\<close>: slices are clamped to the row, a single value is broadcast.\<close>

definition pool_write :: "nat \<Rightarrow> nat \<Rightarrow> nat \<Rightarrow> int list \<Rightarrow> req_pool \<Rightarrow> req_pool res" where
  "pool_write r a b vs pool =
     (if r < length (rp_req_to_token pool)
      then let row = rp_req_to_token pool ! r;
               a' = min a (length row); b' = max a' (min b (length row)); n = b' - a'
           in if length vs = n
              then Inr (pool\<lparr>rp_req_to_token := (rp_req_to_token pool)[r := take a' row @ vs @ drop b' row]\<rparr>)
              else if length vs = 1
              then Inr (pool\<lparr>rp_req_to_token := (rp_req_to_token pool)[r := take a' row @ replicate n (hd vs) @ drop b' row]\<rparr>)
              else Inl RuntimeError
      else Inl IndexError)"

definition pool_row :: "nat \<Rightarrow> req_pool \<Rightarrow> int list res" where
  "pool_row r pool = (if r < length (rp_req_to_token pool) then Inr (rp_req_to_token pool ! r) else Inl IndexError)"

definition pool_available_size :: "req_pool \<Rightarrow> nat" where
  "pool_available_size pool = length (rp_free_slots pool)"

fun assign_rows :: "req list \<Rightarrow> nat list \<Rightarrow> req list" where
  "assign_rows [] idx = []"
| "assign_rows (r # rs) idx =
     (case rq_req_pool_idx r of
        Some _ \<Rightarrow> r # assign_rows rs idx
      | None \<Rightarrow> r\<lparr>rq_req_pool_idx := Some (hd idx)\<rparr> # assign_rows rs (tl idx))"

definition pool_alloc :: "req list \<Rightarrow> req_pool \<Rightarrow> (nat list option \<times> req list \<times> req_pool) res" where
  "pool_alloc reqs pool =
     (let reusing = filter (\<lambda>r. rq_req_pool_idx r \<noteq> None) reqs
      in rbind (guard_res (list_all (\<lambda>r. 0 < rq_is_chunked r \<or> 0 < rq_kv_committed_len r) reusing) AssertionError) (\<lambda>_.
         let need_size = length reqs - length reusing
         in if length (rp_free_slots pool) < need_size then Inr (None, reqs, pool)
            else let reqs' = assign_rows reqs (take need_size (rp_free_slots pool))
                 in Inr (Some (map (\<lambda>r. the (rq_req_pool_idx r)) reqs'), reqs',
                         pool\<lparr>rp_free_slots := drop need_size (rp_free_slots pool)\<rparr>)))"

definition pool_free :: "req \<Rightarrow> req_pool \<Rightarrow> (req \<times> req_pool) res" where
  "pool_free r pool =
     (case rq_req_pool_idx r of
        None \<Rightarrow> Inl AssertionError
      | Some i \<Rightarrow> Inr (r\<lparr>rq_req_pool_idx := None\<rparr>, pool\<lparr>rp_free_slots := rp_free_slots pool @ [i]\<rparr>))"

definition pool_clear :: "req_pool \<Rightarrow> req_pool" where
  "pool_clear pool = pool\<lparr>rp_free_slots := [1..<rp_size pool + 1]\<rparr>"

section \<open>The last slot of a prefix\<close>

text \<open>Memory is the flat buffer of \<open>req_to_token\<close>; a masked load outside its mask gives \<open>other\<close>.\<close>

definition load_or :: "bool \<Rightarrow> int \<Rightarrow> int list \<Rightarrow> int \<Rightarrow> int" where
  "load_or in_range other mem i = (if in_range \<and> 0 \<le> i \<and> nat i < length mem then mem ! nat i else other)"

definition get_last_loc_torch :: "int list list \<Rightarrow> nat list \<Rightarrow> nat list \<Rightarrow> int list" where
  "get_last_loc_torch rows pool_idx prefix_lens =
     map2 (\<lambda>r n. if 0 < n then rows ! r ! (n - 1) else -1) pool_idx prefix_lens"

definition last_loc_lane :: "nat \<Rightarrow> int list \<Rightarrow> nat list \<Rightarrow> nat list \<Rightarrow> nat \<Rightarrow> int" where
  "last_loc_lane stride mem pool_idx prefix_lens i =
     (let in_range = i < length prefix_lens;
          n = (if in_range then prefix_lens ! i else 0); r = (if in_range then pool_idx ! i else 0)
      in load_or (0 < n) (-1) mem (int r * int stride + (int n - 1)))"

text \<open>A grid of programs, each of which stores the lanes of its block that are in range.\<close>

fun run_grid :: "nat \<Rightarrow> nat \<Rightarrow> (nat \<Rightarrow> int) \<Rightarrow> nat \<Rightarrow> int list \<Rightarrow> int list" where
  "run_grid 0 block f n out = out"
| "run_grid (Suc pids) block f n out =
     (let out' = run_grid pids block f n out
      in fold (\<lambda>k o'. if pids * block + k < n then o'[pids * block + k := f (pids * block + k)] else o') [0..<block] out')"

definition get_last_loc_triton :: "int list list \<Rightarrow> nat \<Rightarrow> nat list \<Rightarrow> nat list \<Rightarrow> int list \<Rightarrow> int list" where
  "get_last_loc_triton rows stride pool_idx prefix_lens buf =
     run_grid ((length prefix_lens + 255) div 256) 256
       (last_loc_lane stride (concat rows) pool_idx prefix_lens) (length prefix_lens) buf"

definition last_loc_safe_lane :: "nat \<Rightarrow> int list \<Rightarrow> nat list \<Rightarrow> nat list \<Rightarrow> nat \<Rightarrow> int" where
  "last_loc_safe_lane stride mem pool_idx prefix_lens i =
     (let in_range = i < length prefix_lens;
          n = (if in_range then prefix_lens ! i else 0); r = (if in_range then pool_idx ! i else 0)
      in load_or (in_range \<and> 0 < n) (-1) mem (int r * int stride + (int n - 1)))"

definition get_last_loc_triton_safe :: "int list list \<Rightarrow> nat \<Rightarrow> nat list \<Rightarrow> nat list \<Rightarrow> int list \<Rightarrow> int list" where
  "get_last_loc_triton_safe rows stride pool_idx prefix_lens buf =
     run_grid ((length prefix_lens + 255) div 256) 256
       (last_loc_safe_lane stride (concat rows) pool_idx prefix_lens) (length prefix_lens) buf"

definition get_last_loc :: "bool \<Rightarrow> string \<Rightarrow> int list list \<Rightarrow> nat \<Rightarrow> nat list \<Rightarrow> nat list \<Rightarrow> int list \<Rightarrow> int list" where
  "get_last_loc is_hip attn_backend rows stride pool_idx prefix_lens buf =
     (let uses_triton_dispatch = attn_backend \<notin> {''ascend'', ''torch_native''}
      in if is_hip \<and> uses_triton_dispatch then get_last_loc_triton_safe rows stride pool_idx prefix_lens buf
         else if uses_triton_dispatch then get_last_loc_triton rows stride pool_idx prefix_lens buf
         else get_last_loc_torch rows pool_idx prefix_lens)"

section \<open>The kernels agree with the reference\<close>

lemma fold_store_row:
  "length (fold (\<lambda>k o'. if b + k < n then o'[b + k := f (b + k)] else o') ks out) = length out"
  "\<forall>i<length out. fold (\<lambda>k o'. if b + k < n then o'[b + k := f (b + k)] else o') ks out ! i
     = (if i < n \<and> i \<in> (\<lambda>k. b + k) ` set ks then f i else out ! i)"
  by (induction ks arbitrary: out) auto

lemma run_grid_nth:
  "length (run_grid pids block f n out) = length out"
  "i < length out \<Longrightarrow> run_grid pids block f n out ! i = (if i < n \<and> i < pids * block then f i else out ! i)"
proof (induction pids)
  case (Suc pids)
  { case 1 show ?case using Suc by (simp add: fold_store_row Let_def) }
  { case 2
    have "(\<lambda>k. pids * block + k) ` {0..<block} = {pids * block..<pids * block + block}"
      by (simp add: image_add_atLeastLessThan add.commute)
    then show ?case using Suc 2
      fold_store_row(2) [of "run_grid pids block f n out" "pids * block" n f "[0..<block]"] by (auto simp: Let_def)
  }
qed simp_all

lemma run_grid_all:
  assumes "length out = n" "n \<le> pids * block"
  shows "run_grid pids block f n out = map f [0..<n]"
  by (rule nth_equalityI) (use assms run_grid_nth in \<open>auto simp: run_grid_nth\<close>)

lemma concat_nth_row:
  assumes "\<forall>row\<in>set rows. length row = stride" "r < length rows" "j < stride"
  shows "r * stride + j < length (concat rows)" "concat rows ! (r * stride + j) = rows ! r ! j"
  using assms
proof (induction rows arbitrary: r)
  case (Cons row rows)
  { case 1 then show ?case using Cons.IH(1) [of "r - 1"] by (cases r) (auto simp: add.assoc) }
  { case 2
    show ?case
    proof (cases r)
      case 0
      then show ?thesis using 2 by (simp add: nth_append)
    next
      case (Suc r')
      have "concat (row # rows) ! (r * stride + j) = concat rows ! (r' * stride + j)"
        using 2 Suc by (simp add: nth_append add.assoc)
      then show ?thesis using Cons.IH(2) [of r'] 2 Suc by simp
    qed
  }
qed simp_all

lemma last_loc_lane_eq:
  assumes "\<forall>row\<in>set rows. length row = stride" "i < length prefix_lens" "length pool_idx = length prefix_lens"
    "pool_idx ! i < length rows" "prefix_lens ! i \<le> stride"
  shows "last_loc_lane stride (concat rows) pool_idx prefix_lens i = get_last_loc_torch rows pool_idx prefix_lens ! i"
    "last_loc_safe_lane stride (concat rows) pool_idx prefix_lens i = get_last_loc_torch rows pool_idx prefix_lens ! i"
proof -
  let ?n = "prefix_lens ! i" and ?r = "pool_idx ! i"
  have "load_or (0 < ?n) (-1) (concat rows) (int ?r * int stride + (int ?n - 1)) = (if 0 < ?n then rows ! ?r ! (?n - 1) else -1)"
  proof (cases "0 < ?n")
    case True
    then have e: "int ?r * int stride + (int ?n - 1) = int (?r * stride + (?n - 1))" by (simp add: of_nat_diff)
    have "?n - 1 < stride" using True assms(5) by linarith
    with concat_nth_row [OF assms(1,4), of "?n - 1"] True show ?thesis
      unfolding e load_or_def nat_int by (metis of_nat_0_le_iff)
  qed (simp add: load_or_def)
  with assms show "last_loc_lane stride (concat rows) pool_idx prefix_lens i = get_last_loc_torch rows pool_idx prefix_lens ! i"
    "last_loc_safe_lane stride (concat rows) pool_idx prefix_lens i = get_last_loc_torch rows pool_idx prefix_lens ! i"
    by (simp_all add: last_loc_lane_def last_loc_safe_lane_def get_last_loc_torch_def)
qed

text \<open>
  On every device and for every attention backend \<open>get_last_loc\<close> returns the slot before the end
  of each prefix, and -1 for an empty prefix: both block kernels over the flat buffer, for any
  batch size, compute what the tensor expression computes.
\<close>

theorem get_last_loc_backend_independent:
  assumes "\<forall>row\<in>set rows. length row = stride" "length pool_idx = length prefix_lens" "length buf = length prefix_lens"
    "\<forall>i<length prefix_lens. pool_idx ! i < length rows \<and> prefix_lens ! i \<le> stride"
  shows "get_last_loc is_hip backend rows stride pool_idx prefix_lens buf
    = map (\<lambda>i. if 0 < prefix_lens ! i then rows ! (pool_idx ! i) ! (prefix_lens ! i - 1) else -1) [0..<length prefix_lens]"
proof -
  have g: "length prefix_lens \<le> (length prefix_lens + 255) div 256 * 256" by linarith
  have t: "get_last_loc_torch rows pool_idx prefix_lens
    = map (\<lambda>i. if 0 < prefix_lens ! i then rows ! (pool_idx ! i) ! (prefix_lens ! i - 1) else -1) [0..<length prefix_lens]"
    by (rule nth_equalityI) (simp_all add: get_last_loc_torch_def assms(2))
  have "get_last_loc_triton rows stride pool_idx prefix_lens buf = get_last_loc_torch rows pool_idx prefix_lens"
    "get_last_loc_triton_safe rows stride pool_idx prefix_lens buf = get_last_loc_torch rows pool_idx prefix_lens"
    unfolding get_last_loc_triton_def get_last_loc_triton_safe_def run_grid_all [OF assms(3) g]
    by (rule nth_equalityI; use assms last_loc_lane_eq [OF assms(1) _ assms(2)] in \<open>simp add: get_last_loc_torch_def\<close>)+
  then show ?thesis using t by (simp add: get_last_loc_def Let_def)
qed

theorem get_last_loc_backend_independent_witness:
  "get_last_loc True ''triton'' [[0, 0, 0], [4, 5, 6], [7, 8, 9]] 3 [2, 1, 1] [3, 0, 2] [0, 0, 0] = [9, -1, 5]"
proof -
  have "get_last_loc True ''triton'' [[0, 0, 0], [4, 5, 6], [7, 8, 9]] 3 [2, 1, 1] [3, 0, 2] [0, 0, 0]
    = map (\<lambda>i. if 0 < [3, 0, 2 :: nat] ! i then [[0, 0, 0], [4, 5, 6], [7, 8, 9]] ! ([2, 1, 1] ! i) ! ([3, 0, 2] ! i - 1) else -1) [0..<length [3, 0, 2 :: nat]]"
    by (rule get_last_loc_backend_independent) (auto simp: less_Suc_eq numeral_3_eq_3)
  then show ?thesis by (simp add: upt_rec)
qed

definition sample_req :: req where
  "sample_req = \<lparr>rq_origin_input_ids = [7, 8, 9, 5, 6], rq_output_ids = [], rq_fill_ids = [7, 8, 9, 5, 6], rq_extra_key = None,
     rq_req_pool_idx = None, rq_kv_committed_len = 5, rq_kv_allocated_len = 5, rq_kv_committed_freed = False,
     rq_kv_overallocated_freed = False, rq_cache_protected_len = 0, rq_prefix_indices = [], rq_last_node = None,
     rq_priority = None, rq_is_chunked = 0, rq_reasoning_tokens = 0, rq_skip_radix_cache_insert = False\<rparr>"

section \<open>Rows are handed out once\<close>

definition pool_ok :: "req_pool \<Rightarrow> nat set \<Rightarrow> bool" where
  "pool_ok pool used \<longleftrightarrow> distinct (rp_free_slots pool) \<and> set (rp_free_slots pool) \<inter> used = {}
     \<and> set (rp_free_slots pool) \<union> used = {1..rp_size pool}"

abbreviation row_of :: "req \<Rightarrow> nat" where
  "row_of r \<equiv> the (rq_req_pool_idx r)"

lemma assign_rows_props:
  "length idx = length (filter (\<lambda>r. rq_req_pool_idx r = None) reqs) \<Longrightarrow>
     length (assign_rows reqs idx) = length reqs
   \<and> (\<forall>r\<in>set (assign_rows reqs idx). rq_req_pool_idx r \<noteq> None)
   \<and> mset (map row_of (assign_rows reqs idx)) = mset (map row_of (filter (\<lambda>r. rq_req_pool_idx r \<noteq> None) reqs)) + mset idx
   \<and> (\<forall>i<length reqs. rq_req_pool_idx (reqs ! i) \<noteq> None \<longrightarrow> assign_rows reqs idx ! i = reqs ! i)"
proof (induction reqs arbitrary: idx)
  case (Cons r reqs)
  show ?case
  proof (cases "rq_req_pool_idx r")
    case None
    then obtain j js where idx: "idx = j # js" using Cons.prems by (cases idx) auto
    have IH: "length (assign_rows reqs js) = length reqs" "\<forall>r\<in>set (assign_rows reqs js). rq_req_pool_idx r \<noteq> None"
      "mset (map row_of (assign_rows reqs js)) = mset (map row_of (filter (\<lambda>r. rq_req_pool_idx r \<noteq> None) reqs)) + mset js"
      "\<forall>i<length reqs. rq_req_pool_idx (reqs ! i) \<noteq> None \<longrightarrow> assign_rows reqs js ! i = reqs ! i"
      using Cons.IH [of js] None idx Cons.prems by simp_all
    have "(r # reqs) ! i = assign_rows (r # reqs) idx ! i" if "i < length (r # reqs)" "rq_req_pool_idx ((r # reqs) ! i) \<noteq> None" for i
      using that None idx IH(4) by (cases i) simp_all
    then show ?thesis using None idx IH(1-3) by simp
  next
    case (Some i)
    have IH: "length (assign_rows reqs idx) = length reqs" "\<forall>r\<in>set (assign_rows reqs idx). rq_req_pool_idx r \<noteq> None"
      "mset (map row_of (assign_rows reqs idx)) = mset (map row_of (filter (\<lambda>r. rq_req_pool_idx r \<noteq> None) reqs)) + mset idx"
      "\<forall>i<length reqs. rq_req_pool_idx (reqs ! i) \<noteq> None \<longrightarrow> assign_rows reqs idx ! i = reqs ! i"
      using Cons.IH [of idx] Some Cons.prems by simp_all
    have "(r # reqs) ! i = assign_rows (r # reqs) idx ! i" if "i < length (r # reqs)" "rq_req_pool_idx ((r # reqs) ! i) \<noteq> None" for i
      using that Some IH(4) by (cases i) simp_all
    then show ?thesis using Some IH(1-3) by simp
  qed
qed simp

lemma assign_rows_fresh:
  "length idx = length (filter (\<lambda>r. rq_req_pool_idx r = None) reqs) \<Longrightarrow> i < length reqs \<Longrightarrow> rq_req_pool_idx (reqs ! i) = None
     \<Longrightarrow> row_of (assign_rows reqs idx ! i) \<in> set idx"
proof (induction reqs arbitrary: idx i)
  case (Cons r reqs)
  show ?case
  proof (cases "rq_req_pool_idx r")
    case None
    then obtain j js where idx: "idx = j # js" using Cons.prems by (cases idx) auto
    then show ?thesis using None Cons.prems Cons.IH [of js "i - 1"] by (cases i) auto
  next
    case (Some k)
    then show ?thesis using Cons.prems Cons.IH [of idx "i - 1"] by (cases i) auto
  qed
qed simp

lemma pool_alloc_ok:
  assumes "pool_ok pool used" "distinct (map row_of (filter (\<lambda>r. rq_req_pool_idx r \<noteq> None) reqs))"
    "row_of ` set (filter (\<lambda>r. rq_req_pool_idx r \<noteq> None) reqs) \<subseteq> used"
    "\<forall>r\<in>set reqs. rq_req_pool_idx r \<noteq> None \<longrightarrow> 0 < rq_is_chunked r \<or> 0 < rq_kv_committed_len r"
  shows "if length (filter (\<lambda>r. rq_req_pool_idx r = None) reqs) \<le> pool_available_size pool
     then \<exists>idx reqs' pool'. pool_alloc reqs pool = Inr (Some idx, reqs', pool') \<and> length idx = length reqs \<and> distinct idx
        \<and> set idx \<subseteq> {1..rp_size pool} \<and> pool_ok pool' (used \<union> set idx) \<and> rp_size pool' = rp_size pool
        \<and> (\<forall>i<length reqs. rq_req_pool_idx (reqs' ! i) = Some (idx ! i)
             \<and> (case rq_req_pool_idx (reqs ! i) of Some j \<Rightarrow> idx ! i = j | None \<Rightarrow> idx ! i \<notin> used))
        \<and> (\<forall>i<length reqs. \<exists>r pool''. pool_free (reqs' ! i) pool' = Inr (r, pool'') \<and> rq_req_pool_idx r = None
             \<and> pool_ok pool'' (used \<union> set idx - {idx ! i}))
     else pool_alloc reqs pool = Inr (None, reqs, pool)"
proof -
  let ?N = "\<lambda>r. rq_req_pool_idx r = None" and ?S = "\<lambda>r. rq_req_pool_idx r \<noteq> None"
  have need: "length reqs - length (filter ?S reqs) = length (filter ?N reqs)"
    using sum_length_filter_compl [of ?N reqs] by simp
  have g: "list_all (\<lambda>r. 0 < rq_is_chunked r \<or> 0 < rq_kv_committed_len r) (filter ?S reqs)"
    using assms(4) by (auto simp: list_all_iff)
  show ?thesis
  proof (cases "length (filter ?N reqs) \<le> pool_available_size pool")
    case False
    then show ?thesis using need g by (simp add: pool_alloc_def pool_available_size_def Let_def guard_res_def rbind_def)
  next
    case True
    let ?n = "length (filter ?N reqs)" and ?F = "rp_free_slots pool"
    let ?t = "take ?n ?F"
    let ?rs = "assign_rows reqs ?t" and ?p = "pool\<lparr>rp_free_slots := drop ?n ?F\<rparr>"
    let ?idx = "map row_of ?rs"
    have lt: "length ?t = ?n" using True by (simp add: pool_available_size_def)
    note A = assign_rows_props [OF lt]
    have ms: "mset ?idx = mset (map row_of (filter ?S reqs)) + mset ?t" using A by blast
    have "distinct (?t @ drop ?n ?F)" using assms(1) by (simp only: append_take_drop_id pool_ok_def)
    then have td: "set ?t \<inter> set (drop ?n ?F) = {}" "distinct ?t" "distinct (drop ?n ?F)"
      by (simp_all only: distinct_append simp_thms)
    have tu': "set ?t \<union> set (drop ?n ?F) = set ?F" by (simp only: set_append [symmetric] append_take_drop_id)
    have si: "set ?idx = row_of ` set (filter ?S reqs) \<union> set ?t" using arg_cong [OF ms, of set_mset] by (simp only: set_mset_mset set_mset_union set_map)
    have tu: "set ?t \<inter> used = {}" using assms(1) tu' by (auto simp: pool_ok_def)
    have "row_of ` set (filter ?S reqs) \<inter> set ?t = {}" using assms(3) tu by blast
    then have "distinct (map row_of (filter ?S reqs) @ ?t)" using assms(2) td(2) by simp
    then have di: "distinct ?idx" using ms by (metis mset_append mset_eq_imp_distinct_iff)
    have U: "used \<union> set ?idx = used \<union> set ?t" using si assms(3) by blast
    have ok: "pool_ok ?p (used \<union> set ?idx)" unfolding U using assms(1) td tu tu' by (auto simp: pool_ok_def)
    have e: "pool_alloc reqs pool = Inr (Some ?idx, ?rs, ?p)"
      using True need g by (simp add: pool_alloc_def pool_available_size_def Let_def guard_res_def rbind_def)
    have len: "length ?idx = length reqs" using A by simp
    have some: "rq_req_pool_idx (?rs ! i) = Some (?idx ! i)" if "i < length reqs" for i
    proof -
      have i: "i < length ?rs" using that A by simp
      then have "?rs ! i \<in> set ?rs" by (rule nth_mem)
      then have "rq_req_pool_idx (?rs ! i) \<noteq> None" using A by blast
      with i show ?thesis by auto
    qed
    have case': "case rq_req_pool_idx (reqs ! i) of Some j \<Rightarrow> ?idx ! i = j | None \<Rightarrow> ?idx ! i \<notin> used" if i: "i < length reqs" for i
    proof (cases "rq_req_pool_idx (reqs ! i)")
      case None
      have "?idx ! i \<in> set ?t" using assign_rows_fresh [OF lt i None] i len by simp
      then show ?thesis using None tu by auto
    next
      case (Some j)
      have "?rs ! i = reqs ! i" using A i Some by auto
      then show ?thesis using Some i len by simp
    qed
    have fr: "\<exists>r pool''. pool_free (?rs ! i) ?p = Inr (r, pool'') \<and> rq_req_pool_idx r = None
             \<and> pool_ok pool'' (used \<union> set ?idx - {?idx ! i})" if i: "i < length reqs" for i
    proof -
      have "?idx ! i \<in> set ?idx" using i len by (metis nth_mem)
      then have "pool_ok (?p\<lparr>rp_free_slots := rp_free_slots ?p @ [?idx ! i]\<rparr>) (used \<union> set ?idx - {?idx ! i})"
        using ok by (auto simp: pool_ok_def)
      then show ?thesis using some [OF i] by (simp add: pool_free_def)
    qed
    have "set ?idx \<subseteq> {1..rp_size pool}" using ok by (auto simp: pool_ok_def)
    then have "\<exists>idx reqs' pool'. pool_alloc reqs pool = Inr (Some idx, reqs', pool') \<and> length idx = length reqs \<and> distinct idx
        \<and> set idx \<subseteq> {1..rp_size pool} \<and> pool_ok pool' (used \<union> set idx) \<and> rp_size pool' = rp_size pool
        \<and> (\<forall>i<length reqs. rq_req_pool_idx (reqs' ! i) = Some (idx ! i)
             \<and> (case rq_req_pool_idx (reqs ! i) of Some j \<Rightarrow> idx ! i = j | None \<Rightarrow> idx ! i \<notin> used))
        \<and> (\<forall>i<length reqs. \<exists>r pool''. pool_free (reqs' ! i) pool' = Inr (r, pool'') \<and> rq_req_pool_idx r = None
             \<and> pool_ok pool'' (used \<union> set idx - {idx ! i}))"
    proof -
      assume sub: "set ?idx \<subseteq> {1..rp_size pool}"
      show ?thesis
        by (rule exI [of _ ?idx], rule exI [of _ ?rs], rule exI [of _ ?p])
          (intro conjI allI impI e len di sub ok some case' fr, simp)
    qed
    with True show ?thesis by simp
  qed
qed

text \<open>
  C27: A batch gets a row for every request exactly when enough rows are free: requests that hold a
  row keep it, the others get different rows that nobody uses and never the padding row 0; with
  too few free rows nothing changes. Freeing a row makes it available again.
\<close>

theorem req_pool_rows_exclusive:
  assumes "pool_ok pool used" "distinct (map row_of (filter (\<lambda>r. rq_req_pool_idx r \<noteq> None) reqs))"
    "row_of ` set (filter (\<lambda>r. rq_req_pool_idx r \<noteq> None) reqs) \<subseteq> used"
    "\<forall>r\<in>set reqs. rq_req_pool_idx r \<noteq> None \<longrightarrow> 0 < rq_is_chunked r \<or> 0 < rq_kv_committed_len r"
  shows "if length (filter (\<lambda>r. rq_req_pool_idx r = None) reqs) \<le> pool_available_size pool
     then \<exists>idx reqs' pool'. pool_alloc reqs pool = Inr (Some idx, reqs', pool') \<and> length idx = length reqs \<and> distinct idx
        \<and> set idx \<subseteq> {1..rp_size pool} \<and> pool_ok pool' (used \<union> set idx) \<and> rp_size pool' = rp_size pool
        \<and> (\<forall>i<length reqs. rq_req_pool_idx (reqs' ! i) = Some (idx ! i)
             \<and> (case rq_req_pool_idx (reqs ! i) of Some j \<Rightarrow> idx ! i = j | None \<Rightarrow> idx ! i \<notin> used))
        \<and> (\<forall>i<length reqs. \<exists>r pool''. pool_free (reqs' ! i) pool' = Inr (r, pool'') \<and> rq_req_pool_idx r = None
             \<and> pool_ok pool'' (used \<union> set idx - {idx ! i}))
     else pool_alloc reqs pool = Inr (None, reqs, pool)"
  by (rule pool_alloc_ok [OF assms])

theorem req_pool_rows_exclusive_witness:
  "\<exists>idx reqs' pool'. pool_alloc [sample_req\<lparr>rq_req_pool_idx := Some 2, rq_is_chunked := 1\<rparr>, sample_req, sample_req]
      ((req_pool_init 4 8)\<lparr>rp_free_slots := [1, 3, 4]\<rparr>) = Inr (Some idx, reqs', pool')
    \<and> length idx = 3 \<and> distinct idx \<and> idx ! 0 = 2"
proof -
  let ?rs = "[sample_req\<lparr>rq_req_pool_idx := Some 2, rq_is_chunked := 1\<rparr>, sample_req, sample_req]"
  have f: "filter (\<lambda>r. rq_req_pool_idx r = None) ?rs = [sample_req, sample_req]"
    "filter (\<lambda>r. rq_req_pool_idx r \<noteq> None) ?rs = [sample_req\<lparr>rq_req_pool_idx := Some 2, rq_is_chunked := 1\<rparr>]"
    by (simp_all add: sample_req_def)
  have "{1..4} = {1, 2, 3, 4 :: nat}" by auto
  then have ok: "pool_ok ((req_pool_init 4 8)\<lparr>rp_free_slots := [1, 3, 4]\<rparr>) {2}"
    by (auto simp: pool_ok_def req_pool_init_def)
  have len: "length ?rs = 3" by simp
  obtain idx reqs' pool' where r: "pool_alloc ?rs ((req_pool_init 4 8)\<lparr>rp_free_slots := [1, 3, 4]\<rparr>) = Inr (Some idx, reqs', pool')"
    "length idx = length ?rs" "distinct idx"
    "\<forall>i<length ?rs. rq_req_pool_idx (reqs' ! i) = Some (idx ! i)
        \<and> (case rq_req_pool_idx (?rs ! i) of Some j \<Rightarrow> idx ! i = j | None \<Rightarrow> idx ! i \<notin> {2})"
    using req_pool_rows_exclusive [OF ok, of ?rs] unfolding f
    by (auto simp: pool_available_size_def sample_req_def simp del: pool_alloc_def)
  from r(4) [rule_format, of 0] have "idx ! 0 = 2" by simp
  with r(1-3) len show ?thesis by auto
qed

end
