(* ===== verification/Req_Cache.thy ===== *)
theory Req_Cache
  imports Radix_Props Req_Pool Kv_Kernels
begin

text \<open>
  Where requests meet the cache: \<open>cache_finished_req\<close> and \<open>cache_unfinished_req\<close> of \<open>RadixCache\<close> and of
  \<open>ChunkCache\<close>, and the allocation and release helpers of \<open>mem_cache/common.py\<close>. The point of the
  theory is ownership: every slot in use belongs to the cache or to exactly one request, and
  these operations hand slots from a request to the cache or back to the allocator without
  losing one or freeing one twice.
\<close>

section \<open>Operations\<close>

definition py_slice :: "nat \<Rightarrow> nat \<Rightarrow> 'a list \<Rightarrow> 'a list" where
  "py_slice a b xs = take (b - a) (drop a xs)"

definition free_slots :: "int list \<Rightarrow> rcache \<Rightarrow> rcache res" where
  "free_slots xs c = rbind (kv_free xs (rc_allocator c)) (\<lambda>a. Inr (c\<lparr>rc_allocator := a\<rparr>))"

definition req_priority :: "req \<Rightarrow> int" where
  "req_priority r = (case rq_priority r of None \<Rightarrow> 0 | Some q \<Rightarrow> q)"

definition cache_finished_req ::
  "(nat list \<Rightarrow> nat list) \<Rightarrow> int \<Rightarrow> bool \<Rightarrow> bool \<Rightarrow> req_pool \<Rightarrow> req \<Rightarrow> rcache \<Rightarrow> (req \<times> rcache) res" where
  "cache_finished_req sha now strip is_insert0 pool r c =
     (let is_insert = (if rc_disable_finished_insert c then False else is_insert0)
      in rbind (pop_committed_kv_cache strip r) (\<lambda>(kv_committed_len, r1).
         rbind (of_opt TypeError (rq_req_pool_idx r1)) (\<lambda>i.
         rbind (pool_row i pool) (\<lambda>row.
         if rc_disable c then rbind (free_slots (take kv_committed_len row) c) (\<lambda>c1. Inr (r1, c1))
         else
           let token_ids = take kv_committed_len (rq_origin_input_ids r1 @ rq_output_ids r1);
               kv_indices = take (length token_ids) row
           in rbind (page_aligned (mk_key token_ids (rq_extra_key r1) (rc_is_eagle c)) (rc_page_size c)) (\<lambda>radix_key.
              let klen = key_len radix_key; values = take klen kv_indices
              in rbind (if is_insert
                        then rbind (insert_key sha now radix_key (Some values) (Some (req_priority r1)) False c) (\<lambda>(prefix_len, c1).
                             free_slots (py_slice (rq_cache_protected_len r1) prefix_len kv_indices) c1)
                        else free_slots (py_slice (rq_cache_protected_len r1) klen kv_indices) c) (\<lambda>c2.
                 rbind (free_slots (drop klen kv_indices) c2) (\<lambda>c3.
                 case rq_last_node r1 of
                   None \<Rightarrow> Inr (r1, c3)
                 | Some n \<Rightarrow> rbind (dec_lock_ref n c3) (\<lambda>(_, c4). Inr (r1, c4)))))))))"

definition cache_unfinished_req ::
  "(nat list \<Rightarrow> nat list) \<Rightarrow> int \<Rightarrow> int \<Rightarrow> bool \<Rightarrow> req \<Rightarrow> req_pool \<Rightarrow> rcache \<Rightarrow> (req \<times> req_pool \<times> rcache) res" where
  "cache_unfinished_req sha now now' chunked r pool c =
     (if rc_disable c then Inr (r, pool, c)
      else
        rbind (of_opt TypeError (rq_req_pool_idx r)) (\<lambda>i.
        rbind (pool_row i pool) (\<lambda>row.
        let token_ids = rq_fill_ids r; kv_indices = take (length token_ids) row; prot = rq_cache_protected_len r
        in rbind (page_aligned (mk_key token_ids (rq_extra_key r) (rc_is_eagle c)) (rc_page_size c)) (\<lambda>radix_key.
           let values = take (key_len radix_key) kv_indices
           in rbind (insert_key sha now radix_key (Some values) (Some (req_priority r)) chunked c) (\<lambda>(new_prefix_len, c1).
              rbind (free_slots (py_slice prot new_prefix_len kv_indices) c1) (\<lambda>c2.
              rbind (match_prefix now' radix_key c2) (\<lambda>(new_indices, new_last_node, c3).
              rbind (guard_res (length new_indices = key_len radix_key) AssertionError) (\<lambda>_.
              rbind (pool_write i prot (length new_indices) (drop prot new_indices) pool) (\<lambda>pool'.
              let r1 = r\<lparr>rq_cache_protected_len := length new_indices\<rparr>
              in rbind (of_opt AttributeError (rq_last_node r1)) (\<lambda>old.
                 rbind (dec_lock_ref old c3) (\<lambda>(_, c4).
                 rbind (inc_lock_ref new_last_node c4) (\<lambda>(_, c5).
                 let prefix_indices = (if length new_indices < length kv_indices
                        then new_indices @ drop (length new_indices) kv_indices else new_indices)
                 in Inr (r1\<lparr>rq_prefix_indices := prefix_indices, rq_last_node := Some new_last_node\<rparr>, pool', c5)))))))))))))"

section \<open>Pages of a request\<close>

lemma page_slots_take: "take (q * p) (page_slots p gs) = page_slots p (take q gs)"
proof (cases "q \<le> length gs")
  case True
  have "page_slots p gs = page_slots p (take q gs) @ page_slots p (drop q gs)" by (simp flip: page_slots_append)
  moreover have "length (page_slots p (take q gs)) = q * p" using True by (simp add: min_def mult.commute)
  ultimately show ?thesis by (metis append_eq_conv_conj)
next
  case False
  then have "length (page_slots p gs) \<le> q * p" by (simp add: mult.commute)
  with False show ?thesis by simp
qed

lemma page_slots_drop: "drop (q * p) (page_slots p gs) = page_slots p (drop q gs)"
proof (cases "q \<le> length gs")
  case True
  have "page_slots p gs = page_slots p (take q gs) @ page_slots p (drop q gs)" by (simp flip: page_slots_append)
  moreover have "length (page_slots p (take q gs)) = q * p" using True by (simp add: min_def mult.commute)
  ultimately show ?thesis by (metis append_eq_conv_conj)
next
  case False
  then have "length (page_slots p gs) \<le> q * p" by (simp add: mult.commute)
  with False show ?thesis by (simp add: page_slots_def)
qed

text \<open>\<open>m\<close> tokens fill the pages \<open>gs\<close>, the last one at least in part.\<close>

definition fills :: "nat \<Rightarrow> nat \<Rightarrow> int list \<Rightarrow> bool" where
  "fills p m gs \<longleftrightarrow> m \<le> p * length gs \<and> p * length gs < m + p"

lemma fills_pages:
  assumes "0 < p" "fills p m gs"
  shows "(\<lambda>i. i div int p) ` set (take m (page_slots p gs)) = set gs" "m = 0 \<longleftrightarrow> gs = []"
proof -
  show "m = 0 \<longleftrightarrow> gs = []" using assms by (cases gs) (auto simp: fills_def)
  show "(\<lambda>i. i div int p) ` set (take m (page_slots p gs)) = set gs"
  proof (cases "gs = []")
    case False
    define hs where "hs = butlast gs"
    define g where "g = last gs"
    have gs: "gs = hs @ [g]" using False by (simp add: hs_def g_def)
    have len: "p * length hs < m" "m \<le> p * length hs + p" using assms by (auto simp: fills_def gs)
    have "take m (page_slots p gs) = page_slots p hs @ take (m - p * length hs) (page_slots p [g])"
      using len by (simp add: gs page_slots_append)
    moreover have "take (m - p * length hs) (page_slots p [g]) = map (\<lambda>j. g * int p + int j) [0..<m - p * length hs]"
      using len by (simp add: page_slots_def take_map take_upt)
    ultimately have st: "set (take m (page_slots p gs)) = set (page_slots p hs) \<union> (\<lambda>j. g * int p + int j) ` {0..<m - p * length hs}"
      by simp
    have dv: "(h * int p + int j) div int p = h" if "j < p" for h j using that by simp
    have im: "(\<lambda>i. i div int p) ` set (page_slots p ks) = set ks" for ks
      using assms(1) by (auto simp: page_slots_def image_UN image_image dv)
    have "(\<lambda>i. i div int p) ` (\<lambda>j. g * int p + int j) ` {0..<m - p * length hs} = {g}"
      using len by (auto simp: image_image dv intro!: image_eqI [of _ _ 0])
    then show ?thesis unfolding st image_Un im by (simp add: gs)
  qed (use assms in \<open>simp add: fills_def page_slots_def\<close>)
qed

lemma torch_unique_cong: "set xs = set ys \<Longrightarrow> torch_unique xs = torch_unique ys"
  unfolding torch_unique_def by (metis sorted_list_of_set_sort_remdups)

text \<open>Freeing some slots of every page frees the pages.\<close>

lemma kv_free_fills:
  assumes "0 < p" "al_page_size a = p" "al_is_not_in_free_group a" "fills p m gs"
  shows "kv_free (take m (page_slots p gs)) a = kv_free (page_slots p gs) a"
proof (cases "p = 1")
  case True
  then have "m = length gs" using assms(4) by (simp add: fills_def)
  then show ?thesis using True by simp
next
  case False
  have f: "fills p (p * length gs) gs" using assms(1) by (simp add: fills_def)
  have "(\<lambda>i. i div int p) ` set (take m (page_slots p gs)) = (\<lambda>i. i div int p) ` set (page_slots p gs)"
    using fills_pages(1) [OF assms(1,4)] fills_pages(1) [OF assms(1) f] by simp
  then have u: "torch_unique (map (\<lambda>i. i div int p) (take m (page_slots p gs))) = torch_unique (map (\<lambda>i. i div int p) (page_slots p gs))"
    by (intro torch_unique_cong) simp
  have n: "take m (page_slots p gs) = [] \<longleftrightarrow> page_slots p gs = []"
  proof -
    have "page_slots p gs = [] \<longleftrightarrow> gs = []" using assms(1) by (metis length_0_conv length_page_slots mult_is_0 not_gr_zero)
    then show ?thesis using fills_pages(2) [OF assms(1,4)] by auto
  qed
  show ?thesis using False assms(2,3) u n by (simp add: kv_free_def paged_free_def Let_def)
qed

section \<open>Ownership\<close>

text \<open>
  What a running request owns. Its first \<open>prot\<close> slots are cached (and locked through its last node);
  the rest fill pages \<open>gs\<close> of its own, which the cache does not refer to.
\<close>

definition req_kv ::
  "rcache \<Rightarrow> int set \<Rightarrow> string option \<Rightarrow> int list list \<Rightarrow> int list \<Rightarrow> nat \<Rightarrow> int list \<Rightarrow> bool" where
  "req_kv c U ek us kv prot gs \<longleftrightarrow>
     rc_page_size c dvd prot \<and> prot \<le> length us \<and> length us \<le> length kv
   \<and> (0 < prot \<longrightarrow> (ek, take prot us, take prot kv) \<in> content c)
   \<and> drop prot kv = take (length kv - prot) (page_slots (rc_page_size c) gs) \<and> fills (rc_page_size c) (length kv - prot) gs
   \<and> distinct gs \<and> set (page_slots (rc_page_size c) gs) \<subseteq> U - cache_slots (rc_page_size c) (content c)"

definition others :: "rcache \<Rightarrow> int set \<Rightarrow> int set" where
  "others c U = U - cache_slots (rc_page_size c) (content c)"

lemma alloc_upd:
  assumes "rc_enabled c"
  shows "rc_enabled (c\<lparr>rc_allocator := a\<rparr>)" "content (c\<lparr>rc_allocator := a\<rparr>) = content c" "live (c\<lparr>rc_allocator := a\<rparr>) = live c"
    "held (c\<lparr>rc_allocator := a\<rparr>) L n = held c L n" "rc_same c (c\<lparr>rc_allocator := a\<rparr>)"
    "n \<in> live c \<Longrightarrow> node_path (c\<lparr>rc_allocator := a\<rparr>) n us vs = node_path c n us vs"
proof -
  let ?c = "c\<lparr>rc_allocator := a\<rparr>"
  obtain L' pre vals where w: "rc_wf c L' pre vals" "rc_tree c L' pre vals" "live c = L'" "content c = stored c L' pre vals" "\<not> rc_disable c"
    using assms by (metis rc_enabled_def rc_inv_wfE)
  have sa: "same_acct c ?c" by (simp add: same_acct_def same_tree_def)
  have w': "rc_wf ?c L' pre vals"
    using w(1) rc_tree_cong [OF _ same_acct_same_tree [OF sa]] rc_acct_cong [OF _ sa] rc_hash_cong [OF _ sa] by (simp add: rc_wf_def)
  have t': "rc_tree ?c L' pre vals" using w' by (simp add: rc_wf_def)
  note wc = wf_contentD [OF w']
  show "rc_enabled ?c" using wc(1) w(5) by (simp add: rc_enabled_def)
  show "content ?c = content c" "live ?c = live c" unfolding wc w(3,4) by (simp_all add: stored_def)
  show "held ?c L n = held c L n" by (simp add: held_def kids_def)
  show "rc_same c ?c" by (simp add: rc_same_def)
  show "node_path ?c n us vs = node_path c n us vs" if "n \<in> live c"
    by (simp add: node_path_iff [OF t'] node_path_iff [OF w(2)])
qed

text \<open>The nodes that were there are still there, with the paths and slots they had.\<close>

definition keeps_nodes :: "rcache \<Rightarrow> rcache \<Rightarrow> bool" where
  "keeps_nodes c c' \<longleftrightarrow> live c \<subseteq> live c' \<and> (\<forall>x\<in>live c. (\<forall>us vs. node_path c' x us vs = node_path c x us vs) \<and> extra c' x = extra c x)"

lemma keeps_nodes_refl [simp]: "keeps_nodes c c"
  by (simp add: keeps_nodes_def)

lemma keeps_nodes_trans: "keeps_nodes c c' \<Longrightarrow> keeps_nodes c' c'' \<Longrightarrow> keeps_nodes c c''"
  by (auto simp: keeps_nodes_def subset_eq)

lemma keeps_nodes_alloc: "rc_enabled c \<Longrightarrow> keeps_nodes c (c\<lparr>rc_allocator := a\<rparr>)"
  by (simp add: keeps_nodes_def alloc_upd)

lemma kv_inv_no_group: "kv_inv a U \<Longrightarrow> al_is_not_in_free_group a"
  by (auto simp: kv_inv_def token_inv_def paged_inv_def split: if_splits)

lemma free_pages:
  assumes en: "rc_enabled c" and s: "rc_slots c (content c) U" and gs: "distinct gs" "fills (rc_page_size c) m gs"
    "set (page_slots (rc_page_size c) gs) \<subseteq> U - cache_slots (rc_page_size c) (content c)"
  shows "\<exists>a. free_slots (take m (page_slots (rc_page_size c) gs)) c = Inr (c\<lparr>rc_allocator := a\<rparr>)
     \<and> rc_slots (c\<lparr>rc_allocator := a\<rparr>) (content c) (U - set (page_slots (rc_page_size c) gs))"
proof -
  let ?p = "rc_page_size c"
  have p: "0 < ?p" by (rule rc_enabledD(4) [OF en])
  have k: "kv_inv (rc_allocator c) U" "al_page_size (rc_allocator c) = ?p" "pages_ok ?p (content c)" "cache_slots ?p (content c) \<subseteq> U"
    using s by (simp_all add: rc_slots_def)
  have "set (page_slots ?p gs) \<subseteq> U" using gs(3) by blast
  then obtain a where a: "kv_free (page_slots ?p gs) (rc_allocator c) = Inr a" "kv_inv a (U - set (page_slots ?p gs))"
    using kv.free_inv [OF k(1) _ distinct_page_slots [OF p gs(1)]] k(2) p by auto
  have "kv_free (take m (page_slots ?p gs)) (rc_allocator c) = Inr a"
    using kv_free_fills [OF p k(2) kv_inv_no_group [OF k(1)] gs(2)] a(1) by simp
  moreover have "al_page_size a = ?p" using kv_free_page_size [OF a(1)] k(2) by simp
  ultimately show ?thesis using a(2) k(3,4) gs(3)
    by (intro exI [of _ a]) (auto simp: free_slots_def rc_slots_def)
qed

lemma request_key:
  assumes en: "rc_enabled c" and k: "key = mk_key toks ek (rc_is_eagle c)"
  shows "\<exists>k. page_aligned key (rc_page_size c) = Inr k \<and> extra_key k = ek \<and> aligned_units c k = aligned_units c key
     \<and> key_len k = length (aligned_units c key) \<and> key_ok c k \<and> (rc_key_fits sha c key \<longrightarrow> rc_key_fits sha c k)"
proof -
  let ?p = "rc_page_size c"
  have p: "0 < ?p" by (rule rc_enabledD(4) [OF en])
  have ko: "key_ok c key" and kv: "key_view c key = key" and ex: "extra_key key = ek"
    unfolding k by (simp_all add: key_ok_def key_view_def maybe_to_bigram_view_def mk_key_def)
  obtain k' where k': "page_aligned key ?p = Inr k'" "extra_key k' = ek" "key_iter k' = aligned_units c key"
      "key_len k' = length (aligned_units c key)" "key_fits c k'" "set (token_ids k') \<subseteq> set (token_ids key)"
    using aligned_key [OF p ko] unfolding kv ex by blast
  have kv': "key_view c k' = k'" using k'(5) by (simp add: key_view_def maybe_to_bigram_view_def key_fits_def)
  have "?p dvd key_len k'" using k'(5) by (simp add: key_fits_def)
  then have "page_floor (key_len k') ?p = key_len k'" by (simp add: page_floor_def)
  then have "aligned_units c k' = aligned_units c key" unfolding aligned_units_def [of c k'] kv' k'(3,4) by simp
  moreover have "key_ok c k'" using k'(5) by (simp add: key_ok_def key_fits_def)
  moreover have "toks_ok key \<Longrightarrow> toks_ok k'" using k'(6) by (auto simp: toks_ok_def)
  ultimately show ?thesis using k' by (auto simp: rc_key_fits_def)
qed

lemma split_pages:
  assumes p: "0 < p" "p dvd a" "p dvd t" and t: "a \<le> t" "t \<le> length kv"
    and kv: "drop a kv = take (length kv - a) (page_slots p gs)" "fills p (length kv - a) gs"
  shows "\<exists>gs1 gs2. gs = gs1 @ gs2 \<and> py_slice a t kv = page_slots p gs1
     \<and> drop t kv = take (length kv - t) (page_slots p gs2) \<and> fills p (length kv - t) gs2"
proof -
  define q where "q = (t - a) div p"
  have q: "q * p = t - a" using p by (simp add: q_def dvd_diff_nat)
  have le: "q * p \<le> length kv - a" using q t by linarith
  have "q * p \<le> p * length gs" using le kv(2) unfolding fills_def by linarith
  then have lq: "q \<le> length gs" using p(1) by (simp add: mult.commute)
  have "py_slice a t kv = take (q * p) (page_slots p gs)"
    unfolding py_slice_def kv(1) q [symmetric] using le by simp
  then have s1: "py_slice a t kv = page_slots p (take q gs)" by (simp only: page_slots_take)
  have "drop t kv = drop (q * p) (drop a kv)" using q t by simp
  also have "\<dots> = take (length kv - a - q * p) (drop (q * p) (page_slots p gs))" unfolding kv(1) by (simp add: drop_take)
  also have "\<dots> = take (length kv - a - q * p) (page_slots p (drop q gs))" by (simp only: page_slots_drop)
  also have "length kv - a - q * p = length kv - t" using q t by simp
  finally have s2: "drop t kv = take (length kv - t) (page_slots p (drop q gs))" .
  have "length gs = q + length (drop q gs)" using lq by simp
  then have "p * length gs = (t - a) + p * length (drop q gs)" using q by (metis distrib_left mult.commute)
  then have "fills p (length kv - t) (drop q gs)" using kv(2) t unfolding fills_def by linarith
  with s1 s2 show ?thesis by (intro exI [of _ "take q gs"] exI [of _ "drop q gs"]) simp
qed

text \<open>
  The common part of both operations: insert the request's key with its slots and free what the
  cache already had. Of the request's pages the first \<open>gs1\<close> are freed, the next \<open>gs2\<close> become the
  cache's, the last \<open>gs3\<close> hold the unaligned rest.
\<close>

lemma insert_request:
  assumes en: "rc_enabled c" and s: "rc_slots c (content c) U" and k: "rc_key_fits sha c k" "extra_key k = ek" "aligned_units c k = us"
    and kv: "req_kv c U ek us kv prot gs"
  shows "\<exists>n c1 c2 ws gs1 gs2 gs3. insert_key sha now k (Some (take (length us) kv)) prio chunked c = Inr (n, c1)
     \<and> free_slots (py_slice prot n kv) c1 = Inr c2 \<and> rc_enabled c2 \<and> rc_same c c2 \<and> content c \<subseteq> content c2
     \<and> gs = gs1 @ gs2 @ gs3 \<and> rc_slots c2 (content c2) (U - set (page_slots (rc_page_size c) gs1))
     \<and> cache_slots (rc_page_size c) (content c2) = cache_slots (rc_page_size c) (content c) \<union> set (page_slots (rc_page_size c) gs2)
     \<and> drop (length us) kv = take (length kv - length us) (page_slots (rc_page_size c) gs3)
     \<and> fills (rc_page_size c) (length kv - length us) gs3
     \<and> length ws = n \<and> prot \<le> n \<and> n \<le> length us \<and> (us \<noteq> [] \<longrightarrow> (ek, us, ws @ drop n (take (length us) kv)) \<in> content c2)
     \<and> live c \<subseteq> live c2 \<and> (\<forall>x\<in>live c. held c2 (live c2) x = held c (live c) x) \<and> keeps_nodes c c2"
proof -
  let ?p = "rc_page_size c" and ?v = "take (length us) kv"
  have p: "0 < ?p" by (rule rc_enabledD(4) [OF en])
  note K = kv [unfolded req_kv_def]
  have uk: "?p dvd length us" using aligned_units_dvd [OF p, of k] k(3) by simp
  have lv: "length ?v = length us" using K by simp
  have lv': "length us \<le> length ?v" and tt: "take (length us) ?v = ?v" using lv by simp_all
  obtain n c1 ws where i: "insert_key sha now k (Some ?v) prio chunked c = Inr (n, c1)" "rc_enabled c1"
     "longest_match (content c) ek us n" "length ws = n" "0 < n \<longrightarrow> (ek, take n us, ws) \<in> content c"
     "content c1 = content c \<union> prefixes_of ?p ek us (ws @ drop n ?v)"
     "rc_same c c1" "rc_allocator c1 = rc_allocator c" "live c \<subseteq> live c1"
     "\<forall>x\<in>live c. held c1 (live c1) x = held c (live c) x \<and> (\<forall>us vs. node_path c1 x us vs = node_path c x us vs) \<and> extra c1 x = extra c x"
    using insert_key_ok [OF en k(1), of ?v now prio chunked, unfolded k(2,3), OF lv'] unfolding tt by blast
  note d = longest_page_dvd [OF en i(3)]
  have pn: "prot \<le> n" using K i(3) by (cases "prot = 0") (auto simp: longest_match_def)
  have Kl: "prot \<le> length us" "length us \<le> length kv" "?p dvd prot" "drop prot kv = take (length kv - prot) (page_slots ?p gs)"
    "fills ?p (length kv - prot) gs" using K by simp_all
  obtain gs1 gsr where r1: "gs = gs1 @ gsr" "py_slice prot n kv = page_slots ?p gs1"
      "drop n kv = take (length kv - n) (page_slots ?p gsr)" "fills ?p (length kv - n) gsr"
    using split_pages [OF p Kl(3) d(1) pn _ Kl(4,5)] d(2) Kl(2) by auto
  obtain gs2 gs3 where r2: "gsr = gs2 @ gs3" "py_slice n (length us) kv = page_slots ?p gs2"
      "drop (length us) kv = take (length kv - length us) (page_slots ?p gs3)" "fills ?p (length kv - length us) gs3"
    using split_pages [OF p d(1) uk d(2) Kl(2) r1(3,4)] by auto
  note gs = r1(1) [unfolded r2(1)] and s1 = r1(2) and s3 = r2(3) and f3 = r2(4)
  have s2: "drop n ?v = page_slots ?p gs2" using r2(2) by (simp add: py_slice_def drop_take)
  have dg: "distinct gs1" "distinct gs2" "set gs1 \<inter> set gs2 = {}" using K gs by auto
  have sub: "set (page_slots ?p gs) \<subseteq> U - cache_slots ?p (content c)" using K by simp
  have pu: "set (page_slots ?p gs) = set (page_slots ?p gs1) \<union> set (page_slots ?p gs2) \<union> set (page_slots ?p gs3)"
    by (simp add: gs page_slots_append Un_assoc)
  have dj: "set (page_slots ?p gs1) \<inter> set (page_slots ?p gs2) = {}"
    using distinct_page_slots [OF p, of "gs1 @ gs2"] dg by (auto simp: page_slots_append)
  note isl = insert_slots [OF en s i(3,4,5), of ?v gs2, OF _ s2 dg(2)]
  have fr: "set (drop n ?v) \<inter> cache_slots ?p (content c) = {}" unfolding s2 using sub pu by blast
  have pc: "pages_ok ?p (content c1)" "cache_slots ?p (content c1) = cache_slots ?p (content c) \<union> set (page_slots ?p gs2)"
    using isl [OF lv fr] unfolding i(6) s2 by blast+
  have sm: "rc_page_size c1 = ?p" using i(7) by (simp add: rc_same_def)
  have sl1: "rc_slots c1 (content c1) U" using s pc i(8) sm sub pu by (auto simp: rc_slots_def)
  have sub1: "set (page_slots ?p gs1) \<subseteq> U - cache_slots ?p (content c1)" using sub pu dj pc(2) by blast
  have f1: "fills ?p (length (page_slots ?p gs1)) gs1" using p by (simp add: fills_def)
  obtain a where a: "free_slots (page_slots ?p gs1) c1 = Inr (c1\<lparr>rc_allocator := a\<rparr>)"
      "rc_slots (c1\<lparr>rc_allocator := a\<rparr>) (content c1) (U - set (page_slots ?p gs1))"
    using free_pages [OF i(2) sl1 dg(1), of "length (page_slots ?p gs1)"] f1 sub1 unfolding sm by auto
  note au = alloc_upd [OF i(2), where a = a]
  let ?c2 = "c1\<lparr>rc_allocator := a\<rparr>"
  have "keeps_nodes c c1" using i(9,10) by (simp add: keeps_nodes_def)
  then have kn: "keeps_nodes c ?c2" using keeps_nodes_alloc [OF i(2)] by (rule keeps_nodes_trans)
  have "(ek, us, ws @ drop n ?v) \<in> content c1" if "us \<noteq> []"
    unfolding i(6) using rcx.prefixes_of_full [OF that uk, of "ws @ drop n ?v" ek] i(4) d(2) K by auto
  then show ?thesis
    using i(1) a s1 au(1-5) i(7,9,10) pc gs s3 f3 i(4) pn d(2) rc_same_trans [OF i(7) au(5)] i(6) kn
    by - (rule exI [of _ n], rule exI [of _ c1], rule exI [of _ ?c2], rule exI [of _ ws], rule exI [of _ gs1],
        rule exI [of _ gs2], rule exI [of _ gs3], simp)
qed

section \<open>Locks without ghosts\<close>

definition lock_only :: "rcache \<Rightarrow> rcache \<Rightarrow> bool" where
  "lock_only c c' \<longleftrightarrow> rc_same c c' \<and> content c' = content c \<and> live c' = live c \<and> rc_allocator c' = rc_allocator c \<and> keeps_nodes c c'"

lemma lock_only_slots: "lock_only c c' \<Longrightarrow> rc_slots c' (content c') U = rc_slots c (content c) U"
  by (simp add: lock_only_def rc_slots_def rc_same_def)

lemma lock_frame_only:
  assumes "rc_wf c L pre vals" "rc_wf c' L pre vals" "lock_frame c c'"
  shows "lock_only c c'"
proof -
  have t: "rc_tree c L pre vals" "rc_tree c' L pre vals" using assms(1,2) by (simp_all add: rc_wf_def)
  have "keeps_nodes c c'" using lock_frame_content(2) [OF assms] assms(3)
    by (simp add: keeps_nodes_def node_path_iff [OF t(1)] node_path_iff [OF t(2)] lock_frame_def same_tree_def)
  then show ?thesis using lock_frame_content [OF assms] assms(3) by (simp add: lock_only_def lock_frame_def same_tree_def rc_same_def)
qed

lemma dec_lock_ref_ok:
  assumes en: "rc_enabled c" and x: "x \<in> live c" "x \<noteq> rc_root c \<Longrightarrow> 1 \<le> held c (live c) x"
  shows "\<exists>d c'. dec_lock_ref x c = Inr (d, c') \<and> rc_enabled c' \<and> lock_only c c'
     \<and> (\<forall>n\<in>live c - {rc_root c}. held c' (live c) n = held c (live c) n - (if n = x then 1 else 0))"
proof -
  obtain L pre vals where w: "rc_wf c L pre vals" "live c = L" "\<not> rc_disable c" using en by (metis rc_enabled_def rc_inv_wfE)
  obtain c' where c': "dec_lock_ref x c = Inr (rc_evictable_size c' - rc_evictable_size c, c')" "rc_wf c' L pre vals" "lock_frame c c'"
     "\<forall>n\<in>L - {rc_root c}. held c' L n = held c L n - (if n = x then 1 else 0)"
    using dec_lock_ref_spec [OF w(1) _ w(3), of x] x unfolding w(2) by blast
  have "rc_enabled c'" using wf_contentD(1) [OF c'(2)] c'(3) w(3) by (simp add: rc_enabled_def lock_frame_def)
  with c' lock_frame_only [OF w(1) c'(2,3)] w(2) show ?thesis by blast
qed

lemma inc_lock_ref_ok:
  assumes en: "rc_enabled c" and x: "x \<in> live c"
  shows "\<exists>d c'. inc_lock_ref x c = Inr (d, c') \<and> rc_enabled c' \<and> lock_only c c'
     \<and> (\<forall>n\<in>live c - {rc_root c}. held c' (live c) n = held c (live c) n + (if n = x then 1 else 0))
     \<and> (x \<noteq> rc_root c \<longrightarrow> 1 \<le> held c' (live c) x)"
proof -
  obtain L pre vals where w: "rc_wf c L pre vals" "live c = L" "\<not> rc_disable c" using en by (metis rc_enabled_def rc_inv_wfE)
  obtain c' where c': "inc_lock_ref x c = Inr (rc_evictable_size c' - rc_evictable_size c, c')" "rc_wf c' L pre vals" "lock_frame c c'"
     "\<forall>n\<in>L - {rc_root c}. held c' L n = held c L n + (if n = x then 1 else 0)"
    using inc_lock_ref_spec [OF w(1) _ w(3), of x] x unfolding w(2) by blast
  have "rc_enabled c'" using wf_contentD(1) [OF c'(2)] c'(3) w(3) by (simp add: rc_enabled_def lock_frame_def)
  moreover have "0 \<le> held c L x" if "x \<noteq> rc_root c" using w(1,2) x that by (simp add: rc_wf_def rc_acct_def)
  then have "x \<noteq> rc_root c \<longrightarrow> 1 \<le> held c' L x" using c'(4) x w(2) by auto
  ultimately show ?thesis using c' lock_frame_only [OF w(1) c'(2,3)] w(2) by blast
qed

section \<open>A running request, for the witnesses\<close>

definition sample_running_req :: req where
  "sample_running_req = sample_req\<lparr>rq_origin_input_ids := [7, 8], rq_output_ids := [1], rq_fill_ids := [7, 8, 1],
     rq_req_pool_idx := Some 1, rq_kv_committed_len := 3, rq_kv_allocated_len := 3\<rparr>"

definition sample_pool :: req_pool where
  "sample_pool = (req_pool_init 1 4)\<lparr>rp_req_to_token := [[0, 0, 0, 0], [6, 7, 8, 0]], rp_free_slots := []\<rparr>"

lemma sample_running:
  "\<exists>c. rc_enabled c \<and> rc_slots c (content c) {2, 3, 4, 5, 6, 7, 8, 9} \<and> rc_root c \<in> live c \<and> rc_page_size c = 2
     \<and> aligned_units c (mk_key [7, 8, 1] None (rc_is_eagle c)) = [[7], [8]] \<and> rc_key_fits (\<lambda>xs. xs) c (mk_key [7, 8, 1] None (rc_is_eagle c))
     \<and> req_kv c {2, 3, 4, 5, 6, 7, 8, 9} None [[7], [8]] [6, 7, 8] 0 [3, 4]"
proof -
  obtain c where c: "rc_enabled c" "rc_page_size c = 2" "\<not> rc_is_eagle c" "\<not> rc_enable_kv_cache_events c"
      "rc_slots c (content c) {2, 3, 4, 5}"
    using sample_cache_ok by blast
  let ?a = "sample_alloc\<lparr>al_free_pages := []\<rparr>" and ?U = "{2, 3, 4, 5, 6, 7, 8, 9} :: int set"
  let ?c = "c\<lparr>rc_allocator := ?a\<rparr>"
  note au = alloc_upd [OF c(1), where a = ?a]
  have "{1..4} = {1, 2, 3, 4 :: int}" by auto
  moreover have "?U = slots_of 2 {1, 2, 3, 4}" by (auto simp: slots_of_def)
  ultimately have "kv_inv ?a ?U" "al_page_size ?a = 2"
    by (simp_all add: kv_inv_def paged_inv_def sample_alloc_def paged_clear_def alloc_base_init_def num_pages_def page_set_def)
  then have sl: "rc_slots ?c (content ?c) ?U" using c(2,5) au(2) by (auto simp: rc_slots_def)
  have cs: "cache_slots 2 (content c) \<subseteq> {2, 3, 4, 5}" using c(2,5) by (simp add: rc_slots_def)
  obtain L pre vals where w: "rc_tree c L pre vals" "live c = L" using c(1) by (metis rc_enabled_def rc_inv_wfE)
  have "rc_root ?c \<in> live ?c" using rc_treeD(3) [OF w(1)] w(2) au(3) by simp
  moreover have "aligned_units ?c (mk_key [7, 8, 1] None (rc_is_eagle ?c)) = [[7], [8]]" "rc_key_fits (\<lambda>xs. xs) ?c (mk_key [7, 8, 1] None (rc_is_eagle ?c))"
    using c(2-4) by (simp_all add: aligned_units_def key_view_def maybe_to_bigram_view_def mk_key_def key_len_def key_iter_def page_floor_def
        key_ok_def rc_key_fits_def)
  moreover have "page_slots 2 [3, 4] = [6, 7, 8, 9]" by (simp add: page_slots_def upt_rec)
  then have "req_kv ?c ?U None [[7], [8]] [6, 7, 8] 0 [3, 4]"
    using cs c(2) au(2) by (auto simp: req_kv_def fills_def)
  ultimately show ?thesis using sl au(1) c(2) by (intro exI [of _ ?c]) simp
qed

section \<open>A finished request\<close>

lemma pages_disjoint:
  assumes "0 < p" "distinct (gs1 @ gs2 @ gs3)"
  shows "set (page_slots p gs1) \<inter> set (page_slots p gs2) = {}" "set (page_slots p gs1) \<inter> set (page_slots p gs3) = {}"
    "set (page_slots p gs2) \<inter> set (page_slots p gs3) = {}"
  using distinct_page_slots [OF assms] by (auto simp: page_slots_append)

text \<open>Giving the unaligned rest back, and releasing the lock.\<close>

lemma finish_request:
  assumes en: "rc_enabled c" and s: "rc_slots c (content c) U" and gs: "distinct gs" "fills (rc_page_size c) m gs"
      "set (page_slots (rc_page_size c) gs) \<subseteq> others c U"
    and x: "x \<in> live c" "x \<noteq> rc_root c \<Longrightarrow> 1 \<le> held c (live c) x"
  shows "\<exists>c1 d c2. free_slots (take m (page_slots (rc_page_size c) gs)) c = Inr c1 \<and> dec_lock_ref x c1 = Inr (d, c2)
     \<and> rc_enabled c2 \<and> rc_same c c2 \<and> content c2 = content c \<and> live c2 = live c
     \<and> rc_slots c2 (content c2) (U - set (page_slots (rc_page_size c) gs))
     \<and> others c2 (U - set (page_slots (rc_page_size c) gs)) = others c U - set (page_slots (rc_page_size c) gs)
     \<and> (\<forall>n\<in>live c - {rc_root c}. held c2 (live c) n = held c (live c) n - (if n = x then 1 else 0)) \<and> keeps_nodes c c2"
proof -
  let ?P = "set (page_slots (rc_page_size c) gs)"
  obtain a where a: "free_slots (take m (page_slots (rc_page_size c) gs)) c = Inr (c\<lparr>rc_allocator := a\<rparr>)"
      "rc_slots (c\<lparr>rc_allocator := a\<rparr>) (content c) (U - ?P)"
    using free_pages [OF en s gs(1,2)] gs(3) by (auto simp: others_def)
  let ?c1 = "c\<lparr>rc_allocator := a\<rparr>"
  note au = alloc_upd [OF en, where a = a]
  obtain d c2 where d: "dec_lock_ref x ?c1 = Inr (d, c2)" "rc_enabled c2" "lock_only ?c1 c2"
      "\<forall>n\<in>live c - {rc_root c}. held c2 (live c) n = held c (live c) n - (if n = x then 1 else 0)"
    using dec_lock_ref_ok [OF au(1), of x] x unfolding au(2,3,4) by auto
  have sm: "rc_same c c2" "content c2 = content c" "live c2 = live c" using d(3) au by (auto simp: lock_only_def intro: rc_same_trans)
  moreover have "rc_slots c2 (content c2) (U - ?P)" using lock_only_slots [OF d(3)] a(2) au(2) by simp
  moreover have "others c2 (U - ?P) = others c U - ?P" using sm by (auto simp: others_def rc_same_def)
  moreover have "keeps_nodes c c2" using keeps_nodes_alloc [OF en] d(3) unfolding lock_only_def by (blast intro: keeps_nodes_trans)
  ultimately show ?thesis using a(1) d by blast
qed

lemma cache_finished_req_spec:
  assumes "rc_enabled c" "rc_slots c (content c) U" "rq_req_pool_idx r = Some i" "i < length (rp_req_to_token pool)"
    "\<not> rq_kv_committed_freed r" "rq_last_node r = Some x" "x \<in> live c" "x \<noteq> rc_root c \<Longrightarrow> 1 \<le> held c (live c) x"
    "n = cache_commit_len strip r" "n \<le> length (rq_origin_input_ids r @ rq_output_ids r)" "n \<le> length (rp_req_to_token pool ! i)"
    "key = mk_key (take n (rq_origin_input_ids r @ rq_output_ids r)) (rq_extra_key r) (rc_is_eagle c)" "rc_key_fits sha c key"
    "req_kv c U (rq_extra_key r) (aligned_units c key) (take n (rp_req_to_token pool ! i)) (rq_cache_protected_len r) gs"
  shows "\<exists>r' c' U'. cache_finished_req sha now strip is_insert pool r c = Inr (r', c') \<and> rc_enabled c' \<and> r' = r\<lparr>rq_kv_committed_freed := True\<rparr> \<and> rc_page_size c' = rc_page_size c
     \<and> U' \<subseteq> U \<and> rc_slots c' (content c') U'
     \<and> others c' U' = others c U - set (page_slots (rc_page_size c) gs)
     \<and> (if is_insert \<and> \<not> rc_disable_finished_insert c
        then content c \<subseteq> content c' \<and> (aligned_units c key \<noteq> [] \<longrightarrow> (\<exists>vs. (rq_extra_key r, aligned_units c key, vs) \<in> content c'))
        else content c' = content c)
     \<and> (\<forall>y\<in>live c - {rc_root c}. held c' (live c') y = held c (live c) y - (if y = x then 1 else 0)) \<and> rc_same c c' \<and> keeps_nodes c c'"
proof -
  note en = assms(1) and s = assms(2)
  let ?p = "rc_page_size c" and ?us = "aligned_units c key" and ?kv = "take n (rp_req_to_token pool ! i)" and ?ek = "rq_extra_key r"
  let ?r = "r\<lparr>rq_kv_committed_freed := True\<rparr>" and ?prot = "rq_cache_protected_len r"
  have p: "0 < ?p" by (rule rc_enabledD(4) [OF en])
  note K = assms(14) [unfolded req_kv_def]
  obtain k where k: "page_aligned key ?p = Inr k" "extra_key k = ?ek" "aligned_units c k = ?us" "key_len k = length ?us" "rc_key_fits sha c k"
    using request_key [OF en assms(12), of sha] assms(13) by blast
  have dis: "\<not> rc_disable c" using en by (simp add: rc_enabled_def)
  have lt: "length (take n (rq_origin_input_ids r @ rq_output_ids r)) = n" using assms(10) by simp
  let ?ins = "is_insert \<and> \<not> rc_disable_finished_insert c"
  define body where "body = (if ?ins
      then rbind (insert_key sha now k (Some (take (length ?us) ?kv)) (Some (req_priority r)) False c) (\<lambda>(prefix_len, c1).
             free_slots (py_slice ?prot prefix_len ?kv) c1)
      else free_slots (py_slice ?prot (length ?us) ?kv) c)"
  have run: "cache_finished_req sha now strip is_insert pool r c = rbind body (\<lambda>c2.
      rbind (free_slots (drop (length ?us) ?kv) c2) (\<lambda>c3. rbind (dec_lock_ref x c3) (\<lambda>(_, c4). Inr (?r, c4))))"
    unfolding cache_finished_req_def pop_committed_kv_cache_def body_def
    using assms(3-6) dis k(1,4) lt assms(9) [symmetric]
    by (simp add: pool_row_def req_priority_def assms(12) [symmetric] Let_def del: length_take take_append)
  have "\<exists>c2 U2 gs3. body = Inr c2 \<and> rc_enabled c2 \<and> rc_same c c2 \<and> rc_slots c2 (content c2) U2 \<and> U2 \<subseteq> U
     \<and> (if ?ins then content c \<subseteq> content c2 \<and> (?us \<noteq> [] \<longrightarrow> (\<exists>vs. (?ek, ?us, vs) \<in> content c2)) else content c2 = content c)
     \<and> drop (length ?us) ?kv = take (length ?kv - length ?us) (page_slots ?p gs3) \<and> fills ?p (length ?kv - length ?us) gs3 \<and> distinct gs3
     \<and> set (page_slots ?p gs3) \<subseteq> others c2 U2 \<and> others c2 U2 - set (page_slots ?p gs3) = others c U - set (page_slots ?p gs)
     \<and> live c \<subseteq> live c2 \<and> (\<forall>y\<in>live c. held c2 (live c2) y = held c (live c) y) \<and> keeps_nodes c c2"
  proof (cases ?ins)
    case True
    obtain m c1 c2 ws gs1 gs2 gs3 where i: "insert_key sha now k (Some (take (length ?us) ?kv)) (Some (req_priority r)) False c = Inr (m, c1)"
     "free_slots (py_slice ?prot m ?kv) c1 = Inr c2" "rc_enabled c2" "rc_same c c2" "content c \<subseteq> content c2"
     "gs = gs1 @ gs2 @ gs3" "rc_slots c2 (content c2) (U - set (page_slots ?p gs1))"
     "cache_slots ?p (content c2) = cache_slots ?p (content c) \<union> set (page_slots ?p gs2)"
     "drop (length ?us) ?kv = take (length ?kv - length ?us) (page_slots ?p gs3)" "fills ?p (length ?kv - length ?us) gs3"
     "?us \<noteq> [] \<longrightarrow> (?ek, ?us, ws @ drop m (take (length ?us) ?kv)) \<in> content c2"
     "live c \<subseteq> live c2" "\<forall>y\<in>live c. held c2 (live c2) y = held c (live c) y" "keeps_nodes c c2"
      using insert_request [OF en s k(5,2,3) assms(14), of now "Some (req_priority r)" False] by blast
    have dg: "distinct (gs1 @ gs2 @ gs3)" using K i(6) by simp
    note dj = pages_disjoint [OF p dg]
    have sm: "rc_page_size c2 = ?p" using i(4) by (simp add: rc_same_def)
    have sub: "set (page_slots ?p gs1) \<subseteq> others c U" "set (page_slots ?p gs2) \<subseteq> others c U" "set (page_slots ?p gs3) \<subseteq> others c U"
      using K i(6) by (simp_all add: page_slots_append others_def)
    have "others c2 (U - set (page_slots ?p gs1)) = others c U - set (page_slots ?p gs1) - set (page_slots ?p gs2)"
      unfolding others_def sm i(8) by blast
    moreover have "set (page_slots ?p gs) = set (page_slots ?p gs1) \<union> set (page_slots ?p gs2) \<union> set (page_slots ?p gs3)"
      by (simp add: i(6) page_slots_append Un_assoc)
    ultimately have "set (page_slots ?p gs3) \<subseteq> others c2 (U - set (page_slots ?p gs1))"
      "others c2 (U - set (page_slots ?p gs1)) - set (page_slots ?p gs3) = others c U - set (page_slots ?p gs)"
      using sub dj by blast+
    moreover have "body = Inr c2" using True i(1,2) by (simp add: body_def)
    ultimately show ?thesis using True i(3,4,5,7,9-14) dg
      by - (rule exI [of _ c2], rule exI [of _ "U - set (page_slots ?p gs1)"], rule exI [of _ gs3], auto)
  next
    case False
    have Kl: "?prot \<le> length ?us" "length ?us \<le> length ?kv" "?p dvd ?prot" "drop ?prot ?kv = take (length ?kv - ?prot) (page_slots ?p gs)"
      "fills ?p (length ?kv - ?prot) gs" using K by simp_all
    obtain gs1 gs3 where g: "gs = gs1 @ gs3" "py_slice ?prot (length ?us) ?kv = page_slots ?p gs1"
      "drop (length ?us) ?kv = take (length ?kv - length ?us) (page_slots ?p gs3)" "fills ?p (length ?kv - length ?us) gs3"
      using split_pages [OF p Kl(3) aligned_units_dvd [OF p] Kl(1,2,4,5)] by blast
    have dg: "distinct gs1" "distinct gs3" using K g(1) by simp_all
    have dj: "set (page_slots ?p gs1) \<inter> set (page_slots ?p gs3) = {}"
      using distinct_page_slots [OF p, of gs] K by (auto simp: g(1) page_slots_append)
    have sub: "set (page_slots ?p gs1) \<subseteq> U - cache_slots ?p (content c)" "set (page_slots ?p gs3) \<subseteq> others c U"
      using K by (simp_all add: g(1) page_slots_append others_def)
    have f1: "fills ?p (length (page_slots ?p gs1)) gs1" using p by (simp add: fills_def)
    obtain a where a: "free_slots (page_slots ?p gs1) c = Inr (c\<lparr>rc_allocator := a\<rparr>)"
      "rc_slots (c\<lparr>rc_allocator := a\<rparr>) (content c) (U - set (page_slots ?p gs1))"
      using free_pages [OF en s dg(1) f1 sub(1)] by auto
    note au = alloc_upd [OF en, where a = a]
    have "others (c\<lparr>rc_allocator := a\<rparr>) (U - set (page_slots ?p gs1)) = others c U - set (page_slots ?p gs1)"
      unfolding others_def au(2) by auto
    moreover have "set (page_slots ?p gs) = set (page_slots ?p gs1) \<union> set (page_slots ?p gs3)" by (simp add: g(1) page_slots_append)
    ultimately have o: "set (page_slots ?p gs3) \<subseteq> others (c\<lparr>rc_allocator := a\<rparr>) (U - set (page_slots ?p gs1))"
      "others (c\<lparr>rc_allocator := a\<rparr>) (U - set (page_slots ?p gs1)) - set (page_slots ?p gs3) = others c U - set (page_slots ?p gs)"
      using sub(2) dj by blast+
    have "body = Inr (c\<lparr>rc_allocator := a\<rparr>)" unfolding body_def if_not_P [OF False] g(2) by (rule a(1))
    then show ?thesis using False a(2) au(1-5) keeps_nodes_alloc [OF en, of a] g(3,4) dg(2) o
      by - (rule exI [of _ "c\<lparr>rc_allocator := a\<rparr>"], rule exI [of _ "U - set (page_slots ?p gs1)"], rule exI [of _ gs3], auto)
  qed
  then obtain c2 U2 gs3 where b: "body = Inr c2" "rc_enabled c2" "rc_same c c2" "rc_slots c2 (content c2) U2" "U2 \<subseteq> U"
     "if ?ins then content c \<subseteq> content c2 \<and> (?us \<noteq> [] \<longrightarrow> (\<exists>vs. (?ek, ?us, vs) \<in> content c2)) else content c2 = content c"
     "drop (length ?us) ?kv = take (length ?kv - length ?us) (page_slots ?p gs3)" "fills ?p (length ?kv - length ?us) gs3" "distinct gs3"
     "set (page_slots ?p gs3) \<subseteq> others c2 U2" "others c2 U2 - set (page_slots ?p gs3) = others c U - set (page_slots ?p gs)"
     "live c \<subseteq> live c2" "\<forall>y\<in>live c. held c2 (live c2) y = held c (live c) y" "keeps_nodes c c2" by blast
  have sm: "rc_page_size c2 = ?p" "rc_root c2 = rc_root c" using b(3) by (simp_all add: rc_same_def)
  have x2: "x \<in> live c2" "x \<noteq> rc_root c2 \<Longrightarrow> 1 \<le> held c2 (live c2) x" using assms(7,8) b(12,13) sm by auto
  obtain c3 d c4 where f: "free_slots (drop (length ?us) ?kv) c2 = Inr c3" "dec_lock_ref x c3 = Inr (d, c4)"
     "rc_enabled c4" "rc_same c2 c4" "content c4 = content c2" "live c4 = live c2" "rc_slots c4 (content c4) (U2 - set (page_slots ?p gs3))"
     "others c4 (U2 - set (page_slots ?p gs3)) = others c2 U2 - set (page_slots ?p gs3)"
     "\<forall>y\<in>live c2 - {rc_root c2}. held c4 (live c2) y = held c2 (live c2) y - (if y = x then 1 else 0)" "keeps_nodes c2 c4"
    using finish_request [OF b(2,4,9) _ _ x2, of "length ?kv - length ?us"] b(8,10) unfolding sm(1) b(7) by blast
  have "cache_finished_req sha now strip is_insert pool r c = Inr (?r, c4)" using run b(1) f(1,2) by simp
  moreover have "\<forall>y\<in>live c - {rc_root c}. held c4 (live c4) y = held c (live c) y - (if y = x then 1 else 0)"
    using f(6,9) b(12,13) sm(2) by auto
  moreover have "U2 - set (page_slots ?p gs3) \<subseteq> U" using b(5) by blast
  moreover have "rc_page_size c4 = ?p" using f(4) sm(1) by (simp add: rc_same_def)
  moreover have "rc_same c c4" "keeps_nodes c c4" using rc_same_trans [OF b(3) f(4)] keeps_nodes_trans [OF b(14) f(10)] by simp_all
  ultimately show ?thesis using f(3,5,7,8) b(6,11)
    by - (rule exI [of _ ?r], rule exI [of _ c4], rule exI [of _ "U2 - set (page_slots ?p gs3)"], simp)
qed

text \<open>
  C7: A finished request leaves nothing behind: \<open>cache_finished_req\<close> succeeds, keeps the cache and
  the allocator consistent, and afterwards the slots in use that the cache does not own are
  exactly those of the other requests: every page of the request is either cached now or free
  again, and none was freed twice. With insertion its whole aligned prefix is cached and nothing
  is lost; without, the content is unchanged. Its lock is released.
\<close>

theorem cache_finished_req_no_leak:
  assumes "rc_enabled c" "rc_slots c (content c) U" "rq_req_pool_idx r = Some i" "i < length (rp_req_to_token pool)"
    "\<not> rq_kv_committed_freed r" "rq_last_node r = Some x" "x \<in> live c" "x \<noteq> rc_root c \<Longrightarrow> 1 \<le> held c (live c) x"
    "n = cache_commit_len strip r" "n \<le> length (rq_origin_input_ids r @ rq_output_ids r)" "n \<le> length (rp_req_to_token pool ! i)"
    "key = mk_key (take n (rq_origin_input_ids r @ rq_output_ids r)) (rq_extra_key r) (rc_is_eagle c)" "rc_key_fits sha c key"
    "req_kv c U (rq_extra_key r) (aligned_units c key) (take n (rp_req_to_token pool ! i)) (rq_cache_protected_len r) gs"
  shows "\<exists>r' c' U'. cache_finished_req sha now strip is_insert pool r c = Inr (r', c') \<and> rc_enabled c' \<and> rq_kv_committed_freed r'
     \<and> U' \<subseteq> U \<and> rc_slots c' (content c') U'
     \<and> others c' U' = others c U - set (page_slots (rc_page_size c) gs)
     \<and> (if is_insert \<and> \<not> rc_disable_finished_insert c
        then content c \<subseteq> content c' \<and> (aligned_units c key \<noteq> [] \<longrightarrow> (\<exists>vs. (rq_extra_key r, aligned_units c key, vs) \<in> content c'))
        else content c' = content c)
     \<and> (\<forall>y\<in>live c - {rc_root c}. held c' (live c') y = held c (live c) y - (if y = x then 1 else 0))"
proof -
  obtain r' c' U' where "cache_finished_req sha now strip is_insert pool r c = Inr (r', c')" "rc_enabled c'" "r' = r\<lparr>rq_kv_committed_freed := True\<rparr>"
     "U' \<subseteq> U" "rc_slots c' (content c') U'" "others c' U' = others c U - set (page_slots (rc_page_size c) gs)"
     "if is_insert \<and> \<not> rc_disable_finished_insert c
        then content c \<subseteq> content c' \<and> (aligned_units c key \<noteq> [] \<longrightarrow> (\<exists>vs. (rq_extra_key r, aligned_units c key, vs) \<in> content c'))
        else content c' = content c"
     "\<forall>y\<in>live c - {rc_root c}. held c' (live c') y = held c (live c) y - (if y = x then 1 else 0)"
    using cache_finished_req_spec [OF assms, of now is_insert] by blast
  moreover from this(3) have "rq_kv_committed_freed r'" by simp
  ultimately show ?thesis by blast
qed

theorem cache_finished_req_no_leak_witness:
  "\<exists>c r' c' U'. rc_enabled c \<and> cache_finished_req (\<lambda>xs. xs) 9 False True sample_pool (sample_running_req\<lparr>rq_last_node := Some (rc_root c)\<rparr>) c = Inr (r', c')
     \<and> rc_slots c' (content c') U' \<and> others c' U' = others c {2, 3, 4, 5, 6, 7, 8, 9} - {6, 7, 8, 9}"
proof -
  obtain c where c: "rc_enabled c" "rc_slots c (content c) {2, 3, 4, 5, 6, 7, 8, 9}" "rc_root c \<in> live c" "rc_page_size c = 2"
     "aligned_units c (mk_key [7, 8, 1] None (rc_is_eagle c)) = [[7], [8]]" "rc_key_fits (\<lambda>xs. xs) c (mk_key [7, 8, 1] None (rc_is_eagle c))"
     "req_kv c {2, 3, 4, 5, 6, 7, 8, 9} None [[7], [8]] [6, 7, 8] 0 [3, 4]" using sample_running by blast
  let ?r = "sample_running_req\<lparr>rq_last_node := Some (rc_root c)\<rparr>"
  have pg: "set (page_slots 2 [3, 4]) = {6, 7, 8, 9}" by (simp add: page_slots_def upt_rec insert_commute)
  have "\<exists>r' c' U'. cache_finished_req (\<lambda>xs. xs) 9 False True sample_pool ?r c = Inr (r', c') \<and> rc_enabled c' \<and> rq_kv_committed_freed r'
     \<and> U' \<subseteq> {2, 3, 4, 5, 6, 7, 8, 9} \<and> rc_slots c' (content c') U'
     \<and> others c' U' = others c {2, 3, 4, 5, 6, 7, 8, 9} - set (page_slots (rc_page_size c) [3, 4])
     \<and> (if True \<and> \<not> rc_disable_finished_insert c
        then content c \<subseteq> content c' \<and> (aligned_units c (mk_key [7, 8, 1] None (rc_is_eagle c)) \<noteq> [] \<longrightarrow>
            (\<exists>vs. (rq_extra_key ?r, aligned_units c (mk_key [7, 8, 1] None (rc_is_eagle c)), vs) \<in> content c'))
        else content c' = content c)
     \<and> (\<forall>y\<in>live c - {rc_root c}. held c' (live c') y = held c (live c) y - (if y = rc_root c then 1 else 0))"
    by (rule cache_finished_req_no_leak [where i = 1 and n = 3])
      (use c in \<open>simp_all add: sample_running_req_def sample_req_def sample_pool_def cache_commit_len_def\<close>)
  then show ?thesis using c(1) unfolding c(4) pg by blast
qed

section \<open>An unfinished request\<close>

lemma unfinished_row:
  assumes "row' = take prot row @ drop prot idx @ drop (length idx) row" "prot \<le> length idx" "length idx \<le> n" "n \<le> length row"
    "take prot row = take prot idx"
  shows "take n row' = idx @ drop (length idx) (take n row)"
proof -
  have "row' = idx @ drop (length idx) row" using assms(1,5) by (metis append.assoc append_take_drop_id)
  then show ?thesis using assms(3,4) by (simp add: drop_take)
qed

lemma cache_unfinished_req_spec:
  assumes "rc_enabled c" "rc_slots c (content c) U" "rq_req_pool_idx r = Some i" "i < length (rp_req_to_token pool)"
    "rq_last_node r = Some x" "x \<in> live c" "x \<noteq> rc_root c \<Longrightarrow> 1 \<le> held c (live c) x"
    "length (rq_fill_ids r) \<le> length (rp_req_to_token pool ! i)"
    "key = mk_key (rq_fill_ids r) (rq_extra_key r) (rc_is_eagle c)" "rc_key_fits sha c key"
    "req_kv c U (rq_extra_key r) (aligned_units c key) (take (length (rq_fill_ids r)) (rp_req_to_token pool ! i)) (rq_cache_protected_len r) gs"
  shows "\<exists>r' pool' c' U' gs' y kv'. cache_unfinished_req sha now now' chunked r pool c = Inr (r', pool', c')
     \<and> rc_enabled c' \<and> U' \<subseteq> U \<and> rc_slots c' (content c') U' \<and> content c \<subseteq> content c'
     \<and> kv' = take (length (rq_fill_ids r)) (rp_req_to_token pool' ! i) \<and> rq_prefix_indices r' = kv'
     \<and> rq_cache_protected_len r' = length (aligned_units c key)
     \<and> req_kv c' U' (rq_extra_key r) (aligned_units c key) kv' (rq_cache_protected_len r') gs'
     \<and> set (page_slots (rc_page_size c) gs') \<subseteq> set (page_slots (rc_page_size c) gs)
     \<and> others c' U' - set (page_slots (rc_page_size c) gs') = others c U - set (page_slots (rc_page_size c) gs)
     \<and> rq_last_node r' = Some y \<and> y \<in> live c' \<and> (y \<noteq> rc_root c' \<longrightarrow> 1 \<le> held c' (live c') y)
     \<and> (\<forall>j. j \<noteq> i \<longrightarrow> rp_req_to_token pool' ! j = rp_req_to_token pool ! j)
     \<and> r' = r\<lparr>rq_cache_protected_len := length (aligned_units c key), rq_prefix_indices := kv', rq_last_node := Some y\<rparr>
     \<and> (\<exists>row. pool' = pool\<lparr>rp_req_to_token := (rp_req_to_token pool)[i := row]\<rparr> \<and> length row = length (rp_req_to_token pool ! i))
     \<and> rc_same c c' \<and> keeps_nodes c c' \<and> set gs' \<subseteq> set gs
     \<and> (aligned_units c key \<noteq> [] \<longrightarrow> y \<noteq> rc_root c' \<and> extra c' y = rq_extra_key r \<and> node_path c' y (aligned_units c key) (take (length (aligned_units c key)) kv'))
     \<and> (\<forall>z\<in>live c - {rc_root c}. held c' (live c') z = held c (live c) z - (if z = x then 1 else 0) + (if z = y then 1 else 0))"
proof -
  note en = assms(1) and s = assms(2)
  let ?n = "length (rq_fill_ids r)" and ?row = "rp_req_to_token pool ! i"
  let ?p = "rc_page_size c" and ?us = "aligned_units c key" and ?kv = "take ?n ?row" and ?ek = "rq_extra_key r" and ?prot = "rq_cache_protected_len r"
  have p: "0 < ?p" by (rule rc_enabledD(4) [OF en])
  note K = assms(11) [unfolded req_kv_def]
  have Kl: "?prot \<le> length ?us" "length ?us \<le> length ?kv" using K by simp_all
  obtain k where k: "page_aligned key ?p = Inr k" "extra_key k = ?ek" "aligned_units c k = ?us" "key_len k = length ?us" "rc_key_fits sha c k" "key_ok c k"
    using request_key [OF en assms(9), of sha] assms(10) by blast
  have dis: "\<not> rc_disable c" using en by (simp add: rc_enabled_def)
  obtain m c1 c2 ws gs1 gs2 gs3 where i: "insert_key sha now k (Some (take (length ?us) ?kv)) (Some (req_priority r)) chunked c = Inr (m, c1)"
     "free_slots (py_slice ?prot m ?kv) c1 = Inr c2" "rc_enabled c2" "rc_same c c2" "content c \<subseteq> content c2"
     "gs = gs1 @ gs2 @ gs3" "rc_slots c2 (content c2) (U - set (page_slots ?p gs1))"
     "cache_slots ?p (content c2) = cache_slots ?p (content c) \<union> set (page_slots ?p gs2)"
     "drop (length ?us) ?kv = take (length ?kv - length ?us) (page_slots ?p gs3)" "fills ?p (length ?kv - length ?us) gs3"
     "length ws = m" "m \<le> length ?us" "?us \<noteq> [] \<longrightarrow> (?ek, ?us, ws @ drop m (take (length ?us) ?kv)) \<in> content c2"
     "live c \<subseteq> live c2" "\<forall>y\<in>live c. held c2 (live c2) y = held c (live c) y" "keeps_nodes c c2"
    using insert_request [OF en s k(5,2,3) assms(11), of now "Some (req_priority r)" chunked] by blast
  note u2 = rc_same_units [OF i(4)]
  have sm: "rc_page_size c2 = ?p" "rc_root c2 = rc_root c" using i(4) by (simp_all add: rc_same_def)
  obtain idx y c3 where mt: "match_prefix now' k c2 = Inr (idx, y, c3)" "rc_enabled c3" "content c3 = content c2"
     "longest_match (content c2) ?ek ?us (length idx)" "idx \<noteq> [] \<longrightarrow> (?ek, take (length idx) ?us, idx) \<in> content c2"
     "y \<in> live c3" "rc_same c2 c3" "rc_allocator c3 = rc_allocator c2" "live c2 \<subseteq> live c3"
     "\<forall>z\<in>live c2. held c3 (live c3) z = held c2 (live c2) z \<and> (\<forall>us vs. node_path c3 z us vs = node_path c2 z us vs) \<and> extra c3 z = extra c2 z"
     "node_path c3 y (take (length idx) ?us) idx" "idx \<noteq> [] \<longrightarrow> y \<noteq> rc_root c3 \<and> extra c3 y = ?ek"
    using match_prefix_ok [OF i(3), of k now'] k(6) unfolding u2 k(2,3) by blast
  have li: "length idx = length ?us"
  proof (cases "?us = []")
    case False
    then have "length ?us \<le> length idx" using i(13) mt(4) unfolding longest_match_def by (metis le_refl take_all_iff)
    then show ?thesis using mt(4) by (simp add: longest_match_def)
  qed (use mt(4) in \<open>simp add: longest_match_def\<close>)
  have hit: "(?ek, ?us, idx) \<in> content c2" if "?us \<noteq> []" using mt(5) li that by auto
  have pre: "take ?prot ?row = take ?prot idx"
  proof (cases "?prot = 0")
    case False
    then have a: "(?ek, take ?prot ?us, take ?prot ?kv) \<in> content c2" using K i(5) by auto
    have "?us \<noteq> []" using False Kl(1) by auto
    then have "(?ek, take ?prot ?us, take ?prot idx) \<in> content c2"
      using rc_enabledD(3) [OF i(3) hit, of ?prot] False Kl(1) K sm by auto
    from rc_enabledD(1) [OF i(3) a this] show ?thesis using Kl by (simp add: min_def split: if_splits)
  qed simp
  have lr: "length idx \<le> ?n" "?n \<le> length ?row" using Kl(2) li assms(8) by simp_all
  define row' where "row' = take ?prot ?row @ drop ?prot idx @ drop (length idx) ?row"
  define pool' where "pool' = pool\<lparr>rp_req_to_token := (rp_req_to_token pool)[i := row']\<rparr>"
  have wr: "pool_write i ?prot (length idx) (drop ?prot idx) pool = Inr pool'"
    using assms(4) Kl li lr by (simp add: pool_write_def pool'_def row'_def Let_def min_def max_def)
  have kv': "take ?n (rp_req_to_token pool' ! i) = idx @ drop (length ?us) ?kv"
    using unfinished_row [OF row'_def _ lr pre] Kl(1) li assms(4) by (simp add: pool'_def)
  have x3: "x \<in> live c3" "x \<noteq> rc_root c3 \<Longrightarrow> 1 \<le> held c3 (live c3) x"
    using assms(6,7) i(14,15) mt(7,9,10) sm by (auto simp: rc_same_def)
  obtain d c4 where dc: "dec_lock_ref x c3 = Inr (d, c4)" "rc_enabled c4" "lock_only c3 c4"
     "\<forall>n\<in>live c3 - {rc_root c3}. held c4 (live c3) n = held c3 (live c3) n - (if n = x then 1 else 0)" using dec_lock_ref_ok [OF mt(2) x3] by blast
  have l4: "live c4 = live c3" "content c4 = content c3" using dc(3) by (simp_all add: lock_only_def)
  obtain d' c5 where ic: "inc_lock_ref y c4 = Inr (d', c5)" "rc_enabled c5" "lock_only c4 c5" "y \<noteq> rc_root c4 \<longrightarrow> 1 \<le> held c5 (live c4) y"
     "\<forall>n\<in>live c4 - {rc_root c4}. held c5 (live c4) n = held c4 (live c4) n + (if n = y then 1 else 0)"
    using inc_lock_ref_ok [OF dc(2) mt(6) [folded l4(1)]] by blast
  let ?r' = "r\<lparr>rq_cache_protected_len := length idx, rq_prefix_indices := idx @ drop (length ?us) ?kv, rq_last_node := Some y\<rparr>"
  have run: "cache_unfinished_req sha now now' chunked r pool c = Inr (?r', pool', c5)"
    unfolding cache_unfinished_req_def
    using dis assms(3-5) k(1,4) i(1,2) mt(1) li wr dc(1) ic(1) Kl(2)
    by (auto simp: pool_row_def assms(9) [symmetric] Let_def)
  have c5: "content c5 = content c2" "live c5 = live c3" "rc_same c c5"
    using ic(3) dc(3) mt(3,7) i(4) l4 by (auto simp: lock_only_def intro: rc_same_trans)
  let ?U = "U - set (page_slots ?p gs1)"
  have sl5: "rc_slots c5 (content c5) ?U"
    using lock_only_slots [OF ic(3)] lock_only_slots [OF dc(3)] i(7) mt(3,7,8) by (simp add: rc_slots_def rc_same_def)
  have sm5: "rc_page_size c5 = ?p" "rc_root c5 = rc_root c4" using c5(3) ic(3) by (simp_all add: rc_same_def lock_only_def)
  have dg: "distinct (gs1 @ gs2 @ gs3)" using K i(6) by simp
  note dj = pages_disjoint [OF p dg]
  have sub: "set (page_slots ?p gs1) \<subseteq> others c U" "set (page_slots ?p gs2) \<subseteq> others c U" "set (page_slots ?p gs3) \<subseteq> others c U"
    using K i(6) by (simp_all add: page_slots_append others_def)
  have o5: "others c5 ?U = others c U - set (page_slots ?p gs1) - set (page_slots ?p gs2)"
    unfolding others_def sm5 c5(1) i(8) by blast
  have pg: "set (page_slots ?p gs) = set (page_slots ?p gs1) \<union> set (page_slots ?p gs2) \<union> set (page_slots ?p gs3)"
    by (simp add: i(6) page_slots_append Un_assoc)
  have o3: "set (page_slots ?p gs3) \<subseteq> others c5 ?U" "others c5 ?U - set (page_slots ?p gs3) = others c U - set (page_slots ?p gs)"
    unfolding o5 pg using sub dj by blast+
  have e: "length (idx @ drop (length ?us) ?kv) = length ?kv" "drop (length ?us) (idx @ drop (length ?us) ?kv) = drop (length ?us) ?kv"
    "take (length ?us) (idx @ drop (length ?us) ?kv) = idx" using li Kl(2) by simp_all
  have hit': "0 < length ?us \<longrightarrow> (?ek, take (length ?us) ?us, idx) \<in> content c2" using hit by simp
  have "req_kv c5 ?U ?ek ?us (idx @ drop (length ?us) ?kv) (length idx) gs3"
    unfolding req_kv_def sm5 c5(1) li e
  proof (intro conjI)
    show "set (page_slots ?p gs3) \<subseteq> ?U - cache_slots ?p (content c2)" using o3(1) by (simp add: others_def sm5 c5(1))
  qed (use Kl(2) i(9,10) hit' dg aligned_units_dvd [OF p] in simp_all)
  moreover have "y \<in> live c5" "y \<noteq> rc_root c5 \<longrightarrow> 1 \<le> held c5 (live c5) y" using mt(6) c5(2) ic(4) l4 sm5 by auto
  moreover have "\<forall>j. j \<noteq> i \<longrightarrow> rp_req_to_token pool' ! j = rp_req_to_token pool ! j" by (simp add: pool'_def)
  moreover have "set (page_slots ?p gs3) \<subseteq> set (page_slots ?p gs)" unfolding pg by blast
  moreover have "content c \<subseteq> content c5" using i(5) c5(1) by simp
  moreover have "keeps_nodes c2 c3" using mt(9,10) by (simp add: keeps_nodes_def)
  then have kn: "keeps_nodes c c5" using i(16) dc(3) ic(3) unfolding lock_only_def by (blast intro: keeps_nodes_trans)
  moreover have "set gs3 \<subseteq> set gs" by (auto simp: i(6))
  moreover have "y \<noteq> rc_root c5 \<and> extra c5 y = ?ek \<and> node_path c5 y ?us idx" if "?us \<noteq> []"
  proof -
    have "keeps_nodes c3 c5" using dc(3) ic(3) unfolding lock_only_def by (blast intro: keeps_nodes_trans)
    then have "extra c5 y = extra c3 y" "node_path c5 y ?us idx = node_path c3 y ?us idx" using mt(6) by (simp_all add: keeps_nodes_def)
    moreover have "rc_root c5 = rc_root c3" using dc(3) ic(3) by (simp add: lock_only_def rc_same_def)
    moreover have "idx \<noteq> []" using li that by auto
    ultimately show ?thesis using mt(11,12) li by simp
  qed
  moreover have "held c5 (live c5) z = held c (live c) z - (if z = x then 1 else 0) + (if z = y then 1 else 0)" if z: "z \<in> live c - {rc_root c}" for z
  proof -
    have r3: "rc_root c3 = rc_root c" "rc_root c4 = rc_root c" using mt(7) dc(3) sm(2) by (simp_all add: rc_same_def lock_only_def)
    have z2: "z \<in> live c2" "z \<in> live c3 - {rc_root c3}" using z i(14) mt(9) r3(1) by auto
    have "held c4 (live c4) z = held c3 (live c3) z - (if z = x then 1 else 0)" using bspec [OF dc(4) z2(2)] unfolding l4(1) .
    moreover have "held c5 (live c5) z = held c4 (live c4) z + (if z = y then 1 else 0)" using bspec [OF ic(5), of z] z2(2) r3 l4(1) c5(2) by auto
    moreover have "held c3 (live c3) z = held c (live c) z" using bspec [OF mt(10) z2(1)] bspec [OF i(15), of z] z by simp
    ultimately show ?thesis by simp
  qed
  moreover have "\<exists>row. pool' = pool\<lparr>rp_req_to_token := (rp_req_to_token pool)[i := row]\<rparr> \<and> length row = length ?row"
    by (rule exI [of _ row']) (use lr Kl(1) li in \<open>simp add: pool'_def row'_def\<close>)
  ultimately show ?thesis using run ic(2) sl5 o3(2) kv' li c5(3)
    by - (rule exI [of _ ?r'], rule exI [of _ pool'], rule exI [of _ c5], rule exI [of _ ?U], rule exI [of _ gs3], rule exI [of _ y],
        rule exI [of _ "idx @ drop (length ?us) ?kv"], simp add: Diff_subset)
qed

text \<open>
  C8: After a chunk of prefill, \<open>cache_unfinished_req\<close> hands the aligned part of the request over to
  the cache without a leak and re-establishes the ownership invariant of the request: its whole
  aligned prefix is the path of its new last node, which it holds a lock on (a node below the root
  whenever that prefix is not empty), the lock on its old last node is released and no other lock
  count changes, its row and its prefix indices point at the cached slots, it keeps exactly the
  pages of its unaligned rest, and the slots and rows of other requests are untouched.
\<close>

theorem cache_unfinished_req_keeps_ownership:
  assumes "rc_enabled c" "rc_slots c (content c) U" "rq_req_pool_idx r = Some i" "i < length (rp_req_to_token pool)"
    "rq_last_node r = Some x" "x \<in> live c" "x \<noteq> rc_root c \<Longrightarrow> 1 \<le> held c (live c) x"
    "length (rq_fill_ids r) \<le> length (rp_req_to_token pool ! i)"
    "key = mk_key (rq_fill_ids r) (rq_extra_key r) (rc_is_eagle c)" "rc_key_fits sha c key"
    "req_kv c U (rq_extra_key r) (aligned_units c key) (take (length (rq_fill_ids r)) (rp_req_to_token pool ! i)) (rq_cache_protected_len r) gs"
  shows "\<exists>r' pool' c' U' gs' y kv'. cache_unfinished_req sha now now' chunked r pool c = Inr (r', pool', c')
     \<and> rc_enabled c' \<and> U' \<subseteq> U \<and> rc_slots c' (content c') U' \<and> content c \<subseteq> content c'
     \<and> kv' = take (length (rq_fill_ids r)) (rp_req_to_token pool' ! i) \<and> rq_prefix_indices r' = kv'
     \<and> rq_cache_protected_len r' = length (aligned_units c key)
     \<and> req_kv c' U' (rq_extra_key r) (aligned_units c key) kv' (rq_cache_protected_len r') gs'
     \<and> set (page_slots (rc_page_size c) gs') \<subseteq> set (page_slots (rc_page_size c) gs)
     \<and> others c' U' - set (page_slots (rc_page_size c) gs') = others c U - set (page_slots (rc_page_size c) gs)
     \<and> rq_last_node r' = Some y \<and> y \<in> live c' \<and> (y \<noteq> rc_root c' \<longrightarrow> 1 \<le> held c' (live c') y)
     \<and> (aligned_units c key \<noteq> [] \<longrightarrow> y \<noteq> rc_root c' \<and> 1 \<le> held c' (live c') y \<and> extra c' y = rq_extra_key r
          \<and> node_path c' y (aligned_units c key) (take (length (aligned_units c key)) kv'))
     \<and> (\<forall>z\<in>live c - {rc_root c}. held c' (live c') z = held c (live c) z - (if z = x then 1 else 0) + (if z = y then 1 else 0))
     \<and> keeps_nodes c c'
     \<and> r' = r\<lparr>rq_cache_protected_len := length (aligned_units c key), rq_prefix_indices := kv', rq_last_node := Some y\<rparr>
     \<and> (\<exists>row. pool' = pool\<lparr>rp_req_to_token := (rp_req_to_token pool)[i := row]\<rparr> \<and> length row = length (rp_req_to_token pool ! i))
     \<and> (\<forall>j. j \<noteq> i \<longrightarrow> rp_req_to_token pool' ! j = rp_req_to_token pool ! j)"
proof -
  obtain r' pool' c' U' gs' y kv' where sp: "cache_unfinished_req sha now now' chunked r pool c = Inr (r', pool', c')"
     "rc_enabled c'" "U' \<subseteq> U" "rc_slots c' (content c') U'" "content c \<subseteq> content c'"
     "kv' = take (length (rq_fill_ids r)) (rp_req_to_token pool' ! i)" "rq_prefix_indices r' = kv'"
     "rq_cache_protected_len r' = length (aligned_units c key)"
     "req_kv c' U' (rq_extra_key r) (aligned_units c key) kv' (rq_cache_protected_len r') gs'"
     "set (page_slots (rc_page_size c) gs') \<subseteq> set (page_slots (rc_page_size c) gs)"
     "others c' U' - set (page_slots (rc_page_size c) gs') = others c U - set (page_slots (rc_page_size c) gs)"
     "rq_last_node r' = Some y" "y \<in> live c'" "y \<noteq> rc_root c' \<longrightarrow> 1 \<le> held c' (live c') y"
     "\<forall>j. j \<noteq> i \<longrightarrow> rp_req_to_token pool' ! j = rp_req_to_token pool ! j"
     "r' = r\<lparr>rq_cache_protected_len := length (aligned_units c key), rq_prefix_indices := kv', rq_last_node := Some y\<rparr>"
     "\<exists>row. pool' = pool\<lparr>rp_req_to_token := (rp_req_to_token pool)[i := row]\<rparr> \<and> length row = length (rp_req_to_token pool ! i)"
     "keeps_nodes c c'"
     "aligned_units c key \<noteq> [] \<longrightarrow> y \<noteq> rc_root c' \<and> extra c' y = rq_extra_key r \<and> node_path c' y (aligned_units c key) (take (length (aligned_units c key)) kv')"
     "\<forall>z\<in>live c - {rc_root c}. held c' (live c') z = held c (live c) z - (if z = x then 1 else 0) + (if z = y then 1 else 0)"
    using cache_unfinished_req_spec [OF assms, of now now' chunked] by blast
  have "aligned_units c key \<noteq> [] \<longrightarrow> y \<noteq> rc_root c' \<and> 1 \<le> held c' (live c') y \<and> extra c' y = rq_extra_key r
          \<and> node_path c' y (aligned_units c key) (take (length (aligned_units c key)) kv')" using sp(14,19) by blast
  with sp(1-18,20) show ?thesis
    by - (rule exI [of _ r'], rule exI [of _ pool'], rule exI [of _ c'], rule exI [of _ U'], rule exI [of _ gs'], rule exI [of _ y],
        rule exI [of _ kv'], intro conjI, assumption+)
qed

theorem cache_unfinished_req_keeps_ownership_witness:
  "\<exists>c r' pool' c'. rc_enabled c
     \<and> cache_unfinished_req (\<lambda>xs. xs) 9 10 True (sample_running_req\<lparr>rq_last_node := Some (rc_root c)\<rparr>) sample_pool c = Inr (r', pool', c')
     \<and> rc_enabled c' \<and> rq_cache_protected_len r' = 2
     \<and> (\<exists>y. rq_last_node r' = Some y \<and> y \<in> live c' \<and> y \<noteq> rc_root c' \<and> 1 \<le> held c' (live c') y \<and> (\<exists>vs. node_path c' y [[7], [8]] vs))"
proof -
  obtain c where c: "rc_enabled c" "rc_slots c (content c) {2, 3, 4, 5, 6, 7, 8, 9}" "rc_root c \<in> live c" "rc_page_size c = 2"
     "aligned_units c (mk_key [7, 8, 1] None (rc_is_eagle c)) = [[7], [8]]" "rc_key_fits (\<lambda>xs. xs) c (mk_key [7, 8, 1] None (rc_is_eagle c))"
     "req_kv c {2, 3, 4, 5, 6, 7, 8, 9} None [[7], [8]] [6, 7, 8] 0 [3, 4]" using sample_running by blast
  let ?r = "sample_running_req\<lparr>rq_last_node := Some (rc_root c)\<rparr>"
  have f: "rq_req_pool_idx ?r = Some 1" "1 < length (rp_req_to_token sample_pool)" "rq_last_node ?r = Some (rc_root c)"
    "length (rq_fill_ids ?r) \<le> length (rp_req_to_token sample_pool ! 1)" "mk_key [7, 8, 1] None (rc_is_eagle c) = mk_key (rq_fill_ids ?r) (rq_extra_key ?r) (rc_is_eagle c)"
    "req_kv c {2, 3, 4, 5, 6, 7, 8, 9} (rq_extra_key ?r) (aligned_units c (mk_key [7, 8, 1] None (rc_is_eagle c)))
        (take (length (rq_fill_ids ?r)) (rp_req_to_token sample_pool ! 1)) (rq_cache_protected_len ?r) [3, 4]"
    using c(5,7) by (simp_all add: sample_running_req_def sample_req_def sample_pool_def)
  have ro: "rc_root c \<noteq> rc_root c \<Longrightarrow> 1 \<le> held c (live c) (rc_root c)" by simp
  obtain r' pool' c' y kv' where "cache_unfinished_req (\<lambda>xs. xs) 9 10 True ?r sample_pool c = Inr (r', pool', c')" "rc_enabled c'"
      "rq_cache_protected_len r' = length (aligned_units c (mk_key [7, 8, 1] None (rc_is_eagle c)))" "rq_last_node r' = Some y" "y \<in> live c'"
      "aligned_units c (mk_key [7, 8, 1] None (rc_is_eagle c)) \<noteq> [] \<longrightarrow> y \<noteq> rc_root c' \<and> 1 \<le> held c' (live c') y \<and> extra c' y = rq_extra_key ?r
          \<and> node_path c' y (aligned_units c (mk_key [7, 8, 1] None (rc_is_eagle c))) (take (length (aligned_units c (mk_key [7, 8, 1] None (rc_is_eagle c)))) kv')"
    using cache_unfinished_req_keeps_ownership [OF c(1,2) f(1-3) c(3) ro f(4,5) c(6) f(6), of 9 10 True]
    by blast
  then show ?thesis using c(1) unfolding c(5) 
    by - (rule exI [of _ c], rule exI [of _ r'], rule exI [of _ pool'], rule exI [of _ c'], simp, blast)
qed

end
