(* ===== verification/Kv_Release.thy ===== *)
theory Kv_Release
  imports Req_Cache
begin

text \<open>
  The helpers of \<open>mem_cache/common.py\<close> through which the scheduler gets and returns KV memory, with
  a radix cache and the standard allocators, and the chunk cache that replaces the radix cache
  when prefix caching is off.
\<close>

section \<open>Allocation with eviction\<close>

text \<open>\<open>order\<close> gives the order in which Python enumerates the set of evictable leaves.\<close>

definition evict_from_tree_cache :: "(nat list \<Rightarrow> nat list) \<Rightarrow> (nat set \<Rightarrow> nat list) \<Rightarrow> nat \<Rightarrow> rcache \<Rightarrow> rcache res" where
  "evict_from_tree_cache sha order num_tokens c =
     (if kv_available_size (rc_allocator c) < num_tokens
      then rbind (evict sha num_tokens (order (rc_evictable_leaves c)) c) (\<lambda>(_, c'). Inr c')
      else Inr c)"

definition alloc_token_slots ::
  "(nat list \<Rightarrow> nat list) \<Rightarrow> (nat set \<Rightarrow> nat list) \<Rightarrow> nat \<Rightarrow> bool \<Rightarrow> rcache
     \<Rightarrow> (int list \<times> (int list \<times> int list) option \<times> rcache) res" where
  "alloc_token_slots sha order num_tokens backup c =
     rbind (evict_from_tree_cache sha order num_tokens c) (\<lambda>c1.
     let state = (if backup then Some (backup_state (rc_allocator c1)) else None)
     in rbind (kv_alloc_op num_tokens (rc_allocator c1)) (\<lambda>(out, a).
        case out of
          None \<Rightarrow> Inl RuntimeError
        | Some out_cache_loc \<Rightarrow> Inr (out_cache_loc, state, c1\<lparr>rc_allocator := a\<rparr>)))"

definition alloc_paged_token_slots_extend ::
  "(nat list \<Rightarrow> nat list) \<Rightarrow> (nat set \<Rightarrow> nat list) \<Rightarrow> (int \<Rightarrow> int) \<Rightarrow> int \<Rightarrow> int list \<Rightarrow> nat list \<Rightarrow> nat list \<Rightarrow> int list \<Rightarrow> nat
     \<Rightarrow> bool \<Rightarrow> rcache \<Rightarrow> (int list \<times> (int list \<times> int list) option \<times> rcache) res" where
  "alloc_paged_token_slots_extend sha order oob fill uninit prefix_lens seq_lens last_loc extend_num_tokens backup c =
     (let num_tokens = extend_num_tokens + length seq_lens * al_page_size (rc_allocator c)
      in rbind (evict_from_tree_cache sha order num_tokens c) (\<lambda>c1.
         let state = (if backup then Some (backup_state (rc_allocator c1)) else None)
         in rbind (alloc_extend oob fill uninit prefix_lens seq_lens last_loc extend_num_tokens None (rc_allocator c1)) (\<lambda>(out, a).
            case out of
              None \<Rightarrow> Inl RuntimeError
            | Some out_cache_loc \<Rightarrow> Inr (out_cache_loc, state, c1\<lparr>rc_allocator := a\<rparr>))))"

definition alloc_paged_token_slots_decode ::
  "(nat list \<Rightarrow> nat list) \<Rightarrow> (nat set \<Rightarrow> nat list) \<Rightarrow> (int \<Rightarrow> int) \<Rightarrow> int \<Rightarrow> int list \<Rightarrow> nat list \<Rightarrow> int list \<Rightarrow> rcache
     \<Rightarrow> (int list \<times> rcache) res" where
  "alloc_paged_token_slots_decode sha order oob fill uninit seq_lens last_loc c =
     (let num_tokens = length seq_lens * al_page_size (rc_allocator c)
      in rbind (evict_from_tree_cache sha order num_tokens c) (\<lambda>c1.
         rbind (alloc_decode oob fill uninit seq_lens last_loc (rc_allocator c1)) (\<lambda>(out, a).
         case out of
           None \<Rightarrow> Inl RuntimeError
         | Some out_cache_loc \<Rightarrow> Inr (out_cache_loc, c1\<lparr>rc_allocator := a\<rparr>))))"

definition alloc_req_slots :: "req_pool \<Rightarrow> req list \<Rightarrow> (nat list \<times> req list \<times> req_pool) res" where
  "alloc_req_slots pool reqs =
     rbind (pool_alloc reqs pool) (\<lambda>(idx, reqs', pool').
     case idx of None \<Rightarrow> Inl RuntimeError | Some is \<Rightarrow> Inr (is, reqs', pool'))"

section \<open>Release\<close>

definition ceil_align :: "nat \<Rightarrow> nat \<Rightarrow> nat" where
  "ceil_align x y = (x + y - 1) div y * y"

text \<open>\<open>spec_none\<close>: no speculative decoding is configured. A radix cache manages no mamba state.\<close>

definition release_kv_cache ::
  "(nat list \<Rightarrow> nat list) \<Rightarrow> int \<Rightarrow> bool \<Rightarrow> bool \<Rightarrow> nat \<Rightarrow> bool \<Rightarrow> req \<Rightarrow> req_pool \<Rightarrow> rcache \<Rightarrow> (req \<times> req_pool \<times> rcache) res" where
  "release_kv_cache sha now strip spec_none page_size is_insert r pool c =
     (if rq_req_pool_idx r = None then Inl AssertionError
      else
        rbind (cache_finished_req sha now strip (is_insert \<and> \<not> rq_skip_radix_cache_insert r) pool r c) (\<lambda>(r1, c1).
        case rq_req_pool_idx r1 of
          None \<Rightarrow> Inr (r1, pool, c1)
        | Some i \<Rightarrow>
            rbind (pop_overallocated_kv_cache strip r1) (\<lambda>((start_p, end_p), r2).
            rbind (guard_res (spec_none \<and> \<not> strip \<longrightarrow> start_p = end_p) AssertionError) (\<lambda>_.
            let start_p' = (if 1 < page_size then ceil_align start_p page_size else start_p)
            in rbind (if start_p' < end_p
                      then rbind (pool_row i pool) (\<lambda>row. free_slots (py_slice start_p' end_p row) c1)
                      else Inr c1) (\<lambda>c2.
               rbind (pool_free r2 pool) (\<lambda>(r3, pool').
               Inr (r3, pool', c2)))))))"

section \<open>The chunk cache\<close>

record chunk_cache =
  cc_allocator :: kv_alloc
  cc_page_size :: nat

definition chunk_match_prefix :: "chunk_cache \<Rightarrow> radix_key \<Rightarrow> int list \<times> nat option" where
  "chunk_match_prefix cc key = ([], None)"

definition chunk_insert :: "radix_key \<Rightarrow> int list \<Rightarrow> chunk_cache \<Rightarrow> nat \<times> chunk_cache" where
  "chunk_insert key v cc = (0, cc)"

definition chunk_cache_finished_req :: "bool \<Rightarrow> req_pool \<Rightarrow> req \<Rightarrow> chunk_cache \<Rightarrow> (req \<times> chunk_cache) res" where
  "chunk_cache_finished_req strip pool r cc =
     rbind (pop_committed_kv_cache strip r) (\<lambda>(kv_committed_len, r1).
     rbind (of_opt TypeError (rq_req_pool_idx r1)) (\<lambda>i.
     rbind (pool_row i pool) (\<lambda>row.
     rbind (kv_free (take kv_committed_len row) (cc_allocator cc)) (\<lambda>a.
     Inr (r1, cc\<lparr>cc_allocator := a\<rparr>)))))"

definition chunk_cache_unfinished_req :: "req_pool \<Rightarrow> req \<Rightarrow> req res" where
  "chunk_cache_unfinished_req pool r =
     rbind (of_opt TypeError (rq_req_pool_idx r)) (\<lambda>i.
     rbind (pool_row i pool) (\<lambda>row.
     Inr (r\<lparr>rq_prefix_indices := take (length (rq_fill_ids r)) row\<rparr>)))"

definition chunk_evict :: "nat \<Rightarrow> chunk_cache \<Rightarrow> nat \<times> chunk_cache" where
  "chunk_evict num_tokens cc = (0, cc)"

definition chunk_inc_lock_ref :: "nat option \<Rightarrow> chunk_cache \<Rightarrow> int \<times> chunk_cache" where
  "chunk_inc_lock_ref node cc = (0, cc)"

definition chunk_dec_lock_ref :: "nat option \<Rightarrow> chunk_cache \<Rightarrow> int \<times> chunk_cache" where
  "chunk_dec_lock_ref node cc = (0, cc)"

section \<open>Eviction makes room\<close>

definition enumerates :: "(nat set \<Rightarrow> nat list) \<Rightarrow> bool" where
  "enumerates order \<longleftrightarrow> (\<forall>S. finite S \<longrightarrow> distinct (order S) \<and> set (order S) = S)"

lemma enumerates_sorted: "enumerates sorted_list_of_set"
  by (simp add: enumerates_def)

lemma kv_alloc_page_size: "kv_alloc_op n a = Inr (r, a') \<Longrightarrow> al_page_size a' = al_page_size a"
  by (metis Inr_inject kv_alloc_op_def paged_alloc_page_size snd_conv token_alloc_page_size)

lemma evict_from_tree_cache_ok:
  assumes en: "rc_enabled c" and s: "rc_slots c (content c) U" and o: "enumerates order"
  shows "\<exists>c' U'. evict_from_tree_cache sha order num c = Inr c' \<and> rc_enabled c' \<and> rc_same c c' \<and> content c' \<subseteq> content c \<and> U' \<subseteq> U
     \<and> rc_slots c' (content c') U' \<and> others c' U' = others c U
     \<and> min num (kv_available_size (rc_allocator c) + nat (rc_evictable_size c)) \<le> kv_available_size (rc_allocator c')
     \<and> kv_available_size (rc_allocator c') \<le> kv_available_size (rc_allocator c) + nat (rc_evictable_size c)
     \<and> (num \<le> kv_available_size (rc_allocator c) \<longrightarrow> c' = c)"
proof -
  obtain L pre vals where w: "rc_wf c L pre vals" "rc_tree c L pre vals" using en by (metis rc_enabled_def rc_inv_wfE)
  have fin: "finite (rc_evictable_leaves c)" using w(1) rc_treeD(2) [OF w(2)] by (simp add: rc_wf_def rc_acct_def free_leaves_def)
  have nn: "0 \<le> rc_evictable_size d" if d: "rc_enabled d" for d
  proof -
    obtain L pre vals where "rc_wf d L pre vals" using d by (metis rc_enabled_def rc_inv_wfE)
    then have "rc_evictable_size d = size_if d L (\<lambda>l. l = 0)" by (simp add: rc_wf_def rc_acct_def)
    then show ?thesis unfolding size_if_def by (simp add: sum_nonneg)
  qed
  show ?thesis
  proof (cases "kv_available_size (rc_allocator c) < num")
    case False
    then show ?thesis using en s by (intro exI [of _ c] exI [of _ U]) (simp add: evict_from_tree_cache_def)
  next
    case True
    let ?F = "\<lambda>c'. cache_slots (rc_page_size c) (content c) - cache_slots (rc_page_size c) (content c')"
    obtain k c' where e: "evict sha num (order (rc_evictable_leaves c)) c = Inr (k, c')" "rc_enabled c'" "rc_same c c'" "content c' \<subseteq> content c"
       "rc_slots c' (content c') (U - ?F c')" "kv_available_size (rc_allocator c') = kv_available_size (rc_allocator c) + k"
       "rc_evictable_size c' = rc_evictable_size c - int k" "num \<le> k \<or> rc_evictable_size c' = 0"
      using evict_ok [OF en s, of "order (rc_evictable_leaves c)" sha num] o fin unfolding enumerates_def by blast
    have "cache_slots (rc_page_size c) (content c') \<subseteq> cache_slots (rc_page_size c) (content c)"
      using e(4) by (auto simp: cache_slots_def)
    then have "others c' (U - ?F c') = others c U" using e(3) by (auto simp: others_def rc_same_def)
    moreover have "int k \<le> rc_evictable_size c" using nn [OF e(2)] e(7) by simp
    ultimately show ?thesis using True e
      by (intro exI [of _ c'] exI [of _ "U - ?F c'"]) (auto simp: evict_from_tree_cache_def)
  qed
qed

text \<open>
  C17: A token request fails only when memory is really exhausted: \<open>alloc_token_slots\<close> returns fresh
  slots exactly when the free and the evictable tokens together suffice, evicting as needed, and
  raises otherwise; what it returns belongs to nobody else, and the slots of running requests
  are untouched.
\<close>

theorem alloc_token_slots_iff_room:
  assumes "rc_enabled c" "rc_slots c (content c) U" "enumerates order" "rc_page_size c dvd num"
  shows "if num \<le> kv_available_size (rc_allocator c) + nat (rc_evictable_size c)
     then \<exists>xs st c' U'. alloc_token_slots sha order num backup c = Inr (xs, st, c') \<and> rc_enabled c' \<and> content c' \<subseteq> content c
        \<and> length xs = num \<and> distinct xs \<and> 0 \<notin> set xs \<and> rc_slots c' (content c') U'
        \<and> set xs \<inter> others c U = {} \<and> others c' U' = others c U \<union> set xs
     else alloc_token_slots sha order num backup c = Inl RuntimeError"
proof -
  obtain c1 U1 where e: "evict_from_tree_cache sha order num c = Inr c1" "rc_enabled c1" "rc_same c c1" "content c1 \<subseteq> content c"
     "rc_slots c1 (content c1) U1" "others c1 U1 = others c U"
     "min num (kv_available_size (rc_allocator c) + nat (rc_evictable_size c)) \<le> kv_available_size (rc_allocator c1)"
     "kv_available_size (rc_allocator c1) \<le> kv_available_size (rc_allocator c) + nat (rc_evictable_size c)"
    using evict_from_tree_cache_ok [OF assms(1-3), of sha num] by blast
  have k: "kv_inv (rc_allocator c1) U1" "al_page_size (rc_allocator c1) dvd num" "pages_ok (rc_page_size c1) (content c1)"
      "cache_slots (rc_page_size c1) (content c1) \<subseteq> U1" "al_page_size (rc_allocator c1) = rc_page_size c1"
    using e(3,5) assms(4) by (simp_all add: rc_slots_def rc_same_def)
  show ?thesis
  proof (cases "num \<le> kv_available_size (rc_allocator c) + nat (rc_evictable_size c)")
    case True
    then obtain xs a where x: "kv_alloc_op num (rc_allocator c1) = Inr (Some xs, a)"
      using kv.alloc_succeeds [OF k(1,2)] e(7) by auto
    note f = kv.alloc_Some [OF k(1,2) x] kv.alloc_fresh [OF k(1,2) x]
    let ?c = "c1\<lparr>rc_allocator := a\<rparr>"
    note au = alloc_upd [OF e(2), where a = a]
    have "al_page_size a = al_page_size (rc_allocator c1)" by (rule kv_alloc_page_size [OF x])
    then have "rc_slots ?c (content ?c) (U1 \<union> set xs)" using f k au(2) by (auto simp: rc_slots_def)
    moreover have "others ?c (U1 \<union> set xs) = others c1 U1 \<union> set xs"
      using f k(4) unfolding others_def au(2) by auto
    moreover have "set xs \<inter> others c U = {}" using f e(6) by (auto simp: others_def)
    ultimately have "\<exists>st. alloc_token_slots sha order num backup c = Inr (xs, st, ?c) \<and> rc_enabled ?c \<and> content ?c \<subseteq> content c
        \<and> length xs = num \<and> distinct xs \<and> 0 \<notin> set xs \<and> rc_slots ?c (content ?c) (U1 \<union> set xs)
        \<and> set xs \<inter> others c U = {} \<and> others ?c (U1 \<union> set xs) = others c U \<union> set xs"
      using e(1,4,6) x au(1,2) f by (simp add: alloc_token_slots_def Let_def)
    with True show ?thesis by auto
  next
    case False
    obtain r a where x: "kv_alloc_op num (rc_allocator c1) = Inr (r, a)" using kv.alloc_ok [OF k(1,2)] by blast
    have "r = None" using kv.alloc_avail [OF k(1,2), of _ a] x False e(8) by (cases r) auto
    with False e(1) x show ?thesis by (simp add: alloc_token_slots_def Let_def)
  qed
qed

theorem alloc_token_slots_iff_room_witness:
  "\<exists>c xs st c'. sample_cache = Inr c \<and> alloc_token_slots (\<lambda>xs. xs) sorted_list_of_set 6 False c = Inr (xs, st, c') \<and> length xs = 6 \<and> distinct xs
     \<and> alloc_token_slots (\<lambda>xs. xs) sorted_list_of_set 10 False c = Inl RuntimeError"
proof -
  obtain c where c: "sample_cache = Inr c" "rc_enabled c" "rc_page_size c = 2" "rc_slots c (content c) {2, 3, 4, 5}" "rc_evictable_size c = 4" "rc_allocator c = sample_alloc"
    using sample_cache_ok by blast
  have "kv_available_size (rc_allocator c) = 4"
    using c(6) by (simp add: kv_available_size_def base_available_size_def sample_alloc_def paged_clear_def alloc_base_init_def)
  with alloc_token_slots_iff_room [OF c(2,4) enumerates_sorted, of 6 "\<lambda>xs. xs" False]
    alloc_token_slots_iff_room [OF c(2,4) enumerates_sorted, of 10 "\<lambda>xs. xs" False] c
  show ?thesis by auto
qed

section \<open>Releasing a request\<close>

text \<open>
  C16: \<open>release_kv_cache\<close> returns everything a request holds: its cached part goes to the cache (or
  back), its own and its over-allocated pages back to the allocator, its lock is dropped and its
  row returns to the pool; nothing of other requests changes.
\<close>

theorem release_kv_cache_returns_everything:
  assumes "rc_enabled c" "rc_slots c (content c) U" "rq_req_pool_idx r = Some i" "i < length (rp_req_to_token pool)"
    "\<not> rq_kv_committed_freed r" "\<not> rq_kv_overallocated_freed r" "rq_last_node r = Some x" "x \<in> live c" "x \<noteq> rc_root c \<Longrightarrow> 1 \<le> held c (live c) x"
    "n = cache_commit_len strip r" "n \<le> length (rq_origin_input_ids r @ rq_output_ids r)" "n \<le> length (rp_req_to_token pool ! i)"
    "key = mk_key (take n (rq_origin_input_ids r @ rq_output_ids r)) (rq_extra_key r) (rc_is_eagle c)" "rc_key_fits sha c key"
    "req_kv c U (rq_extra_key r) (aligned_units c key) (take n (rp_req_to_token pool ! i)) (rq_cache_protected_len r) gs"
    "start = (if 1 < rc_page_size c then ceil_align n (rc_page_size c) else n)"
    "py_slice start (rq_kv_allocated_len r) (rp_req_to_token pool ! i) = take (rq_kv_allocated_len r - start) (page_slots (rc_page_size c) gx)"
    "fills (rc_page_size c) (rq_kv_allocated_len r - start) gx" "distinct gx" "set (page_slots (rc_page_size c) gx) \<subseteq> others c U - set (page_slots (rc_page_size c) gs)"
    "spec_none \<and> \<not> strip \<Longrightarrow> n = rq_kv_allocated_len r"
  shows "\<exists>r' pool' c' U'. release_kv_cache sha now strip spec_none (rc_page_size c) is_insert r pool c = Inr (r', pool', c')
     \<and> rc_enabled c' \<and> U' \<subseteq> U \<and> rc_slots c' (content c') U'
     \<and> others c' U' = others c U - set (page_slots (rc_page_size c) gs) - set (page_slots (rc_page_size c) gx)
     \<and> rq_req_pool_idx r' = None \<and> rp_free_slots pool' = rp_free_slots pool @ [i] \<and> rp_req_to_token pool' = rp_req_to_token pool"
proof -
  let ?p = "rc_page_size c" and ?e = "rq_kv_allocated_len r" and ?row = "rp_req_to_token pool ! i"
  obtain r1 c1 U1 where f: "cache_finished_req sha now strip (is_insert \<and> \<not> rq_skip_radix_cache_insert r) pool r c = Inr (r1, c1)"
      "rc_enabled c1" "r1 = r\<lparr>rq_kv_committed_freed := True\<rparr>" "U1 \<subseteq> U" "rc_slots c1 (content c1) U1"
      "others c1 U1 = others c U - set (page_slots ?p gs)" "rc_page_size c1 = ?p"
    using cache_finished_req_spec [OF assms(1-5,7-15), of now "is_insert \<and> \<not> rq_skip_radix_cache_insert r"] by blast
  have commit: "cache_commit_len strip r1 = n" using assms(10) f(3) by (simp add: cache_commit_len_def)
  have "\<exists>c2 U2. (if start < ?e then rbind (pool_row i pool) (\<lambda>row. free_slots (py_slice start ?e row) c1) else Inr c1) = Inr c2
     \<and> rc_enabled c2 \<and> U2 \<subseteq> U \<and> rc_slots c2 (content c2) U2 \<and> others c2 U2 = others c1 U1 - set (page_slots ?p gx)"
  proof (cases "start < ?e")
    case True
    have "set (page_slots ?p gx) \<subseteq> U1 - cache_slots (rc_page_size c1) (content c1)" using assms(20) f(6) by (simp add: others_def)
    then obtain a where a: "free_slots (take (?e - start) (page_slots ?p gx)) c1 = Inr (c1\<lparr>rc_allocator := a\<rparr>)"
        "rc_slots (c1\<lparr>rc_allocator := a\<rparr>) (content c1) (U1 - set (page_slots ?p gx))"
      using free_pages [OF f(2,5) assms(19)] assms(18) unfolding f(7) by blast
    note au = alloc_upd [OF f(2), where a = a]
    have "others (c1\<lparr>rc_allocator := a\<rparr>) (U1 - set (page_slots ?p gx)) = others c1 U1 - set (page_slots ?p gx)"
      unfolding others_def au(2) by auto
    then show ?thesis using True a au assms(4,17) f(4)
      by (intro exI [of _ "c1\<lparr>rc_allocator := a\<rparr>"] exI [of _ "U1 - set (page_slots ?p gx)"]) (auto simp: pool_row_def)
  next
    case False
    then have "gx = []" using assms(18) fills_pages(2) rc_enabledD(4) [OF assms(1)] by (metis diff_is_0_eq' linorder_not_less)
    then show ?thesis using False f by (intro exI [of _ c1] exI [of _ U1]) (simp add: page_slots_def)
  qed
  then obtain c2 U2 where g: "(if start < ?e then rbind (pool_row i pool) (\<lambda>row. free_slots (py_slice start ?e row) c1) else Inr c1) = Inr c2"
     "rc_enabled c2" "U2 \<subseteq> U" "rc_slots c2 (content c2) U2" "others c2 U2 = others c1 U1 - set (page_slots ?p gx)" by blast
  let ?r2 = "r1\<lparr>rq_kv_overallocated_freed := True\<rparr>"
  let ?r3 = "?r2\<lparr>rq_req_pool_idx := None\<rparr>" and ?pool = "pool\<lparr>rp_free_slots := rp_free_slots pool @ [i]\<rparr>"
  have po: "pop_overallocated_kv_cache strip r1 = Inr ((n, ?e), ?r2)"
    using assms(6) commit f(3) by (simp add: pop_overallocated_kv_cache_def)
  have pf: "pool_free ?r2 pool = Inr (?r3, ?pool)" using assms(3) f(3) by (simp add: pool_free_def)
  have i1: "rq_req_pool_idx r1 = Some i" using assms(3) f(3) by simp
  have st: "(if 1 < ?p then ceil_align n ?p else n) = start" using assms(16) by simp
  have gd: "spec_none \<and> \<not> strip \<longrightarrow> n = ?e" using assms(21) by blast
  have "release_kv_cache sha now strip spec_none ?p is_insert r pool c = Inr (?r3, ?pool, c2)"
    unfolding release_kv_cache_def using assms(3) f(1) i1 po gd st g(1) pf
    by (cases "start < ?e") (simp_all add: guard_res_def Let_def)
  then show ?thesis using g(2-5) f(6)
    by - (rule exI [of _ ?r3], rule exI [of _ ?pool], rule exI [of _ c2], rule exI [of _ U2], simp)
qed

theorem release_kv_cache_returns_everything_witness:
  "\<exists>c r' pool' c' U'. rc_enabled c
     \<and> release_kv_cache (\<lambda>xs. xs) 9 False True 2 True (sample_running_req\<lparr>rq_last_node := Some (rc_root c), rq_kv_allocated_len := 3\<rparr>) sample_pool c = Inr (r', pool', c')
     \<and> others c' U' = others c {2, 3, 4, 5, 6, 7, 8, 9} - {6, 7, 8, 9} \<and> rp_free_slots pool' = [1]"
proof -
  obtain c where c: "rc_enabled c" "rc_slots c (content c) {2, 3, 4, 5, 6, 7, 8, 9}" "rc_root c \<in> live c" "rc_page_size c = 2"
     "aligned_units c (mk_key [7, 8, 1] None (rc_is_eagle c)) = [[7], [8]]" "rc_key_fits (\<lambda>xs. xs) c (mk_key [7, 8, 1] None (rc_is_eagle c))"
     "req_kv c {2, 3, 4, 5, 6, 7, 8, 9} None [[7], [8]] [6, 7, 8] 0 [3, 4]" using sample_running by blast
  let ?r = "sample_running_req\<lparr>rq_last_node := Some (rc_root c), rq_kv_allocated_len := 3\<rparr>"
  have pg: "set (page_slots 2 [3, 4]) = {6, 7, 8, 9}" by (simp add: page_slots_def upt_rec insert_commute)
  have pg0: "page_slots 2 [] = []" by (simp add: page_slots_def)
  have fp: "rp_free_slots sample_pool = []" by (simp add: sample_pool_def)
  have "\<exists>r' pool' c' U'. release_kv_cache (\<lambda>xs. xs) 9 False True (rc_page_size c) True ?r sample_pool c = Inr (r', pool', c')
     \<and> rc_enabled c' \<and> U' \<subseteq> {2, 3, 4, 5, 6, 7, 8, 9} \<and> rc_slots c' (content c') U'
     \<and> others c' U' = others c {2, 3, 4, 5, 6, 7, 8, 9} - set (page_slots (rc_page_size c) [3, 4]) - set (page_slots (rc_page_size c) [])
     \<and> rq_req_pool_idx r' = None \<and> rp_free_slots pool' = rp_free_slots sample_pool @ [1] \<and> rp_req_to_token pool' = rp_req_to_token sample_pool"
    by (rule release_kv_cache_returns_everything [where i = 1 and n = 3 and start = 4 and x = "rc_root c" and key = "mk_key [7, 8, 1] None (rc_is_eagle c)"])
      (use c in \<open>simp_all add: sample_running_req_def sample_req_def sample_pool_def cache_commit_len_def ceil_align_def py_slice_def fills_def pg0\<close>)
  then obtain r' pool' c' U' where r: "release_kv_cache (\<lambda>xs. xs) 9 False True 2 True ?r sample_pool c = Inr (r', pool', c')"
     "others c' U' = others c {2, 3, 4, 5, 6, 7, 8, 9} - {6, 7, 8, 9}" "rp_free_slots pool' = [1]"
    unfolding c(4) pg pg0 fp append_Nil list.set Diff_empty by blast
  show ?thesis by (rule exI [of _ c], rule exI [of _ r'], rule exI [of _ pool'], rule exI [of _ c'], rule exI [of _ U']) (simp only: c(1) r simp_thms)
qed

end
