(* ===== verification/Schedule_Policy.thy ===== *)
theory Schedule_Policy
  imports Kv_Release "HOL-Library.Char_ord"
begin

text \<open>
  The first half of \<open>managers/schedule_policy.py\<close>: how the waiting queue is ordered. A request is
  its memory part (\<open>Req_Pool.req\<close>) with the fields only the scheduler reads. The prefix cache is a
  radix cache; without one every cache-aware policy is replaced by first-come-first-served.
  \<open>list.sort\<close> is stable, as is \<open>sort_key\<close>; clock readings are given by a function of their index.
\<close>

section \<open>Requests in the scheduler\<close>

text \<open>Why a request ended, with the HTTP status and the kind of error of an abort.\<close>

datatype finish_reason =
    FINISH_MATCHED_TOKEN int
  | FINISH_MATCHED_STR string
  | FINISHED_MATCHED_REGEX string
  | FINISH_LENGTH int
  | FINISH_ABORT string "nat option" "string option"

definition finish_abort :: "string option \<Rightarrow> nat option \<Rightarrow> string option \<Rightarrow> finish_reason" where
  "finish_abort message = FINISH_ABORT (case message of None \<Rightarrow> ''Aborted'' | Some m \<Rightarrow> if m = [] then ''Aborted'' else m)"

record sched_req =
  sq_mem :: req
  sq_rid :: string
  sq_max_new_tokens :: int
  sq_ignore_eos :: bool
  sq_extend_input_len :: int
  sq_logprob_start_len :: int
  sq_extend_logprob_start_len :: int
  sq_host_hit_length :: nat
  sq_last_host_node :: "nat option"
  sq_wait_queue_entry_time :: int
  sq_routing_key :: "string option"
  sq_finished_reason :: "finish_reason option"
  sq_to_finish :: "finish_reason option"
  sq_is_retracted :: bool
  sq_retraction_count :: nat
  sq_has_input_embeds :: bool
  sq_return_logprob :: bool
  sq_stream :: bool
  sq_has_grammar :: bool

abbreviation sq_finished :: "'a sched_req_scheme \<Rightarrow> bool" where
  "sq_finished r \<equiv> sq_finished_reason r \<noteq> None"

abbreviation sq_prefix :: "sched_req \<Rightarrow> int list" where
  "sq_prefix r \<equiv> rq_prefix_indices (sq_mem r)"

abbreviation sq_node :: "sched_req \<Rightarrow> nat option" where
  "sq_node r \<equiv> rq_last_node (sq_mem r)"

text \<open>\<open>match_prefix_for_req\<close> on a radix cache, whose results carry no host hit.\<close>

definition zero_match_result :: "rcache \<Rightarrow> int list \<times> nat \<Rightarrow> int list \<times> nat" where
  "zero_match_result c m = ([], rc_root c)"

definition match_prefix_for_req :: "bool \<Rightarrow> int \<Rightarrow> int list option \<Rightarrow> sched_req \<Rightarrow> rcache \<Rightarrow> (sched_req \<times> rcache) res" where
  "match_prefix_for_req force_miss now given r c =
     (let ids = (case given of None \<Rightarrow> rq_origin_input_ids (sq_mem r) @ rq_output_ids (sq_mem r) | Some ts \<Rightarrow> ts)
      in rbind (match_prefix now (mk_key ids (rq_extra_key (sq_mem r)) False) c) (\<lambda>(idx, node, c').
         case (if force_miss then zero_match_result c' (idx, node) else (idx, node)) of (idx', node') \<Rightarrow>
         Inr (r\<lparr>sq_mem := (sq_mem r)\<lparr>rq_prefix_indices := idx', rq_last_node := Some node'\<rparr>,
               sq_last_host_node := Some node', sq_host_hit_length := 0\<rparr>, c')))"

section \<open>Policies\<close>

datatype policy = LPM | DFS_WEIGHT | FCFS | LOF | RANDOM | ROUTING_KEY

definition cache_aware :: "policy \<Rightarrow> bool" where
  "cache_aware p \<longleftrightarrow> p = LPM \<or> p = DFS_WEIGHT"

definition validate_and_adjust_policy :: "string \<Rightarrow> bool \<Rightarrow> policy res" where
  "validate_and_adjust_policy name disable =
     (if name = ''lpm'' then Inr (if disable then FCFS else LPM)
      else if name = ''dfs-weight'' then Inr (if disable then FCFS else DFS_WEIGHT)
      else if name = ''fcfs'' then Inr FCFS
      else if name = ''lof'' then Inr LOF
      else if name = ''random'' then Inr RANDOM
      else if name = ''routing-key'' then Inr ROUTING_KEY
      else Inl ValueError)"

record sched_policy =
  po_policy :: policy
  po_tree_cache :: rcache
  po_enable_priority_scheduling :: bool
  po_priority_sign :: int
  po_waiting_tree :: rcache

definition simulated_cache :: "int \<Rightarrow> rcache res" where
  "simulated_cache now = radix_init False 1 False False False ''lru'' (token_init 0 False) 0 now"

definition sched_policy_init :: "int \<Rightarrow> string \<Rightarrow> rcache \<Rightarrow> bool \<Rightarrow> bool \<Rightarrow> sched_policy res" where
  "sched_policy_init now name c enable_priority low_first =
     rbind (validate_and_adjust_policy name (rc_disable c)) (\<lambda>p.
     rbind (simulated_cache now) (\<lambda>w.
     Inr \<lparr>po_policy = p, po_tree_cache = c, po_enable_priority_scheduling = enable_priority,
          po_priority_sign = (if low_first then 1 else -1), po_waiting_tree = w\<rparr>))"

definition determine_active_policy :: "sched_policy \<Rightarrow> sched_req list \<Rightarrow> policy" where
  "determine_active_policy po queue = (if po_policy po = LPM \<and> 128 < length queue then FCFS else po_policy po)"

section \<open>Prefix matches, with a look into the queue itself\<close>

text \<open>
  \<open>IN_BATCH_PREFIX_CACHING_CHECK_THRESHOLD\<close> and \<open>IN_BATCH_PREFIX_CACHING_DEPRIORITIZE_THRESHOLD\<close> are
  read from the environment. The result: the requests with their matches, the requests to put
  last, and both trees.
\<close>

fun compute_prefix_loop ::
  "(nat list \<Rightarrow> nat list) \<Rightarrow> bool \<Rightarrow> int \<Rightarrow> int \<Rightarrow> (nat \<Rightarrow> int) \<Rightarrow> nat \<Rightarrow> sched_req list \<Rightarrow> rcache \<Rightarrow> rcache
     \<Rightarrow> (sched_req list \<times> string set \<times> rcache \<times> rcache) res" where
  "compute_prefix_loop sha force_miss check deprio clk i [] c w = Inr ([], {}, c, w)"
| "compute_prefix_loop sha force_miss check deprio clk i (r # rs) c w =
     (let prefix_ids = rq_origin_input_ids (sq_mem r) @ rq_output_ids (sq_mem r);
          key = mk_key prefix_ids (rq_extra_key (sq_mem r)) False
      in rbind (match_prefix_for_req force_miss (clk (3 * i)) (Some prefix_ids) r c) (\<lambda>(r1, c1).
         rbind (if int (length (sq_prefix r1)) \<le> check
                then rbind (match_prefix (clk (3 * i + 1)) key w) (\<lambda>(idx, node, w1).
                     let idx' = (if force_miss then [] else idx)
                     in if deprio \<le> int (length idx') then Inr ({sq_rid r}, w1)
                        else rbind (insert_key sha (clk (3 * i + 2)) key (Some (replicate (length prefix_ids) 0)) (Some 0) False w1) (\<lambda>(_, w2).
                             Inr ({}, w2)))
                else Inr ({}, w)) (\<lambda>(d, w3).
         rbind (compute_prefix_loop sha force_miss check deprio clk (Suc i) rs c1 w3) (\<lambda>(rs', ds, c2, w4).
         Inr (r1 # rs', d \<union> ds, c2, w4)))))"

definition compute_prefix_matches ::
  "(nat list \<Rightarrow> nat list) \<Rightarrow> bool \<Rightarrow> int \<Rightarrow> int \<Rightarrow> int \<Rightarrow> (nat \<Rightarrow> int) \<Rightarrow> sched_req list \<Rightarrow> sched_policy
     \<Rightarrow> (sched_req list \<times> string set \<times> sched_policy) res" where
  "compute_prefix_matches sha force_miss check deprio now clk queue po =
     rbind (compute_prefix_loop sha force_miss check deprio clk 0 queue (po_tree_cache po) (reset now (po_waiting_tree po))) (\<lambda>(rs, ds, c, w).
     Inr (rs, ds, po\<lparr>po_tree_cache := c, po_waiting_tree := w\<rparr>))"

section \<open>The orders\<close>

text \<open>\<open>float("inf")\<close> for a request put last is the first component.\<close>

definition lpm_key :: "string set \<Rightarrow> sched_req \<Rightarrow> nat \<times> int" where
  "lpm_key ds r = (if sq_rid r \<notin> ds then (0, - int (length (sq_prefix r))) else (1, 0))"

definition sort_by_longest_prefix :: "sched_req list \<Rightarrow> string set \<Rightarrow> sched_req list" where
  "sort_by_longest_prefix queue ds = sort_key (lpm_key ds) queue"

definition priority_of :: "sched_req \<Rightarrow> int" where
  "priority_of r = (case rq_priority (sq_mem r) of None \<Rightarrow> 0 | Some p \<Rightarrow> p)"

definition sort_by_longest_output :: "sched_req list \<Rightarrow> bool \<Rightarrow> int \<Rightarrow> sched_req list res" where
  "sort_by_longest_output queue enable_priority sign =
     (if enable_priority
      then rbind (guard_res (list_all (\<lambda>r. rq_priority (sq_mem r) \<noteq> None) queue) TypeError) (\<lambda>_.
           Inr (sort_key (\<lambda>r. (priority_of r * sign, - sq_max_new_tokens r)) queue))
      else Inr (sort_key (\<lambda>r. - sq_max_new_tokens r) queue))"

definition sort_by_priority_and_fcfs :: "sched_req list \<Rightarrow> int \<Rightarrow> sched_req list res" where
  "sort_by_priority_and_fcfs queue sign =
     rbind (guard_res (list_all (\<lambda>r. rq_priority (sq_mem r) \<noteq> None) queue) TypeError) (\<lambda>_.
     Inr (sort_key (\<lambda>r. (priority_of r * sign, sq_wait_queue_entry_time r)) queue))"

definition truthy :: "string option \<Rightarrow> bool" where
  "truthy k = (case k of None \<Rightarrow> False | Some s \<Rightarrow> s \<noteq> [])"

definition routing_count :: "sched_req list \<Rightarrow> string option \<Rightarrow> nat" where
  "routing_count running k = length (filter (\<lambda>r. truthy (sq_routing_key r) \<and> sq_routing_key r = k) running)"

definition routing_sort_key :: "sched_req list \<Rightarrow> sched_req \<Rightarrow> nat \<times> int \<times> string" where
  "routing_sort_key running r =
     (let k = sq_routing_key r; key = (case k of None \<Rightarrow> [] | Some s \<Rightarrow> s)
      in if truthy k \<and> 0 < routing_count running k then (0, - int (routing_count running k), key) else (1, 0, key))"

definition sort_by_routing_key :: "sched_req list \<Rightarrow> sched_req list \<Rightarrow> sched_req list" where
  "sort_by_routing_key queue running =
     (if list_all (\<lambda>r. \<not> truthy (sq_routing_key r)) running then queue
      else sort_key (routing_sort_key running) queue)"

section \<open>Depth-first order\<close>

text \<open>
  The recursion over the tree takes fuel, one unit per level; the weights are a dictionary with
  default 0 and the requests of a node those whose last matched node it is.
\<close>

fun calc_weight :: "nat \<Rightarrow> rcache \<Rightarrow> nat \<Rightarrow> (nat \<Rightarrow> nat) \<Rightarrow> (nat \<Rightarrow> nat) res"
and calc_weight_children :: "nat \<Rightarrow> rcache \<Rightarrow> nat \<Rightarrow> nat list \<Rightarrow> (nat \<Rightarrow> nat) \<Rightarrow> (nat \<Rightarrow> nat) res" where
  "calc_weight 0 c n w = Inl OutOfFuel"
| "calc_weight (Suc fuel) c n w = calc_weight_children fuel c n (map snd (nd_children (nd c n))) w"
| "calc_weight_children fuel c n [] w = Inr w"
| "calc_weight_children fuel c n (m # ms) w =
     rbind (calc_weight fuel c m w) (\<lambda>w1. calc_weight_children fuel c n ms (w1(n := w1 n + w1 m)))"

fun get_dfs_priority :: "nat \<Rightarrow> rcache \<Rightarrow> (nat \<Rightarrow> nat) \<Rightarrow> (nat \<Rightarrow> 'r list) \<Rightarrow> nat \<Rightarrow> 'r list \<Rightarrow> 'r list res"
and get_dfs_priority_children :: "nat \<Rightarrow> rcache \<Rightarrow> (nat \<Rightarrow> nat) \<Rightarrow> (nat \<Rightarrow> 'r list) \<Rightarrow> nat list \<Rightarrow> 'r list \<Rightarrow> 'r list res" where
  "get_dfs_priority 0 c w reqs n q = Inl OutOfFuel"
| "get_dfs_priority (Suc fuel) c w reqs n q =
     rbind (get_dfs_priority_children fuel c w reqs (sort_key (\<lambda>m. - int (w m)) (map snd (nd_children (nd c n)))) q) (\<lambda>q1.
     Inr (q1 @ reqs n))"
| "get_dfs_priority_children fuel c w reqs [] q = Inr q"
| "get_dfs_priority_children fuel c w reqs (m # ms) q =
     rbind (get_dfs_priority fuel c w reqs m q) (\<lambda>q1. get_dfs_priority_children fuel c w reqs ms q1)"

definition reqs_at :: "sched_req list \<Rightarrow> nat \<Rightarrow> sched_req list" where
  "reqs_at queue n = filter (\<lambda>r. sq_node r = Some n) queue"

definition sort_by_dfs_weight :: "sched_req list \<Rightarrow> rcache \<Rightarrow> sched_req list res" where
  "sort_by_dfs_weight queue c =
     rbind (calc_weight (Suc (rc_counter c)) c (rc_root c) (\<lambda>n. length (reqs_at queue n))) (\<lambda>w.
     get_dfs_priority (Suc (rc_counter c)) c w (reqs_at queue) (rc_root c) [])"

section \<open>Ordering the queue\<close>

text \<open>\<open>shuffle\<close> stands for \<open>random.shuffle\<close>. The result carries whether prefixes were computed.\<close>

definition calc_priority ::
  "(nat list \<Rightarrow> nat list) \<Rightarrow> bool \<Rightarrow> int \<Rightarrow> int \<Rightarrow> int \<Rightarrow> (nat \<Rightarrow> int) \<Rightarrow> (sched_req list \<Rightarrow> sched_req list) \<Rightarrow> sched_req list option
     \<Rightarrow> sched_req list \<Rightarrow> sched_policy \<Rightarrow> (bool \<times> sched_req list \<times> sched_policy) res" where
  "calc_priority sha force_miss check deprio now clk shuffle running queue po =
     (if po_policy po = FCFS
      then if po_enable_priority_scheduling po
           then rbind (sort_by_priority_and_fcfs queue (po_priority_sign po)) (\<lambda>q. Inr (False, q, po))
           else Inr (False, queue, po)
      else
        let p = determine_active_policy po queue
        in if cache_aware p
           then rbind (compute_prefix_matches sha force_miss check deprio now clk queue po) (\<lambda>(q1, ds, po1).
                if p = LPM then Inr (True, sort_by_longest_prefix q1 ds, po1)
                else rbind (sort_by_dfs_weight q1 (po_tree_cache po1)) (\<lambda>q2. Inr (True, q2, po1)))
           else case p of
                  LOF \<Rightarrow> rbind (sort_by_longest_output queue (po_enable_priority_scheduling po) (po_priority_sign po)) (\<lambda>q. Inr (False, q, po))
                | RANDOM \<Rightarrow> Inr (False, shuffle queue, po)
                | ROUTING_KEY \<Rightarrow> (case running of None \<Rightarrow> Inr (False, queue, po) | Some rs \<Rightarrow> Inr (False, sort_by_routing_key queue rs, po))
                | _ \<Rightarrow> Inr (False, queue, po))"

end
