(* ===== verification/Schedule_Order.thy ===== *)
theory Schedule_Order
  imports Schedule_Policy
begin

text \<open>
  The orders of the waiting queue: every policy permutes it, the longest-prefix order is stable and
  puts deprioritized requests last, and the depth-first order keeps the requests of every subtree
  of the cache together, heavier subtrees first.
\<close>

section \<open>Subtrees\<close>

definition desc :: "rcache \<Rightarrow> nat set \<Rightarrow> nat \<Rightarrow> nat set" where
  "desc c L n = {m \<in> L. anc c n m}"

lemma desc_self: "n \<in> L \<Longrightarrow> n \<in> desc c L n"
  by (simp add: desc_def)

lemma desc_trans: "x \<in> desc c L n \<Longrightarrow> desc c L x \<subseteq> desc c L n"
  by (auto simp: desc_def intro: anc_trans)

lemma kid_desc: "m \<in> kids c L n \<Longrightarrow> desc c L m \<subseteq> desc c L n"
  by (rule desc_trans) (auto simp: desc_def kids_def intro: anc_parent)

lemma desc_unfold:
  assumes t: "rc_tree c L pre vals" and n: "n \<in> L"
  shows "desc c L n = insert n (\<Union>m\<in>kids c L n. desc c L m)"
proof (intro set_eqI iffI)
  fix x assume "x \<in> desc c L n"
  then have "anc c n x" "x \<in> L" by (auto simp: desc_def)
  then show "x \<in> insert n (\<Union>m\<in>kids c L n. desc c L m)"
  proof (induction rule: anc.induct)
    case (anc_parent x m n)
    have m: "m \<in> L" using pre_parent(2) [OF t anc_parent.prems anc_parent.hyps(1)] .
    from anc_parent.IH [OF m] show ?case
    proof
      assume "m = n"
      then have "x \<in> kids c L n" using anc_parent by (simp add: kids_def)
      then show ?thesis using desc_self anc_parent.prems by blast
    next
      assume "m \<in> (\<Union>k\<in>kids c L n. desc c L k)"
      then obtain k where "k \<in> kids c L n" "anc c k m" by (auto simp: desc_def)
      then show ?thesis using anc.anc_parent [OF anc_parent.hyps(1)] anc_parent.prems by (auto simp: desc_def)
    qed
  qed simp
next
  fix x assume "x \<in> insert n (\<Union>m\<in>kids c L n. desc c L m)"
  then show "x \<in> desc c L n" using kid_desc desc_self [OF n] by blast
qed

lemma desc_notin:
  assumes t: "rc_tree c L pre vals" and m: "m \<in> kids c L n"
  shows "n \<notin> desc c L m"
proof
  assume "n \<in> desc c L m"
  then have a: "anc c m n" "n \<in> L" by (simp_all add: desc_def)
  have "m \<in> L" "nd_parent (nd c m) = Some n" using m by (simp_all add: kids_def)
  then have "length (pre n) < length (pre m)" using pre_parent(3,4) [OF t] by simp
  moreover have "length (pre m) \<le> length (pre n)" using anc_props [OF t a] by blast
  ultimately show False by simp
qed

lemma desc_disjoint:
  assumes t: "rc_tree c L pre vals" and k: "m \<in> kids c L n" "k \<in> kids c L n" "m \<noteq> k"
  shows "desc c L m \<inter> desc c L k = {}"
proof -
  have mk: "nd_parent (nd c m) = Some n" "nd_parent (nd c k) = Some n" "m \<in> L" using k by (simp_all add: kids_def)
  have nL: "n \<in> L" by (rule pre_parent(2) [OF t mk(3,1)])
  have nn: "\<not> anc c m n" "\<not> anc c k n" using desc_notin [OF t k(1)] desc_notin [OF t k(2)] nL by (simp_all add: desc_def)
  have "x \<in> L \<Longrightarrow> anc c m x \<Longrightarrow> anc c k x \<Longrightarrow> False" for x
  proof (induction "length (pre x)" arbitrary: x rule: less_induct)
    case less
    show False
    proof (cases "x = m \<or> x = k")
      case True
      then show False using less.prems(2,3) mk nn k(3) by (metis anc_cases option.inject)
    next
      case False
      then obtain y where y: "nd_parent (nd c x) = Some y" "anc c m y" "anc c k y"
        using less.prems(2,3) by (metis anc_cases option.inject)
      note p = pre_parent [OF t less.prems(1) y(1)]
      show False using less.hyps [OF _ p(2) y(2,3)] p(3,4) by simp
    qed
  qed
  then show ?thesis by (auto simp: desc_def)
qed

lemma desc_root:
  assumes t: "rc_tree c L pre vals"
  shows "desc c L (rc_root c) = L"
proof -
  have "n \<in> L \<Longrightarrow> anc c (rc_root c) n" for n
  proof (induction "length (pre n)" arbitrary: n rule: less_induct)
    case less
    show ?case
    proof (cases "n = rc_root c")
      case False
      obtain m where m: "nd_parent (nd c n) = Some m" using has_parent [OF t less.prems False] by blast
      note p = pre_parent [OF t less.prems m]
      show ?thesis using anc_parent [OF m less.hyps [OF _ p(2)]] p(3,4) by simp
    qed simp
  qed
  then show ?thesis by (auto simp: desc_def)
qed

lemma desc_finite: "rc_tree c L pre vals \<Longrightarrow> finite (desc c L n)"
  using rc_treeD(2) by (auto simp: desc_def)

lemma desc_card:
  assumes t: "rc_tree c L pre vals" and n: "n \<in> L" and m: "m \<in> kids c L n"
  shows "card (desc c L m) < card (desc c L n)"
  by (rule psubset_card_mono) (use desc_finite [OF t] kid_desc [OF m] desc_notin [OF t m] desc_self [OF n, of c] in blast)+

lemma sum_desc:
  fixes f :: "nat \<Rightarrow> 'b :: comm_monoid_add"
  assumes t: "rc_tree c L pre vals" and n: "n \<in> L"
  shows "(\<Sum>x\<in>desc c L n. f x) = f n + (\<Sum>m\<in>kids c L n. \<Sum>x\<in>desc c L m. f x)"
proof -
  have fk: "finite (kids c L n)" using rc_treeD(2) [OF t] by (simp add: kids_def)
  have "(\<Sum>x\<in>(\<Union>m\<in>kids c L n. desc c L m). f x) = (\<Sum>m\<in>kids c L n. \<Sum>x\<in>desc c L m. f x)"
    by (rule sum.UNION_disjoint [OF fk]) (use desc_finite [OF t] desc_disjoint [OF t] in blast)+
  moreover have "n \<notin> (\<Union>m\<in>kids c L n. desc c L m)" using desc_notin [OF t] by blast
  ultimately show ?thesis unfolding desc_unfold [OF t n] using fk desc_finite [OF t] by simp
qed

section \<open>Weights\<close>

definition subtree_weight :: "rcache \<Rightarrow> nat set \<Rightarrow> (nat \<Rightarrow> nat) \<Rightarrow> nat \<Rightarrow> nat" where
  "subtree_weight c L w n = (\<Sum>x\<in>desc c L n. w x)"

lemma subtree_weight_cong: "(\<And>x. x \<in> desc c L n \<Longrightarrow> w x = w' x) \<Longrightarrow> subtree_weight c L w n = subtree_weight c L w' n"
  unfolding subtree_weight_def by (rule sum.cong) auto

lemma calc_weight_children_spec:
  assumes t: "rc_tree c L pre vals" and n: "n \<in> L"
    and IH: "\<And>m w. m \<in> set ms \<Longrightarrow> calc_weight fuel c m w = Inr (\<lambda>x. if x \<in> desc c L m then subtree_weight c L w x else w x)"
  shows "set ms \<subseteq> kids c L n \<Longrightarrow> distinct ms
     \<Longrightarrow> calc_weight_children fuel c n ms w =
       Inr (\<lambda>x. if x = n then w n + (\<Sum>m\<in>set ms. subtree_weight c L w m)
               else if \<exists>m\<in>set ms. x \<in> desc c L m then subtree_weight c L w x else w x)"
  using IH
proof (induction ms arbitrary: w)
  case Nil then show ?case by auto
next
  case (Cons m ms)
  define w1 where "w1 = (\<lambda>x. if x \<in> desc c L m then subtree_weight c L w x else w x)"
  define w2 where "w2 = w1(n := w1 n + w1 m)"
  have m: "m \<in> kids c L n" "m \<in> L" using Cons.prems(1) by (auto simp: kids_def)
  have w2_eq: "w2 y = w y" if "y \<in> desc c L k" "k \<in> set ms" for y k
  proof -
    have k: "k \<in> kids c L n" "k \<noteq> m" using that(2) Cons.prems(1,2) by auto
    have "y \<notin> desc c L m" using desc_disjoint [OF t m(1) k(1)] k(2) that(1) by blast
    moreover have "y \<noteq> n" using desc_notin [OF t k(1)] that(1) by blast
    ultimately show ?thesis by (simp add: w1_def w2_def)
  qed
  have sw: "subtree_weight c L w2 y = subtree_weight c L w y" if "y \<in> desc c L k" "k \<in> set ms" for y k
    by (rule subtree_weight_cong) (use w2_eq [OF _ that(2)] desc_trans [OF that(1)] in blast)
  have self: "k \<in> desc c L k" if "k \<in> set ms" for k using Cons.prems(1) that by (intro desc_self) (auto simp: kids_def)
  have n1: "w2 n = w n + subtree_weight c L w m" using desc_notin [OF t m(1)] desc_self [OF m(2), of c] by (simp add: w1_def w2_def)
  have "calc_weight_children fuel c n (m # ms) w = calc_weight_children fuel c n ms w2" using Cons.prems(3) by (simp add: w1_def w2_def)
  also have "\<dots> = Inr (\<lambda>x. if x = n then w2 n + (\<Sum>k\<in>set ms. subtree_weight c L w2 k)
               else if \<exists>k\<in>set ms. x \<in> desc c L k then subtree_weight c L w2 x else w2 x)"
    by (rule Cons.IH) (use Cons.prems in auto)
  also have "\<dots> = Inr (\<lambda>x. if x = n then w n + (\<Sum>k\<in>set (m # ms). subtree_weight c L w k)
               else if \<exists>k\<in>set (m # ms). x \<in> desc c L k then subtree_weight c L w x else w x)"
  proof (rule arg_cong [where f = Inr], rule ext)
    fix x
    have s: "(\<Sum>k\<in>set ms. subtree_weight c L w2 k) = (\<Sum>k\<in>set ms. subtree_weight c L w k)"
      by (rule sum.cong [OF refl]) (rule sw [OF self])
    show "(if x = n then w2 n + (\<Sum>k\<in>set ms. subtree_weight c L w2 k)
               else if \<exists>k\<in>set ms. x \<in> desc c L k then subtree_weight c L w2 x else w2 x)
        = (if x = n then w n + (\<Sum>k\<in>set (m # ms). subtree_weight c L w k)
               else if \<exists>k\<in>set (m # ms). x \<in> desc c L k then subtree_weight c L w x else w x)"
    proof (cases "x = n")
      case True then show ?thesis unfolding s n1 using Cons.prems(2) by simp
    next
      case False
      show ?thesis
      proof (cases "\<exists>k\<in>set ms. x \<in> desc c L k")
        case True then show ?thesis using False sw by auto
      next
        case no: False then show ?thesis using False by (simp add: w1_def w2_def)
      qed
    qed
  qed
  finally show ?case .
qed

lemma calc_weight_spec:
  assumes t: "rc_tree c L pre vals"
  shows "n \<in> L \<Longrightarrow> card (desc c L n) \<le> fuel
     \<Longrightarrow> calc_weight fuel c n w = Inr (\<lambda>x. if x \<in> desc c L n then subtree_weight c L w x else w x)"
proof (induction fuel arbitrary: n w)
  case 0
  then show ?case using desc_self [of n L c] desc_finite [OF t, of n] by auto
next
  case (Suc fuel)
  note ks = map_snd_children [OF t Suc.prems(1)]
  let ?K = "map snd (nd_children (nd c n))"
  have IH: "calc_weight fuel c m w = Inr (\<lambda>x. if x \<in> desc c L m then subtree_weight c L w x else w x)" if "m \<in> set ?K" for m w
  proof (rule Suc.IH)
    have m: "m \<in> kids c L n" using that ks(1) by simp
    then show "m \<in> L" by (simp add: kids_def)
    show "card (desc c L m) \<le> fuel" using desc_card [OF t Suc.prems(1) m] Suc.prems(2) by simp
  qed
  have c1: "calc_weight (Suc fuel) c n w = Inr (\<lambda>x. if x = n then w n + (\<Sum>m\<in>set ?K. subtree_weight c L w m)
               else if \<exists>m\<in>set ?K. x \<in> desc c L m then subtree_weight c L w x else w x)"
    using calc_weight_children_spec [OF t Suc.prems(1) IH, of ?K w] ks by simp
  have n: "w n + (\<Sum>m\<in>kids c L n. subtree_weight c L w m) = subtree_weight c L w n"
    unfolding subtree_weight_def sum_desc [OF t Suc.prems(1)] ..
  show ?case unfolding c1 ks(1) n
    by (rule arg_cong [where f = Inr], rule ext) (simp add: desc_unfold [OF t Suc.prems(1)])
qed

section \<open>The depth-first order\<close>

text \<open>The requests \<open>M x\<close> of a subtree stand together; those of one subtree stand before those of another.\<close>

definition together :: "('n \<Rightarrow> 'r multiset) \<Rightarrow> 'r list \<Rightarrow> 'n \<Rightarrow> bool" where
  "together M q x \<longleftrightarrow> (\<exists>a b d. q = a @ b @ d \<and> mset b = M x)"

definition precedes :: "('n \<Rightarrow> 'r multiset) \<Rightarrow> 'r list \<Rightarrow> 'n \<Rightarrow> 'n \<Rightarrow> bool" where
  "precedes M q x y \<longleftrightarrow> (\<exists>a b d e f. q = a @ b @ d @ e @ f \<and> mset b = M x \<and> mset e = M y)"

lemma together_append: "together M q x \<Longrightarrow> together M (q @ r) x" "together M q x \<Longrightarrow> together M (r @ q) x"
  unfolding together_def by (metis append.assoc)+

lemma precedes_append: "precedes M q x y \<Longrightarrow> precedes M (q @ r) x y" "precedes M q x y \<Longrightarrow> precedes M (r @ q) x y"
  unfolding precedes_def by (metis append.assoc)+

lemma together_precedes: "together M q x \<Longrightarrow> together M r y \<Longrightarrow> precedes M (q @ r) x y"
  unfolding together_def precedes_def by (metis append.assoc)

lemma together_all: "mset q = M x \<Longrightarrow> together M q x"
  unfolding together_def by (intro exI [of _ "[]"] exI [of _ q]) simp

definition subtree_reqs :: "rcache \<Rightarrow> nat set \<Rightarrow> (nat \<Rightarrow> 'r list) \<Rightarrow> nat \<Rightarrow> 'r multiset" where
  "subtree_reqs c L reqs n = (\<Sum>x\<in>desc c L n. mset (reqs x))"

definition siblings :: "rcache \<Rightarrow> nat \<Rightarrow> nat \<Rightarrow> bool" where
  "siblings c x y \<longleftrightarrow> (\<exists>z. nd_parent (nd c x) = Some z \<and> nd_parent (nd c y) = Some z)"

definition dfs_ok :: "rcache \<Rightarrow> nat set \<Rightarrow> (nat \<Rightarrow> nat) \<Rightarrow> (nat \<Rightarrow> 'r list) \<Rightarrow> nat set \<Rightarrow> 'r list \<Rightarrow> bool" where
  "dfs_ok c L w reqs S q \<longleftrightarrow> (\<forall>x\<in>S. together (subtree_reqs c L reqs) q x)
     \<and> (\<forall>x\<in>S. \<forall>y\<in>S. siblings c x y \<and> w y < w x \<longrightarrow> precedes (subtree_reqs c L reqs) q x y)"

lemma dfs_ok_append: "dfs_ok c L w reqs S q \<Longrightarrow> dfs_ok c L w reqs S (q @ r)" "dfs_ok c L w reqs S q \<Longrightarrow> dfs_ok c L w reqs S (r @ q)"
  using together_append precedes_append unfolding dfs_ok_def by (metis (no_types, lifting))+

lemma siblings_subtrees:
  assumes t: "rc_tree c L pre vals" and k: "m \<in> kids c L n" "k \<in> kids c L n" "m \<noteq> k" and x: "x \<in> desc c L m" "y \<in> desc c L k" and s: "siblings c x y"
  shows "x = m \<and> y = k"
proof -
  have L: "x \<in> L" "y \<in> L" "anc c m x" "anc c k y" using x by (auto simp: desc_def)
  obtain z where z: "nd_parent (nd c x) = Some z" "nd_parent (nd c y) = Some z" using s by (auto simp: siblings_def)
  have zL: "z \<in> L" by (rule pre_parent(2) [OF t L(1) z(1)])
  have pk: "nd_parent (nd c m) = Some n" "nd_parent (nd c k) = Some n" using k by (simp_all add: kids_def)
  have "x = m \<or> z \<in> desc c L m" using L(3) z(1) zL by (auto simp: desc_def elim: anc_cases)
  moreover have "y = k \<or> z \<in> desc c L k" using L(4) z(2) zL by (auto simp: desc_def elim: anc_cases)
  moreover have "\<not> (z \<in> desc c L m \<and> z \<in> desc c L k)" using desc_disjoint [OF t k] by blast
  moreover have "x = m \<Longrightarrow> z = n" "y = k \<Longrightarrow> z = n" using z pk by simp_all
  ultimately show ?thesis using desc_notin [OF t k(1)] desc_notin [OF t k(2)] by blast
qed

lemma dfs_children_spec:
  assumes t: "rc_tree c L pre vals" and n: "n \<in> L"
    and IH: "\<And>m q. m \<in> set ms \<Longrightarrow> \<exists>q'. get_dfs_priority fuel c w reqs m q = Inr (q @ q')
        \<and> mset q' = subtree_reqs c L reqs m \<and> dfs_ok c L w reqs (desc c L m) q'"
  shows "set ms \<subseteq> kids c L n \<Longrightarrow> distinct ms \<Longrightarrow> sorted (map (\<lambda>m. - int (w m)) ms)
     \<Longrightarrow> \<exists>q'. get_dfs_priority_children fuel c w reqs ms q = Inr (q @ q')
        \<and> mset q' = (\<Sum>m\<in>set ms. subtree_reqs c L reqs m) \<and> dfs_ok c L w reqs (\<Union>m\<in>set ms. desc c L m) q'"
  using IH
proof (induction ms arbitrary: q)
  case Nil then show ?case by (simp add: dfs_ok_def)
next
  case (Cons m ms)
  let ?M = "subtree_reqs c L reqs"
  obtain q1 where q1: "get_dfs_priority fuel c w reqs m q = Inr (q @ q1)" "mset q1 = ?M m" "dfs_ok c L w reqs (desc c L m) q1"
    using Cons.prems(4) [of m q] by auto
  obtain q2 where q2: "get_dfs_priority_children fuel c w reqs ms (q @ q1) = Inr ((q @ q1) @ q2)" "mset q2 = (\<Sum>m\<in>set ms. ?M m)"
      "dfs_ok c L w reqs (\<Union>m\<in>set ms. desc c L m) q2"
    using Cons.IH [of "q @ q1"] Cons.prems by auto
  have r: "get_dfs_priority_children fuel c w reqs (m # ms) q = Inr (q @ (q1 @ q2))" using q1(1) q2(1) by simp
  have ms: "mset (q1 @ q2) = (\<Sum>m\<in>set (m # ms). ?M m)" using q1(2) q2(2) Cons.prems(2) by simp
  have o1: "dfs_ok c L w reqs (desc c L m) (q1 @ q2)" "dfs_ok c L w reqs (\<Union>m\<in>set ms. desc c L m) (q1 @ q2)"
    using dfs_ok_append q1(3) q2(3) by blast+
  have cross: "precedes ?M (q1 @ q2) x y" if "x \<in> desc c L m" "y \<in> desc c L k" "k \<in> set ms" for x y k
    using q1(3) q2(3) that by (intro together_precedes) (auto simp: dfs_ok_def)
  have no: "\<not> w x < w y" if h: "x \<in> desc c L m" "y \<in> desc c L k" "k \<in> set ms" "siblings c x y" for x y k
  proof -
    have "m \<noteq> k" using Cons.prems(2) h(3) by auto
    then have "x = m \<and> y = k" using siblings_subtrees [OF t _ _ _ h(1,2,4)] Cons.prems(1) h(3) by auto
    then show ?thesis using Cons.prems(3) h(3) by auto
  qed
  have "dfs_ok c L w reqs (\<Union>m\<in>set (m # ms). desc c L m) (q1 @ q2)"
    unfolding dfs_ok_def
  proof (intro conjI ballI impI)
    fix x assume "x \<in> (\<Union>m\<in>set (m # ms). desc c L m)"
    then show "together ?M (q1 @ q2) x" using o1 by (auto simp: dfs_ok_def)
  next
    fix x y assume x: "x \<in> (\<Union>m\<in>set (m # ms). desc c L m)" and y: "y \<in> (\<Union>m\<in>set (m # ms). desc c L m)" and s: "siblings c x y \<and> w y < w x"
    have sy: "siblings c y x" using s by (auto simp: siblings_def)
    consider "x \<in> desc c L m" "y \<in> desc c L m" | "x \<in> (\<Union>m\<in>set ms. desc c L m)" "y \<in> (\<Union>m\<in>set ms. desc c L m)"
      | k where "x \<in> desc c L m" "y \<in> desc c L k" "k \<in> set ms" | k where "y \<in> desc c L m" "x \<in> desc c L k" "k \<in> set ms"
      using x y by auto
    then show "precedes ?M (q1 @ q2) x y"
    proof cases
      case 1 then show ?thesis using o1(1) s by (simp add: dfs_ok_def)
    next
      case 2 then show ?thesis using o1(2) s unfolding dfs_ok_def by blast
    next
      case 3 then show ?thesis by (rule cross)
    next
      case 4 then show ?thesis using no [OF 4 sy] s by blast
    qed
  qed
  with r ms show ?case by blast
qed

lemma dfs_spec:
  assumes t: "rc_tree c L pre vals"
  shows "n \<in> L \<Longrightarrow> card (desc c L n) \<le> fuel
     \<Longrightarrow> \<exists>q'. get_dfs_priority fuel c w reqs n q = Inr (q @ q') \<and> mset q' = subtree_reqs c L reqs n \<and> dfs_ok c L w reqs (desc c L n) q'"
proof (induction fuel arbitrary: n q)
  case 0
  then show ?case using desc_self [of n L c] desc_finite [OF t, of n] by auto
next
  case (Suc fuel)
  let ?M = "subtree_reqs c L reqs"
  note ks = map_snd_children [OF t Suc.prems(1)]
  let ?K = "sort_key (\<lambda>m. - int (w m)) (map snd (nd_children (nd c n)))"
  have IH: "\<exists>q'. get_dfs_priority fuel c w reqs m q = Inr (q @ q') \<and> mset q' = ?M m \<and> dfs_ok c L w reqs (desc c L m) q'" if "m \<in> set ?K" for m q
  proof (rule Suc.IH)
    have m: "m \<in> kids c L n" using that ks(1) by simp
    then show "m \<in> L" by (simp add: kids_def)
    show "card (desc c L m) \<le> fuel" using desc_card [OF t Suc.prems(1) m] Suc.prems(2) by simp
  qed
  have K: "set ?K = kids c L n" "distinct ?K" "sorted (map (\<lambda>m. - int (w m)) ?K)" using ks by simp_all
  obtain q1 where q1: "get_dfs_priority_children fuel c w reqs ?K q = Inr (q @ q1)" "mset q1 = (\<Sum>m\<in>kids c L n. ?M m)"
      "dfs_ok c L w reqs (\<Union>m\<in>kids c L n. desc c L m) q1"
    using dfs_children_spec [OF t Suc.prems(1) IH, of ?K q] K(2,3) unfolding K(1) by blast
  have r: "get_dfs_priority (Suc fuel) c w reqs n q = Inr (q @ (q1 @ reqs n))" using q1(1) by simp
  have ms: "mset (q1 @ reqs n) = ?M n" using q1(2) unfolding subtree_reqs_def sum_desc [OF t Suc.prems(1)] by simp
  have ns: "\<not> siblings c n y" if "y \<in> desc c L n" "y \<noteq> n" for y
  proof
    assume s: "siblings c n y"
    then obtain z where z: "nd_parent (nd c y) = Some z" "nd_parent (nd c n) = Some z" by (auto simp: siblings_def)
    have yL: "y \<in> L" "anc c n y" using that(1) by (simp_all add: desc_def)
    have "anc c n z" using yL(2) that(2) z(1) by (auto elim: anc_cases)
    moreover note pn = pre_parent [OF t Suc.prems(1) z(2)]
    ultimately show False using anc_props [OF t _ pn(2), of n] pn(3,4) by auto
  qed
  have "dfs_ok c L w reqs (desc c L n) (q1 @ reqs n)"
    unfolding dfs_ok_def
  proof (intro conjI ballI impI)
    fix x assume "x \<in> desc c L n"
    then show "together ?M (q1 @ reqs n) x"
      using dfs_ok_append(1) [OF q1(3)] together_all [where M = ?M and x = n, OF ms] unfolding dfs_ok_def desc_unfold [OF t Suc.prems(1)] by auto
  next
    fix x y assume x: "x \<in> desc c L n" and y: "y \<in> desc c L n" and s: "siblings c x y \<and> w y < w x"
    have "x \<noteq> y" "siblings c y x" using s by (auto simp: siblings_def)
    then have "x \<noteq> n" "y \<noteq> n" using ns [OF y] ns [OF x] s by auto
    then show "precedes ?M (q1 @ reqs n) x y"
      using dfs_ok_append(1) [OF q1(3)] x y s unfolding dfs_ok_def desc_unfold [OF t Suc.prems(1)] by blast
  qed
  with r ms show ?case by blast
qed

lemma rc_counter_card:
  assumes "rc_tree c L pre vals"
  shows "card L \<le> Suc (rc_counter c)"
proof -
  have "L \<subseteq> {..<rc_counter c}" using rc_treeD(7) [OF assms] by auto
  then show ?thesis using card_mono [of "{..<rc_counter c}" L] by simp
qed

lemma sort_by_dfs_weight_ok:
  assumes en: "rc_enabled c" and q: "\<forall>r\<in>set queue. \<exists>n\<in>live c. sq_node r = Some n"
  shows "\<exists>q'. sort_by_dfs_weight queue c = Inr q' \<and> mset q' = mset queue
     \<and> dfs_ok c (live c) (subtree_weight c (live c) (\<lambda>n. length (reqs_at queue n))) (reqs_at queue) (live c) q'"
proof -
  obtain L pre vals where t: "rc_tree c L pre vals" and L: "live c = L" using en by (metis rc_enabled_def rc_inv_wfE)
  let ?w = "\<lambda>n. length (reqs_at queue n)" and ?f = "Suc (rc_counter c)"
  have cd: "card (desc c L (rc_root c)) \<le> ?f" unfolding desc_root [OF t] by (rule rc_counter_card [OF t])
  have r: "rc_root c \<in> L" by (rule rc_treeD(3) [OF t])
  let ?w' = "\<lambda>x. if x \<in> desc c L (rc_root c) then subtree_weight c L ?w x else ?w x"
  obtain q' where q': "get_dfs_priority ?f c ?w' (reqs_at queue) (rc_root c) [] = Inr q'" "mset q' = subtree_reqs c L (reqs_at queue) (rc_root c)"
      "dfs_ok c L ?w' (reqs_at queue) (desc c L (rc_root c)) q'"
    using dfs_spec [OF t r cd, of ?w' "reqs_at queue" "[]"] by auto
  have "mset q' = (\<Sum>n\<in>L. mset (reqs_at queue n))" using q'(2) by (simp add: subtree_reqs_def desc_root [OF t])
  also have "\<dots> = mset queue"
  proof -
    have "set rs \<subseteq> set queue \<Longrightarrow> (\<Sum>n\<in>L. mset (reqs_at rs n)) = mset rs" for rs
    proof (induction rs)
      case (Cons r rs)
      obtain n where n: "n \<in> L" "sq_node r = Some n" using q Cons.prems L by auto
      have "(\<Sum>m\<in>L. mset (reqs_at (r # rs) m)) = (\<Sum>m\<in>L. (if m = n then {#r#} else {#}) + mset (reqs_at rs m))"
        by (rule sum.cong) (use n(2) in \<open>auto simp: reqs_at_def\<close>)
      also have "\<dots> = {#r#} + (\<Sum>m\<in>L. mset (reqs_at rs m))" using n(1) rc_treeD(2) [OF t] by (simp add: sum.distrib)
      finally show ?case using Cons by simp
    qed (simp add: reqs_at_def)
    then show ?thesis by simp
  qed
  finally have ms: "mset q' = mset queue" .
  have "sort_by_dfs_weight queue c = Inr q'"
    unfolding sort_by_dfs_weight_def using calc_weight_spec [OF t r cd, of ?w] q'(1) by simp
  moreover have "dfs_ok c L (subtree_weight c L ?w) (reqs_at queue) L q'"
    using q'(3) unfolding desc_root [OF t] by (simp add: dfs_ok_def)
  ultimately show ?thesis using ms L by auto
qed

section \<open>Prefix matches of the queue\<close>

definition req_key :: "sched_req \<Rightarrow> radix_key" where
  "req_key r = mk_key (rq_origin_input_ids (sq_mem r) @ rq_output_ids (sq_mem r)) (rq_extra_key (sq_mem r)) False"

text \<open>A request with the result of its lookup; nothing else of it changes.\<close>

definition with_match :: "sched_req \<Rightarrow> int list \<Rightarrow> nat \<Rightarrow> sched_req" where
  "with_match r idx node = r\<lparr>sq_mem := (sq_mem r)\<lparr>rq_prefix_indices := idx, rq_last_node := Some node\<rparr>,
     sq_last_host_node := Some node, sq_host_hit_length := 0\<rparr>"

text \<open>The matches are those of the cache the queue is ordered for; \<open>force_miss\<close> replaces them by the empty one.\<close>

definition matched :: "bool \<Rightarrow> rcache \<Rightarrow> sched_req \<Rightarrow> sched_req \<Rightarrow> bool" where
  "matched force_miss c r r' \<longleftrightarrow> (\<exists>idx node. r' = with_match r idx node \<and> node \<in> live c
     \<and> (if force_miss then idx = [] \<and> node = rc_root c
        else longest_match (content c) (rq_extra_key (sq_mem r)) (aligned_units c (req_key r)) (length idx)
           \<and> node_path c node (take (length idx) (aligned_units c (req_key r))) idx))"

section \<open>Prefixes within the queue\<close>

text \<open>
  Which requests the longest-prefix policy puts last, without a tree: a request with a short cached
  prefix that shares at least \<open>deprio\<close> tokens with an earlier request of the same namespace which has a short
  cached prefix too and was not itself put last.
\<close>

abbreviation req_ids :: "sched_req \<Rightarrow> int list" where
  "req_ids r \<equiv> rq_origin_input_ids (sq_mem r) @ rq_output_ids (sq_mem r)"

definition shared_len :: "sched_req \<Rightarrow> sched_req \<Rightarrow> nat" where
  "shared_len r r' =
     (if rq_extra_key (sq_mem r) = rq_extra_key (sq_mem r') then length (longest_common_prefix (req_ids r) (req_ids r')) else 0)"

fun put_last :: "bool \<Rightarrow> int \<Rightarrow> int \<Rightarrow> sched_req list \<Rightarrow> sched_req list \<Rightarrow> string set" where
  "put_last force_miss check deprio earlier [] = {}"
| "put_last force_miss check deprio earlier (r # rs) =
     (if check < int (length (sq_prefix r)) then put_last force_miss check deprio earlier rs
      else if deprio \<le> 0 \<or> \<not> force_miss \<and> (\<exists>r'\<in>set earlier. deprio \<le> int (shared_len r' r))
      then insert (sq_rid r) (put_last force_miss check deprio earlier rs)
      else put_last force_miss check deprio (r # earlier) rs)"

text \<open>The simulated tree holds the prefixes of the requests inserted so far.\<close>

definition tree_holds :: "rcache \<Rightarrow> sched_req list \<Rightarrow> bool" where
  "tree_holds w earlier \<longleftrightarrow> (\<forall>ek us. (\<exists>vs. (ek, us, vs) \<in> content w)
     \<longleftrightarrow> us \<noteq> [] \<and> (\<exists>r\<in>set earlier. rq_extra_key (sq_mem r) = ek \<and> prefix us (map (\<lambda>t. [t]) (req_ids r))))"

lemma simulated_units:
  assumes "rc_page_size w = 1" "\<not> rc_is_eagle w"
  shows "aligned_units w (req_key r) = map (\<lambda>t. [t]) (req_ids r)"
  using assms by (simp add: aligned_units_def key_view_def req_key_def mk_key_def maybe_to_bigram_view_def key_len_def key_iter_def page_floor_def)

lemma prefix_units: "prefix (map (\<lambda>t. [t]) xs) (map (\<lambda>t. [t]) ys) \<longleftrightarrow> prefix xs ys"
proof
  assume "prefix (map (\<lambda>t. [t]) xs) (map (\<lambda>t. [t]) ys)"
  then have "prefix (map hd (map (\<lambda>t. [t]) xs)) (map hd (map (\<lambda>t. [t]) ys))" by (rule map_mono_prefix)
  then show "prefix xs ys" by (simp add: comp_def)
qed (rule map_mono_prefix)

lemma take_units: "prefix ps xs \<Longrightarrow> take (length ps) (map f xs) = map f ps"
  by (auto simp: prefix_def)

lemma prefixes_of_iff: "(\<exists>ws. (ek, us, ws) \<in> prefixes_of 1 ek' xs vs) \<longleftrightarrow> us \<noteq> [] \<and> ek' = ek \<and> prefix us xs"
proof
  assume "\<exists>ws. (ek, us, ws) \<in> prefixes_of 1 ek' xs vs"
  then show "us \<noteq> [] \<and> ek' = ek \<and> prefix us xs" by (auto simp: prefixes_of_def take_is_prefix)
next
  assume a: "us \<noteq> [] \<and> ek' = ek \<and> prefix us xs"
  then have "us = take (length us) xs" "length us \<le> length xs" by (auto simp: prefix_def)
  with a show "\<exists>ws. (ek, us, ws) \<in> prefixes_of 1 ek' xs vs"
    unfolding prefixes_of_def by (intro exI [of _ "take (length us) vs"]) auto
qed

lemma tree_match_shared:
  assumes h: "tree_holds w earlier" and l: "longest_match (content w) (rq_extra_key (sq_mem r)) (map (\<lambda>t. [t]) (req_ids r)) n"
  shows "deprio \<le> int n \<longleftrightarrow> deprio \<le> 0 \<or> (\<exists>r'\<in>set earlier. deprio \<le> int (shared_len r' r))"
proof -
  let ?ek = "rq_extra_key (sq_mem r)" and ?us = "map (\<lambda>t. [t]) (req_ids r)"
  have "\<exists>r'\<in>set earlier. n \<le> shared_len r' r" if n: "0 < n"
  proof -
    have nl: "n \<le> length (req_ids r)" using l by (simp add: longest_match_def)
    have "\<exists>vs. (?ek, take n ?us, vs) \<in> content w" using l n by (auto simp: longest_match_def)
    then obtain r' where r': "r' \<in> set earlier" "rq_extra_key (sq_mem r') = ?ek" "prefix (take n ?us) (map (\<lambda>t. [t]) (req_ids r'))"
      using h unfolding tree_holds_def by blast
    have "prefix (take n (req_ids r)) (req_ids r')" using r'(3) unfolding take_map prefix_units .
    then have "prefix (take n (req_ids r)) (longest_common_prefix (req_ids r') (req_ids r))"
      by (rule longest_common_prefix_max_prefix) (rule take_is_prefix)
    moreover have "length (take n (req_ids r)) = n" using nl by (subst length_take) linarith
    ultimately have "n \<le> shared_len r' r" using prefix_length_le r'(2) unfolding shared_len_def by metis
    with r'(1) show ?thesis by blast
  qed
  moreover have "shared_len r' r \<le> n" if r': "r' \<in> set earlier" for r'
  proof (cases "shared_len r' r = 0")
    case False
    define ps where "ps = longest_common_prefix (req_ids r') (req_ids r)"
    have k: "shared_len r' r = length ps" "rq_extra_key (sq_mem r') = ?ek" "ps \<noteq> []" using False by (auto simp: shared_len_def ps_def split: if_splits)
    have p: "prefix ps (req_ids r')" "prefix ps (req_ids r)"
      unfolding ps_def by (rule longest_common_prefix_prefix1, rule longest_common_prefix_prefix2)
    then have e: "take (length ps) ?us = map (\<lambda>t. [t]) ps" "length ps \<le> length ?us"
      using prefix_length_le [OF p(2)] by (simp_all only: take_units length_map)
    moreover have "\<exists>vs. (?ek, map (\<lambda>t. [t]) ps, vs) \<in> content w"
      using h r' k(2,3) map_mono_prefix [OF p(1), of "\<lambda>t. [t]"] unfolding tree_holds_def by (metis map_is_Nil_conv)
    ultimately show ?thesis using l k(1) unfolding longest_match_def by metis
  qed simp
  ultimately show ?thesis by (cases "n = 0") (force intro: order_trans)+
qed

lemma tree_holds_insert:
  assumes h: "tree_holds w earlier"
    and c: "content w' = content w \<union> prefixes_of 1 (rq_extra_key (sq_mem r)) (map (\<lambda>t. [t]) (req_ids r)) vs"
  shows "tree_holds w' (r # earlier)"
  unfolding tree_holds_def
  using h prefixes_of_iff unfolding c tree_holds_def by (simp only: Un_iff ex_disj_distrib list.set insert_iff bex_simps) blast

section \<open>Prefix matches computed for the queue\<close>

lemma root_live: "rc_enabled c \<Longrightarrow> rc_root c \<in> live c"
  by (metis rc_enabled_def rc_inv_wfE live_eq rc_treeD(3))

lemma req_key_ok: "key_ok c (req_key r)" "extra_key (req_key r) = rq_extra_key (sq_mem r)"
  by (simp_all add: key_ok_def req_key_def mk_key_def)

definition rc_later :: "rcache \<Rightarrow> rcache \<Rightarrow> bool" where
  "rc_later c c' \<longleftrightarrow> rc_same c c' \<and> content c' = content c \<and> live c \<subseteq> live c' \<and> rc_allocator c' = rc_allocator c
     \<and> rc_evictable_size c' = rc_evictable_size c \<and> rc_protected_size c' = rc_protected_size c
     \<and> (\<forall>n\<in>live c. \<forall>us vs. node_path c' n us vs = node_path c n us vs)"

lemma rc_later_refl: "rc_later c c"
  by (simp add: rc_later_def)

lemma rc_later_trans: "rc_later a b \<Longrightarrow> rc_later b c \<Longrightarrow> rc_later a c"
  unfolding rc_later_def by (metis (no_types, lifting) rc_same_trans subset_iff)

lemma matched_later:
  assumes "matched f c r r'" "rc_later c c'"
  shows "matched f c' r r'"
proof -
  obtain idx node where m: "r' = with_match r idx node" "node \<in> live c" "if f then idx = [] \<and> node = rc_root c
        else longest_match (content c) (rq_extra_key (sq_mem r)) (aligned_units c (req_key r)) (length idx)
           \<and> node_path c node (take (length idx) (aligned_units c (req_key r))) idx" using assms(1) by (auto simp: matched_def)
  have l: "rc_root c' = rc_root c" "content c' = content c" "node \<in> live c'" "aligned_units c' = aligned_units c" "node_path c' node us vs = node_path c node us vs" for us vs
    using assms(2) m(2) rc_same_units(1) [of c c'] by (auto simp: rc_later_def rc_same_def)
  show ?thesis unfolding matched_def using m l by (intro exI [of _ idx] exI [of _ node]) simp
qed

lemma match_prefix_for_req_ok:
  assumes "rc_enabled c"
  shows "\<exists>r' c'. match_prefix_for_req f now (Some (rq_origin_input_ids (sq_mem r) @ rq_output_ids (sq_mem r))) r c = Inr (r', c')
     \<and> rc_enabled c' \<and> rc_later c c' \<and> matched f c' r r'"
proof -
  obtain idx node c' where m: "match_prefix now (req_key r) c = Inr (idx, node, c')" "rc_enabled c'" "content c' = content c"
     "longest_match (content c) (rq_extra_key (sq_mem r)) (aligned_units c (req_key r)) (length idx)"
     "node \<in> live c'" "node_path c' node (take (length idx) (aligned_units c (req_key r))) idx"
     "rc_evictable_size c' = rc_evictable_size c" "rc_protected_size c' = rc_protected_size c"
     "rc_same c c'" "rc_allocator c' = rc_allocator c" "live c \<subseteq> live c'"
     "\<forall>n\<in>live c. held c' (live c') n = held c (live c) n \<and> (\<forall>us vs. node_path c' n us vs = node_path c n us vs)"
    using match_prefix_ok [OF assms req_key_ok(1) [of c r], of now] unfolding req_key_ok(2) by blast
  have later: "rc_later c c'" using m(3,7-12) by (simp add: rc_later_def)
  have au: "aligned_units c' = aligned_units c" using rc_same_units(1) [OF m(9)] .
  show ?thesis
  proof (cases f)
    case True
    have "match_prefix_for_req f now (Some (rq_origin_input_ids (sq_mem r) @ rq_output_ids (sq_mem r))) r c = Inr (with_match r [] (rc_root c'), c')"
      using m(1) True by (simp add: match_prefix_for_req_def req_key_def with_match_def zero_match_result_def)
    moreover have "matched f c' r (with_match r [] (rc_root c'))" using True root_live [OF m(2)] by (auto simp: matched_def)
    ultimately show ?thesis using m(2) later by blast
  next
    case False
    have "match_prefix_for_req f now (Some (rq_origin_input_ids (sq_mem r) @ rq_output_ids (sq_mem r))) r c = Inr (with_match r idx node, c')"
      using m(1) False by (simp add: match_prefix_for_req_def req_key_def with_match_def)
    moreover have "matched f c' r (with_match r idx node)" using False m(3-6) au by (auto simp: matched_def)
    ultimately show ?thesis using m(2) later by blast
  qed
qed

text \<open>One look into the simulated tree.\<close>

definition tree_step :: "(nat list \<Rightarrow> nat list) \<Rightarrow> bool \<Rightarrow> int \<Rightarrow> int \<Rightarrow> int \<Rightarrow> int \<Rightarrow> sched_req \<Rightarrow> sched_req \<Rightarrow> rcache \<Rightarrow> (string set \<times> rcache) res" where
  "tree_step sha f check deprio t t' r r1 w =
     (if int (length (sq_prefix r1)) \<le> check
      then rbind (match_prefix t (req_key r) w) (\<lambda>(idx, node, w1).
           let idx' = (if f then [] else idx)
           in if deprio \<le> int (length idx') then Inr ({sq_rid r}, w1)
              else rbind (insert_key sha t' (req_key r) (Some (replicate (length (req_ids r)) 0)) (Some 0) False w1) (\<lambda>(_, w2). Inr ({}, w2)))
      else Inr ({}, w))"

lemma tree_step_ok:
  assumes w: "rc_enabled w" "rc_page_size w = 1" "\<not> rc_is_eagle w" "\<not> rc_enable_kv_cache_events w" and h: "tree_holds w earlier"
    and r1: "req_ids r1 = req_ids r" "rq_extra_key (sq_mem r1) = rq_extra_key (sq_mem r)" "sq_rid r1 = sq_rid r"
  shows "\<exists>d w3 earlier'. tree_step sha f check deprio t t' r r1 w = Inr (d, w3) \<and> rc_enabled w3 \<and> rc_same w w3 \<and> tree_holds w3 earlier'
     \<and> (\<forall>rs. put_last f check deprio earlier (r1 # rs) = d \<union> put_last f check deprio earlier' rs)"
proof (cases "int (length (sq_prefix r1)) \<le> check")
  case True
  note u = simulated_units [OF w(2,3)]
  obtain idx node w1 where w1: "match_prefix t (req_key r) w = Inr (idx, node, w1)" "rc_enabled w1" "rc_same w w1" "content w1 = content w"
     "longest_match (content w) (rq_extra_key (sq_mem r)) (map (\<lambda>t. [t]) (req_ids r)) (length idx)"
    using match_prefix_ok [OF w(1) req_key_ok(1) [of w r], of t] unfolding u req_key_ok(2) by blast
  have h1: "tree_holds w1 earlier" using h by (simp add: tree_holds_def w1(4))
  have sl: "shared_len r' r1 = shared_len r' r" for r' unfolding shared_len_def r1(1,2) ..
  have iff: "deprio \<le> int (length (if f then [] else idx)) \<longleftrightarrow> deprio \<le> 0 \<or> \<not> f \<and> (\<exists>r'\<in>set earlier. deprio \<le> int (shared_len r' r1))"
    using tree_match_shared [OF h w1(5), of deprio] by (cases f) (auto simp: sl)
  show ?thesis
  proof (cases "deprio \<le> int (length (if f then [] else idx))")
    case dep: True
    then have "tree_step sha f check deprio t t' r r1 w = Inr ({sq_rid r}, w1)" using True w1(1) by (simp add: tree_step_def Let_def)
    moreover have "put_last f check deprio earlier (r1 # rs) = {sq_rid r} \<union> put_last f check deprio earlier rs" for rs
      using True dep iff r1(3) by simp
    ultimately show ?thesis using w1(2,3) h1 by blast
  next
    case nodep: False
    have sm: "rc_page_size w1 = 1" "\<not> rc_is_eagle w1" "\<not> rc_enable_kv_cache_events w1" using w1(3) w(2-4) by (simp_all add: rc_same_def)
    note u1 = simulated_units [OF sm(1,2)]
    have fit: "rc_key_fits sha w1 (req_key r)" using sm(3) req_key_ok(1) by (simp add: rc_key_fits_def)
    obtain n w2 ws where w2: "insert_key sha t' (req_key r) (Some (replicate (length (req_ids r)) 0)) (Some 0) False w1 = Inr (n, w2)" "rc_enabled w2" "rc_same w1 w2"
       "content w2 = content w1 \<union> prefixes_of 1 (rq_extra_key (sq_mem r)) (map (\<lambda>t. [t]) (req_ids r)) ws"
      using insert_key_ok [OF w1(2) fit, of "replicate (length (req_ids r)) 0" t' "Some 0" False, unfolded u1 sm(1) req_key_ok(2) length_replicate length_map, OF le_refl]
      by blast
    have "tree_holds w2 (r1 # earlier)" by (rule tree_holds_insert [OF h1]) (use w2(4) in \<open>simp only: r1(1,2)\<close>)
    moreover have "tree_step sha f check deprio t t' r r1 w = Inr ({}, w2)" using True nodep w1(1) w2(1) by (simp add: tree_step_def Let_def)
    moreover have "put_last f check deprio earlier (r1 # rs) = {} \<union> put_last f check deprio (r1 # earlier) rs" for rs
      using True nodep iff by auto
    ultimately show ?thesis using w2(2) rc_same_trans [OF w1(3) w2(3)] by blast
  qed
next
  case False
  have "rc_same w w" by (simp add: rc_same_def)
  moreover have "put_last f check deprio earlier (r1 # rs) = {} \<union> put_last f check deprio earlier rs" for rs using False by simp
  ultimately show ?thesis using False w(1) h by (auto simp: tree_step_def)
qed

lemma compute_prefix_loop_ok:
  assumes "rc_enabled c" "rc_enabled w" "rc_page_size w = 1" "\<not> rc_is_eagle w" "\<not> rc_enable_kv_cache_events w" "tree_holds w earlier"
  shows "\<exists>rs' c' w'. compute_prefix_loop sha f check deprio clk i rs c w = Inr (rs', put_last f check deprio earlier rs', c', w')
     \<and> rc_enabled c' \<and> rc_later c c' \<and> list_all2 (matched f c') rs rs' \<and> rc_enabled w'"
  using assms
proof (induction rs arbitrary: i c w earlier)
  case Nil then show ?case by (simp add: rc_later_refl)
next
  case (Cons r rs)
  let ?ids = "rq_origin_input_ids (sq_mem r) @ rq_output_ids (sq_mem r)"
  obtain r1 c1 where r1: "match_prefix_for_req f (clk (3 * i)) (Some ?ids) r c = Inr (r1, c1)" "rc_enabled c1" "rc_later c c1" "matched f c1 r r1"
    using match_prefix_for_req_ok [OF Cons.prems(1)] by blast
  have r1': "req_ids r1 = req_ids r" "rq_extra_key (sq_mem r1) = rq_extra_key (sq_mem r)" "sq_rid r1 = sq_rid r"
    using r1(4) by (auto simp: matched_def with_match_def)
  obtain d w3 earlier' where w3: "tree_step sha f check deprio (clk (3 * i + 1)) (clk (3 * i + 2)) r r1 w = Inr (d, w3)" "rc_enabled w3" "rc_same w w3"
     "tree_holds w3 earlier'" "\<forall>rs. put_last f check deprio earlier (r1 # rs) = d \<union> put_last f check deprio earlier' rs"
    using tree_step_ok [OF Cons.prems(2-6) r1'] by blast
  have w3': "rc_page_size w3 = 1" "\<not> rc_is_eagle w3" "\<not> rc_enable_kv_cache_events w3" using w3(3) Cons.prems(3-5) by (simp_all add: rc_same_def)
  obtain rs' c2 w4 where l: "compute_prefix_loop sha f check deprio clk (Suc i) rs c1 w3 = Inr (rs', put_last f check deprio earlier' rs', c2, w4)"
     "rc_enabled c2" "rc_later c1 c2" "list_all2 (matched f c2) rs rs'" "rc_enabled w4"
    using Cons.IH [OF r1(2) w3(2) w3' w3(4)] by blast
  have "compute_prefix_loop sha f check deprio clk i (r # rs) c w = Inr (r1 # rs', put_last f check deprio earlier (r1 # rs'), c2, w4)"
    using r1(1) w3(1,5) l(1) unfolding tree_step_def req_key_def by (simp del: put_last.simps)
  moreover have "list_all2 (matched f c2) (r # rs) (r1 # rs')" using matched_later [OF r1(4) l(3)] l(4) by simp
  ultimately show ?case using l(2,5) rc_later_trans [OF r1(3) l(3)] by blast
qed

section \<open>The whole policy\<close>

definition po_ok :: "sched_policy \<Rightarrow> bool" where
  "po_ok po \<longleftrightarrow> rc_enabled (po_tree_cache po) \<and> rc_page_size (po_waiting_tree po) = 1 \<and> \<not> rc_is_eagle (po_waiting_tree po)
     \<and> \<not> rc_enable_kv_cache_events (po_waiting_tree po) \<and> \<not> rc_disable (po_waiting_tree po)"

lemma sched_policy_init_ok:
  assumes "sched_policy_init now name c pr low = Inr po" "rc_enabled c"
  shows "po_ok po" "po_tree_cache po = c"
  using assms by (auto simp: sched_policy_init_def res_simps simulated_cache_def radix_init_def po_ok_def reset_fields
      reset_def new_tree_node_def record_all_cleared_event_def Let_def mk_eviction_strategy_def)

lemma compute_prefix_matches_ok:
  assumes "po_ok po"
  shows "\<exists>rs po'. compute_prefix_matches sha f check deprio now clk queue po = Inr (rs, put_last f check deprio [] rs, po')
     \<and> rc_enabled (po_tree_cache po') \<and> rc_later (po_tree_cache po) (po_tree_cache po')
     \<and> list_all2 (matched f (po_tree_cache po')) queue rs \<and> po_policy po' = po_policy po"
proof -
  let ?w = "reset now (po_waiting_tree po)"
  have w: "rc_enabled ?w" "rc_page_size ?w = 1" "\<not> rc_is_eagle ?w" "\<not> rc_enable_kv_cache_events ?w"
    using assms reset_enabled(1) [of "po_waiting_tree po" now] by (simp_all add: po_ok_def reset_fields)
  have c: "rc_enabled (po_tree_cache po)" using assms by (simp add: po_ok_def)
  have e: "tree_holds ?w []" using assms reset_enabled(2) [of "po_waiting_tree po" now] by (simp add: po_ok_def tree_holds_def)
  from compute_prefix_loop_ok [OF c w e, of sha f check deprio clk 0 queue]
  show ?thesis by (auto simp: compute_prefix_matches_def)
qed

definition priorities_given :: "sched_policy \<Rightarrow> sched_req list \<Rightarrow> bool" where
  "priorities_given po queue \<longleftrightarrow> (po_enable_priority_scheduling po \<longrightarrow> (\<forall>r\<in>set queue. rq_priority (sq_mem r) \<noteq> None))"

lemma calc_priority_unaware:
  assumes "\<not> cache_aware (determine_active_policy po queue)" "priorities_given po queue" "\<And>xs. mset (shuffle xs) = mset xs"
  shows "\<exists>q'. calc_priority sha f check deprio now clk shuffle running queue po = Inr (False, q', po) \<and> mset q' = mset queue"
proof -
  have pg: "po_enable_priority_scheduling po \<Longrightarrow> list_all (\<lambda>r. rq_priority (sq_mem r) \<noteq> None) queue"
    using assms(2) by (simp add: priorities_given_def list_all_iff)
  have rk: "mset (sort_by_routing_key queue rs) = mset queue" for rs by (simp add: sort_by_routing_key_def)
  show ?thesis
  proof (cases "determine_active_policy po queue")
    case FCFS
    then have "po_policy po = FCFS \<or> po_policy po = LPM" by (auto simp: determine_active_policy_def split: if_splits)
    then show ?thesis using FCFS pg by (auto simp: calc_priority_def cache_aware_def sort_by_priority_and_fcfs_def Let_def)
  next
    case LOF
    then have "po_policy po = LOF" by (auto simp: determine_active_policy_def split: if_splits)
    then show ?thesis using LOF pg by (auto simp: calc_priority_def cache_aware_def sort_by_longest_output_def Let_def)
  next
    case RANDOM
    then have "po_policy po = RANDOM" by (auto simp: determine_active_policy_def split: if_splits)
    then show ?thesis using RANDOM assms(3) by (auto simp: calc_priority_def cache_aware_def Let_def)
  next
    case ROUTING_KEY
    then have "po_policy po = ROUTING_KEY" by (auto simp: determine_active_policy_def split: if_splits)
    then show ?thesis using ROUTING_KEY rk by (cases running) (auto simp: calc_priority_def cache_aware_def Let_def)
  qed (use assms(1) in \<open>simp_all add: cache_aware_def\<close>)
qed

lemma calc_priority_aware:
  assumes ok: "po_ok po" and p: "determine_active_policy po queue = p" "cache_aware p"
  shows "\<exists>qm q' po'. calc_priority sha f check deprio now clk shuffle running queue po = Inr (True, q', po')
     \<and> rc_enabled (po_tree_cache po') \<and> rc_later (po_tree_cache po) (po_tree_cache po') \<and> list_all2 (matched f (po_tree_cache po')) queue qm
     \<and> mset q' = mset qm
     \<and> (if p = LPM then q' = sort_key (lpm_key (put_last f check deprio [] qm)) qm
        else dfs_ok (po_tree_cache po') (live (po_tree_cache po'))
               (subtree_weight (po_tree_cache po') (live (po_tree_cache po')) (\<lambda>n. length (reqs_at qm n))) (reqs_at qm) (live (po_tree_cache po')) q')"
proof -
  let ?ds = "put_last f check deprio []"
  obtain qm po' where m: "compute_prefix_matches sha f check deprio now clk queue po = Inr (qm, ?ds qm, po')"
     "rc_enabled (po_tree_cache po')" "rc_later (po_tree_cache po) (po_tree_cache po')"
     "list_all2 (matched f (po_tree_cache po')) queue qm"
    using compute_prefix_matches_ok [OF ok] by blast
  have np: "po_policy po \<noteq> FCFS" using p by (auto simp: determine_active_policy_def cache_aware_def split: if_splits)
  show ?thesis
  proof (cases "p = LPM")
    case True
    then have "calc_priority sha f check deprio now clk shuffle running queue po = Inr (True, sort_key (lpm_key (?ds qm)) qm, po')"
      using m(1) p np by (simp add: calc_priority_def sort_by_longest_prefix_def Let_def)
    then show ?thesis using m True by (intro exI [of _ qm] exI [of _ "sort_key (lpm_key (?ds qm)) qm"] exI [of _ po']) simp
  next
    case False
    have "\<exists>n\<in>live (po_tree_cache po'). sq_node r = Some n" if r: "r \<in> set qm" for r
    proof -
      obtain r0 where "matched f (po_tree_cache po') r0 r" using m(4) r by (metis in_set_conv_nth list_all2_conv_all_nth)
      then show ?thesis by (auto simp: matched_def with_match_def)
    qed
    then obtain q' where q': "sort_by_dfs_weight qm (po_tree_cache po') = Inr q'" "mset q' = mset qm"
       "dfs_ok (po_tree_cache po') (live (po_tree_cache po'))
               (subtree_weight (po_tree_cache po') (live (po_tree_cache po')) (\<lambda>n. length (reqs_at qm n))) (reqs_at qm) (live (po_tree_cache po')) q'"
      using sort_by_dfs_weight_ok [OF m(2)] by blast
    then have "calc_priority sha f check deprio now clk shuffle running queue po = Inr (True, q', po')"
      using m(1) p np False by (simp add: calc_priority_def Let_def)
    then show ?thesis using m q' False by (intro exI [of _ qm] exI [of _ q'] exI [of _ po']) simp
  qed
qed

section \<open>Properties\<close>

text \<open>
  C40: Ordering the waiting queue never fails, loses or duplicates a request, whatever the policy:
  the result is a permutation of the queue, after each request got its longest match where the
  policy looks into the cache, and the content and the accounting of the cache are unchanged.
\<close>

theorem calc_priority_permutes:
  assumes "po_ok po" "priorities_given po queue" "\<And>xs. mset (shuffle xs) = mset xs"
  shows "\<exists>q' po'. calc_priority sha f check deprio now clk shuffle running queue po = Inr (cache_aware (determine_active_policy po queue), q', po')
     \<and> rc_enabled (po_tree_cache po') \<and> rc_later (po_tree_cache po) (po_tree_cache po')
     \<and> (if cache_aware (determine_active_policy po queue)
        then \<exists>qm. list_all2 (matched f (po_tree_cache po')) queue qm \<and> mset q' = mset qm
        else mset q' = mset queue)"
proof (cases "cache_aware (determine_active_policy po queue)")
  case True
  from calc_priority_aware [OF assms(1) refl this, of sha f check deprio now clk shuffle running] True show ?thesis by auto
next
  case False
  moreover have "rc_enabled (po_tree_cache po)" using assms(1) by (simp add: po_ok_def)
  ultimately show ?thesis using calc_priority_unaware [OF False assms(2,3), of sha f check deprio now clk running] rc_later_refl by auto
qed


text \<open>
  C30: The depth-first policy keeps the requests of every subtree of the cache together, and of two
  sibling subtrees the one with more waiting requests comes first.
\<close>

theorem schedule_dfs_order:
  assumes "po_ok po" "po_policy po = DFS_WEIGHT"
  shows "\<exists>qm q' po' c. calc_priority sha f check deprio now clk shuffle running queue po = Inr (True, q', po') \<and> c = po_tree_cache po'
     \<and> list_all2 (matched f c) queue qm \<and> mset q' = mset qm
     \<and> (\<forall>x\<in>live c. together (subtree_reqs c (live c) (reqs_at qm)) q' x)
     \<and> (\<forall>x\<in>live c. \<forall>y\<in>live c. siblings c x y
          \<and> subtree_weight c (live c) (\<lambda>n. length (reqs_at qm n)) y < subtree_weight c (live c) (\<lambda>n. length (reqs_at qm n)) x
          \<longrightarrow> precedes (subtree_reqs c (live c) (reqs_at qm)) q' x y)"
proof -
  have d: "determine_active_policy po queue = DFS_WEIGHT" using assms by (simp add: determine_active_policy_def)
  obtain qm q' po' where c: "calc_priority sha f check deprio now clk shuffle running queue po = Inr (True, q', po')"
     "list_all2 (matched f (po_tree_cache po')) queue qm" "mset q' = mset qm"
     "dfs_ok (po_tree_cache po') (live (po_tree_cache po'))
               (subtree_weight (po_tree_cache po') (live (po_tree_cache po')) (\<lambda>n. length (reqs_at qm n))) (reqs_at qm) (live (po_tree_cache po')) q'"
    using calc_priority_aware [OF assms(1) d, of sha f check deprio now clk shuffle running] by (auto simp: cache_aware_def)
  then show ?thesis unfolding dfs_ok_def
    by (intro exI [of _ qm] exI [of _ q'] exI [of _ po'] exI [of _ "po_tree_cache po'"]) blast
qed

text \<open>Two requests against the small cache, one of which finds its prefix there.\<close>

definition sample_sched :: "string \<Rightarrow> int list \<Rightarrow> sched_req" where
  "sample_sched rid ids = \<lparr>sq_mem = sample_req\<lparr>rq_origin_input_ids := ids, rq_fill_ids := ids\<rparr>, sq_rid = rid, sq_max_new_tokens = 4,
     sq_ignore_eos = False, sq_extend_input_len = 0, sq_logprob_start_len = -1, sq_extend_logprob_start_len = 0, sq_host_hit_length = 0,
     sq_last_host_node = None, sq_wait_queue_entry_time = 0, sq_routing_key = None, sq_finished_reason = None, sq_to_finish = None,
     sq_is_retracted = False, sq_retraction_count = 0, sq_has_input_embeds = False, sq_return_logprob = False, sq_stream = False,
     sq_has_grammar = False\<rparr>"

definition sample_queue :: "sched_req list" where
  "sample_queue = [sample_sched ''a'' [1, 2], sample_sched ''b'' [7, 8, 9, 5, 1]]"

lemma sample_policy:
  assumes "name = ''lpm'' \<and> p = LPM \<or> name = ''dfs-weight'' \<and> p = DFS_WEIGHT"
  shows "\<exists>c po. sample_cache = Inr c \<and> sched_policy_init 0 name c False False = Inr po \<and> po_ok po \<and> po_policy po = p
     \<and> \<not> po_enable_priority_scheduling po"
proof -
  obtain c where c: "sample_cache = Inr c" "rc_enabled c" using sample_cache_ok by blast
  have "\<not> rc_disable c" using c(2) by (simp add: rc_enabled_def)
  then obtain po where po: "sched_policy_init 0 name c False False = Inr po" "po_policy po = p" "\<not> po_enable_priority_scheduling po"
    using assms by (auto simp: sched_policy_init_def validate_and_adjust_policy_def simulated_cache_def radix_init_def mk_eviction_strategy_def)
  with c sched_policy_init_ok(1) [OF po(1) c(2)] show ?thesis by blast
qed

theorem calc_priority_permutes_witness:
  "\<exists>c po q' po' qm. sample_cache = Inr c \<and> sched_policy_init 0 ''lpm'' c False False = Inr po
     \<and> calc_priority (\<lambda>xs. xs) False 32 32 1 (\<lambda>i. 2) rev None sample_queue po = Inr (True, q', po')
     \<and> list_all2 (matched False (po_tree_cache po')) sample_queue qm \<and> mset q' = mset qm"
proof -
  obtain c po where c: "sample_cache = Inr c" "sched_policy_init 0 ''lpm'' c False False = Inr po" "po_ok po" "po_policy po = LPM" "\<not> po_enable_priority_scheduling po"
    using sample_policy [of "''lpm''" LPM] by blast
  have d: "cache_aware (determine_active_policy po sample_queue)" using c(4) by (simp add: determine_active_policy_def cache_aware_def sample_queue_def)
  have "priorities_given po sample_queue" using c(5) by (simp add: priorities_given_def)
  then obtain q' po' qm where "calc_priority (\<lambda>xs. xs) False 32 32 1 (\<lambda>i. 2) rev None sample_queue po = Inr (True, q', po')"
     "list_all2 (matched False (po_tree_cache po')) sample_queue qm" "mset q' = mset qm"
    using calc_priority_permutes [OF c(3), of sample_queue rev "\<lambda>xs. xs" False 32 32 1 "\<lambda>i. 2" None] d by auto
  with c(1,2) show ?thesis by blast
qed




theorem schedule_dfs_order_witness:
  "\<exists>c po qm q' po'. sample_cache = Inr c \<and> sched_policy_init 0 ''dfs-weight'' c False False = Inr po
     \<and> calc_priority (\<lambda>xs. xs) False 32 32 1 (\<lambda>i. 2) rev None sample_queue po = Inr (True, q', po') \<and> mset q' = mset qm
     \<and> (\<forall>x\<in>live (po_tree_cache po'). together (subtree_reqs (po_tree_cache po') (live (po_tree_cache po')) (reqs_at qm)) q' x)"
proof -
  obtain c po where c: "sample_cache = Inr c" "sched_policy_init 0 ''dfs-weight'' c False False = Inr po" "po_ok po" "po_policy po = DFS_WEIGHT"
    using sample_policy [of "''dfs-weight''" DFS_WEIGHT] by blast
  from schedule_dfs_order [OF c(3,4), of "\<lambda>xs. xs" False 32 32 1 "\<lambda>i. 2" rev None sample_queue] c(1,2) show ?thesis by blast
qed

end
