(* ===== verification/Prefill_Delayer.thy ===== *)
theory Prefill_Delayer
  imports Prelude Complex_Main
begin

text \<open>
  \<open>managers/prefill_delayer.py\<close>: the scheduler processes of a data-parallel group agree before each
  pass whether prefill is allowed, so that a process with nothing to prefill does not wait for
  the others. Floating-point quantities (token usage, ratios, times) are rationals; the clock
  readings are arguments.
\<close>

section \<open>State\<close>

record delay_state =
  ds_delayed_count :: int
  ds_start_time :: rat

definition bump_delayed_count :: "delay_state \<Rightarrow> delay_state" where
  "bump_delayed_count s = s\<lparr>ds_delayed_count := ds_delayed_count s + 1\<rparr>"

record negotiate_output =
  no_next_state :: "delay_state option"
  no_input_estimation :: string
  no_output_allow :: bool
  no_output_reason :: string
  no_num_prefillable :: int
  no_num_token_watermark_force_allow :: int

record delayer =
  pd_max_delay_passes :: int
  pd_token_usage_low_watermark :: "rat option"
  pd_queue_min_ratio :: "rat option"
  pd_max_delay_ms :: rat
  pd_dp_size :: int
  pd_attn_tp_size :: nat
  pd_enable_dp_attention :: bool
  pd_curr_state :: "delay_state option"
  pd_skip_first_delayer :: bool

definition delayer_init ::
  "int \<Rightarrow> nat \<Rightarrow> int \<Rightarrow> rat option \<Rightarrow> rat option \<Rightarrow> rat option \<Rightarrow> bool \<Rightarrow> bool \<Rightarrow> bool \<Rightarrow> bool \<Rightarrow> delayer res" where
  "delayer_init dp_size attn_tp_size max_delay_passes watermark queue_min_ratio max_delay_ms
     enable_dp_attention disable_overlap_schedule nccl_env has_device_group =
     (let use_nccl = disable_overlap_schedule \<or> nccl_env
      in rbind (guard_res (use_nccl \<longrightarrow> has_device_group) AssertionError) (\<lambda>_.
         rbind (guard_res (\<not> disable_overlap_schedule) AssertionError) (\<lambda>_.
         Inr \<lparr>pd_max_delay_passes = max_delay_passes, pd_token_usage_low_watermark = watermark, pd_queue_min_ratio = queue_min_ratio,
           pd_max_delay_ms = (case max_delay_ms of None \<Rightarrow> 5000 | Some x \<Rightarrow> x), pd_dp_size = dp_size, pd_attn_tp_size = attn_tp_size,
           pd_enable_dp_attention = enable_dp_attention, pd_curr_state = None, pd_skip_first_delayer = True\<rparr>)))"

section \<open>The gathered view\<close>

record gather_row =
  gr_prefillable :: int
  gr_token_watermark_force_allow :: int
  gr_running_batch :: int
  gr_max_prefill_bs :: int
  gr_waiting_queue_len :: int

record pass_input =
  pi_local_prefillable :: bool
  pi_token_usage :: rat
  pi_running_batch :: int
  pi_max_prefill_bs :: int
  pi_max_running_requests :: int
  pi_waiting_queue_len :: int

definition local_force_allow :: "delayer \<Rightarrow> pass_input \<Rightarrow> bool" where
  "local_force_allow d p \<longleftrightarrow> pi_local_prefillable p
     \<and> (case pd_token_usage_low_watermark d of None \<Rightarrow> False | Some x \<Rightarrow> pi_token_usage p < x)"

definition local_info :: "delayer \<Rightarrow> pass_input \<Rightarrow> gather_row" where
  "local_info d p = \<lparr>gr_prefillable = of_bool (pi_local_prefillable p), gr_token_watermark_force_allow = of_bool (local_force_allow d p),
     gr_running_batch = pi_running_batch p, gr_max_prefill_bs = pi_max_prefill_bs p, gr_waiting_queue_len = pi_waiting_queue_len p\<rparr>"

text \<open>
  The all-gather hands every process the rows of all processes in rank order; a process reads the
  row of the first tensor-parallel rank of each data-parallel group.
\<close>

definition gather_info :: "nat \<Rightarrow> gather_row list \<Rightarrow> gather_row list" where
  "gather_info attn_tp_size rows = map (\<lambda>i. rows ! (i * attn_tp_size)) [0..<length rows div attn_tp_size]"

section \<open>The decision\<close>

definition py_int :: "rat \<Rightarrow> int" where
  "py_int q = (if 0 \<le> q then \<lfloor>q\<rfloor> else \<lceil>q\<rceil>)"

definition prefillable_status :: "gather_row list \<Rightarrow> string" where
  "prefillable_status rows =
     (if 0 < Min (set (map gr_prefillable rows)) then ''all''
      else if Max (set (map gr_prefillable rows)) = 0 then ''none'' else ''mixed'')"

definition queue_condition :: "delayer \<Rightarrow> delay_state option \<Rightarrow> rat \<Rightarrow> gather_row list \<Rightarrow> bool" where
  "queue_condition d prev now rows =
     (case pd_queue_min_ratio d of
        None \<Rightarrow> False
      | Some ratio \<Rightarrow>
          let running_max = Max (set (map gr_running_batch rows));
              queue_min_effective = min (py_int (of_int running_max * ratio)) (Max (set (map gr_max_prefill_bs rows)))
          in 0 < running_max \<and> 0 < queue_min_effective \<and> Max (set (map gr_waiting_queue_len rows)) < queue_min_effective
             \<and> \<not> (case prev of None \<Rightarrow> False | Some s \<Rightarrow> pd_max_delay_ms d \<le> (now - ds_start_time s) * 1000))"

definition slot_condition :: "delayer \<Rightarrow> int \<Rightarrow> gather_row list \<Rightarrow> bool" where
  "slot_condition d max_running_requests rows \<longleftrightarrow>
     (if pd_enable_dp_attention d then max_running_requests else (max_running_requests + pd_dp_size d - 1) div pd_dp_size d)
       - Max (set (map gr_running_batch rows)) < Max (set (map gr_max_prefill_bs rows))"

definition delay_output :: "delay_state option \<Rightarrow> rat \<Rightarrow> (delay_state option \<Rightarrow> bool \<Rightarrow> string \<Rightarrow> negotiate_output) \<Rightarrow> negotiate_output" where
  "delay_output prev now out =
     out (Some (bump_delayed_count (case prev of None \<Rightarrow> \<lparr>ds_delayed_count = 0, ds_start_time = now\<rparr> | Some s \<Rightarrow> s))) False ''delay''"

text \<open>The result carries the new value of \<open>skip_first_delayer\<close>, the one field the function writes.\<close>

definition negotiate_pure :: "delayer \<Rightarrow> rat \<Rightarrow> int \<Rightarrow> gather_row list \<Rightarrow> negotiate_output \<times> bool" where
  "negotiate_pure d now max_running_requests rows =
     (let prev = pd_curr_state d;
          skip = pd_skip_first_delayer d;
          status = prefillable_status rows;
          force_allow = (0 < Max (set (map gr_token_watermark_force_allow rows)));
          out = (\<lambda>next allow reason. \<lparr>no_next_state = next, no_input_estimation = status, no_output_allow = allow, no_output_reason = reason,
                   no_num_prefillable = sum_list (map gr_prefillable rows),
                   no_num_token_watermark_force_allow = sum_list (map gr_token_watermark_force_allow rows)\<rparr>)
      in if status = ''all'' then
           if force_allow then (out None True ''token_watermark'', skip)
           else if slot_condition d max_running_requests rows \<or> queue_condition d prev now rows then
             if skip then (out None True (if prev \<noteq> None then ''wait_success'' else ''no_wait''), False)
             else (delay_output prev now out, skip)
           else (out None True (if prev \<noteq> None then ''wait_success'' else ''no_wait''), skip)
         else if status = ''none'' then (out None True '''', skip)
         else
           if force_allow then (out None True ''token_watermark'', skip)
           else if (case prev of None \<Rightarrow> 0 | Some s \<Rightarrow> ds_delayed_count s) < pd_max_delay_passes d - 1 then (delay_output prev now out, skip)
           else (out None True ''wait_timeout'', skip))"

definition negotiate :: "rat \<Rightarrow> int \<Rightarrow> gather_row list \<Rightarrow> delayer \<Rightarrow> negotiate_output \<times> delayer" where
  "negotiate now max_running_requests rows d =
     (case negotiate_pure d now max_running_requests rows of
        (out, skip) \<Rightarrow> (out, d\<lparr>pd_curr_state := no_next_state out, pd_skip_first_delayer := skip\<rparr>))"

section \<open>One pass of a process\<close>

text \<open>\<open>view\<close> is what the all-gather of this pass returns for a process that contributes the given row.\<close>

record single_pass =
  sp_delayer :: delayer
  sp_token_usage :: rat
  sp_result :: "negotiate_output option"

definition single_pass_init :: "delayer \<Rightarrow> rat \<Rightarrow> single_pass" where
  "single_pass_init d usage = \<lparr>sp_delayer = d, sp_token_usage = usage, sp_result = None\<rparr>"

definition negotiate_should_allow_prefill ::
  "rat \<Rightarrow> (gather_row \<Rightarrow> gather_row list) \<Rightarrow> bool \<Rightarrow> int \<Rightarrow> int \<Rightarrow> int \<Rightarrow> int \<Rightarrow> single_pass \<Rightarrow> bool \<times> single_pass" where
  "negotiate_should_allow_prefill now view local_prefillable running_batch max_prefill_bs max_running_requests waiting_queue_len sp =
     (case sp_result sp of
        Some r \<Rightarrow> (no_output_allow r, sp)
      | None \<Rightarrow>
          let p = \<lparr>pi_local_prefillable = local_prefillable, pi_token_usage = sp_token_usage sp, pi_running_batch = running_batch,
                 pi_max_prefill_bs = max_prefill_bs, pi_max_running_requests = max_running_requests, pi_waiting_queue_len = waiting_queue_len\<rparr>
          in case negotiate now max_running_requests (view (local_info (sp_delayer sp) p)) (sp_delayer sp) of
               (r, d) \<Rightarrow> (no_output_allow r, sp\<lparr>sp_delayer := d, sp_result := Some r\<rparr>))"

text \<open>The reasons the debug log accepts, and the observation handed to the metrics collector.\<close>

definition record_single_pass_result :: "bool \<Rightarrow> bool \<Rightarrow> rat \<Rightarrow> bool \<Rightarrow> negotiate_output
    \<Rightarrow> (int \<times> rat \<times> string \<times> bool \<times> string \<times> bool) option res" where
  "record_single_pass_result debug_log has_collector now actual_execution out =
     rbind (guard_res (debug_log \<longrightarrow> no_output_allow out \<and> no_output_reason out = ''wait_timeout''
                        \<or> no_output_allow out \<and> no_output_reason out = ''token_watermark''
                        \<or> no_output_reason out \<in> {'''', ''wait_success'', ''no_wait'', ''delay''}) AssertionError) (\<lambda>_.
     Inr (if has_collector
          then Some (case no_next_state out of
                 Some s \<Rightarrow> (ds_delayed_count s, now - ds_start_time s, no_input_estimation out, no_output_allow out, no_output_reason out, actual_execution)
               | None \<Rightarrow> (0, 0, no_input_estimation out, no_output_allow out, no_output_reason out, actual_execution))
          else None))"

definition finalize_pass :: "rat \<Rightarrow> (gather_row \<Rightarrow> gather_row list) \<Rightarrow> bool \<Rightarrow> bool \<Rightarrow> bool \<Rightarrow> single_pass
    \<Rightarrow> ((int \<times> rat \<times> string \<times> bool \<times> string \<times> bool) option \<times> single_pass) res" where
  "finalize_pass now view debug_log has_collector actual_prefill sp =
     (let sp1 = (if sp_result sp = None then snd (negotiate_should_allow_prefill now view False 0 0 0 0 sp) else sp)
      in rbind (of_opt AttributeError (sp_result sp1)) (\<lambda>out.
         rbind (record_single_pass_result debug_log has_collector now actual_prefill out) (\<lambda>m.
         Inr (m, sp1))))"

section \<open>A pass of the group\<close>

text \<open>Every process contributes its row and decides on the gathered table; each has its own clock.\<close>

definition group_pass :: "(pass_input \<times> rat) list \<Rightarrow> delayer list \<Rightarrow> (negotiate_output \<times> delayer) list" where
  "group_pass ps ds =
     (let rows = map2 (\<lambda>(p, _) d. local_info d p) ps ds
      in map2 (\<lambda>(p, now) d. negotiate now (pi_max_running_requests p) (gather_info (pd_attn_tp_size d) rows) d) ps ds)"

fun group_run :: "(pass_input \<times> rat) list list \<Rightarrow> delayer list \<Rightarrow> negotiate_output list list" where
  "group_run [] ds = []"
| "group_run (ps # pss) ds = (let r = group_pass ps ds in map fst r # group_run pss (map snd r))"

section \<open>Ranks stay in step\<close>

definition same_config :: "delayer \<Rightarrow> delayer \<Rightarrow> bool" where
  "same_config d e \<longleftrightarrow> d\<lparr>pd_curr_state := None, pd_skip_first_delayer := True\<rparr> = e\<lparr>pd_curr_state := None, pd_skip_first_delayer := True\<rparr>"

text \<open>
  Two processes are in step when they were configured alike and have waited for the same number
  of passes. Only the queue trigger reads the clock: with it, they also have to share the time.
\<close>

definition in_step :: "bool \<Rightarrow> delayer \<Rightarrow> delayer \<Rightarrow> bool" where
  "in_step clock d e \<longleftrightarrow> same_config d e \<and> pd_skip_first_delayer d = pd_skip_first_delayer e
     \<and> (if clock then pd_curr_state d = pd_curr_state e
        else pd_queue_min_ratio d = None \<and> map_option ds_delayed_count (pd_curr_state d) = map_option ds_delayed_count (pd_curr_state e))"

definition same_decision :: "negotiate_output \<Rightarrow> negotiate_output \<Rightarrow> bool" where
  "same_decision a b \<longleftrightarrow> no_output_allow a = no_output_allow b \<and> no_output_reason a = no_output_reason b
     \<and> no_input_estimation a = no_input_estimation b
     \<and> map_option ds_delayed_count (no_next_state a) = map_option ds_delayed_count (no_next_state b)"

lemma same_configD:
  assumes "same_config d e"
  shows "pd_max_delay_passes d = pd_max_delay_passes e" "pd_token_usage_low_watermark d = pd_token_usage_low_watermark e"
    "pd_queue_min_ratio d = pd_queue_min_ratio e" "pd_max_delay_ms d = pd_max_delay_ms e" "pd_dp_size d = pd_dp_size e"
    "pd_attn_tp_size d = pd_attn_tp_size e" "pd_enable_dp_attention d = pd_enable_dp_attention e"
  using assms unfolding same_config_def by (cases d; cases e; simp)+

lemma slot_condition_cong: "same_config d e \<Longrightarrow> slot_condition d m rows = slot_condition e m rows"
  by (simp add: slot_condition_def same_configD)

lemma negotiate_config:
  "same_config (snd (negotiate now m rows d)) d"
  by (simp add: negotiate_def same_config_def split: prod.splits)

lemma same_config_trans: "same_config a b \<Longrightarrow> same_config b c \<Longrightarrow> same_config a c"
  by (simp add: same_config_def)

lemma same_config_sym: "same_config a b \<Longrightarrow> same_config b a"
  by (simp add: same_config_def)

lemma count_default_cong:
  "map_option ds_delayed_count a = map_option ds_delayed_count b
    \<Longrightarrow> (case a of None \<Rightarrow> 0 | Some s \<Rightarrow> ds_delayed_count s) = (case b of None \<Rightarrow> (0::int) | Some s \<Rightarrow> ds_delayed_count s)"
  by (cases a; cases b) simp_all

lemma negotiate_no_clock:
  assumes "in_step False d e"
  shows "same_decision (fst (negotiate now m rows d)) (fst (negotiate now' m rows e)) \<and> in_step False (snd (negotiate now m rows d)) (snd (negotiate now' m rows e))"
proof -
  have c: "same_config d e" "pd_skip_first_delayer d = pd_skip_first_delayer e" "pd_queue_min_ratio d = None" "pd_queue_min_ratio e = None"
    "map_option ds_delayed_count (pd_curr_state d) = map_option ds_delayed_count (pd_curr_state e)"
    using assms same_configD(3) by (auto simp: in_step_def)
  have q: "queue_condition d p t rows = False" "queue_condition e p t rows = False" for p t using c by (simp_all add: queue_condition_def)
  have n: "(pd_curr_state d = None) = (pd_curr_state e = None)" using c(5) by (cases "pd_curr_state d"; cases "pd_curr_state e") auto
  have b: "map_option ds_delayed_count (no_next_state (delay_output (pd_curr_state d) now out))
         = map_option ds_delayed_count (no_next_state (delay_output (pd_curr_state e) now' out'))"
    if "\<And>a b r. no_next_state (out a b r) = a" "\<And>a b r. no_next_state (out' a b r) = a" for out out'
    using c(5) that by (cases "pd_curr_state d"; cases "pd_curr_state e") (simp_all add: delay_output_def bump_delayed_count_def)
  have sd: "same_decision (fst (negotiate_pure d now m rows)) (fst (negotiate_pure e now' m rows))
       \<and> snd (negotiate_pure d now m rows) = snd (negotiate_pure e now' m rows)"
    unfolding negotiate_pure_def Let_def q c(2) slot_condition_cong [OF c(1)] count_default_cong [OF c(5)] same_configD(1) [OF c(1)] n
    by (auto simp: same_decision_def b) (auto simp: delay_output_def)
  then have "same_decision (fst (negotiate now m rows d)) (fst (negotiate now' m rows e))"
    by (auto simp: negotiate_def split: prod.splits)
  moreover have "in_step False (snd (negotiate now m rows d)) (snd (negotiate now' m rows e))"
    using sd c(1,3) same_configD(3) [OF c(1)]
    by (auto simp: negotiate_def in_step_def same_decision_def same_config_def split: prod.splits)
  ultimately show ?thesis by blast
qed

lemma in_step_clock_eq: "in_step True d e \<Longrightarrow> d = e"
  by (cases d; cases e) (simp add: in_step_def same_config_def)

lemma negotiate_in_step:
  assumes "in_step clock d e" "clock \<longrightarrow> now = now'"
  shows "same_decision (fst (negotiate now m rows d)) (fst (negotiate now' m rows e)) \<and> in_step clock (snd (negotiate now m rows d)) (snd (negotiate now' m rows e))"
proof (cases clock)
  case True
  then have "d = e" "now = now'" using assms in_step_clock_eq by simp_all
  then show ?thesis using True by (simp add: same_decision_def in_step_def same_config_def)
next
  case False
  then show ?thesis using negotiate_no_clock assms(1) by simp
qed

text \<open>
  What the processes of a group bring to a pass. The processes of one tensor-parallel group run the same
  schedule, so that all or none of them have something to prefill. A process that has passes the
  limit of running requests of the server; one that has not is only heard when \<open>finalize\<close> negotiates
  for it, with the default 0 for every number (\<open>silent_input\<close>), and its limit is not constrained.
\<close>

definition pass_shape :: "bool \<Rightarrow> nat \<Rightarrow> nat \<Rightarrow> (pass_input \<times> rat) list \<Rightarrow> bool" where
  "pass_shape clock tp n ps \<longleftrightarrow> length ps = n \<and> 0 < tp \<and> tp dvd n
     \<and> (\<forall>i<n. pi_local_prefillable (fst (ps ! i)) = pi_local_prefillable (fst (ps ! (i div tp * tp))))
     \<and> (\<exists>m. \<forall>i<n. pi_local_prefillable (fst (ps ! i)) \<longrightarrow> pi_max_running_requests (fst (ps ! i)) = m)
     \<and> (clock \<longrightarrow> (\<exists>t. \<forall>i<n. snd (ps ! i) = t))"

definition silent_input :: "rat \<Rightarrow> pass_input" where
  "silent_input usage = \<lparr>pi_local_prefillable = False, pi_token_usage = usage, pi_running_batch = 0, pi_max_prefill_bs = 0,
     pi_max_running_requests = 0, pi_waiting_queue_len = 0\<rparr>"

text \<open>Only the branch in which every process can prefill reads the limit.\<close>

lemma negotiate_not_all: "prefillable_status rows \<noteq> ''all'' \<Longrightarrow> negotiate now m rows d = negotiate now m' rows d"
  by (simp add: negotiate_def negotiate_pure_def Let_def)

lemma all_prefillable:
  assumes "prefillable_status (gather_info tp (map2 (\<lambda>(p, _) d. local_info d p) ps ds)) = ''all''" "pass_shape clock tp n ps" "length ds = n" "i < n"
  shows "pi_local_prefillable (fst (ps ! i))"
proof -
  let ?rows = "map2 (\<lambda>(p, _) d. local_info d p) ps ds" and ?g = "i div tp"
  have ps: "length ps = n" "0 < tp" "tp dvd n" using assms(2) by (simp_all add: pass_shape_def)
  have g: "?g < n div tp" "?g * tp < n"
    by (rule less_mult_imp_div_less, use assms(4) ps(3) in simp, rule le_less_trans [OF div_times_less_eq_dividend assms(4)])
  then have r: "?rows ! (?g * tp) \<in> set (gather_info tp ?rows)" using ps(1) assms(3)
    unfolding gather_info_def set_map by (intro imageI) simp
  have "0 < Min (set (map gr_prefillable (gather_info tp ?rows)))" using assms(1) by (auto simp: prefillable_status_def split: if_splits)
  moreover have "Min (set (map gr_prefillable (gather_info tp ?rows))) \<le> gr_prefillable (?rows ! (?g * tp))" using r by (intro Min_le) auto
  ultimately have "0 < gr_prefillable (?rows ! (?g * tp))" by linarith
  then have "pi_local_prefillable (fst (ps ! (?g * tp)))" using g(2) ps(1) assms(3) by (auto simp: local_info_def split: prod.splits if_splits)
  then show ?thesis using assms(2,4) by (simp add: pass_shape_def)
qed

lemma group_pass_nth:
  assumes "length ps = length ds" "i < length ds"
  shows "group_pass ps ds ! i = negotiate (snd (ps ! i)) (pi_max_running_requests (fst (ps ! i)))
     (gather_info (pd_attn_tp_size (ds ! i)) (map2 (\<lambda>(p, _) d. local_info d p) ps ds)) (ds ! i)"
  using assms by (simp add: group_pass_def Let_def split: prod.splits)

lemma group_pass_length: "length ps = length ds \<Longrightarrow> length (group_pass ps ds) = length ds"
  by (simp add: group_pass_def Let_def)

lemma group_pass_in_step:
  assumes ds: "\<forall>i<n. \<forall>j<n. in_step clock (ds ! i) (ds ! j)" "length ds = n" "\<forall>i<n. pd_attn_tp_size (ds ! i) = tp"
    and ps: "pass_shape clock tp n ps" and ij: "i < n" "j < n"
  shows "same_decision (fst (group_pass ps ds ! i)) (fst (group_pass ps ds ! j)) \<and> in_step clock (snd (group_pass ps ds ! i)) (snd (group_pass ps ds ! j))"
proof -
  have st: "in_step clock (ds ! i) (ds ! j)" using ds(1) ij by blast
  have tp: "pd_attn_tp_size (ds ! i) = tp" "pd_attn_tp_size (ds ! j) = tp" using ds(3) ij by simp_all
  have p: "length ps = n" "clock \<longrightarrow> snd (ps ! i) = snd (ps ! j)" using ps ij by (auto simp: pass_shape_def)
  let ?rows = "gather_info tp (map2 (\<lambda>(p, _) d. local_info d p) ps ds)" and ?m = "\<lambda>k. pi_max_running_requests (fst (ps ! k))"
  have m: "negotiate (snd (ps ! j)) (?m j) ?rows (ds ! j) = negotiate (snd (ps ! j)) (?m i) ?rows (ds ! j)"
  proof (cases "prefillable_status ?rows = ''all''")
    case True
    have "?m j = ?m i" using all_prefillable [OF True ps ds(2)] ij ps by (auto simp: pass_shape_def)
    then show ?thesis by simp
  qed (rule negotiate_not_all)
  show ?thesis using negotiate_in_step [OF st p(2), of "?m i" ?rows] group_pass_nth [of ps ds] p(1) ds(2) ij tp m by simp
qed

lemma negotiate_tp_size: "pd_attn_tp_size (snd (negotiate now m rows d)) = pd_attn_tp_size d"
  using same_configD(6) [OF negotiate_config] .

lemma group_run_agrees:
  assumes "\<forall>i<n. \<forall>j<n. in_step clock (ds ! i) (ds ! j)" "length ds = n" "\<forall>i<n. pd_attn_tp_size (ds ! i) = tp" "\<forall>ps\<in>set pss. pass_shape clock tp n ps"
  shows "\<forall>outs\<in>set (group_run pss ds). length outs = n \<and> (\<forall>i<n. \<forall>j<n. same_decision (outs ! i) (outs ! j))"
  using assms
proof (induction pss arbitrary: ds)
  case (Cons ps pss)
  have ps: "pass_shape clock tp n ps" using Cons.prems(4) by simp
  have l: "length (group_pass ps ds) = n" using ps Cons.prems(2) by (simp add: pass_shape_def group_pass_length)
  note gp = group_pass_in_step [OF Cons.prems(1-3) ps]
  have "\<forall>i<n. \<forall>j<n. in_step clock (map snd (group_pass ps ds) ! i) (map snd (group_pass ps ds) ! j)" using gp l by simp
  moreover have "\<forall>i<n. pd_attn_tp_size (map snd (group_pass ps ds) ! i) = tp"
    using l Cons.prems(2,3) group_pass_nth [of ps ds] ps by (simp add: negotiate_tp_size pass_shape_def)
  ultimately show ?case using Cons.IH [of "map snd (group_pass ps ds)"] l Cons.prems(4) gp by (auto simp: Let_def)
qed simp

section \<open>Bounded delay\<close>

fun negotiate_run :: "(rat \<times> int \<times> gather_row list) list \<Rightarrow> delayer \<Rightarrow> negotiate_output list" where
  "negotiate_run [] d = []"
| "negotiate_run ((now, m, rows) # ps) d = (let r = negotiate now m rows d in fst r # negotiate_run ps (snd r))"

definition forced :: "gather_row list \<Rightarrow> bool" where
  "forced rows \<longleftrightarrow> 0 < Max (set (map gr_token_watermark_force_allow rows))"

definition waited :: "delayer \<Rightarrow> int" where
  "waited d = (case pd_curr_state d of None \<Rightarrow> 0 | Some s \<Rightarrow> ds_delayed_count s)"

lemma negotiate_mixed:
  assumes "prefillable_status rows = ''mixed''"
  shows "no_output_allow (fst (negotiate now m rows d)) \<longleftrightarrow> forced rows \<or> pd_max_delay_passes d - 1 \<le> waited d"
    "\<not> no_output_allow (fst (negotiate now m rows d)) \<Longrightarrow> waited (snd (negotiate now m rows d)) = waited d + 1"
    "pd_max_delay_passes (snd (negotiate now m rows d)) = pd_max_delay_passes d"
  using assms unfolding forced_def waited_def
  by (cases "0 < Max (set (map gr_token_watermark_force_allow rows))"; cases "pd_curr_state d";
      cases "(case pd_curr_state d of None \<Rightarrow> 0 | Some s \<Rightarrow> ds_delayed_count s) < pd_max_delay_passes d - 1";
      simp add: negotiate_def negotiate_pure_def Let_def delay_output_def bump_delayed_count_def)+

lemma mixed_run:
  assumes "\<forall>(now, m, rows)\<in>set ps. prefillable_status rows = ''mixed''" "length ps = Suc k" "waited d + int k = pd_max_delay_passes d - 1 \<or> k = 0 \<and> pd_max_delay_passes d - 1 \<le> waited d"
  shows "(\<exists>out\<in>set (negotiate_run ps d). no_output_allow out)
     \<and> ((\<forall>(now, m, rows)\<in>set ps. \<not> forced rows) \<longrightarrow> map no_output_allow (negotiate_run ps d) = replicate k False @ [True])"
  using assms
proof (induction k arbitrary: ps d)
  case 0
  then obtain now m rows where "ps = [(now, m, rows)]" by (auto simp: length_Suc_conv)
  then show ?case using 0 negotiate_mixed(1) [of rows now m d] by (auto simp: Let_def)
next
  case (Suc k)
  obtain now m rows ps' where ps: "ps = (now, m, rows) # ps'" "length ps' = Suc k" using Suc.prems(2) by (cases ps) (auto split: prod.splits)
  have mx: "prefillable_status rows = ''mixed''" using Suc.prems(1) ps(1) by simp
  note n = negotiate_mixed [OF mx, of now m d]
  let ?d = "snd (negotiate now m rows d)"
  have w: "\<not> pd_max_delay_passes d - 1 \<le> waited d" using Suc.prems(3) by simp
  show ?case
  proof (cases "forced rows")
    case True then show ?thesis using n(1) ps(1) by (auto simp: Let_def)
  next
    case False
    then have na: "\<not> no_output_allow (fst (negotiate now m rows d))" using n(1) w by simp
    have "waited ?d + int k = pd_max_delay_passes ?d - 1" using n(2) [OF na] n(3) Suc.prems(3) by simp
    moreover have "\<forall>(now, m, rows)\<in>set ps'. prefillable_status rows = ''mixed''" using Suc.prems(1) ps(1) by simp
    ultimately show ?thesis using Suc.IH [OF _ ps(2), of ?d] ps(1) na by (auto simp: Let_def)
  qed
qed

section \<open>One negotiation per pass\<close>

record pass_call =
  pc_now :: rat
  pc_view :: "gather_row \<Rightarrow> gather_row list"
  pc_prefillable :: bool
  pc_running_batch :: int
  pc_max_prefill_bs :: int
  pc_max_running_requests :: int
  pc_waiting_queue_len :: int

fun pass_calls :: "pass_call list \<Rightarrow> single_pass \<Rightarrow> bool list \<times> single_pass" where
  "pass_calls [] sp = ([], sp)"
| "pass_calls (c # cs) sp =
     (case negotiate_should_allow_prefill (pc_now c) (pc_view c) (pc_prefillable c) (pc_running_batch c) (pc_max_prefill_bs c)
             (pc_max_running_requests c) (pc_waiting_queue_len c) sp of
        (b, sp1) \<Rightarrow> (case pass_calls cs sp1 of (bs, sp2) \<Rightarrow> (b # bs, sp2)))"

definition call_result :: "pass_call \<Rightarrow> single_pass \<Rightarrow> negotiate_output \<times> delayer" where
  "call_result c sp = negotiate (pc_now c) (pc_max_running_requests c)
     (pc_view c (local_info (sp_delayer sp) \<lparr>pi_local_prefillable = pc_prefillable c, pi_token_usage = sp_token_usage sp,
        pi_running_batch = pc_running_batch c, pi_max_prefill_bs = pc_max_prefill_bs c,
        pi_max_running_requests = pc_max_running_requests c, pi_waiting_queue_len = pc_waiting_queue_len c\<rparr>)) (sp_delayer sp)"

definition silent_call :: "rat \<Rightarrow> (gather_row \<Rightarrow> gather_row list) \<Rightarrow> pass_call" where
  "silent_call now view = \<lparr>pc_now = now, pc_view = view, pc_prefillable = False, pc_running_batch = 0,
     pc_max_prefill_bs = 0, pc_max_running_requests = 0, pc_waiting_queue_len = 0\<rparr>"

definition negotiated :: "single_pass \<Rightarrow> negotiate_output \<times> delayer \<Rightarrow> single_pass" where
  "negotiated sp r = sp\<lparr>sp_delayer := snd r, sp_result := Some (fst r)\<rparr>"

lemma pass_calls_done:
  assumes "sp_result sp = Some r"
  shows "pass_calls cs sp = (replicate (length cs) (no_output_allow r), sp)"
  using assms by (induction cs) (simp_all add: negotiate_should_allow_prefill_def)

lemma negotiate_reason:
  "no_output_reason (fst (negotiate now m rows d)) \<in> {'''', ''wait_success'', ''no_wait'', ''delay''}
   \<or> no_output_allow (fst (negotiate now m rows d)) \<and> no_output_reason (fst (negotiate now m rows d)) \<in> {''wait_timeout'', ''token_watermark''}"
  by (simp add: negotiate_def negotiate_pure_def Let_def delay_output_def split: prod.splits)

lemma finalize_done: "\<exists>obs. finalize_pass now view debug collector actual (negotiated sp (call_result c sp')) = Inr (obs, negotiated sp (call_result c sp'))"
  using negotiate_reason unfolding call_result_def
  by (auto simp: finalize_pass_def record_single_pass_result_def negotiated_def guard_res_def)

section \<open>Properties\<close>

text \<open>
  C22: A process negotiates exactly once per pass, however often the batch is asked for permission:
  every call gives the answer of the first, \<open>finalize\<close> negotiates if there was no call, it never
  raises, and the delayer ends in the state of that one negotiation.
\<close>

theorem single_pass_negotiates_once:
  "\<exists>obs. case pass_calls cs (single_pass_init d usage) of (bs, sp) \<Rightarrow>
     (let c = (case cs of [] \<Rightarrow> silent_call now view | c # _ \<Rightarrow> c);
          r = call_result c (single_pass_init d usage)
      in bs = replicate (length cs) (no_output_allow (fst r))
       \<and> finalize_pass now view debug collector actual sp = Inr (obs, negotiated (single_pass_init d usage) r))"
proof (cases cs)
  case Nil
  let ?c = "silent_call now view" and ?sp = "single_pass_init d usage"
  have n: "snd (negotiate_should_allow_prefill now view False 0 0 0 0 ?sp) = negotiated ?sp (call_result ?c ?sp)" "sp_result ?sp = None"
    by (simp_all add: negotiate_should_allow_prefill_def single_pass_init_def call_result_def silent_call_def negotiated_def Let_def split: prod.splits)
  obtain obs where "finalize_pass now view debug collector actual (negotiated ?sp (call_result ?c ?sp)) = Inr (obs, negotiated ?sp (call_result ?c ?sp))"
    using finalize_done by blast
  then have "finalize_pass now view debug collector actual ?sp = Inr (obs, negotiated ?sp (call_result ?c ?sp))"
    using n by (simp add: finalize_pass_def negotiated_def)
  then show ?thesis using Nil by (intro exI [of _ obs]) simp
next
  case (Cons c rest)
  let ?sp = "single_pass_init d usage"
  let ?sp1 = "negotiated ?sp (call_result c ?sp)"
  have n: "negotiate_should_allow_prefill (pc_now c) (pc_view c) (pc_prefillable c) (pc_running_batch c) (pc_max_prefill_bs c)
             (pc_max_running_requests c) (pc_waiting_queue_len c) ?sp = (no_output_allow (fst (call_result c ?sp)), ?sp1)"
    by (simp add: negotiate_should_allow_prefill_def single_pass_init_def call_result_def negotiated_def Let_def split: prod.splits)
  have "sp_result ?sp1 = Some (fst (call_result c ?sp))" by (simp add: negotiated_def)
  then have "pass_calls cs ?sp = (replicate (length cs) (no_output_allow (fst (call_result c ?sp))), ?sp1)"
    using Cons n pass_calls_done [of ?sp1 _ rest] by simp
  moreover obtain obs where "finalize_pass now view debug collector actual ?sp1 = Inr (obs, ?sp1)" using finalize_done by blast
  ultimately show ?thesis using Cons by (intro exI [of _ obs]) simp
qed

text \<open>
  C21: The processes of a group that were configured alike decide alike: in every run of passes, all of
  them allow prefill or none does, for the same reason and after the same number of delays. This
  holds for every pass in which the processes that can prefill have the same request limit, whatever
  the others pass, which negotiate with defaults when they finalize the pass, and in which the
  processes of a tensor-parallel group can either all prefill or none (\<open>pass_shape\<close>). Without the queue trigger the
  clocks of the processes do not matter. With it, all readings of a pass have to be equal: the
  timeout compares the clock of each process on its own.
\<close>

theorem delayer_ranks_agree:
  assumes "\<forall>i<n. \<forall>j<n. in_step clock (ds ! i) (ds ! j)" "length ds = n" "\<forall>i<n. pd_attn_tp_size (ds ! i) = tp"
    "\<forall>ps\<in>set pss. pass_shape clock tp n ps" "outs \<in> set (group_run pss ds)" "i < n" "j < n"
  shows "no_output_allow (outs ! i) = no_output_allow (outs ! j) \<and> no_output_reason (outs ! i) = no_output_reason (outs ! j)
     \<and> map_option ds_delayed_count (no_next_state (outs ! i)) = map_option ds_delayed_count (no_next_state (outs ! j))"
proof -
  have "same_decision (outs ! i) (outs ! j)" using group_run_agrees [OF assms(1-4)] assms(5-7) by blast
  then show ?thesis unfolding same_decision_def by blast
qed

text \<open>
  C20: While only some processes can prefill, prefill is held back for a bounded number of passes,
  from any state of the delayer. Let \<open>waited\<close> be the number of passes it is already being delayed, 0 if
  it is not. Of the next \<open>max_delay_passes - waited\<close> passes (at least one) of that kind one allows
  it, and if no process asks for it because of low token usage it is exactly the last of them.
\<close>

theorem delayer_mixed_bounded:
  assumes "n = nat (max 1 (pd_max_delay_passes d - waited d))" "length ps = n"
    "\<forall>(now, m, rows)\<in>set ps. prefillable_status rows = ''mixed''"
  shows "(\<exists>out\<in>set (negotiate_run ps d). no_output_allow out)
     \<and> ((\<forall>(now, m, rows)\<in>set ps. \<not> forced rows) \<longrightarrow> map no_output_allow (negotiate_run ps d) = replicate (n - 1) False @ [True])"
proof -
  have l: "length ps = Suc (n - 1)" using assms(1,2) by simp
  have "waited d + int (n - 1) = pd_max_delay_passes d - 1 \<or> n - 1 = 0 \<and> pd_max_delay_passes d - 1 \<le> waited d" using assms(1) by (simp add: max_def)
  from mixed_run [OF assms(3) l this] show ?thesis .
qed

text \<open>
  Two processes of a server with data-parallel attention and three passes of patience, as the
  constructor leaves them; only the first can prefill.
\<close>

definition sample_delayer :: delayer where
  "sample_delayer = \<lparr>pd_max_delay_passes = 3, pd_token_usage_low_watermark = None, pd_queue_min_ratio = None, pd_max_delay_ms = 5000,
     pd_dp_size = 2, pd_attn_tp_size = 1, pd_enable_dp_attention = True, pd_curr_state = None, pd_skip_first_delayer = True\<rparr>"

definition sample_input :: pass_input where
  "sample_input = \<lparr>pi_local_prefillable = True, pi_token_usage = 1 / 2, pi_running_batch = 7, pi_max_prefill_bs = 2,
     pi_max_running_requests = 8, pi_waiting_queue_len = 1\<rparr>"

definition sample_rows :: "gather_row list" where
  "sample_rows = map (local_info sample_delayer) [sample_input, silent_input (1 / 3)]"

lemma sample_rows_status: "prefillable_status sample_rows = ''mixed''" "\<not> forced sample_rows"
  by (simp_all add: prefillable_status_def sample_rows_def local_info_def sample_input_def silent_input_def forced_def local_force_allow_def sample_delayer_def)

theorem delayer_ranks_agree_witness:
  "delayer_init 2 1 3 None None None True False False False = Inr sample_delayer
   \<and> (let pass = [(sample_input, 0), (silent_input (1 / 3), 1)]; outs = group_run [pass, pass, pass] [sample_delayer, sample_delayer] ! 2
      in no_output_allow (outs ! 0) = no_output_allow (outs ! 1))"
proof -
  let ?pass = "[(sample_input, 0), (silent_input (1 / 3), 1)]" and ?ds = "[sample_delayer, sample_delayer]"
  have init: "delayer_init 2 1 3 None None None True False False False = Inr sample_delayer"
    by (simp add: delayer_init_def sample_delayer_def)
  have st: "in_step False sample_delayer sample_delayer" by (simp add: in_step_def same_config_def sample_delayer_def)
  have 1: "\<forall>i<2. \<forall>j<2. in_step False (?ds ! i) (?ds ! j)" using st by (simp add: All_less_Suc2 numeral_2_eq_2)
  have 2: "\<forall>i<2. pd_attn_tp_size (?ds ! i) = 1" by (simp add: All_less_Suc2 numeral_2_eq_2 sample_delayer_def)
  have 3: "\<forall>ps\<in>set [?pass, ?pass, ?pass]. pass_shape False 1 2 ps"
    by (simp add: pass_shape_def All_less_Suc2 numeral_2_eq_2 sample_input_def silent_input_def)
  have "group_run [?pass, ?pass, ?pass] ?ds ! 2 \<in> set (group_run [?pass, ?pass, ?pass] ?ds)" by (rule nth_mem) (simp add: Let_def)
  from delayer_ranks_agree [OF 1 _ 2 3 this, of 0 1] init show ?thesis by simp
qed

theorem delayer_mixed_bounded_witness:
  "map no_output_allow (negotiate_run (replicate 3 (0, 8, sample_rows)) sample_delayer) = [False, False, True]
   \<and> map no_output_allow (negotiate_run (replicate 2 (0, 8, sample_rows)) (sample_delayer\<lparr>pd_curr_state := Some \<lparr>ds_delayed_count = 1, ds_start_time = 0\<rparr>\<rparr>)) = [False, True]"
  using delayer_mixed_bounded [OF refl, of "replicate 3 (0, 8, sample_rows)" sample_delayer]
    delayer_mixed_bounded [OF refl, of "replicate 2 (0, 8, sample_rows)" "sample_delayer\<lparr>pd_curr_state := Some \<lparr>ds_delayed_count = 1, ds_start_time = 0\<rparr>\<rparr>"]
    sample_rows_status
  by (simp add: sample_delayer_def waited_def numeral_2_eq_2)

end
