(* ===== verification/Prefill_Adder.thy ===== *)
theory Prefill_Adder
  imports Schedule_Order Prefill_Delayer
begin

text \<open>
  The second half of \<open>managers/schedule_policy.py\<close>: \<open>PrefillAdder\<close> decides which waiting requests
  enter the next prefill batch and keeps the token budgets. Token counts are integers; the
  estimate of the tokens the running requests still need is a rational, since it multiplies with
  the new-token ratio. The tree cache is a radix cache (or, with \<open>rc_disable\<close>, the disabled one) with
  the standard allocator, so the sliding-window and state-space branches are not taken.
\<close>

section \<open>State\<close>

datatype add_result = CONTINUE | NO_TOKEN | OTHER

record prefill_adder =
  pa_page_size :: nat
  pa_tree :: rcache
  pa_running :: "sched_req list option"
  pa_new_token_ratio :: rat
  pa_rem_input_tokens :: int
  pa_rem_chunk_tokens :: "int option"
  pa_dllm :: "(int \<times> int) option"
  pa_rem_total_token_offset :: rat
  pa_cur_rem_token_offset :: int
  pa_req_states :: "(rat \<times> int) list option"
  pa_can_run_list :: "sched_req list"
  pa_preempt_list :: "string list"
  pa_new_chunked_req :: "sched_req option"
  pa_log_hit_tokens :: int
  pa_log_input_tokens :: int
  pa_preemption_threshold :: int
  pa_context_parallel :: bool
  pa_max_prefill_bs :: int
  pa_max_running_requests :: int
  pa_prefill_max_requests :: "nat option"
  pa_delayer :: "single_pass option"
  pa_waiting_queue_len :: int

text \<open>\<open>clip\<close> is \<open>CLIP_MAX_NEW_TOKENS\<close>; the diffusion model's budget is a pair of block size and tokens left.\<close>

definition running_token_offset :: "int \<Rightarrow> rat \<Rightarrow> sched_req \<Rightarrow> rat" where
  "running_token_offset clip ratio r = of_int (min (sq_max_new_tokens r - int (length (rq_output_ids (sq_mem r)))) clip) * ratio"

definition adder_init ::
  "int \<Rightarrow> nat \<Rightarrow> rcache \<Rightarrow> sched_req list option \<Rightarrow> rat \<Rightarrow> int \<Rightarrow> int option \<Rightarrow> int \<Rightarrow> int \<Rightarrow> int \<Rightarrow> int \<Rightarrow> nat option
     \<Rightarrow> single_pass option \<Rightarrow> (int \<times> int) option \<Rightarrow> bool \<Rightarrow> int \<Rightarrow> prefill_adder" where
  "adder_init clip page_size c running ratio rem_input rem_chunk num_mixed threshold max_prefill_bs max_running prefill_max
     delayer dllm_config context_parallel waiting =
     \<lparr>pa_page_size = page_size, pa_tree = c, pa_running = running, pa_new_token_ratio = ratio,
      pa_rem_input_tokens = rem_input - num_mixed,
      pa_rem_chunk_tokens = map_option (\<lambda>n. n - num_mixed) rem_chunk,
      pa_dllm = map_option (\<lambda>(block_size, max_running_reqs). (block_size, max_running_reqs * block_size)) dllm_config,
      pa_rem_total_token_offset = of_int num_mixed + (case running of None \<Rightarrow> 0 | Some rs \<Rightarrow> sum_list (map (running_token_offset clip ratio) rs)),
      pa_cur_rem_token_offset = num_mixed, pa_req_states = None, pa_can_run_list = [], pa_preempt_list = [],
      pa_new_chunked_req = None, pa_log_hit_tokens = 0, pa_log_input_tokens = 0, pa_preemption_threshold = threshold,
      pa_context_parallel = context_parallel, pa_max_prefill_bs = max_prefill_bs, pa_max_running_requests = max_running,
      pa_prefill_max_requests = prefill_max, pa_delayer = delayer, pa_waiting_queue_len = waiting\<rparr>"

definition available_and_evictable :: "rcache \<Rightarrow> int" where
  "available_and_evictable c = int (kv_available_size (rc_allocator c)) + rc_evictable_size c"

definition rem_total_tokens :: "prefill_adder \<Rightarrow> rat" where
  "rem_total_tokens a = of_int (available_and_evictable (pa_tree a)) - pa_rem_total_token_offset a"

definition cur_rem_tokens :: "prefill_adder \<Rightarrow> int" where
  "cur_rem_tokens a = available_and_evictable (pa_tree a) - pa_cur_rem_token_offset a"

definition ceil_paged_tokens :: "nat \<Rightarrow> int \<Rightarrow> int" where
  "ceil_paged_tokens p tokens = - ((- tokens) div int p) * int p"

definition budget_state :: "prefill_adder \<Rightarrow> add_result" where
  "budget_state a =
     (if rem_total_tokens a \<le> 0 \<or> cur_rem_tokens a \<le> 0 then NO_TOKEN
      else if pa_rem_input_tokens a \<le> 0 then OTHER
      else case pa_dllm a of
             Some (_, rem) \<Rightarrow> if rem \<le> 0 then OTHER else CONTINUE
           | None \<Rightarrow> (case pa_rem_chunk_tokens a of
                 Some n \<Rightarrow> if n \<le> 0 then OTHER else CONTINUE
               | None \<Rightarrow> CONTINUE))"

definition update_prefill_budget :: "int \<Rightarrow> int \<Rightarrow> int \<Rightarrow> prefill_adder \<Rightarrow> prefill_adder" where
  "update_prefill_budget prefix_len extend_input_len max_new_tokens a =
     (let ext = ceil_paged_tokens (pa_page_size a) extend_input_len;
          overhead = int (pa_page_size a)
      in a\<lparr>pa_rem_total_token_offset := pa_rem_total_token_offset a + of_int (ext + max_new_tokens + overhead),
           pa_cur_rem_token_offset := pa_cur_rem_token_offset a + (ext + overhead),
           pa_rem_input_tokens := pa_rem_input_tokens a - ext,
           pa_dllm := map_option (\<lambda>(b, rem). (b, rem - ext)) (pa_dllm a),
           pa_rem_chunk_tokens := (if pa_dllm a = None then map_option (\<lambda>n. n - ext) (pa_rem_chunk_tokens a) else pa_rem_chunk_tokens a),
           pa_log_hit_tokens := pa_log_hit_tokens a + prefix_len,
           pa_log_input_tokens := pa_log_input_tokens a + ext\<rparr>)"

section \<open>Requests\<close>

definition py_take :: "int \<Rightarrow> 'a list \<Rightarrow> 'a list" where
  "py_take n xs = (if 0 \<le> n then take (nat n) xs else take (nat (int (length xs) + n)) xs)"

definition set_extend_input_len :: "int \<Rightarrow> 'a sched_req_scheme \<Rightarrow> 'a sched_req_scheme" where
  "set_extend_input_len n r =
     (let prefix_len = int (length (rq_prefix_indices (sq_mem r)));
          start = (if sq_logprob_start_len r = -1 then int (length (rq_fill_ids (sq_mem r))) else max (sq_logprob_start_len r) prefix_len)
      in r\<lparr>sq_extend_input_len := n, sq_extend_logprob_start_len := min (start - prefix_len) n\<rparr>)"

definition truncate_fill_ids :: "int \<Rightarrow> sched_req \<Rightarrow> sched_req" where
  "truncate_fill_ids n r = r\<lparr>sq_mem := (sq_mem r)\<lparr>rq_fill_ids := py_take n (rq_fill_ids (sq_mem r))\<rparr>\<rparr>"

definition add_to_batch :: "sched_req \<Rightarrow> prefill_adder \<Rightarrow> prefill_adder" where
  "add_to_batch r a = a\<lparr>pa_can_run_list := pa_can_run_list a @ [r]\<rparr>"

text \<open>A disabled cache ignores locks, also of a missing node.\<close>

definition lock_node :: "nat option \<Rightarrow> rcache \<Rightarrow> rcache res" where
  "lock_node node c = (case node of
     Some n \<Rightarrow> rbind (inc_lock_ref n c) (\<lambda>(_, c'). Inr c')
   | None \<Rightarrow> if rc_disable c then Inr c else Inl AttributeError)"

definition unlock_node :: "nat option \<Rightarrow> rcache \<Rightarrow> rcache res" where
  "unlock_node node c = (case node of
     Some n \<Rightarrow> rbind (dec_lock_ref n c) (\<lambda>(_, c'). Inr c')
   | None \<Rightarrow> if rc_disable c then Inr c else Inl AttributeError)"

definition adder_lock :: "nat option \<Rightarrow> prefill_adder \<Rightarrow> prefill_adder res" where
  "adder_lock node a = rbind (lock_node node (pa_tree a)) (\<lambda>c. Inr (a\<lparr>pa_tree := c\<rparr>))"

definition adder_unlock :: "nat option \<Rightarrow> prefill_adder \<Rightarrow> prefill_adder res" where
  "adder_unlock node a = rbind (unlock_node node (pa_tree a)) (\<lambda>c. Inr (a\<lparr>pa_tree := c\<rparr>))"

section \<open>Diffusion and chunked requests\<close>

definition get_dllm_remain_tokens :: "prefill_adder \<Rightarrow> int res" where
  "get_dllm_remain_tokens a = rbind (of_opt AttributeError (pa_dllm a)) (\<lambda>(block_size, rem).
     let n = min (min rem block_size) (py_int (rem_total_tokens a)) in Inr (if n \<le> 0 then rem else n))"

definition add_dllm_req :: "sched_req \<Rightarrow> int \<Rightarrow> prefill_adder \<Rightarrow> prefill_adder res" where
  "add_dllm_req r prefix_len a = rbind (of_opt AttributeError (pa_dllm a)) (\<lambda>(block_size, rem).
     let trunc_len = min rem block_size div int (pa_page_size a) * int (pa_page_size a);
         r' = truncate_fill_ids (prefix_len + trunc_len) (r\<lparr>sq_extend_input_len := trunc_len\<rparr>)
     in Inr (update_prefill_budget prefix_len trunc_len 0 (add_to_batch r' a)))"

definition add_dllm_staging_req :: "int \<Rightarrow> sched_req \<Rightarrow> prefill_adder \<Rightarrow> (add_result \<times> prefill_adder) res" where
  "add_dllm_staging_req clip r a =
     rbind (guard_res (pa_dllm a \<noteq> None) AssertionError) (\<lambda>_.
     rbind (get_dllm_remain_tokens a) (\<lambda>n.
     if n \<le> 0 then Inr (NO_TOKEN, a)
     else let truncated = n < sq_extend_input_len r;
              ext = min (sq_extend_input_len r) n;
              r' = truncate_fill_ids (int (length (sq_prefix r)) + ext) (r\<lparr>sq_extend_input_len := ext\<rparr>);
              a' = update_prefill_budget 0 ext (if truncated then 0 else min (sq_max_new_tokens r) clip) (add_to_batch r' a)
          in rbind (get_dllm_remain_tokens a') (\<lambda>m. Inr (if m \<le> 0 then NO_TOKEN else CONTINUE, a'))))"

text \<open>The result names the request again when its prefill is not finished by this chunk.\<close>

definition add_chunked_req :: "int \<Rightarrow> sched_req \<Rightarrow> prefill_adder \<Rightarrow> (sched_req option \<times> prefill_adder) res" where
  "add_chunked_req clip r a =
     rbind (if pa_dllm a \<noteq> None then get_dllm_remain_tokens a
            else rbind (of_opt TypeError (pa_rem_chunk_tokens a)) (\<lambda>chunk.
                 let n = min chunk (py_int (rem_total_tokens a)) in Inr (if n \<le> 0 then chunk else n))) (\<lambda>n.
     let truncated = n < sq_extend_input_len r;
         ext = min (sq_extend_input_len r) n;
         r' = truncate_fill_ids (int (length (sq_prefix r)) + ext) (set_extend_input_len ext r);
         a' = update_prefill_budget 0 ext (if truncated then 0 else min (sq_max_new_tokens r) clip) (add_to_batch r' a)
     in Inr (if truncated then Some r' else None, a'))"

section \<open>Requests that ignore the end-of-sequence token\<close>

text \<open>Insertion into the estimate of when running requests finish, as the loop of the source does it.\<close>

fun insert_position :: "rat \<Rightarrow> nat \<Rightarrow> (rat \<times> int) list \<Rightarrow> nat" where
  "insert_position tokens_left i [] = i"
| "insert_position tokens_left i [s] = i"
| "insert_position tokens_left i (s # s' # ss) = (if tokens_left \<le> fst s then i else insert_position tokens_left (Suc i) (s' # ss))"

definition add_req_state :: "rat \<Rightarrow> bool \<Rightarrow> sched_req \<Rightarrow> (rat \<times> int) list \<Rightarrow> (rat \<times> int) list" where
  "add_req_state ratio insert_sort r states =
     (let new_token_ratio = (if sq_ignore_eos r then 1 else ratio);
          tokens_left = of_int (sq_max_new_tokens r) * new_token_ratio - of_int (int (length (rq_output_ids (sq_mem r))));
          tokens_occupied = int (length (rq_origin_input_ids (sq_mem r))) + int (length (rq_output_ids (sq_mem r)))
      in if tokens_left \<le> 0 then states
         else if \<not> insert_sort then states @ [(tokens_left, tokens_occupied)]
         else let i = insert_position tokens_left 0 states
              in take i states @ [(tokens_left, tokens_occupied)] @ drop i states)"

text \<open>Whether the memory lasts until each estimated completion; \<open>freed\<close> is what earlier ones gave back.\<close>

fun enough_until :: "rat \<Rightarrow> rat \<Rightarrow> (rat \<times> int) list \<Rightarrow> bool" where
  "enough_until cur_rem freed [] = True"
| "enough_until cur_rem freed ((tokens_left, tokens_occupied) # ss) =
     (let bs = of_nat (Suc (length ss))
      in \<not> (cur_rem + freed - tokens_left * bs \<le> 1 * bs) \<and> enough_until cur_rem (freed + of_int tokens_occupied) ss)"

definition init_req_states :: "sched_req \<Rightarrow> prefill_adder \<Rightarrow> (rat \<times> int) list" where
  "init_req_states r a =
     sort_key fst (fold (add_req_state (pa_new_token_ratio a) False)
       (r # (case pa_running a of None \<Rightarrow> [] | Some rs \<Rightarrow> rs) @ pa_can_run_list a) [])"

definition ask_delayer :: "rat \<Rightarrow> (gather_row \<Rightarrow> gather_row list) \<Rightarrow> int \<Rightarrow> int \<Rightarrow> int \<Rightarrow> int \<Rightarrow> prefill_adder \<Rightarrow> bool \<times> prefill_adder" where
  "ask_delayer now view running max_prefill_bs max_running waiting a =
     (case pa_delayer a of
        None \<Rightarrow> (True, a)
      | Some sp \<Rightarrow> (case negotiate_should_allow_prefill now view True running max_prefill_bs max_running waiting sp of
           (allow, sp') \<Rightarrow> (allow, a\<lparr>pa_delayer := Some sp'\<rparr>)))"

definition add_one_req_ignore_eos ::
  "int \<Rightarrow> rat \<Rightarrow> (gather_row \<Rightarrow> gather_row list) \<Rightarrow> sched_req \<Rightarrow> prefill_adder \<Rightarrow> (add_result \<times> prefill_adder) res" where
  "add_one_req_ignore_eos clip now view r a =
     (let paged_input = ceil_paged_tokens (pa_page_size a) (sq_extend_input_len r)
      in if min (of_int (cur_rem_tokens a)) (rem_total_tokens a) < of_int paged_input then Inr (NO_TOKEN, a)
         else
           let states = (case pa_req_states a of
                           None \<Rightarrow> init_req_states r a
                         | Some ss \<Rightarrow> add_req_state (pa_new_token_ratio a) True r ss);
               a1 = a\<lparr>pa_req_states := Some states\<rparr>
           in if \<not> enough_until (of_int (cur_rem_tokens a1 - paged_input)) 0 states then Inr (NO_TOKEN, a1)
              else case ask_delayer now view 0 0 0 0 a1 of (allow, a2) \<Rightarrow>
                if \<not> allow then Inr (OTHER, a2)
                else case pa_dllm a2 of
                    Some (_, rem) \<Rightarrow>
                      if rem \<le> 0 then Inr (OTHER, a2)
                      else rbind (add_dllm_req r 0 a2) (\<lambda>a3. Inr (budget_state a3, a3))
                  | None \<Rightarrow>
                      (case pa_rem_chunk_tokens a2 of
                         Some chunk \<Rightarrow>
                           if sq_extend_input_len r \<le> chunk
                           then let a3 = update_prefill_budget 0 (sq_extend_input_len r) (min (sq_max_new_tokens r) clip) (add_to_batch r a2)
                                in Inr (budget_state a3, a3)
                           else if chunk \<le> 0 then Inr (OTHER, a2)
                           else let r' = truncate_fill_ids chunk (set_extend_input_len chunk r);
                                    a3 = update_prefill_budget 0 chunk 0 ((add_to_batch r' a2)\<lparr>pa_new_chunked_req := Some r'\<rparr>)
                                in Inr (budget_state a3, a3)
                       | None \<Rightarrow>
                           let a3 = update_prefill_budget 0 (sq_extend_input_len r) (min (sq_max_new_tokens r) clip) (add_to_batch r a2)
                           in Inr (budget_state a3, a3)))"

section \<open>Adding a request\<close>

text \<open>
  The part of \<open>add_one_req\<close> under the lock of the request's last node. \<open>None\<close> means that the function
  goes on to return the budget state, a result that it returns early. A radix cache has no host
  memory to load back from.
\<close>

definition chunk_length :: "nat \<Rightarrow> nat option \<Rightarrow> int \<Rightarrow> int \<Rightarrow> int option" where
  "chunk_length p align chunk prefix_len =
     (let trunc_len = chunk div int p * int p
      in if trunc_len \<le> 0 then None
         else case (case align of None \<Rightarrow> Some trunc_len
                    | Some al \<Rightarrow> if trunc_len < int al then None else Some (int al * (trunc_len div int al))) of
                None \<Rightarrow> None
              | Some t \<Rightarrow> let t' = (t + prefix_len) div int p * int p - prefix_len in if t' \<le> 0 then None else Some t')"

definition add_locked :: "int \<Rightarrow> nat option \<Rightarrow> sched_req \<Rightarrow> rat \<Rightarrow> prefill_adder \<Rightarrow> (add_result option \<times> prefill_adder) res" where
  "add_locked clip align r total_tokens a =
     (if rem_total_tokens a \<le> total_tokens then Inr (Some NO_TOKEN, a)
      else if 0 < sq_host_hit_length r then Inl NotImplementedError
      else
        let prefix_len = int (length (sq_prefix r));
            input_tokens = ceil_paged_tokens (pa_page_size a) (sq_extend_input_len r)
        in if pa_rem_input_tokens a \<le> input_tokens \<and> pa_can_run_list a \<noteq> [] then Inr (Some OTHER, a)
           else case pa_dllm a of
               Some (_, rem) \<Rightarrow>
                 if rem \<le> 0 then Inr (Some OTHER, a)
                 else rbind (guard_res (align = None) AssertionError) (\<lambda>_.
                      rbind (add_dllm_req r prefix_len a) (\<lambda>a1.
                      rbind (adder_lock (sq_node r) a1) (\<lambda>a2. Inr (None, a2))))
             | None \<Rightarrow>
                 (case pa_rem_chunk_tokens a of
                    Some chunk \<Rightarrow>
                      if input_tokens \<le> chunk
                      then rbind (adder_lock (sq_node r) (add_to_batch r a)) (\<lambda>a1.
                           Inr (None, update_prefill_budget prefix_len input_tokens (min (sq_max_new_tokens r) clip) a1))
                      else (case chunk_length (pa_page_size a) align chunk prefix_len of
                              None \<Rightarrow> Inr (Some OTHER, a)
                            | Some trunc_len \<Rightarrow>
                                let r' = truncate_fill_ids (prefix_len + trunc_len) (set_extend_input_len trunc_len r)
                                in rbind (adder_lock (sq_node r) ((add_to_batch r' a)\<lparr>pa_new_chunked_req := Some r'\<rparr>)) (\<lambda>a1.
                                   Inr (None, update_prefill_budget prefix_len trunc_len 0 a1)))
                  | None \<Rightarrow>
                      rbind (adder_lock (sq_node r) (add_to_batch r a)) (\<lambda>a1.
                      Inr (None, update_prefill_budget prefix_len input_tokens (min (sq_max_new_tokens r) clip) a1))))"

definition add_one_req ::
  "int \<Rightarrow> rat \<Rightarrow> (gather_row \<Rightarrow> gather_row list) \<Rightarrow> nat option \<Rightarrow> sched_req \<Rightarrow> prefill_adder \<Rightarrow> (add_result \<times> prefill_adder) res" where
  "add_one_req clip now view align r a =
     rbind (guard_res (pa_delayer a \<noteq> None \<longrightarrow> pa_running a \<noteq> None) AttributeError) (\<lambda>_.
      case ask_delayer now view (int (length (case pa_running a of None \<Rightarrow> [] | Some rs \<Rightarrow> rs))) (pa_max_prefill_bs a)
             (pa_max_running_requests a) (pa_waiting_queue_len a) a of (allow, a0) \<Rightarrow>
      if \<not> allow then Inr (OTHER, a0)
      else if pa_context_parallel a0 \<and> 1 \<le> length (pa_can_run_list a0) then Inr (OTHER, a0)
      else if (case pa_prefill_max_requests a0 of None \<Rightarrow> False | Some x \<Rightarrow> x \<le> length (pa_can_run_list a0)) then Inr (OTHER, a0)
      else if sq_ignore_eos r \<and> rc_disable (pa_tree a0) then add_one_req_ignore_eos clip now view r a0
      else
        let max_new = min (max (sq_max_new_tokens r - int (length (rq_output_ids (sq_mem r)))) 0) clip;
            total_tokens = of_int (sq_extend_input_len r + max_new + int (pa_page_size a0));
            real_input_tokens = ceil_paged_tokens (pa_page_size a0) (sq_extend_input_len r - int (sq_host_hit_length r))
        in if rem_total_tokens a0 \<le> total_tokens then Inr (NO_TOKEN, a0)
           else if pa_rem_input_tokens a0 \<le> real_input_tokens \<and> pa_can_run_list a0 \<noteq> [] then Inr (OTHER, a0)
           else rbind (adder_lock (sq_node r) a0) (\<lambda>a1.
                rbind (add_locked clip align r total_tokens a1) (\<lambda>(early, a2).
                rbind (adder_unlock (sq_node r) a2) (\<lambda>a3.
                Inr (case early of Some res \<Rightarrow> res | None \<Rightarrow> budget_state a3, a3)))))"

section \<open>The next batch\<close>

text \<open>
  \<open>init_next_round_input\<close> of a request that is not part of a streaming session and overrides no
  embeddings: match all but the last token, then set what is left to prefill. Without a cache the
  matched prefix is kept.
\<close>

definition init_next_round_input :: "bool \<Rightarrow> int \<Rightarrow> rcache option \<Rightarrow> sched_req \<Rightarrow> (sched_req \<times> rcache option) res" where
  "init_next_round_input force_miss now tree r =
     (let fill = rq_origin_input_ids (sq_mem r) @ rq_output_ids (sq_mem r);
          r1 = r\<lparr>sq_mem := (sq_mem r)\<lparr>rq_fill_ids := fill\<rparr>\<rparr>;
          n = int (length fill) - 1;
          n' = (if sq_return_logprob r \<and> 0 \<le> sq_logprob_start_len r then min n (sq_logprob_start_len r) else n);
          ids = take (nat (max n' 0)) fill
      in rbind (case tree of
           None \<Rightarrow> Inr (r1, None)
         | Some c \<Rightarrow>
             rbind (match_prefix now (mk_key ids (rq_extra_key (sq_mem r)) False) c) (\<lambda>(idx, node, c').
             case (if force_miss then zero_match_result c' (idx, node) else (idx, node)) of (idx', node') \<Rightarrow>
             Inr (r1\<lparr>sq_mem := (sq_mem r1)\<lparr>rq_prefix_indices := idx', rq_last_node := Some node', rq_cache_protected_len := length idx'\<rparr>,
                    sq_last_host_node := Some node', sq_host_hit_length := 0\<rparr>, Some c'))) (\<lambda>(r2, tree').
         Inr (set_extend_input_len (int (length (rq_fill_ids (sq_mem r2))) - int (length (sq_prefix r2))) r2, tree')))"

definition get_num_allocatable_reqs :: "int \<Rightarrow> req_pool \<Rightarrow> int \<Rightarrow> int" where
  "get_num_allocatable_reqs pp_max_micro_batch_size pool running_bs = min (pp_max_micro_batch_size - running_bs) (int (pool_available_size pool))"

text \<open>
  The loop of the scheduler over the waiting queue, without adapters, host memory, preemption and
  disaggregation: the flag that the batch is full, the requests that stay in the queue, and the
  adder. \<open>clk\<close> gives the clock reading of each lookup.
\<close>

fun admit_loop ::
  "bool \<Rightarrow> int \<Rightarrow> rat \<Rightarrow> (gather_row \<Rightarrow> gather_row list) \<Rightarrow> nat option \<Rightarrow> (nat \<Rightarrow> int) \<Rightarrow> int \<Rightarrow> nat \<Rightarrow> sched_req list \<Rightarrow> bool \<Rightarrow> prefill_adder
     \<Rightarrow> (bool \<times> sched_req list \<times> prefill_adder) res" where
  "admit_loop force_miss clip now view align clk allocatable i [] full a = Inr (full, [], a)"
| "admit_loop force_miss clip now view align clk allocatable i (r # rs) full a =
     (if full \<or> allocatable \<le> int (length (pa_can_run_list a)) then Inr (True, r # rs, a)
      else rbind (init_next_round_input force_miss (clk i) (Some (pa_tree a)) r) (\<lambda>(r1, tree).
           rbind (add_one_req clip now view align r1 (a\<lparr>pa_tree := the tree\<rparr>)) (\<lambda>(res, a1).
           let left = (if length (pa_can_run_list a1) = length (pa_can_run_list a) then [r1] else [])
           in if res \<noteq> CONTINUE then Inr (res = NO_TOKEN, left @ rs, a1)
              else rbind (admit_loop force_miss clip now view align clk allocatable (Suc i) rs False a1) (\<lambda>(full', rs', a2).
                   Inr (full', left @ rs', a2)))))"

end
