(* ===== verification/Prefill_Admission.thy ===== *)
theory Prefill_Admission
  imports Prefill_Adder
begin

text \<open>
  Admission to the prefill batch never promises more memory than there is: whatever the queue
  holds, the requests admitted fit the free and evictable slots together with the page each of
  them may waste, and each keeps its matched prefix locked.
\<close>

section \<open>Locking a node\<close>

definition rc_paths :: "rcache \<Rightarrow> rcache \<Rightarrow> bool" where
  "rc_paths c c' \<longleftrightarrow> rc_enabled c' \<and> lock_only c c' \<and> (\<forall>x us vs. node_path c' x us vs = node_path c x us vs)"

definition holds_by :: "int \<Rightarrow> rcache \<Rightarrow> rcache \<Rightarrow> nat \<Rightarrow> bool" where
  "holds_by k c c' n \<longleftrightarrow> (\<forall>m\<in>live c - {rc_root c}. held c' (live c') m = held c (live c) m + (if m = n then k else 0))"

lemma wf_paths:
  assumes "rc_wf c L pre vals" "rc_wf c' L pre vals" "lock_frame c c'" "\<not> rc_disable c"
  shows "rc_paths c c'"
proof -
  have "rc_enabled c'" using wf_contentD(1) [OF assms(2)] assms(3,4) by (simp add: rc_enabled_def lock_frame_def)
  moreover have "node_path c' x us vs = node_path c x us vs" for x us vs
    using assms(1,2) by (simp add: node_path_iff [of c L pre vals] node_path_iff [of c' L pre vals] rc_wf_def)
  ultimately show ?thesis using lock_frame_only [OF assms(1-3)] by (simp add: rc_paths_def)
qed

lemma evictable_by_locks:
  assumes "rc_wf c L pre vals" "rc_wf c' L pre vals" "lock_frame c c'" "\<forall>n. lock c' n = lock c n"
  shows "rc_evictable_size c' = rc_evictable_size c"
proof -
  have e: "rc_root c' = rc_root c" "\<And>n. nlen c' n = nlen c n" using assms(3) by (simp_all add: lock_frame_def same_tree_def)
  have "rc_evictable_size c = size_if c L (\<lambda>l. l = 0)" "rc_evictable_size c' = size_if c' L (\<lambda>l. l = 0)"
    using assms(1,2) by (simp_all add: rc_wf_def rc_acct_def)
  moreover have "size_if c' L (\<lambda>l. l = 0) = size_if c L (\<lambda>l. l = 0)" unfolding size_if_def e by (rule sum.cong) (use assms(4) in simp_all)
  ultimately show ?thesis by simp
qed

lemma anc_same_tree: "same_tree c d \<Longrightarrow> anc d a b \<longleftrightarrow> anc c a b"
proof
  assume s: "same_tree c d"
  show "anc d a b \<Longrightarrow> anc c a b" by (induction rule: anc.induct) (use s in \<open>auto intro: anc_parent simp: same_tree_def\<close>)
  show "anc c a b \<Longrightarrow> anc d a b" by (induction rule: anc.induct) (use s in \<open>auto intro: anc_parent simp: same_tree_def\<close>)
qed

lemma lock_node_wf:
  assumes d: "rc_wf d L pre vals" "lock_frame c d" "\<not> rc_disable c" "n \<in> L"
  shows "\<exists>d'. lock_node (Some n) d = Inr d' \<and> rc_wf d' L pre vals \<and> lock_frame c d'
      \<and> (\<forall>m\<in>L - {rc_root c}. held d' L m = held d L m + (if m = n then 1 else 0))
      \<and> (\<forall>m. lock d' m = lock d m + (if anc c m n \<and> m \<noteq> rc_root c then 1 else 0))"
proof -
  have f: "rc_root d = rc_root c" "\<not> rc_disable d" "\<And>m. anc d m n = anc c m n"
    using d(2,3) anc_same_tree [of c d] by (simp_all add: lock_frame_def same_tree_def)
  obtain d' where d': "inc_lock_ref n d = Inr (rc_evictable_size d' - rc_evictable_size d, d')" "rc_wf d' L pre vals" "lock_frame d d'"
     "\<forall>m\<in>L - {rc_root d}. held d' L m = held d L m + (if m = n then 1 else 0)"
     "\<forall>m. lock d' m = lock d m + (if anc d m n \<and> m \<noteq> rc_root d then 1 else 0)"
    using inc_lock_ref_spec [OF d(1,4) f(2)] by blast
  then show ?thesis using lock_frame_trans [OF d(2) d'(3)] f by (intro exI [of _ d']) (simp add: lock_node_def)
qed

lemma unlock_node_wf:
  assumes d: "rc_wf d L pre vals" "lock_frame c d" "\<not> rc_disable c" "n \<in> L" "n \<noteq> rc_root c \<Longrightarrow> 1 \<le> held d L n"
  shows "\<exists>d'. unlock_node (Some n) d = Inr d' \<and> rc_wf d' L pre vals \<and> lock_frame c d'
      \<and> (\<forall>m\<in>L - {rc_root c}. held d' L m = held d L m - (if m = n then 1 else 0))
      \<and> (\<forall>m. lock d' m = lock d m - (if anc c m n \<and> m \<noteq> rc_root c then 1 else 0))"
proof -
  have f: "rc_root d = rc_root c" "\<not> rc_disable d" "\<And>m. anc d m n = anc c m n"
    using d(2,3) anc_same_tree [of c d] by (simp_all add: lock_frame_def same_tree_def)
  have h: "n \<noteq> rc_root d \<Longrightarrow> 1 \<le> held d L n" using d(5) f(1) by simp
  obtain d' where d': "dec_lock_ref n d = Inr (rc_evictable_size d' - rc_evictable_size d, d')" "rc_wf d' L pre vals" "lock_frame d d'"
     "\<forall>m\<in>L - {rc_root d}. held d' L m = held d L m - (if m = n then 1 else 0)"
     "\<forall>m. lock d' m = lock d m - (if anc d m n \<and> m \<noteq> rc_root d then 1 else 0)"
    using dec_lock_ref_spec [OF d(1,4) f(2) h] by blast
  then show ?thesis using lock_frame_trans [OF d(2) d'(3)] f by (intro exI [of _ d']) (simp add: unlock_node_def)
qed

lemma lock_unlock:
  assumes en: "rc_enabled c" and n: "n \<in> live c"
  shows "\<exists>c1. lock_node (Some n) c = Inr c1 \<and> rc_paths c c1 \<and> holds_by 1 c c1 n
     \<and> (\<exists>c2. unlock_node (Some n) c1 = Inr c2 \<and> rc_paths c c2 \<and> holds_by 0 c c2 n \<and> rc_evictable_size c2 = rc_evictable_size c)
     \<and> (\<exists>c2 c3. lock_node (Some n) c1 = Inr c2 \<and> unlock_node (Some n) c2 = Inr c3 \<and> rc_paths c c3 \<and> holds_by 1 c c3 n
          \<and> rc_evictable_size c3 = rc_evictable_size c1)"
proof -
  obtain L pre vals where w: "rc_wf c L pre vals" "live c = L" "\<not> rc_disable c" using en by (metis rc_enabled_def rc_inv_wfE)
  let ?on = "\<lambda>m. anc c m n \<and> m \<noteq> rc_root c"
  have nL: "n \<in> L" using n w(2) by simp
  have nn: "n \<noteq> rc_root c \<Longrightarrow> 0 \<le> held c L n" using w(1) nL by (simp add: rc_wf_def rc_acct_def)
  obtain c1 where c1: "lock_node (Some n) c = Inr c1" "rc_wf c1 L pre vals" "lock_frame c c1"
     "\<forall>m\<in>L - {rc_root c}. held c1 L m = held c L m + (if m = n then 1 else 0)" "\<forall>m. lock c1 m = lock c m + (if ?on m then 1 else 0)"
    using lock_node_wf [OF w(1) lock_frame_refl w(3) nL] by blast
  have h1: "n \<noteq> rc_root c \<Longrightarrow> 1 \<le> held c1 L n" using c1(4) nn nL by simp
  obtain c2 where c2: "unlock_node (Some n) c1 = Inr c2" "rc_wf c2 L pre vals" "lock_frame c c2"
     "\<forall>m\<in>L - {rc_root c}. held c2 L m = held c1 L m - (if m = n then 1 else 0)" "\<forall>m. lock c2 m = lock c1 m - (if ?on m then 1 else 0)"
    using unlock_node_wf [OF c1(2,3) w(3) nL h1] by blast
  obtain d2 where d2: "lock_node (Some n) c1 = Inr d2" "rc_wf d2 L pre vals" "lock_frame c d2"
     "\<forall>m\<in>L - {rc_root c}. held d2 L m = held c1 L m + (if m = n then 1 else 0)" "\<forall>m. lock d2 m = lock c1 m + (if ?on m then 1 else 0)"
    using lock_node_wf [OF c1(2,3) w(3) nL] by blast
  have h2: "n \<noteq> rc_root c \<Longrightarrow> 1 \<le> held d2 L n" using d2(4) h1 nL by simp
  obtain d3 where d3: "unlock_node (Some n) d2 = Inr d3" "rc_wf d3 L pre vals" "lock_frame c d3"
     "\<forall>m\<in>L - {rc_root c}. held d3 L m = held d2 L m - (if m = n then 1 else 0)" "\<forall>m. lock d3 m = lock d2 m - (if ?on m then 1 else 0)"
    using unlock_node_wf [OF d2(2,3) w(3) nL h2] by blast
  have lv: "live c1 = L" "live c2 = L" "live d3 = L" using wf_contentD(2) c1(2) c2(2) d3(2) by blast+
  have hb: "holds_by 1 c c1 n" "holds_by 0 c c2 n" "holds_by 1 c d3 n"
    unfolding holds_by_def lv w(2) using c1(4) c2(4) d2(4) d3(4) by simp_all
  have f13: "lock_frame c1 d3" using c1(3) d3(3) by (simp add: lock_frame_def same_tree_def)
  have l2: "\<forall>m. lock c2 m = lock c m" "\<forall>m. lock d3 m = lock c1 m" using c1(5) c2(5) d2(5) d3(5) by simp_all
  note ev = evictable_by_locks [OF w(1) c2(2,3) l2(1)] evictable_by_locks [OF c1(2) d3(2) f13 l2(2)]
  note pt = wf_paths [OF w(1) c1(2,3) w(3)] wf_paths [OF w(1) c2(2,3) w(3)] wf_paths [OF w(1) d3(2,3) w(3)]
  show ?thesis using c1(1) c2(1) d2(1) d3(1) hb ev pt by blast
qed

section \<open>Page and chunk arithmetic\<close>

lemma ceil_paged_bounds:
  assumes "0 < p"
  shows "t \<le> ceil_paged_tokens p t" "ceil_paged_tokens p t < t + int p" "int p dvd ceil_paged_tokens p t"
proof -
  have p: "0 < int p" using assms by simp
  have e: "int p * ((- t) div int p) + (- t) mod int p = - t" by (rule mult_div_mod_eq)
  have m: "0 \<le> (- t) mod int p" "(- t) mod int p < int p" using p by simp_all
  have c: "ceil_paged_tokens p t = - (int p * ((- t) div int p))" by (simp add: ceil_paged_tokens_def mult.commute)
  show "t \<le> ceil_paged_tokens p t" "ceil_paged_tokens p t < t + int p" using e m unfolding c by linarith+
  show "int p dvd ceil_paged_tokens p t" unfolding c by simp
qed

lemma ceil_paged_id: "0 < p \<Longrightarrow> int p dvd t \<Longrightarrow> ceil_paged_tokens p t = t"
  by (auto simp: ceil_paged_tokens_def)

lemma ceil_paged_idem: "0 < p \<Longrightarrow> ceil_paged_tokens p (ceil_paged_tokens p t) = ceil_paged_tokens p t"
  by (rule ceil_paged_id) (simp_all add: ceil_paged_bounds)

lemma floor_paged_le: "0 < p \<Longrightarrow> t div int p * int p \<le> t"
  by (metis div_times_less_eq_dividend of_nat_0_less_iff zmod_le_nonneg_dividend less_imp_le div_mult_mod_eq le_add_same_cancel1 pos_mod_sign)

lemma chunk_length_bounds:
  assumes p: "0 < p" and c: "chunk_length p align chunk pre = Some t"
  shows "0 < t" "t \<le> chunk div int p * int p"
proof -
  let ?f = "chunk div int p * int p"
  obtain u where u: "u \<le> ?f" "t = (u + pre) div int p * int p - pre" "0 < t"
  proof (cases align)
    case None
    then show thesis using c that [of ?f] by (auto simp: chunk_length_def Let_def split: if_splits)
  next
    case (Some al)
    have "int al * (?f div int al) \<le> ?f" if "\<not> ?f < int al" "\<not> ?f \<le> 0"
      using mult_div_mod_eq [of "int al" ?f] pos_mod_sign [of "int al" ?f] that by (cases "al = 0") (simp, linarith)
    then show thesis using c Some that [of "int al * (?f div int al)"] by (auto simp: chunk_length_def Let_def split: if_splits)
  qed
  show "0 < t" by (rule u(3))
  show "t \<le> ?f" using floor_paged_le [OF p, of "u + pre"] u(1,2) by linarith
qed

lemma chunk_length_less:
  assumes p: "0 < p" and c: "chunk_length p align chunk pre = Some t" and ch: "chunk < ceil_paged_tokens p ext"
  shows "t < ext"
proof -
  have "chunk div int p * int p < ceil_paged_tokens p ext" using floor_paged_le [OF p, of chunk] ch by linarith
  moreover have "int p dvd chunk div int p * int p" by simp
  ultimately have "chunk div int p * int p + int p \<le> ceil_paged_tokens p ext"
    using ceil_paged_bounds(3) [OF p, of ext] p by (auto elim!: dvdE simp flip: distrib_left) (metis add1_zle_eq distrib_left mult.commute mult.right_neutral mult_left_mono mult_less_cancel_left_pos of_nat_0_le_iff of_nat_0_less_iff)
  then show ?thesis using chunk_length_bounds(2) [OF p c] ceil_paged_bounds(2) [OF p, of ext] by linarith
qed

section \<open>One request\<close>

definition req_ready :: "rcache \<Rightarrow> sched_req \<Rightarrow> bool" where
  "req_ready c r \<longleftrightarrow> (\<exists>n us. sq_node r = Some n \<and> n \<in> live c \<and> node_path c n us (sq_prefix r))
     \<and> int (length (rq_fill_ids (sq_mem r))) = int (length (sq_prefix r)) + sq_extend_input_len r \<and> 0 < sq_extend_input_len r"

definition req_locked :: "rcache \<Rightarrow> sched_req \<Rightarrow> bool" where
  "req_locked c r \<longleftrightarrow> (\<forall>n. sq_node r = Some n \<and> n \<noteq> rc_root c \<longrightarrow> 1 \<le> held c (live c) n)"

definition needed :: "nat \<Rightarrow> sched_req list \<Rightarrow> int" where
  "needed p rs = sum_list (map (\<lambda>r. sq_extend_input_len r + int p) rs)"

definition charged :: "nat \<Rightarrow> sched_req list \<Rightarrow> int" where
  "charged p rs = sum_list (map (\<lambda>r. ceil_paged_tokens p (sq_extend_input_len r) + int p) rs)"

definition adder_ok :: "prefill_adder \<Rightarrow> bool" where
  "adder_ok a \<longleftrightarrow> rc_enabled (pa_tree a) \<and> rc_page_size (pa_tree a) = pa_page_size a \<and> pa_dllm a = None \<and> pa_running a \<noteq> None
     \<and> of_int (charged (pa_page_size a) (pa_can_run_list a)) \<le> pa_rem_total_token_offset a
     \<and> needed (pa_page_size a) (pa_can_run_list a) \<le> available_and_evictable (pa_tree a)
     \<and> (\<forall>r\<in>set (pa_can_run_list a). req_ready (pa_tree a) r \<and> req_locked (pa_tree a) r)"

text \<open>What the batch is given of a request: itself or a first chunk.\<close>

definition piece_of :: "sched_req \<Rightarrow> sched_req \<Rightarrow> bool" where
  "piece_of r r' \<longleftrightarrow> sq_node r' = sq_node r \<and> sq_prefix r' = sq_prefix r \<and> sq_rid r' = sq_rid r
     \<and> 0 < sq_extend_input_len r' \<and> sq_extend_input_len r' \<le> sq_extend_input_len r
     \<and> rq_fill_ids (sq_mem r') = take (length (sq_prefix r) + nat (sq_extend_input_len r')) (rq_fill_ids (sq_mem r))
     \<and> rq_req_pool_idx (sq_mem r') = rq_req_pool_idx (sq_mem r)"

lemma piece_of_refl: "req_ready c r \<Longrightarrow> piece_of r r"
  by (auto simp: piece_of_def req_ready_def)

lemma piece_of_chunk:
  assumes "req_ready c r" "0 < t" "t \<le> sq_extend_input_len r"
  shows "piece_of r (truncate_fill_ids (int (length (sq_prefix r)) + t) (set_extend_input_len t r))"
  using assms by (simp add: piece_of_def truncate_fill_ids_def set_extend_input_len_def py_take_def Let_def nat_add_distrib)

lemma piece_of_ready: "req_ready c r \<Longrightarrow> piece_of r r' \<Longrightarrow> req_ready c r'"
  by (auto simp: req_ready_def piece_of_def)

lemma update_budget_fields:
  "pa_tree (update_prefill_budget x e m a) = pa_tree a" "pa_can_run_list (update_prefill_budget x e m a) = pa_can_run_list a"
  "pa_page_size (update_prefill_budget x e m a) = pa_page_size a" "pa_running (update_prefill_budget x e m a) = pa_running a"
  "pa_dllm a = None \<Longrightarrow> pa_dllm (update_prefill_budget x e m a) = None"
  "pa_rem_total_token_offset (update_prefill_budget x e m a)
     = pa_rem_total_token_offset a + of_int (ceil_paged_tokens (pa_page_size a) e + m + int (pa_page_size a))"
  by (simp_all add: update_prefill_budget_def Let_def)

definition grows :: "prefill_adder \<Rightarrow> prefill_adder \<Rightarrow> sched_req \<Rightarrow> rcache \<Rightarrow> bool" where
  "grows a a' r c \<longleftrightarrow> (\<exists>r' m. pa_tree a' = c \<and> pa_can_run_list a' = pa_can_run_list a @ [r'] \<and> piece_of r r' \<and> 0 \<le> m
     \<and> pa_rem_total_token_offset a' = pa_rem_total_token_offset a + of_int (ceil_paged_tokens (pa_page_size a) (sq_extend_input_len r') + m + int (pa_page_size a))
     \<and> pa_page_size a' = pa_page_size a \<and> pa_running a' = pa_running a \<and> pa_dllm a' = None)"

lemma add_locked_cases:
  assumes d: "pa_dllm a = None" and p: "0 < pa_page_size a" and r: "req_ready c0 r" "sq_host_hit_length r = 0" "0 \<le> sq_max_new_tokens r" "0 \<le> clip"
    and l: "lock_node (sq_node r) (pa_tree a) = Inr c2"
  shows "(\<exists>res. add_locked clip align r tot a = Inr (Some res, a))
     \<or> (\<exists>a2. add_locked clip align r tot a = Inr (None, a2) \<and> tot < rem_total_tokens a \<and> grows a a2 r c2)"
proof -
  have whole: "grows a (update_prefill_budget x (ceil_paged_tokens (pa_page_size a) (sq_extend_input_len r)) (min (sq_max_new_tokens r) clip)
      ((add_to_batch r a)\<lparr>pa_tree := c2\<rparr>)) r c2" for x
    unfolding grows_def using r d p piece_of_refl [OF r(1)] ceil_paged_idem [OF p]
    by (intro exI [of _ r] exI [of _ "min (sq_max_new_tokens r) clip"]) (simp add: update_budget_fields add_to_batch_def)
  have chunk: "grows a (update_prefill_budget x t 0
      ((add_to_batch (truncate_fill_ids (int (length (sq_prefix r)) + t) (set_extend_input_len t r)) a)\<lparr>pa_new_chunked_req := y, pa_tree := c2\<rparr>)) r c2"
    if "0 < t" "t \<le> sq_extend_input_len r" for x y t
    unfolding grows_def using d piece_of_chunk [OF r(1) that]
    by (intro exI [of _ "truncate_fill_ids (int (length (sq_prefix r)) + t) (set_extend_input_len t r)"] exI [of _ 0])
      (simp add: update_budget_fields add_to_batch_def, simp add: truncate_fill_ids_def set_extend_input_len_def Let_def)
  have lk: "adder_lock (sq_node r) (add_to_batch x a) = Inr ((add_to_batch x a)\<lparr>pa_tree := c2\<rparr>)"
    "adder_lock (sq_node r) ((add_to_batch x a)\<lparr>pa_new_chunked_req := y\<rparr>) = Inr ((add_to_batch x a)\<lparr>pa_new_chunked_req := y, pa_tree := c2\<rparr>)" for x y
    using l by (simp_all add: adder_lock_def add_to_batch_def)
  show ?thesis
  proof (cases "rem_total_tokens a \<le> tot \<or> (pa_rem_input_tokens a \<le> ceil_paged_tokens (pa_page_size a) (sq_extend_input_len r) \<and> pa_can_run_list a \<noteq> [])")
    case True
    then show ?thesis using r(2) by (auto simp: add_locked_def Let_def)
  next
    case go: False
    show ?thesis
    proof (cases "pa_rem_chunk_tokens a")
      case None
      then show ?thesis using go d r(2) whole lk(1) by (simp add: add_locked_def Let_def)
    next
      case (Some ch)
      show ?thesis
      proof (cases "ceil_paged_tokens (pa_page_size a) (sq_extend_input_len r) \<le> ch")
        case True
        then show ?thesis using go d r(2) whole lk(1) Some by (simp add: add_locked_def Let_def)
      next
        case big: False
        show ?thesis
        proof (cases "chunk_length (pa_page_size a) align ch (int (length (sq_prefix r)))")
          case None
          then show ?thesis using go d r(2) Some big by (simp add: add_locked_def Let_def)
        next
          case t: (Some t)
          have "0 < t" "t \<le> sq_extend_input_len r" using chunk_length_bounds(1) [OF p t] chunk_length_less [OF p t, of "sq_extend_input_len r"] big by simp_all
          then show ?thesis using go d r(2) Some big t chunk lk(2) by (simp add: add_locked_def Let_def)
        qed
      qed
    qed
  qed
qed

definition rc_keeps :: "rcache \<Rightarrow> rcache \<Rightarrow> bool" where
  "rc_keeps c c' \<longleftrightarrow> rc_enabled c' \<and> rc_same c c' \<and> content c' = content c \<and> rc_allocator c' = rc_allocator c \<and> live c \<subseteq> live c'
     \<and> (\<forall>n\<in>live c. \<forall>us vs. node_path c' n us vs = node_path c n us vs)
     \<and> (\<forall>n\<in>live c - {rc_root c}. held c (live c) n \<le> held c' (live c') n)"

lemma rc_keeps_trans: 
  assumes "rc_keeps a b" "rc_keeps b c"
  shows "rc_keeps a c"
proof -
  have r: "rc_root b = rc_root a" using assms(1) by (simp add: rc_keeps_def rc_same_def)
  have h: "held a (live a) n \<le> held c (live c) n" if "n \<in> live a - {rc_root a}" for n
  proof -
    have "n \<in> live b - {rc_root b}" using that assms(1) r by (auto simp: rc_keeps_def)
    then show ?thesis using that assms unfolding rc_keeps_def by (meson order_trans)
  qed
  have pth: "node_path c n us vs = node_path a n us vs" if "n \<in> live a" for n us vs
  proof -
    have "n \<in> live b" using that assms(1) by (auto simp: rc_keeps_def)
    then show ?thesis using that assms by (simp add: rc_keeps_def)
  qed
  show ?thesis using assms h pth rc_same_trans [of a b c] by (auto simp: rc_keeps_def)
qed

lemma rc_keeps_refl: "rc_enabled c \<Longrightarrow> rc_keeps c c"
  by (simp add: rc_keeps_def)

lemma rc_paths_keeps: "rc_paths c c' \<Longrightarrow> holds_by k c c' n \<Longrightarrow> 0 \<le> k \<Longrightarrow> rc_keeps c c'"
  by (auto simp: rc_paths_def holds_by_def rc_keeps_def lock_only_def)

lemma req_ready_keeps: "req_ready c r \<Longrightarrow> rc_keeps c c' \<Longrightarrow> req_ready c' r"
  unfolding req_ready_def rc_keeps_def by blast

lemma req_locked_keeps:
  assumes "req_locked c r" "req_ready c r" "rc_keeps c c'"
  shows "req_locked c' r"
  unfolding req_locked_def
proof (intro allI impI)
  fix n assume n: "sq_node r = Some n \<and> n \<noteq> rc_root c'"
  then have "n \<in> live c - {rc_root c}" using assms(2,3) by (auto simp: req_ready_def rc_keeps_def rc_same_def)
  then have "held c (live c) n \<le> held c' (live c') n" "1 \<le> held c (live c) n" using assms n by (auto simp: rc_keeps_def req_locked_def)
  then show "1 \<le> held c' (live c') n" by simp
qed

lemma adder_ok_tree:
  assumes "adder_ok a" "rc_keeps (pa_tree a) c" "rc_evictable_size c = rc_evictable_size (pa_tree a)"
  shows "adder_ok (a\<lparr>pa_tree := c\<rparr>)"
proof -
  have "req_ready c r \<and> req_locked c r" if "r \<in> set (pa_can_run_list a)" for r
    using assms(1,2) that req_ready_keeps req_locked_keeps unfolding adder_ok_def by blast
  then show ?thesis using assms by (simp add: adder_ok_def available_and_evictable_def rc_keeps_def rc_same_def)
qed

lemma ask_delayer_only: "ask_delayer now view w x y z a = (b, a0) \<Longrightarrow> \<exists>d. a0 = a\<lparr>pa_delayer := d\<rparr>"
proof (cases "pa_delayer a")
  case None
  moreover assume "ask_delayer now view w x y z a = (b, a0)"
  ultimately show ?thesis by (intro exI [of _ None]) (simp add: ask_delayer_def)
qed (auto simp: ask_delayer_def split: prod.splits)

lemma adder_ok_delayer: "adder_ok (a\<lparr>pa_delayer := d\<rparr>) = adder_ok a"
  by (simp add: adder_ok_def)

definition admitted_one :: "prefill_adder \<Rightarrow> prefill_adder \<Rightarrow> sched_req \<Rightarrow> bool" where
  "admitted_one a a' r \<longleftrightarrow> adder_ok a' \<and> rc_keeps (pa_tree a) (pa_tree a') \<and> pa_page_size a' = pa_page_size a
     \<and> (pa_can_run_list a' = pa_can_run_list a \<or> (\<exists>r'. pa_can_run_list a' = pa_can_run_list a @ [r'] \<and> piece_of r r'))"

lemma admit_grows:
  assumes ok: "adder_ok a" and p: "0 < pa_page_size a" and r: "req_ready (pa_tree a) r" "sq_node r = Some n"
    and c1: "rc_paths (pa_tree a) c1" and g: "grows (a\<lparr>pa_tree := c1\<rparr>) a2 r c2"
    and c3: "rc_paths (pa_tree a) c3" "holds_by 1 (pa_tree a) c3 n" "rc_evictable_size c3 = rc_evictable_size c1"
    and tot: "of_int (sq_extend_input_len r + mx + int (pa_page_size a)) < rem_total_tokens (a\<lparr>pa_tree := c1\<rparr>)" "0 \<le> mx"
  shows "admitted_one a (a2\<lparr>pa_tree := c3\<rparr>) r"
proof -
  obtain r' m where g': "pa_can_run_list a2 = pa_can_run_list a @ [r']" "piece_of r r'" "0 \<le> m"
     "pa_rem_total_token_offset a2 = pa_rem_total_token_offset a + of_int (ceil_paged_tokens (pa_page_size a) (sq_extend_input_len r') + m + int (pa_page_size a))"
     "pa_page_size a2 = pa_page_size a" "pa_running a2 = pa_running a" "pa_dllm a2 = None" using g by (auto simp: grows_def)
  let ?p = "pa_page_size a" and ?R = "pa_can_run_list a"
  have k: "rc_keeps (pa_tree a) c3" by (rule rc_paths_keeps [OF c3(1,2)]) simp
  have av: "available_and_evictable c3 = available_and_evictable c1"
    using c1 c3 by (simp add: available_and_evictable_def rc_paths_def lock_only_def)
  have nc: "needed ?p ?R \<le> charged ?p ?R" unfolding needed_def charged_def
    by (rule sum_list_mono) (simp add: ceil_paged_bounds(1) [OF p])
  have ch: "of_int (charged ?p ?R) \<le> pa_rem_total_token_offset a" using ok by (simp add: adder_ok_def)
  have t: "of_int (sq_extend_input_len r + mx + int ?p) + pa_rem_total_token_offset a < (of_int (available_and_evictable c3) :: rat)"
    using tot(1) unfolding rem_total_tokens_def av by simp
  have "of_int (charged ?p ?R + (sq_extend_input_len r' + int ?p)) \<le> (of_int (sq_extend_input_len r + mx + int ?p) + pa_rem_total_token_offset a)"
    using ch g'(2) tot(2) by (simp add: piece_of_def)
  with t have "charged ?p ?R + (sq_extend_input_len r' + int ?p) < available_and_evictable c3" by (metis le_less_trans of_int_less_iff)
  then have fits: "needed ?p (?R @ [r']) \<le> available_and_evictable c3" using nc by (simp add: needed_def)
  have chg: "of_int (charged ?p (?R @ [r'])) \<le> pa_rem_total_token_offset a2"
    using ch g'(3) unfolding g'(4) by (simp add: charged_def)
  have rr: "req_ready c3 r'" using piece_of_ready [OF req_ready_keeps [OF r(1) k] g'(2)] .
  have "req_locked c3 r'"
    unfolding req_locked_def
  proof (intro allI impI)
    fix x assume x: "sq_node r' = Some x \<and> x \<noteq> rc_root c3"
    then have xn: "x = n" "n \<in> live (pa_tree a) - {rc_root (pa_tree a)}" using g'(2) r k by (auto simp: piece_of_def req_ready_def rc_keeps_def rc_same_def)
    have "rc_enabled (pa_tree a)" using ok by (simp add: adder_ok_def)
    then obtain L pre vals where w: "rc_wf (pa_tree a) L pre vals" "live (pa_tree a) = L" by (metis rc_enabled_def rc_inv_wfE)
    then have "0 \<le> held (pa_tree a) (live (pa_tree a)) n" using xn(2) by (simp add: rc_wf_def rc_acct_def)
    then show "1 \<le> held c3 (live c3) x" using c3(2) xn by (simp add: holds_by_def)
  qed
  moreover have "req_ready c3 q \<and> req_locked c3 q" if "q \<in> set ?R" for q
    using ok that req_ready_keeps [OF _ k] req_locked_keeps [OF _ _ k] unfolding adder_ok_def by blast
  ultimately have "adder_ok (a2\<lparr>pa_tree := c3\<rparr>)"
    using ok g' k fits chg rr by (auto simp: adder_ok_def rc_keeps_def rc_same_def)
  then show ?thesis using k g' by (simp add: admitted_one_def)
qed

lemma add_one_req_ok:
  assumes ok: "adder_ok a" and r: "req_ready (pa_tree a) r" "sq_host_hit_length r = 0" "0 \<le> sq_max_new_tokens r" and clip: "0 \<le> clip"
  shows "\<exists>res a'. add_one_req clip now view align r a = Inr (res, a') \<and> admitted_one a a' r"
proof -
  obtain b a0 where ask: "ask_delayer now view (int (length (case pa_running a of None \<Rightarrow> [] | Some rs \<Rightarrow> rs))) (pa_max_prefill_bs a)
             (pa_max_running_requests a) (pa_waiting_queue_len a) a = (b, a0)" by fastforce
  obtain d where a0: "a0 = a\<lparr>pa_delayer := d\<rparr>" using ask_delayer_only [OF ask] by blast
  have run: "pa_running a \<noteq> None" using ok by (simp add: adder_ok_def)
  have ok0: "adder_ok a0" using ok a0 by (simp add: adder_ok_delayer)
  have en: "rc_enabled (pa_tree a0)" "\<not> rc_disable (pa_tree a0)" using ok0 by (auto simp: adder_ok_def rc_enabled_def)
  have same: "admitted_one a a0 r" using ok0 a0 rc_keeps_refl en(1) by (simp add: admitted_one_def)
  obtain n where n: "sq_node r = Some n" "n \<in> live (pa_tree a0)" using r(1) a0 by (auto simp: req_ready_def)
  have p: "0 < pa_page_size a0" using ok0 rc_enabledD(4) [OF en(1)] by (simp add: adder_ok_def)
  have r0: "req_ready (pa_tree a0) r" using r(1) a0 by simp
  obtain c1 c2 d2 d3 where l: "lock_node (Some n) (pa_tree a0) = Inr c1" "rc_paths (pa_tree a0) c1" "unlock_node (Some n) c1 = Inr c2"
      "rc_paths (pa_tree a0) c2" "holds_by 0 (pa_tree a0) c2 n" "rc_evictable_size c2 = rc_evictable_size (pa_tree a0)"
      "lock_node (Some n) c1 = Inr d2" "unlock_node (Some n) d2 = Inr d3" "rc_paths (pa_tree a0) d3" "holds_by 1 (pa_tree a0) d3 n"
      "rc_evictable_size d3 = rc_evictable_size c1"
    using lock_unlock [OF en(1) n(2)] by blast
  let ?mx = "min (max (sq_max_new_tokens r - int (length (rq_output_ids (sq_mem r)))) 0) clip"
  let ?tot = "of_int (sq_extend_input_len r + ?mx + int (pa_page_size a0)) :: rat"
  let ?a1 = "a0\<lparr>pa_tree := c1\<rparr>"
  have lk: "adder_lock (Some n) a0 = Inr ?a1" using l(1) by (simp add: adder_lock_def)
  have al: "pa_dllm ?a1 = None" "0 < pa_page_size ?a1" "lock_node (sq_node r) (pa_tree ?a1) = Inr d2"
    using ok0 p l(7) n(1) by (simp_all add: adder_ok_def)
  consider (early) res where "add_locked clip align r ?tot ?a1 = Inr (Some res, ?a1)"
    | (added) a2 where "add_locked clip align r ?tot ?a1 = Inr (None, a2)" "?tot < rem_total_tokens ?a1" "grows ?a1 a2 r d2"
    using add_locked_cases [OF al(1,2) r0 r(2,3) clip al(3), of align ?tot] by blast
  then have "\<exists>e a2 a3. add_locked clip align r ?tot ?a1 = Inr (e, a2) \<and> adder_unlock (Some n) a2 = Inr a3 \<and> admitted_one a0 a3 r"
  proof cases
    case early
    have k: "rc_keeps (pa_tree a0) c2" by (rule rc_paths_keeps [OF l(4,5)]) simp
    have "adder_unlock (Some n) ?a1 = Inr (a0\<lparr>pa_tree := c2\<rparr>)" using l(3) by (simp add: adder_unlock_def)
    moreover have "admitted_one a0 (a0\<lparr>pa_tree := c2\<rparr>) r" using adder_ok_tree [OF ok0 k l(6)] k by (simp add: admitted_one_def)
    ultimately show ?thesis using early by blast
  next
    case added
    have "pa_tree a2 = d2" using added(3) by (auto simp: grows_def)
    then have "adder_unlock (Some n) a2 = Inr (a2\<lparr>pa_tree := d3\<rparr>)" using l(8) by (simp add: adder_unlock_def)
    moreover have "admitted_one a0 (a2\<lparr>pa_tree := d3\<rparr>) r"
      by (rule admit_grows [OF ok0 p r0 n(1) l(2) added(3) l(9,10,11) added(2)]) (use clip in simp)
    ultimately show ?thesis using added(1) by blast
  qed
  then obtain e a2 a3 where f: "add_locked clip align r ?tot ?a1 = Inr (e, a2)" "adder_unlock (Some n) a2 = Inr a3" "admitted_one a0 a3 r" by blast
  have f3: "admitted_one a a3 r" using f(3) a0 by (simp add: admitted_one_def)
  have "add_one_req clip now view align r a = Inr (OTHER, a0) \<or> add_one_req clip now view align r a = Inr (NO_TOKEN, a0)
      \<or> add_one_req clip now view align r a = Inr (case e of None \<Rightarrow> budget_state a3 | Some res \<Rightarrow> res, a3)"
    using run en(2) lk f(1,2) n(1) unfolding add_one_req_def ask by (simp add: Let_def)
  then show ?thesis using same f3 by blast
qed

section \<open>The whole queue\<close>

text \<open>A request in the queue: it has something to compute and no row of the pool yet.\<close>

definition queued_ok :: "sched_req \<Rightarrow> bool" where
  "queued_ok r \<longleftrightarrow> rq_origin_input_ids (sq_mem r) \<noteq> [] \<and> 0 \<le> sq_max_new_tokens r \<and> rq_req_pool_idx (sq_mem r) = None"

definition input_of :: "sched_req \<Rightarrow> int list" where
  "input_of r = rq_origin_input_ids (sq_mem r) @ rq_output_ids (sq_mem r)"

text \<open>A request of the queue after its round of input preparation.\<close>

definition prepared :: "sched_req \<Rightarrow> sched_req \<Rightarrow> bool" where
  "prepared r r' \<longleftrightarrow> sq_rid r' = sq_rid r \<and> rq_fill_ids (sq_mem r') = input_of r \<and> rq_req_pool_idx (sq_mem r') = rq_req_pool_idx (sq_mem r)
     \<and> input_of r' = input_of r \<and> sq_max_new_tokens r' = sq_max_new_tokens r \<and> queued_ok r'"

lemma aligned_units_le: "length (aligned_units c (mk_key ids ek False)) \<le> length ids"
proof -
  have "length (aligned_units c k) \<le> key_len (key_view c k)" for k
    by (simp add: aligned_units_def page_floor_le min.coboundedI2)
  moreover have "key_len (key_view c (mk_key ids ek False)) \<le> length ids"
    by (simp add: key_view_def mk_key_def maybe_to_bigram_view_def key_len_def)
  ultimately show ?thesis by (meson order_trans)
qed

lemma node_path_length: "rc_enabled c \<Longrightarrow> node_path c n us vs \<Longrightarrow> length us = length vs"
proof -
  assume "rc_enabled c" and n: "node_path c n us vs"
  then obtain L pre vals where t: "rc_tree c L pre vals" by (metis rc_enabled_def rc_inv_wfE)
  show ?thesis using n length_vals [OF t] by (simp add: node_path_iff [OF t])
qed

lemma take_path_length: "rc_enabled c \<Longrightarrow> node_path c n (take (length vs) us) vs \<Longrightarrow> length vs \<le> length us"
  using node_path_length [of c n "take (length vs) us" vs] by simp

lemma init_next_round_input_ok:
  assumes en: "rc_enabled c" and r: "queued_ok r"
  shows "\<exists>r' c'. init_next_round_input f now (Some c) r = Inr (r', Some c') \<and> rc_keeps c c' \<and> rc_evictable_size c' = rc_evictable_size c
     \<and> req_ready c' r' \<and> sq_host_hit_length r' = 0 \<and> prepared r r'"
proof -
  let ?fill = "input_of r"
  let ?n = "int (length ?fill) - 1"
  let ?n' = "if sq_return_logprob r \<and> 0 \<le> sq_logprob_start_len r then min ?n (sq_logprob_start_len r) else ?n"
  let ?ids = "take (nat (max ?n' 0)) ?fill"
  let ?key = "mk_key ?ids (rq_extra_key (sq_mem r)) False"
  have ne: "?fill \<noteq> []" using r by (simp add: queued_ok_def input_of_def)
  have "key_ok c ?key" by (simp add: key_ok_def mk_key_def)
  from match_prefix_ok [OF en this, of now]
  obtain idx node c' where m: "match_prefix now ?key c = Inr (idx, node, c')" "rc_enabled c'" "content c' = content c"
     "longest_match (content c) (extra_key ?key) (aligned_units c ?key) (length idx)" "node \<in> live c'"
     "node_path c' node (take (length idx) (aligned_units c ?key)) idx" "rc_evictable_size c' = rc_evictable_size c"
     "rc_same c c'" "rc_allocator c' = rc_allocator c" "live c \<subseteq> live c'"
     "\<forall>n\<in>live c. held c' (live c') n = held c (live c) n \<and> (\<forall>us vs. node_path c' n us vs = node_path c n us vs)"
    by blast
  have keeps: "rc_keeps c c'" using m by (simp add: rc_keeps_def)
  obtain L pre vals where t: "rc_tree c' L pre vals" using m(2) by (metis rc_enabled_def rc_inv_wfE)
  have "length idx \<le> length (aligned_units c ?key)" by (rule take_path_length [OF m(2,6)])
  then have li: "length idx \<le> length ?ids" using aligned_units_le order_trans by blast
  moreover have "length ?ids < length ?fill" using ne by (cases ?fill) auto
  ultimately have lt: "length idx < length ?fill" by (rule le_less_trans)
  define idx' node' where "idx' = (if f then [] else idx)" and "node' = (if f then rc_root c' else node)"
  have path: "\<exists>us. node_path c' node' us idx'" "node' \<in> live c'"
    using m(5,6) root_live [OF m(2)] rc_treeD(3,6) [OF t] by (auto simp: idx'_def node'_def node_path_iff [OF t])
  have len: "length idx' < length ?fill" using lt ne by (simp add: idx'_def)
  let ?r2 = "r\<lparr>sq_mem := (sq_mem r)\<lparr>rq_fill_ids := ?fill, rq_prefix_indices := idx', rq_last_node := Some node', rq_cache_protected_len := length idx'\<rparr>,
                    sq_last_host_node := Some node', sq_host_hit_length := 0\<rparr>"
  let ?r3 = "set_extend_input_len (int (length ?fill) - int (length idx')) ?r2"
  have "init_next_round_input f now (Some c) r = Inr (?r3, Some c')"
    unfolding init_next_round_input_def input_of_def [symmetric] Let_def option.case m(1) rbind_simps prod.case
    by (simp add: zero_match_result_def idx'_def node'_def)
  moreover have "req_ready c' ?r3" using path len by (auto simp: req_ready_def set_extend_input_len_def Let_def)
  moreover have "prepared r ?r3" using r by (simp add: prepared_def set_extend_input_len_def Let_def input_of_def queued_ok_def)
  moreover have "sq_host_hit_length ?r3 = 0" by (simp add: set_extend_input_len_def Let_def)
  ultimately show ?thesis using keeps m(7) by blast
qed

text \<open>What a request of the queue becomes: a piece of it in the batch, or it stays.\<close>

definition admitted_from :: "sched_req \<Rightarrow> sched_req \<Rightarrow> bool" where
  "admitted_from r r' \<longleftrightarrow> (\<exists>r1. prepared r r1 \<and> piece_of r1 r')"

definition stays :: "sched_req \<Rightarrow> sched_req \<Rightarrow> bool" where
  "stays r r' \<longleftrightarrow> r' = r \<or> prepared r r'"

definition admits :: "prefill_adder \<Rightarrow> prefill_adder \<Rightarrow> sched_req list \<Rightarrow> sched_req list \<Rightarrow> bool" where
  "admits a a' rs left \<longleftrightarrow> adder_ok a' \<and> rc_keeps (pa_tree a) (pa_tree a') \<and> pa_page_size a' = pa_page_size a
     \<and> (\<exists>new. pa_can_run_list a' = pa_can_run_list a @ new \<and> (\<forall>r'\<in>set new. \<exists>r\<in>set rs. admitted_from r r')
         \<and> (\<forall>r'\<in>set left. \<exists>r\<in>set rs. stays r r') \<and> mset (map sq_rid new) + mset (map sq_rid left) = mset (map sq_rid rs))"

lemma admit_loop_ok:
  assumes "adder_ok a" "0 \<le> clip" "\<forall>r\<in>set rs. queued_ok r"
  shows "\<exists>full' left a'. admit_loop f clip now view align clk allocatable i rs full a = Inr (full', left, a') \<and> admits a a' rs left
     \<and> (int (length (pa_can_run_list a)) \<le> allocatable \<longrightarrow> int (length (pa_can_run_list a')) \<le> allocatable)"
  using assms
proof (induction rs arbitrary: i full a)
  case Nil
  then have "admits a a [] []" by (simp add: admits_def adder_ok_def rc_keeps_refl)
  then show ?case by simp
next
  case (Cons r rs)
  show ?case
  proof (cases "full \<or> allocatable \<le> int (length (pa_can_run_list a))")
    case True
    have "admits a a (r # rs) (r # rs)" using Cons.prems(1) by (auto simp: admits_def stays_def adder_ok_def rc_keeps_refl)
    moreover have "admit_loop f clip now view align clk allocatable i (r # rs) full a = Inr (True, r # rs, a)" using True by simp
    ultimately show ?thesis by blast
  next
    case False
    have en: "rc_enabled (pa_tree a)" using Cons.prems(1) by (simp add: adder_ok_def)
    obtain r1 c1 where r1: "init_next_round_input f (clk i) (Some (pa_tree a)) r = Inr (r1, Some c1)" "rc_keeps (pa_tree a) c1"
       "rc_evictable_size c1 = rc_evictable_size (pa_tree a)" "req_ready c1 r1" "sq_host_hit_length r1 = 0" "prepared r r1"
      using init_next_round_input_ok [OF en, of r f "clk i"] Cons.prems(3) by auto
    let ?a = "a\<lparr>pa_tree := c1\<rparr>"
    have "0 \<le> sq_max_new_tokens r1" using r1(6) Cons.prems(3) by (simp add: prepared_def queued_ok_def)
    then obtain res a1 where a1: "add_one_req clip now view align r1 ?a = Inr (res, a1)" "admitted_one ?a a1 r1"
      using add_one_req_ok [OF adder_ok_tree [OF Cons.prems(1) r1(2,3)], of r1 clip now view align] r1(4,5) Cons.prems(2) by auto
    let ?left = "if length (pa_can_run_list a1) = length (pa_can_run_list a) then [r1] else []"
    have step: "admits a a1 [r] ?left" "int (length (pa_can_run_list a1)) \<le> allocatable"
    proof -
      have k: "rc_keeps (pa_tree a) (pa_tree a1)" using rc_keeps_trans [OF r1(2)] a1(2) by (simp add: admitted_one_def)
      have rid: "sq_rid r1 = sq_rid r" "stays r r1" using r1(6) by (simp_all add: prepared_def stays_def)
      have ok1: "adder_ok a1" "pa_page_size a1 = pa_page_size a" using a1(2) by (simp_all add: admitted_one_def)
      from a1(2) consider "pa_can_run_list a1 = pa_can_run_list a" | r' where "pa_can_run_list a1 = pa_can_run_list a @ [r']" "piece_of r1 r'"
        by (auto simp: admitted_one_def)
      then show "admits a a1 [r] ?left"
      proof cases
        case 1
        then show ?thesis using k ok1 rid by (simp add: admits_def)
      next
        case (2 r')
        then have "admitted_from r r'" "sq_rid r' = sq_rid r" using r1(6) rid by (auto simp: admitted_from_def piece_of_def)
        then show ?thesis using k ok1 2(1) by (simp add: admits_def)
      qed
      show "int (length (pa_can_run_list a1)) \<le> allocatable" using a1(2) False by (auto simp: admitted_one_def)
    qed
    have more: "admits a a2 (r # rs) (?left @ ls)" if ls: "admits a1 a2 rs ls" for a2 ls
    proof -
      obtain n1 where n1: "pa_can_run_list a1 = pa_can_run_list a @ n1" "\<forall>r'\<in>set n1. admitted_from r r'"
         "\<forall>r'\<in>set ?left. stays r r'" "mset (map sq_rid n1) + mset (map sq_rid ?left) = {#sq_rid r#}" using step(1) by (auto simp: admits_def)
      obtain n2 where n2: "pa_can_run_list a2 = pa_can_run_list a1 @ n2" "\<forall>r'\<in>set n2. \<exists>r\<in>set rs. admitted_from r r'"
         "\<forall>r'\<in>set ls. \<exists>r\<in>set rs. stays r r'" "mset (map sq_rid n2) + mset (map sq_rid ls) = mset (map sq_rid rs)" using ls by (auto simp: admits_def)
      have "mset (map sq_rid (n1 @ n2)) + mset (map sq_rid (?left @ ls)) = mset (map sq_rid (r # rs))"
      proof -
        have "mset (map sq_rid (n1 @ n2)) + mset (map sq_rid (?left @ ls))
            = (mset (map sq_rid n1) + mset (map sq_rid ?left)) + (mset (map sq_rid n2) + mset (map sq_rid ls))" by (simp only: map_append mset_append ac_simps)
        then show ?thesis unfolding n1(4) n2(4) by simp
      qed
      moreover have "adder_ok a2" "rc_keeps (pa_tree a) (pa_tree a2)" "pa_page_size a2 = pa_page_size a"
        using ls step(1) rc_keeps_trans [of "pa_tree a" "pa_tree a1" "pa_tree a2"] by (simp_all add: admits_def)
      moreover have "\<forall>r'\<in>set (n1 @ n2). \<exists>r\<in>set (r # rs). admitted_from r r'" "\<forall>r'\<in>set (?left @ ls). \<exists>r\<in>set (r # rs). stays r r'"
        using n1(2,3) n2(2,3) by auto
      ultimately show ?thesis unfolding admits_def using n1(1) n2(1) by (intro conjI exI [of _ "n1 @ n2"]) simp_all
    qed
    show ?thesis
    proof (cases "res = CONTINUE")
      case True
      obtain full' left a2 where l: "admit_loop f clip now view align clk allocatable (Suc i) rs False a1 = Inr (full', left, a2)" "admits a1 a2 rs left"
         "int (length (pa_can_run_list a2)) \<le> allocatable"
        using Cons.IH [of a1 "Suc i" False] step Cons.prems(2,3) by (auto simp: admits_def)
      have "admit_loop f clip now view align clk allocatable i (r # rs) full a = Inr (full', ?left @ left, a2)"
        using False r1(1) a1(1) l(1) True by (simp add: Let_def)
      then show ?thesis using more [OF l(2)] l(3) by blast
    next
      case stop: False
      have "admits a1 a1 rs rs" using step(1) by (auto simp: admits_def stays_def rc_keeps_refl adder_ok_def)
      moreover have "admit_loop f clip now view align clk allocatable i (r # rs) full a = Inr (res = NO_TOKEN, ?left @ rs, a1)"
        using False r1(1) a1(1) stop by (simp add: Let_def)
      ultimately show ?thesis using more step(2) by blast
    qed
  qed
qed

lemma evictable_nonneg: "rc_enabled c \<Longrightarrow> 0 \<le> rc_evictable_size c"
proof -
  assume "rc_enabled c"
  then obtain L pre vals where "rc_wf c L pre vals" by (metis rc_enabled_def rc_inv_wfE)
  then have "rc_evictable_size c = size_if c L (\<lambda>l. l = 0)" by (simp add: rc_wf_def rc_acct_def)
  then show ?thesis unfolding size_if_def by (simp add: sum_nonneg)
qed

lemma adder_init_ok:
  assumes "rc_enabled c" "p = rc_page_size c" "0 \<le> num_mixed" "0 \<le> ratio" "0 \<le> clip"
    "\<forall>r\<in>set running. int (length (rq_output_ids (sq_mem r))) \<le> sq_max_new_tokens r"
  shows "adder_ok (adder_init clip p c (Some running) ratio rem_input rem_chunk num_mixed thr mpb mrr pmax del None cp wl)"
proof -
  have "0 \<le> sum_list (map (running_token_offset clip ratio) running)"
    by (rule sum_list_nonneg) (use assms in \<open>auto simp: running_token_offset_def intro!: mult_nonneg_nonneg\<close>)
  moreover have "0 \<le> available_and_evictable c" using evictable_nonneg [OF assms(1)] by (simp add: available_and_evictable_def)
  ultimately show ?thesis using assms(1-3) by (simp add: adder_ok_def adder_init_def charged_def needed_def)
qed

section \<open>Properties\<close>

text \<open>
  C9: Admission to a prefill batch never promises more memory than there is. Whatever the waiting
  queue holds, the scheduler's loop succeeds; every request is either admitted (whole or as a
  first chunk) or stays in the queue; all admitted requests together, each with one page of
  waste, fit the free and evictable slots as they are after locking; and every admitted request
  holds a lock on the matched prefix it relies on.
\<close>

theorem prefill_admission_fits:
  assumes "rc_enabled c" "p = rc_page_size c" "0 \<le> num_mixed" "0 \<le> ratio" "0 \<le> clip"
    "\<forall>r\<in>set running. int (length (rq_output_ids (sq_mem r))) \<le> sq_max_new_tokens r"
    "\<forall>r\<in>set queue. queued_ok r" "0 \<le> allocatable"
    "a0 = adder_init clip p c (Some running) ratio rem_input rem_chunk num_mixed thr mpb mrr pmax del None cp wl"
  shows "\<exists>full left a. admit_loop f clip now view align clk allocatable 0 queue False a0 = Inr (full, left, a)
     \<and> rc_enabled (pa_tree a) \<and> rc_same c (pa_tree a) \<and> content (pa_tree a) = content c
     \<and> needed p (pa_can_run_list a) \<le> int (kv_available_size (rc_allocator (pa_tree a))) + rc_evictable_size (pa_tree a)
     \<and> int (length (pa_can_run_list a)) \<le> allocatable
     \<and> (\<forall>r\<in>set (pa_can_run_list a). req_ready (pa_tree a) r \<and> req_locked (pa_tree a) r \<and> (\<exists>q\<in>set queue. admitted_from q r))
     \<and> mset (map sq_rid (pa_can_run_list a)) + mset (map sq_rid left) = mset (map sq_rid queue)"
proof -
  have ok: "adder_ok a0" unfolding assms(9) by (rule adder_init_ok [OF assms(1-6)])
  have i: "pa_can_run_list a0 = []" "pa_tree a0 = c" "pa_page_size a0 = p" unfolding assms(9) by (simp_all add: adder_init_def)
  obtain full left a where a: "admit_loop f clip now view align clk allocatable 0 queue False a0 = Inr (full, left, a)" "admits a0 a queue left"
     "int (length (pa_can_run_list a)) \<le> allocatable"
    using admit_loop_ok [OF ok assms(5,7), of f now view align clk allocatable 0 False] i(1) assms(8) by auto
  have oka: "adder_ok a" "rc_keeps c (pa_tree a)" "pa_page_size a = p" using a(2) i by (simp_all add: admits_def)
  obtain new where new: "pa_can_run_list a = new" "\<forall>r'\<in>set new. \<exists>r\<in>set queue. admitted_from r r'"
     "mset (map sq_rid new) + mset (map sq_rid left) = mset (map sq_rid queue)" using a(2) i(1) by (auto simp: admits_def)
  have t: "rc_enabled (pa_tree a)" "rc_same c (pa_tree a)" "content (pa_tree a) = content c" using oka(2) by (simp_all add: rc_keeps_def)
  have n: "needed p new \<le> int (kv_available_size (rc_allocator (pa_tree a))) + rc_evictable_size (pa_tree a)"
    "\<forall>r\<in>set new. req_ready (pa_tree a) r \<and> req_locked (pa_tree a) r"
    using oka(1,3) new(1) by (simp_all add: adder_ok_def available_and_evictable_def)
  show ?thesis using a(1,3) t n new
    by - (rule exI [of _ full], rule exI [of _ left], rule exI [of _ a], simp)
qed

theorem prefill_admission_fits_witness:
  "\<exists>c full left a. sample_cache = Inr c
     \<and> admit_loop False 4096 0 (\<lambda>r. [r]) None (\<lambda>i. 3) 4 0 sample_queue False
         (adder_init 4096 2 c (Some []) (1 / 2) 100 (Some 50) 0 0 0 8 None None None False 2) = Inr (full, left, a)
     \<and> needed 2 (pa_can_run_list a) \<le> int (kv_available_size (rc_allocator (pa_tree a))) + rc_evictable_size (pa_tree a)"
proof -
  obtain c where c: "sample_cache = Inr c" "rc_enabled c" "rc_page_size c = 2" using sample_cache_ok by blast
  have q: "\<forall>r\<in>set sample_queue. queued_ok r" by (simp add: sample_queue_def sample_sched_def queued_ok_def sample_req_def)
  have "2 = rc_page_size c" using c(3) by simp
  from prefill_admission_fits [OF c(2) this _ _ _ _ q _ refl, where num_mixed = 0 and ratio = "1 / 2" and clip = 4096 and running = "[]"
      and allocatable = 4 and rem_input = 100 and rem_chunk = "Some 50" and thr = 0 and mpb = 0 and mrr = 8 and pmax = None and del = None
      and cp = False and wl = 2 and f = False and now = 0 and view = "\<lambda>r. [r]" and align = None and clk = "\<lambda>i. 3"] c(1)
  show ?thesis by auto
qed

end
