(* ===== verification/Input_Blocker.thy ===== *)
theory Input_Blocker
  imports Prelude
begin

text \<open>
  \<open>managers/scheduler_input_blocker.py\<close> with the barrier of \<open>utils/poll_based_barrier.py\<close>: every
  scheduler process of the group can be told to hold back its work requests, and the processes
  release them together once all of them were told to go on. The group runs in rounds; a round
  is one call of \<open>handle\<close> in each process, joined by the all-reduce of the barrier. A process
  that receives no requests of its own is created with \<open>noop\<close>.
\<close>

section \<open>The barrier\<close>

record barrier =
  pb_noop :: bool
  pb_local_arrived :: bool

definition barrier_init :: "bool \<Rightarrow> barrier" where
  "barrier_init noop = \<lparr>pb_noop = noop, pb_local_arrived = False\<rparr>"

definition local_arrive :: "barrier \<Rightarrow> barrier res" where
  "local_arrive b = (if pb_local_arrived b then Inl AssertionError else Inr (b\<lparr>pb_local_arrived := True\<rparr>))"

text \<open>The value a process contributes, and the minimum over the group that \<open>all_reduce\<close> returns to all.\<close>

definition arrived_vote :: "barrier \<Rightarrow> bool" where
  "arrived_vote b \<longleftrightarrow> pb_noop b \<or> pb_local_arrived b"

definition compute_global_arrived :: "barrier list \<Rightarrow> bool" where
  "compute_global_arrived bs = list_all arrived_vote bs"

definition poll_global_arrived :: "bool \<Rightarrow> barrier \<Rightarrow> bool \<times> barrier" where
  "poll_global_arrived global_arrived b =
     (let out = pb_local_arrived b \<and> global_arrived
      in (out, if out then b\<lparr>pb_local_arrived := False\<rparr> else b))"

section \<open>The blocker of one process\<close>

datatype ib_state = UNBLOCKED | BLOCKED | GLOBAL_UNBLOCK_BARRIER

datatype 'a recv_req = BlockReq | UnblockReq | WorkReq 'a

record 'a blocker =
  ib_st :: ib_state
  ib_pending :: "'a list"
  ib_noop :: bool
  ib_barrier :: barrier

definition blocker_init :: "bool \<Rightarrow> 'a blocker" where
  "blocker_init noop = \<lparr>ib_st = UNBLOCKED, ib_pending = [], ib_noop = noop, ib_barrier = barrier_init noop\<rparr>"

definition change_state :: "ib_state \<Rightarrow> ib_state \<Rightarrow> 'a blocker \<Rightarrow> 'a blocker res" where
  "change_state original target b = (if ib_st b = original then Inr (b\<lparr>ib_st := target\<rparr>) else Inl AssertionError)"

definition execute_block_req :: "'a blocker \<Rightarrow> 'a blocker res" where
  "execute_block_req = change_state UNBLOCKED BLOCKED"

definition execute_unblock_req :: "'a blocker \<Rightarrow> 'a blocker res" where
  "execute_unblock_req b =
     rbind (change_state BLOCKED GLOBAL_UNBLOCK_BARRIER b) (\<lambda>b1.
     rbind (local_arrive (ib_barrier b1)) (\<lambda>pb.
     Inr (b1\<lparr>ib_barrier := pb\<rparr>)))"

definition handle_arrive_unblock_barrier :: "'a blocker \<Rightarrow> ('a list \<times> 'a blocker) res" where
  "handle_arrive_unblock_barrier b =
     rbind (change_state GLOBAL_UNBLOCK_BARRIER UNBLOCKED b) (\<lambda>b1.
     Inr (ib_pending b1, b1\<lparr>ib_pending := []\<rparr>))"

definition handle_recv_req :: "'a recv_req \<Rightarrow> 'a blocker \<Rightarrow> ('a list \<times> 'a blocker) res" where
  "handle_recv_req r b =
     (case r of
        BlockReq \<Rightarrow> rbind (execute_block_req b) (\<lambda>b1. Inr ([], b1))
      | UnblockReq \<Rightarrow> rbind (execute_unblock_req b) (\<lambda>b1. Inr ([], b1))
      | WorkReq w \<Rightarrow> if ib_st b = UNBLOCKED then Inr ([w], b) else Inr ([], b\<lparr>ib_pending := ib_pending b @ [w]\<rparr>))"

fun handle_recv_reqs :: "'a recv_req list \<Rightarrow> 'a blocker \<Rightarrow> ('a list \<times> 'a blocker) res" where
  "handle_recv_reqs [] b = Inr ([], b)"
| "handle_recv_reqs (r # rs) b =
     rbind (handle_recv_req r b) (\<lambda>(o1, b1).
     rbind (handle_recv_reqs rs b1) (\<lambda>(o2, b2).
     Inr (o1 @ o2, b2)))"

text \<open>
  \<open>handle\<close> before the poll, and from the poll on. The first part gives \<open>None\<close> where \<open>output_reqs\<close>
  is not assigned; adding to it then raises.
\<close>

definition handle_before :: "'a recv_req list option \<Rightarrow> 'a blocker \<Rightarrow> ('a list option \<times> 'a blocker) res" where
  "handle_before recv b =
     rbind (guard_res ((recv = None) = ib_noop b) AssertionError) (\<lambda>_.
     case recv of
       None \<Rightarrow> Inr (None, b)
     | Some rs \<Rightarrow> rbind (handle_recv_reqs rs b) (\<lambda>(out, b1). Inr (Some out, b1)))"

definition handle_after :: "bool \<Rightarrow> 'a list option \<times> 'a blocker \<Rightarrow> ('a list option \<times> 'a blocker) res" where
  "handle_after global_arrived ob =
     (case ob of (out, b) \<Rightarrow>
      case poll_global_arrived global_arrived (ib_barrier b) of (arrived, pb) \<Rightarrow>
      let b1 = b\<lparr>ib_barrier := pb\<rparr>
      in if ib_st b1 = GLOBAL_UNBLOCK_BARRIER \<and> arrived
         then rbind (handle_arrive_unblock_barrier b1) (\<lambda>(ws, b2).
              rbind (of_opt UnboundLocalError out) (\<lambda>o1.
              Inr (Some (o1 @ ws), b2)))
         else Inr (out, b1))"

section \<open>The group\<close>

fun rmap2 :: "('a \<Rightarrow> 'b \<Rightarrow> 'c res) \<Rightarrow> 'a list \<Rightarrow> 'b list \<Rightarrow> 'c list res" where
  "rmap2 f [] [] = Inr []"
| "rmap2 f (x # xs) (y # ys) = rbind (f x y) (\<lambda>z. rbind (rmap2 f xs ys) (\<lambda>zs. Inr (z # zs)))"
| "rmap2 f _ _ = Inl ValueError"

definition handle_round :: "'a recv_req list option list \<Rightarrow> 'a blocker list \<Rightarrow> ('a list option \<times> 'a blocker) list res" where
  "handle_round recvs bs =
     rbind (rmap2 handle_before recvs bs) (\<lambda>obs.
     let arrived = compute_global_arrived (map (ib_barrier \<circ> snd) obs)
     in rmap2 (\<lambda>_. handle_after arrived) obs obs)"

text \<open>
  A run of the group: what each process has received and handed on so far, and its state. A
  round in which a process raises ends the run.
\<close>

definition recvd :: "'a recv_req list option \<Rightarrow> 'a recv_req list" where
  "recvd r = (case r of None \<Rightarrow> [] | Some rs \<Rightarrow> rs)"

definition emitted :: "'a list option \<Rightarrow> 'a list" where
  "emitted o1 = (case o1 of None \<Rightarrow> [] | Some ws \<Rightarrow> ws)"

inductive blocker_run :: "bool list \<Rightarrow> 'a recv_req list list \<Rightarrow> 'a list list \<Rightarrow> 'a blocker list \<Rightarrow> bool" for noops where
  start: "blocker_run noops (map (\<lambda>_. []) noops) (map (\<lambda>_. []) noops) (map blocker_init noops)"
| round: "blocker_run noops hist outs bs \<Longrightarrow> handle_round recvs bs = Inr obs
    \<Longrightarrow> blocker_run noops (map2 (\<lambda>h r. h @ recvd r) hist recvs) (map2 (\<lambda>u ob. u @ emitted (fst ob)) outs obs) (map snd obs)"

definition works :: "'a recv_req list \<Rightarrow> 'a list" where
  "works rs = concat (map (\<lambda>r. case r of WorkReq w \<Rightarrow> [w] | _ \<Rightarrow> []) rs)"

definition blocker_ok :: "bool \<Rightarrow> 'a blocker \<Rightarrow> bool" where
  "blocker_ok noop b \<longleftrightarrow> ib_noop b = noop \<and> pb_noop (ib_barrier b) = noop
     \<and> (pb_local_arrived (ib_barrier b) \<longleftrightarrow> ib_st b = GLOBAL_UNBLOCK_BARRIER)
     \<and> (ib_st b = UNBLOCKED \<longrightarrow> ib_pending b = [])
     \<and> (noop \<longrightarrow> ib_st b = UNBLOCKED)"

text \<open>The control messages a process may receive in a given state, and the state they lead to.\<close>

fun ctl_run :: "ib_state \<Rightarrow> 'a recv_req list \<Rightarrow> ib_state option" where
  "ctl_run s [] = Some s"
| "ctl_run s (WorkReq w # rs) = ctl_run s rs"
| "ctl_run UNBLOCKED (BlockReq # rs) = ctl_run BLOCKED rs"
| "ctl_run BLOCKED (UnblockReq # rs) = ctl_run GLOBAL_UNBLOCK_BARRIER rs"
| "ctl_run s (r # rs) = None"

section \<open>One process\<close>

lemma rmap2_Inr_iff:
  "rmap2 f xs ys = Inr zs \<longleftrightarrow> length ys = length xs \<and> length zs = length xs \<and> (\<forall>i<length xs. f (xs ! i) (ys ! i) = Inr (zs ! i))"
proof (induction f xs ys arbitrary: zs rule: rmap2.induct)
  case (2 f x xs y ys)
  have "rmap2 f (x # xs) (y # ys) = Inr zs \<longleftrightarrow> (\<exists>z zs'. zs = z # zs' \<and> f x y = Inr z \<and> rmap2 f xs ys = Inr zs')"
    by (auto simp: rbind_eq_Inr_iff)
  also have "\<dots> \<longleftrightarrow> (\<exists>z zs'. zs = z # zs' \<and> length ys = length xs \<and> length zs' = length xs \<and> f x y = Inr z
      \<and> (\<forall>i<length xs. f (xs ! i) (ys ! i) = Inr (zs' ! i)))"
    using 2 by (metis (no_types, lifting))
  also have "\<dots> \<longleftrightarrow> length (y # ys) = length (x # xs) \<and> length zs = length (x # xs)
      \<and> (\<forall>i<length (x # xs). f ((x # xs) ! i) ((y # ys) ! i) = Inr (zs ! i))"
    by (cases zs) (auto simp: All_less_Suc2)
  finally show ?case .
qed auto

lemma rmap2_Inl:
  assumes "length ys = length xs" "\<forall>i<length xs. f (xs ! i) (ys ! i) \<in> insert (Inl e0) (range Inr)" "i < length xs" "f (xs ! i) (ys ! i) = Inl e0"
  shows "rmap2 f xs ys = Inl e0"
  using assms
proof (induction xs ys arbitrary: i rule: list_induct2')
  case (4 x xs y ys)
  have h: "\<forall>i<length xs. f (xs ! i) (ys ! i) \<in> insert (Inl e0) (range Inr)" and h0: "f x y \<in> insert (Inl e0) (range Inr)"
    using 4(3) by (auto simp: All_less_Suc2)
  show ?case
  proof (cases "f x y = Inl e0")
    case False
    then obtain z where z: "f x y = Inr z" using h0 by auto
    with False obtain j where "i = Suc j" using 4(5) by (cases i) auto
    then have j: "j < length xs" "f (xs ! j) (ys ! j) = Inl e0" using 4(4,5) by simp_all
    have "rmap2 f xs ys = Inl e0" by (rule 4(1) [OF _ h j]) (use 4(2) in simp)
    then show ?thesis using z by simp
  qed simp
qed simp_all

lemma handle_recv_req_ok:
  assumes "blocker_ok False b"
  shows "case ctl_run (ib_st b) [r] of
      None \<Rightarrow> handle_recv_req r b = Inl AssertionError
    | Some s \<Rightarrow> \<exists>out b'. handle_recv_req r b = Inr (out, b') \<and> ib_st b' = s \<and> blocker_ok False b'
        \<and> ib_pending b @ works [r] = out @ ib_pending b'"
proof (cases r)
  case BlockReq
  then show ?thesis using assms by (cases "ib_st b") (simp_all add: handle_recv_req_def execute_block_req_def change_state_def blocker_ok_def works_def)
next
  case UnblockReq
  then show ?thesis using assms
    by (cases "ib_st b") (simp_all add: handle_recv_req_def execute_unblock_req_def change_state_def local_arrive_def blocker_ok_def works_def)
next
  case (WorkReq w)
  then show ?thesis using assms by (cases "ib_st b") (simp_all add: handle_recv_req_def blocker_ok_def works_def)
qed

lemma handle_recv_reqs_ok:
  assumes "blocker_ok False b"
  shows "case ctl_run (ib_st b) rs of
      None \<Rightarrow> handle_recv_reqs rs b = Inl AssertionError
    | Some s \<Rightarrow> \<exists>out b'. handle_recv_reqs rs b = Inr (out, b') \<and> ib_st b' = s \<and> blocker_ok False b'
        \<and> ib_pending b @ works rs = out @ ib_pending b'"
  using assms
proof (induction rs arbitrary: b)
  case Nil then show ?case by (simp add: works_def)
next
  case (Cons r rs)
  note step = handle_recv_req_ok [OF Cons.prems, of r]
  have comp: "ctl_run (ib_st b) (r # rs) = (case ctl_run (ib_st b) [r] of None \<Rightarrow> None | Some s \<Rightarrow> ctl_run s rs)"
    by (cases r; cases "ib_st b") auto
  show ?case
  proof (cases "ctl_run (ib_st b) [r]")
    case None then show ?thesis using step comp by simp
  next
    case (Some s)
    then obtain o1 b1 where b1: "handle_recv_req r b = Inr (o1, b1)" "ib_st b1 = s" "blocker_ok False b1"
        "ib_pending b @ works [r] = o1 @ ib_pending b1" using step by auto
    have w: "works (r # rs) = works [r] @ works rs" by (simp add: works_def)
    show ?thesis
    proof (cases "ctl_run s rs")
      case None then show ?thesis using Cons.IH [OF b1(3)] b1 Some comp by simp
    next
      case (Some t)
      then obtain o2 b2 where b2: "handle_recv_reqs rs b1 = Inr (o2, b2)" "ib_st b2 = t" "blocker_ok False b2"
          "ib_pending b1 @ works rs = o2 @ ib_pending b2" using Cons.IH [OF b1(3)] b1(2) by auto
      have "ib_pending b @ works (r # rs) = (o1 @ o2) @ ib_pending b2" using b1(4) b2(4) w by (metis append.assoc)
      then show ?thesis using b1(1) b2(1-3) comp Some \<open>ctl_run (ib_st b) [r] = Some s\<close> by simp
    qed
  qed
qed

lemma handle_before_ok:
  assumes "blocker_ok noop b" "(recv = None) = noop"
  shows "case ctl_run (ib_st b) (recvd recv) of
      None \<Rightarrow> handle_before recv b = Inl AssertionError
    | Some s \<Rightarrow> \<exists>out b'. handle_before recv b = Inr (out, b') \<and> (out = None) = noop \<and> ib_st b' = s \<and> blocker_ok noop b'
        \<and> ib_pending b @ works (recvd recv) = emitted out @ ib_pending b'"
proof (cases recv)
  case None
  then show ?thesis using assms by (simp add: handle_before_def recvd_def blocker_ok_def works_def emitted_def)
next
  case (Some rs)
  then have n: "noop = False" "ib_noop b = False" using assms by (auto simp: blocker_ok_def)
  show ?thesis using handle_recv_reqs_ok [of b rs] assms n Some
    by (auto simp: handle_before_def recvd_def emitted_def split: option.splits)
qed

lemma handle_after_ok:
  assumes "blocker_ok noop b" "(out = None) = noop"
  shows "\<exists>out' b'. handle_after g (out, b) = Inr (out', b') \<and> (out' = None) = noop \<and> blocker_ok noop b'
     \<and> emitted out @ ib_pending b = emitted out' @ ib_pending b'
     \<and> ib_st b' = (if ib_st b = GLOBAL_UNBLOCK_BARRIER \<and> g then UNBLOCKED else ib_st b)"
  using assms
  by (auto simp: handle_after_def poll_global_arrived_def handle_arrive_unblock_barrier_def change_state_def blocker_ok_def
      emitted_def Let_def split: option.splits)

section \<open>A round of the group\<close>

definition round_states :: "'a recv_req list option list \<Rightarrow> 'a blocker list \<Rightarrow> ib_state option list" where
  "round_states recvs bs = map2 (\<lambda>r b. ctl_run (ib_st b) (recvd r)) recvs bs"

definition group_ok :: "bool list \<Rightarrow> 'a blocker list \<Rightarrow> bool" where
  "group_ok noops bs \<longleftrightarrow> length bs = length noops \<and> (\<forall>i<length noops. blocker_ok (noops ! i) (bs ! i))"

lemma vote_iff: "blocker_ok noop b \<Longrightarrow> arrived_vote (ib_barrier b) \<longleftrightarrow> noop \<or> ib_st b = GLOBAL_UNBLOCK_BARRIER"
  by (auto simp: blocker_ok_def arrived_vote_def)

lemma handle_round_ok:
  assumes ok: "group_ok noops bs" and l: "length recvs = length noops" and r: "\<forall>i<length noops. (recvs ! i = None) = noops ! i"
  shows "if None \<in> set (round_states recvs bs) then handle_round recvs bs = Inl AssertionError
     else \<exists>obs. handle_round recvs bs = Inr obs \<and> length obs = length noops \<and> group_ok noops (map snd obs)
       \<and> (\<forall>i<length noops. ib_pending (bs ! i) @ works (recvd (recvs ! i)) = emitted (fst (obs ! i)) @ ib_pending (snd (obs ! i))
           \<and> ib_st (snd (obs ! i)) =
               (if (\<forall>j<length noops. noops ! j \<or> round_states recvs bs ! j = Some GLOBAL_UNBLOCK_BARRIER) then UNBLOCKED
                else the (round_states recvs bs ! i)))"
proof -
  let ?n = "length noops" and ?g = "\<lambda>i. ctl_run (ib_st (bs ! i)) (recvd (recvs ! i))"
  have lb: "length bs = ?n" and okb: "\<And>i. i < ?n \<Longrightarrow> blocker_ok (noops ! i) (bs ! i)" using ok by (auto simp: group_ok_def)
  have rs: "length (round_states recvs bs) = ?n" "\<And>i. i < ?n \<Longrightarrow> round_states recvs bs ! i = ?g i"
    using lb l by (simp_all add: round_states_def)
  have before: "case ?g i of None \<Rightarrow> handle_before (recvs ! i) (bs ! i) = Inl AssertionError
    | Some s \<Rightarrow> \<exists>out b'. handle_before (recvs ! i) (bs ! i) = Inr (out, b') \<and> (out = None) = noops ! i \<and> ib_st b' = s \<and> blocker_ok (noops ! i) b'
        \<and> ib_pending (bs ! i) @ works (recvd (recvs ! i)) = emitted out @ ib_pending b'" if "i < ?n" for i
    by (rule handle_before_ok) (use okb r that in auto)
  show ?thesis
  proof (cases "None \<in> set (round_states recvs bs)")
    case True
    then obtain i where i: "i < ?n" "?g i = None" using rs by (auto simp: in_set_conv_nth)
    have "handle_before (recvs ! j) (bs ! j) \<in> insert (Inl AssertionError) (range Inr)" if "j < ?n" for j
      using before [OF that] by (auto split: option.splits)
    then have "rmap2 handle_before recvs bs = Inl AssertionError"
      using rmap2_Inl [of bs recvs handle_before AssertionError i] before [OF i(1)] i l lb by simp
    then show ?thesis using True by (simp add: handle_round_def)
  next
    case False
    then have some: "\<exists>s. ?g i = Some s" if "i < ?n" for i using rs that by (metis nth_mem not_None_eq)
    then have "\<forall>i<?n. \<exists>ob. handle_before (recvs ! i) (bs ! i) = Inr ob \<and> (fst ob = None) = noops ! i \<and> ib_st (snd ob) = the (?g i)
        \<and> blocker_ok (noops ! i) (snd ob) \<and> ib_pending (bs ! i) @ works (recvd (recvs ! i)) = emitted (fst ob) @ ib_pending (snd ob)"
      using before by fastforce
    then obtain f where f: "\<And>i. i < ?n \<Longrightarrow> handle_before (recvs ! i) (bs ! i) = Inr (f i) \<and> (fst (f i) = None) = noops ! i \<and> ib_st (snd (f i)) = the (?g i)
        \<and> blocker_ok (noops ! i) (snd (f i)) \<and> ib_pending (bs ! i) @ works (recvd (recvs ! i)) = emitted (fst (f i)) @ ib_pending (snd (f i))"
      by metis
    let ?obs = "map f [0..<?n]"
    let ?a = "compute_global_arrived (map (ib_barrier \<circ> snd) ?obs)"
    have m1: "rmap2 handle_before recvs bs = Inr ?obs" using f l lb by (simp add: rmap2_Inr_iff)
    have a: "?a \<longleftrightarrow> (\<forall>j<?n. noops ! j \<or> round_states recvs bs ! j = Some GLOBAL_UNBLOCK_BARRIER)"
    proof -
      have "arrived_vote (ib_barrier (snd (f j))) \<longleftrightarrow> noops ! j \<or> round_states recvs bs ! j = Some GLOBAL_UNBLOCK_BARRIER" if "j < ?n" for j
        using f [OF that] some [OF that] rs(2) [OF that] vote_iff by (metis option.sel)
      then show ?thesis by (simp add: compute_global_arrived_def list_all_length)
    qed
    have "\<forall>i<?n. \<exists>ob. handle_after g (f i) = Inr ob \<and> blocker_ok (noops ! i) (snd ob)
        \<and> emitted (fst (f i)) @ ib_pending (snd (f i)) = emitted (fst ob) @ ib_pending (snd ob)
        \<and> ib_st (snd ob) = (if ib_st (snd (f i)) = GLOBAL_UNBLOCK_BARRIER \<and> g then UNBLOCKED else ib_st (snd (f i)))" for g
    proof (intro allI impI)
      fix i assume i: "i < ?n"
      obtain o1 b1 where fi: "f i = (o1, b1)" by fastforce
      then have "blocker_ok (noops ! i) b1" "(o1 = None) = noops ! i" using f [OF i] by simp_all
      from handle_after_ok [OF this, of g] show "\<exists>ob. handle_after g (f i) = Inr ob \<and> blocker_ok (noops ! i) (snd ob)
        \<and> emitted (fst (f i)) @ ib_pending (snd (f i)) = emitted (fst ob) @ ib_pending (snd ob)
        \<and> ib_st (snd ob) = (if ib_st (snd (f i)) = GLOBAL_UNBLOCK_BARRIER \<and> g then UNBLOCKED else ib_st (snd (f i)))"
        unfolding fi by fastforce
    qed
    from this [of ?a] obtain h where h: "\<And>i. i < ?n \<Longrightarrow> handle_after ?a (f i) = Inr (h i) \<and> blocker_ok (noops ! i) (snd (h i))
        \<and> emitted (fst (f i)) @ ib_pending (snd (f i)) = emitted (fst (h i)) @ ib_pending (snd (h i))
        \<and> ib_st (snd (h i)) = (if ib_st (snd (f i)) = GLOBAL_UNBLOCK_BARRIER \<and> ?a then UNBLOCKED else ib_st (snd (f i)))"
      by metis
    have m2: "rmap2 (\<lambda>_. handle_after ?a) ?obs ?obs = Inr (map h [0..<?n])" using h by (simp add: rmap2_Inr_iff)
    have st: "ib_st (snd (h i)) = (if ?a then UNBLOCKED else the (round_states recvs bs ! i))" if "i < ?n" for i
    proof (cases "noops ! i")
      case True
      then have "ib_st (snd (h i)) = UNBLOCKED" "ib_st (snd (f i)) = UNBLOCKED" using h [OF that] f [OF that] by (auto simp: blocker_ok_def)
      then show ?thesis using f [OF that] rs that by simp
    next
      case False
      have "?a \<Longrightarrow> ib_st (snd (f i)) = GLOBAL_UNBLOCK_BARRIER" using a False that f [OF that] rs(2) [OF that] by (metis option.sel)
      then have "ib_st (snd (h i)) = (if ?a then UNBLOCKED else ib_st (snd (f i)))" using h [OF that] by presburger
      then show ?thesis using f [OF that] rs(2) [OF that] by simp
    qed
    have "handle_round recvs bs = Inr (map h [0..<?n])" using m1 m2 by (simp add: handle_round_def Let_def)
    moreover have "group_ok noops (map snd (map h [0..<?n]))" using h by (simp add: group_ok_def)
    moreover have "ib_pending (bs ! i) @ works (recvd (recvs ! i)) = emitted (fst (map h [0..<?n] ! i)) @ ib_pending (snd (map h [0..<?n] ! i))
        \<and> ib_st (snd (map h [0..<?n] ! i)) = (if ?a then UNBLOCKED else the (round_states recvs bs ! i))" if "i < ?n" for i
      using h [OF that] f [OF that] st [OF that] that by simp
    ultimately have "\<exists>obs. handle_round recvs bs = Inr obs \<and> length obs = length noops \<and> group_ok noops (map snd obs)
       \<and> (\<forall>i<length noops. ib_pending (bs ! i) @ works (recvd (recvs ! i)) = emitted (fst (obs ! i)) @ ib_pending (snd (obs ! i))
           \<and> ib_st (snd (obs ! i)) = (if ?a then UNBLOCKED else the (round_states recvs bs ! i)))"
      by (intro exI [of _ "map h [0..<?n]"] conjI allI impI) simp_all
    then show ?thesis using False unfolding a by simp
  qed
qed

lemma handle_round_shape:
  assumes "group_ok noops bs" "handle_round recvs bs = Inr obs"
  shows "length recvs = length noops" "\<forall>i<length noops. (recvs ! i = None) = noops ! i"
proof -
  obtain obs1 where m: "rmap2 handle_before recvs bs = Inr obs1" using assms(2) by (auto simp: handle_round_def rbind_eq_Inr_iff)
  then have l: "length bs = length recvs" "\<forall>i<length recvs. handle_before (recvs ! i) (bs ! i) = Inr (obs1 ! i)" by (simp_all add: rmap2_Inr_iff)
  then show "length recvs = length noops" using assms(1) by (simp add: group_ok_def)
  show "\<forall>i<length noops. (recvs ! i = None) = noops ! i"
  proof (intro allI impI)
    fix i assume i: "i < length noops"
    have "handle_before (recvs ! i) (bs ! i) = Inr (obs1 ! i)" "ib_noop (bs ! i) = noops ! i"
      using l assms(1) i by (simp_all add: group_ok_def blocker_ok_def)
    then show "(recvs ! i = None) = noops ! i" by (auto simp: handle_before_def res_simps)
  qed
qed

lemma blocker_run_ok:
  assumes "blocker_run noops hist outs bs"
  shows "group_ok noops bs \<and> length hist = length noops \<and> length outs = length noops
     \<and> (\<forall>i<length noops. works (hist ! i) = outs ! i @ ib_pending (bs ! i))"
  using assms
proof (induction rule: blocker_run.induct)
  case start
  show ?case by (simp add: group_ok_def blocker_ok_def blocker_init_def barrier_init_def works_def)
next
  case (round hist outs bs recvs obs)
  have ok: "group_ok noops bs" and hl: "length hist = length noops" "length outs = length noops"
    and w: "\<And>i. i < length noops \<Longrightarrow> works (hist ! i) = outs ! i @ ib_pending (bs ! i)" using round.IH by simp_all
  note sh = handle_round_shape [OF ok round.hyps(2)]
  have o: "length obs = length noops" "group_ok noops (map snd obs)"
     "\<And>i. i < length noops \<Longrightarrow> ib_pending (bs ! i) @ works (recvd (recvs ! i)) = emitted (fst (obs ! i)) @ ib_pending (snd (obs ! i))"
    using handle_round_ok [OF ok sh] round.hyps(2) by (auto split: if_splits)
  have wa: "works (xs @ ys) = works xs @ works ys" for xs ys :: "'a recv_req list" by (simp add: works_def)
  show ?case using sh(1) hl o w by (simp add: wa)
qed

section \<open>Properties\<close>

text \<open>
  C18: No work request is lost, duplicated or reordered by blocking: in every run of the group,
  what a process handed on followed by what it holds back is exactly the sequence of work
  requests it received, and a process that is not blocked holds nothing back.
\<close>

theorem blocker_run_fifo:
  assumes "blocker_run noops hist outs bs" "i < length noops"
  shows "works (hist ! i) = outs ! i @ ib_pending (bs ! i) \<and> (ib_st (bs ! i) = UNBLOCKED \<longrightarrow> works (hist ! i) = outs ! i)"
  using blocker_run_ok [OF assms(1)] assms(2) by (auto simp: group_ok_def blocker_ok_def)

text \<open>
  C19: A round of the group raises an assertion exactly when a process receives a control message
  out of turn. Otherwise, when every process that takes part has been told to unblock, all of
  them are unblocked in this very round; and as long as one has not, none of them passes the
  barrier and each is in the state its own control messages lead to.
\<close>

theorem blocker_round_barrier:
  assumes "blocker_run noops hist outs bs" "length recvs = length noops" "\<forall>i<length noops. (recvs ! i = None) = noops ! i"
  shows "if None \<in> set (round_states recvs bs) then handle_round recvs bs = Inl AssertionError
     else \<exists>obs. handle_round recvs bs = Inr obs \<and> length obs = length noops
       \<and> (\<forall>i<length noops. ib_st (snd (obs ! i)) =
               (if (\<forall>j<length noops. noops ! j \<or> round_states recvs bs ! j = Some GLOBAL_UNBLOCK_BARRIER) then UNBLOCKED
                else the (round_states recvs bs ! i)))"
proof (cases "None \<in> set (round_states recvs bs)")
  case True then show ?thesis using handle_round_ok [OF _ assms(2,3)] blocker_run_ok [OF assms(1)] by auto
next
  case False then show ?thesis using handle_round_ok [OF _ assms(2,3), of bs] blocker_run_ok [OF assms(1)] by auto
qed

text \<open>Two processes and one without requests: the first is released only after the second.\<close>

definition sample_noops :: "bool list" where
  "sample_noops = [False, False, True]"

definition sample_recv1 :: "nat recv_req list option list" where
  "sample_recv1 = [Some [WorkReq 1, BlockReq, WorkReq 2, UnblockReq], Some [BlockReq, WorkReq 3], None]"

definition sample_recv2 :: "nat recv_req list option list" where
  "sample_recv2 = [Some [WorkReq 4], Some [UnblockReq], None]"

lemma sample_blocker_run:
  "\<exists>outs bs. blocker_run sample_noops [[WorkReq (1::nat), BlockReq, WorkReq 2, UnblockReq, WorkReq 4], [BlockReq, WorkReq 3, UnblockReq], []] outs bs
     \<and> ib_st (bs ! 0) = UNBLOCKED \<and> outs = [[1, 2, 4], [3], []]"
  "\<exists>outs bs. blocker_run sample_noops [[WorkReq (1::nat), BlockReq, WorkReq 2, UnblockReq], [BlockReq, WorkReq 3], []] outs bs
     \<and> round_states sample_recv2 bs = [Some GLOBAL_UNBLOCK_BARRIER, Some GLOBAL_UNBLOCK_BARRIER, Some UNBLOCKED] \<and> outs = [[1], [], []]"
proof -
  note defs = handle_round_def handle_before_def handle_after_def handle_recv_req_def execute_block_req_def execute_unblock_req_def
    change_state_def local_arrive_def blocker_init_def barrier_init_def compute_global_arrived_def arrived_vote_def poll_global_arrived_def
    handle_arrive_unblock_barrier_def recvd_def emitted_def round_states_def
  let ?b0 = "map blocker_init sample_noops :: nat blocker list"
  obtain obs1 where o1: "handle_round sample_recv1 ?b0 = Inr obs1" "length obs1 = 3" "map (emitted \<circ> fst) obs1 = [[1], [], []]"
     "map snd obs1 = [\<lparr>ib_st = GLOBAL_UNBLOCK_BARRIER, ib_pending = [2], ib_noop = False, ib_barrier = \<lparr>pb_noop = False, pb_local_arrived = True\<rparr>\<rparr>,
        \<lparr>ib_st = BLOCKED, ib_pending = [3], ib_noop = False, ib_barrier = \<lparr>pb_noop = False, pb_local_arrived = False\<rparr>\<rparr>,
        \<lparr>ib_st = UNBLOCKED, ib_pending = [], ib_noop = True, ib_barrier = \<lparr>pb_noop = True, pb_local_arrived = False\<rparr>\<rparr>]"
    by (simp add: sample_recv1_def sample_noops_def defs)
  let ?bs1 = "map snd obs1"
  have e1: "map2 (\<lambda>u ob. u @ emitted (fst ob)) [[], [], []] obs1 = map (emitted \<circ> fst) obs1" using o1(2)
    by (auto simp: length_Suc_conv numeral_3_eq_3)
  have r1: "blocker_run sample_noops [[WorkReq (1::nat), BlockReq, WorkReq 2, UnblockReq], [BlockReq, WorkReq 3], []] [[1], [], []] ?bs1"
    using blocker_run.round [OF blocker_run.start o1(1)] e1 o1(3) by (simp add: sample_noops_def sample_recv1_def recvd_def)
  have "\<exists>obs2. handle_round sample_recv2 ?bs1 = Inr obs2 \<and> map (emitted \<circ> fst) obs2 = [[2, 4], [3], []] \<and> length obs2 = 3 \<and> ib_st (map snd obs2 ! 0) = UNBLOCKED"
    unfolding o1(4) by (simp add: sample_recv2_def defs)
  then obtain obs2 where o2: "handle_round sample_recv2 ?bs1 = Inr obs2" "map (emitted \<circ> fst) obs2 = [[2, 4], [3], []]" "length obs2 = 3" "ib_st (map snd obs2 ! 0) = UNBLOCKED"
    by (elim exE conjE)
  have e2: "map2 (\<lambda>u ob. u @ emitted (fst ob)) [[1], [], []] obs2 = [[1, 2, 4], [3], []]" using o2(2,3)
    by (auto simp: length_Suc_conv numeral_3_eq_3)
  have "blocker_run sample_noops [[WorkReq (1::nat), BlockReq, WorkReq 2, UnblockReq, WorkReq 4], [BlockReq, WorkReq 3, UnblockReq], []] [[1, 2, 4], [3], []] (map snd obs2)"
    using blocker_run.round [OF r1 o2(1)] e2 by (simp add: sample_recv2_def recvd_def)
  with o2(4) show "\<exists>outs bs. blocker_run sample_noops [[WorkReq (1::nat), BlockReq, WorkReq 2, UnblockReq, WorkReq 4], [BlockReq, WorkReq 3, UnblockReq], []] outs bs
     \<and> ib_st (bs ! 0) = UNBLOCKED \<and> outs = [[1, 2, 4], [3], []]" by (intro exI [of _ "[[1, 2, 4], [3], []]"] exI [of _ "map snd obs2"]) simp
  have "round_states sample_recv2 ?bs1 = [Some GLOBAL_UNBLOCK_BARRIER, Some GLOBAL_UNBLOCK_BARRIER, Some UNBLOCKED]"
    unfolding o1(4) by (simp add: sample_recv2_def round_states_def recvd_def)
  with r1 show "\<exists>outs bs. blocker_run sample_noops [[WorkReq (1::nat), BlockReq, WorkReq 2, UnblockReq], [BlockReq, WorkReq 3], []] outs bs
     \<and> round_states sample_recv2 bs = [Some GLOBAL_UNBLOCK_BARRIER, Some GLOBAL_UNBLOCK_BARRIER, Some UNBLOCKED] \<and> outs = [[1], [], []]" by blast
qed

theorem blocker_run_fifo_witness:
  "\<exists>outs bs. blocker_run sample_noops [[WorkReq (1::nat), BlockReq, WorkReq 2, UnblockReq, WorkReq 4], [BlockReq, WorkReq 3, UnblockReq], []] outs bs
     \<and> works [WorkReq (1::nat), BlockReq, WorkReq 2, UnblockReq, WorkReq 4] = outs ! 0"
proof -
  obtain outs bs where r: "blocker_run sample_noops [[WorkReq (1::nat), BlockReq, WorkReq 2, UnblockReq, WorkReq 4], [BlockReq, WorkReq 3, UnblockReq], []] outs bs"
     "ib_st (bs ! 0) = UNBLOCKED" using sample_blocker_run(1) by blast
  from blocker_run_fifo [OF r(1), of 0] r show ?thesis by (auto simp: sample_noops_def)
qed

theorem blocker_round_barrier_witness:
  "\<exists>outs bs obs. blocker_run sample_noops [[WorkReq (1::nat), BlockReq, WorkReq 2, UnblockReq], [BlockReq, WorkReq 3], []] outs bs
     \<and> handle_round sample_recv2 bs = Inr obs \<and> ib_st (snd (obs ! 0)) = UNBLOCKED \<and> ib_st (snd (obs ! 1)) = UNBLOCKED"
proof -
  obtain outs bs where r: "blocker_run sample_noops [[WorkReq (1::nat), BlockReq, WorkReq 2, UnblockReq], [BlockReq, WorkReq 3], []] outs bs"
     "round_states sample_recv2 bs = [Some GLOBAL_UNBLOCK_BARRIER, Some GLOBAL_UNBLOCK_BARRIER, Some UNBLOCKED]" using sample_blocker_run(2) by blast
  have l: "length sample_recv2 = length sample_noops" "\<forall>i<length sample_noops. (sample_recv2 ! i = None) = sample_noops ! i"
    by (simp_all add: sample_recv2_def sample_noops_def All_less_Suc2 numeral_3_eq_3)
  have "\<forall>j<length sample_noops. sample_noops ! j \<or> round_states sample_recv2 bs ! j = Some GLOBAL_UNBLOCK_BARRIER"
    unfolding r(2) by (simp add: sample_noops_def All_less_Suc2 numeral_3_eq_3)
  with blocker_round_barrier [OF r(1) l] r(2) obtain obs where "handle_round sample_recv2 bs = Inr obs" "\<forall>i<length sample_noops. ib_st (snd (obs ! i)) = UNBLOCKED"
    by (auto split: if_splits)
  then have "handle_round sample_recv2 bs = Inr obs \<and> ib_st (snd (obs ! 0)) = UNBLOCKED \<and> ib_st (snd (obs ! 1)) = UNBLOCKED"
    by (simp add: sample_noops_def)
  with r(1) show ?thesis by blast
qed

end
