(* ===== verification/Waiting_Queue.thy ===== *)
theory Waiting_Queue
  imports Schedule_Policy
begin

text \<open>
  Entry into the waiting queue of the scheduler (\<open>managers/scheduler.py\<close>), outside
  disaggregation: default priorities, the limit on queued requests, the waiting timeout. The
  requests that are sent an \<open>AbortReq\<close> are returned by their ids, in the order of the messages;
  clock readings are arguments. Prefetching from a hierarchical cache has no effect on the queue
  and is not part of the model.
\<close>

record queue_config =
  qc_enable_priority_scheduling :: bool
  qc_schedule_low_priority_values_first :: bool
  qc_abort_on_priority_when_disabled :: bool
  qc_max_queued_requests :: "int option"

definition sys_maxsize :: int where
  "sys_maxsize = 2 ^ 63 - 1"

abbreviation sq_priority :: "'a sched_req_scheme \<Rightarrow> int option" where
  "sq_priority r \<equiv> rq_priority (sq_mem r)"

definition set_or_validate_priority :: "queue_config \<Rightarrow> 'a sched_req_scheme \<Rightarrow> bool \<times> 'a sched_req_scheme \<times> string list" where
  "set_or_validate_priority cfg r =
     (if qc_enable_priority_scheduling cfg \<and> sq_priority r = None
      then (True, r\<lparr>sq_mem := (sq_mem r)\<lparr>rq_priority :=
              Some (if qc_schedule_low_priority_values_first cfg then sys_maxsize else - sys_maxsize - 1)\<rparr>\<rparr>, [])
      else if \<not> qc_enable_priority_scheduling cfg \<and> sq_priority r \<noteq> None \<and> qc_abort_on_priority_when_disabled cfg
      then (False, r, [sq_rid r])
      else (True, r, []))"

text \<open>\<open>max(enumerate(q), key=...)\<close>: the first position with a maximal key; the key of a request without a priority raises.\<close>

definition preference_key :: "int \<Rightarrow> 'a sched_req_scheme \<Rightarrow> (int \<times> int) res" where
  "preference_key direction r = rbind (of_opt TypeError (sq_priority r)) (\<lambda>p. Inr (direction * p, sq_wait_queue_entry_time r))"

fun max_position :: "nat \<times> (int \<times> int) \<Rightarrow> nat \<Rightarrow> (int \<times> int) list \<Rightarrow> nat \<times> (int \<times> int)" where
  "max_position best i [] = best"
| "max_position best i (k # ks) = max_position (if snd best < k then (i, k) else best) (Suc i) ks"

definition least_preferred :: "int \<Rightarrow> 'a sched_req_scheme list \<Rightarrow> nat res" where
  "least_preferred direction q =
     rbind (rmap (preference_key direction) q) (\<lambda>ks.
     case ks of [] \<Rightarrow> Inl ValueError | k # ks' \<Rightarrow> Inr (fst (max_position (0, k) 1 ks')))"

definition queue_full :: "queue_config \<Rightarrow> 'a list \<Rightarrow> bool" where
  "queue_full cfg q = (case qc_max_queued_requests cfg of None \<Rightarrow> False | Some m \<Rightarrow> m < int (length q) + 1)"

definition abort_on_queued_limit ::
  "queue_config \<Rightarrow> 'a sched_req_scheme \<Rightarrow> 'a sched_req_scheme list \<Rightarrow> (bool \<times> 'a sched_req_scheme list \<times> string list) res" where
  "abort_on_queued_limit cfg r q =
     (if \<not> queue_full cfg q then Inr (False, q, [])
      else if \<not> qc_enable_priority_scheduling cfg then Inr (True, q, [sq_rid r])
      else let direction = (if qc_schedule_low_priority_values_first cfg then 1 else - 1)
           in rbind (least_preferred direction q) (\<lambda>idx.
              rbind (of_opt TypeError (sq_priority r)) (\<lambda>mine.
              rbind (of_opt TypeError (sq_priority (q ! idx))) (\<lambda>theirs.
              if direction * mine < direction * theirs
              then Inr (sq_rid (q ! idx) = sq_rid r, take idx q @ drop (Suc idx) q, [sq_rid (q ! idx)])
              else Inr (True, q, [sq_rid r])))))"

definition add_request_to_queue ::
  "queue_config \<Rightarrow> int \<Rightarrow> 'a sched_req_scheme \<Rightarrow> 'a sched_req_scheme list \<Rightarrow> ('a sched_req_scheme list \<times> string list) res" where
  "add_request_to_queue cfg now r q =
     (case set_or_validate_priority cfg r of (ok, r1, aborts) \<Rightarrow>
      if \<not> ok then Inr (q, aborts)
      else rbind (abort_on_queued_limit cfg r1 q) (\<lambda>(rejected, q1, aborts1).
           if rejected then Inr (q1, aborts1)
           else Inr (q1 @ [r1\<lparr>sq_wait_queue_entry_time := now\<rparr>], aborts1)))"

fun add_requests_to_queue ::
  "queue_config \<Rightarrow> int \<Rightarrow> 'a sched_req_scheme list \<Rightarrow> 'a sched_req_scheme list \<Rightarrow> ('a sched_req_scheme list \<times> string list) res" where
  "add_requests_to_queue cfg now [] q = Inr (q, [])"
| "add_requests_to_queue cfg now (r # rs) q =
     rbind (add_request_to_queue cfg now r q) (\<lambda>(q1, aborts).
     rbind (add_requests_to_queue cfg now rs q1) (\<lambda>(q2, aborts'). Inr (q2, aborts @ aborts')))"

definition abort_on_waiting_timeout :: "int \<Rightarrow> int \<Rightarrow> 'a sched_req_scheme list \<Rightarrow> 'a sched_req_scheme list \<times> string list" where
  "abort_on_waiting_timeout timeout now q =
     (if timeout \<le> 0 then (q, [])
      else let late = (\<lambda>r. 0 < sq_wait_queue_entry_time r \<and> sq_wait_queue_entry_time r < now - timeout)
           in (filter (\<lambda>r. \<not> late r) q, map sq_rid (filter late q)))"

end
