(* ===== verification/Sampling_Params.thy ===== *)
theory Sampling_Params
  imports Prelude Complex_Main
begin

text \<open>
  The sampling parameters of a request, \<open>sampling/sampling_params.py\<close>: construction with the
  defaults for missing values, verification, normalisation of the stop conditions, and the bound
  on the length of what a stop expression can match. Floating-point numbers are exact rationals, the
  two infinities and NaN; the theories of the batch work on the rationals of finite parameters.
  The tokenizer and the parser of regular expressions are parameters; the tree the parser returns
  is the type \<open>sre\<close>.
\<close>

section \<open>Floating-point values\<close>

text \<open>Comparisons with NaN are false. Rounding plays no role in what is checked here.\<close>

datatype xfloat = Fin rat | PInf | NInf | NaN

definition flt :: "xfloat \<Rightarrow> xfloat \<Rightarrow> bool" where
  "flt x y =
     (case x of
        Fin a \<Rightarrow> (case y of Fin b \<Rightarrow> a < b | PInf \<Rightarrow> True | _ \<Rightarrow> False)
      | NInf \<Rightarrow> y \<noteq> NInf \<and> y \<noteq> NaN
      | _ \<Rightarrow> False)"

definition fle :: "xfloat \<Rightarrow> xfloat \<Rightarrow> bool" where
  "fle x y \<longleftrightarrow> flt x y \<or> x = y \<and> x \<noteq> NaN"

lemma flt_simps [simp]:
  "flt (Fin a) (Fin b) \<longleftrightarrow> a < b" "flt (Fin a) PInf" "\<not> flt x NaN" "\<not> flt NaN x" "\<not> flt PInf x" "\<not> flt x NInf" "flt NInf (Fin a)"
  by (simp_all add: flt_def split: xfloat.splits)

lemma fle_simps [simp]:
  "fle (Fin a) (Fin b) \<longleftrightarrow> a \<le> b" "\<not> fle NaN x" "\<not> fle x NaN" "fle (Fin a) PInf" "\<not> fle PInf (Fin a)" "fle NInf (Fin a)" "\<not> fle (Fin a) NInf"
  by (auto simp: fle_def)

text \<open>The finite values of a range.\<close>

definition in_range :: "rat \<Rightarrow> rat \<Rightarrow> xfloat \<Rightarrow> bool" where
  "in_range lo hi x \<longleftrightarrow> (\<exists>q. x = Fin q \<and> lo \<le> q \<and> q \<le> hi)"

lemma fle_range: "fle (Fin lo) x \<and> fle x (Fin hi) \<longleftrightarrow> in_range lo hi x"
  by (cases x) (simp_all add: in_range_def)

section \<open>Arguments and parameters\<close>

text \<open>A value that is absent, one string or a list of strings.\<close>

datatype str_arg = NoStr | OneStr string | ManyStr "string list"

record 'f sampling_args =
  sa_max_new_tokens :: "int option"
  sa_stop :: str_arg
  sa_stop_token_ids :: "int option list option"
  sa_stop_regex :: str_arg
  sa_temperature :: "'f option"
  sa_top_p :: "'f option"
  sa_top_k :: "int option"
  sa_min_p :: "'f option"
  sa_frequency_penalty :: "'f option"
  sa_presence_penalty :: "'f option"
  sa_repetition_penalty :: "'f option"
  sa_min_new_tokens :: "int option"
  sa_n :: "int option"
  sa_json_schema :: "string option"
  sa_regex :: "string option"
  sa_ebnf :: "string option"
  sa_structural_tag :: "string option"
  sa_ignore_eos :: "bool option"
  sa_skip_special_tokens :: "bool option"
  sa_spaces_between_special_tokens :: "bool option"
  sa_no_stop_trim :: "bool option"
  sa_custom_params :: "(string, string) dict option"
  sa_stream_interval :: "int option"
  sa_logit_bias :: "(string, 'f) dict option"
  sa_sampling_seed :: "int option"

record 'f sampling_params =
  sp_max_new_tokens :: "int option"
  sp_stop_strs :: str_arg
  sp_stop_str_max_len :: "nat option"
  sp_stop_token_ids :: "int list option"
  sp_stop_regex_strs :: str_arg
  sp_stop_regex_max_len :: "nat option"
  sp_temperature :: 'f
  sp_top_p :: 'f
  sp_top_k :: int
  sp_min_p :: 'f
  sp_frequency_penalty :: 'f
  sp_presence_penalty :: 'f
  sp_repetition_penalty :: 'f
  sp_min_new_tokens :: int
  sp_regex :: "string option"
  sp_n :: int
  sp_json_schema :: "string option"
  sp_ebnf :: "string option"
  sp_structural_tag :: "string option"
  sp_ignore_eos :: bool
  sp_skip_special_tokens :: bool
  sp_spaces_between_special_tokens :: bool
  sp_no_stop_trim :: bool
  sp_custom_params :: "(string, string) dict option"
  sp_stream_interval :: "int option"
  sp_logit_bias :: "(string, 'f) dict option"
  sp_sampling_seed :: "int option"

definition SAMPLING_EPS :: rat where
  "SAMPLING_EPS = 1 / 1000000"

definition TOP_K_ALL :: int where
  "TOP_K_ALL = 2 ^ 30"

definition or_default :: "'a \<Rightarrow> 'a option \<Rightarrow> 'a" where
  "or_default d x = (case x of None \<Rightarrow> d | Some y \<Rightarrow> y)"

text \<open>A set of token ids is kept as a list without repetitions.\<close>

definition stop_ids :: "int option list option \<Rightarrow> int list option" where
  "stop_ids ids =
     (case ids of
        None \<Rightarrow> None
      | Some xs \<Rightarrow> (let filtered = remdups (List.map_filter id xs) in if filtered = [] then None else Some filtered))"

text \<open>A temperature of almost zero means greedy sampling, and a \<open>top_k\<close> of -1 the whole vocabulary.\<close>

definition special_cases :: "xfloat sampling_params \<Rightarrow> xfloat sampling_params" where
  "special_cases p =
     (let p1 = (if fle (Fin 0) (sp_temperature p) \<and> flt (sp_temperature p) (Fin SAMPLING_EPS)
                then p\<lparr>sp_temperature := Fin 1, sp_top_k := 1\<rparr> else p)
      in if sp_top_k p1 = -1 then p1\<lparr>sp_top_k := TOP_K_ALL\<rparr> else p1)"

definition sampling_params_init :: "xfloat sampling_args \<Rightarrow> xfloat sampling_params" where
  "sampling_params_init a = special_cases
     \<lparr>sp_max_new_tokens = sa_max_new_tokens a,
      sp_stop_strs = sa_stop a, sp_stop_str_max_len = None,
      sp_stop_token_ids = stop_ids (sa_stop_token_ids a),
      sp_stop_regex_strs = sa_stop_regex a, sp_stop_regex_max_len = None,
      sp_temperature = or_default (Fin 1) (sa_temperature a),
      sp_top_p = or_default (Fin 1) (sa_top_p a),
      sp_top_k = or_default (-1) (sa_top_k a),
      sp_min_p = or_default (Fin 0) (sa_min_p a),
      sp_frequency_penalty = or_default (Fin 0) (sa_frequency_penalty a),
      sp_presence_penalty = or_default (Fin 0) (sa_presence_penalty a),
      sp_repetition_penalty = or_default (Fin 1) (sa_repetition_penalty a),
      sp_min_new_tokens = or_default 0 (sa_min_new_tokens a),
      sp_regex = sa_regex a,
      sp_n = or_default 1 (sa_n a),
      sp_json_schema = sa_json_schema a,
      sp_ebnf = sa_ebnf a,
      sp_structural_tag = sa_structural_tag a,
      sp_ignore_eos = or_default False (sa_ignore_eos a),
      sp_skip_special_tokens = or_default True (sa_skip_special_tokens a),
      sp_spaces_between_special_tokens = or_default True (sa_spaces_between_special_tokens a),
      sp_no_stop_trim = or_default False (sa_no_stop_trim a),
      sp_custom_params = sa_custom_params a,
      sp_stream_interval = sa_stream_interval a,
      sp_logit_bias = sa_logit_bias a,
      sp_sampling_seed = sa_sampling_seed a\<rparr>"

section \<open>Verification\<close>

text \<open>
  Python's \<open>int\<close> on a string: white space around the number, one sign, digits with single
  underscores between them.
\<close>

definition is_space :: "char \<Rightarrow> bool" where
  "is_space c = (of_char c \<in> {9::nat, 10, 11, 12, 13, 28, 29, 30, 31, 32})"

definition digit_val :: "char \<Rightarrow> nat option" where
  "digit_val c = (let n = of_char c in if 48 \<le> n \<and> n \<le> 57 then Some (n - 48) else None)"

fun int_digits :: "nat \<Rightarrow> string \<Rightarrow> nat option" where
  "int_digits acc [] = Some acc"
| "int_digits acc (c # cs) =
     (case digit_val c of
        Some d \<Rightarrow> int_digits (10 * acc + d) cs
      | None \<Rightarrow> if c = CHR ''_'' then (case cs of [] \<Rightarrow> None | c' # cs' \<Rightarrow>
                    (case digit_val c' of Some d \<Rightarrow> int_digits (10 * acc + d) cs' | None \<Rightarrow> None)) else None)"

definition unsigned_int :: "string \<Rightarrow> nat option" where
  "unsigned_int s = (case s of [] \<Rightarrow> None | c # cs \<Rightarrow> (case digit_val c of Some d \<Rightarrow> int_digits d cs | None \<Rightarrow> None))"

definition py_int :: "string \<Rightarrow> int res" where
  "py_int s =
     (let t = dropWhile is_space (rev (dropWhile is_space (rev s)))
      in of_opt ValueError
           (case t of
              [] \<Rightarrow> None
            | c # cs \<Rightarrow> if c = CHR ''-'' then map_option (\<lambda>n. - int n) (unsigned_int cs)
                        else if c = CHR ''+'' then map_option int (unsigned_int cs)
                        else map_option int (unsigned_int t)))"

fun verify_bias_keys :: "int \<Rightarrow> string list \<Rightarrow> unit res" where
  "verify_bias_keys vocab_size [] = Inr ()"
| "verify_bias_keys vocab_size (k # ks) =
     rbind (py_int k) (\<lambda>t. rbind (guard_res (0 \<le> t \<and> t < vocab_size) ValueError) (\<lambda>_. verify_bias_keys vocab_size ks))"

definition verify :: "int \<Rightarrow> xfloat sampling_params \<Rightarrow> unit res" where
  "verify vocab_size p =
     rbind (guard_res (\<not> flt (sp_temperature p) (Fin 0)) ValueError) (\<lambda>_.
     rbind (guard_res (flt (Fin 0) (sp_top_p p) \<and> fle (sp_top_p p) (Fin 1)) ValueError) (\<lambda>_.
     rbind (guard_res (fle (Fin 0) (sp_min_p p) \<and> fle (sp_min_p p) (Fin 1)) ValueError) (\<lambda>_.
     rbind (guard_res (\<not> (sp_top_k p < 1 \<or> sp_top_k p = -1)) ValueError) (\<lambda>_.
     rbind (guard_res (fle (Fin (-2)) (sp_frequency_penalty p) \<and> fle (sp_frequency_penalty p) (Fin 2)) ValueError) (\<lambda>_.
     rbind (guard_res (fle (Fin (-2)) (sp_presence_penalty p) \<and> fle (sp_presence_penalty p) (Fin 2)) ValueError) (\<lambda>_.
     rbind (guard_res (fle (Fin 0) (sp_repetition_penalty p) \<and> fle (sp_repetition_penalty p) (Fin 2)) ValueError) (\<lambda>_.
     rbind (guard_res (0 \<le> sp_min_new_tokens p) ValueError) (\<lambda>_.
     rbind (case sp_max_new_tokens p of
              None \<Rightarrow> Inr ()
            | Some m \<Rightarrow> rbind (guard_res (\<not> m < 0) ValueError) (\<lambda>_.
                         guard_res (sp_min_new_tokens p \<le> m) ValueError)) (\<lambda>_.
     rbind (case sp_logit_bias p of None \<Rightarrow> Inr () | Some b \<Rightarrow> verify_bias_keys vocab_size (map fst b)) (\<lambda>_.
     guard_res (\<not> 1 < length (filter (\<lambda>g. g \<noteq> None) [sp_json_schema p, sp_regex p, sp_ebnf p])) ValueError))))))))))"

section \<open>Stop expressions\<close>

text \<open>
  The tree \<open>sre_parse\<close> returns: a sequence of items. A class of characters is given by its
  characters and whether it is negated; \<open>None\<close> as the upper bound of a repetition is \<open>MAXREPEAT\<close>;
  every other kind of item (look-around, back references, negated literals) is \<open>OTHER\<close>.
\<close>

datatype sre =
    LITERAL char
  | IN bool "char list"
  | ANY
  | SUBPATTERN "sre list"
  | BRANCH "sre list list"
  | MAX_REPEAT nat "nat option" "sre list"
  | MIN_REPEAT nat "nat option" "sre list"
  | AT string
  | OTHER string

definition MAX_LEN :: nat where
  "MAX_LEN = 2 ^ 30"

text \<open>\<open>max\<close> of an empty sequence raises.\<close>

fun py_max :: "nat list \<Rightarrow> nat res" where
  "py_max [] = Inl ValueError"
| "py_max (x # xs) = Inr (fold max xs x)"

fun max_length_from_subpattern :: "sre list \<Rightarrow> nat res"
  and item_max_length :: "sre \<Rightarrow> nat res"
  and branch_max_lengths :: "sre list list \<Rightarrow> nat list res" where
  "max_length_from_subpattern [] = Inr 0"
| "max_length_from_subpattern (x # xs) =
     rbind (item_max_length x) (\<lambda>m. rbind (max_length_from_subpattern xs) (\<lambda>n. Inr (m + n)))"
| "item_max_length (LITERAL c) = Inr 1"
| "item_max_length (IN neg cs) = Inr 1"
| "item_max_length ANY = Inr 1"
| "item_max_length (SUBPATTERN inner) = max_length_from_subpattern inner"
| "item_max_length (BRANCH branches) = rbind (branch_max_lengths branches) py_max"
| "item_max_length (MAX_REPEAT lo hi inner) =
     (case hi of None \<Rightarrow> Inr MAX_LEN | Some h \<Rightarrow> rbind (max_length_from_subpattern inner) (\<lambda>n. Inr (h * n)))"
| "item_max_length (MIN_REPEAT lo hi inner) =
     (case hi of None \<Rightarrow> Inr MAX_LEN | Some h \<Rightarrow> rbind (max_length_from_subpattern inner) (\<lambda>n. Inr (h * n)))"
| "item_max_length (AT s) = Inr 0"
| "item_max_length (OTHER s) = Inr MAX_LEN"
| "branch_max_lengths [] = Inr []"
| "branch_max_lengths (b # bs) =
     rbind (max_length_from_subpattern b) (\<lambda>n. rbind (branch_max_lengths bs) (\<lambda>ns. Inr (n # ns)))"

definition get_max_seq_length :: "(string \<Rightarrow> sre list res) \<Rightarrow> string \<Rightarrow> nat res" where
  "get_max_seq_length parse regex_str = rbind (parse regex_str) max_length_from_subpattern"

section \<open>Normalisation\<close>

fun max_over :: "(string \<Rightarrow> nat res) \<Rightarrow> nat \<Rightarrow> string list \<Rightarrow> nat res" where
  "max_over f m [] = Inr m"
| "max_over f m (s # ss) = rbind (f s) (\<lambda>n. max_over f (max m n) ss)"

definition normalize :: "(string \<Rightarrow> int list) option \<Rightarrow> (string \<Rightarrow> sre list res) \<Rightarrow> 'f sampling_params \<Rightarrow> 'f sampling_params res" where
  "normalize tokenizer parse p =
     (let strs = (case sp_stop_strs p of NoStr \<Rightarrow> [] | OneStr s \<Rightarrow> [s] | ManyStr ss \<Rightarrow> ss);
          regexes = (case sp_stop_regex_strs p of NoStr \<Rightarrow> [] | OneStr s \<Rightarrow> [s] | ManyStr ss \<Rightarrow> ss);
          str_len = (\<lambda>s. case tokenizer of Some encode \<Rightarrow> length (encode s) | None \<Rightarrow> length s)
      in rbind (max_over (\<lambda>s. Inr (str_len s)) 0 strs) (\<lambda>m.
         rbind (max_over (get_max_seq_length parse) 0 regexes) (\<lambda>n.
         Inr (p\<lparr>sp_stop_strs := ManyStr strs, sp_stop_str_max_len := Some m,
                sp_stop_regex_strs := ManyStr regexes, sp_stop_regex_max_len := Some n\<rparr>))))"

section \<open>What a stop expression matches\<close>

text \<open>
  The strings a sequence of items matches: the meaning the documentation of \<open>re\<close> gives to the
  items the code distinguishes. Nothing is assumed about the other items: they match any string.
\<close>

inductive seq_matches :: "sre list \<Rightarrow> string \<Rightarrow> bool"
  and item_matches :: "sre \<Rightarrow> string \<Rightarrow> bool"
  and repeat_matches :: "nat \<Rightarrow> sre list \<Rightarrow> string \<Rightarrow> bool" where
  seq_Nil: "seq_matches [] []"
| seq_Cons: "item_matches x u \<Longrightarrow> seq_matches xs v \<Longrightarrow> seq_matches (x # xs) (u @ v)"
| item_LITERAL: "item_matches (LITERAL c) [c]"
| item_IN: "(c \<in> set cs) \<noteq> neg \<Longrightarrow> item_matches (IN neg cs) [c]"
| item_ANY: "item_matches ANY [c]"
| item_SUBPATTERN: "seq_matches inner w \<Longrightarrow> item_matches (SUBPATTERN inner) w"
| item_BRANCH: "b \<in> set branches \<Longrightarrow> seq_matches b w \<Longrightarrow> item_matches (BRANCH branches) w"
| item_MAX_REPEAT: "lo \<le> k \<Longrightarrow> (case hi of None \<Rightarrow> True | Some h \<Rightarrow> k \<le> h) \<Longrightarrow> repeat_matches k inner w
    \<Longrightarrow> item_matches (MAX_REPEAT lo hi inner) w"
| item_MIN_REPEAT: "lo \<le> k \<Longrightarrow> (case hi of None \<Rightarrow> True | Some h \<Rightarrow> k \<le> h) \<Longrightarrow> repeat_matches k inner w
    \<Longrightarrow> item_matches (MIN_REPEAT lo hi inner) w"
| item_AT: "item_matches (AT s) []"
| item_OTHER: "item_matches (OTHER s) w"
| repeat_0: "repeat_matches 0 inner []"
| repeat_Suc: "seq_matches inner u \<Longrightarrow> repeat_matches k inner v \<Longrightarrow> repeat_matches (Suc k) inner (u @ v)"

lemma py_max_ge:
  assumes "py_max xs = Inr m" "x \<in> set xs"
  shows "x \<le> m"
proof -
  have "x \<le> fold max ys y" if "x \<in> set (y # ys)" for y ys and x :: nat
    using that by (simp add: Max.set_eq_fold [symmetric])
  with assms show ?thesis by (cases xs) auto
qed

lemma branch_max_lengths_of:
  assumes "branch_max_lengths bs = Inr ns" "b \<in> set bs"
  shows "\<exists>n\<in>set ns. max_length_from_subpattern b = Inr n"
  using assms by (induction bs arbitrary: ns) (auto simp: rbind_eq_Inr_iff)

lemma repeat_bound:
  fixes k h n :: nat
  assumes "h * n < MAX_LEN" "k \<le> h" "n < MAX_LEN \<Longrightarrow> length w \<le> k * n" "k = 0 \<Longrightarrow> w = []"
  shows "length w \<le> h * n"
proof (cases "h = 0")
  case False
  then have "n \<le> h * n" by simp
  with assms(1,3) have "length w \<le> k * n" by linarith
  with assms(2) show ?thesis by (meson le_trans mult_le_mono1)
qed (use assms in simp)

lemma matches_bounded:
  "seq_matches p w \<Longrightarrow> max_length_from_subpattern p = Inr n \<Longrightarrow> n < MAX_LEN \<Longrightarrow> length w \<le> n"
  "item_matches i w \<Longrightarrow> item_max_length i = Inr n \<Longrightarrow> n < MAX_LEN \<Longrightarrow> length w \<le> n"
  "repeat_matches k p w \<Longrightarrow> (k = 0 \<longrightarrow> w = []) \<and> (max_length_from_subpattern p = Inr n \<longrightarrow> n < MAX_LEN \<longrightarrow> length w \<le> k * n)"
proof (induction arbitrary: n and n and n rule: seq_matches_item_matches_repeat_matches.inducts)
  case (seq_Cons x u xs v)
  then obtain a b where "item_max_length x = Inr a" "max_length_from_subpattern xs = Inr b" "n = a + b"
    by (auto simp: rbind_eq_Inr_iff)
  with seq_Cons show ?case by fastforce
next
  case (item_BRANCH b branches w)
  then obtain ns where ns: "branch_max_lengths branches = Inr ns" "py_max ns = Inr n" by (auto simp: rbind_eq_Inr_iff)
  with branch_max_lengths_of [OF ns(1) item_BRANCH.hyps(1)] obtain m where m: "m \<in> set ns" "max_length_from_subpattern b = Inr m"
    by blast
  moreover have "m \<le> n" by (rule py_max_ge [OF ns(2) m(1)])
  ultimately show ?case using item_BRANCH by fastforce
next
  case (item_MAX_REPEAT lo k hi inner w)
  then obtain h m where h: "hi = Some h" "max_length_from_subpattern inner = Inr m" "n = h * m"
    by (auto simp: rbind_eq_Inr_iff split: option.splits)
  with item_MAX_REPEAT show ?case by (auto intro!: repeat_bound [of h m k])
next
  case (item_MIN_REPEAT lo k hi inner w)
  then obtain h m where h: "hi = Some h" "max_length_from_subpattern inner = Inr m" "n = h * m"
    by (auto simp: rbind_eq_Inr_iff split: option.splits)
  with item_MIN_REPEAT show ?case by (auto intro!: repeat_bound [of h m k])
qed (fastforce simp: add_mono)+

lemma max_over_ge: "max_over f a ss = Inr m \<Longrightarrow> a \<le> m"
proof (induction ss arbitrary: a)
  case (Cons s ss)
  then obtain k where "max_over f (max a k) ss = Inr m" by (auto simp: rbind_eq_Inr_iff)
  then have "max a k \<le> m" by (rule Cons.IH)
  then show ?case by simp
qed simp

text \<open>
  C25: The length computed for a stop expression bounds every match: a string that one of the
  expressions matches is at most as long as \<open>stop_regex_max_len\<close> after normalisation, unless the
  computed length says the expression is unbounded.
\<close>

theorem stop_regex_length_bound:
  assumes "normalize tokenizer parse p = Inr p'" "sp_stop_regex_max_len p' = Some m" "m < MAX_LEN"
    "sp_stop_regex_strs p' = ManyStr rs" "r \<in> set rs" "parse r = Inr t" "seq_matches t w"
  shows "length w \<le> m"
proof -
  have over: "\<exists>k. f s = Inr k \<and> k \<le> m" if "max_over f a ss = Inr m" "s \<in> set ss" for f a ss m s
    using that
  proof (induction ss arbitrary: a)
    case (Cons x xs)
    then show ?case by (auto simp: rbind_eq_Inr_iff dest: max_over_ge)
  qed simp
  have "max_over (get_max_seq_length parse) 0 rs = Inr m"
    using assms(1,2,4) by (auto simp: normalize_def Let_def rbind_eq_Inr_iff)
  from over [OF this assms(5)] obtain k where "max_length_from_subpattern t = Inr k" "k \<le> m"
    using assms(6) by (auto simp: get_max_seq_length_def)
  then show ?thesis using matches_bounded(1) [OF assms(7)] assms(3) by fastforce
qed

section \<open>What verification guarantees\<close>

definition at_most_one :: "'a option list \<Rightarrow> bool" where
  "at_most_one xs \<longleftrightarrow> length (filter (\<lambda>x. x \<noteq> None) xs) \<le> 1"

lemma verify_bias_keys_iff:
  "verify_bias_keys vocab_size ks = Inr () \<longleftrightarrow> (\<forall>k\<in>set ks. \<exists>t. py_int k = Inr t \<and> 0 \<le> t \<and> t < vocab_size)"
  by (induction ks) (auto simp: rbind_eq_Inr_iff guard_res_eq_Inr_iff)

lemma init_temperature:
  assumes "p = sampling_params_init a" "t = or_default (Fin 1) (sa_temperature a)"
  shows "sp_temperature p = (if fle (Fin 0) t \<and> flt t (Fin SAMPLING_EPS) then Fin 1 else t)"
    "fle (Fin 0) t \<and> flt t (Fin SAMPLING_EPS) \<longrightarrow> sp_top_k p = 1" "sp_top_k p \<noteq> -1"
  using assms by (simp_all add: sampling_params_init_def special_cases_def Let_def TOP_K_ALL_def)

lemma temperature_checked:
  assumes "p = sampling_params_init a"
  shows "\<not> flt (sp_temperature p) (Fin 0) \<longleftrightarrow> fle (Fin SAMPLING_EPS) (sp_temperature p) \<or> sp_temperature p = NaN"
  unfolding init_temperature(1) [OF assms refl]
  by (cases "or_default (Fin 1) (sa_temperature a)") (auto simp: SAMPLING_EPS_def)

text \<open>
  C26: Verification of constructed parameters accepts exactly those that are in the ranges the error
  messages state, for any floating-point arguments, infinities and NaN among them: \<open>top_p\<close>, \<open>min_p\<close>
  and the frequency, presence and repetition penalties are finite and in their ranges, \<open>top_k\<close>
  selects at least one token, the limits of new tokens are ordered, every key of the logit bias
  names a token of the vocabulary, and at most one grammar is given. The temperature is at least
  \<open>SAMPLING_EPS\<close>, so that logits can be divided by it, or it is NaN: \<open>temperature < 0\<close> does not reject
  NaN. A request is greedy when almost no temperature was asked for.
\<close>

theorem verified_params_safe:
  assumes "p = sampling_params_init a"
  shows "(verify vocab_size p = Inr () \<longleftrightarrow>
       (fle (Fin SAMPLING_EPS) (sp_temperature p) \<or> sp_temperature p = NaN) \<and> 1 \<le> sp_top_k p
     \<and> in_range 0 1 (sp_top_p p) \<and> sp_top_p p \<noteq> Fin 0 \<and> in_range 0 1 (sp_min_p p)
     \<and> in_range (-2) 2 (sp_frequency_penalty p) \<and> in_range (-2) 2 (sp_presence_penalty p) \<and> in_range 0 2 (sp_repetition_penalty p)
     \<and> 0 \<le> sp_min_new_tokens p \<and> (case sp_max_new_tokens p of None \<Rightarrow> True | Some m \<Rightarrow> sp_min_new_tokens p \<le> m)
     \<and> (case sp_logit_bias p of None \<Rightarrow> True | Some b \<Rightarrow> \<forall>k\<in>set (map fst b). \<exists>t. py_int k = Inr t \<and> 0 \<le> t \<and> t < vocab_size)
     \<and> at_most_one [sp_json_schema p, sp_regex p, sp_ebnf p])
   \<and> (fle (Fin 0) (or_default (Fin 1) (sa_temperature a)) \<and> flt (or_default (Fin 1) (sa_temperature a)) (Fin SAMPLING_EPS) \<longrightarrow> sp_top_k p = 1)"
proof -
  have top_p: "flt (Fin 0) x \<and> fle x (Fin 1) \<longleftrightarrow> in_range 0 1 x \<and> x \<noteq> Fin 0" for x
    by (cases x) (auto simp: in_range_def less_le)
  have new: "(case m of None \<Rightarrow> Inr () | Some m \<Rightarrow> rbind (guard_res (\<not> m < 0) ValueError) (\<lambda>_. guard_res (n \<le> m) ValueError)) = Inr ()
      \<longleftrightarrow> (case m of None \<Rightarrow> True | Some m \<Rightarrow> n \<le> m)" if "0 \<le> n" for m and n :: int
    using that by (cases m) (auto simp: rbind_eq_Inr_iff guard_res_eq_Inr_iff)
  have bias: "(case b of None \<Rightarrow> Inr () | Some b \<Rightarrow> verify_bias_keys vocab_size (map fst b)) = Inr ()
      \<longleftrightarrow> (case b of None \<Rightarrow> True | Some b \<Rightarrow> \<forall>k\<in>set (map fst b). \<exists>t. py_int k = Inr t \<and> 0 \<le> t \<and> t < vocab_size)" for b :: "(string \<times> 'b) list option"
    by (cases b) (simp_all add: verify_bias_keys_iff)
  have grm: "\<not> 1 < length (filter (\<lambda>g. g \<noteq> None) xs) \<longleftrightarrow> at_most_one xs" for xs :: "'b option list"
    by (simp add: at_most_one_def not_less)
  have topk: "\<not> (sp_top_k p < 1 \<or> sp_top_k p = -1) \<longleftrightarrow> 1 \<le> sp_top_k p" by auto
  have un: "(\<exists>x. m = Inr x \<and> P) \<longleftrightarrow> m = Inr () \<and> P" for m :: "unit res" and P by auto
  have "verify vocab_size p = Inr () \<longleftrightarrow>
       (fle (Fin SAMPLING_EPS) (sp_temperature p) \<or> sp_temperature p = NaN) \<and> (in_range 0 1 (sp_top_p p) \<and> sp_top_p p \<noteq> Fin 0)
     \<and> in_range 0 1 (sp_min_p p) \<and> 1 \<le> sp_top_k p \<and> in_range (-2) 2 (sp_frequency_penalty p) \<and> in_range (-2) 2 (sp_presence_penalty p)
     \<and> in_range 0 2 (sp_repetition_penalty p) \<and> 0 \<le> sp_min_new_tokens p
     \<and> (case sp_max_new_tokens p of None \<Rightarrow> True | Some m \<Rightarrow> sp_min_new_tokens p \<le> m)
     \<and> (case sp_logit_bias p of None \<Rightarrow> True | Some b \<Rightarrow> \<forall>k\<in>set (map fst b). \<exists>t. py_int k = Inr t \<and> 0 \<le> t \<and> t < vocab_size)
     \<and> at_most_one [sp_json_schema p, sp_regex p, sp_ebnf p]"
    unfolding verify_def rbind_eq_Inr_iff un guard_res_eq_Inr_iff temperature_checked [OF assms] top_p fle_range topk bias grm
    using new by blast
  then show ?thesis using init_temperature(2) [OF assms refl] by blast
qed

definition sample_args :: "xfloat sampling_args" where
  "sample_args =
     \<lparr>sa_max_new_tokens = Some 16, sa_stop = NoStr, sa_stop_token_ids = Some [Some 2, None], sa_stop_regex = OneStr ''a{2,3}'',
      sa_temperature = Some (Fin 0), sa_top_p = None, sa_top_k = None, sa_min_p = None, sa_frequency_penalty = Some (Fin (1 / 2)),
      sa_presence_penalty = None, sa_repetition_penalty = None, sa_min_new_tokens = Some 1, sa_n = None, sa_json_schema = None,
      sa_regex = None, sa_ebnf = None, sa_structural_tag = None, sa_ignore_eos = None, sa_skip_special_tokens = None,
      sa_spaces_between_special_tokens = None, sa_no_stop_trim = None, sa_custom_params = None, sa_stream_interval = None,
      sa_logit_bias = Some [('' 7'', Fin 1)], sa_sampling_seed = None\<rparr>"

text \<open>A parser that knows one expression.\<close>

definition sample_parse :: "string \<Rightarrow> sre list res" where
  "sample_parse s = (if s = ''a{2,3}'' then Inr [MAX_REPEAT 2 (Some 3) [LITERAL (CHR ''a'')]] else Inl ValueError)"

theorem stop_regex_length_bound_witness:
  "\<exists>p' t. normalize None sample_parse (sampling_params_init sample_args) = Inr p' \<and> sp_stop_regex_strs p' = ManyStr [''a{2,3}'']
     \<and> sp_stop_regex_max_len p' = Some 3 \<and> sample_parse ''a{2,3}'' = Inr t \<and> seq_matches t ''aa'' \<and> length ''aa'' \<le> (3::nat)"
proof -
  have "seq_matches [] []" by (rule seq_Nil)
  then have one: "seq_matches [LITERAL (CHR ''a'')] [CHR ''a'']"
    using seq_Cons [OF item_LITERAL, of "[]" "[]" "CHR ''a''"] by simp
  have "repeat_matches 1 [LITERAL (CHR ''a'')] ''a''" using repeat_Suc [OF one repeat_0] by simp
  then have "repeat_matches 2 [LITERAL (CHR ''a'')] ''aa''"
    using repeat_Suc [OF one, of 1 "''a''"] by (simp add: numeral_2_eq_2)
  then have item: "item_matches (MAX_REPEAT 2 (Some 3) [LITERAL (CHR ''a'')]) ''aa''"
    by (intro item_MAX_REPEAT [of 2 2]) simp_all
  let ?t = "[MAX_REPEAT 2 (Some 3) [LITERAL (CHR ''a'')]]"
  have m: "seq_matches ?t ''aa''" using seq_Cons [OF item seq_Nil] by simp
  have pt: "sample_parse ''a{2,3}'' = Inr ?t" by (simp add: sample_parse_def)
  define p where "p = sampling_params_init sample_args"
  define p' where "p' = p\<lparr>sp_stop_strs := ManyStr [], sp_stop_str_max_len := Some 0,
     sp_stop_regex_strs := ManyStr [''a{2,3}''], sp_stop_regex_max_len := Some 3\<rparr>"
  have n: "normalize None sample_parse p = Inr p'"
    by (simp add: normalize_def p_def p'_def sampling_params_init_def special_cases_def sample_args_def Let_def SAMPLING_EPS_def
        get_max_seq_length_def sample_parse_def)
  have f: "sp_stop_regex_max_len p' = Some 3" "3 < MAX_LEN" "sp_stop_regex_strs p' = ManyStr [''a{2,3}'']" "''a{2,3}'' \<in> set [''a{2,3}'']"
    by (simp_all add: p'_def MAX_LEN_def)
  from stop_regex_length_bound [OF n f pt m] n f(1,3) pt m show ?thesis unfolding p_def by blast
qed

lemma py_seven: "py_int '' 7'' = Inr 7"
  by (simp add: py_int_def is_space_def unsigned_int_def digit_val_def)

theorem verified_params_safe_witness:
  "verify 10 (sampling_params_init sample_args) = Inr () \<and> fle (Fin SAMPLING_EPS) (sp_temperature (sampling_params_init sample_args))
    \<and> sp_top_k (sampling_params_init sample_args) = 1 \<and> verify 10 (sampling_params_init (sample_args\<lparr>sa_presence_penalty := Some NaN\<rparr>)) \<noteq> Inr ()"
proof -
  have t: "sa_temperature sample_args = Some (Fin 0)" by (simp add: sample_args_def)
  have "verify 10 (sampling_params_init sample_args) = Inr ()"
    by (simp add: verify_def sampling_params_init_def special_cases_def sample_args_def or_default_def SAMPLING_EPS_def py_seven)
  moreover have "sp_temperature (sampling_params_init sample_args) = Fin 1"
    by (simp add: sampling_params_init_def special_cases_def sample_args_def or_default_def SAMPLING_EPS_def)
  moreover have "sp_presence_penalty (sampling_params_init (sample_args\<lparr>sa_presence_penalty := Some NaN\<rparr>)) = NaN"
    by (simp add: sampling_params_init_def special_cases_def Let_def or_default_def)
  ultimately show ?thesis
    using verified_params_safe [OF refl, where a = sample_args and vocab_size = 10]
      verified_params_safe [OF refl, where a = "sample_args\<lparr>sa_presence_penalty := Some NaN\<rparr>" and vocab_size = 10]
    by (auto simp: t or_default_def SAMPLING_EPS_def in_range_def)
qed

section \<open>Finite parameters\<close>

text \<open>
  The batch works with the values of finite parameters. Only the temperature of verified parameters
  and the values of their logit bias may not be finite.
\<close>

fun fin_val :: "xfloat \<Rightarrow> rat" where
  "fin_val (Fin q) = q"
| "fin_val _ = 0"

definition finite_params :: "xfloat sampling_params \<Rightarrow> rat sampling_params" where
  "finite_params p =
     \<lparr>sp_max_new_tokens = sp_max_new_tokens p, sp_stop_strs = sp_stop_strs p, sp_stop_str_max_len = sp_stop_str_max_len p,
      sp_stop_token_ids = sp_stop_token_ids p, sp_stop_regex_strs = sp_stop_regex_strs p, sp_stop_regex_max_len = sp_stop_regex_max_len p,
      sp_temperature = fin_val (sp_temperature p), sp_top_p = fin_val (sp_top_p p), sp_top_k = sp_top_k p, sp_min_p = fin_val (sp_min_p p),
      sp_frequency_penalty = fin_val (sp_frequency_penalty p), sp_presence_penalty = fin_val (sp_presence_penalty p),
      sp_repetition_penalty = fin_val (sp_repetition_penalty p), sp_min_new_tokens = sp_min_new_tokens p, sp_regex = sp_regex p, sp_n = sp_n p,
      sp_json_schema = sp_json_schema p, sp_ebnf = sp_ebnf p, sp_structural_tag = sp_structural_tag p, sp_ignore_eos = sp_ignore_eos p,
      sp_skip_special_tokens = sp_skip_special_tokens p, sp_spaces_between_special_tokens = sp_spaces_between_special_tokens p,
      sp_no_stop_trim = sp_no_stop_trim p, sp_custom_params = sp_custom_params p, sp_stream_interval = sp_stream_interval p,
      sp_logit_bias = map_option (map (\<lambda>(k, v). (k, fin_val v))) (sp_logit_bias p), sp_sampling_seed = sp_sampling_seed p\<rparr>"

end
