(* ===== verification/Penalizers.thy ===== *)
theory Penalizers
  imports Sampling_Params
begin

text \<open>
  The penalties that sampling subtracts from or divides into the logits of a batch:
  \<open>sampling/penaltylib/orchestrator.py\<close> and its four penalizers. A tensor is a list of rows; a
  floating-point number is an exact rational, an infinity or not a number. The orchestrator of a
  batch reads the requests of the batch through a weak reference: here they are an argument.
  The penalizers are created from a Python set of classes, whose order of iteration is arbitrary:
  it is the argument \<open>order\<close>.
\<close>

section \<open>Arithmetic of floating-point numbers\<close>

fun fneg :: "xfloat \<Rightarrow> xfloat" where
  "fneg (Fin a) = Fin (- a)"
| "fneg PInf = NInf"
| "fneg NInf = PInf"
| "fneg NaN = NaN"

fun fadd :: "xfloat \<Rightarrow> xfloat \<Rightarrow> xfloat" where
  "fadd (Fin a) (Fin b) = Fin (a + b)"
| "fadd (Fin a) y = y"
| "fadd NaN y = NaN"
| "fadd PInf (Fin b) = PInf"
| "fadd PInf PInf = PInf"
| "fadd PInf y = NaN"
| "fadd NInf (Fin b) = NInf"
| "fadd NInf NInf = NInf"
| "fadd NInf y = NaN"

definition fsub :: "xfloat \<Rightarrow> xfloat \<Rightarrow> xfloat" where
  "fsub x y = fadd x (fneg y)"

text \<open>The product and the quotient of a number and a finite factor.\<close>

fun fscale :: "xfloat \<Rightarrow> rat \<Rightarrow> xfloat" where
  "fscale (Fin a) s = Fin (a * s)"
| "fscale NaN s = NaN"
| "fscale PInf s = (if s = 0 then NaN else if 0 < s then PInf else NInf)"
| "fscale NInf s = (if s = 0 then NaN else if 0 < s then NInf else PInf)"

fun fdivide :: "xfloat \<Rightarrow> rat \<Rightarrow> xfloat" where
  "fdivide (Fin a) s = (if s = 0 then (if a = 0 then NaN else if 0 < a then PInf else NInf) else Fin (a / s))"
| "fdivide NaN s = NaN"
| "fdivide PInf s = (if 0 \<le> s then PInf else NInf)"
| "fdivide NInf s = (if 0 \<le> s then NInf else PInf)"

fun fnegative :: "xfloat \<Rightarrow> bool" where
  "fnegative (Fin a) = (a < 0)"
| "fnegative NInf = True"
| "fnegative _ = False"

section \<open>Tensors\<close>

type_synonym 'a matrix = "'a list list"

text \<open>A dimension of size 1 is stretched to the size of the other operand.\<close>

definition broadcast :: "nat \<Rightarrow> 'a list \<Rightarrow> 'a list res" where
  "broadcast n xs =
     (if length xs = n then Inr xs else if length xs = 1 then Inr (replicate n (hd xs)) else Inl RuntimeError)"

text \<open>An elementwise operation in place on the left operand.\<close>

definition elementwise :: "('a \<Rightarrow> 'b \<Rightarrow> 'a) \<Rightarrow> 'a matrix \<Rightarrow> 'b matrix \<Rightarrow> 'a matrix res" where
  "elementwise f xs ys =
     rbind (broadcast (length xs) ys) (\<lambda>ys'.
     rmap (\<lambda>(row, y). rbind (broadcast (length row) y) (\<lambda>y'. Inr (map2 f row y'))) (zip xs ys'))"

definition take_rows :: "nat list \<Rightarrow> 'a list \<Rightarrow> 'a list res" where
  "take_rows keep xs = rmap (\<lambda>i. if i < length xs then Inr (xs ! i) else Inl IndexError) keep"

text \<open>
  \<open>scatter\<close> along the columns with one index per row: row \<open>i\<close> is combined with \<open>src[i]\<close> at its
  index; rows beyond the index tensor are unchanged.
\<close>

definition scatter_col :: "('a \<Rightarrow> 'b \<Rightarrow> 'a) \<Rightarrow> int list \<Rightarrow> 'b list \<Rightarrow> 'a matrix \<Rightarrow> 'a matrix res" where
  "scatter_col f idx src m =
     (if length idx \<le> length m \<and> length idx \<le> length src
      then rbind (rmap (\<lambda>(row, i, s). if 0 \<le> i \<and> i < int (length row)
                        then Inr (row[nat i := f (row ! nat i) s]) else Inl RuntimeError)
                   (zip m (zip idx src))) (\<lambda>rows. Inr (rows @ drop (length idx) m))
      else Inl RuntimeError)"

definition repeat_interleave :: "nat \<Rightarrow> 'a list \<Rightarrow> 'a list" where
  "repeat_interleave n xs = concat (map (replicate n) xs)"

definition columns :: "'a matrix \<Rightarrow> nat" where
  "columns m = (case m of [] \<Rightarrow> 0 | r # _ \<Rightarrow> length r)"

section \<open>Penalizers\<close>

text \<open>What sampling reads of a request.\<close>

record samp_req =
  sr_params :: "rat sampling_params"
  sr_eos_token_id :: int
  sr_additional_stop_token_ids :: "int list option"
  sr_custom_logit_processor :: "string option"

datatype penalizer_kind = FrequencyPenalizer | MinNewTokensPenalizer | PresencePenalizer | RepetitionPenalizer

text \<open>The tensors of a prepared penalizer; an unprepared one has none.\<close>

datatype penalizer_state =
    CumState (cu_penalties: "rat list") (cu_cumulated: "rat matrix")
  | MinNewState (mn_min_new_tokens: "int list") (mn_stop_token_penalties: "xfloat matrix") (mn_len_output_tokens: "int list")

type_synonym penalizer = "penalizer_state option"

fun is_multiplicative :: "penalizer_kind \<Rightarrow> bool" where
  "is_multiplicative RepetitionPenalizer = True"
| "is_multiplicative _ = False"

fun req_requires :: "penalizer_kind \<Rightarrow> samp_req \<Rightarrow> bool" where
  "req_requires FrequencyPenalizer r = (sp_frequency_penalty (sr_params r) \<noteq> 0)"
| "req_requires MinNewTokensPenalizer r = (0 < sp_min_new_tokens (sr_params r))"
| "req_requires PresencePenalizer r = (sp_presence_penalty (sr_params r) \<noteq> 0)"
| "req_requires RepetitionPenalizer r = (sp_repetition_penalty (sr_params r) \<noteq> 1)"

definition penalizer_is_required :: "penalizer_kind \<Rightarrow> samp_req list \<Rightarrow> bool" where
  "penalizer_is_required k reqs = list_ex (req_requires k) reqs"

definition stop_token_set :: "samp_req \<Rightarrow> int list" where
  "stop_token_set r = remdups
     (or_default [] (sp_stop_token_ids (sr_params r)) @ or_default [] (sr_additional_stop_token_ids r) @ [sr_eos_token_id r])"

text \<open>
  \<open>pad_sequence\<close> pads with the vocabulary size, an extra column that is cut off after the
  penalties were scattered.
\<close>

definition pad_sequence :: "int \<Rightarrow> int list list \<Rightarrow> int matrix res" where
  "pad_sequence padding seqs =
     (if seqs = [] then Inl RuntimeError
      else let n = Max (set (map length seqs)) in Inr (map (\<lambda>s. s @ replicate (n - length s) padding) seqs))"

fun scatter_neg_inf :: "int list \<Rightarrow> xfloat list \<Rightarrow> xfloat list res" where
  "scatter_neg_inf [] row = Inr row"
| "scatter_neg_inf (i # is) row =
     (if 0 \<le> i \<and> i < int (length row) then scatter_neg_inf is (row[nat i := fadd (row ! nat i) NInf]) else Inl RuntimeError)"

definition frequency_prepare :: "nat \<Rightarrow> samp_req list \<Rightarrow> penalizer_state" where
  [simp]: "frequency_prepare vocab_size reqs =
     CumState (map (\<lambda>r. sp_frequency_penalty (sr_params r)) reqs) (replicate (length reqs) (replicate vocab_size 0))"

definition presence_prepare :: "nat \<Rightarrow> samp_req list \<Rightarrow> penalizer_state" where
  [simp]: "presence_prepare vocab_size reqs =
     CumState (map (\<lambda>r. sp_presence_penalty (sr_params r)) reqs) (replicate (length reqs) (replicate vocab_size 0))"

definition repetition_prepare :: "nat \<Rightarrow> samp_req list \<Rightarrow> penalizer_state" where
  [simp]: "repetition_prepare vocab_size reqs =
     CumState (map (\<lambda>r. sp_repetition_penalty (sr_params r)) reqs) (replicate (length reqs) (replicate vocab_size 1))"

definition min_new_tokens_prepare :: "nat \<Rightarrow> samp_req list \<Rightarrow> penalizer_state res" where
  [simp]: "min_new_tokens_prepare vocab_size reqs =
     rbind (pad_sequence (int vocab_size) (map stop_token_set reqs)) (\<lambda>padded.
     rbind (rmap (\<lambda>ids. scatter_neg_inf ids (replicate (vocab_size + 1) (Fin 0))) padded) (\<lambda>pens.
     Inr (MinNewState (map (\<lambda>r. sp_min_new_tokens (sr_params r)) reqs) (map (take vocab_size) pens) (replicate (length reqs) 0))))"

fun prepare_state :: "nat \<Rightarrow> samp_req list \<Rightarrow> penalizer_kind \<Rightarrow> penalizer_state res" where
  "prepare_state vocab_size reqs FrequencyPenalizer = Inr (frequency_prepare vocab_size reqs)"
| "prepare_state vocab_size reqs PresencePenalizer = Inr (presence_prepare vocab_size reqs)"
| "prepare_state vocab_size reqs RepetitionPenalizer = Inr (repetition_prepare vocab_size reqs)"
| "prepare_state vocab_size reqs MinNewTokensPenalizer = min_new_tokens_prepare vocab_size reqs"

definition prepare :: "nat \<Rightarrow> samp_req list \<Rightarrow> penalizer_kind \<Rightarrow> penalizer \<Rightarrow> penalizer_state res" where
  "prepare vocab_size reqs k p = (case p of None \<Rightarrow> prepare_state vocab_size reqs k | Some st \<Rightarrow> Inr st)"

definition prepare_if_required :: "nat \<Rightarrow> samp_req list \<Rightarrow> penalizer_kind \<Rightarrow> penalizer \<Rightarrow> (bool \<times> penalizer) res" where
  "prepare_if_required vocab_size reqs k p =
     (if penalizer_is_required k reqs
      then rbind (prepare vocab_size reqs k p) (\<lambda>st. Inr (True, Some st))
      else Inr (False, p))"

definition frequency_cumulate :: "int list \<Rightarrow> rat list \<Rightarrow> rat matrix \<Rightarrow> rat matrix res" where
  [simp]: "frequency_cumulate output_ids pens cum = scatter_col (\<lambda>a s. a + s) output_ids pens cum"

definition presence_cumulate :: "int list \<Rightarrow> rat list \<Rightarrow> rat matrix \<Rightarrow> rat matrix res" where
  [simp]: "presence_cumulate output_ids pens cum = scatter_col (\<lambda>a s. s) output_ids pens cum"

definition repetition_cumulate :: "int list \<Rightarrow> rat list \<Rightarrow> rat matrix \<Rightarrow> rat matrix res" where
  [simp]: "repetition_cumulate output_ids pens cum = scatter_col (\<lambda>a s. s) output_ids pens cum"

fun cumulate_state :: "penalizer_kind \<Rightarrow> int list \<Rightarrow> penalizer_state \<Rightarrow> penalizer_state res" where
  "cumulate_state k output_ids (MinNewState mins stops lens) = Inr (MinNewState mins stops (map (\<lambda>n. n + 1) lens))"
| "cumulate_state k output_ids (CumState pens cum) =
     rbind (if k = FrequencyPenalizer then frequency_cumulate output_ids pens cum
            else if k = PresencePenalizer then presence_cumulate output_ids pens cum
            else repetition_cumulate output_ids pens cum) (\<lambda>cum'. Inr (CumState pens cum'))"

text \<open>\<open>apply_scaling_penalties\<close>: negative logits are multiplied, the others divided.\<close>

definition scale_logit :: "xfloat \<Rightarrow> rat \<Rightarrow> xfloat" where
  "scale_logit x s = (if fnegative x then fscale x s else fdivide x s)"

definition apply_scaling_penalties :: "xfloat matrix \<Rightarrow> rat matrix \<Rightarrow> xfloat matrix res" where
  "apply_scaling_penalties logits scaling = elementwise scale_logit logits scaling"

definition min_new_tokens_apply :: "xfloat matrix \<Rightarrow> int list \<Rightarrow> xfloat matrix \<Rightarrow> int list \<Rightarrow> xfloat matrix res" where
  [simp]: "min_new_tokens_apply logits mins stops lens =
     (if length lens = length logits
      then elementwise fadd logits
             (map (\<lambda>(len, n, stop). if len < n then stop else replicate (length stop) (Fin 0)) (zip lens (zip mins stops)))
      else if length lens = 1 then Inl IndexError else Inl RuntimeError)"

fun apply_state :: "penalizer_kind \<Rightarrow> xfloat matrix \<Rightarrow> penalizer_state \<Rightarrow> xfloat matrix res" where
  "apply_state k logits (CumState pens cum) =
     (if is_multiplicative k then apply_scaling_penalties logits cum
      else elementwise (\<lambda>x c. fsub x (Fin c)) logits cum)"
| "apply_state k logits (MinNewState mins stops lens) = min_new_tokens_apply logits mins stops lens"

fun filter_state :: "nat list \<Rightarrow> penalizer_state \<Rightarrow> penalizer_state res" where
  "filter_state keep (CumState pens cum) =
     rbind (take_rows keep pens) (\<lambda>pens'. rbind (take_rows keep cum) (\<lambda>cum'. Inr (CumState pens' cum')))"
| "filter_state keep (MinNewState mins stops lens) =
     rbind (take_rows keep mins) (\<lambda>mins'. rbind (take_rows keep stops) (\<lambda>stops'.
     rbind (take_rows keep lens) (\<lambda>lens'. Inr (MinNewState mins' stops' lens'))))"

fun merge_state :: "penalizer_state \<Rightarrow> penalizer_state \<Rightarrow> penalizer_state res" where
  "merge_state (CumState pens cum) (CumState pens' cum') = Inr (CumState (pens @ pens') (cum @ cum'))"
| "merge_state (MinNewState mins stops lens) (MinNewState mins' stops' lens') =
     Inr (MinNewState (mins @ mins') (stops @ stops') (lens @ lens'))"
| "merge_state _ _ = Inl AttributeError"

text \<open>Merging prepares both sides first, each from the requests of its own batch.\<close>

definition merge_penalizer ::
  "nat \<Rightarrow> samp_req list \<Rightarrow> nat \<Rightarrow> samp_req list \<Rightarrow> penalizer_kind \<Rightarrow> penalizer \<Rightarrow> penalizer \<Rightarrow> (penalizer \<times> penalizer) res" where
  "merge_penalizer vocab_size reqs vocab_size' reqs' k mine theirs =
     (if mine = None \<and> theirs = None then Inr (mine, theirs)
      else rbind (prepare vocab_size reqs k mine) (\<lambda>st.
           rbind (prepare vocab_size' reqs' k theirs) (\<lambda>st'.
           rbind (merge_state st st') (\<lambda>m. Inr (Some m, Some st')))))"

section \<open>The orchestrator\<close>

record orchestrator =
  or_vocab_size :: nat
  or_penalizers :: "(penalizer_kind, penalizer) dict"
  or_is_required :: bool

definition orchestrator_init :: "penalizer_kind list \<Rightarrow> nat \<Rightarrow> samp_req list \<Rightarrow> orchestrator res" where
  "orchestrator_init order vocab_size reqs =
     rbind (rmap (\<lambda>k. rbind (prepare_if_required vocab_size reqs k None) (\<lambda>(b, p). Inr (b, k, p))) order) (\<lambda>ps.
     Inr \<lparr>or_vocab_size = vocab_size, or_penalizers = map snd ps, or_is_required = list_ex fst ps\<rparr>)"

definition orch_cumulate :: "int list \<Rightarrow> orchestrator \<Rightarrow> orchestrator res" where
  "orch_cumulate output_ids orch =
     rbind (rmap (\<lambda>(k, p). case p of
                     None \<Rightarrow> Inr (k, None)
                   | Some st \<Rightarrow> rbind (cumulate_state k output_ids st) (\<lambda>st'. Inr (k, Some st')))
              (or_penalizers orch)) (\<lambda>ps. Inr (orch\<lparr>or_penalizers := ps\<rparr>))"

fun apply_penalizers :: "(penalizer_kind, penalizer) dict \<Rightarrow> xfloat matrix \<Rightarrow> xfloat matrix res" where
  "apply_penalizers [] logits = Inr logits"
| "apply_penalizers ((k, p) # ps) logits =
     (case p of None \<Rightarrow> apply_penalizers ps logits
      | Some st \<Rightarrow> rbind (apply_state k logits st) (apply_penalizers ps))"

definition accumulate_additive_penalties :: "orchestrator \<Rightarrow> xfloat matrix \<Rightarrow> xfloat matrix res" where
  "accumulate_additive_penalties orch logits =
     apply_penalizers (filter (\<lambda>(k, _). \<not> is_multiplicative k) (or_penalizers orch)) logits"

fun scaling_loop :: "(penalizer_kind, penalizer) dict \<Rightarrow> rat matrix option \<Rightarrow> rat matrix option res" where
  "scaling_loop [] result = Inr result"
| "scaling_loop ((k, p) # ps) result =
     (case p of
        None \<Rightarrow> scaling_loop ps result
      | Some st \<Rightarrow>
          if \<not> is_multiplicative k then scaling_loop ps result
          else case result of
                 None \<Rightarrow> scaling_loop ps (Some (cu_cumulated st))
               | Some m \<Rightarrow> rbind (elementwise (*) m (cu_cumulated st)) (\<lambda>m'. scaling_loop ps (Some m')))"

definition accumulate_scaling_penalties :: "orchestrator \<Rightarrow> rat matrix option res" where
  "accumulate_scaling_penalties orch = scaling_loop (or_penalizers orch) None"

definition orch_apply :: "nat option \<Rightarrow> orchestrator \<Rightarrow> xfloat matrix \<Rightarrow> xfloat matrix res" where
  "orch_apply repeat orch logits =
     (case repeat of
        None \<Rightarrow> apply_penalizers (or_penalizers orch) logits
      | Some n \<Rightarrow>
          if n = 0 then Inl ZeroDivisionError
          else rbind (accumulate_additive_penalties orch (replicate (length logits div n) (replicate (columns logits) (Fin 0)))) (\<lambda>additive.
               rbind (elementwise fadd logits (repeat_interleave n additive)) (\<lambda>logits1.
               rbind (accumulate_scaling_penalties orch) (\<lambda>acc.
               case acc of None \<Rightarrow> Inr logits1
               | Some m \<Rightarrow> apply_scaling_penalties logits1 (repeat_interleave n m)))))"

definition orch_release :: "orchestrator \<Rightarrow> orchestrator" where
  "orch_release orch = orch\<lparr>or_penalizers := [], or_is_required := False\<rparr>"

text \<open>\<open>reqs\<close> are the requests of the batch at the time of the call: those that are kept.\<close>

definition orch_filter :: "samp_req list \<Rightarrow> nat list \<Rightarrow> orchestrator \<Rightarrow> orchestrator res" where
  "orch_filter reqs keep orch =
     (if \<not> or_is_required orch then Inr orch
      else if keep = [] then Inr (orch_release orch)
      else rbind (rmap (\<lambda>(k, p).
                    if penalizer_is_required k reqs
                    then (case p of None \<Rightarrow> Inr (k, None) | Some st \<Rightarrow> rbind (filter_state keep st) (\<lambda>st'. Inr (k, Some st')))
                    else Inr (k, None)) (or_penalizers orch)) (\<lambda>ps.
           Inr (orch\<lparr>or_penalizers := ps,
                     or_is_required := list_ex (\<lambda>(k, _). penalizer_is_required k reqs) (or_penalizers orch)\<rparr>)))"

fun merge_loop ::
  "nat \<Rightarrow> samp_req list \<Rightarrow> nat \<Rightarrow> samp_req list \<Rightarrow> (penalizer_kind, penalizer) dict \<Rightarrow> (penalizer_kind, penalizer) dict
     \<Rightarrow> ((penalizer_kind, penalizer) dict \<times> (penalizer_kind, penalizer) dict) res" where
  "merge_loop v reqs v' reqs' mine [] = Inr (mine, [])"
| "merge_loop v reqs v' reqs' mine ((k, theirs) # ps) =
     rbind (of_opt KeyError (map_of mine k)) (\<lambda>p.
     rbind (merge_penalizer v reqs v' reqs' k p theirs) (\<lambda>(p', theirs').
     rbind (merge_loop v reqs v' reqs' (AList.update k p' mine) ps) (\<lambda>(mine', ps').
     Inr (mine', (k, theirs') # ps'))))"

definition orch_merge :: "samp_req list \<Rightarrow> samp_req list \<Rightarrow> orchestrator \<Rightarrow> orchestrator \<Rightarrow> (orchestrator \<times> orchestrator) res" where
  "orch_merge reqs reqs' orch their =
     (if \<not> or_is_required orch \<and> \<not> or_is_required their then Inr (orch, their)
      else rbind (merge_loop (or_vocab_size orch) reqs (or_vocab_size their) reqs' (or_penalizers orch) (or_penalizers their)) (\<lambda>(ps, ps').
           Inr (orch\<lparr>or_penalizers := ps, or_is_required := True\<rparr>, their\<lparr>or_penalizers := ps'\<rparr>)))"

end
