(* ===== verification/Sampling_Batch.thy ===== *)
theory Sampling_Batch
  imports Penalizers
begin

text \<open>
  The sampling state of a batch, \<open>sampling/sampling_batch_info.py\<close>: one row per request in every
  tensor, built from the requests, filtered and merged with the batch, and applied to the logits.
  The mask of a grammar backend is an argument of \<open>apply_logits_bias\<close>. A custom logit processor
  is its serialised text; \<open>hsh\<close> is Python's \<open>hash\<close> on strings.
\<close>

record sampling_batch =
  sb_temperatures :: "rat list"
  sb_top_ps :: "rat list"
  sb_top_ks :: "int list"
  sb_min_ps :: "rat list"
  sb_is_all_greedy :: bool
  sb_need_top_p_sampling :: bool
  sb_need_top_k_sampling :: bool
  sb_need_min_p_sampling :: bool
  sb_vocab_size :: nat
  sb_penalizer_orchestrator :: orchestrator
  sb_acc_additive_penalties :: "xfloat matrix option"
  sb_acc_scaling_penalties :: "rat matrix option"
  sb_has_custom_logit_processor :: bool
  sb_custom_params :: "(string, string) dict option list option"
  sb_custom_logit_processor :: "(int, string \<times> bool list) dict option"
  sb_sampling_seed :: "int list option"
  sb_logit_bias :: "rat matrix option"

section \<open>Construction\<close>

text \<open>An assignment to an element of a tensor row: a negative index counts from the end.\<close>

definition set_element :: "int \<Rightarrow> 'a \<Rightarrow> 'a list \<Rightarrow> 'a list res" where
  "set_element i v row =
     (if 0 \<le> i \<and> i < int (length row) then Inr (row[nat i := v])
      else if i < 0 \<and> - int (length row) \<le> i then Inr (row[nat (i + int (length row)) := v])
      else Inl IndexError)"

fun set_bias :: "(string, rat) dict \<Rightarrow> rat list \<Rightarrow> rat list res" where
  "set_bias [] row = Inr row"
| "set_bias ((key, v) # b) row = rbind (py_int key) (\<lambda>i. rbind (set_element i v row) (set_bias b))"

definition bias_row :: "nat \<Rightarrow> samp_req \<Rightarrow> rat list res" where
  "bias_row vocab_size r = set_bias (or_default [] (sp_logit_bias (sr_params r))) (replicate vocab_size 0)"

definition init_logit_bias :: "nat \<Rightarrow> samp_req list \<Rightarrow> rat matrix option res" where
  "init_logit_bias vocab_size reqs =
     (if list_ex (\<lambda>r. sp_logit_bias (sr_params r) \<noteq> None) reqs
      then rbind (rmap (bias_row vocab_size) reqs) (\<lambda>m. Inr (Some m)) else Inr None)"

text \<open>
  The processors in the order in which they occur first, each with the mask of its requests; two
  texts with the same hash collide and the later one wins.
\<close>

definition processor_masks :: "(string \<Rightarrow> int) \<Rightarrow> samp_req list \<Rightarrow> (int, string \<times> bool list) dict" where
  "processor_masks hsh reqs =
     fold (\<lambda>s d. AList.update (hsh s) (s, map (\<lambda>r. sr_custom_logit_processor r = Some s) reqs) d)
       (rev (remdups (rev (List.map_filter sr_custom_logit_processor reqs)))) []"

definition from_schedule_batch ::
  "(string \<Rightarrow> int) \<Rightarrow> penalizer_kind list \<Rightarrow> bool \<Rightarrow> bool \<Rightarrow> samp_req list \<Rightarrow> nat \<Rightarrow> sampling_batch res" where
  "from_schedule_batch hsh order enable_deterministic enable_custom reqs vocab_size =
     rbind (init_logit_bias vocab_size reqs) (\<lambda>logit_bias.
     rbind (orchestrator_init order vocab_size reqs) (\<lambda>orch.
     let custom = (enable_custom \<and> list_ex (\<lambda>r. sr_custom_logit_processor r \<notin> {None, Some ''''}) reqs)
     in Inr \<lparr>sb_temperatures = map (\<lambda>r. sp_temperature (sr_params r)) reqs,
             sb_top_ps = map (\<lambda>r. sp_top_p (sr_params r)) reqs,
             sb_top_ks = map (\<lambda>r. sp_top_k (sr_params r)) reqs,
             sb_min_ps = map (\<lambda>r. sp_min_p (sr_params r)) reqs,
             sb_is_all_greedy = list_all (\<lambda>r. sp_top_k (sr_params r) \<le> 1) reqs,
             sb_need_top_p_sampling = list_ex (\<lambda>r. sp_top_p (sr_params r) \<noteq> 1) reqs,
             sb_need_top_k_sampling = list_ex (\<lambda>r. sp_top_k (sr_params r) \<noteq> TOP_K_ALL) reqs,
             sb_need_min_p_sampling = list_ex (\<lambda>r. 0 < sp_min_p (sr_params r)) reqs,
             sb_vocab_size = vocab_size,
             sb_penalizer_orchestrator = orch,
             sb_acc_additive_penalties = None, sb_acc_scaling_penalties = None,
             sb_has_custom_logit_processor = custom,
             sb_custom_params = (if custom then Some (map (\<lambda>r. sp_custom_params (sr_params r)) reqs) else None),
             sb_custom_logit_processor = (if custom then Some (processor_masks hsh reqs) else None),
             sb_sampling_seed = (if enable_deterministic
                then Some (map (\<lambda>r. or_default 42 (sp_sampling_seed (sr_params r))) reqs) else None),
             sb_logit_bias = logit_bias\<rparr>))"

section \<open>Penalties and bias\<close>

definition update_penalties :: "sampling_batch \<Rightarrow> sampling_batch res" where
  "update_penalties b =
     (if or_is_required (sb_penalizer_orchestrator b)
      then rbind (accumulate_additive_penalties (sb_penalizer_orchestrator b)
                    (replicate (length (sb_temperatures b)) (replicate (sb_vocab_size b) (Fin 0)))) (\<lambda>additive.
           rbind (accumulate_scaling_penalties (sb_penalizer_orchestrator b)) (\<lambda>scaling.
           Inr (b\<lparr>sb_acc_additive_penalties := Some additive, sb_acc_scaling_penalties := scaling\<rparr>)))
      else Inr (b\<lparr>sb_acc_additive_penalties := None, sb_acc_scaling_penalties := None\<rparr>))"

text \<open>
  \<open>copy_for_forward\<close> drops the orchestrator of the copy, so that the forward pass of the overlap
  mode uses only the accumulated penalties: the argument \<open>own\<close> says whether the batch still has
  its orchestrator.
\<close>

definition apply_logits_bias ::
  "bool \<Rightarrow> (xfloat matrix \<Rightarrow> xfloat matrix) option \<Rightarrow> sampling_batch \<Rightarrow> xfloat matrix \<Rightarrow> xfloat matrix res" where
  "apply_logits_bias own vocab_mask b logits =
     rbind (case sb_acc_additive_penalties b of None \<Rightarrow> Inr logits | Some m \<Rightarrow> elementwise fadd logits m) (\<lambda>l1.
     rbind (case sb_acc_scaling_penalties b of None \<Rightarrow> Inr l1 | Some m \<Rightarrow> apply_scaling_penalties l1 m) (\<lambda>l2.
     rbind (if own \<and> or_is_required (sb_penalizer_orchestrator b)
            then orch_apply None (sb_penalizer_orchestrator b) l2 else Inr l2) (\<lambda>l3.
     let l4 = (case vocab_mask of None \<Rightarrow> l3 | Some f \<Rightarrow> f l3)
     in case sb_logit_bias b of None \<Rightarrow> Inr l4 | Some m \<Rightarrow> elementwise (\<lambda>x v. fadd x (Fin v)) l4 m)))"

definition copy_for_forward :: "sampling_batch \<Rightarrow> (sampling_batch \<times> sampling_batch) res" where
  "copy_for_forward b = rbind (update_penalties b) (\<lambda>b'. Inr (b', b'))"

section \<open>Filtering\<close>

definition filter_custom_logit_processor :: "nat list \<Rightarrow> sampling_batch \<Rightarrow> sampling_batch res" where
  "filter_custom_logit_processor keep b =
     rbind (of_opt AttributeError (sb_custom_logit_processor b)) (\<lambda>d.
     rbind (rmap (\<lambda>(k, p, msk). rbind (take_rows keep msk) (\<lambda>m. Inr (k, p, m))) d) (\<lambda>d'.
     rbind (of_opt TypeError (sb_custom_params b)) (\<lambda>ps.
     rbind (take_rows keep ps) (\<lambda>ps'.
     let kept = filter (\<lambda>(_, _, m). list_ex id m) d'
     in if kept = []
        then Inr (b\<lparr>sb_custom_logit_processor := None, sb_custom_params := None, sb_has_custom_logit_processor := False\<rparr>)
        else Inr (b\<lparr>sb_custom_logit_processor := Some kept, sb_custom_params := Some ps'\<rparr>)))))"

definition filter_opt :: "nat list \<Rightarrow> 'a list option \<Rightarrow> 'a list option res" where
  "filter_opt keep x = (case x of None \<Rightarrow> Inr None | Some xs \<Rightarrow> rbind (take_rows keep xs) (\<lambda>ys. Inr (Some ys)))"

definition sampling_filter_batch :: "samp_req list \<Rightarrow> nat list \<Rightarrow> sampling_batch \<Rightarrow> sampling_batch res" where
  "sampling_filter_batch reqs keep b =
     rbind (orch_filter reqs keep (sb_penalizer_orchestrator b)) (\<lambda>orch.
     rbind (if sb_has_custom_logit_processor b
            then filter_custom_logit_processor keep (b\<lparr>sb_penalizer_orchestrator := orch\<rparr>)
            else Inr (b\<lparr>sb_penalizer_orchestrator := orch\<rparr>)) (\<lambda>b1.
     rbind (take_rows keep (sb_temperatures b1)) (\<lambda>ts.
     rbind (take_rows keep (sb_top_ps b1)) (\<lambda>ps.
     rbind (take_rows keep (sb_top_ks b1)) (\<lambda>ks.
     rbind (take_rows keep (sb_min_ps b1)) (\<lambda>ms.
     rbind (filter_opt keep (sb_sampling_seed b1)) (\<lambda>seed.
     rbind (filter_opt keep (sb_logit_bias b1)) (\<lambda>bias.
     Inr (b1\<lparr>sb_temperatures := ts, sb_top_ps := ps, sb_top_ks := ks, sb_min_ps := ms, sb_sampling_seed := seed,
             sb_logit_bias := bias\<rparr>)))))))))"

section \<open>Merging\<close>

text \<open>Keys only on the right are appended: the order of the keys of the merged dictionary is arbitrary in the source.\<close>

definition merge_custom_logit_processor ::
  "(int, string \<times> bool list) dict option \<Rightarrow> (int, string \<times> bool list) dict option \<Rightarrow> nat \<Rightarrow> nat
     \<Rightarrow> (int, string \<times> bool list) dict option res" where
  "merge_custom_logit_processor lhs rhs bs1 bs2 =
     (if lhs = None \<and> rhs = None then Inr None
      else let l = or_default [] lhs; r = or_default [] rhs;
               keys = map fst l @ filter (\<lambda>k. k \<notin> set (map fst l)) (map fst r)
           in rbind (rmap (\<lambda>k.
                let p = (case map_of l k of Some (p, _) \<Rightarrow> p | None \<Rightarrow> fst (the (map_of r k)));
                    left = (case map_of l k of Some (_, m) \<Rightarrow> m | None \<Rightarrow> replicate bs1 False);
                    right = (case map_of r k of Some (_, m) \<Rightarrow> m | None \<Rightarrow> replicate bs2 False)
                in rbind (guard_res (length (left @ right) = bs1 + bs2) AssertionError) (\<lambda>_. Inr (k, p, left @ right))) keys) (\<lambda>d.
              Inr (Some d)))"

definition merge_bias_tensor :: "'a matrix option \<Rightarrow> 'a matrix option \<Rightarrow> nat \<Rightarrow> nat \<Rightarrow> 'a \<Rightarrow> 'a matrix option" where
  "merge_bias_tensor lhs rhs bs1 bs2 fill =
     (case (lhs, rhs) of
        (None, None) \<Rightarrow> None
      | (Some l, Some r) \<Rightarrow> Some (l @ r)
      | (Some l, None) \<Rightarrow> Some (l @ replicate bs2 (replicate (columns l) fill))
      | (None, Some r) \<Rightarrow> Some (replicate bs1 (replicate (columns r) fill) @ r))"

definition merge_opt :: "'a list option \<Rightarrow> 'a list option \<Rightarrow> 'a list option" where
  "merge_opt x y = (case (x, y) of (Some xs, Some ys) \<Rightarrow> Some (xs @ ys) | _ \<Rightarrow> x)"

text \<open>\<open>xs or [None] * n\<close>: an empty list counts as absent.\<close>

definition params_or_none :: "nat \<Rightarrow> 'a option list option \<Rightarrow> 'a option list" where
  "params_or_none n ps = (case ps of Some (x # xs) \<Rightarrow> x # xs | _ \<Rightarrow> replicate n None)"

definition sampling_merge_batch ::
  "samp_req list \<Rightarrow> samp_req list \<Rightarrow> sampling_batch \<Rightarrow> sampling_batch \<Rightarrow> (sampling_batch \<times> sampling_batch) res" where
  "sampling_merge_batch reqs reqs' b other =
     rbind (orch_merge reqs reqs' (sb_penalizer_orchestrator b) (sb_penalizer_orchestrator other)) (\<lambda>(orch, orch').
     let bs1 = length (sb_temperatures b); bs2 = length (sb_temperatures other);
         b0 = b\<lparr>sb_penalizer_orchestrator := orch\<rparr>; o0 = other\<lparr>sb_penalizer_orchestrator := orch'\<rparr>
     in rbind (if sb_has_custom_logit_processor b0 \<or> sb_has_custom_logit_processor o0
               then rbind (merge_custom_logit_processor (sb_custom_logit_processor b0) (sb_custom_logit_processor o0) bs1 bs2) (\<lambda>d.
                    let mine = params_or_none bs1 (sb_custom_params b0); theirs = params_or_none bs2 (sb_custom_params o0)
                    in Inr (b0\<lparr>sb_custom_logit_processor := d, sb_custom_params := Some (mine @ theirs), sb_has_custom_logit_processor := True\<rparr>,
                            o0\<lparr>sb_custom_params := Some theirs\<rparr>))
               else Inr (b0, o0)) (\<lambda>(b1, o1).
        Inr (b1\<lparr>sb_logit_bias := merge_bias_tensor (sb_logit_bias b1) (sb_logit_bias o1) bs1 bs2 0,
                sb_temperatures := sb_temperatures b1 @ sb_temperatures o1,
                sb_top_ps := sb_top_ps b1 @ sb_top_ps o1,
                sb_top_ks := sb_top_ks b1 @ sb_top_ks o1,
                sb_min_ps := sb_min_ps b1 @ sb_min_ps o1,
                sb_sampling_seed := merge_opt (sb_sampling_seed b1) (sb_sampling_seed o1),
                sb_is_all_greedy := (sb_is_all_greedy b1 \<and> sb_is_all_greedy o1),
                sb_need_top_p_sampling := (sb_need_top_p_sampling b1 \<or> sb_need_top_p_sampling o1),
                sb_need_top_k_sampling := (sb_need_top_k_sampling b1 \<or> sb_need_top_k_sampling o1),
                sb_need_min_p_sampling := (sb_need_min_p_sampling b1 \<or> sb_need_min_p_sampling o1)\<rparr>, o1)))"

end
