(* ===== verification/Sampling_Rows.thy ===== *)
theory Sampling_Rows
  imports Sampling_Batch
begin

text \<open>
  The meaning of the sampling state of a batch, request by request. A row is a request with the
  tokens it was fed since it entered a batch. The relation \<open>sb_rep\<close> says that a sampling state
  represents a list of rows; construction, decoding, filtering and merging keep it, and through
  it the batched tensors compute for every request what the request alone would give.
\<close>

type_synonym samp_row = "samp_req \<times> int list"

section \<open>The penalties of one request\<close>

fun pen_coef :: "penalizer_kind \<Rightarrow> samp_req \<Rightarrow> rat" where
  "pen_coef FrequencyPenalizer r = sp_frequency_penalty (sr_params r)"
| "pen_coef PresencePenalizer r = sp_presence_penalty (sr_params r)"
| "pen_coef RepetitionPenalizer r = sp_repetition_penalty (sr_params r)"
| "pen_coef MinNewTokensPenalizer r = 0"

text \<open>
  The accumulated penalty of a token: in proportion to its occurrences, once when it occurs, or
  the repetition factor when it occurs.
\<close>

fun cum_pen :: "penalizer_kind \<Rightarrow> samp_row \<Rightarrow> nat \<Rightarrow> rat" where
  "cum_pen FrequencyPenalizer (r, h) t = pen_coef FrequencyPenalizer r * of_nat (count_list h (int t))"
| "cum_pen PresencePenalizer (r, h) t = (if int t \<in> set h then pen_coef PresencePenalizer r else 0)"
| "cum_pen RepetitionPenalizer (r, h) t = (if int t \<in> set h then pen_coef RepetitionPenalizer r else 1)"
| "cum_pen MinNewTokensPenalizer (r, h) t = 0"

definition stop_pen :: "samp_req \<Rightarrow> nat \<Rightarrow> xfloat" where
  "stop_pen r t = (if int t \<in> set (stop_token_set r) then NInf else Fin 0)"

fun pen_logit :: "penalizer_kind \<Rightarrow> samp_row \<Rightarrow> nat \<Rightarrow> xfloat \<Rightarrow> xfloat" where
  "pen_logit FrequencyPenalizer rh t x = fsub x (Fin (cum_pen FrequencyPenalizer rh t))"
| "pen_logit PresencePenalizer rh t x = fsub x (Fin (cum_pen PresencePenalizer rh t))"
| "pen_logit RepetitionPenalizer rh t x = scale_logit x (cum_pen RepetitionPenalizer rh t)"
| "pen_logit MinNewTokensPenalizer rh t x =
     (if int (length (snd rh)) < sp_min_new_tokens (sr_params (fst rh)) then fadd x (stop_pen (fst rh) t) else x)"

definition bias_of :: "nat \<Rightarrow> samp_req \<Rightarrow> nat \<Rightarrow> rat" where
  "bias_of V r t = (case bias_row V r of Inr row \<Rightarrow> row ! t | Inl _ \<Rightarrow> 0)"

text \<open>The logits of one request after the penalties in the given order and the bias.\<close>

definition row_logits :: "penalizer_kind list \<Rightarrow> nat \<Rightarrow> samp_row \<Rightarrow> xfloat list \<Rightarrow> xfloat list" where
  "row_logits ord V rh xs = map2 (\<lambda>t x. fadd (fold (\<lambda>k. pen_logit k rh t) ord x) (Fin (bias_of V (fst rh) t))) [0..<V] xs"

section \<open>Representation\<close>

fun state_rep :: "penalizer_kind \<Rightarrow> nat \<Rightarrow> samp_row list \<Rightarrow> penalizer_state \<Rightarrow> bool" where
  "state_rep k V rows (CumState pens cum) =
     (k \<noteq> MinNewTokensPenalizer \<and> pens = map (\<lambda>rh. pen_coef k (fst rh)) rows \<and> cum = map (\<lambda>rh. map (cum_pen k rh) [0..<V]) rows)"
| "state_rep k V rows (MinNewState mins stops lens) =
     (k = MinNewTokensPenalizer \<and> mins = map (\<lambda>rh. sp_min_new_tokens (sr_params (fst rh))) rows
      \<and> stops = map (\<lambda>rh. map (stop_pen (fst rh)) [0..<V]) rows \<and> length lens = length rows \<and> (\<forall>n\<in>set lens. 0 \<le> n)
      \<and> (\<forall>i<length rows. 0 < sp_min_new_tokens (sr_params (fst (rows ! i))) \<longrightarrow> lens ! i = int (length (snd (rows ! i)))))"

definition pen_rep :: "nat \<Rightarrow> samp_row list \<Rightarrow> penalizer_kind \<Rightarrow> penalizer \<Rightarrow> bool" where
  "pen_rep V rows k p =
     (case p of None \<Rightarrow> \<not> penalizer_is_required k (map fst rows)
      | Some st \<Rightarrow> penalizer_is_required k (map fst rows) \<and> state_rep k V rows st)"

definition all_kinds :: "penalizer_kind list \<Rightarrow> bool" where
  "all_kinds ks = (distinct ks \<and> set ks = UNIV)"

definition orch_rep :: "nat \<Rightarrow> samp_row list \<Rightarrow> orchestrator \<Rightarrow> bool" where
  "orch_rep V rows orch =
     (or_vocab_size orch = V \<and> all_kinds (map fst (or_penalizers orch))
      \<and> (\<forall>(k, p)\<in>set (or_penalizers orch). pen_rep V rows k p)
      \<and> or_is_required orch = (\<exists>k. penalizer_is_required k (map fst rows)))"

definition bias_rep :: "nat \<Rightarrow> samp_row list \<Rightarrow> rat matrix option \<Rightarrow> bool" where
  "bias_rep V rows m =
     (case m of None \<Rightarrow> (\<forall>rh\<in>set rows. sp_logit_bias (sr_params (fst rh)) = None)
      | Some b \<Rightarrow> b = map (\<lambda>rh. map (bias_of V (fst rh)) [0..<V]) rows)"

definition sb_rep :: "nat \<Rightarrow> samp_row list \<Rightarrow> sampling_batch \<Rightarrow> bool" where
  "sb_rep V rows b =
     (sb_temperatures b = map (\<lambda>rh. sp_temperature (sr_params (fst rh))) rows
      \<and> sb_top_ps b = map (\<lambda>rh. sp_top_p (sr_params (fst rh))) rows
      \<and> sb_top_ks b = map (\<lambda>rh. sp_top_k (sr_params (fst rh))) rows
      \<and> sb_min_ps b = map (\<lambda>rh. sp_min_p (sr_params (fst rh))) rows
      \<and> (sb_is_all_greedy b \<longrightarrow> (\<forall>rh\<in>set rows. sp_top_k (sr_params (fst rh)) \<le> 1))
      \<and> (\<not> sb_need_top_p_sampling b \<longrightarrow> (\<forall>rh\<in>set rows. sp_top_p (sr_params (fst rh)) = 1))
      \<and> (\<not> sb_need_top_k_sampling b \<longrightarrow> (\<forall>rh\<in>set rows. sp_top_k (sr_params (fst rh)) = TOP_K_ALL))
      \<and> (\<not> sb_need_min_p_sampling b \<longrightarrow> (\<forall>rh\<in>set rows. sp_min_p (sr_params (fst rh)) \<le> 0))
      \<and> sb_vocab_size b = V \<and> orch_rep V rows (sb_penalizer_orchestrator b) \<and> bias_rep V rows (sb_logit_bias b))"

text \<open>A request whose stop tokens and biased tokens are tokens of the vocabulary.\<close>

definition samp_req_ok :: "nat \<Rightarrow> samp_req \<Rightarrow> bool" where
  "samp_req_ok V r = ((\<forall>t\<in>set (stop_token_set r). 0 \<le> t \<and> t \<le> int V) \<and> (\<exists>row. bias_row V r = Inr row))"

section \<open>Tensor operations\<close>

lemma rmap_Inr:
  assumes "\<And>x. x \<in> set xs \<Longrightarrow> f x = Inr (g x)"
  shows "rmap f xs = Inr (map g xs)"
  using assms by (induction xs) simp_all

lemma elementwise_eq:
  assumes "length xs = length ys" "\<And>i. i < length xs \<Longrightarrow> length (xs ! i) = length (ys ! i)"
  shows "elementwise f xs ys = Inr (map2 (map2 f) xs ys)"
proof -
  have "\<forall>(x, y)\<in>set (zip xs ys). length x = length y"
    using assms by (auto simp: set_zip)
  then have "rmap (\<lambda>(row, y). rbind (broadcast (length row) y) (\<lambda>y'. Inr (map2 f row y'))) (zip xs ys)
      = Inr (map (\<lambda>(x, y). map2 f x y) (zip xs ys))"
    by (intro rmap_Inr) (auto simp: broadcast_def)
  with assms(1) show ?thesis by (simp add: elementwise_def broadcast_def)
qed

lemma take_rows_eq: "\<forall>i\<in>set keep. i < length xs \<Longrightarrow> take_rows keep xs = Inr (map ((!) xs) keep)"
  unfolding take_rows_def by (rule rmap_Inr) simp

lemma map2_map2: "map2 g rows (map2 f rows xs) = map2 (\<lambda>r x. g r (f r x)) rows xs"
  by (rule nth_equalityI) simp_all

lemma scale_one [simp]: "scale_logit x 1 = x"
  by (cases x) (simp_all add: scale_logit_def)

lemma fsub_zero [simp]: "fsub x (Fin 0) = x"
  by (cases x) (simp_all add: fsub_def)

lemma fadd_zero [simp]: "fadd x (Fin 0) = x"
  by (cases x) simp_all

lemma pen_logit_not_required:
  assumes "\<not> req_requires k (fst rh)"
  shows "pen_logit k rh t x = x"
  using assms by (cases k; cases rh) simp_all

section \<open>Prepared penalizers\<close>

lemma scatter_neg_inf_eq:
  assumes "\<forall>i\<in>set is. 0 \<le> i \<and> i < int n" "row = map (\<lambda>t. if P t then NInf else Fin 0) [0..<n]"
  shows "scatter_neg_inf is row = Inr (map (\<lambda>t. if P t \<or> int t \<in> set is then NInf else Fin 0) [0..<n])"
  using assms
proof (induction "is" arbitrary: P row)
  case (Cons i "is")
  have "row[nat i := fadd (row ! nat i) NInf] = map (\<lambda>t. if P t \<or> int t = i then NInf else Fin 0) [0..<n]"
    using Cons.prems by (intro nth_equalityI) (auto simp: nth_list_update)
  from Cons.IH [OF _ this] Cons.prems show ?case by (simp add: disj_assoc)
qed simp

definition stop_row :: "nat \<Rightarrow> int list \<Rightarrow> xfloat list" where
  "stop_row V ids = map (\<lambda>t. if int t \<in> set ids then NInf else Fin 0) [0..<V]"

lemma stop_row_padded:
  assumes "\<forall>t\<in>set ids. 0 \<le> t \<and> t \<le> int V"
  shows "rbind (scatter_neg_inf (ids @ replicate m (int V)) (replicate (V + 1) (Fin 0))) (\<lambda>r. Inr (take V r)) = Inr (stop_row V ids)"
proof -
  have "scatter_neg_inf (ids @ replicate m (int V)) (replicate (V + 1) (Fin 0))
      = Inr (map (\<lambda>t. if False \<or> int t \<in> set (ids @ replicate m (int V)) then NInf else Fin 0) [0..<V + 1])"
    using assms by (intro scatter_neg_inf_eq) (auto simp: map_replicate_const)
  then show ?thesis by (auto simp: stop_row_def take_map)
qed

lemma stop_rows_padded:
  assumes "\<forall>s\<in>set seqs. \<forall>t\<in>set s. 0 \<le> t \<and> t \<le> int V"
  shows "rbind (rmap (\<lambda>ids. scatter_neg_inf ids (replicate (V + 1) (Fin 0)))
                 (map (\<lambda>s. s @ replicate (m - length s) (int V)) seqs)) (\<lambda>pens. Inr (map (take V) pens)) = Inr (map (stop_row V) seqs)"
  using assms
proof (induction seqs)
  case (Cons s seqs)
  then have "\<forall>t\<in>set s. 0 \<le> t \<and> t \<le> int V" by simp
  from stop_row_padded [OF this, of "m - length s"] obtain r where
    "scatter_neg_inf (s @ replicate (m - length s) (int V)) (replicate (V + 1) (Fin 0)) = Inr r" "take V r = stop_row V s"
    by (auto simp: rbind_eq_Inr_iff)
  with Cons show ?case by (auto simp: rbind_eq_Inr_iff)
qed simp

lemma cum_pen_init:
  assumes "snd rh = [] \<or> \<not> req_requires k (fst rh)" "k \<noteq> MinNewTokensPenalizer"
  shows "cum_pen k rh t = (if k = RepetitionPenalizer then 1 else 0)"
  using assms by (cases k; cases rh) auto

lemma cum_rows_init:
  assumes "\<forall>rh\<in>set rows. snd rh = [] \<or> \<not> req_requires k (fst rh)" "k \<noteq> MinNewTokensPenalizer"
  shows "map (\<lambda>rh. map (cum_pen k rh) [0..<V]) rows
    = replicate (length rows) (replicate V (if k = RepetitionPenalizer then 1 else 0))"
proof (rule nth_equalityI)
  fix i assume "i < length (map (\<lambda>rh. map (cum_pen k rh) [0..<V]) rows)"
  then have i: "i < length rows" by simp
  with assms(1) have "snd (rows ! i) = [] \<or> \<not> req_requires k (fst (rows ! i))" by (metis nth_mem)
  then have "cum_pen k (rows ! i) = (\<lambda>t. if k = RepetitionPenalizer then 1 else 0)"
    by (intro ext cum_pen_init) (simp_all add: assms(2))
  with i show "map (\<lambda>rh. map (cum_pen k rh) [0..<V]) rows ! i
      = replicate (length rows) (replicate V (if k = RepetitionPenalizer then 1 else 0)) ! i"
    by (simp add: map_replicate_const)
qed simp

lemma prepare_state_rep:
  assumes "rows \<noteq> []" "\<forall>rh\<in>set rows. samp_req_ok V (fst rh)" "\<forall>rh\<in>set rows. snd rh = [] \<or> \<not> req_requires k (fst rh)"
  shows "\<exists>st. prepare_state V (map fst rows) k = Inr st \<and> state_rep k V rows st"
proof (cases k)
  case MinNewTokensPenalizer
  have "\<forall>s\<in>set (map stop_token_set (map fst rows)). \<forall>t\<in>set s. 0 \<le> t \<and> t \<le> int V"
    using assms(2) by (auto simp: samp_req_ok_def)
  from stop_rows_padded [OF this] have "\<exists>st. prepare_state V (map fst rows) k = Inr st
      \<and> st = MinNewState (map (\<lambda>rh. sp_min_new_tokens (sr_params (fst rh))) rows) (map (stop_row V) (map stop_token_set (map fst rows)))
          (replicate (length rows) 0)"
    using assms(1) MinNewTokensPenalizer by (fastforce simp: pad_sequence_def Let_def rbind_eq_Inr_iff)
  moreover have "(0::int) = int (length (snd (rows ! i)))" if "i < length rows" "0 < sp_min_new_tokens (sr_params (fst (rows ! i)))" for i
    using assms(3) that MinNewTokensPenalizer by (auto dest!: nth_mem)
  ultimately show ?thesis using MinNewTokensPenalizer
    by (auto simp: stop_row_def stop_pen_def cong: map_cong)
qed (use cum_rows_init [OF assms(3), of V] in \<open>simp_all add: o_def\<close>)

definition feed :: "samp_row list \<Rightarrow> int list \<Rightarrow> samp_row list" where
  "feed rows toks = map2 (\<lambda>(r, h) t. (r, h @ [t])) rows toks"

lemma map_fst_feed: "length toks = length rows \<Longrightarrow> map fst (feed rows toks) = map fst rows"
  by (rule nth_equalityI) (auto simp: feed_def split: prod.splits)

lemma map_feed_fst:
  assumes "length toks = length rows"
  shows "map (\<lambda>rh. f (fst rh)) (feed rows toks) = map (\<lambda>rh. f (fst rh)) rows"
proof -
  have "map f (map fst (feed rows toks)) = map f (map fst rows)" by (simp only: map_fst_feed [OF assms])
  then show ?thesis by (simp add: o_def)
qed

lemma scatter_col_rows:
  assumes "length idx = length rows" "\<forall>t\<in>set idx. 0 \<le> t \<and> t < int V" "length src = length rows"
    "\<And>i t. i < length rows \<Longrightarrow> t < V \<Longrightarrow> B i t = (if int t = idx ! i then f (A i t) (src ! i) else A i t)"
  shows "scatter_col f idx src (map (\<lambda>i. map (A i) [0..<V]) [0..<length rows]) = Inr (map (\<lambda>i. map (B i) [0..<V]) [0..<length rows])"
proof -
  define m where "m = map (\<lambda>i. map (A i) [0..<V]) [0..<length rows]"
  define g where "g = (\<lambda>(row, i, s). row[nat i := f (row ! nat i) s])"
  have "rmap (\<lambda>(row, i, s). if 0 \<le> i \<and> i < int (length row) then Inr (row[nat i := f (row ! nat i) s]) else Inl RuntimeError)
          (zip m (zip idx src)) = Inr (map g (zip m (zip idx src)))"
    using assms(1-3) by (intro rmap_Inr) (auto simp: g_def m_def set_zip)
  moreover have "map g (zip m (zip idx src)) = map (\<lambda>i. map (B i) [0..<V]) [0..<length rows]"
  proof (rule nth_equalityI)
    fix i assume "i < length (map g (zip m (zip idx src)))"
    then have i: "i < length rows" using assms(1,3) by (simp add: m_def)
    then have "0 \<le> idx ! i" "idx ! i < int V" using assms(1,2) by auto
    then show "map g (zip m (zip idx src)) ! i = map (\<lambda>i. map (B i) [0..<V]) [0..<length rows] ! i"
      using i assms(1,3) assms(4) [OF i]
      by (auto simp: m_def g_def nth_list_update intro!: nth_equalityI)
  qed (simp add: m_def assms(1,3))
  ultimately show ?thesis using assms(1,3) by (simp add: scatter_col_def m_def [symmetric]) (simp add: m_def)
qed

lemma map_rows_nth: "map f rows = map (\<lambda>i. f (rows ! i)) [0..<length rows]"
  by (rule nth_equalityI) simp_all

lemma cum_pen_feed:
  assumes "k \<noteq> MinNewTokensPenalizer"
  shows "cum_pen k (r, h @ [x]) t =
     (if int t = x then (if k = FrequencyPenalizer then cum_pen k (r, h) t + pen_coef k r else pen_coef k r) else cum_pen k (r, h) t)"
  using assms by (cases k) (auto simp: algebra_simps)

lemma cumulate_state_rep:
  assumes "state_rep k V rows st" "length toks = length rows" "\<forall>t\<in>set toks. 0 \<le> t \<and> t < int V"
  shows "\<exists>st'. cumulate_state k toks st = Inr st' \<and> state_rep k V (feed rows toks) st'"
proof (cases st)
  case (CumState pens cum)
  then have k: "k \<noteq> MinNewTokensPenalizer" and pens: "pens = map (\<lambda>rh. pen_coef k (fst rh)) rows"
    and cum: "cum = map (\<lambda>i. map (cum_pen k (rows ! i)) [0..<V]) [0..<length rows]"
    using assms(1) by (auto simp: map_rows_nth [of _ rows])
  define f where "f = (if k = FrequencyPenalizer then (\<lambda>a s. a + s) else (\<lambda>a s. s :: rat))"
  have len: "length (feed rows toks) = length rows" using assms(2) by (simp add: feed_def)
  have "scatter_col f toks pens cum = Inr (map (\<lambda>i. map (cum_pen k (feed rows toks ! i)) [0..<V]) [0..<length rows])"
    unfolding cum
  proof (rule scatter_col_rows [OF assms(2,3)])
    fix i t assume "i < length rows" "t < V"
    then show "cum_pen k (feed rows toks ! i) t = (if int t = toks ! i then f (cum_pen k (rows ! i) t) (pens ! i) else cum_pen k (rows ! i) t)"
      using assms(2) pens cum_pen_feed [OF k] by (cases "rows ! i") (auto simp: feed_def f_def)
  qed (simp add: pens)
  moreover have "map (\<lambda>rh. pen_coef k (fst rh)) (feed rows toks) = pens"
    unfolding pens by (rule map_feed_fst [OF assms(2)])
  ultimately show ?thesis using CumState k len by (auto simp: f_def map_rows_nth [of _ "feed rows toks"])
next
  case (MinNewState mins stops lens)
  have snd_feed: "fst (feed rows toks ! i) = fst (rows ! i)" "length (snd (feed rows toks ! i)) = Suc (length (snd (rows ! i)))"
    if "i < length rows" for i
    using that assms(2) by (simp_all add: feed_def split: prod.splits)
  have "length (feed rows toks) = length rows" using assms(2) by (simp add: feed_def)
  moreover have "map (\<lambda>n. n + 1) lens ! i = int (length (snd (feed rows toks ! i)))"
    if "i < length rows" "0 < sp_min_new_tokens (sr_params (fst (feed rows toks ! i)))" for i
    using that assms(1) MinNewState snd_feed [OF that(1)] by simp
  ultimately show ?thesis using assms(1) MinNewState map_feed_fst [OF assms(2), of "\<lambda>r. sp_min_new_tokens (sr_params r)"]
      map_feed_fst [OF assms(2), of "\<lambda>r. map (stop_pen r) [0..<V]"]
    by auto
qed

lemma filter_state_rep:
  assumes "state_rep k V rows st" "\<forall>i\<in>set keep. i < length rows"
  shows "\<exists>st'. filter_state keep st = Inr st' \<and> state_rep k V (map ((!) rows) keep) st'"
  using assms by (cases st) (auto simp: take_rows_eq)

lemma merge_state_rep:
  assumes "state_rep k V rows st" "state_rep k V rows' st'"
  shows "\<exists>m. merge_state st st' = Inr m \<and> state_rep k V (rows @ rows') m"
  using assms by (cases st; cases st') (auto simp: nth_append)


lemma apply_state_rep:
  assumes "state_rep k V rows st" "length logits = length rows" "\<forall>row\<in>set logits. length row = V"
  shows "apply_state k logits st = Inr (map2 (\<lambda>rh. map2 (pen_logit k rh) [0..<V]) rows logits)"
proof -
  have op: "elementwise f logits (map (\<lambda>rh. map (c rh) [0..<V]) rows) = Inr (map2 (\<lambda>rh. map2 (pen_logit k rh) [0..<V]) rows logits)"
    if f: "\<And>rh t x. rh \<in> set rows \<Longrightarrow> pen_logit k rh t x = f x (c rh t)" for f :: "xfloat \<Rightarrow> 'a \<Rightarrow> xfloat" and c
  proof -
    have "elementwise f logits (map (\<lambda>rh. map (c rh) [0..<V]) rows) = Inr (map2 (map2 f) logits (map (\<lambda>rh. map (c rh) [0..<V]) rows))"
      using assms(2,3) by (intro elementwise_eq) auto
    moreover have "map2 (map2 f) logits (map (\<lambda>rh. map (c rh) [0..<V]) rows) = map2 (\<lambda>rh. map2 (pen_logit k rh) [0..<V]) rows logits"
      using assms(2,3) by (intro nth_equalityI) (auto simp: f intro!: nth_equalityI)
    ultimately show ?thesis by simp
  qed
  show ?thesis
  proof (cases st)
    case (CumState pens cum)
    then have "k \<noteq> MinNewTokensPenalizer" "cum = map (\<lambda>rh. map (cum_pen k rh) [0..<V]) rows" using assms(1) by auto
    with CumState op [of "\<lambda>x c. fsub x (Fin c)" "cum_pen k"] op [of scale_logit "cum_pen k"] show ?thesis
      by (cases k) (simp_all add: apply_scaling_penalties_def)
  next
    case (MinNewState mins stops lens)
    define c where "c = (\<lambda>(rh :: samp_row) t. if int (length (snd rh)) < sp_min_new_tokens (sr_params (fst rh)) then stop_pen (fst rh) t else Fin 0)"
    have k: "k = MinNewTokensPenalizer" and len: "length lens = length rows" using assms(1) MinNewState by auto
    have "map (\<lambda>(len, n, stop). if len < n then stop else replicate (length stop) (Fin 0)) (zip lens (zip mins stops))
        = map (\<lambda>rh. map (c rh) [0..<V]) rows"
    proof (rule nth_equalityI)
      fix i assume "i < length (map (\<lambda>(len, n, stop). if len < n then stop else replicate (length stop) (Fin 0)) (zip lens (zip mins stops)))"
      then have i: "i < length rows" using len by simp
      then have "0 \<le> lens ! i" "mins ! i = sp_min_new_tokens (sr_params (fst (rows ! i)))"
        "0 < mins ! i \<longrightarrow> lens ! i = int (length (snd (rows ! i)))"
        using assms(1) MinNewState by simp_all
      then have "lens ! i < mins ! i \<longleftrightarrow> int (length (snd (rows ! i))) < sp_min_new_tokens (sr_params (fst (rows ! i)))"
        by (cases "0 < mins ! i") linarith+
      with i show "map (\<lambda>(len, n, stop). if len < n then stop else replicate (length stop) (Fin 0)) (zip lens (zip mins stops)) ! i
          = map (\<lambda>rh. map (c rh) [0..<V]) rows ! i"
        using assms(1) MinNewState by (simp add: c_def map_replicate_const)
    qed (use assms(1) MinNewState in simp)
    with MinNewState len assms(2) op [of fadd c] k show ?thesis by (simp add: c_def)
  qed
qed

section \<open>The orchestrator\<close>

lemma required_append: "penalizer_is_required k (xs @ ys) = (penalizer_is_required k xs \<or> penalizer_is_required k ys)"
  by (simp add: penalizer_is_required_def)

lemma not_required_rows:
  "\<not> penalizer_is_required k (map fst rows) \<Longrightarrow> rh \<in> set rows \<Longrightarrow> \<not> req_requires k (fst rh)"
  by (auto simp: penalizer_is_required_def list_ex_iff)

lemma rmap_dict:
  assumes "\<And>k p. (k, p) \<in> set d \<Longrightarrow> \<exists>p'. f (k, p) = Inr (k, p') \<and> Q k p'"
  shows "\<exists>d'. rmap f d = Inr d' \<and> map fst d' = map fst d \<and> (\<forall>(k, p')\<in>set d'. Q k p')"
  using assms
proof (induction d)
  case (Cons kp d)
  obtain k p where kp: "kp = (k, p)" by (cases kp)
  from Cons.prems [of k p] kp obtain p' where "f (k, p) = Inr (k, p')" "Q k p'" by auto
  moreover from Cons.IH Cons.prems obtain d' where "rmap f d = Inr d'" "map fst d' = map fst d" "\<forall>(k, p')\<in>set d'. Q k p'"
    by (meson list.set_intros(2))
  ultimately show ?case using kp by auto
qed simp

lemma orch_repD: "orch_rep V rows orch \<Longrightarrow> (k, p) \<in> set (or_penalizers orch) \<Longrightarrow> pen_rep V rows k p"
  by (auto simp: orch_rep_def)

lemma all_kinds_mem: "all_kinds (map fst d) \<Longrightarrow> \<exists>p. (k, p) \<in> set d"
proof -
  assume "all_kinds (map fst d)"
  then have "k \<in> fst ` set d" by (simp add: all_kinds_def)
  then show ?thesis by force
qed

lemma orch_cumulate_rep:
  assumes "orch_rep V rows orch" "length toks = length rows" "\<forall>t\<in>set toks. 0 \<le> t \<and> t < int V"
  shows "\<exists>orch'. orch_cumulate toks orch = Inr orch' \<and> orch_rep V (feed rows toks) orch'
     \<and> map fst (or_penalizers orch') = map fst (or_penalizers orch)"
proof -
  define f where "f = (\<lambda>(k, p). case p of None \<Rightarrow> Inr (k, None) | Some st \<Rightarrow> rbind (cumulate_state k toks st) (\<lambda>st'. Inr (k :: penalizer_kind, Some st')))"
  have "\<exists>p'. f (k, p) = Inr (k, p') \<and> pen_rep V (feed rows toks) k p'" if "(k, p) \<in> set (or_penalizers orch)" for k p
  proof (cases p)
    case (Some st)
    with orch_repD [OF assms(1) that] have "penalizer_is_required k (map fst rows)" "state_rep k V rows st" by (auto simp: pen_rep_def)
    with cumulate_state_rep [OF this(2) assms(2,3)] Some show ?thesis by (auto simp: f_def pen_rep_def map_fst_feed [OF assms(2)])
  qed (use orch_repD [OF assms(1) that] in \<open>auto simp: f_def pen_rep_def map_fst_feed [OF assms(2)]\<close>)
  from rmap_dict [of _ f, OF this] obtain d' where "rmap f (or_penalizers orch) = Inr d'" "map fst d' = map fst (or_penalizers orch)"
    "\<forall>(k, p')\<in>set d'. pen_rep V (feed rows toks) k p'" by blast
  with assms(1) show ?thesis by (auto simp: orch_cumulate_def f_def [symmetric] orch_rep_def map_fst_feed [OF assms(2)])
qed

lemma orch_filter_rep:
  assumes "orch_rep V rows orch" "keep \<noteq> []" "\<forall>i\<in>set keep. i < length rows" "rows' = map ((!) rows) keep"
  shows "\<exists>orch'. orch_filter (map fst rows') keep orch = Inr orch' \<and> orch_rep V rows' orch'
     \<and> map fst (or_penalizers orch') = map fst (or_penalizers orch)"
proof -
  have sub: "penalizer_is_required k (map fst rows') \<Longrightarrow> penalizer_is_required k (map fst rows)" for k
    using assms(3,4) by (auto simp: penalizer_is_required_def list_ex_iff)
  define f where "f = (\<lambda>(k, p). if penalizer_is_required k (map fst rows')
      then (case p of None \<Rightarrow> Inr (k, None) | Some st \<Rightarrow> rbind (filter_state keep st) (\<lambda>st'. Inr (k, Some st'))) else Inr (k, None))"
  have step: "\<exists>p'. f (k, p) = Inr (k, p') \<and> pen_rep V rows' k p'" if "(k, p) \<in> set (or_penalizers orch)" for k p
  proof (cases "penalizer_is_required k (map fst rows')")
    case True
    with orch_repD [OF assms(1) that] sub obtain st where "p = Some st" "state_rep k V rows st"
      by (cases p) (auto simp: pen_rep_def)
    with filter_state_rep [OF this(2) assms(3)] True show ?thesis by (auto simp: f_def pen_rep_def assms(4))
  qed (simp add: f_def pen_rep_def)
  have kinds: "(\<exists>k. penalizer_is_required k (map fst rows')) = list_ex (\<lambda>(k, _). penalizer_is_required k (map fst rows')) (or_penalizers orch)"
  proof -
    have "\<exists>p. (k, p) \<in> set (or_penalizers orch)" for k using assms(1) by (intro all_kinds_mem) (simp add: orch_rep_def)
    then show ?thesis by (fastforce simp: list_ex_iff)
  qed
  show ?thesis
  proof (cases "or_is_required orch")
    case True
    from rmap_dict [of _ f, OF step] obtain d' where "rmap f (or_penalizers orch) = Inr d'" "map fst d' = map fst (or_penalizers orch)"
      "\<forall>(k, p')\<in>set d'. pen_rep V rows' k p'" by blast
    with assms(1,2) True kinds show ?thesis by (auto simp: orch_filter_def f_def [symmetric] orch_rep_def)
  next
    case False
    then have none: "\<not> penalizer_is_required k (map fst rows)" for k using assms(1) by (auto simp: orch_rep_def)
    then have "p = None" if "(k, p) \<in> set (or_penalizers orch)" for k p
      using orch_repD [OF assms(1) that] by (cases p) (auto simp: pen_rep_def)
    with False none sub assms(1) show ?thesis by (fastforce simp: orch_filter_def orch_rep_def pen_rep_def)
  qed
qed

lemma orchestrator_init_rep:
  assumes "reqs \<noteq> []" "\<forall>r\<in>set reqs. samp_req_ok V r" "all_kinds order"
  shows "\<exists>orch. orchestrator_init order V reqs = Inr orch \<and> orch_rep V (map (\<lambda>r. (r, [])) reqs) orch
     \<and> map fst (or_penalizers orch) = order"
proof -
  define rows where "rows = map (\<lambda>r. (r, [] :: int list)) reqs"
  have rows: "map fst rows = reqs" "rows \<noteq> []" "\<forall>rh\<in>set rows. samp_req_ok V (fst rh)"
    "\<forall>rh\<in>set rows. snd rh = [] \<or> \<not> req_requires k (fst rh)" for k
    using assms(1,2) by (simp_all add: rows_def o_def)
  define f where "f = (\<lambda>k. rbind (prepare_if_required V reqs k None) (\<lambda>(b, p). Inr (b, k, p)))"
  have step: "\<exists>p. f k = Inr (penalizer_is_required k reqs, k, p) \<and> pen_rep V rows k p" for k
  proof (cases "penalizer_is_required k reqs")
    case True
    from prepare_state_rep [OF rows(2-4)] obtain st where "prepare_state V reqs k = Inr st" "state_rep k V rows st"
      by (auto simp: rows(1))
    with True show ?thesis by (auto simp: f_def prepare_if_required_def prepare_def pen_rep_def rows(1))
  qed (simp add: f_def prepare_if_required_def pen_rep_def rows(1))
  have "\<exists>ps. rmap f ks = Inr ps \<and> map (\<lambda>(b, k, p). k) ps = ks
      \<and> (\<forall>(b, k, p)\<in>set ps. b = penalizer_is_required k reqs \<and> pen_rep V rows k p)" for ks
  proof (induction ks)
    case (Cons k ks)
    then obtain ps where "rmap f ks = Inr ps" "map (\<lambda>(b, k, p). k) ps = ks"
      "\<forall>(b, k, p)\<in>set ps. b = penalizer_is_required k reqs \<and> pen_rep V rows k p" by blast
    moreover obtain p where "f k = Inr (penalizer_is_required k reqs, k, p)" "pen_rep V rows k p" using step by blast
    ultimately show ?case by auto
  qed simp
  then obtain ps where ps: "rmap f order = Inr ps" "map (\<lambda>(b, k, p). k) ps = order"
    "\<forall>(b, k, p)\<in>set ps. b = penalizer_is_required k reqs \<and> pen_rep V rows k p" by blast
  have keys: "map fst (map snd ps) = order" using ps(2) by (simp add: o_def case_prod_unfold)
  have "(\<exists>k. penalizer_is_required k reqs) = list_ex fst ps"
  proof -
    have "penalizer_is_required k reqs \<Longrightarrow> \<exists>x\<in>set ps. fst x" for k
    proof -
      assume req: "penalizer_is_required k reqs"
      have "all_kinds (map fst (map snd ps))" using assms(3) keys by simp
      from all_kinds_mem [OF this, of k] obtain b p where bp: "(b, k, p) \<in> set ps" by auto
      with bspec [OF ps(3) bp] req show ?thesis by (intro bexI [OF _ bp]) simp
    qed
    moreover have "penalizer_is_required k reqs" if "(b, k, p) \<in> set ps" b for b k p
      using bspec [OF ps(3) that(1)] that(2) by simp
    ultimately show ?thesis unfolding list_ex_iff by (metis prod.collapse)
  qed
  then have "orch_rep V rows \<lparr>or_vocab_size = V, or_penalizers = map snd ps, or_is_required = list_ex fst ps\<rparr>"
    using ps(3) assms(3) keys by (auto simp: orch_rep_def rows(1))
  then show ?thesis using ps(1) keys by (auto simp: orchestrator_init_def f_def rows_def)
qed

lemma merge_penalizer_rep:
  assumes "pen_rep V rows k p" "pen_rep V rows' k p'" "rows \<noteq> []" "rows' \<noteq> []"
    "\<forall>rh\<in>set rows. samp_req_ok V (fst rh)" "\<forall>rh\<in>set rows'. samp_req_ok V (fst rh)"
  shows "\<exists>m t. merge_penalizer V (map fst rows) V (map fst rows') k p p' = Inr (m, t) \<and> pen_rep V (rows @ rows') k m"
proof (cases "p = None \<and> p' = None")
  case True
  with assms(1,2) show ?thesis by (auto simp: merge_penalizer_def pen_rep_def required_append)
next
  case False
  have prep: "\<exists>st. prepare V (map fst xs) k q = Inr st \<and> state_rep k V xs st"
    if "pen_rep V xs k q" "xs \<noteq> []" "\<forall>rh\<in>set xs. samp_req_ok V (fst rh)" for xs q
  proof (cases q)
    case None
    with that have "\<forall>rh\<in>set xs. snd rh = [] \<or> \<not> req_requires k (fst rh)" by (auto simp: pen_rep_def dest: not_required_rows)
    with None that show ?thesis by (auto simp: prepare_def intro!: prepare_state_rep)
  qed (use that in \<open>auto simp: prepare_def pen_rep_def\<close>)
  from prep [OF assms(1,3,5)] prep [OF assms(2,4,6)] obtain st st' where
    "prepare V (map fst rows) k p = Inr st" "state_rep k V rows st" "prepare V (map fst rows') k p' = Inr st'" "state_rep k V rows' st'"
    by blast
  moreover from merge_state_rep [OF this(2,4)] obtain m where "merge_state st st' = Inr m" "state_rep k V (rows @ rows') m" by blast
  moreover have "penalizer_is_required k (map fst (rows @ rows'))"
    using False assms(1,2) by (auto simp: pen_rep_def required_append split: option.splits)
  ultimately show ?thesis using False by (auto simp: merge_penalizer_def pen_rep_def)
qed

lemma merge_loop_rep:
  assumes "\<forall>(k, p)\<in>set ps. pen_rep V rows' k p" "distinct (map fst ps)"
    "\<forall>k\<in>set (map fst ps). \<exists>p. map_of mine k = Some p \<and> pen_rep V rows k p" "rows \<noteq> []" "rows' \<noteq> []"
    "\<forall>rh\<in>set rows. samp_req_ok V (fst rh)" "\<forall>rh\<in>set rows'. samp_req_ok V (fst rh)"
  shows "\<exists>mine' ps'. merge_loop V (map fst rows) V (map fst rows') mine ps = Inr (mine', ps') \<and> map fst mine' = map fst mine
     \<and> (\<forall>k. if k \<in> set (map fst ps) then \<exists>p. map_of mine' k = Some p \<and> pen_rep V (rows @ rows') k p else map_of mine' k = map_of mine k)"
  using assms(1-3)
proof (induction ps arbitrary: mine)
  case (Cons kp ps)
  obtain k q where kp: "kp = (k, q)" by (cases kp)
  from Cons.prems(3) kp obtain p where p: "map_of mine k = Some p" "pen_rep V rows k p" by auto
  from merge_penalizer_rep [OF p(2) _ assms(4-7), of q] Cons.prems(1) kp obtain m t where
    m: "merge_penalizer V (map fst rows) V (map fst rows') k p q = Inr (m, t)" "pen_rep V (rows @ rows') k m" by auto
  define mine1 where "mine1 = AList.update k m mine"
  have mine1: "map_of mine1 = (map_of mine)(k \<mapsto> m)" "map fst mine1 = map fst mine"
    using map_of_SomeD [OF p(1)] by (force simp: mine1_def update_conv' update_keys)+
  have k: "k \<notin> set (map fst ps)" using Cons.prems(2) kp by simp
  have "\<forall>k'\<in>set (map fst ps). \<exists>p. map_of mine1 k' = Some p \<and> pen_rep V rows k' p"
    using Cons.prems(3) k by (auto simp: mine1 kp)
  from Cons.IH [OF _ _ this] Cons.prems(1,2) kp obtain mine' ps' where
    IH: "merge_loop V (map fst rows) V (map fst rows') mine1 ps = Inr (mine', ps')" "map fst mine' = map fst mine1"
      "\<forall>k. if k \<in> set (map fst ps) then \<exists>p. map_of mine' k = Some p \<and> pen_rep V (rows @ rows') k p else map_of mine' k = map_of mine1 k"
    by (auto simp del: map_map)
  have "merge_loop V (map fst rows) V (map fst rows') mine (kp # ps) = Inr (mine', (k, t) # ps')"
    using p(1) m(1) IH(1) by (simp add: kp mine1_def)
  moreover have "if k' \<in> set (map fst (kp # ps)) then \<exists>p. map_of mine' k' = Some p \<and> pen_rep V (rows @ rows') k' p
      else map_of mine' k' = map_of mine k'" for k'
    using IH(3) [rule_format, of k'] k m(2) by (cases "k' = k") (auto simp: kp mine1 split: if_splits)
  ultimately show ?case using IH(2) mine1(2) by auto
qed simp

lemma orch_merge_rep:
  assumes "orch_rep V rows orch" "orch_rep V rows' their" "rows \<noteq> []" "rows' \<noteq> []"
    "\<forall>rh\<in>set rows. samp_req_ok V (fst rh)" "\<forall>rh\<in>set rows'. samp_req_ok V (fst rh)"
  shows "\<exists>o1 o2. orch_merge (map fst rows) (map fst rows') orch their = Inr (o1, o2) \<and> orch_rep V (rows @ rows') o1
     \<and> map fst (or_penalizers o1) = map fst (or_penalizers orch)"
proof (cases "or_is_required orch \<or> or_is_required their")
  case False
  then have "\<not> penalizer_is_required k (map fst rows)" "\<not> penalizer_is_required k (map fst rows')" for k
    using assms(1,2) by (auto simp: orch_rep_def)
  then have "pen_rep V (rows @ rows') k p" if "(k, p) \<in> set (or_penalizers orch)" for k p
    using orch_repD [OF assms(1) that] by (cases p) (auto simp: pen_rep_def required_append)
  with False assms(1,2) show ?thesis by (auto simp: orch_merge_def orch_rep_def required_append)
next
  case True
  have kinds: "all_kinds (map fst (or_penalizers orch))" "all_kinds (map fst (or_penalizers their))"
    using assms(1,2) by (simp_all add: orch_rep_def)
  have "\<exists>p. map_of (or_penalizers orch) k = Some p \<and> pen_rep V rows k p" for k
  proof -
    from all_kinds_mem [OF kinds(1)] obtain p where p: "(k, p) \<in> set (or_penalizers orch)" by blast
    moreover have "map_of (or_penalizers orch) k = Some p" using p kinds(1) by (simp add: all_kinds_def)
    ultimately show ?thesis using orch_repD [OF assms(1)] by blast
  qed
  with merge_loop_rep [of "or_penalizers their" V rows' "or_penalizers orch" rows] assms(2-6) kinds(2) obtain ps ps' where
    ps: "merge_loop V (map fst rows) V (map fst rows') (or_penalizers orch) (or_penalizers their) = Inr (ps, ps')"
      "map fst ps = map fst (or_penalizers orch)" "\<forall>k. \<exists>p. map_of ps k = Some p \<and> pen_rep V (rows @ rows') k p"
    by (auto simp: orch_rep_def all_kinds_def)
  have "pen_rep V (rows @ rows') k p" if "(k, p) \<in> set ps" for k p
  proof -
    have "map_of ps k = Some p" using that kinds(1) ps(2) by (simp add: all_kinds_def)
    with ps(3) show ?thesis by (metis option.inject)
  qed
  moreover have "\<exists>k. penalizer_is_required k (map fst (rows @ rows'))"
    using True assms(1,2) by (auto simp: orch_rep_def required_append)
  ultimately show ?thesis using True ps(1,2) assms(1,2) by (auto simp: orch_merge_def orch_rep_def)
qed

end
