(* ===== verification/Sampling_Runs.thy ===== *)
theory Sampling_Runs
  imports Sampling_Rows
begin

text \<open>
  The sampling state of a batch over its life: bias and custom logit processors beside the
  penalties, the runs of construction, decoding, filtering and merging, and what a forward pass
  computes in the two modes of the scheduler.
\<close>

section \<open>Logit bias\<close>

lemma set_bias_length: "set_bias b row = Inr row' \<Longrightarrow> length row' = length row"
  by (induction b row rule: set_bias.induct) (auto simp: rbind_eq_Inr_iff set_element_def split: if_splits)

lemma bias_row_eq:
  assumes "samp_req_ok V r"
  shows "bias_row V r = Inr (map (bias_of V r) [0..<V])"
proof -
  from assms obtain row where row: "bias_row V r = Inr row" by (auto simp: samp_req_ok_def)
  then have "length row = V" unfolding bias_row_def by (auto dest: set_bias_length)
  then have "row = map (bias_of V r) [0..<V]" using row by (intro nth_equalityI) (simp_all add: bias_of_def)
  with row show ?thesis by simp
qed

lemma no_bias: "sp_logit_bias (sr_params r) = None \<Longrightarrow> t < V \<Longrightarrow> bias_of V r t = 0"
  by (simp add: bias_of_def bias_row_def or_default_def)

lemma init_logit_bias_rep:
  assumes "\<forall>r\<in>set reqs. samp_req_ok V r"
  shows "\<exists>m. init_logit_bias V reqs = Inr m \<and> bias_rep V (map (\<lambda>r. (r, [])) reqs) m"
proof (cases "list_ex (\<lambda>r. sp_logit_bias (sr_params r) \<noteq> None) reqs")
  case True
  have "rmap (bias_row V) reqs = Inr (map (\<lambda>r. map (bias_of V r) [0..<V]) reqs)"
    using assms by (intro rmap_Inr) (simp add: bias_row_eq)
  with True show ?thesis by (simp add: init_logit_bias_def bias_rep_def o_def)
qed (simp add: init_logit_bias_def bias_rep_def list_ex_iff)

lemma filter_bias_rep:
  assumes "bias_rep V rows m" "\<forall>i\<in>set keep. i < length rows"
  shows "\<exists>m'. filter_opt keep m = Inr m' \<and> bias_rep V (map ((!) rows) keep) m'"
  using assms by (cases m) (auto simp: bias_rep_def filter_opt_def take_rows_eq)

lemma no_bias_rows:
  assumes "\<forall>rh\<in>set rows. sp_logit_bias (sr_params (fst rh)) = None"
  shows "map (\<lambda>rh. map (bias_of V (fst rh)) [0..<V]) rows = replicate (length rows) (replicate V 0)"
proof (rule nth_equalityI)
  fix i assume "i < length (map (\<lambda>rh. map (bias_of V (fst rh)) [0..<V]) rows)"
  then show "map (\<lambda>rh. map (bias_of V (fst rh)) [0..<V]) rows ! i = replicate (length rows) (replicate V 0) ! i"
    using assms by (intro nth_equalityI) (simp_all add: no_bias)
qed simp

lemma merge_bias_rep:
  assumes "bias_rep V rows m" "bias_rep V rows' m'" "rows \<noteq> []" "rows' \<noteq> []"
  shows "bias_rep V (rows @ rows') (merge_bias_tensor m m' (length rows) (length rows') 0)"
proof -
  have "columns (map (\<lambda>rh. map (bias_of V (fst rh)) [0..<V]) xs) = V" if "xs \<noteq> []" for xs :: "samp_row list"
    using that by (cases xs) (simp_all add: columns_def)
  with assms show ?thesis by (cases m; cases m') (auto simp: bias_rep_def merge_bias_tensor_def no_bias_rows)
qed

section \<open>Custom logit processors\<close>

definition proc_mask :: "samp_row list \<Rightarrow> string \<Rightarrow> bool list" where
  "proc_mask rows s = map (\<lambda>rh. sr_custom_logit_processor (fst rh) = Some s) rows"

text \<open>
  Every registered processor has the mask of exactly its requests, every request with a processor
  has it registered and finds its own parameters.
\<close>

definition custom_rep :: "(string \<Rightarrow> int) \<Rightarrow> bool \<Rightarrow> samp_row list \<Rightarrow> sampling_batch \<Rightarrow> bool" where
  "custom_rep hsh en rows b =
     (if sb_has_custom_logit_processor b
      then en \<and> (\<exists>d ps. sb_custom_logit_processor b = Some d \<and> sb_custom_params b = Some ps \<and> distinct (map fst d)
             \<and> (\<forall>(k, p, m)\<in>set d. k = hsh p \<and> m = proc_mask rows p \<and> list_ex id m)
             \<and> length ps = length rows
             \<and> (\<forall>i<length rows. case sr_custom_logit_processor (fst (rows ! i)) of None \<Rightarrow> True
                  | Some s \<Rightarrow> (hsh s, s, proc_mask rows s) \<in> set d \<and> ps ! i = sp_custom_params (sr_params (fst (rows ! i)))))
      else sb_custom_logit_processor b = None \<and> sb_custom_params b = None
           \<and> (en \<longrightarrow> (\<forall>rh\<in>set rows. sr_custom_logit_processor (fst rh) = None)))"

text \<open>The processors of a request are among \<open>P\<close>, where the hash does not collide.\<close>

definition proc_ok :: "string set \<Rightarrow> samp_req \<Rightarrow> bool" where
  "proc_ok P r = (case sr_custom_logit_processor r of None \<Rightarrow> True | Some s \<Rightarrow> s \<in> P \<and> s \<noteq> '''')"

lemma fold_update_fresh:
  assumes "inj_on hsh (set ss)" "distinct ss" "\<forall>s\<in>set ss. hsh s \<notin> set (map fst d)"
  shows "fold (\<lambda>s d. AList.update (hsh s) (g s) d) ss d = d @ map (\<lambda>s. (hsh s, g s)) ss"
  using assms
proof (induction ss arbitrary: d)
  case (Cons s ss)
  then have "AList.update (hsh s) (g s) d = d @ [(hsh s, g s)]" by (intro update_new) simp
  moreover have "\<forall>s'\<in>set ss. hsh s' \<notin> set (map fst (d @ [(hsh s, g s)]))"
    using Cons.prems by (auto simp: inj_on_def)
  ultimately show ?case using Cons by (simp add: inj_on_insert)
qed simp

lemma processor_masks_eq:
  assumes "inj_on hsh P" "\<forall>r\<in>set reqs. proc_ok P r"
  shows "\<exists>ss. processor_masks hsh reqs = map (\<lambda>s. (hsh s, s, proc_mask (map (\<lambda>r. (r, [])) reqs) s)) ss \<and> distinct ss
     \<and> set ss = {s. \<exists>r\<in>set reqs. sr_custom_logit_processor r = Some s} \<and> inj_on hsh (set ss)"
proof -
  define ss where "ss = rev (remdups (rev (List.map_filter sr_custom_logit_processor reqs)))"
  have ss: "distinct ss" "set ss = {s. \<exists>r\<in>set reqs. sr_custom_logit_processor r = Some s}"
    by (auto simp: ss_def map_filter_def image_iff) (metis option.sel)
  have "set ss \<subseteq> P" using assms(2) by (auto simp: ss(2) proc_ok_def split: option.splits)
  with assms(1) have inj: "inj_on hsh (set ss)" by (rule inj_on_subset)
  have "processor_masks hsh reqs = fold (\<lambda>s d. AList.update (hsh s) (s, map (\<lambda>r. sr_custom_logit_processor r = Some s) reqs) d) ss []"
    by (simp add: processor_masks_def ss_def)
  also have "\<dots> = map (\<lambda>s. (hsh s, s, map (\<lambda>r. sr_custom_logit_processor r = Some s) reqs)) ss"
    using fold_update_fresh [OF inj ss(1), of "[]" "\<lambda>s. (s, map (\<lambda>r. sr_custom_logit_processor r = Some s) reqs)"] by simp
  finally show ?thesis using ss inj by (intro exI [of _ ss]) (simp add: proc_mask_def o_def)
qed

lemma custom_rep_cong:
  assumes "sb_has_custom_logit_processor b = sb_has_custom_logit_processor c" "sb_custom_logit_processor b = sb_custom_logit_processor c"
    "sb_custom_params b = sb_custom_params c"
  shows "custom_rep hsh en rows b = custom_rep hsh en rows c"
  by (simp add: custom_rep_def assms)

lemma proc_mask_rows: "i < length rows \<Longrightarrow> sr_custom_logit_processor (fst (rows ! i)) = Some s \<Longrightarrow> list_ex id (proc_mask rows s)"
  by (auto simp: proc_mask_def list_ex_iff image_iff intro: nth_mem)

lemma filter_custom_rep:
  assumes "custom_rep hsh en rows b" "sb_has_custom_logit_processor b" "\<forall>i\<in>set keep. i < length rows"
  shows "\<exists>d ps h. filter_custom_logit_processor keep b
       = Inr (b\<lparr>sb_custom_logit_processor := d, sb_custom_params := ps, sb_has_custom_logit_processor := h\<rparr>)
     \<and> custom_rep hsh en (map ((!) rows) keep) (b\<lparr>sb_custom_logit_processor := d, sb_custom_params := ps, sb_has_custom_logit_processor := h\<rparr>)"
proof -
  define rows' where "rows' = map ((!) rows) keep"
  from assms(1,2) obtain d ps where d: "en" "sb_custom_logit_processor b = Some d" "sb_custom_params b = Some ps" "distinct (map fst d)"
    "\<forall>(k, p, m)\<in>set d. k = hsh p \<and> m = proc_mask rows p \<and> list_ex id m" "length ps = length rows"
    and rows: "\<forall>i<length rows. case sr_custom_logit_processor (fst (rows ! i)) of None \<Rightarrow> True
       | Some s \<Rightarrow> (hsh s, s, proc_mask rows s) \<in> set d \<and> ps ! i = sp_custom_params (sr_params (fst (rows ! i)))"
    by (auto simp: custom_rep_def)
  define d' where "d' = map (\<lambda>(k, p, m). (k, p, proc_mask rows' p)) d"
  have mask: "take_rows keep (proc_mask rows p) = Inr (proc_mask rows' p)" for p
    using assms(3) take_rows_eq [of keep "proc_mask rows p"] by (auto simp: proc_mask_def rows'_def intro!: nth_equalityI)
  have rm: "rmap (\<lambda>(k, p, m). rbind (take_rows keep m) (\<lambda>m'. Inr (k, p, m'))) d = Inr d'"
    unfolding d'_def using d(5) mask by (intro rmap_Inr) auto
  have ps: "take_rows keep ps = Inr (map ((!) ps) keep)" using assms(3) d(6) by (intro take_rows_eq) simp
  define kept where "kept = filter (\<lambda>(_, _, m). list_ex id m) d'"
  have found: "(hsh s, s, proc_mask rows' s) \<in> set kept \<and> map ((!) ps) keep ! i = sp_custom_params (sr_params (fst (rows' ! i)))"
    if "i < length rows'" "sr_custom_logit_processor (fst (rows' ! i)) = Some s" for i s
  proof -
    have "keep ! i < length rows" "rows' ! i = rows ! (keep ! i)" "i < length keep" using that(1) assms(3) by (simp_all add: rows'_def)
    with rows [rule_format, of "keep ! i"] that(2)
    have "(hsh s, s, proc_mask rows s) \<in> set d" "ps ! (keep ! i) = sp_custom_params (sr_params (fst (rows' ! i)))"
      by simp_all
    moreover from this(1) have "(hsh s, s, proc_mask rows' s) \<in> set d'" by (force simp: d'_def)
    ultimately show ?thesis using proc_mask_rows [OF that] \<open>i < length keep\<close> by (simp add: kept_def)
  qed
  have kept: "distinct (map fst kept)" "\<forall>(k, p, m)\<in>set kept. k = hsh p \<and> m = proc_mask rows' p \<and> list_ex id m"
  proof -
    have "map fst d' = map fst d" by (simp add: d'_def case_prod_unfold)
    then show "distinct (map fst kept)" unfolding kept_def using d(4) by (metis distinct_map_filter)
    show "\<forall>(k, p, m)\<in>set kept. k = hsh p \<and> m = proc_mask rows' p \<and> list_ex id m" using d(5) by (auto simp: kept_def d'_def)
  qed
  have res: "filter_custom_logit_processor keep b =
      (if kept = [] then Inr (b\<lparr>sb_custom_logit_processor := None, sb_custom_params := None, sb_has_custom_logit_processor := False\<rparr>)
       else Inr (b\<lparr>sb_custom_logit_processor := Some kept, sb_custom_params := Some (map ((!) ps) keep), sb_has_custom_logit_processor := True\<rparr>))"
    using d(2,3) rm ps assms(2) by (simp add: filter_custom_logit_processor_def kept_def [symmetric])
  show ?thesis
  proof (cases "kept = []")
    case True
    have "sr_custom_logit_processor (fst rh) = None" if "rh \<in> set rows'" for rh
    proof -
      from that obtain i where "i < length rows'" "rh = rows' ! i" by (metis in_set_conv_nth)
      with found [of i] True show ?thesis by (cases "sr_custom_logit_processor (fst rh)") auto
    qed
    then have "custom_rep hsh en rows' (b\<lparr>sb_custom_logit_processor := None, sb_custom_params := None, sb_has_custom_logit_processor := False\<rparr>)"
      by (simp add: custom_rep_def)
    with res True show ?thesis unfolding rows'_def by auto
  next
    case False
    have "custom_rep hsh en rows' (b\<lparr>sb_custom_logit_processor := Some kept, sb_custom_params := Some (map ((!) ps) keep), sb_has_custom_logit_processor := True\<rparr>)"
      using d(1) kept found by (auto simp: custom_rep_def rows'_def split: option.splits)
    with res False show ?thesis unfolding rows'_def by auto
  qed
qed

definition custom_dict :: "sampling_batch \<Rightarrow> (int, string \<times> bool list) dict" where
  "custom_dict b = or_default [] (sb_custom_logit_processor b)"

lemma custom_dict_rep:
  assumes "custom_rep hsh True rows b"
  shows "distinct (map fst (custom_dict b))" "\<forall>(k, p, m)\<in>set (custom_dict b). k = hsh p \<and> m = proc_mask rows p \<and> list_ex id m"
    "rh \<in> set rows \<Longrightarrow> sr_custom_logit_processor (fst rh) = Some s \<Longrightarrow> (hsh s, s, proc_mask rows s) \<in> set (custom_dict b)"
proof -
  show "rh \<in> set rows \<Longrightarrow> sr_custom_logit_processor (fst rh) = Some s \<Longrightarrow> (hsh s, s, proc_mask rows s) \<in> set (custom_dict b)"
  proof -
    assume rh: "rh \<in> set rows" "sr_custom_logit_processor (fst rh) = Some s"
    then obtain i where i: "i < length rows" "rh = rows ! i" by (metis in_set_conv_nth)
    show ?thesis
    proof (cases "sb_has_custom_logit_processor b")
      case True
      with assms obtain d where "sb_custom_logit_processor b = Some d"
        "\<forall>i<length rows. case sr_custom_logit_processor (fst (rows ! i)) of None \<Rightarrow> True | Some s \<Rightarrow> (hsh s, s, proc_mask rows s) \<in> set d"
        by (auto simp: custom_rep_def split: option.splits)
      from this(1) this(2) [rule_format, OF i(1)] i(2) rh(2) show ?thesis by (simp add: custom_dict_def or_default_def)
    qed (use assms rh in \<open>simp add: custom_rep_def\<close>)
  qed
qed (use assms in \<open>auto simp: custom_rep_def custom_dict_def or_default_def split: if_splits\<close>)

lemma proc_mask_append: "proc_mask (rows @ rows') p = proc_mask rows p @ proc_mask rows' p"
  by (simp add: proc_mask_def)

lemma length_proc_mask [simp]: "length (proc_mask rows p) = length rows"
  by (simp add: proc_mask_def)

lemma custom_lookup:
  assumes "custom_rep hsh True rows b" "inj_on hsh P" "\<forall>rh\<in>set rows. proc_ok P (fst rh)"
  shows "map_of (custom_dict b) k = Some (p, m) \<Longrightarrow> p \<in> P \<and> k = hsh p \<and> m = proc_mask rows p \<and> list_ex id m"
    "map_of (custom_dict b) (hsh p) = None \<Longrightarrow> p \<in> P \<Longrightarrow> proc_mask rows p = replicate (length rows) False"
proof -
  assume "map_of (custom_dict b) k = Some (p, m)"
  then have "(k, p, m) \<in> set (custom_dict b)" by (rule map_of_SomeD)
  with custom_dict_rep(2) [OF assms(1)] have km: "k = hsh p" "m = proc_mask rows p" "list_ex id m" by auto
  then obtain rh where "rh \<in> set rows" "sr_custom_logit_processor (fst rh) = Some p" by (auto simp: proc_mask_def list_ex_iff)
  with assms(3) have "p \<in> P" by (force simp: proc_ok_def)
  with km show "p \<in> P \<and> k = hsh p \<and> m = proc_mask rows p \<and> list_ex id m" by simp
next
  assume none: "map_of (custom_dict b) (hsh p) = None" "p \<in> P"
  have "sr_custom_logit_processor (fst rh) \<noteq> Some p" if "rh \<in> set rows" for rh
    using custom_dict_rep(3) [OF assms(1) that, of p] none(1) by (force simp: map_of_eq_None_iff)
  then show "proc_mask rows p = replicate (length rows) False"
    by (intro nth_equalityI) (simp_all add: proc_mask_def)
qed

lemma merge_custom_rep:
  assumes "custom_rep hsh True rows b" "custom_rep hsh True rows' c" "inj_on hsh P"
    "\<forall>rh\<in>set rows. proc_ok P (fst rh)" "\<forall>rh\<in>set rows'. proc_ok P (fst rh)"
    "sb_has_custom_logit_processor b \<or> sb_has_custom_logit_processor c"
  shows "\<exists>d. merge_custom_logit_processor (sb_custom_logit_processor b) (sb_custom_logit_processor c) (length rows) (length rows') = Inr (Some d)
     \<and> distinct (map fst d) \<and> (\<forall>(k, p, m)\<in>set d. k = hsh p \<and> m = proc_mask (rows @ rows') p \<and> list_ex id m)
     \<and> (\<forall>rh\<in>set (rows @ rows'). \<forall>s. sr_custom_logit_processor (fst rh) = Some s \<longrightarrow> (hsh s, s, proc_mask (rows @ rows') s) \<in> set d)"
proof -
  define l r where "l = custom_dict b" and "r = custom_dict c"
  define keys where "keys = map fst l @ filter (\<lambda>k. k \<notin> set (map fst l)) (map fst r)"
  define proc where "proc k = (case map_of l k of Some (p, _) \<Rightarrow> p | None \<Rightarrow> fst (the (map_of r k)))" for k
  define g where "g k = (let left = (case map_of l k of Some (_, m) \<Rightarrow> m | None \<Rightarrow> replicate (length rows) False);
      right = (case map_of r k of Some (_, m) \<Rightarrow> m | None \<Rightarrow> replicate (length rows') False)
    in rbind (guard_res (length (left @ right) = length rows + length rows') AssertionError) (\<lambda>_. Inr (k, proc k, left @ right)))" for k
  note L = custom_lookup [OF assms(1,3,4), folded l_def] and R = custom_lookup [OF assms(2,3,5), folded r_def]
  have g: "g k = Inr (k, proc k, proc_mask (rows @ rows') (proc k)) \<and> k = hsh (proc k) \<and> proc k \<in> P
      \<and> list_ex id (proc_mask (rows @ rows') (proc k))" if "k \<in> set keys" for k
  proof (cases "map_of l k")
    case (Some pm)
    obtain p m where pm: "map_of l k = Some (p, m)" using Some by (cases pm) auto
    note lp = L(1) [OF pm]
    have "(case map_of r k of Some (_, m) \<Rightarrow> m | None \<Rightarrow> replicate (length rows') False) = proc_mask rows' p"
    proof (cases "map_of r k")
      case (Some qm)
      then obtain q m' where "map_of r k = Some (q, m')" by (cases qm) auto
      with R(1) [OF this] lp assms(3) show ?thesis by (auto dest: inj_onD)
    qed (use R(2) lp in auto)
    then show ?thesis using pm lp by (auto simp add: g_def proc_def proc_mask_append Let_def)
  next
    case None
    with that obtain p m where pm: "map_of r k = Some (p, m)"
      by (fastforce simp: keys_def map_of_eq_None_iff dest: weak_map_of_SomeI)
    note rp = R(1) [OF pm]
    moreover have "replicate (length rows) False = proc_mask rows p" using L(2) [of p] None rp by simp
    ultimately show ?thesis using pm None by (auto simp add: g_def proc_def proc_mask_append Let_def)
  qed
  define d where "d = map (\<lambda>k. (k, proc k, proc_mask (rows @ rows') (proc k))) keys"
  have "rmap g keys = Inr d" unfolding d_def by (rule rmap_Inr) (simp add: g)
  moreover have "\<not> (sb_custom_logit_processor b = None \<and> sb_custom_logit_processor c = None)"
    using assms(1,2,6) by (auto simp: custom_rep_def split: if_splits)
  ultimately have 1: "merge_custom_logit_processor (sb_custom_logit_processor b) (sb_custom_logit_processor c) (length rows) (length rows') = Inr (Some d)"
    unfolding merge_custom_logit_processor_def Let_def custom_dict_def [symmetric] l_def [symmetric] r_def [symmetric]
      keys_def [symmetric] proc_def [symmetric] g_def [unfolded Let_def, abs_def] by auto
  have 2: "distinct (map fst d)" using custom_dict_rep(1) [OF assms(1)] custom_dict_rep(1) [OF assms(2)]
    by (auto simp: d_def o_def keys_def l_def r_def)
  have 3: "\<forall>(k, p, m)\<in>set d. k = hsh p \<and> m = proc_mask (rows @ rows') p \<and> list_ex id m" using g by (auto simp: d_def)
  have 4: "(hsh s, s, proc_mask (rows @ rows') s) \<in> set d"
    if "rh \<in> set (rows @ rows')" "sr_custom_logit_processor (fst rh) = Some s" for rh s
  proof -
    have "hsh s \<in> set (map fst l) \<or> hsh s \<in> set (map fst r)" "s \<in> P"
      using that custom_dict_rep(3) [OF assms(1), of rh s] custom_dict_rep(3) [OF assms(2), of rh s] assms(4,5)
      by (force simp: l_def r_def proc_ok_def)+
    then have "hsh s \<in> set keys" by (auto simp: keys_def)
    from g [OF this] \<open>s \<in> P\<close> assms(3) have "proc (hsh s) = s" by (metis inj_onD)
    with \<open>hsh s \<in> set keys\<close> show ?thesis by (auto simp: d_def image_iff)
  qed
  from 1 2 3 4 show ?thesis by blast
qed

section \<open>Operations on the sampling state\<close>

definition samp_rep :: "(string \<Rightarrow> int) \<Rightarrow> bool \<Rightarrow> bool \<Rightarrow> nat \<Rightarrow> samp_row list \<Rightarrow> sampling_batch \<Rightarrow> bool" where
  "samp_rep hsh det en V rows b = (sb_rep V rows b \<and> custom_rep hsh en rows b
     \<and> sb_sampling_seed b = (if det then Some (map (\<lambda>rh. or_default 42 (sp_sampling_seed (sr_params (fst rh)))) rows) else None))"

definition fresh_rows :: "samp_req list \<Rightarrow> samp_row list" where
  "fresh_rows reqs = map (\<lambda>r. (r, [])) reqs"

lemma fresh_rows_simps [simp]: "map fst (fresh_rows reqs) = reqs" "length (fresh_rows reqs) = length reqs"
  "set (fresh_rows reqs) = (\<lambda>r. (r, [])) ` set reqs" "i < length reqs \<Longrightarrow> fresh_rows reqs ! i = (reqs ! i, [])"
  by (simp_all add: fresh_rows_def o_def)

lemma processor_masks_rep:
  assumes "inj_on hsh P" "\<forall>r\<in>set reqs. proc_ok P r"
  shows "distinct (map fst (processor_masks hsh reqs))"
    "\<forall>(k, p, m)\<in>set (processor_masks hsh reqs). k = hsh p \<and> m = proc_mask (fresh_rows reqs) p \<and> list_ex id m"
    "r \<in> set reqs \<Longrightarrow> sr_custom_logit_processor r = Some s \<Longrightarrow> (hsh s, s, proc_mask (fresh_rows reqs) s) \<in> set (processor_masks hsh reqs)"
proof -
  from processor_masks_eq [OF assms] obtain ss where ss:
    "processor_masks hsh reqs = map (\<lambda>s. (hsh s, s, proc_mask (fresh_rows reqs) s)) ss" "distinct ss"
    "set ss = {s. \<exists>r\<in>set reqs. sr_custom_logit_processor r = Some s}" "inj_on hsh (set ss)" by (auto simp: fresh_rows_def)
  show "distinct (map fst (processor_masks hsh reqs))" using ss by (simp add: o_def distinct_map)
  have "list_ex id (proc_mask (fresh_rows reqs) s)" if "s \<in> set ss" for s
    using that by (auto simp: ss(3) proc_mask_def list_ex_iff)
  then show "\<forall>(k, p, m)\<in>set (processor_masks hsh reqs). k = hsh p \<and> m = proc_mask (fresh_rows reqs) p \<and> list_ex id m" by (auto simp: ss(1))
  show "r \<in> set reqs \<Longrightarrow> sr_custom_logit_processor r = Some s \<Longrightarrow> (hsh s, s, proc_mask (fresh_rows reqs) s) \<in> set (processor_masks hsh reqs)"
    by (auto simp: ss(1,3))
qed

lemma from_schedule_batch_rep:
  assumes "reqs \<noteq> []" "\<forall>r\<in>set reqs. samp_req_ok V r \<and> proc_ok P r" "all_kinds order" "inj_on hsh P"
  shows "\<exists>b. from_schedule_batch hsh order det en reqs V = Inr b \<and> samp_rep hsh det en V (fresh_rows reqs) b
     \<and> map fst (or_penalizers (sb_penalizer_orchestrator b)) = order \<and> sb_acc_additive_penalties b = None \<and> sb_acc_scaling_penalties b = None"
proof -
  from assms(2) have ok: "\<forall>r\<in>set reqs. samp_req_ok V r" "\<forall>r\<in>set reqs. proc_ok P r" by simp_all
  from init_logit_bias_rep [OF ok(1)] obtain m where m: "init_logit_bias V reqs = Inr m" "bias_rep V (fresh_rows reqs) m"
    unfolding fresh_rows_def by blast
  from orchestrator_init_rep [OF assms(1) ok(1) assms(3)] obtain orch where
    orch: "orchestrator_init order V reqs = Inr orch" "orch_rep V (fresh_rows reqs) orch" "map fst (or_penalizers orch) = order"
    unfolding fresh_rows_def by blast
  define custom where "custom = (en \<and> list_ex (\<lambda>r. sr_custom_logit_processor r \<notin> {None, Some ''''}) reqs)"
  obtain b where eq: "from_schedule_batch hsh order det en reqs V = Inr b"
    by (simp add: from_schedule_batch_def m(1) orch(1) Let_def)
  note B = eq [unfolded from_schedule_batch_def m(1) orch(1) rbind_simps Let_def sum.inject custom_def [symmetric], symmetric]
  have b: "sb_has_custom_logit_processor b = custom"
    "sb_custom_params b = (if custom then Some (map (\<lambda>r. sp_custom_params (sr_params r)) reqs) else None)"
    "sb_custom_logit_processor b = (if custom then Some (processor_masks hsh reqs) else None)"
    "sb_penalizer_orchestrator b = orch" "sb_acc_additive_penalties b = None \<and> sb_acc_scaling_penalties b = None"
    by (simp_all add: B)
  have seed: "sb_sampling_seed b = (if det then Some (map (\<lambda>rh. or_default 42 (sp_sampling_seed (sr_params (fst rh)))) (fresh_rows reqs)) else None)"
    by (simp add: B fresh_rows_def o_def)
  have sb: "sb_rep V (fresh_rows reqs) b"
    unfolding sb_rep_def b(4) using m(2) orch(2)
    by (simp add: B fresh_rows_def o_def list_all_iff list_ex_iff not_less)
  have "custom_rep hsh en (fresh_rows reqs) b"
  proof (cases custom)
    case True
    have "\<forall>i<length reqs. case sr_custom_logit_processor (reqs ! i) of None \<Rightarrow> True
        | Some s \<Rightarrow> (hsh s, s, proc_mask (fresh_rows reqs) s) \<in> set (processor_masks hsh reqs)"
      using processor_masks_rep(3) [OF assms(4) ok(2) nth_mem] by (simp split: option.splits)
    with True b(1-3) processor_masks_rep(1,2) [OF assms(4) ok(2)] show ?thesis
      by (auto simp: custom_rep_def custom_def split: option.splits)
  next
    case False
    have "sr_custom_logit_processor r = None" if "en" "r \<in> set reqs" for r
    proof (cases "sr_custom_logit_processor r")
      case (Some s)
      with bspec [OF ok(2) that(2)] False that show ?thesis by (auto simp: custom_def list_ex_iff proc_ok_def)
    qed simp
    with False b(1-3) show ?thesis by (auto simp: custom_rep_def)
  qed
  with eq b(4,5) sb seed orch(3) show ?thesis by (simp add: samp_rep_def)
qed

lemma sampling_filter_rep:
  assumes "samp_rep hsh det en V rows b" "keep \<noteq> []" "\<forall>i\<in>set keep. i < length rows" "rows' = map ((!) rows) keep"
  shows "\<exists>b'. sampling_filter_batch (map fst rows') keep b = Inr b' \<and> samp_rep hsh det en V rows' b'
     \<and> map fst (or_penalizers (sb_penalizer_orchestrator b')) = map fst (or_penalizers (sb_penalizer_orchestrator b))
     \<and> sb_acc_additive_penalties b' = sb_acc_additive_penalties b \<and> sb_acc_scaling_penalties b' = sb_acc_scaling_penalties b"
proof -
  have rep: "sb_rep V rows b" "custom_rep hsh en rows b" using assms(1) by (simp_all add: samp_rep_def)
  from rep(1) have "orch_rep V rows (sb_penalizer_orchestrator b)" "bias_rep V rows (sb_logit_bias b)" by (simp_all add: sb_rep_def)
  with orch_filter_rep [OF _ assms(2-4)] filter_bias_rep [OF _ assms(3)] obtain orch m where
    orch: "orch_filter (map fst rows') keep (sb_penalizer_orchestrator b) = Inr orch" "orch_rep V rows' orch"
      "map fst (or_penalizers orch) = map fst (or_penalizers (sb_penalizer_orchestrator b))"
    and m: "filter_opt keep (sb_logit_bias b) = Inr m" "bias_rep V rows' m" unfolding assms(4) by blast
  define b0 where "b0 = b\<lparr>sb_penalizer_orchestrator := orch\<rparr>"
  have "\<exists>d ps h. (if sb_has_custom_logit_processor b then filter_custom_logit_processor keep b0 else Inr b0)
      = Inr (b0\<lparr>sb_custom_logit_processor := d, sb_custom_params := ps, sb_has_custom_logit_processor := h\<rparr>)
      \<and> custom_rep hsh en rows' (b0\<lparr>sb_custom_logit_processor := d, sb_custom_params := ps, sb_has_custom_logit_processor := h\<rparr>)"
  proof (cases "sb_has_custom_logit_processor b")
    case True
    have "custom_rep hsh en rows b0" "sb_has_custom_logit_processor b0" using rep(2) True by (simp_all add: b0_def custom_rep_def)
    from filter_custom_rep [OF this assms(3)] True show ?thesis by (simp add: assms(4))
  next
    case False
    with rep(2) assms(3,4) have "custom_rep hsh en rows' (b0\<lparr>sb_custom_logit_processor := None, sb_custom_params := None, sb_has_custom_logit_processor := False\<rparr>)"
      by (auto simp: custom_rep_def)
    moreover have "b0\<lparr>sb_custom_logit_processor := None, sb_custom_params := None, sb_has_custom_logit_processor := False\<rparr> = b0"
      using rep(2) False by (simp add: custom_rep_def b0_def)
    ultimately show ?thesis using False by (intro exI [of _ None] exI [of _ False]) simp
  qed
  then obtain d ps h where
    c: "(if sb_has_custom_logit_processor b then filter_custom_logit_processor keep b0 else Inr b0)
      = Inr (b0\<lparr>sb_custom_logit_processor := d, sb_custom_params := ps, sb_has_custom_logit_processor := h\<rparr>)"
      "custom_rep hsh en rows' (b0\<lparr>sb_custom_logit_processor := d, sb_custom_params := ps, sb_has_custom_logit_processor := h\<rparr>)" by blast
  define seed where "seed = (if det then Some (map (\<lambda>rh. or_default 42 (sp_sampling_seed (sr_params (fst rh)))) rows') else None)"
  have seed: "filter_opt keep (sb_sampling_seed b) = Inr seed"
    using assms(1,3) by (auto simp: samp_rep_def filter_opt_def seed_def take_rows_eq assms(4))
  have take: "take_rows keep (map (\<lambda>rh. f (fst rh)) rows) = Inr (map (\<lambda>rh. f (fst rh)) rows')" for f :: "samp_req \<Rightarrow> 'a"
    using take_rows_eq [of keep "map (\<lambda>rh. f (fst rh)) rows"] assms(3) by (simp add: assms(4))
  define b' where "b' = b0\<lparr>sb_custom_logit_processor := d, sb_custom_params := ps, sb_has_custom_logit_processor := h,
     sb_temperatures := map (\<lambda>rh. sp_temperature (sr_params (fst rh))) rows', sb_top_ps := map (\<lambda>rh. sp_top_p (sr_params (fst rh))) rows',
     sb_top_ks := map (\<lambda>rh. sp_top_k (sr_params (fst rh))) rows', sb_min_ps := map (\<lambda>rh. sp_min_p (sr_params (fst rh))) rows',
     sb_sampling_seed := seed, sb_logit_bias := m\<rparr>"
  have "sampling_filter_batch (map fst rows') keep b = Inr b'"
    unfolding sampling_filter_batch_def orch(1) rbind_simps b0_def [symmetric] c(1)
    using rep(1) m(1) seed take [of "\<lambda>r. sp_temperature (sr_params r)"] take [of "\<lambda>r. sp_top_p (sr_params r)"]
      take [of "\<lambda>r. sp_top_k (sr_params r)"] take [of "\<lambda>r. sp_min_p (sr_params r)"]
    by (simp add: sb_rep_def b'_def b0_def)
  moreover have "sb_rep V rows' b'" using rep(1) orch(2) m(2) assms(3) by (auto simp: sb_rep_def b'_def b0_def assms(4))
  moreover have "custom_rep hsh en rows' b'" using c(2) by (rule custom_rep_cong [THEN iffD1, rotated 3]) (simp_all add: b'_def)
  ultimately show ?thesis using orch(3) by (auto simp: samp_rep_def b'_def b0_def seed_def)
qed

lemma params_or_none_eq: "length ps = n \<Longrightarrow> 0 < n \<Longrightarrow> params_or_none n (Some ps) = ps"
  by (cases ps) (simp_all add: params_or_none_def)

lemma custom_params_rep:
  assumes "custom_rep hsh True rows b" "rows \<noteq> []" "ps = params_or_none (length rows) (sb_custom_params b)"
  shows "length ps = length rows"
    "i < length rows \<Longrightarrow> sr_custom_logit_processor (fst (rows ! i)) = Some s \<Longrightarrow> ps ! i = sp_custom_params (sr_params (fst (rows ! i)))"
proof -
  show "length ps = length rows"
  proof (cases "sb_has_custom_logit_processor b")
    case True
    with assms(1) obtain qs where "sb_custom_params b = Some qs" "length qs = length rows" by (auto simp: custom_rep_def)
    with assms(2,3) show ?thesis by (simp add: params_or_none_eq)
  qed (use assms in \<open>simp add: custom_rep_def params_or_none_def\<close>)
  assume i: "i < length rows" "sr_custom_logit_processor (fst (rows ! i)) = Some s"
  show "ps ! i = sp_custom_params (sr_params (fst (rows ! i)))"
  proof (cases "sb_has_custom_logit_processor b")
    case True
    with assms(1) obtain qs where "sb_custom_params b = Some qs" "length qs = length rows"
      "\<forall>i<length rows. case sr_custom_logit_processor (fst (rows ! i)) of None \<Rightarrow> True | Some s \<Rightarrow> qs ! i = sp_custom_params (sr_params (fst (rows ! i)))"
      by (auto simp: custom_rep_def split: option.splits)
    moreover from this(3) [rule_format, OF i(1)] i(2) have "qs ! i = sp_custom_params (sr_params (fst (rows ! i)))" by simp
    ultimately show ?thesis using assms(2,3) by (simp add: params_or_none_eq)
  qed (use assms(1) i in \<open>auto simp: custom_rep_def\<close>)
qed

lemma sampling_merge_rep:
  assumes "samp_rep hsh det en V rows b" "samp_rep hsh det en V rows' c" "rows \<noteq> []" "rows' \<noteq> []" "inj_on hsh P"
    "\<forall>rh\<in>set (rows @ rows'). samp_req_ok V (fst rh) \<and> proc_ok P (fst rh)"
  shows "\<exists>b' c'. sampling_merge_batch (map fst rows) (map fst rows') b c = Inr (b', c') \<and> samp_rep hsh det en V (rows @ rows') b'
     \<and> map fst (or_penalizers (sb_penalizer_orchestrator b')) = map fst (or_penalizers (sb_penalizer_orchestrator b))
     \<and> sb_acc_additive_penalties b' = sb_acc_additive_penalties b \<and> sb_acc_scaling_penalties b' = sb_acc_scaling_penalties b"
proof -
  have rep: "sb_rep V rows b" "custom_rep hsh en rows b" "sb_rep V rows' c" "custom_rep hsh en rows' c"
    using assms(1,2) by (simp_all add: samp_rep_def)
  have bs: "length (sb_temperatures b) = length rows" "length (sb_temperatures c) = length rows'" using rep by (simp_all add: sb_rep_def)
  from orch_merge_rep [of V rows "sb_penalizer_orchestrator b" rows' "sb_penalizer_orchestrator c"] rep assms(3,4,6) obtain o1 o2 where
    orch: "orch_merge (map fst rows) (map fst rows') (sb_penalizer_orchestrator b) (sb_penalizer_orchestrator c) = Inr (o1, o2)"
      "orch_rep V (rows @ rows') o1" "map fst (or_penalizers o1) = map fst (or_penalizers (sb_penalizer_orchestrator b))"
    by (auto simp: sb_rep_def)
  define b0 c0 where "b0 = b\<lparr>sb_penalizer_orchestrator := o1\<rparr>" and "c0 = c\<lparr>sb_penalizer_orchestrator := o2\<rparr>"
  define step where "step = (if sb_has_custom_logit_processor b0 \<or> sb_has_custom_logit_processor c0
      then rbind (merge_custom_logit_processor (sb_custom_logit_processor b0) (sb_custom_logit_processor c0) (length rows) (length rows')) (\<lambda>d.
           let mine = params_or_none (length rows) (sb_custom_params b0); theirs = params_or_none (length rows') (sb_custom_params c0)
           in Inr (b0\<lparr>sb_custom_logit_processor := d, sb_custom_params := Some (mine @ theirs), sb_has_custom_logit_processor := True\<rparr>,
                   c0\<lparr>sb_custom_params := Some theirs\<rparr>))
      else Inr (b0, c0))"
  have "\<exists>d ps h qs. step = Inr (b0\<lparr>sb_custom_logit_processor := d, sb_custom_params := ps, sb_has_custom_logit_processor := h\<rparr>, c0\<lparr>sb_custom_params := qs\<rparr>)
      \<and> custom_rep hsh en (rows @ rows') (b0\<lparr>sb_custom_logit_processor := d, sb_custom_params := ps, sb_has_custom_logit_processor := h\<rparr>)"
  proof (cases "sb_has_custom_logit_processor b \<or> sb_has_custom_logit_processor c")
    case True
    with rep have en: "en" by (auto simp: custom_rep_def split: if_splits)
    with rep have r: "custom_rep hsh True rows b" "custom_rep hsh True rows' c" by simp_all
    have pok: "\<forall>rh\<in>set rows. proc_ok P (fst rh)" "\<forall>rh\<in>set rows'. proc_ok P (fst rh)" using assms(6) by auto
    from merge_custom_rep [OF r assms(5) pok True] obtain d where
      d: "merge_custom_logit_processor (sb_custom_logit_processor b) (sb_custom_logit_processor c) (length rows) (length rows') = Inr (Some d)"
        "distinct (map fst d)" "\<forall>(k, p, m)\<in>set d. k = hsh p \<and> m = proc_mask (rows @ rows') p \<and> list_ex id m"
        "\<forall>rh\<in>set (rows @ rows'). \<forall>s. sr_custom_logit_processor (fst rh) = Some s \<longrightarrow> (hsh s, s, proc_mask (rows @ rows') s) \<in> set d"
      by blast
    define mine theirs where "mine = params_or_none (length rows) (sb_custom_params b)" and "theirs = params_or_none (length rows') (sb_custom_params c)"
    note ps = custom_params_rep [OF r(1) assms(3) mine_def] custom_params_rep [OF r(2) assms(4) theirs_def]
    have "case sr_custom_logit_processor (fst ((rows @ rows') ! i)) of None \<Rightarrow> True
        | Some s \<Rightarrow> (hsh s, s, proc_mask (rows @ rows') s) \<in> set d \<and> (mine @ theirs) ! i = sp_custom_params (sr_params (fst ((rows @ rows') ! i)))"
      if "i < length (rows @ rows')" for i
    proof (cases "sr_custom_logit_processor (fst ((rows @ rows') ! i))")
      case (Some s)
      with d(4) nth_mem [OF that] have "(hsh s, s, proc_mask (rows @ rows') s) \<in> set d" by blast
      moreover have "(mine @ theirs) ! i = sp_custom_params (sr_params (fst ((rows @ rows') ! i)))"
        using that Some ps by (cases "i < length rows") (auto simp: nth_append)
      ultimately show ?thesis using Some by simp
    qed simp
    with en d(2,3) ps(1,3) have "custom_rep hsh en (rows @ rows')
        (b0\<lparr>sb_custom_logit_processor := Some d, sb_custom_params := Some (mine @ theirs), sb_has_custom_logit_processor := True\<rparr>)"
      by (simp add: custom_rep_def)
    moreover have "step = Inr (b0\<lparr>sb_custom_logit_processor := Some d, sb_custom_params := Some (mine @ theirs), sb_has_custom_logit_processor := True\<rparr>,
        c0\<lparr>sb_custom_params := Some theirs\<rparr>)"
      using True d(1) by (simp add: step_def b0_def c0_def mine_def theirs_def Let_def)
    ultimately show ?thesis by blast
  next
    case False
    with rep(2,4) have "custom_rep hsh en (rows @ rows') b0" "b0\<lparr>sb_custom_logit_processor := None, sb_custom_params := None, sb_has_custom_logit_processor := False\<rparr> = b0"
      "c0\<lparr>sb_custom_params := None\<rparr> = c0" by (auto simp: custom_rep_def b0_def c0_def)
    with False show ?thesis by (intro exI [of _ None] exI [of _ False]) (simp add: step_def b0_def c0_def)
  qed
  then obtain d ps h qs where c: "step = Inr (b0\<lparr>sb_custom_logit_processor := d, sb_custom_params := ps, sb_has_custom_logit_processor := h\<rparr>, c0\<lparr>sb_custom_params := qs\<rparr>)"
    "custom_rep hsh en (rows @ rows') (b0\<lparr>sb_custom_logit_processor := d, sb_custom_params := ps, sb_has_custom_logit_processor := h\<rparr>)" by blast
  obtain b' c' where eq: "sampling_merge_batch (map fst rows) (map fst rows') b c = Inr (b', c')"
    unfolding sampling_merge_batch_def orch(1) rbind_simps prod.case Let_def bs b0_def [symmetric] c0_def [symmetric]
      step_def [unfolded Let_def, symmetric] c(1) by blast
  note B = eq [unfolded sampling_merge_batch_def orch(1) rbind_simps prod.case Let_def bs b0_def [symmetric] c0_def [symmetric]
      step_def [unfolded Let_def, symmetric] c(1) sum.inject prod.inject, THEN conjunct1, symmetric]
  have "custom_rep hsh en (rows @ rows') b'"
    using c(2) by (rule custom_rep_cong [THEN iffD1, rotated 3]) (simp_all add: B)
  moreover have "sb_rep V (rows @ rows') b'"
    using rep(1,3) orch(2) merge_bias_rep [of V rows "sb_logit_bias b" rows' "sb_logit_bias c"] assms(3,4)
    unfolding sb_rep_def by (simp add: B b0_def c0_def ball_Un)
  moreover have "sb_sampling_seed b' = merge_opt (sb_sampling_seed b) (sb_sampling_seed c)" "sb_penalizer_orchestrator b' = o1"
    "sb_acc_additive_penalties b' = sb_acc_additive_penalties b" "sb_acc_scaling_penalties b' = sb_acc_scaling_penalties b"
    by (simp_all add: B b0_def c0_def)
  ultimately show ?thesis using eq orch(3) assms(1,2) by (simp add: samp_rep_def merge_opt_def)
qed

end
