(* ===== verification/Sampling_Props.thy ===== *)
theory Sampling_Props
  imports Sampling_Runs
begin

text \<open>
  Runs of the sampling state and the properties of its forward passes: every request is sampled
  as if it were alone in the batch, in the direct mode in the order of the penalizers, in the
  overlap mode in one fixed order.
\<close>

section \<open>Runs\<close>

text \<open>The step of \<open>prepare_for_decode\<close>: the last tokens are fed to the penalizers when one is required.\<close>

definition sampling_decode :: "int list \<Rightarrow> sampling_batch \<Rightarrow> sampling_batch res" where
  "sampling_decode output_ids b =
     (if or_is_required (sb_penalizer_orchestrator b)
      then rbind (orch_cumulate output_ids (sb_penalizer_orchestrator b)) (\<lambda>orch. Inr (b\<lparr>sb_penalizer_orchestrator := orch\<rparr>))
      else Inr b)"

inductive sampling_run :: "(string \<Rightarrow> int) \<Rightarrow> bool \<Rightarrow> bool \<Rightarrow> nat \<Rightarrow> string set \<Rightarrow> samp_row list \<Rightarrow> sampling_batch \<Rightarrow> bool"
  for hsh det en V P where
  start: "reqs \<noteq> [] \<Longrightarrow> \<forall>r\<in>set reqs. samp_req_ok V r \<and> proc_ok P r \<Longrightarrow> all_kinds order
    \<Longrightarrow> from_schedule_batch hsh order det en reqs V = Inr b \<Longrightarrow> sampling_run hsh det en V P (fresh_rows reqs) b"
| decode: "sampling_run hsh det en V P rows b \<Longrightarrow> length toks = length rows \<Longrightarrow> \<forall>t\<in>set toks. 0 \<le> t \<and> t < int V
    \<Longrightarrow> sampling_decode toks b = Inr b' \<Longrightarrow> sampling_run hsh det en V P (feed rows toks) b'"
| keep: "sampling_run hsh det en V P rows b \<Longrightarrow> keep \<noteq> [] \<Longrightarrow> \<forall>i\<in>set keep. i < length rows
    \<Longrightarrow> sampling_filter_batch (map fst (map ((!) rows) keep)) keep b = Inr b' \<Longrightarrow> sampling_run hsh det en V P (map ((!) rows) keep) b'"
| join: "sampling_run hsh det en V P rows b \<Longrightarrow> sampling_run hsh det en V P rows' c
    \<Longrightarrow> sampling_merge_batch (map fst rows) (map fst rows') b c = Inr (b', c') \<Longrightarrow> sampling_run hsh det en V P (rows @ rows') b'"

lemma sampling_decode_rep:
  assumes "samp_rep hsh det en V rows b" "length toks = length rows" "\<forall>t\<in>set toks. 0 \<le> t \<and> t < int V"
  shows "\<exists>b'. sampling_decode toks b = Inr b' \<and> samp_rep hsh det en V (feed rows toks) b'
     \<and> sb_acc_additive_penalties b' = sb_acc_additive_penalties b \<and> sb_acc_scaling_penalties b' = sb_acc_scaling_penalties b"
proof -
  have orch: "orch_rep V rows (sb_penalizer_orchestrator b)" using assms(1) by (simp add: samp_rep_def sb_rep_def)
  have "\<exists>orch'. (if or_is_required (sb_penalizer_orchestrator b) then orch_cumulate toks (sb_penalizer_orchestrator b) else Inr (sb_penalizer_orchestrator b))
      = Inr orch' \<and> orch_rep V (feed rows toks) orch'"
  proof (cases "or_is_required (sb_penalizer_orchestrator b)")
    case False
    then have none: "\<not> penalizer_is_required k (map fst rows)" for k using orch by (auto simp: orch_rep_def)
    have "pen_rep V (feed rows toks) k p" if "(k, p) \<in> set (or_penalizers (sb_penalizer_orchestrator b))" for k p
      using orch_repD [OF orch that] none by (cases p) (auto simp: pen_rep_def map_fst_feed [OF assms(2)])
    with False orch show ?thesis by (auto simp: orch_rep_def map_fst_feed [OF assms(2)])
  qed (use orch_cumulate_rep [OF orch assms(2,3)] in auto)
  then obtain orch' where o: "(if or_is_required (sb_penalizer_orchestrator b) then orch_cumulate toks (sb_penalizer_orchestrator b) else Inr (sb_penalizer_orchestrator b))
      = Inr orch'" "orch_rep V (feed rows toks) orch'" by blast
  define b' where "b' = b\<lparr>sb_penalizer_orchestrator := orch'\<rparr>"
  have len: "length (feed rows toks) = length rows" using assms(2) by (simp add: feed_def)
  have fst_nth: "fst (feed rows toks ! i) = fst (rows ! i)" if "i < length rows" for i
    using that assms(2) by (simp add: feed_def split: prod.splits)
  have set_feed: "(\<forall>rh\<in>set (feed rows toks). Q (fst rh)) = (\<forall>rh\<in>set rows. Q (fst rh))" for Q
    using map_fst_feed [OF assms(2)] by (metis (no_types, lifting) image_iff list.set_map)
  have mask: "proc_mask (feed rows toks) p = proc_mask rows p" for p
    unfolding proc_mask_def by (rule map_feed_fst [OF assms(2)])
  have "sampling_decode toks b = Inr b'" using o(1) by (auto simp: sampling_decode_def b'_def split: if_splits)
  moreover have "custom_rep hsh en (feed rows toks) b'"
  proof -
    have "custom_rep hsh en rows b" using assms(1) by (simp add: samp_rep_def)
    then have "custom_rep hsh en rows b'" by (rule custom_rep_cong [THEN iffD1, rotated 3]) (simp_all add: b'_def)
    moreover have "custom_rep hsh en (feed rows toks) b' = custom_rep hsh en rows b'"
      unfolding custom_rep_def len mask using fst_nth set_feed [of "\<lambda>r. sr_custom_logit_processor r = None"]
      by (simp cong: option.case_cong)
    ultimately show ?thesis by simp
  qed
  moreover have "sb_rep V (feed rows toks) b'"
  proof -
    have "bias_rep V (feed rows toks) (sb_logit_bias b)"
      using assms(1) set_feed [of "\<lambda>r. sp_logit_bias (sr_params r) = None"] map_feed_fst [OF assms(2), of "\<lambda>r. map (bias_of V r) [0..<V]"]
      by (simp add: samp_rep_def sb_rep_def bias_rep_def split: option.splits)
    moreover note fields = map_feed_fst [OF assms(2), of "\<lambda>r. sp_temperature (sr_params r)"] map_feed_fst [OF assms(2), of "\<lambda>r. sp_top_p (sr_params r)"]
      map_feed_fst [OF assms(2), of "\<lambda>r. sp_top_k (sr_params r)"] map_feed_fst [OF assms(2), of "\<lambda>r. sp_min_p (sr_params r)"]
      set_feed [of "\<lambda>r. sp_top_k (sr_params r) \<le> 1"] set_feed [of "\<lambda>r. sp_top_p (sr_params r) = 1"]
      set_feed [of "\<lambda>r. sp_top_k (sr_params r) = TOP_K_ALL"] set_feed [of "\<lambda>r. sp_min_p (sr_params r) \<le> 0"]
    ultimately show ?thesis using assms(1) o(2) unfolding samp_rep_def sb_rep_def fields by (simp add: b'_def)
  qed
  moreover have "sb_sampling_seed b' = (if det then Some (map (\<lambda>rh. or_default 42 (sp_sampling_seed (sr_params (fst rh)))) (feed rows toks)) else None)"
    using assms(1) map_feed_fst [OF assms(2), of "\<lambda>r. or_default 42 (sp_sampling_seed (sr_params r))"] by (simp add: samp_rep_def b'_def)
  ultimately show ?thesis by (simp add: samp_rep_def b'_def)
qed

lemma sampling_run_rep:
  assumes "sampling_run hsh det en V P rows b" "inj_on hsh P"
  shows "samp_rep hsh det en V rows b \<and> rows \<noteq> [] \<and> (\<forall>rh\<in>set rows. samp_req_ok V (fst rh) \<and> proc_ok P (fst rh))
     \<and> sb_acc_additive_penalties b = None \<and> sb_acc_scaling_penalties b = None"
  using assms(1)
proof induction
  case (start reqs order b)
  from from_schedule_batch_rep [OF start(1,2,3) assms(2), of det en] start(4) have
    "samp_rep hsh det en V (fresh_rows reqs) b" "sb_acc_additive_penalties b = None" "sb_acc_scaling_penalties b = None" by simp_all
  moreover have "fresh_rows reqs \<noteq> []" using start(1) by (simp add: fresh_rows_def)
  ultimately show ?case using start(2) by simp
next
  case (decode rows b toks b')
  have "(\<forall>rh\<in>set (feed rows toks). Q (fst rh)) = (\<forall>rh\<in>set rows. Q (fst rh))" for Q
    using map_fst_feed [OF decode.hyps(2)] by (metis (no_types, lifting) image_iff list.set_map)
  moreover have "feed rows toks \<noteq> []" using decode by (cases rows; cases toks) (auto simp: feed_def)
  ultimately show ?case using decode sampling_decode_rep [of hsh det en V rows b toks] by auto
next
  case (keep rows b ks b')
  with sampling_filter_rep [of hsh det en V rows b ks] show ?case by auto
next
  case (join rows b rows' c b' c')
  with sampling_merge_rep [of hsh det en V rows b rows' c P] assms(2) show ?case by auto
qed

section \<open>Forward passes\<close>

definition logits_ok :: "nat \<Rightarrow> samp_row list \<Rightarrow> xfloat matrix \<Rightarrow> bool" where
  "logits_ok V rows logits = (length logits = length rows \<and> (\<forall>row\<in>set logits. length row = V))"

lemma logits_ok_map2:
  assumes "logits_ok V rows logits"
  shows "logits_ok V rows (map2 (\<lambda>rh. map2 (f rh) [0..<V]) rows logits)"
  using assms by (auto simp: logits_ok_def set_zip)

lemma map2_rows_cong:
  assumes "\<And>rh t x. rh \<in> set rows \<Longrightarrow> t < V \<Longrightarrow> f rh t x = g rh t x"
  shows "map2 (\<lambda>rh. map2 (f rh) [0..<V]) rows logits = map2 (\<lambda>rh. map2 (g rh) [0..<V]) rows logits"
  using assms by (intro nth_equalityI) (auto intro!: nth_equalityI)

lemma map2_rows_comp:
  "map2 (\<lambda>rh. map2 (g rh) [0..<V]) rows (map2 (\<lambda>rh. map2 (f rh) [0..<V]) rows logits)
    = map2 (\<lambda>rh. map2 (\<lambda>t x. g rh t (f rh t x)) [0..<V]) rows logits"
  by (intro nth_equalityI) (auto intro!: nth_equalityI)

lemma map2_rows_id:
  assumes "logits_ok V rows logits"
  shows "map2 (\<lambda>rh. map2 (\<lambda>t x. x) [0..<V]) rows logits = logits"
  using assms by (intro nth_equalityI) (auto simp: logits_ok_def intro!: nth_equalityI)

lemma map2_rows_same:
  assumes "logits_ok V rows logits" "\<And>rh t x. rh \<in> set rows \<Longrightarrow> t < V \<Longrightarrow> f rh t x = x"
  shows "map2 (\<lambda>rh. map2 (f rh) [0..<V]) rows logits = logits"
proof -
  have "map2 (\<lambda>rh. map2 (f rh) [0..<V]) rows logits = map2 (\<lambda>rh. map2 (\<lambda>t x. x) [0..<V]) rows logits"
    using assms(2) by (rule map2_rows_cong)
  then show ?thesis using map2_rows_id [OF assms(1)] by (rule trans)
qed

lemma apply_penalizers_rep:
  assumes "\<forall>(k, p)\<in>set ps. pen_rep V rows k p" "logits_ok V rows logits"
  shows "apply_penalizers ps logits = Inr (map2 (\<lambda>rh. map2 (\<lambda>t. fold (\<lambda>k. pen_logit k rh t) (map fst ps)) [0..<V]) rows logits)"
  using assms
proof (induction ps arbitrary: logits)
  case Nil
  then show ?case using map2_rows_id [OF Nil(2)] by (simp add: id_def)
next
  case (Cons kp ps)
  obtain k p where kp: "kp = (k, p)" by (cases kp)
  define l1 where "l1 = map2 (\<lambda>rh. map2 (pen_logit k rh) [0..<V]) rows logits"
  have rep: "pen_rep V rows k p" using Cons.prems(1) kp by simp
  have "apply_penalizers (kp # ps) logits = apply_penalizers ps l1"
  proof (cases p)
    case None
    then have "pen_logit k rh t x = x" if "rh \<in> set rows" for rh t x
      using rep not_required_rows [OF _ that, of k] by (intro pen_logit_not_required) (simp add: pen_rep_def)
    then have "l1 = logits" unfolding l1_def by (rule map2_rows_same [OF Cons.prems(2)])
    with None show ?thesis by (simp add: kp)
  next
    case (Some st)
    with rep have "state_rep k V rows st" by (simp add: pen_rep_def)
    from apply_state_rep [OF this] Cons.prems(2) have "apply_state k logits st = Inr l1" by (simp add: logits_ok_def l1_def)
    with Some show ?thesis by (simp add: kp)
  qed
  also have "\<dots> = Inr (map2 (\<lambda>rh. map2 (\<lambda>t. fold (\<lambda>k. pen_logit k rh t) (map fst ps)) [0..<V]) rows l1)"
    using Cons.prems by (intro Cons.IH) (auto simp: l1_def logits_ok_map2)
  finally show ?case unfolding l1_def map2_rows_comp by (simp add: kp o_def)
qed

lemma apply_bias_rep:
  assumes "bias_rep V rows m" "logits_ok V rows logits"
  shows "(case m of None \<Rightarrow> Inr logits | Some b \<Rightarrow> elementwise (\<lambda>x v. fadd x (Fin v)) logits b)
    = Inr (map2 (\<lambda>rh. map2 (\<lambda>t x. fadd x (Fin (bias_of V (fst rh) t))) [0..<V]) rows logits)"
proof (cases m)
  case None
  with assms(1) have "fadd x (Fin (bias_of V (fst rh) t)) = x" if "rh \<in> set rows" "t < V" for rh t x
    using that by (simp add: bias_rep_def no_bias)
  then have "map2 (\<lambda>rh. map2 (\<lambda>t x. fadd x (Fin (bias_of V (fst rh) t))) [0..<V]) rows logits = logits"
    by (rule map2_rows_same [OF assms(2)])
  with None show ?thesis by simp
next
  case (Some b)
  then have b: "b = map (\<lambda>rh. map (bias_of V (fst rh)) [0..<V]) rows" using assms(1) by (simp add: bias_rep_def)
  have "elementwise (\<lambda>x v. fadd x (Fin v)) logits b = Inr (map2 (map2 (\<lambda>x v. fadd x (Fin v))) logits b)"
    using assms(2) by (intro elementwise_eq) (auto simp: b logits_ok_def)
  also have "map2 (map2 (\<lambda>x v. fadd x (Fin v))) logits b = map2 (\<lambda>rh. map2 (\<lambda>t x. fadd x (Fin (bias_of V (fst rh) t))) [0..<V]) rows logits"
    using assms(2) by (intro nth_equalityI) (auto simp: b logits_ok_def intro!: nth_equalityI)
  finally show ?thesis using Some by simp
qed

lemma direct_pass_eq:
  assumes "sampling_run hsh det en V P rows b" "inj_on hsh P" "logits_ok V rows logits"
  shows "apply_logits_bias True None b logits
       = Inr (map2 (row_logits (map fst (or_penalizers (sb_penalizer_orchestrator b))) V) rows logits)"
proof -
  from sampling_run_rep [OF assms(1,2)] have rep: "sb_rep V rows b" and acc: "sb_acc_additive_penalties b = None" "sb_acc_scaling_penalties b = None" by (simp_all add: samp_rep_def)
  define orch where "orch = sb_penalizer_orchestrator b"
  have orch: "orch_rep V rows orch" and bias: "bias_rep V rows (sb_logit_bias b)" using rep by (simp_all add: sb_rep_def orch_def)
  define l where "l = map2 (\<lambda>rh. map2 (\<lambda>t. fold (\<lambda>k. pen_logit k rh t) (map fst (or_penalizers orch))) [0..<V]) rows logits"
  have app: "apply_penalizers (or_penalizers orch) logits = Inr l"
    unfolding l_def using orch assms(3) by (intro apply_penalizers_rep) (auto simp: orch_rep_def)
  have skip: "l = logits" if "\<not> or_is_required orch"
  proof -
    have "fold (\<lambda>k. pen_logit k rh t) ks x = x" if "rh \<in> set rows" for rh t x ks
    proof (induction ks arbitrary: x)
      case (Cons k ks)
      have "\<not> penalizer_is_required k (map fst rows)" using \<open>\<not> or_is_required orch\<close> orch by (auto simp: orch_rep_def)
      with Cons show ?case using that by (simp add: pen_logit_not_required not_required_rows)
    qed simp
    then show ?thesis unfolding l_def by (rule map2_rows_same [OF assms(3)])
  qed
  have "apply_logits_bias True None b logits = (case sb_logit_bias b of None \<Rightarrow> Inr l | Some m \<Rightarrow> elementwise (\<lambda>x v. fadd x (Fin v)) l m)"
    using app skip by (cases "or_is_required orch") (simp_all add: apply_logits_bias_def acc orch_apply_def orch_def split: option.splits)
  also have "\<dots> = Inr (map2 (\<lambda>rh. map2 (\<lambda>t x. fadd x (Fin (bias_of V (fst rh) t))) [0..<V]) rows l)"
    unfolding l_def using bias assms(3) by (intro apply_bias_rep logits_ok_map2)
  also have "map2 (\<lambda>rh. map2 (\<lambda>t x. fadd x (Fin (bias_of V (fst rh) t))) [0..<V]) rows l
      = map2 (row_logits (map fst (or_penalizers (sb_penalizer_orchestrator b))) V) rows logits"
    unfolding l_def map2_rows_comp by (simp add: row_logits_def [abs_def] orch_def)
  finally show ?thesis .
qed

text \<open>
  C23: Every request is sampled as if it were alone. After any sequence of construction, decoding,
  filtering and merging of batches, the parameters of every row are those of its request, and a
  forward pass gives the row exactly the penalties of the tokens this request was fed and its own
  bias, whatever the other requests of the batch are.
\<close>

theorem sampling_rows_independent:
  assumes "sampling_run hsh det en V P rows b" "inj_on hsh P" "logits_ok V rows logits"
  shows "apply_logits_bias True None b logits
       = Inr (map2 (row_logits (map fst (or_penalizers (sb_penalizer_orchestrator b))) V) rows logits)
     \<and> sb_temperatures b = map (\<lambda>rh. sp_temperature (sr_params (fst rh))) rows
     \<and> sb_top_ps b = map (\<lambda>rh. sp_top_p (sr_params (fst rh))) rows
     \<and> sb_top_ks b = map (\<lambda>rh. sp_top_k (sr_params (fst rh))) rows
     \<and> sb_min_ps b = map (\<lambda>rh. sp_min_p (sr_params (fst rh))) rows
     \<and> (\<forall>(k, p, msk)\<in>set (or_default [] (sb_custom_logit_processor b)). msk = map (\<lambda>rh. sr_custom_logit_processor (fst rh) = Some p) rows)"
proof -
  from sampling_run_rep [OF assms(1,2)] have rep: "sb_rep V rows b" "custom_rep hsh en rows b" by (simp_all add: samp_rep_def)
  have "\<forall>(k, p, msk)\<in>set (or_default [] (sb_custom_logit_processor b)). msk = map (\<lambda>rh. sr_custom_logit_processor (fst rh) = Some p) rows"
    using rep(2) by (fastforce simp: custom_rep_def or_default_def proc_mask_def split: if_splits)
  with direct_pass_eq [OF assms] show ?thesis using rep(1) by (simp add: sb_rep_def)
qed

section \<open>The overlap mode\<close>

text \<open>
  In the overlap mode the additive penalties are accumulated beforehand, then the scaling ones:
  what one request gets does not mention an order.
\<close>

definition additive_pen :: "samp_row \<Rightarrow> nat \<Rightarrow> xfloat" where
  "additive_pen rh t =
     (if int (length (snd rh)) < sp_min_new_tokens (sr_params (fst rh)) \<and> int t \<in> set (stop_token_set (fst rh)) then NInf
      else Fin (- cum_pen FrequencyPenalizer rh t - cum_pen PresencePenalizer rh t))"

definition overlap_logits :: "nat \<Rightarrow> samp_row \<Rightarrow> xfloat list \<Rightarrow> xfloat list" where
  "overlap_logits V rh xs =
     map2 (\<lambda>t x. fadd (scale_logit (fadd x (additive_pen rh t)) (cum_pen RepetitionPenalizer rh t)) (Fin (bias_of V (fst rh) t))) [0..<V] xs"

lemma fold_additive_NInf: "RepetitionPenalizer \<notin> set ks \<Longrightarrow> fold (\<lambda>k. pen_logit k rh t) ks NInf = NInf"
proof (induction ks)
  case (Cons k ks)
  then show ?case by (cases k) (auto simp: fsub_def stop_pen_def)
qed simp

lemma fold_additive:
  assumes "distinct ks" "RepetitionPenalizer \<notin> set ks"
  shows "fold (\<lambda>k. pen_logit k rh t) ks (Fin a) =
     (if MinNewTokensPenalizer \<in> set ks \<and> int (length (snd rh)) < sp_min_new_tokens (sr_params (fst rh)) \<and> int t \<in> set (stop_token_set (fst rh)) then NInf
      else Fin (a - (if FrequencyPenalizer \<in> set ks then cum_pen FrequencyPenalizer rh t else 0)
                  - (if PresencePenalizer \<in> set ks then cum_pen PresencePenalizer rh t else 0)))"
  using assms
proof (induction ks arbitrary: a)
  case (Cons k ks)
  then show ?case by (cases k) (auto simp: fsub_def stop_pen_def fold_additive_NInf)
qed simp

lemma additive_order_irrelevant:
  assumes "all_kinds ord"
  shows "fold (\<lambda>k. pen_logit k rh t) (filter (\<lambda>k. \<not> is_multiplicative k) ord) (Fin 0) = additive_pen rh t"
proof -
  have "set (filter (\<lambda>k. \<not> is_multiplicative k) ord) = {FrequencyPenalizer, MinNewTokensPenalizer, PresencePenalizer}"
  proof -
    have "(\<not> is_multiplicative k) = (k \<in> {FrequencyPenalizer, MinNewTokensPenalizer, PresencePenalizer})" for k by (cases k) simp_all
    with assms show ?thesis by (auto simp: all_kinds_def)
  qed
  moreover have "distinct (filter (\<lambda>k. \<not> is_multiplicative k) ord)" using assms by (simp add: all_kinds_def)
  ultimately show ?thesis by (subst fold_additive) (simp_all add: additive_pen_def)
qed

lemma scaling_loop_eq:
  assumes "distinct (map fst ps)"
  shows "scaling_loop ps None = Inr (case map_of ps RepetitionPenalizer of Some (Some st) \<Rightarrow> Some (cu_cumulated st) | _ \<Rightarrow> None)"
  using assms
proof (induction ps)
  case (Cons kp ps)
  obtain k p where kp: "kp = (k, p)" by (cases kp)
  have fixed: "scaling_loop qs (Some m) = Inr (Some m)" if "RepetitionPenalizer \<notin> set (map fst qs)" for qs m
    using that
  proof (induction qs)
    case (Cons q qs)
    then show ?case by (cases q; cases "fst q") (auto split: option.splits)
  qed simp
  show ?case
  proof (cases "is_multiplicative k")
    case True
    then have k: "k = RepetitionPenalizer" by (cases k) simp_all
    with Cons.prems kp have rest: "RepetitionPenalizer \<notin> set (map fst ps)" by simp
    then have "map_of ps RepetitionPenalizer = None" by (simp add: map_of_eq_None_iff)
    with Cons kp k rest fixed show ?thesis by (cases p) simp_all
  next
    case False
    then have "k \<noteq> RepetitionPenalizer" by (cases k) simp_all
    with False Cons kp show ?thesis by (cases p) simp_all
  qed
qed simp

lemma elementwise_rows:
  assumes "logits_ok V rows logits"
  shows "elementwise f logits (map (\<lambda>rh. map (c rh) [0..<V]) rows) = Inr (map2 (\<lambda>rh. map2 (\<lambda>t x. f x (c rh t)) [0..<V]) rows logits)"
proof -
  have "elementwise f logits (map (\<lambda>rh. map (c rh) [0..<V]) rows) = Inr (map2 (map2 f) logits (map (\<lambda>rh. map (c rh) [0..<V]) rows))"
    using assms by (intro elementwise_eq) (auto simp: logits_ok_def)
  also have "map2 (map2 f) logits (map (\<lambda>rh. map (c rh) [0..<V]) rows) = map2 (\<lambda>rh. map2 (\<lambda>t x. f x (c rh t)) [0..<V]) rows logits"
    using assms by (intro nth_equalityI) (auto simp: logits_ok_def intro!: nth_equalityI)
  finally show ?thesis .
qed

lemma additive_rep:
  assumes "orch_rep V rows orch"
  shows "accumulate_additive_penalties orch (replicate (length rows) (replicate V (Fin 0))) = Inr (map (\<lambda>rh. map (additive_pen rh) [0..<V]) rows)"
proof -
  define zeros where "zeros = replicate (length rows) (replicate V (Fin 0))"
  define ps where "ps = filter (\<lambda>(k, _). \<not> is_multiplicative k) (or_penalizers orch)"
  have ok: "logits_ok V rows zeros" by (simp add: logits_ok_def zeros_def)
  have keys: "map fst ps = filter (\<lambda>k. \<not> is_multiplicative k) (map fst (or_penalizers orch))"
    by (simp add: ps_def filter_map o_def case_prod_unfold)
  have "apply_penalizers ps zeros = Inr (map2 (\<lambda>rh. map2 (\<lambda>t. fold (\<lambda>k. pen_logit k rh t) (map fst ps)) [0..<V]) rows zeros)"
    using assms ok by (intro apply_penalizers_rep) (auto simp: orch_rep_def ps_def)
  also have "map2 (\<lambda>rh. map2 (\<lambda>t. fold (\<lambda>k. pen_logit k rh t) (map fst ps)) [0..<V]) rows zeros = map (\<lambda>rh. map (additive_pen rh) [0..<V]) rows"
  proof -
    have "fold (\<lambda>k. pen_logit k rh t) (map fst ps) (Fin 0) = additive_pen rh t" for rh t
      unfolding keys using assms by (intro additive_order_irrelevant) (simp add: orch_rep_def)
    then show ?thesis by (intro nth_equalityI) (auto simp: zeros_def intro!: nth_equalityI)
  qed
  finally show ?thesis by (simp add: accumulate_additive_penalties_def ps_def zeros_def)
qed

lemma scaling_rep:
  assumes "orch_rep V rows orch" "logits_ok V rows logits"
  shows "rbind (accumulate_scaling_penalties orch) (\<lambda>acc. case acc of None \<Rightarrow> Inr logits | Some m \<Rightarrow> apply_scaling_penalties logits m)
    = Inr (map2 (\<lambda>rh. map2 (\<lambda>t x. scale_logit x (cum_pen RepetitionPenalizer rh t)) [0..<V]) rows logits)"
    and "\<exists>acc. accumulate_scaling_penalties orch = Inr acc"
proof -
  have kinds: "all_kinds (map fst (or_penalizers orch))" using assms(1) by (simp add: orch_rep_def)
  from all_kinds_mem [OF this] obtain p where p: "(RepetitionPenalizer, p) \<in> set (or_penalizers orch)" by blast
  with kinds have "map_of (or_penalizers orch) RepetitionPenalizer = Some p" by (simp add: all_kinds_def)
  with scaling_loop_eq [of "or_penalizers orch"] kinds have
    acc: "accumulate_scaling_penalties orch = Inr (map_option cu_cumulated p)"
    by (auto simp: accumulate_scaling_penalties_def all_kinds_def split: option.splits)
  then show "\<exists>acc. accumulate_scaling_penalties orch = Inr acc" by simp
  note rep = orch_repD [OF assms(1) p]
  show "rbind (accumulate_scaling_penalties orch) (\<lambda>acc. case acc of None \<Rightarrow> Inr logits | Some m \<Rightarrow> apply_scaling_penalties logits m)
    = Inr (map2 (\<lambda>rh. map2 (\<lambda>t x. scale_logit x (cum_pen RepetitionPenalizer rh t)) [0..<V]) rows logits)"
  proof (cases p)
    case None
    with rep have "\<not> req_requires RepetitionPenalizer (fst rh)" if "rh \<in> set rows" for rh
      using that not_required_rows by (auto simp: pen_rep_def penalizer_is_required_def list_ex_iff)
    then have "scale_logit x (cum_pen RepetitionPenalizer rh t) = x" if "rh \<in> set rows" for rh t x
      using that pen_logit_not_required [of RepetitionPenalizer rh t x] by simp
    then have "map2 (\<lambda>rh. map2 (\<lambda>t x. scale_logit x (cum_pen RepetitionPenalizer rh t)) [0..<V]) rows logits = logits"
      by (rule map2_rows_same [OF assms(2)])
    with None acc show ?thesis by simp
  next
    case (Some st)
    with rep have "cu_cumulated st = map (\<lambda>rh. map (cum_pen RepetitionPenalizer rh) [0..<V]) rows"
      by (cases st) (simp_all add: pen_rep_def)
    with Some acc show ?thesis by (simp add: apply_scaling_penalties_def elementwise_rows [OF assms(2)])
  qed
qed

text \<open>
  C24: In the overlap mode the penalties of a request do not depend on the order in which the
  penalizers are kept: the additive ones are applied first and the repetition factor to the sum,
  and every row gets what its own request and tokens give.
\<close>

theorem overlap_penalties_order_free:
  assumes "sampling_run hsh det en V P rows b" "inj_on hsh P" "logits_ok V rows logits"
  shows "\<exists>b'. copy_for_forward b = Inr (b', b') \<and> apply_logits_bias False None b' logits = Inr (map2 (overlap_logits V) rows logits)"
proof -
  from sampling_run_rep [OF assms(1,2)] have rep: "sb_rep V rows b" by (simp add: samp_rep_def)
  define orch where "orch = sb_penalizer_orchestrator b"
  have orch: "orch_rep V rows orch" and bias: "bias_rep V rows (sb_logit_bias b)" and sizes: "length (sb_temperatures b) = length rows" "sb_vocab_size b = V"
    using rep by (simp_all add: sb_rep_def orch_def)
  define l1 where "l1 = map2 (\<lambda>rh. map2 (\<lambda>t x. fadd x (additive_pen rh t)) [0..<V]) rows logits"
  define l2 where "l2 = map2 (\<lambda>rh. map2 (\<lambda>t x. scale_logit x (cum_pen RepetitionPenalizer rh t)) [0..<V]) rows l1"
  have ok: "logits_ok V rows l1" "logits_ok V rows l2" unfolding l1_def l2_def using assms(3) by (simp_all add: logits_ok_map2)
  have final: "(case sb_logit_bias b of None \<Rightarrow> Inr l2 | Some m \<Rightarrow> elementwise (\<lambda>x v. fadd x (Fin v)) l2 m) = Inr (map2 (overlap_logits V) rows logits)"
    unfolding apply_bias_rep [OF bias ok(2)] unfolding l2_def l1_def map2_rows_comp by (simp add: overlap_logits_def [abs_def])
  show ?thesis
  proof (cases "or_is_required orch")
    case True
    obtain acc where acc: "accumulate_scaling_penalties orch = Inr acc" using scaling_rep(2) [OF orch ok(1)] by blast
    define b' where "b' = b\<lparr>sb_acc_additive_penalties := Some (map (\<lambda>rh. map (additive_pen rh) [0..<V]) rows), sb_acc_scaling_penalties := acc\<rparr>"
    have "copy_for_forward b = Inr (b', b')"
      using True additive_rep [OF orch] acc by (simp add: copy_for_forward_def update_penalties_def sizes b'_def orch_def)
    moreover have "apply_logits_bias False None b' logits = Inr (map2 (overlap_logits V) rows logits)"
      using final scaling_rep(1) [OF orch ok(1)] acc elementwise_rows [OF assms(3), of fadd additive_pen]
      by (simp add: apply_logits_bias_def b'_def l1_def [symmetric] l2_def [symmetric])
    ultimately show ?thesis by blast
  next
    case False
    define b' where "b' = b\<lparr>sb_acc_additive_penalties := None, sb_acc_scaling_penalties := None\<rparr>"
    have none: "\<not> req_requires k (fst rh)" if "rh \<in> set rows" for k rh
      using False orch that not_required_rows [OF _ that] by (auto simp: orch_rep_def)
    have "scale_logit (fadd x (additive_pen rh t)) (cum_pen RepetitionPenalizer rh t) = x" if "rh \<in> set rows" for rh t x
      using none [OF that, of FrequencyPenalizer] none [OF that, of PresencePenalizer] none [OF that, of RepetitionPenalizer]
        none [OF that, of MinNewTokensPenalizer] by (cases rh) (simp add: additive_pen_def)
    then have "l2 = logits" unfolding l2_def l1_def map2_rows_comp by (rule map2_rows_same [OF assms(3)])
    then have "apply_logits_bias False None b' logits = Inr (map2 (overlap_logits V) rows logits)"
      using final by (simp add: apply_logits_bias_def b'_def split: option.splits)
    moreover have "copy_for_forward b = Inr (b', b')" using False by (simp add: copy_for_forward_def update_penalties_def b'_def orch_def)
    ultimately show ?thesis by blast
  qed
qed

section \<open>A sample run\<close>

definition sample_samp_req :: samp_req where
  "sample_samp_req =
     \<lparr>sr_params = (finite_params (sampling_params_init sample_args))\<lparr>sp_frequency_penalty := 1, sp_repetition_penalty := 2,
        sp_min_new_tokens := 0, sp_logit_bias := None, sp_stop_strs := ManyStr [], sp_stop_regex_strs := ManyStr []\<rparr>,
      sr_eos_token_id = 1, sr_additional_stop_token_ids = None, sr_custom_logit_processor = None\<rparr>"

lemma sample_samp_req_fields [simp]:
  "sp_frequency_penalty (sr_params sample_samp_req) = 1" "sp_repetition_penalty (sr_params sample_samp_req) = 2"
  "sp_presence_penalty (sr_params sample_samp_req) = 0" "sp_min_new_tokens (sr_params sample_samp_req) = 0"
  "sp_logit_bias (sr_params sample_samp_req) = None" "sr_custom_logit_processor sample_samp_req = None"
  "sp_top_k (sr_params sample_samp_req) = 1" "sp_temperature (sr_params sample_samp_req) = 1"
  "sp_stop_token_ids (sr_params sample_samp_req) = Some [2]" "sr_eos_token_id sample_samp_req = 1" "sr_additional_stop_token_ids sample_samp_req = None"
  "sp_stop_strs (sr_params sample_samp_req) = ManyStr []" "sp_stop_regex_strs (sr_params sample_samp_req) = ManyStr []"
  by (simp_all add: sample_samp_req_def finite_params_def sampling_params_init_def special_cases_def sample_args_def or_default_def SAMPLING_EPS_def
      stop_ids_def map_filter_def Let_def)

lemma sample_req_ok: "samp_req_ok 2 sample_samp_req" "proc_ok {} sample_samp_req"
  by (simp_all add: samp_req_ok_def stop_token_set_def or_default_def bias_row_def proc_ok_def)

definition order1 :: "penalizer_kind list" where
  "order1 = [FrequencyPenalizer, MinNewTokensPenalizer, PresencePenalizer, RepetitionPenalizer]"

definition order2 :: "penalizer_kind list" where
  "order2 = [RepetitionPenalizer, FrequencyPenalizer, MinNewTokensPenalizer, PresencePenalizer]"

lemma sample_orders: "all_kinds order1" "all_kinds order2"
proof -
  have "UNIV = {FrequencyPenalizer, MinNewTokensPenalizer, PresencePenalizer, RepetitionPenalizer}"
    using penalizer_kind.exhaust by blast
  then show "all_kinds order1" "all_kinds order2" by (auto simp: all_kinds_def order1_def order2_def)
qed

text \<open>A batch of one request that is fed one token.\<close>

lemma sample_sampling_run:
  assumes "all_kinds order"
  shows "\<exists>b0 b. from_schedule_batch hsh order False False [sample_samp_req] 2 = Inr b0 \<and> sampling_decode [0] b0 = Inr b
     \<and> sampling_run hsh False False 2 {} [(sample_samp_req, [0])] b \<and> map fst (or_penalizers (sb_penalizer_orchestrator b)) = order"
proof -
  have ok: "\<forall>r\<in>set [sample_samp_req]. samp_req_ok 2 r \<and> proc_ok {} r" by (simp add: sample_req_ok)
  from from_schedule_batch_rep [OF _ ok assms, of hsh False False] obtain b0 where
    b0: "from_schedule_batch hsh order False False [sample_samp_req] 2 = Inr b0" "samp_rep hsh False False 2 (fresh_rows [sample_samp_req]) b0"
      "map fst (or_penalizers (sb_penalizer_orchestrator b0)) = order" by auto
  have run: "sampling_run hsh False False 2 {} (fresh_rows [sample_samp_req]) b0"
    using ok assms b0(1) by (intro sampling_run.start) simp_all
  have "orch_rep 2 (fresh_rows [sample_samp_req]) (sb_penalizer_orchestrator b0)" using b0(2) by (simp add: samp_rep_def sb_rep_def)
  from orch_cumulate_rep [OF this, of "[0]"] obtain o' where
    o': "orch_cumulate [0] (sb_penalizer_orchestrator b0) = Inr o'" "map fst (or_penalizers o') = order"
    using b0(3) by auto
  obtain b where b: "sampling_decode [0] b0 = Inr b" "map fst (or_penalizers (sb_penalizer_orchestrator b)) = order"
    using o' b0(3) by (cases "or_is_required (sb_penalizer_orchestrator b0)") (auto simp: sampling_decode_def)
  have "sampling_run hsh False False 2 {} (feed (fresh_rows [sample_samp_req]) [0]) b"
    using run b(1) by (intro sampling_run.decode) simp_all
  moreover have "feed (fresh_rows [sample_samp_req]) [0] = [(sample_samp_req, [0])]" by (simp add: feed_def fresh_rows_def)
  ultimately show ?thesis using b0(1) b by auto
qed

lemma sample_logits_ok: "logits_ok 2 [(sample_samp_req, [0])] [[Fin 4, Fin 0]]"
  by (simp add: logits_ok_def)

theorem sampling_rows_independent_witness:
  "\<exists>b. sampling_run (\<lambda>s. 0) False False 2 {} [(sample_samp_req, [0])] b
     \<and> apply_logits_bias True None b [[Fin 4, Fin 0]] = Inr [[Fin (3 / 2), Fin 0]]"
proof -
  obtain b where b: "sampling_run (\<lambda>s. 0) False False 2 {} [(sample_samp_req, [0])] b"
    "map fst (or_penalizers (sb_penalizer_orchestrator b)) = order1" using sample_sampling_run [OF sample_orders(1)] by blast
  from sampling_rows_independent [OF b(1) _ sample_logits_ok] b(2)
  have "apply_logits_bias True None b [[Fin 4, Fin 0]] = Inr [row_logits order1 2 (sample_samp_req, [0]) [Fin 4, Fin 0]]" by simp
  also have "row_logits order1 2 (sample_samp_req, [0]) [Fin 4, Fin 0] = [Fin (3 / 2), Fin 0]"
    by (simp add: row_logits_def order1_def fsub_def scale_logit_def no_bias numeral_2_eq_2 upt_rec)
  finally show ?thesis using b(1) by blast
qed

theorem overlap_penalties_order_free_witness:
  "\<exists>b b'. sampling_run (\<lambda>s. 0) False False 2 {} [(sample_samp_req, [0])] b \<and> copy_for_forward b = Inr (b', b')
     \<and> apply_logits_bias False None b' [[Fin 4, Fin 0]] = Inr [[Fin (3 / 2), Fin 0]]"
proof -
  obtain b where b: "sampling_run (\<lambda>s. 0) False False 2 {} [(sample_samp_req, [0])] b" using sample_sampling_run [OF sample_orders(2)] by blast
  have "map2 (overlap_logits 2) [(sample_samp_req, [0])] [[Fin 4, Fin 0]] = [[Fin (3 / 2), Fin 0]]"
    by (simp add: overlap_logits_def additive_pen_def scale_logit_def no_bias numeral_2_eq_2 upt_rec)
  with overlap_penalties_order_free [OF b _ sample_logits_ok] b show ?thesis by auto
qed

end
