(* ===== verification/Schedule_Batch.thy ===== *)
theory Schedule_Batch
  imports Waiting_Queue Sampling_Props
begin

text \<open>
  Batches of \<open>managers/schedule_batch.py\<close> on the decode path: the tensors that run parallel to
  the requests, filtering and merging, the memory check before a decode step, retraction of
  requests when it fails, the allocation of the next slots, and the step of
  \<open>managers/scheduler.py\<close> that composes them. The model covers the standard pools and the radix
  cache, without disaggregation, hisparse, hybrid window or mamba pools; a batch has the fields that
  the modelled operations read or write. The demand estimate and the order of retraction also
  cover the speculative modes, whose decode batches are prepared by the draft workers.
\<close>

section \<open>State\<close>

record batch_req = sched_req +
  br_samp :: samp_req
  br_top_logprobs_num :: nat
  br_token_ids_logprob :: "int list option"
  br_decode_batch_idx :: nat
  br_extend_batch_idx :: nat
  br_retracted_stain :: bool
  br_already_computed :: int
  br_cached_tokens :: int
  br_cache_breakdown_computed :: bool
  br_storage_hit_length :: nat
  br_cached_tokens_device :: int
  br_cached_tokens_host :: int
  br_cached_tokens_storage :: int
  br_multimodal_inputs :: "string option"
  br_return_hidden_states :: bool
  br_is_prefill_only :: bool
  br_eos_token_ids :: "int list option"
  br_has_tokenizer :: bool
  br_vocab_size :: nat
  br_decoded_text :: string
  br_finished_len :: "int option"
  br_require_reasoning :: bool
  br_is_reasoning_over :: bool
  br_grammar_tokens :: "int list"

datatype forward_mode =
    EXTEND | DECODE | MIXED | IDLE | TARGET_VERIFY | DRAFT_EXTEND | DRAFT_EXTEND_V2 | PREBUILT | SPLIT_PREFILL | DLLM_EXTEND

record schedule_batch =
  bt_reqs :: "batch_req list"
  bt_forward_mode :: forward_mode
  bt_enable_overlap :: bool
  bt_batch_is_full :: bool
  bt_sampling_info :: sampling_batch
  bt_input_ids :: "int list option"
  bt_output_ids :: "int list option"
  bt_req_pool_indices :: "nat list"
  bt_seq_lens :: "nat list"
  bt_seq_lens_cpu :: "nat list"
  bt_orig_seq_lens :: "nat list"
  bt_seq_lens_sum :: nat
  bt_out_cache_loc :: "int list option"
  bt_multimodal_inputs :: "string option list option"
  bt_return_logprob :: bool
  bt_top_logprobs_nums :: "nat list option"
  bt_token_ids_logprobs :: "int list option list option"
  bt_prefix_lens :: "int list"
  bt_extend_lens :: "int list"
  bt_extend_num_tokens :: int
  bt_extend_logprob_start_lens :: "int list"
  bt_extend_input_logprob_token_ids :: "int list option"
  bt_is_encoder_decoder :: bool
  bt_encoder_cached :: "bool list"
  bt_encoder_lens :: "nat list"
  bt_encoder_lens_cpu :: "nat list"
  bt_has_stream :: bool
  bt_has_grammar :: bool
  bt_return_hidden_states :: bool
  bt_is_prefill_only :: bool

text \<open>Server arguments and the values the environment supplies.\<close>

datatype spec_mode = SpecNone | SpecV1 "nat option" "nat option" nat | SpecV2 nat

record decode_env =
  de_sha :: "nat list \<Rightarrow> nat list"
  de_now :: int
  de_order :: "nat set \<Rightarrow> nat list"
  de_strip_thinking_cache :: bool
  de_page_size :: nat
  de_spec :: spec_mode
  de_retract_decode_steps :: nat
  de_oob :: "int \<Rightarrow> int"
  de_fill :: int
  de_uninit :: "int list"

section \<open>Filtering and merging\<close>

definition filter_rows :: "nat list \<Rightarrow> schedule_batch \<Rightarrow> schedule_batch res" where
  "filter_rows keep b =
     rbind (if bt_is_encoder_decoder b then take_rows keep (bt_encoder_lens b) else Inr (bt_encoder_lens b)) (\<lambda>el.
     rbind (if bt_is_encoder_decoder b then take_rows keep (bt_encoder_lens_cpu b) else Inr (bt_encoder_lens_cpu b)) (\<lambda>elc.
     rbind (take_rows keep (bt_reqs b)) (\<lambda>reqs.
     rbind (filter_opt keep (bt_multimodal_inputs b)) (\<lambda>mm.
     rbind (take_rows keep (bt_req_pool_indices b)) (\<lambda>idx.
     rbind (take_rows keep (bt_seq_lens b)) (\<lambda>sl.
     rbind (take_rows keep (bt_seq_lens_cpu b)) (\<lambda>slc.
     rbind (take_rows keep (bt_orig_seq_lens b)) (\<lambda>osl.
     rbind (filter_opt keep (bt_output_ids b)) (\<lambda>out.
     let return_logprob = list_ex sq_return_logprob reqs
     in rbind (if return_logprob then rbind (of_opt TypeError (bt_top_logprobs_nums b)) (\<lambda>xs. rbind (take_rows keep xs) (\<lambda>ys. Inr (Some ys)))
               else Inr None) (\<lambda>tops.
        rbind (if return_logprob then rbind (of_opt TypeError (bt_token_ids_logprobs b)) (\<lambda>xs. rbind (take_rows keep xs) (\<lambda>ys. Inr (Some ys)))
               else Inr None) (\<lambda>tids.
        rbind (sampling_filter_batch (map br_samp reqs) keep (bt_sampling_info b)) (\<lambda>samp.
        Inr (b\<lparr>bt_encoder_lens := el, bt_encoder_lens_cpu := elc, bt_reqs := reqs, bt_multimodal_inputs := mm,
               bt_req_pool_indices := idx, bt_seq_lens := sl, bt_seq_lens_cpu := slc, bt_orig_seq_lens := osl,
               bt_out_cache_loc := None, bt_seq_lens_sum := sum_list sl, bt_output_ids := out,
               bt_return_logprob := return_logprob, bt_top_logprobs_nums := tops, bt_token_ids_logprobs := tids,
               bt_has_stream := list_ex sq_stream reqs, bt_has_grammar := list_ex sq_has_grammar reqs,
               bt_sampling_info := samp\<rparr>)))))))))))))"

text \<open>Requests to exclude are compared by identity, here by their ids.\<close>

definition filter_batch :: "string list \<Rightarrow> nat list option \<Rightarrow> schedule_batch \<Rightarrow> schedule_batch res" where
  "filter_batch chunked_req_to_exclude keep_indices b =
     (let keep = (case keep_indices of
            Some k \<Rightarrow> k
          | None \<Rightarrow> filter (\<lambda>i. \<not> sq_finished (bt_reqs b ! i) \<and> sq_rid (bt_reqs b ! i) \<notin> set chunked_req_to_exclude)
                      [0..<length (bt_reqs b)])
      in if keep = [] then Inr (b\<lparr>bt_reqs := []\<rparr>)
         else if length keep = length (bt_reqs b) then Inr b
         else filter_rows keep b)"

text \<open>The parallel lists of log-probability requests, which a batch without any such request does not have.\<close>

definition merge_logprobs :: "bool \<Rightarrow> bool \<Rightarrow> 'a \<Rightarrow> nat \<Rightarrow> nat \<Rightarrow> 'a list option \<Rightarrow> 'a list option \<Rightarrow> 'a list option res" where
  "merge_logprobs mine theirs fill n m xs ys =
     (if mine \<and> theirs then rbind (of_opt AttributeError xs) (\<lambda>xs. rbind (of_opt TypeError ys) (\<lambda>ys. Inr (Some (xs @ ys))))
      else if mine then rbind (of_opt AttributeError xs) (\<lambda>xs. Inr (Some (xs @ replicate m fill)))
      else if theirs then rbind (of_opt TypeError ys) (\<lambda>ys. Inr (Some (replicate n fill @ ys)))
      else Inr xs)"

definition merge_batch :: "schedule_batch \<Rightarrow> schedule_batch \<Rightarrow> (schedule_batch \<times> schedule_batch) res" where
  "merge_batch b other =
     rbind (sampling_merge_batch (map br_samp (bt_reqs b)) (map br_samp (bt_reqs other)) (bt_sampling_info b) (bt_sampling_info other))
       (\<lambda>(samp, samp').
     rbind (case bt_output_ids b of None \<Rightarrow> Inr None
            | Some xs \<Rightarrow> rbind (of_opt TypeError (bt_output_ids other)) (\<lambda>ys. Inr (Some (xs @ ys)))) (\<lambda>out.
     rbind (merge_logprobs (bt_return_logprob b) (bt_return_logprob other) 0 (length (bt_reqs b)) (length (bt_reqs other))
              (bt_top_logprobs_nums b) (bt_top_logprobs_nums other)) (\<lambda>tops.
     rbind (merge_logprobs (bt_return_logprob b) (bt_return_logprob other) None (length (bt_reqs b)) (length (bt_reqs other))
              (bt_token_ids_logprobs b) (bt_token_ids_logprobs other)) (\<lambda>tids.
     rbind (case bt_multimodal_inputs b of None \<Rightarrow> Inr None
            | Some xs \<Rightarrow> rbind (of_opt TypeError (bt_multimodal_inputs other)) (\<lambda>ys. Inr (Some (xs @ ys)))) (\<lambda>mm.
     Inr (b\<lparr>bt_sampling_info := samp,
            bt_encoder_lens := (if bt_is_encoder_decoder b then bt_encoder_lens b @ bt_encoder_lens other else bt_encoder_lens b),
            bt_encoder_lens_cpu := (if bt_is_encoder_decoder b then bt_encoder_lens_cpu b @ bt_encoder_lens_cpu other else bt_encoder_lens_cpu b),
            bt_req_pool_indices := bt_req_pool_indices b @ bt_req_pool_indices other,
            bt_seq_lens := bt_seq_lens b @ bt_seq_lens other, bt_seq_lens_cpu := bt_seq_lens_cpu b @ bt_seq_lens_cpu other,
            bt_orig_seq_lens := bt_orig_seq_lens b @ bt_orig_seq_lens other, bt_out_cache_loc := None,
            bt_seq_lens_sum := bt_seq_lens_sum b + bt_seq_lens_sum other, bt_output_ids := out,
            bt_top_logprobs_nums := tops, bt_token_ids_logprobs := tids,
            bt_reqs := bt_reqs b @ bt_reqs other, bt_multimodal_inputs := mm,
            bt_return_logprob := (bt_return_logprob b \<or> bt_return_logprob other),
            bt_has_stream := (bt_has_stream b \<or> bt_has_stream other), bt_has_grammar := (bt_has_grammar b \<or> bt_has_grammar other),
            bt_return_hidden_states := (bt_return_hidden_states b \<or> bt_return_hidden_states other),
            bt_is_prefill_only := (bt_is_prefill_only b \<and> bt_is_prefill_only other)\<rparr>,
          other\<lparr>bt_sampling_info := samp'\<rparr>))))))"

section \<open>Memory for the next decode step\<close>

definition or_one :: "nat option \<Rightarrow> nat" where
  "or_one x = (case x of None \<Rightarrow> 1 | Some n \<Rightarrow> if n = 0 then 1 else n)"

text \<open>\<open>get_alloc_len_per_decode\<close> is the argument of \<open>SpecV2\<close>.\<close>

definition new_tokens_required_next_decode_spec_v2 :: "nat \<Rightarrow> nat \<Rightarrow> req list \<Rightarrow> nat" where
  "new_tokens_required_next_decode_spec_v2 alloc_len page_size requests =
     sum_list (map (\<lambda>r. let x = rq_kv_committed_len r + 2 * alloc_len - rq_kv_allocated_len r;
                            cur = rq_kv_allocated_len r; nxt = cur + x
                        in ceil_align nxt page_size - ceil_align cur page_size) requests)"

definition new_tokens_required_next_decode :: "spec_mode \<Rightarrow> nat \<Rightarrow> req list \<Rightarrow> nat" where
  "new_tokens_required_next_decode spec page_size requests =
     (case spec of
        SpecNone \<Rightarrow> length (filter (\<lambda>r. rq_kv_committed_len r mod page_size = 0) requests) * page_size
      | SpecV2 alloc_len \<Rightarrow> new_tokens_required_next_decode_spec_v2 alloc_len page_size requests
      | SpecV1 num_steps topk draft \<Rightarrow>
          let spec_topk = or_one topk;
              len_per_topk = (if 1 < page_size \<and> 1 < spec_topk then ceil_align (or_one num_steps + page_size) page_size
                              else if 1 < page_size then ceil_align (or_one num_steps) page_size else or_one num_steps);
              spec_tokens = (if 1 < page_size then ceil_align draft page_size else draft)
          in max (len_per_topk * spec_topk) spec_tokens * length requests)"

definition check_decode_mem :: "decode_env \<Rightarrow> batch_req list \<Rightarrow> rcache \<Rightarrow> (bool \<times> rcache) res" where
  "check_decode_mem env requests c =
     (let num_tokens = new_tokens_required_next_decode (de_spec env) (al_page_size (rc_allocator c)) (map sq_mem requests)
      in rbind (evict_from_tree_cache (de_sha env) (de_order env) num_tokens c) (\<lambda>c1.
         Inr (num_tokens \<le> kv_available_size (rc_allocator c1), c1)))"

section \<open>Retraction\<close>

definition reset_for_retract :: "batch_req \<Rightarrow> batch_req" where
  "reset_for_retract r =
     (let m = sq_mem r
      in r\<lparr>sq_retraction_count := sq_retraction_count r + 1,
           sq_mem := m\<lparr>rq_prefix_indices := [], rq_last_node := None, rq_cache_protected_len := 0, rq_is_chunked := 0,
                        rq_kv_allocated_len := 0, rq_kv_committed_len := 0, rq_kv_committed_freed := False,
                        rq_kv_overallocated_freed := False,
                        rq_output_ids := (if sq_has_input_embeds r then [] else rq_output_ids m)\<rparr>,
           sq_extend_input_len := 0, sq_is_retracted := True, br_retracted_stain := True, sq_extend_logprob_start_len := 0,
           br_already_computed := 0, br_extend_batch_idx := 0, br_decode_batch_idx := 0\<rparr>)"

type_synonym mem_state = "batch_req list \<times> req_pool \<times> rcache"

definition release_req :: "decode_env \<Rightarrow> nat \<Rightarrow> nat \<Rightarrow> mem_state \<Rightarrow> mem_state res" where
  "release_req env idx remaing_req_count st =
     (case st of (reqs, pool, c) \<Rightarrow>
      if length reqs \<le> idx then Inl IndexError
      else rbind (release_kv_cache (de_sha env) (de_now env) (de_strip_thinking_cache env) (de_spec env = SpecNone) (de_page_size env) False
                    (sq_mem (reqs ! idx)) pool c) (\<lambda>(m, pool1, c1).
           rbind (evict_from_tree_cache (de_sha env) (de_order env) (remaing_req_count * de_retract_decode_steps env) c1) (\<lambda>c2.
           Inr (reqs[idx := reset_for_retract ((reqs ! idx)\<lparr>sq_mem := m\<rparr>)], pool1, c2))))"

text \<open>
  The loop of \<open>retract_decode\<close> on the indices still kept, the best request first; it gives up the
  last one in every round.
\<close>

definition keep_retracting :: "decode_env \<Rightarrow> bool \<Rightarrow> nat list \<Rightarrow> mem_state \<Rightarrow> (bool \<times> rcache) res" where
  "keep_retracting env first_iter sorted_indices st =
     (case st of (reqs, pool, c) \<Rightarrow>
      if first_iter then Inr (True, c)
      else rbind (take_rows sorted_indices reqs) (\<lambda>selected.
           rbind (check_decode_mem env selected c) (\<lambda>(ok, c1). Inr (\<not> ok, c1))))"

function retract_loop ::
  "decode_env \<Rightarrow> bool \<Rightarrow> nat list \<Rightarrow> nat list \<Rightarrow> mem_state \<Rightarrow> (nat list \<times> nat list \<times> mem_state) res" where
  "retract_loop env first_iter sorted_indices retracted (reqs, pool, c) =
     rbind (keep_retracting env first_iter sorted_indices (reqs, pool, c)) (\<lambda>(go, c1).
     if \<not> go \<or> length sorted_indices = 1 then Inr (sorted_indices, retracted, (reqs, pool, c1))
     else if sorted_indices = [] then Inl IndexError
     else rbind (release_req env (last sorted_indices) (length sorted_indices - 1) (reqs, pool, c1)) (\<lambda>st.
          retract_loop env False (butlast sorted_indices) (retracted @ [last sorted_indices]) st))"
  by pat_completeness auto

termination
  by (relation "measure (\<lambda>(_, _, idxs, _, _). length idxs)") auto

definition retract_order :: "decode_env \<Rightarrow> batch_req list \<Rightarrow> nat list" where
  "retract_order env reqs =
     (if de_spec env = SpecNone
      then sort_key (\<lambda>i. (- int (length (rq_output_ids (sq_mem (reqs ! i)))), int (length (rq_origin_input_ids (sq_mem (reqs ! i))))))
             [0..<length reqs]
      else [0..<length reqs])"

text \<open>Even the last request does not fit: it is aborted.\<close>

definition oom_abort :: finish_reason where
  "oom_abort = finish_abort (Some ''Out of memory even after retracting all other requests in the decode batch. Aborting the last request.'') (Some 500) None"

definition abort_last :: "decode_env \<Rightarrow> nat list \<Rightarrow> mem_state \<Rightarrow> (nat list \<times> nat list \<times> mem_state) res" where
  "abort_last env sorted_indices st =
     (case st of (reqs, pool, c) \<Rightarrow>
      if length sorted_indices \<le> 1
      then rbind (take_rows sorted_indices reqs) (\<lambda>selected.
           rbind (check_decode_mem env selected c) (\<lambda>(ok, c1).
           if ok then Inr (sorted_indices, [], (reqs, pool, c1))
           else if sorted_indices = [] then Inl IndexError
           else let i = last sorted_indices
                in rbind (release_req env i 0 (reqs[i := (reqs ! i)\<lparr>sq_to_finish := Some oom_abort\<rparr>], pool, c1)) (\<lambda>st'.
                   Inr (butlast sorted_indices, [i], st'))))
      else Inr (sorted_indices, [], (reqs, pool, c)))"

definition new_estimate_ratio :: "nat \<Rightarrow> batch_req list \<Rightarrow> rat res" where
  "new_estimate_ratio steps reqs =
     (let decoded = sum_list (map (\<lambda>r. int (length (rq_output_ids (sq_mem r)))) reqs);
          max_new = sum_list (map sq_max_new_tokens reqs)
      in if max_new + 1 = 0 then Inl ZeroDivisionError
         else Inr (min 1 (rat_of_int (decoded + int steps * int (length reqs)) / rat_of_int (max_new + 1))))"

definition retract_decode ::
  "decode_env \<Rightarrow> schedule_batch \<Rightarrow> req_pool \<Rightarrow> rcache
     \<Rightarrow> (batch_req list \<times> rat \<times> batch_req list \<times> schedule_batch \<times> req_pool \<times> rcache) res" where
  "retract_decode env b pool c =
     rbind (retract_loop env True (retract_order env (bt_reqs b)) [] (bt_reqs b, pool, c)) (\<lambda>(idxs, retracted, st).
     rbind (abort_last env idxs st) (\<lambda>(keep, aborted, (reqs, pool1, c1)).
     rbind (take_rows retracted reqs) (\<lambda>retracted_reqs.
     rbind (take_rows aborted reqs) (\<lambda>reqs_to_abort.
     rbind (filter_batch [] (Some keep) (b\<lparr>bt_reqs := reqs\<rparr>)) (\<lambda>b1.
     rbind (new_estimate_ratio (de_retract_decode_steps env) (bt_reqs b1)) (\<lambda>ratio.
     Inr (retracted_reqs, ratio, reqs_to_abort, b1, pool1, c1)))))))"

fun release_all :: "decode_env \<Rightarrow> nat \<Rightarrow> nat \<Rightarrow> mem_state \<Rightarrow> mem_state res" where
  "release_all env idx 0 st = Inr st"
| "release_all env idx (Suc n) st = rbind (release_req env idx (Suc n) st) (release_all env (Suc idx) n)"

definition retract_all ::
  "decode_env \<Rightarrow> schedule_batch \<Rightarrow> req_pool \<Rightarrow> rcache \<Rightarrow> (batch_req list \<times> schedule_batch \<times> req_pool \<times> rcache) res" where
  "retract_all env b pool c =
     rbind (release_all env 0 (length (bt_reqs b)) (bt_reqs b, pool, c)) (\<lambda>(reqs, pool1, c1).
     rbind (filter_batch (map sq_rid reqs) None (b\<lparr>bt_reqs := reqs\<rparr>)) (\<lambda>b1. Inr (reqs, b1, pool1, c1)))"

section \<open>The next slots\<close>

text \<open>Indexing the table of rows with two index tensors, which are broadcast against each other.\<close>

definition index_pairs :: "'a list \<Rightarrow> 'b list \<Rightarrow> ('a \<times> 'b) list res" where
  "index_pairs xs ys =
     (if length xs = length ys then Inr (zip xs ys)
      else if length xs = 1 then Inr (map (\<lambda>y. (hd xs, y)) ys)
      else if length ys = 1 then Inr (map (\<lambda>x. (x, hd ys)) xs) else Inl IndexError)"

definition pool_cell :: "nat \<Rightarrow> int \<Rightarrow> req_pool \<Rightarrow> int res" where
  "pool_cell r k pool =
     rbind (pool_row r pool) (\<lambda>row.
     let n = int (length row); j = (if k < 0 then k + n else k)
     in if 0 \<le> j \<and> j < n then Inr (row ! nat j) else Inl IndexError)"

definition pool_gather :: "nat list \<Rightarrow> int list \<Rightarrow> req_pool \<Rightarrow> int list res" where
  "pool_gather idx cols pool = rbind (index_pairs idx cols) (rmap (\<lambda>(r, k). pool_cell r k pool))"

fun store_cells :: "((nat \<times> nat) \<times> int) list \<Rightarrow> int list list \<Rightarrow> int list list res" where
  "store_cells [] rows = Inr rows"
| "store_cells (((r, k), v) # xs) rows =
     (if r < length rows \<and> k < length (rows ! r) then store_cells xs (rows[r := (rows ! r)[k := v]]) else Inl IndexError)"

definition pool_scatter :: "nat list \<Rightarrow> nat list \<Rightarrow> int list \<Rightarrow> req_pool \<Rightarrow> req_pool res" where
  "pool_scatter idx cols vs pool =
     rbind (index_pairs idx cols) (\<lambda>cells.
     rbind (broadcast (length cells) vs) (\<lambda>vs'.
     rbind (store_cells (zip cells vs') (rp_req_to_token pool)) (\<lambda>rows.
     Inr (pool\<lparr>rp_req_to_token := rows\<rparr>))))"

definition alloc_for_decode :: "decode_env \<Rightarrow> nat \<Rightarrow> schedule_batch \<Rightarrow> req_pool \<Rightarrow> rcache \<Rightarrow> (int list \<times> req_pool \<times> rcache) res" where
  "alloc_for_decode env token_per_req b pool c =
     rbind (if rc_page_size c = 1
            then rbind (alloc_token_slots (de_sha env) (de_order env) (length (bt_seq_lens b) * token_per_req) False c) (\<lambda>(out, _, c1). Inr (out, c1))
            else rbind (pool_gather (bt_req_pool_indices b) (map (\<lambda>s. int s - 1) (bt_seq_lens b)) pool) (\<lambda>last_loc.
                 alloc_paged_token_slots_decode (de_sha env) (de_order env) (de_oob env) (de_fill env) (de_uninit env)
                   (map (\<lambda>s. s + token_per_req) (bt_seq_lens b)) last_loc c)) (\<lambda>(out_cache_loc, c1).
     rbind (if bt_is_encoder_decoder b
            then rbind (index_pairs (bt_encoder_lens b) (bt_seq_lens b)) (\<lambda>ps. Inr (map (\<lambda>(e, s). e + s) ps))
            else Inr (bt_seq_lens b)) (\<lambda>locs.
     rbind (pool_scatter (bt_req_pool_indices b) locs out_cache_loc pool) (\<lambda>pool1.
     Inr (out_cache_loc, pool1, c1))))"

section \<open>A decode step\<close>

text \<open>In the overlap mode the last tokens come from the requests, which lag by one step.\<close>

definition delayed_output_id :: "batch_req \<Rightarrow> int res" where
  "delayed_output_id r =
     (let m = sq_mem r
      in if rq_output_ids m \<noteq> [] then Inr (last (rq_output_ids m))
         else if rq_origin_input_ids m \<noteq> [] then Inr (last (rq_origin_input_ids m)) else Inl IndexError)"

definition cumulate_decode_tokens :: "schedule_batch \<Rightarrow> sampling_batch res" where
  "cumulate_decode_tokens b =
     (if or_is_required (sb_penalizer_orchestrator (bt_sampling_info b))
      then rbind (if bt_enable_overlap b then rmap delayed_output_id (bt_reqs b) else of_opt AttributeError (bt_output_ids b)) (\<lambda>toks.
           sampling_decode toks (bt_sampling_info b))
      else Inr (bt_sampling_info b))"

definition committed_one_more :: "batch_req \<Rightarrow> batch_req" where
  "committed_one_more r = r\<lparr>br_decode_batch_idx := br_decode_batch_idx r + 1,
     sq_mem := (sq_mem r)\<lparr>rq_kv_committed_len := rq_kv_committed_len (sq_mem r) + 1, rq_kv_allocated_len := rq_kv_allocated_len (sq_mem r) + 1\<rparr>\<rparr>"

text \<open>The preparation of a decode batch without speculative decoding.\<close>

definition prepare_for_decode :: "decode_env \<Rightarrow> schedule_batch \<Rightarrow> req_pool \<Rightarrow> rcache \<Rightarrow> (schedule_batch \<times> req_pool \<times> rcache) res" where
  "prepare_for_decode env b pool c =
     rbind (cumulate_decode_tokens b) (\<lambda>samp.
     let b1 = b\<lparr>bt_forward_mode := DECODE, bt_sampling_info := samp, bt_input_ids := bt_output_ids b, bt_output_ids := None,
                 bt_encoder_cached := (if bt_is_encoder_decoder b then replicate (length (bt_reqs b)) True else bt_encoder_cached b)\<rparr>
     in rbind (alloc_for_decode env 1 b1 pool c) (\<lambda>(out, pool1, c1).
        Inr (b1\<lparr>bt_out_cache_loc := Some out, bt_reqs := map committed_one_more (bt_reqs b1),
                bt_seq_lens := map Suc (bt_seq_lens b1), bt_seq_lens_cpu := map Suc (bt_seq_lens_cpu b1),
                bt_orig_seq_lens := map Suc (bt_orig_seq_lens b1), bt_seq_lens_sum := bt_seq_lens_sum b1 + length (bt_reqs b1)\<rparr>,
             pool1, c1)))"

record decode_state =
  ds_running_batch :: schedule_batch
  ds_req_to_token_pool :: req_pool
  ds_tree_cache :: rcache
  ds_waiting_queue :: "batch_req list"
  ds_aborted :: "string list"
  ds_num_retracted_reqs :: nat
  ds_new_token_ratio :: rat
  ds_new_token_ratio_decay :: rat
  ds_min_new_token_ratio :: rat

text \<open>\<open>test_retract\<close> forces a retraction in tests of the scheduler.\<close>

definition update_running_batch :: "decode_env \<Rightarrow> queue_config \<Rightarrow> bool \<Rightarrow> decode_state \<Rightarrow> decode_state res" where
  "update_running_batch env cfg test_retract s =
     (let initial_bs = length (bt_reqs (ds_running_batch s))
      in rbind (filter_batch [] None (ds_running_batch s)) (\<lambda>b1.
         if bt_reqs b1 = [] then Inr (s\<lparr>ds_running_batch := b1\<lparr>bt_batch_is_full := False\<rparr>\<rparr>)
         else rbind (check_decode_mem env (bt_reqs b1) (ds_tree_cache s)) (\<lambda>(ok, c1).
              rbind (if \<not> ok \<or> test_retract
                     then rbind (retract_decode env b1 (ds_req_to_token_pool s) c1) (\<lambda>(retracted, ratio, aborted, b2, pool2, c2).
                          rbind (add_requests_to_queue cfg (de_now env) retracted (ds_waiting_queue s)) (\<lambda>(q, aborts).
                          Inr (s\<lparr>ds_running_batch := b2, ds_req_to_token_pool := pool2, ds_tree_cache := c2, ds_waiting_queue := q,
                                 ds_aborted := ds_aborted s @ map sq_rid aborted @ aborts,
                                 ds_num_retracted_reqs := length retracted, ds_new_token_ratio := ratio\<rparr>)))
                     else Inr (s\<lparr>ds_running_batch := b1, ds_tree_cache := c1,
                                 ds_new_token_ratio := max (ds_new_token_ratio s - ds_new_token_ratio_decay s) (ds_min_new_token_ratio s)\<rparr>)) (\<lambda>s1.
              let b3 = (if length (bt_reqs (ds_running_batch s1)) < initial_bs
                        then (ds_running_batch s1)\<lparr>bt_batch_is_full := False\<rparr> else ds_running_batch s1)
              in if bt_reqs b3 = [] then Inr (s1\<lparr>ds_running_batch := b3\<rparr>)
                 else rbind (prepare_for_decode env b3 (ds_req_to_token_pool s1) (ds_tree_cache s1)) (\<lambda>(b4, pool4, c4).
                      Inr (s1\<lparr>ds_running_batch := b4, ds_req_to_token_pool := pool4, ds_tree_cache := c4\<rparr>))))))"

end
