(* ===== verification/Extend_Batch.thy ===== *)
theory Extend_Batch
  imports Schedule_Batch Prefill_Adder
begin

text \<open>
  Batches of \<open>managers/schedule_batch.py\<close> on the prefill path, with the allocation of
  \<open>mem_cache/common.py\<close>: the rows and slots of the requests that are extended, the two
  implementations that write them into the table of rows, the tensors of the batch, and a prefill
  batch mixed with the running one. The model covers models that are not encoder-decoders; input and
  positional embeddings, token types, pooled dimensions and item delimiters, which only pass through, are
  left out.
\<close>

section \<open>Writing the rows\<close>

text \<open>The tensor version: the slices of each request in turn; \<open>pt\<close> is the position in the new slots.\<close>

fun write_cache_loop ::
  "nat \<Rightarrow> int list \<Rightarrow> (nat \<times> nat \<times> nat \<times> nat \<times> int list) list \<Rightarrow> req_pool \<Rightarrow> req_pool res" where
  "write_cache_loop pt out_cache_loc [] pool = Inr pool"
| "write_cache_loop pt out_cache_loc ((req_idx, prefix_len, seq_len, extend_len, prefix_tensor) # rest) pool =
     rbind (pool_write req_idx 0 prefix_len prefix_tensor pool) (\<lambda>pool1.
     rbind (pool_write req_idx prefix_len seq_len (py_slice pt (pt + extend_len) out_cache_loc) pool1) (\<lambda>pool2.
     write_cache_loop (pt + extend_len) out_cache_loc rest pool2))"

text \<open>
  The kernel: one program per request on the flat table, which copies in blocks of 512. The
  programs of a launch write different rows and are run in their order.
\<close>

definition WRITE_BLOCK :: nat where
  "WRITE_BLOCK = 512"

definition write_req_to_token_pool_program ::
  "(int \<Rightarrow> int) \<Rightarrow> nat \<Rightarrow> nat list \<Rightarrow> int list list \<Rightarrow> nat list \<Rightarrow> nat list \<Rightarrow> nat list \<Rightarrow> int list \<Rightarrow> nat \<Rightarrow> int list \<Rightarrow> int list" where
  "write_req_to_token_pool_program oob stride req_pool_indices prefix_tensors pre_lens seq_lens extend_lens out_cache_loc pid mem =
     (let req_pool_index = req_pool_indices ! pid; pre_len = pre_lens ! pid; seq_len = seq_lens ! pid; prefix_tensor = prefix_tensors ! pid;
          mem1 = fold (\<lambda>i. store_block WRITE_BLOCK (\<lambda>j. int (i * WRITE_BLOCK + j) < int pre_len)
                    (\<lambda>j. int req_pool_index * int stride + int (i * WRITE_BLOCK + j))
                    (\<lambda>j. tl_load oob prefix_tensor (int (i * WRITE_BLOCK + j))))
                 [0..<nat (pages_of WRITE_BLOCK (int pre_len))] mem;
          cumsum_start = sum_list (take pid extend_lens)
      in fold (\<lambda>i. store_block WRITE_BLOCK (\<lambda>j. int (i * WRITE_BLOCK + j) < int seq_len - int pre_len)
                    (\<lambda>j. int req_pool_index * int stride + int (i * WRITE_BLOCK + j) + int pre_len)
                    (\<lambda>j. tl_load oob out_cache_loc (int cumsum_start + int (i * WRITE_BLOCK + j))))
           [0..<nat (pages_of WRITE_BLOCK (int seq_len - int pre_len))] mem1)"

definition write_req_to_token_pool_triton ::
  "(int \<Rightarrow> int) \<Rightarrow> nat \<Rightarrow> nat list \<Rightarrow> int list list \<Rightarrow> nat list \<Rightarrow> nat list \<Rightarrow> nat list \<Rightarrow> int list \<Rightarrow> int list \<Rightarrow> int list" where
  "write_req_to_token_pool_triton oob stride req_pool_indices prefix_tensors pre_lens seq_lens extend_lens out_cache_loc mem =
     fold (write_req_to_token_pool_program oob stride req_pool_indices prefix_tensors pre_lens seq_lens extend_lens out_cache_loc)
       [0..<length req_pool_indices] mem"

text \<open>The flat table back in rows of length \<open>stride\<close>.\<close>

definition unflatten :: "nat \<Rightarrow> nat \<Rightarrow> int list \<Rightarrow> int list list" where
  "unflatten stride n mem = map (\<lambda>r. py_slice (r * stride) (r * stride + stride) mem) [0..<n]"

definition support_triton :: "string \<Rightarrow> bool" where
  "support_triton backend \<longleftrightarrow> backend \<notin> {''torch_native'', ''intel_amx''}"

definition write_cache_indices ::
  "string \<Rightarrow> (int \<Rightarrow> int) \<Rightarrow> int list \<Rightarrow> nat list \<Rightarrow> nat list \<Rightarrow> nat list \<Rightarrow> nat list \<Rightarrow> int list list \<Rightarrow> req_pool \<Rightarrow> req_pool res" where
  "write_cache_indices backend oob out_cache_loc req_pool_indices prefix_lens seq_lens extend_lens prefix_tensors pool =
     (if support_triton backend
      then let rows = rp_req_to_token pool; stride = rp_max_context_len pool
           in Inr (pool\<lparr>rp_req_to_token := unflatten stride (length rows)
                (write_req_to_token_pool_triton oob stride req_pool_indices prefix_tensors prefix_lens seq_lens extend_lens out_cache_loc (concat rows))\<rparr>)
      else write_cache_loop 0 out_cache_loc
             (zip req_pool_indices (zip prefix_lens (zip seq_lens (zip extend_lens prefix_tensors)))) pool)"

section \<open>Slots for a prefill batch\<close>

record extend_env =
  xe_backend :: string
  xe_vocab_size :: nat
  xe_hash :: "string \<Rightarrow> int"
  xe_penalizers :: "penalizer_kind list"
  xe_deterministic :: bool
  xe_custom_logit_processor :: bool
  xe_is_dllm :: bool

definition last_prefix_loc :: "int list \<Rightarrow> int" where
  "last_prefix_loc t = (if t = [] then - 1 else last t)"

definition alloc_for_extend ::
  "decode_env \<Rightarrow> extend_env \<Rightarrow> schedule_batch \<Rightarrow> req_pool \<Rightarrow> rcache \<Rightarrow> (int list \<times> nat list \<times> schedule_batch \<times> req_pool \<times> rcache) res" where
  "alloc_for_extend env xe b pool c =
     (let prefix_tensors = map (\<lambda>r. rq_prefix_indices (sq_mem r)) (bt_reqs b);
          prefix_lens = map nat (bt_prefix_lens b); extend_lens = map nat (bt_extend_lens b)
      in rbind (alloc_req_slots pool (map sq_mem (bt_reqs b))) (\<lambda>(idx, mems, pool1).
         rbind (if rc_page_size c = 1
                then rbind (alloc_token_slots (de_sha env) (de_order env) (nat (bt_extend_num_tokens b)) False c) (\<lambda>(out, _, c1). Inr (out, c1))
                else rbind (alloc_paged_token_slots_extend (de_sha env) (de_order env) (de_oob env) (de_fill env) (de_uninit env)
                       prefix_lens (bt_seq_lens b) (map last_prefix_loc prefix_tensors) (nat (bt_extend_num_tokens b)) False c)
                     (\<lambda>(out, _, c1). Inr (out, c1))) (\<lambda>(out_cache_loc, c1).
         rbind (write_cache_indices (xe_backend xe) (de_oob env) out_cache_loc idx prefix_lens (bt_seq_lens b) extend_lens prefix_tensors pool1) (\<lambda>pool2.
         Inr (out_cache_loc, idx, b\<lparr>bt_reqs := map2 (\<lambda>r m. r\<lparr>sq_mem := m\<rparr>) (bt_reqs b) mems\<rparr>, pool2, c1)))))"

section \<open>Preparing a prefill batch\<close>

text \<open>\<open>blank\<close> has the defaults of the fields that \<open>init_new\<close> does not set.\<close>

definition init_new :: "schedule_batch \<Rightarrow> bool \<Rightarrow> batch_req list \<Rightarrow> schedule_batch" where
  "init_new blank enable_overlap reqs =
     blank\<lparr>bt_reqs := reqs, bt_enable_overlap := enable_overlap, bt_return_logprob := list_ex sq_return_logprob reqs,
           bt_has_stream := list_ex sq_stream reqs, bt_has_grammar := list_ex sq_has_grammar reqs,
           bt_return_hidden_states := list_ex br_return_hidden_states reqs, bt_is_prefill_only := list_all br_is_prefill_only reqs\<rparr>"

definition extend_input_ids :: "batch_req \<Rightarrow> int list" where
  "extend_input_ids r = drop (length (rq_prefix_indices (sq_mem r))) (rq_fill_ids (sq_mem r))"

definition extend_lens_of :: "bool \<Rightarrow> schedule_batch \<Rightarrow> schedule_batch" where
  "extend_lens_of is_dllm b =
     (let reqs = bt_reqs b; seq_lens = map (\<lambda>r. length (rq_fill_ids (sq_mem r))) reqs
      in b\<lparr>bt_forward_mode := (if is_dllm then DLLM_EXTEND else EXTEND),
           bt_prefix_lens := map (\<lambda>r. int (length (rq_prefix_indices (sq_mem r)))) reqs, bt_extend_lens := map sq_extend_input_len reqs,
           bt_seq_lens := seq_lens, bt_seq_lens_cpu := seq_lens,
           bt_extend_num_tokens := sum_list (map (\<lambda>r. int (length (extend_input_ids r))) reqs)\<rparr>)"

text \<open>The accounting of cached tokens of a request, once per stay in the batch.\<close>

definition count_cached_tokens :: "nat \<Rightarrow> nat \<Rightarrow> batch_req \<Rightarrow> batch_req" where
  "count_cached_tokens seq_len pre_len r =
     (if br_retracted_stain r then r
      else let r1 = r\<lparr>br_cached_tokens := br_cached_tokens r + (int pre_len - br_already_computed r)\<rparr>;
               host_total = int (sq_host_hit_length r);
               storage_portion = min host_total (int (br_storage_hit_length r));
               r2 = (if br_cache_breakdown_computed r1 then r1
                     else r1\<lparr>br_cached_tokens_device := max 0 (int (length (rq_prefix_indices (sq_mem r1))) - host_total),
                             br_cached_tokens_host := host_total - storage_portion,
                             br_cached_tokens_storage := storage_portion, br_cache_breakdown_computed := True\<rparr>)
           in r2\<lparr>br_already_computed := int seq_len\<rparr>)"

definition prepare_req_for_extend :: "nat \<Rightarrow> batch_req \<Rightarrow> batch_req res" where
  "prepare_req_for_extend idx r =
     (let m = sq_mem r; seq_len = length (rq_fill_ids m); pre_len = length (rq_prefix_indices m)
      in rbind (guard_res (int seq_len - int pre_len = sq_extend_input_len r) AssertionError) (\<lambda>_.
         let r1 = r\<lparr>sq_mem := m\<lparr>rq_req_pool_idx := Some idx, rq_kv_committed_len := seq_len, rq_kv_allocated_len := seq_len\<rparr>,
                    br_extend_batch_idx := br_extend_batch_idx r + 1\<rparr>
         in Inr ((count_cached_tokens seq_len pre_len r1)\<lparr>sq_is_retracted := False\<rparr>)))"

text \<open>The tokens whose log-probability is returned: shifted by one, padded with 0.\<close>

definition input_logprob_token_ids :: "batch_req \<Rightarrow> int list" where
  "input_logprob_token_ids r =
     (let m = sq_mem r;
          logprob_start_len = (if sq_logprob_start_len r = -1 then int (length (rq_origin_input_ids m)) else sq_logprob_start_len r);
          global_start_idx = max (int (length (rq_prefix_indices m))) logprob_start_len;
          ids = py_slice (nat (global_start_idx + 1)) (length (rq_fill_ids m) + 1) (rq_origin_input_ids m)
      in ids @ replicate (nat (sq_extend_input_len r - sq_extend_logprob_start_len r - int (length ids))) 0)"

definition clamp :: "int \<Rightarrow> int \<Rightarrow> int \<Rightarrow> int" where
  "clamp lo hi x = min hi (max lo x)"

definition prepare_for_extend ::
  "decode_env \<Rightarrow> extend_env \<Rightarrow> schedule_batch \<Rightarrow> req_pool \<Rightarrow> rcache \<Rightarrow> (schedule_batch \<times> req_pool \<times> rcache) res" where
  "prepare_for_extend env xe b pool c =
     (let b0 = extend_lens_of (xe_is_dllm xe) b; reqs0 = bt_reqs b;
          orig_seq_lens = map (\<lambda>r. max (length (rq_fill_ids (sq_mem r))) (length (rq_origin_input_ids (sq_mem r)))) reqs0
      in rbind (alloc_for_extend env xe b0 pool c) (\<lambda>(out_cache_loc, idx, b1, pool1, c1).
         rbind (rmap (\<lambda>(i, r). prepare_req_for_extend i r) (zip idx (bt_reqs b1))) (\<lambda>reqs.
         rbind (from_schedule_batch (xe_hash xe) (xe_penalizers xe) (xe_deterministic xe) (xe_custom_logit_processor xe)
                  (map br_samp reqs) (xe_vocab_size xe)) (\<lambda>samp.
         Inr (b1\<lparr>bt_reqs := reqs, bt_input_ids := Some (concat (map extend_input_ids reqs0)),
                 bt_req_pool_indices := idx, bt_orig_seq_lens := orig_seq_lens, bt_out_cache_loc := Some out_cache_loc,
                 bt_multimodal_inputs := Some (map br_multimodal_inputs reqs), bt_seq_lens_sum := sum_list (bt_seq_lens b1),
                 bt_top_logprobs_nums := (if bt_return_logprob b1 then Some (map br_top_logprobs_num reqs) else bt_top_logprobs_nums b1),
                 bt_token_ids_logprobs := (if bt_return_logprob b1 then Some (map br_token_ids_logprob reqs) else bt_token_ids_logprobs b1),
                 bt_extend_logprob_start_lens := map sq_extend_logprob_start_len reqs,
                 bt_extend_input_logprob_token_ids :=
                   (if bt_return_logprob b1 then Some (map (clamp 0 (int (xe_vocab_size xe) - 1)) (concat (map input_logprob_token_ids reqs))) else None),
                 bt_sampling_info := samp\<rparr>, pool1, c1)))))"

definition prepare_for_split_prefill ::
  "decode_env \<Rightarrow> extend_env \<Rightarrow> schedule_batch \<Rightarrow> req_pool \<Rightarrow> rcache \<Rightarrow> (schedule_batch \<times> req_pool \<times> rcache) res" where
  "prepare_for_split_prefill env xe b pool c =
     rbind (prepare_for_extend env xe b pool c) (\<lambda>(b1, pool1, c1). Inr (b1\<lparr>bt_forward_mode := SPLIT_PREFILL\<rparr>, pool1, c1))"

text \<open>A prefill batch with the running batch added: every running request extends by one token.\<close>

definition mix_with_running :: "schedule_batch \<Rightarrow> schedule_batch \<Rightarrow> (schedule_batch \<times> schedule_batch) res" where
  "mix_with_running b running =
     (let reqs = map (\<lambda>r. set_extend_input_len 1 (r\<lparr>sq_mem := (sq_mem r)\<lparr>rq_fill_ids := rq_origin_input_ids (sq_mem r) @ rq_output_ids (sq_mem r)\<rparr>\<rparr>))
                   (bt_reqs running);
          running1 = running\<lparr>bt_reqs := reqs\<rparr>; running_bs = length reqs;
          delta = (if bt_enable_overlap b then 0 else - 1)
      in rbind (of_opt TypeError (bt_input_ids b)) (\<lambda>ids.
         rbind (of_opt TypeError (bt_input_ids running)) (\<lambda>ids'.
         rbind (of_opt TypeError (bt_out_cache_loc b)) (\<lambda>out.
         rbind (of_opt TypeError (bt_out_cache_loc running)) (\<lambda>out'.
         rbind (merge_batch (b\<lparr>bt_forward_mode := MIXED\<rparr>) running1) (\<lambda>(b1, running2).
         Inr (b1\<lparr>bt_input_ids := Some (ids @ ids'), bt_out_cache_loc := Some (out @ out'),
                 bt_prefix_lens := bt_prefix_lens b1 @ map (\<lambda>r. int (length (rq_origin_input_ids (sq_mem r))) + int (length (rq_output_ids (sq_mem r))) + delta) reqs,
                 bt_extend_lens := bt_extend_lens b1 @ replicate running_bs 1,
                 bt_extend_num_tokens := bt_extend_num_tokens b1 + int running_bs,
                 bt_extend_logprob_start_lens := bt_extend_logprob_start_lens b1 @ replicate running_bs 0,
                 bt_is_prefill_only := False\<rparr>, running2)))))))"

end
