(* ===== verification/Extend_Write.thy ===== *)
theory Extend_Write
  imports Extend_Batch
begin

text \<open>
  \<open>write_cache_indices\<close>: the kernel over the flat table and the loop over slices write the same
  rows: each request's row starts with its prefix, followed by its new slots.
\<close>

section \<open>The rows that are written\<close>

type_synonym write_entry = "nat \<times> nat \<times> nat \<times> nat \<times> int list"

definition write_row :: "nat \<Rightarrow> int list \<Rightarrow> write_entry \<Rightarrow> int list list \<Rightarrow> int list list" where
  "write_row pt out x rows = (case x of (r, pre, seq, ext, pfx) \<Rightarrow> rows[r := pfx @ py_slice pt (pt + ext) out @ drop seq (rows ! r)])"

fun write_rows :: "nat \<Rightarrow> int list \<Rightarrow> write_entry list \<Rightarrow> int list list \<Rightarrow> int list list" where
  "write_rows pt out [] rows = rows"
| "write_rows pt out (x # xs) rows = write_rows (pt + fst (snd (snd (snd x)))) out xs (write_row pt out x rows)"

definition entry_ok :: "nat \<Rightarrow> nat \<Rightarrow> write_entry \<Rightarrow> bool" where
  "entry_ok n stride x \<longleftrightarrow> (case x of (r, pre, seq, ext, pfx) \<Rightarrow> r < n \<and> pre \<le> seq \<and> seq \<le> stride \<and> length pfx = pre \<and> ext = seq - pre)"

abbreviation entry_ext :: "write_entry \<Rightarrow> nat" where
  "entry_ext x \<equiv> fst (snd (snd (snd x)))"

lemma length_py_slice [simp]: "b \<le> length xs \<Longrightarrow> length (py_slice a b xs) = b - a"
  by (simp add: py_slice_def)

lemma length_write_row [simp]: "length (write_row pt out x rows) = length rows"
  by (simp add: write_row_def split: prod.split)

lemma write_row_ok:
  assumes "entry_ok (length rows) stride x" "\<forall>row\<in>set rows. length row = stride" "pt + entry_ext x \<le> length out"
  shows "\<forall>row\<in>set (write_row pt out x rows). length row = stride"
proof -
  obtain r pre seq ext pfx where x: "x = (r, pre, seq, ext, pfx)" by (metis prod.exhaust)
  have h: "r < length rows" "pre \<le> seq" "seq \<le> stride" "length pfx = pre" "ext = seq - pre" using assms(1) x by (simp_all add: entry_ok_def)
  have "length (rows ! r) = stride" using assms(2) h(1) by simp
  then have new: "length (pfx @ py_slice pt (pt + ext) out @ drop seq (rows ! r)) = stride" using h assms(3) x by simp
  have "length row = stride" if "row \<in> set (rows[r := new])" "length new = stride" for row new
    using that assms(2) set_update_subset_insert [of rows r new] by blast
  then show "\<forall>row\<in>set (write_row pt out x rows). length row = stride" using new by (simp add: write_row_def x del: length_append length_drop)
qed

lemma write_rows_snoc:
  "write_rows pt out (xs @ [x]) rows = write_row (pt + sum_list (map entry_ext xs)) out x (write_rows pt out xs rows)"
  by (induction xs arbitrary: pt rows) (simp_all add: add.assoc)

lemma write_rows_ok:
  assumes "\<forall>x\<in>set xs. entry_ok (length rows) stride x" "\<forall>row\<in>set rows. length row = stride" "pt + sum_list (map entry_ext xs) \<le> length out"
  shows "length (write_rows pt out xs rows) = length rows \<and> (\<forall>row\<in>set (write_rows pt out xs rows). length row = stride)"
  using assms
proof (induction xs arbitrary: pt rows)
  case (Cons x xs)
  have x: "entry_ok (length rows) stride x" "pt + entry_ext x \<le> length out" using Cons.prems by simp_all
  note w = write_row_ok [OF x(1) Cons.prems(2) x(2)]
  show ?case using Cons.IH [of "write_row pt out x rows" "pt + entry_ext x"] Cons.prems w by (simp add: add.assoc)
qed simp

section \<open>The loop\<close>

lemma write_cache_loop_rows:
  assumes "\<forall>x\<in>set xs. entry_ok (length (rp_req_to_token pool)) stride x" "\<forall>row\<in>set (rp_req_to_token pool). length row = stride"
    "pt + sum_list (map entry_ext xs) \<le> length out"
  shows "write_cache_loop pt out xs pool = Inr (pool\<lparr>rp_req_to_token := write_rows pt out xs (rp_req_to_token pool)\<rparr>)"
  using assms
proof (induction xs arbitrary: pt pool)
  case (Cons x xs)
  let ?rows = "rp_req_to_token pool"
  obtain r pre seq ext pfx where x: "x = (r, pre, seq, ext, pfx)" by (metis prod.exhaust)
  have h: "r < length ?rows" "pre \<le> seq" "seq \<le> stride" "length pfx = pre" "ext = seq - pre" using Cons.prems(1) x by (simp_all add: entry_ok_def)
  have l: "length (?rows ! r) = stride" using Cons.prems(2) h(1) by simp
  have e: "pt + ext \<le> length out" using Cons.prems(3) x by simp
  have w1: "pool_write r 0 pre pfx pool = Inr (pool\<lparr>rp_req_to_token := ?rows[r := pfx @ drop pre (?rows ! r)]\<rparr>)"
    using h l by (simp add: pool_write_def Let_def)
  have w2: "pool_write r pre seq (py_slice pt (pt + ext) out) (pool\<lparr>rp_req_to_token := ?rows[r := pfx @ drop pre (?rows ! r)]\<rparr>)
      = Inr (pool\<lparr>rp_req_to_token := write_row pt out x ?rows\<rparr>)"
    using h l e by (simp add: pool_write_def Let_def write_row_def x min_def max_def)
  have xe: "entry_ok (length ?rows) stride x" "pt + entry_ext x \<le> length out" using Cons.prems(1) e x by simp_all
  note w = write_row_ok [OF xe(1) Cons.prems(2) xe(2)]
  show ?case using Cons.IH [of "pool\<lparr>rp_req_to_token := write_row pt out x ?rows\<rparr>" "pt + ext"] Cons.prems w w1 w2
    unfolding x write_cache_loop.simps write_rows.simps by (simp add: add.assoc)
qed simp

section \<open>The kernel\<close>

lemma write_at_concat:
  assumes "\<forall>row\<in>set rows. length row = stride" "r < length rows" "length vs \<le> stride"
  shows "write_at (r * stride) vs (concat rows) = concat (rows[r := vs @ drop (length vs) (rows ! r)])"
  using assms
proof (induction rows arbitrary: r)
  case (Cons row rows)
  show ?case
  proof (cases r)
    case 0
    then show ?thesis using Cons.prems by (simp add: write_at_def)
  next
    case (Suc q)
    have "write_at (r * stride) vs (concat (row # rows)) = row @ write_at (q * stride) vs (concat rows)"
      using Cons.prems Suc by (simp add: write_at_def add.assoc)
    then show ?thesis using Cons.IH [of q] Cons.prems Suc by simp
  qed
qed simp

lemma blocks_write:
  assumes "s + k \<le> length mem" "0 < b"
  shows "fold (\<lambda>i. store_block b (\<lambda>j. int (i * b + j) < int k) (\<lambda>j. int s + int (i * b + j)) (\<lambda>j. v (i * b + j)))
      [0..<nat (pages_of b (int k))] mem = write_at s (map v [0..<k]) mem"
proof -
  have n: "nat (pages_of b (int k)) = ceil_div b k" using pages_of_nat [OF assms(2), of k] by simp
  have "k \<le> ceil_div b k * b" by (rule ceil_div_bounds(1) [OF assms(2)])
  then show ?thesis
    unfolding n using store_blocks [of b "\<lambda>j. int j < int k" "\<lambda>j. int s + int j" v "ceil_div b k" mem]
      store_block_write [of k "ceil_div b k * b" s mem v] assms(1) by simp
qed

lemma write_program_row:
  assumes rows: "\<forall>row\<in>set rows. length row = stride" and i: "i < length xs" and x: "entry_ok (length rows) stride (xs ! i)"
    and out: "sum_list (map entry_ext (take i xs)) + entry_ext (xs ! i) \<le> length out"
  shows "write_req_to_token_pool_program oob stride (map fst xs) (map (\<lambda>x. snd (snd (snd (snd x)))) xs) (map (\<lambda>x. fst (snd x)) xs)
     (map (\<lambda>x. fst (snd (snd x))) xs) (map entry_ext xs) out i (concat rows)
     = concat (write_row (sum_list (map entry_ext (take i xs))) out (xs ! i) rows)"
proof -
  obtain r pre seq ext pfx where e: "xs ! i = (r, pre, seq, ext, pfx)" by (metis prod.exhaust)
  have h: "r < length rows" "pre \<le> seq" "seq \<le> stride" "length pfx = pre" "ext = seq - pre" using x e by (simp_all add: entry_ok_def)
  define pt where "pt = sum_list (map entry_ext (take i xs))"
  have o: "pt + (seq - pre) \<le> length out" using out e h(5) by (simp add: pt_def)
  define seg where "seg = py_slice pt (pt + ext) out"
  have sl: "length seg = seq - pre" using o h(5) by (simp add: seg_def)
  have len: "length (concat rows) = length rows * stride" using rows by (induction rows) simp_all
  have "Suc r * stride \<le> length rows * stride" using h(1) by (intro mult_le_mono1) simp
  then have b: "r * stride + seq \<le> length (concat rows)" using h(3) len by simp
  have p: "map (\<lambda>j. tl_load oob pfx (int j)) [0..<pre] = pfx" by (rule nth_equalityI) (simp_all add: tl_load_def h(4))
  have s: "map (\<lambda>j. tl_load oob out (int pt + int j)) [0..<seq - pre] = seg"
  proof (rule nth_equalityI)
    fix j assume "j < length (map (\<lambda>j. tl_load oob out (int pt + int j)) [0..<seq - pre])"
    then have j: "j < seq - pre" "pt + j < length out" using o by simp_all
    have "tl_load oob out (int (pt + j)) = out ! (pt + j)" using j(2) by (simp only: tl_load_def nat_int of_nat_less_iff of_nat_0_le_iff simp_thms if_True)
    then show "map (\<lambda>j. tl_load oob out (int pt + int j)) [0..<seq - pre] ! j = seg ! j"
      using j o h(5) by (simp add: seg_def py_slice_def)
  qed (use sl in simp)
  have w1: "fold (\<lambda>i. store_block WRITE_BLOCK (\<lambda>j. int (i * WRITE_BLOCK + j) < int pre) (\<lambda>j. int r * int stride + int (i * WRITE_BLOCK + j))
        (\<lambda>j. tl_load oob pfx (int (i * WRITE_BLOCK + j)))) [0..<nat (pages_of WRITE_BLOCK (int pre))] (concat rows) = write_at (r * stride) pfx (concat rows)"
    using blocks_write [of "r * stride" pre "concat rows" WRITE_BLOCK "\<lambda>j. tl_load oob pfx (int j)"] b h(2) p by (simp add: WRITE_BLOCK_def)
  have sp: "int seq - int pre = int (seq - pre)" using h(2) by simp
  have ad: "int r * int stride + int n + int pre = int (r * stride + pre) + int n" for n by simp
  have "write_at (r * stride + pre) seg (write_at (r * stride) pfx (concat rows)) = write_at (r * stride) (pfx @ seg) (concat rows)"
    using write_at_append [of "r * stride" pfx seg "concat rows"] b h(2,4) sl by simp
  also have "\<dots> = concat (rows[r := (pfx @ seg) @ drop (length (pfx @ seg)) (rows ! r)])"
    by (rule write_at_concat [OF rows h(1)]) (use h sl in simp)
  also have "\<dots> = concat (write_row pt out (xs ! i) rows)" using h sl by (simp add: write_row_def e seg_def)
  finally have w2: "write_at (r * stride + pre) seg (write_at (r * stride) pfx (concat rows)) = concat (write_row pt out (xs ! i) rows)" .
  have b2: "r * stride + pre + (seq - pre) \<le> length (write_at (r * stride) pfx (concat rows))" using b h by (simp add: write_at_def)
  have cs: "sum_list (take i (map entry_ext xs)) = pt" by (simp add: pt_def take_map)
  note B = blocks_write [OF b2, of WRITE_BLOCK "\<lambda>j. tl_load oob out (int pt + int j)", unfolded s w2]
  show ?thesis
    unfolding write_req_to_token_pool_program_def Let_def using i w1 B
    by (simp add: e cs sp ad pt_def [symmetric] WRITE_BLOCK_def del: of_nat_add of_nat_mult)
qed

lemma sum_list_map_take: "sum_list (map f (take k xs)) \<le> sum_list (map f xs)" for f :: "'a \<Rightarrow> nat"
proof -
  have "map f xs = map f (take k xs) @ map f (drop k xs)" by (simp add: map_append [symmetric] del: map_append)
  then show ?thesis by simp
qed

lemma write_kernel_rows:
  assumes rows: "\<forall>row\<in>set rows. length row = stride" and xs: "\<forall>x\<in>set xs. entry_ok (length rows) stride x" and out: "sum_list (map entry_ext xs) \<le> length out"
  shows "write_req_to_token_pool_triton oob stride (map fst xs) (map (\<lambda>x. snd (snd (snd (snd x)))) xs) (map (\<lambda>x. fst (snd x)) xs)
     (map (\<lambda>x. fst (snd (snd x))) xs) (map entry_ext xs) out (concat rows) = concat (write_rows 0 out xs rows)"
proof -
  define prog where "prog = write_req_to_token_pool_program oob stride (map fst xs) (map (\<lambda>x. snd (snd (snd (snd x)))) xs) (map (\<lambda>x. fst (snd x)) xs)
     (map (\<lambda>x. fst (snd (snd x))) xs) (map entry_ext xs) out"
  have "fold prog [0..<k] (concat rows) = concat (write_rows 0 out (take k xs) rows)" if "k \<le> length xs" for k
    using that
  proof (induction k)
    case (Suc k)
    let ?ys = "take k xs"
    have k: "k < length xs" using Suc.prems by simp
    have tk: "take (Suc k) xs = ?ys @ [xs ! k]" using k by (rule take_Suc_conv_app_nth)
    have "sum_list (map entry_ext (take (Suc k) xs)) \<le> sum_list (map entry_ext xs)"
      by (rule sum_list_map_take)
    then have s: "sum_list (map entry_ext ?ys) + entry_ext (xs ! k) \<le> length out" using out unfolding tk by simp
    have ys: "\<forall>x\<in>set ?ys. entry_ok (length rows) stride x" using xs by (meson in_set_takeD)
    note W = write_rows_ok [OF ys rows, of 0 out]
    have l: "length (write_rows 0 out ?ys rows) = length rows" "\<forall>row\<in>set (write_rows 0 out ?ys rows). length row = stride" using W s by simp_all
    have "entry_ok (length (write_rows 0 out ?ys rows)) stride (xs ! k)" using xs k l(1) by simp
    then have "prog k (concat (write_rows 0 out ?ys rows)) = concat (write_row (sum_list (map entry_ext ?ys)) out (xs ! k) (write_rows 0 out ?ys rows))"
      unfolding prog_def by (rule write_program_row [OF l(2) k _ s])
    then show ?case using Suc.IH k unfolding tk write_rows_snoc by simp
  qed simp
  from this [of "length xs"] show ?thesis by (simp add: write_req_to_token_pool_triton_def prog_def)
qed

lemma unflatten_concat:
  assumes "\<forall>row\<in>set rows. length row = stride"
  shows "unflatten stride (length rows) (concat rows) = rows"
proof (rule nth_equalityI)
  fix r assume "r < length (unflatten stride (length rows) (concat rows))"
  then have r: "r < length rows" by (simp add: unflatten_def)
  have "take stride (drop (r * stride) (concat rows)) = rows ! r" using assms r
  proof (induction rows arbitrary: r)
    case (Cons row rows)
    show ?case
    proof (cases r)
      case (Suc q)
      then show ?thesis using Cons.prems Cons.IH [of q] by simp
    qed (use Cons.prems in simp)
  qed simp
  then show "unflatten stride (length rows) (concat rows) ! r = rows ! r" using r by (simp add: unflatten_def py_slice_def)
qed (simp add: unflatten_def)

section \<open>Both write the same\<close>

definition write_entries :: "nat list \<Rightarrow> nat list \<Rightarrow> nat list \<Rightarrow> nat list \<Rightarrow> int list list \<Rightarrow> write_entry list" where
  "write_entries idx pre seq ext pfx = zip idx (zip pre (zip seq (zip ext pfx)))"

lemma write_entries_cols:
  assumes "length pre = length idx" "length seq = length idx" "length ext = length idx" "length pfx = length idx"
  shows "map fst (write_entries idx pre seq ext pfx) = idx" "map (\<lambda>x. fst (snd x)) (write_entries idx pre seq ext pfx) = pre"
    "map (\<lambda>x. fst (snd (snd x))) (write_entries idx pre seq ext pfx) = seq" "map entry_ext (write_entries idx pre seq ext pfx) = ext"
    "map (\<lambda>x. snd (snd (snd (snd x)))) (write_entries idx pre seq ext pfx) = pfx" "length (write_entries idx pre seq ext pfx) = length idx"
    "\<And>i. i < length idx \<Longrightarrow> write_entries idx pre seq ext pfx ! i = (idx ! i, pre ! i, seq ! i, ext ! i, pfx ! i)"
  using assms by (auto simp: write_entries_def intro!: nth_equalityI)

lemma write_cache_indices_rows:
  assumes len: "length pre = length idx" "length seq = length idx" "length ext = length idx" "length pfx = length idx"
    and rows: "\<forall>row\<in>set (rp_req_to_token pool). length row = rp_max_context_len pool"
    and ok: "\<forall>x\<in>set (write_entries idx pre seq ext pfx). entry_ok (length (rp_req_to_token pool)) (rp_max_context_len pool) x"
    and out: "sum_list ext \<le> length out"
  shows "write_cache_indices backend oob out idx pre seq ext pfx pool
     = Inr (pool\<lparr>rp_req_to_token := write_rows 0 out (write_entries idx pre seq ext pfx) (rp_req_to_token pool)\<rparr>)"
proof -
  note C = write_entries_cols [OF len]
  have o: "sum_list (map entry_ext (write_entries idx pre seq ext pfx)) \<le> length out" using out C(4) by simp
  note W = write_rows_ok [OF ok rows, of 0 out]
  show ?thesis
  proof (cases "support_triton backend")
    case True
    then show ?thesis using write_kernel_rows [OF rows ok o, of oob] W o
        unflatten_concat [of "write_rows 0 out (write_entries idx pre seq ext pfx) (rp_req_to_token pool)" "rp_max_context_len pool"]
      unfolding C by (simp add: write_cache_indices_def Let_def)
  next
    case False
    then show ?thesis using write_cache_loop_rows [OF ok rows, of 0 out] o
      by (simp add: write_cache_indices_def write_entries_def)
  qed
qed

text \<open>The content of the rows when they are all different.\<close>

lemma write_rows_at:
  assumes "distinct (map fst xs)" "\<forall>x\<in>set xs. fst x < length rows"
  shows "\<forall>i<length xs. write_rows pt out xs rows ! fst (xs ! i)
      = (case xs ! i of (r, pre, seq, ext, pfx) \<Rightarrow>
          pfx @ py_slice (pt + sum_list (map entry_ext (take i xs))) (pt + sum_list (map entry_ext (take i xs)) + ext) out @ drop seq (rows ! r))"
    "\<forall>q. q \<notin> set (map fst xs) \<longrightarrow> write_rows pt out xs rows ! q = rows ! q"
  using assms
proof (induction xs arbitrary: pt rows)
  case (Cons x xs)
  obtain r pre seq ext pfx where x: "x = (r, pre, seq, ext, pfx)" by (metis prod.exhaust)
  { case 1
    have d: "distinct (map fst xs)" "\<forall>y\<in>set xs. fst y < length (write_row pt out x rows)" "r \<notin> fst ` set xs" "r < length rows" using 1 x by auto
    note IH = Cons.IH [OF d(1,2), of "pt + ext"]
    show ?case
    proof (intro allI impI)
      fix i assume i: "i < length (x # xs)"
      show "write_rows pt out (x # xs) rows ! fst ((x # xs) ! i) = (case (x # xs) ! i of (r, pre, seq, ext, pfx) \<Rightarrow>
          pfx @ py_slice (pt + sum_list (map entry_ext (take i (x # xs)))) (pt + sum_list (map entry_ext (take i (x # xs))) + ext) out @ drop seq (rows ! r))"
      proof (cases i)
        case 0
        then show ?thesis using IH(2) d(3,4) by (simp add: x write_row_def)
      next
        case (Suc k)
        then have k: "k < length xs" using i by simp
        obtain r2 pre2 seq2 ext2 pfx2 where y: "xs ! k = (r2, pre2, seq2, ext2, pfx2)" by (metis prod.exhaust)
        have "r2 \<in> fst ` set xs" using k y by (metis fst_conv image_eqI nth_mem)
        then have "r \<noteq> r2" using d(3) by auto
        then show ?thesis using IH(1) [rule_format, OF k] y Suc by (simp add: x write_row_def add.assoc)
      qed
    qed }
  { case 2
    have d: "distinct (map fst xs)" "\<forall>y\<in>set xs. fst y < length (write_row pt out x rows)" using 2 x by auto
    show ?case using Cons.IH(2) [OF d, of "pt + ext"] by (auto simp: x write_row_def) }
qed simp_all

end
