(* ===== verification/Req_Owner.thy ===== *)
theory Req_Owner
  imports Kv_Release
begin

text \<open>
  Ownership of KV memory by the requests of a batch: every request has a row, pages of its own
  beyond its cached prefix, and a lock on the node where that prefix ends; the pages and rows of
  different requests are disjoint. Eviction and the release of one request keep what the other
  requests own.
\<close>

section \<open>What one request owns\<close>

definition req_ids :: "req \<Rightarrow> int list" where
  "req_ids r = rq_origin_input_ids r @ rq_output_ids r"

definition req_key :: "rcache \<Rightarrow> req \<Rightarrow> radix_key" where
  "req_key c r = mk_key (take (rq_kv_committed_len r) (req_ids r)) (rq_extra_key r) (rc_is_eagle c)"

text \<open>The node holds the prefix, so that its lock keeps the prefix in the cache.\<close>

definition pins :: "rcache \<Rightarrow> nat \<Rightarrow> string option \<Rightarrow> int list list \<Rightarrow> int list \<Rightarrow> bool" where
  "pins c x ek us vs \<longleftrightarrow> x \<in> live c \<and> (us \<noteq> [] \<longrightarrow> x \<noteq> rc_root c \<and> extra c x = ek \<and> node_path c x us vs)"

definition owns_kv :: "(nat list \<Rightarrow> nat list) \<Rightarrow> rcache \<Rightarrow> int set \<Rightarrow> req_pool \<Rightarrow> req \<Rightarrow> int list \<Rightarrow> bool" where
  "owns_kv sha c U pool r gs \<longleftrightarrow> (\<exists>i x. rq_req_pool_idx r = Some i \<and> i < length (rp_req_to_token pool)
     \<and> \<not> rq_kv_committed_freed r \<and> \<not> rq_kv_overallocated_freed r \<and> rq_last_node r = Some x
     \<and> rq_kv_allocated_len r = rq_kv_committed_len r \<and> rq_kv_committed_len r \<le> length (req_ids r)
     \<and> rq_kv_committed_len r \<le> length (rp_req_to_token pool ! i)
     \<and> rc_key_fits sha c (mk_key (req_ids r) (rq_extra_key r) (rc_is_eagle c))
     \<and> req_kv c U (rq_extra_key r) (aligned_units c (req_key c r)) (take (rq_kv_committed_len r) (rp_req_to_token pool ! i))
          (rq_cache_protected_len r) gs
     \<and> pins c x (rq_extra_key r) (take (rq_cache_protected_len r) (aligned_units c (req_key c r)))
          (take (rq_cache_protected_len r) (rp_req_to_token pool ! i)))"

text \<open>What an operation must keep of a node for the requests that pin it.\<close>

definition same_node :: "rcache \<Rightarrow> rcache \<Rightarrow> nat \<Rightarrow> bool" where
  "same_node c c' x \<longleftrightarrow> x \<in> live c' \<and> extra c' x = extra c x \<and> (\<forall>us vs. node_path c' x us vs = node_path c x us vs)"

lemma pins_same:
  assumes "pins c x ek us vs" "same_node c c' x" "rc_same c c'"
  shows "pins c' x ek us vs"
  using assms by (auto simp: pins_def same_node_def rc_same_def)

lemma pins_content:
  assumes "pins c x ek us vs" "us \<noteq> []" "rc_page_size c dvd length us" "length vs = length us"
  shows "(ek, us, vs) \<in> content c"
  unfolding content_def
  by (rule CollectI, rule exI [of _ x], rule exI [of _ us], rule exI [of _ vs], rule exI [of _ "length us"])
    (use assms in \<open>simp add: pins_def\<close>)

lemma key_fits_prefix: "rc_key_fits sha c (mk_key ts ek b) \<Longrightarrow> rc_key_fits sha c (mk_key (take n ts) ek b)"
  by (auto simp: rc_key_fits_def key_ok_def toks_ok_def mk_key_def dest: in_set_takeD)

lemma owns_transfer:
  assumes o: "owns_kv sha c U pool r gs" and x: "rq_last_node r = Some x" "same_node c c' x" and sm: "rc_same c c'"
    and i: "rq_req_pool_idx r = Some i" "rp_req_to_token pool' ! i = rp_req_to_token pool ! i"
      "length (rp_req_to_token pool') = length (rp_req_to_token pool)"
    and gs: "set (page_slots (rc_page_size c) gs) \<subseteq> others c' U'"
  shows "owns_kv sha c' U' pool' r gs"
proof -
  have k: "req_key c' r = req_key c r" "rc_page_size c' = rc_page_size c" "rc_is_eagle c' = rc_is_eagle c" using sm by (simp_all add: req_key_def rc_same_def)
  let ?us = "aligned_units c (req_key c r)" and ?prot = "rq_cache_protected_len r" and ?row = "rp_req_to_token pool ! i"
  note u = rc_same_units [OF sm]
  have kv: "req_kv c U (rq_extra_key r) ?us (take (rq_kv_committed_len r) ?row) ?prot gs"
    and p: "pins c x (rq_extra_key r) (take ?prot ?us) (take ?prot ?row)" and len: "rq_kv_committed_len r \<le> length ?row"
    using o x(1) i(1) by (auto simp: owns_kv_def)
  note K = kv [unfolded req_kv_def]
  have p': "pins c' x (rq_extra_key r) (take ?prot ?us) (take ?prot ?row)" by (rule pins_same [OF p x(2) sm])
  have pl: "?prot \<le> length ?us" "?prot \<le> rq_kv_committed_len r" "rc_page_size c dvd ?prot" using K len by simp_all
  have "(rq_extra_key r, take ?prot ?us, take ?prot ?row) \<in> content c'" if "0 < ?prot"
    by (rule pins_content [OF p']) (use that pl len k in auto)
  then have "req_kv c' U' (rq_extra_key r) ?us (take (rq_kv_committed_len r) ?row) ?prot gs"
    using K gs pl by (simp add: req_kv_def k others_def min_def)
  with o p' x(1) i show ?thesis by (auto simp: owns_kv_def k u)
qed

section \<open>What a batch owns\<close>

definition owners ::
  "(nat list \<Rightarrow> nat list) \<Rightarrow> rcache \<Rightarrow> int set \<Rightarrow> req_pool \<Rightarrow> (nat \<Rightarrow> req) \<Rightarrow> (nat \<Rightarrow> int list) \<Rightarrow> nat set \<Rightarrow> bool" where
  "owners sha c U pool rs G I \<longleftrightarrow> finite I \<and> (\<forall>i\<in>I. owns_kv sha c U pool (rs i) (G i))
   \<and> (\<forall>i\<in>I. \<forall>j\<in>I. i \<noteq> j \<longrightarrow> set (G i) \<inter> set (G j) = {} \<and> rq_req_pool_idx (rs i) \<noteq> rq_req_pool_idx (rs j))
   \<and> (\<forall>x\<in>live c - {rc_root c}. int (card {i \<in> I. rq_last_node (rs i) = Some x}) \<le> held c (live c) x)"

lemma owners_subset:
  assumes "owners sha c U pool rs G I" "J \<subseteq> I"
  shows "owners sha c U pool rs G J"
proof -
  have fin: "finite I" using assms(1) by (simp add: owners_def)
  have "card {i \<in> J. rq_last_node (rs i) = Some x} \<le> card {i \<in> I. rq_last_node (rs i) = Some x}" for x
    using fin assms(2) by (intro card_mono) auto
  moreover have "finite J" using fin assms(2) by (rule finite_subset [rotated])
  ultimately show ?thesis using assms unfolding owners_def by (meson of_nat_mono order_trans subsetD)
qed

lemma owners_cong:
  assumes "\<And>i. i \<in> I \<Longrightarrow> rs' i = rs i" "\<And>i. i \<in> I \<Longrightarrow> G' i = G i"
  shows "owners sha c U pool rs' G' I = owners sha c U pool rs G I"
proof -
  have "{i \<in> I. rq_last_node (rs' i) = Some x} = {i \<in> I. rq_last_node (rs i) = Some x}" for x using assms(1) by auto
  then show ?thesis using assms by (simp add: owners_def)
qed

lemma ownsD:
  assumes "owns_kv sha c U pool r gs"
  obtains i x where "rq_req_pool_idx r = Some i" "rq_last_node r = Some x" "x \<in> live c" "i < length (rp_req_to_token pool)"
    "set (page_slots (rc_page_size c) gs) \<subseteq> others c U"
  using assms by (auto simp: owns_kv_def pins_def req_kv_def others_def)

lemma pinned_held:
  assumes o: "owners sha c U pool rs G I" and i: "i \<in> I" "rq_last_node (rs i) = Some x" "x \<in> live c" "x \<noteq> rc_root c"
  shows "1 \<le> held c (live c) x"
proof -
  have "finite {i \<in> I. rq_last_node (rs i) = Some x}" using o by (simp add: owners_def)
  then have "0 < card {i \<in> I. rq_last_node (rs i) = Some x}" using i by (auto simp: card_gt_0_iff)
  then have "1 \<le> int (card {i \<in> I. rq_last_node (rs i) = Some x})" by simp
  also have "\<dots> \<le> held c (live c) x" using o i by (simp add: owners_def)
  finally show ?thesis .
qed

text \<open>An operation that keeps the pinned nodes and the slots of the requests keeps their ownership.\<close>

lemma owners_transfer:
  assumes o: "owners sha c U pool rs G I" and sm: "rc_same c c'"
    and nodes: "\<And>i x. i \<in> I \<Longrightarrow> rq_last_node (rs i) = Some x \<Longrightarrow> x \<in> live c \<Longrightarrow> same_node c c' x"
    and sl: "\<And>i. i \<in> I \<Longrightarrow> set (page_slots (rc_page_size c) (G i)) \<subseteq> others c' U'"
    and rows: "rp_req_to_token pool' = rp_req_to_token pool"
    and held: "\<And>x. x \<in> live c' - {rc_root c} \<Longrightarrow> int (card {i \<in> I. rq_last_node (rs i) = Some x}) \<le> held c' (live c') x"
  shows "owners sha c' U' pool' rs G I"
proof -
  have "owns_kv sha c' U' pool' (rs i) (G i)" if i: "i \<in> I" for i
  proof -
    have oi: "owns_kv sha c U pool (rs i) (G i)" using o i by (simp add: owners_def)
    then obtain k x where k: "rq_req_pool_idx (rs i) = Some k" "rq_last_node (rs i) = Some x" "x \<in> live c" by (rule ownsD)
    show ?thesis by (rule owns_transfer [OF oi k(2) nodes [OF i k(2,3)] sm k(1) _ _ sl [OF i]]) (simp_all add: rows)
  qed
  moreover have "rc_root c' = rc_root c" using sm by (simp add: rc_same_def)
  ultimately show ?thesis using o held unfolding owners_def by simp
qed

section \<open>Eviction\<close>

lemma evict_keeps_nodes:
  assumes en: "rc_enabled c" and s: "rc_slots c (content c) U" and lv: "distinct leaves" "set leaves = rc_evictable_leaves c"
    and e: "evict sha num leaves c = Inr (k, c')"
  shows "live c' \<subseteq> live c" "x \<in> live c \<Longrightarrow> x = rc_root c \<or> 1 \<le> held c (live c) x \<Longrightarrow> same_node c c' x"
    "x \<in> live c' \<Longrightarrow> held c' (live c') x = held c (live c) x"
proof -
  obtain L pre vals where w: "rc_wf c L pre vals" "rc_tree c L pre vals" "live c = L" "content c = stored c L pre vals" "\<not> rc_disable c"
    using en by (metis rc_enabled_def rc_inv_wfE)
  obtain L' where R: "evict_result c L pre vals U num k c' L'"
    using evict_spec [OF w(1) _ w(5) lv, of U sha num] s e w(4) by auto
  note R = R [unfolded evict_result_def]
  have w': "rc_wf c' L' pre vals" and ef: "evict_frame c c'" and sub: "L' \<subseteq> L" and z: "\<forall>n\<in>L - L'. lock c n = 0"
    and h: "\<forall>y\<in>L'. held c' L' y = held c L y" using R by argo+
  have t': "rc_tree c' L' pre vals" using w' by (simp add: rc_wf_def)
  note l' = wf_contentD(2) [OF w']
  show "live c' \<subseteq> live c" using sub l' w(3) by simp
  show "x \<in> live c' \<Longrightarrow> held c' (live c') x = held c (live c) x" using h l' w(3) by simp
  show "same_node c c' x" if x: "x \<in> live c" "x = rc_root c \<or> 1 \<le> held c (live c) x"
  proof -
    have "x \<in> L'"
    proof (cases "x = rc_root c")
      case True
      have "rc_root c' \<in> L'" by (rule rc_treeD(3) [OF t'])
      then show ?thesis using True ef by (simp add: evict_frame_def)
    next
      case False
      have "acct_core c L" using w(1) by (simp add: rc_wf_def rc_acct_core)
      then have "held c L x \<le> lock c x" using lock_ge_held [OF w(2)] x(1) w(3) by simp
      then show ?thesis using z x False w(3) by (metis DiffI not_one_le_zero order_trans)
    qed
    moreover have "extra c' x = extra c x" using ef by (simp add: evict_frame_def)
    ultimately show ?thesis using x(1) w(3) l' by (simp add: same_node_def node_path_iff [OF t'] node_path_iff [OF w(2)])
  qed
qed

lemma evict_from_tree_cache_owners:
  assumes en: "rc_enabled c" and s: "rc_slots c (content c) U" and o: "enumerates order" and ow: "owners sha0 c U pool rs G I"
  shows "\<exists>c' U'. evict_from_tree_cache sha order num c = Inr c' \<and> rc_enabled c' \<and> rc_same c c' \<and> U' \<subseteq> U
     \<and> rc_slots c' (content c') U' \<and> others c' U' = others c U \<and> owners sha0 c' U' pool rs G I
     \<and> min num (kv_available_size (rc_allocator c) + nat (rc_evictable_size c)) \<le> kv_available_size (rc_allocator c')
     \<and> (num \<le> kv_available_size (rc_allocator c) \<longrightarrow> c' = c)
     \<and> kv_available_size (rc_allocator c) \<le> kv_available_size (rc_allocator c')"
proof -
  obtain c' U' where e: "evict_from_tree_cache sha order num c = Inr c'" "rc_enabled c'" "rc_same c c'" "U' \<subseteq> U"
     "rc_slots c' (content c') U'" "others c' U' = others c U"
     "min num (kv_available_size (rc_allocator c) + nat (rc_evictable_size c)) \<le> kv_available_size (rc_allocator c')"
     "num \<le> kv_available_size (rc_allocator c) \<longrightarrow> c' = c"
    using evict_from_tree_cache_ok [OF en s o, of sha num] by blast
  have fin: "finite (rc_evictable_leaves c)"
  proof -
    obtain L pre vals where w: "rc_wf c L pre vals" "rc_tree c L pre vals" using en by (metis rc_enabled_def rc_inv_wfE)
    then show ?thesis using rc_treeD(2) [OF w(2)] by (simp add: rc_wf_def rc_acct_def free_leaves_def)
  qed
  have k: "c' = c \<or> (\<exists>k. evict sha num (order (rc_evictable_leaves c)) c = Inr (k, c'))"
    using e(1) by (auto simp: evict_from_tree_cache_def rbind_eq_Inr_iff split: if_splits)
  have lv: "distinct (order (rc_evictable_leaves c))" "set (order (rc_evictable_leaves c)) = rc_evictable_leaves c"
    using o fin by (simp_all add: enumerates_def)
  have sub: "live c' \<subseteq> live c" and sn: "\<And>x. x \<in> live c \<Longrightarrow> x = rc_root c \<or> 1 \<le> held c (live c) x \<Longrightarrow> same_node c c' x"
    and h: "\<And>x. x \<in> live c' \<Longrightarrow> held c' (live c') x = held c (live c) x"
  proof -
    consider "c' = c" | k where "evict sha num (order (rc_evictable_leaves c)) c = Inr (k, c')" using k by blast
    then have "live c' \<subseteq> live c \<and> (\<forall>x\<in>live c. x = rc_root c \<or> 1 \<le> held c (live c) x \<longrightarrow> same_node c c' x)
       \<and> (\<forall>x\<in>live c'. held c' (live c') x = held c (live c) x)"
      by cases (simp add: same_node_def, use evict_keeps_nodes [OF en s lv] in blast)
    then show "live c' \<subseteq> live c" "\<And>x. x \<in> live c \<Longrightarrow> x = rc_root c \<or> 1 \<le> held c (live c) x \<Longrightarrow> same_node c c' x"
      "\<And>x. x \<in> live c' \<Longrightarrow> held c' (live c') x = held c (live c) x" by blast+
  qed
  have "owners sha0 c' U' pool rs G I"
  proof (rule owners_transfer [OF ow e(3)])
    show "same_node c c' x" if "i \<in> I" "rq_last_node (rs i) = Some x" "x \<in> live c" for i x
      using sn [OF that(3)] pinned_held [OF ow that] by blast
    show "set (page_slots (rc_page_size c) (G i)) \<subseteq> others c' U'" if "i \<in> I" for i
      using ow that unfolding e(6) owners_def by (blast elim: ownsD)
    show "int (card {i \<in> I. rq_last_node (rs i) = Some x}) \<le> held c' (live c') x" if "x \<in> live c' - {rc_root c}" for x
      using that h [of x] sub ow by (auto simp: owners_def)
  qed simp
  moreover have "kv_available_size (rc_allocator c) \<le> kv_available_size (rc_allocator c')"
    using e(7,8) by (cases "num \<le> kv_available_size (rc_allocator c)") auto
  ultimately show ?thesis using e by blast
qed

section \<open>Releasing a request\<close>

lemma held_nonneg: "rc_enabled c \<Longrightarrow> x \<in> live c \<Longrightarrow> x \<noteq> rc_root c \<Longrightarrow> 0 \<le> held c (live c) x"
  by (auto simp: rc_enabled_def rc_wf_def rc_acct_def elim!: rc_inv_wfE)

lemma keeps_same_node: "keeps_nodes c c' \<Longrightarrow> x \<in> live c \<Longrightarrow> same_node c c' x"
  by (auto simp: keeps_nodes_def same_node_def)

lemma ceil_align_ge: "0 < p \<Longrightarrow> n \<le> ceil_align n p"
  unfolding ceil_align_def using div_mult_mod_eq [of "n + p - 1" p] mod_less_divisor [of p "n + p - 1"] by linarith

lemma release_kv_cache_owned:
  assumes en: "rc_enabled c" and s: "rc_slots c (content c) U" and o: "owns_kv sha c U pool r gs"
    and h: "\<And>x. rq_last_node r = Some x \<Longrightarrow> x \<noteq> rc_root c \<Longrightarrow> 1 \<le> held c (live c) x"
  shows "\<exists>i x r' pool' c' U'. rq_req_pool_idx r = Some i \<and> rq_last_node r = Some x
     \<and> release_kv_cache sha now False True (rc_page_size c) ins r pool c = Inr (r', pool', c')
     \<and> r' = r\<lparr>rq_kv_committed_freed := True, rq_kv_overallocated_freed := True, rq_req_pool_idx := None\<rparr>
     \<and> pool' = pool\<lparr>rp_free_slots := rp_free_slots pool @ [i]\<rparr>
     \<and> rc_enabled c' \<and> rc_same c c' \<and> keeps_nodes c c' \<and> U' \<subseteq> U \<and> rc_slots c' (content c') U'
     \<and> others c' U' = others c U - set (page_slots (rc_page_size c) gs)
     \<and> (\<forall>y\<in>live c - {rc_root c}. held c' (live c') y = held c (live c) y - (if y = x then 1 else 0))"
proof -
  obtain i x where O: "rq_req_pool_idx r = Some i" "i < length (rp_req_to_token pool)" "\<not> rq_kv_committed_freed r" "\<not> rq_kv_overallocated_freed r"
     "rq_last_node r = Some x" "rq_kv_allocated_len r = rq_kv_committed_len r" "rq_kv_committed_len r \<le> length (req_ids r)"
     "rq_kv_committed_len r \<le> length (rp_req_to_token pool ! i)" "rc_key_fits sha c (mk_key (req_ids r) (rq_extra_key r) (rc_is_eagle c))"
     "req_kv c U (rq_extra_key r) (aligned_units c (req_key c r)) (take (rq_kv_committed_len r) (rp_req_to_token pool ! i)) (rq_cache_protected_len r) gs"
     "x \<in> live c"
    using o by (auto simp: owns_kv_def pins_def)
  have n: "rq_kv_committed_len r = cache_commit_len False r" by (simp add: cache_commit_len_def)
  have fits: "rc_key_fits sha c (req_key c r)" using key_fits_prefix [OF O(9)] by (simp add: req_key_def)
  have key: "req_key c r = mk_key (take (rq_kv_committed_len r) (rq_origin_input_ids r @ rq_output_ids r)) (rq_extra_key r) (rc_is_eagle c)"
    by (simp add: req_key_def req_ids_def)
  obtain r1 c1 U1 where f: "cache_finished_req sha now False (ins \<and> \<not> rq_skip_radix_cache_insert r) pool r c = Inr (r1, c1)" "rc_enabled c1" "r1 = r\<lparr>rq_kv_committed_freed := True\<rparr>"
     "U1 \<subseteq> U" "rc_slots c1 (content c1) U1" "others c1 U1 = others c U - set (page_slots (rc_page_size c) gs)"
     "\<forall>y\<in>live c - {rc_root c}. held c1 (live c1) y = held c (live c) y - (if y = x then 1 else 0)" "rc_same c c1" "keeps_nodes c c1"
    using cache_finished_req_spec [OF en s O(1-3) O(5) O(11) h [OF O(5)] n O(7) [unfolded req_ids_def] O(8) key fits O(10), of now "ins \<and> \<not> rq_skip_radix_cache_insert r"] by blast
  have "\<not> (if 1 < rc_page_size c then ceil_align (rq_kv_committed_len r) (rc_page_size c) else rq_kv_committed_len r) < rq_kv_committed_len r"
    using ceil_align_ge [of "rc_page_size c" "rq_kv_committed_len r"] by auto
  then have "release_kv_cache sha now False True (rc_page_size c) ins r pool c
     = Inr (r1\<lparr>rq_kv_overallocated_freed := True, rq_req_pool_idx := None\<rparr>, pool\<lparr>rp_free_slots := rp_free_slots pool @ [i]\<rparr>, c1)"
    unfolding release_kv_cache_def pop_overallocated_kv_cache_def pool_free_def
    using O(1,4,6) f(1,3) by (simp add: Let_def cache_commit_len_def)
  then show ?thesis using O(1,5) f(2-9)
    by - (rule exI [of _ i], rule exI [of _ x], rule exI, rule exI, rule exI [of _ c1], rule exI [of _ U1], simp)
qed

end
