(* ===== verification/Retract_Decode.thy ===== *)
theory Retract_Decode
  imports Schedule_Batch Req_Owner
begin

text \<open>
  Retraction makes room for the next decode step: the loop ends, it gives back exactly the pages
  of the requests it retracts, and what it keeps fits in memory.
\<close>

section \<open>The memory of a batch\<close>

definition env_ok :: "decode_env \<Rightarrow> rcache \<Rightarrow> bool" where
  "env_ok env c \<longleftrightarrow> enumerates (de_order env) \<and> de_spec env = SpecNone \<and> \<not> de_strip_thinking_cache env
     \<and> de_page_size env = rc_page_size c"

text \<open>The requests at the positions \<open>I\<close> own their memory; \<open>U\<close> are the slots in use.\<close>

definition mem_inv :: "decode_env \<Rightarrow> int set \<Rightarrow> (nat \<Rightarrow> int list) \<Rightarrow> nat set \<Rightarrow> mem_state \<Rightarrow> bool" where
  "mem_inv env U G I st = (case st of (reqs, pool, c) \<Rightarrow> env_ok env c \<and> rc_enabled c \<and> rc_slots c (content c) U
     \<and> I \<subseteq> {..<length reqs} \<and> owners (de_sha env) c U pool (\<lambda>i. sq_mem (reqs ! i)) G I)"

abbreviation req_pages :: "rcache \<Rightarrow> int list \<Rightarrow> int set" where
  "req_pages c gs \<equiv> set (page_slots (rc_page_size c) gs)"

definition retracted_req :: "batch_req \<Rightarrow> batch_req" where
  "retracted_req r = reset_for_retract (r\<lparr>sq_mem := (sq_mem r)\<lparr>rq_req_pool_idx := None\<rparr>\<rparr>)"

lemma env_ok_same: "rc_same c c' \<Longrightarrow> env_ok env c' = env_ok env c"
  by (simp add: env_ok_def rc_same_def)

lemma page_slots_disjoint:
  assumes "0 < p" "set gs \<inter> set hs = {}"
  shows "set (page_slots p gs) \<inter> set (page_slots p hs) = {}"
proof -
  have im: "(\<lambda>i. i div int p) ` set (page_slots p ks) = set ks" for ks
  proof -
    have "(h * int p + int j) div int p = h" if "j < p" for h j using that by simp
    then show ?thesis using assms(1) by (auto simp: page_slots_def image_UN image_image)
  qed
  show ?thesis using assms(2) im [of gs] im [of hs] by blast
qed

lemma mem_inv_subset: "mem_inv env U G I st \<Longrightarrow> J \<subseteq> I \<Longrightarrow> mem_inv env U G J st"
  by (auto simp: mem_inv_def split: prod.splits intro: owners_subset)

lemma mem_inv_evict:
  assumes "mem_inv env U G I (reqs, pool, c)"
  shows "\<exists>c' U'. evict_from_tree_cache (de_sha env) (de_order env) num c = Inr c' \<and> mem_inv env U' G I (reqs, pool, c')
     \<and> rc_same c c' \<and> others c' U' = others c U \<and> (num \<le> kv_available_size (rc_allocator c) \<longrightarrow> c' = c)
     \<and> min num (kv_available_size (rc_allocator c) + nat (rc_evictable_size c)) \<le> kv_available_size (rc_allocator c')"
proof -
  have h: "env_ok env c" "rc_enabled c" "rc_slots c (content c) U" "I \<subseteq> {..<length reqs}"
     "owners (de_sha env) c U pool (\<lambda>i. sq_mem (reqs ! i)) G I" "enumerates (de_order env)"
    using assms by (simp_all add: mem_inv_def env_ok_def)
  obtain c' U' where e: "evict_from_tree_cache (de_sha env) (de_order env) num c = Inr c'" "rc_enabled c'" "rc_same c c'"
     "rc_slots c' (content c') U'" "others c' U' = others c U" "owners (de_sha env) c' U' pool (\<lambda>i. sq_mem (reqs ! i)) G I"
     "min num (kv_available_size (rc_allocator c) + nat (rc_evictable_size c)) \<le> kv_available_size (rc_allocator c')"
     "num \<le> kv_available_size (rc_allocator c) \<longrightarrow> c' = c"
    using evict_from_tree_cache_owners [OF h(2,3,6,5), of "de_sha env" num] by blast
  have "mem_inv env U' G I (reqs, pool, c')" using e h by (simp add: mem_inv_def env_ok_same [OF e(3)])
  with e show ?thesis by blast
qed

text \<open>The cache changes, but not what the rest of the batch sees of it.\<close>

lemma mem_inv_release:
  assumes m: "mem_inv env U G I (reqs, pool, c)" and j: "j \<in> I"
  shows "\<exists>i c' U' r'. rq_req_pool_idx (sq_mem (reqs ! j)) = Some i
     \<and> release_kv_cache (de_sha env) (de_now env) (de_strip_thinking_cache env) (de_spec env = SpecNone) (de_page_size env) ins
          (sq_mem (reqs ! j)) pool c = Inr (r', pool\<lparr>rp_free_slots := rp_free_slots pool @ [i]\<rparr>, c')
     \<and> r' = (sq_mem (reqs ! j))\<lparr>rq_kv_committed_freed := True, rq_kv_overallocated_freed := True, rq_req_pool_idx := None\<rparr>
     \<and> mem_inv env U' G (I - {j}) (reqs, pool\<lparr>rp_free_slots := rp_free_slots pool @ [i]\<rparr>, c')
     \<and> rc_same c c' \<and> others c' U' = others c U - req_pages c (G j)"
proof -
  have h: "env_ok env c" "rc_enabled c" "rc_slots c (content c) U" "I \<subseteq> {..<length reqs}"
     "owners (de_sha env) c U pool (\<lambda>i. sq_mem (reqs ! i)) G I"
    using m by (simp_all add: mem_inv_def)
  have p: "0 < rc_page_size c" by (rule rc_enabledD(4) [OF h(2)])
  have oj: "owns_kv (de_sha env) c U pool (sq_mem (reqs ! j)) (G j)" using h(5) j by (simp add: owners_def)
  have hx: "1 \<le> held c (live c) x" if "rq_last_node (sq_mem (reqs ! j)) = Some x" "x \<noteq> rc_root c" for x
  proof -
    have "x \<in> live c" using oj that(1) by (auto elim: ownsD)
    then show ?thesis using pinned_held [OF h(5) j that(1)] that(2) by simp
  qed
  obtain i x c' U' where r: "rq_req_pool_idx (sq_mem (reqs ! j)) = Some i" "rq_last_node (sq_mem (reqs ! j)) = Some x"
     "release_kv_cache (de_sha env) (de_now env) False True (rc_page_size c) ins (sq_mem (reqs ! j)) pool c
       = Inr ((sq_mem (reqs ! j))\<lparr>rq_kv_committed_freed := True, rq_kv_overallocated_freed := True, rq_req_pool_idx := None\<rparr>,
              pool\<lparr>rp_free_slots := rp_free_slots pool @ [i]\<rparr>, c')"
     "rc_enabled c'" "keeps_nodes c c'" "rc_slots c' (content c') U'" "others c' U' = others c U - req_pages c (G j)" "rc_same c c'"
     "\<forall>y\<in>live c - {rc_root c}. held c' (live c') y = held c (live c) y - (if y = x then 1 else 0)"
    using release_kv_cache_owned [OF h(2,3) oj hx, of "de_now env" ins] by blast
  let ?rs = "\<lambda>i. sq_mem (reqs ! i)" and ?pool = "pool\<lparr>rp_free_slots := rp_free_slots pool @ [i]\<rparr>"
  note sm = r(8)
  have "owners (de_sha env) c' U' ?pool ?rs G (I - {j})"
  proof (rule owners_transfer [OF owners_subset [OF h(5)] sm])
    show "same_node c c' y" if "y \<in> live c" for y by (rule keeps_same_node [OF r(5) that])
    show "req_pages c (G i) \<subseteq> others c' U'" if i: "i \<in> I - {j}" for i
    proof -
      have "set (G i) \<inter> set (G j) = {}" and oi: "owns_kv (de_sha env) c U pool (?rs i) (G i)" using h(5) i j by (auto simp: owners_def)
      then have "req_pages c (G i) \<inter> req_pages c (G j) = {}" by (intro page_slots_disjoint [OF p])
      moreover have "req_pages c (G i) \<subseteq> others c U" using oi by (rule ownsD)
      ultimately show ?thesis unfolding r(7) by blast
    qed
    show "int (card {i \<in> I - {j}. rq_last_node (?rs i) = Some y}) \<le> held c' (live c') y" if y: "y \<in> live c' - {rc_root c}" for y
    proof -
      let ?A = "{i \<in> I. rq_last_node (?rs i) = Some y}"
      have f: "finite ?A" using h(5) by (simp add: owners_def)
      have e: "{i \<in> I - {j}. rq_last_node (?rs i) = Some y} = ?A - {j}" by blast
      have jA: "j \<in> ?A \<longleftrightarrow> y = x" using j r(2) by auto
      then have "int (card (?A - {j})) = int (card ?A) - (if y = x then 1 else 0)"
      proof (cases "j \<in> ?A")
        case True
        then have "Suc (card (?A - {j})) = card ?A" by (rule card_Suc_Diff1 [OF f])
        moreover have yx: "y = x" using True jA by blast
        ultimately show ?thesis unfolding if_P [OF yx] by linarith
      next
        case False
        then have "?A - {j} = ?A" by blast
        moreover have yx: "y \<noteq> x" using False jA by blast
        ultimately show ?thesis unfolding if_not_P [OF yx] by simp
      qed
      moreover have "int (card ?A) - (if y = x then 1 else 0) \<le> held c' (live c') y"
      proof (cases "y \<in> live c")
        case True
        then have "int (card ?A) \<le> held c (live c) y" using h(5) y by (simp add: owners_def)
        moreover have "held c' (live c') y = held c (live c) y - (if y = x then 1 else 0)" using r(9) y True by simp
        ultimately show ?thesis by linarith
      next
        case False
        have "\<not> rq_last_node (?rs i) = Some y" if "i \<in> I" for i using h(5) that False unfolding owners_def by (auto elim!: ownsD)
        then have A0: "?A = {}" by blast
        have "0 \<le> held c' (live c') y" using held_nonneg [OF r(4), of y] y sm by (simp add: rc_same_def)
        then show ?thesis unfolding A0 by auto
      qed
      ultimately show ?thesis unfolding e by linarith
    qed
  qed auto
  moreover have "I - {j} \<subseteq> {..<length reqs}" using h(4) by blast
  ultimately have "mem_inv env U' G (I - {j}) (reqs, ?pool, c')" using r(4,6) h(1) by (simp add: mem_inv_def env_ok_same [OF sm])
  then show ?thesis using r(1,3,7) sm h(1)
    by - (rule exI [of _ i], rule exI [of _ c'], rule exI [of _ U'], simp add: env_ok_def)
qed

lemma release_req_ok:
  assumes m: "mem_inv env U G I (reqs, pool, c)" and j: "j \<in> I"
  shows "\<exists>i c' U'. release_req env j k (reqs, pool, c)
       = Inr (reqs[j := retracted_req (reqs ! j)], pool\<lparr>rp_free_slots := rp_free_slots pool @ [i]\<rparr>, c')
     \<and> rq_req_pool_idx (sq_mem (reqs ! j)) = Some i
     \<and> mem_inv env U' G (I - {j}) (reqs[j := retracted_req (reqs ! j)], pool\<lparr>rp_free_slots := rp_free_slots pool @ [i]\<rparr>, c')
     \<and> rc_same c c' \<and> others c' U' = others c U - req_pages c (G j)"
proof -
  have jl: "j < length reqs" using m j by (auto simp: mem_inv_def)
  let ?reqs = "reqs[j := retracted_req (reqs ! j)]"
  obtain i c1 U1 where r: "rq_req_pool_idx (sq_mem (reqs ! j)) = Some i"
     "release_kv_cache (de_sha env) (de_now env) (de_strip_thinking_cache env) (de_spec env = SpecNone) (de_page_size env) False
          (sq_mem (reqs ! j)) pool c
       = Inr ((sq_mem (reqs ! j))\<lparr>rq_kv_committed_freed := True, rq_kv_overallocated_freed := True, rq_req_pool_idx := None\<rparr>,
              pool\<lparr>rp_free_slots := rp_free_slots pool @ [i]\<rparr>, c1)"
     "mem_inv env U1 G (I - {j}) (reqs, pool\<lparr>rp_free_slots := rp_free_slots pool @ [i]\<rparr>, c1)"
     "rc_same c c1" "others c1 U1 = others c U - req_pages c (G j)"
    using mem_inv_release [OF m j, of False] by blast
  obtain c2 U2 where e: "evict_from_tree_cache (de_sha env) (de_order env) (k * de_retract_decode_steps env) c1 = Inr c2"
     "mem_inv env U2 G (I - {j}) (reqs, pool\<lparr>rp_free_slots := rp_free_slots pool @ [i]\<rparr>, c2)" "rc_same c1 c2" "others c2 U2 = others c1 U1"
    using mem_inv_evict [OF r(3), of "k * de_retract_decode_steps env"] by blast
  have "mem_inv env U2 G (I - {j}) (?reqs, pool\<lparr>rp_free_slots := rp_free_slots pool @ [i]\<rparr>, c2)"
  proof -
    have "owners (de_sha env) c2 U2 pool' (\<lambda>i. sq_mem (?reqs ! i)) G (I - {j}) = owners (de_sha env) c2 U2 pool' (\<lambda>i. sq_mem (reqs ! i)) G (I - {j})" for pool'
      by (rule owners_cong) auto
    then show ?thesis using e(2) by (simp add: mem_inv_def)
  qed
  moreover have "release_req env j k (reqs, pool, c) = Inr (?reqs, pool\<lparr>rp_free_slots := rp_free_slots pool @ [i]\<rparr>, c2)"
    using jl r(2) e(1) by (simp add: release_req_def retracted_req_def reset_for_retract_def Let_def)
  moreover have "rc_same c c2" by (rule rc_same_trans [OF r(4) e(3)])
  ultimately show ?thesis using r(1,5) e(4)
    by - (rule exI [of _ i], rule exI [of _ c2], rule exI [of _ U2], simp)
qed

section \<open>The check\<close>

abbreviation decode_need :: "rcache \<Rightarrow> batch_req list \<Rightarrow> nat" where
  "decode_need c rs \<equiv> new_tokens_required_next_decode SpecNone (rc_page_size c) (map sq_mem rs)"

lemma check_decode_mem_ok:
  assumes m: "mem_inv env U G I (reqs, pool, c)"
  shows "\<exists>c' U'. check_decode_mem env rs c = Inr (decode_need c' rs \<le> kv_available_size (rc_allocator c'), c')
     \<and> mem_inv env U' G I (reqs, pool, c') \<and> rc_same c c' \<and> others c' U' = others c U
     \<and> (decode_need c rs \<le> kv_available_size (rc_allocator c) + nat (rc_evictable_size c) \<longrightarrow> decode_need c' rs \<le> kv_available_size (rc_allocator c'))
     \<and> (decode_need c rs \<le> kv_available_size (rc_allocator c) \<longrightarrow> c' = c)"
proof -
  have h: "de_spec env = SpecNone" "al_page_size (rc_allocator c) = rc_page_size c" using m by (simp_all add: mem_inv_def env_ok_def rc_slots_def)
  obtain c' U' where e: "evict_from_tree_cache (de_sha env) (de_order env) (decode_need c rs) c = Inr c'" "mem_inv env U' G I (reqs, pool, c')"
     "rc_same c c'" "others c' U' = others c U" "decode_need c rs \<le> kv_available_size (rc_allocator c) \<longrightarrow> c' = c"
     "min (decode_need c rs) (kv_available_size (rc_allocator c) + nat (rc_evictable_size c)) \<le> kv_available_size (rc_allocator c')"
    using mem_inv_evict [OF m, of "decode_need c rs"] by blast
  have "decode_need c' rs = decode_need c rs" using e(3) by (simp add: rc_same_def)
  with e h show ?thesis
    by - (rule exI [of _ c'], rule exI [of _ U'], auto simp: check_decode_mem_def Let_def)
qed

section \<open>The loop\<close>

text \<open>\<open>drop k idxs\<close> has been retracted, last first.\<close>

definition retraction ::
  "decode_env \<Rightarrow> int set \<Rightarrow> (nat \<Rightarrow> int list) \<Rightarrow> nat list \<Rightarrow> mem_state \<Rightarrow> int set \<Rightarrow> nat \<Rightarrow> mem_state \<Rightarrow> bool" where
  "retraction env U G idxs st U' k st' \<longleftrightarrow> (case (st, st') of ((reqs, pool, c), (reqs', pool', c')) \<Rightarrow>
     mem_inv env U' G (set (take k idxs)) (reqs', pool', c') \<and> rc_same c c'
   \<and> others c' U' = others c U - (\<Union>i\<in>set (drop k idxs). req_pages c (G i))
   \<and> length reqs' = length reqs
   \<and> (\<forall>i<length reqs. reqs' ! i = (if i \<in> set (drop k idxs) then retracted_req (reqs ! i) else reqs ! i))
   \<and> rp_req_to_token pool' = rp_req_to_token pool
   \<and> rp_free_slots pool' = rp_free_slots pool @ map (\<lambda>i. the (rq_req_pool_idx (sq_mem (reqs ! i)))) (rev (drop k idxs)))"

lemma retraction_none:
  assumes "mem_inv env U' G (set idxs) (reqs, pool, c')" "rc_same c c'" "others c' U' = others c U"
  shows "retraction env U G idxs (reqs, pool, c) U' (length idxs) (reqs, pool, c')"
  using assms by (simp add: retraction_def)

text \<open>One more request is retracted first.\<close>

lemma retraction_snoc:
  assumes r: "retraction env U1 G ys (reqs1, pool1, c1) U' k (reqs', pool', c')" and k: "k \<le> length ys"
    and d: "distinct (ys @ [j])" "j < length reqs" "set ys \<subseteq> {..<length reqs}"
    and f: "reqs1 = reqs[j := retracted_req (reqs ! j)]" "rp_req_to_token pool1 = rp_req_to_token pool"
      "rp_free_slots pool1 = rp_free_slots pool @ [i]" "rq_req_pool_idx (sq_mem (reqs ! j)) = Some i"
      "rc_same c c1" "others c1 U1 = others c U - req_pages c (G j)"
  shows "retraction env U G (ys @ [j]) (reqs, pool, c) U' k (reqs', pool', c')"
proof -
  note R = r [unfolded retraction_def prod.case]
  have tk: "take k (ys @ [j]) = take k ys" "drop k (ys @ [j]) = drop k ys @ [j]" using k by simp_all
  have jn: "j \<notin> set (drop k ys)" using d(1) by (auto dest: in_set_dropD)
  have ys: "i' \<noteq> j" "i' < length reqs" if "i' \<in> set (drop k ys)" for i' using that d by (auto dest: in_set_dropD)
  have pg: "rc_page_size c1 = rc_page_size c" using f(5) by (simp add: rc_same_def)
  have "rc_same c c'" using R rc_same_trans [OF f(5)] by blast
  moreover have "others c' U' = others c U - (\<Union>i\<in>set (drop k ys @ [j]). req_pages c (G i))" using R f(6) unfolding pg by auto
  moreover have "\<forall>i<length reqs. reqs' ! i = (if i \<in> set (drop k ys @ [j]) then retracted_req (reqs ! i) else reqs ! i)"
  proof (intro allI impI)
    fix i assume i: "i < length reqs"
    then have "reqs' ! i = (if i \<in> set (drop k ys) then retracted_req (reqs1 ! i) else reqs1 ! i)" using R by (simp add: f(1))
    then show "reqs' ! i = (if i \<in> set (drop k ys @ [j]) then retracted_req (reqs ! i) else reqs ! i)"
      using jn i by (cases "i = j") (simp_all add: f(1))
  qed
  moreover have "map (\<lambda>i. the (rq_req_pool_idx (sq_mem (reqs1 ! i)))) (rev (drop k ys)) = map (\<lambda>i. the (rq_req_pool_idx (sq_mem (reqs ! i)))) (rev (drop k ys))"
  proof (rule map_cong [OF refl])
    fix i' assume "i' \<in> set (rev (drop k ys))"
    then have "i' \<noteq> j" using ys(1) by simp
    then show "the (rq_req_pool_idx (sq_mem (reqs1 ! i'))) = the (rq_req_pool_idx (sq_mem (reqs ! i')))" by (simp add: f(1))
  qed
  ultimately show ?thesis using R f unfolding retraction_def prod.case tk by simp
qed

lemma retract_loop_ok:
  assumes "mem_inv env U G (set idxs) (reqs, pool, c)" "distinct idxs" "idxs \<noteq> []"
  shows "\<exists>k reqs' pool' c' U'. 0 < k \<and> k \<le> length idxs
     \<and> retract_loop env first idxs retr (reqs, pool, c) = Inr (take k idxs, retr @ rev (drop k idxs), (reqs', pool', c'))
     \<and> retraction env U G idxs (reqs, pool, c) U' k (reqs', pool', c')
     \<and> (1 < k \<longrightarrow> decode_need c' (map ((!) reqs') (take k idxs)) \<le> kv_available_size (rc_allocator c'))
     \<and> (first \<and> 1 < length idxs \<longrightarrow> k < length idxs)"
  using assms
proof (induction idxs arbitrary: first retr reqs pool c U rule: rev_induct)
  case (snoc j ys)
  let ?idxs = "ys @ [j]"
  have il: "\<forall>i\<in>set ?idxs. i < length reqs" using snoc.prems(1) by (auto simp: mem_inv_def)
  obtain go c1 U1 where g: "keep_retracting env first ?idxs (reqs, pool, c) = Inr (go, c1)" "mem_inv env U1 G (set ?idxs) (reqs, pool, c1)"
     "rc_same c c1" "others c1 U1 = others c U" "\<not> go \<longrightarrow> \<not> first \<and> decode_need c1 (map ((!) reqs) ?idxs) \<le> kv_available_size (rc_allocator c1)"
     "first \<longrightarrow> go"
  proof (cases first)
    case True
    then show ?thesis using snoc.prems(1) by (intro that [of True c U]) (simp_all add: keep_retracting_def)
  next
    case False
    obtain c' U' where "check_decode_mem env (map ((!) reqs) ?idxs) c
        = Inr (decode_need c' (map ((!) reqs) ?idxs) \<le> kv_available_size (rc_allocator c'), c')"
      "mem_inv env U' G (set ?idxs) (reqs, pool, c')" "rc_same c c'" "others c' U' = others c U"
      using check_decode_mem_ok [OF snoc.prems(1), of "map ((!) reqs) ?idxs"] by blast
    then show ?thesis using False take_rows_eq [OF il]
      by (intro that [of "\<not> decode_need c' (map ((!) reqs) ?idxs) \<le> kv_available_size (rc_allocator c')" c' U'])
        (simp_all add: keep_retracting_def)
  qed
  show ?case
  proof (cases "\<not> go \<or> ys = []")
    case True
    then have "retract_loop env first ?idxs retr (reqs, pool, c) = Inr (?idxs, retr, (reqs, pool, c1))" using g(1) by auto
    moreover have "retraction env U G ?idxs (reqs, pool, c) U1 (length ?idxs) (reqs, pool, c1)" by (rule retraction_none [OF g(2-4)])
    ultimately show ?thesis using True g(5,6)
      by - (rule exI [of _ "length ?idxs"], rule exI [of _ reqs], rule exI [of _ pool], rule exI [of _ c1], rule exI [of _ U1], auto)
  next
    case False
    obtain i c2 U2 where r: "release_req env j (length ys) (reqs, pool, c1)
       = Inr (reqs[j := retracted_req (reqs ! j)], pool\<lparr>rp_free_slots := rp_free_slots pool @ [i]\<rparr>, c2)"
      "rq_req_pool_idx (sq_mem (reqs ! j)) = Some i"
      "mem_inv env U2 G (set ?idxs - {j}) (reqs[j := retracted_req (reqs ! j)], pool\<lparr>rp_free_slots := rp_free_slots pool @ [i]\<rparr>, c2)"
      "rc_same c1 c2" "others c2 U2 = others c1 U1 - req_pages c1 (G j)"
      using release_req_ok [OF g(2), of j "length ys"] by auto
    have s1: "set ?idxs - {j} = set ys" using snoc.prems(2) by auto
    have sm: "rc_same c c2" by (rule rc_same_trans [OF g(3) r(4)])
    have o2: "others c2 U2 = others c U - req_pages c (G j)" using r(5) g(3,4) by (simp add: rc_same_def)
    obtain k reqs' pool' c' U' where L: "0 < k" "k \<le> length ys"
      "retract_loop env False ys (retr @ [j]) (reqs[j := retracted_req (reqs ! j)], pool\<lparr>rp_free_slots := rp_free_slots pool @ [i]\<rparr>, c2)
         = Inr (take k ys, (retr @ [j]) @ rev (drop k ys), (reqs', pool', c'))"
      "retraction env U2 G ys (reqs[j := retracted_req (reqs ! j)], pool\<lparr>rp_free_slots := rp_free_slots pool @ [i]\<rparr>, c2) U' k (reqs', pool', c')"
      "1 < k \<longrightarrow> decode_need c' (map ((!) reqs') (take k ys)) \<le> kv_available_size (rc_allocator c')"
      using snoc.IH [OF r(3) [unfolded s1], of False "retr @ [j]"] snoc.prems(2) False by auto
    have "retract_loop env first ?idxs retr (reqs, pool, c) = Inr (take k ?idxs, retr @ rev (drop k ?idxs), (reqs', pool', c'))"
      using g(1) False r(1) L(2,3) by simp
    moreover have "retraction env U G ?idxs (reqs, pool, c) U' k (reqs', pool', c')"
      by (rule retraction_snoc [OF L(4,2) snoc.prems(2) _ _ refl _ _ r(2) sm o2]) (use il in auto)
    ultimately show ?thesis using L
      by - (rule exI [of _ k], rule exI [of _ reqs'], rule exI [of _ pool'], rule exI [of _ c'], rule exI [of _ U'], simp)
  qed
qed simp

end
