(* ===== verification/Batch_Align.thy ===== *)
theory Batch_Align
  imports Schedule_Batch
begin

text \<open>
  The tensors of a batch stay aligned with its requests: filtering and merging keep, for every
  request, its row, length, last token, log-probability settings and sampling state at the
  position of the request.
\<close>

section \<open>Alignment\<close>

text \<open>
  A request without a row (it has finished or was retracted) still has its old entries until the
  batch is filtered.
\<close>

definition opt_len :: "nat \<Rightarrow> 'a list option \<Rightarrow> bool" where
  "opt_len n x = (case x of None \<Rightarrow> True | Some xs \<Rightarrow> length xs = n)"

definition row_aligned :: "schedule_batch \<Rightarrow> nat \<Rightarrow> bool" where
  "row_aligned b i = (\<forall>k. rq_req_pool_idx (sq_mem (bt_reqs b ! i)) = Some k
     \<longrightarrow> bt_req_pool_indices b ! i = k \<and> bt_seq_lens b ! i = rq_kv_committed_len (sq_mem (bt_reqs b ! i)))"

definition tensors_ok :: "schedule_batch \<Rightarrow> bool" where
  "tensors_ok b \<longleftrightarrow> (let n = length (bt_reqs b) in
     length (bt_req_pool_indices b) = n \<and> length (bt_seq_lens b) = n \<and> bt_seq_lens_cpu b = bt_seq_lens b
   \<and> length (bt_orig_seq_lens b) = n \<and> bt_seq_lens_sum b = sum_list (bt_seq_lens b)
   \<and> opt_len n (bt_output_ids b) \<and> opt_len n (bt_multimodal_inputs b)
   \<and> (bt_is_encoder_decoder b \<longrightarrow> length (bt_encoder_lens b) = n \<and> length (bt_encoder_lens_cpu b) = n)
   \<and> (\<forall>i<n. row_aligned b i))"

definition flags_ok :: "schedule_batch \<Rightarrow> bool" where
  "flags_ok b \<longleftrightarrow> bt_return_logprob b = list_ex sq_return_logprob (bt_reqs b)
   \<and> bt_top_logprobs_nums b = (if bt_return_logprob b then Some (map br_top_logprobs_num (bt_reqs b)) else None)
   \<and> bt_token_ids_logprobs b = (if bt_return_logprob b then Some (map br_token_ids_logprob (bt_reqs b)) else None)
   \<and> (\<forall>r\<in>set (bt_reqs b). \<not> sq_return_logprob r \<longrightarrow> br_top_logprobs_num r = 0 \<and> br_token_ids_logprob r = None)
   \<and> bt_has_stream b = list_ex sq_stream (bt_reqs b) \<and> bt_has_grammar b = list_ex sq_has_grammar (bt_reqs b)"

type_synonym samp_config = "(string \<Rightarrow> int) \<times> bool \<times> bool \<times> nat"

definition batch_ok :: "samp_config \<Rightarrow> samp_row list \<Rightarrow> schedule_batch \<Rightarrow> bool" where
  "batch_ok S rows b \<longleftrightarrow> (case S of (hsh, det, en, V) \<Rightarrow>
     samp_rep hsh det en V rows (bt_sampling_info b) \<and> map fst rows = map br_samp (bt_reqs b) \<and> tensors_ok b \<and> flags_ok b)"

lemma batch_ok_length: "batch_ok S rows b \<Longrightarrow> length rows = length (bt_reqs b)"
  by (cases S) (auto simp: batch_ok_def dest: map_eq_imp_length_eq)

section \<open>Filtering\<close>

lemma take_rows_opt:
  assumes "opt_len n x" "\<forall>i\<in>set keep. i < n"
  shows "\<exists>y. filter_opt keep x = Inr y \<and> opt_len (length keep) y \<and> (x = None \<longleftrightarrow> y = None)
     \<and> (\<forall>xs. x = Some xs \<longrightarrow> y = Some (map ((!) xs) keep))"
  using assms by (cases x) (auto simp: filter_opt_def opt_len_def take_rows_eq)

text \<open>
  What filtering does to the rows of a batch: every tensor keeps the entries of the kept requests,
  in their order.
\<close>

definition filtered :: "nat list \<Rightarrow> schedule_batch \<Rightarrow> schedule_batch \<Rightarrow> bool" where
  "filtered keep b b' \<longleftrightarrow> bt_reqs b' = map ((!) (bt_reqs b)) keep
   \<and> (\<forall>xs. bt_output_ids b = Some xs \<longrightarrow> bt_output_ids b' = Some (map ((!) xs) keep))
   \<and> (bt_output_ids b = None \<longrightarrow> bt_output_ids b' = None)
   \<and> bt_enable_overlap b' = bt_enable_overlap b \<and> bt_is_encoder_decoder b' = bt_is_encoder_decoder b
   \<and> bt_multimodal_inputs b' = map_option (\<lambda>xs. map ((!) xs) keep) (bt_multimodal_inputs b)
   \<and> bt_req_pool_indices b' = map ((!) (bt_req_pool_indices b)) keep \<and> bt_seq_lens b' = map ((!) (bt_seq_lens b)) keep
   \<and> bt_orig_seq_lens b' = map ((!) (bt_orig_seq_lens b)) keep
   \<and> (bt_is_encoder_decoder b \<longrightarrow> bt_encoder_lens b' = map ((!) (bt_encoder_lens b)) keep
        \<and> bt_encoder_lens_cpu b' = map ((!) (bt_encoder_lens_cpu b)) keep)"

lemma filter_rows_ok:
  assumes ok: "batch_ok S rows b" and keep: "keep \<noteq> []" "\<forall>i\<in>set keep. i < length (bt_reqs b)"
  shows "\<exists>b'. filter_rows keep b = Inr b' \<and> batch_ok S (map ((!) rows) keep) b' \<and> filtered keep b b'"
proof -
  obtain hsh det en V where S: "S = (hsh, det, en, V)" by (cases S)
  let ?n = "length (bt_reqs b)" and ?t = "map ((!) (bt_reqs b)) keep"
  have rep: "samp_rep hsh det en V rows (bt_sampling_info b)" and fs: "map fst rows = map br_samp (bt_reqs b)"
    and T: "tensors_ok b" and F: "flags_ok b" using ok by (simp_all add: batch_ok_def S)
  have len: "length rows = ?n" by (rule batch_ok_length [OF ok])
  note T' = T [unfolded tensors_ok_def Let_def]
  have fk: "map fst (map ((!) rows) keep) = map br_samp ?t"
  proof (rule nth_equalityI)
    fix j assume "j < length (map fst (map ((!) rows) keep))"
    then have j: "keep ! j < ?n" "j < length keep" using keep(2) by simp_all
    have "map fst rows ! (keep ! j) = map br_samp (bt_reqs b) ! (keep ! j)" by (simp only: fs)
    then show "map fst (map ((!) rows) keep) ! j = map br_samp ?t ! j" using j len by simp
  qed simp
  obtain samp where samp: "sampling_filter_batch (map br_samp ?t) keep (bt_sampling_info b) = Inr samp"
     "samp_rep hsh det en V (map ((!) rows) keep) samp"
    using sampling_filter_rep [OF rep keep(1) _ refl] keep(2) len unfolding fk by auto
  obtain mm out where o: "filter_opt keep (bt_multimodal_inputs b) = Inr mm" "opt_len (length keep) mm"
     "filter_opt keep (bt_output_ids b) = Inr out" "opt_len (length keep) out"
     "\<forall>xs. bt_output_ids b = Some xs \<longrightarrow> out = Some (map ((!) xs) keep)" "bt_output_ids b = None \<longrightarrow> out = None"
     "mm = map_option (\<lambda>xs. map ((!) xs) keep) (bt_multimodal_inputs b)"
    using take_rows_opt [of ?n "bt_multimodal_inputs b" keep] take_rows_opt [of ?n "bt_output_ids b" keep] T' keep(2)
    by (cases "bt_multimodal_inputs b") auto
  have tr: "take_rows keep xs = Inr (map ((!) xs) keep)" if "length xs = ?n" for xs :: "'a list"
    by (rule take_rows_eq) (use keep(2) that in simp)
  let ?lp = "list_ex sq_return_logprob ?t"
  have lp: "?lp \<Longrightarrow> bt_return_logprob b" using F keep(2) by (auto simp: flags_ok_def list_ex_iff)
  obtain tops tids where lpr: "(if ?lp then rbind (of_opt TypeError (bt_top_logprobs_nums b)) (\<lambda>xs. rbind (take_rows keep xs) (\<lambda>ys. Inr (Some ys))) else Inr None) = Inr tops"
      "(if ?lp then rbind (of_opt TypeError (bt_token_ids_logprobs b)) (\<lambda>xs. rbind (take_rows keep xs) (\<lambda>ys. Inr (Some ys))) else Inr None) = Inr tids"
      "tops = (if ?lp then Some (map br_top_logprobs_num ?t) else None)" "tids = (if ?lp then Some (map br_token_ids_logprob ?t) else None)"
  proof (cases ?lp)
    case True
    then have "bt_top_logprobs_nums b = Some (map br_top_logprobs_num (bt_reqs b))" "bt_token_ids_logprobs b = Some (map br_token_ids_logprob (bt_reqs b))"
      using lp F by (simp_all add: flags_ok_def)
    then show ?thesis using True keep(2)
      by (intro that [of "Some (map br_top_logprobs_num ?t)" "Some (map br_token_ids_logprob ?t)"]) (simp_all add: tr)
  qed (auto intro: that)
  let ?enc = "\<lambda>xs. if bt_is_encoder_decoder b then map ((!) xs) keep else xs"
  define b' where "b' = b\<lparr>bt_encoder_lens := ?enc (bt_encoder_lens b), bt_encoder_lens_cpu := ?enc (bt_encoder_lens_cpu b),
     bt_reqs := ?t, bt_multimodal_inputs := mm, bt_req_pool_indices := map ((!) (bt_req_pool_indices b)) keep,
     bt_seq_lens := map ((!) (bt_seq_lens b)) keep, bt_seq_lens_cpu := map ((!) (bt_seq_lens_cpu b)) keep,
     bt_orig_seq_lens := map ((!) (bt_orig_seq_lens b)) keep, bt_out_cache_loc := None,
     bt_seq_lens_sum := sum_list (map ((!) (bt_seq_lens b)) keep), bt_output_ids := out, bt_return_logprob := ?lp,
     bt_top_logprobs_nums := tops, bt_token_ids_logprobs := tids, bt_has_stream := list_ex sq_stream ?t,
     bt_has_grammar := list_ex sq_has_grammar ?t, bt_sampling_info := samp\<rparr>"
  have enc: "(if bt_is_encoder_decoder b then take_rows keep xs else Inr xs) = Inr (?enc xs)" if "bt_is_encoder_decoder b \<longrightarrow> length xs = ?n" for xs
    using that by (simp add: tr)
  have "filter_rows keep b = Inr b'"
    unfolding filter_rows_def b'_def using T'
    by (simp add: enc tr o(1,3) samp(1) Let_def lpr(1,2) del: map_map list.map_comp)
  moreover have "row_aligned b' j" if j: "j < length keep" for j
  proof -
    have "keep ! j < ?n" using j keep(2) by simp
    then have "row_aligned b (keep ! j)" using T' by simp
    then show ?thesis using j by (simp add: row_aligned_def b'_def)
  qed
  then have "tensors_ok b'" using T' o(2,4) by (simp add: tensors_ok_def Let_def b'_def)
  moreover have "flags_ok b'" using F keep(2) lpr(3,4) by (simp add: flags_ok_def b'_def)
  moreover have "filtered keep b b'" using o(5-7) by (simp add: filtered_def b'_def)
  moreover have "samp_rep hsh det en V (map ((!) rows) keep) (bt_sampling_info b')" using samp(2) by (simp add: b'_def)
  moreover have "map fst (map ((!) rows) keep) = map br_samp (bt_reqs b')" using fk by (simp add: b'_def)
  ultimately show ?thesis by (simp add: batch_ok_def S)
qed

definition keep_list :: "string list \<Rightarrow> schedule_batch \<Rightarrow> nat list" where
  "keep_list excl b = filter (\<lambda>i. \<not> sq_finished (bt_reqs b ! i) \<and> sq_rid (bt_reqs b ! i) \<notin> set excl) [0..<length (bt_reqs b)]"

lemma filter_batch_ok:
  assumes ok: "batch_ok S rows b" and k: "keep = (case k of None \<Rightarrow> keep_list excl b | Some ks \<Rightarrow> ks)"
    and keep: "keep \<noteq> []" "\<forall>i\<in>set keep. i < length (bt_reqs b)" "length keep = length (bt_reqs b) \<longrightarrow> keep = [0..<length (bt_reqs b)]"
  shows "\<exists>b'. filter_batch excl k b = Inr b' \<and> batch_ok S (map ((!) rows) keep) b' \<and> filtered keep b b'"
proof -
  have k': "(case k of Some ks \<Rightarrow> ks | None \<Rightarrow> filter (\<lambda>i. \<not> sq_finished (bt_reqs b ! i) \<and> sq_rid (bt_reqs b ! i) \<notin> set excl) [0..<length (bt_reqs b)]) = keep"
    using k by (simp add: keep_list_def split: option.splits)
  have mn: "map ((!) xs) [0..<length xs] = xs" for xs :: "'a list" by (rule map_nth)
  show ?thesis
  proof (cases "length keep = length (bt_reqs b)")
    case True
    then have kn: "keep = [0..<length (bt_reqs b)]" using keep(3) by simp
    have "map ((!) rows) keep = rows" using batch_ok_length [OF ok] unfolding kn by (metis map_nth)
    moreover have "filtered keep b b"
    proof -
      obtain hsh det en V where "S = (hsh, det, en, V)" by (cases S)
      then have T: "tensors_ok b" using ok by (simp add: batch_ok_def)
      have id: "map ((!) xs) keep = xs" if "length xs = length (bt_reqs b)" for xs :: "'a list" unfolding kn that [symmetric] by (rule mn)
      then show ?thesis using T by (cases "bt_output_ids b"; cases "bt_multimodal_inputs b") (simp_all add: filtered_def tensors_ok_def Let_def opt_len_def id)
    qed
    ultimately show ?thesis using True ok keep(1) unfolding filter_batch_def k' Let_def by auto
  next
    case False
    then show ?thesis using filter_rows_ok [OF ok keep(1,2)] keep(1) unfolding filter_batch_def k' Let_def by simp
  qed
qed

lemma keep_list_simps:
  "\<forall>i\<in>set (keep_list excl b). i < length (bt_reqs b)" "distinct (keep_list excl b)"
  "length (keep_list excl b) = length (bt_reqs b) \<longrightarrow> keep_list excl b = [0..<length (bt_reqs b)]"
  "map ((!) (bt_reqs b)) (keep_list excl b) = filter (\<lambda>r. \<not> sq_finished r \<and> sq_rid r \<notin> set excl) (bt_reqs b)"
proof -
  let ?P = "\<lambda>r. \<not> sq_finished r \<and> sq_rid r \<notin> set excl"
  show "\<forall>i\<in>set (keep_list excl b). i < length (bt_reqs b)" "distinct (keep_list excl b)" by (simp_all add: keep_list_def)
  show "length (keep_list excl b) = length (bt_reqs b) \<longrightarrow> keep_list excl b = [0..<length (bt_reqs b)]"
  proof
    assume "length (keep_list excl b) = length (bt_reqs b)"
    then have l: "length (filter (\<lambda>i. ?P (bt_reqs b ! i)) [0..<length (bt_reqs b)]) = length [0..<length (bt_reqs b)]" by (simp only: keep_list_def length_upt diff_zero)
    have "\<forall>i\<in>set [0..<length (bt_reqs b)]. ?P (bt_reqs b ! i)"
    proof (rule ccontr)
      assume "\<not> (\<forall>i\<in>set [0..<length (bt_reqs b)]. ?P (bt_reqs b ! i))"
      then obtain i where i: "i \<in> set [0..<length (bt_reqs b)]" "\<not> ?P (bt_reqs b ! i)" by blast
      from length_filter_less [where P = "\<lambda>i. ?P (bt_reqs b ! i)", OF i] l show False by (simp only: less_irrefl)
    qed
    then show "keep_list excl b = [0..<length (bt_reqs b)]" unfolding keep_list_def by (rule filter_True)
  qed
  have "map ((!) (bt_reqs b)) (keep_list excl b) = filter ?P (map ((!) (bt_reqs b)) [0..<length (bt_reqs b)])"
    unfolding keep_list_def filter_map by (simp add: o_def)
  then show "map ((!) (bt_reqs b)) (keep_list excl b) = filter ?P (bt_reqs b)" by (simp only: map_nth)
qed

section \<open>Merging\<close>

definition samp_reqs_ok :: "samp_config \<Rightarrow> string set \<Rightarrow> samp_row list \<Rightarrow> bool" where
  "samp_reqs_ok S P rows \<longleftrightarrow> (case S of (hsh, det, en, V) \<Rightarrow> inj_on hsh P \<and> (\<forall>rh\<in>set rows. samp_req_ok V (fst rh) \<and> proc_ok P (fst rh)))"

text \<open>The optional tensors of the first batch exist in the second one too; both serve the same model.\<close>

definition mergeable :: "schedule_batch \<Rightarrow> schedule_batch \<Rightarrow> bool" where
  "mergeable b other \<longleftrightarrow> (bt_output_ids b \<noteq> None \<longrightarrow> bt_output_ids other \<noteq> None)
   \<and> (bt_multimodal_inputs b \<noteq> None \<longrightarrow> bt_multimodal_inputs other \<noteq> None) \<and> bt_is_encoder_decoder b = bt_is_encoder_decoder other"

lemma merge_opt_len:
  assumes "opt_len n x" "opt_len m y" "x \<noteq> None \<longrightarrow> y \<noteq> None"
  shows "\<exists>z. (case x of None \<Rightarrow> Inr None | Some xs \<Rightarrow> rbind (of_opt TypeError y) (\<lambda>ys. Inr (Some (xs @ ys)))) = Inr z \<and> opt_len (n + m) z
     \<and> z = map_option (\<lambda>xs. xs @ the y) x"
  using assms by (cases x; cases y) (auto simp: opt_len_def)

text \<open>What merging does to the rows: those of the first batch come first in every tensor.\<close>

definition merged :: "schedule_batch \<Rightarrow> schedule_batch \<Rightarrow> schedule_batch \<Rightarrow> bool" where
  "merged b other b' \<longleftrightarrow> bt_reqs b' = bt_reqs b @ bt_reqs other
   \<and> bt_output_ids b' = map_option (\<lambda>xs. xs @ the (bt_output_ids other)) (bt_output_ids b)
   \<and> bt_multimodal_inputs b' = map_option (\<lambda>xs. xs @ the (bt_multimodal_inputs other)) (bt_multimodal_inputs b)
   \<and> bt_req_pool_indices b' = bt_req_pool_indices b @ bt_req_pool_indices other \<and> bt_seq_lens b' = bt_seq_lens b @ bt_seq_lens other
   \<and> bt_orig_seq_lens b' = bt_orig_seq_lens b @ bt_orig_seq_lens other \<and> bt_is_encoder_decoder b' = bt_is_encoder_decoder b
   \<and> (bt_is_encoder_decoder b \<longrightarrow> bt_encoder_lens b' = bt_encoder_lens b @ bt_encoder_lens other
        \<and> bt_encoder_lens_cpu b' = bt_encoder_lens_cpu b @ bt_encoder_lens_cpu other)"

lemma merge_logprobs_ok:
  assumes "xs = (if p then Some (map f rs) else None)" "ys = (if q then Some (map f rs') else None)"
    "\<not> p \<longrightarrow> (\<forall>r\<in>set rs. f r = d)" "\<not> q \<longrightarrow> (\<forall>r\<in>set rs'. f r = d)"
  shows "merge_logprobs p q d (length rs) (length rs') xs ys = Inr (if p \<or> q then Some (map f (rs @ rs')) else None)"
proof -
  have "map f zs = replicate (length zs) d" if "\<forall>r\<in>set zs. f r = d" for zs
    using that by (simp add: map_replicate_const cong: map_cong)
  with assms show ?thesis by (cases p; cases q) (simp_all add: merge_logprobs_def)
qed

lemma merge_batch_ok:
  assumes ok: "batch_ok S rows b" "batch_ok S rows' other" and ne: "bt_reqs b \<noteq> []" "bt_reqs other \<noteq> []"
    and sr: "samp_reqs_ok S P (rows @ rows')" and m: "mergeable b other"
  shows "\<exists>b' other'. merge_batch b other = Inr (b', other') \<and> batch_ok S (rows @ rows') b' \<and> merged b other b'"
proof -
  obtain hsh det en V where S: "S = (hsh, det, en, V)" by (cases S)
  let ?n = "length (bt_reqs b)" and ?m = "length (bt_reqs other)" and ?lp = "bt_return_logprob b \<or> bt_return_logprob other"
  let ?rs = "bt_reqs b @ bt_reqs other"
  have rep: "samp_rep hsh det en V rows (bt_sampling_info b)" "samp_rep hsh det en V rows' (bt_sampling_info other)"
    and fs: "map fst rows = map br_samp (bt_reqs b)" "map fst rows' = map br_samp (bt_reqs other)"
    and T: "tensors_ok b" "tensors_ok other" and F: "flags_ok b" "flags_ok other" using ok by (simp_all add: batch_ok_def S)
  note T' = T [unfolded tensors_ok_def Let_def] and F' = F [unfolded flags_ok_def]
  have rne: "rows \<noteq> []" "rows' \<noteq> []" using ne fs by auto
  obtain samp samp' where samp: "sampling_merge_batch (map br_samp (bt_reqs b)) (map br_samp (bt_reqs other)) (bt_sampling_info b) (bt_sampling_info other) = Inr (samp, samp')"
      "samp_rep hsh det en V (rows @ rows') samp"
    using sampling_merge_rep [OF rep rne, of P] sr unfolding fs samp_reqs_ok_def S by auto
  obtain out mm where o: "(case bt_output_ids b of None \<Rightarrow> Inr None | Some xs \<Rightarrow> rbind (of_opt TypeError (bt_output_ids other)) (\<lambda>ys. Inr (Some (xs @ ys)))) = Inr out"
      "opt_len (?n + ?m) out"
      "(case bt_multimodal_inputs b of None \<Rightarrow> Inr None | Some xs \<Rightarrow> rbind (of_opt TypeError (bt_multimodal_inputs other)) (\<lambda>ys. Inr (Some (xs @ ys)))) = Inr mm"
      "opt_len (?n + ?m) mm" "out = map_option (\<lambda>xs. xs @ the (bt_output_ids other)) (bt_output_ids b)"
      "mm = map_option (\<lambda>xs. xs @ the (bt_multimodal_inputs other)) (bt_multimodal_inputs b)"
    using merge_opt_len [of ?n "bt_output_ids b" ?m "bt_output_ids other"] merge_opt_len [of ?n "bt_multimodal_inputs b" ?m "bt_multimodal_inputs other"]
      T' m by (auto simp: mergeable_def)
  have nolp: "\<not> bt_return_logprob x \<Longrightarrow> r \<in> set (bt_reqs x) \<Longrightarrow> br_top_logprobs_num r = 0 \<and> br_token_ids_logprob r = None" if "flags_ok x" for x r
    using that by (auto simp: flags_ok_def list_ex_iff)
  have lps: "merge_logprobs (bt_return_logprob b) (bt_return_logprob other) 0 ?n ?m (bt_top_logprobs_nums b) (bt_top_logprobs_nums other)
      = Inr (if ?lp then Some (map br_top_logprobs_num ?rs) else None)"
    "merge_logprobs (bt_return_logprob b) (bt_return_logprob other) None ?n ?m (bt_token_ids_logprobs b) (bt_token_ids_logprobs other)
      = Inr (if ?lp then Some (map br_token_ids_logprob ?rs) else None)"
    by (rule merge_logprobs_ok; use F' nolp [OF F(1)] nolp [OF F(2)] in simp)+
  obtain b' other' where eq: "merge_batch b other = Inr (b', other')"
    unfolding merge_batch_def samp(1) o(1,3) lps rbind_simps prod.case by blast
  note B = eq [unfolded merge_batch_def samp(1) o(1,3) lps rbind_simps prod.case sum.inject prod.inject, THEN conjunct1, symmetric]
  have B1: "bt_reqs b' = ?rs" "bt_sampling_info b' = samp" by (simp_all add: B)
  have "row_aligned b' i" if i: "i < ?n + ?m" for i
  proof (cases "i < ?n")
    case True
    then have "row_aligned b i" using T' by simp
    then show ?thesis using True T' by (simp add: row_aligned_def B nth_append)
  next
    case False
    then have "row_aligned other (i - ?n)" using T' i by simp
    then show ?thesis using False T' by (simp add: row_aligned_def B nth_append)
  qed
  then have "tensors_ok b'" using T' o(2,4) m by (simp add: tensors_ok_def Let_def B mergeable_def)
  moreover have "flags_ok b'" using F' by (auto simp: flags_ok_def B)
  moreover have "merged b other b'" using o(5,6) by (simp add: merged_def B)
  ultimately show ?thesis using eq samp(2) fs B1 by (simp add: batch_ok_def S)
qed

text \<open>
  The rows of a list of tensors concatenated and then restricted to some positions; an optional
  tensor of the first batch exists in the second too.
\<close>

definition picked :: "nat list \<Rightarrow> 'a list \<Rightarrow> 'a list \<Rightarrow> 'a list" where
  "picked keep xs ys = map ((!) (xs @ ys)) keep"

definition picked_opt :: "nat list \<Rightarrow> 'a list option \<Rightarrow> 'a list option \<Rightarrow> 'a list option" where
  "picked_opt keep x y = map_option (\<lambda>xs. picked keep xs (the y)) x"

definition rows_picked :: "nat list \<Rightarrow> schedule_batch \<Rightarrow> schedule_batch \<Rightarrow> schedule_batch \<Rightarrow> bool" where
  "rows_picked keep b other b' \<longleftrightarrow> bt_reqs b' = picked keep (bt_reqs b) (bt_reqs other)
   \<and> bt_output_ids b' = picked_opt keep (bt_output_ids b) (bt_output_ids other)
   \<and> bt_multimodal_inputs b' = picked_opt keep (bt_multimodal_inputs b) (bt_multimodal_inputs other)
   \<and> bt_req_pool_indices b' = picked keep (bt_req_pool_indices b) (bt_req_pool_indices other)
   \<and> bt_seq_lens b' = picked keep (bt_seq_lens b) (bt_seq_lens other)
   \<and> bt_orig_seq_lens b' = picked keep (bt_orig_seq_lens b) (bt_orig_seq_lens other)
   \<and> (bt_is_encoder_decoder b \<longrightarrow> bt_encoder_lens b' = picked keep (bt_encoder_lens b) (bt_encoder_lens other)
        \<and> bt_encoder_lens_cpu b' = picked keep (bt_encoder_lens_cpu b) (bt_encoder_lens_cpu other))"

lemma merged_filtered:
  assumes "merged b other b1" "filtered keep b1 b2"
  shows "rows_picked keep b other b2"
  using assms by (cases "bt_output_ids b"; cases "bt_multimodal_inputs b")
    (auto simp: rows_picked_def picked_def picked_opt_def merged_def filtered_def)

end
