(* ===== verification/Decode_Step.thy ===== *)
theory Decode_Step
  imports Retract_Decode Batch_Align
begin

text \<open>
  A decode step gives every request of a batch its next slot: the rest of its last page, or a
  fresh page. When the memory check has passed the allocation cannot fail, and afterwards every
  request owns one slot more.
\<close>

section \<open>The pages of one request\<close>

lemma page_slots_at: "j < length gs * p \<Longrightarrow> page_slots p gs ! j = gs ! (j div p) * int p + int (j mod p)"
  by (simp add: page_slots_nth)

lemma length_page_slots': "length (page_slots p gs) = length gs * p"
  by (simp add: page_slots_nth)

lemma fills_exact:
  assumes "0 < p" "fills p m gs"
  shows "p dvd m \<Longrightarrow> m = p * length gs" "\<not> p dvd m \<Longrightarrow> m < p * length gs"
proof -
  have b: "m \<le> p * length gs" "p * length gs < m + p" using assms(2) by (simp_all add: fills_def)
  show "m = p * length gs" if dv: "p dvd m"
  proof -
    define q where "q = m div p"
    have q: "m = p * q" using dv by (simp add: q_def)
    have "q \<le> length gs" using b(1) assms(1) by (simp add: q)
    moreover have "p * length gs < p * (q + 1)" using b(2) by (simp add: q)
    then have "length gs < q + 1" by (simp only: mult_less_cancel1)
    ultimately show ?thesis using q by simp
  qed
  show "m < p * length gs" if "\<not> p dvd m" using b(1) that by (metis dvd_triv_left le_neq_implies_less)
qed

lemma own_pages:
  assumes en: "rc_enabled c" and s: "rc_slots c (content c) U" and o: "owns_kv sha c U pool r gs" and i: "rq_req_pool_idx r = Some i"
  defines "p \<equiv> rc_page_size c" and "n \<equiv> rq_kv_committed_len r" and "prot \<equiv> rq_cache_protected_len r" and "row \<equiv> rp_req_to_token pool ! i"
  shows "0 < p" "p dvd prot" "prot \<le> n" "n \<le> length row" "fills p (n - prot) gs" "distinct gs" "set (page_slots p gs) \<subseteq> others c U"
    "prot \<le> j \<Longrightarrow> j < n \<Longrightarrow> row ! j = page_slots p gs ! (j - prot)"
    "0 < n \<Longrightarrow> (row ! (n - 1) + 1) mod int p = int n mod int p"
    "\<not> p dvd n \<Longrightarrow> row ! (n - 1) div int p \<in> set gs \<and> row ! (n - 1) \<in> U \<and> row ! (n - 1) + 1 = page_slots p gs ! (n - prot)"
    "p dvd n \<Longrightarrow> n - prot = p * length gs"
proof -
  show p: "0 < p" unfolding p_def by (rule rc_enabledD(4) [OF en])
  have O: "n \<le> length row" "req_kv c U (rq_extra_key r) (aligned_units c (req_key c r)) (take n row) prot gs"
    using o i by (auto simp: owns_kv_def n_def row_def prot_def)
  show nl: "n \<le> length row" by (rule O(1))
  note K = O(2) [unfolded req_kv_def p_def [symmetric]]
  show pd: "p dvd prot" and dg: "distinct gs" using K by simp_all
  show pn: "prot \<le> n" using K nl by simp
  have lk: "length (take n row) = n" using nl by simp
  show f: "fills p (n - prot) gs" using K lk by simp
  show ow: "set (page_slots p gs) \<subseteq> others c U" using K by (simp add: others_def p_def)
  have dr: "drop prot (take n row) = take (n - prot) (page_slots p gs)" using K lk by simp
  have at: "row ! j = page_slots p gs ! (j - prot)" if "prot \<le> j" "j < n" for j
  proof -
    have "drop prot (take n row) ! (j - prot) = row ! j" using that nl by simp
    then show ?thesis unfolding dr using that by simp
  qed
  then show "prot \<le> j \<Longrightarrow> j < n \<Longrightarrow> row ! j = page_slots p gs ! (j - prot)" .
  have dn: "p dvd n - prot \<longleftrightarrow> p dvd n" using pd pn by (metis dvd_add_right_iff le_add_diff_inverse)
  show ex: "n - prot = p * length gs" if "p dvd n" using fills_exact(1) [OF p f] dn that by simp
  have fb: "n - prot \<le> p * length gs" using f by (simp add: fills_def)
  have last: "row ! (n - 1) = gs ! ((n - 1 - prot) div p) * int p + int ((n - 1 - prot) mod p)" if "prot < n"
    using at [of "n - 1"] that fb by (simp add: page_slots_at mult.commute)
  have md: "int (n - prot) mod int p = int n mod int p" if "prot \<le> n"
    using that pd by (metis dvd_imp_mod_0 le_add_diff_inverse mod_add_left_eq add_0 zmod_int)
  show "(row ! (n - 1) + 1) mod int p = int n mod int p" if n0: "0 < n"
  proof (cases "prot < n")
    case True
    have "row ! (n - 1) + 1 = gs ! ((n - 1 - prot) div p) * int p + (int ((n - 1 - prot) mod p) + 1)" using last [OF True] by simp
    then have "(row ! (n - 1) + 1) mod int p = (int ((n - 1 - prot) mod p) + 1) mod int p" by (simp only: mod_mult_self3)
    also have "\<dots> = (int (n - 1 - prot) + 1) mod int p" by (simp add: zmod_int mod_add_left_eq)
    also have "int (n - 1 - prot) + 1 = int (n - prot)" using True by simp
    finally show ?thesis using md pn by simp
  next
    case False
    then have np: "n = prot" using pn by simp
    then have "(rq_extra_key r, take prot (aligned_units c (req_key c r)), take prot (take n row)) \<in> content c" using K n0 by blast
    then obtain g where g: "last_page p (take prot row) = page_slots p [g]"
      using s np by (auto simp: rc_slots_def pages_ok_def p_def)
    have pp: "p \<le> prot" using pd n0 np by (simp add: dvd_imp_le)
    have "row ! (n - 1) = last_page p (take prot row) ! (p - 1)"
      using np pp nl p by (simp add: last_page_def min_def)
    also have "\<dots> = g * int p + int (p - 1)" unfolding g using p by (simp add: page_slots_at)
    finally have "row ! (n - 1) + 1 = (g + 1) * int p" using p by (simp add: algebra_simps of_nat_diff Suc_leI)
    then show ?thesis using pd np by (simp add: zmod_int [symmetric])
  qed
  show "row ! (n - 1) div int p \<in> set gs \<and> row ! (n - 1) \<in> U \<and> row ! (n - 1) + 1 = page_slots p gs ! (n - prot)" if nd: "\<not> p dvd n"
  proof -
    have lt: "prot < n" using nd pd pn by (metis le_neq_implies_less)
    have nb: "n - prot < p * length gs" using fills_exact(2) [OF p f] dn nd by simp
    let ?m = "n - prot"
    have m0: "?m mod p \<noteq> 0" using dn nd by (simp add: dvd_eq_mod_eq_0)
    have q: "(?m - 1) div p = ?m div p" "(?m - 1) mod p = ?m mod p - 1"
      using m0 lt by (cases ?m; simp add: div_Suc mod_Suc split: if_splits)+
    have e: "row ! (n - 1) = gs ! (?m div p) * int p + int (?m mod p - 1)" using last [OF lt] q by (simp add: diff_right_commute)
    have ql: "?m div p < length gs" using nb by (simp add: less_mult_imp_div_less mult.commute)
    have "?m mod p - 1 < p" using p by (meson diff_le_self le_less_trans mod_less_divisor)
    then have "row ! (n - 1) div int p = gs ! (?m div p)" unfolding e by simp
    moreover have "row ! (n - 1) + 1 = page_slots p gs ! ?m"
      using e nb m0 by (simp add: page_slots_at mult.commute of_nat_diff)
    moreover have "row ! (n - 1) \<in> set (page_slots p gs)"
      using at [of "n - 1"] lt fb by (simp add: length_page_slots' mult.commute)
    ultimately show ?thesis using ql ow by (auto simp: others_def)
  qed
qed

section \<open>One slot more\<close>

lemma key_iter_prefix: "key_iter (mk_key (take n ts) ek b) = take (key_len (mk_key (take n ts) ek b)) (key_iter (mk_key ts ek b))"
  by (intro nth_equalityI) (auto simp: key_iter_def key_len_def mk_key_def Let_def)

lemma aligned_units_take:
  "aligned_units c (mk_key (take n ts) ek (rc_is_eagle c))
     = take (page_floor (key_len (mk_key (take n ts) ek (rc_is_eagle c))) (rc_page_size c)) (key_iter (mk_key ts ek (rc_is_eagle c)))"
proof -
  let ?k = "mk_key (take n ts) ek (rc_is_eagle c)"
  have kv: "key_view c ?k = ?k" by (simp add: key_view_def maybe_to_bigram_view_def mk_key_def)
  have "page_floor (key_len ?k) (rc_page_size c) \<le> key_len ?k" by (rule page_floor_le)
  then show ?thesis unfolding aligned_units_def kv key_iter_prefix take_take by (simp add: min_def)
qed

lemma aligned_units_mono:
  assumes "n \<le> m"
  shows "aligned_units c (mk_key (take n ts) ek (rc_is_eagle c))
     = take (length (aligned_units c (mk_key (take n ts) ek (rc_is_eagle c)))) (aligned_units c (mk_key (take m ts) ek (rc_is_eagle c)))"
    "length (aligned_units c (mk_key (take n ts) ek (rc_is_eagle c))) \<le> length (aligned_units c (mk_key (take m ts) ek (rc_is_eagle c)))"
    "length (aligned_units c (mk_key (take m ts) ek (rc_is_eagle c))) \<le> m"
proof -
  let ?f = "\<lambda>n. page_floor (key_len (mk_key (take n ts) ek (rc_is_eagle c))) (rc_page_size c)" and ?xs = "key_iter (mk_key ts ek (rc_is_eagle c))"
  have "key_len (mk_key (take n ts) ek (rc_is_eagle c)) \<le> key_len (mk_key (take m ts) ek (rc_is_eagle c))"
    using assms by (auto simp: key_len_def mk_key_def)
  then have f: "?f n \<le> ?f m" by (simp add: page_floor_def div_le_mono)
  show "aligned_units c (mk_key (take n ts) ek (rc_is_eagle c))
     = take (length (aligned_units c (mk_key (take n ts) ek (rc_is_eagle c)))) (aligned_units c (mk_key (take m ts) ek (rc_is_eagle c)))"
    "length (aligned_units c (mk_key (take n ts) ek (rc_is_eagle c))) \<le> length (aligned_units c (mk_key (take m ts) ek (rc_is_eagle c)))"
    unfolding aligned_units_take using f by (simp_all add: min_def)
  have "?f m \<le> key_len (mk_key (take m ts) ek (rc_is_eagle c))" by (rule page_floor_le)
  also have "\<dots> \<le> m" by (auto simp: key_len_def mk_key_def)
  finally show "length (aligned_units c (mk_key (take m ts) ek (rc_is_eagle c))) \<le> m" unfolding aligned_units_take by simp
qed

definition grown_req :: "int \<Rightarrow> req \<Rightarrow> req" where
  "grown_req t r = r\<lparr>rq_kv_committed_len := rq_kv_committed_len r + 1, rq_kv_allocated_len := rq_kv_allocated_len r + 1,
     rq_output_ids := rq_output_ids r @ [t]\<rparr>"

lemma owns_grow:
  assumes en: "rc_enabled c" and s: "rc_slots c (content c) U" and o: "owns_kv sha c U pool r gs" and i: "rq_req_pool_idx r = Some i"
    and v: "v = page_slots (rc_page_size c) (gs @ hs) ! (rq_kv_committed_len r - rq_cache_protected_len r)"
      "fills (rc_page_size c) (rq_kv_committed_len r + 1 - rq_cache_protected_len r) (gs @ hs)" "distinct (gs @ hs)"
      "set (page_slots (rc_page_size c) (gs @ hs)) \<subseteq> others c U'"
    and row: "rp_req_to_token pool' ! i = (rp_req_to_token pool ! i)[rq_kv_committed_len r := v]"
      "length (rp_req_to_token pool') = length (rp_req_to_token pool)" "rq_kv_committed_len r < length (rp_req_to_token pool ! i)"
    and t: "rc_enable_kv_cache_events c \<longrightarrow> 0 \<le> t \<and> t < 2 ^ 32"
  shows "owns_kv sha c U' pool' (grown_req t r) (gs @ hs)"
proof -
  let ?p = "rc_page_size c" and ?n = "rq_kv_committed_len r" and ?prot = "rq_cache_protected_len r" and ?row = "rp_req_to_token pool ! i"
  let ?ek = "rq_extra_key r" and ?us = "aligned_units c (req_key c r)" and ?us' = "aligned_units c (req_key c (grown_req t r))"
  note P = own_pages [OF en s o i]
  obtain x where O: "i < length (rp_req_to_token pool)" "\<not> rq_kv_committed_freed r" "\<not> rq_kv_overallocated_freed r" "rq_last_node r = Some x"
     "rq_kv_allocated_len r = ?n" "?n \<le> length (req_ids r)" "rc_key_fits sha c (mk_key (req_ids r) ?ek (rc_is_eagle c))"
     "req_kv c U ?ek ?us (take ?n ?row) ?prot gs" "pins c x ?ek (take ?prot ?us) (take ?prot ?row)"
    using o i by (auto simp: owns_kv_def)
  note K = O(8) [unfolded req_kv_def]
  have ids: "req_ids (grown_req t r) = req_ids r @ [t]" by (simp add: req_ids_def grown_req_def)
  have k: "req_key c r = mk_key (take ?n (req_ids r @ [t])) ?ek (rc_is_eagle c)" using O(6) by (simp add: req_key_def)
  have k': "req_key c (grown_req t r) = mk_key (take (?n + 1) (req_ids r @ [t])) ?ek (rc_is_eagle c)"
    unfolding req_key_def ids by (simp add: grown_req_def)
  note um = aligned_units_mono [of ?n "?n + 1" c "req_ids r @ [t]" ?ek, folded k k', OF le_add1]
  have tp: "take ?prot ?us' = take ?prot ?us" using um(1) K by (metis min.absorb1 take_take)
  have row': "take ?prot (?row[?n := v]) = take ?prot ?row" "length (take (?n + 1) (?row[?n := v])) = ?n + 1" using P(3) row(3) by simp_all
  have "drop ?prot (take (?n + 1) (?row[?n := v])) = take (?n + 1 - ?prot) (page_slots ?p (gs @ hs))"
  proof (rule nth_equalityI)
    have len: "?n + 1 - ?prot \<le> length (page_slots ?p (gs @ hs))" using v(2) by (simp add: fills_def length_page_slots' mult.commute)
    then show "length (drop ?prot (take (?n + 1) (?row[?n := v]))) = length (take (?n + 1 - ?prot) (page_slots ?p (gs @ hs)))"
      using row(3) by simp
    fix j assume "j < length (drop ?prot (take (?n + 1) (?row[?n := v])))"
    then have j: "j \<le> ?n - ?prot" "j < ?n + 1 - ?prot" using row(3) P(3) by auto
    show "drop ?prot (take (?n + 1) (?row[?n := v])) ! j = take (?n + 1 - ?prot) (page_slots ?p (gs @ hs)) ! j"
    proof (cases "j = ?n - ?prot")
      case True
      then show ?thesis using j P(3) row(3) v(1) by simp
    next
      case False
      then have jl: "?prot + j < ?n" using j by simp
      have "?n - ?prot \<le> length (page_slots ?p gs)" using P(5) by (simp add: fills_def length_page_slots' mult.commute)
      then have "j < length (page_slots ?p gs)" using jl by linarith
      then have "page_slots ?p (gs @ hs) ! j = page_slots ?p gs ! j" by (simp add: page_slots_append nth_append)
      then show ?thesis using jl j P(8) [of "?prot + j"] row(3) by simp
    qed
  qed
  then have "req_kv c U' ?ek ?us' (take (?n + 1) (?row[?n := v])) ?prot (gs @ hs)"
    using K um(2,3) v(2-4) tp row' P(3) by (auto simp: req_kv_def others_def min_def)
  moreover have "pins c x ?ek (take ?prot ?us') (take ?prot (?row[?n := v]))" using O(9) tp row' by simp
  moreover have "rc_key_fits sha c (mk_key (req_ids r @ [t]) ?ek (rc_is_eagle c))"
    using O(7) t by (auto simp: rc_key_fits_def key_ok_def toks_ok_def mk_key_def)
  ultimately show ?thesis using O(1-6) i row unfolding owns_kv_def ids
    by - (rule exI [of _ i], rule exI [of _ x], simp add: grown_req_def)
qed

section \<open>The slots of a batch\<close>

abbreviation breq_len :: "batch_req \<Rightarrow> nat" where
  "breq_len r \<equiv> rq_kv_committed_len (sq_mem r)"

abbreviation breq_prot :: "batch_req \<Rightarrow> nat" where
  "breq_prot r \<equiv> rq_cache_protected_len (sq_mem r)"

text \<open>
  What the allocation of the next slots promises: \<open>H i\<close> is the new page of request \<open>i\<close>, if its
  last page is full, and \<open>out\<close> are the next slots.
\<close>

definition next_slots ::
  "rcache \<Rightarrow> int set \<Rightarrow> (nat \<Rightarrow> int list) \<Rightarrow> batch_req list \<Rightarrow> int list \<Rightarrow> kv_alloc \<Rightarrow> int set \<Rightarrow> (nat \<Rightarrow> int list) \<Rightarrow> bool" where
  "next_slots c U G reqs out a U' H \<longleftrightarrow>
     rc_slots (c\<lparr>rc_allocator := a\<rparr>) (content c) U' \<and> U' = U \<union> (\<Union>i<length reqs. req_pages c (H i))
   \<and> length out = length reqs
   \<and> (\<forall>i<length reqs. req_pages c (H i) \<inter> U = {} \<and> length (H i) = (if rc_page_size c dvd breq_len (reqs ! i) then 1 else 0)
        \<and> out ! i = page_slots (rc_page_size c) (G i @ H i) ! (breq_len (reqs ! i) - breq_prot (reqs ! i)))
   \<and> (\<forall>i<length reqs. \<forall>j<length reqs. i \<noteq> j \<longrightarrow> set (H i) \<inter> set (H j) = {})"

lemma mem_inv_owner:
  assumes "mem_inv env U G I (reqs, pool, c)" "i \<in> I"
  obtains k where "owns_kv (de_sha env) c U pool (sq_mem (reqs ! i)) (G i)" "rq_req_pool_idx (sq_mem (reqs ! i)) = Some k"
    "rc_enabled c" "rc_slots c (content c) U"
  using assms by (auto simp: mem_inv_def owners_def owns_kv_def)

lemma page_slots_one: "page_slots 1 gs = gs"
  by (simp add: page_slots_def)

lemma next_slots_token:
  assumes m: "mem_inv env U G {..<length reqs} (reqs, pool, c)" and p1: "rc_page_size c = 1"
    and fit: "length reqs \<le> kv_available_size (rc_allocator c)"
  shows "\<exists>out a H. kv_alloc_op (length reqs) (rc_allocator c) = Inr (Some out, a) \<and> next_slots c U G reqs out a (U \<union> set out) H"
proof -
  have k: "kv_inv (rc_allocator c) U" "al_page_size (rc_allocator c) dvd length reqs" "pages_ok 1 (content c)" "cache_slots 1 (content c) \<subseteq> U"
     "al_page_size (rc_allocator c) = 1"
    using m p1 by (simp_all add: mem_inv_def rc_slots_def)
  obtain out a where x: "kv_alloc_op (length reqs) (rc_allocator c) = Inr (Some out, a)" using kv.alloc_succeeds [OF k(1,2) fit] by blast
  note f = kv.alloc_Some [OF k(1,2) x]
  have pa: "al_page_size a = 1" using kv_alloc_page_size [OF x] k(5) by simp
  let ?H = "\<lambda>i. [out ! i]"
  have "out ! i = (G i @ [out ! i]) ! (breq_len (reqs ! i) - breq_prot (reqs ! i))" if i: "i < length reqs" for i
  proof -
    from i have "i \<in> {..<length reqs}" by simp
    then obtain k where o: "owns_kv (de_sha env) c U pool (sq_mem (reqs ! i)) (G i)" "rq_req_pool_idx (sq_mem (reqs ! i)) = Some k"
      "rc_enabled c" "rc_slots c (content c) U" by (rule mem_inv_owner [OF m])
    have "breq_len (reqs ! i) - breq_prot (reqs ! i) = length (G i)" using own_pages(11) [OF o(3,4,1,2)] by (simp add: p1)
    then show ?thesis by simp
  qed
  moreover have "set out = (\<Union>i<length reqs. {out ! i})" using f by (auto simp: set_conv_nth)
  moreover have "out ! i \<noteq> out ! j" if "i < length reqs" "j < length reqs" "i \<noteq> j" for i j using f that by (simp add: nth_eq_iff_index_eq)
  moreover have "out ! i \<notin> U" if "i < length reqs" for i using f that by (metis disjoint_iff nth_mem)
  ultimately have "next_slots c U G reqs out a (U \<union> set out) ?H"
    using f k pa p1 by (auto simp: next_slots_def rc_slots_def page_slots_one [simplified])
  with x show ?thesis by blast
qed

text \<open>Positions in the list of fresh pages: one step for every request whose last page is full.\<close>

lemma page_start_step:
  assumes "0 < p" "i < length ns"
  shows "page_start p ns (map Suc ns) (Suc i) = page_start p ns (map Suc ns) i + (if p dvd ns ! i then 1 else 0)"
  using assms ceil_div_pred(1) [of p "Suc (ns ! i)"] by (simp add: page_start_Suc)

lemma page_start_filter:
  assumes "0 < p"
  shows "page_start p ns (map Suc ns) (length ns) = length (filter (\<lambda>n. n mod p = 0) ns)"
proof -
  have "page_start p ns (map Suc ns) k = card {i. i < k \<and> p dvd ns ! i}" if "k \<le> length ns" for k
    using that
  proof (induction k)
    case (Suc k)
    have "{i. i < Suc k \<and> p dvd ns ! i} = {i. i < k \<and> p dvd ns ! i} \<union> (if p dvd ns ! k then {k} else {})" by (auto simp: less_Suc_eq)
    then show ?case using Suc page_start_step [OF assms, of k ns] by (auto simp: card_insert_if)
  qed (simp add: page_start_def)
  then show ?thesis by (simp add: length_filter_conv_card dvd_eq_mod_eq_0)
qed

lemma page_start_onto:
  assumes "0 < p" "k \<le> length ns"
  shows "page_start p ns (map Suc ns) ` {i. i < k \<and> p dvd ns ! i} = {..<page_start p ns (map Suc ns) k}"
  using assms(2)
proof (induction k)
  case (Suc k)
  have "{i. i < Suc k \<and> p dvd ns ! i} = {i. i < k \<and> p dvd ns ! i} \<union> (if p dvd ns ! k then {k} else {})" by (auto simp: less_Suc_eq)
  then show ?case using Suc page_start_step [OF assms(1), of k ns] by (auto simp: less_Suc_eq image_Un)
qed (simp add: page_start_def)

lemma page_start_less:
  assumes "0 < p" "i < j" "j \<le> length ns" "p dvd ns ! i"
  shows "page_start p ns (map Suc ns) i < page_start p ns (map Suc ns) j"
proof -
  have "page_start p ns (map Suc ns) (Suc i) \<le> page_start p ns (map Suc ns) j" by (rule page_start_mono) (use assms in simp)
  then show ?thesis using page_start_step [of p i ns] assms by simp
qed

lemma extend_spec_one:
  "extend_spec p ns (map Suc ns) ll fp = map (\<lambda>i. extend_slot p ns (map Suc ns) ll fp i (ns ! i)) [0..<length ns]"
proof -
  have "map (extend_seg p ns (map Suc ns) ll fp) [0..<length ns] = map (\<lambda>i. [extend_slot p ns (map Suc ns) ll fp i (ns ! i)]) [0..<length ns]"
    by (rule map_cong) (simp_all add: extend_seg_def)
  then have "extend_spec p ns (map Suc ns) ll fp = concat (map (\<lambda>i. [extend_slot p ns (map Suc ns) ll fp i (ns ! i)]) [0..<length ns])"
    by (simp only: extend_spec_def)
  then show ?thesis by (simp only: concat_map_singleton)
qed

lemma extend_slot_one:
  assumes "0 < p"
  shows "extend_slot p ns (map Suc ns) ll fp i (ns ! i)
     = (if p dvd ns ! i then fp ! page_start p ns (map Suc ns) i * int p else ll ! i + 1)"
proof -
  have "ceil_div p (ns ! i) * p \<le> ns ! i \<longleftrightarrow> p dvd ns ! i" using ceil_div_pred(3) [OF assms, of "Suc (ns ! i)"] by simp
  then have lt: "ns ! i < ceil_div p (ns ! i) * p \<longleftrightarrow> \<not> p dvd ns ! i" by linarith
  show ?thesis
  proof (cases "p dvd ns ! i")
    case True
    then have "ceil_div p (ns ! i) = ns ! i div p" "ns ! i mod p = 0" by (simp_all add: ceil_div_eq [OF assms])
    then show ?thesis using True lt by (simp add: extend_slot_def Let_def)
  qed (use lt in \<open>simp add: extend_slot_def Let_def\<close>)
qed

abbreviation last_slots :: "req_pool \<Rightarrow> batch_req list \<Rightarrow> int list" where
  "last_slots pool reqs \<equiv> map (\<lambda>r. rp_req_to_token pool ! the (rq_req_pool_idx (sq_mem r)) ! (breq_len r - 1)) reqs"

lemma last_slots_ok:
  assumes m: "mem_inv env U G {..<length reqs} (reqs, pool, c)" and pos: "\<forall>r\<in>set reqs. 0 < breq_len r"
  shows "last_locs_ok (rc_page_size c) (map breq_len reqs) (last_slots pool reqs) U"
proof -
  let ?p = "rc_page_size c" and ?ll = "last_slots pool reqs"
  have P: "(?ll ! i + 1) mod int ?p = int (breq_len (reqs ! i)) mod int ?p"
    "\<not> ?p dvd breq_len (reqs ! i) \<Longrightarrow> ?ll ! i div int ?p \<in> set (G i) \<and> ?ll ! i \<in> U" if i: "i < length reqs" for i
  proof -
    from i have "i \<in> {..<length reqs}" by simp
    then obtain k where o: "owns_kv (de_sha env) c U pool (sq_mem (reqs ! i)) (G i)" "rq_req_pool_idx (sq_mem (reqs ! i)) = Some k"
      "rc_enabled c" "rc_slots c (content c) U" by (rule mem_inv_owner [OF m])
    note P = own_pages(9,10) [OF o(3,4,1,2)]
    have "0 < breq_len (reqs ! i)" using pos i by simp
    then show "(?ll ! i + 1) mod int ?p = int (breq_len (reqs ! i)) mod int ?p" using P(1) i o(2) by simp
    show "?ll ! i div int ?p \<in> set (G i) \<and> ?ll ! i \<in> U" if "\<not> ?p dvd breq_len (reqs ! i)" using P(2) [OF that] i o(2) by simp
  qed
  have dj: "set (G i) \<inter> set (G j) = {}" if "i < length reqs" "j < length reqs" "i \<noteq> j" for i j
    using m that by (auto simp: mem_inv_def owners_def)
  show ?thesis unfolding last_locs_ok_def
  proof (intro conjI allI impI)
    fix i j assume "i < length (map breq_len reqs)" "j < length (map breq_len reqs)" "i \<noteq> j"
      "\<not> ?p dvd map breq_len reqs ! i" "\<not> ?p dvd map breq_len reqs ! j"
    then show "?ll ! i div int ?p \<noteq> ?ll ! j div int ?p" using P(2) [of i] P(2) [of j] dj [of i j] by auto
  next
    fix i assume "i < length (map breq_len reqs)"
    then show "(?ll ! i + 1) mod int ?p = int (map breq_len reqs ! i) mod int ?p" using P(1) [of i] by simp
    assume "\<not> ?p dvd map breq_len reqs ! i"
    then show "?ll ! i \<in> U" using P(2) [of i] \<open>i < length (map breq_len reqs)\<close> by simp
  qed
qed

lemma next_slots_paged:
  assumes m: "mem_inv env U G {..<length reqs} (reqs, pool, c)" and p1: "1 < rc_page_size c" and pos: "\<forall>r\<in>set reqs. 0 < breq_len r"
    and fit: "decode_need c reqs \<le> kv_available_size (rc_allocator c)" and buf: "length reqs \<le> length uninit"
  shows "\<exists>out a H U'. alloc_decode oob fill uninit (map (\<lambda>r. Suc (breq_len r)) reqs) (last_slots pool reqs) (rc_allocator c) = Inr (Some out, a)
     \<and> next_slots c U G reqs out a U' H"
proof -
  define ns where "ns = map breq_len reqs"
  define ll where "ll = last_slots pool reqs"
  let ?p = "rc_page_size c" and ?a = "rc_allocator c" and ?seq = "map Suc ns" and ?S = "page_start (rc_page_size c) ns (map Suc ns)"
  have ns: "length ns = length reqs" "\<And>i. i < length reqs \<Longrightarrow> ns ! i = breq_len (reqs ! i)" by (simp_all add: ns_def)
  have p0: "0 < ?p" using p1 by simp
  have k: "paged_inv ?a U" "al_page_size ?a = ?p" "pages_ok ?p (content c)" "cache_slots ?p (content c) \<subseteq> U"
    using m p1 by (auto simp: mem_inv_def rc_slots_def kv_inv_def)
  have pl: "pred_lens ?seq = ns" by (simp add: comp_def)
  have cnt: "?S (length reqs) = length (filter (\<lambda>r. breq_len r mod ?p = 0) reqs)"
    using page_start_filter [OF p0, of ns] unfolding ns(1) by (simp add: ns_def filter_map comp_def)
  have av: "page_start (al_page_size ?a) (pred_lens ?seq) ?seq (length ?seq) * al_page_size ?a \<le> base_available_size ?a"
    using fit k(2) p1 cnt ns(1) unfolding pl by (simp add: new_tokens_required_next_decode_def kv_available_size_def filter_map comp_def)
  have llo: "last_locs_ok (al_page_size ?a) (pred_lens ?seq) ll U" unfolding pl k(2) unfolding ns_def ll_def by (rule last_slots_ok [OF m pos])
  have lens: "length ll = length ?seq" "\<forall>i<length ?seq. 0 < ?seq ! i" "length ?seq \<le> length uninit" using buf by (simp_all add: ll_def ns_def)
  obtain pages a where x: "alloc_decode oob fill uninit ?seq ll ?a = Inr (Some (extend_spec ?p ns ?seq ll pages), a)"
     "length pages = ?S (length reqs)" "distinct pages" "slots_of ?p (set pages) \<inter> U = {}" "paged_inv a (U \<union> slots_of ?p (set pages))"
    using alloc_decode_ok [OF k(1) _ lens(1,2) llo lens(3) av, of oob fill] p1 ns(1) unfolding pl k(2) by auto
  define H where "H i = (if ?p dvd breq_len (reqs ! i) then [pages ! ?S i] else [])" for i
  define out where "out = extend_spec ?p ns ?seq ll pages"
  have idx: "?S i < length pages" if "i < length reqs" "?p dvd breq_len (reqs ! i)" for i
    using page_start_less [OF p0, of i "length reqs" ns] that x(2) ns by simp
  have "(\<Union>i<length reqs. set (H i)) = (!) pages ` (?S ` {i. i < length ns \<and> ?p dvd ns ! i})"
    by (auto simp: H_def ns)
  also have "\<dots> = set pages" using page_start_onto [OF p0, of "length ns" ns] x(2) ns(1)
    by (simp add: set_conv_nth lessThan_def image_def) blast
  finally have HU: "set pages = (\<Union>i<length reqs. set (H i))" by simp
  have sl: "slots_of ?p (set pages) = (\<Union>i<length reqs. req_pages c (H i))"
    unfolding HU set_page_slots [OF p0] by (auto simp: slots_of_def)
  have pa: "al_page_size a = ?p"
  proof -
    have "alloc_decode oob fill uninit ?seq ll ?a = Inr (Some out, a)" using x(1) by (simp add: out_def)
    then show ?thesis using k(2) by (auto simp: alloc_decode_def Let_def rbind_eq_Inr_iff merge_and_sort_free_def split: if_splits)
  qed
  have "out ! i = page_slots ?p (G i @ H i) ! (breq_len (reqs ! i) - breq_prot (reqs ! i))" if i: "i < length reqs" for i
  proof -
    have i': "i \<in> {..<length reqs}" using i by simp
    obtain q where o: "owns_kv (de_sha env) c U pool (sq_mem (reqs ! i)) (G i)" "rq_req_pool_idx (sq_mem (reqs ! i)) = Some q"
      "rc_enabled c" "rc_slots c (content c) U" by (rule mem_inv_owner [OF m i'])
    note P = own_pages(10,11) [OF o(3,4,1,2)]
    have oi: "out ! i = (if ?p dvd breq_len (reqs ! i) then pages ! ?S i * int ?p else ll ! i + 1)"
      using i extend_slot_one [OF p0, of ns ll pages i] ns by (simp add: out_def extend_spec_one)
    show ?thesis
    proof (cases "?p dvd breq_len (reqs ! i)")
      case True
      then show ?thesis using P(2) oi p0 by (simp add: H_def page_slots_at nth_append)
    next
      case False
      then show ?thesis using P(1) oi i o(2) by (simp add: H_def ll_def)
    qed
  qed
  moreover have "set (H i) \<inter> set (H j) = {}" if ij: "i < length reqs" "j < length reqs" "i \<noteq> j" for i j
  proof -
    have "?S i \<noteq> ?S j" if "?p dvd breq_len (reqs ! i)" "?p dvd breq_len (reqs ! j)"
      using page_start_less [OF p0, of i j ns] page_start_less [OF p0, of j i ns] ij that ns by (cases i j rule: linorder_cases) auto
    then show ?thesis using idx [OF ij(1)] idx [OF ij(2)] x(3) by (auto simp: H_def nth_eq_iff_index_eq)
  qed
  moreover have "req_pages c (H i) \<inter> U = {}" if "i < length reqs" for i using x(4) that unfolding sl by blast
  moreover have "rc_slots (c\<lparr>rc_allocator := a\<rparr>) (content c) (U \<union> slots_of ?p (set pages))"
    using x(5) pa k(3,4) p1 by (auto simp: rc_slots_def kv_inv_def)
  moreover have "length out = length reqs" by (simp add: out_def extend_spec_one ns)
  moreover have "length (H i) = (if ?p dvd breq_len (reqs ! i) then 1 else 0)" for i by (simp add: H_def)
  ultimately have "next_slots c U G reqs out a (U \<union> slots_of ?p (set pages)) H" unfolding next_slots_def sl by blast
  then show ?thesis using x(1) unfolding out_def [symmetric] unfolding ns_def ll_def by (auto simp: comp_def)
qed

end
