(* ===== verification/Retract_Batch.thy ===== *)
theory Retract_Batch
  imports Retract_Decode Batch_Align
begin

text \<open>
  \<open>retract_decode\<close> on a whole batch: the loop, the abort of a last request that does not fit, and
  the filtering of the tensors.
\<close>

section \<open>Positions\<close>

lemma owners_reindex:
  assumes o: "owners sha c U pool rs G (set keep)" and d: "distinct keep"
  shows "owners sha c U pool (\<lambda>j. rs (keep ! j)) (\<lambda>j. G (keep ! j)) {..<length keep}"
  unfolding owners_def
proof (intro conjI ballI impI)
  fix i j assume "i \<in> {..<length keep}" "j \<in> {..<length keep}" "i \<noteq> j"
  then have "keep ! i \<in> set keep" "keep ! j \<in> set keep" "keep ! i \<noteq> keep ! j" using d by (simp_all add: nth_eq_iff_index_eq)
  then show "set (G (keep ! i)) \<inter> set (G (keep ! j)) = {}" "rq_req_pool_idx (rs (keep ! i)) \<noteq> rq_req_pool_idx (rs (keep ! j))"
    using o unfolding owners_def by blast+
next
  fix x assume x: "x \<in> live c - {rc_root c}"
  let ?J = "{j \<in> {..<length keep}. rq_last_node (rs (keep ! j)) = Some x}"
  have "(!) keep ` ?J = {i \<in> set keep. rq_last_node (rs i) = Some x}" by (auto simp: in_set_conv_nth)
  moreover have "inj_on ((!) keep) ?J" using d by (auto simp: inj_on_def nth_eq_iff_index_eq)
  then have "card ((!) keep ` ?J) = card ?J" by (rule card_image)
  ultimately have "card ?J = card {i \<in> set keep. rq_last_node (rs i) = Some x}" by (simp only:)
  then show "int (card ?J) \<le> held c (live c) x" using o x by (simp add: owners_def)
qed (use o in \<open>simp_all add: owners_def\<close>)

lemma mem_inv_reindex:
  assumes m: "mem_inv env U G (set keep) (reqs, pool, c)" and d: "distinct keep"
  shows "mem_inv env U (\<lambda>j. G (keep ! j)) {..<length keep} (map ((!) reqs) keep, pool, c)"
proof -
  have "owners (de_sha env) c U pool (\<lambda>j. sq_mem (map ((!) reqs) keep ! j)) (\<lambda>j. G (keep ! j)) {..<length keep}
      = owners (de_sha env) c U pool (\<lambda>j. sq_mem (reqs ! (keep ! j))) (\<lambda>j. G (keep ! j)) {..<length keep}"
    by (rule owners_cong) simp_all
  then show ?thesis using m owners_reindex [of "de_sha env" c U pool "\<lambda>i. sq_mem (reqs ! i)" G keep] d by (simp add: mem_inv_def)
qed

lemma mem_inv_same_mem:
  assumes "mem_inv env U G I (reqs, pool, c)" "length reqs' = length reqs" "\<And>i. i \<in> I \<Longrightarrow> sq_mem (reqs' ! i) = sq_mem (reqs ! i)"
  shows "mem_inv env U G I (reqs', pool, c)"
proof -
  have "owners (de_sha env) c U pool (\<lambda>i. sq_mem (reqs' ! i)) G I = owners (de_sha env) c U pool (\<lambda>i. sq_mem (reqs ! i)) G I"
    by (rule owners_cong) (use assms(3) in simp_all)
  then show ?thesis using assms by (simp add: mem_inv_def)
qed

lemma retract_order_perm: "distinct (retract_order env reqs)" "set (retract_order env reqs) = {..<length reqs}"
  "length (retract_order env reqs) = length reqs"
  by (auto simp: retract_order_def distinct_sort)

section \<open>Tensors\<close>

lemma retracted_req_simps [simp]:
  "sq_return_logprob (retracted_req r) = sq_return_logprob r" "sq_stream (retracted_req r) = sq_stream r"
  "sq_has_grammar (retracted_req r) = sq_has_grammar r" "br_samp (retracted_req r) = br_samp r"
  "br_top_logprobs_num (retracted_req r) = br_top_logprobs_num r" "br_token_ids_logprob (retracted_req r) = br_token_ids_logprob r"
  "rq_req_pool_idx (sq_mem (retracted_req r)) = None"
  by (simp_all add: retracted_req_def reset_for_retract_def Let_def)

text \<open>A retracted request keeps everything the tensors are aligned with, except its row.\<close>

lemma batch_ok_retracted:
  assumes ok: "batch_ok S rows b" and len: "length reqs = length (bt_reqs b)"
    and e: "\<And>i. i < length (bt_reqs b) \<Longrightarrow> reqs ! i = bt_reqs b ! i \<or> reqs ! i = retracted_req (bt_reqs b ! i)"
  shows "batch_ok S rows (b\<lparr>bt_reqs := reqs\<rparr>)"
proof -
  obtain hsh det en V where S: "S = (hsh, det, en, V)" by (cases S)
  let ?n = "length (bt_reqs b)"
  have f: "f (reqs ! i) = f (bt_reqs b ! i)" if "\<And>r. f (retracted_req r) = f r" "i < ?n" for f :: "batch_req \<Rightarrow> 'a" and i
    using e [OF that(2)] that(1) by metis
  have ma: "map f reqs = map f (bt_reqs b)" if "\<And>r. f (retracted_req r) = f r" for f :: "batch_req \<Rightarrow> 'a"
    by (rule nth_equalityI) (use that len f [of f] in simp_all)
  have le: "list_ex P reqs = list_ex P (bt_reqs b)" if "\<And>r. P (retracted_req r) = P r" for P
  proof -
    have "list_ex P xs = list_ex id (map P xs)" for xs by (simp add: list_ex_iff)
    then show ?thesis using ma [of P] that by simp
  qed
  have "row_aligned (b\<lparr>bt_reqs := reqs\<rparr>) i" if "i < ?n" "row_aligned b i" for i
    using e [OF that(1)] that(2) by (auto simp: row_aligned_def)
  moreover have "br_top_logprobs_num r = 0 \<and> br_token_ids_logprob r = None" if r: "r \<in> set reqs" "\<not> sq_return_logprob r" for r
  proof -
    obtain i where i: "i < ?n" "r = reqs ! i" using r(1) len by (metis in_set_conv_nth)
    have "bt_reqs b ! i \<in> set (bt_reqs b)" "\<not> sq_return_logprob (bt_reqs b ! i)" using i r(2) e [OF i(1)] by auto
    then have "br_top_logprobs_num (bt_reqs b ! i) = 0 \<and> br_token_ids_logprob (bt_reqs b ! i) = None"
      using ok by (simp add: batch_ok_def S flags_ok_def)
    then show ?thesis using e [OF i(1)] i(2) by auto
  qed
  ultimately show ?thesis using ok len ma [of br_samp] ma [of br_top_logprobs_num] ma [of br_token_ids_logprob]
      le [of sq_return_logprob] le [of sq_stream] le [of sq_has_grammar]
    by (auto simp: batch_ok_def S tensors_ok_def flags_ok_def Let_def)
qed

section \<open>The last request\<close>

definition aborted_req :: "batch_req \<Rightarrow> batch_req" where
  "aborted_req r = retracted_req (r\<lparr>sq_to_finish := Some oom_abort\<rparr>)"

text \<open>The requests cannot decode one more step even if the cache gives up all it can.\<close>

definition no_room :: "rcache \<Rightarrow> batch_req list \<Rightarrow> bool" where
  "no_room c rs \<longleftrightarrow> kv_available_size (rc_allocator c) + nat (rc_evictable_size c) < decode_need c rs"

lemma abort_last_ok:
  assumes m: "mem_inv env U G (set idxs) (reqs, pool, c)" and ne: "idxs \<noteq> []"
    and fit: "1 < length idxs \<longrightarrow> decode_need c (map ((!) reqs) idxs) \<le> kv_available_size (rc_allocator c)"
  shows "\<exists>keep ab reqs' pool' c' U'. abort_last env idxs (reqs, pool, c) = Inr (keep, ab, (reqs', pool', c')) \<and> idxs = keep @ ab
     \<and> mem_inv env U' G (set keep) (reqs', pool', c') \<and> rc_same c c' \<and> rp_req_to_token pool' = rp_req_to_token pool
     \<and> others c' U' = others c U - (\<Union>i\<in>set ab. req_pages c (G i))
     \<and> (if keep = [] then (\<exists>i. ab = [i] \<and> reqs' = reqs[i := aborted_req (reqs ! i)] \<and> no_room c [reqs ! i])
        else ab = [] \<and> reqs' = reqs \<and> decode_need c' (map ((!) reqs) keep) \<le> kv_available_size (rc_allocator c'))"
proof (cases "1 < length idxs")
  case True
  then have "abort_last env idxs (reqs, pool, c) = Inr (idxs, [], (reqs, pool, c))" by (simp add: abort_last_def)
  then show ?thesis using m ne fit True
    by - (rule exI [of _ idxs], rule exI [of _ "[]"], rule exI [of _ reqs], rule exI [of _ pool], rule exI [of _ c], rule exI [of _ U], simp)
next
  case False
  then obtain i where i: "idxs = [i]" using ne by (cases idxs; cases "tl idxs") auto
  have il: "i < length reqs" using m i by (simp add: mem_inv_def)
  obtain c1 U1 where ck: "check_decode_mem env [reqs ! i] c = Inr (decode_need c1 [reqs ! i] \<le> kv_available_size (rc_allocator c1), c1)"
     "mem_inv env U1 G {i} (reqs, pool, c1)" "rc_same c c1" "others c1 U1 = others c U"
     "decode_need c [reqs ! i] \<le> kv_available_size (rc_allocator c) + nat (rc_evictable_size c) \<longrightarrow> decode_need c1 [reqs ! i] \<le> kv_available_size (rc_allocator c1)"
    using check_decode_mem_ok [OF m, of "[reqs ! i]"] unfolding i list.set by (elim exE conjE) (rule that; assumption)
  have tr: "take_rows [i] reqs = Inr [reqs ! i]" using il by (simp add: take_rows_def)
  show ?thesis
  proof (cases "decode_need c1 [reqs ! i] \<le> kv_available_size (rc_allocator c1)")
    case True
    then have "abort_last env idxs (reqs, pool, c) = Inr ([i], [], (reqs, pool, c1))" using tr ck(1) by (simp add: abort_last_def i)
    then show ?thesis using ck True i
      by - (rule exI [of _ "[i]"], rule exI [of _ "[]"], rule exI [of _ reqs], rule exI [of _ pool], rule exI [of _ c1], rule exI [of _ U1], simp)
  next
    case False
    then have nr: "no_room c [reqs ! i]" using ck(5) unfolding no_room_def by (meson not_le)
    let ?reqs = "reqs[i := (reqs ! i)\<lparr>sq_to_finish := Some oom_abort\<rparr>]"
    have m1: "mem_inv env U1 G {i} (?reqs, pool, c1)" by (rule mem_inv_same_mem [OF ck(2)]) (use il in simp_all)
    obtain k c2 U2 where r: "release_req env i 0 (?reqs, pool, c1) = Inr (?reqs[i := retracted_req (?reqs ! i)], pool\<lparr>rp_free_slots := rp_free_slots pool @ [k]\<rparr>, c2)"
       "mem_inv env U2 G ({i} - {i}) (?reqs[i := retracted_req (?reqs ! i)], pool\<lparr>rp_free_slots := rp_free_slots pool @ [k]\<rparr>, c2)"
       "rc_same c1 c2" "others c2 U2 = others c1 U1 - req_pages c1 (G i)"
      using release_req_ok [OF m1, of i 0] by blast
    have e: "?reqs[i := retracted_req (?reqs ! i)] = reqs[i := aborted_req (reqs ! i)]" using il by (simp add: aborted_req_def)
    have "abort_last env idxs (reqs, pool, c) = Inr ([], [i], (reqs[i := aborted_req (reqs ! i)], pool\<lparr>rp_free_slots := rp_free_slots pool @ [k]\<rparr>, c2))"
      using tr ck(1) False r(1) unfolding e by (simp add: abort_last_def i)
    moreover have "rc_same c c2" by (rule rc_same_trans [OF ck(3) r(3)])
    moreover have "others c2 U2 = others c U - req_pages c (G i)" using r(4) ck(3,4) by (simp add: rc_same_def)
    ultimately show ?thesis using r(2) i nr unfolding e
      by - (rule exI [of _ "[]"], rule exI [of _ "[i]"], rule exI, rule exI, rule exI [of _ c2], rule exI [of _ U2], auto)
  qed
qed

section \<open>The whole retraction\<close>

lemma new_estimate_ratio_ok:
  assumes "\<forall>r\<in>set reqs. 0 \<le> sq_max_new_tokens r"
  shows "\<exists>ratio. new_estimate_ratio steps reqs = Inr ratio \<and> 0 \<le> ratio \<and> ratio \<le> 1"
proof -
  have "0 \<le> sum_list (map sq_max_new_tokens reqs)" using assms by (intro sum_list_nonneg) auto
  then have pos: "0 < sum_list (map sq_max_new_tokens reqs) + 1" by linarith
  have "0 \<le> sum_list (map (\<lambda>r. int (length (rq_output_ids (sq_mem r)))) reqs) + int steps * int (length reqs)"
    by (intro add_nonneg_nonneg sum_list_nonneg) auto
  then have "0 \<le> rat_of_int (sum_list (map (\<lambda>r. int (length (rq_output_ids (sq_mem r)))) reqs) + int steps * int (length reqs))
      / rat_of_int (sum_list (map sq_max_new_tokens reqs) + 1)"
    using pos by (intro divide_nonneg_pos) (simp_all only: of_int_0_le_iff of_int_0_less_iff)
  then show ?thesis using pos by (auto simp: new_estimate_ratio_def Let_def)
qed

lemma retract_decode_ok:
  assumes ok: "batch_ok S rows b" and m: "mem_inv env U G {..<length (bt_reqs b)} (bt_reqs b, pool, c)" and ne: "bt_reqs b \<noteq> []"
    and mx: "\<forall>r\<in>set (bt_reqs b). 0 \<le> sq_max_new_tokens r"
  shows "\<exists>keep ab retr ratio b' pool' c' U'.
     retract_decode env b pool c = Inr (map (\<lambda>i. retracted_req (bt_reqs b ! i)) retr, ratio, map (\<lambda>i. aborted_req (bt_reqs b ! i)) ab, b', pool', c')
   \<and> retract_order env (bt_reqs b) = keep @ ab @ rev retr \<and> (1 < length (bt_reqs b) \<longrightarrow> retr \<noteq> [])
   \<and> bt_reqs b' = map ((!) (bt_reqs b)) keep \<and> rc_enabled c' \<and> rc_same c c' \<and> rc_slots c' (content c') U'
   \<and> others c' U' = others c U - (\<Union>i\<in>set (ab @ retr). req_pages c (G i)) \<and> rp_req_to_token pool' = rp_req_to_token pool
   \<and> (if keep = [] then length ab = 1
      else ab = [] \<and> batch_ok S (map ((!) rows) keep) b' \<and> filtered keep b b'
        \<and> mem_inv env U' (\<lambda>j. G (keep ! j)) {..<length keep} (bt_reqs b', pool', c')
        \<and> decode_need c' (bt_reqs b') \<le> kv_available_size (rc_allocator c'))
   \<and> 0 \<le> ratio \<and> ratio \<le> 1
   \<and> (\<exists>reqs1 pool1 c1. retract_loop env True (retract_order env (bt_reqs b)) [] (bt_reqs b, pool, c) = Inr (keep @ ab, retr, (reqs1, pool1, c1))
        \<and> rc_same c c1 \<and> (\<forall>i. ab = [i] \<longrightarrow> no_room c1 [bt_reqs b ! i]))"
proof -
  let ?rs = "bt_reqs b" and ?o = "retract_order env (bt_reqs b)"
  note op = retract_order_perm [of env ?rs]
  have m0: "mem_inv env U G (set ?o) (?rs, pool, c)" using m op(2) by simp
  have one: "?o \<noteq> []" using ne op(3) by auto
  obtain k reqs1 pool1 c1 U1 where L: "0 < k" "k \<le> length ?o"
     "retract_loop env True ?o [] (?rs, pool, c) = Inr (take k ?o, [] @ rev (drop k ?o), (reqs1, pool1, c1))"
     "retraction env U G ?o (?rs, pool, c) U1 k (reqs1, pool1, c1)"
     "1 < k \<longrightarrow> decode_need c1 (map ((!) reqs1) (take k ?o)) \<le> kv_available_size (rc_allocator c1)"
     "True \<and> 1 < length ?o \<longrightarrow> k < length ?o"
    using retract_loop_ok [OF m0 op(1) one, of True "[]"] by blast
  note R = L(4) [unfolded retraction_def prod.case]
  have lk: "length (take k ?o) = k" "take k ?o \<noteq> []" using L(1,2) one by auto
  obtain keep ab reqs2 pool2 c2 U2 where A: "abort_last env (take k ?o) (reqs1, pool1, c1) = Inr (keep, ab, (reqs2, pool2, c2))" "take k ?o = keep @ ab"
     "mem_inv env U2 G (set keep) (reqs2, pool2, c2)" "rc_same c1 c2" "rp_req_to_token pool2 = rp_req_to_token pool1"
     "others c2 U2 = others c1 U1 - (\<Union>i\<in>set ab. req_pages c1 (G i))"
     "if keep = [] then (\<exists>i. ab = [i] \<and> reqs2 = reqs1[i := aborted_req (reqs1 ! i)] \<and> no_room c1 [reqs1 ! i])
        else ab = [] \<and> reqs2 = reqs1 \<and> decode_need c2 (map ((!) reqs1) keep) \<le> kv_available_size (rc_allocator c2)"
    using abort_last_ok [of env U1 G "take k ?o" reqs1 pool1 c1] R L(5) lk by auto
  let ?retr = "rev (drop k ?o)"
  have ord: "?o = keep @ ab @ rev ?retr" using A(2) by (metis append.assoc append_take_drop_id rev_rev_ident)
  have dis: "distinct (keep @ ab @ drop k ?o)" using op(1) ord by (metis rev_rev_ident)
  have bnd: "\<forall>i\<in>set (keep @ ab @ ?retr). i < length ?rs" using op(2) ord by (metis lessThan_iff rev_rev_ident set_append set_rev)
  have l2: "length reqs2 = length ?rs" using A(7) R by (auto split: if_splits)
  have r1: "reqs1 ! i = (if i \<in> set (drop k ?o) then retracted_req (?rs ! i) else ?rs ! i)" if "i < length ?rs" for i using R that by blast
  have rr: "reqs2 ! i = retracted_req (?rs ! i)" if i: "i \<in> set ?retr" for i
  proof -
    have "i \<notin> set ab" "i < length ?rs" using dis bnd i by auto
    then show ?thesis using A(7) r1 [of i] i by (auto split: if_splits)
  qed
  have ra: "reqs2 ! i = aborted_req (?rs ! i)" if i: "i \<in> set ab" for i
  proof -
    have i': "i < length ?rs" "i \<notin> set (drop k ?o)" using i bnd dis by auto
    have "reqs2 = reqs1[i := aborted_req (reqs1 ! i)]" using A(7) i by (auto split: if_splits)
    then show ?thesis using i' r1 [of i] R by simp
  qed
  have nr: "no_room c1 [?rs ! i]" if ab: "ab = [i]" for i
  proof -
    have "i < length ?rs" "i \<notin> set (drop k ?o)" using ab bnd dis by auto
    then show ?thesis using A(7) r1 [of i] ab by (auto split: if_splits)
  qed
  have lp: "\<exists>reqs1 pool1 c1. retract_loop env True ?o [] (?rs, pool, c) = Inr (keep @ ab, ?retr, (reqs1, pool1, c1))
        \<and> rc_same c c1 \<and> (\<forall>i. ab = [i] \<longrightarrow> no_room c1 [?rs ! i])"
    using L(3) R nr unfolding A(2) append_Nil by blast
  have rk: "reqs2 ! i = ?rs ! i" if i: "i \<in> set keep" for i
  proof -
    have "i < length ?rs" "i \<notin> set (drop k ?o)" "i \<notin> set ab" using i bnd dis by auto
    then show ?thesis using A(7) r1 [of i] by (auto split: if_splits)
  qed
  have t1: "take_rows ?retr reqs2 = Inr (map (\<lambda>i. retracted_req (?rs ! i)) ?retr)"
    using take_rows_eq [of ?retr reqs2] bnd l2 rr by (simp cong: map_cong)
  have t2: "take_rows ab reqs2 = Inr (map (\<lambda>i. aborted_req (?rs ! i)) ab)"
    using take_rows_eq [of ab reqs2] bnd l2 ra by (simp cong: map_cong)
  have mk: "map ((!) reqs2) keep = map ((!) ?rs) keep" using rk by simp
  have fb: "\<exists>b'. filter_batch [] (Some keep) (b\<lparr>bt_reqs := reqs2\<rparr>) = Inr b' \<and> bt_reqs b' = map ((!) ?rs) keep
     \<and> (keep \<noteq> [] \<longrightarrow> batch_ok S (map ((!) rows) keep) b' \<and> filtered keep b b')"
  proof (cases "keep = []")
    case False
    then have e: "reqs2 = reqs1" "ab = []" using A(7) by simp_all
    have ok2: "batch_ok S rows (b\<lparr>bt_reqs := reqs2\<rparr>)" by (rule batch_ok_retracted [OF ok l2]) (use r1 e in auto)
    have "keep = [0..<length ?rs]" if "length keep = length ?rs"
    proof -
      have "k = length ?o" using that A(2) e(2) lk op(3) by simp
      then have "length ?rs = 1" using L(6) op(3) ne by (cases "1 < length ?rs") (auto simp: not_less le_Suc_eq)
      moreover from this have "?o = [0]" using op(2,3) by (cases ?o) auto
      ultimately show ?thesis using A(2) e(2) \<open>k = length ?o\<close> by simp
    qed
    then obtain b' where "filter_batch [] (Some keep) (b\<lparr>bt_reqs := reqs2\<rparr>) = Inr b'" "batch_ok S (map ((!) rows) keep) b'"
       "filtered keep (b\<lparr>bt_reqs := reqs2\<rparr>) b'"
      using filter_batch_ok [OF ok2, where k = "Some keep" and keep = keep and excl = "[]"] False bnd l2 by auto
    then show ?thesis using mk by (auto simp: filtered_def)
  qed (simp add: filter_batch_def)
  then obtain b' where B: "filter_batch [] (Some keep) (b\<lparr>bt_reqs := reqs2\<rparr>) = Inr b'" "bt_reqs b' = map ((!) ?rs) keep"
     "keep \<noteq> [] \<longrightarrow> batch_ok S (map ((!) rows) keep) b' \<and> filtered keep b b'" by blast
  have "\<forall>r\<in>set (bt_reqs b'). 0 \<le> sq_max_new_tokens r" using mx bnd unfolding B(2) by auto
  then obtain ratio where ratio: "new_estimate_ratio (de_retract_decode_steps env) (bt_reqs b') = Inr ratio" "0 \<le> ratio" "ratio \<le> 1"
    using new_estimate_ratio_ok by blast
  have run: "retract_decode env b pool c = Inr (map (\<lambda>i. retracted_req (?rs ! i)) ?retr, ratio, map (\<lambda>i. aborted_req (?rs ! i)) ab, b', pool2, c2)"
    unfolding retract_decode_def L(3) append_Nil rbind_simps prod.case A(1) t1 t2 B(1) ratio(1) ..
  have same: "rc_same c c2" using R rc_same_trans [OF _ A(4)] by blast
  have pg: "rc_page_size c1 = rc_page_size c" using R by (simp add: rc_same_def)
  have oth: "others c2 U2 = others c U - (\<Union>i\<in>set (ab @ ?retr). req_pages c (G i))" using A(6) R unfolding pg by auto
  have fin: "if keep = [] then length ab = 1
      else ab = [] \<and> batch_ok S (map ((!) rows) keep) b' \<and> filtered keep b b'
        \<and> mem_inv env U2 (\<lambda>j. G (keep ! j)) {..<length keep} (bt_reqs b', pool2, c2)
        \<and> decode_need c2 (bt_reqs b') \<le> kv_available_size (rc_allocator c2)"
  proof (cases "keep = []")
    case False
    then have e: "ab = []" "decode_need c2 (map ((!) reqs2) keep) \<le> kv_available_size (rc_allocator c2)" using A(7) by auto
    have "mem_inv env U2 (\<lambda>j. G (keep ! j)) {..<length keep} (map ((!) reqs2) keep, pool2, c2)"
      by (rule mem_inv_reindex [OF A(3)]) (use dis in simp)
    then show ?thesis using False e B(2,3) unfolding mk by (simp only: if_False simp_thms)
  qed (use A(7) in auto)
  have "1 < length ?rs \<longrightarrow> ?retr \<noteq> []" using L(6) op(3) by auto
  moreover have "rc_enabled c2" "rc_slots c2 (content c2) U2" using A(3) by (simp_all add: mem_inv_def)
  moreover have "rp_req_to_token pool2 = rp_req_to_token pool" using A(5) R by simp
  ultimately show ?thesis using run ord B(2) same oth fin ratio(2,3) lp
    by - (rule exI [of _ keep], rule exI [of _ ab], rule exI [of _ ?retr], rule exI [of _ ratio], rule exI [of _ b'], rule exI [of _ pool2],
      rule exI [of _ c2], rule exI [of _ U2], intro conjI, assumption+)
qed

end
