(* ===== verification/Queue_Limit.thy ===== *)
theory Queue_Limit
  imports Waiting_Queue
begin

text \<open>
  The waiting queue under its limit: it never grows beyond it, no request is lost, and with
  priority scheduling the least preferred request is the one that is turned away.
\<close>

section \<open>The limit holds\<close>

definition direction_of :: "queue_config \<Rightarrow> int" where
  "direction_of cfg = (if qc_schedule_low_priority_values_first cfg then 1 else - 1)"

text \<open>
  At least one request may wait; with priority scheduling every waiting request has a priority.
\<close>

definition queue_ok :: "queue_config \<Rightarrow> 'a sched_req_scheme list \<Rightarrow> bool" where
  "queue_ok cfg q \<longleftrightarrow> (case qc_max_queued_requests cfg of None \<Rightarrow> True | Some m \<Rightarrow> 1 \<le> m \<and> int (length q) \<le> m)
     \<and> (qc_enable_priority_scheduling cfg \<longrightarrow> (\<forall>r\<in>set q. sq_priority r \<noteq> None))"

lemma max_position_best:
  assumes "max_position best i ks = (j, k)"
  shows "snd best \<le> k \<and> (\<forall>x\<in>set ks. x \<le> k) \<and> ((j, k) = best \<or> (\<exists>n<length ks. j = i + n \<and> ks ! n = k))"
  using assms
proof (induction best i ks rule: max_position.induct)
  case (2 best i k' ks)
  let ?b = "if snd best < k' then (i, k') else best"
  have IH: "snd ?b \<le> k \<and> (\<forall>x\<in>set ks. x \<le> k) \<and> ((j, k) = ?b \<or> (\<exists>n<length ks. j = Suc i + n \<and> ks ! n = k))" using 2 by simp
  have "snd best \<le> snd ?b" "k' \<le> snd ?b" by auto
  then have "snd best \<le> k \<and> (\<forall>x\<in>set (k' # ks). x \<le> k)" using IH by auto
  moreover have "(j, k) = best \<or> (\<exists>n<length (k' # ks). j = i + n \<and> (k' # ks) ! n = k)"
    using IH by (auto split: if_splits)
  ultimately show ?case by blast
qed simp

lemma least_preferred_ok:
  assumes "\<forall>r\<in>set q. sq_priority r \<noteq> None" "q \<noteq> []"
  shows "\<exists>i. least_preferred d q = Inr i \<and> i < length q \<and> (\<forall>r\<in>set q. d * the (sq_priority r) \<le> d * the (sq_priority (q ! i)))"
proof -
  let ?key = "\<lambda>r. (d * the (sq_priority r), sq_wait_queue_entry_time r)"
  have "rmap (preference_key d) rs = Inr (map ?key rs)" if "set rs \<subseteq> set q" for rs
    using that assms(1) by (induction rs) (auto simp: preference_key_def)
  then have ks: "rmap (preference_key d) q = Inr (map ?key q)" by simp
  obtain r rs where q: "q = r # rs" using assms(2) by (cases q) auto
  obtain j k where j: "max_position (0, ?key r) 1 (map ?key rs) = (j, k)" by (metis surj_pair)
  note b = max_position_best [OF j]
  have i: "j < length q" "?key (q ! j) = k" using b by (auto simp: q)
  have "?key x \<le> k" if "x \<in> set q" for x using b that by (auto simp: q)
  then have "\<forall>x\<in>set q. d * the (sq_priority x) \<le> d * the (sq_priority (q ! j))" using i(2) by (fastforce simp: less_eq_prod_def)
  moreover have "least_preferred d q = Inr j" using ks j by (simp add: least_preferred_def q)
  ultimately show ?thesis using i(1) by blast
qed

lemma mset_remove_nth: "i < length q \<Longrightarrow> mset (map f (take i q @ drop (Suc i) q)) + {#f (q ! i)#} = mset (map f q)"
proof -
  assume "i < length q"
  then have "q = take i q @ q ! i # drop (Suc i) q" by (rule id_take_nth_drop)
  then have "mset (map f q) = mset (map f (take i q @ q ! i # drop (Suc i) q))" by (rule arg_cong)
  then show ?thesis by simp
qed

lemma set_priority:
  assumes "set_or_validate_priority cfg r = (ok, r1, ab)"
  shows "sq_rid r1 = sq_rid r" "ok \<Longrightarrow> qc_enable_priority_scheduling cfg \<Longrightarrow> sq_priority r1 \<noteq> None" "\<not> ok \<Longrightarrow> ab = [sq_rid r]"
    "\<not> ok \<Longrightarrow> \<not> qc_enable_priority_scheduling cfg"
  using assms by (auto simp: set_or_validate_priority_def split: if_splits)

text \<open>No request that waits is less preferred than one that was turned away.\<close>

definition turned_away_least :: "queue_config \<Rightarrow> 'a sched_req_scheme \<Rightarrow> 'a sched_req_scheme list \<Rightarrow> 'a sched_req_scheme list \<Rightarrow> string list \<Rightarrow> bool" where
  "turned_away_least cfg r q q' ab \<longleftrightarrow> (qc_enable_priority_scheduling cfg \<and> ab \<noteq> [] \<longrightarrow>
     (\<exists>a\<in>insert (fst (snd (set_or_validate_priority cfg r))) (set q). ab = [sq_rid a]
        \<and> (\<forall>x\<in>set q'. direction_of cfg * the (sq_priority x) \<le> direction_of cfg * the (sq_priority a))))"

lemma add_request_ok:
  assumes q: "queue_ok cfg q" and rid: "sq_rid r \<notin> set (map sq_rid q)"
  shows "\<exists>q' ab. add_request_to_queue cfg now r q = Inr (q', ab) \<and> queue_ok cfg q'
     \<and> mset (map sq_rid q') + mset ab = mset (map sq_rid q) + {#sq_rid r#}
     \<and> turned_away_least cfg r q q' ab"
proof -
  obtain ok r1 ab0 where v: "set_or_validate_priority cfg r = (ok, r1, ab0)" by (cases "set_or_validate_priority cfg r")
  note sp = set_priority [OF v]
  let ?r = "r1\<lparr>sq_wait_queue_entry_time := now\<rparr>" and ?d = "direction_of cfg"
  consider "\<not> ok" | "ok" "\<not> queue_full cfg q" | "ok" "queue_full cfg q" "\<not> qc_enable_priority_scheduling cfg"
    | "ok" "queue_full cfg q" "qc_enable_priority_scheduling cfg" by blast
  then show ?thesis
  proof cases
    case 1
    then show ?thesis using v q sp by (simp add: add_request_to_queue_def turned_away_least_def)
  next
    case 2
    then have "add_request_to_queue cfg now r q = Inr (q @ [?r], [])" using v by (simp add: add_request_to_queue_def abort_on_queued_limit_def)
    moreover have "queue_ok cfg (q @ [?r])" using 2 q sp by (auto simp: queue_ok_def queue_full_def split: option.splits)
    ultimately show ?thesis using sp(1) by (auto simp: turned_away_least_def)
  next
    case 3
    then show ?thesis using v q sp by (simp add: add_request_to_queue_def abort_on_queued_limit_def turned_away_least_def)
  next
    case 4
    have "q \<noteq> []" using 4(2) q by (auto simp: queue_ok_def queue_full_def split: option.splits)
    then obtain i where i: "least_preferred ?d q = Inr i" "i < length q"
        "\<forall>r\<in>set q. ?d * the (sq_priority r) \<le> ?d * the (sq_priority (q ! i))" using least_preferred_ok [of q ?d] q 4(3) by (auto simp: queue_ok_def)
    obtain mine theirs where p: "sq_priority r1 = Some mine" "sq_priority (q ! i) = Some theirs"
      using sp(2) 4 q i(2) by (fastforce simp: queue_ok_def)
    have ne: "sq_rid (q ! i) \<noteq> sq_rid r1" using rid sp(1) nth_mem [OF i(2)] by (metis image_eqI list.set_map)
    let ?q = "take i q @ drop (Suc i) q"
    show ?thesis
    proof (cases "?d * mine < ?d * theirs")
      case True
      then have "add_request_to_queue cfg now r q = Inr (?q @ [?r], [sq_rid (q ! i)])"
        using v 4 i(1) p ne by (simp add: add_request_to_queue_def abort_on_queued_limit_def direction_of_def Let_def)
      moreover have "queue_ok cfg (?q @ [?r])"
        using q i(2) p by (auto simp: queue_ok_def split: option.splits dest: in_set_takeD in_set_dropD)
      moreover have "turned_away_least cfg r q (?q @ [?r]) [sq_rid (q ! i)]" unfolding turned_away_least_def
      proof (rule impI, rule bexI [of _ "q ! i"], intro conjI ballI)
        fix x assume "x \<in> set (?q @ [?r])"
        then have "x \<in> set q \<or> x = ?r" by (auto dest: in_set_takeD in_set_dropD)
        then show "?d * the (sq_priority x) \<le> ?d * the (sq_priority (q ! i))" using i(3) p True by auto
      qed (use i(2) in simp_all)
      ultimately show ?thesis using mset_remove_nth [OF i(2), of sq_rid] sp(1) by auto
    next
      case False
      then have "add_request_to_queue cfg now r q = Inr (q, [sq_rid r1])"
        using v 4 i(1) p by (simp add: add_request_to_queue_def abort_on_queued_limit_def direction_of_def Let_def)
      moreover have "turned_away_least cfg r q q [sq_rid r1]" unfolding turned_away_least_def
      proof (rule impI, rule bexI [of _ r1], intro conjI ballI)
        fix x assume "x \<in> set q"
        then have "?d * the (sq_priority x) \<le> ?d * theirs" using i(3) p(2) by auto
        then show "?d * the (sq_priority x) \<le> ?d * the (sq_priority r1)" using p(1) False by simp
      qed (use v in simp_all)
      ultimately show ?thesis using q sp(1) by simp
    qed
  qed
qed

text \<open>
  C39: The waiting queue keeps its limit: a request that enters it is queued, or exactly one request
  is turned away with an abort message, and nothing is lost or duplicated. With priority
  scheduling the one turned away is a least preferred one, so a request never waits behind the
  abort of a better one. (Request ids are unique and the limit, if any, is at least one.)
\<close>

theorem waiting_queue_limit:
  assumes "queue_ok cfg q" "sq_rid r \<notin> set (map sq_rid q)"
  shows "\<exists>q' ab. add_request_to_queue cfg now r q = Inr (q', ab) \<and> queue_ok cfg q' \<and> length ab \<le> 1
     \<and> mset (map sq_rid q') + mset ab = mset (map sq_rid q) + {#sq_rid r#} \<and> turned_away_least cfg r q q' ab"
proof -
  obtain q' ab where a: "add_request_to_queue cfg now r q = Inr (q', ab)" "queue_ok cfg q'"
     "mset (map sq_rid q') + mset ab = mset (map sq_rid q) + {#sq_rid r#}" "turned_away_least cfg r q q' ab"
    using add_request_ok [OF assms, of now] by blast
  moreover from a(1) have "length ab \<le> 1"
    by (auto simp: add_request_to_queue_def abort_on_queued_limit_def set_or_validate_priority_def rbind_eq_Inr_iff Let_def split: if_splits)
  ultimately show ?thesis by blast
qed

definition waiting_req :: "string \<Rightarrow> int \<Rightarrow> sched_req" where
  "waiting_req rid priority = \<lparr>sq_mem = sample_req\<lparr>rq_priority := Some priority\<rparr>, sq_rid = rid, sq_max_new_tokens = 8, sq_ignore_eos = False,
     sq_extend_input_len = 0, sq_logprob_start_len = -1, sq_extend_logprob_start_len = 0, sq_host_hit_length = 0, sq_last_host_node = None,
     sq_wait_queue_entry_time = 1, sq_routing_key = None, sq_finished_reason = None, sq_to_finish = None, sq_is_retracted = False,
     sq_retraction_count = 0, sq_has_input_embeds = False, sq_return_logprob = False, sq_stream = False, sq_has_grammar = False\<rparr>"

theorem waiting_queue_limit_witness:
  "\<exists>q' ab. add_request_to_queue \<lparr>qc_enable_priority_scheduling = True, qc_schedule_low_priority_values_first = True,
       qc_abort_on_priority_when_disabled = False, qc_max_queued_requests = Some 2\<rparr> 7 (waiting_req ''c'' 3) [waiting_req ''a'' 1, waiting_req ''b'' 5]
     = Inr (q', ab) \<and> map sq_rid q' = [''a'', ''c''] \<and> ab = [''b'']"
proof -
  let ?cfg = "\<lparr>qc_enable_priority_scheduling = True, qc_schedule_low_priority_values_first = True,
       qc_abort_on_priority_when_disabled = False, qc_max_queued_requests = Some 2\<rparr>"
  let ?q = "[waiting_req ''a'' 1, waiting_req ''b'' 5]"
  have q: "queue_ok ?cfg ?q" "sq_rid (waiting_req ''c'' 3) \<notin> set (map sq_rid ?q)" by (simp_all add: queue_ok_def waiting_req_def)
  obtain q' ab where a: "add_request_to_queue ?cfg 7 (waiting_req ''c'' 3) ?q = Inr (q', ab)" using waiting_queue_limit [OF q, of 7] by blast
  then have "map sq_rid q' = [''a'', ''c''] \<and> ab = [''b'']"
    by (auto simp: add_request_to_queue_def abort_on_queued_limit_def set_or_validate_priority_def waiting_req_def queue_full_def
        least_preferred_def preference_key_def less_eq_prod_def less_prod_def)
  with a show ?thesis by - (rule exI, rule exI, rule conjI)
qed

lemma add_requests_ok:
  assumes "queue_ok cfg q" "distinct (map sq_rid (rs @ q))"
  shows "\<exists>q' ab. add_requests_to_queue cfg now rs q = Inr (q', ab) \<and> queue_ok cfg q'
     \<and> mset (map sq_rid q') + mset ab = mset (map sq_rid q) + mset (map sq_rid rs)"
  using assms
proof (induction rs arbitrary: q)
  case (Cons r rs)
  obtain q1 ab1 where a: "add_request_to_queue cfg now r q = Inr (q1, ab1)" "queue_ok cfg q1"
     "mset (map sq_rid q1) + mset ab1 = mset (map sq_rid q) + {#sq_rid r#}"
    using add_request_ok [OF Cons.prems(1), of r now] Cons.prems(2) by auto
  have eq: "mset (map sq_rid (rs @ q1)) + mset ab1 = mset (map sq_rid ((r # rs) @ q))" using a(3) by simp
  then have "mset (map sq_rid (rs @ q1) @ ab1) = mset (map sq_rid ((r # rs) @ q))" by simp
  then have "distinct (map sq_rid (rs @ q1) @ ab1)" using mset_eq_imp_distinct_iff Cons.prems(2) by blast
  then have "distinct (map sq_rid (rs @ q1))" by (simp only: distinct_append simp_thms)
  with Cons.IH [OF a(2)] obtain q2 ab2 where b: "add_requests_to_queue cfg now rs q1 = Inr (q2, ab2)" "queue_ok cfg q2"
     "mset (map sq_rid q2) + mset ab2 = mset (map sq_rid q1) + mset (map sq_rid rs)" by blast
  have "mset (map sq_rid q2) + mset (ab1 @ ab2) = mset (map sq_rid q) + mset (map sq_rid (r # rs))" using a(3) b(3) by (simp add: ac_simps)
  then show ?case using a(1) b(1,2) by simp
qed simp

end
