(* ===== verification/Decode_Safe.thy ===== *)
theory Decode_Safe
  imports Decode_Step Retract_Batch Queue_Limit
begin

text \<open>
  The decode step of the scheduler as a whole: after the memory check, with retraction when it
  fails, the allocation of the next slots succeeds, and the requests that stay in the batch own
  their memory again.
\<close>

section \<open>Writing the rows\<close>

lemma store_cells_ok:
  assumes "distinct (map (\<lambda>x. fst (fst x)) xs)" "\<forall>x\<in>set xs. fst (fst x) < length rows \<and> snd (fst x) < length (rows ! fst (fst x))"
  shows "\<exists>rows'. store_cells xs rows = Inr rows' \<and> length rows' = length rows
     \<and> (\<forall>x\<in>set xs. rows' ! fst (fst x) = (rows ! fst (fst x))[snd (fst x) := snd x])
     \<and> (\<forall>r. r \<notin> (\<lambda>x. fst (fst x)) ` set xs \<longrightarrow> rows' ! r = rows ! r)"
  using assms
proof (induction xs arbitrary: rows)
  case (Cons x xs)
  obtain r k v where x: "x = ((r, k), v)" by (metis prod.exhaust)
  let ?rows = "rows[r := (rows ! r)[k := v]]"
  have rk: "r < length rows" "k < length (rows ! r)" using Cons.prems(2) x by simp_all
  have nr: "fst (fst y) \<noteq> r" if "y \<in> set xs" for y using Cons.prems(1) that x by (auto simp: image_iff)
  have "\<forall>y\<in>set xs. fst (fst y) < length ?rows \<and> snd (fst y) < length (?rows ! fst (fst y))"
  proof
    fix y assume y: "y \<in> set xs"
    have "r \<noteq> fst (fst y)" using nr [OF y] by simp
    then have "?rows ! fst (fst y) = rows ! fst (fst y)" by (rule nth_list_update_neq)
    then show "fst (fst y) < length ?rows \<and> snd (fst y) < length (?rows ! fst (fst y))" using Cons.prems(2) y by simp
  qed
  then obtain rows' where IH: "store_cells xs ?rows = Inr rows'" "length rows' = length rows"
     "\<forall>y\<in>set xs. rows' ! fst (fst y) = (?rows ! fst (fst y))[snd (fst y) := snd y]"
     "\<forall>q. q \<notin> (\<lambda>x. fst (fst x)) ` set xs \<longrightarrow> rows' ! q = ?rows ! q"
    using Cons.IH [of ?rows] Cons.prems(1) by auto
  have "rows' ! r = (rows ! r)[k := v]" using IH(4) nr rk by force
  moreover have "rows' ! fst (fst y) = (rows ! fst (fst y))[snd (fst y) := snd y]" if "y \<in> set xs" for y
    using IH(3) nr [OF that, symmetric] that by simp
  moreover have "rows' ! q = rows ! q" if "q \<noteq> r" "q \<notin> (\<lambda>x. fst (fst x)) ` set xs" for q using IH(4) that by simp
  ultimately show ?case using IH(1,2) rk x by auto
qed simp

text \<open>A request that can decode has at least one token, and its row has room for one more.\<close>

definition runnable :: "req_pool \<Rightarrow> batch_req list \<Rightarrow> bool" where
  "runnable pool reqs \<longleftrightarrow> (\<forall>r\<in>set reqs. 0 < breq_len r \<and> breq_len r < length (rp_req_to_token pool ! the (rq_req_pool_idx (sq_mem r))))"

abbreviation breq_row :: "batch_req \<Rightarrow> nat" where
  "breq_row r \<equiv> the (rq_req_pool_idx (sq_mem r))"

lemma owned_tensors:
  assumes m: "mem_inv env U G {..<length (bt_reqs b)} (bt_reqs b, pool, c)" and T: "tensors_ok b"
  shows "bt_req_pool_indices b = map breq_row (bt_reqs b)" "bt_seq_lens b = map breq_len (bt_reqs b)"
    "distinct (map breq_row (bt_reqs b))" "\<forall>r\<in>set (bt_reqs b). breq_row r < length (rp_req_to_token pool)"
proof -
  let ?n = "length (bt_reqs b)"
  have own: "\<exists>k. rq_req_pool_idx (sq_mem (bt_reqs b ! i)) = Some k \<and> k < length (rp_req_to_token pool)" if "i < ?n" for i
    using m that by (auto simp: mem_inv_def owners_def owns_kv_def)
  have T': "length (bt_req_pool_indices b) = ?n" "length (bt_seq_lens b) = ?n" "\<forall>i<?n. row_aligned b i"
    using T by (simp_all add: tensors_ok_def Let_def)
  show "bt_req_pool_indices b = map breq_row (bt_reqs b)" "bt_seq_lens b = map breq_len (bt_reqs b)"
    by (rule nth_equalityI; use T' own in \<open>fastforce simp: row_aligned_def\<close>)+
  show "\<forall>r\<in>set (bt_reqs b). breq_row r < length (rp_req_to_token pool)" using own by (fastforce simp: in_set_conv_nth)
  have "breq_row (bt_reqs b ! i) \<noteq> breq_row (bt_reqs b ! j)" if "i < ?n" "j < ?n" "i \<noteq> j" for i j
  proof -
    have "rq_req_pool_idx (sq_mem (bt_reqs b ! i)) \<noteq> rq_req_pool_idx (sq_mem (bt_reqs b ! j))"
      using m that by (auto simp: mem_inv_def owners_def)
    then show ?thesis using own [OF that(1)] own [OF that(2)] by auto
  qed
  then show "distinct (map breq_row (bt_reqs b))" by (simp add: distinct_conv_nth)
qed

lemma scatter_ok:
  assumes d: "distinct (map breq_row reqs)" and l: "\<forall>r\<in>set reqs. breq_row r < length (rp_req_to_token pool)" and run: "runnable pool reqs"
    and out: "length out = length reqs"
  shows "\<exists>rows'. pool_scatter (map breq_row reqs) (map breq_len reqs) out pool = Inr (pool\<lparr>rp_req_to_token := rows'\<rparr>)
     \<and> length rows' = length (rp_req_to_token pool)
     \<and> (\<forall>i<length reqs. rows' ! breq_row (reqs ! i) = (rp_req_to_token pool ! breq_row (reqs ! i))[breq_len (reqs ! i) := out ! i])
     \<and> (\<forall>q. q \<notin> breq_row ` set reqs \<longrightarrow> rows' ! q = rp_req_to_token pool ! q)"
proof -
  let ?xs = "zip (zip (map breq_row reqs) (map breq_len reqs)) out"
  have m: "map (\<lambda>x. fst (fst x)) ?xs = map breq_row reqs" by (rule nth_equalityI) (use out in simp_all)
  have s: "(\<lambda>x. fst (fst x)) ` set ?xs = breq_row ` set reqs" using m by (metis list.set_map)
  have at: "?xs ! i = ((breq_row (reqs ! i), breq_len (reqs ! i)), out ! i)" "?xs ! i \<in> set ?xs" if "i < length reqs" for i
    by (use that out in simp, rule nth_mem, use that out in simp)
  have b: "\<forall>x\<in>set ?xs. fst (fst x) < length (rp_req_to_token pool) \<and> snd (fst x) < length (rp_req_to_token pool ! fst (fst x))"
    using l run out by (auto simp: runnable_def set_zip)
  obtain rows' where r: "store_cells ?xs (rp_req_to_token pool) = Inr rows'" "length rows' = length (rp_req_to_token pool)"
     "\<forall>x\<in>set ?xs. rows' ! fst (fst x) = (rp_req_to_token pool ! fst (fst x))[snd (fst x) := snd x]"
     "\<forall>q. q \<notin> breq_row ` set reqs \<longrightarrow> rows' ! q = rp_req_to_token pool ! q"
    using store_cells_ok [OF _ b] d unfolding m s by blast
  have "\<forall>i<length reqs. rows' ! breq_row (reqs ! i) = (rp_req_to_token pool ! breq_row (reqs ! i))[breq_len (reqs ! i) := out ! i]"
    using r(3) at by fastforce
  moreover have "pool_scatter (map breq_row reqs) (map breq_len reqs) out pool = Inr (pool\<lparr>rp_req_to_token := rows'\<rparr>)"
    using r(1) out by (simp add: pool_scatter_def index_pairs_def broadcast_def)
  ultimately show ?thesis using r(2,4) by blast
qed

section \<open>Allocation\<close>

lemma gather_ok:
  assumes l: "\<forall>r\<in>set reqs. breq_row r < length (rp_req_to_token pool)" and run: "runnable pool reqs"
  shows "pool_gather (map breq_row reqs) (map (\<lambda>s. int s - 1) (map breq_len reqs)) pool = Inr (last_slots pool reqs)"
proof -
  have "rmap (\<lambda>(r, k). pool_cell r k pool) (zip (map breq_row rs) (map (\<lambda>s. int s - 1) (map breq_len rs))) = Inr (last_slots pool rs)"
    if "set rs \<subseteq> set reqs" for rs
    using that
  proof (induction rs)
    case (Cons r rs)
    have b: "breq_row r < length (rp_req_to_token pool)" "0 < breq_len r" "breq_len r < length (rp_req_to_token pool ! breq_row r)"
      using Cons.prems l run by (auto simp: runnable_def)
    have "nat (int (breq_len r) - 1) = breq_len r - 1" using b(2) by linarith
    then have "pool_cell (breq_row r) (int (breq_len r) - 1) pool = Inr (rp_req_to_token pool ! breq_row r ! (breq_len r - 1))"
      using b by (simp add: pool_cell_def pool_row_def)
    then show ?case using Cons by simp
  qed simp
  then show ?thesis by (simp add: pool_gather_def index_pairs_def)
qed

lemma decode_need_le: "decode_need c reqs \<le> length reqs * rc_page_size c"
  by (simp add: new_tokens_required_next_decode_def mult_le_mono filter_map)

lemma decode_need_one: "rc_page_size c = 1 \<Longrightarrow> decode_need c reqs = length reqs"
  by (simp add: new_tokens_required_next_decode_def)

lemma alloc_for_decode_ok:
  fixes b pool
  defines "reqs \<equiv> bt_reqs b"
  assumes m: "mem_inv env U G {..<length (bt_reqs b)} (bt_reqs b, pool, c)" and T: "tensors_ok b" and enc: "\<not> bt_is_encoder_decoder b"
    and run: "runnable pool (bt_reqs b)" and fit: "decode_need c (bt_reqs b) \<le> kv_available_size (rc_allocator c)"
    and buf: "length (bt_reqs b) \<le> length (de_uninit env)"
  shows "\<exists>out rows' c1 U1 a U' H. alloc_for_decode env 1 b pool c = Inr (out, pool\<lparr>rp_req_to_token := rows'\<rparr>, c1\<lparr>rc_allocator := a\<rparr>)
     \<and> mem_inv env U1 G {..<length reqs} (reqs, pool, c1) \<and> rc_same c c1 \<and> others c1 U1 = others c U \<and> next_slots c1 U1 G reqs out a U' H
     \<and> length rows' = length (rp_req_to_token pool)
     \<and> (\<forall>i<length reqs. rows' ! breq_row (reqs ! i) = (rp_req_to_token pool ! breq_row (reqs ! i))[breq_len (reqs ! i) := out ! i])
     \<and> (\<forall>q. q \<notin> breq_row ` set reqs \<longrightarrow> rows' ! q = rp_req_to_token pool ! q)"
proof -
  let ?n = "length reqs" and ?p = "rc_page_size c"
  note ot = owned_tensors [OF m T]
  have m': "mem_inv env U G {..<?n} (reqs, pool, c)" using m by (simp add: reqs_def)
  have ps: "al_page_size (rc_allocator c) = ?p" using m by (simp add: mem_inv_def rc_slots_def)
  obtain c1 U1 where e: "evict_from_tree_cache (de_sha env) (de_order env) (?n * ?p) c = Inr c1" "mem_inv env U1 G {..<?n} (reqs, pool, c1)"
     "rc_same c c1" "others c1 U1 = others c U"
     "min (?n * ?p) (kv_available_size (rc_allocator c) + nat (rc_evictable_size c)) \<le> kv_available_size (rc_allocator c1)"
    using mem_inv_evict [OF m', of "?n * ?p"] by blast
  have p1: "rc_page_size c1 = ?p" using e(3) by (simp add: rc_same_def)
  have ps1: "al_page_size (rc_allocator c1) = ?p" using e(2) p1 by (simp add: mem_inv_def rc_slots_def)
  have fit1: "decode_need c1 reqs \<le> kv_available_size (rc_allocator c1)"
    using fit e(5) decode_need_le [of c reqs] unfolding p1 by (simp add: reqs_def min_def split: if_splits)
  have "\<exists>out a U' H. (if ?p = 1 then rbind (alloc_token_slots (de_sha env) (de_order env) (length (bt_seq_lens b) * 1) False c) (\<lambda>(out, _, c1). Inr (out, c1))
            else rbind (pool_gather (bt_req_pool_indices b) (map (\<lambda>s. int s - 1) (bt_seq_lens b)) pool) (\<lambda>last_loc.
                 alloc_paged_token_slots_decode (de_sha env) (de_order env) (de_oob env) (de_fill env) (de_uninit env)
                   (map (\<lambda>s. s + 1) (bt_seq_lens b)) last_loc c)) = Inr (out, c1\<lparr>rc_allocator := a\<rparr>) \<and> next_slots c1 U1 G reqs out a U' H"
  proof (cases "?p = 1")
    case True
    obtain out a H where x: "kv_alloc_op ?n (rc_allocator c1) = Inr (Some out, a)" "next_slots c1 U1 G reqs out a (U1 \<union> set out) H"
      using next_slots_token [OF e(2)] True p1 fit1 decode_need_one [of c1 reqs] by auto
    have "alloc_token_slots (de_sha env) (de_order env) (length (bt_seq_lens b) * 1) False c = Inr (out, None, c1\<lparr>rc_allocator := a\<rparr>)"
      using e(1) x(1) True ot(2) by (simp add: alloc_token_slots_def reqs_def Let_def)
    then show ?thesis using x(2) True by auto
  next
    case False
    have "0 < ?p" using m by (auto simp: mem_inv_def dest: rc_enabledD(4))
    then have gt: "1 < rc_page_size c1" using False p1 by linarith
    have pos: "\<forall>r\<in>set reqs. 0 < breq_len r" using run by (simp add: runnable_def reqs_def)
    obtain out a H U' where x: "alloc_decode (de_oob env) (de_fill env) (de_uninit env) (map (\<lambda>r. Suc (breq_len r)) reqs) (last_slots pool reqs) (rc_allocator c1)
         = Inr (Some out, a)" "next_slots c1 U1 G reqs out a U' H"
      using next_slots_paged [OF e(2) gt pos fit1, of "de_uninit env" "de_oob env" "de_fill env"] buf by (auto simp: reqs_def)
    have "alloc_paged_token_slots_decode (de_sha env) (de_order env) (de_oob env) (de_fill env) (de_uninit env)
        (map (\<lambda>r. Suc (breq_len r)) reqs) (last_slots pool reqs) c = Inr (out, c1\<lparr>rc_allocator := a\<rparr>)"
      using e(1) x(1) ps by (simp add: alloc_paged_token_slots_decode_def Let_def)
    moreover have "map (\<lambda>s. s + 1) (bt_seq_lens b) = map (\<lambda>r. Suc (breq_len r)) reqs" unfolding ot(2) by (simp add: reqs_def)
    moreover have "pool_gather (bt_req_pool_indices b) (map (\<lambda>s. int s - 1) (bt_seq_lens b)) pool = Inr (last_slots pool reqs)"
      unfolding ot(1,2) reqs_def by (rule gather_ok [OF ot(4) run])
    ultimately show ?thesis using x(2) unfolding if_not_P [OF False]
      by - (rule exI [of _ out], rule exI [of _ a], rule exI [of _ U'], rule exI [of _ H], simp only: rbind_simps)
  qed
  then obtain out a U' H where x: "(if ?p = 1 then rbind (alloc_token_slots (de_sha env) (de_order env) (length (bt_seq_lens b) * 1) False c) (\<lambda>(out, _, c1). Inr (out, c1))
            else rbind (pool_gather (bt_req_pool_indices b) (map (\<lambda>s. int s - 1) (bt_seq_lens b)) pool) (\<lambda>last_loc.
                 alloc_paged_token_slots_decode (de_sha env) (de_order env) (de_oob env) (de_fill env) (de_uninit env)
                   (map (\<lambda>s. s + 1) (bt_seq_lens b)) last_loc c)) = Inr (out, c1\<lparr>rc_allocator := a\<rparr>)" "next_slots c1 U1 G reqs out a U' H" by blast
  have lo: "length out = length (bt_reqs b)" using x(2) by (simp add: next_slots_def reqs_def)
  obtain rows' where sc: "pool_scatter (bt_req_pool_indices b) (bt_seq_lens b) out pool = Inr (pool\<lparr>rp_req_to_token := rows'\<rparr>)"
     "length rows' = length (rp_req_to_token pool)"
     "\<forall>i<?n. rows' ! breq_row (reqs ! i) = (rp_req_to_token pool ! breq_row (reqs ! i))[breq_len (reqs ! i) := out ! i]"
     "\<forall>q. q \<notin> breq_row ` set reqs \<longrightarrow> rows' ! q = rp_req_to_token pool ! q"
    using scatter_ok [OF ot(3,4) run lo] unfolding ot(1,2) reqs_def by blast
  have "alloc_for_decode env 1 b pool c = Inr (out, pool\<lparr>rp_req_to_token := rows'\<rparr>, c1\<lparr>rc_allocator := a\<rparr>)"
    unfolding alloc_for_decode_def x(1) using enc sc(1) by simp
  with e(2-4) x(2) sc(2-4) show ?thesis by blast
qed

section \<open>Ownership after the step\<close>

text \<open>The result of the step appends the sampled token to the request.\<close>

definition append_output :: "int \<Rightarrow> batch_req \<Rightarrow> batch_req" where
  "append_output t r = r\<lparr>sq_mem := (sq_mem r)\<lparr>rq_output_ids := rq_output_ids (sq_mem r) @ [t]\<rparr>\<rparr>"

lemma sq_mem_step [simp]: "sq_mem (append_output t (committed_one_more r)) = grown_req t (sq_mem r)"
  by (simp add: append_output_def committed_one_more_def grown_req_def)

definition toks_fit :: "rcache \<Rightarrow> int list \<Rightarrow> bool" where
  "toks_fit c toks \<longleftrightarrow> (rc_enable_kv_cache_events c \<longrightarrow> (\<forall>t\<in>set toks. 0 \<le> t \<and> t < 2 ^ 32))"

lemma fills_grow:
  assumes "0 < p" "fills p (n - q) gs" "q \<le> n" "p dvd q" "length hs = (if p dvd n then 1 else 0)"
  shows "fills p (n + 1 - q) (gs @ hs)"
proof -
  have dn: "p dvd n - q \<longleftrightarrow> p dvd n" using assms(3,4) by (metis dvd_add_right_iff le_add_diff_inverse)
  have b: "n - q \<le> p * length gs" "p * length gs < n - q + p" using assms(2) by (simp_all add: fills_def)
  have e: "n + 1 - q = Suc (n - q)" using assms(3) by simp
  show ?thesis
  proof (cases "p dvd n")
    case True
    then have "n - q = p * length gs" using fills_exact(1) [OF assms(1,2)] dn by simp
    then show ?thesis using True assms(1,5) e by (simp add: fills_def)
  next
    case False
    then have "n - q < p * length gs" using fills_exact(2) [OF assms(1,2)] dn by simp
    then show ?thesis using False assms(5) b e by (simp add: fills_def)
  qed
qed

lemma grown_owners:
  assumes m: "mem_inv env U G {..<length reqs} (reqs, pool, c)" and ns: "next_slots c U G reqs out a U' H" and run: "runnable pool reqs"
    and rows: "length rows' = length (rp_req_to_token pool)"
      "\<forall>i<length reqs. rows' ! breq_row (reqs ! i) = (rp_req_to_token pool ! breq_row (reqs ! i))[breq_len (reqs ! i) := out ! i]"
    and toks: "length toks = length reqs" "toks_fit c toks"
  shows "mem_inv env U' (\<lambda>i. G i @ H i) {..<length reqs}
       (map2 append_output toks (map committed_one_more reqs), pool\<lparr>rp_req_to_token := rows'\<rparr>, c\<lparr>rc_allocator := a\<rparr>)"
    "others (c\<lparr>rc_allocator := a\<rparr>) U' = others c U \<union> (\<Union>i<length reqs. req_pages c (H i))"
proof -
  let ?n = "length reqs" and ?p = "rc_page_size c" and ?c = "c\<lparr>rc_allocator := a\<rparr>" and ?pool = "pool\<lparr>rp_req_to_token := rows'\<rparr>"
  have h: "env_ok env c" "rc_enabled c" "rc_slots c (content c) U" "owners (de_sha env) c U pool (\<lambda>i. sq_mem (reqs ! i)) G {..<?n}"
    using m by (simp_all add: mem_inv_def)
  have N: "rc_slots ?c (content c) U'" "U' = U \<union> (\<Union>i<?n. req_pages c (H i))" "length out = ?n"
     "\<And>i. i < ?n \<Longrightarrow> req_pages c (H i) \<inter> U = {} \<and> length (H i) = (if ?p dvd breq_len (reqs ! i) then 1 else 0)
        \<and> out ! i = page_slots ?p (G i @ H i) ! (breq_len (reqs ! i) - breq_prot (reqs ! i))"
     "\<And>i j. i < ?n \<Longrightarrow> j < ?n \<Longrightarrow> i \<noteq> j \<Longrightarrow> set (H i) \<inter> set (H j) = {}"
    using ns by (auto simp: next_slots_def)
  have p0: "0 < ?p" by (rule rc_enabledD(4) [OF h(2)])
  note au = alloc_upd [OF h(2), where a = a]
  have cs: "cache_slots ?p (content c) \<subseteq> U" using h(3) by (simp add: rc_slots_def)
  have HC: "req_pages c (H i) \<inter> cache_slots ?p (content c) = {}" if "i < ?n" for i using N(4) [OF that] cs by blast
  show oth: "others ?c U' = others c U \<union> (\<Union>i<?n. req_pages c (H i))" using HC unfolding N(2) others_def au(2) by auto
  have GU: "req_pages c (G i) \<subseteq> others c U" if "i < ?n" for i using h(4) that unfolding owners_def by (blast elim: ownsD)
  have GH: "set (G i) \<inter> set (H j) = {}" if "i < ?n" "j < ?n" for i j
  proof -
    have "req_pages c (G i) \<inter> req_pages c (H j) = {}" using GU [OF that(1)] N(4) [OF that(2)] unfolding others_def by blast
    moreover have "g * int ?p \<in> req_pages c gs" if "g \<in> set gs" for g gs using that p0 by (simp add: set_page_slots slots_of_def)
    ultimately show ?thesis by blast
  qed
  have own: "owns_kv (de_sha env) ?c U' ?pool (grown_req (toks ! i) (sq_mem (reqs ! i))) (G i @ H i)" if i: "i < ?n" for i
  proof -
    have oi: "owns_kv (de_sha env) c U pool (sq_mem (reqs ! i)) (G i)" using h(4) i by (simp add: owners_def)
    obtain k x where k: "rq_req_pool_idx (sq_mem (reqs ! i)) = Some k" "rq_last_node (sq_mem (reqs ! i)) = Some x" "x \<in> live c"
      using oi by (rule ownsD)
    note P = own_pages [OF h(2,3) oi k(1)]
    have sub: "req_pages c (G i @ H i) \<subseteq> others c U'"
      using GU [OF i] HC [OF i] i unfolding N(2) page_slots_append others_def by auto
    have "owns_kv (de_sha env) c U' ?pool (grown_req (toks ! i) (sq_mem (reqs ! i))) (G i @ H i)"
    proof (rule owns_grow [OF h(2,3) oi k(1) _ _ _ sub])
      show "out ! i = page_slots ?p (G i @ H i) ! (breq_len (reqs ! i) - breq_prot (reqs ! i))" using N(4) [OF i] by simp
      show "fills ?p (breq_len (reqs ! i) + 1 - breq_prot (reqs ! i)) (G i @ H i)"
        by (rule fills_grow [OF p0 P(5,3,2)]) (use N(4) [OF i] in simp)
      have "distinct (H i)" using N(4) [OF i] by (cases "H i") (auto split: if_splits)
      then show "distinct (G i @ H i)" using P(6) GH [OF i i] by simp
      show "rp_req_to_token ?pool ! k = (rp_req_to_token pool ! k)[breq_len (reqs ! i) := out ! i]" using rows(2) i k(1) by auto
      show "breq_len (reqs ! i) < length (rp_req_to_token pool ! k)" using bspec [OF run [unfolded runnable_def], of "reqs ! i"] i k(1) by simp
      show "rc_enable_kv_cache_events c \<longrightarrow> 0 \<le> toks ! i \<and> toks ! i < 2 ^ 32" using toks i by (simp add: toks_fit_def)
    qed (simp add: rows)
    moreover have "same_node c ?c x" using au k(3) by (simp add: same_node_def)
    moreover have "req_pages c (G i @ H i) \<subseteq> others ?c U'" using sub by (simp add: others_def au(2))
    ultimately show ?thesis by (intro owns_transfer [OF _ _ _ au(5)]) (use k in \<open>auto simp: grown_req_def\<close>)
  qed
  have "owners (de_sha env) ?c U' ?pool (\<lambda>i. grown_req (toks ! i) (sq_mem (reqs ! i))) (\<lambda>i. G i @ H i) {..<?n}"
    unfolding owners_def
  proof (intro conjI ballI impI)
    fix i j assume ij: "i \<in> {..<?n}" "j \<in> {..<?n}" "i \<noteq> j"
    have "set (G i) \<inter> set (G j) = {}" "rq_req_pool_idx (sq_mem (reqs ! i)) \<noteq> rq_req_pool_idx (sq_mem (reqs ! j))"
      using h(4) ij unfolding owners_def by blast+
    then show "rq_req_pool_idx (grown_req (toks ! i) (sq_mem (reqs ! i))) \<noteq> rq_req_pool_idx (grown_req (toks ! j) (sq_mem (reqs ! j)))"
      "set (G i @ H i) \<inter> set (G j @ H j) = {}" using GH [of i j] GH [of j i] N(5) [of i j] ij by (auto simp: grown_req_def)
  next
    fix x assume "x \<in> live ?c - {rc_root ?c}"
    then show "int (card {i \<in> {..<?n}. rq_last_node (grown_req (toks ! i) (sq_mem (reqs ! i))) = Some x}) \<le> held ?c (live ?c) x"
      using h(4) unfolding au(3,4) by (simp add: owners_def grown_req_def)
  qed (use own in simp_all)
  then have "owners (de_sha env) ?c U' ?pool (\<lambda>i. sq_mem (map2 append_output toks (map committed_one_more reqs) ! i)) (\<lambda>i. G i @ H i) {..<?n}"
    by (rule owners_cong [THEN iffD2, rotated -1]) (use toks in simp_all)
  then show "mem_inv env U' (\<lambda>i. G i @ H i) {..<?n} (map2 append_output toks (map committed_one_more reqs), ?pool, ?c)"
    using N(1) au(1,2) h(1) toks(1) by (simp add: mem_inv_def env_ok_same [OF au(5)])
qed

section \<open>The step\<close>

text \<open>The tokens that the penalizers are given are tokens of the vocabulary.\<close>

definition decode_toks :: "schedule_batch \<Rightarrow> int list res" where
  "decode_toks b = (if bt_enable_overlap b then rmap delayed_output_id (bt_reqs b) else of_opt AttributeError (bt_output_ids b))"

definition decode_toks_ok :: "samp_config \<Rightarrow> schedule_batch \<Rightarrow> bool" where
  "decode_toks_ok S b \<longleftrightarrow> (case S of (hsh, det, en, V) \<Rightarrow>
     if bt_enable_overlap b then \<forall>r\<in>set (bt_reqs b). \<exists>t. delayed_output_id r = Inr t \<and> 0 \<le> t \<and> t < int V
     else \<exists>ts. bt_output_ids b = Some ts \<and> (\<forall>t\<in>set ts. 0 \<le> t \<and> t < int V))"

lemma decode_toks_ex:
  assumes "decode_toks_ok (hsh, det, en, V) b" "tensors_ok b"
  shows "\<exists>ts. decode_toks b = Inr ts \<and> length ts = length (bt_reqs b) \<and> (\<forall>t\<in>set ts. 0 \<le> t \<and> t < int V)"
proof (cases "bt_enable_overlap b")
  case True
  have "\<exists>ts. rmap delayed_output_id rs = Inr ts \<and> length ts = length rs \<and> (\<forall>t\<in>set ts. 0 \<le> t \<and> t < int V)"
    if "\<forall>r\<in>set rs. \<exists>t. delayed_output_id r = Inr t \<and> 0 \<le> t \<and> t < int V" for rs
    using that by (induction rs) fastforce+
  then show ?thesis using True assms(1) by (simp add: decode_toks_ok_def decode_toks_def)
qed (use assms in \<open>auto simp: decode_toks_ok_def decode_toks_def tensors_ok_def opt_len_def Let_def\<close>)

lemma cumulate_ok:
  assumes "samp_rep hsh det en V rows (bt_sampling_info b)" "decode_toks b = Inr ts" "length ts = length rows" "\<forall>t\<in>set ts. 0 \<le> t \<and> t < int V"
  shows "\<exists>samp. cumulate_decode_tokens b = Inr samp \<and> samp_rep hsh det en V (feed rows ts) samp"
proof -
  obtain samp where s: "sampling_decode ts (bt_sampling_info b) = Inr samp" "samp_rep hsh det en V (feed rows ts) samp"
    using sampling_decode_rep [OF assms(1,3,4)] by blast
  then have "cumulate_decode_tokens b = Inr samp"
    using assms(2) by (auto simp: cumulate_decode_tokens_def decode_toks_def sampling_decode_def split: if_splits)
  with s(2) show ?thesis by blast
qed

lemma prepare_for_decode_ok:
  assumes ok: "batch_ok S rows b" and m: "mem_inv env U G {..<length (bt_reqs b)} (bt_reqs b, pool, c)" and enc: "\<not> bt_is_encoder_decoder b"
    and run: "runnable pool (bt_reqs b)" and fit: "decode_need c (bt_reqs b) \<le> kv_available_size (rc_allocator c)"
    and buf: "length (bt_reqs b) \<le> length (de_uninit env)" and dt: "decode_toks_ok S b"
  shows "\<exists>b' pool' c' ts out U' G'. prepare_for_decode env b pool c = Inr (b', pool', c') \<and> decode_toks b = Inr ts \<and> batch_ok S (feed rows ts) b'
     \<and> bt_reqs b' = map committed_one_more (bt_reqs b) \<and> bt_out_cache_loc b' = Some out \<and> length out = length (bt_reqs b)
     \<and> (\<forall>i<length (bt_reqs b). rp_req_to_token pool' ! breq_row (bt_reqs b ! i) ! breq_len (bt_reqs b ! i) = out ! i)
     \<and> rc_same c c' \<and> others c U \<subseteq> others c' U' \<and> rp_free_slots pool' = rp_free_slots pool
     \<and> (\<forall>toks. length toks = length (bt_reqs b) \<and> toks_fit c toks
          \<longrightarrow> mem_inv env U' G' {..<length (bt_reqs b)} (map2 append_output toks (bt_reqs b'), pool', c'))"
proof -
  obtain hsh det en V where S: "S = (hsh, det, en, V)" by (cases S)
  let ?n = "length (bt_reqs b)"
  have rep: "samp_rep hsh det en V rows (bt_sampling_info b)" and fs: "map fst rows = map br_samp (bt_reqs b)"
    and T: "tensors_ok b" and F: "flags_ok b" using ok by (simp_all add: batch_ok_def S)
  obtain ts where ts: "decode_toks b = Inr ts" "length ts = ?n" "\<forall>t\<in>set ts. 0 \<le> t \<and> t < int V"
    using decode_toks_ex [OF dt [unfolded S] T] by blast
  have lr: "length ts = length rows" using ts(2) batch_ok_length [OF ok] by simp
  obtain samp where samp: "cumulate_decode_tokens b = Inr samp" "samp_rep hsh det en V (feed rows ts) samp"
    using cumulate_ok [OF rep ts(1) lr ts(3)] by blast
  define b1 where "b1 = b\<lparr>bt_forward_mode := DECODE, bt_sampling_info := samp, bt_input_ids := bt_output_ids b, bt_output_ids := None,
                 bt_encoder_cached := (if bt_is_encoder_decoder b then replicate (length (bt_reqs b)) True else bt_encoder_cached b)\<rparr>"
  have b1: "bt_reqs b1 = bt_reqs b" "\<not> bt_is_encoder_decoder b1" using enc by (simp_all add: b1_def)
  have T1: "tensors_ok b1" using T by (simp add: b1_def tensors_ok_def Let_def opt_len_def row_aligned_def)
  obtain out rows' c1 U1 a U' H where al: "alloc_for_decode env 1 b1 pool c = Inr (out, pool\<lparr>rp_req_to_token := rows'\<rparr>, c1\<lparr>rc_allocator := a\<rparr>)"
     "mem_inv env U1 G {..<?n} (bt_reqs b, pool, c1)" "rc_same c c1" "others c1 U1 = others c U" "next_slots c1 U1 G (bt_reqs b) out a U' H"
     "length rows' = length (rp_req_to_token pool)"
     "\<forall>i<?n. rows' ! breq_row (bt_reqs b ! i) = (rp_req_to_token pool ! breq_row (bt_reqs b ! i))[breq_len (bt_reqs b ! i) := out ! i]"
    using alloc_for_decode_ok [of env U G b1 pool c] m T1 b1 run fit buf unfolding b1(1) by blast
  let ?pool = "pool\<lparr>rp_req_to_token := rows'\<rparr>" and ?c = "c1\<lparr>rc_allocator := a\<rparr>"
  define b' where "b' = b1\<lparr>bt_out_cache_loc := Some out, bt_reqs := map committed_one_more (bt_reqs b1),
                bt_seq_lens := map Suc (bt_seq_lens b1), bt_seq_lens_cpu := map Suc (bt_seq_lens_cpu b1),
                bt_orig_seq_lens := map Suc (bt_orig_seq_lens b1), bt_seq_lens_sum := bt_seq_lens_sum b1 + length (bt_reqs b1)\<rparr>"
  have run': "prepare_for_decode env b pool c = Inr (b', ?pool, ?c)"
    unfolding prepare_for_decode_def samp(1) rbind_simps Let_def b1_def [symmetric] al(1) prod.case by (simp add: b'_def)
  have B: "bt_reqs b' = map committed_one_more (bt_reqs b)" "bt_out_cache_loc b' = Some out" by (simp_all add: b'_def b1)
  have cm: "sq_return_logprob (committed_one_more r) = sq_return_logprob r" "sq_stream (committed_one_more r) = sq_stream r"
    "sq_has_grammar (committed_one_more r) = sq_has_grammar r" "br_samp (committed_one_more r) = br_samp r"
    "br_top_logprobs_num (committed_one_more r) = br_top_logprobs_num r" "br_token_ids_logprob (committed_one_more r) = br_token_ids_logprob r" for r
    by (simp_all add: committed_one_more_def)
  have sumS: "sum_list (map Suc xs) = sum_list xs + length xs" for xs by (induction xs) simp_all
  have T': "tensors_ok b'"
    using T by (simp add: b'_def b1_def tensors_ok_def Let_def opt_len_def row_aligned_def sumS enc)
      (simp add: committed_one_more_def)
  have F': "flags_ok b'" using F by (simp add: b'_def b1_def flags_ok_def list_ex_iff cm comp_def)
  have bo: "batch_ok S (feed rows ts) b'"
    using samp(2) T' F' map_fst_feed [OF lr] fs by (simp add: batch_ok_def S B(1) comp_def cm) (simp add: b'_def b1_def)
  have lo: "length out = ?n" using al(5) by (simp add: next_slots_def)
  have cell: "\<forall>i<?n. rp_req_to_token ?pool ! breq_row (bt_reqs b ! i) ! breq_len (bt_reqs b ! i) = out ! i"
    using al(7) run by (auto simp: runnable_def)
  have ev: "toks_fit c1 toks = toks_fit c toks" for toks using al(3) by (simp add: toks_fit_def rc_same_def)
  have mi: "mem_inv env U' (\<lambda>i. G i @ H i) {..<?n} (map2 append_output toks (bt_reqs b'), ?pool, ?c)"
    if "length toks = ?n" "toks_fit c toks" for toks
    unfolding B(1) by (rule grown_owners(1) [OF al(2,5) run al(6,7)]) (use that ev in simp_all)
  have "rc_enabled c1" using al(2) by (simp add: mem_inv_def)
  then have same: "rc_same c ?c" by (rule rc_same_trans [OF al(3) alloc_upd(5)])
  have sub: "others c U \<subseteq> others ?c U'"
  proof -
    have "\<exists>toks. length toks = ?n \<and> toks_fit c toks" by (rule exI [of _ "replicate ?n 0"]) (simp add: toks_fit_def)
    then obtain toks where "length toks = ?n" "toks_fit c1 toks" using ev by blast
    then show ?thesis using grown_owners(2) [OF al(2,5) run al(6,7), of toks] al(4) by blast
  qed
  show ?thesis using run' ts(1) bo B lo cell same sub mi
    by - (rule exI [of _ b'], rule exI [of _ ?pool], rule exI [of _ ?c], rule exI [of _ ts], rule exI [of _ out], rule exI [of _ U'],
      rule exI [of _ "\<lambda>i. G i @ H i"], simp)
qed

section \<open>The running batch\<close>

text \<open>
  The state before a decode step: the requests that have not finished own their memory and can
  decode, and request ids are unique.
\<close>

definition decode_ready ::
  "samp_config \<Rightarrow> samp_row list \<Rightarrow> decode_env \<Rightarrow> queue_config \<Rightarrow> int set \<Rightarrow> (nat \<Rightarrow> int list) \<Rightarrow> decode_state \<Rightarrow> bool" where
  "decode_ready S rows env cfg U G s \<longleftrightarrow> (let b = ds_running_batch s; pool = ds_req_to_token_pool s in
     batch_ok S rows b \<and> mem_inv env U G (set (keep_list [] b)) (bt_reqs b, pool, ds_tree_cache s)
   \<and> \<not> bt_is_encoder_decoder b \<and> runnable pool (map ((!) (bt_reqs b)) (keep_list [] b)) \<and> decode_toks_ok S b
   \<and> (\<forall>r\<in>set (bt_reqs b). 0 \<le> sq_max_new_tokens r) \<and> length (bt_reqs b) \<le> length (de_uninit env)
   \<and> queue_ok cfg (ds_waiting_queue s) \<and> distinct (map sq_rid (bt_reqs b @ ds_waiting_queue s)))"

text \<open>
  After it: every request in the batch has its next slot, and owns it once the sampled token is
  appended.
\<close>

definition decode_launched :: "samp_config \<Rightarrow> decode_env \<Rightarrow> int set \<Rightarrow> schedule_batch \<Rightarrow> req_pool \<Rightarrow> rcache \<Rightarrow> bool" where
  "decode_launched S env U b pool c \<longleftrightarrow> (\<exists>rows out G. batch_ok S rows b \<and> bt_out_cache_loc b = Some out \<and> length out = length (bt_reqs b)
   \<and> (\<forall>toks. length toks = length (bt_reqs b) \<and> toks_fit c toks
        \<longrightarrow> mem_inv env U G {..<length (bt_reqs b)} (map2 append_output toks (bt_reqs b), pool, c)))"

lemma decode_toks_filtered:
  assumes "decode_toks_ok S b" "filtered keep b b'" "tensors_ok b" "\<forall>i\<in>set keep. i < length (bt_reqs b)"
  shows "decode_toks_ok S b'"
proof -
  obtain hsh det en V where S: "S = (hsh, det, en, V)" by (cases S)
  have f: "bt_reqs b' = map ((!) (bt_reqs b)) keep" "bt_enable_overlap b' = bt_enable_overlap b"
     "\<forall>xs. bt_output_ids b = Some xs \<longrightarrow> bt_output_ids b' = Some (map ((!) xs) keep)" using assms(2) by (simp_all add: filtered_def)
  show ?thesis
  proof (cases "bt_enable_overlap b")
    case True
    then show ?thesis using assms(1,4) f by (simp add: decode_toks_ok_def S)
  next
    case False
    then obtain ts where ts: "bt_output_ids b = Some ts" "\<forall>t\<in>set ts. 0 \<le> t \<and> t < int V" using assms(1) by (auto simp: decode_toks_ok_def S)
    moreover have "length ts = length (bt_reqs b)" using ts(1) assms(3) by (simp add: tensors_ok_def Let_def opt_len_def)
    ultimately show ?thesis using f False assms(4) by (auto simp: decode_toks_ok_def S)
  qed
qed

lemma prepare_launches:
  assumes "batch_ok S rows b" "mem_inv env U G {..<length (bt_reqs b)} (bt_reqs b, pool, c)" "\<not> bt_is_encoder_decoder b"
    "runnable pool (bt_reqs b)" "decode_need c (bt_reqs b) \<le> kv_available_size (rc_allocator c)"
    "length (bt_reqs b) \<le> length (de_uninit env)" "decode_toks_ok S b"
  shows "\<exists>b' pool' c' U'. prepare_for_decode env b pool c = Inr (b', pool', c') \<and> decode_launched S env U' b' pool' c'
     \<and> map sq_rid (bt_reqs b') = map sq_rid (bt_reqs b) \<and> others c U \<subseteq> others c' U' \<and> rc_enabled c' \<and> rc_slots c' (content c') U'"
proof -
  obtain b' pool' c' ts out U' G' where p: "prepare_for_decode env b pool c = Inr (b', pool', c')" "batch_ok S (feed rows ts) b'"
     "bt_reqs b' = map committed_one_more (bt_reqs b)" "bt_out_cache_loc b' = Some out" "length out = length (bt_reqs b)" "rc_same c c'" "others c U \<subseteq> others c' U'"
     "\<forall>toks. length toks = length (bt_reqs b) \<and> toks_fit c toks
          \<longrightarrow> mem_inv env U' G' {..<length (bt_reqs b)} (map2 append_output toks (bt_reqs b'), pool', c')"
    using prepare_for_decode_ok [OF assms] by blast
  have ev: "toks_fit c' toks = toks_fit c toks" for toks using p(6) by (simp add: toks_fit_def rc_same_def)
  have "mem_inv env U' G' {..<length (bt_reqs b)} (map2 append_output (replicate (length (bt_reqs b)) 0) (bt_reqs b'), pool', c')"
    using p(8) by (simp add: toks_fit_def)
  then have "rc_enabled c'" "rc_slots c' (content c') U'" by (simp_all add: mem_inv_def)
  moreover have "decode_launched S env U' b' pool' c'"
    unfolding decode_launched_def using p(2-5,8) ev
    by - (rule exI [of _ "feed rows ts"], rule exI [of _ out], rule exI [of _ G'], simp)
  moreover have "map sq_rid (bt_reqs b') = map sq_rid (bt_reqs b)" unfolding p(3) by (simp add: committed_one_more_def)
  ultimately show ?thesis using p(1,7) by blast
qed

lemma batch_full_ok [simp]:
  "batch_ok S rows (b\<lparr>bt_batch_is_full := f\<rparr>) = batch_ok S rows b" "decode_toks_ok S (b\<lparr>bt_batch_is_full := f\<rparr>) = decode_toks_ok S b"
  by (simp_all add: batch_ok_def tensors_ok_def flags_ok_def row_aligned_def decode_toks_ok_def Let_def split: prod.splits)

lemma runnable_subset: "runnable pool rs \<Longrightarrow> set rs' \<subseteq> set rs \<Longrightarrow> runnable pool rs'"
  by (auto simp: runnable_def)

lemma runnable_rows: "rp_req_to_token pool' = rp_req_to_token pool \<Longrightarrow> runnable pool' rs = runnable pool rs"
  by (simp add: runnable_def)

text \<open>The common end of the step, after the check or the retraction.\<close>

definition step_end :: "decode_env \<Rightarrow> nat \<Rightarrow> decode_state \<Rightarrow> decode_state res" where
  "step_end env initial_bs s1 =
     (let b3 = (if length (bt_reqs (ds_running_batch s1)) < initial_bs
                then (ds_running_batch s1)\<lparr>bt_batch_is_full := False\<rparr> else ds_running_batch s1)
      in if bt_reqs b3 = [] then Inr (s1\<lparr>ds_running_batch := b3\<rparr>)
         else rbind (prepare_for_decode env b3 (ds_req_to_token_pool s1) (ds_tree_cache s1)) (\<lambda>(b4, pool4, c4).
              Inr (s1\<lparr>ds_running_batch := b4, ds_req_to_token_pool := pool4, ds_tree_cache := c4\<rparr>)))"

definition all_rids :: "decode_state \<Rightarrow> string multiset" where
  "all_rids s = mset (map sq_rid (bt_reqs (ds_running_batch s))) + mset (map sq_rid (ds_waiting_queue s)) + mset (ds_aborted s)"

definition step_safe :: "samp_config \<Rightarrow> decode_env \<Rightarrow> int set \<Rightarrow> decode_state \<Rightarrow> bool" where
  "step_safe S env keep s' \<longleftrightarrow> (\<exists>U'. rc_enabled (ds_tree_cache s') \<and> rc_slots (ds_tree_cache s') (content (ds_tree_cache s')) U'
     \<and> keep \<subseteq> others (ds_tree_cache s') U'
     \<and> (bt_reqs (ds_running_batch s') = []
        \<or> decode_launched S env U' (ds_running_batch s') (ds_req_to_token_pool s') (ds_tree_cache s')))"

lemma step_end_ok:
  assumes e: "rc_enabled (ds_tree_cache s)" "rc_slots (ds_tree_cache s) (content (ds_tree_cache s)) U" "K \<subseteq> others (ds_tree_cache s) U"
    and r: "bt_reqs (ds_running_batch s) \<noteq> [] \<Longrightarrow> batch_ok S rows (ds_running_batch s)
      \<and> mem_inv env U G {..<length (bt_reqs (ds_running_batch s))} (bt_reqs (ds_running_batch s), ds_req_to_token_pool s, ds_tree_cache s)
      \<and> \<not> bt_is_encoder_decoder (ds_running_batch s) \<and> runnable (ds_req_to_token_pool s) (bt_reqs (ds_running_batch s))
      \<and> decode_need (ds_tree_cache s) (bt_reqs (ds_running_batch s)) \<le> kv_available_size (rc_allocator (ds_tree_cache s))
      \<and> length (bt_reqs (ds_running_batch s)) \<le> length (de_uninit env) \<and> decode_toks_ok S (ds_running_batch s)"
  shows "\<exists>s'. step_end env bs s = Inr s' \<and> step_safe S env K s' \<and> all_rids s' = all_rids s \<and> queue_ok cfg (ds_waiting_queue s') = queue_ok cfg (ds_waiting_queue s)"
proof -
  define b3 where "b3 = (if length (bt_reqs (ds_running_batch s)) < bs then (ds_running_batch s)\<lparr>bt_batch_is_full := False\<rparr> else ds_running_batch s)"
  have b3: "bt_reqs b3 = bt_reqs (ds_running_batch s)" "bt_is_encoder_decoder b3 = bt_is_encoder_decoder (ds_running_batch s)"
    "batch_ok S rows b3 = batch_ok S rows (ds_running_batch s)" "decode_toks_ok S b3 = decode_toks_ok S (ds_running_batch s)"
    by (simp_all add: b3_def)
  show ?thesis
  proof (cases "bt_reqs b3 = []")
    case True
    then have "step_end env bs s = Inr (s\<lparr>ds_running_batch := b3\<rparr>)" unfolding step_end_def b3_def [symmetric] Let_def by simp
    moreover have "step_safe S env K (s\<lparr>ds_running_batch := b3\<rparr>)" using e True by (auto simp: step_safe_def)
    ultimately show ?thesis using b3(1) by (simp add: all_rids_def)
  next
    case False
    then have R: "batch_ok S rows b3" "mem_inv env U G {..<length (bt_reqs b3)} (bt_reqs b3, ds_req_to_token_pool s, ds_tree_cache s)"
      "\<not> bt_is_encoder_decoder b3" "runnable (ds_req_to_token_pool s) (bt_reqs b3)"
      "decode_need (ds_tree_cache s) (bt_reqs b3) \<le> kv_available_size (rc_allocator (ds_tree_cache s))"
      "length (bt_reqs b3) \<le> length (de_uninit env)" "decode_toks_ok S b3"
      using r unfolding b3 by blast+
    obtain b4 pool4 c4 U4 where p: "prepare_for_decode env b3 (ds_req_to_token_pool s) (ds_tree_cache s) = Inr (b4, pool4, c4)"
       "decode_launched S env U4 b4 pool4 c4" "map sq_rid (bt_reqs b4) = map sq_rid (bt_reqs b3)"
       "others (ds_tree_cache s) U \<subseteq> others c4 U4" "rc_enabled c4" "rc_slots c4 (content c4) U4"
      using prepare_launches [OF R] by blast
    have "step_end env bs s = Inr (s\<lparr>ds_running_batch := b4, ds_req_to_token_pool := pool4, ds_tree_cache := c4\<rparr>)"
      unfolding step_end_def b3_def [symmetric] Let_def using False p(1) by simp
    moreover have "step_safe S env K (s\<lparr>ds_running_batch := b4, ds_req_to_token_pool := pool4, ds_tree_cache := c4\<rparr>)"
      using p e(3) by (auto simp: step_safe_def)
    moreover have "all_rids (s\<lparr>ds_running_batch := b4, ds_req_to_token_pool := pool4, ds_tree_cache := c4\<rparr>) = all_rids s"
      using p(3) b3(1) by (simp add: all_rids_def del: mset_map)
    ultimately show ?thesis by simp
  qed
qed

lemma update_running_batch_end:
  assumes "filter_batch [] None (ds_running_batch s) = Inr b1" "bt_reqs b1 \<noteq> []"
    "check_decode_mem env (bt_reqs b1) (ds_tree_cache s) = Inr (ok, c1)"
  shows "update_running_batch env cfg test s =
     (if \<not> ok \<or> test
      then rbind (retract_decode env b1 (ds_req_to_token_pool s) c1) (\<lambda>(retracted, ratio, aborted, b2, pool2, c2).
           rbind (add_requests_to_queue cfg (de_now env) retracted (ds_waiting_queue s)) (\<lambda>(q, aborts).
           step_end env (length (bt_reqs (ds_running_batch s)))
             (s\<lparr>ds_running_batch := b2, ds_req_to_token_pool := pool2, ds_tree_cache := c2, ds_waiting_queue := q,
                ds_aborted := ds_aborted s @ map sq_rid aborted @ aborts,
                ds_num_retracted_reqs := length retracted, ds_new_token_ratio := ratio\<rparr>)))
      else step_end env (length (bt_reqs (ds_running_batch s)))
             (s\<lparr>ds_running_batch := b1, ds_tree_cache := c1,
                ds_new_token_ratio := max (ds_new_token_ratio s - ds_new_token_ratio_decay s) (ds_min_new_token_ratio s)\<rparr>))"
  using assms unfolding update_running_batch_def step_end_def Let_def
  by (cases "\<not> ok \<or> test"; cases "retract_decode env b1 (ds_req_to_token_pool s) c1")
    (auto split: prod.splits sum.splits simp: rbind_def)

lemma retracted_rid [simp]: "sq_rid (retracted_req r) = sq_rid r" "sq_rid (aborted_req r) = sq_rid r"
  by (simp_all add: retracted_req_def aborted_req_def reset_for_retract_def Let_def)

lemma order_rids:
  assumes "retract_order env rs = keep @ ab @ rev retr"
  shows "mset (map sq_rid (map ((!) rs) keep)) + mset (map (\<lambda>i. sq_rid (rs ! i)) ab) + mset (map (\<lambda>i. sq_rid (rs ! i)) retr) = mset (map sq_rid rs)"
proof -
  have "mset (keep @ ab @ retr) = mset (retract_order env rs)" unfolding assms by simp
  also have "\<dots> = mset [0..<length rs]" by (simp add: retract_order_def)
  finally have "mset (map (\<lambda>i. sq_rid (rs ! i)) (keep @ ab @ retr)) = mset (map (\<lambda>i. sq_rid (rs ! i)) [0..<length rs])"
    unfolding mset_map by (rule arg_cong)
  also have "map (\<lambda>i. sq_rid (rs ! i)) [0..<length rs] = map sq_rid rs" by (rule nth_equalityI) simp_all
  finally show ?thesis by (simp add: comp_def ac_simps)
qed

lemma retracted_distinct:
  assumes "retract_order env rs = keep @ ab @ rev retr" "distinct (map sq_rid (rs @ q))"
  shows "distinct (map sq_rid (map (\<lambda>i. retracted_req (rs ! i)) retr @ q))"
proof -
  let ?retr = "map (\<lambda>i. retracted_req (rs ! i)) retr"
  have d: "distinct (map sq_rid rs)" "set (map sq_rid rs) \<inter> set (map sq_rid q) = {}" "distinct (map sq_rid q)" using assms(2) by simp_all
  have "mset (map (\<lambda>i. sq_rid (rs ! i)) (keep @ ab) @ map sq_rid ?retr) = mset (map sq_rid rs)"
    using order_rids [OF assms(1)] by (simp add: comp_def ac_simps)
  then have "distinct (map sq_rid ?retr)" "set (map sq_rid ?retr) \<subseteq> set (map sq_rid rs)"
    using mset_eq_imp_distinct_iff d(1) mset_eq_setD by (metis distinct_append, metis Un_iff set_append subsetI)
  then show ?thesis using d(2,3) by auto
qed

text \<open>The requests a retraction keeps can run.\<close>

lemma kept_runnable:
  assumes o: "retract_order env (bt_reqs b) = keep @ ab @ rev retr" and f: "filtered keep b b'" and p: "rp_req_to_token pool' = rp_req_to_token pool"
    and r: "runnable pool (bt_reqs b)" "decode_toks_ok S b" "tensors_ok b" "\<not> bt_is_encoder_decoder b"
  shows "length (bt_reqs b') \<le> length (bt_reqs b) \<and> runnable pool' (bt_reqs b') \<and> decode_toks_ok S b' \<and> \<not> bt_is_encoder_decoder b'"
proof -
  have kb: "\<forall>i\<in>set keep. i < length (bt_reqs b)" using retract_order_perm(2) [of env "bt_reqs b"] unfolding o by auto
  have rs: "bt_reqs b' = map ((!) (bt_reqs b)) keep" using f by (simp add: filtered_def)
  have "distinct keep" using retract_order_perm(1) [of env "bt_reqs b"] unfolding o by simp
  then have "length keep \<le> length (bt_reqs b)" using kb by (metis card_lessThan card_mono distinct_card finite_lessThan lessThan_iff subsetI)
  moreover have "runnable pool' (bt_reqs b')"
    unfolding runnable_rows [OF p] by (rule runnable_subset [OF r(1)]) (use rs kb in auto)
  moreover have "decode_toks_ok S b'" by (rule decode_toks_filtered [OF r(2) f r(3) kb])
  ultimately show ?thesis using f rs r(4) by (simp add: filtered_def)
qed

text \<open>The branch that retracts, from the batch after filtering.\<close>

lemma retract_step_ok:
  assumes ok: "batch_ok S rows b" and m: "mem_inv env U G {..<length (bt_reqs b)} (bt_reqs b, ds_req_to_token_pool s, c)" and ne: "bt_reqs b \<noteq> []"
    and mx: "\<forall>r\<in>set (bt_reqs b). 0 \<le> sq_max_new_tokens r"
    and r: "runnable (ds_req_to_token_pool s) (bt_reqs b)" "decode_toks_ok S b" "\<not> bt_is_encoder_decoder b" "length (bt_reqs b) \<le> length (de_uninit env)"
    and q: "queue_ok cfg (ds_waiting_queue s)" "distinct (map sq_rid (bt_reqs b @ ds_waiting_queue s))"
  shows "\<exists>s'. rbind (retract_decode env b (ds_req_to_token_pool s) c) (\<lambda>(retracted, ratio, aborted, b2, pool2, c2).
           rbind (add_requests_to_queue cfg (de_now env) retracted (ds_waiting_queue s)) (\<lambda>(q, aborts).
           step_end env bs
             (s\<lparr>ds_running_batch := b2, ds_req_to_token_pool := pool2, ds_tree_cache := c2, ds_waiting_queue := q,
                ds_aborted := ds_aborted s @ map sq_rid aborted @ aborts,
                ds_num_retracted_reqs := length retracted, ds_new_token_ratio := ratio\<rparr>))) = Inr s'
     \<and> queue_ok cfg (ds_waiting_queue s') \<and> step_safe S env (others c U - (\<Union>i<length (bt_reqs b). req_pages c (G i))) s'
     \<and> all_rids s' = mset (map sq_rid (bt_reqs b)) + mset (map sq_rid (ds_waiting_queue s)) + mset (ds_aborted s)"
proof -
  let ?K = "others c U - (\<Union>i<length (bt_reqs b). req_pages c (G i))"
  obtain keep ab retr ratio b2 pool2 c2 U2 where R:
    "retract_decode env b (ds_req_to_token_pool s) c = Inr (map (\<lambda>i. retracted_req (bt_reqs b ! i)) retr, ratio, map (\<lambda>i. aborted_req (bt_reqs b ! i)) ab, b2, pool2, c2)"
    "retract_order env (bt_reqs b) = keep @ ab @ rev retr" "bt_reqs b2 = map ((!) (bt_reqs b)) keep" "rc_enabled c2" "rc_slots c2 (content c2) U2"
    "others c2 U2 = others c U - (\<Union>i\<in>set (ab @ retr). req_pages c (G i))" "rp_req_to_token pool2 = rp_req_to_token (ds_req_to_token_pool s)"
    "if keep = [] then length ab = 1
     else ab = [] \<and> batch_ok S (map ((!) rows) keep) b2 \<and> filtered keep b b2
       \<and> mem_inv env U2 (\<lambda>j. G (keep ! j)) {..<length keep} (bt_reqs b2, pool2, c2)
       \<and> decode_need c2 (bt_reqs b2) \<le> kv_available_size (rc_allocator c2)"
    using retract_decode_ok [OF ok m ne mx] by (elim exE conjE) (rule that, assumption+)
  let ?retr = "map (\<lambda>i. retracted_req (bt_reqs b ! i)) retr"
  obtain q' aborts where A: "add_requests_to_queue cfg (de_now env) ?retr (ds_waiting_queue s) = Inr (q', aborts)" "queue_ok cfg q'"
     "mset (map sq_rid q') + mset aborts = mset (map sq_rid (ds_waiting_queue s)) + mset (map sq_rid ?retr)"
    using add_requests_ok [OF q(1) retracted_distinct [OF R(2) q(2)]] by blast
  let ?s = "s\<lparr>ds_running_batch := b2, ds_req_to_token_pool := pool2, ds_tree_cache := c2, ds_waiting_queue := q',
            ds_aborted := ds_aborted s @ map sq_rid (map (\<lambda>i. aborted_req (bt_reqs b ! i)) ab) @ aborts,
            ds_num_retracted_reqs := length ?retr, ds_new_token_ratio := ratio\<rparr>"
  have T: "tensors_ok b" using ok by (cases S) (simp add: batch_ok_def)
  have K2: "?K \<subseteq> others c2 U2" unfolding R(6) using retract_order_perm(2) [of env "bt_reqs b"] unfolding R(2) by auto
  have nd: "batch_ok S (map ((!) rows) keep) b2 \<and> mem_inv env U2 (\<lambda>j. G (keep ! j)) {..<length (bt_reqs b2)} (bt_reqs b2, pool2, c2)
      \<and> \<not> bt_is_encoder_decoder b2 \<and> runnable pool2 (bt_reqs b2) \<and> decode_need c2 (bt_reqs b2) \<le> kv_available_size (rc_allocator c2)
      \<and> length (bt_reqs b2) \<le> length (de_uninit env) \<and> decode_toks_ok S b2" if "bt_reqs b2 \<noteq> []"
  proof -
    have kn: "keep \<noteq> []" using that R(3) by simp
    then have f: "filtered keep b b2" using R(8) by simp
    have "length keep = length (bt_reqs b2)" using R(3) by simp
    then show ?thesis using kept_runnable [OF R(2) f R(7) r(1,2) T r(3)] R(8) kn r(4) by simp
  qed
  have "\<exists>s'. step_end env bs ?s = Inr s' \<and> step_safe S env ?K s' \<and> all_rids s' = all_rids ?s
      \<and> queue_ok cfg (ds_waiting_queue s') = queue_ok cfg (ds_waiting_queue ?s)"
    by (rule step_end_ok [where U = U2 and rows = "map ((!) rows) keep" and G = "\<lambda>j. G (keep ! j)"]) (use R(4,5) K2 nd in simp_all)
  moreover have "all_rids ?s = mset (map sq_rid (bt_reqs b)) + mset (map sq_rid (ds_waiting_queue s)) + mset (ds_aborted s)"
    using A(3) order_rids [OF R(2), symmetric] by (simp add: all_rids_def R(3) comp_def ac_simps)
  ultimately show ?thesis using R(1) A(1,2) by auto
qed

lemma decode_step_ok:
  assumes ready: "decode_ready S rows env cfg U G s"
  shows "\<exists>s'. update_running_batch env cfg test s = Inr s' \<and> queue_ok cfg (ds_waiting_queue s')
     \<and> step_safe S env (others (ds_tree_cache s) U - (\<Union>i\<in>set (keep_list [] (ds_running_batch s)). req_pages (ds_tree_cache s) (G i))) s'
     \<and> all_rids s' = mset (map sq_rid (filter (\<lambda>r. \<not> sq_finished r) (bt_reqs (ds_running_batch s))))
          + mset (map sq_rid (ds_waiting_queue s)) + mset (ds_aborted s)"
proof -
  let ?b = "ds_running_batch s" and ?pool = "ds_req_to_token_pool s" and ?c = "ds_tree_cache s" and ?keep = "keep_list [] (ds_running_batch s)"
  let ?q = "ds_waiting_queue s"
  let ?K = "others ?c U - (\<Union>i\<in>set ?keep. req_pages ?c (G i))"
  have D: "batch_ok S rows ?b" "mem_inv env U G (set ?keep) (bt_reqs ?b, ?pool, ?c)" "\<not> bt_is_encoder_decoder ?b"
     "runnable ?pool (map ((!) (bt_reqs ?b)) ?keep)" "decode_toks_ok S ?b" "\<forall>r\<in>set (bt_reqs ?b). 0 \<le> sq_max_new_tokens r"
     "length (bt_reqs ?b) \<le> length (de_uninit env)" "queue_ok cfg ?q" "distinct (map sq_rid (bt_reqs ?b @ ?q))"
    using ready by (simp_all add: decode_ready_def Let_def)
  note kl = keep_list_simps [where excl = "[]" and b = ?b]
  have live: "map ((!) (bt_reqs ?b)) ?keep = filter (\<lambda>r. \<not> sq_finished r) (bt_reqs ?b)" using kl(4) by simp
  have T: "tensors_ok ?b" using D(1) by (cases S) (simp add: batch_ok_def)
  show ?thesis
  proof (cases "?keep = []")
    case True
    then have f: "filter_batch [] None ?b = Inr (?b\<lparr>bt_reqs := []\<rparr>)" unfolding filter_batch_def keep_list_def by simp
    let ?s = "s\<lparr>ds_running_batch := ?b\<lparr>bt_reqs := [], bt_batch_is_full := False\<rparr>\<rparr>"
    have "update_running_batch env cfg test s = Inr ?s" unfolding update_running_batch_def f by simp
    moreover have "step_safe S env ?K ?s" using D(2) by (auto simp: step_safe_def mem_inv_def)
    moreover have "filter (\<lambda>r. \<not> sq_finished r) (bt_reqs ?b) = []" using live True by simp
    ultimately show ?thesis using D(8) by (simp add: all_rids_def)
  next
    case False
    obtain b1 where b1: "filter_batch [] None ?b = Inr b1" "batch_ok S (map ((!) rows) ?keep) b1" "filtered ?keep ?b b1"
      using filter_batch_ok [OF D(1), where keep = ?keep and k = None and excl = "[]"] False kl by auto
    have r1: "bt_reqs b1 = map ((!) (bt_reqs ?b)) ?keep" "\<not> bt_is_encoder_decoder b1" using b1(3) D(3) by (simp_all add: filtered_def)
    have len1: "length (bt_reqs b1) = length ?keep" and ne1: "bt_reqs b1 \<noteq> []" using r1 False by simp_all
    have dt1: "decode_toks_ok S b1" by (rule decode_toks_filtered [OF D(5) b1(3) T kl(1)])
    have l1: "length (bt_reqs b1) \<le> length (de_uninit env)" unfolding r1(1) live using D(7) by (meson length_filter_le order_trans)
    have mx1: "\<forall>r\<in>set (bt_reqs b1). 0 \<le> sq_max_new_tokens r" using D(6) unfolding r1(1) live by auto
    have d1: "distinct (map sq_rid (bt_reqs b1 @ ?q))" using D(9) unfolding r1(1) live by (auto simp: distinct_map_filter)
    define G1 where "G1 j = G (?keep ! j)" for j
    have m1: "mem_inv env U G1 {..<length (bt_reqs b1)} (bt_reqs b1, ?pool, ?c)"
      using mem_inv_reindex [OF D(2) kl(2)] unfolding r1(1) G1_def length_map .
    have GK: "(\<Union>j<length (bt_reqs b1). req_pages ?c (G1 j)) = (\<Union>i\<in>set ?keep. req_pages ?c (G i))"
      unfolding len1 G1_def by (auto simp: set_conv_nth)
    obtain ok c1 U1 where ck: "check_decode_mem env (bt_reqs b1) ?c = Inr (ok, c1)" "mem_inv env U1 G1 {..<length (bt_reqs b1)} (bt_reqs b1, ?pool, c1)"
       "rc_same ?c c1" "others c1 U1 = others ?c U" "ok = (decode_need c1 (bt_reqs b1) \<le> kv_available_size (rc_allocator c1))"
      using check_decode_mem_ok [OF m1, of "bt_reqs b1"] by auto
    have pg: "rc_page_size c1 = rc_page_size ?c" using ck(3) by (simp add: rc_same_def)
    have run1: "runnable ?pool (bt_reqs b1)" using D(4) r1(1) by simp
    note run = update_running_batch_end [OF b1(1) ne1 ck(1), of cfg test]
    show ?thesis
    proof (cases "\<not> ok \<or> test")
      case False
      let ?s = "s\<lparr>ds_running_batch := b1, ds_tree_cache := c1,
                ds_new_token_ratio := max (ds_new_token_ratio s - ds_new_token_ratio_decay s) (ds_min_new_token_ratio s)\<rparr>"
      have "\<exists>s'. step_end env (length (bt_reqs ?b)) ?s = Inr s' \<and> step_safe S env ?K s' \<and> all_rids s' = all_rids ?s
          \<and> queue_ok cfg (ds_waiting_queue s') = queue_ok cfg (ds_waiting_queue ?s)"
        by (rule step_end_ok [where U = U1 and rows = "map ((!) rows) ?keep" and G = G1])
          (use ck b1(2) r1(2) run1 l1 dt1 False in \<open>auto simp: mem_inv_def\<close>)
      then show ?thesis using run False D(8) r1(1) live by (auto simp: all_rids_def)
    next
      case True
      show ?thesis unfolding run if_P [OF True]
        using retract_step_ok [OF b1(2) ck(2) ne1 mx1 run1 dt1 r1(2) l1 D(8) d1, of "length (bt_reqs ?b)"]
        unfolding pg ck(4) GK unfolding r1(1) live .
    qed
  qed
qed

end
