(* ===== verification/Extend_Owner.thy ===== *)
theory Extend_Owner
  imports Extend_Write Decode_Safe
begin

text \<open>
  A prefill batch gets its memory: the requests that were admitted hold a locked prefix; after the
  allocation each of them owns the slots of the tokens it extends by, and the requests that run
  meanwhile keep what they own.
\<close>

section \<open>Extending what a request owns\<close>

lemma fills_iff: "0 < p \<Longrightarrow> fills p m gs \<longleftrightarrow> length gs = ceil_div p m"
proof
  assume p: "0 < p" and f: "fills p m gs"
  have b: "m \<le> ceil_div p m * p" "ceil_div p m * p < m + p" using ceil_div_bounds [OF p, of m] by simp_all
  have "length gs * p < ceil_div p m * p + p" "ceil_div p m * p < length gs * p + p" using b f by (simp_all add: fills_def mult.commute)
  then have "length gs * p < (ceil_div p m + 1) * p" "ceil_div p m * p < (length gs + 1) * p" by simp_all
  then have "length gs < ceil_div p m + 1" "ceil_div p m < length gs + 1" by (simp_all only: mult_less_cancel2)
  then show "length gs = ceil_div p m" by simp
qed (use ceil_div_bounds [of p m] in \<open>simp add: fills_def mult.commute\<close>)

lemma ceil_div_shift:
  assumes "0 < p" "p dvd q" "q \<le> n"
  shows "ceil_div p n = ceil_div p (n - q) + q div p"
proof -
  have e: "n + p - 1 = (n - q + p - 1) + q div p * p" using assms by simp
  have "(a + b * p) div p = a div p + b" for a b using assms(1) by simp
  then show ?thesis unfolding ceil_div_def e .
qed

lemma owns_extend:
  assumes en: "rc_enabled c" and s: "rc_slots c (content c) U" and o: "owns_kv sha c U pool r gs" and i: "rq_req_pool_idx r = Some i"
    and m: "rq_kv_committed_len r \<le> m" "m \<le> length (req_ids r)"
    and f: "fills (rc_page_size c) (m - rq_cache_protected_len r) (gs @ hs)" "distinct (gs @ hs)"
      "set (page_slots (rc_page_size c) (gs @ hs)) \<subseteq> others c U'"
    and row: "k < length (rp_req_to_token pool')" "m \<le> length (rp_req_to_token pool' ! k)"
      "take m (rp_req_to_token pool' ! k) = take (rq_kv_committed_len r) (rp_req_to_token pool ! i)
         @ map (\<lambda>j. page_slots (rc_page_size c) (gs @ hs) ! (j - rq_cache_protected_len r)) [rq_kv_committed_len r..<m]"
  shows "owns_kv sha c U' pool' (r\<lparr>rq_req_pool_idx := Some k, rq_kv_committed_len := m, rq_kv_allocated_len := m\<rparr>) (gs @ hs)"
proof -
  let ?p = "rc_page_size c" and ?n = "rq_kv_committed_len r" and ?prot = "rq_cache_protected_len r"
  let ?row = "rp_req_to_token pool ! i" and ?row' = "rp_req_to_token pool' ! k" and ?ps = "page_slots (rc_page_size c) (gs @ hs)"
  let ?ek = "rq_extra_key r" and ?us = "aligned_units c (req_key c r)"
  let ?r = "r\<lparr>rq_req_pool_idx := Some k, rq_kv_committed_len := m, rq_kv_allocated_len := m\<rparr>"
  let ?us' = "aligned_units c (req_key c ?r)"
  note P = own_pages [OF en s o i]
  obtain x where O: "\<not> rq_kv_committed_freed r" "\<not> rq_kv_overallocated_freed r" "rq_last_node r = Some x"
     "?n \<le> length (req_ids r)" "rc_key_fits sha c (mk_key (req_ids r) ?ek (rc_is_eagle c))"
     "req_kv c U ?ek ?us (take ?n ?row) ?prot gs" "pins c x ?ek (take ?prot ?us) (take ?prot ?row)"
    using o i by (auto simp: owns_kv_def)
  note K = O(6) [unfolded req_kv_def]
  have ids: "req_ids ?r = req_ids r" by (simp add: req_ids_def)
  have k: "req_key c r = mk_key (take ?n (req_ids r)) ?ek (rc_is_eagle c)" "req_key c ?r = mk_key (take m (req_ids r)) ?ek (rc_is_eagle c)"
    by (simp_all add: req_key_def ids)
  note um = aligned_units_mono [OF m(1), of c "req_ids r" ?ek, folded k]
  have tp: "take ?prot ?us' = take ?prot ?us" using um(1) K by (metis min.absorb1 take_take)
  have lt: "length (take m ?row') = m" using row(2) by simp
  have nl: "length (take ?n ?row) = ?n" using P(4) by simp
  have tr: "take ?prot ?row' = take ?prot ?row"
  proof -
    have "take ?prot (take m ?row') = take ?prot (take ?n ?row)" unfolding row(3) using P(3) nl by simp
    then show ?thesis using P(3) m(1) by (simp add: min_def)
  qed
  have len: "m - ?prot \<le> length ?ps" using f(1) by (simp add: fills_def length_page_slots' mult.commute)
  have "drop ?prot (take m ?row') = take (m - ?prot) ?ps"
  proof (rule nth_equalityI)
    show "length (drop ?prot (take m ?row')) = length (take (m - ?prot) ?ps)" using lt len by simp
    fix j assume "j < length (drop ?prot (take m ?row'))"
    then have j: "?prot + j < m" using lt by simp
    have e: "drop ?prot (take m ?row') ! j = (take ?n ?row @ map (\<lambda>j. ?ps ! (j - ?prot)) [?n..<m]) ! (?prot + j)"
      unfolding row(3) [symmetric] using j lt by simp
    show "drop ?prot (take m ?row') ! j = take (m - ?prot) ?ps ! j"
    proof (cases "?prot + j < ?n")
      case True
      have "?n - ?prot \<le> length (page_slots ?p gs)" using P(5) by (simp add: fills_def length_page_slots' mult.commute)
      then have "j < length (page_slots ?p gs)" using True by linarith
      then have "?ps ! j = page_slots ?p gs ! j" by (simp add: page_slots_append nth_append)
      then show ?thesis using e True j P(8) [of "?prot + j"] P(4) by (simp add: nth_append)
    next
      case False
      then show ?thesis using e j nl by (simp add: nth_append)
    qed
  qed
  then have "req_kv c U' ?ek ?us' (take m ?row') ?prot (gs @ hs)"
    using K um(2,3) f tp P(3) m(1) tr lt by (auto simp: req_kv_def others_def min_def)
  moreover have "pins c x ?ek (take ?prot ?us') (take ?prot ?row')" using O(7) tp tr by simp
  ultimately show ?thesis using O(1-5) row(1,2) m(2) unfolding owns_kv_def ids
    by - (rule exI [of _ k], rule exI [of _ x], simp)
qed

section \<open>The slots of a prefill batch\<close>

text \<open>
  What the allocation promises for requests that hold \<open>pre\<close> tokens, \<open>prot\<close> of them in the cache,
  and extend to \<open>seq\<close>: \<open>H i\<close> are the new pages of request \<open>i\<close>, and \<open>segs ! i\<close> its new slots.
\<close>

definition ext_slots ::
  "rcache \<Rightarrow> int set \<Rightarrow> (nat \<Rightarrow> int list) \<Rightarrow> nat list \<Rightarrow> nat list \<Rightarrow> nat list \<Rightarrow> int list list \<Rightarrow> kv_alloc \<Rightarrow> int set \<Rightarrow> (nat \<Rightarrow> int list) \<Rightarrow> bool" where
  "ext_slots c U G prot pre seq segs a U' H \<longleftrightarrow>
     rc_slots (c\<lparr>rc_allocator := a\<rparr>) (content c) U' \<and> U' = U \<union> (\<Union>i<length pre. req_pages c (H i)) \<and> length segs = length pre
   \<and> (\<forall>i<length pre. req_pages c (H i) \<inter> U = {} \<and> distinct (H i) \<and> fills (rc_page_size c) (seq ! i - prot ! i) (G i @ H i)
        \<and> segs ! i = map (\<lambda>j. page_slots (rc_page_size c) (G i @ H i) ! (j - prot ! i)) [pre ! i..<seq ! i])
   \<and> (\<forall>i<length pre. \<forall>j<length pre. i \<noteq> j \<longrightarrow> set (H i) \<inter> set (H j) = {})"

text \<open>The requests before the allocation, request \<open>i\<close> with the pages \<open>G i\<close>.\<close>

definition ext_held :: "rcache \<Rightarrow> int set \<Rightarrow> (nat \<Rightarrow> int list) \<Rightarrow> nat list \<Rightarrow> nat list \<Rightarrow> nat list \<Rightarrow> int list list \<Rightarrow> bool" where
  "ext_held c U G prot pre seq pfx \<longleftrightarrow> length prot = length pre \<and> length seq = length pre \<and> length pfx = length pre
   \<and> (\<forall>i<length pre. length (pfx ! i) = pre ! i \<and> prot ! i \<le> pre ! i \<and> pre ! i \<le> seq ! i \<and> rc_page_size c dvd prot ! i
        \<and> fills (rc_page_size c) (pre ! i - prot ! i) (G i)
        \<and> (0 < pre ! i \<longrightarrow> (last (pfx ! i) + 1) mod int (rc_page_size c) = int (pre ! i) mod int (rc_page_size c))
        \<and> (\<not> rc_page_size c dvd pre ! i \<longrightarrow> last (pfx ! i) div int (rc_page_size c) \<in> set (G i) \<and> last (pfx ! i) \<in> U
             \<and> last (pfx ! i) + 1 = page_slots (rc_page_size c) (G i) ! (pre ! i - prot ! i)))
   \<and> (\<forall>i<length pre. \<forall>j<length pre. i \<noteq> j \<longrightarrow> set (G i) \<inter> set (G j) = {})"

text \<open>A list cut into slices.\<close>

lemma slice_nth: "j < b - a \<Longrightarrow> b \<le> length xs \<Longrightarrow> py_slice a b xs ! j = xs ! (a + j)"
  by (simp add: py_slice_def)

lemma slice_set: "a \<le> b \<Longrightarrow> b \<le> length xs \<Longrightarrow> set (py_slice a b xs) = (!) xs ` {a..<b}"
proof -
  assume ab: "a \<le> b" "b \<le> length xs"
  have "set (py_slice a b xs) = (\<lambda>j. py_slice a b xs ! j) ` {0..<b - a}" using ab by (auto simp: set_conv_nth)
  also have "\<dots> = (\<lambda>j. xs ! (a + j)) ` {0..<b - a}" by (intro image_cong) (simp_all add: slice_nth ab)
  also have "\<dots> = (!) xs ` ((\<lambda>j. a + j) ` {0..<b - a})" unfolding image_image ..
  also have "(\<lambda>j. a + j) ` {0..<b - a} = {a..<b}" using ab by simp
  finally show ?thesis .
qed

lemma slices:
  assumes step: "\<And>i. S i \<le> (S (Suc i) :: nat)" and S0: "S 0 = 0" and Sn: "S n = length xs" and d: "distinct xs"
  shows "(\<Union>i<n. set (py_slice (S i) (S (Suc i)) xs)) = set xs" "\<And>i. distinct (py_slice (S i) (S (Suc i)) xs)"
    "\<And>i j. i < n \<Longrightarrow> j < n \<Longrightarrow> i \<noteq> j \<Longrightarrow> set (py_slice (S i) (S (Suc i)) xs) \<inter> set (py_slice (S j) (S (Suc j)) xs) = {}"
proof -
  have mono: "S i \<le> S j" if "i \<le> j" for i j using that by (rule lift_Suc_mono_le [of S, OF step])
  have b: "S (Suc i) \<le> length xs" if "i < n" for i using mono [of "Suc i" n] that Sn by simp
  have ss: "set (py_slice (S i) (S (Suc i)) xs) = (!) xs ` {S i..<S (Suc i)}" if "i < n" for i by (rule slice_set [OF step b [OF that]])
  have "(\<Union>i<k. {S i..<S (Suc i)}) = {0..<S k}" for k
  proof (induction k)
    case (Suc k)
    have "{0..<S k} \<union> {S k..<S (Suc k)} = {0..<S (Suc k)}" using step [of k] by (simp add: ivl_disj_un)
    then show ?case using Suc by (simp add: lessThan_Suc Un_commute)
  qed (simp add: S0)
  then have "(!) xs ` (\<Union>i<n. {S i..<S (Suc i)}) = set xs" by (auto simp: Sn set_conv_nth)
  then show "(\<Union>i<n. set (py_slice (S i) (S (Suc i)) xs)) = set xs" using ss by (simp add: image_UN)
  show "distinct (py_slice (S i) (S (Suc i)) xs)" for i using d by (simp add: py_slice_def)
  have less: "{S i..<S (Suc i)} \<inter> {S j..<S (Suc j)} = {}" if "i < j" for i j using mono [of "Suc i" j] that by auto
  show "set (py_slice (S i) (S (Suc i)) xs) \<inter> set (py_slice (S j) (S (Suc j)) xs) = {}" if ij: "i < n" "j < n" "i \<noteq> j" for i j
  proof -
    have dj: "{S i..<S (Suc i)} \<inter> {S j..<S (Suc j)} = {}" using less [of i j] less [of j i] ij(3) by (cases "i < j") auto
    have inj: "inj_on ((!) xs) ({S i..<S (Suc i)} \<union> {S j..<S (Suc j)})"
      by (rule inj_on_nth [OF d]) (use b [OF ij(1)] b [OF ij(2)] in auto)
    show ?thesis unfolding ss [OF ij(1)] ss [OF ij(2)] inj_on_image_Int [OF inj Un_upper1 Un_upper2, symmetric] dj by simp
  qed
qed

text \<open>One request: the slot of every new position is the next one in its pages.\<close>

lemma extend_slot_pages:
  assumes p: "0 < p" and h: "prot \<le> pre ! i" "p dvd prot" "fills p (pre ! i - prot) gs"
      "\<not> p dvd pre ! i \<longrightarrow> ll ! i + 1 = page_slots p gs ! (pre ! i - prot)"
    and hs: "hs = py_slice (page_start p pre seq i) (page_start p pre seq (Suc i)) pages" "page_start p pre seq (Suc i) \<le> length pages"
    and t: "pre ! i \<le> t" "t < seq ! i"
  shows "extend_slot p pre seq ll pages i t = page_slots p (gs @ hs) ! (t - prot)"
proof -
  let ?S = "page_start p pre seq" and ?n = "pre ! i"
  define q where "q = prot div p"
  have q: "prot = q * p" using h(2) by (simp add: q_def)
  have lg: "length gs = ceil_div p ?n - q" "q \<le> ceil_div p ?n"
    using ceil_div_shift [OF p h(2,1)] fills_iff [OF p] h(3) by (simp_all add: q_def)
  have lh: "length hs = ceil_div p (seq ! i) - ceil_div p ?n" using hs by (simp add: page_start_Suc)
  have td: "(t - prot) div p = t div p - q" "(t - prot) mod p = t mod p"
  proof -
    have "t = (t - prot) + q * p" using t(1) h(1) q by simp
    then show "(t - prot) div p = t div p - q" "(t - prot) mod p = t mod p" using p by (metis add_diff_cancel_right' div_mult_self1 add.commute less_numeral_extra(3), metis mod_mult_self1)
  qed
  have qt: "q \<le> t div p" using t(1) h(1) q p by (metis div_le_mono div_mult_self_is_m order_trans)
  show ?thesis
  proof (cases "t < ceil_div p ?n * p")
    case True
    note pp = partial_page [where pre = pre and i = i, OF p t(1) True]
    have "?n div p < ceil_div p ?n" using pp(2) True p by (metis div_mult_self_is_m less_mult_imp_div_less)
    moreover have "q \<le> ?n div p" using qt pp(2) by simp
    ultimately have jl: "?n div p - q < length gs" using lg by simp
    have at: "page_slots p gs ! (u - prot) = gs ! (u div p - q) * int p + int (u mod p)" if u: "u div p = ?n div p" "prot \<le> u" for u
    proof -
      have "u = (u - prot) + q * p" using u(2) q by simp
      then have ud: "(u - prot) div p = u div p - q" "(u - prot) mod p = u mod p" using p
        by (metis add_diff_cancel_right' div_mult_self1 add.commute less_numeral_extra(3), metis mod_mult_self1)
      then have "u - prot < length gs * p" using jl u(1) p by (metis div_less_iff_less_mult)
      then show ?thesis using page_slots_at [of "u - prot" gs p] ud by simp
    qed
    have "ll ! i + 1 + int (t - ?n) = page_slots p gs ! (t - prot)"
      using h(4) pp at [of ?n] at [of t] h(1) t(1) by simp
    moreover have "t - prot < length (page_slots p gs)"
      unfolding length_page_slots' div_less_iff_less_mult [OF p, symmetric] using td(1) pp(2) jl by simp
    ultimately show ?thesis using True by (simp add: extend_slot_def Let_def page_slots_append nth_append)
  next
    case False
    let ?k = "t div p - ceil_div p ?n"
    have c: "ceil_div p ?n \<le> t div p" using False p by (simp add: less_eq_div_iff_mult_less_eq)
    have "t div p < ceil_div p (seq ! i)" using t(2) ceil_div_bounds(1) [OF p, of "seq ! i"] p by (metis div_less_iff_less_mult less_le_trans)
    then have k: "?k < length hs" using lh c by simp
    have kk: "(t - prot) div p = length gs + ?k" using td(1) lg c by simp
    then have "t - prot < length (gs @ hs) * p" using k p by (metis div_less_iff_less_mult length_append nat_add_left_cancel_less)
    then have "page_slots p (gs @ hs) ! (t - prot) = (gs @ hs) ! (length gs + ?k) * int p + int (t mod p)"
      using page_slots_at [of "t - prot" "gs @ hs" p] kk td(2) by simp
    also have "(gs @ hs) ! (length gs + ?k) = pages ! (?S i + ?k)" using k hs slice_nth [of ?k "?S (Suc i)" "?S i" pages] by (simp add: nth_append)
    finally show ?thesis using False by (simp add: extend_slot_def Let_def)
  qed
qed

text \<open>A batch, from the pages the allocator hands out.\<close>

lemma ext_slots_pages:
  assumes p: "0 < rc_page_size c" and h: "ext_held c U G prot pre seq pfx"
    and ll: "\<forall>i<length pre. \<not> rc_page_size c dvd pre ! i \<longrightarrow> ll ! i = last (pfx ! i)"
    and pages: "length pages = page_start (rc_page_size c) pre seq (length pre)" "distinct pages" "slots_of (rc_page_size c) (set pages) \<inter> U = {}"
      "rc_slots (c\<lparr>rc_allocator := a\<rparr>) (content c) (U \<union> slots_of (rc_page_size c) (set pages))"
  shows "ext_slots c U G prot pre seq (map (extend_seg (rc_page_size c) pre seq ll pages) [0..<length pre]) a (U \<union> slots_of (rc_page_size c) (set pages))
     (\<lambda>i. py_slice (page_start (rc_page_size c) pre seq i) (page_start (rc_page_size c) pre seq (Suc i)) pages)"
proof -
  let ?p = "rc_page_size c" and ?n = "length pre"
  define S where "S = page_start ?p pre seq"
  define H where "H i = py_slice (S i) (S (Suc i)) pages" for i
  have step: "S i \<le> S (Suc i)" for i by (simp add: S_def page_start_Suc)
  note sl = slices [of S, OF step _ pages(1) [symmetric, folded S_def] pages(2), folded H_def]
  have S0: "S 0 = 0" by (simp add: S_def page_start_def)
  have Sb: "S (Suc i) \<le> length pages" if "i < ?n" for i
    using page_start_mono [of "Suc i" ?n ?p pre seq] that pages(1) by (simp add: S_def)
  have U: "slots_of ?p (set pages) = (\<Union>i<?n. req_pages c (H i))"
    unfolding sl(1) [OF S0, symmetric] set_page_slots [OF p] by (auto simp: slots_of_def)
  have one: "req_pages c (H i) \<inter> U = {} \<and> distinct (H i) \<and> fills ?p (seq ! i - prot ! i) (G i @ H i)
       \<and> extend_seg ?p pre seq ll pages i = map (\<lambda>j. page_slots ?p (G i @ H i) ! (j - prot ! i)) [pre ! i..<seq ! i]" if i: "i < ?n" for i
  proof -
    have hi: "prot ! i \<le> pre ! i" "pre ! i \<le> seq ! i" "?p dvd prot ! i" "fills ?p (pre ! i - prot ! i) (G i)"
       "\<not> ?p dvd pre ! i \<longrightarrow> ll ! i + 1 = page_slots ?p (G i) ! (pre ! i - prot ! i)"
      using h ll i unfolding ext_held_def by auto
    have "length (H i) = ceil_div ?p (seq ! i) - ceil_div ?p (pre ! i)" using Sb [OF i] by (simp add: H_def S_def page_start_Suc)
    moreover have "length (G i) + prot ! i div ?p = ceil_div ?p (pre ! i)" "ceil_div ?p (seq ! i - prot ! i) + prot ! i div ?p = ceil_div ?p (seq ! i)"
      using ceil_div_shift [OF p hi(3), of "pre ! i"] ceil_div_shift [OF p hi(3), of "seq ! i"] hi fills_iff [OF p] by simp_all
    moreover have "ceil_div ?p (pre ! i) \<le> ceil_div ?p (seq ! i)" using hi(2) by (simp add: ceil_div_def div_le_mono)
    ultimately have "fills ?p (seq ! i - prot ! i) (G i @ H i)" unfolding fills_iff [OF p] by simp
    moreover have "extend_slot ?p pre seq ll pages i t = page_slots ?p (G i @ H i) ! (t - prot ! i)" if "pre ! i \<le> t" "t < seq ! i" for t
      by (rule extend_slot_pages [OF p hi(1,3,4,5) _ _ that]) (use Sb [OF i] in \<open>simp_all add: H_def S_def\<close>)
    then have "extend_seg ?p pre seq ll pages i = map (\<lambda>j. page_slots ?p (G i @ H i) ! (j - prot ! i)) [pre ! i..<seq ! i]"
      by (simp add: extend_seg_def)
    ultimately show ?thesis using pages(3) sl(2) [OF S0] i unfolding U by blast
  qed
  have len: "length (map (extend_seg ?p pre seq ll pages) [0..<?n]) = ?n" by simp
  show ?thesis unfolding ext_slots_def S_def [symmetric] H_def [symmetric]
    using pages(4) U len one sl(3) [OF S0] by simp
qed

lemma extend_spec_one_token:
  assumes "length out = ext_start pre seq (length pre)" "\<forall>i<length pre. pre ! i \<le> seq ! i"
  shows "extend_spec 1 pre seq ll out = out" "page_start 1 pre seq = ext_start pre seq"
proof -
  have cd: "ceil_div (Suc 0) x = x" for x by (simp add: ceil_div_def)
  show ps: "page_start 1 pre seq = ext_start pre seq" by (simp add: fun_eq_iff page_start_def ext_start_def cd)
  have mono: "ext_start pre seq i \<le> ext_start pre seq j" if "i \<le> j" for i j
    using that by (rule lift_Suc_mono_le [of "ext_start pre seq", rotated]) (simp add: ext_start_Suc)
  have seg: "extend_seg 1 pre seq ll out i = py_slice (ext_start pre seq i) (ext_start pre seq (Suc i)) out" if i: "i < length pre" for i
  proof (rule nth_equalityI)
    have b: "ext_start pre seq (Suc i) \<le> length out" using mono [of "Suc i" "length pre"] i assms(1) by simp
    then show "length (extend_seg 1 pre seq ll out i) = length (py_slice (ext_start pre seq i) (ext_start pre seq (Suc i)) out)"
      by (simp add: extend_seg_def ext_start_Suc)
    fix j assume "j < length (extend_seg 1 pre seq ll out i)"
    then have "j < seq ! i - pre ! i" by (simp add: extend_seg_def)
    then show "extend_seg 1 pre seq ll out i ! j = py_slice (ext_start pre seq i) (ext_start pre seq (Suc i)) out ! j"
      using slice_nth [of j _ _ out] b by (simp add: extend_seg_def extend_slot_def cd ps [unfolded One_nat_def] ext_start_Suc Let_def)
  qed
  have "concat (map (\<lambda>i. py_slice (ext_start pre seq i) (ext_start pre seq (Suc i)) out) [0..<k]) = take (ext_start pre seq k) out" for k
  proof (induction k)
    case (Suc k)
    have "take (ext_start pre seq k) out @ py_slice (ext_start pre seq k) (ext_start pre seq (Suc k)) out = take (ext_start pre seq (Suc k)) out"
      by (simp add: py_slice_def ext_start_Suc take_add)
    then show ?case using Suc by simp
  qed (simp add: ext_start_def)
  note cc = this [of "length pre"]
  have me: "map (extend_seg 1 pre seq ll out) [0..<length pre] = map (\<lambda>i. py_slice (ext_start pre seq i) (ext_start pre seq (Suc i)) out) [0..<length pre]"
    by (rule map_cong [OF refl]) (simp only: seg set_upt atLeastLessThan_iff)
  show "extend_spec 1 pre seq ll out = out" unfolding extend_spec_def me cc using assms(1) by simp
qed

section \<open>Admitted requests\<close>

text \<open>
  A request that was admitted holds its prefix without a row of its own (or, for a chunked request,
  in the row it keeps). It is described as if its prefix were a row of a larger table.
\<close>

abbreviation breq_prefix :: "batch_req \<Rightarrow> int list" where
  "breq_prefix r \<equiv> rq_prefix_indices (sq_mem r)"

abbreviation breq_fill :: "batch_req \<Rightarrow> int list" where
  "breq_fill r \<equiv> rq_fill_ids (sq_mem r)"

definition with_row :: "nat \<Rightarrow> nat \<Rightarrow> req \<Rightarrow> req" where
  "with_row k n m = m\<lparr>rq_req_pool_idx := Some k, rq_kv_committed_len := n, rq_kv_allocated_len := n\<rparr>"

definition staged :: "req_pool \<Rightarrow> batch_req list \<Rightarrow> batch_req list" where
  "staged pool reqs = map (\<lambda>i. (reqs ! i)\<lparr>sq_mem := with_row (length (rp_req_to_token pool) + i) (length (breq_prefix (reqs ! i))) (sq_mem (reqs ! i))\<rparr>)
     [0..<length reqs]"

definition staged_pool :: "req_pool \<Rightarrow> batch_req list \<Rightarrow> req_pool" where
  "staged_pool pool reqs = pool\<lparr>rp_req_to_token := rp_req_to_token pool @ map breq_prefix reqs\<rparr>"

definition admitted :: "decode_env \<Rightarrow> int set \<Rightarrow> (nat \<Rightarrow> int list) \<Rightarrow> batch_req list \<Rightarrow> batch_req list \<Rightarrow> req_pool \<Rightarrow> rcache \<Rightarrow> bool" where
  "admitted env U G running reqs pool c \<longleftrightarrow>
     mem_inv env U G {..<length running + length reqs} (running @ staged pool reqs, staged_pool pool reqs, c)
   \<and> (\<forall>r\<in>set running. breq_row r < length (rp_req_to_token pool))
   \<and> (\<forall>r\<in>set reqs. length (breq_prefix r) \<le> length (breq_fill r) \<and> breq_fill r = take (length (breq_fill r)) (req_ids (sq_mem r)))"

lemma staged_nth [simp]:
  "length (staged pool reqs) = length reqs"
  "i < length reqs \<Longrightarrow> sq_mem (staged pool reqs ! i) = with_row (length (rp_req_to_token pool) + i) (length (breq_prefix (reqs ! i))) (sq_mem (reqs ! i))"
  by (simp_all add: staged_def)

lemma with_row_simps [simp]:
  "rq_req_pool_idx (with_row k n m) = Some k" "rq_kv_committed_len (with_row k n m) = n" "rq_cache_protected_len (with_row k n m) = rq_cache_protected_len m"
  "rq_last_node (with_row k n m) = rq_last_node m" "req_ids (with_row k n m) = req_ids m" "with_row k n (with_row k' n' m) = with_row k n m"
  by (simp_all add: with_row_def req_ids_def)

abbreviation prots :: "batch_req list \<Rightarrow> nat list" where
  "prots reqs \<equiv> map breq_prot reqs"

abbreviation pre_lens :: "batch_req list \<Rightarrow> nat list" where
  "pre_lens reqs \<equiv> map (\<lambda>r. length (breq_prefix r)) reqs"

abbreviation fill_lens :: "batch_req list \<Rightarrow> nat list" where
  "fill_lens reqs \<equiv> map (\<lambda>r. length (breq_fill r)) reqs"

lemma staged_owner:
  assumes a: "mem_inv env U G {..<length running + length reqs} (running @ staged pool reqs, staged_pool pool reqs, c)" and i: "i < length reqs"
  shows "owns_kv (de_sha env) c U (staged_pool pool reqs)
     (with_row (length (rp_req_to_token pool) + i) (length (breq_prefix (reqs ! i))) (sq_mem (reqs ! i))) (G (length running + i))"
    "rp_req_to_token (staged_pool pool reqs) ! (length (rp_req_to_token pool) + i) = breq_prefix (reqs ! i)"
proof -
  have "length running + i \<in> {..<length running + length reqs}" using i by simp
  then have "owns_kv (de_sha env) c U (staged_pool pool reqs) (sq_mem ((running @ staged pool reqs) ! (length running + i))) (G (length running + i))"
    using mem_inv_owner [OF a] by blast
  then show "owns_kv (de_sha env) c U (staged_pool pool reqs)
     (with_row (length (rp_req_to_token pool) + i) (length (breq_prefix (reqs ! i))) (sq_mem (reqs ! i))) (G (length running + i))"
    using i by (simp add: nth_append)
  show "rp_req_to_token (staged_pool pool reqs) ! (length (rp_req_to_token pool) + i) = breq_prefix (reqs ! i)"
    using i by (simp add: staged_pool_def nth_append)
qed

lemma staged_held:
  assumes a: "mem_inv env U G {..<length running + length reqs} (running @ staged pool reqs, staged_pool pool reqs, c)"
    and l: "\<forall>r\<in>set reqs. length (breq_prefix r) \<le> length (breq_fill r)"
  shows "ext_held c U (\<lambda>i. G (length running + i)) (prots reqs) (pre_lens reqs) (fill_lens reqs) (map breq_prefix reqs)"
proof -
  let ?m = "length running"
  have en: "rc_enabled c" "rc_slots c (content c) U" using a by (simp_all add: mem_inv_def)
  have one: "breq_prot (reqs ! i) \<le> length (breq_prefix (reqs ! i)) \<and> rc_page_size c dvd breq_prot (reqs ! i)
        \<and> fills (rc_page_size c) (length (breq_prefix (reqs ! i)) - breq_prot (reqs ! i)) (G (?m + i))
        \<and> (0 < length (breq_prefix (reqs ! i)) \<longrightarrow>
             (last (breq_prefix (reqs ! i)) + 1) mod int (rc_page_size c) = int (length (breq_prefix (reqs ! i))) mod int (rc_page_size c))
        \<and> (\<not> rc_page_size c dvd length (breq_prefix (reqs ! i)) \<longrightarrow> last (breq_prefix (reqs ! i)) div int (rc_page_size c) \<in> set (G (?m + i))
             \<and> last (breq_prefix (reqs ! i)) \<in> U
             \<and> last (breq_prefix (reqs ! i)) + 1 = page_slots (rc_page_size c) (G (?m + i)) ! (length (breq_prefix (reqs ! i)) - breq_prot (reqs ! i)))"
    if i: "i < length reqs" for i
  proof -
    note so = staged_owner [OF a i]
    have ix: "rq_req_pool_idx (with_row (length (rp_req_to_token pool) + i) (length (breq_prefix (reqs ! i))) (sq_mem (reqs ! i))) = Some (length (rp_req_to_token pool) + i)"
      by simp
    note P = own_pages [OF en so(1) ix, unfolded so(2) with_row_simps]
    have z: "last xs = xs ! (length xs - 1)" if "0 < length xs" for xs :: "int list" using that by (simp add: last_conv_nth)
    have nz: "0 < length (breq_prefix (reqs ! i))" if "\<not> rc_page_size c dvd length (breq_prefix (reqs ! i))"
      using that by (cases "length (breq_prefix (reqs ! i))") simp_all
    show ?thesis using P(2,3,5,9,10) z nz by metis
  qed
  have dj: "set (G (?m + i)) \<inter> set (G (?m + j)) = {}" if "i < length reqs" "j < length reqs" "i \<noteq> j" for i j
    using a that by (simp add: mem_inv_def owners_def)
  show ?thesis unfolding ext_held_def using one dj l by simp
qed

section \<open>Ownership after the allocation\<close>

lemma page_base: "0 < p \<Longrightarrow> g \<in> set gs \<Longrightarrow> g * int p \<in> set (page_slots p gs)"
  by (simp add: set_page_slots slots_of_def)

lemma extended_owners:
  assumes a: "mem_inv env U G {..<length running + length reqs} (running @ staged pool reqs, staged_pool pool reqs, c)"
    and l: "\<forall>r\<in>set reqs. length (breq_prefix r) \<le> length (breq_fill r) \<and> length (breq_fill r) \<le> length (req_ids (sq_mem r))"
    and es: "ext_slots c U (\<lambda>i. G (length running + i)) (prots reqs) (pre_lens reqs) (fill_lens reqs) segs a' U' H"
    and run: "\<forall>r\<in>set running. breq_row r < length (rp_req_to_token pool)"
    and idx: "length idx = length reqs" "distinct idx" "\<forall>i\<in>set idx. i < length (rp_req_to_token pool)" "set idx \<inter> breq_row ` set running = {}"
    and rows: "length (rp_req_to_token pool') = length (rp_req_to_token pool)"
      "\<forall>i<length reqs. \<exists>rest. rp_req_to_token pool' ! (idx ! i) = breq_prefix (reqs ! i) @ segs ! i @ rest"
      "\<forall>q. q \<notin> set idx \<longrightarrow> rp_req_to_token pool' ! q = rp_req_to_token pool ! q"
    and reqs': "length reqs' = length reqs" "\<forall>i<length reqs. sq_mem (reqs' ! i) = with_row (idx ! i) (length (breq_fill (reqs ! i))) (sq_mem (reqs ! i))"
  shows "mem_inv env U' (\<lambda>j. if j < length running then G j else G j @ H (j - length running)) {..<length running + length reqs}
       (running @ reqs', pool', c\<lparr>rc_allocator := a'\<rparr>)"
    "others (c\<lparr>rc_allocator := a'\<rparr>) U' = others c U \<union> (\<Union>i<length reqs. req_pages c (H i))"
proof -
  let ?m = "length running" and ?n = "length reqs" and ?p = "rc_page_size c" and ?c = "c\<lparr>rc_allocator := a'\<rparr>"
  let ?G = "\<lambda>j. if j < length running then G j else G j @ H (j - length running)"
  let ?old = "\<lambda>j. sq_mem ((running @ staged pool reqs) ! j)" and ?new = "\<lambda>j. sq_mem ((running @ reqs') ! j)"
  have h: "env_ok env c" "rc_enabled c" "rc_slots c (content c) U" "owners (de_sha env) c U (staged_pool pool reqs) ?old G {..<?m + ?n}"
    using a by (simp_all add: mem_inv_def)
  have N: "rc_slots ?c (content c) U'" "U' = U \<union> (\<Union>i<?n. req_pages c (H i))" "length segs = ?n"
     "\<And>i. i < ?n \<Longrightarrow> req_pages c (H i) \<inter> U = {}" "\<And>i. i < ?n \<Longrightarrow> distinct (H i)"
     "\<And>i. i < ?n \<Longrightarrow> fills ?p (length (breq_fill (reqs ! i)) - breq_prot (reqs ! i)) (G (?m + i) @ H i)"
     "\<And>i. i < ?n \<Longrightarrow> segs ! i = map (\<lambda>j. page_slots ?p (G (?m + i) @ H i) ! (j - breq_prot (reqs ! i))) [length (breq_prefix (reqs ! i))..<length (breq_fill (reqs ! i))]"
     "\<And>i j. i < ?n \<Longrightarrow> j < ?n \<Longrightarrow> i \<noteq> j \<Longrightarrow> set (H i) \<inter> set (H j) = {}"
    using es by (auto simp: ext_slots_def)
  have p0: "0 < ?p" by (rule rc_enabledD(4) [OF h(2)])
  note au = alloc_upd [OF h(2), where a = a']
  have cs: "cache_slots ?p (content c) \<subseteq> U" using h(3) by (simp add: rc_slots_def)
  have HC: "req_pages c (H i) \<inter> cache_slots ?p (content c) = {}" if "i < ?n" for i using N(4) [OF that] cs by blast
  show oth: "others ?c U' = others c U \<union> (\<Union>i<?n. req_pages c (H i))" using HC unfolding N(2) others_def au(2) by auto
  have GU: "req_pages c (G j) \<subseteq> others c U" if "j < ?m + ?n" for j using h(4) that unfolding owners_def by (blast elim: ownsD)
  have GH: "set (G j) \<inter> set (H i) = {}" if "j < ?m + ?n" "i < ?n" for i j
  proof -
    have "req_pages c (G j) \<inter> req_pages c (H i) = {}" using GU [OF that(1)] N(4) [OF that(2)] unfolding others_def by blast
    then show ?thesis using page_base [OF p0] by blast
  qed
  have sn: "same_node c ?c x" if "x \<in> live c" for x using au that by (simp add: same_node_def)
  have own_run: "owns_kv (de_sha env) ?c U' pool' (sq_mem (running ! j)) (G j)" if j: "j < ?m" for j
  proof -
    have "owns_kv (de_sha env) c U (staged_pool pool reqs) (?old j) (G j)" using h(4) j unfolding owners_def by simp
    then have oj: "owns_kv (de_sha env) c U (staged_pool pool reqs) (sq_mem (running ! j)) (G j)" using j by (simp add: nth_append)
    then obtain k x where k: "rq_req_pool_idx (sq_mem (running ! j)) = Some k" "rq_last_node (sq_mem (running ! j)) = Some x" "x \<in> live c" by (rule ownsD)
    have "breq_row (running ! j) < length (rp_req_to_token pool)" "breq_row (running ! j) \<in> breq_row ` set running" using run j by simp_all
    then have kr: "k < length (rp_req_to_token pool)" "k \<notin> set idx" using k(1) idx(4) by auto
    let ?P = "pool'\<lparr>rp_req_to_token := rp_req_to_token pool' @ map breq_prefix reqs\<rparr>"
    have "req_pages c (G j) \<subseteq> others ?c U'" using GU [of j] j unfolding oth by auto
    then have "owns_kv (de_sha env) ?c U' ?P (sq_mem (running ! j)) (G j)"
      by (intro owns_transfer [OF oj k(2) sn [OF k(3)] au(5) k(1)]) (use kr rows(1,3) in \<open>simp_all add: staged_pool_def nth_append\<close>)
    then show ?thesis using k(1) kr rows(1) by (auto simp: owns_kv_def nth_append)
  qed
  have own_new: "owns_kv (de_sha env) ?c U' pool' (sq_mem (reqs' ! i)) (G (?m + i) @ H i)" if i: "i < ?n" for i
  proof -
    let ?k = "length (rp_req_to_token pool) + i" and ?r = "sq_mem (reqs ! i)" and ?seq = "length (breq_fill (reqs ! i))" and ?pre = "length (breq_prefix (reqs ! i))"
    note so = staged_owner [OF a i]
    have ix: "rq_req_pool_idx (with_row ?k ?pre ?r) = Some ?k" by simp
    note P = own_pages [OF h(2,3) so(1) ix, unfolded so(2) with_row_simps]
    obtain x where x: "rq_last_node ?r = Some x" "x \<in> live c" using so(1) by (rule ownsD) auto
    have sub: "req_pages c (G (?m + i) @ H i) \<subseteq> others c U'"
      using GU [of "?m + i"] HC [OF i] i unfolding N(2) page_slots_append others_def by auto
    have lr: "length (breq_prefix (reqs ! i)) \<le> ?seq" "?seq \<le> length (req_ids ?r)" using l i by simp_all
    obtain rest where rest: "rp_req_to_token pool' ! (idx ! i) = breq_prefix (reqs ! i) @ segs ! i @ rest" using rows(2) i by blast
    have sl: "length (segs ! i) = ?seq - ?pre" using N(7) [OF i] by simp
    have ii: "idx ! i < length (rp_req_to_token pool')" using idx(1,3) rows(1) i by simp
    have tk: "?seq \<le> length (rp_req_to_token pool' ! (idx ! i))" "take ?seq (rp_req_to_token pool' ! (idx ! i)) = breq_prefix (reqs ! i) @ segs ! i"
      unfolding rest using sl lr(1) by simp_all
    have "owns_kv (de_sha env) c U' pool' ((with_row ?k ?pre ?r)\<lparr>rq_req_pool_idx := Some (idx ! i), rq_kv_committed_len := ?seq, rq_kv_allocated_len := ?seq\<rparr>)
        (G (?m + i) @ H i)"
    proof (rule owns_extend [OF h(2,3) so(1) ix _ _ _ _ sub ii tk(1)])
      show "distinct (G (?m + i) @ H i)" using P(6) N(5) [OF i] GH [of "?m + i" i] i by simp
      show "take ?seq (rp_req_to_token pool' ! (idx ! i)) = take (rq_kv_committed_len (with_row ?k ?pre ?r)) (rp_req_to_token (staged_pool pool reqs) ! ?k)
          @ map (\<lambda>j. page_slots ?p (G (?m + i) @ H i) ! (j - rq_cache_protected_len (with_row ?k ?pre ?r))) [rq_kv_committed_len (with_row ?k ?pre ?r)..<?seq]"
        unfolding tk(2) so(2) with_row_simps N(7) [OF i] by simp
    qed (use lr N(6) [OF i] in simp_all)
    then have "owns_kv (de_sha env) c U' pool' (sq_mem (reqs' ! i)) (G (?m + i) @ H i)" using reqs'(2) i by (simp add: with_row_def)
    moreover have "req_pages c (G (?m + i) @ H i) \<subseteq> others ?c U'" using sub by (simp add: others_def au(2))
    ultimately show ?thesis by (intro owns_transfer [OF _ _ sn [OF x(2)] au(5)]) (use x reqs'(2) i in auto)
  qed
  have ln: "rq_last_node (?new j) = rq_last_node (?old j)" if "j < ?m + ?n" for j
    using that reqs' by (cases "j < ?m") (simp_all add: nth_append)
  have "owners (de_sha env) ?c U' pool' ?new ?G {..<?m + ?n}"
    unfolding owners_def
  proof (intro conjI ballI impI)
    fix j assume "j \<in> {..<?m + ?n}"
    then show "owns_kv (de_sha env) ?c U' pool' (?new j) (?G j)"
      using own_run [of j] own_new [of "j - ?m"] by (cases "j < ?m") (simp_all add: nth_append)
  next
    fix i j assume ij: "i \<in> {..<?m + ?n}" "j \<in> {..<?m + ?n}" "i \<noteq> j"
    have dj: "set (G i) \<inter> set (G j) = {}" "rq_req_pool_idx (?old i) \<noteq> rq_req_pool_idx (?old j)" using h(4) ij unfolding owners_def by blast+
    have gh: "set (G i) \<inter> set (H (j - ?m)) = {}" if "\<not> j < ?m" using GH [of i "j - ?m"] ij that by simp
    have hg: "set (H (i - ?m)) \<inter> set (G j) = {}" if "\<not> i < ?m" using GH [of j "i - ?m"] ij that by (simp add: Int_commute)
    have hh: "set (H (i - ?m)) \<inter> set (H (j - ?m)) = {}" if "\<not> i < ?m" "\<not> j < ?m" by (rule N(8)) (use ij that in auto)
    show "set (?G i) \<inter> set (?G j) = {}"
      using dj(1) gh hg hh by (cases "i < ?m"; cases "j < ?m") (simp_all add: Int_Un_distrib Int_Un_distrib2)
    have nr: "rq_req_pool_idx (?new q) = Some (idx ! (q - ?m))" if "\<not> q < ?m" "q < ?m + ?n" for q using that reqs' by (simp add: nth_append)
    have rr: "rq_req_pool_idx (?new q) \<noteq> Some (idx ! k)" if q: "q < ?m" "k < ?n" for q k
    proof -
      obtain z where z: "rq_req_pool_idx (sq_mem (running ! q)) = Some z" using own_run [OF q(1)] by (rule ownsD)
      have "z \<in> breq_row ` set running" using z q(1) by (metis image_eqI nth_mem option.sel)
      moreover have "idx ! k \<in> set idx" using q(2) idx(1) by simp
      ultimately have "z \<noteq> idx ! k" using idx(4) by (metis disjoint_iff)
      then show ?thesis using z q(1) by (simp add: nth_append)
    qed
    show "rq_req_pool_idx (?new i) \<noteq> rq_req_pool_idx (?new j)"
    proof (cases "i < ?m"; cases "j < ?m")
      assume "i < ?m" "j < ?m" then show ?thesis using dj(2) by (simp add: nth_append)
    next
      assume c: "i < ?m" "\<not> j < ?m"
      then have "j - ?m < ?n" using ij(2) by auto
      then show ?thesis using nr [of j] rr [of i "j - ?m"] c ij by simp
    next
      assume c: "\<not> i < ?m" "j < ?m"
      then have "i - ?m < ?n" using ij(1) by auto
      then show ?thesis using nr [of i] rr [OF c(2), of "i - ?m"] c ij by simp
    next
      assume c: "\<not> i < ?m" "\<not> j < ?m"
      then have "i - ?m < ?n" "j - ?m < ?n" "i - ?m \<noteq> j - ?m" using ij by auto
      then show ?thesis using nr [of i] nr [of j] idx(1,2) ij c by (simp add: nth_eq_iff_index_eq)
    qed
  next
    fix x assume x: "x \<in> live ?c - {rc_root ?c}"
    have "{j \<in> {..<?m + ?n}. rq_last_node (?new j) = Some x} = {j \<in> {..<?m + ?n}. rq_last_node (?old j) = Some x}" using ln by auto
    then show "int (card {j \<in> {..<?m + ?n}. rq_last_node (?new j) = Some x}) \<le> held ?c (live ?c) x"
      using h(4) x unfolding au(3,4) owners_def by simp
  qed simp
  then show "mem_inv env U' ?G {..<?m + ?n} (running @ reqs', pool', ?c)"
    using N(1) au(1,2) h(1) reqs'(1) by (simp add: mem_inv_def env_ok_same [OF au(5)])
qed

end
