(* ===== verification/Extend_Safe.thy ===== *)
theory Extend_Safe
  imports Extend_Owner
begin

text \<open>
  The preparation of a prefill batch as a whole: when there is room for the new tokens, it succeeds
  with every backend, its tensors are aligned, and its requests own their memory beside the running ones.
\<close>

section \<open>Rows\<close>

text \<open>What the pool of rows needs: the rows of the running and of the chunked requests are in use and different.\<close>

definition rows_ready :: "batch_req list \<Rightarrow> batch_req list \<Rightarrow> req_pool \<Rightarrow> nat set \<Rightarrow> bool" where
  "rows_ready running reqs pool used \<longleftrightarrow> (let kept = filter (\<lambda>r. rq_req_pool_idx r \<noteq> None) (map sq_mem reqs) in
     pool_ok pool used \<and> length (rp_req_to_token pool) = rp_size pool + 1 \<and> (\<forall>row\<in>set (rp_req_to_token pool). length row = rp_max_context_len pool)
   \<and> breq_row ` set running \<subseteq> used \<and> distinct (map row_of kept) \<and> row_of ` set kept \<subseteq> used - breq_row ` set running
   \<and> (\<forall>r\<in>set kept. 0 < rq_is_chunked r \<or> 0 < rq_kv_committed_len r)
   \<and> length (filter (\<lambda>r. rq_req_pool_idx r = None) (map sq_mem reqs)) \<le> pool_available_size pool
   \<and> (\<forall>r\<in>set reqs. length (breq_fill r) \<le> rp_max_context_len pool))"

lemma length_assign_rows [simp]: "length (assign_rows rs idx) = length rs"
  by (induction rs arbitrary: idx) (simp_all split: option.split)

lemma assign_rows_nth: "i < length rs \<Longrightarrow> \<exists>k. assign_rows rs idx ! i = (rs ! i)\<lparr>rq_req_pool_idx := k\<rparr>"
proof (induction rs arbitrary: idx i)
  case (Cons r rs)
  show ?case
  proof (cases i)
    case 0
    show ?thesis
    proof (cases "rq_req_pool_idx r")
      case (Some k)
      then have "assign_rows (r # rs) idx ! i = r\<lparr>rq_req_pool_idx := Some k\<rparr>" using 0 by simp
      then show ?thesis using 0 by auto
    qed (use 0 in auto)
  next
    case (Suc j)
    then show ?thesis using Cons.IH [of j idx] Cons.IH [of j "tl idx"] Cons.prems by (cases "rq_req_pool_idx r") simp_all
  qed
qed simp

lemma alloc_rows_ok:
  assumes "rows_ready running reqs pool used"
  shows "\<exists>idx mems pool1. alloc_req_slots pool (map sq_mem reqs) = Inr (idx, mems, pool1) \<and> length idx = length reqs \<and> length mems = length reqs \<and> distinct idx
     \<and> (\<forall>i\<in>set idx. i < length (rp_req_to_token pool)) \<and> set idx \<inter> breq_row ` set running = {}
     \<and> pool_ok pool1 (used \<union> set idx) \<and> rp_req_to_token pool1 = rp_req_to_token pool \<and> rp_max_context_len pool1 = rp_max_context_len pool
     \<and> rp_size pool1 = rp_size pool \<and> (\<forall>i<length reqs. mems ! i = (sq_mem (reqs ! i))\<lparr>rq_req_pool_idx := Some (idx ! i)\<rparr>)"
proof -
  let ?ms = "map sq_mem reqs"
  note RR = assms [unfolded rows_ready_def Let_def]
  have R: "pool_ok pool used" "distinct (map row_of (filter (\<lambda>r. rq_req_pool_idx r \<noteq> None) ?ms))"
     "row_of ` set (filter (\<lambda>r. rq_req_pool_idx r \<noteq> None) ?ms) \<subseteq> used - breq_row ` set running"
     "\<forall>r\<in>set (filter (\<lambda>r. rq_req_pool_idx r \<noteq> None) ?ms). 0 < rq_is_chunked r \<or> 0 < rq_kv_committed_len r"
     "length (filter (\<lambda>r. rq_req_pool_idx r = None) ?ms) \<le> pool_available_size pool" "length (rp_req_to_token pool) = rp_size pool + 1"
     "breq_row ` set running \<subseteq> used"
    using RR by argo+
  have R3: "row_of ` set (filter (\<lambda>r. rq_req_pool_idx r \<noteq> None) ?ms) \<subseteq> used"
    and R8: "row_of ` set (filter (\<lambda>r. rq_req_pool_idx r \<noteq> None) ?ms) \<inter> breq_row ` set running = {}"
    using R(3) by (rule order_trans [OF _ Diff_subset], use R(3) in blast)
  have R4: "\<forall>r\<in>set ?ms. rq_req_pool_idx r \<noteq> None \<longrightarrow> 0 < rq_is_chunked r \<or> 0 < rq_kv_committed_len r" using R(4) by simp
  obtain idx mems pool1 where A: "pool_alloc ?ms pool = Inr (Some idx, mems, pool1)" "length idx = length ?ms" "distinct idx" "set idx \<subseteq> {1..rp_size pool}"
     "pool_ok pool1 (used \<union> set idx)" "rp_size pool1 = rp_size pool"
     "\<forall>i<length ?ms. rq_req_pool_idx (mems ! i) = Some (idx ! i) \<and> (case rq_req_pool_idx (?ms ! i) of Some j \<Rightarrow> idx ! i = j | None \<Rightarrow> idx ! i \<notin> used)"
    using pool_alloc_ok [OF R(1,2) R3 R4] R(5) by auto
  have asg: "mems = assign_rows ?ms (take (length ?ms - length (filter (\<lambda>r. rq_req_pool_idx r \<noteq> None) ?ms)) (rp_free_slots pool))"
    "rp_req_to_token pool1 = rp_req_to_token pool" "rp_max_context_len pool1 = rp_max_context_len pool"
    using A(1) by (auto simp: pool_alloc_def Let_def rbind_eq_Inr_iff split: if_splits)
  have nth: "mems ! i = (sq_mem (reqs ! i))\<lparr>rq_req_pool_idx := Some (idx ! i)\<rparr>" if i: "i < length reqs" for i
  proof -
    obtain k where "mems ! i = (?ms ! i)\<lparr>rq_req_pool_idx := k\<rparr>" using assign_rows_nth [of i ?ms] i asg(1) by auto
    moreover have "rq_req_pool_idx (mems ! i) = Some (idx ! i)" using A(7) i by simp
    ultimately show ?thesis using i by auto
  qed
  have dj: "idx ! i \<notin> breq_row ` set running" if i: "i < length reqs" for i
  proof (cases "rq_req_pool_idx (?ms ! i)")
    case None
    have "i < length ?ms" using i by simp
    from A(7) [rule_format, OF this] have "idx ! i \<notin> used" unfolding None by simp
    then show ?thesis using R(7) by blast
  next
    case (Some j)
    have il: "i < length ?ms" using i by simp
    from A(7) [rule_format, OF this] have "idx ! i = row_of (?ms ! i)" unfolding Some by simp
    moreover have "?ms ! i \<in> set (filter (\<lambda>r. rq_req_pool_idx r \<noteq> None) ?ms)" using nth_mem [OF il] Some by simp
    ultimately have "idx ! i \<in> row_of ` set (filter (\<lambda>r. rq_req_pool_idx r \<noteq> None) ?ms)" by (rule image_eqI)
    then show ?thesis using R8 by blast
  qed
  have "set idx \<inter> breq_row ` set running = {}"
  proof (rule equals0I)
    fix q assume q: "q \<in> set idx \<inter> breq_row ` set running"
    then have "q \<in> set idx" by (rule IntD1)
    then obtain i where "i < length reqs" "q = idx ! i" using A(2) by (metis in_set_conv_nth length_map)
    then show False using dj [of i] IntD2 [OF q] by simp
  qed
  moreover have "\<forall>i\<in>set idx. i < length (rp_req_to_token pool)" using A(4) R(6) by auto
  moreover have "alloc_req_slots pool ?ms = Inr (idx, mems, pool1)" using A(1) by (simp add: alloc_req_slots_def)
  moreover have "length mems = length reqs" by (simp add: asg(1))
  ultimately show ?thesis using A(2,3,5,6) asg(2,3) nth by auto
qed

section \<open>Slots\<close>

lemma last_prefix_locs_ok:
  assumes p: "0 < rc_page_size c" and h: "ext_held c U G prot pre seq pfx"
  shows "last_locs_ok (rc_page_size c) pre (map last_prefix_loc pfx) U"
    "\<forall>i<length pre. \<not> rc_page_size c dvd pre ! i \<longrightarrow> map last_prefix_loc pfx ! i = last (pfx ! i)"
proof -
  let ?p = "rc_page_size c" and ?ll = "map last_prefix_loc pfx"
  have H: "length (pfx ! i) = pre ! i" "0 < pre ! i \<longrightarrow> (last (pfx ! i) + 1) mod int ?p = int (pre ! i) mod int ?p"
     "\<not> ?p dvd pre ! i \<longrightarrow> last (pfx ! i) div int ?p \<in> set (G i) \<and> last (pfx ! i) \<in> U" "i < length pfx" if "i < length pre" for i
    using h that by (simp_all add: ext_held_def)
  have dj: "set (G i) \<inter> set (G j) = {}" if "i < length pre" "j < length pre" "i \<noteq> j" for i j using h that unfolding ext_held_def by blast
  have e: "?ll ! i = (if pre ! i = 0 then - 1 else last (pfx ! i))" if "i < length pre" for i
    using H(1,4) [OF that] by (auto simp: last_prefix_loc_def)
  have nz: "pre ! i \<noteq> 0" if "\<not> ?p dvd pre ! i" for i using that by (metis dvd_0_right)
  show ll: "\<forall>i<length pre. \<not> ?p dvd pre ! i \<longrightarrow> ?ll ! i = last (pfx ! i)" using e nz by simp
  have "(?ll ! i + 1) mod int ?p = int (pre ! i) mod int ?p" if "i < length pre" for i using e [OF that] H(2) [OF that] by simp
  moreover have "?ll ! i \<in> U" if "i < length pre" "\<not> ?p dvd pre ! i" for i using ll H(3) that by simp
  moreover have "?ll ! i div int ?p \<noteq> ?ll ! j div int ?p" if "i < length pre" "j < length pre" "i \<noteq> j" "\<not> ?p dvd pre ! i" "\<not> ?p dvd pre ! j" for i j
    using ll H(3) [of i] H(3) [of j] dj [of i j] that by auto
  ultimately show "last_locs_ok ?p pre ?ll U" unfolding last_locs_ok_def by blast
qed

text \<open>Either allocator, called for the batch, hands out the slots of its requests one after the other.\<close>

lemma extend_alloc_ok:
  fixes c pre seq
  defines "n \<equiv> ext_start pre seq (length pre)"
  assumes s: "rc_slots c (content c) U" and p: "0 < rc_page_size c" and h: "ext_held c U G prot pre seq pfx"
    and fit: "page_start (rc_page_size c) pre seq (length pre) * rc_page_size c \<le> kv_available_size (rc_allocator c)"
    and buf: "n \<le> length uninit"
  shows "\<exists>segs a U' H. (if rc_page_size c = 1 then kv_alloc_op n (rc_allocator c)
          else alloc_extend oob fill uninit pre seq (map last_prefix_loc pfx) n None (rc_allocator c)) = Inr (Some (concat segs), a)
     \<and> ext_slots c U G prot pre seq segs a U' H"
proof (cases "rc_page_size c = 1")
  case True
  have le: "\<forall>i<length pre. pre ! i \<le> seq ! i" using h by (simp add: ext_held_def)
  have k: "kv_inv (rc_allocator c) U" "al_page_size (rc_allocator c) dvd n" "pages_ok 1 (content c)" "cache_slots 1 (content c) \<subseteq> U" "al_page_size (rc_allocator c) = 1"
    using s True by (simp_all add: rc_slots_def)
  have ps: "page_start 1 pre seq (length pre) = n"
  proof -
    have "length (replicate n (0::int)) = ext_start pre seq (length pre)" by (simp add: n_def)
    from extend_spec_one_token(2) [OF this le] show ?thesis by (simp add: n_def)
  qed
  then have "n \<le> kv_available_size (rc_allocator c)" using fit True by simp
  then obtain out a where x: "kv_alloc_op n (rc_allocator c) = Inr (Some out, a)" using kv.alloc_succeeds [OF k(1,2)] by blast
  note f = kv.alloc_Some [OF k(1,2) x]
  have pa: "al_page_size a = 1" using kv_alloc_page_size [OF x] k(5) by simp
  have lo: "length out = ext_start pre seq (length pre)" using f by (simp add: n_def)
  have so: "slots_of 1 (set out) = set out" using set_page_slots [of 1 out] page_slots_one [of out] by simp
  have "rc_slots (c\<lparr>rc_allocator := a\<rparr>) (content c) (U \<union> slots_of 1 (set out))" using f k pa True so by (auto simp: rc_slots_def)
  then have "ext_slots c U G prot pre seq (map (extend_seg 1 pre seq (map last_prefix_loc pfx) out) [0..<length pre]) a (U \<union> slots_of 1 (set out))
      (\<lambda>i. py_slice (page_start 1 pre seq i) (page_start 1 pre seq (Suc i)) out)"
    using ext_slots_pages [OF p h last_prefix_locs_ok(2) [OF p h], of out a] f lo ps so True by (simp add: n_def)
  moreover have "concat (map (extend_seg 1 pre seq (map last_prefix_loc pfx) out) [0..<length pre]) = out"
    using extend_spec_one_token(1) [OF lo le] by (simp add: extend_spec_def)
  ultimately show ?thesis using x True by metis
next
  case False
  have le: "length seq = length pre" "length (map last_prefix_loc pfx) = length pre" "\<forall>i<length pre. pre ! i \<le> seq ! i" using h by (simp_all add: ext_held_def)
  have k: "paged_inv (rc_allocator c) U" "al_page_size (rc_allocator c) = rc_page_size c" "pages_ok (rc_page_size c) (content c)" "cache_slots (rc_page_size c) (content c) \<subseteq> U"
    using s False by (simp_all add: rc_slots_def kv_inv_def)
  have ll: "last_locs_ok (al_page_size (rc_allocator c)) pre (map last_prefix_loc pfx) U" unfolding k(2) by (rule last_prefix_locs_ok(1) [OF p h])
  have av: "page_start (al_page_size (rc_allocator c)) pre seq (length pre) * al_page_size (rc_allocator c) \<le> base_available_size (rc_allocator c)"
    using fit False k(2) by (simp add: kv_available_size_def)
  obtain pages a where x: "alloc_extend oob fill uninit pre seq (map last_prefix_loc pfx) n None (rc_allocator c)
        = Inr (Some (extend_spec (rc_page_size c) pre seq (map last_prefix_loc pfx) pages), a)"
     "length pages = page_start (rc_page_size c) pre seq (length pre)" "distinct pages" "slots_of (rc_page_size c) (set pages) \<inter> U = {}"
     "paged_inv a (U \<union> slots_of (rc_page_size c) (set pages))"
    using alloc_extend_ok [OF k(1) le ll _ av, of uninit oob fill] buf unfolding n_def k(2) by blast
  have pa: "al_page_size a = rc_page_size c" using x(1) k(2) by (auto simp: alloc_extend_def Let_def rbind_eq_Inr_iff merge_and_sort_free_def split: if_splits)
  have "rc_slots (c\<lparr>rc_allocator := a\<rparr>) (content c) (U \<union> slots_of (rc_page_size c) (set pages))" using x(5) k pa False by (auto simp: rc_slots_def kv_inv_def)
  from ext_slots_pages [OF p h last_prefix_locs_ok(2) [OF p h] x(2-4) this] x(1) False show ?thesis
    unfolding extend_spec_def by metis
qed

section \<open>Allocation\<close>

abbreviation ext_len :: "batch_req \<Rightarrow> nat" where
  "ext_len r \<equiv> length (breq_fill r) - length (breq_prefix r)"

text \<open>The tokens of the pages a prefill batch needs.\<close>

definition extend_need :: "rcache \<Rightarrow> batch_req list \<Rightarrow> nat" where
  "extend_need c reqs = page_start (rc_page_size c) (pre_lens reqs) (fill_lens reqs) (length reqs) * rc_page_size c"

lemma ext_start_reqs: "i \<le> length reqs \<Longrightarrow> ext_start (pre_lens reqs) (fill_lens reqs) i = sum_list (map ext_len (take i reqs))"
  by (induction i) (simp_all add: ext_start_def take_Suc_conv_app_nth)

lemma extend_need_le:
  assumes "0 < rc_page_size c" "\<forall>r\<in>set reqs. length (breq_prefix r) \<le> length (breq_fill r)"
  shows "extend_need c reqs \<le> sum_list (map ext_len reqs) + length reqs * rc_page_size c"
    "rc_page_size c = 1 \<Longrightarrow> extend_need c reqs = sum_list (map ext_len reqs)"
proof -
  let ?p = "rc_page_size c" and ?e = "ext_start (pre_lens reqs) (fill_lens reqs) (length reqs)"
  have e: "?e = sum_list (map ext_len reqs)" using ext_start_reqs [of "length reqs" reqs] by simp
  have le: "\<forall>j<length reqs. pre_lens reqs ! j \<le> fill_lens reqs ! j" using assms(2) by simp
  have "page_start ?p (pre_lens reqs) (fill_lens reqs) (length reqs) * ?p \<le> (?e div ?p + length reqs) * ?p"
    by (intro mult_le_mono1 page_start_le [OF assms(1) le])
  also have "\<dots> \<le> ?e + length reqs * ?p" by (simp add: add_mult_distrib)
  finally show "extend_need c reqs \<le> sum_list (map ext_len reqs) + length reqs * ?p" unfolding e by (simp add: extend_need_def)
  assume p1: "?p = 1"
  have "length (replicate ?e (0::int)) = ext_start (pre_lens reqs) (fill_lens reqs) (length (pre_lens reqs))" by simp
  from extend_spec_one_token(2) [OF this] le p1 show "extend_need c reqs = sum_list (map ext_len reqs)" by (simp add: extend_need_def e)
qed

lemma admittedD:
  assumes "admitted env U G running reqs pool c"
  shows "mem_inv env U G {..<length running + length reqs} (running @ staged pool reqs, staged_pool pool reqs, c)"
    "\<forall>r\<in>set running. breq_row r < length (rp_req_to_token pool)"
    "\<forall>r\<in>set reqs. length (breq_prefix r) \<le> length (breq_fill r) \<and> length (breq_fill r) \<le> length (req_ids (sq_mem r))"
    "\<forall>r\<in>set reqs. length (breq_prefix r) \<le> length (breq_fill r)"
proof -
  have "length xs \<le> length ys" if "xs = take (length xs) ys" for xs ys :: "int list" using that by (metis length_take min.cobounded1)
  then show "\<forall>r\<in>set reqs. length (breq_prefix r) \<le> length (breq_fill r) \<and> length (breq_fill r) \<le> length (req_ids (sq_mem r))"
    using assms unfolding admitted_def by blast
qed (use assms in \<open>simp_all add: admitted_def\<close>)

lemma extend_slots_ok:
  fixes reqs
  defines "n \<equiv> sum_list (map ext_len reqs)"
  assumes A: "admitted env U G running reqs pool c" and fit: "extend_need c reqs \<le> kv_available_size (rc_allocator c) + nat (rc_evictable_size c)"
    and buf: "n \<le> length (de_uninit env)"
  shows "\<exists>segs c1 U1 a U' H. (if rc_page_size c = 1
                then rbind (alloc_token_slots (de_sha env) (de_order env) n False c) (\<lambda>(out, _, c1). Inr (out, c1))
                else rbind (alloc_paged_token_slots_extend (de_sha env) (de_order env) (de_oob env) (de_fill env) (de_uninit env)
                       (pre_lens reqs) (fill_lens reqs) (map last_prefix_loc (map breq_prefix reqs)) n False c)
                     (\<lambda>(out, _, c1). Inr (out, c1))) = Inr (concat segs, c1\<lparr>rc_allocator := a\<rparr>)
     \<and> mem_inv env U1 G {..<length running + length reqs} (running @ staged pool reqs, staged_pool pool reqs, c1)
     \<and> rc_same c c1 \<and> others c1 U1 = others c U
     \<and> ext_slots c1 U1 (\<lambda>i. G (length running + i)) (prots reqs) (pre_lens reqs) (fill_lens reqs) segs a U' H"
proof -
  let ?p = "rc_page_size c" and ?pfx = "map breq_prefix reqs"
  note D = admittedD [OF A]
  have p0: "0 < ?p" using D(1) by (auto simp: mem_inv_def dest: rc_enabledD(4))
  have ps: "al_page_size (rc_allocator c) = ?p" using D(1) by (simp add: mem_inv_def rc_slots_def)
  define num where "num = (if ?p = 1 then n else n + length reqs * ?p)"
  have need: "extend_need c reqs \<le> num" using extend_need_le [OF p0 D(4)] by (simp add: num_def n_def)
  obtain c1 U1 where e: "evict_from_tree_cache (de_sha env) (de_order env) num c = Inr c1"
     "mem_inv env U1 G {..<length running + length reqs} (running @ staged pool reqs, staged_pool pool reqs, c1)" "rc_same c c1" "others c1 U1 = others c U"
     "min num (kv_available_size (rc_allocator c) + nat (rc_evictable_size c)) \<le> kv_available_size (rc_allocator c1)"
    using mem_inv_evict [OF D(1), of num] by blast
  have p1: "rc_page_size c1 = ?p" using e(3) by (simp add: rc_same_def)
  have s1: "rc_slots c1 (content c1) U1" using e(2) by (simp add: mem_inv_def)
  have fit1: "page_start (rc_page_size c1) (pre_lens reqs) (fill_lens reqs) (length (pre_lens reqs)) * rc_page_size c1 \<le> kv_available_size (rc_allocator c1)"
    using fit need e(5) unfolding p1 by (simp add: extend_need_def)
  have n: "ext_start (pre_lens reqs) (fill_lens reqs) (length (pre_lens reqs)) = n" using ext_start_reqs [of "length reqs" reqs] by (simp add: n_def)
  have p01: "0 < rc_page_size c1" using p0 p1 by simp
  have buf': "ext_start (pre_lens reqs) (fill_lens reqs) (length (pre_lens reqs)) \<le> length (de_uninit env)" using buf n by simp
  obtain segs a U' H where x: "(if rc_page_size c1 = 1 then kv_alloc_op n (rc_allocator c1)
          else alloc_extend (de_oob env) (de_fill env) (de_uninit env) (pre_lens reqs) (fill_lens reqs) (map last_prefix_loc ?pfx) n None (rc_allocator c1))
        = Inr (Some (concat segs), a)"
     "ext_slots c1 U1 (\<lambda>i. G (length running + i)) (prots reqs) (pre_lens reqs) (fill_lens reqs) segs a U' H"
    using extend_alloc_ok [OF s1 p01 staged_held [OF e(2) D(4)] fit1 buf', of "de_oob env" "de_fill env", unfolded n] by blast
  have "(if ?p = 1
                then rbind (alloc_token_slots (de_sha env) (de_order env) n False c) (\<lambda>(out, _, c1). Inr (out, c1))
                else rbind (alloc_paged_token_slots_extend (de_sha env) (de_order env) (de_oob env) (de_fill env) (de_uninit env)
                       (pre_lens reqs) (fill_lens reqs) (map last_prefix_loc ?pfx) n False c)
                     (\<lambda>(out, _, c1). Inr (out, c1))) = Inr (concat segs, c1\<lparr>rc_allocator := a\<rparr>)"
    using e(1) x(1) ps p1 by (simp add: num_def alloc_token_slots_def alloc_paged_token_slots_extend_def Let_def split: if_splits)
  with e(2-4) x(2) show ?thesis by blast
qed

text \<open>Each row gets the prefix of its request and the slots it was given.\<close>

lemma slice_concat:
  assumes "i < length xss"
  shows "py_slice (sum_list (map length (take i xss))) (sum_list (map length (take i xss)) + length (xss ! i)) (concat xss) = xss ! i"
proof -
  have "concat xss = concat (take i xss) @ xss ! i @ concat (drop (Suc i) xss)"
    using arg_cong [OF id_take_nth_drop [OF assms], of concat] by simp
  moreover have "length (concat (take i xss)) = sum_list (map length (take i xss))" by (rule length_concat)
  ultimately show ?thesis by (simp add: py_slice_def)
qed

lemma extend_rows_ok:
  assumes idx: "length idx = length reqs" "distinct idx" "\<forall>i\<in>set idx. i < length (rp_req_to_token pool)"
    and rows: "\<forall>row\<in>set (rp_req_to_token pool). length row = rp_max_context_len pool"
    and len: "\<forall>r\<in>set reqs. length (breq_prefix r) \<le> length (breq_fill r) \<and> length (breq_fill r) \<le> rp_max_context_len pool"
    and segs: "map length segs = map ext_len reqs"
  shows "\<exists>rows'. (\<forall>backend oob. write_cache_indices backend oob (concat segs) idx (pre_lens reqs) (fill_lens reqs) (map ext_len reqs) (map breq_prefix reqs) pool
          = Inr (pool\<lparr>rp_req_to_token := rows'\<rparr>))
     \<and> length rows' = length (rp_req_to_token pool) \<and> (\<forall>row\<in>set rows'. length row = rp_max_context_len pool)
     \<and> (\<forall>i<length reqs. \<exists>rest. rows' ! (idx ! i) = breq_prefix (reqs ! i) @ segs ! i @ rest)
     \<and> (\<forall>q. q \<notin> set idx \<longrightarrow> rows' ! q = rp_req_to_token pool ! q)"
proof -
  let ?rows = "rp_req_to_token pool"
  define es where "es = write_entries idx (pre_lens reqs) (fill_lens reqs) (map ext_len reqs) (map breq_prefix reqs)"
  have l: "length (pre_lens reqs) = length idx" "length (fill_lens reqs) = length idx" "length (map ext_len reqs) = length idx" "length (map breq_prefix reqs) = length idx"
    using idx(1) by simp_all
  note C = write_entries_cols [OF l, folded es_def]
  have nth: "es ! i = (idx ! i, length (breq_prefix (reqs ! i)), length (breq_fill (reqs ! i)), ext_len (reqs ! i), breq_prefix (reqs ! i))" if "i < length reqs" for i
    using C(7) [of i] that idx(1) by simp
  have ok: "\<forall>x\<in>set es. entry_ok (length ?rows) (rp_max_context_len pool) x"
  proof
    fix x assume "x \<in> set es"
    then obtain i where i: "i < length reqs" "x = es ! i" using C(6) idx(1) by (metis in_set_conv_nth)
    have "idx ! i < length ?rows" using idx(1,3) i(1) by simp
    moreover have "length (breq_prefix (reqs ! i)) \<le> length (breq_fill (reqs ! i))" "length (breq_fill (reqs ! i)) \<le> rp_max_context_len pool"
      using len i(1) by simp_all
    ultimately show "entry_ok (length ?rows) (rp_max_context_len pool) x" using i nth by (simp add: entry_ok_def)
  qed
  have ls: "sum_list (map ext_len reqs) = length (concat segs)" using segs by (simp add: length_concat)
  have se: "sum_list (map entry_ext es) \<le> length (concat segs)" using C(4) ls by simp
  define rows' where "rows' = write_rows 0 (concat segs) es ?rows"
  have w: "write_cache_indices backend oob (concat segs) idx (pre_lens reqs) (fill_lens reqs) (map ext_len reqs) (map breq_prefix reqs) pool
      = Inr (pool\<lparr>rp_req_to_token := rows'\<rparr>)" for backend oob
    unfolding rows'_def es_def by (rule write_cache_indices_rows [OF l rows ok [unfolded es_def]]) (use ls in simp)
  have "0 + sum_list (map entry_ext es) \<le> length (concat segs)" using se by simp
  note W = write_rows_ok [OF ok rows this, folded rows'_def]
  have df: "distinct (map fst es)" "\<forall>x\<in>set es. fst x < length ?rows" using idx(2) ok C(1) by (simp, auto simp: entry_ok_def)
  note R = write_rows_at [OF df, of 0 "concat segs", folded rows'_def]
  have "\<exists>rest. rows' ! (idx ! i) = breq_prefix (reqs ! i) @ segs ! i @ rest" if i: "i < length reqs" for i
  proof -
    have i': "i < length es" "i < length segs" using i C(6) idx(1) segs map_eq_imp_length_eq [OF segs] by simp_all
    have pt: "sum_list (map entry_ext (take i es)) = sum_list (map length (take i segs))" "ext_len (reqs ! i) = length (segs ! i)"
      using arg_cong [OF C(4), of "take i"] arg_cong [OF segs, of "take i"] arg_cong [OF segs, of "\<lambda>xs. xs ! i"] i i' by (simp_all add: take_map)
    show ?thesis using R(1) [rule_format, OF i'(1)] slice_concat [OF i'(2)] nth [OF i] pt by auto
  qed
  moreover have "\<forall>q. q \<notin> set idx \<longrightarrow> rows' ! q = ?rows ! q" using R(2) C(1) by simp
  ultimately show ?thesis using w W by blast
qed

section \<open>Preparing the batch\<close>

definition extended_req :: "nat \<Rightarrow> batch_req \<Rightarrow> batch_req" where
  "extended_req k r = (count_cached_tokens (length (breq_fill r)) (length (breq_prefix r))
     (r\<lparr>sq_mem := with_row k (length (breq_fill r)) (sq_mem r), br_extend_batch_idx := br_extend_batch_idx r + 1\<rparr>))\<lparr>sq_is_retracted := False\<rparr>"

lemma prepare_req_for_extend_eq:
  assumes "sq_extend_input_len r = int (length (breq_fill r)) - int (length (breq_prefix r))"
  shows "prepare_req_for_extend k r = Inr (extended_req k r)"
  using assms by (simp add: prepare_req_for_extend_def extended_req_def with_row_def Let_def guard_res_def)

lemma count_cached_tokens_fields [simp]:
  "sq_mem (count_cached_tokens s p r) = sq_mem r" "sq_rid (count_cached_tokens s p r) = sq_rid r" "br_samp (count_cached_tokens s p r) = br_samp r"
  "sq_return_logprob (count_cached_tokens s p r) = sq_return_logprob r" "br_top_logprobs_num (count_cached_tokens s p r) = br_top_logprobs_num r"
  "br_token_ids_logprob (count_cached_tokens s p r) = br_token_ids_logprob r" "sq_stream (count_cached_tokens s p r) = sq_stream r"
  "sq_has_grammar (count_cached_tokens s p r) = sq_has_grammar r" "sq_finished_reason (count_cached_tokens s p r) = sq_finished_reason r"
  "sq_max_new_tokens (count_cached_tokens s p r) = sq_max_new_tokens r"
  by (simp_all add: count_cached_tokens_def Let_def)

lemma extended_req_fields [simp]:
  "sq_mem (extended_req k r) = with_row k (length (breq_fill r)) (sq_mem r)" "sq_rid (extended_req k r) = sq_rid r" "br_samp (extended_req k r) = br_samp r"
  "sq_return_logprob (extended_req k r) = sq_return_logprob r" "br_top_logprobs_num (extended_req k r) = br_top_logprobs_num r"
  "br_token_ids_logprob (extended_req k r) = br_token_ids_logprob r" "sq_stream (extended_req k r) = sq_stream r"
  "sq_has_grammar (extended_req k r) = sq_has_grammar r" "sq_finished_reason (extended_req k r) = sq_finished_reason r" "sq_max_new_tokens (extended_req k r) = sq_max_new_tokens r"
  by (simp_all add: extended_req_def)

lemma prepare_reqs_eq:
  assumes "length idx = length rs" "\<forall>r\<in>set rs. sq_extend_input_len r = int (length (breq_fill r)) - int (length (breq_prefix r))"
  shows "rmap (\<lambda>(i, r). prepare_req_for_extend i r) (zip idx rs) = Inr (map2 extended_req idx rs)"
  using assms by (induction idx rs rule: list_induct2) (simp_all add: prepare_req_for_extend_eq)

text \<open>
  What \<open>prepare_for_extend\<close> is called on: requests that were admitted, with rows and sampling
  parameters, and room for the tokens they extend by. \<open>blank\<close> is a batch with no results yet.
\<close>

definition samp_config_of :: "extend_env \<Rightarrow> samp_config" where
  "samp_config_of xe = (xe_hash xe, xe_deterministic xe, xe_custom_logit_processor xe, xe_vocab_size xe)"

definition extend_req_ok :: "extend_env \<Rightarrow> string set \<Rightarrow> batch_req \<Rightarrow> bool" where
  "extend_req_ok xe P r \<longleftrightarrow> sq_extend_input_len r = int (length (breq_fill r)) - int (length (breq_prefix r))
     \<and> samp_req_ok (xe_vocab_size xe) (br_samp r) \<and> proc_ok P (br_samp r)
     \<and> (\<not> sq_return_logprob r \<longrightarrow> br_top_logprobs_num r = 0 \<and> br_token_ids_logprob r = None)"

definition blank_batch :: "schedule_batch \<Rightarrow> bool" where
  "blank_batch b \<longleftrightarrow> bt_output_ids b = None \<and> bt_top_logprobs_nums b = None \<and> bt_token_ids_logprobs b = None \<and> \<not> bt_is_encoder_decoder b"

definition extend_ready ::
  "string set \<Rightarrow> decode_env \<Rightarrow> extend_env \<Rightarrow> int set \<Rightarrow> (nat \<Rightarrow> int list) \<Rightarrow> nat set \<Rightarrow> batch_req list \<Rightarrow> batch_req list \<Rightarrow> req_pool \<Rightarrow> rcache \<Rightarrow> bool" where
  "extend_ready P env xe U G used running reqs pool c \<longleftrightarrow>
     admitted env U G running reqs pool c \<and> rows_ready running reqs pool used \<and> reqs \<noteq> [] \<and> (\<forall>r\<in>set reqs. extend_req_ok xe P r)
   \<and> all_kinds (xe_penalizers xe) \<and> inj_on (xe_hash xe) P
   \<and> extend_need c reqs \<le> kv_available_size (rc_allocator c) + nat (rc_evictable_size c)
   \<and> sum_list (map ext_len reqs) \<le> length (de_uninit env)"

lemma list_ex_cong_map: "map P xs = map P ys \<Longrightarrow> list_ex P xs = list_ex P ys"
proof -
  have "list_ex P zs \<longleftrightarrow> True \<in> set (map P zs)" for zs by (auto simp: list_ex_iff)
  then show "map P xs = map P ys \<Longrightarrow> list_ex P xs = list_ex P ys" by (simp only:)
qed

text \<open>
  What the allocation gives: row \<open>idx ! i\<close> holds the prefix of request \<open>i\<close> and its slots
  \<open>segs ! i\<close>, other rows are as before, and the requests own their memory beside the running ones.
\<close>

definition extend_rows :: "batch_req list \<Rightarrow> req_pool \<Rightarrow> nat set \<Rightarrow> nat list \<Rightarrow> int list list \<Rightarrow> req_pool \<Rightarrow> bool" where
  "extend_rows reqs pool used idx segs pool' \<longleftrightarrow> length idx = length reqs \<and> distinct idx \<and> map length segs = map ext_len reqs
   \<and> pool_ok pool' (used \<union> set idx) \<and> length (rp_req_to_token pool') = length (rp_req_to_token pool)
   \<and> (\<forall>row\<in>set (rp_req_to_token pool'). length row = rp_max_context_len pool) \<and> rp_max_context_len pool' = rp_max_context_len pool
   \<and> (\<forall>i<length reqs. idx ! i < length (rp_req_to_token pool') \<and> (\<exists>rest. rp_req_to_token pool' ! (idx ! i) = breq_prefix (reqs ! i) @ segs ! i @ rest))
   \<and> (\<forall>q. q \<notin> set idx \<longrightarrow> rp_req_to_token pool' ! q = rp_req_to_token pool ! q)"

lemma alloc_for_extend_ok:
  fixes b
  defines "reqs \<equiv> bt_reqs b"
  assumes E: "extend_ready P env xe U G used running (bt_reqs b) pool c"
    and lens: "map nat (bt_prefix_lens b) = pre_lens (bt_reqs b)" "bt_seq_lens b = fill_lens (bt_reqs b)" "map nat (bt_extend_lens b) = map ext_len (bt_reqs b)"
      "nat (bt_extend_num_tokens b) = sum_list (map ext_len (bt_reqs b))"
  shows "\<exists>segs idx mems pool' c' U' G'. alloc_for_extend env xe b pool c = Inr (concat segs, idx, b\<lparr>bt_reqs := map2 (\<lambda>r m. r\<lparr>sq_mem := m\<rparr>) reqs mems\<rparr>, pool', c')
     \<and> extend_rows reqs pool used idx segs pool' \<and> set idx \<inter> breq_row ` set running = {} \<and> length mems = length reqs
     \<and> (\<forall>i<length reqs. mems ! i = (sq_mem (reqs ! i))\<lparr>rq_req_pool_idx := Some (idx ! i)\<rparr>) \<and> rc_same c c' \<and> others c U \<subseteq> others c' U'
     \<and> (\<forall>reqs'. length reqs' = length reqs \<and> (\<forall>i<length reqs. sq_mem (reqs' ! i) = with_row (idx ! i) (length (breq_fill (reqs ! i))) (sq_mem (reqs ! i)))
          \<longrightarrow> mem_inv env U' G' {..<length running + length reqs} (running @ reqs', pool', c'))"
proof -
  have e: "admitted env U G running reqs pool c" "rows_ready running reqs pool used" "extend_need c reqs \<le> kv_available_size (rc_allocator c) + nat (rc_evictable_size c)"
     "sum_list (map ext_len reqs) \<le> length (de_uninit env)"
    using E by (simp_all add: extend_ready_def reqs_def)
  have rr: "\<forall>row\<in>set (rp_req_to_token pool). length row = rp_max_context_len pool" "\<forall>r\<in>set reqs. length (breq_fill r) \<le> rp_max_context_len pool"
    using e(2) unfolding rows_ready_def Let_def by argo+
  note D = admittedD [OF e(1)]
  obtain idx mems pool1 where i: "alloc_req_slots pool (map sq_mem reqs) = Inr (idx, mems, pool1)" "length idx = length reqs" "length mems = length reqs" "distinct idx"
     "\<forall>i\<in>set idx. i < length (rp_req_to_token pool)" "set idx \<inter> breq_row ` set running = {}"
     "pool_ok pool1 (used \<union> set idx)" "rp_req_to_token pool1 = rp_req_to_token pool" "rp_max_context_len pool1 = rp_max_context_len pool"
     "\<forall>i<length reqs. mems ! i = (sq_mem (reqs ! i))\<lparr>rq_req_pool_idx := Some (idx ! i)\<rparr>"
    using alloc_rows_ok [OF e(2)] by (elim exE conjE) (rule that, assumption+)
  obtain segs c1 U1 a U' H where s: "(if rc_page_size c = 1
                then rbind (alloc_token_slots (de_sha env) (de_order env) (sum_list (map ext_len reqs)) False c) (\<lambda>(out, _, c1). Inr (out, c1))
                else rbind (alloc_paged_token_slots_extend (de_sha env) (de_order env) (de_oob env) (de_fill env) (de_uninit env)
                       (pre_lens reqs) (fill_lens reqs) (map last_prefix_loc (map breq_prefix reqs)) (sum_list (map ext_len reqs)) False c)
                     (\<lambda>(out, _, c1). Inr (out, c1))) = Inr (concat segs, c1\<lparr>rc_allocator := a\<rparr>)"
     "mem_inv env U1 G {..<length running + length reqs} (running @ staged pool reqs, staged_pool pool reqs, c1)" "rc_same c c1" "others c1 U1 = others c U"
     "ext_slots c1 U1 (\<lambda>i. G (length running + i)) (prots reqs) (pre_lens reqs) (fill_lens reqs) segs a U' H"
    using extend_slots_ok [OF e(1,3,4)] by (elim exE conjE) (rule that, assumption+)
  have "length segs = length reqs" "\<And>i. i < length reqs \<Longrightarrow> length (segs ! i) = ext_len (reqs ! i)" using s(5) by (simp_all add: ext_slots_def)
  then have ml: "map length segs = map ext_len reqs" by (intro nth_equalityI) simp_all
  have b1: "\<forall>i\<in>set idx. i < length (rp_req_to_token pool1)" "\<forall>row\<in>set (rp_req_to_token pool1). length row = rp_max_context_len pool1"
     "\<forall>r\<in>set reqs. length (breq_prefix r) \<le> length (breq_fill r) \<and> length (breq_fill r) \<le> rp_max_context_len pool1"
    using i(5,8,9) rr D(4) by simp_all
  obtain rows' where w: "\<forall>backend oob. write_cache_indices backend oob (concat segs) idx (pre_lens reqs) (fill_lens reqs) (map ext_len reqs) (map breq_prefix reqs) pool1
        = Inr (pool1\<lparr>rp_req_to_token := rows'\<rparr>)"
     "length rows' = length (rp_req_to_token pool1)" "\<forall>row\<in>set rows'. length row = rp_max_context_len pool1"
     "\<forall>i<length reqs. \<exists>rest. rows' ! (idx ! i) = breq_prefix (reqs ! i) @ segs ! i @ rest" "\<forall>q. q \<notin> set idx \<longrightarrow> rows' ! q = rp_req_to_token pool1 ! q"
    using extend_rows_ok [OF i(2,4) b1 ml] by (elim exE conjE) (rule that, assumption+)
  let ?pool = "pool1\<lparr>rp_req_to_token := rows'\<rparr>" and ?G = "\<lambda>j. if j < length running then G j else G j @ H (j - length running)"
  have x: "alloc_for_extend env xe b pool c = Inr (concat segs, idx, b\<lparr>bt_reqs := map2 (\<lambda>r m. r\<lparr>sq_mem := m\<rparr>) reqs mems\<rparr>, ?pool, c1\<lparr>rc_allocator := a\<rparr>)"
    unfolding alloc_for_extend_def lens reqs_def [symmetric] i(1) Let_def rbind_simps prod.case s(1) w(1) [rule_format] ..
  have pr: "length (rp_req_to_token ?pool) = length (rp_req_to_token pool)"
     "\<forall>i<length reqs. \<exists>rest. rp_req_to_token ?pool ! (idx ! i) = breq_prefix (reqs ! i) @ segs ! i @ rest"
     "\<forall>q. q \<notin> set idx \<longrightarrow> rp_req_to_token ?pool ! q = rp_req_to_token pool ! q"
    using w(2,4,5) i(8) by simp_all
  note O = extended_owners [OF s(2) D(3) s(5) D(2) i(2,4,5,6) pr]
  have ow: "\<forall>reqs'. length reqs' = length reqs \<and> (\<forall>i<length reqs. sq_mem (reqs' ! i) = with_row (idx ! i) (length (breq_fill (reqs ! i))) (sq_mem (reqs ! i)))
      \<longrightarrow> mem_inv env U' ?G {..<length running + length reqs} (running @ reqs', ?pool, c1\<lparr>rc_allocator := a\<rparr>)"
    by (intro allI impI, elim conjE) (rule O(1))
  have en1: "rc_enabled c1" using s(2) by (simp add: mem_inv_def)
  have "others (c1\<lparr>rc_allocator := a\<rparr>) U' = others c1 U1 \<union> (\<Union>i<length reqs. req_pages c1 (H i))"
    by (rule O(2) [of "map2 extended_req idx reqs"]) (use i(2) in simp_all)
  then have oth: "others c U \<subseteq> others (c1\<lparr>rc_allocator := a\<rparr>) U'" using s(4) by blast
  have same: "rc_same c (c1\<lparr>rc_allocator := a\<rparr>)" by (rule rc_same_trans [OF s(3) alloc_upd(5) [OF en1]])
  have "pool_ok ?pool (used \<union> set idx)" using i(7) by (simp add: pool_ok_def)
  then have "extend_rows reqs pool used idx segs ?pool" unfolding extend_rows_def using i(2,4,5,9) ml pr w(3) by simp
  then show ?thesis using x i(3,6,10) same oth ow by blast
qed

lemma extend_lens_of_fields:
  fixes b d
  assumes "\<forall>r\<in>set (bt_reqs b). extend_req_ok xe P r" "\<forall>r\<in>set (bt_reqs b). length (breq_prefix r) \<le> length (breq_fill r)"
  defines "b0 \<equiv> extend_lens_of d b"
  shows "bt_reqs b0 = bt_reqs b" "map nat (bt_prefix_lens b0) = pre_lens (bt_reqs b)" "bt_seq_lens b0 = fill_lens (bt_reqs b)" "map nat (bt_extend_lens b0) = map ext_len (bt_reqs b)"
    "nat (bt_extend_num_tokens b0) = sum_list (map ext_len (bt_reqs b))"
proof -
  have el: "length (extend_input_ids r) = ext_len r" for r by (simp add: extend_input_ids_def)
  have "sum_list (map (\<lambda>r. int (ext_len r)) rs) = int (sum_list (map ext_len rs))" for rs by (induction rs) simp_all
  then show "nat (bt_extend_num_tokens b0) = sum_list (map ext_len (bt_reqs b))" unfolding b0_def by (simp add: extend_lens_of_def Let_def el)
  show "map nat (bt_extend_lens b0) = map ext_len (bt_reqs b)"
    using assms(1,2) unfolding b0_def by (auto simp: extend_lens_of_def Let_def extend_req_ok_def)
qed (simp_all add: b0_def extend_lens_of_def Let_def)

lemma prepare_for_extend_ok:
  fixes blank ov reqs
  assumes E: "extend_ready P env xe U G used running reqs pool c" and B: "blank_batch blank"
  shows "\<exists>b' pool' c' U' G' idx segs. prepare_for_extend env xe (init_new blank ov reqs) pool c = Inr (b', pool', c')
     \<and> batch_ok (samp_config_of xe) (fresh_rows (map br_samp reqs)) b' \<and> bt_reqs b' = map2 extended_req idx reqs
     \<and> bt_input_ids b' = Some (concat (map extend_input_ids reqs)) \<and> bt_out_cache_loc b' = Some (concat segs)
     \<and> bt_extend_num_tokens b' = int (length (concat segs)) \<and> bt_output_ids b' = None \<and> bt_enable_overlap b' = ov \<and> \<not> bt_is_encoder_decoder b'
     \<and> bt_req_pool_indices b' = idx \<and> extend_rows reqs pool used idx segs pool' \<and> set idx \<inter> breq_row ` set running = {} \<and> rc_same c c' \<and> others c U \<subseteq> others c' U'
     \<and> mem_inv env U' G' {..<length running + length reqs} (running @ bt_reqs b', pool', c')"
proof -
  let ?b = "init_new blank ov reqs" and ?be = "extend_lens_of (xe_is_dllm xe) (init_new blank ov reqs)"
  have rs: "bt_reqs ?b = reqs" by (simp add: init_new_def)
  have e: "admitted env U G running reqs pool c" "reqs \<noteq> []" "\<forall>r\<in>set reqs. extend_req_ok xe P r" "all_kinds (xe_penalizers xe)" "inj_on (xe_hash xe) P"
    using E by (simp_all add: extend_ready_def)
  note F = extend_lens_of_fields [where b = ?b and xe = xe and P = P and d = "xe_is_dllm xe", unfolded rs, OF e(3) admittedD(4) [OF e(1)]]
  have E0: "extend_ready P env xe U G used running (bt_reqs ?be) pool c" using E F(1) by simp
  obtain segs idx mems pool' c' U' G' where A:
     "alloc_for_extend env xe ?be pool c = Inr (concat segs, idx, ?be\<lparr>bt_reqs := map2 (\<lambda>r m. r\<lparr>sq_mem := m\<rparr>) reqs mems\<rparr>, pool', c')"
     "extend_rows reqs pool used idx segs pool'" "set idx \<inter> breq_row ` set running = {}" "length mems = length reqs"
     "\<forall>i<length reqs. mems ! i = (sq_mem (reqs ! i))\<lparr>rq_req_pool_idx := Some (idx ! i)\<rparr>" "rc_same c c'" "others c U \<subseteq> others c' U'"
     "\<forall>reqs'. length reqs' = length reqs \<and> (\<forall>i<length reqs. sq_mem (reqs' ! i) = with_row (idx ! i) (length (breq_fill (reqs ! i))) (sq_mem (reqs ! i)))
          \<longrightarrow> mem_inv env U' G' {..<length running + length reqs} (running @ reqs', pool', c')"
    using alloc_for_extend_ok [OF E0, unfolded F(1), OF F(2-5)] by (elim exE conjE) (rule that, assumption+)
  have li: "length idx = length reqs" "map length segs = map ext_len reqs" using A(2) by (simp_all add: extend_rows_def)
  define rs1 where "rs1 = map2 (\<lambda>r m. r\<lparr>sq_mem := m\<rparr>) reqs mems"
  define rs2 where "rs2 = map2 extended_req idx reqs"
  have n1: "length rs1 = length reqs" "\<And>i. i < length reqs \<Longrightarrow> rs1 ! i = (reqs ! i)\<lparr>sq_mem := (sq_mem (reqs ! i))\<lparr>rq_req_pool_idx := Some (idx ! i)\<rparr>\<rparr>"
    using A(4,5) by (simp_all add: rs1_def)
  have n2: "length rs2 = length reqs" "\<And>i. i < length reqs \<Longrightarrow> rs2 ! i = extended_req (idx ! i) (reqs ! i)" using li by (simp_all add: rs2_def)
  have same: "map2 extended_req idx rs1 = rs2"
    using n1 n2 li by (intro nth_equalityI) (simp_all add: extended_req_def with_row_def)
  have ei: "extend_req_ok xe P (reqs ! i)" if "i < length reqs" for i using e(3) that by simp
  have "\<forall>r\<in>set rs1. sq_extend_input_len r = int (length (breq_fill r)) - int (length (breq_prefix r))"
    using ei n1 by (auto simp: in_set_conv_nth extend_req_ok_def)
  with prepare_reqs_eq [of idx rs1] li(1) n1(1) same
  have pr: "rmap (\<lambda>(i, r). prepare_req_for_extend i r) (zip idx rs1) = Inr rs2" by simp
  have mp: "map f rs2 = map f reqs" if "\<And>k r. f (extended_req k r) = f r" for f :: "batch_req \<Rightarrow> 'x"
    using n2 that by (intro nth_equalityI) simp_all
  have ex: "list_ex f rs2 = list_ex f reqs" if "\<And>k r. f (extended_req k r) = f r" for f by (rule list_ex_cong_map [OF mp [OF that]])
  have ne: "map br_samp rs2 \<noteq> []" "\<forall>r\<in>set (map br_samp rs2). samp_req_ok (xe_vocab_size xe) r \<and> proc_ok P r"
    using e(2,3) unfolding mp [of br_samp, OF extended_req_fields(3)] by (auto simp: extend_req_ok_def)
  obtain samp where s: "from_schedule_batch (xe_hash xe) (xe_penalizers xe) (xe_deterministic xe) (xe_custom_logit_processor xe) (map br_samp rs2) (xe_vocab_size xe) = Inr samp"
     "samp_rep (xe_hash xe) (xe_deterministic xe) (xe_custom_logit_processor xe) (xe_vocab_size xe) (fresh_rows (map br_samp rs2)) samp"
    using from_schedule_batch_rep [OF ne e(4,5)] by blast
  obtain b' where eq: "prepare_for_extend env xe ?b pool c = Inr (b', pool', c')"
    unfolding prepare_for_extend_def Let_def A(1) rbind_simps prod.case by (simp add: rs1_def [symmetric] pr s(1))
  have ru: "bt_reqs (?be\<lparr>bt_reqs := rs1\<rparr>) = rs1" by simp
  note b' = eq [unfolded prepare_for_extend_def Let_def A(1) rbind_simps prod.case, folded rs1_def, unfolded ru pr rbind_simps s(1) sum.inject prod.inject,
      THEN conjunct1, symmetric]
  have f: "bt_reqs b' = rs2" "bt_sampling_info b' = samp" "bt_req_pool_indices b' = idx" "bt_seq_lens b' = fill_lens reqs" "bt_seq_lens_cpu b' = fill_lens reqs"
     "length (bt_orig_seq_lens b') = length reqs" "bt_seq_lens_sum b' = sum_list (fill_lens reqs)" "bt_output_ids b' = None" "\<not> bt_is_encoder_decoder b'"
     "opt_len (length reqs) (bt_multimodal_inputs b')" "opt_len (length reqs) (bt_output_ids b')" "bt_return_logprob b' = list_ex sq_return_logprob reqs"
     "bt_top_logprobs_nums b' = (if list_ex sq_return_logprob reqs then Some (map br_top_logprobs_num rs2) else None)"
     "bt_token_ids_logprobs b' = (if list_ex sq_return_logprob reqs then Some (map br_token_ids_logprob rs2) else None)"
     "bt_has_stream b' = list_ex sq_stream reqs" "bt_has_grammar b' = list_ex sq_has_grammar reqs" "bt_enable_overlap b' = ov"
     "bt_input_ids b' = Some (concat (map extend_input_ids reqs))" "bt_out_cache_loc b' = Some (concat segs)" "bt_extend_num_tokens b' = bt_extend_num_tokens ?be"
    using B n2(1) by (simp_all add: b' init_new_def extend_lens_of_def Let_def blank_batch_def opt_len_def)
  have "row_aligned b' i" if "i < length reqs" for i using that n2 li(1) unfolding row_aligned_def f by simp
  then have T: "tensors_ok b'" using n2(1) li(1) f(9-11) by (simp add: tensors_ok_def Let_def f(1,3-7))
  have "\<forall>r\<in>set rs2. \<not> sq_return_logprob r \<longrightarrow> br_top_logprobs_num r = 0 \<and> br_token_ids_logprob r = None"
    using ei n2 by (auto simp: in_set_conv_nth extend_req_ok_def)
  then have "flags_ok b'" unfolding flags_ok_def f ex [of sq_return_logprob, OF extended_req_fields(4)] ex [of sq_stream, OF extended_req_fields(7)]
      ex [of sq_has_grammar, OF extended_req_fields(8)] by simp
  with s(2) T f have bok: "batch_ok (samp_config_of xe) (fresh_rows (map br_samp reqs)) b'"
    unfolding batch_ok_def samp_config_of_def mp [of br_samp, OF extended_req_fields(3)] by (simp add: mp)
  have "0 \<le> sum_list (map (\<lambda>r. int (length (extend_input_ids r))) rs)" for rs by (induction rs) simp_all
  then have "0 \<le> bt_extend_num_tokens ?be" by (simp add: extend_lens_of_def Let_def)
  then have nt: "bt_extend_num_tokens b' = int (length (concat segs))" using F(5) li(2) f by (simp add: length_concat)
  have "mem_inv env U' G' {..<length running + length reqs} (running @ bt_reqs b', pool', c')"
    unfolding f by (rule A(8) [rule_format]) (use n2 in simp)
  with eq bok f nt A(2,3,6,7) show ?thesis unfolding rs2_def by blast
qed

end
