(* ===== verification/Decode_Props.thy ===== *)
theory Decode_Props
  imports Decode_Safe
begin

text \<open>
  The properties of the running batch: its tensors stay aligned with its requests, retraction
  makes room, and a decode step never runs out of memory.
\<close>

section \<open>A batch of two requests, for the witnesses\<close>

text \<open>
  Two requests fill the last two of the four pages, and the cache holds the other two: the next
  decode step has to evict what is cached.
\<close>

definition sample_decode_req :: "nat \<Rightarrow> string \<Rightarrow> nat \<Rightarrow> batch_req" where
  "sample_decode_req x rid row = \<lparr>sq_mem = sample_req\<lparr>rq_origin_input_ids := [7, 8], rq_output_ids := [1], rq_fill_ids := [7, 8],
       rq_req_pool_idx := Some row, rq_kv_committed_len := 2, rq_kv_allocated_len := 2, rq_last_node := Some x\<rparr>,
     sq_rid = rid, sq_max_new_tokens = 2, sq_ignore_eos = False,
     sq_extend_input_len = 0, sq_logprob_start_len = -1, sq_extend_logprob_start_len = 0, sq_host_hit_length = 0, sq_last_host_node = None,
     sq_wait_queue_entry_time = 1, sq_routing_key = None, sq_finished_reason = None, sq_to_finish = None, sq_is_retracted = False,
     sq_retraction_count = 0, sq_has_input_embeds = False, sq_return_logprob = False, sq_stream = False, sq_has_grammar = False,
     br_samp = sample_samp_req, br_top_logprobs_num = 0, br_token_ids_logprob = None, br_decode_batch_idx = 0,
     br_extend_batch_idx = 1, br_retracted_stain = False, br_already_computed = 2, br_cached_tokens = 0, br_cache_breakdown_computed = True,
     br_storage_hit_length = 0, br_cached_tokens_device = 0, br_cached_tokens_host = 0, br_cached_tokens_storage = 0,
     br_multimodal_inputs = None, br_return_hidden_states = False, br_is_prefill_only = False,
     br_eos_token_ids = None, br_has_tokenizer = True, br_vocab_size = 2, br_decoded_text = [], br_finished_len = None,
     br_require_reasoning = False, br_is_reasoning_over = False, br_grammar_tokens = []\<rparr>"

lemma sample_decode_req_fields [simp]:
  "rq_req_pool_idx (sq_mem (sample_decode_req x rid i)) = Some i" "rq_last_node (sq_mem (sample_decode_req x rid i)) = Some x"
  "rq_kv_committed_len (sq_mem (sample_decode_req x rid i)) = 2" "sq_rid (sample_decode_req x rid i) = rid"
  "sq_finished_reason (sample_decode_req x rid i) = None" "sq_max_new_tokens (sample_decode_req x rid i) = 2" "\<not> sq_return_logprob (sample_decode_req x rid i)"
  "\<not> sq_stream (sample_decode_req x rid i)" "\<not> sq_has_grammar (sample_decode_req x rid i)" "br_samp (sample_decode_req x rid i) = sample_samp_req"
  "br_top_logprobs_num (sample_decode_req x rid i) = 0" "br_token_ids_logprob (sample_decode_req x rid i) = None"
  by (simp_all add: sample_decode_req_def)

definition sample_batch :: "batch_req list \<Rightarrow> nat list \<Rightarrow> sampling_batch \<Rightarrow> schedule_batch" where
  "sample_batch reqs idx samp = \<lparr>bt_reqs = reqs, bt_forward_mode = DECODE, bt_enable_overlap = False, bt_batch_is_full = False,
     bt_sampling_info = samp, bt_input_ids = None, bt_output_ids = Some (map (\<lambda>_. 1) idx), bt_req_pool_indices = idx,
     bt_seq_lens = map (\<lambda>_. 2) idx, bt_seq_lens_cpu = map (\<lambda>_. 2) idx, bt_orig_seq_lens = map (\<lambda>_. 2) idx,
     bt_seq_lens_sum = sum_list (map (\<lambda>_. 2) idx), bt_out_cache_loc = None, bt_multimodal_inputs = None, bt_return_logprob = False,
     bt_top_logprobs_nums = None, bt_token_ids_logprobs = None, bt_prefix_lens = [], bt_extend_lens = [], bt_extend_num_tokens = 0,
     bt_extend_logprob_start_lens = [], bt_extend_input_logprob_token_ids = None, bt_is_encoder_decoder = False, bt_encoder_cached = [], bt_encoder_lens = [],
     bt_encoder_lens_cpu = [], bt_has_stream = False, bt_has_grammar = False, bt_return_hidden_states = False, bt_is_prefill_only = False\<rparr>"

definition sample_decode_pool :: req_pool where
  "sample_decode_pool = (req_pool_init 2 4)\<lparr>rp_req_to_token := [[0, 0, 0, 0], [6, 7, 0, 0], [8, 9, 0, 0]], rp_free_slots := []\<rparr>"

definition sample_env :: decode_env where
  "sample_env = \<lparr>de_sha = (\<lambda>xs. xs), de_now = 9, de_order = sorted_list_of_set, de_strip_thinking_cache = False, de_page_size = 2,
     de_spec = SpecNone, de_retract_decode_steps = 20, de_oob = (\<lambda>_. 0), de_fill = 0, de_uninit = [0, 0]\<rparr>"

abbreviation sample_pages :: "nat \<Rightarrow> int list" where
  "sample_pages i \<equiv> [int i + 3]"

abbreviation sample_two :: "nat \<Rightarrow> batch_req list" where
  "sample_two x \<equiv> [sample_decode_req x ''a'' 1, sample_decode_req x ''b'' 2]"

lemma sample_decode_cache:
  "\<exists>c. rc_page_size c = 2 \<and> mem_inv sample_env {2, 3, 4, 5, 6, 7, 8, 9} sample_pages {..<2} (sample_two (rc_root c), sample_decode_pool, c)"
proof -
  obtain c where c: "rc_enabled c" "rc_page_size c = 2" "\<not> rc_is_eagle c" "\<not> rc_enable_kv_cache_events c"
      "rc_slots c (content c) {2, 3, 4, 5}"
    using sample_cache_ok by blast
  let ?a = "sample_alloc\<lparr>al_free_pages := []\<rparr>" and ?U = "{2, 3, 4, 5, 6, 7, 8, 9} :: int set"
  let ?c = "c\<lparr>rc_allocator := ?a\<rparr>"
  note au = alloc_upd [OF c(1), where a = ?a]
  have "{1..4} = {1, 2, 3, 4 :: int}" by auto
  moreover have "?U = slots_of 2 {1, 2, 3, 4}" by (auto simp: slots_of_def)
  ultimately have "kv_inv ?a ?U" "al_page_size ?a = 2"
    by (simp_all add: kv_inv_def paged_inv_def sample_alloc_def paged_clear_def alloc_base_init_def num_pages_def page_set_def)
  then have sl: "rc_slots ?c (content ?c) ?U" using c(2,5) au(2) by (auto simp: rc_slots_def)
  have cs: "cache_slots 2 (content ?c) \<subseteq> {2, 3, 4, 5}" using c(2,5) au(2) by (simp add: rc_slots_def)
  obtain L pre vals where w: "rc_wf ?c L pre vals" "live ?c = L" using au(1) by (metis rc_enabled_def rc_inv_wfE)
  have root: "rc_root ?c \<in> live ?c" using w by (auto simp: rc_wf_def dest: rc_treeD(3))
  have held: "0 \<le> held ?c (live ?c) x" if "x \<in> live ?c - {rc_root ?c}" for x using w that by (simp add: rc_wf_def rc_acct_def)
  have key: "aligned_units ?c (req_key ?c (sq_mem (sample_decode_req x rid i))) = [[7], [8]]"
     "rc_key_fits (\<lambda>xs. xs) ?c (mk_key (req_ids (sq_mem (sample_decode_req x rid i))) None (rc_is_eagle ?c))" for x rid i
    using c(2-4) by (simp_all add: aligned_units_def key_view_def maybe_to_bigram_view_def mk_key_def key_len_def key_iter_def page_floor_def
        key_ok_def rc_key_fits_def req_key_def req_ids_def sample_decode_req_def sample_req_def)
  have pg: "page_slots 2 [3] = [6, 7]" "page_slots 2 [4] = [8, 9]" by (simp_all add: page_slots_def upt_rec)
  have kv: "req_kv ?c ?U None [[7], [8]] [6, 7] 0 [3]" "req_kv ?c ?U None [[7], [8]] [8, 9] 0 [4]"
    using cs c(2) pg by (auto simp: req_kv_def fills_def)
  have own: "owns_kv (\<lambda>xs. xs) ?c ?U sample_decode_pool (sq_mem (sample_decode_req (rc_root ?c) rid i)) (sample_pages j)"
    if "i = 1 \<and> j = 0 \<or> i = 2 \<and> j = 1" for rid i j
    using that kv root key [of "rc_root ?c" rid i]
    by (auto simp: owns_kv_def pins_def sample_decode_pool_def sample_decode_req_def sample_req_def req_ids_def)
  have "owners (\<lambda>xs. xs) ?c ?U sample_decode_pool (\<lambda>i. sq_mem (sample_two (rc_root ?c) ! i)) sample_pages {..<2}"
    unfolding owners_def
  proof (intro conjI ballI impI)
    fix i :: nat assume "i \<in> {..<2}"
    then show "owns_kv (\<lambda>xs. xs) ?c ?U sample_decode_pool (sq_mem (sample_two (rc_root ?c) ! i)) (sample_pages i)"
      using own [of 1 0 "''a''"] own [of 2 1 "''b''"] by (auto simp: less_2_cases_iff)
  next
    fix i j :: nat assume "i \<in> {..<2}" "j \<in> {..<2}" "i \<noteq> j"
    then show "set (sample_pages i) \<inter> set (sample_pages j) = {}"
      "rq_req_pool_idx (sq_mem (sample_two (rc_root ?c) ! i)) \<noteq> rq_req_pool_idx (sq_mem (sample_two (rc_root ?c) ! j))"
      by (auto simp: less_2_cases_iff)
  next
    fix x assume x: "x \<in> live ?c - {rc_root ?c}"
    have "rq_last_node (sq_mem (sample_two (rc_root ?c) ! i)) = Some (rc_root ?c)" if "i < 2" for i using that by (auto simp: less_2_cases_iff)
    with x have none: "{i \<in> {..<2}. rq_last_node (sq_mem (sample_two (rc_root ?c) ! i)) = Some x} = {}" by auto
    show "int (card {i \<in> {..<2}. rq_last_node (sq_mem (sample_two (rc_root ?c) ! i)) = Some x}) \<le> held ?c (live ?c) x"
      unfolding none using held [OF x] by simp
  qed simp
  moreover have "env_ok sample_env ?c" using c(2) by (simp add: env_ok_def sample_env_def enumerates_sorted)
  ultimately have "mem_inv sample_env ?U sample_pages {..<2} (sample_two (rc_root ?c), sample_decode_pool, ?c)"
    using au(1) sl by (simp add: mem_inv_def sample_env_def)
  then show ?thesis using c(2) by (intro exI [of _ ?c]) simp
qed

lemma sample_sampling:
  "\<exists>samp. samp_rep (\<lambda>s. 0) False False 2 (fresh_rows (replicate (Suc n) sample_samp_req)) samp"
  using from_schedule_batch_rep [of "replicate (Suc n) sample_samp_req" 2 "{}" order1 "\<lambda>s. 0" False False] sample_req_ok sample_orders(1) by auto

lemma sample_batch_ok:
  assumes "samp_rep (\<lambda>s. 0) False False 2 (fresh_rows (replicate (length idx) sample_samp_req)) samp" "length rids = length idx"
  shows "batch_ok (\<lambda>s. 0, False, False, 2) (fresh_rows (replicate (length idx) sample_samp_req))
     (sample_batch (map2 (sample_decode_req x) rids idx) idx samp)"
proof -
  let ?b = "sample_batch (map2 (sample_decode_req x) rids idx) idx samp"
  have f: "bt_reqs ?b = map2 (sample_decode_req x) rids idx" "bt_req_pool_indices ?b = idx" "bt_seq_lens ?b = map (\<lambda>_. 2) idx" by (simp_all add: sample_batch_def)
  have al: "row_aligned ?b i" if "i < length idx" for i using assms(2) that unfolding row_aligned_def f by simp
  then have "tensors_ok ?b" using assms(2) by (simp add: tensors_ok_def f(1) Let_def) (simp add: sample_batch_def opt_len_def)
  moreover have nolp: "\<not> sq_return_logprob r \<and> br_top_logprobs_num r = 0 \<and> br_token_ids_logprob r = None \<and> \<not> sq_stream r \<and> \<not> sq_has_grammar r"
    if "r \<in> set (bt_reqs ?b)" for r using that unfolding f by auto
  then have "flags_ok ?b" unfolding flags_ok_def by (auto simp: list_ex_iff) (simp_all add: sample_batch_def)
  moreover have "map br_samp (bt_reqs ?b) = replicate (length idx) sample_samp_req" unfolding f using assms(2) by (intro nth_equalityI) simp_all
  ultimately show ?thesis using assms(1) by (simp add: batch_ok_def fresh_rows_def comp_def) (simp add: sample_batch_def)
qed

section \<open>The properties\<close>

text \<open>
  C15: Merging two running batches and then filtering the result keeps every tensor of the batch
  aligned with its requests. If both batches are aligned (for the request at each position: its
  pool row, its sequence length on both devices, its log-probability settings and its sampling
  parameters with the penalties accumulated so far), then both operations succeed, the remaining
  requests are the unfinished ones that were not excluded, in their order, and unless none is left
  the filtered batch is aligned again. Every tensor of it (last tokens, multimodal inputs, pool
  rows, sequence lengths, original lengths, encoder lengths) has, at the position of a request,
  the entry that request had in the batch it came from, and so has the sampling state.
\<close>

theorem schedule_batch_aligned:
  assumes "batch_ok S rows b" "batch_ok S rows' other" "bt_reqs b \<noteq> []" "bt_reqs other \<noteq> []"
    and "samp_reqs_ok S P (rows @ rows')" "mergeable b other"
  shows "\<exists>b1 other1 b2. merge_batch b other = Inr (b1, other1) \<and> filter_batch excl None b1 = Inr b2
     \<and> bt_reqs b2 = filter (\<lambda>r. \<not> sq_finished r \<and> sq_rid r \<notin> set excl) (bt_reqs b @ bt_reqs other)
     \<and> (bt_reqs b2 \<noteq> [] \<longrightarrow> batch_ok S (map ((!) (rows @ rows')) (keep_list excl b1)) b2 \<and> rows_picked (keep_list excl b1) b other b2)"
proof -
  obtain b1 other1 where m: "merge_batch b other = Inr (b1, other1)" "batch_ok S (rows @ rows') b1" "bt_reqs b1 = bt_reqs b @ bt_reqs other"
      "merged b other b1"
    using merge_batch_ok [OF assms] unfolding merged_def by blast
  note kl = keep_list_simps [where excl = excl and b = b1]
  show ?thesis
  proof (cases "keep_list excl b1 = []")
    case True
    then have "filter_batch excl None b1 = Inr (b1\<lparr>bt_reqs := []\<rparr>)" unfolding filter_batch_def keep_list_def by simp
    then show ?thesis using m(1,3) kl(4) True by simp
  next
    case False
    obtain b2 where "filter_batch excl None b1 = Inr b2" "batch_ok S (map ((!) (rows @ rows')) (keep_list excl b1)) b2" "filtered (keep_list excl b1) b1 b2"
      using filter_batch_ok [OF m(2), where keep = "keep_list excl b1" and k = None and excl = excl] False kl by auto
    moreover from this(3) have "bt_reqs b2 = filter (\<lambda>r. \<not> sq_finished r \<and> sq_rid r \<notin> set excl) (bt_reqs b @ bt_reqs other)"
      using m(3) kl(4) by (simp add: filtered_def)
    ultimately show ?thesis using m(1) merged_filtered [OF m(4)] by blast
  qed
qed

theorem schedule_batch_aligned_witness:
  "\<exists>sa sb b1 other1 b2. merge_batch (sample_batch [sample_decode_req 0 ''a'' 1] [1] sa) (sample_batch [sample_decode_req 0 ''b'' 2] [2] sb) = Inr (b1, other1)
     \<and> filter_batch [''a''] None b1 = Inr b2 \<and> map sq_rid (bt_reqs b2) = [''b''] \<and> bt_req_pool_indices b2 = [2]
     \<and> keep_list [''a''] b1 = [1] \<and> bt_output_ids b2 = Some [1]"
proof -
  let ?S = "(\<lambda>s. 0, False, False, 2) :: samp_config" and ?rows = "fresh_rows [sample_samp_req]"
  obtain s where s: "samp_rep (\<lambda>s. 0) False False 2 ?rows s" using sample_sampling [of 0] by auto
  let ?a = "sample_batch [sample_decode_req 0 ''a'' 1] [1] s" and ?b = "sample_batch [sample_decode_req 0 ''b'' 2] [2] s"
  have ab: "batch_ok ?S ?rows ?a" "batch_ok ?S ?rows ?b"
    using sample_batch_ok [where idx = "[1]" and rids = "[''a'']" and x = 0 and samp = s]
      sample_batch_ok [where idx = "[2]" and rids = "[''b'']" and x = 0 and samp = s] s by simp_all
  have h: "bt_reqs ?a \<noteq> []" "bt_reqs ?b \<noteq> []" "samp_reqs_ok ?S {} (?rows @ ?rows)" "mergeable ?a ?b"
    using sample_req_ok by (simp_all add: samp_reqs_ok_def fresh_rows_def mergeable_def sample_batch_def)
  then obtain b1 o1 b2 where r: "merge_batch ?a ?b = Inr (b1, o1)" "filter_batch [''a''] None b1 = Inr b2"
     "bt_reqs b2 = filter (\<lambda>r. \<not> sq_finished r \<and> sq_rid r \<notin> set [''a'']) (bt_reqs ?a @ bt_reqs ?b)"
     "bt_reqs b2 \<noteq> [] \<longrightarrow> batch_ok ?S (map ((!) (?rows @ ?rows)) (keep_list [''a''] b1)) b2 \<and> rows_picked (keep_list [''a''] b1) ?a ?b b2"
    using schedule_batch_aligned [OF ab, where excl = "[''a'']"] by blast
  have rs: "bt_reqs b2 = [sample_decode_req 0 ''b'' 2]" unfolding r(3) by (simp add: sample_batch_def)
  then have "tensors_ok b2" using r(4) by (simp add: batch_ok_def)
  then have "bt_req_pool_indices b2 = [2]" using rs by (auto simp: tensors_ok_def row_aligned_def Let_def length_Suc_conv)
  moreover have "map sq_rid (bt_reqs b2) = [''b'']" using rs by simp
  moreover have "bt_reqs b1 = bt_reqs ?a @ bt_reqs ?b" using merge_batch_ok [OF ab h] r(1) by (auto simp: merged_def)
  then have kl: "keep_list [''a''] b1 = [1]" by (simp add: keep_list_def sample_batch_def)
  moreover have "bt_output_ids b2 = Some [1]" using r(4) rs unfolding kl by (simp add: rows_picked_def picked_opt_def picked_def sample_batch_def)
  ultimately show ?thesis using r(1,2) by - (intro exI conjI)
qed

text \<open>
  C14: Retraction ends and makes room. From a batch whose requests own their memory, the loop of
  \<open>retract_decode\<close> takes requests from the end of its order (those with the least output
  and then the longest input are retracted first) until the next decode step fits, gives back
  exactly the pages of the requests it takes out and returns those for the waiting queue. If more than one
  request ran, at least one is retracted. The remaining batch is aligned, its requests still own their
  memory and the allocator has the slots they need next. A request is aborted only when it is the
  last one left and, after the loop, the free slots and all slots the cache can evict together are
  fewer than it alone needs (\<open>no_room\<close>). The new estimate of the output ratio is between 0 and 1.
\<close>

theorem retract_decode_makes_room:
  assumes "batch_ok S rows b" "mem_inv env U G {..<length (bt_reqs b)} (bt_reqs b, pool, c)" "bt_reqs b \<noteq> []"
    and "\<forall>r\<in>set (bt_reqs b). 0 \<le> sq_max_new_tokens r"
  shows "\<exists>keep ab retr ratio b' pool' c' U'.
     retract_decode env b pool c = Inr (map (\<lambda>i. retracted_req (bt_reqs b ! i)) retr, ratio, map (\<lambda>i. aborted_req (bt_reqs b ! i)) ab, b', pool', c')
   \<and> retract_order env (bt_reqs b) = keep @ ab @ rev retr \<and> (1 < length (bt_reqs b) \<longrightarrow> retr \<noteq> [])
   \<and> bt_reqs b' = map ((!) (bt_reqs b)) keep \<and> rc_enabled c' \<and> rc_same c c' \<and> rc_slots c' (content c') U'
   \<and> others c' U' = others c U - (\<Union>i\<in>set (ab @ retr). req_pages c (G i)) \<and> rp_req_to_token pool' = rp_req_to_token pool
   \<and> (if keep = [] then length ab = 1
      else ab = [] \<and> batch_ok S (map ((!) rows) keep) b' \<and> filtered keep b b'
        \<and> mem_inv env U' (\<lambda>j. G (keep ! j)) {..<length keep} (bt_reqs b', pool', c')
        \<and> decode_need c' (bt_reqs b') \<le> kv_available_size (rc_allocator c'))
   \<and> 0 \<le> ratio \<and> ratio \<le> 1
   \<and> (\<exists>reqs1 pool1 c1. retract_loop env True (retract_order env (bt_reqs b)) [] (bt_reqs b, pool, c) = Inr (keep @ ab, retr, (reqs1, pool1, c1))
        \<and> rc_same c c1 \<and> (\<forall>i. ab = [i] \<longrightarrow> no_room c1 [bt_reqs b ! i]))"
  by (rule retract_decode_ok [OF assms])

theorem retract_decode_makes_room_witness:
  "\<exists>samp c retracted ratio aborted b' pool' c'.
     retract_decode sample_env (sample_batch (sample_two (rc_root c)) [1, 2] samp) sample_decode_pool c
       = Inr (retracted, ratio, aborted, b', pool', c')
     \<and> length retracted = 1 \<and> length aborted + length (bt_reqs b') = 1"
proof -
  let ?S = "(\<lambda>s. 0, False, False, 2) :: samp_config" and ?rows = "fresh_rows [sample_samp_req, sample_samp_req]"
  obtain samp where s: "samp_rep (\<lambda>s. 0) False False 2 ?rows samp" using sample_sampling [of 1] by auto
  obtain c where c: "mem_inv sample_env {2, 3, 4, 5, 6, 7, 8, 9} sample_pages {..<2} (sample_two (rc_root c), sample_decode_pool, c)"
    using sample_decode_cache by blast
  let ?b = "sample_batch (sample_two (rc_root c)) [1, 2] samp"
  have rs: "bt_reqs ?b = sample_two (rc_root c)" by (simp add: sample_batch_def)
  have ok: "batch_ok ?S ?rows ?b" using sample_batch_ok [where idx = "[1, 2]" and rids = "[''a'', ''b'']" and x = "rc_root c" and samp = samp] s by simp
  have m: "mem_inv sample_env {2, 3, 4, 5, 6, 7, 8, 9} sample_pages {..<length (bt_reqs ?b)} (bt_reqs ?b, sample_decode_pool, c)"
    "bt_reqs ?b \<noteq> []" "\<forall>r\<in>set (bt_reqs ?b). 0 \<le> sq_max_new_tokens r" using c unfolding rs by (simp_all add: numeral_2_eq_2)
  obtain keep ab retr ratio b' pool' c' U' where r:
    "retract_decode sample_env ?b sample_decode_pool c = Inr (map (\<lambda>i. retracted_req (bt_reqs ?b ! i)) retr, ratio, map (\<lambda>i. aborted_req (bt_reqs ?b ! i)) ab, b', pool', c')"
    "retract_order sample_env (bt_reqs ?b) = keep @ ab @ rev retr" "1 < length (bt_reqs ?b) \<longrightarrow> retr \<noteq> []" "bt_reqs b' = map ((!) (bt_reqs ?b)) keep"
    "if keep = [] then length ab = 1
      else ab = [] \<and> batch_ok ?S (map ((!) ?rows) keep) b' \<and> filtered keep ?b b'
        \<and> mem_inv sample_env U' (\<lambda>j. sample_pages (keep ! j)) {..<length keep} (bt_reqs b', pool', c')
        \<and> decode_need c' (bt_reqs b') \<le> kv_available_size (rc_allocator c')"
    using retract_decode_makes_room [OF ok m] by (elim exE conjE) (rule that, assumption+)
  have "length keep + length ab + length retr = 2" using retract_order_perm(3) [of sample_env "bt_reqs ?b"] unfolding r(2) by (simp add: sample_batch_def)
  moreover have "0 < length retr" using r(3) rs by simp
  moreover have "if keep = [] then length ab = 1 else ab = [] \<and> 0 < length keep" using r(5) by (auto split: if_splits)
  ultimately have "length retr = 1 \<and> length ab + length keep = 1" by (cases keep; cases retr) (simp_all, linarith?)
  then show ?thesis using r(1,4) by (metis length_map)
qed

text \<open>
  C12: A decode step never runs out of memory and loses no request. If the running batch is aligned
  and its unfinished requests own their pages (each the pages and the row it uses, no page or row
  shared beyond the locked cache prefix), \<open>update_running_batch\<close> returns normally, whether it
  evicts, retracts or aborts on the way: none of its exceptions, the out-of-memory error of
  \<open>alloc_for_decode\<close> among them, can be raised. Afterwards every request in the batch has its
  next slot and owns its memory again once the sampled token is appended, slots that belonged to
  nobody in the batch are untouched, the waiting queue respects its limit, and every
  unfinished request runs, waits or was reported as aborted, exactly once.
\<close>

theorem decode_step_never_out_of_memory:
  assumes "decode_ready S rows env cfg U G s"
  shows "\<exists>s'. update_running_batch env cfg test s = Inr s' \<and> queue_ok cfg (ds_waiting_queue s')
     \<and> step_safe S env (others (ds_tree_cache s) U - (\<Union>i\<in>set (keep_list [] (ds_running_batch s)). req_pages (ds_tree_cache s) (G i))) s'
     \<and> all_rids s' = mset (map sq_rid (filter (\<lambda>r. \<not> sq_finished r) (bt_reqs (ds_running_batch s))))
          + mset (map sq_rid (ds_waiting_queue s)) + mset (ds_aborted s)"
  by (rule decode_step_ok [OF assms])

definition sample_decode_state :: "rcache \<Rightarrow> sampling_batch \<Rightarrow> decode_state" where
  "sample_decode_state c samp = \<lparr>ds_running_batch = sample_batch (sample_two (rc_root c)) [1, 2] samp, ds_req_to_token_pool = sample_decode_pool,
     ds_tree_cache = c, ds_waiting_queue = [], ds_aborted = [], ds_num_retracted_reqs = 0, ds_new_token_ratio = 1 / 2,
     ds_new_token_ratio_decay = 1 / 10, ds_min_new_token_ratio = 1 / 10\<rparr>"

abbreviation sample_queue_cfg :: queue_config where
  "sample_queue_cfg \<equiv> \<lparr>qc_enable_priority_scheduling = False, qc_schedule_low_priority_values_first = False,
       qc_abort_on_priority_when_disabled = False, qc_max_queued_requests = Some 2\<rparr>"

lemma sample_decode_ready:
  "\<exists>samp c. decode_ready (\<lambda>s. 0, False, False, 2) (fresh_rows [sample_samp_req, sample_samp_req]) sample_env sample_queue_cfg
     {2, 3, 4, 5, 6, 7, 8, 9} sample_pages (sample_decode_state c samp)"
proof -
  let ?S = "(\<lambda>s. 0, False, False, 2) :: samp_config" and ?rows = "fresh_rows [sample_samp_req, sample_samp_req]"
  obtain samp where s: "samp_rep (\<lambda>s. 0) False False 2 ?rows samp" using sample_sampling [of 1] by auto
  obtain c where c: "mem_inv sample_env {2, 3, 4, 5, 6, 7, 8, 9} sample_pages {..<2} (sample_two (rc_root c), sample_decode_pool, c)"
    using sample_decode_cache by blast
  let ?s = "sample_decode_state c samp" and ?b = "sample_batch (sample_two (rc_root c)) [1, 2] samp"
  have rs: "bt_reqs ?b = sample_two (rc_root c)" by (simp add: sample_batch_def)
  have keep: "keep_list [] ?b = [0, 1]" unfolding keep_list_def rs by (simp add: upt_rec)
  have ok: "batch_ok ?S ?rows ?b" using sample_batch_ok [where idx = "[1, 2]" and rids = "[''a'', ''b'']" and x = "rc_root c" and samp = samp] s by simp
  have "set [0, 1] = {..<2::nat}" by auto
  then have m: "mem_inv sample_env {2, 3, 4, 5, 6, 7, 8, 9} sample_pages (set (keep_list [] ?b)) (bt_reqs ?b, sample_decode_pool, c)"
    using c unfolding keep rs by simp
  have run: "runnable sample_decode_pool (map ((!) (bt_reqs ?b)) (keep_list [] ?b))"
    unfolding keep rs by (simp add: runnable_def sample_decode_pool_def)
  have toks: "decode_toks_ok ?S ?b" by (simp add: decode_toks_ok_def sample_batch_def)
  have rest: "\<not> bt_is_encoder_decoder ?b" "length (bt_reqs ?b) \<le> length (de_uninit sample_env)" "queue_ok sample_queue_cfg []"
     "distinct (map sq_rid (bt_reqs ?b @ []))" "\<forall>r\<in>set (bt_reqs ?b). 0 \<le> sq_max_new_tokens r"
    unfolding rs by (simp_all add: sample_env_def queue_ok_def) (simp add: sample_batch_def)
  have "decode_ready ?S ?rows sample_env sample_queue_cfg {2, 3, 4, 5, 6, 7, 8, 9} sample_pages ?s"
    using ok m run toks rest unfolding decode_ready_def by (simp add: sample_decode_state_def)
  then show ?thesis by blast
qed

theorem decode_step_never_out_of_memory_witness:
  "\<exists>samp c s' retracted. update_running_batch sample_env sample_queue_cfg False (sample_decode_state c samp) = Inr s'
     \<and> update_running_batch sample_env sample_queue_cfg True (sample_decode_state c samp) = Inr retracted
     \<and> all_rids s' = {#''a'', ''b''#} \<and> all_rids retracted = {#''a'', ''b''#}"
proof -
  obtain samp c where r: "decode_ready (\<lambda>s. 0, False, False, 2) (fresh_rows [sample_samp_req, sample_samp_req]) sample_env sample_queue_cfg
     {2, 3, 4, 5, 6, 7, 8, 9} sample_pages (sample_decode_state c samp)" using sample_decode_ready by blast
  let ?s = "sample_decode_state c samp" and ?b = "sample_batch (sample_two (rc_root c)) [1, 2] samp"
  have rs: "bt_reqs ?b = sample_two (rc_root c)" by (simp add: sample_batch_def)
  from decode_step_never_out_of_memory [OF r, of False] decode_step_never_out_of_memory [OF r, of True]
  obtain s' r where s': "update_running_batch sample_env sample_queue_cfg False ?s = Inr s'" "update_running_batch sample_env sample_queue_cfg True ?s = Inr r"
      "all_rids s' = mset (map sq_rid (filter (\<lambda>r. \<not> sq_finished r) (bt_reqs ?b)))" "all_rids r = mset (map sq_rid (filter (\<lambda>r. \<not> sq_finished r) (bt_reqs ?b)))"
    by (auto simp: sample_decode_state_def)
  then have "all_rids s' = {#''a'', ''b''#}" "all_rids r = {#''a'', ''b''#}" unfolding rs by simp_all
  with s'(1,2) show ?thesis by - (rule exI, rule exI, rule exI, rule exI, intro conjI)
qed

end
