(* ===== verification/Extend_Props.thy ===== *)
theory Extend_Props
  imports Extend_Safe Decode_Props
begin

text \<open>
  The properties of the prefill path: the two implementations of \<open>write_cache_indices\<close> agree, and
  preparing a prefill batch gives every request its memory.
\<close>

section \<open>Writing the rows\<close>

text \<open>
  C28: \<open>write_cache_indices\<close> writes the same rows with the kernel as with the loop over slices, for
  every attention backend and whatever a masked-out load returns. When the requests have
  different rows that are long enough, it succeeds, row \<open>i\<close> of the batch starts with the cached
  prefix of the request followed by its share of the new slots, in the order of the batch, the rest
  of the row and all other rows are unchanged.
\<close>

theorem write_cache_indices_backend_independent:
  assumes "length pre = length idx" "length seq = length idx" "length ext = length idx" "length pfx = length idx" "distinct idx"
    and "\<forall>row\<in>set (rp_req_to_token pool). length row = rp_max_context_len pool"
    and "\<forall>i<length idx. idx ! i < length (rp_req_to_token pool) \<and> pre ! i \<le> seq ! i \<and> seq ! i \<le> rp_max_context_len pool
           \<and> length (pfx ! i) = pre ! i \<and> ext ! i = seq ! i - pre ! i"
    and "sum_list ext \<le> length out"
  shows "\<exists>rows. (\<forall>backend oob. write_cache_indices backend oob out idx pre seq ext pfx pool = Inr (pool\<lparr>rp_req_to_token := rows\<rparr>))
     \<and> length rows = length (rp_req_to_token pool)
     \<and> (\<forall>i<length idx. rows ! (idx ! i) = pfx ! i @ py_slice (sum_list (take i ext)) (sum_list (take i ext) + ext ! i) out
           @ drop (seq ! i) (rp_req_to_token pool ! (idx ! i)))
     \<and> (\<forall>q. q \<notin> set idx \<longrightarrow> rows ! q = rp_req_to_token pool ! q)"
proof -
  let ?rows = "rp_req_to_token pool" and ?es = "write_entries idx pre seq ext pfx"
  note C = write_entries_cols [OF assms(1-4)]
  have ok: "\<forall>x\<in>set ?es. entry_ok (length ?rows) (rp_max_context_len pool) x"
  proof
    fix x assume "x \<in> set ?es"
    then obtain i where i: "i < length idx" "x = ?es ! i" using C(6) by (metis in_set_conv_nth)
    then show "entry_ok (length ?rows) (rp_max_context_len pool) x" using C(7) [OF i(1)] assms(7) by (simp add: entry_ok_def)
  qed
  have df: "distinct (map fst ?es)" "\<forall>x\<in>set ?es. fst x < length ?rows" using assms(5) ok C(1) by (simp, auto simp: entry_ok_def)
  have se: "0 + sum_list (map entry_ext ?es) \<le> length out" using C(4) assms(8) by simp
  note W = write_rows_ok [OF ok assms(6) se]
  note R = write_rows_at [OF df, of 0 out]
  have "write_rows 0 out ?es ?rows ! (idx ! i) = pfx ! i @ py_slice (sum_list (take i ext)) (sum_list (take i ext) + ext ! i) out
      @ drop (seq ! i) (?rows ! (idx ! i))" if i: "i < length idx" for i
  proof -
    have "sum_list (map entry_ext (take i ?es)) = sum_list (take i ext)" using arg_cong [OF C(4), of "take i"] by (simp add: take_map)
    then show ?thesis using R(1) [rule_format, of i] C(6,7) i by simp
  qed
  moreover have "\<forall>q. q \<notin> set idx \<longrightarrow> write_rows 0 out ?es ?rows ! q = ?rows ! q" using R(2) C(1) by simp
  moreover have "write_cache_indices backend oob out idx pre seq ext pfx pool = Inr (pool\<lparr>rp_req_to_token := write_rows 0 out ?es ?rows\<rparr>)" for backend oob
    by (rule write_cache_indices_rows [OF assms(1-4,6) ok assms(8)])
  ultimately show ?thesis using W by blast
qed

theorem write_cache_indices_backend_independent_witness:
  "\<exists>rows. write_cache_indices ''triton'' (\<lambda>_. 99) [31, 32, 33] [2, 1] [2, 0] [3, 2] [1, 2] [[7, 8], []] (req_pool_init 2 4) = Inr ((req_pool_init 2 4)\<lparr>rp_req_to_token := rows\<rparr>)
     \<and> write_cache_indices ''torch_native'' (\<lambda>_. 0) [31, 32, 33] [2, 1] [2, 0] [3, 2] [1, 2] [[7, 8], []] (req_pool_init 2 4) = Inr ((req_pool_init 2 4)\<lparr>rp_req_to_token := rows\<rparr>)
     \<and> rows ! 2 = [7, 8, 31, 0] \<and> rows ! 1 = [32, 33, 0, 0]"
proof -
  have "\<forall>i<length [2, 1::nat]. [2, 1] ! i < length (rp_req_to_token (req_pool_init 2 4)) \<and> [2, 0] ! i \<le> ([3, 2] ! i :: nat) \<and> [3, 2] ! i \<le> rp_max_context_len (req_pool_init 2 4)
     \<and> length ([[7, 8], []::int list] ! i) = [2, 0] ! i \<and> [1, 2::nat] ! i = [3, 2] ! i - [2, 0] ! i"
    by (auto simp: less_Suc_eq req_pool_init_def numeral_2_eq_2)
  moreover have "\<forall>row\<in>set (rp_req_to_token (req_pool_init 2 4)). length row = rp_max_context_len (req_pool_init 2 4)" by (simp add: req_pool_init_def)
  ultimately obtain rows where r: "\<forall>backend oob. write_cache_indices backend oob [31, 32, 33] [2, 1] [2, 0] [3, 2] [1, 2] [[7, 8], []] (req_pool_init 2 4)
        = Inr ((req_pool_init 2 4)\<lparr>rp_req_to_token := rows\<rparr>)"
     "\<forall>i<length [2, 1::nat]. rows ! ([2, 1] ! i) = [[7, 8], []] ! i @ py_slice (sum_list (take i [1, 2])) (sum_list (take i [1, 2]) + [1, 2] ! i) [31, 32, 33]
           @ drop ([3, 2] ! i) (rp_req_to_token (req_pool_init 2 4) ! ([2, 1] ! i))"
    using write_cache_indices_backend_independent [of "[2, 0]" "[2, 1]" "[3, 2]" "[1, 2]" "[[7, 8], []]" "req_pool_init 2 4" "[31, 32, 33]"] by auto
  have "rows ! 2 = [7, 8, 31, 0]" "rows ! 1 = [32, 33, 0, 0]"
    using r(2) [rule_format, of 0] r(2) [rule_format, of 1] by (simp_all add: py_slice_def req_pool_init_def numeral_eq_Suc)
  with r(1) show ?thesis by blast
qed

section \<open>Preparing a prefill batch\<close>

text \<open>
  C13: A prefill batch gets all the memory it needs and disturbs nobody. If its requests were admitted
  (each holds its locked prefix, beside the running requests that own their memory), there are
  rows for the new ones, and the free and the evictable tokens suffice for the pages they need, then
  \<open>prepare_for_extend\<close> on a new batch succeeds, with either allocator and for every attention backend.
  The tensors of the batch are aligned with its requests; there is one slot for every input token;
  every request has a row of its own, in which the slots of its prefix are followed by the new ones; it
  owns the pages of all its tokens, disjoint from those of every other request, running ones
  included, which keep theirs; and the rows of others are unchanged.
\<close>

theorem prefill_extend_owns:
  assumes "extend_ready P env xe U G used running reqs pool c" "blank_batch blank"
  shows "\<exists>b' pool' c' U' G' idx segs. prepare_for_extend env xe (init_new blank ov reqs) pool c = Inr (b', pool', c')
     \<and> batch_ok (samp_config_of xe) (fresh_rows (map br_samp reqs)) b' \<and> map sq_rid (bt_reqs b') = map sq_rid reqs
     \<and> bt_input_ids b' = Some (concat (map extend_input_ids reqs)) \<and> bt_out_cache_loc b' = Some (concat segs)
     \<and> length (concat segs) = length (concat (map extend_input_ids reqs)) \<and> bt_req_pool_indices b' = idx
     \<and> extend_rows reqs pool used idx segs pool' \<and> others c U \<subseteq> others c' U'
     \<and> mem_inv env U' G' {..<length running + length reqs} (running @ bt_reqs b', pool', c')"
proof -
  obtain b' pool' c' U' G' idx segs where p: "prepare_for_extend env xe (init_new blank ov reqs) pool c = Inr (b', pool', c')"
     "batch_ok (samp_config_of xe) (fresh_rows (map br_samp reqs)) b'" "bt_reqs b' = map2 extended_req idx reqs"
     "bt_input_ids b' = Some (concat (map extend_input_ids reqs))" "bt_out_cache_loc b' = Some (concat segs)"
     "bt_req_pool_indices b' = idx" "extend_rows reqs pool used idx segs pool'" "others c U \<subseteq> others c' U'"
     "mem_inv env U' G' {..<length running + length reqs} (running @ bt_reqs b', pool', c')"
    using prepare_for_extend_ok [OF assms, of ov] by (elim exE conjE) (rule that, assumption+)
  have l: "length idx = length reqs" "map length segs = map ext_len reqs" using p(7) by (simp_all add: extend_rows_def)
  have "map sq_rid (bt_reqs b') = map sq_rid reqs" unfolding p(3) using l(1) by (intro nth_equalityI) simp_all
  moreover have "length (concat segs) = length (concat (map extend_input_ids reqs))"
    using l(2) by (simp add: length_concat comp_def extend_input_ids_def)
  ultimately show ?thesis using p(1,2,4-9) by blast
qed

definition sample_extend_env :: extend_env where
  "sample_extend_env = \<lparr>xe_backend = ''triton'', xe_vocab_size = 2, xe_hash = (\<lambda>_. 0), xe_penalizers = order1, xe_deterministic = False,
     xe_custom_logit_processor = False, xe_is_dllm = False\<rparr>"

definition sample_new_req :: "nat \<Rightarrow> batch_req" where
  "sample_new_req x = (sample_decode_req x ''b'' 0)\<lparr>sq_mem := sample_req\<lparr>rq_origin_input_ids := [7, 9], rq_fill_ids := [7, 9], rq_kv_committed_len := 0,
     rq_kv_allocated_len := 0, rq_last_node := Some x\<rparr>, sq_extend_input_len := 2\<rparr>"

definition sample_extend_pool :: req_pool where
  "sample_extend_pool = (req_pool_init 2 4)\<lparr>rp_req_to_token := [[0, 0, 0, 0], [6, 7, 0, 0], [0, 0, 0, 0]], rp_free_slots := [2]\<rparr>"

lemma owners_root:
  assumes en: "rc_enabled c" and I: "finite I" and o: "\<And>i. i \<in> I \<Longrightarrow> owns_kv sha c U pool (rs i) (G i)" "\<And>i. i \<in> I \<Longrightarrow> rq_last_node (rs i) = Some (rc_root c)"
    and d: "\<And>i j. i \<in> I \<Longrightarrow> j \<in> I \<Longrightarrow> i \<noteq> j \<Longrightarrow> set (G i) \<inter> set (G j) = {} \<and> rq_req_pool_idx (rs i) \<noteq> rq_req_pool_idx (rs j)"
  shows "owners sha c U pool rs G I"
proof -
  obtain L pre vals where w: "rc_wf c L pre vals" "live c = L" using en by (metis rc_enabled_def rc_inv_wfE)
  have "int (card {i \<in> I. rq_last_node (rs i) = Some x}) \<le> held c (live c) x" if x: "x \<in> live c - {rc_root c}" for x
  proof -
    have e: "{i \<in> I. rq_last_node (rs i) = Some x} = {}" using o(2) x by auto
    show ?thesis unfolding e using w x by (simp add: rc_wf_def rc_acct_def)
  qed
  then show ?thesis using I o(1) d unfolding owners_def by blast
qed

lemma sample_extend_ready:
  "\<exists>c. extend_ready {} sample_env sample_extend_env {2, 3, 4, 5, 6, 7} (\<lambda>i. if i = 0 then [3] else []) {1} [sample_decode_req (rc_root c) ''a'' 1]
     [sample_new_req (rc_root c)] sample_extend_pool c"
proof -
  obtain c where c: "rc_enabled c" "rc_page_size c = 2" "\<not> rc_is_eagle c" "\<not> rc_enable_kv_cache_events c" "rc_slots c (content c) {2, 3, 4, 5}"
    using sample_cache_ok by blast
  let ?a = "sample_alloc\<lparr>al_free_pages := [4]\<rparr>" and ?U = "{2, 3, 4, 5, 6, 7} :: int set" and ?G = "\<lambda>i::nat. if i = 0 then [3] else [] :: int list"
  let ?c = "c\<lparr>rc_allocator := ?a\<rparr>" and ?x = "rc_root c"
  let ?run = "[sample_decode_req ?x ''a'' 1]" and ?new = "[sample_new_req ?x]"
  note au = alloc_upd [OF c(1), where a = ?a]
  have "{1..4} = {1, 2, 3, 4 :: int}" by auto
  moreover have "?U = slots_of 2 {1, 2, 3}" by (auto simp: slots_of_def)
  ultimately have kv: "kv_inv ?a ?U" "al_page_size ?a = 2"
    by (auto simp: kv_inv_def paged_inv_def sample_alloc_def paged_clear_def alloc_base_init_def num_pages_def page_set_def slots_of_def)
  then have sl: "rc_slots ?c (content ?c) ?U" using c(2,5) au(2) by (auto simp: rc_slots_def)
  have cs: "cache_slots 2 (content ?c) \<subseteq> {2, 3, 4, 5}" using c(2,5) au(2) by (simp add: rc_slots_def)
  obtain L pre vals where w: "rc_wf ?c L pre vals" "live ?c = L" using au(1) by (metis rc_enabled_def rc_inv_wfE)
  have root: "rc_root ?c \<in> live ?c" using w by (auto simp: rc_wf_def dest: rc_treeD(3))
  have pg: "page_slots 2 [3] = [6, 7]" "page_slots 2 [] = []" by (simp_all add: page_slots_def upt_rec)
  have kvs: "req_kv ?c ?U None [[7], [8]] [6, 7] 0 [3]" "req_kv ?c ?U None [] [] 0 []" using cs c(2) pg by (auto simp: req_kv_def fills_def)
  note key = aligned_units_def key_view_def maybe_to_bigram_view_def mk_key_def key_len_def key_iter_def page_floor_def key_ok_def rc_key_fits_def req_key_def req_ids_def
  have o: "owns_kv (\<lambda>xs. xs) ?c ?U (staged_pool sample_extend_pool ?new) (sq_mem (sample_decode_req ?x ''a'' 1)) [3]"
    "owns_kv (\<lambda>xs. xs) ?c ?U (staged_pool sample_extend_pool ?new) (with_row 3 0 (sq_mem (sample_new_req ?x))) []"
    using kvs root c(2-4) by (simp_all add: owns_kv_def pins_def key staged_pool_def sample_extend_pool_def sample_decode_req_def sample_new_req_def sample_req_def with_row_def)
  have two: "{..<2} = {0, 1 :: nat}" by auto
  have nr: "breq_prefix (sample_new_req ?x) = []" "breq_fill (sample_new_req ?x) = [7, 9]" "rq_req_pool_idx (sq_mem (sample_new_req ?x)) = None"
     "sq_extend_input_len (sample_new_req ?x) = 2" "br_samp (sample_new_req ?x) = sample_samp_req" "br_top_logprobs_num (sample_new_req ?x) = 0"
     "br_token_ids_logprob (sample_new_req ?x) = None" "req_ids (sq_mem (sample_new_req ?x)) = [7, 9]" "rq_last_node (sq_mem (sample_new_req ?x)) = Some ?x"
    by (simp_all add: sample_new_req_def sample_req_def req_ids_def)
  have l3: "length (rp_req_to_token sample_extend_pool) = 3" by (simp add: sample_extend_pool_def)
  have "owners (\<lambda>xs. xs) ?c ?U (staged_pool sample_extend_pool ?new) (\<lambda>i. sq_mem ((?run @ staged sample_extend_pool ?new) ! i)) ?G {..<2}"
    by (rule owners_root [OF au(1)]) (use o in \<open>auto simp: two l3 nr\<close>)
  moreover have "env_ok sample_env ?c" using c(2) by (simp add: env_ok_def sample_env_def enumerates_sorted)
  ultimately have m: "mem_inv sample_env ?U ?G {..<length ?run + length ?new} (?run @ staged sample_extend_pool ?new, staged_pool sample_extend_pool ?new, ?c)"
    using au(1) sl by (simp add: mem_inv_def sample_env_def numeral_2_eq_2)
  have ad: "admitted sample_env ?U ?G ?run ?new sample_extend_pool ?c" unfolding admitted_def using m nr by (simp add: sample_extend_pool_def)
  have rr: "rows_ready ?run ?new sample_extend_pool {1}"
    using nr by (auto simp: rows_ready_def Let_def sample_extend_pool_def req_pool_init_def pool_ok_def pool_available_size_def)
  have "extend_need ?c ?new \<le> kv_available_size (rc_allocator ?c)"
    using nr c(2) kv(2) by (simp add: extend_need_def page_start_def ceil_div_def kv_available_size_def base_available_size_def)
  moreover have "extend_req_ok sample_extend_env {} (sample_new_req ?x)" using nr sample_req_ok by (simp add: extend_req_ok_def sample_extend_env_def)
  ultimately have "extend_ready {} sample_env sample_extend_env ?U ?G {1} ?run ?new sample_extend_pool ?c"
    using ad rr nr sample_orders(1) by (simp add: extend_ready_def sample_extend_env_def sample_env_def)
  then show ?thesis using au by (intro exI [of _ ?c]) simp
qed

theorem prefill_extend_owns_witness:
  "\<exists>c samp b' pool' c' out. prepare_for_extend sample_env sample_extend_env (init_new ((sample_batch [] [] samp)\<lparr>bt_output_ids := None\<rparr>) False [sample_new_req (rc_root c)]) sample_extend_pool c
       = Inr (b', pool', c') \<and> bt_input_ids b' = Some [7, 9] \<and> bt_out_cache_loc b' = Some out \<and> length out = 2
     \<and> take 2 (rp_req_to_token pool' ! hd (bt_req_pool_indices b')) = out"
proof -
  obtain c where E: "extend_ready {} sample_env sample_extend_env {2, 3, 4, 5, 6, 7} (\<lambda>i. if i = 0 then [3] else []) {1} [sample_decode_req (rc_root c) ''a'' 1]
     [sample_new_req (rc_root c)] sample_extend_pool c" using sample_extend_ready by blast
  fix samp :: sampling_batch
  let ?blank = "(sample_batch [] [] samp)\<lparr>bt_output_ids := None\<rparr>" and ?new = "[sample_new_req (rc_root c)]"
  have B: "blank_batch ?blank" by (simp add: blank_batch_def sample_batch_def)
  have nr: "breq_prefix (sample_new_req x) = []" "breq_fill (sample_new_req x) = [7, 9]" for x by (simp_all add: sample_new_req_def sample_req_def)
  obtain b' pool' c' idx segs where p: "prepare_for_extend sample_env sample_extend_env (init_new ?blank False ?new) sample_extend_pool c = Inr (b', pool', c')"
     "bt_input_ids b' = Some (concat (map extend_input_ids ?new))" "bt_out_cache_loc b' = Some (concat segs)"
     "bt_req_pool_indices b' = idx" "extend_rows ?new sample_extend_pool {1} idx segs pool'"
    using prefill_extend_owns [OF E B, of False] by (elim exE conjE) (rule that, assumption+)
  have l: "length idx = 1" "map length segs = [2]" "\<exists>rest. rp_req_to_token pool' ! (idx ! 0) = segs ! 0 @ rest"
    using p(5) nr by (simp_all add: extend_rows_def)
  obtain i where i: "idx = [i]" using l(1) by (metis One_nat_def length_0_conv length_Suc_conv)
  obtain sg where sg: "segs = [sg]" "length sg = 2" using l(2) by (cases segs) auto
  have "take 2 (rp_req_to_token pool' ! hd (bt_req_pool_indices b')) = sg" using l(3) p(4) i sg by auto
  moreover have "bt_input_ids b' = Some [7, 9]" "bt_out_cache_loc b' = Some sg" using p(2,3) sg nr by (simp_all add: extend_input_ids_def)
  ultimately show ?thesis using p(1) sg(2) by blast
qed

end
