(* ===== verification/Req_Finish.thy ===== *)
theory Req_Finish
  imports Schedule_Batch
begin

text \<open>
  When a request ends: \<open>Req.check_finished\<close> of \<open>managers/schedule_batch.py\<close> with its checks of
  tokens, of the vocabulary and of stop strings. The tokenizer, the search for regular expressions
  and the grammars are third-party code and arguments; the state of a grammar is the list of tokens
  it has accepted. The stop tokens, sets in the code, are lists in the order of their iteration.
\<close>

section \<open>Environment\<close>

record finish_env =
  fe_decode :: "int list \<Rightarrow> string"
  fe_search :: "string \<Rightarrow> string \<Rightarrow> bool"
  fe_terminated :: "string \<Rightarrow> int list \<Rightarrow> bool"

text \<open>A parameter as the list it is iterated over; normalised parameters are lists.\<close>

definition py_strs :: "str_arg \<Rightarrow> string list res" where
  "py_strs x = (case x of NoStr \<Rightarrow> Inl TypeError | OneStr s \<Rightarrow> Inr (map (\<lambda>ch. [ch]) s) | ManyStr ss \<Rightarrow> Inr ss)"

text \<open>\<open>x in y\<close> on strings, \<open>xs[-k:]\<close> and \<open>xs[:k]\<close>.\<close>

fun str_in :: "string \<Rightarrow> string \<Rightarrow> bool" where
  "str_in x [] = (x = [])"
| "str_in x (ch # y) = (prefix x (ch # y) \<or> str_in x y)"

definition py_tail :: "nat \<Rightarrow> 'a list \<Rightarrow> 'a list" where
  "py_tail k xs = (if k = 0 then xs else drop (length xs - k) xs)"

definition py_take :: "int \<Rightarrow> 'a list \<Rightarrow> 'a list" where
  "py_take k xs = take (if k < 0 then length xs - nat (- k) else nat k) xs"

lemma str_in_iff: "str_in x y \<longleftrightarrow> sublist x y"
proof (induction y)
  case (Cons ch y)
  then show ?case by (auto simp: sublist_Cons_right)
qed auto

abbreviation breq_out :: "batch_req \<Rightarrow> int list" where
  "breq_out r \<equiv> rq_output_ids (sq_mem r)"

abbreviation breq_params :: "batch_req \<Rightarrow> rat sampling_params" where
  "breq_params r \<equiv> sr_params (br_samp r)"

definition output_ids_through_stop :: "batch_req \<Rightarrow> int list" where
  "output_ids_through_stop r = (case br_finished_len r of None \<Rightarrow> breq_out r | Some n \<Rightarrow> py_take n (breq_out r))"

section \<open>Stop strings\<close>

definition tail_str :: "finish_env \<Rightarrow> batch_req \<Rightarrow> string res" where
  "tail_str fe r =
     rbind (py_strs (sp_stop_strs (breq_params r))) (\<lambda>stop_strs.
     rbind (py_strs (sp_stop_regex_strs (breq_params r))) (\<lambda>stop_regex_strs.
     if stop_strs = [] \<and> stop_regex_strs = [] then Inr []
     else rbind (of_opt TypeError (sp_stop_str_max_len (breq_params r))) (\<lambda>m.
          rbind (of_opt TypeError (sp_stop_regex_max_len (breq_params r))) (\<lambda>m'.
          let max_len_tail_str = max (m + 1) (m' + 1); tail_len = min max_len_tail_str (length (breq_out r))
          in rbind (guard_res (br_has_tokenizer r) AttributeError) (\<lambda>_.
             Inr (fe_decode fe (py_tail tail_len (breq_out r))))))))"

definition stop_str_overlaps :: "string \<Rightarrow> string \<Rightarrow> bool" where
  "stop_str_overlaps tail stop_str \<longleftrightarrow> stop_str \<noteq> [] \<and>
     (str_in stop_str tail \<or> list_ex (\<lambda>i. py_tail i tail = take i stop_str) [1..<min (length tail) (length stop_str) + 1])"

definition check_match_stop_str_prefix :: "finish_env \<Rightarrow> batch_req \<Rightarrow> bool res" where
  "check_match_stop_str_prefix fe r =
     (case sp_stop_strs (breq_params r) of
        NoStr \<Rightarrow> Inr False
      | s \<Rightarrow> rbind (py_strs s) (\<lambda>stop_strs.
          if stop_strs = [] then Inr False
          else rbind (tail_str fe r) (\<lambda>tail.
               if tail = [] then Inr False else Inr (list_ex (stop_str_overlaps tail) stop_strs))))"

definition check_str_based_finish :: "finish_env \<Rightarrow> batch_req \<Rightarrow> (bool \<times> batch_req) res" where
  "check_str_based_finish fe r =
     rbind (py_strs (sp_stop_strs (breq_params r))) (\<lambda>stop_strs.
     rbind (py_strs (sp_stop_regex_strs (breq_params r))) (\<lambda>stop_regex_strs.
     if stop_strs = [] \<and> stop_regex_strs = [] then Inr (False, r)
     else rbind (tail_str fe r) (\<lambda>tail.
          case find (\<lambda>s. str_in s tail \<or> str_in s (br_decoded_text r)) stop_strs of
            Some s \<Rightarrow> Inr (True, r\<lparr>sq_finished_reason := Some (FINISH_MATCHED_STR s)\<rparr>)
          | None \<Rightarrow>
              (case find (\<lambda>s. fe_search fe s tail) stop_regex_strs of
                 Some s \<Rightarrow> Inr (True, r\<lparr>sq_finished_reason := Some (FINISHED_MATCHED_REGEX s)\<rparr>)
               | None \<Rightarrow> Inr (False, r)))))"

section \<open>Tokens\<close>

definition is_stop_token :: "batch_req \<Rightarrow> int \<Rightarrow> bool" where
  "is_stop_token r t \<longleftrightarrow> t \<in> set (or_default [] (sp_stop_token_ids (breq_params r))) \<or> t \<in> set (or_default [] (br_eos_token_ids r))
     \<or> br_has_tokenizer r \<and> (t = sr_eos_token_id (br_samp r) \<or> t \<in> set (or_default [] (sr_additional_stop_token_ids (br_samp r))))"

fun token_finish_loop :: "int \<Rightarrow> int list \<Rightarrow> batch_req \<Rightarrow> bool \<times> batch_req" where
  "token_finish_loop pos [] r = (False, r)"
| "token_finish_loop pos (t # ts) r =
     (if is_stop_token r t then (True, r\<lparr>sq_finished_reason := Some (FINISH_MATCHED_TOKEN t), br_finished_len := Some (pos + 1)\<rparr>)
      else token_finish_loop (pos + 1) ts r)"

definition check_token_based_finish :: "int list \<Rightarrow> batch_req \<Rightarrow> bool \<times> batch_req" where
  "check_token_based_finish new_accepted_tokens r =
     (if sq_ignore_eos r then (False, r)
      else token_finish_loop (int (length (breq_out r)) - int (length new_accepted_tokens)) new_accepted_tokens r)"

fun vocab_finish_loop :: "nat \<Rightarrow> int list \<Rightarrow> batch_req \<Rightarrow> bool \<times> batch_req" where
  "vocab_finish_loop offset [] r = (False, r)"
| "vocab_finish_loop offset (t # ts) r =
     (if t > int (br_vocab_size r) \<or> t < 0
      then let out1 = (case or_default [] (sp_stop_token_ids (breq_params r)) of [] \<Rightarrow> breq_out r | s # _ \<Rightarrow> (breq_out r)[offset := s]);
               out2 = (case or_default [] (br_eos_token_ids r) of [] \<Rightarrow> out1 | s # _ \<Rightarrow> out1[offset := s])
           in (True, r\<lparr>sq_mem := (sq_mem r)\<lparr>rq_output_ids := out2\<rparr>, sq_finished_reason := Some (FINISH_MATCHED_STR ''NaN happened''),
                       br_finished_len := Some (int offset + 1)\<rparr>)
      else vocab_finish_loop (offset + 1) ts r)"

definition check_vocab_boundary_finish :: "int list \<Rightarrow> batch_req \<Rightarrow> bool \<times> batch_req" where
  "check_vocab_boundary_finish new_accepted_tokens r =
     vocab_finish_loop (length (breq_out r) - length new_accepted_tokens) new_accepted_tokens r"

section \<open>The check\<close>

definition check_finished :: "finish_env \<Rightarrow> nat \<Rightarrow> batch_req \<Rightarrow> batch_req res" where
  "check_finished fe new_accepted_len r =
     (if sq_finished r then Inr r
      else case sq_to_finish r of
        Some reason \<Rightarrow> Inr (r\<lparr>sq_finished_reason := Some reason, sq_to_finish := None\<rparr>)
      | None \<Rightarrow>
          if int (length (breq_out r)) \<ge> sq_max_new_tokens r
          then Inr (r\<lparr>sq_finished_reason := Some (FINISH_LENGTH (sq_max_new_tokens r)), br_finished_len := Some (sq_max_new_tokens r)\<rparr>)
          else if sq_has_grammar r \<and> fe_terminated fe (sq_rid r) (br_grammar_tokens r)
          then if breq_out r = [] then Inl IndexError
               else Inr (r\<lparr>sq_finished_reason := Some (FINISH_MATCHED_TOKEN (last (breq_out r)))\<rparr>)
          else let new_accepted_tokens = py_tail new_accepted_len (breq_out r)
               in case check_token_based_finish new_accepted_tokens r of
                    (True, r1) \<Rightarrow> Inr r1
                  | (False, r1) \<Rightarrow>
                      (case check_vocab_boundary_finish new_accepted_tokens r1 of
                         (True, r2) \<Rightarrow> Inr r2
                       | (False, r2) \<Rightarrow> rbind (check_str_based_finish fe r2) (\<lambda>(_, r3). Inr r3)))"

definition update_reasoning_tokens :: "int list \<Rightarrow> int \<Rightarrow> batch_req \<Rightarrow> batch_req" where
  "update_reasoning_tokens token_id think_end_id r =
     (if br_is_reasoning_over r then r
      else if think_end_id \<in> set token_id
      then r\<lparr>sq_mem := (sq_mem r)\<lparr>rq_reasoning_tokens := rq_reasoning_tokens (sq_mem r) + length (takeWhile (\<lambda>t. t \<noteq> think_end_id) token_id) + 1\<rparr>,
             br_is_reasoning_over := True\<rparr>
      else r\<lparr>sq_mem := (sq_mem r)\<lparr>rq_reasoning_tokens := rq_reasoning_tokens (sq_mem r) + length token_id\<rparr>\<rparr>)"

definition maybe_update_reasoning_tokens :: "int option \<Rightarrow> int \<Rightarrow> batch_req \<Rightarrow> batch_req" where
  "maybe_update_reasoning_tokens think_end_id next_token_id r =
     (case think_end_id of
        Some e \<Rightarrow> if br_require_reasoning r then update_reasoning_tokens [next_token_id] e r else r
      | None \<Rightarrow> r)"

end
