(* ===== verification/Free_Group.thy ===== *)
theory Free_Group
  imports Kv_Release
begin

text \<open>
  Between \<open>free_group_begin\<close> and \<open>free_group_end\<close> the allocator only collects what is freed. The
  operations on the cache do not read the allocator, so a sequence of releases inside a group does to
  the cache what it does outside, and the frees executed together at the end return the same slots.
\<close>

section \<open>The cache does not read the allocator\<close>

definition with_alloc :: "kv_alloc \<Rightarrow> rcache \<Rightarrow> rcache" where
  "with_alloc a c = c\<lparr>rc_allocator := a\<rparr>"

lemma with_alloc_fields [simp]:
  "rc_disable (with_alloc a c) = rc_disable c" "rc_page_size (with_alloc a c) = rc_page_size c" "rc_is_eagle (with_alloc a c) = rc_is_eagle c"
  "rc_disable_finished_insert (with_alloc a c) = rc_disable_finished_insert c"
  "rc_enable_kv_cache_events (with_alloc a c) = rc_enable_kv_cache_events c" "rc_heap (with_alloc a c) = rc_heap c"
  "rc_counter (with_alloc a c) = rc_counter c" "rc_root (with_alloc a c) = rc_root c" "rc_evictable_size (with_alloc a c) = rc_evictable_size c"
  "rc_protected_size (with_alloc a c) = rc_protected_size c" "rc_evictable_leaves (with_alloc a c) = rc_evictable_leaves c"
  "rc_kv_event_queue (with_alloc a c) = rc_kv_event_queue c" "rc_allocator (with_alloc a c) = a"
  by (simp_all add: with_alloc_def)

lemma with_alloc_upd [simp]:
  "(with_alloc a c)\<lparr>rc_heap := h\<rparr> = with_alloc a (c\<lparr>rc_heap := h\<rparr>)" "(with_alloc a c)\<lparr>rc_counter := k\<rparr> = with_alloc a (c\<lparr>rc_counter := k\<rparr>)"
  "(with_alloc a c)\<lparr>rc_evictable_size := z\<rparr> = with_alloc a (c\<lparr>rc_evictable_size := z\<rparr>)"
  "(with_alloc a c)\<lparr>rc_protected_size := z\<rparr> = with_alloc a (c\<lparr>rc_protected_size := z\<rparr>)"
  "(with_alloc a c)\<lparr>rc_evictable_leaves := L\<rparr> = with_alloc a (c\<lparr>rc_evictable_leaves := L\<rparr>)"
  "(with_alloc a c)\<lparr>rc_kv_event_queue := q\<rparr> = with_alloc a (c\<lparr>rc_kv_event_queue := q\<rparr>)"
  "with_alloc a (with_alloc b c) = with_alloc a c" "with_alloc (rc_allocator c) c = c"
  by (simp_all add: with_alloc_def)

definition with_alloc_res :: "kv_alloc \<Rightarrow> ('b \<times> rcache) res \<Rightarrow> ('b \<times> rcache) res" where
  "with_alloc_res a x = rbind x (\<lambda>(y, c). Inr (y, with_alloc a c))"

lemma with_alloc_res_Inr [simp]: "with_alloc_res a (Inr p) = Inr (fst p, with_alloc a (snd p))" "with_alloc_res a (Inl e) = Inl e"
  by (simp_all add: with_alloc_res_def split_beta)

lemma with_alloc_res_rbind [simp]: "with_alloc_res a (rbind x f) = rbind x (\<lambda>y. with_alloc_res a (f y))"
  by (cases x) simp_all

lemma rbind_with_alloc [simp]: "rbind (with_alloc_res a x) f = rbind x (\<lambda>p. f (fst p, with_alloc a (snd p)))"
  by (cases x) (auto simp: with_alloc_res_def)

lemma with_alloc_res_if [simp]: "with_alloc_res a (if P then x else y) = (if P then with_alloc_res a x else with_alloc_res a y)"
  by simp

lemma upd_node_alloc [simp]: "upd_node n f (with_alloc a c) = with_alloc a (upd_node n f c)"
  by (simp add: upd_node_def)

lemma new_tree_node_alloc [simp]: "new_tree_node now q (with_alloc a c) = (fst (new_tree_node now q c), with_alloc a (snd (new_tree_node now q c)))"
  by (simp add: new_tree_node_def)

lemma update_leaf_alloc [simp]: "update_leaf_status n (with_alloc a c) = with_alloc a (update_leaf_status n c)"
  by (simp add: update_leaf_status_def)

lemma split_node_alloc [simp]: "split_node now key child k (with_alloc a c) = with_alloc_res a (split_node now key child k c)"
  by (simp add: split_node_def Let_def split_beta)

lemma rbind_assoc: "rbind (rbind m f) g = rbind m (\<lambda>x. rbind (f x) g)"
  by (cases m) simp_all

lemma rbind_if: "rbind (if P then x else y) f = (if P then rbind x f else rbind y f)"
  by simp

lemma insert_loop_alloc:
  "insert_loop fuel now prio chunked node key v ck tot (with_alloc a c)
     = rbind (insert_loop fuel now prio chunked node key v ck tot c) (\<lambda>x. case x of (node', key', v', ck', tot', c') \<Rightarrow> Inr (node', key', v', ck', tot', with_alloc a c'))"
proof (induction fuel arbitrary: node key v ck tot c)
  case (Suc fuel)
  show ?case
  proof (cases "map_of (nd_children (nd c node)) ck")
    case (Some child)
    then show ?thesis using Suc by (simp add: Let_def split_beta rbind_assoc rbind_if cong: if_cong)
  qed simp
qed simp

lemma dec_lock_loop_alloc: "dec_lock_loop fuel node delta (with_alloc a c) = with_alloc_res a (dec_lock_loop fuel node delta c)"
  by (induction fuel arbitrary: node delta c) (simp_all add: Let_def)

lemma dec_lock_ref_alloc [simp]: "dec_lock_ref n (with_alloc a c) = with_alloc_res a (dec_lock_ref n c)"
  by (simp add: dec_lock_ref_def dec_lock_loop_alloc)

lemma ensure_hash_alloc: "ensure_hash_value sha n (with_alloc a c) = rbind (ensure_hash_value sha n c) (\<lambda>c'. Inr (with_alloc a c'))"
  by (simp add: ensure_hash_value_def rbind_assoc split: option.split)

lemma parent_hash_alloc: "parent_event_hash n (with_alloc a c) = parent_event_hash n c"
  by (simp add: parent_event_hash_def split: option.split)

lemma record_store_event_alloc: "record_store_event sha n m (with_alloc a c) = rbind (record_store_event sha n m c) (\<lambda>c'. Inr (with_alloc a c'))"
  by (simp add: record_store_event_def ensure_hash_alloc parent_hash_alloc Let_def rbind_assoc del: store_events.simps)

lemma insert_helper_alloc: "insert_helper sha now n k v q ch (with_alloc a c) = with_alloc_res a (insert_helper sha now n k v q ch c)"
  by (simp add: insert_helper_def Let_def split_beta insert_loop_alloc record_store_event_alloc rbind_assoc del: insert_loop.simps cong: if_cong)

lemma insert_key_alloc [simp]: "insert_key sha now k v q ch (with_alloc a c) = with_alloc_res a (insert_key sha now k v q ch c)"
  by (simp add: insert_key_def Let_def split_beta insert_helper_alloc)

section \<open>Frees in a group\<close>

definition kv_free_group_end :: "kv_alloc \<Rightarrow> kv_alloc res" where
  "kv_free_group_end a =
     (let a' = a\<lparr>al_is_not_in_free_group := True\<rparr>
      in if al_free_group a' \<noteq> [] then kv_free (concat (al_free_group a')) a' else Inr a')"

fun kv_frees :: "int list list \<Rightarrow> kv_alloc \<Rightarrow> kv_alloc res" where
  "kv_frees [] a = Inr a"
| "kv_frees (xs # fs) a = rbind (kv_free xs a) (kv_frees fs)"

lemma kv_frees_append [simp]: "kv_frees (fs @ gs) a = rbind (kv_frees fs a) (kv_frees gs)"
  by (induction fs arbitrary: a) (simp_all add: rbind_assoc cong: rbind_cong)

definition add_free :: "int list \<Rightarrow> kv_alloc \<Rightarrow> kv_alloc" where
  "add_free gs a = (if al_need_sort a then a\<lparr>al_release_pages := gs @ al_release_pages a\<rparr> else a\<lparr>al_free_pages := gs @ al_free_pages a\<rparr>)"

lemma add_free_simps [simp]:
  "add_free [] a = a" "add_free gs (add_free hs a) = add_free (gs @ hs) a" "al_page_size (add_free gs a) = al_page_size a"
  "al_is_not_in_free_group (add_free gs a) = al_is_not_in_free_group a" "al_debug_mode (add_free gs a) = al_debug_mode a"
  "al_need_sort (add_free gs a) = al_need_sort a"
  by (simp_all add: add_free_def)

text \<open>Outside a group: the pages of the freed slots are added, with duplicates only if a page is freed twice.\<close>

lemma paged_frees:
  assumes "al_page_size a \<noteq> 1" "al_is_not_in_free_group a" "kv_frees fs a = Inr a'"
  shows "\<exists>gs. a' = add_free gs a \<and> set gs = (\<lambda>i. i div int (al_page_size a)) ` set (concat fs)"
  using assms
proof (induction fs arbitrary: a)
  case (Cons xs fs)
  let ?p = "al_page_size a" and ?us = "torch_unique (map (\<lambda>i. i div int (al_page_size a)) xs)"
  obtain b where b: "paged_free xs a = Inr b" "kv_frees fs b = Inr a'" using Cons.prems by (auto simp: kv_free_def rbind_eq_Inr_iff)
  have e: "b = add_free (if xs = [] then [] else ?us) a"
    using b(1) Cons.prems(2) by (auto simp: paged_free_def add_free_def Let_def rbind_eq_Inr_iff split: if_splits)
  obtain gs where "a' = add_free gs b" "set gs = (\<lambda>i. i div int ?p) ` set (concat fs)"
    using Cons.IH [OF _ _ b(2)] Cons.prems(1,2) e by auto
  moreover have "set (if xs = [] then [] else ?us) = (\<lambda>i. i div int ?p) ` set xs" by (simp add: torch_unique_def)
  ultimately show ?case unfolding e by (intro exI [of _ "gs @ (if xs = [] then [] else ?us)"]) auto
qed simp

lemma token_frees:
  assumes "al_page_size a = 1" "al_is_not_in_free_group a" "kv_frees fs a = Inr a'"
  shows "a' = token_free (concat fs) a"
  using assms
proof (induction fs arbitrary: a)
  case (Cons xs fs)
  have "kv_frees fs (token_free xs a) = Inr a'" using Cons.prems by (simp add: kv_free_def)
  moreover have "al_page_size (token_free xs a) = 1" "al_is_not_in_free_group (token_free xs a)" using Cons.prems by (simp_all add: token_free_def)
  ultimately have "a' = token_free (concat fs) (token_free xs a)" using Cons.IH by blast
  then show ?case using Cons.prems(2) by (simp add: token_free_def)
qed (simp add: token_free_def)

text \<open>Inside a group: nothing but the collection changes.\<close>

lemma frees_in_group:
  assumes "\<not> al_is_not_in_free_group a" "al_debug_mode a \<longrightarrow> distinct (al_free_pages a)"
  shows "kv_frees fs a = Inr (a\<lparr>al_free_group := al_free_group a @ filter (\<lambda>xs. xs \<noteq> []) fs\<rparr>)"
  using assms
proof (induction fs arbitrary: a)
  case (Cons xs fs)
  have "length (torch_unique (al_free_pages a)) = length (al_free_pages a)" if "al_debug_mode a"
    using that Cons.prems(2) by (simp add: torch_unique_def distinct_card [symmetric] length_remdups_card_conv)
  then have "kv_free xs a = Inr (a\<lparr>al_free_group := al_free_group a @ filter (\<lambda>xs. xs \<noteq> []) [xs]\<rparr>)"
    using Cons.prems(1) by (auto simp: kv_free_def token_free_def paged_free_def Let_def)
  then show ?case using Cons by simp
qed simp

lemma concat_nonempty: "concat (filter (\<lambda>xs. xs \<noteq> []) fs) = concat fs"
  by (induction fs) auto

text \<open>Collecting the frees and executing them together returns the same slots as executing each at once.\<close>

theorem free_group_same_slots:
  assumes "kv_inv a U" "kv_frees fs a = Inr a1" "kv_inv a1 U1"
  shows "\<exists>g a2. kv_frees fs (free_group_begin a) = Inr g \<and> kv_free_group_end g = Inr a2 \<and> kv_inv a2 U1 \<and> al_page_size a2 = al_page_size a1"
proof -
  let ?fs = "filter (\<lambda>xs. xs \<noteq> []) fs" and ?b = "a\<lparr>al_free_group := filter (\<lambda>xs. xs \<noteq> []) fs\<rparr>"
  have n: "al_is_not_in_free_group a" "distinct (al_free_pages a)" using assms(1) by (auto simp: kv_inv_def token_inv_def paged_inv_def split: if_splits)
  have g: "kv_frees fs (free_group_begin a) = Inr ((free_group_begin a)\<lparr>al_free_group := ?fs\<rparr>)"
    using frees_in_group [of "free_group_begin a" fs] n(2) by (simp add: free_group_begin_def)
  have b: "((free_group_begin a)\<lparr>al_free_group := ?fs\<rparr>)\<lparr>al_is_not_in_free_group := True\<rparr> = ?b" using n(1) by (simp add: free_group_begin_def)
  have "\<exists>a2. kv_free (concat fs) ?b = Inr a2 \<and> kv_inv a2 U1 \<and> al_page_size a2 = al_page_size a1"
  proof (cases "al_page_size a = 1")
    case True
    have "a1 = token_free (concat fs) a" by (rule token_frees [OF True n(1) assms(2)])
    then have "token_free (concat fs) ?b = a1\<lparr>al_free_group := ?fs\<rparr>" using n(1) by (simp add: token_free_def)
    moreover have "token_inv a1 U1" using assms(3) True \<open>a1 = _\<close> by (simp add: kv_inv_def token_free_def split: if_splits)
    ultimately show ?thesis using True \<open>a1 = _\<close> by (simp add: kv_free_def kv_inv_def token_inv_def)
  next
    case False
    let ?p = "al_page_size a" and ?us = "torch_unique (map (\<lambda>i. i div int (al_page_size a)) (concat fs))"
    obtain gs where gs: "a1 = add_free gs a" "set gs = (\<lambda>i. i div int ?p) ` set (concat fs)" using paged_frees [OF False n(1) assms(2)] by blast
    have us: "set ?us = set gs" "distinct ?us" using gs(2) by (simp_all add: torch_unique_def)
    have i1: "paged_inv a1 U1" using assms(3) False gs(1) by (simp add: kv_inv_def)
    have d: "distinct (?us @ al_free_pages a @ al_release_pages a)"
      using i1 us unfolding gs(1) by (auto simp: paged_inv_def add_free_def split: if_splits)
    have i2: "paged_inv (add_free ?us ?b) U1"
      using i1 d us unfolding gs(1) by (auto simp: paged_inv_def add_free_def page_set_def num_pages_def Un_ac split: if_splits)
    have un: "length (torch_unique xs) = length xs" if "distinct xs" for xs
      using that by (simp add: torch_unique_def distinct_card [symmetric] length_remdups_card_conv)
    have "kv_free (concat fs) ?b = Inr (add_free ?us ?b)"
    proof (cases "concat fs = []")
      case True
      show ?thesis unfolding True by (simp add: torch_unique_def)
    next
      case ne: False
      have "distinct (al_free_pages (add_free ?us ?b))" using d by (auto simp: add_free_def)
      then have "length (torch_unique (al_free_pages (add_free ?us ?b))) = length (al_free_pages (add_free ?us ?b))" by (rule un)
      then show ?thesis using ne False n(1) by (simp add: kv_free_def paged_free_def Let_def add_free_def del: concat_eq_Nil_conv split: if_splits)
    qed
    then show ?thesis using i2 False gs(1) by (simp add: kv_inv_def)
  qed
  moreover have "kv_free_group_end ((free_group_begin a)\<lparr>al_free_group := ?fs\<rparr>) = kv_free (concat fs) ?b"
  proof (cases "?fs = []")
    case True
    have e: "concat fs = []" using True by (simp add: filter_empty_conv)
    show ?thesis unfolding kv_free_group_end_def b Let_def e by (simp add: True)
  qed (simp add: kv_free_group_end_def b Let_def concat_nonempty)
  ultimately show ?thesis using g by auto
qed

section \<open>Releases in a group\<close>

text \<open>
  \<open>frees_of f c x c'\<close>: the operation \<open>f\<close> changes \<open>c\<close> to \<open>c'\<close> with the result \<open>x\<close>, and does so for every
  allocator that accepts the list of frees it issues.
\<close>

definition frees_of :: "(rcache \<Rightarrow> ('b \<times> rcache) res) \<Rightarrow> rcache \<Rightarrow> 'b \<Rightarrow> rcache \<Rightarrow> int list list \<Rightarrow> bool" where
  "frees_of f c x c' fs \<longleftrightarrow> kv_frees fs (rc_allocator c) = Inr (rc_allocator c')
     \<and> (\<forall>a a'. kv_frees fs a = Inr a' \<longrightarrow> f (with_alloc a c) = Inr (x, with_alloc a' c'))"

lemma frees_of_pure:
  assumes "\<And>a c. f (with_alloc a c) = with_alloc_res a (f c)" "f c = Inr (x, c')"
  shows "frees_of f c x c' []"
proof -
  have "f (with_alloc a c) = Inr (x, with_alloc a c')" for a using assms by simp
  from this [of "rc_allocator c"] have "with_alloc (rc_allocator c) c' = c'" using assms(2) by simp
  then have "rc_allocator c = rc_allocator c'" by (metis with_alloc_fields(13))
  then show ?thesis using \<open>\<And>a. f (with_alloc a c) = Inr (x, with_alloc a c')\<close> by (simp add: frees_of_def)
qed

lemma free_slots_alloc [simp]: "free_slots xs (with_alloc a c) = rbind (kv_free xs a) (\<lambda>a'. Inr (with_alloc a' c))"
  by (simp add: free_slots_def with_alloc_def)

lemma free_slotsE:
  assumes "free_slots xs c = Inr c'"
  obtains a where "kv_free xs (rc_allocator c) = Inr a" "c' = with_alloc a c"
  using assms by (auto simp: free_slots_def rbind_eq_Inr_iff with_alloc_def)

lemma cache_finished_req_frees:
  assumes "cache_finished_req sha now strip ins pool r c = Inr (r1, c')"
  shows "\<exists>fs. frees_of (cache_finished_req sha now strip ins pool r) c r1 c' fs"
proof -
  obtain n r0 i row where 0: "pop_committed_kv_cache strip r = Inr (n, r0)" "rq_req_pool_idx r0 = Some i" "pool_row i pool = Inr row"
    using assms by (auto simp: cache_finished_req_def Let_def rbind_eq_Inr_iff of_opt_def split: option.splits)
  show ?thesis
  proof (cases "rc_disable c")
    case True
    have f: "free_slots (take n row) c = Inr c'" "r1 = r0" using assms 0 True by (auto simp: cache_finished_req_def Let_def rbind_eq_Inr_iff)
    have "frees_of (cache_finished_req sha now strip ins pool r) c r1 c' [take n row]"
      using f 0 True by (auto simp: frees_of_def cache_finished_req_def rbind_eq_Inr_iff elim!: free_slotsE)
    then show ?thesis by blast
  next
    case False
    let ?ids = "take n (rq_origin_input_ids r0 @ rq_output_ids r0)"
    define kv where "kv = take (length ?ids) row"
    define go where "go = (if rc_disable_finished_insert c then False else ins)"
    let ?prot = "rq_cache_protected_len r0"
    let ?run = "\<lambda>c key. if go then rbind (insert_key sha now key (Some (take (key_len key) kv)) (Some (req_priority r0)) False c) (\<lambda>(prefix_len, c1).
             free_slots (py_slice ?prot prefix_len kv) c1) else free_slots (py_slice ?prot (key_len key) kv) c"
    have def: "cache_finished_req sha now strip ins pool r (with_alloc a c)
      = rbind (page_aligned (mk_key ?ids (rq_extra_key r0) (rc_is_eagle c)) (rc_page_size c)) (\<lambda>key. rbind (?run (with_alloc a c) key)
          (\<lambda>c2. rbind (free_slots (drop (key_len key) kv) c2) (\<lambda>c3.
          case rq_last_node r0 of None \<Rightarrow> Inr (r0, c3) | Some x \<Rightarrow> rbind (dec_lock_ref x c3) (\<lambda>(_, c4). Inr (r0, c4)))))" for a
      using 0 False unfolding cache_finished_req_def Let_def kv_def go_def by simp
    obtain key c2 c3 where 1: "page_aligned (mk_key ?ids (rq_extra_key r0) (rc_is_eagle c)) (rc_page_size c) = Inr key" "?run c key = Inr c2"
       "free_slots (drop (key_len key) kv) c2 = Inr c3"
       "(case rq_last_node r0 of None \<Rightarrow> Inr (r0, c3) | Some x \<Rightarrow> rbind (dec_lock_ref x c3) (\<lambda>(_, c4). Inr (r0, c4))) = Inr (r1, c')"
      using assms def [of "rc_allocator c"] unfolding with_alloc_upd by (auto simp: rbind_eq_Inr_iff)
    obtain c1 xs where 2: "free_slots xs c1 = Inr c2" "rc_allocator c1 = rc_allocator c" "\<And>a. ?run (with_alloc a c) key = free_slots xs (with_alloc a c1)"
    proof (cases go)
      case True
      then obtain m c1 where c1: "insert_key sha now key (Some (take (key_len key) kv)) (Some (req_priority r0)) False c = Inr (m, c1)"
          "free_slots (py_slice ?prot m kv) c1 = Inr c2" using 1(2) by (auto simp: rbind_eq_Inr_iff split: if_splits)
      have "frees_of (insert_key sha now key (Some (take (key_len key) kv)) (Some (req_priority r0)) False) c m c1 []"
        by (rule frees_of_pure [OF insert_key_alloc c1(1)])
      then show ?thesis using True c1 by (intro that [of "py_slice ?prot m kv" c1]) (simp_all add: frees_of_def)
    next
      case False
      then show ?thesis using 1(2) by (intro that [of "py_slice ?prot (key_len key) kv" c]) simp_all
    qed
    obtain a2 a3 where 3: "kv_free xs (rc_allocator c) = Inr a2" "c2 = with_alloc a2 c1" "kv_free (drop (key_len key) kv) a2 = Inr a3" "c3 = with_alloc a3 c1"
      using 1(3) 2(1,2) by (auto elim!: free_slotsE)
    have 4: "rc_allocator c' = a3 \<and> (\<forall>a. (case rq_last_node r0 of None \<Rightarrow> Inr (r0, with_alloc a c1) | Some x \<Rightarrow> rbind (dec_lock_ref x (with_alloc a c1)) (\<lambda>(_, c4). Inr (r0, c4)))
        = Inr (r1, with_alloc a c'))"
    proof (cases "rq_last_node r0")
      case (Some x)
      then obtain d where d: "dec_lock_ref x c3 = Inr (d, c')" "r1 = r0" using 1(4) by (auto simp: rbind_eq_Inr_iff)
      have "frees_of (dec_lock_ref x) c3 d c' []" by (rule frees_of_pure [OF dec_lock_ref_alloc d(1)])
      then have "rc_allocator c' = a3" "dec_lock_ref x (with_alloc a c1) = Inr (d, with_alloc a c')" for a using 3(4) by (auto simp: frees_of_def)
      then show ?thesis using Some d(2) by simp
    qed (use 1(4) 3(4) in auto)
    have "frees_of (cache_finished_req sha now strip ins pool r) c r1 c' [xs, drop (key_len key) kv]"
      unfolding frees_of_def def using 1(1) 2(3) 3 4 by (auto simp: rbind_eq_Inr_iff)
    then show ?thesis by blast
  qed
qed

text \<open>The release of a request: its committed slots, then what was allocated beyond them.\<close>

lemma release_kv_cache_frees:
  assumes "release_kv_cache sha now strip none p ins r pool c = Inr (r', pool', c')"
  shows "\<exists>fs. kv_frees fs (rc_allocator c) = Inr (rc_allocator c')
     \<and> (\<forall>a a'. kv_frees fs a = Inr a' \<longrightarrow> release_kv_cache sha now strip none p ins r pool (with_alloc a c) = Inr (r', pool', with_alloc a' c'))"
proof -
  define ins' where "ins' = (ins \<and> \<not> rq_skip_radix_cache_insert r)"
  obtain i0 r1 c1 where 0: "rq_req_pool_idx r = Some i0" "cache_finished_req sha now strip ins' pool r c = Inr (r1, c1)"
    using assms by (auto simp: release_kv_cache_def rbind_eq_Inr_iff ins'_def split: if_splits)
  obtain fs where fs: "kv_frees fs (rc_allocator c) = Inr (rc_allocator c1)"
      "\<And>a a'. kv_frees fs a = Inr a' \<Longrightarrow> cache_finished_req sha now strip ins' pool r (with_alloc a c) = Inr (r1, with_alloc a' c1)"
    using cache_finished_req_frees [OF 0(2)] by (auto simp: frees_of_def)
  have run: "release_kv_cache sha now strip none p ins r pool (with_alloc a c) = (case rq_req_pool_idx r1 of
          None \<Rightarrow> Inr (r1, pool, with_alloc a' c1)
        | Some i \<Rightarrow>
            rbind (pop_overallocated_kv_cache strip r1) (\<lambda>((start_p, end_p), r2).
            rbind (guard_res (none \<and> \<not> strip \<longrightarrow> start_p = end_p) AssertionError) (\<lambda>_.
            let start_p' = (if 1 < p then ceil_align start_p p else start_p)
            in rbind (if start_p' < end_p
                      then rbind (pool_row i pool) (\<lambda>row. free_slots (py_slice start_p' end_p row) (with_alloc a' c1))
                      else Inr (with_alloc a' c1)) (\<lambda>c2.
               rbind (pool_free r2 pool) (\<lambda>(r3, pool').
               Inr (r3, pool', c2))))))" if "kv_frees fs a = Inr a'" for a a'
    using fs(2) [OF that] 0(1) unfolding release_kv_cache_def ins'_def by simp
  note run0 = trans [OF run [OF fs(1), unfolded with_alloc_upd, symmetric] assms]
  show ?thesis
  proof (cases "rq_req_pool_idx r1")
    case None
    then show ?thesis using run0 run fs(1) by (intro exI [of _ fs]) auto
  next
    case (Some i)
    obtain st en r2 where 1: "pop_overallocated_kv_cache strip r1 = Inr ((st, en), r2)" "none \<and> \<not> strip \<longrightarrow> st = en"
      using run0 Some by (auto simp: rbind_eq_Inr_iff guard_res_def split: if_splits)
    define st' where "st' = (if 1 < p then ceil_align st p else st)"
    obtain c2 where 2: "(if st' < en then rbind (pool_row i pool) (\<lambda>row. free_slots (py_slice st' en row) c1) else Inr c1) = Inr c2"
       "pool_free r2 pool = Inr (r', pool')" "c' = c2"
      using run0 Some 1 unfolding st'_def One_nat_def by (auto simp: rbind_eq_Inr_iff Let_def)
    obtain xs where 3: "kv_free xs (rc_allocator c1) = Inr (rc_allocator c2)" 
       "\<And>a a'. kv_free xs a = Inr a' \<Longrightarrow> (if st' < en then rbind (pool_row i pool) (\<lambda>row. free_slots (py_slice st' en row) (with_alloc a c1)) else Inr (with_alloc a c1)) = Inr (with_alloc a' c2)"
    proof (cases "st' < en")
      case True
      then obtain row where r: "pool_row i pool = Inr row" "free_slots (py_slice st' en row) c1 = Inr c2" using 2(1) by (auto simp: rbind_eq_Inr_iff)
      show ?thesis using True r by (intro that [of "py_slice st' en row"]) (auto elim!: free_slotsE)
    next
      case False
      then show ?thesis using 2(1) by (intro that [of "[]"]) auto
    qed
    have "release_kv_cache sha now strip none p ins r pool (with_alloc a c) = Inr (r', pool', with_alloc a' c')" if h: "kv_frees (fs @ [xs]) a = Inr a'" for a a'
    proof -
      obtain b where b: "kv_frees fs a = Inr b" "kv_free xs b = Inr a'" using h by (auto simp: rbind_eq_Inr_iff)
      show ?thesis unfolding run [OF b(1)] using Some 1 2(2,3) 3(2) [OF b(2)] unfolding st'_def One_nat_def by (simp add: Let_def)
    qed
    then show ?thesis using fs(1) 3(1) 2(3) by (intro exI [of _ "fs @ [xs]"]) simp
  qed
qed

end
