(* ===== verification/Batch_Result.thy ===== *)
theory Batch_Result
  imports Req_Finish Free_Group
begin

text \<open>
  The results of a batch: \<open>process_batch_result_prefill\<close> and \<open>process_batch_result_decode\<close> of
  \<open>managers/scheduler_output_processor_mixin.py\<close>, with the abort of requests of
  \<open>managers/scheduler.py\<close>. They append the sampled tokens, decide which requests end, release the
  memory of those and cache what a prefill has computed. Log probabilities, hidden states, statistics
  and the output stream, which no scheduling decision reads, are left out, as are the speculative
  modes, disaggregation, hisparse, multimodal features and mamba states.
\<close>

section \<open>State\<close>

text \<open>
  \<open>rs_batch\<close> are the requests of the batch whose result is processed, \<open>rs_others\<close> those of the
  running batch when that is another one; \<open>rs_aborted\<close> are the ids of the abort notices sent to the
  tokenizer manager.
\<close>

record result_state =
  rs_batch :: "batch_req list"
  rs_others :: "batch_req list"
  rs_pool :: req_pool
  rs_cache :: rcache
  rs_waiting_queue :: "batch_req list"
  rs_grammar_queue :: "batch_req list"
  rs_aborted :: "string list"

text \<open>
  What the environment supplies: the finish checks, whether a grammar that has accepted some tokens
  accepts the next one (it raises \<open>ValueError\<close> otherwise), the end of reasoning of the model, and the
  readings of the clock while the request at a position is processed.
\<close>

record result_env =
  re_finish :: finish_env
  re_accepts :: "string \<Rightarrow> int list \<Rightarrow> int \<Rightarrow> bool"
  re_think_end_id :: "int option"
  re_clock :: "nat \<Rightarrow> int \<times> int"

section \<open>Aborting requests\<close>

definition set_finish_with_abort :: "string \<Rightarrow> batch_req \<Rightarrow> batch_req" where
  "set_finish_with_abort error_msg r =
     r\<lparr>br_multimodal_inputs := None, sq_has_grammar := False, sq_mem := (sq_mem r)\<lparr>rq_origin_input_ids := [0]\<rparr>,
       sq_return_logprob := False, sq_logprob_start_len := -1,
       sq_to_finish := Some (finish_abort (Some error_msg) (Some 400) (Some ''BadRequestError''))\<rparr>"

text \<open>An abort request names a prefix of request ids.\<close>

definition abort_selects :: "bool \<Rightarrow> string \<Rightarrow> batch_req \<Rightarrow> bool" where
  "abort_selects abort_all rid r \<longleftrightarrow> abort_all \<or> prefix rid (sq_rid r)"

definition grammar_abort_requests :: "bool \<Rightarrow> string \<Rightarrow> batch_req list \<Rightarrow> batch_req list" where
  "grammar_abort_requests abort_all rid q =
     map (\<lambda>r. if abort_selects abort_all rid r then set_finish_with_abort ''Aborted by AbortReq.'' r else r) q"

definition abort_running :: "bool \<Rightarrow> string \<Rightarrow> batch_req \<Rightarrow> batch_req" where
  "abort_running abort_all rid r =
     (if \<not> sq_finished r \<and> abort_selects abort_all rid r then r\<lparr>sq_to_finish := Some (finish_abort None None None)\<rparr> else r)"

text \<open>
  The indices of the selected requests of the waiting queue are collected first and popped one by
  one afterwards, the last one first: popping moves only the requests behind. \<open>list.pop(i)\<close> raises
  an error when \<open>i\<close> is not an index.
\<close>

definition to_del_indices :: "bool \<Rightarrow> string \<Rightarrow> batch_req list \<Rightarrow> nat list" where
  "to_del_indices abort_all rid q = map fst (filter (\<lambda>(i, r). abort_selects abort_all rid r) (enumerate 0 q))"

fun pop_each :: "nat list \<Rightarrow> 'a list \<Rightarrow> ('a list \<times> 'a list) res" where
  "pop_each [] q = Inr ([], q)"
| "pop_each (i # idxs) q =
     (if i < length q
      then rbind (pop_each idxs (take i q @ drop (Suc i) q)) (\<lambda>(popped, q'). Inr (q ! i # popped, q'))
      else Inl IndexError)"

definition abort_request :: "bool \<Rightarrow> string \<Rightarrow> result_state \<Rightarrow> result_state res" where
  "abort_request abort_all rid s =
     rbind (pop_each (rev (to_del_indices abort_all rid (rs_waiting_queue s))) (rs_waiting_queue s)) (\<lambda>(popped, queue).
     Inr (s\<lparr>rs_waiting_queue := queue, rs_aborted := rs_aborted s @ map sq_rid popped,
            rs_grammar_queue := grammar_abort_requests abort_all rid (rs_grammar_queue s),
            rs_others := map (abort_running abort_all rid) (rs_others s),
            rs_batch := map (abort_running abort_all rid) (rs_batch s)\<rparr>))"

section \<open>One request\<close>

text \<open>Append the sampled token and check whether the request ends.\<close>

definition accept_output :: "result_env \<Rightarrow> int \<Rightarrow> batch_req \<Rightarrow> batch_req res" where
  "accept_output re next_token_id r =
     check_finished (re_finish re) 1 (maybe_update_reasoning_tokens (re_think_end_id re) next_token_id
       (r\<lparr>sq_mem := (sq_mem r)\<lparr>rq_output_ids := rq_output_ids (sq_mem r) @ [next_token_id]\<rparr>\<rparr>))"

abbreviation set_req :: "nat \<Rightarrow> batch_req \<Rightarrow> result_state \<Rightarrow> result_state" where
  "set_req i r s \<equiv> s\<lparr>rs_batch := (rs_batch s)[i := r]\<rparr>"

definition release_finished :: "decode_env \<Rightarrow> result_env \<Rightarrow> nat \<Rightarrow> batch_req \<Rightarrow> result_state \<Rightarrow> result_state res" where
  "release_finished env re i r s =
     rbind (release_kv_cache (de_sha env) (fst (re_clock re i)) (de_strip_thinking_cache env) (de_spec env = SpecNone) (de_page_size env) True
              (sq_mem r) (rs_pool s) (rs_cache s)) (\<lambda>(m, pool, c).
     Inr (set_req i (r\<lparr>sq_mem := m\<rparr>) s\<lparr>rs_pool := pool, rs_cache := c\<rparr>))"

definition handle_finished_req :: "decode_env \<Rightarrow> result_env \<Rightarrow> nat \<Rightarrow> batch_req \<Rightarrow> result_state \<Rightarrow> result_state res" where
  "handle_finished_req env re i r s = (if sq_finished r then release_finished env re i r s else Inr (set_req i r s))"

definition maybe_cache_unfinished_req :: "decode_env \<Rightarrow> result_env \<Rightarrow> nat \<Rightarrow> batch_req \<Rightarrow> result_state \<Rightarrow> result_state res" where
  "maybe_cache_unfinished_req env re i r s =
     (if rq_skip_radix_cache_insert (sq_mem r) then Inr (set_req i r s)
      else rbind (cache_unfinished_req (de_sha env) (fst (re_clock re i)) (snd (re_clock re i)) False (sq_mem r) (rs_pool s) (rs_cache s)) (\<lambda>(m, pool, c).
           Inr (set_req i (r\<lparr>sq_mem := m\<rparr>) s\<lparr>rs_pool := pool, rs_cache := c\<rparr>)))"

text \<open>A token that the grammar refuses aborts the request; the token stays in the output.\<close>

definition grammar_accept :: "result_env \<Rightarrow> nat \<Rightarrow> int \<Rightarrow> result_state \<Rightarrow> result_state res" where
  "grammar_accept re i next_token_id s =
     (let r = rs_batch s ! i
      in if \<not> sq_has_grammar r then Inr s
         else if re_accepts re (sq_rid r) (br_grammar_tokens r) next_token_id
         then Inr (set_req i (r\<lparr>br_grammar_tokens := br_grammar_tokens r @ [next_token_id]\<rparr>) s)
         else abort_request False (sq_rid r) s)"

section \<open>Prefill batches\<close>

definition chunk_done :: "batch_req \<Rightarrow> batch_req" where
  "chunk_done r = r\<lparr>sq_mem := (sq_mem r)\<lparr>rq_is_chunked := rq_is_chunked (sq_mem r) - 1\<rparr>\<rparr>"

text \<open>\<open>decoding_reqs\<close> are the ids of the running requests in a mixed batch.\<close>

definition prefill_result_step :: "decode_env \<Rightarrow> result_env \<Rightarrow> string list \<Rightarrow> nat \<Rightarrow> int \<Rightarrow> result_state \<Rightarrow> result_state res" where
  "prefill_result_step env re decoding_reqs i next_token_id s =
     (let r = rs_batch s ! i
      in if sq_finished r \<or> sq_is_retracted r then Inr s
         else if rq_is_chunked (sq_mem r) \<le> 0
         then rbind (accept_output re next_token_id r) (\<lambda>r1.
              rbind (if sq_finished r1 then release_finished env re i r1 s
                     else if sq_rid r1 \<notin> set decoding_reqs then maybe_cache_unfinished_req env re i r1 s
                     else Inr (set_req i r1 s)) (\<lambda>s1.
              grammar_accept re i next_token_id s1))
         else Inr (set_req i (chunk_done r) s))"

fun prefill_result_loop :: "decode_env \<Rightarrow> result_env \<Rightarrow> string list \<Rightarrow> nat \<Rightarrow> int list \<Rightarrow> result_state \<Rightarrow> result_state res" where
  "prefill_result_loop env re decoding_reqs i [] s = Inr s"
| "prefill_result_loop env re decoding_reqs i (t # ts) s =
     (if length (rs_batch s) \<le> i then Inr s
      else rbind (prefill_result_step env re decoding_reqs i t s) (prefill_result_loop env re decoding_reqs (Suc i) ts))"

text \<open>Embedding and reward models: one dummy token per request.\<close>

definition embedding_result_step :: "decode_env \<Rightarrow> result_env \<Rightarrow> nat \<Rightarrow> nat \<Rightarrow> result_state \<Rightarrow> result_state res" where
  "embedding_result_step env re num_embeddings i s =
     (let r = rs_batch s ! i
      in if sq_is_retracted r then Inr s
         else if num_embeddings \<le> i then Inl IndexError
         else if rq_is_chunked (sq_mem r) \<le> 0
         then rbind (check_finished (re_finish re) 1 (r\<lparr>sq_mem := (sq_mem r)\<lparr>rq_output_ids := rq_output_ids (sq_mem r) @ [0]\<rparr>\<rparr>)) (\<lambda>r1.
              if sq_finished r1 then release_finished env re i r1 s else maybe_cache_unfinished_req env re i r1 s)
         else Inr (set_req i (chunk_done r) s))"

fun embedding_result_loop :: "decode_env \<Rightarrow> result_env \<Rightarrow> nat \<Rightarrow> nat \<Rightarrow> nat \<Rightarrow> result_state \<Rightarrow> result_state res" where
  "embedding_result_loop env re num_embeddings i 0 s = Inr s"
| "embedding_result_loop env re num_embeddings i (Suc n) s =
     rbind (embedding_result_step env re num_embeddings i s) (embedding_result_loop env re num_embeddings (Suc i) n)"

datatype batch_output = GenerationBatchResult "int list" | EmbeddingBatchResult nat

definition process_batch_result_prefill :: "decode_env \<Rightarrow> result_env \<Rightarrow> string list \<Rightarrow> batch_output \<Rightarrow> result_state \<Rightarrow> result_state res" where
  "process_batch_result_prefill env re decoding_reqs result s =
     (case result of
        GenerationBatchResult next_token_ids \<Rightarrow> prefill_result_loop env re decoding_reqs 0 next_token_ids s
      | EmbeddingBatchResult num_embeddings \<Rightarrow> embedding_result_loop env re num_embeddings 0 (length (rs_batch s)) s)"

section \<open>Decode batches\<close>

definition decode_result_step :: "decode_env \<Rightarrow> result_env \<Rightarrow> bool \<Rightarrow> int list \<Rightarrow> nat \<Rightarrow> result_state \<Rightarrow> result_state res" where
  "decode_result_step env re enable_overlap next_token_ids i s =
     (let r = rs_batch s ! i
      in if enable_overlap \<and> (sq_finished r \<or> sq_is_retracted r) then Inr s
         else if length next_token_ids \<le> i then Inl IndexError
         else rbind (accept_output re (next_token_ids ! i) r) (\<lambda>r1.
              rbind (handle_finished_req env re i r1 s) (\<lambda>s1.
              grammar_accept re i (next_token_ids ! i) s1)))"

fun decode_result_loop :: "decode_env \<Rightarrow> result_env \<Rightarrow> bool \<Rightarrow> int list \<Rightarrow> nat \<Rightarrow> nat \<Rightarrow> result_state \<Rightarrow> result_state res" where
  "decode_result_loop env re enable_overlap next_token_ids i 0 s = Inr s"
| "decode_result_loop env re enable_overlap next_token_ids i (Suc n) s =
     rbind (decode_result_step env re enable_overlap next_token_ids i s) (decode_result_loop env re enable_overlap next_token_ids (Suc i) n)"

text \<open>The frees of the finished requests are collected and executed at the end.\<close>

definition process_batch_result_decode :: "decode_env \<Rightarrow> result_env \<Rightarrow> bool \<Rightarrow> int list \<Rightarrow> result_state \<Rightarrow> result_state res" where
  "process_batch_result_decode env re enable_overlap next_token_ids s =
     (let c = rs_cache s; s1 = s\<lparr>rs_cache := c\<lparr>rc_allocator := free_group_begin (rc_allocator c)\<rparr>\<rparr>
      in rbind (decode_result_loop env re enable_overlap next_token_ids 0 (length (rs_batch s1)) s1) (\<lambda>s2.
         rbind (kv_free_group_end (rc_allocator (rs_cache s2))) (\<lambda>a.
         Inr (s2\<lparr>rs_cache := (rs_cache s2)\<lparr>rc_allocator := a\<rparr>\<rparr>))))"

section \<open>A round of decoding\<close>

text \<open>
  An iteration of \<open>event_loop_normal\<close> in which the running batch decodes: the batch is updated, the
  model samples a token for each of its requests, and the results are processed. The requests of the
  grammar queue do not take part.
\<close>

definition decode_round ::
  "decode_env \<Rightarrow> result_env \<Rightarrow> queue_config \<Rightarrow> bool \<Rightarrow> (schedule_batch \<Rightarrow> int list) \<Rightarrow> decode_state \<times> batch_req list \<Rightarrow> (decode_state \<times> batch_req list) res" where
  "decode_round env re cfg test_retract sample st =
     (case st of (s, grammar_queue) \<Rightarrow>
      rbind (update_running_batch env cfg test_retract s) (\<lambda>s1.
      let b = ds_running_batch s1; next_token_ids = sample b
      in if bt_reqs b = [] then Inr (s1, grammar_queue)
         else rbind (process_batch_result_decode env re (bt_enable_overlap b) next_token_ids
                \<lparr>rs_batch = bt_reqs b, rs_others = [], rs_pool = ds_req_to_token_pool s1, rs_cache = ds_tree_cache s1,
                 rs_waiting_queue = ds_waiting_queue s1, rs_grammar_queue = grammar_queue, rs_aborted = ds_aborted s1\<rparr>) (\<lambda>rs.
              Inr (s1\<lparr>ds_running_batch := b\<lparr>bt_output_ids := Some next_token_ids, bt_reqs := rs_batch rs\<rparr>,
                      ds_req_to_token_pool := rs_pool rs, ds_tree_cache := rs_cache rs,
                      ds_waiting_queue := rs_waiting_queue rs, ds_aborted := rs_aborted rs\<rparr>, rs_grammar_queue rs))))"

end
