(* ===== verification/Decode_Result.thy ===== *)
theory Decode_Result
  imports Batch_Result Decode_Safe
begin

text \<open>
  The results of a decode batch keep the memory of its requests: processing them never fails, the
  requests that end give back exactly what they own, and the others own their memory for the next
  step.
\<close>

section \<open>One request\<close>

text \<open>Parameters as \<open>SamplingParams.normalize\<close> leaves them, and a tokenizer where stop strings need one.\<close>

definition stop_params_ok :: "batch_req \<Rightarrow> bool" where
  "stop_params_ok r \<longleftrightarrow> (\<exists>ss rs. sp_stop_strs (breq_params r) = ManyStr ss \<and> sp_stop_regex_strs (breq_params r) = ManyStr rs
     \<and> (ss = [] \<and> rs = [] \<or> br_has_tokenizer r \<and> sp_stop_str_max_len (breq_params r) \<noteq> None \<and> sp_stop_regex_max_len (breq_params r) \<noteq> None))"

text \<open>What a request keeps while results are processed.\<close>

definition carries :: "batch_req \<Rightarrow> batch_req \<Rightarrow> bool" where
  "carries r r' \<longleftrightarrow> sq_rid r' = sq_rid r \<and> br_samp r' = br_samp r \<and> sq_max_new_tokens r' = sq_max_new_tokens r
   \<and> sq_return_logprob r' = sq_return_logprob r \<and> br_top_logprobs_num r' = br_top_logprobs_num r
   \<and> br_token_ids_logprob r' = br_token_ids_logprob r \<and> sq_stream r' = sq_stream r \<and> sq_has_grammar r' = sq_has_grammar r
   \<and> br_vocab_size r' = br_vocab_size r \<and> br_has_tokenizer r' = br_has_tokenizer r \<and> sq_is_retracted r' = sq_is_retracted r
   \<and> rq_origin_input_ids (sq_mem r') = rq_origin_input_ids (sq_mem r) \<and> rq_kv_committed_len (sq_mem r') = rq_kv_committed_len (sq_mem r)"

lemma carries_refl [simp]: "carries r r"
  by (simp add: carries_def)

lemma carries_trans: "carries r r' \<Longrightarrow> carries r' r'' \<Longrightarrow> carries r r''"
  by (simp add: carries_def)

text \<open>The request after its token was appended and checked.\<close>

definition accepted :: "int \<Rightarrow> batch_req \<Rightarrow> batch_req \<Rightarrow> bool" where
  "accepted t r r' \<longleftrightarrow> carries r r' \<and> breq_out r' = breq_out r @ [t]
   \<and> (rq_req_pool_idx (sq_mem r') = rq_req_pool_idx (sq_mem r) \<or> sq_finished r' \<and> rq_req_pool_idx (sq_mem r') = None)
   \<and> (\<not> sq_finished r' \<longrightarrow> int (length (breq_out r')) < sq_max_new_tokens r')"

lemma accepted_trans: "accepted t r r' \<Longrightarrow> carries r' r'' \<Longrightarrow> sq_finished_reason r'' = sq_finished_reason r' \<Longrightarrow> sq_mem r'' = sq_mem r' \<Longrightarrow> accepted t r r''"
  by (auto simp: accepted_def carries_def)

lemma str_finish_ok:
  assumes "stop_params_ok r"
  shows "\<exists>b f. check_str_based_finish fe r = Inr (b, r\<lparr>sq_finished_reason := f\<rparr>)"
proof -
  obtain ss rs where p: "sp_stop_strs (breq_params r) = ManyStr ss" "sp_stop_regex_strs (breq_params r) = ManyStr rs"
     "ss = [] \<and> rs = [] \<or> br_has_tokenizer r \<and> sp_stop_str_max_len (breq_params r) \<noteq> None \<and> sp_stop_regex_max_len (breq_params r) \<noteq> None"
    using assms by (auto simp: stop_params_ok_def)
  have id: "\<exists>f. r = r\<lparr>sq_finished_reason := f\<rparr>" by (rule exI [of _ "sq_finished_reason r"]) simp
  show ?thesis
  proof (cases "ss = [] \<and> rs = []")
    case True
    then show ?thesis using p(1,2) id by (auto simp: check_str_based_finish_def py_strs_def)
  next
    case False
    then have q: "br_has_tokenizer r" "sp_stop_str_max_len (breq_params r) \<noteq> None" "sp_stop_regex_max_len (breq_params r) \<noteq> None" using p(3) by auto
    obtain tail where "tail_str fe r = Inr tail" using False p(1,2) q by (auto simp: tail_str_def py_strs_def Let_def)
    then show ?thesis using False p(1,2) id by (auto simp: check_str_based_finish_def py_strs_def split: option.splits)
  qed
qed

lemma token_finish_loop_shape: "\<exists>b f l. token_finish_loop pos ts r = (b, r\<lparr>sq_finished_reason := f, br_finished_len := l\<rparr>) \<and> (\<not> b \<longrightarrow> token_finish_loop pos ts r = (False, r))"
proof (induction pos ts r rule: token_finish_loop.induct)
  case (1 pos r)
  show ?case by (rule exI [of _ False], rule exI [of _ "sq_finished_reason r"], rule exI [of _ "br_finished_len r"]) simp
qed auto

lemma token_finish_shape:
  "\<exists>b f l. check_token_based_finish ts r = (b, r\<lparr>sq_finished_reason := f, br_finished_len := l\<rparr>) \<and> (\<not> b \<longrightarrow> check_token_based_finish ts r = (False, r))"
proof (cases "sq_ignore_eos r")
  case True
  show ?thesis
    by (rule exI [of _ False], rule exI [of _ "sq_finished_reason r"], rule exI [of _ "br_finished_len r"]) (simp add: check_token_based_finish_def True)
next
  case False
  show ?thesis using token_finish_loop_shape unfolding check_token_based_finish_def if_not_P [OF False] .
qed

lemma check_finished_shape:
  assumes "stop_params_ok r" "breq_out r = out @ [t]" "0 \<le> t" "t \<le> int (br_vocab_size r)" "\<not> sq_finished r"
  shows "\<exists>f tf l. check_finished fe 1 r = Inr (r\<lparr>sq_finished_reason := f, sq_to_finish := tf, br_finished_len := l\<rparr>)
     \<and> (f = None \<longrightarrow> int (length out) + 1 < sq_max_new_tokens r)"
proof -
  have last: "py_tail 1 (breq_out r) = [t]" using assms(2) by (simp add: py_tail_def)
  consider (to) reason where "sq_to_finish r = Some reason" | (len) "sq_to_finish r = None" "int (length (breq_out r)) \<ge> sq_max_new_tokens r"
    | (gram) "sq_to_finish r = None" "int (length (breq_out r)) < sq_max_new_tokens r" "sq_has_grammar r \<and> fe_terminated fe (sq_rid r) (br_grammar_tokens r)"
    | (rest) "sq_to_finish r = None" "int (length (breq_out r)) < sq_max_new_tokens r" "\<not> (sq_has_grammar r \<and> fe_terminated fe (sq_rid r) (br_grammar_tokens r))"
    by fastforce
  then show ?thesis
  proof cases
    case to
    then show ?thesis using assms(5) by (intro exI [of _ "Some reason"] exI [of _ None] exI [of _ "br_finished_len r"]) (simp add: check_finished_def)
  next
    case len
    then show ?thesis using assms(5)
      by (intro exI [of _ "Some (FINISH_LENGTH (sq_max_new_tokens r))"] exI [of _ None] exI [of _ "Some (sq_max_new_tokens r)"]) (simp add: check_finished_def)
  next
    case gram
    then show ?thesis using assms(2,5)
      by (intro exI [of _ "Some (FINISH_MATCHED_TOKEN t)"] exI [of _ None] exI [of _ "br_finished_len r"]) (simp add: check_finished_def)
  next
    case rest
    have lt: "int (length out) + 1 < sq_max_new_tokens r" using rest(2) assms(2) by simp
    obtain b f l where tk: "check_token_based_finish [t] r = (b, r\<lparr>sq_finished_reason := f, br_finished_len := l\<rparr>)"
       "\<not> b \<longrightarrow> check_token_based_finish [t] r = (False, r)"
      using token_finish_shape [of "[t]" r] by (elim exE conjE) (rule that)
    show ?thesis
    proof (cases b)
      case True
      then have "check_finished fe 1 r = Inr (r\<lparr>sq_finished_reason := f, sq_to_finish := None, br_finished_len := l\<rparr>)"
        using rest assms(5) tk(1) last by (auto simp: check_finished_def Let_def not_le)
      then show ?thesis using lt by blast
    next
      case False
      have v: "check_vocab_boundary_finish [t] r = (False, r)" using assms(3,4) by (simp add: check_vocab_boundary_finish_def)
      obtain b' f' where s: "check_str_based_finish fe r = Inr (b', r\<lparr>sq_finished_reason := f'\<rparr>)" using str_finish_ok [OF assms(1)] by blast
      have "check_finished fe 1 r = Inr (r\<lparr>sq_finished_reason := f', sq_to_finish := None, br_finished_len := br_finished_len r\<rparr>)"
        using rest assms(5) tk(2) False last v s by (auto simp: check_finished_def Let_def not_le)
      then show ?thesis using lt by blast
    qed
  qed
qed

lemma accept_output_shape:
  assumes "stop_params_ok r" "0 \<le> t" "t \<le> int (br_vocab_size r)" "\<not> sq_finished r"
  shows "\<exists>r'. accept_output re t r = Inr r' \<and> accepted t r r' \<and> (\<exists>k. sq_mem r' = (sq_mem (append_output t r))\<lparr>rq_reasoning_tokens := k\<rparr>)"
proof -
  let ?r = "append_output t r"
  obtain k ov where u: "maybe_update_reasoning_tokens (re_think_end_id re) t ?r
      = ?r\<lparr>sq_mem := (sq_mem ?r)\<lparr>rq_reasoning_tokens := k\<rparr>, br_is_reasoning_over := ov\<rparr>" (is "_ = ?r1")
  proof -
    have "\<exists>k ov. maybe_update_reasoning_tokens (re_think_end_id re) t ?r = ?r\<lparr>sq_mem := (sq_mem ?r)\<lparr>rq_reasoning_tokens := k\<rparr>, br_is_reasoning_over := ov\<rparr>"
    proof (cases "(\<exists>e. re_think_end_id re = Some e) \<and> br_require_reasoning ?r \<and> \<not> br_is_reasoning_over ?r")
      case True
      then obtain e where e: "re_think_end_id re = Some e" by blast
      show ?thesis
      proof (cases "e = t")
        case True
        then show ?thesis using e \<open>_ \<and> _\<close>
          by (intro exI [of _ "rq_reasoning_tokens (sq_mem ?r) + 1"] exI [of _ True]) (simp add: maybe_update_reasoning_tokens_def update_reasoning_tokens_def)
      next
        case False
        then show ?thesis using e \<open>_ \<and> _\<close>
          by (intro exI [of _ "rq_reasoning_tokens (sq_mem ?r) + 1"] exI [of _ "br_is_reasoning_over ?r"]) (simp add: maybe_update_reasoning_tokens_def update_reasoning_tokens_def)
      qed
    next
      case False
      then have "maybe_update_reasoning_tokens (re_think_end_id re) t ?r = ?r"
        by (auto simp: maybe_update_reasoning_tokens_def update_reasoning_tokens_def split: option.splits)
      then show ?thesis by (intro exI [of _ "rq_reasoning_tokens (sq_mem ?r)"] exI [of _ "br_is_reasoning_over ?r"]) simp
    qed
    then show ?thesis using that by blast
  qed
  have p: "stop_params_ok ?r1" "breq_out ?r1 = breq_out r @ [t]" "t \<le> int (br_vocab_size ?r1)" "\<not> sq_finished ?r1"
    using assms by (simp_all add: stop_params_ok_def append_output_def)
  obtain f tf l where c: "check_finished (re_finish re) 1 ?r1 = Inr (?r1\<lparr>sq_finished_reason := f, sq_to_finish := tf, br_finished_len := l\<rparr>)"
      "f = None \<longrightarrow> int (length (breq_out r)) + 1 < sq_max_new_tokens ?r1"
    using check_finished_shape [OF p(1,2) assms(2) p(3,4), of "re_finish re"] by blast
  have "accept_output re t r = Inr (?r1\<lparr>sq_finished_reason := f, sq_to_finish := tf, br_finished_len := l\<rparr>)"
    using c(1) u unfolding accept_output_def by (simp add: append_output_def)
  moreover have "accepted t r (?r1\<lparr>sq_finished_reason := f, sq_to_finish := tf, br_finished_len := l\<rparr>)"
    using c(2) by (auto simp: accepted_def carries_def append_output_def)
  ultimately show ?thesis by (intro exI conjI) auto
qed

section \<open>The memory of the batch\<close>

text \<open>The ownership of a request does not depend on its reasoning tokens.\<close>

lemma mem_inv_reqs:
  assumes "mem_inv env U G I (reqs, pool, c)" "length reqs' = length reqs"
    "\<And>i. i \<in> I \<Longrightarrow> \<exists>k. sq_mem (reqs' ! i) = (sq_mem (reqs ! i))\<lparr>rq_reasoning_tokens := k\<rparr>"
  shows "mem_inv env U G I (reqs', pool, c)"
proof -
  have k: "\<exists>k. sq_mem (reqs' ! i) = (sq_mem (reqs ! i))\<lparr>rq_reasoning_tokens := k\<rparr>" if "i \<in> I" for i using assms(3) that .
  have idx: "rq_req_pool_idx (sq_mem (reqs' ! i)) = rq_req_pool_idx (sq_mem (reqs ! i))" "rq_last_node (sq_mem (reqs' ! i)) = rq_last_node (sq_mem (reqs ! i))"
    "owns_kv sha c U pool (sq_mem (reqs' ! i)) gs = owns_kv sha c U pool (sq_mem (reqs ! i)) gs" if "i \<in> I" for i sha gs
    using k [OF that] by (auto simp: owns_kv_def req_key_def req_ids_def)
  then have "{i \<in> I. rq_last_node (sq_mem (reqs' ! i)) = Some x} = {i \<in> I. rq_last_node (sq_mem (reqs ! i)) = Some x}" for x by auto
  then show ?thesis using assms(1,2) idx by (simp add: mem_inv_def owners_def)
qed

text \<open>The batch as its memory sees it: the requests from position \<open>i\<close> on with their tokens appended.\<close>

definition look :: "int list \<Rightarrow> nat \<Rightarrow> batch_req list \<Rightarrow> batch_req list" where
  "look toks i reqs = map (\<lambda>j. if j < i then reqs ! j else append_output (toks ! j) (reqs ! j)) [0..<length reqs]"

lemma look_simps [simp]:
  "length (look toks i reqs) = length reqs"
  "j < length reqs \<Longrightarrow> look toks i reqs ! j = (if j < i then reqs ! j else append_output (toks ! j) (reqs ! j))"
  by (simp_all add: look_def)

lemma look_0: "length toks = length reqs \<Longrightarrow> look toks 0 reqs = map2 append_output toks reqs"
  by (intro nth_equalityI) simp_all

lemma look_end: "look toks (length reqs) reqs = reqs"
  by (intro nth_equalityI) simp_all

section \<open>The abort of requests\<close>

text \<open>A request that others only see aborted: its finish reason and its memory stay.\<close>

definition touched :: "batch_req \<Rightarrow> batch_req \<Rightarrow> bool" where
  "touched r r' \<longleftrightarrow> (\<exists>tf g. r' = r\<lparr>sq_to_finish := tf, br_grammar_tokens := g\<rparr>)"

lemma touched_refl [simp]: "touched r r"
  unfolding touched_def by (rule exI [of _ "sq_to_finish r"], rule exI [of _ "br_grammar_tokens r"]) simp

lemma touchedI: "touched r (r\<lparr>sq_to_finish := tf, br_grammar_tokens := g\<rparr>)"
  unfolding touched_def by (rule exI, rule exI, rule refl)

lemma touched_trans:
  assumes "touched r r'" "touched r' r''"
  shows "touched r r''"
proof -
  obtain tf g tf' g' where r: "r' = r\<lparr>sq_to_finish := tf, br_grammar_tokens := g\<rparr>" "r'' = r'\<lparr>sq_to_finish := tf', br_grammar_tokens := g'\<rparr>"
    using assms unfolding touched_def by blast
  have "r'' = r\<lparr>sq_to_finish := tf', br_grammar_tokens := g'\<rparr>" unfolding r by simp
  then show ?thesis by (simp only: touchedI)
qed

lemma touchedD:
  assumes "touched r r'"
  shows "carries r r'" "sq_mem r' = sq_mem r" "sq_finished_reason r' = sq_finished_reason r" "sq_is_retracted r' = sq_is_retracted r"
    "stop_params_ok r' = stop_params_ok r" "br_vocab_size r' = br_vocab_size r"
  using assms by (auto simp: touched_def carries_def stop_params_ok_def)

lemma touched_accepted: "accepted t r r' \<Longrightarrow> touched r' r'' \<Longrightarrow> accepted t r r''"
  using accepted_trans touchedD by blast

lemma touched_to_finish: "touched r (r\<lparr>sq_to_finish := tf\<rparr>)"
  using touchedI [where tf = tf and g = "br_grammar_tokens r" and r = r] by simp

lemma touched_grammar: "touched r (r\<lparr>br_grammar_tokens := g\<rparr>)"
  using touchedI [where tf = "sq_to_finish r" and g = g and r = r] by simp

lemma abort_running_touched [simp]: "touched r (abort_running al rid r)"
  by (simp add: abort_running_def touched_to_finish)

text \<open>Requests leave the waiting queue only with a notice.\<close>

definition queue_kept :: "result_state \<Rightarrow> result_state \<Rightarrow> bool" where
  "queue_kept s s' \<longleftrightarrow> set (rs_waiting_queue s') \<subseteq> set (rs_waiting_queue s) \<and> length (rs_waiting_queue s') \<le> length (rs_waiting_queue s)
   \<and> mset (map sq_rid (rs_waiting_queue s')) + mset (rs_aborted s') = mset (map sq_rid (rs_waiting_queue s)) + mset (rs_aborted s)"

lemma queue_kept_refl [simp]: "queue_kept s s"
  by (simp add: queue_kept_def)

lemma queue_kept_trans: "queue_kept s s' \<Longrightarrow> queue_kept s' s'' \<Longrightarrow> queue_kept s s''"
  by (auto simp: queue_kept_def)

text \<open>Popping the collected indices from the end is filtering; the popped requests come in reverse order.\<close>

lemma to_del_indices_snoc:
  "to_del_indices al rid (q @ [r]) = to_del_indices al rid q @ (if abort_selects al rid r then [length q] else [])"
  by (simp add: to_del_indices_def enumerate_append_eq)

lemma pop_each_to_del:
  "pop_each (rev (to_del_indices al rid q)) (q @ rest)
     = Inr (rev (filter (abort_selects al rid) q), filter (\<lambda>r. \<not> abort_selects al rid r) q @ rest)"
proof (induction q arbitrary: rest rule: rev_induct)
  case Nil
  show ?case by (simp add: to_del_indices_def)
next
  case (snoc r q)
  show ?case using snoc.IH [of rest] snoc.IH [of "r # rest"] by (simp add: to_del_indices_snoc nth_append)
qed

lemma abort_request_eq:
  "abort_request al rid s = Inr (s\<lparr>rs_waiting_queue := filter (\<lambda>r. \<not> abort_selects al rid r) (rs_waiting_queue s),
     rs_aborted := rs_aborted s @ rev (map sq_rid (filter (abort_selects al rid) (rs_waiting_queue s))),
     rs_grammar_queue := grammar_abort_requests al rid (rs_grammar_queue s),
     rs_others := map (abort_running al rid) (rs_others s), rs_batch := map (abort_running al rid) (rs_batch s)\<rparr>)"
  using pop_each_to_del [of al rid "rs_waiting_queue s" "[]"] by (simp add: abort_request_def rev_map)

lemma abort_request_queue:
  assumes "abort_request al rid s = Inr s'"
  shows "queue_kept s s'"
proof -
  have "mset (map sq_rid q) = mset (map sq_rid (filter P q)) + mset (map sq_rid (filter (\<lambda>r. \<not> P r) q))" for P and q :: "batch_req list"
    by (induction q) simp_all
  from this [of "rs_waiting_queue s" "abort_selects al rid"] show ?thesis
    using assms by (auto simp: queue_kept_def abort_request_eq simp del: mset_map)
qed

lemma grammar_accept_total: "\<exists>s'. grammar_accept re i t s = Inr s'"
  by (simp add: grammar_accept_def abort_request_eq Let_def)

lemma grammar_accept_effect:
  assumes "i < length (rs_batch s)" "grammar_accept re i t s = Inr s'"
  shows "length (rs_batch s') = length (rs_batch s) \<and> (\<forall>j<length (rs_batch s). touched (rs_batch s ! j) (rs_batch s' ! j))
     \<and> rs_pool s' = rs_pool s \<and> rs_cache s' = rs_cache s \<and> queue_kept s s'"
proof -
  let ?r = "rs_batch s ! i"
  have abort: ?thesis if "abort_request False (sq_rid ?r) s = Inr s'"
    using that abort_request_queue [OF that] by (auto simp: abort_request_eq)
  show ?thesis
  proof (cases "sq_has_grammar ?r \<and> \<not> re_accepts re (sq_rid ?r) (br_grammar_tokens ?r) t")
    case True
    then show ?thesis using assms(2) abort by (simp add: grammar_accept_def Let_def)
  next
    case False
    then have "s' = s \<or> s' = set_req i (?r\<lparr>br_grammar_tokens := br_grammar_tokens ?r @ [t]\<rparr>) s"
      using assms(2) by (auto simp: grammar_accept_def Let_def split: if_splits)
    then show ?thesis using assms(1) by (auto simp: touched_grammar nth_list_update queue_kept_def)
  qed
qed

section \<open>The loop\<close>

text \<open>The memory of the requests at \<open>I\<close>, and the clock of the environment, which the memory does not read.\<close>

lemma mem_inv_now [simp]: "mem_inv (env\<lparr>de_now := t\<rparr>) U G I st = mem_inv env U G I st"
  by (cases st) (simp add: mem_inv_def env_ok_def)

abbreviation kv_state :: "int list \<Rightarrow> nat \<Rightarrow> result_state \<Rightarrow> mem_state" where
  "kv_state toks i s \<equiv> (look toks i (rs_batch s), rs_pool s, rs_cache s)"

lemma release_finished_ok:
  assumes m: "mem_inv env U G I (reqs, rs_pool s, rs_cache s)" and j: "j \<in> I" "j < length (rs_batch s)" and r: "sq_mem (reqs ! j) = sq_mem r"
  shows "\<exists>m pool c U'. release_finished env re j r s = Inr (s\<lparr>rs_batch := (rs_batch s)[j := r\<lparr>sq_mem := m\<rparr>], rs_pool := pool, rs_cache := c\<rparr>)
     \<and> m = (sq_mem r)\<lparr>rq_kv_committed_freed := True, rq_kv_overallocated_freed := True, rq_req_pool_idx := None\<rparr>
     \<and> rp_req_to_token pool = rp_req_to_token (rs_pool s) \<and> mem_inv env U' G (I - {j}) (reqs, pool, c)
     \<and> rc_same (rs_cache s) c \<and> others c U' = others (rs_cache s) U - req_pages (rs_cache s) (G j)"
proof -
  let ?env = "env\<lparr>de_now := fst (re_clock re j)\<rparr>"
  have m': "mem_inv ?env U G I (reqs, rs_pool s, rs_cache s)" using m by simp
  obtain i c U' where rel: "release_kv_cache (de_sha env) (fst (re_clock re j)) (de_strip_thinking_cache env) (de_spec env = SpecNone) (de_page_size env) True
          (sq_mem r) (rs_pool s) (rs_cache s)
        = Inr ((sq_mem r)\<lparr>rq_kv_committed_freed := True, rq_kv_overallocated_freed := True, rq_req_pool_idx := None\<rparr>,
               (rs_pool s)\<lparr>rp_free_slots := rp_free_slots (rs_pool s) @ [i]\<rparr>, c)"
     "mem_inv env U' G (I - {j}) (reqs, (rs_pool s)\<lparr>rp_free_slots := rp_free_slots (rs_pool s) @ [i]\<rparr>, c)"
     "rc_same (rs_cache s) c" "others c U' = others (rs_cache s) U - req_pages (rs_cache s) (G j)"
    using mem_inv_release [OF m' j(1), of True] unfolding r by auto
  show ?thesis
    by (rule exI [of _ "(sq_mem r)\<lparr>rq_kv_committed_freed := True, rq_kv_overallocated_freed := True, rq_req_pool_idx := None\<rparr>"],
        rule exI [of _ "(rs_pool s)\<lparr>rp_free_slots := rp_free_slots (rs_pool s) @ [i]\<rparr>"], rule exI [of _ c], rule exI [of _ U'])
      (use rel in \<open>simp add: release_finished_def\<close>)
qed

text \<open>What one step of the loop does to the rest of the scheduler.\<close>

definition step_frame :: "nat \<Rightarrow> result_state \<Rightarrow> result_state \<Rightarrow> bool" where
  "step_frame i s s' \<longleftrightarrow> length (rs_batch s') = length (rs_batch s)
   \<and> (\<forall>j<length (rs_batch s). j \<noteq> i \<longrightarrow> touched (rs_batch s ! j) (rs_batch s' ! j))
   \<and> rp_req_to_token (rs_pool s') = rp_req_to_token (rs_pool s) \<and> rc_same (rs_cache s) (rs_cache s') \<and> queue_kept s s'"

lemma decode_result_step_ok:
  assumes m: "mem_inv env U G I (kv_state toks i s)" and i: "i \<in> I" "i < length (rs_batch s)" "length toks = length (rs_batch s)"
    and r: "stop_params_ok (rs_batch s ! i)" "0 \<le> toks ! i" "toks ! i \<le> int (br_vocab_size (rs_batch s ! i))" "\<not> sq_finished (rs_batch s ! i)"
      "\<not> (ov \<and> sq_is_retracted (rs_batch s ! i))"
  shows "\<exists>s' U' r. decode_result_step env re ov toks i s = Inr s' \<and> step_frame i s s' \<and> rs_batch s' ! i = r \<and> accepted (toks ! i) (rs_batch s ! i) r
     \<and> mem_inv env U' G (if sq_finished r then I - {i} else I) (kv_state toks (Suc i) s')
     \<and> others (rs_cache s') U' = others (rs_cache s) U - (if sq_finished r then req_pages (rs_cache s) (G i) else {})"
proof -
  let ?r = "rs_batch s ! i" and ?t = "toks ! i"
  obtain r1 k where a: "accept_output re ?t ?r = Inr r1" "accepted ?t ?r r1" "sq_mem r1 = (sq_mem (append_output ?t ?r))\<lparr>rq_reasoning_tokens := k\<rparr>"
    using accept_output_shape [OF r(1-4), of re] by blast
  let ?reqs = "(look toks i (rs_batch s))[i := r1]"
  have m1: "mem_inv env U G I (?reqs, rs_pool s, rs_cache s)"
  proof (rule mem_inv_reqs [OF m])
    show "\<exists>k. sq_mem (?reqs ! j) = (sq_mem (look toks i (rs_batch s) ! j))\<lparr>rq_reasoning_tokens := k\<rparr>" if "j \<in> I" for j
      using i(2) a(3) by (cases "j = i") (auto intro: exI [of _ "rq_reasoning_tokens (sq_mem (look toks i (rs_batch s) ! j))"])
  qed simp
  obtain s1 U1 where s1: "handle_finished_req env re i r1 s = Inr s1" "length (rs_batch s1) = length (rs_batch s)"
      "\<forall>j<length (rs_batch s). j \<noteq> i \<longrightarrow> rs_batch s1 ! j = rs_batch s ! j" "rp_req_to_token (rs_pool s1) = rp_req_to_token (rs_pool s)"
      "rc_same (rs_cache s) (rs_cache s1)" "queue_kept s s1" "accepted ?t ?r (rs_batch s1 ! i)" "sq_finished (rs_batch s1 ! i) = sq_finished r1"
      "\<not> sq_finished r1 \<longrightarrow> rs_batch s1 ! i = r1"
      "mem_inv env U1 G (if sq_finished r1 then I - {i} else I) (?reqs, rs_pool s1, rs_cache s1)"
      "others (rs_cache s1) U1 = others (rs_cache s) U - (if sq_finished r1 then req_pages (rs_cache s) (G i) else {})"
  proof (cases "sq_finished r1")
    case True
    have ri: "sq_mem (?reqs ! i) = sq_mem r1" using i(2) by simp
    obtain mm pool c U' where f: "release_finished env re i r1 s = Inr (s\<lparr>rs_batch := (rs_batch s)[i := r1\<lparr>sq_mem := mm\<rparr>], rs_pool := pool, rs_cache := c\<rparr>)"
       "mm = (sq_mem r1)\<lparr>rq_kv_committed_freed := True, rq_kv_overallocated_freed := True, rq_req_pool_idx := None\<rparr>"
       "rp_req_to_token pool = rp_req_to_token (rs_pool s)" "mem_inv env U' G (I - {i}) (?reqs, pool, c)"
       "rc_same (rs_cache s) c" "others c U' = others (rs_cache s) U - req_pages (rs_cache s) (G i)"
      using release_finished_ok [OF m1 i(1,2) ri, of re] by blast
    have "accepted ?t ?r (r1\<lparr>sq_mem := mm\<rparr>)" using a(2) True f(2) by (simp add: accepted_def carries_def)
    then show ?thesis using True f i(2)
      by (intro that [of "s\<lparr>rs_batch := (rs_batch s)[i := r1\<lparr>sq_mem := mm\<rparr>], rs_pool := pool, rs_cache := c\<rparr>" U'])
        (simp_all add: handle_finished_req_def queue_kept_def)
  next
    case False
    have "rc_same (rs_cache s) (rs_cache s)" by (simp add: rc_same_def)
    then show ?thesis using False m1 a(2) i(2)
      by (intro that [of "s\<lparr>rs_batch := (rs_batch s)[i := r1]\<rparr>" U]) (simp_all add: handle_finished_req_def queue_kept_def)
  qed
  obtain s2 where s2: "grammar_accept re i ?t s1 = Inr s2" using grammar_accept_total by blast
  have i1: "i < length (rs_batch s1)" using i(2) s1(2) by simp
  note g = grammar_accept_effect [OF i1 s2]
  have tch: "touched (rs_batch s1 ! j) (rs_batch s2 ! j)" if "j < length (rs_batch s)" for j using g s1(2) that by simp
  have fin: "sq_finished (rs_batch s2 ! i) = sq_finished r1" using touchedD(3) [OF tch [OF i(2)]] s1(8) by simp
  have "mem_inv env U1 G (if sq_finished r1 then I - {i} else I) (kv_state toks (Suc i) s2)"
  proof -
    have sub: "j < length (rs_batch s)" if "j \<in> I" for j using m that by (auto simp: mem_inv_def)
    have "\<exists>k. sq_mem (look toks (Suc i) (rs_batch s2) ! j) = (sq_mem (?reqs ! j))\<lparr>rq_reasoning_tokens := k\<rparr>"
      if "j \<in> (if sq_finished r1 then I - {i} else I)" for j
    proof -
      have j: "j < length (rs_batch s)" "j = i \<Longrightarrow> \<not> sq_finished r1" using that sub by (auto split: if_splits)
      have e: "sq_mem (rs_batch s2 ! j) = sq_mem (rs_batch s1 ! j)" by (rule touchedD(2) [OF tch [OF j(1)]])
      have "sq_mem (look toks (Suc i) (rs_batch s2) ! j) = sq_mem (?reqs ! j)"
      proof (cases "j = i")
        case True
        then show ?thesis using j g s1(2,9) e i(2) by simp
      next
        case False
        then show ?thesis using j g s1(2,3) e i(2) by (auto simp: append_output_def less_Suc_eq)
      qed
      then show ?thesis by (intro exI [of _ "rq_reasoning_tokens (sq_mem (?reqs ! j))"]) simp
    qed
    moreover have "length (look toks (Suc i) (rs_batch s2)) = length ?reqs" using g s1(2) by simp
    ultimately show ?thesis using mem_inv_reqs [OF s1(10)] g by simp
  qed
  moreover have "step_frame i s s2"
    unfolding step_frame_def using g s1(2-6) tch queue_kept_trans by (metis)
  moreover have "accepted ?t ?r (rs_batch s2 ! i)" by (rule touched_accepted [OF s1(7) tch [OF i(2)]])
  moreover have "decode_result_step env re ov toks i s = Inr s2"
    using a(1) s1(1) s2 r(4,5) i(2,3) by (auto simp: decode_result_step_def Let_def)
  ultimately show ?thesis using fin s1(11) g by (intro exI [of _ s2] exI [of _ U1]) simp
qed

lemma touched_then_accepted:
  assumes "touched r r'" "accepted t r' r''"
  shows "accepted t r r''"
proof -
  have "carries r r''" using carries_trans [OF touchedD(1) [OF assms(1)]] assms(2) unfolding accepted_def by blast
  then show ?thesis using assms(2) unfolding accepted_def touchedD(2) [OF assms(1)] by blast
qed

definition results_ready :: "bool \<Rightarrow> int \<Rightarrow> batch_req \<Rightarrow> bool" where
  "results_ready ov t r \<longleftrightarrow> stop_params_ok r \<and> 0 \<le> t \<and> t \<le> int (br_vocab_size r) \<and> \<not> sq_finished r \<and> \<not> (ov \<and> sq_is_retracted r)"

lemma results_ready_touched: "touched r r' \<Longrightarrow> results_ready ov t r' = results_ready ov t r"
  by (simp add: results_ready_def touchedD(3-6))

text \<open>After the loop: every request from \<open>i\<close> on has its token, the finished ones own nothing any more.\<close>

definition loop_done :: "decode_env \<Rightarrow> (nat \<Rightarrow> int list) \<Rightarrow> nat set \<Rightarrow> int list \<Rightarrow> nat \<Rightarrow> int set \<Rightarrow> result_state \<Rightarrow> int set \<Rightarrow> result_state \<Rightarrow> bool" where
  "loop_done env G I toks i U s U' s' \<longleftrightarrow> length (rs_batch s') = length (rs_batch s)
   \<and> (\<forall>j<length (rs_batch s). if j < i then touched (rs_batch s ! j) (rs_batch s' ! j) else accepted (toks ! j) (rs_batch s ! j) (rs_batch s' ! j))
   \<and> rp_req_to_token (rs_pool s') = rp_req_to_token (rs_pool s) \<and> rc_same (rs_cache s) (rs_cache s') \<and> queue_kept s s'
   \<and> mem_inv env U' G {j \<in> I. \<not> sq_finished (rs_batch s' ! j)} (rs_batch s', rs_pool s', rs_cache s')
   \<and> others (rs_cache s') U' = others (rs_cache s) U
        - (\<Union>j\<in>{j. i \<le> j \<and> j < length (rs_batch s) \<and> sq_finished (rs_batch s' ! j)}. req_pages (rs_cache s) (G j))"

lemma decode_result_loop_ok:
  assumes "mem_inv env U G I (kv_state toks i s)" "i + n = length (rs_batch s)" "length toks = length (rs_batch s)" "{i..<length (rs_batch s)} \<subseteq> I"
    "\<forall>j\<in>I. j < i \<longrightarrow> \<not> sq_finished (rs_batch s ! j)" "\<forall>j<length (rs_batch s). i \<le> j \<longrightarrow> results_ready ov (toks ! j) (rs_batch s ! j)"
  shows "\<exists>s' U'. decode_result_loop env re ov toks i n s = Inr s' \<and> loop_done env G I toks i U s U' s'"
  using assms
proof (induction n arbitrary: i U I s)
  case 0
  have il: "i = length (rs_batch s)" using 0 by simp
  have sub: "I \<subseteq> {..<length (rs_batch s)}" using "0.prems"(1) by (simp add: mem_inv_def)
  then have I: "{j \<in> I. \<not> sq_finished (rs_batch s ! j)} = I" using "0.prems"(5) il by auto
  have "loop_done env G I toks i U s U s" unfolding loop_done_def I
    using "0.prems"(1) look_end [of toks "rs_batch s"] by (auto simp: il rc_same_def)
  then show ?case by auto
next
  case (Suc n)
  let ?N = "length (rs_batch s)"
  have i: "i < ?N" "i \<in> I" using Suc.prems(2,4) by auto
  have ri: "results_ready ov (toks ! i) (rs_batch s ! i)" using Suc.prems(6) i(1) by simp
  obtain s1 U1 r where st: "decode_result_step env re ov toks i s = Inr s1" "step_frame i s s1" "rs_batch s1 ! i = r" "accepted (toks ! i) (rs_batch s ! i) r"
     "mem_inv env U1 G (if sq_finished r then I - {i} else I) (kv_state toks (Suc i) s1)"
     "others (rs_cache s1) U1 = others (rs_cache s) U - (if sq_finished r then req_pages (rs_cache s) (G i) else {})"
    using decode_result_step_ok [OF Suc.prems(1) i(2,1) Suc.prems(3), of ov re] ri unfolding results_ready_def by blast
  let ?I = "if sq_finished r then I - {i} else I"
  note F = st(2) [unfolded step_frame_def]
  have len: "length (rs_batch s1) = ?N" using F by simp
  have tch: "touched (rs_batch s ! j) (rs_batch s1 ! j)" if "j < ?N" "j \<noteq> i" for j using F that by simp
  have prem: "Suc i + n = length (rs_batch s1)" "length toks = length (rs_batch s1)" "{Suc i..<length (rs_batch s1)} \<subseteq> ?I"
    using Suc.prems(2-4) len by auto
  have old: "\<forall>j\<in>?I. j < Suc i \<longrightarrow> \<not> sq_finished (rs_batch s1 ! j)"
  proof (intro ballI impI)
    fix j assume j: "j \<in> ?I" "j < Suc i"
    show "\<not> sq_finished (rs_batch s1 ! j)"
    proof (cases "j = i")
      case True
      then show ?thesis using j(1) st(3) by (simp split: if_splits)
    next
      case False
      then have "j < i" "j \<in> I" "j < ?N" using j i by (auto split: if_splits)
      then show ?thesis using Suc.prems(5) touchedD(3) [OF tch [of j]] False by simp
    qed
  qed
  have new: "\<forall>j<length (rs_batch s1). Suc i \<le> j \<longrightarrow> results_ready ov (toks ! j) (rs_batch s1 ! j)"
    using Suc.prems(6) results_ready_touched [OF tch] len by simp
  obtain s' U' where L: "decode_result_loop env re ov toks (Suc i) n s1 = Inr s'" "loop_done env G ?I toks (Suc i) U1 s1 U' s'"
    using Suc.IH [OF st(5) prem old new] by blast
  note D = L(2) [unfolded loop_done_def len]
  have ti: "touched r (rs_batch s' ! i)" using D i(1) st(3) by auto
  have fi: "sq_finished (rs_batch s' ! i) = sq_finished r" by (simp add: touchedD(3) [OF ti])
  have acc: "if j < i then touched (rs_batch s ! j) (rs_batch s' ! j) else accepted (toks ! j) (rs_batch s ! j) (rs_batch s' ! j)" if j: "j < ?N" for j
  proof (cases "j = i")
    case True
    then show ?thesis using touched_accepted [OF st(4) ti] by simp
  next
    case False
    have "if j < Suc i then touched (rs_batch s1 ! j) (rs_batch s' ! j) else accepted (toks ! j) (rs_batch s1 ! j) (rs_batch s' ! j)" using D j by blast
    then show ?thesis using tch [OF j False] touched_trans touched_then_accepted False by (cases "j < i") auto
  qed
  have J: "{j \<in> ?I. \<not> sq_finished (rs_batch s' ! j)} = {j \<in> I. \<not> sq_finished (rs_batch s' ! j)}" using fi by auto
  have pg: "rc_page_size (rs_cache s1) = rc_page_size (rs_cache s)" using F by (simp add: rc_same_def)
  have W: "{j. i \<le> j \<and> j < ?N \<and> sq_finished (rs_batch s' ! j)}
      = (if sq_finished r then {i} else {}) \<union> {j. Suc i \<le> j \<and> j < ?N \<and> sq_finished (rs_batch s' ! j)}"
    using fi i(1) le_eq_less_or_eq by auto
  have oth: "others (rs_cache s') U' = others (rs_cache s) U
      - (\<Union>j\<in>{j. i \<le> j \<and> j < ?N \<and> sq_finished (rs_batch s' ! j)}. req_pages (rs_cache s) (G j))"
    using D st(6) unfolding W pg by auto
  have "loop_done env G I toks i U s U' s'"
    unfolding loop_done_def
  proof (intro conjI)
    show "\<forall>j<?N. if j < i then touched (rs_batch s ! j) (rs_batch s' ! j) else accepted (toks ! j) (rs_batch s ! j) (rs_batch s' ! j)" using acc by blast
    show "queue_kept s s'" using D F queue_kept_trans by blast
    show "rc_same (rs_cache s) (rs_cache s')" using D F rc_same_trans by blast
    show "mem_inv env U' G {j \<in> I. \<not> sq_finished (rs_batch s' ! j)} (rs_batch s', rs_pool s', rs_cache s')" using D unfolding J by blast
  qed (use D F oth in auto)
  then show ?case using st(1) L(1) by auto
qed

end
