(* ===== verification/Result_Group.thy ===== *)
theory Result_Group
  imports Decode_Result
begin

text \<open>
  \<open>process_batch_result_decode\<close> as a whole: the loop over the requests, with the frees of the
  requests that end collected in a group and executed after it.
\<close>

section \<open>The loop does not read the allocator\<close>

definition rs_with :: "kv_alloc \<Rightarrow> result_state \<Rightarrow> result_state" where
  "rs_with a s = s\<lparr>rs_cache := with_alloc a (rs_cache s)\<rparr>"

lemma rs_with_fields [simp]:
  "rs_batch (rs_with a s) = rs_batch s" "rs_others (rs_with a s) = rs_others s" "rs_pool (rs_with a s) = rs_pool s"
  "rs_cache (rs_with a s) = with_alloc a (rs_cache s)" "rs_waiting_queue (rs_with a s) = rs_waiting_queue s"
  "rs_grammar_queue (rs_with a s) = rs_grammar_queue s" "rs_aborted (rs_with a s) = rs_aborted s"
  by (simp_all add: rs_with_def)

lemma grammar_accept_with:
  "grammar_accept re i t s = Inr s' \<Longrightarrow> grammar_accept re i t (rs_with a s) = Inr (rs_with a s')"
  by (auto simp: grammar_accept_def abort_request_eq Let_def rs_with_def split: if_splits)

lemma grammar_accept_cache: "grammar_accept re i t s = Inr s' \<Longrightarrow> rs_cache s' = rs_cache s"
  by (auto simp: grammar_accept_def abort_request_eq Let_def split: if_splits)

definition same_frees :: "(result_state \<Rightarrow> result_state res) \<Rightarrow> result_state \<Rightarrow> result_state \<Rightarrow> bool" where
  "same_frees f s s' \<longleftrightarrow> (\<exists>fs. kv_frees fs (rc_allocator (rs_cache s)) = Inr (rc_allocator (rs_cache s'))
     \<and> (\<forall>a a'. kv_frees fs a = Inr a' \<longrightarrow> f (rs_with a s) = Inr (rs_with a' s')))"

lemma handle_finished_frees:
  assumes "handle_finished_req env re i r s = Inr s'"
  shows "same_frees (handle_finished_req env re i r) s s'"
proof (cases "sq_finished r")
  case True
  obtain m pool c where r: "release_kv_cache (de_sha env) (fst (re_clock re i)) (de_strip_thinking_cache env) (de_spec env = SpecNone) (de_page_size env) True
        (sq_mem r) (rs_pool s) (rs_cache s) = Inr (m, pool, c)"
      "s' = s\<lparr>rs_batch := (rs_batch s)[i := r\<lparr>sq_mem := m\<rparr>], rs_pool := pool, rs_cache := c\<rparr>"
    using assms True by (auto simp: handle_finished_req_def release_finished_def rbind_eq_Inr_iff)
  obtain fs where "kv_frees fs (rc_allocator (rs_cache s)) = Inr (rc_allocator c)"
     "\<forall>a a'. kv_frees fs a = Inr a' \<longrightarrow> release_kv_cache (de_sha env) (fst (re_clock re i)) (de_strip_thinking_cache env) (de_spec env = SpecNone)
        (de_page_size env) True (sq_mem r) (rs_pool s) (with_alloc a (rs_cache s)) = Inr (m, pool, with_alloc a' c)"
    using release_kv_cache_frees [OF r(1)] by blast
  then show ?thesis unfolding same_frees_def using True r(2)
    by (intro exI [of _ fs]) (auto simp: handle_finished_req_def release_finished_def rs_with_def)
next
  case False
  then have "s' = s\<lparr>rs_batch := (rs_batch s)[i := r]\<rparr>" using assms by (simp add: handle_finished_req_def)
  then show ?thesis unfolding same_frees_def using False by (intro exI [of _ "[]"]) (auto simp: handle_finished_req_def rs_with_def)
qed

lemma decode_result_step_frees:
  assumes "decode_result_step env re ov toks i s = Inr s'"
  shows "same_frees (decode_result_step env re ov toks i) s s'"
proof (cases "ov \<and> (sq_finished (rs_batch s ! i) \<or> sq_is_retracted (rs_batch s ! i))")
  case True
  then have "s' = s" using assms by (simp add: decode_result_step_def Let_def)
  then show ?thesis unfolding same_frees_def using True by (intro exI [of _ "[]"]) (auto simp: decode_result_step_def Let_def)
next
  case False
  obtain r1 s1 where a: "i < length toks" "accept_output re (toks ! i) (rs_batch s ! i) = Inr r1" "handle_finished_req env re i r1 s = Inr s1"
      "grammar_accept re i (toks ! i) s1 = Inr s'"
    using assms False by (auto simp: decode_result_step_def Let_def rbind_eq_Inr_iff split: if_splits)
  obtain fs where f: "kv_frees fs (rc_allocator (rs_cache s)) = Inr (rc_allocator (rs_cache s1))"
     "\<forall>a a'. kv_frees fs a = Inr a' \<longrightarrow> handle_finished_req env re i r1 (rs_with a s) = Inr (rs_with a' s1)"
    using handle_finished_frees [OF a(3)] unfolding same_frees_def by blast
  show ?thesis unfolding same_frees_def
    by (rule exI [of _ fs]) (use f a False grammar_accept_cache [OF a(4)] grammar_accept_with [OF a(4)] in \<open>auto simp: decode_result_step_def Let_def\<close>)
qed

lemma decode_result_loop_frees:
  "decode_result_loop env re ov toks i n s = Inr s' \<Longrightarrow> same_frees (decode_result_loop env re ov toks i n) s s'"
proof (induction n arbitrary: i s)
  case 0
  then show ?case by (auto simp: same_frees_def intro: exI [of _ "[]"])
next
  case (Suc n)
  obtain s1 where s1: "decode_result_step env re ov toks i s = Inr s1" "decode_result_loop env re ov toks (Suc i) n s1 = Inr s'"
    using Suc.prems by (auto simp: rbind_eq_Inr_iff)
  obtain fs where f: "kv_frees fs (rc_allocator (rs_cache s)) = Inr (rc_allocator (rs_cache s1))"
     "\<forall>a a'. kv_frees fs a = Inr a' \<longrightarrow> decode_result_step env re ov toks i (rs_with a s) = Inr (rs_with a' s1)"
    using decode_result_step_frees [OF s1(1)] unfolding same_frees_def by blast
  obtain gs where g: "kv_frees gs (rc_allocator (rs_cache s1)) = Inr (rc_allocator (rs_cache s'))"
     "\<forall>a a'. kv_frees gs a = Inr a' \<longrightarrow> decode_result_loop env re ov toks (Suc i) n (rs_with a s1) = Inr (rs_with a' s')"
    using Suc.IH [OF s1(2)] unfolding same_frees_def by blast
  show ?case unfolding same_frees_def by (rule exI [of _ "fs @ gs"]) (use f g in \<open>auto simp: rbind_eq_Inr_iff\<close>)
qed

section \<open>Memory with another allocator\<close>

lemma mem_inv_alloc:
  assumes m: "mem_inv env U G I (reqs, pool, c)" and a: "kv_inv a U" "al_page_size a = rc_page_size c"
  shows "mem_inv env U G I (reqs, pool, with_alloc a c)"
proof -
  have h: "env_ok env c" "rc_enabled c" "rc_slots c (content c) U" "I \<subseteq> {..<length reqs}"
     "owners (de_sha env) c U pool (\<lambda>i. sq_mem (reqs ! i)) G I" using m by (simp_all add: mem_inv_def)
  note au = alloc_upd [OF h(2), where a = a, folded with_alloc_def]
  have sn: "same_node c (with_alloc a c) x" if "x \<in> live c" for x using that au(3,6) by (simp add: same_node_def)
  have "owners (de_sha env) (with_alloc a c) U pool (\<lambda>i. sq_mem (reqs ! i)) G I"
  proof (rule owners_transfer [OF h(5) au(5)])
    show "req_pages c (G i) \<subseteq> others (with_alloc a c) U" if "i \<in> I" for i
    proof -
      have "owns_kv (de_sha env) c U pool (sq_mem (reqs ! i)) (G i)" using h(5) that by (simp add: owners_def)
      then show ?thesis using au(2) by (auto simp: others_def elim!: ownsD)
    qed
    show "int (card {i \<in> I. rq_last_node (sq_mem (reqs ! i)) = Some x}) \<le> held (with_alloc a c) (live (with_alloc a c)) x"
      if "x \<in> live (with_alloc a c) - {rc_root c}" for x
      using h(5) that by (simp add: owners_def au)
  qed (use sn in simp_all)
  moreover have "rc_slots (with_alloc a c) (content (with_alloc a c)) U" using h(3) a au(2) by (simp add: rc_slots_def)
  moreover have "env_ok env (with_alloc a c)" using h(1) by (simp add: env_ok_def)
  ultimately show ?thesis using au(1) h(4) by (simp add: mem_inv_def)
qed

lemma decode_results_ok:
  assumes m: "mem_inv env U G {..<length (rs_batch s)} (map2 append_output toks (rs_batch s), rs_pool s, rs_cache s)"
    and toks: "length toks = length (rs_batch s)" "\<forall>j<length (rs_batch s). results_ready ov (toks ! j) (rs_batch s ! j)"
  shows "\<exists>s' U'. process_batch_result_decode env re ov toks s = Inr s' \<and> loop_done env G {..<length (rs_batch s)} toks 0 U s U' s'"
proof -
  let ?N = "length (rs_batch s)" and ?a = "rc_allocator (rs_cache s)"
  have m0: "mem_inv env U G {..<?N} (kv_state toks 0 s)" using m look_0 [OF toks(1)] by simp
  obtain s1 U1 where L: "decode_result_loop env re ov toks 0 ?N s = Inr s1" "loop_done env G {..<?N} toks 0 U s U1 s1"
    using decode_result_loop_ok [OF m0 _ toks(1), of ?N ov re] toks(2) by (auto simp: atLeast0LessThan)
  note D = L(2) [unfolded loop_done_def]
  obtain fs where fs: "kv_frees fs ?a = Inr (rc_allocator (rs_cache s1))"
     "\<forall>a a'. kv_frees fs a = Inr a' \<longrightarrow> decode_result_loop env re ov toks 0 ?N (rs_with a s) = Inr (rs_with a' s1)"
    using decode_result_loop_frees [OF L(1)] unfolding same_frees_def by blast
  have sl: "rc_slots (rs_cache s) (content (rs_cache s)) U" "rc_slots (rs_cache s1) (content (rs_cache s1)) U1" "rc_enabled (rs_cache s1)"
    using m D by (simp_all add: mem_inv_def)
  have inv: "kv_inv ?a U" "kv_inv (rc_allocator (rs_cache s1)) U1" "al_page_size (rc_allocator (rs_cache s1)) = rc_page_size (rs_cache s1)"
    using sl by (simp_all add: rc_slots_def)
  obtain g a2 where g: "kv_frees fs (free_group_begin ?a) = Inr g" "kv_free_group_end g = Inr a2" "kv_inv a2 U1" "al_page_size a2 = rc_page_size (rs_cache s1)"
    using free_group_same_slots [OF inv(1) fs(1) inv(2)] inv(3) by auto
  have run: "decode_result_loop env re ov toks 0 ?N (rs_with (free_group_begin ?a) s) = Inr (rs_with g s1)" using fs(2) g(1) by blast
  have P: "process_batch_result_decode env re ov toks s = Inr (rs_with a2 s1)"
    using run g(2) unfolding process_batch_result_decode_def Let_def rs_with_def with_alloc_def by simp
  note au = alloc_upd [OF sl(3), where a = a2, folded with_alloc_def]
  have "mem_inv env U1 G {j \<in> {..<?N}. \<not> sq_finished (rs_batch s1 ! j)} (rs_batch s1, rs_pool s1, with_alloc a2 (rs_cache s1))"
    by (rule mem_inv_alloc [OF _ g(3,4)]) (use D in blast)
  moreover have "others (with_alloc a2 (rs_cache s1)) U1 = others (rs_cache s1) U1" using au(2) by (simp add: others_def)
  moreover have "rc_same (rs_cache s) (with_alloc a2 (rs_cache s1))" using D au(5) by (auto intro: rc_same_trans)
  moreover have "queue_kept s (rs_with a2 s1)" using D unfolding queue_kept_def rs_with_fields by argo
  ultimately have "loop_done env G {..<?N} toks 0 U s U1 (rs_with a2 s1)" using D unfolding loop_done_def rs_with_fields
    by (elim conjE, intro conjI; (assumption | simp only:))
  then show ?thesis using P by blast
qed

end
