(* ===== verification/Decode_Rounds.thy ===== *)
theory Decode_Rounds
  imports Result_Group
begin

text \<open>
  Rounds of decoding: the running batch is updated, a token is sampled for each of its requests and
  the results are processed. A state from which a round is safe is again reached after it, so any
  number of rounds is, and every request leaves the batch after finitely many.
\<close>

section \<open>Where the requests of a step come from\<close>

lemma store_cells_lengths: "store_cells xs rows = Inr rows' \<Longrightarrow> map length rows' = map length rows"
proof (induction xs rows rule: store_cells.induct)
  case (2 r k v xs rows)
  then show ?case by (auto simp: map_update list_update_same_conv split: if_splits)
qed simp

definition step_from :: "batch_req list \<Rightarrow> bool \<Rightarrow> req_pool \<Rightarrow> decode_state \<Rightarrow> bool" where
  "step_from reqs ov pool s' \<longleftrightarrow> set (bt_reqs (ds_running_batch s')) \<subseteq> committed_one_more ` set reqs
   \<and> map length (rp_req_to_token (ds_req_to_token_pool s')) = map length (rp_req_to_token pool)
   \<and> (bt_reqs (ds_running_batch s') \<noteq> [] \<longrightarrow> bt_enable_overlap (ds_running_batch s') = ov \<and> \<not> bt_is_encoder_decoder (ds_running_batch s'))
   \<and> length (bt_reqs (ds_running_batch s')) \<le> length reqs"

lemma alloc_for_decode_lengths:
  "alloc_for_decode env k b pool c = Inr (out, pool', c') \<Longrightarrow> map length (rp_req_to_token pool') = map length (rp_req_to_token pool)"
  by (auto simp: alloc_for_decode_def pool_scatter_def rbind_eq_Inr_iff dest!: store_cells_lengths)

lemma step_end_from:
  assumes "step_end env bs s = Inr s'" "bt_reqs (ds_running_batch s) \<noteq> [] \<Longrightarrow> bt_enable_overlap (ds_running_batch s) = ov \<and> \<not> bt_is_encoder_decoder (ds_running_batch s)"
  shows "step_from (bt_reqs (ds_running_batch s)) ov (ds_req_to_token_pool s) s'"
proof -
  define b3 where "b3 = (if length (bt_reqs (ds_running_batch s)) < bs then (ds_running_batch s)\<lparr>bt_batch_is_full := False\<rparr> else ds_running_batch s)"
  have b3: "bt_reqs b3 = bt_reqs (ds_running_batch s)" "bt_is_encoder_decoder b3 = bt_is_encoder_decoder (ds_running_batch s)"
    "bt_enable_overlap b3 = bt_enable_overlap (ds_running_batch s)" by (simp_all add: b3_def)
  show ?thesis
  proof (cases "bt_reqs b3 = []")
    case True
    then have "s' = s\<lparr>ds_running_batch := b3\<rparr>" using assms(1) unfolding step_end_def b3_def [symmetric] Let_def by simp
    then show ?thesis using True by (simp add: step_from_def)
  next
    case False
    obtain b4 pool4 c4 where p: "prepare_for_decode env b3 (ds_req_to_token_pool s) (ds_tree_cache s) = Inr (b4, pool4, c4)"
        "s' = s\<lparr>ds_running_batch := b4, ds_req_to_token_pool := pool4, ds_tree_cache := c4\<rparr>"
      using assms(1) False unfolding step_end_def b3_def [symmetric] Let_def by (auto simp: rbind_eq_Inr_iff)
    have "bt_reqs b4 = map committed_one_more (bt_reqs b3) \<and> bt_enable_overlap b4 = bt_enable_overlap b3 \<and> bt_is_encoder_decoder b4 = bt_is_encoder_decoder b3
        \<and> map length (rp_req_to_token pool4) = map length (rp_req_to_token (ds_req_to_token_pool s))"
      using p(1) by (auto simp: prepare_for_decode_def Let_def rbind_eq_Inr_iff dest!: alloc_for_decode_lengths)
    then show ?thesis using p(2) b3 assms(2) by (auto simp: step_from_def)
  qed
qed

lemma update_running_batch_from:
  assumes ready: "decode_ready S rows env cfg U G s" and u: "update_running_batch env cfg test s = Inr s'"
  shows "step_from (filter (\<lambda>r. \<not> sq_finished r) (bt_reqs (ds_running_batch s))) (bt_enable_overlap (ds_running_batch s)) (ds_req_to_token_pool s) s'"
proof -
  let ?b = "ds_running_batch s" and ?pool = "ds_req_to_token_pool s" and ?c = "ds_tree_cache s" and ?keep = "keep_list [] (ds_running_batch s)"
  have D: "batch_ok S rows ?b" "mem_inv env U G (set ?keep) (bt_reqs ?b, ?pool, ?c)" "\<not> bt_is_encoder_decoder ?b" "\<forall>r\<in>set (bt_reqs ?b). 0 \<le> sq_max_new_tokens r"
    using ready by (simp_all add: decode_ready_def Let_def)
  note kl = keep_list_simps [where excl = "[]" and b = ?b]
  have live: "map ((!) (bt_reqs ?b)) ?keep = filter (\<lambda>r. \<not> sq_finished r) (bt_reqs ?b)" using kl(4) by simp
  show ?thesis
  proof (cases "?keep = []")
    case True
    then have f: "filter_batch [] None ?b = Inr (?b\<lparr>bt_reqs := []\<rparr>)" unfolding filter_batch_def keep_list_def by simp
    have "s' = s\<lparr>ds_running_batch := ?b\<lparr>bt_reqs := [], bt_batch_is_full := False\<rparr>\<rparr>" using u unfolding update_running_batch_def f by simp
    then show ?thesis by (simp add: step_from_def)
  next
    case False
    obtain b1 where b1: "filter_batch [] None ?b = Inr b1" "batch_ok S (map ((!) rows) ?keep) b1" "filtered ?keep ?b b1"
      using filter_batch_ok [OF D(1), where keep = ?keep and k = None and excl = "[]"] False kl by auto
    have r1: "bt_reqs b1 = filter (\<lambda>r. \<not> sq_finished r) (bt_reqs ?b)" "bt_enable_overlap b1 = bt_enable_overlap ?b" "\<not> bt_is_encoder_decoder b1"
      using b1(3) D(3) live by (simp_all add: filtered_def)
    have ne1: "bt_reqs b1 \<noteq> []" using r1(1) live False by (metis map_is_Nil_conv)
    have mx1: "\<forall>r\<in>set (bt_reqs b1). 0 \<le> sq_max_new_tokens r" using D(4) unfolding r1(1) by auto
    define G1 where "G1 j = G (?keep ! j)" for j
    have m1: "mem_inv env U G1 {..<length (bt_reqs b1)} (bt_reqs b1, ?pool, ?c)"
      using mem_inv_reindex [OF D(2) kl(2)] unfolding live r1(1) [symmetric] G1_def by (metis length_map live r1(1))
    obtain ok c1 U1 where ck: "check_decode_mem env (bt_reqs b1) ?c = Inr (ok, c1)" "mem_inv env U1 G1 {..<length (bt_reqs b1)} (bt_reqs b1, ?pool, c1)"
      using check_decode_mem_ok [OF m1, of "bt_reqs b1"] by auto
    note run = update_running_batch_end [OF b1(1) ne1 ck(1), of cfg test, unfolded u]
    show ?thesis
    proof (cases "\<not> ok \<or> test")
      case False
      then show ?thesis using step_end_from [OF run [unfolded if_not_P [OF False], symmetric], of "bt_enable_overlap ?b"] r1 by simp
    next
      case True
      obtain keep ab retr ratio b2 pool2 c2 U2 where R:
        "retract_decode env b1 ?pool c1 = Inr (map (\<lambda>i. retracted_req (bt_reqs b1 ! i)) retr, ratio, map (\<lambda>i. aborted_req (bt_reqs b1 ! i)) ab, b2, pool2, c2)"
        "retract_order env (bt_reqs b1) = keep @ ab @ rev retr" "bt_reqs b2 = map ((!) (bt_reqs b1)) keep"
        "rp_req_to_token pool2 = rp_req_to_token ?pool" "keep \<noteq> [] \<longrightarrow> filtered keep b1 b2"
        using retract_decode_ok [OF b1(2) ck(2) ne1 mx1] by (elim exE conjE) (rule that, assumption+, simp split: if_splits)
      obtain q aborts where st: "step_end env (length (bt_reqs ?b))
             (s\<lparr>ds_running_batch := b2, ds_req_to_token_pool := pool2, ds_tree_cache := c2, ds_waiting_queue := q,
                ds_aborted := ds_aborted s @ map sq_rid (map (\<lambda>i. aborted_req (bt_reqs b1 ! i)) ab) @ aborts,
                ds_num_retracted_reqs := length (map (\<lambda>i. retracted_req (bt_reqs b1 ! i)) retr), ds_new_token_ratio := ratio\<rparr>) = Inr s'"
        using run [unfolded if_P [OF True] R(1), symmetric] by (auto simp: rbind_eq_Inr_iff)
      have "bt_enable_overlap b2 = bt_enable_overlap ?b \<and> \<not> bt_is_encoder_decoder b2" if "bt_reqs b2 \<noteq> []"
        using that R(3,5) r1(2,3) by (auto simp: filtered_def)
      then have F: "step_from (bt_reqs b2) (bt_enable_overlap ?b) pool2 s'" using step_end_from [OF st, of "bt_enable_overlap ?b"] by simp
      have kb: "\<forall>i\<in>set keep. i < length (bt_reqs b1)" "distinct keep"
        using retract_order_perm(1,2) [of env "bt_reqs b1"] unfolding R(2) by auto
      then have "length keep \<le> length (bt_reqs b1)" by (metis card_lessThan card_mono distinct_card finite_lessThan lessThan_iff subsetI)
      then have len: "length (bt_reqs b2) \<le> length (bt_reqs b1)" using R(3) by simp
      have "set (bt_reqs b2) \<subseteq> set (bt_reqs b1)" unfolding R(3) using kb by auto
      then have img: "committed_one_more ` set (bt_reqs b2) \<subseteq> committed_one_more ` set (bt_reqs b1)" by (rule image_mono)
      show ?thesis using F unfolding r1(1) [symmetric] step_from_def R(4)
        by (elim conjE, intro conjI) (erule order_trans [OF _ img], assumption, assumption, erule order_trans [OF _ len])
    qed
  qed
qed

section \<open>The state between rounds\<close>

text \<open>
  A running request has the tokens it was given and those it produced, all but the last in memory; it
  may produce more, but at most \<open>M\<close> tokens, and its row has room for all of them. \<open>V\<close> is the size of the
  vocabulary.
\<close>

definition req_fits :: "nat \<Rightarrow> nat \<Rightarrow> req_pool \<Rightarrow> batch_req \<Rightarrow> bool" where
  "req_fits V M pool r \<longleftrightarrow> stop_params_ok r \<and> V \<le> br_vocab_size r \<and> 0 < breq_len r
   \<and> breq_len r + 1 = length (rq_origin_input_ids (sq_mem r)) + length (breq_out r) \<and> int (length (breq_out r)) < sq_max_new_tokens r
   \<and> sq_max_new_tokens r \<le> int M
   \<and> length (rq_origin_input_ids (sq_mem r)) + nat (sq_max_new_tokens r) \<le> length (rp_req_to_token pool ! breq_row r)"

text \<open>Every running request has produced at least \<open>k\<close> tokens.\<close>

definition serving :: "samp_config \<Rightarrow> decode_env \<Rightarrow> queue_config \<Rightarrow> nat \<Rightarrow> nat \<Rightarrow> decode_state \<Rightarrow> bool" where
  "serving S env cfg M k s \<longleftrightarrow> distinct (map sq_rid (bt_reqs (ds_running_batch s) @ ds_waiting_queue s) @ ds_aborted s) \<and> queue_ok cfg (ds_waiting_queue s)
   \<and> (bt_reqs (ds_running_batch s) = []
      \<or> (\<exists>rows U G. decode_ready S rows env cfg U G s) \<and> \<not> bt_enable_overlap (ds_running_batch s)
        \<and> snd (snd (snd S)) \<le> 2 ^ 32
        \<and> (\<forall>r\<in>set (bt_reqs (ds_running_batch s)). \<not> sq_finished r \<longrightarrow> req_fits (snd (snd (snd S))) M (ds_req_to_token_pool s) r \<and> k \<le> length (breq_out r)))"

lemma distinct_submset:
  assumes "mset xs \<subseteq># mset ys" "distinct ys"
  shows "distinct xs"
proof -
  have "count (mset xs) a \<le> 1" for a
    using mset_subset_eq_count [OF assms(1), of a] assms(2) by (metis distinct_count_atmost_1 le_trans linorder_linear zero_less_one_class.zero_le_one)
  moreover have "0 < count (mset xs) a" if "a \<in> set xs" for a using that by (simp add: count_greater_zero_iff)
  ultimately show ?thesis by (auto simp: distinct_count_atmost_1 order_antisym Suc_leI count_eq_zero_iff)
qed

text \<open>The model samples a token of the vocabulary for each request.\<close>

definition samples :: "nat \<Rightarrow> (schedule_batch \<Rightarrow> int list) \<Rightarrow> bool" where
  "samples V sample \<longleftrightarrow> (\<forall>b. length (sample b) = length (bt_reqs b) \<and> (\<forall>t\<in>set (sample b). 0 \<le> t \<and> t < int V))"

lemma committed_fields [simp]:
  "breq_len (committed_one_more r) = breq_len r + 1" "breq_out (committed_one_more r) = breq_out r" "breq_row (committed_one_more r) = breq_row r"
  "rq_origin_input_ids (sq_mem (committed_one_more r)) = rq_origin_input_ids (sq_mem r)" "sq_max_new_tokens (committed_one_more r) = sq_max_new_tokens r"
  "br_vocab_size (committed_one_more r) = br_vocab_size r" "stop_params_ok (committed_one_more r) = stop_params_ok r"
  "sq_finished_reason (committed_one_more r) = sq_finished_reason r" "sq_rid (committed_one_more r) = sq_rid r"
  by (simp_all add: committed_one_more_def stop_params_ok_def)

text \<open>The requests of a batch after its results: aligned as before.\<close>

lemma batch_ok_results:
  assumes ok: "batch_ok S rows b" and len: "length reqs = length (bt_reqs b)" "length toks = length (bt_reqs b)"
    and acc: "\<forall>j<length (bt_reqs b). accepted (toks ! j) (bt_reqs b ! j) (reqs ! j)"
  shows "batch_ok S rows (b\<lparr>bt_output_ids := Some toks, bt_reqs := reqs\<rparr>)"
proof -
  obtain hsh det en V where S: "S = (hsh, det, en, V)" by (cases S)
  let ?b = "b\<lparr>bt_output_ids := Some toks, bt_reqs := reqs\<rparr>"
  have T: "tensors_ok b" and F: "flags_ok b" using ok by (simp_all add: batch_ok_def S)
  have car: "carries (bt_reqs b ! j) (reqs ! j)" if "j < length reqs" for j using acc that len(1) by (simp add: accepted_def)
  have eq: "map f reqs = map f (bt_reqs b)" if "\<And>r r'. carries r r' \<Longrightarrow> f r' = f r" for f :: "batch_req \<Rightarrow> 'x"
    using car that len(1) by (intro nth_equalityI) simp_all
  note eqs = eq [of br_samp] eq [of sq_return_logprob] eq [of br_top_logprobs_num] eq [of br_token_ids_logprob] eq [of sq_stream] eq [of sq_has_grammar]
  have m: "map br_samp reqs = map br_samp (bt_reqs b)" "map br_top_logprobs_num reqs = map br_top_logprobs_num (bt_reqs b)"
    "map br_token_ids_logprob reqs = map br_token_ids_logprob (bt_reqs b)" using eqs by (simp_all add: carries_def)
  have lx: "list_ex P xs \<longleftrightarrow> True \<in> set (map P xs)" for P and xs :: "batch_req list" by (auto simp: list_ex_iff)
  have ex: "list_ex sq_return_logprob reqs = list_ex sq_return_logprob (bt_reqs b)" "list_ex sq_stream reqs = list_ex sq_stream (bt_reqs b)"
    "list_ex sq_has_grammar reqs = list_ex sq_has_grammar (bt_reqs b)" unfolding lx using eqs by (simp_all add: carries_def)
  have nol: "br_top_logprobs_num r = 0 \<and> br_token_ids_logprob r = None" if "r \<in> set reqs" "\<not> sq_return_logprob r" for r
  proof -
    obtain j where j: "j < length reqs" "reqs ! j = r" using \<open>r \<in> set reqs\<close> by (auto simp: in_set_conv_nth)
    have "carries (bt_reqs b ! j) r" using car [OF j(1)] j(2) by simp
    moreover have "bt_reqs b ! j \<in> set (bt_reqs b)" using j(1) len(1) by simp
    ultimately show ?thesis using F \<open>\<not> sq_return_logprob r\<close> by (simp add: flags_ok_def carries_def)
  qed
  have "flags_ok ?b" using F m ex nol unfolding flags_ok_def by simp
  moreover have "row_aligned ?b j" if "j < length reqs" for j
  proof -
    have a: "row_aligned b j" using T that len(1) by (simp add: tensors_ok_def Let_def)
    have "accepted (toks ! j) (bt_reqs b ! j) (reqs ! j)" using acc that len(1) by simp
    then show ?thesis using a by (auto simp: row_aligned_def accepted_def carries_def)
  qed
  then have "tensors_ok ?b" using T len by (simp add: tensors_ok_def Let_def opt_len_def)
  ultimately show ?thesis using ok m(1) by (simp add: batch_ok_def S)
qed

section \<open>A round\<close>

text \<open>The results of the batch that a step has launched re-establish the state before a step.\<close>

lemma queue_ok_kept:
  assumes "queue_ok cfg q" "set q' \<subseteq> set q" "length q' \<le> length q"
  shows "queue_ok cfg q'"
  using assms by (auto simp: queue_ok_def split: option.splits)

lemma req_fits_results:
  assumes f: "req_fits V M pool r" and a: "accepted t (committed_one_more r) r'" "\<not> sq_finished r'"
    and row: "length (rp_req_to_token pool' ! breq_row r) = length (rp_req_to_token pool ! breq_row r)"
  shows "req_fits V M pool' r'" "length (breq_out r') = Suc (length (breq_out r))" "breq_len r' < length (rp_req_to_token pool' ! breq_row r')"
proof -
  have c: "carries (committed_one_more r) r'" "breq_out r' = breq_out r @ [t]" "int (length (breq_out r')) < sq_max_new_tokens r'" "breq_row r' = breq_row r"
    using a by (auto simp: accepted_def committed_one_more_def)
  have d: "breq_len r' = breq_len r + 1" "rq_origin_input_ids (sq_mem r') = rq_origin_input_ids (sq_mem r)" "sq_max_new_tokens r' = sq_max_new_tokens r"
    "br_vocab_size r' = br_vocab_size r" "br_samp r' = br_samp r" "br_has_tokenizer r' = br_has_tokenizer r"
    using c(1) by (simp_all add: carries_def) (simp_all add: committed_one_more_def)
  have p: "stop_params_ok r' = stop_params_ok r" using d(5,6) by (simp add: stop_params_ok_def)
  show "req_fits V M pool' r'" using f c(2-4) d p row by (auto simp: req_fits_def)
  show "length (breq_out r') = Suc (length (breq_out r))" using c(2) by simp
  have "length (breq_out r) < nat (sq_max_new_tokens r)" using c(2,3) d(3) by simp
  then show "breq_len r' < length (rp_req_to_token pool' ! breq_row r')" using f c(4) d(1) row by (simp add: req_fits_def)
qed

lemma results_serving:
  assumes la: "decode_launched S env U b pool c" and S: "S = (hsh, det, en, V)"
    and b: "bt_reqs b \<noteq> []" "\<not> bt_enable_overlap b" "\<not> bt_is_encoder_decoder b" "length (bt_reqs b) \<le> length (de_uninit env)"
    and toks: "length toks = length (bt_reqs b)" "\<forall>t\<in>set toks. 0 \<le> t \<and> t < int V" and ev: "V \<le> 2 ^ 32"
    and orig: "\<forall>r\<in>set (bt_reqs b). \<exists>r0. r = committed_one_more r0 \<and> \<not> sq_finished r0 \<and> req_fits V M pool0 r0 \<and> k \<le> length (breq_out r0)"
    and rows: "map length (rp_req_to_token pool) = map length (rp_req_to_token pool0)"
    and q: "queue_ok cfg (ds_waiting_queue s1)" "distinct (map sq_rid (bt_reqs b @ ds_waiting_queue s1) @ ds_aborted s1)"
  shows "\<exists>rs. process_batch_result_decode env re False toks \<lparr>rs_batch = bt_reqs b, rs_others = [], rs_pool = pool, rs_cache = c,
                 rs_waiting_queue = ds_waiting_queue s1, rs_grammar_queue = gq, rs_aborted = ds_aborted s1\<rparr> = Inr rs
     \<and> mset (map sq_rid (rs_batch rs)) = mset (map sq_rid (bt_reqs b))
     \<and> mset (map sq_rid (rs_waiting_queue rs)) + mset (rs_aborted rs) = mset (map sq_rid (ds_waiting_queue s1)) + mset (ds_aborted s1)
     \<and> serving S env cfg M (Suc k) (s1\<lparr>ds_running_batch := b\<lparr>bt_output_ids := Some toks, bt_reqs := rs_batch rs\<rparr>,
                      ds_req_to_token_pool := rs_pool rs, ds_tree_cache := rs_cache rs,
                      ds_waiting_queue := rs_waiting_queue rs, ds_aborted := rs_aborted rs\<rparr>)"
proof -
  let ?n = "length (bt_reqs b)"
  let ?rs0 = "\<lparr>rs_batch = bt_reqs b, rs_others = [], rs_pool = pool, rs_cache = c,
                 rs_waiting_queue = ds_waiting_queue s1, rs_grammar_queue = gq, rs_aborted = ds_aborted s1\<rparr>"
  obtain rws G where L: "batch_ok S rws b" "\<forall>toks. length toks = ?n \<and> toks_fit c toks \<longrightarrow> mem_inv env U G {..<?n} (map2 append_output toks (bt_reqs b), pool, c)"
    using la unfolding decode_launched_def by blast
  have fit: "toks_fit c toks" using toks(2) ev by (force simp: toks_fit_def)
  have m: "mem_inv env U G {..<length (rs_batch ?rs0)} (map2 append_output toks (rs_batch ?rs0), rs_pool ?rs0, rs_cache ?rs0)" using L(2) toks(1) fit by simp
  have fr: "\<exists>r0. bt_reqs b ! j = committed_one_more r0 \<and> \<not> sq_finished r0 \<and> req_fits V M pool0 r0 \<and> k \<le> length (breq_out r0)" if "j < ?n" for j
    using orig that by simp
  have rr: "\<forall>j<length (rs_batch ?rs0). results_ready False (toks ! j) (rs_batch ?rs0 ! j)"
  proof (intro allI impI)
    fix j assume j: "j < length (rs_batch ?rs0)"
    then obtain r0 where r0: "bt_reqs b ! j = committed_one_more r0" "\<not> sq_finished r0" "req_fits V M pool0 r0" using fr by auto
    have "toks ! j \<in> set toks" using j toks(1) by simp
    then have "0 \<le> toks ! j" "toks ! j < int V" using toks(2) by blast+
    then show "results_ready False (toks ! j) (rs_batch ?rs0 ! j)" using r0 by (simp add: results_ready_def req_fits_def)
  qed
  obtain rs U' where P: "process_batch_result_decode env re False toks ?rs0 = Inr rs" "loop_done env G {..<?n} toks 0 U ?rs0 U' rs"
    using decode_results_ok [OF m _ rr, of re] toks(1) by auto
  have D: "length (rs_batch rs) = ?n" "\<forall>j<?n. accepted (toks ! j) (bt_reqs b ! j) (rs_batch rs ! j)" "rp_req_to_token (rs_pool rs) = rp_req_to_token pool"
    "rc_same c (rs_cache rs)" "queue_kept ?rs0 rs" "mem_inv env U' G {j \<in> {..<?n}. \<not> sq_finished (rs_batch rs ! j)} (rs_batch rs, rs_pool rs, rs_cache rs)"
    using P(2) by (simp_all add: loop_done_def)
  let ?b = "b\<lparr>bt_output_ids := Some toks, bt_reqs := rs_batch rs\<rparr>"
  let ?s = "s1\<lparr>ds_running_batch := ?b, ds_req_to_token_pool := rs_pool rs, ds_tree_cache := rs_cache rs, ds_waiting_queue := rs_waiting_queue rs, ds_aborted := rs_aborted rs\<rparr>"
  have car: "carries (bt_reqs b ! j) (rs_batch rs ! j)" if "j < ?n" for j using D(2) that by (simp add: accepted_def)
  have rid: "map sq_rid (rs_batch rs) = map sq_rid (bt_reqs b)" using car D(1) by (intro nth_equalityI) (simp_all add: carries_def)
  have K: "set (keep_list [] ?b) = {j \<in> {..<?n}. \<not> sq_finished (rs_batch rs ! j)}" using D(1) by (auto simp: keep_list_def)
  have new: "req_fits V M (rs_pool rs) (rs_batch rs ! j) \<and> Suc k \<le> length (breq_out (rs_batch rs ! j))
      \<and> breq_len (rs_batch rs ! j) < length (rp_req_to_token (rs_pool rs) ! breq_row (rs_batch rs ! j))" if j: "j < ?n" "\<not> sq_finished (rs_batch rs ! j)" for j
  proof -
    obtain r0 where r0: "bt_reqs b ! j = committed_one_more r0" "req_fits V M pool0 r0" "k \<le> length (breq_out r0)" using fr [OF j(1)] by blast
    have a: "accepted (toks ! j) (committed_one_more r0) (rs_batch rs ! j)" using D(2) j(1) unfolding r0(1) [symmetric] by blast
    have "j \<in> {j \<in> {..<?n}. \<not> sq_finished (rs_batch rs ! j)}" using j by simp
    then have "owns_kv (de_sha env) (rs_cache rs) U' (rs_pool rs) (sq_mem (rs_batch rs ! j)) (G j)" using D(6) unfolding mem_inv_def owners_def by blast
    then have "breq_row (rs_batch rs ! j) < length (rp_req_to_token (rs_pool rs))" by (auto elim!: ownsD)
    moreover have "breq_row (rs_batch rs ! j) = breq_row r0" using a j(2) by (auto simp: accepted_def)
    ultimately have "breq_row r0 < length (rp_req_to_token pool)" using D(3) by simp
    then have "length (rp_req_to_token (rs_pool rs) ! breq_row r0) = length (rp_req_to_token pool0 ! breq_row r0)"
      using rows D(3) by (metis length_map nth_map)
    from req_fits_results [OF r0(2) a j(2) this] show ?thesis using r0(3) by simp
  qed
  have "decode_ready S rws env cfg U' G ?s"
    unfolding decode_ready_def Let_def
  proof (intro conjI)
    show "batch_ok S rws (ds_running_batch ?s)" using batch_ok_results [OF L(1) D(1) toks(1) D(2)] by simp
    show "mem_inv env U' G (set (keep_list [] (ds_running_batch ?s))) (bt_reqs (ds_running_batch ?s), ds_req_to_token_pool ?s, ds_tree_cache ?s)"
      using D(6) K by simp
    show "runnable (ds_req_to_token_pool ?s) (map ((!) (bt_reqs (ds_running_batch ?s))) (keep_list [] (ds_running_batch ?s)))"
      using new K by (auto simp: runnable_def req_fits_def)
    show "decode_toks_ok S (ds_running_batch ?s)" using b(2) toks(2) by (simp add: decode_toks_ok_def S)
    show "\<forall>r\<in>set (bt_reqs (ds_running_batch ?s)). 0 \<le> sq_max_new_tokens r"
    proof
      fix r assume "r \<in> set (bt_reqs (ds_running_batch ?s))"
      then obtain j where j: "j < ?n" "r = rs_batch rs ! j" using D(1) by (auto simp: in_set_conv_nth)
      obtain r0 where "bt_reqs b ! j = committed_one_more r0" "req_fits V M pool0 r0" using fr [OF j(1)] by blast
      then show "0 \<le> sq_max_new_tokens r" using car [OF j(1)] j(2) by (simp add: carries_def req_fits_def)
    qed
    show "queue_ok cfg (ds_waiting_queue ?s)" using queue_ok_kept [OF q(1)] D(5) by (simp add: queue_kept_def)
    show "distinct (map sq_rid (bt_reqs (ds_running_batch ?s) @ ds_waiting_queue ?s))"
    proof (rule distinct_submset [OF _ q(2)])
      have "mset (map sq_rid (rs_waiting_queue rs)) \<subseteq># mset (map sq_rid (ds_waiting_queue s1)) + mset (ds_aborted s1)"
        using D(5) unfolding queue_kept_def by (metis mset_subset_eq_add_left result_state.select_convs(5,7))
      then show "mset (map sq_rid (bt_reqs (ds_running_batch ?s) @ ds_waiting_queue ?s)) \<subseteq># mset (map sq_rid (bt_reqs b @ ds_waiting_queue s1) @ ds_aborted s1)"
        using rid by (simp add: ac_simps del: mset_map)
    qed
  qed (use b(3,4) D(1) in simp_all)
  moreover have qk: "mset (map sq_rid (rs_waiting_queue rs)) + mset (rs_aborted rs) = mset (map sq_rid (ds_waiting_queue s1)) + mset (ds_aborted s1)"
    using D(5) by (simp add: queue_kept_def)
  moreover have "distinct (map sq_rid (bt_reqs (ds_running_batch ?s) @ ds_waiting_queue ?s) @ ds_aborted ?s)"
    by (rule distinct_submset [OF _ q(2)]) (use rid qk in \<open>simp add: add.assoc del: mset_map\<close>)
  moreover have "req_fits V M (rs_pool rs) r \<and> Suc k \<le> length (breq_out r)" if "r \<in> set (rs_batch rs)" "\<not> sq_finished r" for r
    using that new D(1) by (metis in_set_conv_nth)
  moreover have "queue_ok cfg (rs_waiting_queue rs)" using queue_ok_kept [OF q(1)] D(5) by (simp add: queue_kept_def)
  ultimately have "serving S env cfg M (Suc k) ?s" unfolding serving_def using b(2) S ev by auto
  then show ?thesis using P(1) rid qk by (intro exI [of _ rs]) simp
qed

lemma decode_round_ok:
  assumes sv: "serving S env cfg M k s" and sm: "samples (snd (snd (snd S))) sample"
  shows "\<exists>s' gq'. decode_round env re cfg test sample (s, gq) = Inr (s', gq') \<and> serving S env cfg M (Suc k) s'
     \<and> all_rids s' = mset (map sq_rid (filter (\<lambda>r. \<not> sq_finished r) (bt_reqs (ds_running_batch s)))) + mset (map sq_rid (ds_waiting_queue s)) + mset (ds_aborted s)"
proof (cases "bt_reqs (ds_running_batch s) = []")
  case True
  have f: "filter_batch [] None (ds_running_batch s) = Inr ((ds_running_batch s)\<lparr>bt_reqs := []\<rparr>)" unfolding filter_batch_def True by simp
  let ?s = "s\<lparr>ds_running_batch := (ds_running_batch s)\<lparr>bt_reqs := [], bt_batch_is_full := False\<rparr>\<rparr>"
  have "update_running_batch env cfg test s = Inr ?s" unfolding update_running_batch_def f by simp
  then have "decode_round env re cfg test sample (s, gq) = Inr (?s, gq)" by (simp add: decode_round_def)
  moreover have "serving S env cfg M (Suc k) ?s" using sv True by (simp add: serving_def)
  ultimately show ?thesis using True by (simp add: all_rids_def)
next
  case False
  obtain hsh det en V where S: "S = (hsh, det, en, V)" by (cases S)
  let ?b = "ds_running_batch s" and ?live = "filter (\<lambda>r. \<not> sq_finished r) (bt_reqs (ds_running_batch s))"
  obtain rows U G where R: "decode_ready S rows env cfg U G s" "\<not> bt_enable_overlap ?b" "V \<le> 2 ^ 32"
      "\<forall>r\<in>set (bt_reqs ?b). \<not> sq_finished r \<longrightarrow> req_fits V M (ds_req_to_token_pool s) r \<and> k \<le> length (breq_out r)"
    using sv False S unfolding serving_def by auto
  have d0: "distinct (map sq_rid (bt_reqs ?b @ ds_waiting_queue s) @ ds_aborted s)" using sv by (simp add: serving_def)
  obtain s1 where u: "update_running_batch env cfg test s = Inr s1" "queue_ok cfg (ds_waiting_queue s1)"
      "step_safe S env (others (ds_tree_cache s) U - (\<Union>i\<in>set (keep_list [] ?b). req_pages (ds_tree_cache s) (G i))) s1"
      "all_rids s1 = mset (map sq_rid ?live) + mset (map sq_rid (ds_waiting_queue s)) + mset (ds_aborted s)"
    using decode_step_ok [OF R(1), of test] by blast
  let ?b1 = "ds_running_batch s1"
  have sf: "step_from ?live False (ds_req_to_token_pool s) s1" using update_running_batch_from [OF R(1) u(1)] R(2) by simp
  note F = sf [unfolded step_from_def]
  have d1: "distinct (map sq_rid (bt_reqs ?b1 @ ds_waiting_queue s1) @ ds_aborted s1)"
  proof (rule distinct_submset [OF _ d0])
    have "mset (map sq_rid ?live) \<subseteq># mset (map sq_rid (bt_reqs ?b))" by (simp add: image_mset_subseteq_mono multiset_filter_subset)
    then show "mset (map sq_rid (bt_reqs ?b1 @ ds_waiting_queue s1) @ ds_aborted s1) \<subseteq># mset (map sq_rid (bt_reqs ?b @ ds_waiting_queue s) @ ds_aborted s)"
      using u(4) unfolding all_rids_def by (simp add: ac_simps subset_mset.add_mono del: mset_map)
  qed
  show ?thesis
  proof (cases "bt_reqs ?b1 = []")
    case True
    have "decode_round env re cfg test sample (s, gq) = Inr (s1, gq)" using u(1) True by (simp add: decode_round_def Let_def)
    moreover have "serving S env cfg M (Suc k) s1" using True d1 u(2) by (simp add: serving_def)
    ultimately show ?thesis using u(4) by blast
  next
    case ne: False
    obtain U1 where la: "decode_launched S env U1 ?b1 (ds_req_to_token_pool s1) (ds_tree_cache s1)" "rc_enabled (ds_tree_cache s1)" using u(3) ne unfolding step_safe_def by blast
    have ov: "\<not> bt_enable_overlap ?b1" "\<not> bt_is_encoder_decoder ?b1" using F ne by auto
    have len: "length (bt_reqs ?b1) \<le> length (de_uninit env)"
    proof -
      have "length (bt_reqs ?b1) \<le> length ?live" using F by blast
      also have "\<dots> \<le> length (bt_reqs ?b)" by (rule length_filter_le)
      also have "\<dots> \<le> length (de_uninit env)" using R(1) by (simp add: decode_ready_def Let_def)
      finally show ?thesis .
    qed
    have orig: "\<forall>r\<in>set (bt_reqs ?b1). \<exists>r0. r = committed_one_more r0 \<and> \<not> sq_finished r0 \<and> req_fits V M (ds_req_to_token_pool s) r0 \<and> k \<le> length (breq_out r0)"
    proof
      fix r assume "r \<in> set (bt_reqs ?b1)"
      then obtain r0 where "r = committed_one_more r0" "r0 \<in> set ?live" using F by blast
      then show "\<exists>r0. r = committed_one_more r0 \<and> \<not> sq_finished r0 \<and> req_fits V M (ds_req_to_token_pool s) r0 \<and> k \<le> length (breq_out r0)" using R(4) by auto
    qed
    have toks: "length (sample ?b1) = length (bt_reqs ?b1)" "\<forall>t\<in>set (sample ?b1). 0 \<le> t \<and> t < int V" using sm S by (simp_all add: samples_def)
    obtain rs where P: "process_batch_result_decode env re False (sample ?b1) \<lparr>rs_batch = bt_reqs ?b1, rs_others = [], rs_pool = ds_req_to_token_pool s1,
          rs_cache = ds_tree_cache s1, rs_waiting_queue = ds_waiting_queue s1, rs_grammar_queue = gq, rs_aborted = ds_aborted s1\<rparr> = Inr rs"
       "mset (map sq_rid (rs_batch rs)) = mset (map sq_rid (bt_reqs ?b1))"
       "mset (map sq_rid (rs_waiting_queue rs)) + mset (rs_aborted rs) = mset (map sq_rid (ds_waiting_queue s1)) + mset (ds_aborted s1)"
       "serving S env cfg M (Suc k) (s1\<lparr>ds_running_batch := ?b1\<lparr>bt_output_ids := Some (sample ?b1), bt_reqs := rs_batch rs\<rparr>,
                      ds_req_to_token_pool := rs_pool rs, ds_tree_cache := rs_cache rs,
                      ds_waiting_queue := rs_waiting_queue rs, ds_aborted := rs_aborted rs\<rparr>)" (is "serving _ _ _ _ _ ?s")
      using results_serving [OF la(1) S ne ov len toks R(3) orig _ u(2) d1, of re gq] F by blast
    have "decode_round env re cfg test sample (s, gq) = Inr (?s, rs_grammar_queue rs)"
      using u(1) ne ov(1) P(1) by (simp add: decode_round_def Let_def)
    moreover have "all_rids ?s = all_rids s1" using P(2,3) by (simp add: all_rids_def add.assoc del: mset_map)
    ultimately show ?thesis using P(4) u(4) by (intro exI conjI) simp_all
  qed
qed

section \<open>Any number of rounds\<close>

text \<open>Each round has its environment, its choice to test retraction, and the tokens the model samples.\<close>

fun decode_rounds ::
  "decode_env \<Rightarrow> queue_config \<Rightarrow> (result_env \<times> bool \<times> (schedule_batch \<Rightarrow> int list)) list \<Rightarrow> decode_state \<times> batch_req list \<Rightarrow> (decode_state \<times> batch_req list) res" where
  "decode_rounds env cfg [] st = Inr st"
| "decode_rounds env cfg ((re, test, sample) # rds) st = rbind (decode_round env re cfg test sample st) (decode_rounds env cfg rds)"

lemma decode_rounds_ok:
  assumes "serving S env cfg M k s" "\<forall>(re, test, sample)\<in>set rds. samples (snd (snd (snd S))) sample"
  shows "\<exists>s' gq'. decode_rounds env cfg rds (s, gq) = Inr (s', gq') \<and> serving S env cfg M (k + length rds) s' \<and> all_rids s' \<subseteq># all_rids s"
  using assms
proof (induction rds arbitrary: k s gq)
  case (Cons rd rds)
  obtain re test sample where rd: "rd = (re, test, sample)" by (cases rd)
  obtain s1 gq1 where r: "decode_round env re cfg test sample (s, gq) = Inr (s1, gq1)" "serving S env cfg M (Suc k) s1"
     "all_rids s1 = mset (map sq_rid (filter (\<lambda>r. \<not> sq_finished r) (bt_reqs (ds_running_batch s)))) + mset (map sq_rid (ds_waiting_queue s)) + mset (ds_aborted s)"
    using decode_round_ok [OF Cons.prems(1), of sample re test gq] Cons.prems(2) rd by auto
  have "mset (map sq_rid (filter (\<lambda>r. \<not> sq_finished r) (bt_reqs (ds_running_batch s)))) \<subseteq># mset (map sq_rid (bt_reqs (ds_running_batch s)))"
    by (simp add: image_mset_subseteq_mono multiset_filter_subset)
  then have sub: "all_rids s1 \<subseteq># all_rids s" unfolding r(3) unfolding all_rids_def by (simp add: subset_mset.add_mono)
  obtain s' gq' where "decode_rounds env cfg rds (s1, gq1) = Inr (s', gq')" "serving S env cfg M (Suc k + length rds) s'" "all_rids s' \<subseteq># all_rids s1"
    using Cons.IH [OF r(2), of gq1] Cons.prems(2) by auto
  then show ?case using r(1) rd sub by (auto intro: subset_mset.order_trans)
qed simp

end
