(* ===== verification/Finish_Props.thy ===== *)
theory Finish_Props
  imports Decode_Result Decode_Props
begin

text \<open>
  The properties of the finish conditions: where a request stops, what the check of partial stop
  strings finds, and what an abort request does.
\<close>

section \<open>An environment for the witnesses\<close>

text \<open>Token 0 is decoded to an \<open>a\<close>, every other token to a \<open>b\<close>.\<close>

definition sample_finish_env :: finish_env where
  "sample_finish_env = \<lparr>fe_decode = (\<lambda>ts. map (\<lambda>t. if t = 0 then CHR ''a'' else CHR ''b'') ts), fe_search = (\<lambda>p s. False), fe_terminated = (\<lambda>rid ts. False)\<rparr>"

definition sample_result_env :: result_env where
  "sample_result_env = \<lparr>re_finish = sample_finish_env, re_accepts = (\<lambda>rid ts t. True), re_think_end_id = None, re_clock = (\<lambda>i. (10, 11))\<rparr>"

definition sample_stopping_req :: "int list \<Rightarrow> string list \<Rightarrow> batch_req" where
  "sample_stopping_req out ss = (let r = sample_decode_req 0 ''a'' 1; p = sr_params sample_samp_req
     in r\<lparr>sq_mem := (sq_mem r)\<lparr>rq_output_ids := out\<rparr>, sq_max_new_tokens := 9,
          br_samp := sample_samp_req\<lparr>sr_params := p\<lparr>sp_stop_strs := ManyStr ss, sp_stop_str_max_len := Some 2, sp_stop_regex_max_len := Some 0\<rparr>\<rparr>\<rparr>)"

lemma sample_stopping_req_fields [simp]:
  "breq_out (sample_stopping_req out ss) = out" "sq_max_new_tokens (sample_stopping_req out ss) = 9" "sq_finished_reason (sample_stopping_req out ss) = None"
  "sq_to_finish (sample_stopping_req out ss) = None" "\<not> sq_has_grammar (sample_stopping_req out ss)" "\<not> sq_ignore_eos (sample_stopping_req out ss)"
  "sp_stop_strs (breq_params (sample_stopping_req out ss)) = ManyStr ss" "sp_stop_regex_strs (breq_params (sample_stopping_req out ss)) = ManyStr []"
  "sp_stop_str_max_len (breq_params (sample_stopping_req out ss)) = Some 2" "sp_stop_regex_max_len (breq_params (sample_stopping_req out ss)) = Some 0"
  "br_has_tokenizer (sample_stopping_req out ss)" "sq_rid (sample_stopping_req out ss) = ''a''"
  "is_stop_token (sample_stopping_req out ss) t \<longleftrightarrow> t = 1 \<or> t = 2"
  by (auto simp: sample_stopping_req_def Let_def is_stop_token_def or_default_def) (simp_all add: sample_decode_req_def)

section \<open>Stop strings\<close>

lemma py_tail_suffix: "0 < k \<Longrightarrow> k \<le> length xs \<Longrightarrow> suffix (py_tail k xs) xs \<and> length (py_tail k xs) = k"
  by (auto simp: py_tail_def suffix_drop)

lemma suffix_py_tail: "suffix u xs \<Longrightarrow> u \<noteq> [] \<Longrightarrow> u = py_tail (length u) xs"
  by (auto simp: py_tail_def suffix_def)

lemma stop_str_overlaps_iff:
  "stop_str_overlaps tail s \<longleftrightarrow> s \<noteq> [] \<and> (sublist s tail \<or> (\<exists>u. u \<noteq> [] \<and> suffix u tail \<and> prefix u s))"
proof -
  have "list_ex (\<lambda>i. py_tail i tail = take i s) [1..<min (length tail) (length s) + 1] \<longleftrightarrow> (\<exists>u. u \<noteq> [] \<and> suffix u tail \<and> prefix u s)" (is "?l = ?r")
  proof
    assume ?l
    then obtain i where i: "1 \<le> i" "i \<le> length tail" "i \<le> length s" "py_tail i tail = take i s"
      by (auto simp: list_ex_iff less_Suc_eq_le simp del: upt_Suc)
    have t: "suffix (py_tail i tail) tail" "length (py_tail i tail) = i" using py_tail_suffix [of i tail] i(1,2) by simp_all
    have "prefix (py_tail i tail) s" unfolding i(4) by (rule take_is_prefix)
    then show ?r using i(1) t by (intro exI [of _ "py_tail i tail"]) auto
  next
    assume ?r
    then obtain u where u: "u \<noteq> []" "suffix u tail" "prefix u s" by blast
    have "length u \<in> set [1..<min (length tail) (length s) + 1]"
      using u(1) suffix_length_le [OF u(2)] prefix_length_le [OF u(3)] by (cases u) auto
    moreover have "py_tail (length u) tail = take (length u) s" using suffix_py_tail [OF u(2,1)] u(3) by (auto simp: prefix_def)
    ultimately show ?l by (auto simp: list_ex_iff)
  qed
  then show ?thesis by (simp add: stop_str_overlaps_def str_in_iff)
qed

text \<open>
  C38: The check that holds back streamed text finds exactly the beginnings of stop strings. For stop
  strings \<open>ss\<close> and the decoded tail of the output, \<open>check_match_stop_str_prefix\<close> returns true iff some
  nonempty stop string occurs in the tail, or some nonempty end of the tail is the beginning of one.
\<close>

theorem check_match_stop_str_prefix_iff:
  assumes "sp_stop_strs (breq_params r) = ManyStr ss" "tail_str fe r = Inr tail"
  shows "check_match_stop_str_prefix fe r = Inr (\<exists>s\<in>set ss. s \<noteq> [] \<and> tail \<noteq> [] \<and> (sublist s tail \<or> (\<exists>u. u \<noteq> [] \<and> suffix u tail \<and> prefix u s)))"
  using assms by (auto simp: check_match_stop_str_prefix_def py_strs_def list_ex_iff stop_str_overlaps_iff)

theorem check_match_stop_str_prefix_iff_witness:
  "check_match_stop_str_prefix sample_finish_env (sample_stopping_req [0, 1] [''ba'']) = Inr True"
proof -
  have t: "tail_str sample_finish_env (sample_stopping_req [0, 1] [''ba'']) = Inr ''ab''"
    by (simp add: tail_str_def py_strs_def py_tail_def Let_def sample_finish_env_def)
  have "suffix ''b'' ''ab''" "prefix ''b'' ''ba''" by (simp_all add: suffix_Cons)
  then have "\<exists>u. u \<noteq> [] \<and> suffix u ''ab'' \<and> prefix u ''ba''" by blast
  then show ?thesis using check_match_stop_str_prefix_iff [OF sample_stopping_req_fields(7) t] by simp
qed

section \<open>Stop tokens\<close>

lemma token_finish_loop_first:
  assumes "j < length ts" "is_stop_token r (ts ! j)" "\<forall>i<j. \<not> is_stop_token r (ts ! i)"
  shows "token_finish_loop pos ts r = (True, r\<lparr>sq_finished_reason := Some (FINISH_MATCHED_TOKEN (ts ! j)), br_finished_len := Some (pos + int j + 1)\<rparr>)"
  using assms
proof (induction ts arbitrary: pos j)
  case (Cons t ts)
  show ?case
  proof (cases j)
    case 0
    then show ?thesis using Cons.prems by simp
  next
    case (Suc i)
    have "\<not> is_stop_token r t" using Cons.prems(3) Suc by auto
    moreover have "\<forall>i'<i. \<not> is_stop_token r (ts ! i')" using Cons.prems(3) Suc by auto
    ultimately show ?thesis using Cons.IH [of i "pos + 1"] Cons.prems(1,2) Suc by simp
  qed
qed simp

text \<open>
  C36: A request stops at the first stop token among the tokens it has just accepted, one or several of
  them. Let the request be running, not marked for an abort, below its length limit, its grammar (if it has
  one) not at an end, and end tokens not ignored; of the last \<open>n\<close> tokens let \<open>t\<close> be the first that is a stop token of the
  request, of the model or of the tokenizer. Then \<open>check_finished\<close> ends the request with that token
  as the reason, what it returns to the client ends exactly there (tokens accepted after
  it are cut off), and nothing but the reason and that length changes. A request at its length limit
  ends for that reason instead: the limit is checked before the tokens, and what is returned is cut
  at the limit and not at a stop token before it.
\<close>

theorem check_finished_first_stop_token:
  assumes "\<not> sq_finished r" "sq_to_finish r = None" "\<not> (sq_has_grammar r \<and> fe_terminated fe (sq_rid r) (br_grammar_tokens r))" "\<not> sq_ignore_eos r"
    and "breq_out r = out @ ts @ t # us" "n = Suc (length ts + length us)" "is_stop_token r t" "\<forall>x\<in>set ts. \<not> is_stop_token r x"
  shows "if int (length (breq_out r)) < sq_max_new_tokens r
     then \<exists>r'. check_finished fe n r = Inr r' \<and> r' = r\<lparr>sq_finished_reason := Some (FINISH_MATCHED_TOKEN t), br_finished_len := Some (int (length (out @ ts)) + 1)\<rparr>
        \<and> output_ids_through_stop r' = out @ ts @ [t]
     else \<exists>r'. check_finished fe n r = Inr r' \<and> r' = r\<lparr>sq_finished_reason := Some (FINISH_LENGTH (sq_max_new_tokens r)), br_finished_len := Some (sq_max_new_tokens r)\<rparr>
        \<and> (0 \<le> sq_max_new_tokens r \<longrightarrow> output_ids_through_stop r' = take (nat (sq_max_new_tokens r)) (breq_out r))"
proof (cases "int (length (breq_out r)) < sq_max_new_tokens r")
  case True
  let ?new = "ts @ t # us" and ?r = "r\<lparr>sq_finished_reason := Some (FINISH_MATCHED_TOKEN t), br_finished_len := Some (int (length out) + int (length ts) + 1)\<rparr>"
  have tail: "py_tail n (breq_out r) = ?new" using assms(5,6) by (simp add: py_tail_def)
  have "token_finish_loop (int (length out)) ?new r = (True, ?r)"
    using token_finish_loop_first [of "length ts" ?new r "int (length out)"] assms(7,8) by (simp add: nth_append)
  then have "check_token_based_finish ?new r = (True, ?r)" using assms(4,5) by (simp add: check_token_based_finish_def)
  then have "check_finished fe n r = Inr ?r" using assms(1-3) True tail by (auto simp: check_finished_def Let_def not_le)
  moreover have "nat (int (length out) + int (length ts) + 1) = length out + (length ts + 1)" by simp
  then have "output_ids_through_stop ?r = out @ ts @ [t]" using assms(5) by (simp add: output_ids_through_stop_def py_take_def)
  ultimately show ?thesis using True by (intro if_P [THEN iffD2] exI [of _ ?r]) simp_all
next
  case False
  let ?r = "r\<lparr>sq_finished_reason := Some (FINISH_LENGTH (sq_max_new_tokens r)), br_finished_len := Some (sq_max_new_tokens r)\<rparr>"
  have "check_finished fe n r = Inr ?r" using assms(1,2) False by (auto simp: check_finished_def Let_def not_less)
  moreover have "0 \<le> sq_max_new_tokens r \<longrightarrow> output_ids_through_stop ?r = take (nat (sq_max_new_tokens r)) (breq_out r)"
    by (simp add: output_ids_through_stop_def py_take_def)
  ultimately show ?thesis using False by simp
qed

theorem check_finished_first_stop_token_witness:
  "\<exists>r'. check_finished sample_finish_env 3 (sample_stopping_req [0, 0, 1, 0] []) = Inr r' \<and> output_ids_through_stop r' = [0, 0, 1]"
  using check_finished_first_stop_token [where r = "sample_stopping_req [0, 0, 1, 0] []" and out = "[0]" and ts = "[0]" and t = 1 and us = "[0]" and n = 3
      and fe = sample_finish_env] by auto

section \<open>Aborted requests\<close>

lemma aborted_accept_output:
  assumes "sq_to_finish r = Some x" "\<not> sq_finished r"
  shows "\<exists>r'. accept_output re t r = Inr r' \<and> sq_finished_reason r' = Some x \<and> breq_out r' = breq_out r @ [t]"
proof -
  have f: "sq_finished_reason (maybe_update_reasoning_tokens e t r) = sq_finished_reason r" "sq_to_finish (maybe_update_reasoning_tokens e t r) = sq_to_finish r"
    "rq_output_ids (sq_mem (maybe_update_reasoning_tokens e t r)) = rq_output_ids (sq_mem r)"
    for e and r :: batch_req by (simp_all add: maybe_update_reasoning_tokens_def update_reasoning_tokens_def split: option.splits)
  show ?thesis using assms unfolding accept_output_def check_finished_def by (simp add: f)
qed

text \<open>
  C37: An abort request ends the requests whose ids start with the given prefix and no others. It never
  fails: the indices it collects are still valid when it pops them from the end. Exactly the
  selected requests leave the waiting queue, the others keep their order, and each that left is
  reported once, the last one first. A selected request waiting for its grammar is marked as aborted
  and keeps a prompt of one token. Of the requests that run, in the batch whose result is processed and
  in the other running batch alike, exactly the selected unfinished ones are marked; such a request ends at its
  next token with the reason \<open>FINISH_ABORT\<close>, whatever token that is, and every other one is unchanged.
\<close>

theorem abort_request_ends_selected:
  "\<exists>s'. abort_request al rid s = Inr s' \<and> rs_waiting_queue s' = filter (\<lambda>r. \<not> abort_selects al rid r) (rs_waiting_queue s)
     \<and> rs_aborted s' = rs_aborted s @ rev (map sq_rid (filter (abort_selects al rid) (rs_waiting_queue s)))
     \<and> rs_pool s' = rs_pool s \<and> rs_cache s' = rs_cache s
     \<and> list_all2 (\<lambda>r r'. if abort_selects al rid r
          then (\<exists>m c e. sq_to_finish r' = Some (finish_abort m c e)) \<and> rq_origin_input_ids (sq_mem r') = [0] \<and> sq_rid r' = sq_rid r else r' = r)
          (rs_grammar_queue s) (rs_grammar_queue s')
     \<and> (\<forall>f\<in>{rs_batch, rs_others}. list_all2 (\<lambda>r r'. if abort_selects al rid r \<and> \<not> sq_finished r
          then r' = r\<lparr>sq_to_finish := Some (finish_abort None None None)\<rparr>
             \<and> (\<exists>r''. accept_output re t r' = Inr r'' \<and> sq_finished_reason r'' = Some (finish_abort None None None) \<and> breq_out r'' = breq_out r @ [t])
          else r' = r) (f s) (f s'))"
proof -
  let ?x = "finish_abort None None None"
  have run: "\<exists>r''. accept_output re t (r\<lparr>sq_to_finish := Some ?x\<rparr>) = Inr r'' \<and> sq_finished_reason r'' = Some ?x \<and> breq_out r'' = breq_out r @ [t]"
    if "\<not> sq_finished r" for r using aborted_accept_output [of "r\<lparr>sq_to_finish := Some ?x\<rparr>" ?x re t] that by simp
  show ?thesis
    unfolding abort_request_eq
    by (rule exI, rule conjI [OF refl], intro conjI)
      (auto simp: list_all2_conv_all_nth grammar_abort_requests_def set_finish_with_abort_def abort_running_def run)
qed

theorem abort_request_ends_selected_witness:
  "\<exists>c s' r' r''. rc_enabled c \<and> abort_request False ''a'' \<lparr>rs_batch = [sample_stopping_req [0] []], rs_others = [sample_decode_req 0 ''ac'' 1], rs_pool = sample_decode_pool, rs_cache = c,
        rs_waiting_queue = [sample_decode_req 0 ''ab'' 1, sample_decode_req 0 ''b'' 1, sample_decode_req 0 ''aa'' 2], rs_grammar_queue = [], rs_aborted = []\<rparr> = Inr s'
     \<and> map sq_rid (rs_waiting_queue s') = [''b''] \<and> rs_aborted s' = [''aa'', ''ab'']
     \<and> accept_output sample_result_env 0 (rs_batch s' ! 0) = Inr r' \<and> sq_finished_reason r' = Some (finish_abort None None None)
     \<and> accept_output sample_result_env 0 (rs_others s' ! 0) = Inr r'' \<and> sq_finished_reason r'' = Some (finish_abort None None None)"
proof -
  obtain c where c: "rc_enabled c" using sample_cache_ok by blast
  show ?thesis
    using c abort_request_ends_selected [where al = False and rid = "''a''" and re = sample_result_env and t = 0
      and s = "\<lparr>rs_batch = [sample_stopping_req [0] []], rs_others = [sample_decode_req 0 ''ac'' 1], rs_pool = sample_decode_pool, rs_cache = c,
        rs_waiting_queue = [sample_decode_req 0 ''ab'' 1, sample_decode_req 0 ''b'' 1, sample_decode_req 0 ''aa'' 2], rs_grammar_queue = [], rs_aborted = []\<rparr>"]
    by (intro exI [of _ c]) (auto simp: abort_selects_def list_all2_Cons1)
qed

end
