(* ===== verification/Round_Props.thy ===== *)
theory Round_Props
  imports Decode_Rounds Finish_Props
begin

text \<open>
  The properties of rounds of decoding.
\<close>

section \<open>Rounds of decoding\<close>

abbreviation sample_zeros :: "schedule_batch \<Rightarrow> int list" where
  "sample_zeros b \<equiv> map (\<lambda>_. 0) (bt_reqs b)"

lemma sample_serving: "\<exists>samp c. serving (\<lambda>s. 0, False, False, 2) sample_env sample_queue_cfg 2 1 (sample_decode_state c samp)"
proof -
  let ?S = "(\<lambda>s. 0, False, False, 2) :: samp_config"
  obtain samp c where r: "decode_ready ?S (fresh_rows [sample_samp_req, sample_samp_req]) sample_env sample_queue_cfg
     {2, 3, 4, 5, 6, 7, 8, 9} sample_pages (sample_decode_state c samp)" using sample_decode_ready by blast
  let ?s = "sample_decode_state c samp"
  have b: "ds_running_batch ?s = sample_batch (sample_two (rc_root c)) [1, 2] samp" "ds_req_to_token_pool ?s = sample_decode_pool" "ds_waiting_queue ?s = []"
     "ds_aborted ?s = []" by (simp_all add: sample_decode_state_def)
  have rs: "bt_reqs (ds_running_batch ?s) = sample_two (rc_root c)" "\<not> bt_enable_overlap (ds_running_batch ?s)" unfolding b by (simp_all add: sample_batch_def)
  have "req_fits 2 2 sample_decode_pool (sample_decode_req (rc_root c) rid i) \<and> 1 \<le> length (breq_out (sample_decode_req (rc_root c) rid i))"
    if "i = 1 \<or> i = 2" for rid i
    using that by (auto simp: req_fits_def stop_params_ok_def sample_decode_pool_def) (simp_all add: sample_decode_req_def)
  then have "\<forall>r\<in>set (sample_two (rc_root c)). req_fits 2 2 sample_decode_pool r \<and> 1 \<le> length (breq_out r)" by simp
  moreover have "queue_ok sample_queue_cfg []" by (simp add: queue_ok_def)
  ultimately have "serving ?S sample_env sample_queue_cfg 2 1 ?s" unfolding serving_def rs(1) b(2-4) using r rs(2) by auto
  then show ?thesis by blast
qed

text \<open>
  C10: Decoding goes on for any number of rounds. Let the running batch be aligned with its requests,
  let each unfinished request own its pages and its row, with room there for all it may still produce,
  and let the model sample tokens of the vocabulary. Then every round of \<open>event_loop_normal\<close> returns
  normally, whatever requests stop at a token, at a string or at their length, are refused by their
  grammar, are retracted or are aborted: no allocation fails, no assertion of the release of their memory is hit, and
  after any number of rounds the batch is in such a state again. No request appears that was not there,
  and none is in two places.
\<close>

theorem decode_rounds_safe:
  assumes "serving S env cfg M k s" "\<forall>(re, test, sample)\<in>set rds. samples (snd (snd (snd S))) sample"
  shows "\<exists>s' gq'. decode_rounds env cfg rds (s, gq) = Inr (s', gq') \<and> serving S env cfg M (k + length rds) s' \<and> all_rids s' \<subseteq># all_rids s"
  by (rule decode_rounds_ok [OF assms])

theorem decode_rounds_safe_witness:
  "\<exists>samp c s' gq'. decode_rounds sample_env sample_queue_cfg [(sample_result_env, True, sample_zeros), (sample_result_env, False, sample_zeros)] (sample_decode_state c samp, [])
      = Inr (s', gq') \<and> all_rids s' \<subseteq># {#''a'', ''b''#}"
proof -
  obtain samp c where sv: "serving (\<lambda>s. 0, False, False, 2) sample_env sample_queue_cfg 2 1 (sample_decode_state c samp)" using sample_serving by blast
  have "all_rids (sample_decode_state c samp) = {#''a'', ''b''#}" by (simp add: all_rids_def sample_decode_state_def sample_batch_def)
  then show ?thesis
    using decode_rounds_safe [OF sv, of "[(sample_result_env, True, sample_zeros), (sample_result_env, False, sample_zeros)]" "[]"]
    by (auto simp: samples_def)
qed

text \<open>
  C11: Every request leaves the running batch. If no request may produce more than \<open>M\<close> tokens, then after
  \<open>M\<close> rounds every request that is still in the running batch has finished; all others were finished
  earlier, or were retracted to the waiting queue or aborted.
\<close>

theorem decode_rounds_finish:
  assumes "serving S env cfg M k s" "\<forall>(re, test, sample)\<in>set rds. samples (snd (snd (snd S))) sample" "M \<le> k + length rds"
  shows "\<exists>s' gq'. decode_rounds env cfg rds (s, gq) = Inr (s', gq') \<and> (\<forall>r\<in>set (bt_reqs (ds_running_batch s')). sq_finished r)"
proof -
  obtain s' gq' where s': "decode_rounds env cfg rds (s, gq) = Inr (s', gq')" "serving S env cfg M (k + length rds) s'"
    using decode_rounds_ok [OF assms(1,2)] by blast
  have "sq_finished r" if r: "r \<in> set (bt_reqs (ds_running_batch s'))" for r
  proof (rule ccontr)
    assume "\<not> sq_finished r"
    then have "req_fits (snd (snd (snd S))) M (ds_req_to_token_pool s') r" "k + length rds \<le> length (breq_out r)" using s'(2) r by (auto simp: serving_def)
    then show False using assms(3) by (simp add: req_fits_def)
  qed
  with s'(1) show ?thesis by blast
qed

theorem decode_rounds_finish_witness:
  "\<exists>samp c s' gq'. decode_rounds sample_env sample_queue_cfg [(sample_result_env, False, sample_zeros)] (sample_decode_state c samp, []) = Inr (s', gq')
     \<and> list_all sq_finished (bt_reqs (ds_running_batch s'))"
proof -
  obtain samp c where sv: "serving (\<lambda>s. 0, False, False, 2) sample_env sample_queue_cfg 2 1 (sample_decode_state c samp)" using sample_serving by blast
  show ?thesis
    using decode_rounds_finish [OF sv, of "[(sample_result_env, False, sample_zeros)]" "[]"]
    by (auto simp: samples_def list_all_iff)
qed

end
