(* ===== verification/Spec2Isabelle.thy ===== *)
theory Spec2Isabelle
  imports Radix_Props Block_Hash Kv_Kernels Prefill_Admission Input_Blocker Extend_Props Round_Props
begin

text \<open>
  A verification development for the serving runtime of SGLang (\<open>python/sglang/srt\<close>): the memory
  that requests share, and the scheduler that hands it out.

  \<^bold>\<open>The program.\<close> A scheduler process keeps a waiting queue and a running batch. Requests enter the
  queue (\<open>managers/scheduler.py\<close>), are ordered by a policy and admitted to a prefill batch
  (\<open>managers/schedule_policy.py\<close>) as far as memory allows. The keys and values of their tokens live
  in slots of a pool that an allocator hands out in pages (\<open>mem_cache/allocator.py\<close>); a table of
  rows records the slots of every running request (\<open>mem_cache/memory_pool.py\<close>). A radix tree
  (\<open>mem_cache/radix_cache.py\<close>) keeps the slots of finished requests so that a request with the same
  prefix reuses them; nodes in use are locked, unlocked leaves are evicted when memory is short
  (\<open>mem_cache/common.py\<close>). Every decode step needs one slot per running request; when eviction
  is not enough, requests are retracted to the queue (\<open>managers/schedule_batch.py\<close>). When the tokens of
  a step are known, finished requests are released
  (\<open>managers/scheduler_output_processor_mixin.py\<close>). Sampling state
  (\<open>sampling/\<close>) runs parallel to the batch. Processes of a group agree on blocking their input and on
  delaying prefill (\<open>managers/scheduler_input_blocker.py\<close>, \<open>managers/prefill_delayer.py\<close>).

  \<^bold>\<open>Conventions.\<close> A Python exception is the \<open>Inl\<close> side of a result (\<open>Prelude\<close>); a loop whose end is
  not structural has fuel, and running out of it is the separate error \<open>OutOfFuel\<close>. The loops over the
  tree take the number of nodes ever created (\<open>rc_counter\<close>) as fuel; the theorems state that the
  operations return, so this bound is shown to be enough, not assumed. The heap of tree nodes is a
  function from node ids to records, so that aliasing of nodes is explicit. Token ids and slots are
  unbounded integers, as in Python; where a tensor has a width (page hashes, event hashes) the
  wrap-around is written out, and the identifier of a block is shown to be the 64-bit word it stands for.
  Floating-point numbers are rationals, with infinities and NaN in the logits and in the arguments
  that \<open>verify\<close> checks. Clock readings, iteration orders of sets, the contents of uninitialised memory,
  SHA-256, the tokenizer, the parser of regular expressions and the results of collective
  communication are arguments; theorems that rely on them name the assumption (for example that
  an order enumerates its set).

  \<^bold>\<open>Simplifications.\<close> An operation on the radix tree reads the clock once, where the source takes a
  reading for every node it touches or creates: access times within one operation are equal here, and no
  theorem relies on their order within an operation. Lengths that the source keeps both on the host
  and on the device are one list in \<open>alloc_extend\<close>, \<open>alloc_decode\<close> and \<open>alloc_for_decode\<close>; the
  batch itself keeps both, and they are shown to be equal. The masked lanes of the two
  loads of a kernel get the same arbitrary value and cancel in its sums; Triton leaves them undefined,
  and the kernel relies on this. The dictionaries of custom logit processors
  are merged in a fixed order of their keys.

  \<^bold>\<open>The theories.\<close>

  \<^item> \<open>Prelude\<close>: results, insertion-ordered dictionaries, common prefixes, page arithmetic.
  \<^item> \<open>Heapq\<close>: the standard library's binary heap as CPython implements it; locale \<open>priority_queue\<close>.
  \<^item> \<open>Radix_Key\<close>, \<open>Tree_Node\<close>, \<open>Evict_Policy\<close>, \<open>Radix_Cache\<close>: \<open>RadixKey\<close>, \<open>TreeNode\<close> and
    \<open>RadixCache\<close> with their events, block hashes and eviction strategies, one definition per method.
    \<open>Block_Hash\<close>: the hashes of a node are a chain of digests over its pages.
  \<^item> \<open>Radix_Tree\<close>, \<open>Radix_Split\<close>, \<open>Radix_Lookup\<close>, \<open>Radix_Insert\<close>, \<open>Radix_Lock\<close>, \<open>Radix_Slots\<close>,
    \<open>Radix_Evict\<close>: the structural and the accounting invariant and their preservation. The
    abstract cache is its \<^emph>\<open>content\<close>: the set of page-aligned prefixes it stores, with their slots.
  \<^item> \<open>Prefix_Cache\<close>, \<open>Radix_Props\<close>: the contract of a prefix cache as the locale \<open>prefix_cache\<close>, its
    interpretation by \<open>RadixCache\<close>, and the properties of lookup, insertion, locking, eviction and
    size accounting.
  \<^item> \<open>Kv_Allocator\<close>, \<open>Kv_Kernels\<close>: the token and the paged allocator (locale \<open>kv_allocator\<close>, interpreted
    three times) and the kernels that place the tokens of a batch in pages, with their Python
    reference implementation.
  \<^item> \<open>Req_Pool\<close>, \<open>Req_Cache\<close>, \<open>Kv_Release\<close>: rows of requests, the handover of finished and chunked
    requests to the cache, allocation with eviction, release. The properties say that no slot leaks
    and none is freed twice.
  \<^item> \<open>Schedule_Policy\<close>, \<open>Schedule_Order\<close>: the orders of the waiting queue.
  \<^item> \<open>Prefill_Adder\<close>, \<open>Prefill_Admission\<close>: the budget of a prefill batch and the admission loop of the
    scheduler, which never promises more memory than there is.
  \<^item> \<open>Waiting_Queue\<close>, \<open>Queue_Limit\<close>: entry into the queue, its limit and its timeout.
  \<^item> \<open>Sampling_Params\<close>, \<open>Penalizers\<close>, \<open>Sampling_Batch\<close>, \<open>Sampling_Rows\<close>, \<open>Sampling_Runs\<close>,
    \<open>Sampling_Props\<close>: sampling parameters, penalties and the sampling state of a batch; a run of
    construction, decoding, filtering and merging refines the sampling of each request alone.
  \<^item> \<open>Schedule_Batch\<close>: batches on the decode path and \<open>update_running_batch\<close>.
  \<^item> \<open>Batch_Align\<close>: the tensors of a batch stay aligned with its requests.
  \<^item> \<open>Req_Owner\<close>, \<open>Retract_Decode\<close>, \<open>Retract_Batch\<close>, \<open>Decode_Step\<close>, \<open>Decode_Safe\<close>, \<open>Decode_Props\<close>: ownership
    of memory by the requests of a batch, retraction, the allocation of the next slots, and the
    decode step as a whole: it evicts, retracts or aborts, but never raises an out-of-memory error.
  \<^item> \<open>Extend_Batch\<close>: construction and preparation of a prefill batch, with the two implementations
    that record its slots in the table of rows. \<open>Extend_Write\<close>, \<open>Extend_Owner\<close>, \<open>Extend_Safe\<close>,
    \<open>Extend_Props\<close>: they write the same rows; a request that was admitted with a locked prefix owns all
    its memory after the preparation, and the running requests keep theirs.
  \<^item> \<open>Req_Finish\<close>, \<open>Batch_Result\<close>, \<open>Finish_Props\<close>: when a request ends, and the results of prefill and
    decode batches (\<open>managers/scheduler_output_processor_mixin.py\<close>) with the abort of requests.
  \<^item> \<open>Free_Group\<close>, \<open>Decode_Result\<close>, \<open>Result_Group\<close>, \<open>Decode_Rounds\<close>, \<open>Round_Props\<close>: processing the results of
    a decode batch gives back exactly what the finished requests own, although the allocator collects
    the frees and executes them at the end; so rounds of decoding can follow each other for ever,
    and every request leaves the batch after at most as many rounds as it may produce tokens.
  \<^item> \<open>Input_Blocker\<close>, \<open>Prefill_Delayer\<close>: the agreements of the scheduler processes, over runs of the
    whole group.

  \<^bold>\<open>Not modelled.\<close> The sliding-window, mamba and hierarchical variants of the cache and the branches for
  them in the modelled functions; disaggregated prefill and decode; the execution of
  speculative decoding (its memory estimate is modelled); LoRA, diffusion language models beyond
  their token budget, grammars (the mask is an argument of sampling); encoder-decoder models and
  multimodal or embedding inputs of a prefill batch; the overlapped event loop (the rounds are those of
  the normal one); log probabilities and streamed output; the forward pass itself with layers, kernels and quantization, which is numerical code;
  entry points, tokenizer and detokenizer processes, message transport, metrics and logging; the
  frontend language and the diffusion pipelines, which are separate programs.
\<close>

end
